(* ===== verification/Prelude.thy ===== *)
theory Prelude
  imports Main "HOL-Library.AList" "HOL-Library.Multiset"
begin

text \<open>
  Shared ground of the development: the outcome of code that can throw, loops whose body can
  throw, JavaScript's insertion-ordered maps and sets, decimal numerals, and one generic
  depth-first search whose correctness the graph components reuse through the locale
  \<open>search_space\<close>.
\<close>

named_theorems res_simps \<open>rewriting of computations that may throw\<close>
named_theorems jsmap_simps \<open>laws of insertion-ordered maps\<close>

section \<open>Outcomes\<close>

text \<open>
  A \<open>js_error\<close> is what a throwing statement throws. \<open>OutOfFuel\<close> is no
  JavaScript error: it marks a recursion that spent its fuel, and the totality lemmas show it
  is never returned with the fuel the top-level functions pass.
\<close>

datatype js_error =
    AssertionError
  | TypeError
  | ApplicationError string
  | UserError string
  | OperationalError string
  | UnexpectedError string
  | WorkflowHasIssuesError
  | NodeError string
  | OutOfFuel

type_synonym 'a res = "js_error + 'a"

definition rbind :: "'a res \<Rightarrow> ('a \<Rightarrow> 'b res) \<Rightarrow> 'b res" where
  "rbind m f = (case m of Inl e \<Rightarrow> Inl e | Inr x \<Rightarrow> f x)"

lemma rbind_Inl [simp]: "rbind (Inl e) f = Inl e"
  by (simp add: rbind_def)

lemma rbind_Inr [simp]: "rbind (Inr x) f = f x"
  by (simp add: rbind_def)

lemma rbind_eq_Inr [res_simps]: "rbind m f = Inr y \<longleftrightarrow> (\<exists>x. m = Inr x \<and> f x = Inr y)"
  by (cases m) simp_all

lemma rbind_eq_Inl [res_simps]:
  "rbind m f = Inl e \<longleftrightarrow> m = Inl e \<or> (\<exists>x. m = Inr x \<and> f x = Inl e)"
  by (cases m) auto

lemma rbind_InrE:
  assumes "rbind m f = Inr y"
  obtains x where "m = Inr x" and "f x = Inr y"
  using assms by (auto simp: rbind_eq_Inr)

lemma rbind_assoc: "rbind (rbind m f) g = rbind m (\<lambda>x. rbind (f x) g)"
  by (cases m) simp_all

lemma rbind_cong [fundef_cong]:
  "m = m' \<Longrightarrow> (\<And>x. m' = Inr x \<Longrightarrow> f x = f' x) \<Longrightarrow> rbind m f = rbind m' f'"
  by (cases m') simp_all

text \<open>\<open>assert.ok\<close> of node's assert module.\<close>

definition assert_ok :: "bool \<Rightarrow> unit res" where
  "assert_ok b = (if b then Inr () else Inl AssertionError)"

lemma assert_ok_simps [simp]: "assert_ok True = Inr ()" "assert_ok False = Inl AssertionError"
  by (simp_all add: assert_ok_def)

lemma assert_ok_eq_Inr [res_simps]: "assert_ok b = Inr u \<longleftrightarrow> b"
  by (simp add: assert_ok_def)

section \<open>Loops whose body may throw\<close>

primrec foldR :: "('s \<Rightarrow> 'a \<Rightarrow> 's res) \<Rightarrow> 's \<Rightarrow> 'a list \<Rightarrow> 's res" where
  "foldR f s [] = Inr s"
| "foldR f s (x # xs) = rbind (f s x) (\<lambda>t. foldR f t xs)"

lemma foldR_append: "foldR f s (xs @ ys) = rbind (foldR f s xs) (\<lambda>t. foldR f t ys)"
  by (induction xs arbitrary: s) (simp_all add: rbind_assoc)

lemma foldR_cong [fundef_cong]:
  "s = s' \<Longrightarrow> xs = ys \<Longrightarrow> (\<And>x t. x \<in> set ys \<Longrightarrow> f t x = g t x) \<Longrightarrow> foldR f s xs = foldR g s' ys"
proof (induction ys arbitrary: s s' xs)
  case Nil
  then show ?case by simp
next
  case (Cons y ys)
  have "foldR f t ys = foldR g t ys" for t
    using Cons.IH [of t t ys] Cons.prems(3) by simp
  then show ?case using Cons.prems by (simp add: rbind_def split: sum.split)
qed

text \<open>Partial correctness of a loop: an invariant of the body holds for the result.\<close>

lemma foldR_invariant:
  assumes "foldR f s xs = Inr t" and "P s"
    and "\<And>s x t. x \<in> set xs \<Longrightarrow> P s \<Longrightarrow> f s x = Inr t \<Longrightarrow> P t"
  shows "P t"
  using assms
proof (induction xs arbitrary: s)
  case Nil
  then show ?case by simp
next
  case (Cons x xs)
  then obtain u where u: "f s x = Inr u" "foldR f u xs = Inr t"
    by (auto simp: res_simps)
  then have "P u" using Cons.prems(2,3) by auto
  then show ?case using Cons.IH [OF u(2)] Cons.prems(3) by auto
qed

text \<open>Total correctness: a body that cannot fail under the invariant makes a loop that cannot.\<close>

lemma foldR_total:
  assumes "P s" and "\<And>s x. x \<in> set xs \<Longrightarrow> P s \<Longrightarrow> \<exists>t. f s x = Inr t \<and> P t"
  shows "\<exists>t. foldR f s xs = Inr t \<and> P t"
  using assms
proof (induction xs arbitrary: s)
  case Nil
  then show ?case by simp
next
  case (Cons x xs)
  then obtain u where u: "f s x = Inr u" "P u" by (meson list.set_intros(1))
  then have "\<exists>t. foldR f u xs = Inr t \<and> P t"
    using Cons.IH [of u] Cons.prems(2) by auto
  then show ?case using u by simp
qed

text \<open>A body that cannot fail is a plain fold.\<close>

lemma foldR_Inr [simp]: "foldR (\<lambda>s x. Inr (f s x)) s xs = Inr (foldl f s xs)"
  by (induction xs arbitrary: s) simp_all

text \<open>An error of the loop is an error of one of its bodies.\<close>

lemma foldR_error:
  "foldR f s xs = Inl e \<Longrightarrow> \<exists>x \<in> set xs. \<exists>t. f t x = Inl e"
  by (induction xs arbitrary: s) (auto simp: res_simps)

text \<open>A loop that only adds to a collection adds the union of what its bodies add.\<close>

lemma set_foldl_union:
  assumes "\<And>r x. x \<in> set xs \<Longrightarrow> set (f r x) = set r \<union> g x"
  shows "set (foldl f r xs) = set r \<union> (\<Union>x \<in> set xs. g x)"
  using assms by (induction xs arbitrary: r) auto

lemma foldl_invariant:
  assumes "P s" and "\<And>s x. x \<in> set xs \<Longrightarrow> P s \<Longrightarrow> P (f s x)"
  shows "P (foldl f s xs)"
  using assms by (induction xs arbitrary: s) auto

section \<open>Sets in insertion order\<close>

text \<open>\<open>Set.prototype.add\<close> keeps the place of an element that is already there.\<close>

definition sadd :: "'a \<Rightarrow> 'a list \<Rightarrow> 'a list" where
  "sadd x xs = (if x \<in> set xs then xs else xs @ [x])"

lemma set_sadd [simp]: "set (sadd x xs) = insert x (set xs)"
  by (auto simp: sadd_def)

lemma distinct_sadd [simp]: "distinct (sadd x xs) = distinct xs"
  by (auto simp: sadd_def)

lemma length_sadd_le: "length (sadd x xs) \<le> Suc (length xs)"
  by (simp add: sadd_def)

text \<open>\<open>new Set(xs)\<close>\<close>

definition to_set :: "'a list \<Rightarrow> 'a list" where
  "to_set xs = foldl (\<lambda>s x. sadd x s) [] xs"

lemma foldl_sadd: "set (foldl (\<lambda>s x. sadd x s) s xs) = set s \<union> set xs"
  by (induction xs arbitrary: s) auto

lemma distinct_foldl_sadd [simp]: "distinct (foldl (\<lambda>s x. sadd x s) s xs) = distinct s"
  by (induction xs arbitrary: s) auto

lemma set_to_set [simp]: "set (to_set xs) = set xs"
  by (simp add: to_set_def foldl_sadd)

lemma distinct_to_set [simp]: "distinct (to_set xs)"
  by (simp add: to_set_def)

lemma to_set_Nil_iff [simp]: "to_set xs = [] \<longleftrightarrow> xs = []"
  by (metis set_to_set set_empty)

section \<open>Insertion-ordered maps\<close>

text \<open>
  A JavaScript \<open>Map\<close> (and an object used as a dictionary) is an association list with
  distinct keys: setting a key that is there keeps its place, setting a new key appends it.
  These are \<^const>\<open>AList.update\<close> and \<^const>\<open>AList.delete\<close>. The locale states what the
  components rely on.
\<close>

locale ordered_map =
  fixes emp :: 'm
    and look :: "'m \<Rightarrow> 'k \<Rightarrow> 'v option"
    and put :: "'k \<Rightarrow> 'v \<Rightarrow> 'm \<Rightarrow> 'm"
    and del :: "'k \<Rightarrow> 'm \<Rightarrow> 'm"
    and keys :: "'m \<Rightarrow> 'k list"
    and inv :: "'m \<Rightarrow> bool"
  assumes look_emp: "look emp k = None"
    and look_put: "inv m \<Longrightarrow> look (put k v m) k' = (if k' = k then Some v else look m k')"
    and look_del: "inv m \<Longrightarrow> look (del k m) k' = (if k' = k then None else look m k')"
    and keys_put: "inv m \<Longrightarrow> keys (put k v m) = (if k \<in> set (keys m) then keys m else keys m @ [k])"
    and keys_del: "inv m \<Longrightarrow> keys (del k m) = removeAll k (keys m)"
    and keys_look: "inv m \<Longrightarrow> k \<in> set (keys m) \<longleftrightarrow> look m k \<noteq> None"
    and inv_emp: "inv emp"
    and inv_put: "inv m \<Longrightarrow> inv (put k v m)"
    and inv_del: "inv m \<Longrightarrow> inv (del k m)"
begin

lemma inv_puts: "inv m \<Longrightarrow> inv (foldl (\<lambda>m x. put (f x) (g x) m) m xs)"
  by (induction xs arbitrary: m) (simp_all add: inv_put)

lemma keys_puts:
  "inv m \<Longrightarrow> set (keys (foldl (\<lambda>m x. put (f x) (g x) m) m xs)) = set (keys m) \<union> f ` set xs"
  by (induction xs arbitrary: m) (auto simp: inv_put keys_put)

lemma look_puts:
  assumes "inv m" and "inj_on f (set xs)" and "x \<in> set xs"
  shows "look (foldl (\<lambda>m x. put (f x) (g x) m) m xs) (f x) = Some (g x)"
  using assms
proof (induction xs rule: rev_induct)
  case (snoc y ys)
  have inv: "inv (foldl (\<lambda>m x. put (f x) (g x) m) m ys)"
    using snoc.prems(1) by (rule inv_puts)
  show ?case
  proof (cases "x = y")
    case True
    with inv show ?thesis by (simp add: look_put)
  next
    case False
    with snoc.prems have "f x \<noteq> f y" by (auto simp: inj_on_def)
    with snoc inv False show ?thesis by (auto simp: look_put inj_on_def)
  qed
qed simp

lemma look_puts_other:
  assumes "inv m" and "k \<notin> f ` set xs"
  shows "look (foldl (\<lambda>m x. put (f x) (g x) m) m xs) k = look m k"
  using assms by (induction xs arbitrary: m) (auto simp: inv_put look_put)

lemma look_dels:
  assumes "inv m"
  shows "look (foldl (\<lambda>m k. del k m) m ks) k' = (if k' \<in> set ks then None else look m k')"
  using assms by (induction ks arbitrary: m) (auto simp: inv_del look_del)

lemma inv_dels: "inv m \<Longrightarrow> inv (foldl (\<lambda>m k. del k m) m ks)"
  by (induction ks arbitrary: m) (simp_all add: inv_del)

end

type_synonym ('k, 'v) jsmap = "('k \<times> 'v) list"

definition jsmap_ok :: "('k, 'v) jsmap \<Rightarrow> bool" where
  "jsmap_ok m = distinct (map fst m)"

interpretation js: ordered_map "[]" map_of AList.update AList.delete "map fst" jsmap_ok
proof
  fix m :: "('a, 'b) jsmap" and k k' :: 'a and v :: 'b
  show "map_of (AList.update k v m) k' = (if k' = k then Some v else map_of m k')"
    by (simp add: update_conv')
  show "map_of (AList.delete k m) k' = (if k' = k then None else map_of m k')"
    by (simp add: delete_conv')
  show "(k \<in> set (map fst m)) = (map_of m k \<noteq> None)"
    by (simp add: map_of_eq_None_iff)
qed (simp_all add: jsmap_ok_def update_keys delete_keys distinct_removeAll)

lemmas [jsmap_simps] = update_conv' delete_conv' dom_update update_keys delete_keys

text \<open>\<open>map.values()\<close>, and every value after an update is the new one or an old one.\<close>

abbreviation vals :: "('k, 'v) jsmap \<Rightarrow> 'v list" where
  "vals m \<equiv> map snd m"

lemma set_update_subset: "set (AList.update k v m) \<subseteq> insert (k, v) (set m)"
  by (induction m) auto

lemma update_in: "(k, v) \<in> set (AList.update k v m)"
  by (induction m) auto

lemma set_update_ok:
  "distinct (map fst m) \<Longrightarrow> set (AList.update k v m) = insert (k, v) {p \<in> set m. fst p \<noteq> k}"
  by (induction m) force+

lemma set_delete: "set (AList.delete k m) = {p \<in> set m. fst p \<noteq> k}"
  by (auto simp: AList.delete_eq)

lemma length_delete_less: "map_of m k = Some v \<Longrightarrow> length (AList.delete k m) < length m"
  by (induction m) (auto simp: less_Suc_eq_le intro: le_trans [OF length_delete_le])

lemma length_update_new:
  "length (AList.update k v m) = (if map_of m k = None then Suc (length m) else length m)"
  by (induction m) auto

section \<open>Numerals in strings\<close>

text \<open>The decimal text of a natural number, as in a template literal.\<close>

definition digit :: "nat \<Rightarrow> char" where
  "digit n = char_of (48 + n)"

fun show_nat :: "nat \<Rightarrow> string" where
  "show_nat n = (if n < 10 then [digit n] else show_nat (n div 10) @ [digit (n mod 10)])"

declare show_nat.simps [simp del]

lemma show_nat_nonempty [simp]: "show_nat n \<noteq> []"
  by (subst show_nat.simps) simp

lemma digit_inj: "m < 10 \<Longrightarrow> n < 10 \<Longrightarrow> digit m = digit n \<Longrightarrow> m = n"
  by (simp add: digit_def)

lemma show_nat_not_Nil: "[] \<noteq> show_nat n"
  by (metis show_nat_nonempty)

lemma show_nat_inj: "show_nat m = show_nat n \<Longrightarrow> m = n"
proof (induction m arbitrary: n rule: show_nat.induct)
  case (1 m)
  have rec: "show_nat k = (if k < 10 then [digit k] else show_nat (k div 10) @ [digit (k mod 10)])" for k
    by (rule show_nat.simps)
  show ?case
  proof (cases "m < 10")
    case True
    with "1.prems" show ?thesis using rec [of m] rec [of n]
      by (cases "n < 10") (auto simp: show_nat_not_Nil dest: digit_inj)
  next
    case False
    then have n: "\<not> n < 10" using "1.prems" rec [of m] rec [of n] by (cases "n < 10") auto
    from "1.prems" rec [of m] rec [of n] False n
    have "show_nat (m div 10) = show_nat (n div 10)" "digit (m mod 10) = digit (n mod 10)" by auto
    then have "m div 10 = n div 10" "m mod 10 = n mod 10"
      using "1.IH" [OF False] digit_inj [of "m mod 10" "n mod 10"] by simp_all
    then show ?thesis by (metis div_mult_mod_eq)
  qed
qed

section \<open>Depth-first search\<close>

text \<open>
  The recursion shared by \<open>getChildrenRecursive\<close> and \<open>getParentConnectionsRecursive\<close>: for
  every successor that is not in the result set yet, add it and go on from it. One unit of
  fuel is one level of the recursion.
\<close>

fun visit :: "nat \<Rightarrow> ('a \<Rightarrow> 'a list res) \<Rightarrow> 'a list \<Rightarrow> 'a list \<Rightarrow> 'a list res" where
  "visit 0 succ xs seen = Inl OutOfFuel"
| "visit (Suc n) succ xs seen =
     foldR (\<lambda>seen x. if x \<in> set seen then Inr seen
                     else rbind (succ x) (\<lambda>ys. visit n succ ys (seen @ [x]))) seen xs"

definition succ_rel :: "('a \<Rightarrow> 'a list res) \<Rightarrow> ('a \<times> 'a) set" where
  "succ_rel succ = {(x, y). \<exists>ys. succ x = Inr ys \<and> y \<in> set ys}"

text \<open>What one visit achieves, whatever was seen before: it keeps what was seen, adds its
  start nodes and closes what it adds under successors.\<close>

definition visited :: "('a \<Rightarrow> 'a list res) \<Rightarrow> 'a set \<Rightarrow> 'a list \<Rightarrow> 'a list \<Rightarrow> 'a list \<Rightarrow> bool" where
  "visited succ U xs seen r \<longleftrightarrow>
     set seen \<union> set xs \<subseteq> set r \<and> set r \<subseteq> set seen \<union> U \<and> (distinct seen \<longrightarrow> distinct r) \<and>
     succ_rel succ `` (set r - set seen) \<subseteq> set r"

lemma visited_Cons:
  assumes r1: "visited succ U ys (seen @ [x]) r1" and r: "visited succ U xs r1 r"
    and ys: "succ x = Inr ys" and x: "x \<in> U" "x \<notin> set seen"
  shows "visited succ U (x # xs) seen r"
proof -
  have x_closed: "succ_rel succ `` {x} \<subseteq> set r1"
    using r1 ys by (auto simp: visited_def succ_rel_def)
  have "set r1 - set seen \<subseteq> insert x (set r1 - set (seen @ [x]))" by auto
  then have "succ_rel succ `` (set r1 - set seen) \<subseteq> set r1"
    using r1 x_closed unfolding visited_def by blast
  moreover have "set r - set seen \<subseteq> (set r - set r1) \<union> (set r1 - set seen)" by auto
  ultimately have "succ_rel succ `` (set r - set seen) \<subseteq> set r"
    using r unfolding visited_def by blast
  then show ?thesis using r1 r x by (auto simp: visited_def)
qed

lemma visit_total:
  assumes fin: "finite U"
    and ok: "\<And>x. x \<in> U \<Longrightarrow> \<exists>ys. succ x = Inr ys \<and> set ys \<subseteq> U"
  shows "set xs \<subseteq> U \<Longrightarrow> card (U - set seen) < n \<Longrightarrow>
    \<exists>r. visit n succ xs seen = Inr r \<and> visited succ U xs seen r"
proof (induction n arbitrary: xs seen)
  case 0
  then show ?case by simp
next
  case (Suc n)
  show ?case using Suc.prems
  proof (induction xs arbitrary: seen)
    case Nil
    then show ?case by (auto simp: visited_def)
  next
    case (Cons x xs)
    show ?case
    proof (cases "x \<in> set seen")
      case True
      with Cons show ?thesis by (fastforce simp: visited_def)
    next
      case False
      obtain ys where ys: "succ x = Inr ys" "set ys \<subseteq> U"
        using ok [of x] Cons.prems(1) by auto
      have "U - set (seen @ [x]) \<subset> U - set seen"
        using Cons.prems(1) False by auto
      then have less: "card (U - set (seen @ [x])) < card (U - set seen)"
        using fin by (intro psubset_card_mono) auto
      then obtain r1 where r1: "visit n succ ys (seen @ [x]) = Inr r1"
          "visited succ U ys (seen @ [x]) r1"
        using Suc.IH [of ys "seen @ [x]"] ys(2) Cons.prems(2) by auto
      have "card (U - set r1) \<le> card (U - set seen)"
        using fin r1(2) by (intro card_mono) (auto simp: visited_def)
      then obtain r where r: "visit (Suc n) succ xs r1 = Inr r" "visited succ U xs r1 r"
        using Cons.IH [of r1] Cons.prems by auto
      have "visited succ U (x # xs) seen r"
        using visited_Cons [OF r1(2) r(2) ys(1)] Cons.prems(1) False by simp
      with r1(1) r(1) ys(1) False show ?thesis by auto
    qed
  qed
qed

lemma visit_sound:
  "visit n succ xs seen = Inr r \<Longrightarrow> set r \<subseteq> set seen \<union> (succ_rel succ)\<^sup>* `` set xs"
proof (induction n arbitrary: xs seen r)
  case 0
  then show ?case by simp
next
  case (Suc n)
  show ?case using Suc.prems
  proof (induction xs arbitrary: seen)
    case Nil
    then show ?case by simp
  next
    case (Cons x xs)
    show ?case
    proof (cases "x \<in> set seen")
      case True
      with Cons show ?thesis by fastforce
    next
      case False
      then obtain ys r1 where ys: "succ x = Inr ys" and r1: "visit n succ ys (seen @ [x]) = Inr r1"
          and r: "visit (Suc n) succ xs r1 = Inr r"
        using Cons.prems by (auto simp: res_simps)
      have step: "set ys \<subseteq> (succ_rel succ) `` {x}" using ys by (auto simp: succ_rel_def)
      have "(succ_rel succ)\<^sup>* `` set ys \<subseteq> (succ_rel succ)\<^sup>* `` {x}"
        using step by (auto intro: converse_rtrancl_into_rtrancl)
      with Suc.IH [OF r1] Cons.IH [OF r] show ?thesis by fastforce
    qed
  qed
qed

text \<open>
  The search shared by the functions that look for the first node with a property, depth first:
  the node found so far and the nodes seen so far.
\<close>

fun search :: "nat \<Rightarrow> ('a \<Rightarrow> 'a list res) \<Rightarrow> ('a \<Rightarrow> bool) \<Rightarrow> 'a \<Rightarrow> 'a list \<Rightarrow> ('a option \<times> 'a list) res" where
  "search 0 succ p x seen = Inl OutOfFuel"
| "search (Suc n) succ p x seen =
     (if x \<in> set seen then Inr (None, seen)
      else if p x then Inr (Some x, sadd x seen)
      else rbind (succ x) (\<lambda>ys.
        foldR (\<lambda>(found, seen) y. if found = None then search n succ p y seen else Inr (found, seen))
          (None, sadd x seen) ys))"

definition searched :: "('a \<Rightarrow> 'a list res) \<Rightarrow> ('a \<Rightarrow> bool) \<Rightarrow> 'a set \<Rightarrow> 'a list \<Rightarrow> 'a list \<Rightarrow>
    'a option \<times> 'a list \<Rightarrow> bool" where
  "searched succ p U xs seen r \<longleftrightarrow>
     set seen \<subseteq> set (snd r) \<and> set (snd r) \<subseteq> set seen \<union> U \<and>
     (case fst r of
        Some m \<Rightarrow> p m \<and> m \<in> (succ_rel succ)\<^sup>* `` set xs
      | None \<Rightarrow> set xs \<subseteq> set (snd r) \<and> (\<forall>x \<in> set (snd r) - set seen. \<not> p x) \<and>
          succ_rel succ `` (set (snd r) - set seen) \<subseteq> set (snd r))"

lemma searched_append:
  assumes "searched succ p U xs seen (None, s1)" and "searched succ p U ys s1 r"
  shows "searched succ p U (xs @ ys) seen r"
proof (cases "fst r")
  case None
  have s1: "set seen \<subseteq> set s1" "set xs \<subseteq> set s1" "set s1 \<subseteq> set seen \<union> U"
      "\<forall>x \<in> set s1 - set seen. \<not> p x" "succ_rel succ `` (set s1 - set seen) \<subseteq> set s1"
    using assms(1) by (simp_all add: searched_def)
  have r: "set s1 \<subseteq> set (snd r)" "set ys \<subseteq> set (snd r)" "set (snd r) \<subseteq> set s1 \<union> U"
      "\<forall>x \<in> set (snd r) - set s1. \<not> p x" "succ_rel succ `` (set (snd r) - set s1) \<subseteq> set (snd r)"
    using assms(2) None by (simp_all add: searched_def)
  have cover: "set (snd r) - set seen \<subseteq> (set s1 - set seen) \<union> (set (snd r) - set s1)" by auto
  have "succ_rel succ `` (set (snd r) - set seen) \<subseteq>
      succ_rel succ `` (set s1 - set seen) \<union> succ_rel succ `` (set (snd r) - set s1)"
    unfolding Image_Un [symmetric] by (rule Image_mono [OF order_refl cover])
  also have "\<dots> \<subseteq> set (snd r)" using s1(5) r(1,5) by simp
  finally have "succ_rel succ `` (set (snd r) - set seen) \<subseteq> set (snd r)" .
  moreover have "\<forall>x \<in> set (snd r) - set seen. \<not> p x" using s1(4) r(4) by auto
  moreover have "set seen \<subseteq> set (snd r)" "set (xs @ ys) \<subseteq> set (snd r)" "set (snd r) \<subseteq> set seen \<union> U"
    using s1 r(1-3) by auto
  ultimately show ?thesis using None by (simp add: searched_def)
next
  case (Some m)
  then show ?thesis using assms by (auto simp: searched_def)
qed

lemma search_children:
  assumes step: "\<And>y seen. y \<in> set ys \<Longrightarrow> set s0 \<subseteq> set seen \<Longrightarrow>
      \<exists>r. search n succ p y seen = Inr r \<and> searched succ p U [y] seen r"
  shows "\<exists>r. foldR (\<lambda>(found, seen) y. if found = None then search n succ p y seen else Inr (found, seen))
      (None, s0) ys = Inr r \<and> searched succ p U ys s0 r"
  using step
proof (induction ys rule: rev_induct)
  case Nil
  then show ?case by (simp add: searched_def)
next
  case (snoc y ys)
  let ?f = "\<lambda>(found, seen) y. if found = None then search n succ p y seen else Inr (found, seen)"
  have "\<exists>r. foldR ?f (None, s0) ys = Inr r \<and> searched succ p U ys s0 r"
    by (rule snoc.IH, rule snoc.prems) simp_all
  then obtain r where r: "foldR ?f (None, s0) ys = Inr r" "searched succ p U ys s0 r" by blast
  show ?case
  proof (cases "fst r")
    case None
    have "set s0 \<subseteq> set (snd r)" using r(2) by (simp add: searched_def)
    then obtain r' where "search n succ p y (snd r) = Inr r'" "searched succ p U [y] (snd r) r'"
      using snoc.prems [of y "snd r"] by auto
    moreover have "r = (None, snd r)" using None by (cases r) simp
    ultimately show ?thesis using r searched_append [of succ p U ys s0 "snd r" "[y]" r']
      by (cases r) (auto simp: foldR_append)
  next
    case (Some m)
    with r show ?thesis by (cases r) (auto simp: foldR_append searched_def)
  qed
qed

lemma searched_start:
  assumes s: "searched succ p U ys (sadd x seen) r" and ys: "succ x = Inr ys" and "x \<in> U" and "\<not> p x"
  shows "searched succ p U [x] seen r"
proof -
  have step: "succ_rel succ `` {x} = set ys" using ys by (auto simp: succ_rel_def)
  show ?thesis
  proof (cases "fst r")
    case (Some m)
    obtain y where "y \<in> set ys" "(y, m) \<in> (succ_rel succ)\<^sup>*"
      using s Some by (auto simp: searched_def)
    then have "(x, m) \<in> (succ_rel succ)\<^sup>*"
      using step by (auto intro: converse_rtrancl_into_rtrancl)
    with s Some assms(3) show ?thesis by (auto simp: searched_def)
  next
    case None
    have sub: "set (snd r) - set seen \<subseteq> insert x (set (snd r) - set (sadd x seen))" by auto
    have "succ_rel succ `` insert x (set (snd r) - set (sadd x seen)) \<subseteq> set (snd r)"
      using s None step by (auto simp: searched_def)
    then have "succ_rel succ `` (set (snd r) - set seen) \<subseteq> set (snd r)" using sub by blast
    with s None assms(3,4) show ?thesis by (auto simp: searched_def)
  qed
qed

lemma search_total:
  assumes fin: "finite U"
    and ok: "\<And>x. x \<in> U \<Longrightarrow> \<exists>ys. succ x = Inr ys \<and> set ys \<subseteq> U"
  shows "x \<in> U \<Longrightarrow> card (U - set seen) < n \<Longrightarrow>
    \<exists>r. search n succ p x seen = Inr r \<and> searched succ p U [x] seen r"
proof (induction n arbitrary: x seen)
  case 0
  then show ?case by simp
next
  case (Suc n)
  obtain ys where ys: "succ x = Inr ys" "set ys \<subseteq> U" using ok [OF Suc.prems(1)] by auto
  show ?case
  proof (cases "x \<in> set seen \<or> p x")
    case True
    then show ?thesis using Suc.prems(1) by (auto simp: searched_def)
  next
    case False
    have "card (U - set s) < n" if "set (sadd x seen) \<subseteq> set s" for s
    proof -
      have "U - set s \<subset> U - set seen" using that Suc.prems(1) False by auto
      then have "card (U - set s) < card (U - set seen)" using fin by (intro psubset_card_mono) auto
      then show ?thesis using Suc.prems(2) by simp
    qed
    then have "\<exists>r. search n succ p y s = Inr r \<and> searched succ p U [y] s r"
      if "y \<in> set ys" "set (sadd x seen) \<subseteq> set s" for y s
      using that Suc.IH [of y s] ys(2) by blast
    from search_children [OF this] obtain r where
        r: "foldR (\<lambda>(found, seen) y. if found = None then search n succ p y seen else Inr (found, seen))
          (None, sadd x seen) ys = Inr r" and s: "searched succ p U ys (sadd x seen) r" by blast
    have "searched succ p U [x] seen r"
      using searched_start [OF s ys(1) Suc.prems(1)] False by simp
    with r ys False show ?thesis by simp
  qed
qed

lemma closed_rtrancl: "r `` X \<subseteq> X \<Longrightarrow> r\<^sup>* `` X \<subseteq> X"
  by (auto elim!: rtrancl_induct)

text \<open>
  The interface the searches of a component need: a finite universe per state, inside which
  successors exist and stay.
\<close>

locale search_space =
  fixes succs :: "'s \<Rightarrow> 'a \<Rightarrow> 'a list res"
    and invar :: "'s \<Rightarrow> bool"
    and univ :: "'s \<Rightarrow> 'a set"
  assumes finite_univ: "invar s \<Longrightarrow> finite (univ s)"
    and succs_ok: "invar s \<Longrightarrow> x \<in> univ s \<Longrightarrow> \<exists>ys. succs s x = Inr ys \<and> set ys \<subseteq> univ s"
begin

lemma visit_reach:
  assumes "invar s" and "set xs \<subseteq> univ s" and "card (univ s) < n"
  shows "\<exists>r. visit n (succs s) xs [] = Inr r \<and> distinct r \<and> set r \<subseteq> univ s \<and>
    set r = (succ_rel (succs s))\<^sup>* `` set xs"
proof -
  obtain r where r: "visit n (succs s) xs [] = Inr r" "visited (succs s) (univ s) xs [] r"
    using visit_total [OF finite_univ [OF assms(1)], of "succs s" xs "[]" n]
      succs_ok [OF assms(1)] assms(2,3) by auto
  have "set r \<subseteq> (succ_rel (succs s))\<^sup>* `` set xs"
    using visit_sound [OF r(1)] by simp
  moreover have "(succ_rel (succs s))\<^sup>* `` set xs \<subseteq> set r"
    using r(2) closed_rtrancl [of "succ_rel (succs s)" "set r"]
    by (auto simp: visited_def)
  ultimately show ?thesis using r by (auto simp: visited_def)
qed

lemma search_finds:
  assumes "invar s" and "x \<in> univ s" and "card (univ s) < n"
  shows "\<exists>found seen. search n (succs s) p x [] = Inr (found, seen) \<and>
    (case found of Some m \<Rightarrow> p m \<and> (x, m) \<in> (succ_rel (succs s))\<^sup>*
     | None \<Rightarrow> \<forall>m. (x, m) \<in> (succ_rel (succs s))\<^sup>* \<longrightarrow> \<not> p m)"
proof -
  obtain found seen where r: "search n (succs s) p x [] = Inr (found, seen)"
      "searched (succs s) p (univ s) [x] [] (found, seen)"
    using search_total [OF finite_univ [OF assms(1)], of "succs s" x "[]" n p]
      succs_ok [OF assms(1)] assms(2,3) by auto
  have "(succ_rel (succs s))\<^sup>* `` {x} \<subseteq> set seen" if "found = None"
    using r(2) closed_rtrancl [of "succ_rel (succs s)" "set seen"] that by (auto simp: searched_def)
  then show ?thesis using r by (auto simp: searched_def split: option.splits)
qed

end

declare visit.simps(2) [simp del] search.simps(2) [simp del]

end
