(* ===== verification/WorkflowTypes.thy ===== *)
theory WorkflowTypes
  imports Prelude
begin

text \<open>
  The data of \<open>packages/workflow/src/interfaces.ts\<close> that the components read and write:
  connection types, connections, nodes, items, run data, execution-stack entries.

  Two conventions. An object that the code compares with \<open>===\<close> carries a field that stands
  for its identity (\<open>n_ref\<close>), so that \<open>=\<close> on the record is reference equality.
  An optional property is an \<open>option\<close>; \<open>undefined\<close> is \<open>None\<close>.
\<close>

section \<open>Connections\<close>

datatype NodeConnectionType =
    AiAgent | AiChain | AiDocument | AiEmbedding | AiLanguageModel | AiMemory | AiOutputParser
  | AiRetriever | AiReranker | AiTextSplitter | AiTool | AiVectorStore | Main

fun type_name :: "NodeConnectionType \<Rightarrow> string" where
  "type_name AiAgent = ''ai_agent''"
| "type_name AiChain = ''ai_chain''"
| "type_name AiDocument = ''ai_document''"
| "type_name AiEmbedding = ''ai_embedding''"
| "type_name AiLanguageModel = ''ai_languageModel''"
| "type_name AiMemory = ''ai_memory''"
| "type_name AiOutputParser = ''ai_outputParser''"
| "type_name AiRetriever = ''ai_retriever''"
| "type_name AiReranker = ''ai_reranker''"
| "type_name AiTextSplitter = ''ai_textSplitter''"
| "type_name AiTool = ''ai_tool''"
| "type_name AiVectorStore = ''ai_vectorStore''"
| "type_name Main = ''main''"

lemma type_name_inj: "type_name s = type_name t \<Longrightarrow> s = t"
  by (cases s; cases t) simp_all

record IConnection =
  c_node :: string
  c_type :: NodeConnectionType
  c_index :: nat

type_synonym NodeInputConnections = "IConnection list option list"
type_synonym INodeConnections = "(NodeConnectionType, NodeInputConnections) jsmap"
type_synonym IConnections = "(string, INodeConnections) jsmap"

record INodeConnection =
  sourceIndex :: nat
  destinationIndex :: nat

text \<open>\<open>connections[node]?.[type]\<close>, a missing entry read as no groups.\<close>

definition groups_of :: "IConnections \<Rightarrow> string \<Rightarrow> NodeConnectionType \<Rightarrow> NodeInputConnections" where
  "groups_of conns n t =
     (case map_of conns n of None \<Rightarrow> []
      | Some ncs \<Rightarrow> (case map_of ncs t of None \<Rightarrow> [] | Some gs \<Rightarrow> gs))"

text \<open>All connections of the groups in order; a \<open>null\<close> group counts as empty.\<close>

definition flat_groups :: "NodeInputConnections \<Rightarrow> IConnection list" where
  "flat_groups gs = concat (map (case_option [] (\<lambda>g. g)) gs)"

lemma flat_groups_simps [simp]:
  "flat_groups [] = []"
  "flat_groups (None # gs) = flat_groups gs"
  "flat_groups (Some g # gs) = g @ flat_groups gs"
  by (simp_all add: flat_groups_def)

text \<open>The connection \<open>c\<close> leaves output \<open>i\<close> of type \<open>t\<close> of node \<open>n\<close>.\<close>

definition conn_at :: "IConnections \<Rightarrow> string \<Rightarrow> NodeConnectionType \<Rightarrow> nat \<Rightarrow> IConnection \<Rightarrow> bool" where
  "conn_at conns n t i c \<longleftrightarrow>
     (\<exists>g. i < length (groups_of conns n t) \<and> groups_of conns n t ! i = Some g \<and> c \<in> set g)"

lemma flat_groups_iff: "c \<in> set (flat_groups gs) \<longleftrightarrow> (\<exists>i g. i < length gs \<and> gs ! i = Some g \<and> c \<in> set g)"
proof -
  have "c \<in> set (flat_groups gs) \<longleftrightarrow> (\<exists>g. Some g \<in> set gs \<and> c \<in> set g)"
    by (auto simp: flat_groups_def split: option.splits)
  then show ?thesis by (metis in_set_conv_nth)
qed

lemma flat_groups_conn_at: "c \<in> set (flat_groups (groups_of conns n t)) \<longleftrightarrow> (\<exists>i. conn_at conns n t i c)"
  by (auto simp: flat_groups_iff conn_at_def)

section \<open>Nodes\<close>

datatype json =
    JNull
  | JBool bool
  | JNum int
  | JStr string
  | JArr "json list"
  | JObj "(string \<times> json) list"

datatype OnError = ContinueErrorOutput | ContinueRegularOutput | StopWorkflow

record INode =
  n_ref :: nat
  n_id :: string
  n_name :: string
  n_typeVersion :: nat
  n_type :: string
  n_position :: "int \<times> int"
  n_disabled :: "bool option"
  n_retryOnFail :: "bool option"
  n_maxTries :: "nat option"
  n_waitBetweenTries :: "nat option"
  n_alwaysOutputData :: "bool option"
  n_executeOnce :: "bool option"
  n_onError :: "OnError option"
  n_continueOnFail :: "bool option"
  n_parameters :: "(string, json) jsmap"
  n_rewireOutputLogTo :: "NodeConnectionType option"
  n_forceCustomOperation :: "(string \<times> string) option"

text \<open>\<open>node.disabled\<close> read as a truth value, and a plain node for examples.\<close>

abbreviation disabled :: "INode \<Rightarrow> bool" where
  "disabled n \<equiv> n_disabled n = Some True"

definition mk_node :: "nat \<Rightarrow> string \<Rightarrow> string \<Rightarrow> INode" where
  "mk_node r nm ty = \<lparr>n_ref = r, n_id = nm, n_name = nm, n_typeVersion = 1, n_type = ty,
     n_position = (0, 0), n_disabled = None, n_retryOnFail = None, n_maxTries = None,
     n_waitBetweenTries = None, n_alwaysOutputData = None, n_executeOnce = None, n_onError = None,
     n_continueOnFail = None, n_parameters = [], n_rewireOutputLogTo = None,
     n_forceCustomOperation = None\<rparr>"

lemma mk_node_sel [simp]:
  "n_ref (mk_node r nm ty) = r" "n_name (mk_node r nm ty) = nm" "n_type (mk_node r nm ty) = ty"
  "n_disabled (mk_node r nm ty) = None"
  by (simp_all add: mk_node_def)

lemma mk_node_eq [simp]: "mk_node r nm ty = mk_node r' nm' ty' \<longleftrightarrow> r = r' \<and> nm = nm' \<and> ty = ty'"
  by (auto simp: mk_node_def)

type_synonym INodes = "(string, INode) jsmap"

section \<open>Items and run data\<close>

record ISourceData =
  previousNode :: string
  previousNodeOutput :: "nat option"
  previousNodeRun :: "nat option"

record IPairedItemData =
  p_item :: nat
  p_input :: "nat option"
  p_sourceOverwrite :: "ISourceData option"

datatype PairedItem = POne IPairedItemData | PMany "IPairedItemData list" | PNum nat

record NodeErr =
  err_name :: string
  err_message :: string

record INodeExecutionData =
  x_json :: "(string, json) jsmap"
  x_error :: "json option"
  x_pairedItem :: "PairedItem option"

type_synonym items = "INodeExecutionData list"
type_synonym ITaskDataConnections = "(NodeConnectionType, items option list) jsmap"
type_synonym ITaskDataConnectionsSource = "(NodeConnectionType, ISourceData option list) jsmap"

text \<open>
  What a place of an array holds that the code fills out of order: nothing at all (a hole reads as
  \<open>undefined\<close>), \<open>null\<close>, or a value. The distinction matters where the code tests \<open>=== null\<close>.
\<close>

datatype 'a slot = Hole | Null | Val 'a

fun slot_of :: "'a option \<Rightarrow> 'a slot" where
  "slot_of None = Null"
| "slot_of (Some x) = Val x"

fun slot_val :: "'a slot \<Rightarrow> 'a option" where
  "slot_val (Val x) = Some x"
| "slot_val Null = None"
| "slot_val Hole = None"

lemma slot_of_eq [simp]: "slot_of x = Val y \<longleftrightarrow> x = Some y" "slot_of x = Null \<longleftrightarrow> x = None" "slot_of x \<noteq> Hole"
  by (cases x, simp_all)+

type_synonym IInputConnections = "(NodeConnectionType, items slot list) jsmap"

text \<open>The item \<open>{ json: {} }\<close>.\<close>

definition empty_item :: INodeExecutionData where
  "empty_item = \<lparr>x_json = [], x_error = None, x_pairedItem = None\<rparr>"

datatype ExecutionStatus =
  Canceled | Crashed | Error | New | Running | Success | Unknown | Waiting

record EngineAction =
  a_nodeName :: string
  a_input :: "(string, json) jsmap"
  a_type :: NodeConnectionType
  a_id :: string
  a_parentNodeName :: "string option"
  a_itemIndex :: "nat option"

record EngineRequest =
  r_actions :: "EngineAction list"
  r_metadata :: json

record SubNodeExecutionDataAction =
  s_nodeName :: string
  s_runIndex :: nat
  s_action :: EngineAction

record ITaskMetadata =
  m_subNodeExecutionData :: "(SubNodeExecutionDataAction list \<times> json) option"
  m_preserveSourceOverwrite :: bool
  m_preservedSourceOverwrite :: "ISourceData option"
  m_nodeWasResumed :: bool

definition empty_metadata :: ITaskMetadata where
  "empty_metadata = \<lparr>m_subNodeExecutionData = None, m_preserveSourceOverwrite = False,
     m_preservedSourceOverwrite = None, m_nodeWasResumed = False\<rparr>"

record ITaskData =
  t_executionIndex :: "nat option"
  t_source :: "ISourceData option list"
  t_executionStatus :: "ExecutionStatus option"
  t_data :: "ITaskDataConnections option"
  t_inputOverride :: "ITaskDataConnections option"
  t_error :: "NodeErr option"
  t_metadata :: "ITaskMetadata option"

definition mk_task :: "nat \<Rightarrow> ITaskDataConnections \<Rightarrow> ITaskData" where
  "mk_task i d = \<lparr>t_executionIndex = Some i, t_source = [], t_executionStatus = Some Success,
     t_data = Some d, t_inputOverride = None, t_error = None, t_metadata = None\<rparr>"

type_synonym IRunData = "(string, ITaskData list) jsmap"
type_synonym IPinData = "(string, items) jsmap"

record IExecuteData =
  e_node :: INode
  e_data :: IInputConnections
  e_source :: "ITaskDataConnectionsSource option"
  e_runIndex :: "nat option"
  e_metadata :: "ITaskMetadata option"

text \<open>Waiting executions: per node and run index. Run indexes are the integer keys of an
  object, which JavaScript enumerates in ascending order.\<close>

type_synonym IWaitingForExecution = "(string, (nat, IInputConnections) jsmap) jsmap"
type_synonym IWaitingForExecutionSource = "(string, (nat, ITaskDataConnectionsSource) jsmap) jsmap"

datatype DestinationMode = Inclusive | Exclusive

record IDestinationNode =
  d_nodeName :: string
  d_mode :: DestinationMode

text \<open>What the code reads of a node type; the types themselves are packages the engine is
  handed, so the registry that finds them is a parameter of the functions that use it. The outputs are a list of
  types and configurations, or an expression (\<open>None\<close>).\<close>

datatype NodeOutput = OutType NodeConnectionType | OutConfiguration NodeConnectionType

record INodeType =
  nt_name :: string
  nt_group :: "string list"
  nt_inputs :: nat
  nt_outputs :: "NodeOutput list option"
  nt_requiredInputs :: "(nat + nat list) option"
  nt_execute :: bool
  nt_poll :: bool
  nt_trigger :: bool
  nt_webhook :: bool
  nt_supplyData :: bool
  nt_requestDefaults :: bool
  nt_customOperations :: "(string \<times> string) list"

type_synonym INodeTypes = "string \<Rightarrow> nat \<Rightarrow> INodeType option"

end
