(* ===== verification/ConnectedNodes.thy ===== *)
theory ConnectedNodes
  imports WorkflowTypes
begin

text \<open>
  The traversals of \<open>packages/workflow/src/common\<close>: the nodes connected to a node
  (\<open>get-connected-nodes.ts\<close>), lookup by name, and the transposition of the connections from
  source to destination order (\<open>map-connections-by-destination.ts\<close>).
\<close>

section \<open>getConnectedNodes\<close>

datatype ConnectionTypeArg = OfType NodeConnectionType | ALL_TYPES | ALL_NON_MAIN

definition types_of_arg :: "ConnectionTypeArg \<Rightarrow> INodeConnections \<Rightarrow> NodeConnectionType list" where
  "types_of_arg ct ncs = (case ct of
       ALL_TYPES \<Rightarrow> map fst ncs
     | ALL_NON_MAIN \<Rightarrow> filter (\<lambda>t. t \<noteq> Main) (map fst ncs)
     | OfType t \<Rightarrow> [t])"

text \<open>The inner loop: from the last found node to the first, move it to the front.\<close>

definition addToFront :: "string list \<Rightarrow> string list \<Rightarrow> string list" where
  "addToFront returnNodes addNodes =
     foldl (\<lambda>ret parentNodeName. parentNodeName # remove1 parentNodeName ret) returnNodes (rev addNodes)"

lemma set_addToFront [simp]: "set (addToFront ret add) = set ret \<union> set add"
proof -
  have "set (foldl (\<lambda>r p. p # remove1 p r) s xs) = set s \<union> set xs" for s xs :: "string list"
  proof (induction xs arbitrary: s)
    case (Cons x xs)
    have "insert x (set (remove1 x s)) = insert x (set s)"
      by (rule set_eqI, rename_tac y, case_tac "y = x") simp_all
    with Cons show ?case by auto
  qed simp
  then show ?thesis by (simp add: addToFront_def)
qed

definition not_checked :: "IConnections \<Rightarrow> string list \<Rightarrow> nat" where
  "not_checked conns chk = length (filter (\<lambda>k. k \<notin> set chk) (map fst conns))"

lemma not_checked_less:
  assumes "map_of conns n = Some ncs" and "n \<notin> set chk"
  shows "not_checked conns (chk @ [n]) < not_checked conns chk"
proof -
  have "length (filter (\<lambda>k. k \<notin> set (chk @ [n])) xs) \<le> length (filter (\<lambda>k. k \<notin> set chk) xs)"
    and "n \<in> set xs \<Longrightarrow> length (filter (\<lambda>k. k \<notin> set (chk @ [n])) xs) < length (filter (\<lambda>k. k \<notin> set chk) xs)"
    for xs
    using assms(2) by (induction xs) auto
  moreover have "n \<in> set (map fst conns)"
    using assms(1) by (auto dest!: map_of_SomeD intro: image_eqI [where x = "(n, ncs)"])
  ultimately show ?thesis by (simp only: not_checked_def)
qed

function getConnectedNodes ::
  "IConnections \<Rightarrow> string \<Rightarrow> ConnectionTypeArg \<Rightarrow> int \<Rightarrow> string list \<Rightarrow> string list" where
  "getConnectedNodes connections nodeName connectionType depth checkedNodesIncoming =
     (let newDepth = (if depth = -1 then depth else depth - 1) in
      if depth = 0 then []
      else case map_of connections nodeName of
        None \<Rightarrow> []
      | Some nodeConnections \<Rightarrow>
          foldl (\<lambda>returnNodes type.
            case map_of nodeConnections type of
              None \<Rightarrow> returnNodes
            | Some groups \<Rightarrow>
                if nodeName \<in> set checkedNodesIncoming then returnNodes
                else foldl (\<lambda>returnNodes connection.
                       if c_node connection \<in> set (checkedNodesIncoming @ [nodeName]) then returnNodes
                       else addToFront (c_node connection # returnNodes)
                              (getConnectedNodes connections (c_node connection) connectionType
                                 newDepth (checkedNodesIncoming @ [nodeName])))
                       returnNodes (flat_groups groups))
            [] (types_of_arg connectionType nodeConnections))"
  by pat_completeness auto
termination
  by (relation "measure (\<lambda>(conns, n, ct, d, chk). not_checked conns chk)") (auto intro: not_checked_less)

declare getConnectedNodes.simps [simp del]

definition getChildNodes :: "IConnections \<Rightarrow> string \<Rightarrow> ConnectionTypeArg \<Rightarrow> int \<Rightarrow> string list" where
  "getChildNodes connectionsBySourceNode nodeName type depth =
     getConnectedNodes connectionsBySourceNode nodeName type depth []"

definition getParentNodes :: "IConnections \<Rightarrow> string \<Rightarrow> ConnectionTypeArg \<Rightarrow> int \<Rightarrow> string list" where
  "getParentNodes connectionsByDestinationNode nodeName type depth =
     getConnectedNodes connectionsByDestinationNode nodeName type depth []"

definition getNodeByName_list :: "INode list \<Rightarrow> string \<Rightarrow> INode option" where
  "getNodeByName_list nodes name = List.find (\<lambda>node. n_name node = name) nodes"

definition getNodeByName_obj :: "INodes \<Rightarrow> string \<Rightarrow> INode option" where
  "getNodeByName_obj nodes name = map_of nodes name"

text \<open>The edges a traversal with the given type argument follows.\<close>

definition edges :: "IConnections \<Rightarrow> ConnectionTypeArg \<Rightarrow> (string \<times> string) set" where
  "edges conns ct = {(a, b). \<exists>ncs t c. map_of conns a = Some ncs \<and> t \<in> set (types_of_arg ct ncs) \<and>
     c \<in> set (flat_groups (groups_of conns a t)) \<and> c_node c = b}"

text \<open>Following edges without entering a set of nodes.\<close>

definition avoiding :: "('a \<times> 'a) set \<Rightarrow> 'a set \<Rightarrow> ('a \<times> 'a) set" where
  "avoiding E S = E \<inter> UNIV \<times> (- S)"

lemma avoiding_start:
  assumes "(b, m) \<in> (avoiding E S)\<^sup>*"
  shows "m = b \<or> (b, m) \<in> (avoiding E (insert b S))\<^sup>+"
  using assms
proof (induction rule: rtrancl_induct)
  case base
  then show ?case by simp
next
  case (step y z)
  show ?case
  proof (cases "z = b")
    case False
    with step.hyps(2) have e: "(y, z) \<in> avoiding E (insert b S)" by (auto simp: avoiding_def)
    with step.IH show ?thesis by (auto intro: trancl_into_trancl)
  qed simp
qed

lemma avoiding_unfold:
  "(avoiding E S)\<^sup>+ `` {n} =
     (\<Union>b \<in> E `` {n} - S. insert b ((avoiding E (insert b S))\<^sup>+ `` {b}))" (is "?L = ?R")
proof
  show "?L \<subseteq> ?R"
  proof
    fix m assume "m \<in> ?L"
    then obtain b where b: "(n, b) \<in> avoiding E S" "(b, m) \<in> (avoiding E S)\<^sup>*"
      by (auto dest: tranclD)
    then have "m = b \<or> (b, m) \<in> (avoiding E (insert b S))\<^sup>+" by (intro avoiding_start)
    then show "m \<in> ?R" using b(1) by (auto simp: avoiding_def)
  qed
  have mono: "(avoiding E (insert b S))\<^sup>+ \<subseteq> (avoiding E S)\<^sup>*" for b
    by (rule subsetI) (auto intro!: trancl_into_rtrancl elim: trancl_mono simp: avoiding_def)
  show "?R \<subseteq> ?L"
    using mono by (auto simp: avoiding_def intro: rtrancl_into_trancl2)
qed

lemma set_types_foldl_edges:
  assumes "map_of conns n = Some ncs"
  shows "(\<Union>t \<in> set (types_of_arg ct ncs). c_node ` set (flat_groups (groups_of conns n t))) =
    edges conns ct `` {n}"
  using assms by (fastforce simp: edges_def)

lemma getConnectedNodes_avoiding:
  "set (getConnectedNodes conns n ct (-1) chk) =
     (if n \<in> set chk then {} else (avoiding (edges conns ct) (insert n (set chk)))\<^sup>+ `` {n})"
proof (induction "not_checked conns chk" arbitrary: n chk rule: less_induct)
  case less
  let ?E = "edges conns ct"
  show ?case
  proof (cases "map_of conns n")
    case None
    then have "?E `` {n} = {}" by (auto simp: edges_def)
    with None show ?thesis
      by (auto simp: getConnectedNodes.simps [of conns n] avoiding_def dest: tranclD)
  next
    case (Some ncs)
    show ?thesis
    proof (cases "n \<in> set chk")
      case True
      from Some have "getConnectedNodes conns n ct (-1) chk = []"
        by (subst getConnectedNodes.simps)
          (auto intro!: foldl_invariant [where P = "\<lambda>r. r = []"] simp: True split: option.split)
      with True show ?thesis by simp
    next
      case False
      let ?S = "insert n (set chk)"
      let ?sub = "\<lambda>b. insert b ((avoiding ?E (insert b ?S))\<^sup>+ `` {b})"
      have rec: "set (getConnectedNodes conns b ct (-1) (chk @ [n])) =
          (avoiding ?E (insert b ?S))\<^sup>+ `` {b}" if "b \<notin> ?S" for b
        using less [OF not_checked_less [OF Some False], of b] that by auto
      have inner: "set (foldl (\<lambda>ret c. if c_node c = n \<or> c_node c \<in> set chk then ret
            else addToFront (c_node c # ret) (getConnectedNodes conns (c_node c) ct (-1) (chk @ [n]))) r cs) =
          set r \<union> (\<Union>b \<in> c_node ` set cs - ?S. ?sub b)" for r cs
        by (subst set_foldl_union [where g = "\<lambda>c. if c_node c \<in> ?S then {} else ?sub (c_node c)"])
          (auto simp: rec)
      have "set (getConnectedNodes conns n ct (-1) chk) =
          (\<Union>t \<in> set (types_of_arg ct ncs). \<Union>b \<in> c_node ` set (flat_groups (groups_of conns n t)) - ?S. ?sub b)"
        using Some False
        by (subst getConnectedNodes.simps, simp only: Let_def option.case if_False if_True refl
            neg_equal_0_iff_equal one_neq_zero)
          (subst set_foldl_union [where g = "\<lambda>t. \<Union>b \<in> c_node ` set (flat_groups (groups_of conns n t)) - ?S. ?sub b"];
           auto simp: groups_of_def inner split: option.split)
      also have "\<dots> = (\<Union>b \<in> ?E `` {n} - ?S. ?sub b)"
        by (simp only: set_types_foldl_edges [OF Some, symmetric]) blast
      also have "\<dots> = (avoiding ?E ?S)\<^sup>+ `` {n}"
        by (simp only: avoiding_unfold [symmetric])
      finally show ?thesis using False by simp
    qed
  qed
qed

text \<open>The nodes that a traversal of unlimited depth returns are exactly the nodes one can
  reach over connections of the requested types, without the start node.\<close>

theorem getConnectedNodes_reachable:
  "set (getConnectedNodes conns n ct (-1) []) = {m. (n, m) \<in> (edges conns ct)\<^sup>+ \<and> m \<noteq> n}"
proof -
  have "m \<in> (avoiding (edges conns ct) {n})\<^sup>+ `` {n} \<longleftrightarrow> (n, m) \<in> (edges conns ct)\<^sup>+ \<and> m \<noteq> n" for m
  proof
    assume "m \<in> (avoiding (edges conns ct) {n})\<^sup>+ `` {n}"
    then have "(n, m) \<in> (avoiding (edges conns ct) {n})\<^sup>+" by simp
    then show "(n, m) \<in> (edges conns ct)\<^sup>+ \<and> m \<noteq> n"
      by (auto elim!: trancl_mono elim: tranclE simp: avoiding_def)
  next
    assume m: "(n, m) \<in> (edges conns ct)\<^sup>+ \<and> m \<noteq> n"
    then have "(n, m) \<in> (avoiding (edges conns ct) {})\<^sup>*" by (auto simp: avoiding_def)
    then have "m = n \<or> (n, m) \<in> (avoiding (edges conns ct) {n})\<^sup>+" by (rule avoiding_start)
    with m show "m \<in> (avoiding (edges conns ct) {n})\<^sup>+ `` {n}" by simp
  qed
  then show ?thesis by (subst getConnectedNodes_avoiding) auto
qed


section \<open>mapConnectionsByDestination\<close>

text \<open>One turn of the innermost loop: register at the destination of \<open>c\<close> that output
  \<open>inputIndex\<close> of type \<open>type\<close> of \<open>sourceNode\<close> leads to it, after filling the array of groups
  up to the index of the connection with empty groups.\<close>

definition push_at :: "NodeInputConnections \<Rightarrow> nat \<Rightarrow> IConnection \<Rightarrow> NodeInputConnections" where
  "push_at groups i c =
     (let filled = groups @ replicate (Suc i - length groups) (Some [])
      in filled[i := map_option (\<lambda>g. g @ [c]) (filled ! i)])"

definition addByDestination ::
  "string \<Rightarrow> NodeConnectionType \<Rightarrow> nat \<Rightarrow> IConnections \<Rightarrow> IConnection \<Rightarrow> IConnections" where
  "addByDestination sourceNode type inputIndex ret connectionInfo =
     (let nodeConns = (case map_of ret (c_node connectionInfo) of None \<Rightarrow> [] | Some x \<Rightarrow> x);
          groups = (case map_of nodeConns (c_type connectionInfo) of None \<Rightarrow> [] | Some x \<Rightarrow> x);
          pushed = push_at groups (c_index connectionInfo)
            \<lparr>c_node = sourceNode, c_type = type, c_index = inputIndex\<rparr>
      in AList.update (c_node connectionInfo) (AList.update (c_type connectionInfo) pushed nodeConns) ret)"

definition mapConnectionsByDestination :: "IConnections \<Rightarrow> IConnections" where
  "mapConnectionsByDestination connections =
     foldl (\<lambda>ret (sourceNode, nodeConns).
       foldl (\<lambda>ret (type, groups).
         foldl (\<lambda>ret (inputIndex, group).
           foldl (addByDestination sourceNode type inputIndex) ret (case_option [] (\<lambda>g. g) group))
         ret (List.enumerate 0 groups))
       ret nodeConns)
     [] connections"

text \<open>The same loops over the flat list of all connections.\<close>

definition all_conns :: "IConnections \<Rightarrow> (string \<times> NodeConnectionType \<times> nat \<times> IConnection) list" where
  "all_conns conns =
     concat (map (\<lambda>(n, ncs). concat (map (\<lambda>(t, gs). concat (map (\<lambda>(i, g).
       map (\<lambda>c. (n, t, i, c)) (case_option [] (\<lambda>g. g) g)) (List.enumerate 0 gs))) ncs)) conns)"

lemma foldl_concat: "foldl f s (concat xss) = foldl (foldl f) s xss"
  by (induction xss arbitrary: s) simp_all

lemma foldl_map_list: "foldl f s (map g xs) = foldl (\<lambda>s x. f s (g x)) s xs"
  by (induction xs arbitrary: s) simp_all

lemma mapConnectionsByDestination_flat:
  "mapConnectionsByDestination conns =
     foldl (\<lambda>ret (n, t, i, c). addByDestination n t i ret c) [] (all_conns conns)"
  by (simp add: mapConnectionsByDestination_def all_conns_def foldl_concat foldl_map_list
      case_prod_unfold)

text \<open>Node names and connection types are keys of objects, hence distinct.\<close>

definition conns_ok :: "IConnections \<Rightarrow> bool" where
  "conns_ok conns \<longleftrightarrow> distinct (map fst conns) \<and> (\<forall>(n, ncs) \<in> set conns. distinct (map fst ncs))"

lemma conns_okD: "conns_ok conns \<Longrightarrow> map_of conns n = Some ncs \<Longrightarrow> distinct (map fst ncs)"
  by (auto simp: conns_ok_def dest: map_of_SomeD)

lemma in_concat_pairs:
  "x \<in> set (concat (map (\<lambda>(a, b). F a b) xs)) \<longleftrightarrow> (\<exists>a b. (a, b) \<in> set xs \<and> x \<in> set (F a b))"
  by force

lemma all_conns_iff:
  assumes "conns_ok conns"
  shows "(n, t, i, c) \<in> set (all_conns conns) \<longleftrightarrow> conn_at conns n t i c"
proof -
  have in_conns: "(n, ncs) \<in> set conns \<longleftrightarrow> map_of conns n = Some ncs" for ncs
    using assms by (simp add: conns_ok_def)
  have in_types: "map_of conns n = Some ncs \<Longrightarrow> (t, gs) \<in> set ncs \<longleftrightarrow> map_of ncs t = Some gs" for ncs gs
    using conns_okD [OF assms] by simp
  have raw: "(n, t, i, c) \<in> set (all_conns conns) \<longleftrightarrow> (\<exists>ncs gs g. (n, ncs) \<in> set conns \<and> (t, gs) \<in> set ncs \<and>
      (i, g) \<in> set (List.enumerate 0 gs) \<and> c \<in> set (case_option [] (\<lambda>g. g) g))"
    unfolding all_conns_def in_concat_pairs set_map image_iff prod.inject by blast
  have "(n, t, i, c) \<in> set (all_conns conns) \<longleftrightarrow>
      (\<exists>ncs gs g. (n, ncs) \<in> set conns \<and> (t, gs) \<in> set ncs \<and> i < length gs \<and> gs ! i = Some g \<and> c \<in> set g)"
    by (simp add: raw in_set_enumerate_eq eq_commute)
  also have "\<dots> \<longleftrightarrow> (\<exists>ncs gs g. map_of conns n = Some ncs \<and> map_of ncs t = Some gs \<and>
      i < length gs \<and> gs ! i = Some g \<and> c \<in> set g)"
    using in_conns in_types by metis
  also have "\<dots> \<longleftrightarrow> conn_at conns n t i c"
    by (auto simp: conn_at_def groups_of_def split: option.split)
  finally show ?thesis .
qed

lemma groups_of_update:
  "groups_of (AList.update n (AList.update t gs (case map_of conns n of None \<Rightarrow> [] | Some x \<Rightarrow> x)) conns) n' t' =
     (if n' = n \<and> t' = t then gs else groups_of conns n' t')"
  by (auto simp: groups_of_def jsmap_simps split: option.split)

text \<open>Arrays that the loop builds hold no \<open>null\<close> groups.\<close>

lemma push_at_None: "None \<notin> set gs \<Longrightarrow> None \<notin> set (push_at gs i c)"
proof -
  assume "None \<notin> set gs"
  then have "None \<notin> set (gs @ replicate (Suc i - length gs) (Some []))" by auto
  moreover have "i < length (gs @ replicate (Suc i - length gs) (Some []))" by simp
  ultimately show ?thesis
    unfolding push_at_def Let_def
    by (metis (no_types, lifting) in_set_conv_nth length_list_update nth_list_update_eq
        nth_list_update_neq option.map_disc_iff)
qed

lemma conn_at_push:
  assumes "None \<notin> set gs"
  shows "(\<exists>g. i < length (push_at gs j x) \<and> push_at gs j x ! i = Some g \<and> c \<in> set g) \<longleftrightarrow>
    (\<exists>g. i < length gs \<and> gs ! i = Some g \<and> c \<in> set g) \<or> (i = j \<and> c = x)"
proof -
  let ?f = "gs @ replicate (Suc j - length gs) (Some [])"
  have old: "(\<exists>g. k < length ?f \<and> ?f ! k = Some g \<and> c \<in> set g) \<longleftrightarrow>
      (\<exists>g. k < length gs \<and> gs ! k = Some g \<and> c \<in> set g)" for k c
    by (auto simp: nth_append)
  have j: "j < length ?f" by simp
  then obtain g where g: "?f ! j = Some g"
    using assms by (metis Un_iff in_set_replicate not_None_eq nth_mem option.distinct(1) set_append)
  show ?thesis
  proof (cases "i = j")
    case True
    with j g have "(\<exists>g. i < length (push_at gs j x) \<and> push_at gs j x ! i = Some g \<and> c \<in> set g) \<longleftrightarrow>
        c \<in> set g \<or> c = x"
      by (auto simp: push_at_def Let_def)
    also have "c \<in> set g \<longleftrightarrow> (\<exists>g. j < length gs \<and> gs ! j = Some g \<and> c \<in> set g)"
      using old [of j c] g j by auto
    finally show ?thesis using True by auto
  next
    case False
    then show ?thesis using old [of i c] by (simp add: push_at_def Let_def)
  qed
qed

definition no_null_groups :: "IConnections \<Rightarrow> bool" where
  "no_null_groups conns \<longleftrightarrow> (\<forall>n t. None \<notin> set (groups_of conns n t))"

lemma addByDestination_groups:
  "groups_of (addByDestination n t i ret c) d t' =
     (if d = c_node c \<and> t' = c_type c
      then push_at (groups_of ret (c_node c) (c_type c)) (c_index c) \<lparr>c_node = n, c_type = t, c_index = i\<rparr>
      else groups_of ret d t')"
  unfolding addByDestination_def Let_def groups_of_update
  by (auto simp: groups_of_def split: option.split)

lemma addByDestination_no_null:
  "no_null_groups ret \<Longrightarrow> no_null_groups (addByDestination n t i ret c)"
  by (auto simp: no_null_groups_def addByDestination_groups push_at_None)

lemma addByDestination_conn_at:
  assumes "no_null_groups ret"
  shows "conn_at (addByDestination n t i ret c) d t' j x \<longleftrightarrow>
    conn_at ret d t' j x \<or>
    (d = c_node c \<and> t' = c_type c \<and> j = c_index c \<and> x = \<lparr>c_node = n, c_type = t, c_index = i\<rparr>)"
  using conn_at_push [of "groups_of ret (c_node c) (c_type c)" j "c_index c" _ x] assms
  by (auto simp: conn_at_def addByDestination_groups no_null_groups_def)

lemma mapConnections_fold:
  assumes "no_null_groups ret"
  shows "conn_at (foldl (\<lambda>ret (n, t, i, c). addByDestination n t i ret c) ret es) d t' j x \<longleftrightarrow>
    conn_at ret d t' j x \<or> (c_node x, c_type x, c_index x, \<lparr>c_node = d, c_type = t', c_index = j\<rparr>) \<in> set es"
  using assms
proof (induction es arbitrary: ret)
  case Nil
  then show ?case by simp
next
  case (Cons e es)
  obtain n t i c where e: "e = (n, t, i, c)" by (cases e) auto
  show ?case
    unfolding e foldl_Cons prod.case
    by (subst Cons.IH [OF addByDestination_no_null [OF Cons.prems]])
      (auto simp: addByDestination_conn_at [OF Cons.prems])
qed

text \<open>\<open>mapConnectionsByDestination\<close> transposes the connections: output \<open>i\<close> of type \<open>t\<close> of
  node \<open>n\<close> leads to input \<open>j\<close> of type \<open>t'\<close> of node \<open>d\<close> exactly when the result lists, at
  input \<open>j\<close> of type \<open>t'\<close> of \<open>d\<close>, the connection that names \<open>n\<close>, \<open>t\<close> and \<open>i\<close>. Nothing is lost
  and nothing is added.\<close>

theorem mapConnectionsByDestination_transposes:
  assumes "conns_ok conns"
  shows "conn_at (mapConnectionsByDestination conns) d t' j \<lparr>c_node = n, c_type = t, c_index = i\<rparr> \<longleftrightarrow>
    conn_at conns n t i \<lparr>c_node = d, c_type = t', c_index = j\<rparr>"
proof -
  have "no_null_groups []" and "\<not> conn_at [] d t' j x" for x
    by (auto simp: no_null_groups_def groups_of_def conn_at_def)
  then show ?thesis
    by (simp add: mapConnectionsByDestination_flat mapConnections_fold all_conns_iff [OF assms])
qed

definition conns_example :: IConnections where
  "conns_example =
     [(''A'', [(Main, [Some [\<lparr>c_node = ''M'', c_type = Main, c_index = 1\<rparr>], None])]),
      (''B'', [(Main, [Some [\<lparr>c_node = ''M'', c_type = Main, c_index = 0\<rparr>]])])]"

lemma mapConnectionsByDestination_transposes_witness:
  "conn_at (mapConnectionsByDestination conns_example) ''M'' Main 1 \<lparr>c_node = ''A'', c_type = Main, c_index = 0\<rparr>"
  by (subst mapConnectionsByDestination_transposes)
    (auto simp: conns_example_def conns_ok_def conn_at_def groups_of_def)

text \<open>Every group of the result is an array, and no key repeats.\<close>

lemma mapConnectionsByDestination_no_null: "no_null_groups (mapConnectionsByDestination conns)"
  unfolding mapConnectionsByDestination_flat
  by (rule foldl_invariant)
    (auto simp: addByDestination_no_null case_prod_unfold, simp add: no_null_groups_def groups_of_def)

lemma conns_ok_update:
  assumes "conns_ok conns" and "distinct (map fst ncs)"
  shows "conns_ok (AList.update n ncs conns)"
  using assms set_update_subset [of n ncs conns] by (fastforce simp: conns_ok_def distinct_update)

lemma mapConnectionsByDestination_ok: "conns_ok (mapConnectionsByDestination conns)"
  unfolding mapConnectionsByDestination_flat
proof (rule foldl_invariant)
  show "conns_ok []" by (simp add: conns_ok_def)
  fix ret :: IConnections and e :: "string \<times> NodeConnectionType \<times> nat \<times> IConnection"
  assume ret: "conns_ok ret"
  obtain n t i c where e: "e = (n, t, i, c)" by (cases e) auto
  have "distinct (map fst (case map_of ret (c_node c) of None \<Rightarrow> [] | Some x \<Rightarrow> x))"
    using ret by (auto split: option.split dest: conns_okD)
  with ret show "conns_ok (case e of (n, t, i, c) \<Rightarrow> addByDestination n t i ret c)"
    by (auto simp: e addByDestination_def Let_def intro!: conns_ok_update distinct_update)
qed

end
