(* ===== verification/WorkflowGraph.thy ===== *)
theory WorkflowGraph
  imports ConnectedNodes
begin

text \<open>
  The class \<open>Workflow\<close> of \<open>packages/workflow/src/workflow.ts\<close>: nodes by name, connections in
  source and destination order, the queries over them, renaming, and the choice of the start
  node. \<open>NodeHelpers.getNodeParameters\<close> (defaults of parameters) and the expression class are
  not part of the model.
\<close>

section \<open>State and construction\<close>

record Workflow =
  w_id :: string
  w_nodes :: INodes
  connectionsBySourceNode :: IConnections
  connectionsByDestinationNode :: IConnections
  nodeTypes :: INodeTypes
  w_active :: bool
  executionOrder :: "string option"
  staticData :: "(string, json) jsmap"
  testStaticData :: "(string, json) jsmap option"
  pinData :: "IPinData option"

definition setNodes :: "INode list \<Rightarrow> Workflow \<Rightarrow> Workflow" where
  "setNodes nodes w = w\<lparr>w_nodes := foldl (\<lambda>m n. AList.update (n_name n) n m) [] nodes\<rparr>"

definition setConnections :: "IConnections \<Rightarrow> Workflow \<Rightarrow> Workflow" where
  "setConnections connections w =
     w\<lparr>connectionsBySourceNode := connections,
       connectionsByDestinationNode := mapConnectionsByDestination connections\<rparr>"

definition setPinData :: "IPinData option \<Rightarrow> Workflow \<Rightarrow> Workflow" where
  "setPinData pd w = w\<lparr>pinData := pd\<rparr>"

definition setSettings :: "string option \<Rightarrow> Workflow \<Rightarrow> Workflow" where
  "setSettings order w = w\<lparr>executionOrder := order\<rparr>"

definition setTestStaticData :: "(string, json) jsmap \<Rightarrow> Workflow \<Rightarrow> Workflow" where
  "setTestStaticData d w = w\<lparr>testStaticData := Some d\<rparr>"

text \<open>The constructor's assignments, for nodes whose parameters already hold their defaults.\<close>

definition new_Workflow ::
  "string \<Rightarrow> INode list \<Rightarrow> IConnections \<Rightarrow> INodeTypes \<Rightarrow> string option \<Rightarrow> IPinData option \<Rightarrow> Workflow" where
  "new_Workflow i nodes connections types order pd =
     setSettings order (setPinData pd (setConnections connections (setNodes nodes
       \<lparr>w_id = i, w_nodes = [], connectionsBySourceNode = [], connectionsByDestinationNode = [],
        nodeTypes = types, w_active = False, executionOrder = None, staticData = [],
        testStaticData = None, pinData = None\<rparr>)))"

text \<open>A second copy of the transposition lives in the class.\<close>

definition getConnectionsByDestination :: "IConnections \<Rightarrow> IConnections" where
  "getConnectionsByDestination connections =
     foldl (\<lambda>ret (sourceNode, nodeConns).
       foldl (\<lambda>ret (type, groups).
         foldl (\<lambda>ret (inputIndex, group).
           foldl (addByDestination sourceNode type inputIndex) ret (case_option [] (\<lambda>g. g) group))
         ret (List.enumerate 0 groups))
       ret nodeConns)
     [] connections"

datatype StaticDataType = GlobalData | NodeData "INode option" | OtherData string

definition getStaticData :: "Workflow \<Rightarrow> StaticDataType \<Rightarrow> (json \<times> Workflow) res" where
  "getStaticData w type =
     rbind (case type of
         GlobalData \<Rightarrow> Inr ''global''
       | NodeData None \<Rightarrow> Inl (ApplicationError
           ''The request data of context type \"node\" the node parameter has to be set!'')
       | NodeData (Some n) \<Rightarrow> Inr (''node:'' @ n_name n)
       | OtherData t \<Rightarrow> Inl (ApplicationError
           ''Unknown context type. Only `global` and `node` are supported.''))
     (\<lambda>key. case Option.bind (testStaticData w) (\<lambda>d. map_of d key) of
         Some d \<Rightarrow> Inr (d, w)
       | None \<Rightarrow>
           let sd = (if map_of (staticData w) key = None
                     then AList.update key (JObj []) (staticData w) else staticData w)
           in Inr (the (map_of sd key), w\<lparr>staticData := sd\<rparr>))"

section \<open>Queries on nodes\<close>

definition queryNodes :: "Workflow \<Rightarrow> (INodeType \<Rightarrow> bool) \<Rightarrow> INode list" where
  "queryNodes w checkFunction =
     filter (\<lambda>node. n_disabled node \<noteq> Some True \<and>
        (case nodeTypes w (n_type node) (n_typeVersion node) of
           None \<Rightarrow> False | Some nodeType \<Rightarrow> checkFunction nodeType)) (vals (w_nodes w))"

definition getTriggerNodes :: "Workflow \<Rightarrow> INode list" where
  "getTriggerNodes w = queryNodes w nt_trigger"

definition getPollNodes :: "Workflow \<Rightarrow> INode list" where
  "getPollNodes w = queryNodes w nt_poll"

definition getNode :: "Workflow \<Rightarrow> string \<Rightarrow> INode option" where
  "getNode w nodeName = map_of (w_nodes w) nodeName"

definition getNodes :: "Workflow \<Rightarrow> string list \<Rightarrow> INode list" where
  "getNodes w nodeNames =
     concat (map (\<lambda>name. case getNode w name of None \<Rightarrow> [] | Some node \<Rightarrow> [node]) nodeNames)"

definition getPinDataOfNode :: "Workflow \<Rightarrow> string \<Rightarrow> items option" where
  "getPinDataOfNode w nodeName = (case pinData w of None \<Rightarrow> None | Some pd \<Rightarrow> map_of pd nodeName)"

definition wf_getChildNodes :: "Workflow \<Rightarrow> string \<Rightarrow> ConnectionTypeArg \<Rightarrow> int \<Rightarrow> string list" where
  "wf_getChildNodes w nodeName type depth = getChildNodes (connectionsBySourceNode w) nodeName type depth"

definition wf_getParentNodes :: "Workflow \<Rightarrow> string \<Rightarrow> ConnectionTypeArg \<Rightarrow> int \<Rightarrow> string list" where
  "wf_getParentNodes w nodeName type depth = getParentNodes (connectionsByDestinationNode w) nodeName type depth"

text \<open>Nodes are filed under their own names.\<close>

definition nodes_ok :: "INodes \<Rightarrow> bool" where
  "nodes_ok ns \<longleftrightarrow> distinct (map fst ns) \<and> (\<forall>(k, n) \<in> set ns. n_name n = k)"

lemma nodes_ok_update: "nodes_ok ns \<Longrightarrow> nodes_ok (AList.update (n_name n) n ns)"
  using set_update_subset [of "n_name n" n ns] by (auto simp: nodes_ok_def distinct_update)

lemma nodes_ok_name: "nodes_ok ns \<Longrightarrow> map_of ns k = Some n \<Longrightarrow> n_name n = k"
  by (auto simp: nodes_ok_def dest: map_of_SomeD)

lemma setNodes_ok: "nodes_ok (w_nodes (setNodes nodes w))"
  by (simp add: setNodes_def) (rule foldl_invariant, auto simp: nodes_ok_update, simp add: nodes_ok_def)

section \<open>Parents, children and the way back\<close>

text \<open>
  \<open>getNodeConnectionIndexes\<close>: breadth-first search against the direction of the connections
  until one of them leaves the parent node. \<open>Inl\<close> is the early return of the inner loops.
\<close>

fun scanConnections ::
  "string \<Rightarrow> string list \<Rightarrow> nat \<Rightarrow> IConnection list \<Rightarrow> string list \<Rightarrow> INodeConnection + string list" where
  "scanConnections parentNodeName visitedNodes destIndex [] queue = Inr queue"
| "scanConnections parentNodeName visitedNodes destIndex (connection # cs) queue =
     (if parentNodeName = c_node connection
      then Inl \<lparr>sourceIndex = c_index connection, destinationIndex = destIndex\<rparr>
      else scanConnections parentNodeName visitedNodes (Suc destIndex) cs
             (if c_node connection \<in> set visitedNodes then queue else queue @ [c_node connection]))"

fun scanGroups ::
  "string \<Rightarrow> string list \<Rightarrow> NodeInputConnections \<Rightarrow> string list \<Rightarrow> INodeConnection + string list" where
  "scanGroups parentNodeName visitedNodes [] queue = Inr queue"
| "scanGroups parentNodeName visitedNodes (None # gs) queue = scanGroups parentNodeName visitedNodes gs queue"
| "scanGroups parentNodeName visitedNodes (Some g # gs) queue =
     (case scanConnections parentNodeName visitedNodes 0 g queue of
        Inl r \<Rightarrow> Inl r
      | Inr q \<Rightarrow> scanGroups parentNodeName visitedNodes gs q)"

function searchConnectionIndexes ::
  "IConnections \<Rightarrow> NodeConnectionType \<Rightarrow> string \<Rightarrow> string list \<Rightarrow> string list \<Rightarrow> INodeConnection option" where
  "searchConnectionIndexes connectionsByDest type parentNodeName visitedNodes [] = None"
| "searchConnectionIndexes connectionsByDest type parentNodeName visitedNodes (current # queue) =
     (if current \<in> set visitedNodes
      then searchConnectionIndexes connectionsByDest type parentNodeName visitedNodes queue
      else case Option.bind (map_of connectionsByDest current) (\<lambda>m. map_of m type) of
        None \<Rightarrow> searchConnectionIndexes connectionsByDest type parentNodeName (visitedNodes @ [current]) queue
      | Some typeConnections \<Rightarrow>
          (case scanGroups parentNodeName (visitedNodes @ [current]) typeConnections queue of
             Inl r \<Rightarrow> Some r
           | Inr q \<Rightarrow> searchConnectionIndexes connectionsByDest type parentNodeName (visitedNodes @ [current]) q))"
  by pat_completeness auto
termination
proof (relation "measures [\<lambda>(conns, t, p, vis, q). not_checked conns vis, \<lambda>(conns, t, p, vis, q). length q]",
    goal_cases)
  case (3 conns t p vis cur q)
  have "not_checked conns (vis @ [cur]) \<le> not_checked conns vis"
    unfolding not_checked_def by (induction conns) auto
  then show ?case by auto
next
  case (4 conns t p vis cur q gs q')
  then show ?case by (auto simp: not_checked_less bind_eq_Some_conv)
qed simp_all

definition getNodeConnectionIndexes ::
  "Workflow \<Rightarrow> string \<Rightarrow> string \<Rightarrow> NodeConnectionType \<Rightarrow> INodeConnection option" where
  "getNodeConnectionIndexes w nodeName parentNodeName type =
     (case getNode w parentNodeName of
        None \<Rightarrow> None
      | Some parentNode \<Rightarrow>
          searchConnectionIndexes (connectionsByDestinationNode w) type parentNodeName [] [nodeName])"

lemma edges_OfType: "edges conns (OfType t) `` {a} = c_node ` set (flat_groups (groups_of conns a t))"
  by (auto simp: edges_def types_of_arg_def groups_of_def split: option.splits)

lemma scanConnections_Inl:
  "scanConnections p vis k cs q = Inl r \<Longrightarrow>
     \<exists>i < length cs. c_node (cs ! i) = p \<and> sourceIndex r = c_index (cs ! i) \<and> destinationIndex r = k + i"
proof (induction p vis k cs q rule: scanConnections.induct)
  case (2 p vis k c cs q)
  show ?case
  proof (cases "p = c_node c")
    case False
    with 2 obtain i where "i < length cs" "c_node (cs ! i) = p" "sourceIndex r = c_index (cs ! i)"
        "destinationIndex r = Suc k + i"
      by auto
    then show ?thesis by (intro exI [of _ "Suc i"]) simp
  qed (use 2 in auto)
qed simp

lemma scanConnections_Inr:
  "scanConnections p vis k cs q = Inr q' \<Longrightarrow>
     p \<notin> c_node ` set cs \<and> set q' = set q \<union> (c_node ` set cs - set vis)"
  by (induction p vis k cs q rule: scanConnections.induct) (auto split: if_splits)

lemma scanGroups_Inl:
  "scanGroups p vis gs q = Inl r \<Longrightarrow>
     \<exists>j g i. j < length gs \<and> gs ! j = Some g \<and> i < length g \<and> c_node (g ! i) = p \<and>
       sourceIndex r = c_index (g ! i) \<and> destinationIndex r = i"
proof (induction p vis gs q rule: scanGroups.induct)
  case (2 p vis gs q)
  then show ?case by (auto intro: exI [of _ "Suc _"])
next
  case (3 p vis g gs q)
  show ?case
  proof (cases "scanConnections p vis 0 g q")
    case (Inl r')
    with 3(2) scanConnections_Inl [OF Inl] show ?thesis
      by (intro exI [of _ 0] exI [of _ g] exI [of _ "destinationIndex r"]) auto
  next
    case (Inr q')
    with 3 show ?thesis by (auto intro: exI [of _ "Suc _"])
  qed
qed simp

lemma scanGroups_Inr:
  "scanGroups p vis gs q = Inr q' \<Longrightarrow>
     p \<notin> c_node ` set (flat_groups gs) \<and> set q' = set q \<union> (c_node ` set (flat_groups gs) - set vis)"
  by (induction p vis gs q rule: scanGroups.induct)
    (auto split: sum.splits dest!: scanConnections_Inr simp: image_Un)

text \<open>What holds between two turns of the search from \<open>n\<close>.\<close>

definition search_inv :: "(string \<times> string) set \<Rightarrow> string \<Rightarrow> string \<Rightarrow> string list \<Rightarrow> string list \<Rightarrow> bool" where
  "search_inv E n p vis q \<longleftrightarrow> n \<in> set vis \<union> set q \<and> set vis \<union> set q \<subseteq> E\<^sup>* `` {n} \<and>
     E `` set vis \<subseteq> set vis \<union> set q \<and> p \<notin> E `` set vis"

lemma search_inv_step:
  assumes inv: "search_inv E n p vis (cur # q)"
    and succ: "E `` {cur} = S" "p \<notin> S" and q': "set q' = set q \<union> (S - set (vis @ [cur]))"
  shows "search_inv E n p (vis @ [cur]) q'"
proof -
  have "S \<subseteq> E\<^sup>* `` {n}"
    using inv succ(1) by (auto simp: search_inv_def intro: rtrancl_into_rtrancl)
  then show ?thesis using assms unfolding search_inv_def by auto
qed

lemma searchConnectionIndexes_None:
  assumes "searchConnectionIndexes conns t p vis q = None"
    and "search_inv (edges conns (OfType t)) n p vis q"
  shows "(n, p) \<notin> (edges conns (OfType t))\<^sup>+"
  using assms
proof (induction conns t p vis q rule: searchConnectionIndexes.induct)
  case (1 conns t p vis)
  let ?E = "edges conns (OfType t)"
  have "?E\<^sup>* `` {n} \<subseteq> set vis"
    using 1 closed_rtrancl [of ?E "set vis"] by (auto simp: search_inv_def)
  then have "p \<notin> ?E `` (?E\<^sup>* `` {n})" using 1 by (auto simp: search_inv_def)
  then show ?case by (auto dest: tranclD2)
next
  case (2 conns t p vis cur q)
  let ?E = "edges conns (OfType t)"
  show ?case
  proof (cases "cur \<in> set vis")
    case True
    have "search_inv ?E n p vis q" using 2(5) True by (auto simp: search_inv_def)
    then show ?thesis using 2(1) [OF True] 2(4) True by simp
  next
    case False
    show ?thesis
    proof (cases "Option.bind (map_of conns cur) (\<lambda>m. map_of m t)")
      case None
      then have "?E `` {cur} = {}"
        by (auto simp: edges_OfType groups_of_def split: option.splits)
      then have "search_inv ?E n p (vis @ [cur]) q"
        by (intro search_inv_step [OF 2(5)]) auto
      then show ?thesis using 2(2) [OF False None] 2(4) False None by simp
    next
      case (Some gs)
      then have gs: "groups_of conns cur t = gs"
        by (auto simp: groups_of_def bind_eq_Some_conv)
      obtain q' where q': "scanGroups p (vis @ [cur]) gs q = Inr q'"
        using 2(4) False Some by (auto split: sum.splits)
      have "search_inv ?E n p (vis @ [cur]) q'"
        using scanGroups_Inr [OF q'] gs by (intro search_inv_step [OF 2(5)]) (auto simp: edges_OfType)
      then show ?thesis using 2(3) [OF False Some q'] 2(4) False Some q' by simp
    qed
  qed
qed

text \<open>A connection that reaches back from \<open>n\<close>: input \<open>destinationIndex\<close> of a group at some
  ancestor of \<open>n\<close> (or \<open>n\<close> itself) is fed by output \<open>sourceIndex\<close> of \<open>p\<close>.\<close>

definition leads_back :: "IConnections \<Rightarrow> NodeConnectionType \<Rightarrow> string \<Rightarrow> string \<Rightarrow> INodeConnection \<Rightarrow> bool" where
  "leads_back conns t n p r \<longleftrightarrow>
     (\<exists>m j g. (n, m) \<in> (edges conns (OfType t))\<^sup>* \<and> j < length (groups_of conns m t) \<and>
        groups_of conns m t ! j = Some g \<and> destinationIndex r < length g \<and>
        c_node (g ! destinationIndex r) = p \<and> sourceIndex r = c_index (g ! destinationIndex r))"

lemma searchConnectionIndexes_Some:
  assumes "searchConnectionIndexes conns t p vis q = Some r"
    and "set q \<subseteq> (edges conns (OfType t))\<^sup>* `` {n}"
  shows "leads_back conns t n p r"
  using assms
proof (induction conns t p vis q rule: searchConnectionIndexes.induct)
  case (2 conns t p vis cur q)
  show ?case
  proof (cases "cur \<in> set vis")
    case True
    with 2(1,4,5) show ?thesis by simp
  next
    case False
    show ?thesis
    proof (cases "Option.bind (map_of conns cur) (\<lambda>m. map_of m t)")
      case None
      with 2(2,4,5) False show ?thesis by simp
    next
      case (Some gs)
      then have gs: "groups_of conns cur t = gs"
        by (auto simp: groups_of_def bind_eq_Some_conv)
      show ?thesis
      proof (cases "scanGroups p (vis @ [cur]) gs q")
        case (Inl r')
        then show ?thesis
          using scanGroups_Inl [OF Inl] 2(4,5) False Some gs unfolding leads_back_def by fastforce
      next
        case (Inr q')
        have "set q' \<subseteq> (edges conns (OfType t))\<^sup>* `` {n}"
          using scanGroups_Inr [OF Inr] 2(5) gs edges_OfType [of conns t cur]
          by (auto intro: rtrancl_into_rtrancl)
        then show ?thesis using 2(3) [OF False Some Inr] 2(4) False Some Inr by simp
      qed
    qed
  qed
qed simp

text \<open>\<open>getNodeConnectionIndexes\<close> finds a connection exactly when the parent node exists and
  is an ancestor over connections of the type, and the pair it returns is the position of a
  connection that really leaves the parent node on the way to the node.\<close>

theorem getNodeConnectionIndexes_correct:
  "(case getNodeConnectionIndexes w n p t of
      None \<Rightarrow> getNode w p = None \<or> (n, p) \<notin> (edges (connectionsByDestinationNode w) (OfType t))\<^sup>+
    | Some r \<Rightarrow> getNode w p \<noteq> None \<and> leads_back (connectionsByDestinationNode w) t n p r)"
proof (cases "getNode w p")
  case None
  then show ?thesis by (simp add: getNodeConnectionIndexes_def)
next
  case (Some pn)
  let ?C = "connectionsByDestinationNode w"
  have "search_inv (edges ?C (OfType t)) n p [] [n]" by (simp add: search_inv_def)
  then show ?thesis
    using Some searchConnectionIndexes_None [of ?C t p "[]" "[n]" n]
      searchConnectionIndexes_Some [of ?C t p "[]" "[n]" _ n]
    by (auto simp: getNodeConnectionIndexes_def split: option.split)
qed

definition path_example :: Workflow where
  "path_example = new_Workflow ''w'' [mk_node 0 ''A'' ''set'', mk_node 1 ''B'' ''set'', mk_node 2 ''M'' ''merge'']
     [(''A'', [(Main, [Some [\<lparr>c_node = ''M'', c_type = Main, c_index = 0\<rparr>]])]),
      (''B'', [(Main, [Some [\<lparr>c_node = ''M'', c_type = Main, c_index = 0\<rparr>]])])]
     (\<lambda>ty v. None) (Some ''v1'') None"

lemma path_example_eval:
  "getNodeConnectionIndexes path_example ''M'' ''B'' Main = Some \<lparr>sourceIndex = 0, destinationIndex = 1\<rparr>"
  by code_simp

lemma getNodeConnectionIndexes_correct_witness:
  "leads_back (connectionsByDestinationNode path_example) Main ''M'' ''B'' \<lparr>sourceIndex = 0, destinationIndex = 1\<rparr>"
  using getNodeConnectionIndexes_correct [where w = path_example and n = "''M''" and p = "''B''" and t = Main]
  unfolding path_example_eval option.case by (rule conjunct2)

end
