(* ===== verification/DirectedGraph.thy ===== *)
theory DirectedGraph
  imports WorkflowGraph
begin

text \<open>
  The graph of \<open>partial-execution-utils/directed-graph.ts\<close> (class \<open>DirectedGraph\<close>): its two maps,
  every operation that edits or reads them, the searches, and the conversions from and to the
  connections of a workflow. Strongly connected components are in \<open>Components\<close>.

  A node is compared by reference, which the field \<open>n_ref\<close> of a node stands for. Connections are
  objects as well, but the map holds at most one of each content, so structural equality is
  reference equality among the connections of one graph.
\<close>

named_theorems graph_simps \<open>what the operations of a graph do to its nodes and connections\<close>

section \<open>The graph and its invariant\<close>

record GraphConnection =
  g_from :: INode
  g_to :: INode
  g_type :: NodeConnectionType
  g_outputIndex :: nat
  g_inputIndex :: nat

record DirectedGraph =
  g_nodes :: "(string, INode) jsmap"
  g_connections :: "(string, GraphConnection) jsmap"

definition empty_graph :: DirectedGraph where
  "empty_graph = \<lparr>g_nodes = [], g_connections = []\<rparr>"

definition makeKey :: "GraphConnection \<Rightarrow> string" where
  "makeKey c = n_name (g_from c) @ ''-'' @ type_name (g_type c) @ ''-'' @ show_nat (g_outputIndex c) @ ''-'' @
     show_nat (g_inputIndex c) @ ''-'' @ n_name (g_to c)"

text \<open>\<open>this.nodes.get(node.name) === node\<close>\<close>

definition is_node :: "DirectedGraph \<Rightarrow> INode \<Rightarrow> bool" where
  "is_node g node \<longleftrightarrow> map_of (g_nodes g) (n_name node) = Some node"

definition graph_ok :: "DirectedGraph \<Rightarrow> bool" where
  "graph_ok g \<longleftrightarrow> nodes_ok (g_nodes g) \<and> distinct (map fst (g_connections g)) \<and>
     (\<forall>(k, c) \<in> set (g_connections g). k = makeKey c \<and> is_node g (g_from c) \<and> is_node g (g_to c))"

lemma is_node_iff: "nodes_ok (g_nodes g) \<Longrightarrow> is_node g node \<longleftrightarrow> node \<in> set (vals (g_nodes g))"
  by (auto simp: is_node_def nodes_ok_def dest: map_of_SomeD intro: image_eqI) (force intro: map_of_is_SomeI)

lemma graph_okD:
  assumes "graph_ok g" and "c \<in> set (vals (g_connections g))"
  shows "is_node g (g_from c)" and "is_node g (g_to c)" and "map_of (g_connections g) (makeKey c) = Some c"
  using assms by (auto simp: graph_ok_def)

lemma graph_okI:
  assumes "nodes_ok (g_nodes g)" and "distinct (map fst (g_connections g)) \<and> (\<forall>(k, c) \<in> set (g_connections g). k = makeKey c)"
    and "\<And>c. c \<in> set (vals (g_connections g)) \<Longrightarrow> is_node g (g_from c) \<and> is_node g (g_to c)"
  shows "graph_ok g"
proof -
  have "(k, c) \<in> set (g_connections g) \<Longrightarrow> is_node g (g_from c) \<and> is_node g (g_to c)" for k c
    by (rule assms(3)) force
  with assms(1,2) show ?thesis by (auto simp: graph_ok_def)
qed

lemma empty_graph_ok [simp]: "graph_ok empty_graph"
  by (simp add: graph_ok_def empty_graph_def nodes_ok_def)

section \<open>Reading a graph\<close>

definition hasNode :: "DirectedGraph \<Rightarrow> string \<Rightarrow> bool" where
  "hasNode g nodeName = (map_of (g_nodes g) nodeName \<noteq> None)"

definition getNodesByNames :: "DirectedGraph \<Rightarrow> string list \<Rightarrow> INode list" where
  "getNodesByNames g names = foldl (\<lambda>ns name.
     case map_of (g_nodes g) name of None \<Rightarrow> ns | Some node \<Rightarrow> sadd node ns) [] names"

definition getConnections :: "DirectedGraph \<Rightarrow> INode option \<Rightarrow> GraphConnection list" where
  "getConnections g to_filter =
     filter (\<lambda>c. case to_filter of None \<Rightarrow> True | Some node \<Rightarrow> g_to c = node) (vals (g_connections g))"

definition getDirectChildConnections :: "DirectedGraph \<Rightarrow> INode \<Rightarrow> GraphConnection list res" where
  "getDirectChildConnections g node =
     rbind (assert_ok (is_node g node)) (\<lambda>_. Inr (filter (\<lambda>c. g_from c = node) (vals (g_connections g))))"

definition getDirectParentConnections :: "DirectedGraph \<Rightarrow> INode \<Rightarrow> GraphConnection list res" where
  "getDirectParentConnections g node =
     rbind (assert_ok (is_node g node)) (\<lambda>_. Inr (filter (\<lambda>c. g_to c = node) (vals (g_connections g))))"

definition getConnection ::
  "DirectedGraph \<Rightarrow> INode \<Rightarrow> nat \<Rightarrow> NodeConnectionType \<Rightarrow> nat \<Rightarrow> INode \<Rightarrow> GraphConnection option" where
  "getConnection g source outputIndex type inputIndex target =
     map_of (g_connections g) (makeKey \<lparr>g_from = source, g_to = target, g_type = type,
       g_outputIndex = outputIndex, g_inputIndex = inputIndex\<rparr>)"

lemma getDirectChildConnections_Inr [graph_simps]:
  "getDirectChildConnections g node = Inr cs \<longleftrightarrow>
     is_node g node \<and> cs = filter (\<lambda>c. g_from c = node) (vals (g_connections g))"
  by (auto simp: getDirectChildConnections_def res_simps)

lemma getDirectParentConnections_Inr [graph_simps]:
  "getDirectParentConnections g node = Inr cs \<longleftrightarrow>
     is_node g node \<and> cs = filter (\<lambda>c. g_to c = node) (vals (g_connections g))"
  by (auto simp: getDirectParentConnections_def res_simps)

section \<open>Editing a graph\<close>

definition addNode :: "INode \<Rightarrow> DirectedGraph \<Rightarrow> DirectedGraph" where
  "addNode node g = g\<lparr>g_nodes := AList.update (n_name node) node (g_nodes g)\<rparr>"

definition addNodes :: "INode list \<Rightarrow> DirectedGraph \<Rightarrow> DirectedGraph" where
  "addNodes ns g = foldl (\<lambda>g node. addNode node g) g ns"

definition addConnection :: "GraphConnection \<Rightarrow> DirectedGraph \<Rightarrow> DirectedGraph res" where
  "addConnection c g =
     rbind (assert_ok (is_node g (g_from c))) (\<lambda>_.
     rbind (assert_ok (is_node g (g_to c))) (\<lambda>_.
     Inr (g\<lparr>g_connections := AList.update (makeKey c) c (g_connections g)\<rparr>)))"

definition addConnections :: "GraphConnection list \<Rightarrow> DirectedGraph \<Rightarrow> DirectedGraph res" where
  "addConnections cs g = foldR (\<lambda>g c. addConnection c g) g cs"

text \<open>The defaults of the optional fields of \<open>connectionInput\<close>.\<close>

definition connectionInput ::
  "INode \<Rightarrow> INode \<Rightarrow> NodeConnectionType option \<Rightarrow> nat option \<Rightarrow> nat option \<Rightarrow> GraphConnection" where
  "connectionInput source target type outputIndex inputIndex =
     \<lparr>g_from = source, g_to = target, g_type = (case type of None \<Rightarrow> Main | Some t \<Rightarrow> t),
      g_outputIndex = (case outputIndex of None \<Rightarrow> 0 | Some i \<Rightarrow> i),
      g_inputIndex = (case inputIndex of None \<Rightarrow> 0 | Some i \<Rightarrow> i)\<rparr>"

definition dropConnectionsOf :: "INode \<Rightarrow> (string, GraphConnection) jsmap \<Rightarrow> (string, GraphConnection) jsmap" where
  "dropConnectionsOf node cs =
     foldl (\<lambda>m (key, c). if g_to c = node \<or> g_from c = node then AList.delete key m else m) cs cs"

definition newConnections ::
  "(GraphConnection \<Rightarrow> bool) \<Rightarrow> GraphConnection list \<Rightarrow> GraphConnection list \<Rightarrow> GraphConnection list" where
  "newConnections skipConnectionFn incoming outgoing =
     concat (map (\<lambda>i. map (\<lambda>out. i\<lparr>g_to := g_to out, g_inputIndex := g_inputIndex out\<rparr>)
       (filter (\<lambda>out. \<not> skipConnectionFn out) outgoing)) (filter (\<lambda>i. \<not> skipConnectionFn i) incoming))"

definition removeNode :: "INode \<Rightarrow> DirectedGraph \<Rightarrow> DirectedGraph" where
  "removeNode node g = g\<lparr>g_connections := dropConnectionsOf node (g_connections g),
     g_nodes := AList.delete (n_name node) (g_nodes g)\<rparr>"

definition removeNode_reconnect ::
  "(GraphConnection \<Rightarrow> bool) \<Rightarrow> INode \<Rightarrow> DirectedGraph \<Rightarrow> (DirectedGraph \<times> GraphConnection list) res" where
  "removeNode_reconnect skipConnectionFn node g =
     rbind (getDirectParentConnections g node) (\<lambda>incoming.
     rbind (getDirectChildConnections g node) (\<lambda>outgoing.
     let new = newConnections skipConnectionFn incoming outgoing in
     Inr (g\<lparr>g_connections := foldl (\<lambda>m c. AList.update (makeKey c) c m)
              (dropConnectionsOf node (g_connections g)) new,
            g_nodes := AList.delete (n_name node) (g_nodes g)\<rparr>, new)))"

section \<open>What editing does\<close>

lemma addNodes_nodes: "g_nodes (addNodes ns g) = foldl (\<lambda>m n. AList.update (n_name n) n m) (g_nodes g) ns"
  and addNodes_connections [simp]: "g_connections (addNodes ns g) = g_connections g"
proof -
  have "g_nodes (addNodes ns g) = foldl (\<lambda>m n. AList.update (n_name n) n m) (g_nodes g) ns \<and>
      g_connections (addNodes ns g) = g_connections g"
    by (induction ns arbitrary: g) (simp_all add: addNodes_def addNode_def)
  then show "g_nodes (addNodes ns g) = foldl (\<lambda>m n. AList.update (n_name n) n m) (g_nodes g) ns"
    and "g_connections (addNodes ns g) = g_connections g" by simp_all
qed

lemma nodes_ok_foldl: "nodes_ok m \<Longrightarrow> nodes_ok (foldl (\<lambda>m n. AList.update (n_name n) n m) m ns)"
  by (induction ns arbitrary: m) (simp_all add: nodes_ok_update)

lemma addNodes_ok: "graph_ok (addNodes ns empty_graph)"
proof -
  have "nodes_ok (g_nodes (addNodes ns empty_graph))"
    unfolding addNodes_nodes by (rule nodes_ok_foldl) (simp add: empty_graph_def nodes_ok_def)
  then show ?thesis by (simp add: graph_ok_def) (simp add: empty_graph_def)
qed

text \<open>Adding a connection fails exactly when an end is not the graph's node of that name.\<close>

lemma addConnection_Inr [graph_simps]:
  "addConnection c g = Inr g' \<longleftrightarrow> is_node g (g_from c) \<and> is_node g (g_to c) \<and>
     g' = g\<lparr>g_connections := AList.update (makeKey c) c (g_connections g)\<rparr>"
  by (auto simp: addConnection_def res_simps)

lemma addConnection_ok:
  assumes "graph_ok g" and "addConnection c g = Inr g'"
  shows "graph_ok g'"
  using assms set_update_subset [of "makeKey c" c "g_connections g"]
  by (auto simp: graph_ok_def graph_simps distinct_update is_node_def)

lemma addConnections_Inr:
  "addConnections cs g = Inr g' \<longleftrightarrow> (\<forall>c \<in> set cs. is_node g (g_from c) \<and> is_node g (g_to c)) \<and>
     g' = g\<lparr>g_connections := foldl (\<lambda>m c. AList.update (makeKey c) c m) (g_connections g) cs\<rparr>"
  unfolding addConnections_def
proof (induction cs arbitrary: g)
  case (Cons c cs)
  show ?case
    by (auto simp: res_simps graph_simps Cons.IH is_node_def)
qed auto

lemma addConnections_ok: "graph_ok g \<Longrightarrow> addConnections cs g = Inr g' \<Longrightarrow> graph_ok g'"
  unfolding addConnections_def by (erule foldR_invariant) (auto intro: addConnection_ok)

text \<open>Deleting the entries of a map that satisfy a condition, one by one, is a filter.\<close>

lemma foldl_delete:
  "foldl (\<lambda>m (k, c). if P c then AList.delete k m else m) m xs =
     filter (\<lambda>p. fst p \<notin> fst ` {x \<in> set xs. P (snd x)}) m"
proof (induction xs arbitrary: m)
  case (Cons x xs)
  have "{y \<in> set (x # xs). P (snd y)} =
      (if P (snd x) then insert x {y \<in> set xs. P (snd y)} else {y \<in> set xs. P (snd y)})"
    by auto
  with Cons show ?case
    by (cases x) (auto simp: AList.delete_eq case_prod_unfold intro!: filter_cong)
qed simp

lemma dropConnectionsOf_filter:
  assumes "distinct (map fst cs)"
  shows "dropConnectionsOf node cs = filter (\<lambda>p. g_to (snd p) \<noteq> node \<and> g_from (snd p) \<noteq> node) cs"
proof -
  have "fst p \<in> fst ` {x \<in> set cs. g_to (snd x) = node \<or> g_from (snd x) = node} \<longleftrightarrow>
      g_to (snd p) = node \<or> g_from (snd p) = node" if "p \<in> set cs" for p
    using assms that by (auto simp: distinct_map inj_on_def)
  then show ?thesis
    unfolding dropConnectionsOf_def foldl_delete by (intro filter_cong) auto
qed

lemma nodes_ok_delete: "nodes_ok m \<Longrightarrow> nodes_ok (AList.delete k m)"
  by (auto simp: nodes_ok_def set_delete distinct_delete)

lemma is_node_removed [simp]:
  "is_node (g\<lparr>g_nodes := AList.delete (n_name node) (g_nodes g)\<rparr>) n \<longleftrightarrow>
     is_node g n \<and> n_name n \<noteq> n_name node"
  by (auto simp: is_node_def jsmap_simps)

lemma is_node_connections [simp]: "is_node (g\<lparr>g_connections := cs\<rparr>) n \<longleftrightarrow> is_node g n"
  by (simp add: is_node_def)

lemma is_node_inj: "is_node g a \<Longrightarrow> is_node g b \<Longrightarrow> n_name a = n_name b \<Longrightarrow> a = b"
  by (simp add: is_node_def)

lemma removeNode_connections:
  "graph_ok g \<Longrightarrow> g_connections (removeNode node g) =
     filter (\<lambda>p. g_to (snd p) \<noteq> node \<and> g_from (snd p) \<noteq> node) (g_connections g)"
  by (simp add: removeNode_def dropConnectionsOf_filter graph_ok_def)

lemma removeNode_ok:
  assumes "graph_ok g" and "is_node g node"
  shows "graph_ok (removeNode node g)"
proof -
  have "graph_ok g \<Longrightarrow> is_node (removeNode node g) n" if "is_node g n" "n \<noteq> node" for n
    using that is_node_inj [OF that(1) assms(2)] by (auto simp: removeNode_def is_node_def jsmap_simps)
  then show ?thesis
    using assms(1) unfolding graph_ok_def [of "removeNode node g"] removeNode_connections [OF assms(1)]
    by (auto simp: graph_ok_def removeNode_def nodes_ok_delete distinct_map_filter)
qed

section \<open>Removing a node and reconnecting its neighbours\<close>

definition child_rel :: "DirectedGraph \<Rightarrow> (INode \<times> INode) set" where
  "child_rel g = {(a, b). \<exists>c \<in> set (vals (g_connections g)). g_from c = a \<and> g_to c = b}"

text \<open>A map whose keys are the keys of its values, and a key function that tells the values apart.\<close>

lemma keyed_puts:
  assumes "distinct (map fst m)" and "\<forall>(k, c) \<in> set m. k = makeKey c"
    and "inj_on makeKey (set (vals m) \<union> set cs)"
  defines "m' \<equiv> foldl (\<lambda>m c. AList.update (makeKey c) c m) m cs"
  shows "distinct (map fst m') \<and> (\<forall>(k, c) \<in> set m'. k = makeKey c) \<and>
    set (vals m') = set (vals m) \<union> set cs"
  using assms(1-3) unfolding m'_def
proof (induction cs arbitrary: m)
  case (Cons c cs)
  let ?m = "AList.update (makeKey c) c m"
  have set_m: "set ?m = insert (makeKey c, c) {p \<in> set m. fst p \<noteq> makeKey c}"
    by (rule set_update_ok [OF Cons.prems(1)])
  have "snd p = c" if "p \<in> set m" "fst p = makeKey c" for p
  proof -
    have "makeKey (snd p) = makeKey c" using that Cons.prems(2) by (auto simp: case_prod_unfold)
    moreover have "snd p \<in> set (vals m) \<union> set (c # cs)" "c \<in> set (vals m) \<union> set (c # cs)" using that by auto
    ultimately show ?thesis using Cons.prems(3) by (meson inj_onD)
  qed
  then have "set (vals ?m) = insert c (set (vals m))" unfolding set_map set_m by force
  moreover have "distinct (map fst ?m)" using Cons.prems(1) by (simp add: distinct_update)
  moreover have "\<forall>(k, c) \<in> set ?m. k = makeKey c" using Cons.prems(2) unfolding set_m by auto
  ultimately show ?case using Cons.IH [of ?m] Cons.prems(3) by simp
qed simp

text \<open>The keys of a graph are unambiguous when they tell all possible connections between its
  nodes apart.\<close>

definition unambiguous :: "DirectedGraph \<Rightarrow> bool" where
  "unambiguous g \<longleftrightarrow> inj_on makeKey {c. is_node g (g_from c) \<and> is_node g (g_to c)}"

lemma newConnections_iff:
  "c \<in> set (newConnections skip incoming outgoing) \<longleftrightarrow>
     (\<exists>i \<in> set incoming. \<exists>out \<in> set outgoing. \<not> skip i \<and> \<not> skip out \<and>
        c = i\<lparr>g_to := g_to out, g_inputIndex := g_inputIndex out\<rparr>)"
  by (auto simp: newConnections_def)

lemma newConnections_ends:
  assumes "c \<in> set (newConnections skip (filter (\<lambda>c. g_to c = node) cs) (filter (\<lambda>c. g_from c = node) cs))"
  shows "\<exists>i \<in> set cs. \<exists>out \<in> set cs. g_from c = g_from i \<and> g_to i = node \<and> g_from out = node \<and> g_to c = g_to out"
proof -
  from assms obtain i out where "i \<in> set cs" "g_to i = node" "out \<in> set cs" "g_from out = node"
      and "c = i\<lparr>g_to := g_to out, g_inputIndex := g_inputIndex out\<rparr>"
    unfolding newConnections_iff by auto
  then show ?thesis by (intro bexI [of _ i] bexI [of _ out]) simp_all
qed

lemma newConnections_rel:
  fixes cs :: "GraphConnection list"
  defines "R \<equiv> {(a, b). \<exists>c \<in> set cs. g_from c = a \<and> g_to c = b}"
  shows "{(a, b). \<exists>c \<in> {c \<in> set cs. g_to c \<noteq> node \<and> g_from c \<noteq> node} \<union>
      set (newConnections (\<lambda>_. False) (filter (\<lambda>c. g_to c = node) cs) (filter (\<lambda>c. g_from c = node) cs)).
        g_from c = a \<and> g_to c = b} =
    {(a, b) \<in> R. a \<noteq> node \<and> b \<noteq> node} \<union> {(a, b). (a, node) \<in> R \<and> (node, b) \<in> R}"
proof -
  have new: "(\<exists>c \<in> set (newConnections (\<lambda>_. False) (filter (\<lambda>c. g_to c = node) cs) (filter (\<lambda>c. g_from c = node) cs)).
      g_from c = a \<and> g_to c = b) \<longleftrightarrow> (a, node) \<in> R \<and> (node, b) \<in> R" (is "?L a b \<longleftrightarrow> _") for a b
  proof
    assume "?L a b"
    then show "(a, node) \<in> R \<and> (node, b) \<in> R"
      by (auto dest!: newConnections_ends simp: R_def)
  next
    assume "(a, node) \<in> R \<and> (node, b) \<in> R"
    then obtain i out where "i \<in> set cs" "g_from i = a" "g_to i = node" "out \<in> set cs" "g_from out = node" "g_to out = b"
      by (auto simp: R_def)
    then show "?L a b"
      by (intro bexI [of _ "i\<lparr>g_to := g_to out, g_inputIndex := g_inputIndex out\<rparr>"])
        (auto simp: newConnections_iff)
  qed
  show ?thesis unfolding bex_Un new by (auto simp: R_def)
qed

lemma removeNode_reconnect_connections:
  assumes ok: "graph_ok g" and node: "is_node g node" and keys: "unambiguous g"
  shows "\<exists>g' new. removeNode_reconnect skip node g = Inr (g', new) \<and>
    new = newConnections skip (filter (\<lambda>c. g_to c = node) (vals (g_connections g)))
      (filter (\<lambda>c. g_from c = node) (vals (g_connections g))) \<and>
    g_nodes g' = AList.delete (n_name node) (g_nodes g) \<and>
    distinct (map fst (g_connections g')) \<and> (\<forall>(k, c) \<in> set (g_connections g'). k = makeKey c) \<and>
    set (vals (g_connections g')) =
      {c \<in> set (vals (g_connections g)). g_to c \<noteq> node \<and> g_from c \<noteq> node} \<union> set new"
proof -
  let ?V = "vals (g_connections g)"
  let ?new = "newConnections skip (filter (\<lambda>c. g_to c = node) ?V) (filter (\<lambda>c. g_from c = node) ?V)"
  let ?kept = "filter (\<lambda>p. g_to (snd p) \<noteq> node \<and> g_from (snd p) \<noteq> node) (g_connections g)"
  have ends: "is_node g (g_from c) \<and> is_node g (g_to c)" if "c \<in> set ?V" for c
    using graph_okD(1,2) [OF ok that] by simp
  have "is_node g (g_from c) \<and> is_node g (g_to c)" if "c \<in> set (vals ?kept) \<union> set ?new" for c
    using that
  proof
    assume "c \<in> set (vals ?kept)"
    then have "c \<in> set ?V" by auto
    then show ?thesis by (rule ends)
  next
    assume "c \<in> set ?new"
    from newConnections_ends [OF this] ends show ?thesis by metis
  qed
  then have inj: "inj_on makeKey (set (vals ?kept) \<union> set ?new)"
    by (intro inj_on_subset [OF keys [unfolded unambiguous_def]] subsetI) blast
  have kept: "distinct (map fst ?kept)" "\<forall>(k, c) \<in> set ?kept. k = makeKey c"
    using ok by (auto simp: graph_ok_def distinct_map_filter)
  have drop: "dropConnectionsOf node (g_connections g) = ?kept"
    using ok by (simp add: dropConnectionsOf_filter graph_ok_def)
  have vals_kept: "set (vals ?kept) = {c \<in> set ?V. g_to c \<noteq> node \<and> g_from c \<noteq> node}" by auto
  note keyed = keyed_puts [OF kept inj]
  have run: "removeNode_reconnect skip node g = Inr (g\<lparr>g_connections := foldl (\<lambda>m c. AList.update (makeKey c) c m)
      ?kept ?new, g_nodes := AList.delete (n_name node) (g_nodes g)\<rparr>, ?new)"
    using node by (simp add: removeNode_reconnect_def getDirectParentConnections_def
        getDirectChildConnections_def drop Let_def)
  show ?thesis using keyed unfolding run vals_kept by simp
qed

text \<open>Contracting a vertex without a loop keeps the paths between the others.\<close>

lemma trancl_contract:
  fixes R :: "('a \<times> 'a) set"
  assumes "(n, n) \<notin> R" and "a \<noteq> n" and "b \<noteq> n"
  shows "(a, b) \<in> ({(a, b) \<in> R. a \<noteq> n \<and> b \<noteq> n} \<union> {(a, b). (a, n) \<in> R \<and> (n, b) \<in> R})\<^sup>+ \<longleftrightarrow> (a, b) \<in> R\<^sup>+"
    (is "_ \<in> ?S\<^sup>+ \<longleftrightarrow> _")
proof
  assume "(a, b) \<in> ?S\<^sup>+"
  then show "(a, b) \<in> R\<^sup>+"
    by induction (auto intro: trancl_into_trancl trancl_trans)
next
  assume "(a, b) \<in> R\<^sup>+"
  then have "(b \<noteq> n \<longrightarrow> (a, b) \<in> ?S\<^sup>+) \<and> (b = n \<longrightarrow> (\<exists>p. (a = p \<or> (a, p) \<in> ?S\<^sup>+) \<and> (p, n) \<in> R))"
  proof induction
    case (base y)
    with assms(2) show ?case by auto
  next
    case (step y z)
    show ?case
    proof (cases "y = n")
      case True
      with step obtain p where p: "a = p \<or> (a, p) \<in> ?S\<^sup>+" "(p, n) \<in> R" by blast
      have "z \<noteq> n" using step.hyps(2) True assms(1) by auto
      moreover have "(p, z) \<in> ?S" using p(2) step.hyps(2) True by auto
      ultimately show ?thesis using p(1) by (auto intro: trancl_into_trancl)
    next
      case False
      with step have y: "(a, y) \<in> ?S\<^sup>+" by blast
      show ?thesis
      proof (cases "z = n")
        case True
        with y step.hyps(2) show ?thesis by blast
      next
        case False
        with \<open>y \<noteq> n\<close> step.hyps(2) have "(y, z) \<in> ?S" by auto
        with y False show ?thesis by (auto intro: trancl_into_trancl)
      qed
    qed
  qed
  with assms(3) show "(a, b) \<in> ?S\<^sup>+" by blast
qed

text \<open>C36. Removing a node and reconnecting its neighbours: if the node has no connection to itself
  and the keys of the graph are unambiguous, what is left is a well-formed graph without the node,
  and among the other nodes exactly the same nodes reach each other.\<close>

theorem removeNode_reconnect_reachability:
  assumes "graph_ok g" and "is_node g node" and "unambiguous g" and "(node, node) \<notin> child_rel g"
  shows "\<exists>g' new. removeNode_reconnect (\<lambda>_. False) node g = Inr (g', new) \<and> graph_ok g' \<and>
    \<not> is_node g' node \<and>
    (\<forall>a b. a \<noteq> node \<longrightarrow> b \<noteq> node \<longrightarrow> (a, b) \<in> (child_rel g')\<^sup>+ \<longleftrightarrow> (a, b) \<in> (child_rel g)\<^sup>+)"
proof -
  let ?V = "vals (g_connections g)" and ?R = "child_rel g"
  let ?new = "newConnections (\<lambda>_. False) (filter (\<lambda>c. g_to c = node) ?V) (filter (\<lambda>c. g_from c = node) ?V)"
  obtain g' where run: "removeNode_reconnect (\<lambda>_. False) node g = Inr (g', ?new)"
    and nodes: "g_nodes g' = AList.delete (n_name node) (g_nodes g)"
    and keyed: "distinct (map fst (g_connections g')) \<and> (\<forall>(k, c) \<in> set (g_connections g'). k = makeKey c)"
    and conns: "set (vals (g_connections g')) = {c \<in> set ?V. g_to c \<noteq> node \<and> g_from c \<noteq> node} \<union> set ?new"
    using removeNode_reconnect_connections [OF assms(1-3), of "\<lambda>_. False"] by blast
  have is_node: "is_node g' n \<longleftrightarrow> is_node g n \<and> n \<noteq> node" for n
    using is_node_inj [OF _ assms(2)] assms(2) by (auto simp: is_node_def nodes jsmap_simps)
  have ends: "c \<in> set (vals (g_connections g')) \<Longrightarrow> is_node g' (g_from c) \<and> is_node g' (g_to c)" for c
  proof -
    assume "c \<in> set (vals (g_connections g'))"
    then consider "c \<in> set ?V" "g_to c \<noteq> node" "g_from c \<noteq> node" | "c \<in> set ?new"
      unfolding conns by blast
    then show ?thesis
    proof cases
      case 1
      then show ?thesis using graph_okD(1,2) [OF assms(1)] by (simp add: is_node)
    next
      case 2
      from newConnections_ends [OF this] obtain i out where
          "i \<in> set ?V" "out \<in> set ?V" "g_from c = g_from i" "g_to i = node" "g_from out = node" "g_to c = g_to out"
        by blast
      then show ?thesis using graph_okD(1,2) [OF assms(1)] assms(4) by (auto simp: is_node child_rel_def)
    qed
  qed
  have ok: "graph_ok g'"
    using keyed ends assms(1) by (intro graph_okI) (simp_all add: nodes nodes_ok_delete graph_ok_def)
  have rel: "child_rel g' = {(a, b) \<in> ?R. a \<noteq> node \<and> b \<noteq> node} \<union> {(a, b). (a, node) \<in> ?R \<and> (node, b) \<in> ?R}"
    unfolding child_rel_def conns by (rule newConnections_rel)
  have "(a, b) \<in> (child_rel g')\<^sup>+ \<longleftrightarrow> (a, b) \<in> ?R\<^sup>+" if "a \<noteq> node" "b \<noteq> node" for a b
    unfolding rel by (rule trancl_contract [OF assms(4) that])
  moreover have "\<not> is_node g' node" by (simp add: is_node)
  ultimately show ?thesis using run ok by blast
qed

definition graph_of :: "INode list \<Rightarrow> GraphConnection list \<Rightarrow> DirectedGraph" where
  "graph_of ns cs = addNodes ns (empty_graph\<lparr>g_connections := map (\<lambda>c. (makeKey c, c)) cs\<rparr>)"

abbreviation gnode :: "nat \<Rightarrow> string \<Rightarrow> INode" where
  "gnode i name \<equiv> mk_node i name ''n8n-nodes-base.set''"

abbreviation gconn :: "INode \<Rightarrow> INode \<Rightarrow> GraphConnection" where
  "gconn a b \<equiv> \<lparr>g_from = a, g_to = b, g_type = Main, g_outputIndex = 0, g_inputIndex = 0\<rparr>"

text \<open>Names without a hyphen make the keys of a graph unambiguous: a key is then read back
  from left to right.\<close>

lemma append_sep_inj:
  "x \<notin> set as \<Longrightarrow> x \<notin> set bs \<Longrightarrow> as @ x # cs = bs @ x # ds \<longleftrightarrow> as = bs \<and> cs = ds"
proof (induction as arbitrary: bs)
  case Nil
  then show ?case by (cases bs) auto
next
  case (Cons a as)
  then show ?case by (cases bs) auto
qed

lemma digit_not_hyphen: "n < 10 \<Longrightarrow> digit n \<noteq> CHR ''-''"
  by (auto simp: digit_def dest: arg_cong [where f = "of_char :: char \<Rightarrow> nat"])

lemma show_nat_no_hyphen: "CHR ''-'' \<notin> set (show_nat n)"
  by (induction n rule: show_nat.induct) (subst show_nat.simps, auto simp: digit_not_hyphen [symmetric])

lemma type_name_no_hyphen: "CHR ''-'' \<notin> set (type_name t)"
  by (cases t) simp_all

lemma makeKey_inj:
  assumes "makeKey c = makeKey d"
    and "CHR ''-'' \<notin> set (n_name (g_from c))" and "CHR ''-'' \<notin> set (n_name (g_from d))"
  shows "n_name (g_from c) = n_name (g_from d) \<and> g_type c = g_type d \<and>
    g_outputIndex c = g_outputIndex d \<and> g_inputIndex c = g_inputIndex d \<and> n_name (g_to c) = n_name (g_to d)"
  using assms
  by (auto simp: makeKey_def append_sep_inj show_nat_no_hyphen type_name_no_hyphen
      dest: show_nat_inj type_name_inj)

lemma unambiguousI:
  assumes "\<And>n. is_node g n \<Longrightarrow> CHR ''-'' \<notin> set (n_name n)"
  shows "unambiguous g"
  unfolding unambiguous_def
proof (rule inj_onI)
  fix c d assume c: "c \<in> {c. is_node g (g_from c) \<and> is_node g (g_to c)}"
    and d: "d \<in> {c. is_node g (g_from c) \<and> is_node g (g_to c)}" and "makeKey c = makeKey d"
  then have "n_name (g_from c) = n_name (g_from d) \<and> g_type c = g_type d \<and> g_outputIndex c = g_outputIndex d \<and>
      g_inputIndex c = g_inputIndex d \<and> n_name (g_to c) = n_name (g_to d)"
    using assms by (intro makeKey_inj) auto
  then show "c = d" using c d by (auto intro!: DirectedGraph.GraphConnection.equality is_node_inj)
qed

text \<open>A chain \<open>A\<close>, \<open>B\<close>, \<open>C\<close>.\<close>

definition chain_graph :: DirectedGraph where
  "chain_graph = graph_of [gnode 0 ''A'', gnode 1 ''B'', gnode 2 ''C'']
     [gconn (gnode 0 ''A'') (gnode 1 ''B''), gconn (gnode 1 ''B'') (gnode 2 ''C'')]"

lemma chain_graph_nodes: "is_node chain_graph n \<longleftrightarrow> n \<in> {gnode 0 ''A'', gnode 1 ''B'', gnode 2 ''C''}"
  by (auto simp: chain_graph_def graph_of_def is_node_def addNodes_def addNode_def empty_graph_def split: if_splits)

lemma show_nat_small [simp]: "show_nat 0 = ''0''" "show_nat (Suc 0) = ''1''"
  by (simp_all add: show_nat.simps digit_def char_of_def bit_0)

lemma chain_graph_connections:
  "g_connections chain_graph = [(''A-main-0-0-B'', gconn (gnode 0 ''A'') (gnode 1 ''B'')),
     (''B-main-0-0-C'', gconn (gnode 1 ''B'') (gnode 2 ''C''))]"
  by (simp add: chain_graph_def graph_of_def empty_graph_def makeKey_def)

lemma chain_graph_ok: "graph_ok chain_graph"
  unfolding graph_ok_def chain_graph_connections
  by (auto simp: chain_graph_nodes makeKey_def)
    (simp add: chain_graph_def graph_of_def addNodes_def addNode_def empty_graph_def nodes_ok_def)

lemma removeNode_reconnect_reachability_witness:
  "\<exists>g' new. removeNode_reconnect (\<lambda>_. False) (gnode 1 ''B'') chain_graph = Inr (g', new) \<and>
     (gnode 0 ''A'', gnode 2 ''C'') \<in> (child_rel g')\<^sup>+"
proof -
  have "is_node chain_graph (gnode 1 ''B'')" by (simp add: chain_graph_nodes)
  moreover have "unambiguous chain_graph"
    by (rule unambiguousI) (auto simp: chain_graph_nodes)
  moreover have "(gnode 1 ''B'', gnode 1 ''B'') \<notin> child_rel chain_graph"
    by (simp add: child_rel_def chain_graph_connections)
  ultimately obtain g' new where run: "removeNode_reconnect (\<lambda>_. False) (gnode 1 ''B'') chain_graph = Inr (g', new)"
    and reach: "\<forall>a b. a \<noteq> gnode 1 ''B'' \<longrightarrow> b \<noteq> gnode 1 ''B'' \<longrightarrow>
      (a, b) \<in> (child_rel g')\<^sup>+ \<longleftrightarrow> (a, b) \<in> (child_rel chain_graph)\<^sup>+"
    using removeNode_reconnect_reachability [OF chain_graph_ok] by blast
  have "(gnode 0 ''A'', gnode 1 ''B'') \<in> child_rel chain_graph"
      "(gnode 1 ''B'', gnode 2 ''C'') \<in> child_rel chain_graph"
    by (auto simp: child_rel_def chain_graph_connections)
  then have "(gnode 0 ''A'', gnode 2 ''C'') \<in> (child_rel chain_graph)\<^sup>+" by (rule trancl.trancl_into_trancl [OF r_into_trancl])
  then show ?thesis using run reach by auto
qed

text \<open>A node with a connection to itself is not really removed when its neighbours are
  reconnected: the connection is rebuilt from itself, and the graph is left with a connection
  from a node it no longer has.\<close>

theorem removeNode_reconnect_self_loop:
  assumes "graph_ok g" and "is_node g node" and "unambiguous g"
    and "c \<in> set (vals (g_connections g))" and "g_from c = node" and "g_to c = node" and "\<not> skip c"
  shows "\<exists>g' new. removeNode_reconnect skip node g = Inr (g', new) \<and>
    c \<in> set (vals (g_connections g')) \<and> \<not> is_node g' (g_from c) \<and> \<not> graph_ok g'"
proof -
  let ?V = "vals (g_connections g)"
  let ?new = "newConnections skip (filter (\<lambda>c. g_to c = node) ?V) (filter (\<lambda>c. g_from c = node) ?V)"
  obtain g' where run: "removeNode_reconnect skip node g = Inr (g', ?new)"
    and nodes: "g_nodes g' = AList.delete (n_name node) (g_nodes g)"
    and conns: "set (vals (g_connections g')) = {c \<in> set ?V. g_to c \<noteq> node \<and> g_from c \<noteq> node} \<union> set ?new"
    using removeNode_reconnect_connections [OF assms(1-3), of skip] by blast
  have "c = c\<lparr>g_to := g_to c, g_inputIndex := g_inputIndex c\<rparr>" by simp
  moreover have "c \<in> set (filter (\<lambda>c. g_to c = node) ?V)" "c \<in> set (filter (\<lambda>c. g_from c = node) ?V)"
    using assms(4-6) by simp_all
  ultimately have "c \<in> set ?new" unfolding newConnections_iff using assms(7) by blast
  then have c: "c \<in> set (vals (g_connections g'))" unfolding conns by blast
  have gone: "\<not> is_node g' (g_from c)" by (simp add: is_node_def nodes jsmap_simps assms(5))
  have "\<not> graph_ok g'" using graph_okD(1) [OF _ c] gone by blast
  then show ?thesis using run c gone by blast
qed

lemma removeNode_reconnect_self_loop_witness:
  "\<exists>g' new. removeNode_reconnect (\<lambda>_. False) (gnode 0 ''A'')
       (graph_of [gnode 0 ''A''] [gconn (gnode 0 ''A'') (gnode 0 ''A'')]) = Inr (g', new) \<and> \<not> graph_ok g'"
proof -
  let ?A = "gnode 0 ''A''" and ?g = "graph_of [gnode 0 ''A''] [gconn (gnode 0 ''A'') (gnode 0 ''A'')]"
  have node: "is_node ?g n \<longleftrightarrow> n = ?A" for n
    by (auto simp: graph_of_def is_node_def addNodes_def addNode_def empty_graph_def)
  have conns: "g_connections ?g = [(makeKey (gconn ?A ?A), gconn ?A ?A)]"
    by (simp add: graph_of_def empty_graph_def)
  have "nodes_ok (g_nodes ?g)"
    by (simp add: graph_of_def addNodes_def addNode_def empty_graph_def nodes_ok_def)
  then have ok: "graph_ok ?g" by (intro graph_okI) (auto simp: node conns)
  have "unambiguous ?g" by (rule unambiguousI) (simp add: node)
  from removeNode_reconnect_self_loop [OF ok _ this, of ?A "gconn ?A ?A" "\<lambda>_. False"]
  show ?thesis by (auto simp: node conns)
qed

section \<open>Searching a graph\<close>

definition child_nodes :: "DirectedGraph \<Rightarrow> INode \<Rightarrow> INode list res" where
  "child_nodes g node = rbind (getDirectChildConnections g node) (\<lambda>cs. Inr (map g_to cs))"

definition getChildren :: "DirectedGraph \<Rightarrow> INode \<Rightarrow> INode list res" where
  "getChildren g node = rbind (child_nodes g node) (\<lambda>children.
     visit (Suc (length (g_nodes g))) (child_nodes g) children [])"

definition connections_into_source :: "DirectedGraph \<Rightarrow> GraphConnection \<Rightarrow> GraphConnection list res" where
  "connections_into_source g c = getDirectParentConnections g (g_from c)"

definition getParentConnections :: "DirectedGraph \<Rightarrow> INode \<Rightarrow> GraphConnection list res" where
  "getParentConnections g node = rbind (getDirectParentConnections g node) (\<lambda>parents.
     visit (Suc (length (g_connections g))) (connections_into_source g) parents [])"

definition depthFirstSearch :: "DirectedGraph \<Rightarrow> INode \<Rightarrow> (INode \<Rightarrow> bool) \<Rightarrow> INode option res" where
  "depthFirstSearch g start fn =
     rbind (search (Suc (length (g_nodes g))) (child_nodes g) fn start []) (\<lambda>(found, seen). Inr found)"

lemma is_node_vals: "graph_ok g \<Longrightarrow> node \<in> set (vals (g_nodes g)) \<longleftrightarrow> is_node g node"
  using is_node_iff [of g node] unfolding graph_ok_def by blast

lemma child_nodes_Inr [graph_simps]:
  "child_nodes g node = Inr ns \<longleftrightarrow>
     is_node g node \<and> ns = map g_to (filter (\<lambda>c. g_from c = node) (vals (g_connections g)))"
  by (auto simp: child_nodes_def res_simps graph_simps)

text \<open>Both traversals stay inside a finite universe: the nodes, or the connections, of the graph.\<close>

interpretation children: search_space child_nodes graph_ok "\<lambda>g. set (vals (g_nodes g))"
proof
  fix g x assume "graph_ok g" and "x \<in> set (vals (g_nodes g))"
  then show "\<exists>ys. child_nodes g x = Inr ys \<and> set ys \<subseteq> set (vals (g_nodes g))"
    using graph_okD(2) [of g] is_node_vals [of g] by (force simp: graph_simps)
qed simp

interpretation parents: search_space connections_into_source graph_ok "\<lambda>g. set (vals (g_connections g))"
proof
  fix g x assume "graph_ok g" and "x \<in> set (vals (g_connections g))"
  then show "\<exists>ys. connections_into_source g x = Inr ys \<and> set ys \<subseteq> set (vals (g_connections g))"
    using graph_okD(1) [of g x] by (force simp: connections_into_source_def graph_simps)
qed simp

lemma card_vals_less: "card (set (vals m)) < Suc (length m)"
  using card_length [of "vals m"] by simp

lemma child_succ_rel: "graph_ok g \<Longrightarrow> succ_rel (child_nodes g) = child_rel g"
  using graph_okD(1) [of g] by (fastforce simp: succ_rel_def child_rel_def graph_simps)

lemma getChildren_set:
  assumes "graph_ok g" and "is_node g node"
  shows "\<exists>ns. getChildren g node = Inr ns \<and> distinct ns \<and> set ns = {m. (node, m) \<in> (child_rel g)\<^sup>+}"
proof -
  have node: "node \<in> set (vals (g_nodes g))" by (simp only: is_node_vals [OF assms(1)] assms(2))
  obtain cs where cs: "child_nodes g node = Inr cs" "set cs \<subseteq> set (vals (g_nodes g))"
    using children.succs_ok [OF assms(1) node] by blast
  have "set cs = child_rel g `` {node}"
    using cs(1) by (auto simp: graph_simps child_rel_def)
  then have "(child_rel g)\<^sup>* `` set cs = {m. (node, m) \<in> (child_rel g)\<^sup>+}"
    by (auto dest: tranclD intro: rtrancl_into_trancl2)
  then show ?thesis
    using children.visit_reach [OF assms(1) cs(2) card_vals_less] cs(1)
    by (auto simp: getChildren_def child_succ_rel [OF assms(1)])
qed

text \<open>\<open>getChildren\<close> always returns for a node of the graph, and returns each node that can be
  reached over at least one connection once (the node itself too when it is on a cycle).\<close>

theorem getChildren_reachable:
  assumes "graph_ok g" and "is_node g node"
  shows "\<exists>ns. getChildren g node = Inr ns \<and> distinct ns \<and> set ns = {m. (node, m) \<in> (child_rel g)\<^sup>+}"
  by (rule getChildren_set [OF assms])

lemma parent_succ_rel:
  "graph_ok g \<Longrightarrow> succ_rel (connections_into_source g) =
     {(c, d). is_node g (g_from c) \<and> d \<in> set (vals (g_connections g)) \<and> g_to d = g_from c}"
  by (auto simp: succ_rel_def connections_into_source_def graph_simps)

lemma parent_reach:
  assumes ok: "graph_ok g"
  shows "d \<in> (succ_rel (connections_into_source g))\<^sup>* `` {c \<in> set (vals (g_connections g)). g_to c = node} \<longleftrightarrow>
    d \<in> set (vals (g_connections g)) \<and> (g_to d, node) \<in> (child_rel g)\<^sup>*" (is "_ \<in> ?R\<^sup>* `` ?S \<longleftrightarrow> _")
proof
  assume "d \<in> ?R\<^sup>* `` ?S"
  then obtain c where c: "c \<in> ?S" "(c, d) \<in> ?R\<^sup>*" by blast
  from c(2) show "d \<in> set (vals (g_connections g)) \<and> (g_to d, node) \<in> (child_rel g)\<^sup>*"
  proof induction
    case base
    with c(1) show ?case by simp
  next
    case (step d e)
    then have e: "e \<in> set (vals (g_connections g))" "g_to e = g_from d"
      unfolding parent_succ_rel [OF ok] by auto
    have "(g_from d, g_to d) \<in> child_rel g" using step.IH unfolding child_rel_def by blast
    then show ?case using step.IH e by (auto intro: converse_rtrancl_into_rtrancl)
  qed
next
  assume d: "d \<in> set (vals (g_connections g)) \<and> (g_to d, node) \<in> (child_rel g)\<^sup>*"
  have "\<forall>d. d \<in> set (vals (g_connections g)) \<and> g_to d = x \<longrightarrow> d \<in> ?R\<^sup>* `` ?S" if "(x, node) \<in> (child_rel g)\<^sup>*" for x
    using that
  proof (induction rule: converse_rtrancl_induct)
    case base
    then show ?case by blast
  next
    case (step y z)
    then obtain c where c: "c \<in> set (vals (g_connections g))" "g_from c = y" "g_to c = z"
      unfolding child_rel_def by blast
    then have "c \<in> ?R\<^sup>* `` ?S" using step.IH by blast
    moreover have "(c, d) \<in> ?R" if "d \<in> set (vals (g_connections g))" "g_to d = y" for d
      unfolding parent_succ_rel [OF ok] using that c graph_okD(1) [OF ok c(1)] by simp
    ultimately show ?case by (blast intro: rtrancl_into_rtrancl)
  qed
  with d show "d \<in> ?R\<^sup>* `` ?S" by blast
qed

lemma getParentConnections_set:
  assumes "graph_ok g" and "is_node g node"
  shows "\<exists>cs. getParentConnections g node = Inr cs \<and> distinct cs \<and>
    set cs = {c \<in> set (vals (g_connections g)). (g_to c, node) \<in> (child_rel g)\<^sup>*}"
proof -
  let ?ps = "filter (\<lambda>c. g_to c = node) (vals (g_connections g))"
  have ps: "getDirectParentConnections g node = Inr ?ps" using assms(2) by (simp add: graph_simps)
  have sub: "set ?ps \<subseteq> set (vals (g_connections g))" by (simp only: filter_is_subset)
  have start: "set ?ps = {c \<in> set (vals (g_connections g)). g_to c = node}" by (simp only: set_filter)
  obtain r where r: "visit (Suc (length (g_connections g))) (connections_into_source g) ?ps [] = Inr r"
      "distinct r" "set r = (succ_rel (connections_into_source g))\<^sup>* `` set ?ps"
    using parents.visit_reach [OF assms(1) sub card_vals_less] by blast
  then show ?thesis
    using ps parent_reach [OF assms(1), of _ node] unfolding getParentConnections_def start
    by (intro exI [of _ r]) (auto simp only: rbind_Inr)
qed

text \<open>\<open>getParentConnections\<close> always returns for a node of the graph, and returns each connection
  from which the node can be reached once.\<close>

theorem getParentConnections_reaching:
  assumes "graph_ok g" and "is_node g node"
  shows "\<exists>cs. getParentConnections g node = Inr cs \<and> distinct cs \<and>
    set cs = {c \<in> set (vals (g_connections g)). (g_to c, node) \<in> (child_rel g)\<^sup>*}"
  by (rule getParentConnections_set [OF assms])

lemma depthFirstSearch_found:
  assumes "graph_ok g" and "is_node g start"
  shows "\<exists>found. depthFirstSearch g start fn = Inr found \<and>
    (case found of
       Some m \<Rightarrow> fn m \<and> (start, m) \<in> (child_rel g)\<^sup>*
     | None \<Rightarrow> \<forall>m. (start, m) \<in> (child_rel g)\<^sup>* \<longrightarrow> \<not> fn m)"
proof -
  have "start \<in> set (vals (g_nodes g))" by (simp only: is_node_vals [OF assms(1)] assms(2))
  from children.search_finds [OF assms(1) this card_vals_less, of fn] obtain found seen where
      run: "search (Suc (length (g_nodes g))) (child_nodes g) fn start [] = Inr (found, seen)"
    and res: "case found of Some m \<Rightarrow> fn m \<and> (start, m) \<in> (child_rel g)\<^sup>*
     | None \<Rightarrow> \<forall>m. (start, m) \<in> (child_rel g)\<^sup>* \<longrightarrow> \<not> fn m"
    unfolding child_succ_rel [OF assms(1)] by blast
  have "depthFirstSearch g start fn = Inr found" unfolding depthFirstSearch_def run by simp
  with res show ?thesis by blast
qed

text \<open>\<open>depthFirstSearch\<close> always returns for a node of the graph: a node reachable from the start
  that satisfies the predicate, or nothing if no reachable node does.\<close>

theorem depthFirstSearch_correct:
  assumes "graph_ok g" and "is_node g start"
  shows "\<exists>found. depthFirstSearch g start fn = Inr found \<and>
    (case found of
       Some m \<Rightarrow> fn m \<and> (start, m) \<in> (child_rel g)\<^sup>*
     | None \<Rightarrow> \<forall>m. (start, m) \<in> (child_rel g)\<^sup>* \<longrightarrow> \<not> fn m)"
  by (rule depthFirstSearch_found [OF assms])

lemma chain_graph_B: "is_node chain_graph (gnode 1 ''B'')" and chain_graph_A: "is_node chain_graph (gnode 0 ''A'')"
  and chain_graph_C: "is_node chain_graph (gnode 2 ''C'')"
  by (simp_all add: chain_graph_nodes)

lemma chain_rel: "child_rel chain_graph = {(gnode 0 ''A'', gnode 1 ''B''), (gnode 1 ''B'', gnode 2 ''C'')}"
  by (auto simp: child_rel_def chain_graph_connections)

lemma chain_A_C: "(gnode 0 ''A'', gnode 2 ''C'') \<in> (child_rel chain_graph)\<^sup>+"
  unfolding chain_rel by (rule trancl.trancl_into_trancl [OF r_into_trancl]) auto

lemma getChildren_reachable_witness:
  "\<exists>ns. getChildren chain_graph (gnode 0 ''A'') = Inr ns \<and> gnode 2 ''C'' \<in> set ns"
  using getChildren_reachable [OF chain_graph_ok chain_graph_A] chain_A_C by auto

lemma getParentConnections_reaching_witness:
  "\<exists>cs. getParentConnections chain_graph (gnode 2 ''C'') = Inr cs \<and>
     gconn (gnode 0 ''A'') (gnode 1 ''B'') \<in> set cs"
proof -
  have "(gnode 1 ''B'', gnode 2 ''C'') \<in> (child_rel chain_graph)\<^sup>*" unfolding chain_rel by blast
  then have reach: "(g_to (gconn (gnode 0 ''A'') (gnode 1 ''B'')), gnode 2 ''C'') \<in> (child_rel chain_graph)\<^sup>*"
    by simp
  have conn: "gconn (gnode 0 ''A'') (gnode 1 ''B'') \<in> set (vals (g_connections chain_graph))"
    by (simp add: chain_graph_connections)
  show ?thesis
    using getParentConnections_reaching [OF chain_graph_ok chain_graph_C] reach conn by blast
qed

lemma depthFirstSearch_correct_witness:
  "depthFirstSearch chain_graph (gnode 0 ''A'') (\<lambda>n. n_name n = ''Z'') = Inr None"
proof -
  obtain found where f: "depthFirstSearch chain_graph (gnode 0 ''A'') (\<lambda>n. n_name n = ''Z'') = Inr found"
      "case found of Some m \<Rightarrow> n_name m = ''Z'' \<and> (gnode 0 ''A'', m) \<in> (child_rel chain_graph)\<^sup>*
       | None \<Rightarrow> \<forall>m. (gnode 0 ''A'', m) \<in> (child_rel chain_graph)\<^sup>* \<longrightarrow> n_name m \<noteq> ''Z''"
    using depthFirstSearch_correct [OF chain_graph_ok chain_graph_A] by blast
  have "n_name m \<noteq> ''Z''" if "(gnode 0 ''A'', m) \<in> (child_rel chain_graph)\<^sup>*" for m
    using that by (cases rule: rtrancl.cases) (auto simp: chain_rel)
  with f show ?thesis by (auto split: option.splits)
qed

section \<open>Conversions\<close>

text \<open>The loops that \<open>fromWorkflow\<close> and \<open>fromNodesAndConnections\<close> share; they differ in the lookup
  of a node by its name.\<close>

definition connectGroup ::
  "(string \<Rightarrow> INode option) \<Rightarrow> INode \<Rightarrow> NodeConnectionType \<Rightarrow> nat \<Rightarrow> DirectedGraph \<Rightarrow> IConnection \<Rightarrow> DirectedGraph res" where
  "connectGroup lookup source outputType outputIndex graph conn =
     (case lookup (c_node conn) of
        None \<Rightarrow> Inl AssertionError
      | Some target \<Rightarrow> addConnection
          (connectionInput source target (Some outputType) (Some outputIndex) (Some (c_index conn))) graph)"

definition connectAll ::
  "(string \<Rightarrow> INode option) \<Rightarrow> IConnections \<Rightarrow> DirectedGraph \<Rightarrow> DirectedGraph res" where
  "connectAll lookup conns graph = foldR (\<lambda>graph (fromNodeName, iConnection).
     case lookup fromNodeName of
       None \<Rightarrow> Inl AssertionError
     | Some source \<Rightarrow>
         foldR (\<lambda>graph (outputType, outputs).
           foldR (\<lambda>graph (outputIndex, group).
             foldR (connectGroup lookup source outputType outputIndex) graph (case_option [] (\<lambda>g. g) group))
           graph (List.enumerate 0 outputs))
         graph iConnection)
     graph conns"

definition fromWorkflow :: "Workflow \<Rightarrow> DirectedGraph res" where
  "fromWorkflow workflow =
     connectAll (getNode workflow) (connectionsBySourceNode workflow)
       (addNodes (vals (w_nodes workflow)) empty_graph)"

definition fromNodesAndConnections :: "INode list \<Rightarrow> IConnections \<Rightarrow> DirectedGraph res" where
  "fromNodesAndConnections ns conns =
     (let nodeMap = foldl (\<lambda>m node. AList.update (n_name node) node m) [] ns
      in connectAll (map_of nodeMap) conns (addNodes ns empty_graph))"

definition clone :: "DirectedGraph \<Rightarrow> DirectedGraph res" where
  "clone g = addConnections (getConnections g None) (addNodes (vals (g_nodes g)) empty_graph)"

text \<open>\<open>toIConnections\<close>: the entry of a node is created with the type of its first connection only;
  reading a slot of a type that is not there throws.\<close>

definition push_group :: "NodeInputConnections \<Rightarrow> nat \<Rightarrow> IConnection \<Rightarrow> NodeInputConnections" where
  "push_group groups i c =
     (let filled = groups @ replicate (Suc i - length groups) None
      in filled[i := Some (case_option [] (\<lambda>g. g) (filled ! i) @ [c])])"

definition addIConnection :: "IConnections \<Rightarrow> GraphConnection \<Rightarrow> IConnections res" where
  "addIConnection result c =
     (let entry = (case map_of result (n_name (g_from c)) of None \<Rightarrow> [(g_type c, [])] | Some e \<Rightarrow> e)
      in case map_of entry (g_type c) of
           None \<Rightarrow> Inl TypeError
         | Some groups \<Rightarrow>
             Inr (AList.update (n_name (g_from c))
               (AList.update (g_type c) (push_group groups (g_outputIndex c)
                  \<lparr>c_node = n_name (g_to c), c_type = g_type c, c_index = g_inputIndex c\<rparr>) entry) result))"

definition toIConnections :: "DirectedGraph \<Rightarrow> IConnections res" where
  "toIConnections g = foldR addIConnection [] (vals (g_connections g))"

definition toWorkflow :: "string \<Rightarrow> INodeTypes \<Rightarrow> string option \<Rightarrow> IPinData option \<Rightarrow> DirectedGraph \<Rightarrow> Workflow res" where
  "toWorkflow name types settings pd g =
     rbind (toIConnections g) (\<lambda>conns. Inr (new_Workflow name (vals (g_nodes g)) conns types settings pd))"

subsection \<open>clone\<close>

lemma foldl_update_fresh:
  "distinct (map fst m @ map f xs) \<Longrightarrow>
     foldl (\<lambda>m x. AList.update (f x) x m) m xs = m @ map (\<lambda>x. (f x, x)) xs"
proof (induction xs arbitrary: m)
  case (Cons x xs)
  have "AList.update (f x) x m = m @ [(f x, x)]"
    using Cons.prems by (induction m) auto
  with Cons show ?case by simp
qed simp

lemma keyed_rebuild:
  assumes "distinct (map fst m)" and "\<forall>(k, x) \<in> set m. k = f x"
  shows "foldl (\<lambda>m x. AList.update (f x) x m) [] (vals m) = m"
proof -
  have m: "m = map (\<lambda>x. (f x, x)) (vals m)" using assms(2) by (induction m) auto
  then have "map fst m = map f (vals m)" using assms(2) by (induction m) auto
  with assms(1) m show ?thesis by (simp add: foldl_update_fresh)
qed

lemma addNodes_same: "nodes_ok (g_nodes g) \<Longrightarrow> g_nodes (addNodes (vals (g_nodes g)) empty_graph) = g_nodes g"
  unfolding addNodes_nodes
  by (simp add: empty_graph_def) (rule keyed_rebuild, auto simp: nodes_ok_def)

lemma clone_eq:
  assumes "graph_ok g"
  shows "clone g = Inr g"
proof -
  let ?g0 = "addNodes (vals (g_nodes g)) empty_graph"
  have nodes: "g_nodes ?g0 = g_nodes g" using assms by (simp add: addNodes_same graph_ok_def)
  have "is_node ?g0 (g_from c) \<and> is_node ?g0 (g_to c)" if "c \<in> set (vals (g_connections g))" for c
    using graph_okD(1,2) [OF assms that] by (simp add: is_node_def nodes)
  moreover have "foldl (\<lambda>m c. AList.update (makeKey c) c m) [] (vals (g_connections g)) = g_connections g"
    using assms by (intro keyed_rebuild) (auto simp: graph_ok_def)
  moreover have "g_connections ?g0 = []" by (simp add: empty_graph_def)
  ultimately have "addConnections (vals (g_connections g)) ?g0 = Inr (?g0\<lparr>g_connections := g_connections g\<rparr>)"
    unfolding addConnections_Inr by simp
  then show ?thesis using nodes by (simp add: clone_def getConnections_def)
qed

text \<open>A clone has the same nodes and connections in the same order.\<close>

theorem clone_same:
  assumes "graph_ok g"
  shows "clone g = Inr g"
  by (rule clone_eq [OF assms])

lemma clone_same_witness: "clone chain_graph = Inr chain_graph"
  by (rule clone_same [OF chain_graph_ok])

subsection \<open>toIConnections\<close>

definition in_group :: "NodeInputConnections \<Rightarrow> nat \<Rightarrow> IConnection \<Rightarrow> bool" where
  "in_group gs i x \<longleftrightarrow> (\<exists>g. i < length gs \<and> gs ! i = Some g \<and> x \<in> set g)"

lemma conn_at_in_group: "conn_at conns n t i x \<longleftrightarrow> in_group (groups_of conns n t) i x"
  by (simp add: conn_at_def in_group_def)

lemma in_group_Nil: "\<not> in_group [] i x"
  by (simp add: in_group_def)

lemma in_group_push: "in_group (push_group gs k c) i x \<longleftrightarrow> in_group gs i x \<or> i = k \<and> x = c"
proof -
  have "in_group (gs @ replicate m None) j x \<longleftrightarrow> in_group gs j x" for m j
    by (auto simp: in_group_def nth_append)
  moreover have "in_group (fs[k := Some (case_option [] (\<lambda>g. g) (fs ! k) @ [c])]) i x \<longleftrightarrow>
      in_group fs i x \<or> i = k \<and> x = c" if "k < length fs" for fs
    using that by (cases "i = k"; cases "fs ! k") (auto simp: in_group_def nth_list_update)
  ultimately show ?thesis by (simp add: push_group_def Let_def)
qed

abbreviation iconn :: "GraphConnection \<Rightarrow> IConnection" where
  "iconn c \<equiv> \<lparr>c_node = n_name (g_to c), c_type = g_type c, c_index = g_inputIndex c\<rparr>"

text \<open>All connections that leave a node have the same type.\<close>

definition out_typed :: "GraphConnection list \<Rightarrow> bool" where
  "out_typed cs \<longleftrightarrow> (\<forall>c \<in> set cs. \<forall>d \<in> set cs. n_name (g_from c) = n_name (g_from d) \<longrightarrow> g_type c = g_type d)"

lemma out_typedD:
  "out_typed cs \<Longrightarrow> c \<in> set cs \<Longrightarrow> d \<in> set cs \<Longrightarrow> n_name (g_from c) = n_name (g_from d) \<Longrightarrow> g_type c = g_type d"
  unfolding out_typed_def by blast

lemma out_typed_snoc:
  assumes "out_typed cs" and new: "\<forall>d \<in> set cs. n_name (g_from d) = n_name (g_from c) \<longrightarrow> g_type d = g_type c"
  shows "out_typed (cs @ [c])"
  unfolding out_typed_def
proof (intro ballI impI)
  fix x y assume "x \<in> set (cs @ [c])" "y \<in> set (cs @ [c])" and n: "n_name (g_from x) = n_name (g_from y)"
  then consider "x \<in> set cs" "y \<in> set cs" | "x \<in> set cs" "y = c" | "x = c" "y \<in> set cs" | "x = c" "y = c"
    by auto
  then show "g_type x = g_type y"
  proof cases
    case 1
    then show ?thesis by (rule out_typedD [OF assms(1) _ _ n])
  next
    case 2
    with new n show ?thesis by blast
  next
    case 3
    then have "g_type y = g_type c" using new n by simp
    with 3 show ?thesis by simp
  qed simp
qed

definition exported :: "GraphConnection list \<Rightarrow> IConnections \<Rightarrow> bool" where
  "exported cs r \<longleftrightarrow> conns_ok r \<and>
     (\<forall>n. map_of r n = None \<longleftrightarrow> (\<forall>c \<in> set cs. n_name (g_from c) \<noteq> n)) \<and>
     (\<forall>n e. map_of r n = Some e \<longrightarrow> (\<exists>c \<in> set cs. \<exists>gs. n_name (g_from c) = n \<and> e = [(g_type c, gs)])) \<and>
     (\<forall>n t i x. conn_at r n t i x \<longleftrightarrow>
        (\<exists>c \<in> set cs. n_name (g_from c) = n \<and> g_type c = t \<and> g_outputIndex c = i \<and> x = iconn c))"

lemma exported_step:
  assumes ex: "exported cs r"
    and entry: "map_of r (n_name (g_from c)) = None \<and> gs = [] \<or>
      map_of r (n_name (g_from c)) = Some [(g_type c, gs)]"
  shows "exported (cs @ [c]) (AList.update (n_name (g_from c))
    [(g_type c, push_group gs (g_outputIndex c) (iconn c))] r)" (is "exported _ ?r")
proof -
  let ?n = "n_name (g_from c)"
  have look: "map_of ?r n = (if n = ?n then Some [(g_type c, push_group gs (g_outputIndex c) (iconn c))]
      else map_of r n)" for n by (simp add: jsmap_simps)
  have "conns_ok ?r"
    using ex set_update_subset [of ?n "[(g_type c, push_group gs (g_outputIndex c) (iconn c))]" r]
    by (auto simp: exported_def conns_ok_def distinct_update)
  moreover have "groups_of ?r n t = (if n = ?n \<and> t = g_type c then push_group gs (g_outputIndex c) (iconn c)
      else if n = ?n then [] else groups_of r n t)" for n t
    by (simp add: groups_of_def look)
  moreover have "groups_of r ?n t = (if t = g_type c then gs else [])" for t
    using entry by (auto simp: groups_of_def)
  ultimately have "conn_at ?r n t i x \<longleftrightarrow> conn_at r n t i x \<or>
      n = ?n \<and> t = g_type c \<and> i = g_outputIndex c \<and> x = iconn c" for n t i x
    by (auto simp: conn_at_in_group in_group_push in_group_Nil)
  with \<open>conns_ok ?r\<close> show ?thesis
    using ex entry unfolding exported_def look by auto
qed

lemma exported_typed:
  assumes "exported cs r" and "map_of r (n_name (g_from c)) = Some e" and "out_typed (cs @ [c])"
  shows "\<exists>gs. e = [(g_type c, gs)]"
proof -
  obtain d gs where "d \<in> set cs" "n_name (g_from d) = n_name (g_from c)" "e = [(g_type d, gs)]"
    using assms(1,2) unfolding exported_def by blast
  moreover from this have "g_type d = g_type c" using out_typedD [OF assms(3), of d c] by simp
  ultimately show ?thesis by simp
qed

lemma exported_untyped:
  assumes "exported cs r" and "out_typed cs" and "\<not> out_typed (cs @ [c])"
  shows "\<exists>t gs. map_of r (n_name (g_from c)) = Some [(t, gs)] \<and> t \<noteq> g_type c"
proof -
  obtain d where d: "d \<in> set cs" "n_name (g_from d) = n_name (g_from c)" "g_type d \<noteq> g_type c"
    using assms(2,3) out_typed_snoc [of cs c] by blast
  then obtain e where e: "map_of r (n_name (g_from c)) = Some e"
    using assms(1) unfolding exported_def by (metis option.exhaust)
  then obtain d' gs where d': "d' \<in> set cs" "n_name (g_from d') = n_name (g_from c)" "e = [(g_type d', gs)]"
    using assms(1) unfolding exported_def by blast
  then have "g_type d' = g_type d"
    using d out_typedD [OF assms(2) d'(1) d(1)] by simp
  with d(3) have "g_type d' \<noteq> g_type c" by simp
  with e d'(3) show ?thesis by blast
qed

lemma foldR_addIConnection:
  "if out_typed cs then \<exists>r. foldR addIConnection [] cs = Inr r \<and> exported cs r
   else foldR addIConnection [] cs = Inl TypeError"
proof (induction cs rule: rev_induct)
  case Nil
  show ?case by (simp add: out_typed_def exported_def conns_ok_def conn_at_def groups_of_def)
next
  case (snoc c cs)
  show ?case
  proof (cases "out_typed cs")
    case False
    then have "\<not> out_typed (cs @ [c])" by (auto simp: out_typed_def)
    then show ?thesis using snoc False by (simp add: foldR_append)
  next
    case True
    then obtain r where r: "foldR addIConnection [] cs = Inr r" "exported cs r" using snoc by auto
    show ?thesis
    proof (cases "out_typed (cs @ [c])")
      case False
      then show ?thesis using exported_untyped [OF r(2) True False] r(1)
        by (auto simp: foldR_append addIConnection_def)
    next
      case typed: True
      show ?thesis
      proof (cases "map_of r (n_name (g_from c))")
        case None
        then show ?thesis using typed r(1) exported_step [OF r(2), of c "[]"]
          by (simp add: foldR_append addIConnection_def)
      next
        case (Some e)
        then obtain gs where "e = [(g_type c, gs)]" using exported_typed [OF r(2) _ typed] by blast
        then show ?thesis using Some typed r(1) exported_step [OF r(2), of c gs]
          by (simp add: foldR_append addIConnection_def)
      qed
    qed
  qed
qed

text \<open>The export of a graph lists exactly its connections under the name of their source, if all
  connections that leave a node have one type; otherwise it throws, because only the first type
  of a node gets an entry.\<close>

theorem toIConnections_correct:
  "if out_typed (vals (g_connections g)) then
     \<exists>conns. toIConnections g = Inr conns \<and>
       (\<forall>n t i x. conn_at conns n t i x \<longleftrightarrow>
          (\<exists>c \<in> set (vals (g_connections g)). n_name (g_from c) = n \<and> g_type c = t \<and> g_outputIndex c = i \<and>
             x = \<lparr>c_node = n_name (g_to c), c_type = g_type c, c_index = g_inputIndex c\<rparr>))
   else toIConnections g = Inl TypeError"
  using foldR_addIConnection [of "vals (g_connections g)"]
  by (simp add: toIConnections_def exported_def split: if_splits) blast

subsection \<open>Import\<close>

lemma foldR_concat: "foldR f s (concat xss) = foldR (foldR f) s xss"
  by (induction xss arbitrary: s) (simp_all add: foldR_append)

lemma foldR_map: "foldR f s (map g xs) = foldR (\<lambda>s x. f s (g x)) s xs"
  by (induction xs arbitrary: s) simp_all

definition imported :: "(string \<Rightarrow> INode) \<Rightarrow> string \<times> NodeConnectionType \<times> nat \<times> IConnection \<Rightarrow> GraphConnection" where
  "imported node = (\<lambda>(n, t, i, c). \<lparr>g_from = node n, g_to = node (c_node c), g_type = t,
     g_outputIndex = i, g_inputIndex = c_index c\<rparr>)"

text \<open>If every name resolves, importing adds one connection per entry.\<close>

lemma connectAll_addConnections:
  assumes "\<And>n ncs. (n, ncs) \<in> set conns \<Longrightarrow> lookup n = Some (node n)"
    and "\<And>n t i c. (n, t, i, c) \<in> set (all_conns conns) \<Longrightarrow> lookup (c_node c) = Some (node (c_node c))"
  shows "connectAll lookup conns g = addConnections (map (imported node) (all_conns conns)) g"
proof -
  have known: "lookup (fst x) = Some (node (fst x))" if "x \<in> set conns" for x
    using assms(1) [of "fst x" "snd x"] that by simp
  have "connectAll lookup conns g = foldR (\<lambda>g (n, t, i, c). connectGroup lookup (node n) t i g c) g (all_conns conns)"
    unfolding connectAll_def all_conns_def foldR_concat foldR_map case_prod_unfold
    by (rule foldR_cong) (simp_all add: known)
  also have "\<dots> = foldR (\<lambda>g x. addConnection (imported node x) g) g (all_conns conns)"
    by (rule foldR_cong)
      (auto simp: connectGroup_def imported_def connectionInput_def assms(2) split: prod.splits)
  finally show ?thesis by (simp add: addConnections_def foldR_map)
qed

lemma addConnections_into_fresh:
  assumes ends: "\<And>c. c \<in> set cs \<Longrightarrow> is_node g (g_from c) \<and> is_node g (g_to c)"
    and fresh: "g_connections g = []" and "inj_on makeKey (set cs)" and "nodes_ok (g_nodes g)"
  shows "\<exists>g'. addConnections cs g = Inr g' \<and> graph_ok g' \<and> g_nodes g' = g_nodes g \<and>
    set (vals (g_connections g')) = set cs"
proof -
  let ?m = "foldl (\<lambda>m c. AList.update (makeKey c) c m) [] cs"
  let ?g = "g\<lparr>g_connections := ?m\<rparr>"
  have keyed: "distinct (map fst ?m) \<and> (\<forall>(k, c) \<in> set ?m. k = makeKey c) \<and> set (vals ?m) = set (vals []) \<union> set cs"
    using keyed_puts [of "[]" cs] assms(3) by simp
  have run: "addConnections cs g = Inr ?g" using ends by (simp add: addConnections_Inr fresh)
  have vals: "set (vals (g_connections ?g)) = set cs" using keyed by simp
  have "graph_ok ?g"
    by (rule graph_okI) (use keyed ends vals assms(4) in simp_all)
  with run vals show ?thesis by force
qed

lemma exported_imported:
  assumes ex: "exported cs conns" and ends: "\<And>c. c \<in> set cs \<Longrightarrow> node (n_name (g_from c)) = g_from c \<and> node (n_name (g_to c)) = g_to c"
  shows "imported node ` set (all_conns conns) = set cs"
proof -
  have in_all: "(n, t, i, x) \<in> set (all_conns conns) \<longleftrightarrow>
      (\<exists>c \<in> set cs. n_name (g_from c) = n \<and> g_type c = t \<and> g_outputIndex c = i \<and> x = iconn c)" for n t i x
    using ex all_conns_iff [of conns n t i x] by (simp add: exported_def)
  have "imported node (n_name (g_from c), g_type c, g_outputIndex c, iconn c) = c" if "c \<in> set cs" for c
    using ends [OF that] by (simp add: imported_def)
  moreover have "set (all_conns conns) = (\<lambda>c. (n_name (g_from c), g_type c, g_outputIndex c, iconn c)) ` set cs"
    by (rule set_eqI) (auto simp: in_all)
  ultimately show ?thesis by (simp add: image_image)
qed

lemma graph_ok_inj: "graph_ok g \<Longrightarrow> inj_on makeKey (set (vals (g_connections g)))"
  using graph_okD(3) [of g] by (intro inj_onI) (metis option.inject)

text \<open>C37. The export of a graph throws a \<open>TypeError\<close> exactly if a node has outgoing connections of two types. Else
  it can be read back: importing it over the same nodes gives a well-formed graph with the same nodes and the
  same connections.\<close>

theorem toIConnections_roundtrip:
  assumes "graph_ok g"
  shows "if out_typed (vals (g_connections g)) then
      \<exists>conns g'. toIConnections g = Inr conns \<and>
        fromNodesAndConnections (vals (g_nodes g)) conns = Inr g' \<and> graph_ok g' \<and>
        g_nodes g' = g_nodes g \<and> set (vals (g_connections g')) = set (vals (g_connections g))
    else toIConnections g = Inl TypeError"
proof (cases "out_typed (vals (g_connections g))")
  case False
  then show ?thesis using foldR_addIConnection [of "vals (g_connections g)"] by (simp add: toIConnections_def)
next
  case typed: True
  let ?cs = "vals (g_connections g)" and ?g0 = "addNodes (vals (g_nodes g)) empty_graph"
  let ?node = "\<lambda>n. the (map_of (g_nodes g) n)"
  obtain conns where conns: "toIConnections g = Inr conns" and ex: "exported ?cs conns"
    using foldR_addIConnection [of ?cs] typed by (auto simp: toIConnections_def)
  have nodes: "g_nodes ?g0 = g_nodes g" using assms by (simp add: addNodes_same graph_ok_def)
  have look: "map_of (g_nodes g) (n_name n) = Some n" if "is_node g n" for n
    using that by (simp add: is_node_def)
  have ends: "?node (n_name (g_from c)) = g_from c \<and> ?node (n_name (g_to c)) = g_to c" if "c \<in> set ?cs" for c
    using look graph_okD(1,2) [OF assms that] by simp
  have "map_of conns n \<noteq> None \<Longrightarrow> map_of (g_nodes g) n = Some (?node n)" for n
  proof -
    assume "map_of conns n \<noteq> None"
    then obtain c where c: "c \<in> set ?cs" "n_name (g_from c) = n" using ex unfolding exported_def by blast
    from look [OF graph_okD(1) [OF assms c(1)]] show ?thesis by (simp add: c(2))
  qed
  then have src: "(n, ncs) \<in> set conns \<Longrightarrow> map_of (g_nodes g) n = Some (?node n)" for n ncs
    by (metis weak_map_of_SomeI option.distinct(1))
  have tgt: "map_of (g_nodes g) (c_node c) = Some (?node (c_node c))" if "(n, t, i, c) \<in> set (all_conns conns)" for n t i c
  proof -
    have "conn_at conns n t i c" using that ex all_conns_iff [of conns n t i c] by (simp add: exported_def)
    then obtain d where "d \<in> set ?cs" "c = iconn d" using ex unfolding exported_def by blast
    then show ?thesis using look graph_okD(2) [OF assms] by simp
  qed
  have imported: "imported ?node ` set (all_conns conns) = set ?cs"
    by (rule exported_imported [OF ex ends])
  have "foldl (\<lambda>m n. AList.update (n_name n) n m) [] (vals (g_nodes g)) = g_nodes g"
    using assms by (intro keyed_rebuild) (auto simp: graph_ok_def nodes_ok_def)
  then have run: "fromNodesAndConnections (vals (g_nodes g)) conns =
      addConnections (map (imported ?node) (all_conns conns)) ?g0"
    unfolding fromNodesAndConnections_def Let_def by (simp add: connectAll_addConnections [of conns "map_of (g_nodes g)" ?node, OF src tgt])
  let ?L = "map (imported ?node) (all_conns conns)"
  have L: "set ?L = set ?cs" unfolding set_map [of "imported ?node"] by (rule imported)
  have "\<exists>g'. addConnections ?L ?g0 = Inr g' \<and> graph_ok g' \<and> g_nodes g' = g_nodes ?g0 \<and>
      set (vals (g_connections g')) = set ?L"
  proof (rule addConnections_into_fresh)
    fix c assume "c \<in> set ?L"
    then have "c \<in> set ?cs" unfolding L .
    then show "is_node ?g0 (g_from c) \<and> is_node ?g0 (g_to c)"
      using graph_okD(1,2) [OF assms] by (simp add: is_node_def nodes)
  next
    show "inj_on makeKey (set ?L)" unfolding L by (rule graph_ok_inj [OF assms])
    show "nodes_ok (g_nodes ?g0)" using assms by (simp add: nodes graph_ok_def)
  qed (simp add: empty_graph_def)
  then show ?thesis using conns run nodes typed unfolding L by auto
qed

lemma chain_graph_typed: "out_typed (vals (g_connections chain_graph))"
  by (simp add: out_typed_def chain_graph_connections)

lemma toIConnections_roundtrip_witness:
  "\<exists>conns g'. toIConnections chain_graph = Inr conns \<and>
     fromNodesAndConnections (vals (g_nodes chain_graph)) conns = Inr g' \<and>
     gconn (gnode 0 ''A'') (gnode 1 ''B'') \<in> set (vals (g_connections g'))"
proof -
  have "gconn (gnode 0 ''A'') (gnode 1 ''B'') \<in> set (vals (g_connections chain_graph))"
    by (simp add: chain_graph_connections)
  with toIConnections_roundtrip [OF chain_graph_ok, unfolded if_P [OF chain_graph_typed]]
  show ?thesis by metis
qed

text \<open>Importing a workflow whose connections only name nodes it has.\<close>

definition names_resolve :: "Workflow \<Rightarrow> bool" where
  "names_resolve w \<longleftrightarrow> (\<forall>(n, ncs) \<in> set (connectionsBySourceNode w). map_of (w_nodes w) n \<noteq> None) \<and>
     (\<forall>(n, t, i, c) \<in> set (all_conns (connectionsBySourceNode w)). map_of (w_nodes w) (c_node c) \<noteq> None)"

text \<open>A workflow whose connections name known nodes, and whose node names have no hyphen, becomes a
  well-formed graph with its nodes and with one connection for each of its connections.\<close>

theorem fromWorkflow_correct:
  assumes "nodes_ok (w_nodes w)" and "conns_ok (connectionsBySourceNode w)" and "names_resolve w"
    and "\<And>n. n \<in> set (map fst (w_nodes w)) \<Longrightarrow> CHR ''-'' \<notin> set n"
  shows "\<exists>g. fromWorkflow w = Inr g \<and> graph_ok g \<and> g_nodes g = w_nodes w \<and>
    (\<forall>a b t i j. \<lparr>g_from = a, g_to = b, g_type = t, g_outputIndex = i, g_inputIndex = j\<rparr> \<in> set (vals (g_connections g)) \<longleftrightarrow>
       map_of (w_nodes w) (n_name a) = Some a \<and> map_of (w_nodes w) (n_name b) = Some b \<and>
       (\<exists>it. conn_at (connectionsBySourceNode w) (n_name a) t i \<lparr>c_node = n_name b, c_type = it, c_index = j\<rparr>))"
proof -
  let ?C = "connectionsBySourceNode w" and ?N = "w_nodes w"
  let ?node = "\<lambda>n. the (map_of ?N n)" and ?g0 = "addNodes (vals ?N) empty_graph"
  let ?cs = "map (imported ?node) (all_conns ?C)"
  have nodes: "g_nodes ?g0 = ?N"
    using assms(1) addNodes_same [of "\<lparr>g_nodes = ?N, g_connections = []\<rparr>"] by simp
  have name: "n_name (?node n) = n \<and> is_node ?g0 (?node n)" if "map_of ?N n \<noteq> None" for n
    using that nodes_ok_name [OF assms(1)] by (auto simp: is_node_def nodes)
  have src: "map_of ?N n = Some (?node n)" if "(n, ncs) \<in> set ?C" for n ncs
    using that assms(3) by (auto simp: names_resolve_def)
  have at: "map_of ?N n \<noteq> None \<and> map_of ?N (c_node c) \<noteq> None" if "(n, t, i, c) \<in> set (all_conns ?C)" for n t i c
  proof
    from that obtain ncs where "(n, ncs) \<in> set ?C" by (auto simp: all_conns_def)
    then show "map_of ?N n \<noteq> None" using assms(3) by (auto simp: names_resolve_def)
    show "map_of ?N (c_node c) \<noteq> None" using that assms(3) by (auto simp: names_resolve_def)
  qed
  have run: "fromWorkflow w = addConnections ?cs ?g0"
    unfolding fromWorkflow_def
    by (rule connectAll_addConnections) (use src at in \<open>auto simp: getNode_def\<close>)
  have ends: "is_node ?g0 (g_from c) \<and> is_node ?g0 (g_to c)" if "c \<in> set ?cs" for c
    using that at name by (auto simp: imported_def)
  have "CHR ''-'' \<notin> set (n_name n)" if "is_node ?g0 n" for n
  proof (rule assms(4))
    show "n_name n \<in> set (map fst ?N)" using that map_of_SomeD [of ?N "n_name n" n] by (force simp: is_node_def nodes)
  qed
  then have "inj_on makeKey (set ?cs)"
    using ends by (intro inj_on_subset [OF unambiguousI [of ?g0, unfolded unambiguous_def]]) auto
  then obtain g where g: "addConnections ?cs ?g0 = Inr g" "graph_ok g" "g_nodes g = ?N" "set (vals (g_connections g)) = set ?cs"
    using addConnections_into_fresh [of ?cs ?g0] ends assms(1) nodes by (auto simp: empty_graph_def simp del: set_map)
  have in_cs: "\<lparr>g_from = a, g_to = b, g_type = t, g_outputIndex = i, g_inputIndex = j\<rparr> \<in> set ?cs \<longleftrightarrow>
      map_of ?N (n_name a) = Some a \<and> map_of ?N (n_name b) = Some b \<and>
      (\<exists>it. conn_at ?C (n_name a) t i \<lparr>c_node = n_name b, c_type = it, c_index = j\<rparr>)" for a b t i j
  proof
    assume "\<lparr>g_from = a, g_to = b, g_type = t, g_outputIndex = i, g_inputIndex = j\<rparr> \<in> set ?cs"
    then obtain n c where c: "(n, t, i, c) \<in> set (all_conns ?C)" and ab: "a = ?node n" "b = ?node (c_node c)" "j = c_index c"
      by (auto simp: imported_def)
    then have "conn_at ?C n t i c" using all_conns_iff [OF assms(2)] by simp
    moreover have "c = \<lparr>c_node = c_node c, c_type = c_type c, c_index = c_index c\<rparr>" by simp
    ultimately have "\<exists>it. conn_at ?C n t i \<lparr>c_node = c_node c, c_type = it, c_index = c_index c\<rparr>" by metis
    then show "map_of ?N (n_name a) = Some a \<and> map_of ?N (n_name b) = Some b \<and>
        (\<exists>it. conn_at ?C (n_name a) t i \<lparr>c_node = n_name b, c_type = it, c_index = j\<rparr>)"
      using at [OF c] name [of n] name [of "c_node c"] unfolding ab by (auto simp: is_node_def nodes)
  next
    assume r: "map_of ?N (n_name a) = Some a \<and> map_of ?N (n_name b) = Some b \<and>
      (\<exists>it. conn_at ?C (n_name a) t i \<lparr>c_node = n_name b, c_type = it, c_index = j\<rparr>)"
    then obtain it where "(n_name a, t, i, \<lparr>c_node = n_name b, c_type = it, c_index = j\<rparr>) \<in> set (all_conns ?C)"
      using all_conns_iff [OF assms(2)] by auto
    then have "imported ?node (n_name a, t, i, \<lparr>c_node = n_name b, c_type = it, c_index = j\<rparr>) \<in> set ?cs" by simp
    then show "\<lparr>g_from = a, g_to = b, g_type = t, g_outputIndex = i, g_inputIndex = j\<rparr> \<in> set ?cs"
      using r by (simp add: imported_def)
  qed
  show ?thesis using run g in_cs by auto
qed

lemma fromWorkflow_correct_witness:
  "\<exists>g. fromWorkflow (new_Workflow ''w'' [gnode 0 ''A'', gnode 1 ''M''] [(''A'', [(Main, [Some [\<lparr>c_node = ''M'', c_type = Main, c_index = 1\<rparr>]])])]
       (\<lambda>_ _. None) None None) = Inr g \<and>
     \<lparr>g_from = gnode 0 ''A'', g_to = gnode 1 ''M'', g_type = Main, g_outputIndex = 0, g_inputIndex = 1\<rparr>
       \<in> set (vals (g_connections g))"
proof -
  let ?C = "[(''A'', [(Main, [Some [\<lparr>c_node = ''M'', c_type = Main, c_index = 1\<rparr>]])])]"
  let ?w = "new_Workflow ''w'' [gnode 0 ''A'', gnode 1 ''M''] ?C (\<lambda>_ _. None) None None"
  have N: "w_nodes ?w = [(''A'', gnode 0 ''A''), (''M'', gnode 1 ''M'')]"
    and C: "connectionsBySourceNode ?w = ?C"
    by (simp_all add: new_Workflow_def setSettings_def setPinData_def setConnections_def setNodes_def)
  have "nodes_ok (w_nodes ?w)" unfolding N by (simp add: nodes_ok_def)
  moreover have "conns_ok (connectionsBySourceNode ?w)" unfolding C by (simp add: conns_ok_def)
  moreover have "names_resolve ?w" unfolding names_resolve_def N C by (simp add: all_conns_def)
  moreover have "n \<in> set (map fst (w_nodes ?w)) \<Longrightarrow> CHR ''-'' \<notin> set n" for n unfolding N by auto
  ultimately obtain g where g: "fromWorkflow ?w = Inr g" and conns: "\<forall>a b t i j.
      \<lparr>g_from = a, g_to = b, g_type = t, g_outputIndex = i, g_inputIndex = j\<rparr> \<in> set (vals (g_connections g)) \<longleftrightarrow>
       map_of (w_nodes ?w) (n_name a) = Some a \<and> map_of (w_nodes ?w) (n_name b) = Some b \<and>
       (\<exists>it. conn_at (connectionsBySourceNode ?w) (n_name a) t i \<lparr>c_node = n_name b, c_type = it, c_index = j\<rparr>)"
    using fromWorkflow_correct [of ?w] by blast
  note conns = conns [unfolded N C]
  have "conn_at ?C ''A'' Main 0 \<lparr>c_node = ''M'', c_type = Main, c_index = 1\<rparr>"
    by (simp add: conn_at_def groups_of_def)
  with g conns show ?thesis by auto
qed

end
