(* ===== verification/Subgraph.thy ===== *)
theory Subgraph
  imports DirectedGraph
begin

text \<open>
  The part of a graph that a partial execution runs: \<open>filter-disabled-nodes.ts\<close>
  (\<open>filterDisabledNodes\<close>) and \<open>find-subgraph.ts\<close> (\<open>findSubgraph\<close>) of
  \<open>partial-execution-utils\<close>.
\<close>

section \<open>Graphs seen as sets\<close>

definition conns_of :: "DirectedGraph \<Rightarrow> GraphConnection set" where
  "conns_of g = set (vals (g_connections g))"

text \<open>The edges of the data flow: connections of type \<open>main\<close>.\<close>

definition main_rel :: "DirectedGraph \<Rightarrow> (INode \<times> INode) set" where
  "main_rel g = {(a, b). \<exists>c \<in> conns_of g. g_type c = Main \<and> g_from c = a \<and> g_to c = b}"

definition subgraph_of :: "DirectedGraph \<Rightarrow> DirectedGraph \<Rightarrow> bool" where
  "subgraph_of sub g \<longleftrightarrow> graph_ok sub \<and> conns_of sub \<subseteq> conns_of g \<and> (\<forall>n. is_node sub n \<longrightarrow> is_node g n)"

lemma conns_of_ends: "graph_ok g \<Longrightarrow> c \<in> conns_of g \<Longrightarrow> is_node g (g_from c) \<and> is_node g (g_to c)"
  using graph_okD(1,2) [of g c] by (simp only: conns_of_def)

lemma conns_of_inj: "graph_ok g \<Longrightarrow> inj_on makeKey (conns_of g)"
  unfolding conns_of_def by (rule graph_ok_inj)

lemma getDirectParentConnections_of:
  "is_node g node \<Longrightarrow> \<exists>cs. getDirectParentConnections g node = Inr cs \<and> set cs = {c \<in> conns_of g. g_to c = node}"
  by (rule exI [of _ "filter (\<lambda>c. g_to c = node) (vals (g_connections g))"])
    (simp only: graph_simps conns_of_def set_filter simp_thms)

lemma subgraph_of_empty: "subgraph_of empty_graph g"
  by (simp add: subgraph_of_def) (simp add: empty_graph_def conns_of_def is_node_def)

lemma subgraph_addNode:
  assumes "subgraph_of sub g" and "is_node g n"
  shows "subgraph_of (addNode n sub) g \<and> conns_of (addNode n sub) = conns_of sub \<and>
    (\<forall>m. is_node (addNode n sub) m \<longleftrightarrow> m = n \<or> is_node sub m)"
proof -
  have same: "m = n" if "is_node sub m" "n_name m = n_name n" for m
    using that assms is_node_inj [of g m n] by (simp add: subgraph_of_def)
  have nodes: "is_node (addNode n sub) m \<longleftrightarrow> m = n \<or> is_node sub m" for m
    using same [of m] by (auto simp: addNode_def is_node_def jsmap_simps)
  have "graph_ok (addNode n sub)"
  proof (rule graph_okI)
    show "nodes_ok (g_nodes (addNode n sub))"
      using assms(1) by (simp add: subgraph_of_def graph_ok_def addNode_def nodes_ok_update)
    show "distinct (map fst (g_connections (addNode n sub))) \<and>
        (\<forall>(k, c) \<in> set (g_connections (addNode n sub)). k = makeKey c)"
      using assms(1) by (auto simp: subgraph_of_def graph_ok_def addNode_def)
    fix c assume "c \<in> set (vals (g_connections (addNode n sub)))"
    then have "c \<in> conns_of sub" by (simp add: conns_of_def addNode_def)
    then show "is_node (addNode n sub) (g_from c) \<and> is_node (addNode n sub) (g_to c)"
      using conns_of_ends [of sub c] assms(1) by (simp add: subgraph_of_def nodes)
  qed
  then show ?thesis using assms nodes by (auto simp: subgraph_of_def conns_of_def addNode_def)
qed

lemma subgraph_addConnection:
  assumes sub: "subgraph_of sub g" and g: "graph_ok g" and c: "c \<in> conns_of g"
    and ends: "is_node sub (g_from c)" "is_node sub (g_to c)"
  shows "\<exists>sub'. addConnection c sub = Inr sub' \<and> subgraph_of sub' g \<and>
    conns_of sub' = insert c (conns_of sub) \<and> (\<forall>m. is_node sub' m \<longleftrightarrow> is_node sub m)"
proof -
  let ?sub = "sub\<lparr>g_connections := AList.update (makeKey c) c (g_connections sub)\<rparr>"
  have run: "addConnection c sub = Inr ?sub" using ends by (simp add: graph_simps)
  then have ok: "graph_ok ?sub" using addConnection_ok sub by (auto simp: subgraph_of_def)
  have keyed: "distinct (map fst (g_connections sub))" "\<forall>(k, c) \<in> set (g_connections sub). k = makeKey c"
    using sub by (auto simp: subgraph_of_def graph_ok_def)
  have "inj_on makeKey (set (vals (g_connections sub)) \<union> set [c])"
    using sub c by (intro inj_on_subset [OF conns_of_inj [OF g]]) (auto simp: subgraph_of_def conns_of_def simp del: set_map)
  from keyed_puts [OF keyed this] have "conns_of ?sub = insert c (conns_of sub)"
    by (simp add: conns_of_def)
  then show ?thesis using run ok sub c by (auto simp: subgraph_of_def)
qed

text \<open>\<open>newGraph.addNodes(connection.from, connection.to); newGraph.addConnection(connection)\<close>\<close>

definition addWithNodes :: "GraphConnection \<Rightarrow> DirectedGraph \<Rightarrow> DirectedGraph res" where
  "addWithNodes c g = addConnection c (addNodes [g_from c, g_to c] g)"

lemma addWithNodes_sub:
  assumes "subgraph_of sub g" and "graph_ok g" and "c \<in> conns_of g"
  shows "\<exists>sub'. addWithNodes c sub = Inr sub' \<and> subgraph_of sub' g \<and> conns_of sub' = insert c (conns_of sub) \<and>
    (\<forall>m. is_node sub' m \<longleftrightarrow> m = g_from c \<or> m = g_to c \<or> is_node sub m)"
proof -
  have ends: "is_node g (g_from c)" "is_node g (g_to c)" using conns_of_ends [OF assms(2,3)] by simp_all
  let ?s1 = "addNode (g_from c) sub"
  have s1: "subgraph_of ?s1 g \<and> conns_of ?s1 = conns_of sub \<and> (\<forall>m. is_node ?s1 m \<longleftrightarrow> m = g_from c \<or> is_node sub m)"
    by (rule subgraph_addNode [OF assms(1) ends(1)])
  let ?s2 = "addNode (g_to c) ?s1"
  have s2: "subgraph_of ?s2 g \<and> conns_of ?s2 = conns_of ?s1 \<and> (\<forall>m. is_node ?s2 m \<longleftrightarrow> m = g_to c \<or> is_node ?s1 m)"
    using s1 by (intro subgraph_addNode ends(2)) simp
  have "subgraph_of ?s2 g" "is_node ?s2 (g_from c)" "is_node ?s2 (g_to c)" using s1 s2 by simp_all
  from subgraph_addConnection [OF this(1) assms(2,3) this(2,3)] s1 s2 show ?thesis
    by (simp add: addWithNodes_def addNodes_def) blast
qed

lemma foldR_addWithNodes:
  assumes "graph_ok g" and "set cs \<subseteq> conns_of g" and "subgraph_of sub g"
  shows "\<exists>sub'. foldR (\<lambda>ng c. addWithNodes c ng) sub cs = Inr sub' \<and> subgraph_of sub' g \<and>
    conns_of sub' = conns_of sub \<union> set cs \<and> (\<forall>m. is_node sub m \<longrightarrow> is_node sub' m)"
  using assms(2,3)
proof (induction cs arbitrary: sub)
  case (Cons c cs)
  then obtain s1 where s1: "addWithNodes c sub = Inr s1" "subgraph_of s1 g" "conns_of s1 = insert c (conns_of sub)"
      "\<forall>m. is_node s1 m \<longleftrightarrow> m = g_from c \<or> m = g_to c \<or> is_node sub m"
    using addWithNodes_sub [of sub g c] assms(1) by auto
  from Cons.IH [OF _ s1(2)] Cons.prems(1) s1 show ?case by auto
qed simp

section \<open>findSubgraph\<close>

fun findSubgraphRecursive ::
  "nat \<Rightarrow> DirectedGraph \<Rightarrow> INode \<Rightarrow> INode \<Rightarrow> INode \<Rightarrow> DirectedGraph \<Rightarrow> GraphConnection list \<Rightarrow> DirectedGraph res" where
  "findSubgraphRecursive 0 graph destinationNode current trigger newGraph currentBranch = Inl OutOfFuel"
| "findSubgraphRecursive (Suc fuel) graph destinationNode current trigger newGraph currentBranch =
     (if current = trigger
      then foldR (\<lambda>ng connection. addWithNodes connection ng) (addNode trigger newGraph) currentBranch
      else rbind (getDirectParentConnections graph current) (\<lambda>parentConnections.
        if parentConnections = [] then Inr newGraph
        else if current = destinationNode \<and> (\<exists>c \<in> set currentBranch. g_to c = destinationNode) then Inr newGraph
        else if \<exists>c \<in> set currentBranch. g_to c = current
          then foldR (\<lambda>ng connection. addWithNodes connection ng) newGraph currentBranch
        else foldR (\<lambda>ng parentConnection.
               if g_type parentConnection \<noteq> Main then Inr ng
               else findSubgraphRecursive fuel graph destinationNode (g_from parentConnection) trigger ng
                 (currentBranch @ [parentConnection]))
             newGraph parentConnections))"

declare findSubgraphRecursive.simps(2) [simp del]

text \<open>Step 6 of the algorithm: the connections of other types upstream of the nodes found.\<close>

definition addUtilityNodes :: "DirectedGraph \<Rightarrow> DirectedGraph \<Rightarrow> INode \<Rightarrow> DirectedGraph res" where
  "addUtilityNodes graph subgraph node =
     rbind (getParentConnections graph node) (\<lambda>parentConnections.
       foldR (\<lambda>sub connection. if g_type connection = Main then Inr sub else addWithNodes connection sub)
         subgraph parentConnections)"

definition findSubgraph :: "DirectedGraph \<Rightarrow> INode \<Rightarrow> INode \<Rightarrow> DirectedGraph res" where
  "findSubgraph graph destination trigger =
     rbind (findSubgraphRecursive (Suc (Suc (length (g_nodes graph)))) graph destination destination trigger
       empty_graph []) (\<lambda>subgraph.
       foldR (addUtilityNodes graph) subgraph (vals (g_nodes subgraph)))"

text \<open>The relation of the data flow without steps out of a node, or into a node.\<close>

definition not_from :: "'a \<Rightarrow> ('a \<times> 'a) set \<Rightarrow> ('a \<times> 'a) set" where
  "not_from x R = {(a, b) \<in> R. a \<noteq> x}"

definition not_into :: "'a \<Rightarrow> ('a \<times> 'a) set \<Rightarrow> ('a \<times> 'a) set" where
  "not_into x R = {(a, b) \<in> R. b \<noteq> x}"

text \<open>A connection the search may keep: it belongs to the data flow and leads to the destination
  without passing the trigger again.\<close>

definition leads_to :: "DirectedGraph \<Rightarrow> INode \<Rightarrow> INode \<Rightarrow> GraphConnection \<Rightarrow> bool" where
  "leads_to g destination trigger c \<longleftrightarrow> c \<in> conns_of g \<and> g_type c = Main \<and> g_to c \<noteq> trigger \<and>
     (g_to c, destination) \<in> (not_from trigger (main_rel g))\<^sup>*"

definition kept_ok :: "DirectedGraph \<Rightarrow> INode \<Rightarrow> INode \<Rightarrow> DirectedGraph \<Rightarrow> DirectedGraph \<Rightarrow> bool" where
  "kept_ok g destination trigger sub sub' \<longleftrightarrow> subgraph_of sub' g \<and> conns_of sub \<subseteq> conns_of sub' \<and>
     conns_of sub' \<subseteq> conns_of sub \<union> {c. leads_to g destination trigger c}"

lemma kept_ok_trans: "kept_ok g d t s1 s2 \<Longrightarrow> kept_ok g d t s2 s3 \<Longrightarrow> kept_ok g d t s1 s3"
  by (auto simp: kept_ok_def)

lemma leads_to_step:
  assumes "leads_to g d t c" and "c' \<in> conns_of g" "g_type c' = Main" "g_to c' = g_from c" "g_from c \<noteq> t"
  shows "leads_to g d t c'"
proof -
  have "(g_from c, g_to c) \<in> not_from t (main_rel g)"
    using assms(1,5) by (auto simp: leads_to_def not_from_def main_rel_def)
  then have "(g_from c, d) \<in> (not_from t (main_rel g))\<^sup>*"
    using assms(1) unfolding leads_to_def by (meson converse_rtrancl_into_rtrancl)
  then show ?thesis using assms by (simp add: leads_to_def)
qed

text \<open>What holds of a branch: a chain of such connections from the current node to the
  destination, in which no node occurs twice as a target.\<close>

definition branch_ok :: "DirectedGraph \<Rightarrow> INode \<Rightarrow> INode \<Rightarrow> INode \<Rightarrow> GraphConnection list \<Rightarrow> bool" where
  "branch_ok g d t current branch \<longleftrightarrow> (\<forall>c \<in> set branch. leads_to g d t c) \<and> distinct (map g_to branch) \<and>
     (branch = [] \<and> current = d \<or> branch \<noteq> [] \<and> g_from (last branch) = current)"

lemma branch_ok_snoc:
  assumes "branch_ok g d t current branch" and "p \<in> conns_of g" "g_type p = Main" "g_to p = current"
    and "current \<noteq> t" "current \<notin> g_to ` set branch"
  shows "branch_ok g d t (g_from p) (branch @ [p])"
proof -
  have "leads_to g d t p"
  proof (cases "branch = []")
    case True
    with assms show ?thesis by (auto simp: branch_ok_def leads_to_def)
  next
    case False
    then have "leads_to g d t (last branch)" "g_from (last branch) = current"
      using assms(1) last_in_set [of branch] by (auto simp: branch_ok_def)
    with assms(2-5) show ?thesis by (auto intro: leads_to_step)
  qed
  with assms show ?thesis by (auto simp: branch_ok_def)
qed

lemma branch_short:
  assumes "graph_ok g" and "branch_ok g d t current branch"
  shows "length branch \<le> length (g_nodes g)"
proof -
  have "g_to ` set branch \<subseteq> set (vals (g_nodes g))"
    using assms conns_of_ends [OF assms(1)] is_node_vals [OF assms(1)]
    by (auto simp: branch_ok_def leads_to_def simp del: set_map)
  then have "card (g_to ` set branch) \<le> card (set (vals (g_nodes g)))" by (intro card_mono) simp_all
  moreover have "card (g_to ` set branch) = length branch"
    using assms(2) distinct_card [of "map g_to branch"] by (simp add: branch_ok_def)
  ultimately show ?thesis using card_vals_less [of "g_nodes g"] by simp
qed

lemma branch_node:
  assumes "graph_ok g" and "is_node g d" and "branch_ok g d t current branch"
  shows "is_node g current"
proof (cases "branch = []")
  case True
  with assms show ?thesis by (simp add: branch_ok_def)
next
  case False
  with assms(3) have "leads_to g d t (last branch)" and "g_from (last branch) = current"
    using last_in_set [of branch] by (auto simp: branch_ok_def)
  then show ?thesis using conns_of_ends [OF assms(1)] by (auto simp: leads_to_def)
qed

text \<open>The search never fails, and what it adds leads to the destination.\<close>

lemma keep_branch_ok:
  assumes "graph_ok g" and "subgraph_of sub g" and "branch_ok g d t current branch"
  shows "\<exists>sub'. foldR (\<lambda>ng c. addWithNodes c ng) sub branch = Inr sub' \<and> kept_ok g d t sub sub' \<and>
    set branch \<subseteq> conns_of sub'"
proof -
  have "set branch \<subseteq> conns_of g" using assms(3) by (auto simp: branch_ok_def leads_to_def)
  from foldR_addWithNodes [OF assms(1) this assms(2)] obtain sub' where
      "foldR (\<lambda>ng c. addWithNodes c ng) sub branch = Inr sub'" "subgraph_of sub' g"
      "conns_of sub' = conns_of sub \<union> set branch" by blast
  then show ?thesis using assms(3) by (auto simp: kept_ok_def branch_ok_def)
qed

lemma kept_ok_refl: "subgraph_of sub g \<Longrightarrow> kept_ok g d t sub sub"
  by (simp add: kept_ok_def)

lemma findSubgraphRecursive_ok:
  assumes g: "graph_ok g" and d: "is_node g d"
  shows "branch_ok g d t current branch \<Longrightarrow> subgraph_of sub g \<Longrightarrow>
    length (g_nodes g) < fuel + length branch \<Longrightarrow>
    \<exists>sub'. findSubgraphRecursive fuel g d current t sub branch = Inr sub' \<and> kept_ok g d t sub sub'"
proof (induction fuel arbitrary: current branch sub)
  case 0
  then show ?case using branch_short [OF g 0(1)] by simp
next
  case (Suc fuel)
  have cur: "is_node g current" by (rule branch_node [OF g d Suc.prems(1)])
  show ?case
  proof (cases "current = t")
    case True
    have "subgraph_of (addNode t sub) g \<and> conns_of (addNode t sub) = conns_of sub"
      using subgraph_addNode [OF Suc.prems(2) cur] True by simp
    then have "\<exists>sub'. foldR (\<lambda>ng c. addWithNodes c ng) (addNode t sub) branch = Inr sub' \<and> kept_ok g d t sub sub'"
      using keep_branch_ok [OF g _ Suc.prems(1), of "addNode t sub"] by (auto simp: kept_ok_def)
    then show ?thesis using True by (subst findSubgraphRecursive.simps) simp
  next
    case False
    obtain ps where ps: "getDirectParentConnections g current = Inr ps" "set ps = {c \<in> conns_of g. g_to c = current}"
      using getDirectParentConnections_of [OF cur] by blast
    consider "ps = [] \<or> current = d \<and> (\<exists>c \<in> set branch. g_to c = d)" 
      | "ps \<noteq> []" "\<not> (current = d \<and> (\<exists>c \<in> set branch. g_to c = d))" "\<exists>c \<in> set branch. g_to c = current"
      | "ps \<noteq> []" "\<forall>c \<in> set branch. g_to c \<noteq> current" by blast
    then show ?thesis
    proof cases
      case 1
      then show ?thesis using False ps(1) kept_ok_refl [OF Suc.prems(2)]
        by (subst findSubgraphRecursive.simps) auto
    next
      case 2
      then show ?thesis using False ps(1) keep_branch_ok [OF g Suc.prems(2,1)]
        by (subst findSubgraphRecursive.simps) auto
    next
      case 3
      have start: "kept_ok g d t sub sub" by (rule kept_ok_refl [OF Suc.prems(2)])
      have "\<exists>sub'. foldR (\<lambda>ng p. if g_type p \<noteq> Main then Inr ng
          else findSubgraphRecursive fuel g d (g_from p) t ng (branch @ [p])) sub ps = Inr sub' \<and> kept_ok g d t sub sub'"
      proof (rule foldR_total [where P = "kept_ok g d t sub", OF start])
        fix ng p assume p: "p \<in> set ps" and ng: "kept_ok g d t sub ng"
        show "\<exists>t'. (if g_type p \<noteq> Main then Inr ng
          else findSubgraphRecursive fuel g d (g_from p) t ng (branch @ [p])) = Inr t' \<and> kept_ok g d t sub t'"
        proof (cases "g_type p = Main")
          case main: True
          have "branch_ok g d t (g_from p) (branch @ [p])"
            by (rule branch_ok_snoc [OF Suc.prems(1)]) (use p ps(2) main False 3(2) in auto)
          from Suc.IH [OF this, of ng] ng Suc.prems(3) show ?thesis
            using main kept_ok_trans [OF ng] by (auto simp: kept_ok_def)
        qed (use ng in simp)
      qed
      then show ?thesis using 3 False ps(1) by (subst findSubgraphRecursive.simps) auto
    qed
  qed
qed

text \<open>A loop in which one turn achieves something that the later turns keep.\<close>

lemma foldR_hits:
  assumes x: "x \<in> set xs" and "P s"
    and step: "\<And>s y. y \<in> set xs \<Longrightarrow> P s \<Longrightarrow> \<exists>t. f s y = Inr t \<and> P t \<and> (Q s \<longrightarrow> Q t)"
    and hit: "\<And>s t. P s \<Longrightarrow> f s x = Inr t \<Longrightarrow> Q t"
  shows "\<exists>t. foldR f s xs = Inr t \<and> Q t"
proof -
  obtain ys zs where xs: "xs = ys @ x # zs" using x by (meson split_list)
  have "\<exists>t. foldR f s ys = Inr t \<and> P t"
  proof (rule foldR_total [where P = P, OF assms(2)])
    fix s y assume "y \<in> set ys" and "P s"
    then show "\<exists>t. f s y = Inr t \<and> P t" using step [of y s] xs by auto
  qed
  then obtain t where t: "foldR f s ys = Inr t" "P t" by blast
  then obtain u where u: "f t x = Inr u" "P u" using step [OF x] by blast
  have pq: "P u \<and> Q u" using u hit [OF t(2) u(1)] by simp
  have "\<exists>v. foldR f u zs = Inr v \<and> P v \<and> Q v"
  proof (rule foldR_total [where P = "\<lambda>s. P s \<and> Q s", OF pq])
    fix s y assume "y \<in> set zs" and "P s \<and> Q s"
    then show "\<exists>t. f s y = Inr t \<and> P t \<and> Q t" using step [of y s] xs by auto
  qed
  then show ?thesis using xs t(1) u(1) by (auto simp: foldR_append)
qed

lemma findSubgraph_step:
  assumes g: "graph_ok g" and d: "is_node g d" and br: "branch_ok g d t current branch"
    and cur: "current \<noteq> t" "current \<notin> g_to ` set branch"
    and p: "p \<in> conns_of g" "g_type p = Main" "g_to p = current"
    and sub: "subgraph_of sub g" and fuel: "length (g_nodes g) < Suc fuel + length branch"
    and mono: "\<And>s s'. kept_ok g d t s s' \<Longrightarrow> Q s \<Longrightarrow> Q s'"
    and hit: "\<And>ng sub'. subgraph_of ng g \<Longrightarrow>
      findSubgraphRecursive fuel g d (g_from p) t ng (branch @ [p]) = Inr sub' \<Longrightarrow> Q sub'"
  shows "\<exists>sub'. findSubgraphRecursive (Suc fuel) g d current t sub branch = Inr sub' \<and> Q sub'"
proof -
  let ?f = "\<lambda>ng p. if g_type p \<noteq> Main then Inr ng
    else findSubgraphRecursive fuel g d (g_from p) t ng (branch @ [p])"
  obtain ps where ps: "getDirectParentConnections g current = Inr ps" "set ps = {c \<in> conns_of g. g_to c = current}"
    using getDirectParentConnections_of [OF branch_node [OF g d br]] by blast
  then have p_in: "p \<in> set ps" using p by simp
  have "\<exists>sub'. foldR ?f sub ps = Inr sub' \<and> Q sub'"
  proof (rule foldR_hits [where P = "\<lambda>s. subgraph_of s g", OF p_in sub])
    fix s q assume q: "q \<in> set ps" and s: "subgraph_of s g"
    show "\<exists>s'. ?f s q = Inr s' \<and> subgraph_of s' g \<and> (Q s \<longrightarrow> Q s')"
    proof (cases "g_type q = Main")
      case True
      have "branch_ok g d t (g_from q) (branch @ [q])"
        by (rule branch_ok_snoc [OF br]) (use q ps(2) True cur in auto)
      from findSubgraphRecursive_ok [OF g d this s, of fuel] fuel True mono show ?thesis
        by (auto simp: kept_ok_def)
    qed (use s in simp)
  next
    fix s s' assume "subgraph_of s g" and "?f s p = Inr s'"
    then show "Q s'" using hit p(2) by simp
  qed
  moreover have "ps \<noteq> []" using p_in by auto
  moreover have "\<not> (\<exists>c \<in> set branch. g_to c = current)" using cur(2) by auto
  ultimately show ?thesis using cur ps(1) by (subst findSubgraphRecursive.simps) auto
qed

text \<open>A branch is kept if the trigger leads to its first node without passing the destination.\<close>

lemma findSubgraph_keeps_branch:
  assumes g: "graph_ok g" and d: "is_node g d"
  shows "branch_ok g d t current branch \<Longrightarrow> subgraph_of sub g \<Longrightarrow>
    length (g_nodes g) < fuel + length branch \<Longrightarrow> (t, current) \<in> (not_into d (main_rel g))\<^sup>* \<Longrightarrow>
    \<exists>sub'. findSubgraphRecursive fuel g d current t sub branch = Inr sub' \<and> set branch \<subseteq> conns_of sub'"
proof (induction fuel arbitrary: current branch sub)
  case 0
  then show ?case using branch_short [OF g 0(1)] by simp
next
  case (Suc fuel)
  have cur: "is_node g current" by (rule branch_node [OF g d Suc.prems(1)])
  show ?case
  proof (cases "current = t")
    case True
    have "subgraph_of (addNode t sub) g" using subgraph_addNode [OF Suc.prems(2) cur] True by simp
    from keep_branch_ok [OF g this Suc.prems(1)] True show ?thesis
      by (subst findSubgraphRecursive.simps) auto
  next
    case False
    with Suc.prems(4) obtain y where y: "(t, y) \<in> (not_into d (main_rel g))\<^sup>*" "(y, current) \<in> not_into d (main_rel g)"
      by (auto elim: rtranclE)
    then obtain p where p: "p \<in> conns_of g" "g_type p = Main" "g_from p = y" "g_to p = current" and "current \<noteq> d"
      by (auto simp: not_into_def main_rel_def)
    obtain ps where ps: "getDirectParentConnections g current = Inr ps" "set ps = {c \<in> conns_of g. g_to c = current}"
      using getDirectParentConnections_of [OF cur] by blast
    have "ps \<noteq> []" using p ps(2) by auto
    show ?thesis
    proof (cases "\<exists>c \<in> set branch. g_to c = current")
      case True
      with \<open>ps \<noteq> []\<close> \<open>current \<noteq> d\<close> \<open>current \<noteq> t\<close> ps(1) keep_branch_ok [OF g Suc.prems(2,1)] show ?thesis
        by (subst findSubgraphRecursive.simps) auto
    next
      case fresh: False
      then have fresh: "current \<notin> g_to ` set branch" by auto
      have br: "branch_ok g d t (g_from p) (branch @ [p])"
        by (rule branch_ok_snoc [OF Suc.prems(1) p(1,2,4) False fresh])
      have "\<exists>sub'. findSubgraphRecursive (Suc fuel) g d current t sub branch = Inr sub' \<and>
          set (branch @ [p]) \<subseteq> conns_of sub'"
      proof (rule findSubgraph_step [OF g d Suc.prems(1) False fresh p(1,2,4) Suc.prems(2,3)])
        show "set (branch @ [p]) \<subseteq> conns_of s \<Longrightarrow> set (branch @ [p]) \<subseteq> conns_of s'" if "kept_ok g d t s s'" for s s'
          using that by (auto simp: kept_ok_def)
        fix ng sub' assume "subgraph_of ng g"
          and "findSubgraphRecursive fuel g d (g_from p) t ng (branch @ [p]) = Inr sub'"
        then show "set (branch @ [p]) \<subseteq> conns_of sub'"
          using Suc.IH [OF br, of ng] Suc.prems(3) y(1) p(3) by auto
      qed
      then show ?thesis by auto
    qed
  qed
qed

text \<open>A path against the direction of the connections, as the list of its connections.\<close>

fun back_path :: "GraphConnection set \<Rightarrow> INode \<Rightarrow> GraphConnection list \<Rightarrow> INode \<Rightarrow> bool" where
  "back_path C cur [] v = (cur = v)"
| "back_path C cur (q # qs) v = (q \<in> C \<and> g_to q = cur \<and> back_path C (g_from q) qs v)"

lemma back_path_suffix:
  assumes "back_path C cur qs v" and "distinct (map g_from qs)" and "x \<in> g_from ` set qs"
  shows "\<exists>qs'. back_path C x qs' v \<and> distinct (x # map g_from qs')"
  using assms
proof (induction qs arbitrary: cur)
  case (Cons q qs)
  then show ?case by (cases "x = g_from q") auto
qed simp

lemma back_path_simple:
  assumes "(v, cur) \<in> {(a, b). \<exists>c \<in> C. g_from c = a \<and> g_to c = b}\<^sup>*"
  shows "\<exists>qs. back_path C cur qs v \<and> distinct (cur # map g_from qs)"
  using assms
proof (induction rule: rtrancl_induct)
  case base
  show ?case by (rule exI [of _ "[]"]) simp
next
  case (step y z)
  then obtain qs where qs: "back_path C y qs v" "distinct (y # map g_from qs)" by blast
  obtain q where q: "q \<in> C" "g_from q = y" "g_to q = z" using step.hyps(2) by blast
  have path: "back_path C z (q # qs) v" "distinct (map g_from (q # qs))" using q qs by simp_all
  show ?case
  proof (cases "z \<in> g_from ` set (q # qs)")
    case True
    then show ?thesis using back_path_suffix [OF path] by blast
  next
    case False
    with path show ?thesis by (intro exI [of _ "q # qs"]) auto
  qed
qed

text \<open>Going down such a path from the destination, the search comes to every connection into its
  end, and keeps it if the trigger leads to it.\<close>

lemma findSubgraph_follows_path:
  assumes g: "graph_ok g" and d: "is_node g d"
    and c: "c \<in> conns_of g" "g_type c = Main" and reach: "(t, g_from c) \<in> (not_into d (main_rel g))\<^sup>*"
  defines "C \<equiv> {c \<in> conns_of g. g_type c = Main \<and> g_from c \<noteq> t}"
  shows "branch_ok g d t current branch \<Longrightarrow> subgraph_of sub g \<Longrightarrow>
    length (g_nodes g) < fuel + length branch \<Longrightarrow> back_path C current qs (g_to c) \<Longrightarrow> current \<noteq> t \<Longrightarrow>
    distinct (map g_to branch @ current # map g_from qs) \<Longrightarrow>
    \<exists>sub'. findSubgraphRecursive fuel g d current t sub branch = Inr sub' \<and> c \<in> conns_of sub'"
proof (induction qs arbitrary: current branch sub fuel)
  case Nil
  obtain fuel' where fuel: "fuel = Suc fuel'"
    using Nil.prems(3) branch_short [OF g Nil.prems(1)] by (cases fuel) auto
  have fresh: "current \<notin> g_to ` set branch" using Nil.prems(6) by auto
  have to: "g_to c = current" using Nil.prems(4) by simp
  have br: "branch_ok g d t (g_from c) (branch @ [c])"
    by (rule branch_ok_snoc [OF Nil.prems(1) c to Nil.prems(5) fresh])
  show ?case unfolding fuel
  proof (rule findSubgraph_step [OF g d Nil.prems(1,5) fresh c to Nil.prems(2)])
    show "length (g_nodes g) < Suc fuel' + length branch" using Nil.prems(3) fuel by simp
    show "c \<in> conns_of s \<Longrightarrow> c \<in> conns_of s'" if "kept_ok g d t s s'" for s s'
      using that by (auto simp: kept_ok_def)
    fix ng sub' assume "subgraph_of ng g"
      and "findSubgraphRecursive fuel' g d (g_from c) t ng (branch @ [c]) = Inr sub'"
    then show "c \<in> conns_of sub'"
      using findSubgraph_keeps_branch [OF g d br, of ng fuel'] Nil.prems(3) fuel reach by auto
  qed
next
  case (Cons q qs)
  obtain fuel' where fuel: "fuel = Suc fuel'"
    using Cons.prems(3) branch_short [OF g Cons.prems(1)] by (cases fuel) auto
  have q: "q \<in> conns_of g" "g_type q = Main" "g_to q = current" "g_from q \<noteq> t"
    and rest: "back_path C (g_from q) qs (g_to c)"
    using Cons.prems(4) by (auto simp: C_def)
  have fresh: "current \<notin> g_to ` set branch" using Cons.prems(6) by auto
  have br: "branch_ok g d t (g_from q) (branch @ [q])"
    by (rule branch_ok_snoc [OF Cons.prems(1) q(1-3) Cons.prems(5) fresh])
  have dist: "distinct (map g_to (branch @ [q]) @ g_from q # map g_from qs)"
    using Cons.prems(6) q(3) by auto
  show ?case unfolding fuel
  proof (rule findSubgraph_step [OF g d Cons.prems(1,5) fresh q(1-3) Cons.prems(2)])
    show "length (g_nodes g) < Suc fuel' + length branch" using Cons.prems(3) fuel by simp
    show "c \<in> conns_of s \<Longrightarrow> c \<in> conns_of s'" if "kept_ok g d t s s'" for s s'
      using that by (auto simp: kept_ok_def)
    fix ng sub' assume "subgraph_of ng g"
      and "findSubgraphRecursive fuel' g d (g_from q) t ng (branch @ [q]) = Inr sub'"
    then show "c \<in> conns_of sub'"
      using Cons.IH [OF br, of ng fuel'] Cons.prems(3) fuel rest q(4) dist by auto
  qed
qed

text \<open>The last loop only adds connections of other types.\<close>

lemma addUtilityNodes_ok:
  assumes g: "graph_ok g" and sub: "subgraph_of sub g" and node: "is_node g node"
  shows "\<exists>sub'. addUtilityNodes g sub node = Inr sub' \<and> subgraph_of sub' g \<and> conns_of sub \<subseteq> conns_of sub' \<and>
    (\<forall>c \<in> conns_of sub'. g_type c = Main \<longrightarrow> c \<in> conns_of sub)"
proof -
  let ?P = "\<lambda>s. subgraph_of s g \<and> conns_of sub \<subseteq> conns_of s \<and> (\<forall>c \<in> conns_of s. g_type c = Main \<longrightarrow> c \<in> conns_of sub)"
  obtain cs where cs: "getParentConnections g node = Inr cs" "set cs \<subseteq> conns_of g"
    using getParentConnections_set [OF g node] unfolding conns_of_def by blast
  have "?P sub" using sub by simp
  then have "\<exists>sub'. foldR (\<lambda>sub c. if g_type c = Main then Inr sub else addWithNodes c sub) sub cs = Inr sub' \<and> ?P sub'"
  proof (rule foldR_total [where P = ?P])
    fix s c assume c: "c \<in> set cs" and s: "?P s"
    show "\<exists>s'. (if g_type c = Main then Inr s else addWithNodes c s) = Inr s' \<and> ?P s'"
    proof (cases "g_type c = Main")
      case False
      obtain s' where "addWithNodes c s = Inr s'" "subgraph_of s' g" "conns_of s' = insert c (conns_of s)"
        using addWithNodes_sub [of s g c] s c cs(2) g by blast
      then show ?thesis using s False by auto
    qed (use s in simp)
  qed
  then show ?thesis using cs(1) by (simp add: addUtilityNodes_def)
qed

text \<open>C33. \<open>findSubgraph\<close> always returns a well-formed part of the graph. Of the data flow it keeps only
  connections that lead to the destination without passing the trigger again, and it keeps every
  connection to which the trigger leads without passing the destination and that leads on to the
  destination without passing the trigger.\<close>

theorem findSubgraph_correct:
  assumes "graph_ok g" and "is_node g destination" and "destination \<noteq> trigger"
  shows "\<exists>sub. findSubgraph g destination trigger = Inr sub \<and> subgraph_of sub g \<and>
    (\<forall>c \<in> conns_of sub. g_type c = Main \<longrightarrow> leads_to g destination trigger c) \<and>
    (\<forall>c. leads_to g destination trigger c \<and> (trigger, g_from c) \<in> (not_into destination (main_rel g))\<^sup>* \<longrightarrow>
       c \<in> conns_of sub)"
proof -
  let ?rec = "findSubgraphRecursive (Suc (Suc (length (g_nodes g)))) g destination destination trigger empty_graph []"
  have br: "branch_ok g destination trigger destination []" by (simp add: branch_ok_def)
  have fuel: "length (g_nodes g) < Suc (Suc (length (g_nodes g))) + length []" by simp
  obtain s0 where s0: "?rec = Inr s0" "kept_ok g destination trigger empty_graph s0"
    using findSubgraphRecursive_ok [OF assms(1,2) br subgraph_of_empty fuel] by blast
  have sub0: "subgraph_of s0 g" using s0(2) by (simp add: kept_ok_def)
  have sound: "leads_to g destination trigger c" if "c \<in> conns_of s0" for c
    using s0(2) that by (auto simp: kept_ok_def empty_graph_def conns_of_def)
  have complete: "c \<in> conns_of s0" if c: "leads_to g destination trigger c"
      and reach: "(trigger, g_from c) \<in> (not_into destination (main_rel g))\<^sup>*" for c
  proof -
    let ?C = "{c \<in> conns_of g. g_type c = Main \<and> g_from c \<noteq> trigger}"
    have "not_from trigger (main_rel g) = {(a, b). \<exists>c \<in> ?C. g_from c = a \<and> g_to c = b}"
      by (auto simp: not_from_def main_rel_def)
    then have "(g_to c, destination) \<in> {(a, b). \<exists>c \<in> ?C. g_from c = a \<and> g_to c = b}\<^sup>*"
      using c by (simp add: leads_to_def)
    from back_path_simple [OF this] obtain qs where
        path: "back_path ?C destination qs (g_to c)" "distinct (destination # map g_from qs)" by blast
    then show ?thesis
      using findSubgraph_follows_path [OF assms(1,2) _ _ reach br subgraph_of_empty fuel path(1) assms(3)] c s0(1)
      by (auto simp: leads_to_def)
  qed
  let ?P = "\<lambda>s. subgraph_of s g \<and> conns_of s0 \<subseteq> conns_of s \<and> (\<forall>c \<in> conns_of s. g_type c = Main \<longrightarrow> c \<in> conns_of s0)"
  have start: "?P s0" using sub0 by simp
  have "\<exists>sub. foldR (addUtilityNodes g) s0 (vals (g_nodes s0)) = Inr sub \<and> ?P sub"
  proof (rule foldR_total [where P = ?P, OF start])
    fix s n assume n: "n \<in> set (vals (g_nodes s0))" and s: "?P s"
    have "is_node g n" using n sub0 is_node_vals [of s0 n] by (simp add: subgraph_of_def del: set_map)
    then show "\<exists>t. addUtilityNodes g s n = Inr t \<and> ?P t"
      using addUtilityNodes_ok [OF assms(1), of s n] s by (meson subset_trans)
  qed
  then obtain sub where "foldR (addUtilityNodes g) s0 (vals (g_nodes s0)) = Inr sub" "?P sub" by blast
  then show ?thesis using s0(1) sound complete unfolding findSubgraph_def by (intro exI [of _ sub]) auto
qed

lemma findSubgraph_correct_witness:
  "\<exists>sub. findSubgraph chain_graph (gnode 2 ''C'') (gnode 0 ''A'') = Inr sub \<and>
     gconn (gnode 0 ''A'') (gnode 1 ''B'') \<in> conns_of sub"
proof -
  have "gconn (gnode 0 ''A'') (gnode 1 ''B'') \<in> conns_of chain_graph"
    by (simp add: conns_of_def chain_graph_connections)
  moreover have "(gnode 1 ''B'', gnode 2 ''C'') \<in> not_from (gnode 0 ''A'') (main_rel chain_graph)"
    by (simp add: not_from_def main_rel_def conns_of_def chain_graph_connections)
  ultimately have "leads_to chain_graph (gnode 2 ''C'') (gnode 0 ''A'') (gconn (gnode 0 ''A'') (gnode 1 ''B''))"
    by (auto simp: leads_to_def)
  moreover have "(gnode 0 ''A'', g_from (gconn (gnode 0 ''A'') (gnode 1 ''B'')))
      \<in> (not_into (gnode 2 ''C'') (main_rel chain_graph))\<^sup>*" by simp
  moreover have "gnode 2 ''C'' \<noteq> gnode 0 ''A''" by simp
  ultimately show ?thesis using findSubgraph_correct [OF chain_graph_ok chain_graph_C] by blast
qed

text \<open>A cycle of \<open>A\<close> and \<open>B\<close> beside the path from the trigger \<open>T\<close> to \<open>D\<close>.\<close>

definition cycle_graph :: DirectedGraph where
  "cycle_graph = graph_of [gnode 0 ''T'', gnode 1 ''D'', gnode 2 ''A'', gnode 3 ''B'']
     [gconn (gnode 0 ''T'') (gnode 1 ''D''), gconn (gnode 2 ''A'') (gnode 1 ''D''),
      gconn (gnode 2 ''A'') (gnode 3 ''B''), gconn (gnode 3 ''B'') (gnode 2 ''A'')]"

text \<open>The search keeps a branch as soon as it closes a cycle, so the subgraph can hold connections
  that cannot be reached from the trigger at all.\<close>

theorem findSubgraph_keeps_unreachable_cycle:
  "\<exists>sub. findSubgraph cycle_graph (gnode 1 ''D'') (gnode 0 ''T'') = Inr sub \<and>
     gconn (gnode 2 ''A'') (gnode 3 ''B'') \<in> conns_of sub \<and>
     (gnode 0 ''T'', gnode 2 ''A'') \<notin> (child_rel cycle_graph)\<^sup>*"
proof -
  have "case findSubgraph cycle_graph (gnode 1 ''D'') (gnode 0 ''T'') of Inl _ \<Rightarrow> False
     | Inr sub \<Rightarrow> list_ex (\<lambda>c. c = gconn (gnode 2 ''A'') (gnode 3 ''B'')) (vals (g_connections sub))"
    by code_simp
  then obtain sub where sub: "findSubgraph cycle_graph (gnode 1 ''D'') (gnode 0 ''T'') = Inr sub"
      "gconn (gnode 2 ''A'') (gnode 3 ''B'') \<in> conns_of sub"
    by (auto simp: conns_of_def list_ex_iff split: sum.splits)
  have "child_rel cycle_graph `` {gnode 0 ''T'', gnode 1 ''D''} \<subseteq> {gnode 0 ''T'', gnode 1 ''D''}"
    by (auto simp: child_rel_def cycle_graph_def graph_of_def)
  from closed_rtrancl [OF this] have "(gnode 0 ''T'', gnode 2 ''A'') \<notin> (child_rel cycle_graph)\<^sup>*" by auto
  with sub show ?thesis by blast
qed

section \<open>filterDisabledNodes\<close>

definition removeDisabled :: "DirectedGraph \<Rightarrow> INode \<Rightarrow> DirectedGraph res" where
  "removeDisabled g node =
     (if disabled node
      then rbind (removeNode_reconnect (\<lambda>c. g_type c \<noteq> Main) node g) (\<lambda>(g', newConnections). Inr g')
      else Inr g)"

definition filterDisabledNodes :: "DirectedGraph \<Rightarrow> DirectedGraph res" where
  "filterDisabledNodes graph =
     rbind (clone graph) (\<lambda>filteredGraph. foldR removeDisabled filteredGraph (vals (g_nodes filteredGraph)))"

lemma unambiguous_sub: "unambiguous g \<Longrightarrow> (\<And>n. is_node g' n \<Longrightarrow> is_node g n) \<Longrightarrow> unambiguous g'"
  unfolding unambiguous_def by (erule inj_on_subset) blast

lemma removeNode_reconnect_main:
  assumes ok: "graph_ok g" and node: "is_node g node" and keys: "unambiguous g"
    and noloop: "(node, node) \<notin> main_rel g"
  shows "\<exists>g' new. removeNode_reconnect (\<lambda>c. g_type c \<noteq> Main) node g = Inr (g', new) \<and> graph_ok g' \<and>
    (\<forall>n. is_node g' n \<longleftrightarrow> is_node g n \<and> n \<noteq> node) \<and>
    main_rel g' = {(a, b) \<in> main_rel g. a \<noteq> node \<and> b \<noteq> node} \<union>
      {(a, b). (a, node) \<in> main_rel g \<and> (node, b) \<in> main_rel g}"
proof -
  let ?V = "vals (g_connections g)" and ?skip = "\<lambda>c. g_type c \<noteq> Main"
  let ?new = "newConnections ?skip (filter (\<lambda>c. g_to c = node) ?V) (filter (\<lambda>c. g_from c = node) ?V)"
  obtain g' where run: "removeNode_reconnect ?skip node g = Inr (g', ?new)"
    and nodes: "g_nodes g' = AList.delete (n_name node) (g_nodes g)"
    and keyed: "distinct (map fst (g_connections g')) \<and> (\<forall>(k, c) \<in> set (g_connections g'). k = makeKey c)"
    and conns: "set (vals (g_connections g')) = {c \<in> set ?V. g_to c \<noteq> node \<and> g_from c \<noteq> node} \<union> set ?new"
    using removeNode_reconnect_connections [OF ok node keys, of ?skip] by blast
  have is_node: "is_node g' n \<longleftrightarrow> is_node g n \<and> n \<noteq> node" for n
    using is_node_inj [OF _ node] node by (auto simp: is_node_def nodes jsmap_simps)
  have new: "c \<in> set ?new \<longleftrightarrow> (\<exists>i \<in> conns_of g. \<exists>out \<in> conns_of g. g_type i = Main \<and> g_type out = Main \<and>
      g_to i = node \<and> g_from out = node \<and> c = i\<lparr>g_to := g_to out, g_inputIndex := g_inputIndex out\<rparr>)" for c
    unfolding newConnections_iff conns_of_def set_filter by blast
  have conns': "conns_of g' = {c \<in> conns_of g. g_to c \<noteq> node \<and> g_from c \<noteq> node} \<union> set ?new"
    unfolding conns_of_def by (rule conns)
  have new_ends: "(g_from c, node) \<in> main_rel g \<and> (node, g_to c) \<in> main_rel g \<and> g_type c = Main" if "c \<in> set ?new" for c
    using that unfolding new main_rel_def by auto
  have into: "is_node g a \<and> is_node g b" if "(a, b) \<in> main_rel g" for a b
    using that conns_of_ends [OF ok] by (auto simp: main_rel_def)
  have ends: "is_node g' (g_from c) \<and> is_node g' (g_to c)" if "c \<in> conns_of g'" for c
    using that unfolding conns'
  proof
    assume "c \<in> {c \<in> conns_of g. g_to c \<noteq> node \<and> g_from c \<noteq> node}"
    then show ?thesis using conns_of_ends [OF ok, of c] by (simp add: is_node)
  next
    assume "c \<in> set ?new"
    then show ?thesis using new_ends [of c] into noloop by (auto simp: is_node)
  qed
  have ok': "graph_ok g'"
    using keyed ends ok by (intro graph_okI) (simp_all add: nodes nodes_ok_delete graph_ok_def conns_of_def)
  have "(a, b) \<in> main_rel g' \<longleftrightarrow> (a, b) \<in> main_rel g \<and> a \<noteq> node \<and> b \<noteq> node \<or>
      (a, node) \<in> main_rel g \<and> (node, b) \<in> main_rel g" (is "?L \<longleftrightarrow> ?R") for a b
  proof
    assume ?L
    then obtain c where "c \<in> conns_of g'" "g_type c = Main" "g_from c = a" "g_to c = b" by (auto simp: main_rel_def)
    then show ?R using new_ends [of c] unfolding conns' by (auto simp: main_rel_def)
  next
    assume ?R
    then consider (old) c where "c \<in> conns_of g" "g_type c = Main" "g_from c = a" "g_to c = b" "a \<noteq> node" "b \<noteq> node"
      | (pair) i out where "i \<in> conns_of g" "g_type i = Main" "g_from i = a" "g_to i = node"
          "out \<in> conns_of g" "g_type out = Main" "g_from out = node" "g_to out = b"
      by (auto simp: main_rel_def)
    then show ?L
    proof cases
      case old
      then show ?thesis unfolding main_rel_def conns' by blast
    next
      case pair
      let ?c = "i\<lparr>g_to := g_to out, g_inputIndex := g_inputIndex out\<rparr>"
      have "?c \<in> conns_of g'" unfolding conns' using pair new [of ?c] by blast
      then show ?thesis using pair by (auto simp: main_rel_def intro!: bexI [of _ ?c])
    qed
  qed
  then have "main_rel g' = {(a, b) \<in> main_rel g. a \<noteq> node \<and> b \<noteq> node} \<union>
      {(a, b). (a, node) \<in> main_rel g \<and> (node, b) \<in> main_rel g}" by auto
  then show ?thesis using run ok' is_node by blast
qed

text \<open>No cycle of the data flow consists of disabled nodes only.\<close>

definition disabled_rel :: "DirectedGraph \<Rightarrow> (INode \<times> INode) set" where
  "disabled_rel g = main_rel g \<inter> {n. disabled n} \<times> {n. disabled n}"

lemma disabled_rel_contract:
  assumes "main_rel g' = {(a, b) \<in> main_rel g. a \<noteq> node \<and> b \<noteq> node} \<union>
      {(a, b). (a, node) \<in> main_rel g \<and> (node, b) \<in> main_rel g}" and "disabled node"
    and "\<forall>n. (n, n) \<notin> (disabled_rel g)\<^sup>+"
  shows "\<forall>n. (n, n) \<notin> (disabled_rel g')\<^sup>+"
proof -
  have "disabled_rel g' \<subseteq> (disabled_rel g)\<^sup>+"
  proof (rule subrelI)
    fix a b assume "(a, b) \<in> disabled_rel g'"
    then have "(a, b) \<in> disabled_rel g \<or> (a, node) \<in> disabled_rel g \<and> (node, b) \<in> disabled_rel g"
      using assms(1,2) by (auto simp: disabled_rel_def)
    then show "(a, b) \<in> (disabled_rel g)\<^sup>+" by (auto intro: trancl_into_trancl)
  qed
  then have "(disabled_rel g')\<^sup>+ \<subseteq> (disabled_rel g)\<^sup>+"
    using trancl_mono_subset [of "disabled_rel g'" "(disabled_rel g)\<^sup>+"] by (simp add: trancl_id)
  with assms(3) show ?thesis by blast
qed

definition filtered :: "DirectedGraph \<Rightarrow> INode list \<Rightarrow> DirectedGraph \<Rightarrow> bool" where
  "filtered g ns g' \<longleftrightarrow> graph_ok g' \<and>
     (\<forall>n. is_node g' n \<longleftrightarrow> is_node g n \<and> \<not> (n \<in> set ns \<and> disabled n)) \<and>
     (\<forall>a b. \<not> (a \<in> set ns \<and> disabled a) \<longrightarrow> \<not> (b \<in> set ns \<and> disabled b) \<longrightarrow>
        (a, b) \<in> (main_rel g')\<^sup>+ \<longleftrightarrow> (a, b) \<in> (main_rel g)\<^sup>+)"

lemma removeDisabled_all:
  assumes "graph_ok g" and "unambiguous g" and "\<forall>n. (n, n) \<notin> (disabled_rel g)\<^sup>+"
    and "distinct ns" and "\<forall>n \<in> set ns. is_node g n"
  shows "\<exists>g'. foldR removeDisabled g ns = Inr g' \<and> filtered g ns g'"
  using assms
proof (induction ns arbitrary: g)
  case Nil
  then show ?case by (simp add: filtered_def)
next
  case (Cons n ns)
  show ?case
  proof (cases "disabled n")
    case False
    obtain g' where g': "foldR removeDisabled g ns = Inr g'" "filtered g ns g'"
      using Cons.IH [OF Cons.prems(1-3)] Cons.prems(4,5) by auto
    have "filtered g (n # ns) g'" using g'(2) False unfolding filtered_def by auto
    moreover have "removeDisabled g n = Inr g" using False by (simp add: removeDisabled_def)
    ultimately show ?thesis using g'(1) by simp
  next
    case True
    have node: "is_node g n" using Cons.prems(5) by simp
    have loop: "(n, n) \<notin> main_rel g" using Cons.prems(3) True by (auto simp: disabled_rel_def)
    obtain g1 new where run: "removeNode_reconnect (\<lambda>c. g_type c \<noteq> Main) n g = Inr (g1, new)"
      and ok: "graph_ok g1" and nodes: "\<forall>m. is_node g1 m \<longleftrightarrow> is_node g m \<and> m \<noteq> n"
      and rel: "main_rel g1 = {(a, b) \<in> main_rel g. a \<noteq> n \<and> b \<noteq> n} \<union> {(a, b). (a, n) \<in> main_rel g \<and> (n, b) \<in> main_rel g}"
      using removeNode_reconnect_main [OF Cons.prems(1) node Cons.prems(2) loop] by blast
    have amb: "unambiguous g1" using Cons.prems(2) by (rule unambiguous_sub) (simp add: nodes)
    have acyclic: "\<forall>m. (m, m) \<notin> (disabled_rel g1)\<^sup>+" by (rule disabled_rel_contract [OF rel True Cons.prems(3)])
    obtain g' where g': "foldR removeDisabled g1 ns = Inr g'" "filtered g1 ns g'"
      using Cons.IH [OF ok amb acyclic] Cons.prems(4,5) nodes by auto
    have reach: "(a, b) \<in> (main_rel g1)\<^sup>+ \<longleftrightarrow> (a, b) \<in> (main_rel g)\<^sup>+" if "a \<noteq> n" "b \<noteq> n" for a b
      unfolding rel by (rule trancl_contract [OF loop that])
    have nodes': "is_node g' m \<longleftrightarrow> is_node g m \<and> \<not> (m \<in> set (n # ns) \<and> disabled m)" for m
      using g'(2) nodes True unfolding filtered_def by auto
    have reach': "(a, b) \<in> (main_rel g')\<^sup>+ \<longleftrightarrow> (a, b) \<in> (main_rel g)\<^sup>+"
      if "\<not> (a \<in> set (n # ns) \<and> disabled a)" "\<not> (b \<in> set (n # ns) \<and> disabled b)" for a b
    proof -
      have "a \<noteq> n" "b \<noteq> n" using that True by auto
      moreover have "(a, b) \<in> (main_rel g')\<^sup>+ \<longleftrightarrow> (a, b) \<in> (main_rel g1)\<^sup>+"
        using g'(2) that unfolding filtered_def set_simps insert_iff by blast
      ultimately show ?thesis using reach by simp
    qed
    have "graph_ok g'" using g'(2) by (simp add: filtered_def)
    then have "filtered g (n # ns) g'" unfolding filtered_def using nodes' reach' by blast
    moreover have "removeDisabled g n = Inr g1" using True run by (simp add: removeDisabled_def)
    ultimately show ?thesis using g'(1) by simp
  qed
qed

lemma nodes_distinct: "graph_ok g \<Longrightarrow> distinct (vals (g_nodes g))"
proof -
  assume "graph_ok g"
  then have "distinct (map fst (g_nodes g))" and "map fst (g_nodes g) = map n_name (vals (g_nodes g))"
    by (auto simp: graph_ok_def nodes_ok_def)
  then show ?thesis by (metis distinct_map)
qed

text \<open>\<open>filterDisabledNodes\<close>: if no cycle of the data flow consists of disabled nodes only, the result
  is a well-formed graph of exactly the enabled nodes, in which they reach each other over main
  connections exactly when they did before.\<close>

theorem filterDisabledNodes_correct:
  assumes "graph_ok g" and "unambiguous g" and "\<forall>n. (n, n) \<notin> (disabled_rel g)\<^sup>+"
  shows "\<exists>g'. filterDisabledNodes g = Inr g' \<and> graph_ok g' \<and>
    (\<forall>n. is_node g' n \<longleftrightarrow> is_node g n \<and> \<not> disabled n) \<and>
    (\<forall>a b. is_node g' a \<longrightarrow> is_node g' b \<longrightarrow> (a, b) \<in> (main_rel g')\<^sup>+ \<longleftrightarrow> (a, b) \<in> (main_rel g)\<^sup>+)"
proof -
  have all: "\<forall>n \<in> set (vals (g_nodes g)). is_node g n" using is_node_vals [OF assms(1)] by blast
  obtain g' where "foldR removeDisabled g (vals (g_nodes g)) = Inr g'" "filtered g (vals (g_nodes g)) g'"
    using removeDisabled_all [OF assms nodes_distinct [OF assms(1)] all] by blast
  then show ?thesis
    using is_node_vals [OF assms(1)] unfolding filterDisabledNodes_def clone_eq [OF assms(1)] filtered_def
    by (intro exI [of _ g']) auto
qed

definition off :: "INode \<Rightarrow> INode" where
  "off n = n\<lparr>n_disabled := Some True\<rparr>"

definition disabled_chain :: DirectedGraph where
  "disabled_chain = graph_of [gnode 0 ''A'', off (gnode 1 ''B''), gnode 2 ''C'']
     [gconn (gnode 0 ''A'') (off (gnode 1 ''B'')), gconn (off (gnode 1 ''B'')) (gnode 2 ''C'')]"

lemma off_simps [simp]: "n_name (off n) = n_name n" "disabled (off n)"
  by (simp_all add: off_def)

lemma off_neq [simp]: "off (gnode i nm) \<noteq> gnode j nm'" "gnode j nm' \<noteq> off (gnode i nm)"
  by (auto simp: off_def mk_node_def)

lemma disabled_chain_node: "is_node disabled_chain n \<longleftrightarrow> n \<in> {gnode 0 ''A'', off (gnode 1 ''B''), gnode 2 ''C''}"
  by (auto simp: disabled_chain_def graph_of_def is_node_def addNodes_def addNode_def empty_graph_def split: if_splits)

lemma disabled_chain_conns: "g_connections disabled_chain =
    [(''A-main-0-0-B'', gconn (gnode 0 ''A'') (off (gnode 1 ''B''))),
     (''B-main-0-0-C'', gconn (off (gnode 1 ''B'')) (gnode 2 ''C''))]"
  by (simp add: disabled_chain_def graph_of_def empty_graph_def makeKey_def)

lemma filterDisabledNodes_correct_witness:
  "\<exists>g'. filterDisabledNodes disabled_chain = Inr g' \<and> \<not> is_node g' (off (gnode 1 ''B'')) \<and>
     (gnode 0 ''A'', gnode 2 ''C'') \<in> (main_rel g')\<^sup>+"
proof -
  have "nodes_ok (g_nodes disabled_chain)"
    by (simp add: disabled_chain_def graph_of_def addNodes_def addNode_def empty_graph_def nodes_ok_def)
  then have ok: "graph_ok disabled_chain"
    by (intro graph_okI) (auto simp: disabled_chain_node disabled_chain_conns makeKey_def)
  have amb: "unambiguous disabled_chain" by (rule unambiguousI) (auto simp: disabled_chain_node)
  have rel: "main_rel disabled_chain = {(gnode 0 ''A'', off (gnode 1 ''B'')), (off (gnode 1 ''B''), gnode 2 ''C'')}"
    by (auto simp: main_rel_def conns_of_def disabled_chain_conns)
  have "disabled_rel disabled_chain = {}" by (auto simp: disabled_rel_def rel)
  then have acyclic: "\<forall>n. (n, n) \<notin> (disabled_rel disabled_chain)\<^sup>+" by simp
  have "(gnode 0 ''A'', gnode 2 ''C'') \<in> (main_rel disabled_chain)\<^sup>+"
    unfolding rel by (rule trancl.trancl_into_trancl [OF r_into_trancl]) auto
  then show ?thesis
    using filterDisabledNodes_correct [OF ok amb acyclic] by (auto simp: disabled_chain_node)
qed

text \<open>Two disabled nodes that feed each other.\<close>

definition disabled_loop :: DirectedGraph where
  "disabled_loop = graph_of [gnode 0 ''T'', off (gnode 1 ''A''), off (gnode 2 ''B'')]
     [gconn (gnode 0 ''T'') (off (gnode 1 ''A'')), gconn (off (gnode 1 ''A'')) (off (gnode 2 ''B'')),
      gconn (off (gnode 2 ''B'')) (off (gnode 1 ''A''))]"

text \<open>Two disabled nodes that feed each other break it: reconnecting the neighbours of the first gives
  the second a connection to itself, which survives its removal.\<close>

theorem filterDisabledNodes_disabled_cycle:
  "\<exists>g'. filterDisabledNodes disabled_loop = Inr g' \<and> \<not> graph_ok g' \<and> \<not> hasNode g' ''B'' \<and>
     (\<exists>c \<in> conns_of g'. n_name (g_from c) = ''B'')"
proof -
  have "case filterDisabledNodes disabled_loop of Inl _ \<Rightarrow> False
     | Inr g' \<Rightarrow> \<not> hasNode g' ''B'' \<and> list_ex (\<lambda>c. n_name (g_from c) = ''B'') (vals (g_connections g'))"
    by code_simp
  then obtain g' c where g': "filterDisabledNodes disabled_loop = Inr g'" "\<not> hasNode g' ''B''"
      "c \<in> conns_of g'" "n_name (g_from c) = ''B''"
    by (auto simp: conns_of_def list_ex_iff split: sum.splits)
  moreover have "\<not> graph_ok g'" using conns_of_ends [of g' c] g' by (auto simp: is_node_def hasNode_def)
  ultimately show ?thesis by blast
qed

end
