(* ===== verification/RunData.thy ===== *)
theory RunData
  imports Subgraph
begin

text \<open>
  Reading and cleaning the run data of a previous execution: \<open>get-incoming-data.ts\<close>,
  \<open>run-data-utils.ts\<close>, \<open>clean-run-data.ts\<close> and \<open>find-start-nodes.ts\<close> of
  \<open>partial-execution-utils\<close>.
\<close>

section \<open>Incoming data\<close>

text \<open>\<open>Array.prototype.at\<close>: negative indexes count from the end.\<close>

definition js_at :: "'a list \<Rightarrow> int \<Rightarrow> 'a option" where
  "js_at xs i = (let j = (if i < 0 then i + int (length xs) else i) in
     if 0 \<le> j \<and> j < int (length xs) then Some (xs ! nat j) else None)"

definition getIncomingData ::
  "IRunData \<Rightarrow> string \<Rightarrow> int \<Rightarrow> NodeConnectionType \<Rightarrow> nat \<Rightarrow> items option res" where
  "getIncomingData runData nodeName runIndex connectionType outputIndex =
     (case map_of runData nodeName of
        None \<Rightarrow> Inr None
      | Some tasks \<Rightarrow>
          (case js_at tasks runIndex of
             None \<Rightarrow> Inr None
           | Some task \<Rightarrow>
               (case t_data task of
                  None \<Rightarrow> Inr None
                | Some data \<Rightarrow>
                    (case map_of data connectionType of
                       None \<Rightarrow> Inl TypeError
                     | Some outputs \<Rightarrow> Inr (case js_at outputs (int outputIndex) of None \<Rightarrow> None | Some x \<Rightarrow> x)))))"

definition getRunIndexLength :: "IRunData \<Rightarrow> string \<Rightarrow> nat" where
  "getRunIndexLength runData nodeName =
     (case map_of runData nodeName of None \<Rightarrow> 0 | Some tasks \<Rightarrow> length tasks)"

fun firstRunWithData ::
  "IRunData \<Rightarrow> string \<Rightarrow> NodeConnectionType \<Rightarrow> nat \<Rightarrow> nat list \<Rightarrow> (items \<times> nat) option res" where
  "firstRunWithData runData nodeName connectionType outputIndex [] = Inr None"
| "firstRunWithData runData nodeName connectionType outputIndex (runIndex # runs) =
     rbind (getIncomingData runData nodeName (int runIndex) connectionType outputIndex) (\<lambda>data.
       case data of
         Some (x # xs) \<Rightarrow> Inr (Some (x # xs, runIndex))
       | _ \<Rightarrow> firstRunWithData runData nodeName connectionType outputIndex runs)"

definition getIncomingDataFromAnyRun ::
  "IRunData \<Rightarrow> string \<Rightarrow> NodeConnectionType \<Rightarrow> nat \<Rightarrow> (items \<times> nat) option res" where
  "getIncomingDataFromAnyRun runData nodeName connectionType outputIndex =
     firstRunWithData runData nodeName connectionType outputIndex [0..<getRunIndexLength runData nodeName]"

lemma js_at_in: "js_at xs i = Some x \<Longrightarrow> x \<in> set xs"
  by (auto simp: js_at_def Let_def split: if_splits)

lemma getIncomingData_total:
  assumes "\<And>tasks task data. map_of runData n = Some tasks \<Longrightarrow> task \<in> set tasks \<Longrightarrow> t_data task = Some data \<Longrightarrow>
    map_of data t \<noteq> None"
  shows "\<exists>x. getIncomingData runData n i t out = Inr x"
  using assms by (fastforce simp: getIncomingData_def dest: js_at_in split: option.split)

lemma firstRunWithData_total:
  "(\<And>i. \<exists>x. getIncomingData runData n i t out = Inr x) \<Longrightarrow>
     \<exists>x. firstRunWithData runData n t out is = Inr x"
proof (induction "is")
  case (Cons i "is")
  from Cons.prems [of "int i"] Cons.IH [OF Cons.prems] show ?case
    by (auto split: option.split list.split)
qed simp

lemma firstRunWithData_Some:
  "firstRunWithData runData n t out is = Inr (Some (xs, i)) \<Longrightarrow>
     xs \<noteq> [] \<and> i \<in> set is \<and> getIncomingData runData n (int i) t out = Inr (Some xs)"
proof (induction "is")
  case (Cons a "is")
  then obtain d where d: "getIncomingData runData n (int a) t out = Inr d"
    by (auto simp: res_simps)
  show ?case
  proof (cases "d = None \<or> d = Some []")
    case True
    with Cons d show ?thesis by auto
  next
    case False
    then obtain y ys where "d = Some (y # ys)" by (metis not_Some_eq list.exhaust)
    with Cons.prems d show ?thesis by auto
  qed
qed simp

section \<open>The next execution index\<close>

definition getNextExecutionIndex :: "IRunData \<Rightarrow> nat" where
  "getNextExecutionIndex runData =
     (if runData = [] then 0
      else let previousIndices = List.map_filter t_executionIndex (concat (vals runData)) in
           if previousIndices = [] then 0 else Max (set previousIndices) + 1)"

text \<open>The next execution index is the least index greater than all that occur in the run data.\<close>

theorem getNextExecutionIndex_least:
  "getNextExecutionIndex runData =
     (LEAST i. \<forall>tasks \<in> set (vals runData). \<forall>task \<in> set tasks. \<forall>j. t_executionIndex task = Some j \<longrightarrow> j < i)"
proof -
  let ?js = "List.map_filter t_executionIndex (concat (vals runData))"
  have js: "j \<in> set ?js \<longleftrightarrow> (\<exists>tasks \<in> set (vals runData). \<exists>task \<in> set tasks. t_executionIndex task = Some j)" for j
    by (force simp: List.map_filter_def image_iff)
  have "(LEAST i. \<forall>j \<in> set ?js. j < i) = getNextExecutionIndex runData"
  proof (cases "?js = []")
    case True
    then show ?thesis by (auto simp: getNextExecutionIndex_def Let_def)
  next
    case False
    then have "runData \<noteq> []" by (auto simp: List.map_filter_def)
    moreover have "(LEAST i. \<forall>j \<in> set ?js. j < i) = Max (set ?js) + 1"
    proof (rule Least_equality)
      show "\<forall>j \<in> set ?js. j < Max (set ?js) + 1" by (auto simp: less_Suc_eq_le)
      fix i assume "\<forall>j \<in> set ?js. j < i"
      then have "Max (set ?js) < i" using False by (simp add: Max_less_iff)
      then show "Max (set ?js) + 1 \<le> i" by simp
    qed
    ultimately show ?thesis using False by (simp add: getNextExecutionIndex_def Let_def)
  qed
  moreover have "(\<forall>j \<in> set ?js. j < i) \<longleftrightarrow>
      (\<forall>tasks \<in> set (vals runData). \<forall>task \<in> set tasks. \<forall>j. t_executionIndex task = Some j \<longrightarrow> j < i)" for i
    using js by blast
  ultimately show ?thesis by simp
qed

lemma getNextExecutionIndex_least_witness:
  "getNextExecutionIndex [(''A'', [mk_task 4 []])] = 5 \<and>
     (LEAST i. \<forall>tasks \<in> set (vals [(''A'', [mk_task 4 []])]). \<forall>task \<in> set tasks.
        \<forall>j. t_executionIndex task = Some j \<longrightarrow> j < i) = (5 :: nat)"
proof -
  have "getNextExecutionIndex [(''A'', [mk_task 4 []])] = 5"
    by (simp add: getNextExecutionIndex_def List.map_filter_def mk_task_def)
  then show ?thesis using getNextExecutionIndex_least [of "[(''A'', [mk_task 4 []])]"] by simp
qed

section \<open>Cleaning run data\<close>

definition cleanNode :: "DirectedGraph \<Rightarrow> IRunData \<Rightarrow> INode \<Rightarrow> IRunData res" where
  "cleanNode graph runData node =
     rbind (getParentConnections graph node) (\<lambda>subNodeConnections.
       Inr (foldl (\<lambda>rd c. if g_type c = Main then rd else AList.delete (n_name (g_from c)) rd)
         (AList.delete (n_name node) runData) subNodeConnections))"

definition cleanBelow :: "DirectedGraph \<Rightarrow> IRunData \<Rightarrow> INode \<Rightarrow> IRunData res" where
  "cleanBelow graph runData nodeToClean =
     rbind (getChildren graph nodeToClean) (\<lambda>children.
       foldR (cleanNode graph) (AList.delete (n_name nodeToClean) runData) (nodeToClean # children))"

definition cleanRunData :: "IRunData \<Rightarrow> DirectedGraph \<Rightarrow> INode list \<Rightarrow> IRunData res" where
  "cleanRunData runData graph nodesToClean =
     rbind (foldR (cleanBelow graph) runData nodesToClean) (\<lambda>newRunData.
       Inr (foldl (\<lambda>rd nodeName. if hasNode graph nodeName then rd else AList.delete nodeName rd)
         newRunData (map fst newRunData)))"

text \<open>The names whose run data is dropped for one node: its own, and those of the sources of all
  connections of other types from which it can be reached.\<close>

definition subnodes_above :: "DirectedGraph \<Rightarrow> INode \<Rightarrow> string set" where
  "subnodes_above g node =
     {n_name (g_from c) | c. c \<in> conns_of g \<and> g_type c \<noteq> Main \<and> (g_to c, node) \<in> (child_rel g)\<^sup>*}"

definition cleaned_names :: "DirectedGraph \<Rightarrow> INode \<Rightarrow> string set" where
  "cleaned_names g node = (\<Union>m \<in> {m. (node, m) \<in> (child_rel g)\<^sup>*}. insert (n_name m) (subnodes_above g m))"

definition restrict_to :: "IRunData \<Rightarrow> string set \<Rightarrow> IRunData \<Rightarrow> bool" where
  "restrict_to rd removed rd' \<longleftrightarrow> (\<forall>k. map_of rd' k = (if k \<in> removed then None else map_of rd k))"

lemma restrict_to_trans: "restrict_to a X b \<Longrightarrow> restrict_to b Y c \<Longrightarrow> restrict_to a (X \<union> Y) c"
  by (simp add: restrict_to_def)

lemma restrict_to_delete: "restrict_to rd {k} (AList.delete k rd)"
  by (simp add: restrict_to_def jsmap_simps)

lemma foldl_restrict:
  "restrict_to rd {f x | x. x \<in> set xs \<and> \<not> P x} (foldl (\<lambda>rd x. if P x then rd else AList.delete (f x) rd) rd xs)"
proof (induction xs arbitrary: rd)
  case Nil
  show ?case by (simp add: restrict_to_def)
next
  case (Cons x xs)
  have "{f y | y. y \<in> set (x # xs) \<and> \<not> P y} = (if P x then {} else {f x}) \<union> {f y | y. y \<in> set xs \<and> \<not> P y}" by auto
  moreover have "restrict_to rd (if P x then {} else {f x}) (if P x then rd else AList.delete (f x) rd)"
    by (simp add: restrict_to_def jsmap_simps)
  ultimately show ?case using restrict_to_trans [OF _ Cons.IH] by simp
qed

lemma foldR_restrict:
  assumes "\<And>rd x. x \<in> set xs \<Longrightarrow> \<exists>rd'. f rd x = Inr rd' \<and> restrict_to rd (X x) rd'"
  shows "\<exists>rd'. foldR f rd xs = Inr rd' \<and> restrict_to rd (\<Union>x \<in> set xs. X x) rd'"
  using assms
proof (induction xs arbitrary: rd)
  case Nil
  show ?case by (simp add: restrict_to_def)
next
  case (Cons x xs)
  obtain r1 where r1: "f rd x = Inr r1" "restrict_to rd (X x) r1" using Cons.prems [of x rd] by auto
  obtain r2 where r2: "foldR f r1 xs = Inr r2" "restrict_to r1 (\<Union>x \<in> set xs. X x) r2"
    using Cons.IH [of r1] Cons.prems by auto
  show ?case using r1 r2 restrict_to_trans [OF r1(2) r2(2)] by simp
qed

lemma cleanNode_restrict:
  assumes "graph_ok g" and "is_node g node"
  shows "\<exists>rd'. cleanNode g rd node = Inr rd' \<and> restrict_to rd (insert (n_name node) (subnodes_above g node)) rd'"
proof -
  obtain cs where cs: "getParentConnections g node = Inr cs"
      "set cs = {c \<in> conns_of g. (g_to c, node) \<in> (child_rel g)\<^sup>*}"
    using getParentConnections_set [OF assms] unfolding conns_of_def by blast
  have "{n_name (g_from c) | c. c \<in> set cs \<and> g_type c \<noteq> Main} = subnodes_above g node"
    by (auto simp: subnodes_above_def cs(2))
  then have "restrict_to (AList.delete (n_name node) rd) (subnodes_above g node)
      (foldl (\<lambda>rd c. if g_type c = Main then rd else AList.delete (n_name (g_from c)) rd)
        (AList.delete (n_name node) rd) cs)"
    using foldl_restrict [of "AList.delete (n_name node) rd" "\<lambda>c. n_name (g_from c)" cs "\<lambda>c. g_type c = Main"]
    by simp
  from restrict_to_trans [OF restrict_to_delete this] cs(1) show ?thesis by (simp add: cleanNode_def)
qed

lemma cleanBelow_restrict:
  assumes "graph_ok g" and "is_node g node"
  shows "\<exists>rd'. cleanBelow g rd node = Inr rd' \<and> restrict_to rd (cleaned_names g node) rd'"
proof -
  obtain ns where ns: "getChildren g node = Inr ns" "set ns = {m. (node, m) \<in> (child_rel g)\<^sup>+}"
    using getChildren_set [OF assms] by blast
  have nodes: "is_node g m" if "m \<in> set (node # ns)" for m
  proof (cases "m = node")
    case False
    then have "(node, m) \<in> (child_rel g)\<^sup>+" using that ns(2) by simp
    then obtain x where "(x, m) \<in> child_rel g" by (meson tranclE)
    then show ?thesis using graph_okD(2) [OF assms(1)] unfolding child_rel_def by blast
  qed (simp add: assms(2))
  have reach: "set (node # ns) = {m. (node, m) \<in> (child_rel g)\<^sup>*}"
    using ns(2) by (auto simp: rtrancl_eq_or_trancl)
  let ?rd = "AList.delete (n_name node) rd"
  have "\<exists>rd'. foldR (cleanNode g) ?rd (node # ns) = Inr rd' \<and>
      restrict_to ?rd (\<Union>m \<in> set (node # ns). insert (n_name m) (subnodes_above g m)) rd'"
    by (rule foldR_restrict) (rule cleanNode_restrict [OF assms(1) nodes])
  then obtain rd' where rd': "foldR (cleanNode g) ?rd (node # ns) = Inr rd'" "restrict_to ?rd (cleaned_names g node) rd'"
    unfolding reach cleaned_names_def by blast
  have "n_name node \<in> cleaned_names g node" by (auto simp: cleaned_names_def)
  then have "restrict_to rd (cleaned_names g node) rd'"
    using restrict_to_trans [OF restrict_to_delete rd'(2)] by (simp add: insert_absorb)
  then show ?thesis using rd'(1) ns(1) by (simp add: cleanBelow_def)
qed

lemma map_of_None_keys: "map_of m k = None \<longleftrightarrow> k \<notin> set (map fst m)"
  by (simp add: map_of_eq_None_iff)

text \<open>C34. \<open>cleanRunData\<close> always returns, and what is left is the run data of the nodes of the graph
  other than the given nodes, the nodes below them, and the sub-nodes above any of these; nothing is changed. The
  sub-nodes are the sources of the connections of other types than main anywhere upstream, not only of those that lead into
  a cleaned node: also a sub-node of a node that is above the given ones and keeps its own run data loses its
  run data (see \<open>cleanRunData_drops_upstream_subnodes\<close>).\<close>

theorem cleanRunData_correct:
  assumes "graph_ok g" and "\<forall>n \<in> set nodesToClean. is_node g n"
  shows "\<exists>rd. cleanRunData runData g nodesToClean = Inr rd \<and>
    (\<forall>k. map_of rd k = (if hasNode g k \<and> k \<notin> (\<Union>n \<in> set nodesToClean. cleaned_names g n)
                        then map_of runData k else None))"
proof -
  let ?X = "\<Union>n \<in> set nodesToClean. cleaned_names g n"
  have "\<exists>rd. foldR (cleanBelow g) runData nodesToClean = Inr rd \<and> restrict_to runData ?X rd"
    by (rule foldR_restrict) (use cleanBelow_restrict [OF assms(1)] assms(2) in blast)
  then obtain r1 where r1: "foldR (cleanBelow g) runData nodesToClean = Inr r1" "restrict_to runData ?X r1" by blast
  let ?r2 = "foldl (\<lambda>rd k. if hasNode g k then rd else AList.delete k rd) r1 (map fst r1)"
  have r2: "restrict_to r1 {k | k. k \<in> set (map fst r1) \<and> \<not> hasNode g k} ?r2"
    by (rule foldl_restrict)
  have "map_of ?r2 k = (if hasNode g k \<and> k \<notin> ?X then map_of runData k else None)" for k
  proof -
    have r1k: "map_of r1 k = (if k \<in> ?X then None else map_of runData k)"
      using r1(2) unfolding restrict_to_def by blast
    have "map_of ?r2 k = (if k \<in> set (map fst r1) \<and> \<not> hasNode g k then None else map_of r1 k)"
      using r2 unfolding restrict_to_def by simp
    then have "map_of ?r2 k = (if hasNode g k then map_of r1 k else None)"
      using map_of_None_keys [of r1 k] by (simp del: set_map)
    then show ?thesis unfolding r1k by (cases "hasNode g k"; cases "k \<in> ?X") simp_all
  qed
  then show ?thesis using r1(1) by (simp add: cleanRunData_def)
qed

lemma cleanRunData_correct_witness:
  "\<exists>rd. cleanRunData [(''A'', []), (''C'', []), (''Z'', [])] chain_graph [gnode 1 ''B''] = Inr rd \<and>
     map_of rd ''A'' = Some [] \<and> map_of rd ''C'' = None \<and> map_of rd ''Z'' = None"
proof -
  let ?rd = "[(''A'', []), (''C'', []), (''Z'', [])] :: IRunData"
  have "\<forall>n \<in> set [gnode 1 ''B'']. is_node chain_graph n" using chain_graph_B by simp
  from cleanRunData_correct [OF chain_graph_ok this, of ?rd] obtain rd where
      rd: "cleanRunData ?rd chain_graph [gnode 1 ''B''] = Inr rd"
    and keep: "\<And>k. map_of rd k = (if hasNode chain_graph k \<and> k \<notin> cleaned_names chain_graph (gnode 1 ''B'')
      then map_of ?rd k else None)"
    by auto
  have "subnodes_above chain_graph m = {}" for m
    by (auto simp: subnodes_above_def conns_of_def chain_graph_connections)
  then have cleaned: "cleaned_names chain_graph (gnode 1 ''B'') = n_name ` {m. (gnode 1 ''B'', m) \<in> (child_rel chain_graph)\<^sup>*}"
    by (auto simp: cleaned_names_def)
  have "child_rel chain_graph `` {gnode 1 ''B'', gnode 2 ''C''} \<subseteq> {gnode 1 ''B'', gnode 2 ''C''}"
    by (auto simp: chain_rel)
  from closed_rtrancl [OF this] have "''A'' \<notin> cleaned_names chain_graph (gnode 1 ''B'')"
    unfolding cleaned by auto
  moreover have "(gnode 1 ''B'', gnode 2 ''C'') \<in> (child_rel chain_graph)\<^sup>*" by (auto simp: chain_rel)
  then have "''C'' \<in> cleaned_names chain_graph (gnode 1 ''B'')" unfolding cleaned by force
  moreover have "hasNode chain_graph ''A''" "\<not> hasNode chain_graph ''Z''"
    by (simp_all add: hasNode_def chain_graph_def graph_of_def addNodes_def addNode_def empty_graph_def)
  ultimately show ?thesis using rd keep by auto
qed

text \<open>An agent with a model, and a node below the agent.\<close>

definition agent_graph :: DirectedGraph where
  "agent_graph = graph_of [gnode 0 ''Model'', gnode 1 ''Agent'', gnode 2 ''B'']
     [gconn (gnode 0 ''Model'') (gnode 1 ''Agent'')\<lparr>g_type := AiLanguageModel\<rparr>,
      gconn (gnode 1 ''Agent'') (gnode 2 ''B'')]"

text \<open>The sub-nodes are looked up over all connections upstream, so the run data of a model is lost
  although the agent that uses it is above the cleaned node and is not cleaned itself.\<close>

theorem cleanRunData_drops_upstream_subnodes:
  "cleanRunData [(''Model'', []), (''Agent'', []), (''B'', [])] agent_graph [gnode 2 ''B''] = Inr [(''Agent'', [])] \<and>
   getChildren agent_graph (gnode 2 ''B'') = Inr []"
  by (rule conjI; code_simp)

section \<open>Start nodes\<close>

definition isDirty :: "INode \<Rightarrow> IRunData \<Rightarrow> IPinData \<Rightarrow> bool" where
  "isDirty node runData pins =
     (if map_of pins (n_name node) \<noteq> None then False
      else if map_of runData (n_name node) \<noteq> None then False
      else True)"

definition isALoop :: "DirectedGraph \<Rightarrow> INode \<Rightarrow> bool res" where
  "isALoop graph node = rbind (getChildren graph node) (\<lambda>children. Inr (node \<in> set children))"

text \<open>A loop node whose \<open>done\<close> output had no data in the last run.\<close>

definition incompleteLoop :: "DirectedGraph \<Rightarrow> IRunData \<Rightarrow> INode \<Rightarrow> bool res" where
  "incompleteLoop graph runData current =
     (if n_type current = ''n8n-nodes-base.splitInBatches''
      then rbind (isALoop graph current) (\<lambda>loop.
           rbind (getIncomingData runData (n_name current) (-1) Main (if loop then 0 else 1)) (\<lambda>nodeRunData.
           Inr (nodeRunData = None \<or> nodeRunData = Some [])))
      else Inr False)"

text \<open>The data that the connection carries, and whether the search follows it.\<close>

definition followed :: "IRunData \<Rightarrow> IPinData \<Rightarrow> GraphConnection \<Rightarrow> bool res" where
  "followed runData pins c =
     rbind (getIncomingDataFromAnyRun runData (n_name (g_from c)) (g_type c) (g_outputIndex c)) (\<lambda>nodeRunData.
       let hasNoRunData = (case nodeRunData of None \<Rightarrow> True | Some (data, runIndex) \<Rightarrow> data = []);
           hasNoPinnedData = (map_of pins (n_name (g_from c)) = None)
       in Inr (\<not> (hasNoRunData \<and> hasNoPinnedData)))"

fun findStartNodesRecursive ::
  "nat \<Rightarrow> DirectedGraph \<Rightarrow> INode \<Rightarrow> INode \<Rightarrow> IRunData \<Rightarrow> IPinData \<Rightarrow> INode list \<Rightarrow> INode list \<Rightarrow> INode list res" where
  "findStartNodesRecursive 0 graph current destination runData pins startNodes seen = Inl OutOfFuel"
| "findStartNodesRecursive (Suc fuel) graph current destination runData pins startNodes seen =
     (if isDirty current runData pins then Inr (sadd current startNodes)
      else if current = destination then Inr (sadd current startNodes)
      else rbind (incompleteLoop graph runData current) (\<lambda>incomplete.
        if incomplete then Inr (sadd current startNodes)
        else if current \<in> set seen then Inr startNodes
        else rbind (getDirectChildConnections graph current) (\<lambda>outGoingConnections.
          foldR (\<lambda>startNodes c. rbind (followed runData pins c) (\<lambda>follow.
            if \<not> follow then Inr startNodes
            else findStartNodesRecursive fuel graph (g_to c) destination runData pins startNodes (sadd current seen)))
          startNodes outGoingConnections)))"

declare findStartNodesRecursive.simps(2) [simp del]

definition findStartNodes ::
  "DirectedGraph \<Rightarrow> INode \<Rightarrow> INode \<Rightarrow> IPinData \<Rightarrow> IRunData \<Rightarrow> INode list res" where
  "findStartNodes graph trigger destination pins runData =
     findStartNodesRecursive (Suc (Suc (length (g_nodes graph)))) graph trigger destination runData pins [] []"

text \<open>The data that the search reads is there for every task that has data.\<close>

definition readable :: "DirectedGraph \<Rightarrow> IRunData \<Rightarrow> bool" where
  "readable g runData \<longleftrightarrow> (\<forall>(n, tasks) \<in> set runData. \<forall>task \<in> set tasks. \<forall>data. t_data task = Some data \<longrightarrow>
     map_of data Main \<noteq> None \<and> (\<forall>c \<in> conns_of g. n_name (g_from c) = n \<longrightarrow> map_of data (g_type c) \<noteq> None))"

text \<open>The same for the nodes that a trigger leads to. The runs of the sub-nodes of an agent, which hold data of
  the type of their connection only, are not among these: nothing leads to a sub-node.\<close>

definition readable_at :: "DirectedGraph \<Rightarrow> IRunData \<Rightarrow> INode \<Rightarrow> bool" where
  "readable_at g runData n \<longleftrightarrow> (\<forall>tasks task data. map_of runData (n_name n) = Some tasks \<longrightarrow> task \<in> set tasks \<longrightarrow>
     t_data task = Some data \<longrightarrow> (n_type n = ''n8n-nodes-base.splitInBatches'' \<longrightarrow> map_of data Main \<noteq> None) \<and>
       (\<forall>c \<in> conns_of g. g_from c = n \<longrightarrow> map_of data (g_type c) \<noteq> None))"

definition readable_from :: "DirectedGraph \<Rightarrow> IRunData \<Rightarrow> INode \<Rightarrow> bool" where
  "readable_from g runData n \<longleftrightarrow> (\<forall>m. (n, m) \<in> (child_rel g)\<^sup>* \<longrightarrow> readable_at g runData m)"

text \<open>Where the search stops with a start node, and the steps it takes.\<close>

definition stops :: "DirectedGraph \<Rightarrow> INode \<Rightarrow> IRunData \<Rightarrow> IPinData \<Rightarrow> INode \<Rightarrow> bool" where
  "stops g destination runData pins n \<longleftrightarrow>
     isDirty n runData pins \<or> n = destination \<or> incompleteLoop g runData n = Inr True"

definition follow_rel :: "DirectedGraph \<Rightarrow> INode \<Rightarrow> IRunData \<Rightarrow> IPinData \<Rightarrow> (INode \<times> INode) set" where
  "follow_rel g destination runData pins =
     {(a, b). \<not> stops g destination runData pins a \<and>
        (\<exists>c \<in> conns_of g. g_from c = a \<and> g_to c = b \<and> followed runData pins c = Inr True)}"

lemma readableD:
  assumes "readable g rd" and "map_of rd n = Some tasks" and "task \<in> set tasks" and "t_data task = Some data"
  shows "map_of data Main \<noteq> None" and "c \<in> conns_of g \<Longrightarrow> n_name (g_from c) = n \<Longrightarrow> map_of data (g_type c) \<noteq> None"
  using assms map_of_SomeD [OF assms(2)] unfolding readable_def by fastforce+

lemma followed_total:
  assumes "readable_at g rd (g_from c)" and "c \<in> conns_of g"
  shows "\<exists>b. followed rd pd c = Inr b"
proof -
  have "\<exists>x. getIncomingData rd (n_name (g_from c)) i (g_type c) (g_outputIndex c) = Inr x" for i
    by (rule getIncomingData_total) (use assms in \<open>auto simp: readable_at_def\<close>)
  from firstRunWithData_total [OF this] obtain x where
    "getIncomingDataFromAnyRun rd (n_name (g_from c)) (g_type c) (g_outputIndex c) = Inr x"
    unfolding getIncomingDataFromAnyRun_def by blast
  then show ?thesis by (simp add: followed_def Let_def)
qed

lemma incompleteLoop_total:
  assumes "graph_ok g" and "readable_at g rd n" and "is_node g n"
  shows "\<exists>b. incompleteLoop g rd n = Inr b"
proof (cases "n_type n = ''n8n-nodes-base.splitInBatches''")
  case True
  have "\<exists>x. getIncomingData rd (n_name n) i Main out = Inr x" for i out
    by (rule getIncomingData_total) (use assms(2) True in \<open>auto simp: readable_at_def\<close>)
  then obtain f where f: "getIncomingData rd (n_name n) i Main out = Inr (f i out)" for i out by metis
  obtain ns where ns: "getChildren g n = Inr ns" using getChildren_set [OF assms(1,3)] by blast
  show ?thesis unfolding incompleteLoop_def isALoop_def ns rbind_Inr f by auto
next
  case False
  then show ?thesis by (intro exI [of _ False]) (simp add: incompleteLoop_def)
qed

lemma getDirectChildConnections_of:
  "is_node g node \<Longrightarrow> \<exists>cs. getDirectChildConnections g node = Inr cs \<and> set cs = {c \<in> conns_of g. g_from c = node}"
  by (rule exI [of _ "filter (\<lambda>c. g_from c = node) (vals (g_connections g))"])
    (simp only: graph_simps conns_of_def set_filter simp_thms)

text \<open>A path that leaves a node need not come back to it.\<close>

lemma rtrancl_leave:
  assumes "(x, s) \<in> R\<^sup>*" and "s \<noteq> x"
  shows "\<exists>b. (x, b) \<in> R \<and> (b, s) \<in> (not_from x R)\<^sup>*"
proof -
  have "s = x \<or> (\<exists>b. (x, b) \<in> R \<and> (b, s) \<in> (not_from x R)\<^sup>*)"
    using assms(1)
  proof induction
    case (step y z)
    show ?case
    proof (cases "y = x")
      case True
      with step.hyps(2) show ?thesis by blast
    next
      case False
      with step obtain b where "(x, b) \<in> R" "(b, y) \<in> (not_from x R)\<^sup>*" by blast
      moreover have "(y, z) \<in> not_from x R" using step.hyps(2) False by (simp add: not_from_def)
      ultimately show ?thesis by (meson rtrancl.rtrancl_into_rtrancl)
    qed
  qed simp
  with assms(2) show ?thesis by simp
qed

text \<open>Stopping at the nodes already on the path loses nothing.\<close>

definition frontier :: "(INode \<Rightarrow> bool) \<Rightarrow> (INode \<times> INode) set \<Rightarrow> INode set \<Rightarrow> INode \<Rightarrow> INode set" where
  "frontier stop R seen n = {s. stop s \<and> (n, s) \<in> {(a, b) \<in> R. a \<notin> seen}\<^sup>*}"

lemma frontier_stop:
  assumes "stop n" and "\<And>a b. (a, b) \<in> R \<Longrightarrow> \<not> stop a"
  shows "frontier stop R seen n = {n}"
proof -
  have "s = n" if "(n, s) \<in> {(a, b) \<in> R. a \<notin> seen}\<^sup>*" for s
    using that assms by (cases rule: converse_rtranclE) auto
  then show ?thesis using assms(1) by (auto simp: frontier_def)
qed

lemma frontier_seen:
  assumes "\<not> stop n" and "n \<in> seen"
  shows "frontier stop R seen n = {}"
proof -
  have "s = n" if "(n, s) \<in> {(a, b) \<in> R. a \<notin> seen}\<^sup>*" for s
    using that assms by (cases rule: converse_rtranclE) auto
  then show ?thesis using assms(1) by (auto simp: frontier_def)
qed

lemma frontier_step:
  assumes "\<not> stop n" and "n \<notin> seen"
  shows "frontier stop R seen n = (\<Union>b \<in> R `` {n}. frontier stop R (insert n seen) b)" (is "?L = ?R")
proof
  have eq: "not_from n {(a, b) \<in> R. a \<notin> seen} = {(a, b) \<in> R. a \<notin> insert n seen}"
    by (auto simp: not_from_def)
  show "?L \<subseteq> ?R"
  proof
    fix s assume "s \<in> ?L"
    then have s: "stop s" "(n, s) \<in> {(a, b) \<in> R. a \<notin> seen}\<^sup>*" by (simp_all add: frontier_def)
    then have "s \<noteq> n" using assms(1) by auto
    from rtrancl_leave [OF s(2) this] show "s \<in> ?R"
      using s(1) unfolding eq frontier_def by auto
  qed
  have mono: "{(a, b) \<in> R. a \<notin> insert n seen}\<^sup>* \<subseteq> {(a, b) \<in> R. a \<notin> seen}\<^sup>*" by (rule rtrancl_mono) auto
  show "?R \<subseteq> ?L"
  proof
    fix s assume "s \<in> ?R"
    then obtain b where b: "(n, b) \<in> R" "stop s" "(b, s) \<in> {(a, b) \<in> R. a \<notin> insert n seen}\<^sup>*"
      by (auto simp: frontier_def)
    have "(n, b) \<in> {(a, b) \<in> R. a \<notin> seen}" using b(1) assms(2) by simp
    moreover have "(b, s) \<in> {(a, b) \<in> R. a \<notin> seen}\<^sup>*" using b(3) mono by blast
    ultimately have "(n, s) \<in> {(a, b) \<in> R. a \<notin> seen}\<^sup>*" by (rule converse_rtrancl_into_rtrancl)
    then show "s \<in> ?L" using b(2) by (simp add: frontier_def)
  qed
qed

lemma foldR_union:
  assumes "\<And>s x. x \<in> set xs \<Longrightarrow> distinct s \<Longrightarrow> \<exists>t. f s x = Inr t \<and> distinct t \<and> set t = set s \<union> X x" and "distinct s"
  shows "\<exists>t. foldR f s xs = Inr t \<and> distinct t \<and> set t = set s \<union> (\<Union>x \<in> set xs. X x)"
  using assms
proof (induction xs arbitrary: s)
  case (Cons x xs)
  obtain t where t: "f s x = Inr t" "distinct t" "set t = set s \<union> X x" using Cons.prems by force
  then show ?case using Cons.IH [of t] Cons.prems(1) by auto
qed simp

lemma findStartNodesRecursive_frontier:
  fixes dest :: INode and rd :: IRunData and pins :: IPinData
  assumes g: "graph_ok g"
  defines "stop \<equiv> stops g dest rd pins" and "R \<equiv> follow_rel g dest rd pins"
  shows "is_node g current \<Longrightarrow> readable_from g rd current \<Longrightarrow> distinct sn \<Longrightarrow> card (set (vals (g_nodes g)) - set seen) < fuel \<Longrightarrow>
    \<exists>r. findStartNodesRecursive fuel g current dest rd pins sn seen = Inr r \<and> distinct r \<and>
      set r = set sn \<union> frontier stop R (set seen) current"
proof (induction fuel arbitrary: current sn seen)
  case 0
  then show ?case by simp
next
  case (Suc fuel)
  have src: "\<not> stop a" if "(a, b) \<in> R" for a b using that by (simp add: R_def follow_rel_def stop_def)
  obtain inc where inc: "incompleteLoop g rd current = Inr inc"
    using incompleteLoop_total [OF g _ Suc.prems(1)] Suc.prems(2) by (auto simp: readable_from_def)
  have stop_iff: "stop current \<longleftrightarrow> isDirty current rd pins \<or> current = dest \<or> inc"
    by (simp add: stop_def stops_def inc)
  consider "stop current" | "\<not> stop current" "current \<in> set seen" | "\<not> stop current" "current \<notin> set seen" by blast
  then show ?case
  proof cases
    case 1
    have "findStartNodesRecursive (Suc fuel) g current dest rd pins sn seen = Inr (sadd current sn)"
      using 1 by (subst findStartNodesRecursive.simps) (auto simp: stop_iff inc)
    then show ?thesis using Suc.prems(3) frontier_stop [of stop current R, OF 1 src] by simp
  next
    case 2
    have "findStartNodesRecursive (Suc fuel) g current dest rd pins sn seen = Inr sn"
      using 2 by (subst findStartNodesRecursive.simps) (auto simp: stop_iff inc)
    then show ?thesis using Suc.prems(3) frontier_seen [of stop current "set seen", OF 2] by simp
  next
    case 3
    obtain cs where cs: "getDirectChildConnections g current = Inr cs" "set cs = {c \<in> conns_of g. g_from c = current}"
      using getDirectChildConnections_of [OF Suc.prems(1)] by blast
    let ?f = "\<lambda>startNodes c. rbind (followed rd pins c) (\<lambda>follow. if \<not> follow then Inr startNodes
      else findStartNodesRecursive fuel g (g_to c) dest rd pins startNodes (sadd current seen))"
    let ?X = "\<lambda>c. if followed rd pins c = Inr True then frontier stop R (insert current (set seen)) (g_to c) else {}"
    have "card (set (vals (g_nodes g)) - set (sadd current seen)) < card (set (vals (g_nodes g)) - set seen)"
      using Suc.prems(1) 3(2) is_node_vals [OF g, of current] by (intro psubset_card_mono) auto
    then have fuel: "card (set (vals (g_nodes g)) - set (sadd current seen)) < fuel" using Suc.prems(4) by simp
    have "\<exists>t. foldR ?f sn cs = Inr t \<and> distinct t \<and> set t = set sn \<union> (\<Union>c \<in> set cs. ?X c)"
    proof (rule foldR_union [OF _ Suc.prems(3)])
      fix s :: "INode list" and c assume c: "c \<in> set cs" and s: "distinct s"
      have "readable_at g rd current" using Suc.prems(2) by (auto simp: readable_from_def)
      then obtain b where b: "followed rd pins c = Inr b" using followed_total [of g rd c pins] c cs(2) by auto
      have "is_node g (g_to c)" using conns_of_ends [OF g] c cs(2) by blast
      moreover have "readable_from g rd (g_to c)"
      proof -
        have "c \<in> conns_of g" "g_from c = current" using c cs(2) by blast+
        then have "(current, g_to c) \<in> child_rel g" by (auto simp: child_rel_def conns_of_def)
        then have "(current, m) \<in> (child_rel g)\<^sup>*" if "(g_to c, m) \<in> (child_rel g)\<^sup>*" for m
          using that by (rule converse_rtrancl_into_rtrancl)
        then show ?thesis using Suc.prems(2) by (simp add: readable_from_def)
      qed
      ultimately show "\<exists>t. ?f s c = Inr t \<and> distinct t \<and> set t = set s \<union> ?X c"
        using Suc.IH [OF _ _ s fuel, of "g_to c"] b s by (cases b) auto
    qed
    moreover have "(\<Union>c \<in> set cs. ?X c) = frontier stop R (set seen) current"
      using 3(1) unfolding frontier_step [of stop current "set seen", OF 3] by (auto simp: R_def follow_rel_def cs(2) stop_def) 
    moreover have "findStartNodesRecursive (Suc fuel) g current dest rd pins sn seen = foldR ?f sn cs"
      using 3 by (subst findStartNodesRecursive.simps) (auto simp: stop_iff inc cs(1))
    ultimately show ?thesis by simp
  qed
qed

text \<open>C35. The start nodes are exactly the first nodes to run again: those that are dirty, are the
  destination or are an unfinished loop, and that the trigger leads to over outputs with data
  through nodes that are none of these. The search always returns, each of them once. This needs that the data
  it reads are there: a run with data of a node that the trigger leads to has data of the type of each of its
  outgoing connections, and of the main type for a loop. Nodes the
  trigger does not lead to, such as the sub-nodes of an agent, are not read and may have any runs.\<close>

theorem findStartNodes_frontier:
  assumes "graph_ok g" and "readable_from g rd trigger" and "is_node g trigger"
  shows "\<exists>r. findStartNodes g trigger dest pins rd = Inr r \<and> distinct r \<and>
    set r = {s. stops g dest rd pins s \<and> (trigger, s) \<in> (follow_rel g dest rd pins)\<^sup>*}"
proof -
  have "card (set (vals (g_nodes g)) - set []) < Suc (Suc (length (g_nodes g)))"
    using card_vals_less [of "g_nodes g"] by simp
  from findStartNodesRecursive_frontier [OF assms(1,3,2) distinct.simps(1) [THEN iffD2, OF TrueI] this, of dest pins]
  show ?thesis by (simp add: findStartNodes_def frontier_def)
qed

text \<open>In the chain, with run data for \<open>A\<close> only, the node to start from is \<open>B\<close>.\<close>

definition chain_run_data :: IRunData where
  "chain_run_data = [(''A'', [mk_task 0 [(Main, [Some [empty_item]])]])]"

lemma findStartNodes_frontier_witness:
  "\<exists>r. findStartNodes chain_graph (gnode 0 ''A'') (gnode 2 ''C'') [] chain_run_data = Inr r \<and>
     gnode 1 ''B'' \<in> set r"
proof -
  have rd: "readable_from chain_graph chain_run_data (gnode 0 ''A'')"
    by (auto simp: readable_from_def readable_at_def chain_run_data_def mk_task_def conns_of_def chain_graph_connections)
  have dirty: "isDirty (gnode 1 ''B'') chain_run_data []" by (simp add: isDirty_def chain_run_data_def)
  have "followed chain_run_data [] (gconn (gnode 0 ''A'') (gnode 1 ''B'')) = Inr True"
    by (simp add: followed_def getIncomingDataFromAnyRun_def getRunIndexLength_def getIncomingData_def
        chain_run_data_def mk_task_def js_at_def upt_rec)
  moreover have "\<not> stops chain_graph (gnode 2 ''C'') chain_run_data [] (gnode 0 ''A'')"
    by (simp add: stops_def isDirty_def chain_run_data_def incompleteLoop_def)
  ultimately have "(gnode 0 ''A'', gnode 1 ''B'') \<in> follow_rel chain_graph (gnode 2 ''C'') chain_run_data []"
    by (simp add: follow_rel_def conns_of_def chain_graph_connections)
  then have "(gnode 0 ''A'', gnode 1 ''B'') \<in> (follow_rel chain_graph (gnode 2 ''C'') chain_run_data [])\<^sup>*" by blast
  with dirty show ?thesis
    using findStartNodes_frontier [OF chain_graph_ok rd chain_graph_A, of "gnode 2 ''C''" "[]"]
    by (auto simp: stops_def)
qed

end
