(* ===== verification/ExecutionStack.thy ===== *)
theory ExecutionStack
  imports RunData
begin

text \<open>
  Rebuilding the state of an execution from old run data: \<open>get-source-data-groups.ts\<close>
  (\<open>getSourceDataGroups\<close>) and \<open>recreate-node-execution-stack.ts\<close>
  (\<open>recreateNodeExecutionStack\<close>) of \<open>partial-execution-utils\<close>. The comparison of names
  (\<open>localeCompare\<close>) depends on the locale of the process and is a parameter.
\<close>

section \<open>Groups of source connections\<close>

text \<open>\<open>Array.prototype.sort\<close> is a stable sort by the comparison function.\<close>

fun insert_by :: "('a \<Rightarrow> 'a \<Rightarrow> int) \<Rightarrow> 'a \<Rightarrow> 'a list \<Rightarrow> 'a list" where
  "insert_by cmp x [] = [x]"
| "insert_by cmp x (y # ys) = (if cmp x y \<le> 0 then x # y # ys else y # insert_by cmp x ys)"

definition js_sort :: "('a \<Rightarrow> 'a \<Rightarrow> int) \<Rightarrow> 'a list \<Rightarrow> 'a list" where
  "js_sort cmp xs = foldr (insert_by cmp) xs []"

lemma mset_insert_by [simp]: "mset (insert_by cmp x xs) = add_mset x (mset xs)"
  by (induction xs) auto

lemma mset_js_sort [simp]: "mset (js_sort cmp xs) = mset xs"
  by (induction xs) (simp_all add: js_sort_def)

lemma set_js_sort [simp]: "set (js_sort cmp xs) = set xs"
  by (metis mset_js_sort set_mset_mset)

definition sortByInputIndexThenByName ::
  "(string \<Rightarrow> string \<Rightarrow> int) \<Rightarrow> GraphConnection \<Rightarrow> GraphConnection \<Rightarrow> int" where
  "sortByInputIndexThenByName localeCompare connection1 connection2 =
     (if g_inputIndex connection1 = g_inputIndex connection2
      then localeCompare (n_name (g_from connection1)) (n_name (g_from connection2))
      else int (g_inputIndex connection1) - int (g_inputIndex connection2))"

record SourceConnectionGroup =
  sg_complete :: bool
  sg_connections :: "GraphConnection list"

definition newGroup :: SourceConnectionGroup where
  "newGroup = \<lparr>sg_complete = True, sg_connections = []\<rparr>"

definition minInputIndex :: "GraphConnection list \<Rightarrow> int" where
  "minInputIndex cs = Min (set (map (\<lambda>c. int (g_inputIndex c)) cs))"

text \<open>\<open>findIndex\<close> and \<open>splice\<close>: take out the first connection at an input.\<close>

definition take_at :: "int \<Rightarrow> GraphConnection list \<Rightarrow> (GraphConnection \<times> GraphConnection list) option" where
  "take_at i cs = (case List.extract (\<lambda>c. int (g_inputIndex c) = i) cs of
     None \<Rightarrow> None | Some (before, c, after) \<Rightarrow> Some (c, before @ after))"

lemma take_at_Some:
  "take_at i cs = Some (c, rest) \<Longrightarrow> int (g_inputIndex c) = i \<and> mset cs = add_mset c (mset rest) \<and> c \<in> set cs \<and>
     set rest \<subseteq> set cs"
  by (auto simp: take_at_def extract_Some_iff split: option.splits)

lemma take_at_None: "take_at i cs = None \<longleftrightarrow> (\<forall>c \<in> set cs. int (g_inputIndex c) \<noteq> i)"
  by (auto simp: take_at_def extract_None_iff extract_Some_iff split: option.splits)

lemma minInputIndex_in: "cs \<noteq> [] \<Longrightarrow> \<exists>c \<in> set cs. int (g_inputIndex c) = minInputIndex cs"
proof -
  assume "cs \<noteq> []"
  then have "minInputIndex cs \<in> set (map (\<lambda>c. int (g_inputIndex c)) cs)"
    unfolding minInputIndex_def by (intro Min_in) auto
  then show ?thesis by auto
qed

function sourceGroupLoop ::
  "SourceConnectionGroup \<Rightarrow> int \<Rightarrow> GraphConnection list \<Rightarrow> GraphConnection list \<Rightarrow>
   SourceConnectionGroup list \<Rightarrow> SourceConnectionGroup list" where
  "sourceGroupLoop currentGroup currentInputIndex withData withoutData groups =
     (if withData = [] \<and> withoutData = [] then groups @ [currentGroup]
      else case take_at (currentInputIndex + 1) withData of
        Some (connection, rest) \<Rightarrow>
          sourceGroupLoop (currentGroup\<lparr>sg_connections := sg_connections currentGroup @ [connection]\<rparr>)
            (currentInputIndex + 1) rest withoutData groups
      | None \<Rightarrow>
          (case take_at (currentInputIndex + 1) withoutData of
             Some (connection, rest) \<Rightarrow>
               sourceGroupLoop (currentGroup\<lparr>sg_connections := sg_connections currentGroup @ [connection],
                   sg_complete := False\<rparr>)
                 (currentInputIndex + 1) withData rest groups
           | None \<Rightarrow>
               sourceGroupLoop newGroup (minInputIndex (withData @ withoutData) - 1) withData withoutData
                 (groups @ [currentGroup])))"
  by pat_completeness auto
termination
proof (relation "measures [\<lambda>(cur, i, wd, wod, gs). length wd + length wod,
    \<lambda>(cur, i, wd, wod, gs). if \<exists>c \<in> set (wd @ wod). int (g_inputIndex c) = i + 1 then 0 else 1]", simp)
  fix cur :: SourceConnectionGroup and i :: int and wd wod rest :: "GraphConnection list" and gs p c
  assume "take_at (i + 1) wd = Some p" and "(c, rest) = p"
  then have "mset wd = add_mset c (mset rest)" using take_at_Some by metis
  then have "length rest < length wd" by (metis size_mset size_add_mset lessI)
  then show "((cur\<lparr>sg_connections := sg_connections cur @ [c]\<rparr>, i + 1, rest, wod, gs), (cur, i, wd, wod, gs))
    \<in> measures [\<lambda>(cur, i, wd, wod, gs). length wd + length wod,
      \<lambda>(cur, i, wd, wod, gs). if \<exists>c \<in> set (wd @ wod). int (g_inputIndex c) = i + 1 then 0 else 1]" by simp
next
  fix cur :: SourceConnectionGroup and i :: int and wd wod rest :: "GraphConnection list" and gs p c
  assume "take_at (i + 1) wod = Some p" and "(c, rest) = p"
  then have "mset wod = add_mset c (mset rest)" using take_at_Some by metis
  then have "length rest < length wod" by (metis size_mset size_add_mset lessI)
  then show "((cur\<lparr>sg_connections := sg_connections cur @ [c], sg_complete := False\<rparr>, i + 1, wd, rest, gs),
      (cur, i, wd, wod, gs))
    \<in> measures [\<lambda>(cur, i, wd, wod, gs). length wd + length wod,
      \<lambda>(cur, i, wd, wod, gs). if \<exists>c \<in> set (wd @ wod). int (g_inputIndex c) = i + 1 then 0 else 1]" by simp
next
  fix cur :: SourceConnectionGroup and i :: int and wd wod :: "GraphConnection list" and gs
  assume "\<not> (wd = [] \<and> wod = [])" and "take_at (i + 1) wd = None" and "take_at (i + 1) wod = None"
  moreover from this have "\<exists>c \<in> set (wd @ wod). int (g_inputIndex c) = minInputIndex (wd @ wod)"
    by (intro minInputIndex_in) simp
  ultimately show "((newGroup, minInputIndex (wd @ wod) - 1, wd, wod, gs @ [cur]), (cur, i, wd, wod, gs))
    \<in> measures [\<lambda>(cur, i, wd, wod, gs). length wd + length wod,
      \<lambda>(cur, i, wd, wod, gs). if \<exists>c \<in> set (wd @ wod). int (g_inputIndex c) = i + 1 then 0 else 1]"
    by (auto simp: take_at_None)
qed

declare sourceGroupLoop.simps [simp del]

definition hasSourceData :: "IRunData \<Rightarrow> IPinData \<Rightarrow> GraphConnection \<Rightarrow> bool" where
  "hasSourceData runData pinnedData c \<longleftrightarrow>
     map_of runData (n_name (g_from c)) \<noteq> None \<or> map_of pinnedData (n_name (g_from c)) \<noteq> None"

definition getSourceDataGroups ::
  "(string \<Rightarrow> string \<Rightarrow> int) \<Rightarrow> DirectedGraph \<Rightarrow> INode \<Rightarrow> IRunData \<Rightarrow> IPinData \<Rightarrow> SourceConnectionGroup list" where
  "getSourceDataGroups localeCompare graph node runData pinnedData =
     (let cs = getConnections graph (Some node);
          withData = filter (hasSourceData runData pinnedData) cs;
          withoutData = filter (\<lambda>c. \<not> hasSourceData runData pinnedData c \<and> g_type c = Main) cs
      in if withData = [] \<and> withoutData = [] then []
         else let withData = js_sort (sortByInputIndexThenByName localeCompare) withData;
                  withoutData = js_sort (sortByInputIndexThenByName localeCompare) withoutData
              in sourceGroupLoop newGroup (minInputIndex (withData @ withoutData) - 1) withData withoutData [])"

text \<open>A group takes one connection from each of a run of inputs, and is complete exactly when all of
  them have data.\<close>

definition group_ok :: "(GraphConnection \<Rightarrow> bool) \<Rightarrow> SourceConnectionGroup \<Rightarrow> bool" where
  "group_ok D g \<longleftrightarrow> successively (\<lambda>c d. g_inputIndex d = Suc (g_inputIndex c)) (sg_connections g) \<and>
     (sg_complete g \<longleftrightarrow> (\<forall>c \<in> set (sg_connections g). D c))"

lemma group_ok_snoc:
  assumes "group_ok D g" and "sg_connections g \<noteq> [] \<longrightarrow> int (g_inputIndex (last (sg_connections g))) = i"
    and "int (g_inputIndex c) = i + 1" and "b \<longleftrightarrow> sg_complete g \<and> D c"
  shows "group_ok D \<lparr>sg_complete = b, sg_connections = sg_connections g @ [c]\<rparr>"
proof -
  have "sg_connections g = [] \<or> g_inputIndex c = Suc (g_inputIndex (last (sg_connections g)))"
    using assms(2,3) by auto
  then have "successively (\<lambda>c d. g_inputIndex d = Suc (g_inputIndex c)) (sg_connections g @ [c])"
    using assms(1) by (auto simp: successively_append_iff group_ok_def)
  then show ?thesis using assms(1,4) by (auto simp: group_ok_def)
qed

lemma sourceGroupLoop_groups:
  assumes "group_ok D cur" and "sg_connections cur \<noteq> [] \<longrightarrow> int (g_inputIndex (last (sg_connections cur))) = i"
    and "sg_connections cur = [] \<longrightarrow> (\<exists>c \<in> set (wd @ wod). int (g_inputIndex c) = i + 1)"
    and "\<forall>c \<in> set wd. D c" and "\<forall>c \<in> set wod. \<not> D c"
  shows "\<exists>new. sourceGroupLoop cur i wd wod gs = gs @ new \<and>
    (\<forall>g \<in> set new. group_ok D g \<and> sg_connections g \<noteq> []) \<and>
    mset (concat (map sg_connections new)) = mset (sg_connections cur) + mset wd + mset wod"
  using assms
proof (induction cur i wd wod gs rule: sourceGroupLoop.induct)
  case (1 cur i wd wod gs)
  note unf = sourceGroupLoop.simps [of cur i wd wod gs]
  show ?case
  proof (cases "wd = [] \<and> wod = []")
    case True
    then have "sourceGroupLoop cur i wd wod gs = gs @ [cur]" by (subst unf) simp
    then show ?thesis using True "1.prems" by (intro exI [of _ "[cur]"]) auto
  next
    case more: False
    show ?thesis
    proof (cases "take_at (i + 1) wd")
      case (Some p)
      obtain c rest where p: "p = (c, rest)" by (cases p)
      note t = take_at_Some [OF Some [unfolded p]]
      let ?cur = "cur\<lparr>sg_connections := sg_connections cur @ [c]\<rparr>"
      have ok: "group_ok D ?cur"
        using group_ok_snoc [OF "1.prems"(1,2), of c "sg_complete cur"] t "1.prems"(4)
        by (cases cur) auto
      from "1.IH"(3) [OF more Some p [symmetric] ok] t "1.prems"(4,5) obtain new where
          "sourceGroupLoop ?cur (i + 1) rest wod gs = gs @ new"
          "\<forall>g \<in> set new. group_ok D g \<and> sg_connections g \<noteq> []"
          "mset (concat (map sg_connections new)) = mset (sg_connections ?cur) + mset rest + mset wod" by auto
      then show ?thesis using t more Some p by (auto simp: unf)
    next
      case none: None
      show ?thesis
      proof (cases "take_at (i + 1) wod")
        case (Some p)
        obtain c rest where p: "p = (c, rest)" by (cases p)
        note t = take_at_Some [OF Some [unfolded p]]
        let ?cur = "cur\<lparr>sg_connections := sg_connections cur @ [c], sg_complete := False\<rparr>"
        have ok: "group_ok D ?cur"
          using group_ok_snoc [OF "1.prems"(1,2), of c False] t "1.prems"(5)
          by (cases cur) auto
        from "1.IH"(2) [OF more none Some p [symmetric] ok] t "1.prems"(4,5) obtain new where
            "sourceGroupLoop ?cur (i + 1) wd rest gs = gs @ new"
            "\<forall>g \<in> set new. group_ok D g \<and> sg_connections g \<noteq> []"
            "mset (concat (map sg_connections new)) = mset (sg_connections ?cur) + mset wd + mset rest" by auto
        then show ?thesis using t more none Some p by (auto simp: unf)
      next
        case none': None
        have "\<exists>c \<in> set (wd @ wod). int (g_inputIndex c) = minInputIndex (wd @ wod)"
          using more by (intro minInputIndex_in) simp
        then obtain new where new: "sourceGroupLoop newGroup (minInputIndex (wd @ wod) - 1) wd wod (gs @ [cur]) = (gs @ [cur]) @ new"
            "\<forall>g \<in> set new. group_ok D g \<and> sg_connections g \<noteq> []"
            "mset (concat (map sg_connections new)) = mset (sg_connections newGroup) + mset wd + mset wod"
          using "1.IH"(1) [OF more none none'] "1.prems"(4,5) by (auto simp: newGroup_def group_ok_def)
        have "sg_connections cur \<noteq> []" using "1.prems"(3) none none' by (auto simp: take_at_None)
        then show ?thesis using new "1.prems"(1) more none none'
          by (intro exI [of _ "cur # new"]) (auto simp: unf newGroup_def)
      qed
    qed
  qed
qed

lemma mset_split_filter:
  "mset (filter D (filter N xs)) + mset (filter (\<lambda>c. \<not> D c \<and> M c) (filter N xs)) =
     mset (filter (\<lambda>c. N c \<and> (D c \<or> M c)) xs)"
  by (rule multiset_eqI) auto

lemma js_sort_Nil_iff: "js_sort cmp xs = [] \<longleftrightarrow> xs = []"
  by (metis mset_js_sort mset_zero_iff)

lemma getSourceDataGroups_groups:
  "(\<forall>g \<in> set (getSourceDataGroups lc graph node rd pd). group_ok (hasSourceData rd pd) g \<and> sg_connections g \<noteq> []) \<and>
   mset (concat (map sg_connections (getSourceDataGroups lc graph node rd pd))) =
     mset (filter (\<lambda>c. g_to c = node \<and> (hasSourceData rd pd c \<or> g_type c = Main)) (vals (g_connections graph)))"
proof -
  let ?cs = "filter (\<lambda>c. g_to c = node) (vals (g_connections graph))"
  let ?wd = "js_sort (sortByInputIndexThenByName lc) (filter (hasSourceData rd pd) ?cs)"
  let ?wod = "js_sort (sortByInputIndexThenByName lc) (filter (\<lambda>c. \<not> hasSourceData rd pd c \<and> g_type c = Main) ?cs)"
  have conns: "getConnections graph (Some node) = ?cs" by (simp add: getConnections_def)
  have eligible: "mset ?wd + mset ?wod = mset (filter (\<lambda>c. g_to c = node \<and> (hasSourceData rd pd c \<or> g_type c = Main))
      (vals (g_connections graph)))"
    by (simp only: mset_js_sort mset_split_filter)
  show ?thesis
  proof (cases "?wd = [] \<and> ?wod = []")
    case True
    then have "getSourceDataGroups lc graph node rd pd = []"
      unfolding getSourceDataGroups_def conns Let_def js_sort_Nil_iff by (simp only: if_True simp_thms)
    with True eligible show ?thesis by simp
  next
    case False
    then have run: "getSourceDataGroups lc graph node rd pd =
        sourceGroupLoop newGroup (minInputIndex (?wd @ ?wod) - 1) ?wd ?wod []"
      unfolding getSourceDataGroups_def conns Let_def js_sort_Nil_iff by (simp only: if_False)
    have "\<exists>c \<in> set (?wd @ ?wod). int (g_inputIndex c) = minInputIndex (?wd @ ?wod)"
      using False by (intro minInputIndex_in) blast
    then have first: "sg_connections newGroup = [] \<longrightarrow>
        (\<exists>c \<in> set (?wd @ ?wod). int (g_inputIndex c) = minInputIndex (?wd @ ?wod) - 1 + 1)" by simp
    have empty: "group_ok (hasSourceData rd pd) newGroup"
      "sg_connections newGroup \<noteq> [] \<longrightarrow> int (g_inputIndex (last (sg_connections newGroup))) = minInputIndex (?wd @ ?wod) - 1"
      by (simp_all add: newGroup_def group_ok_def)
    have data: "\<forall>c \<in> set ?wd. hasSourceData rd pd c" "\<forall>c \<in> set ?wod. \<not> hasSourceData rd pd c" by simp_all
    from sourceGroupLoop_groups [OF empty first data, of "[]"] obtain new where
        "sourceGroupLoop newGroup (minInputIndex (?wd @ ?wod) - 1) ?wd ?wod [] = [] @ new"
        "\<forall>g \<in> set new. group_ok (hasSourceData rd pd) g \<and> sg_connections g \<noteq> []"
        "mset (concat (map sg_connections new)) = mset (sg_connections newGroup) + mset ?wd + mset ?wod" by blast
    then show ?thesis unfolding run using eligible by (simp add: newGroup_def)
  qed
qed

text \<open>\<open>getSourceDataGroups\<close> always ends and distributes the connections into the node: every
  connection whose source has data, and every main connection, is in exactly one group; a group
  takes one connection from each of a run of consecutive inputs and is complete exactly when all
  of its sources have data.\<close>

theorem getSourceDataGroups_partition:
  "mset (concat (map sg_connections (getSourceDataGroups lc graph node rd pd))) =
     mset (filter (\<lambda>c. g_to c = node \<and> (hasSourceData rd pd c \<or> g_type c = Main)) (vals (g_connections graph))) \<and>
   (\<forall>g \<in> set (getSourceDataGroups lc graph node rd pd). sg_connections g \<noteq> [] \<and>
      successively (\<lambda>c d. g_inputIndex d = Suc (g_inputIndex c)) (sg_connections g) \<and>
      (sg_complete g \<longleftrightarrow> (\<forall>c \<in> set (sg_connections g). hasSourceData rd pd c)))"
  using getSourceDataGroups_groups [of lc graph node rd pd] by (simp add: group_ok_def)

lemma getSourceDataGroups_partition_witness:
  "mset (concat (map sg_connections (getSourceDataGroups (\<lambda>a b. 0) chain_graph (gnode 1 ''B'') [] []))) =
     {# gconn (gnode 0 ''A'') (gnode 1 ''B'') #}"
  unfolding getSourceDataGroups_partition [THEN conjunct1] by (simp add: chain_graph_connections)

section \<open>Waiting executions\<close>

text \<open>\<open>list[index] = value\<close>, which fills the places between a shorter array and the index with holes.\<close>

definition set_slot :: "'a \<Rightarrow> nat \<Rightarrow> 'a \<Rightarrow> 'a list \<Rightarrow> 'a list" where
  "set_slot hole i x xs = (xs @ replicate (Suc i - length xs) hole)[i := x]"

text \<open>\<open>list[index]\<close>\<close>

definition get_slot :: "'a \<Rightarrow> nat \<Rightarrow> 'a list \<Rightarrow> 'a" where
  "get_slot hole i xs = (if i < length xs then xs ! i else hole)"

lemma get_set_slot [simp]: "get_slot hole j (set_slot hole i x xs) = (if j = i then x else get_slot hole j xs)"
  by (auto simp: get_slot_def set_slot_def nth_append nth_list_update)

lemma length_set_slot [simp]: "length (set_slot hole i x xs) = max (length xs) (Suc i)"
  by (simp add: set_slot_def)

lemma set_slot_in [simp]: "i < length xs \<Longrightarrow> set_slot hole i x xs = xs[i := x]"
  by (simp add: set_slot_def)

text \<open>\<open>waiting[nodeName][runIndex][inputType][inputIndex] = value\<close>, creating what is missing.\<close>

type_synonym 'a waiting_lists = "(string, (nat, (NodeConnectionType, 'a list) jsmap) jsmap) jsmap"

definition waiting_slot ::
  "'a \<Rightarrow> 'a waiting_lists \<Rightarrow> string \<Rightarrow> nat \<Rightarrow> NodeConnectionType \<Rightarrow> nat \<Rightarrow> 'a \<Rightarrow> 'a waiting_lists" where
  "waiting_slot hole waiting nodeName runIndex inputType inputIndex x =
     (let obj = case_option [] (\<lambda>m. m) (map_of waiting nodeName);
          conns = case_option [] (\<lambda>m. m) (map_of obj runIndex);
          xs = case_option [] (\<lambda>l. l) (map_of conns inputType)
      in AList.update nodeName (AList.update runIndex (AList.update inputType (set_slot hole inputIndex x xs) conns) obj) waiting)"

definition addWaitingExecution ::
  "IWaitingForExecution \<Rightarrow> string \<Rightarrow> nat \<Rightarrow> NodeConnectionType \<Rightarrow> nat \<Rightarrow> items option \<Rightarrow> IWaitingForExecution" where
  "addWaitingExecution waitingExecution nodeName runIndex inputType inputIndex executionData =
     waiting_slot Hole waitingExecution nodeName runIndex inputType inputIndex (slot_of executionData)"

definition addWaitingExecutionSource ::
  "IWaitingForExecutionSource \<Rightarrow> string \<Rightarrow> nat \<Rightarrow> NodeConnectionType \<Rightarrow> nat \<Rightarrow> ISourceData option \<Rightarrow> IWaitingForExecutionSource" where
  "addWaitingExecutionSource waitingExecutionSource nodeName runIndex inputType inputIndex sourceData =
     waiting_slot None waitingExecutionSource nodeName runIndex inputType inputIndex sourceData"

text \<open>What is waiting for a node, run, type and input.\<close>

definition waiting_at :: "'a \<Rightarrow> 'a waiting_lists \<Rightarrow> string \<Rightarrow> nat \<Rightarrow> NodeConnectionType \<Rightarrow> nat \<Rightarrow> 'a" where
  "waiting_at hole w n r t i =
     (case map_of w n of None \<Rightarrow> hole | Some obj \<Rightarrow>
       (case map_of obj r of None \<Rightarrow> hole | Some conns \<Rightarrow>
         (case map_of conns t of None \<Rightarrow> hole | Some xs \<Rightarrow> get_slot hole i xs)))"

lemma waiting_at_slot:
  "waiting_at hole (waiting_slot hole w n r t i x) n' r' t' i' =
     (if (n', r', t', i') = (n, r, t, i) then x else waiting_at hole w n' r' t' i')"
  by (auto simp: waiting_at_def waiting_slot_def Let_def jsmap_simps get_slot_def [of _ _ "[]"] split: option.splits)

section \<open>recreateNodeExecutionStack\<close>

type_synonym recreated = "IExecuteData list \<times> IWaitingForExecution \<times> IWaitingForExecutionSource"

definition source_data :: "GraphConnection \<Rightarrow> nat \<Rightarrow> ISourceData" where
  "source_data c run = \<lparr>previousNode = n_name (g_from c), previousNodeOutput = Some (g_outputIndex c),
     previousNodeRun = Some run\<rparr>"

text \<open>One connection of a complete group: its data and where it comes from.\<close>

definition collectIncoming ::
  "IRunData \<Rightarrow> IPinData \<Rightarrow> items slot list \<times> ISourceData option list \<Rightarrow> GraphConnection \<Rightarrow>
   (items slot list \<times> ISourceData option list) res" where
  "collectIncoming runData pins = (\<lambda>(incomingData, incomingSource) c.
     case map_of pins (n_name (g_from c)) of
       Some pinned \<Rightarrow> Inr (incomingData @ [Val pinned], incomingSource @ [Some (source_data c 0)])
     | None \<Rightarrow>
         rbind (assert_ok (map_of runData (n_name (g_from c)) \<noteq> None)) (\<lambda>_.
         rbind (getIncomingDataFromAnyRun runData (n_name (g_from c)) (g_type c) (g_outputIndex c)) (\<lambda>nodeIncomingData.
         case nodeIncomingData of
           None \<Rightarrow> Inr (incomingData, incomingSource @ [Some (source_data c 0)])
         | Some (data, runIndex) \<Rightarrow>
             Inr (incomingData @ [Val data], incomingSource @ [Some (source_data c runIndex)]))))"

text \<open>One connection of an incomplete group.\<close>

definition collectWaiting ::
  "IRunData \<Rightarrow> string \<Rightarrow> nat \<Rightarrow> IWaitingForExecution \<times> IWaitingForExecutionSource \<Rightarrow> GraphConnection \<Rightarrow>
   (IWaitingForExecution \<times> IWaitingForExecutionSource) res" where
  "collectWaiting runData nodeName nextRunIndex = (\<lambda>(waiting, sources) c.
     rbind (getIncomingDataFromAnyRun runData (n_name (g_from c)) (g_type c) (g_outputIndex c)) (\<lambda>found.
     case found of
       None \<Rightarrow> Inr (waiting, sources)
     | Some (data, runIndex) \<Rightarrow>
         Inr (addWaitingExecution waiting nodeName nextRunIndex (g_type c) (g_inputIndex c) (Some data),
           addWaitingExecutionSource sources nodeName nextRunIndex (g_type c) (g_inputIndex c)
             (Some (source_data c nextRunIndex)))))"

definition recreateGroup ::
  "IRunData \<Rightarrow> IPinData \<Rightarrow> INode \<Rightarrow> recreated \<Rightarrow> SourceConnectionGroup \<Rightarrow> recreated res" where
  "recreateGroup runData pins startNode = (\<lambda>(stack, waiting, sources) group.
     if sg_complete group
     then rbind (foldR (collectIncoming runData pins) ([], []) (sg_connections group)) (\<lambda>(incomingData, incomingSource).
       Inr (stack @ [\<lparr>e_node = startNode, e_data = [(Main, incomingData)], e_source = Some [(Main, incomingSource)],
              e_runIndex = None, e_metadata = None\<rparr>], waiting, sources))
     else
       let nodeName = n_name startNode;
           nextRunIndex = (case map_of waiting nodeName of None \<Rightarrow> 0 | Some obj \<Rightarrow> length obj)
       in rbind (foldR (collectWaiting runData nodeName nextRunIndex) (waiting, sources) (sg_connections group))
            (\<lambda>(waiting, sources). Inr (stack, waiting, sources)))"

definition recreateStartNode ::
  "(string \<Rightarrow> string \<Rightarrow> int) \<Rightarrow> DirectedGraph \<Rightarrow> IRunData \<Rightarrow> IPinData \<Rightarrow> recreated \<Rightarrow> INode \<Rightarrow> recreated res" where
  "recreateStartNode localeCompare graph runData pins = (\<lambda>(stack, waiting, sources) startNode.
     rbind (getDirectParentConnections graph startNode) (\<lambda>parents.
       if filter (\<lambda>c. g_type c = Main) parents = []
       then Inr (stack @ [\<lparr>e_node = startNode, e_data = [(Main, [Val [empty_item]])], e_source = None,
              e_runIndex = None, e_metadata = None\<rparr>], waiting, sources)
       else foldR (recreateGroup runData pins startNode) (stack, waiting, sources)
              (getSourceDataGroups localeCompare graph startNode runData pins)))"

definition recreateNodeExecutionStack ::
  "(string \<Rightarrow> string \<Rightarrow> int) \<Rightarrow> DirectedGraph \<Rightarrow> INode list \<Rightarrow> IRunData \<Rightarrow> IPinData \<Rightarrow> recreated res" where
  "recreateNodeExecutionStack localeCompare graph startNodes runData pins =
     rbind (foldR (\<lambda>u node. assert_ok (\<not> disabled node)) () (vals (g_nodes graph))) (\<lambda>_.
       foldR (recreateStartNode localeCompare graph runData pins) ([], [], []) startNodes)"

text \<open>The entries a start node gets on the stack.\<close>

definition entry_count ::
  "(string \<Rightarrow> string \<Rightarrow> int) \<Rightarrow> DirectedGraph \<Rightarrow> IRunData \<Rightarrow> IPinData \<Rightarrow> INode \<Rightarrow> nat" where
  "entry_count lc g rd pins n =
     (if \<exists>c \<in> conns_of g. g_to c = n \<and> g_type c = Main
      then length (filter sg_complete (getSourceDataGroups lc g n rd pins)) else 1)"

lemma group_conns:
  assumes "grp \<in> set (getSourceDataGroups lc g n rd pins)" and "c \<in> set (sg_connections grp)"
  shows "c \<in> conns_of g" and "sg_complete grp \<Longrightarrow> hasSourceData rd pins c"
proof -
  note facts = getSourceDataGroups_groups [of lc g n rd pins]
  have "c \<in> set (concat (map sg_connections (getSourceDataGroups lc g n rd pins)))" using assms by auto
  then have "c \<in> set (filter (\<lambda>c. g_to c = n \<and> (hasSourceData rd pins c \<or> g_type c = Main)) (vals (g_connections g)))"
    using arg_cong [OF conjunct2 [OF facts], of set_mset] by (simp only: set_mset_mset)
  then show "c \<in> conns_of g" by (simp add: conns_of_def)
  show "sg_complete grp \<Longrightarrow> hasSourceData rd pins c" using bspec [OF conjunct1 [OF facts] assms(1)] assms(2) by (simp add: group_ok_def)
qed

lemma getIncomingDataFromAnyRun_total:
  assumes "readable g rd" and "c \<in> conns_of g"
  shows "\<exists>x. getIncomingDataFromAnyRun rd (n_name (g_from c)) (g_type c) (g_outputIndex c) = Inr x"
proof -
  have "\<exists>x. getIncomingData rd (n_name (g_from c)) i (g_type c) (g_outputIndex c) = Inr x" for i
    by (rule getIncomingData_total) (rule readableD(2) [OF assms(1) _ _ _ assms(2) refl])
  from firstRunWithData_total [OF this] show ?thesis unfolding getIncomingDataFromAnyRun_def by blast
qed

lemma foldR_no_error:
  assumes "\<And>s x. x \<in> set xs \<Longrightarrow> \<exists>t. f s x = Inr t"
  shows "\<exists>t. foldR f s xs = Inr t"
  using foldR_total [of "\<lambda>_. True" s xs f] assms by auto

lemma recreateGroup_total:
  assumes "readable g rd" and "grp \<in> set (getSourceDataGroups lc g n rd pins)"
  shows "\<exists>entries waiting' sources'. recreateGroup rd pins n (stack, waiting, sources) grp =
    Inr (stack @ entries, waiting', sources') \<and> map e_node entries = (if sg_complete grp then [n] else [])"
proof (cases "sg_complete grp")
  case True
  have step: "\<exists>t. collectIncoming rd pins s c = Inr t" if c: "c \<in> set (sg_connections grp)" for s c
  proof -
    obtain x where "getIncomingDataFromAnyRun rd (n_name (g_from c)) (g_type c) (g_outputIndex c) = Inr x"
      using getIncomingDataFromAnyRun_total [OF assms(1) group_conns(1) [OF assms(2) c]] by blast
    then show ?thesis using group_conns(2) [OF assms(2) c True]
      by (cases s) (auto simp: collectIncoming_def hasSourceData_def split: option.splits)
  qed
  have "\<exists>t. foldR (collectIncoming rd pins) ([], []) (sg_connections grp) = Inr t"
    by (rule foldR_no_error) (rule step)
  then obtain t where "foldR (collectIncoming rd pins) ([], []) (sg_connections grp) = Inr t" by blast
  then show ?thesis using True by (cases t) (simp add: recreateGroup_def)
next
  case False
  have step: "\<exists>t. collectWaiting rd nm r s c = Inr t" if c: "c \<in> set (sg_connections grp)" for nm r s c
  proof -
    obtain x where "getIncomingDataFromAnyRun rd (n_name (g_from c)) (g_type c) (g_outputIndex c) = Inr x"
      using getIncomingDataFromAnyRun_total [OF assms(1) group_conns(1) [OF assms(2) c]] by blast
    then show ?thesis by (cases s) (auto simp: collectWaiting_def split: option.splits)
  qed
  have "\<exists>t. foldR (collectWaiting rd nm r) s (sg_connections grp) = Inr t" for nm r s
    by (rule foldR_no_error) (rule step)
  then obtain t where "foldR (collectWaiting rd (n_name n)
      (case map_of waiting (n_name n) of None \<Rightarrow> 0 | Some obj \<Rightarrow> length obj)) (waiting, sources) (sg_connections grp) = Inr t"
    by blast
  then show ?thesis using False by (cases t) (simp add: recreateGroup_def Let_def)
qed

lemma recreateGroups_total:
  assumes "readable g rd" and "set groups \<subseteq> set (getSourceDataGroups lc g n rd pins)"
  shows "\<exists>entries waiting' sources'. foldR (recreateGroup rd pins n) (stack, waiting, sources) groups =
    Inr (stack @ entries, waiting', sources') \<and>
    map e_node entries = replicate (length (filter sg_complete groups)) n"
  using assms(2)
proof (induction groups arbitrary: stack waiting sources)
  case Nil
  show ?case by simp
next
  case (Cons grp groups)
  obtain es w s where one: "recreateGroup rd pins n (stack, waiting, sources) grp = Inr (stack @ es, w, s)"
      "map e_node es = (if sg_complete grp then [n] else [])"
    using recreateGroup_total [OF assms(1), where grp = grp and lc = lc and n = n and pins = pins and stack = stack and
        waiting = waiting and sources = sources] Cons.prems by auto
  obtain es' w' s' where more: "foldR (recreateGroup rd pins n) (stack @ es, w, s) groups = Inr ((stack @ es) @ es', w', s')"
      "map e_node es' = replicate (length (filter sg_complete groups)) n"
    using Cons.IH [of "stack @ es" w s] Cons.prems by auto
  have "foldR (recreateGroup rd pins n) (stack, waiting, sources) (grp # groups) = Inr (stack @ (es @ es'), w', s')"
    using one(1) more(1) by simp
  moreover have "map e_node (es @ es') = replicate (length (filter sg_complete (grp # groups))) n"
    using one(2) more(2) by simp
  ultimately show ?case by blast
qed

lemma recreateStartNode_total:
  assumes "readable g rd" and "is_node g n"
  shows "\<exists>entries waiting' sources'. recreateStartNode lc g rd pins (stack, waiting, sources) n =
    Inr (stack @ entries, waiting', sources') \<and> map e_node entries = replicate (entry_count lc g rd pins n) n"
proof -
  obtain ps where ps: "getDirectParentConnections g n = Inr ps" "set ps = {c \<in> conns_of g. g_to c = n}"
    using getDirectParentConnections_of [OF assms(2)] by blast
  have main: "filter (\<lambda>c. g_type c = Main) ps = [] \<longleftrightarrow> \<not> (\<exists>c \<in> conns_of g. g_to c = n \<and> g_type c = Main)"
    using ps(2) by (auto simp: filter_empty_conv)
  show ?thesis
  proof (cases "filter (\<lambda>c. g_type c = Main) ps = []")
    case True
    with main have "\<not> (\<exists>c \<in> conns_of g. g_to c = n \<and> g_type c = Main)" by blast
    then have "entry_count lc g rd pins n = 1" unfolding entry_count_def by (rule if_not_P)
    then show ?thesis using True ps(1) by (simp add: recreateStartNode_def)
  next
    case False
    from recreateGroups_total [OF assms(1) order_refl, where lc = lc and pins = pins and n = n and stack = stack and waiting = waiting and sources = sources]
    obtain es w s where run: "foldR (recreateGroup rd pins n) (stack, waiting, sources) (getSourceDataGroups lc g n rd pins) =
        Inr (stack @ es, w, s)" "map e_node es = replicate (length (filter sg_complete (getSourceDataGroups lc g n rd pins))) n"
      by blast
    from False main have "\<exists>c \<in> conns_of g. g_to c = n \<and> g_type c = Main" by blast
    then have "entry_count lc g rd pins n = length (filter sg_complete (getSourceDataGroups lc g n rd pins))"
      unfolding entry_count_def by (rule if_P)
    then show ?thesis using False ps(1) run by (simp add: recreateStartNode_def)
  qed
qed

text \<open>For start nodes of a graph without disabled nodes, \<open>recreateNodeExecutionStack\<close> returns, and
  the stack lists the start nodes in order, each as often as it can run: once if nothing leads into
  it, and otherwise once for each complete group of its sources.\<close>

theorem recreateNodeExecutionStack_entries:
  assumes "readable g rd" and "\<forall>n \<in> set (vals (g_nodes g)). \<not> disabled n" and "\<forall>n \<in> set startNodes. is_node g n"
  shows "\<exists>stack waiting sources. recreateNodeExecutionStack lc g startNodes rd pins = Inr (stack, waiting, sources) \<and>
    map e_node stack = concat (map (\<lambda>n. replicate (entry_count lc g rd pins n) n) startNodes)"
proof -
  have "\<exists>u. foldR (\<lambda>u node. assert_ok (\<not> disabled node)) () (vals (g_nodes g)) = Inr u"
    by (rule foldR_no_error) (use assms(2) in auto)
  moreover have "\<exists>entries waiting' sources'.
      foldR (recreateStartNode lc g rd pins) (stack, waiting, sources) ns = Inr (stack @ entries, waiting', sources') \<and>
      map e_node entries = concat (map (\<lambda>n. replicate (entry_count lc g rd pins n) n) ns)"
    if "\<forall>n \<in> set ns. is_node g n" for ns stack waiting sources
    using that
  proof (induction ns arbitrary: stack waiting sources)
    case (Cons n ns)
    obtain es w s where one: "recreateStartNode lc g rd pins (stack, waiting, sources) n = Inr (stack @ es, w, s)"
        "map e_node es = replicate (entry_count lc g rd pins n) n"
      using recreateStartNode_total [OF assms(1), where n = n and lc = lc and pins = pins and stack = stack and
        waiting = waiting and sources = sources] Cons.prems by auto
    obtain es' w' s' where "foldR (recreateStartNode lc g rd pins) (stack @ es, w, s) ns = Inr ((stack @ es) @ es', w', s')"
        "map e_node es' = concat (map (\<lambda>n. replicate (entry_count lc g rd pins n) n) ns)"
      using Cons.IH [of "stack @ es" w s] Cons.prems by auto
    then have "foldR (recreateStartNode lc g rd pins) (stack, waiting, sources) (n # ns) = Inr (stack @ (es @ es'), w', s') \<and>
        map e_node (es @ es') = concat (map (\<lambda>n. replicate (entry_count lc g rd pins n) n) (n # ns))"
      using one by simp
    then show ?case by blast
  qed simp
  from this [OF assms(3), of "[]" "[]" "[]"] obtain es w s where
      "foldR (recreateStartNode lc g rd pins) ([], [], []) startNodes = Inr (es, w, s)"
      "map e_node es = concat (map (\<lambda>n. replicate (entry_count lc g rd pins n) n) startNodes)" by auto
  ultimately show ?thesis by (auto simp: recreateNodeExecutionStack_def)
qed

lemma recreateNodeExecutionStack_entries_witness:
  "\<exists>stack waiting sources. recreateNodeExecutionStack (\<lambda>_ _. 0) chain_graph [gnode 1 ''B''] chain_run_data [] =
     Inr (stack, waiting, sources) \<and> map e_node stack = [gnode 1 ''B'']"
proof -
  have rd: "readable chain_graph chain_run_data"
    by (auto simp: readable_def chain_run_data_def mk_task_def conns_of_def chain_graph_connections)
  have nodes: "\<forall>n \<in> set (vals (g_nodes chain_graph)). \<not> disabled n"
    by (simp add: chain_graph_def graph_of_def addNodes_def addNode_def empty_graph_def)
  have start: "\<forall>n \<in> set [gnode 1 ''B'']. is_node chain_graph n" using chain_graph_B by simp
  have "entry_count (\<lambda>_ _. 0) chain_graph chain_run_data [] (gnode 1 ''B'') = 1"
    by (simp add: entry_count_def conns_of_def chain_graph_connections getSourceDataGroups_def getConnections_def
        hasSourceData_def chain_run_data_def js_sort_def minInputIndex_def sourceGroupLoop.simps take_at_def
        List.extract_def newGroup_def)
  then show ?thesis using recreateNodeExecutionStack_entries [OF rd nodes start, of "\<lambda>_ _. 0" "[]"] by simp
qed

text \<open>An incomplete group of sources leaves what the pinned nodes among them offer out of the
  waiting executions: only run data is read there.\<close>

theorem collectWaiting_ignores_pinned_data:
  assumes "map_of runData (n_name (g_from c)) = None"
  shows "collectWaiting runData nodeName next (waiting, sources) c = Inr (waiting, sources)"
  using assms by (simp add: collectWaiting_def getIncomingDataFromAnyRun_def getRunIndexLength_def)

lemma collectWaiting_ignores_pinned_data_witness:
  "collectWaiting [] ''C'' 0 ([], []) (gconn (gnode 1 ''B'') (gnode 2 ''C'')) = Inr ([], [])"
  by (rule collectWaiting_ignores_pinned_data) simp

end
