(* ===== verification/Engine.thy ===== *)
theory Engine
  imports WorkflowGraph ExecutionStack
begin

text \<open>
  The state of a running execution and \<open>addNodeToBeExecuted\<close> of
  \<open>packages/core/src/execution-engine/workflow-execute.ts\<close>: how the output of a node reaches the nodes
  behind it, directly or through the waiting executions of a node with several inputs.
  \<open>rx_waiting\<close> and \<open>rx_waitingSource\<close> are objects keyed by run index, which JavaScript enumerates in
  ascending order of the index.
\<close>

section \<open>The state of an execution\<close>

record RunExecutionData =
  rx_stack :: "IExecuteData list"
  rx_waiting :: IWaitingForExecution
  rx_waitingSource :: "IWaitingForExecutionSource option"
  rx_runData :: IRunData
  rx_pinData :: "IPinData option"
  rx_lastNodeExecuted :: "string option"
  rx_error :: "NodeErr option"
  rx_runNodeFilter :: "string list option"
  rx_destinationNode :: "IDestinationNode option"
  rx_waitTill :: "nat option"
  rx_metadata :: "(string, ITaskMetadata list) jsmap option"

definition isLegacyExecutionOrder :: "Workflow \<Rightarrow> bool" where
  "isLegacyExecutionOrder workflow \<longleftrightarrow> executionOrder workflow \<noteq> Some ''v1''"

text \<open>\<open>nodeExecutionStack[enqueueFn](item)\<close>: \<open>unshift\<close> in the order of version 1, \<open>push\<close> otherwise.\<close>

definition enqueueFn :: "Workflow \<Rightarrow> IExecuteData \<Rightarrow> RunExecutionData \<Rightarrow> RunExecutionData" where
  "enqueueFn workflow item st =
     st\<lparr>rx_stack := (if isLegacyExecutionOrder workflow then rx_stack st @ [item] else item # rx_stack st)\<rparr>"

lemma enqueueFn_sel [simp]:
  "rx_waiting (enqueueFn w x st) = rx_waiting st" "rx_waitingSource (enqueueFn w x st) = rx_waitingSource st"
  "rx_runData (enqueueFn w x st) = rx_runData st"
  "rx_stack (enqueueFn w x st) = (if isLegacyExecutionOrder w then rx_stack st @ [x] else x # rx_stack st)"
  by (simp_all add: enqueueFn_def)

section \<open>Empty incoming connections\<close>

text \<open>\<open>get(runData, [node, runIndex, 'data', 'main', index])\<close>; the inner option is \<open>null\<close>.\<close>

definition main_output :: "IRunData \<Rightarrow> string \<Rightarrow> nat \<Rightarrow> nat \<Rightarrow> items option option" where
  "main_output runData node runIndex index =
     (case map_of runData node of None \<Rightarrow> None
      | Some tasks \<Rightarrow> if runIndex < length tasks
          then (case t_data (tasks ! runIndex) of None \<Rightarrow> None
            | Some data \<Rightarrow> (case map_of data Main of None \<Rightarrow> None
                | Some outputs \<Rightarrow> if index < length outputs then Some (outputs ! index) else None))
          else None)"

fun incomingConnectionIsEmpty :: "IRunData \<Rightarrow> IConnection list \<Rightarrow> nat \<Rightarrow> bool res" where
  "incomingConnectionIsEmpty runData [] runIndex = Inr True"
| "incomingConnectionIsEmpty runData (inputConnection # rest) runIndex =
     (case main_output runData (c_node inputConnection) runIndex (c_index inputConnection) of
        None \<Rightarrow> incomingConnectionIsEmpty runData rest runIndex
      | Some None \<Rightarrow> Inl TypeError
      | Some (Some data) \<Rightarrow> if data \<noteq> [] then Inr False else incomingConnectionIsEmpty runData rest runIndex)"

lemma incomingConnectionIsEmpty_iff:
  assumes "\<forall>c \<in> set cs. main_output rd (c_node c) run (c_index c) \<noteq> Some None"
  shows "incomingConnectionIsEmpty rd cs run =
    Inr (\<forall>c \<in> set cs. case main_output rd (c_node c) run (c_index c) of Some (Some data) \<Rightarrow> data = [] | _ \<Rightarrow> True)"
  using assms by (induction cs) (auto split: option.splits)

section \<open>Waiting executions\<close>

definition prepareWaitingToExecution :: "string \<Rightarrow> nat \<Rightarrow> nat \<Rightarrow> RunExecutionData \<Rightarrow> RunExecutionData" where
  "prepareWaitingToExecution nodeName numberOfConnections runIndex st =
     (let sources = case_option [] (\<lambda>s. s) (rx_waitingSource st);
          nodeWaiting = case_option [] (\<lambda>m. m) (map_of (rx_waiting st) nodeName);
          nodeWaitingSource = case_option [] (\<lambda>m. m) (map_of sources nodeName)
      in st\<lparr>rx_waiting := AList.update nodeName
              (AList.update runIndex [(Main, replicate numberOfConnections Null)] nodeWaiting) (rx_waiting st),
            rx_waitingSource := Some (AList.update nodeName
              (AList.update runIndex [(Main, replicate numberOfConnections None)] nodeWaitingSource) sources)\<rparr>)"

text \<open>\<open>workflow.connectionsByDestinationNode[node]?.main?.length ?? 0\<close>\<close>

definition numberOfInputs :: "Workflow \<Rightarrow> string \<Rightarrow> nat" where
  "numberOfInputs workflow n = length (groups_of (connectionsByDestinationNode workflow) n Main)"

text \<open>The lists of the waiting entry \<open>waiting[node][index].main\<close>; a missing step is a \<open>TypeError\<close>.\<close>

definition main_of :: "'a waiting_lists \<Rightarrow> string \<Rightarrow> nat \<Rightarrow> 'a list option" where
  "main_of w n k = (case map_of w n of None \<Rightarrow> None | Some obj \<Rightarrow>
     (case map_of obj k of None \<Rightarrow> None | Some conns \<Rightarrow> map_of conns Main))"

definition set_main :: "'a waiting_lists \<Rightarrow> string \<Rightarrow> nat \<Rightarrow> 'a list \<Rightarrow> 'a waiting_lists" where
  "set_main w n k xs =
     (let obj = case_option [] (\<lambda>m. m) (map_of w n); conns = case_option [] (\<lambda>m. m) (map_of obj k)
      in AList.update n (AList.update k (AList.update Main xs conns) obj) w)"

definition put_main :: "'a \<Rightarrow> string \<Rightarrow> nat \<Rightarrow> nat \<Rightarrow> 'a \<Rightarrow> 'a waiting_lists \<Rightarrow> 'a waiting_lists res" where
  "put_main hole n k i x w = (case main_of w n k of
     None \<Rightarrow> Inl TypeError | Some xs \<Rightarrow> Inr (set_main w n k (set_slot hole i x xs)))"

text \<open>The entries of a node in the order of \<open>Object.keys\<close>.\<close>

definition by_index :: "(nat, 'a) jsmap \<Rightarrow> (nat, 'a) jsmap" where
  "by_index obj = sort_key fst obj"

text \<open>The first waiting entry without data at the input.\<close>

fun findWaitingEntry :: "nat \<Rightarrow> (nat, IInputConnections) jsmap \<Rightarrow> nat option res" where
  "findWaitingEntry i [] = Inr None"
| "findWaitingEntry i ((index, conns) # entries) =
     (case map_of conns Main of
        None \<Rightarrow> Inl TypeError
      | Some xs \<Rightarrow> (case get_slot Hole i xs of Val _ \<Rightarrow> findWaitingEntry i entries | _ \<Rightarrow> Inr (Some index)))"

definition initWaiting :: "string \<Rightarrow> RunExecutionData \<Rightarrow> RunExecutionData" where
  "initWaiting n st =
     (let sources = case_option [] (\<lambda>s. s) (rx_waitingSource st)
      in if map_of (rx_waiting st) n = None
         then st\<lparr>rx_waiting := AList.update n [] (rx_waiting st), rx_waitingSource := Some (AList.update n [] sources)\<rparr>
         else st\<lparr>rx_waitingSource := Some sources\<rparr>)"

text \<open>The entry the data is added to, a new one if every entry has data at the input already.\<close>

definition waitingEntryFor :: "nat \<Rightarrow> string \<Rightarrow> nat \<Rightarrow> RunExecutionData \<Rightarrow> (RunExecutionData \<times> nat) res" where
  "waitingEntryFor inputs n i st =
     (let st = initWaiting n st; obj = case_option [] (\<lambda>m. m) (map_of (rx_waiting st) n)
      in rbind (findWaitingEntry i (by_index obj)) (\<lambda>found. case found of
           Some waitingNodeIndex \<Rightarrow> Inr (st, waitingNodeIndex)
         | None \<Rightarrow> Inr (prepareWaitingToExecution n inputs (length obj) st, length obj)))"

text \<open>The data and the source that arrive; \<open>nodeSuccessData === null\<close> is \<open>None\<close>.\<close>

definition arriving :: "string \<Rightarrow> nat \<Rightarrow> items slot list option \<Rightarrow> nat \<Rightarrow> items slot \<times> ISourceData option" where
  "arriving parentNodeName outputIndex nodeSuccessData runIndex =
     (case nodeSuccessData of
        None \<Rightarrow> (Null, None)
      | Some outputs \<Rightarrow> (get_slot Hole outputIndex outputs,
          Some \<lparr>previousNode = parentNodeName, previousNodeOutput = Some outputIndex, previousNodeRun = Some runIndex\<rparr>))"

definition fillWaiting ::
  "string \<Rightarrow> nat \<Rightarrow> nat \<Rightarrow> items slot \<times> ISourceData option \<Rightarrow> RunExecutionData \<Rightarrow> RunExecutionData res" where
  "fillWaiting n k i arrived st =
     rbind (put_main Hole n k i (fst arrived) (rx_waiting st)) (\<lambda>waiting.
     rbind (put_main None n k i (snd arrived) (case_option [] (\<lambda>s. s) (rx_waitingSource st))) (\<lambda>sources.
       Inr (st\<lparr>rx_waiting := waiting, rx_waitingSource := Some sources\<rparr>)))"

text \<open>\<open>delete waiting[node][index]\<close>, and the node with its last entry.\<close>

definition dropEntry :: "string \<Rightarrow> nat \<Rightarrow> RunExecutionData \<Rightarrow> RunExecutionData" where
  "dropEntry n k st =
     (let obj = AList.delete k (case_option [] (\<lambda>m. m) (map_of (rx_waiting st) n));
          sources = case_option [] (\<lambda>s. s) (rx_waitingSource st);
          sobj = AList.delete k (case_option [] (\<lambda>m. m) (map_of sources n))
      in if obj = [] then st\<lparr>rx_waiting := AList.delete n (rx_waiting st), rx_waitingSource := Some (AList.delete n sources)\<rparr>
         else st\<lparr>rx_waiting := AList.update n obj (rx_waiting st), rx_waitingSource := Some (AList.update n sobj sources)\<rparr>)"

text \<open>A node of the workflow that goes on the stack. The callers have checked that it exists; for one
  that does not, the code would put \<open>undefined\<close> there and fail on it later.\<close>

definition node_of :: "Workflow \<Rightarrow> string \<Rightarrow> INode res" where
  "node_of workflow n = (case map_of (w_nodes workflow) n of None \<Rightarrow> Inl TypeError | Some node \<Rightarrow> Inr node)"

definition runWaiting :: "Workflow \<Rightarrow> string \<Rightarrow> nat \<Rightarrow> RunExecutionData \<Rightarrow> RunExecutionData res" where
  "runWaiting workflow n k st =
     rbind (node_of workflow n) (\<lambda>node.
       Inr (dropEntry n k (enqueueFn workflow
         \<lparr>e_node = node, e_data = case_option [] (\<lambda>c. c) (Option.bind (map_of (rx_waiting st) n) (\<lambda>obj. map_of obj k)),
          e_source = Option.bind (rx_waitingSource st) (\<lambda>s. Option.bind (map_of s n) (\<lambda>obj. map_of obj k)),
          e_runIndex = None, e_metadata = None\<rparr> st)))"

section \<open>Nodes a waiting node depends on\<close>

text \<open>\<open>workflow.connectionsByDestinationNode[node].main[0] ?? []\<close>\<close>

definition firstInput :: "Workflow \<Rightarrow> string \<Rightarrow> IConnection list res" where
  "firstInput workflow n =
     (case map_of (connectionsByDestinationNode workflow) n of None \<Rightarrow> Inl TypeError
      | Some ncs \<Rightarrow> (case map_of ncs Main of None \<Rightarrow> Inl TypeError
          | Some gs \<Rightarrow> Inr (case gs of Some g # _ \<Rightarrow> g | _ \<Rightarrow> [])))"

fun pickNodeToAdd :: "string \<Rightarrow> string list \<Rightarrow> string list \<Rightarrow> IRunData \<Rightarrow> string \<Rightarrow> string list \<Rightarrow> string option" where
  "pickNodeToAdd inputNode checkOutputNodes stackNodes runData nodeToAdd [] = Some nodeToAdd"
| "pickNodeToAdd inputNode checkOutputNodes stackNodes runData nodeToAdd (parentNode # rest) =
     (if inputNode \<noteq> parentNode \<and> parentNode \<in> set checkOutputNodes then None
      else if parentNode \<in> set stackNodes then None
      else if map_of runData parentNode \<noteq> None then Some nodeToAdd
      else pickNodeToAdd inputNode checkOutputNodes stackNodes runData parentNode rest)"

text \<open>\<open>nodeSuccessData[outputIndex].length === 0\<close>\<close>

definition output_empty :: "nat \<Rightarrow> items slot list option \<Rightarrow> bool res" where
  "output_empty outputIndex nodeSuccessData =
     (case nodeSuccessData of None \<Rightarrow> Inl TypeError
      | Some outputs \<Rightarrow> (case get_slot Hole outputIndex outputs of Val xs \<Rightarrow> Inr (xs = []) | _ \<Rightarrow> Inl TypeError))"

text \<open>The node that has to run before \<open>inputNode\<close> can, if any (legacy order only).\<close>

definition nodeToAddFor ::
  "Workflow \<Rightarrow> string list \<Rightarrow> nat \<Rightarrow> string \<Rightarrow> items slot list option \<Rightarrow> RunExecutionData \<Rightarrow> string \<Rightarrow> string option res" where
  "nodeToAddFor workflow checkOutputNodes outputIndex parentNodeName nodeSuccessData st inputNode =
     (let parents = wf_getParentNodes workflow inputNode (OfType Main) (-1);
          picked = pickNodeToAdd inputNode checkOutputNodes (map (\<lambda>e. n_name (e_node e)) (rx_stack st))
            (rx_runData st) inputNode (rev (parents @ [inputNode]));
          name = (case picked of None \<Rightarrow> ''undefined'' | Some n \<Rightarrow> n)
      in if parentNodeName \<in> set (wf_getParentNodes workflow name (OfType Main) (-1))
         then rbind (output_empty outputIndex nodeSuccessData) (\<lambda>empty. Inr (if empty then None else picked))
         else Inr picked)"

definition addParentOf ::
  "Workflow \<Rightarrow> string list \<Rightarrow> nat \<Rightarrow> string \<Rightarrow> items slot list option \<Rightarrow> nat \<Rightarrow> RunExecutionData \<Rightarrow> IConnection \<Rightarrow>
   RunExecutionData res" where
  "addParentOf workflow checkOutputNodes outputIndex parentNodeName nodeSuccessData runIndex st inputData =
     (if c_node inputData = parentNodeName then Inr st
      else rbind (if c_node inputData \<in> set checkOutputNodes
            then rbind (firstInput workflow (c_node inputData)) (\<lambda>cs.
                 rbind (incomingConnectionIsEmpty (rx_runData st) cs runIndex) (\<lambda>empty. Inr (\<not> empty)))
            else Inr False) (\<lambda>added_anyway.
        if added_anyway \<or> c_node inputData \<in> set (map (\<lambda>e. n_name (e_node e)) (rx_stack st)) \<or>
           map_of (rx_runData st) (c_node inputData) \<noteq> None \<or> \<not> isLegacyExecutionOrder workflow
        then Inr st
        else rbind (nodeToAddFor workflow checkOutputNodes outputIndex parentNodeName nodeSuccessData st (c_node inputData)) (\<lambda>nodeToAdd.
          case nodeToAdd of
            None \<Rightarrow> Inr st
          | Some n \<Rightarrow>
              rbind (if map_of (connectionsByDestinationNode workflow) n = None then Inr True
                     else rbind (firstInput workflow n) (\<lambda>cs. incomingConnectionIsEmpty (rx_runData st) cs runIndex)) (\<lambda>addEmptyItem.
              if addEmptyItem
              then rbind (node_of workflow n) (\<lambda>node. Inr (enqueueFn workflow
                \<lparr>e_node = node, e_data = [(Main, [Val [empty_item]])],
                 e_source = Some [(Main, [Some \<lparr>previousNode = parentNodeName, previousNodeOutput = Some outputIndex,
                   previousNodeRun = Some runIndex\<rparr>])], e_runIndex = None, e_metadata = None\<rparr> st))
              else Inr st))))"

definition addMissingParents ::
  "Workflow \<Rightarrow> string \<Rightarrow> nat \<Rightarrow> string \<Rightarrow> items slot list option \<Rightarrow> nat \<Rightarrow> RunExecutionData \<Rightarrow> RunExecutionData res" where
  "addMissingParents workflow n outputIndex parentNodeName nodeSuccessData runIndex st =
     (if map_of (connectionsBySourceNode workflow) parentNodeName = None then Inl TypeError
      else foldR (addParentOf workflow
          (map c_node (flat_groups (groups_of (connectionsBySourceNode workflow) parentNodeName Main)))
          outputIndex parentNodeName nodeSuccessData runIndex) st
        (flat_groups (groups_of (connectionsByDestinationNode workflow) n Main)))"

section \<open>addNodeToBeExecuted\<close>

text \<open>The last part when data is missing: the entry is set up again with the data it has.\<close>

definition keepWaiting ::
  "nat \<Rightarrow> string \<Rightarrow> nat \<Rightarrow> nat \<Rightarrow> items slot \<Rightarrow> RunExecutionData \<Rightarrow> RunExecutionData res" where
  "keepWaiting inputs n k i x st =
     (let connectionDataArray = (case main_of (rx_waiting st) n k of None \<Rightarrow> replicate (Suc i) Null | Some xs \<Rightarrow> xs)
      in case main_of (case_option [] (\<lambda>s. s) (rx_waitingSource st)) n k of
        None \<Rightarrow> Inl TypeError
      | Some sources \<Rightarrow>
          (let st = prepareWaitingToExecution n inputs k st
           in Inr (st\<lparr>rx_waiting := set_main (rx_waiting st) n k (set_slot Hole i x connectionDataArray),
                rx_waitingSource := map_option (\<lambda>s. set_main s n k sources) (rx_waitingSource st)\<rparr>)))"

definition addNodeToBeExecuted ::
  "Workflow \<Rightarrow> IConnection \<Rightarrow> nat \<Rightarrow> string \<Rightarrow> items slot list option \<Rightarrow> nat \<Rightarrow> nat option \<Rightarrow> ITaskMetadata option \<Rightarrow>
   RunExecutionData \<Rightarrow> RunExecutionData res" where
  "addNodeToBeExecuted workflow connectionData outputIndex parentNodeName nodeSuccessData runIndex newRunIndex metadata st =
     (let n = c_node connectionData; i = c_index connectionData; inputs = numberOfInputs workflow n;
          arrived = arriving parentNodeName outputIndex nodeSuccessData runIndex
      in if inputs > 1
         then rbind (waitingEntryFor inputs n i st) (\<lambda>(st', k).
              rbind (fillWaiting n k i arrived st') (\<lambda>st'.
              if list_all (\<lambda>x. x \<noteq> Null) (case_option [] (\<lambda>l. l) (main_of (rx_waiting st') n k))
              then runWaiting workflow n k st'
              else rbind (if map_of (rx_waiting st) n = None
                     then addMissingParents workflow n outputIndex parentNodeName nodeSuccessData runIndex st'
                     else Inr st') (\<lambda>st'. keepWaiting inputs n k i (fst arrived) st')))
         else case map_of (w_nodes workflow) n of
             None \<Rightarrow> Inr st
           | Some node \<Rightarrow> Inr (enqueueFn workflow
               \<lparr>e_node = node, e_data = [(Main, set_slot Hole i (fst arrived) (replicate (Suc i) Null))],
                e_source = Some [(Main, [Some \<lparr>previousNode = parentNodeName, previousNodeOutput = Some outputIndex,
                  previousNodeRun = Some runIndex\<rparr>])],
                e_runIndex = newRunIndex, e_metadata = metadata\<rparr> st))"

section \<open>What adding a node does\<close>

lemma update_twice [simp]: "AList.update k v (AList.update k u m) = AList.update k v m"
  by (induction m) auto

text \<open>Node \<open>n\<close> has a waiting entry \<open>k\<close> that consists of the list \<open>xs\<close>.\<close>

definition entry_at :: "'a waiting_lists \<Rightarrow> string \<Rightarrow> nat \<Rightarrow> 'a list \<Rightarrow> bool" where
  "entry_at ws n k xs \<longleftrightarrow> (\<exists>obj. map_of ws n = Some obj \<and> map_of obj k = Some [(Main, xs)])"

lemma main_of_entry [simp]: "entry_at ws n k xs \<Longrightarrow> main_of ws n k = Some xs"
  by (auto simp: entry_at_def main_of_def)

lemma entry_at_set_main: "entry_at ws n k xs \<Longrightarrow> entry_at (set_main ws n k ys) n k ys"
  by (auto simp: entry_at_def set_main_def Let_def jsmap_simps)

lemma set_main_twice: "entry_at ws n k xs \<Longrightarrow> set_main (set_main ws n k ys) n k zs = set_main ws n k zs"
  by (auto simp: entry_at_def set_main_def Let_def jsmap_simps)

lemma prepare_entry:
  assumes "entry_at (rx_waiting st) n k xs" and "rx_waitingSource st = Some src" and "entry_at src n k ys"
  shows "prepareWaitingToExecution n m k st = st\<lparr>rx_waiting := set_main (rx_waiting st) n k (replicate m Null),
    rx_waitingSource := Some (set_main src n k (replicate m None))\<rparr>"
  using assms by (auto simp: prepareWaitingToExecution_def entry_at_def set_main_def Let_def)

text \<open>Entry \<open>k\<close> of \<open>n\<close> gets the list \<open>xs\<close> of data and the list \<open>ys\<close> of sources.\<close>

definition deliver :: "string \<Rightarrow> nat \<Rightarrow> items slot list \<Rightarrow> ISourceData option list \<Rightarrow> RunExecutionData \<Rightarrow> RunExecutionData" where
  "deliver n k xs ys st = st\<lparr>rx_waiting := set_main (rx_waiting st) n k xs,
     rx_waitingSource := map_option (\<lambda>src. set_main src n k ys) (rx_waitingSource st)\<rparr>"

lemma deliver_sel [simp]:
  "rx_waiting (deliver n k xs ys st) = set_main (rx_waiting st) n k xs"
  "rx_waitingSource (deliver n k xs ys st) = map_option (\<lambda>src. set_main src n k ys) (rx_waitingSource st)"
  "rx_stack (deliver n k xs ys st) = rx_stack st" "rx_runData (deliver n k xs ys st) = rx_runData st"
  by (simp_all add: deliver_def)

text \<open>The state has the entry \<open>k\<close> of \<open>n\<close>, of data \<open>xs\<close> and sources \<open>ys\<close>.\<close>

definition has_entry :: "RunExecutionData \<Rightarrow> string \<Rightarrow> nat \<Rightarrow> items slot list \<Rightarrow> ISourceData option list \<Rightarrow> bool" where
  "has_entry st n k xs ys \<longleftrightarrow> entry_at (rx_waiting st) n k xs \<and>
     (\<exists>src. rx_waitingSource st = Some src \<and> entry_at src n k ys)"

lemma has_entry_deliver: "has_entry st n k xs ys \<Longrightarrow> has_entry (deliver n k xs' ys' st) n k xs' ys'"
  by (auto simp: has_entry_def entry_at_set_main)

lemma deliver_twice:
  "has_entry st n k xs ys \<Longrightarrow> deliver n k xs2 ys2 (deliver n k xs1 ys1 st) = deliver n k xs2 ys2 st"
  by (auto simp: has_entry_def deliver_def set_main_twice)

lemma fillWaiting_entry:
  assumes "has_entry st n k xs ys"
  shows "fillWaiting n k i a st =
    Inr (deliver n k (set_slot Hole i (fst a) xs) (set_slot None i (snd a) ys) st)"
  using assms by (auto simp: has_entry_def fillWaiting_def put_main_def deliver_def)

lemma keepWaiting_entry:
  assumes "has_entry st n k xs ys"
  shows "keepWaiting m n k i x st = Inr (deliver n k (set_slot Hole i x xs) ys st)"
  using assms by (auto simp: has_entry_def keepWaiting_def prepare_entry deliver_def Let_def set_main_twice)

text \<open>What may run first leaves the waiting executions alone.\<close>

lemma addParentOf_waiting:
  assumes "addParentOf w checks outputIndex parent nsd runIndex st c = Inr st'"
  shows "rx_waiting st' = rx_waiting st \<and> rx_waitingSource st' = rx_waitingSource st \<and> rx_runData st' = rx_runData st \<and>
    (\<not> isLegacyExecutionOrder w \<longrightarrow> st' = st)"
  using assms by (auto simp: addParentOf_def res_simps split: if_splits option.splits)

lemma addMissingParents_waiting:
  assumes "addMissingParents w n outputIndex parent nsd runIndex st = Inr st'"
  shows "rx_waiting st' = rx_waiting st \<and> rx_waitingSource st' = rx_waitingSource st \<and> rx_runData st' = rx_runData st \<and>
    (\<not> isLegacyExecutionOrder w \<longrightarrow> st' = st)"
proof -
  let ?f = "addParentOf w (map c_node (flat_groups (groups_of (connectionsBySourceNode w) parent Main)))
    outputIndex parent nsd runIndex"
  have "foldR ?f st (flat_groups (groups_of (connectionsByDestinationNode w) n Main)) = Inr st'"
    using assms by (auto simp: addMissingParents_def split: if_splits)
  then show ?thesis
    by (rule foldR_invariant [where P = "\<lambda>s. rx_waiting s = rx_waiting st \<and> rx_waitingSource s = rx_waitingSource st \<and>
      rx_runData s = rx_runData st \<and> (\<not> isLegacyExecutionOrder w \<longrightarrow> s = st)"]) (auto dest: addParentOf_waiting)
qed

lemma has_entry_cong:
  "rx_waiting st' = rx_waiting st \<Longrightarrow> rx_waitingSource st' = rx_waitingSource st \<Longrightarrow>
   has_entry st' n k xs ys = has_entry st n k xs ys"
  by (simp add: has_entry_def)

text \<open>The multi-input part in closed form, once the entry that takes the data is known.\<close>

lemma addNode_entry:
  assumes inputs: "numberOfInputs w (c_node cd) > 1"
    and entry: "waitingEntryFor (numberOfInputs w (c_node cd)) (c_node cd) (c_index cd) st = Inr (st0, k)"
      "has_entry st0 (c_node cd) k xs ys"
    and i: "c_index cd < length xs"
    and run: "addNodeToBeExecuted w cd outputIndex parent nsd runIndex newRun md st = Inr st'"
  defines "a \<equiv> arriving parent outputIndex nsd runIndex"
  defines "xs' \<equiv> xs[c_index cd := fst a]" and "ys' \<equiv> set_slot None (c_index cd) (snd a) ys"
  shows "(Null \<notin> set xs' \<and> runWaiting w (c_node cd) k (deliver (c_node cd) k xs' ys' st0) = Inr st') \<or>
    (Null \<in> set xs' \<and> (\<exists>st1. rx_waiting st1 = rx_waiting st0 \<and> rx_waitingSource st1 = rx_waitingSource st0 \<and>
       rx_runData st1 = rx_runData st0 \<and> (\<not> isLegacyExecutionOrder w \<or> map_of (rx_waiting st) (c_node cd) \<noteq> None \<longrightarrow> rx_stack st1 = rx_stack st0) \<and>
       st' = deliver (c_node cd) k xs' ys' st1))"
proof -
  let ?n = "c_node cd" and ?st1 = "deliver (c_node cd) k xs' ys' st0"
  have fill: "fillWaiting ?n k (c_index cd) a st0 = Inr ?st1"
    using fillWaiting_entry [OF entry(2)] i by (simp add: xs'_def ys'_def)
  have e1: "has_entry ?st1 ?n k xs' ys'" using has_entry_deliver [OF entry(2)] .
  then have main: "main_of (rx_waiting ?st1) ?n k = Some xs'" by (simp add: has_entry_def)
  have step: "(if list_all (\<lambda>x. x \<noteq> Null) xs' then runWaiting w ?n k ?st1
      else rbind (if map_of (rx_waiting st) ?n = None then addMissingParents w ?n outputIndex parent nsd runIndex ?st1
                  else Inr ?st1) (\<lambda>st'. keepWaiting (numberOfInputs w ?n) ?n k (c_index cd) (fst a) st')) = Inr st'"
    using run inputs entry(1) fill main
    by (simp add: addNodeToBeExecuted_def Let_def a_def [symmetric] split del: if_split cong: if_cong)
  show ?thesis
  proof (cases "Null \<in> set xs'")
    case False
    then have "list_all (\<lambda>x. x \<noteq> Null) xs'" by (auto simp: list_all_iff)
    with step False show ?thesis by simp
  next
    case True
    then have "\<not> list_all (\<lambda>x. x \<noteq> Null) xs'" by (auto simp: list_all_iff)
    with step obtain st2 where st2: "(if map_of (rx_waiting st) ?n = None
          then addMissingParents w ?n outputIndex parent nsd runIndex ?st1 else Inr ?st1) = Inr st2"
        "keepWaiting (numberOfInputs w ?n) ?n k (c_index cd) (fst a) st2 = Inr st'" by (auto simp: res_simps)
    have same: "rx_waiting st2 = rx_waiting ?st1 \<and> rx_waitingSource st2 = rx_waitingSource ?st1 \<and> rx_runData st2 = rx_runData ?st1 \<and>
        (\<not> isLegacyExecutionOrder w \<or> map_of (rx_waiting st) ?n \<noteq> None \<longrightarrow> rx_stack st2 = rx_stack ?st1)"
      using st2(1) addMissingParents_waiting [of w ?n outputIndex parent nsd runIndex ?st1 st2] by (auto split: if_splits)
    then have "has_entry st2 ?n k xs' ys'" using e1 has_entry_cong by metis
    then have "st' = deliver ?n k (set_slot Hole (c_index cd) (fst a) xs') ys' st2"
      using st2(2) keepWaiting_entry by force
    also have "set_slot Hole (c_index cd) (fst a) xs' = xs'" using i by (simp add: xs'_def)
    also have "deliver ?n k xs' ys' st2 = deliver ?n k xs' ys' (st2\<lparr>rx_waiting := rx_waiting st0, rx_waitingSource := rx_waitingSource st0\<rparr>)"
      using same entry(2) by (auto simp: deliver_def has_entry_def set_main_twice)
    finally show ?thesis using True same by (intro disjI2 conjI exI) auto
  qed
qed

abbreviation obj_of :: "'a waiting_lists \<Rightarrow> string \<Rightarrow> (nat, (NodeConnectionType, 'a list) jsmap) jsmap" where
  "obj_of ws n \<equiv> case_option [] (\<lambda>m. m) (map_of ws n)"

text \<open>Everything but what is scheduled.\<close>

definition rest_of :: "RunExecutionData \<Rightarrow> RunExecutionData" where
  "rest_of st = st\<lparr>rx_stack := [], rx_waiting := [], rx_waitingSource := None\<rparr>"

lemma rest_of_simps [simp]:
  "rest_of (st\<lparr>rx_stack := a\<rparr>) = rest_of st" "rest_of (st\<lparr>rx_waiting := b\<rparr>) = rest_of st"
  "rest_of (st\<lparr>rx_waitingSource := c\<rparr>) = rest_of st" "rest_of (enqueueFn w x st) = rest_of st"
  "rest_of (dropEntry n k st) = rest_of st" "rest_of (initWaiting n st) = rest_of st"
  "rest_of (prepareWaitingToExecution n m k st) = rest_of st"
  by (simp_all add: rest_of_def enqueueFn_def dropEntry_def initWaiting_def prepareWaitingToExecution_def Let_def)

lemma rest_of_eqD:
  "rest_of st = rest_of st' \<Longrightarrow> rx_runData st = rx_runData st' \<and> rx_runNodeFilter st = rx_runNodeFilter st' \<and>
     rx_destinationNode st = rx_destinationNode st' \<and> rx_waitTill st = rx_waitTill st'"
  by (cases st; cases st') (simp add: rest_of_def)

lemma addParentOf_rest: "addParentOf w checks i p nsd run st c = Inr st' \<Longrightarrow> rest_of st' = rest_of st"
  by (auto simp: addParentOf_def res_simps split: if_splits option.splits)

lemma addMissingParents_rest:
  assumes "addMissingParents w n i p nsd run st = Inr st'"
  shows "rest_of st' = rest_of st"
proof -
  have "foldR (addParentOf w (map c_node (flat_groups (groups_of (connectionsBySourceNode w) p Main))) i p nsd run) st
      (flat_groups (groups_of (connectionsByDestinationNode w) n Main)) = Inr st'"
    using assms by (auto simp: addMissingParents_def split: if_splits)
  then show ?thesis by (rule foldR_invariant [where P = "\<lambda>s. rest_of s = rest_of st"]) (auto dest: addParentOf_rest)
qed

lemma waitingEntryFor_rest:
  assumes "waitingEntryFor m n i st = Inr (st', k)"
  shows "rest_of st' = rest_of st"
proof -
  obtain found where "(case found of Some j \<Rightarrow> Inr (initWaiting n st, j)
      | None \<Rightarrow> Inr (prepareWaitingToExecution n m (length (obj_of (rx_waiting (initWaiting n st)) n)) (initWaiting n st),
          length (obj_of (rx_waiting (initWaiting n st)) n))) = (Inr (st', k) :: (RunExecutionData \<times> nat) res)"
    using assms unfolding waitingEntryFor_def Let_def rbind_eq_Inr by blast
  then show ?thesis by (cases found) auto
qed

lemma fillWaiting_rest: "fillWaiting n k i a st = Inr st' \<Longrightarrow> rest_of st' = rest_of st"
  by (auto simp: fillWaiting_def res_simps)

lemma runWaiting_rest: "runWaiting w n k st = Inr st' \<Longrightarrow> rest_of st' = rest_of st"
  by (auto simp: runWaiting_def res_simps)

lemma keepWaiting_rest: "keepWaiting m n k i x st = Inr st' \<Longrightarrow> rest_of st' = rest_of st"
  by (auto simp: keepWaiting_def Let_def split: option.splits)

lemma addNode_rest:
  assumes "addNodeToBeExecuted w cd outputIndex parent nsd runIndex newRun md st = Inr st'"
  shows "rest_of st' = rest_of st"
proof (cases "numberOfInputs w (c_node cd) > 1")
  case True
  let ?n = "c_node cd" and ?m = "numberOfInputs w (c_node cd)"
  let ?finish = "\<lambda>k st1. if list_all (\<lambda>x. x \<noteq> Null) (case_option [] (\<lambda>l. l) (main_of (rx_waiting st1) ?n k))
    then runWaiting w ?n k st1
    else rbind (if map_of (rx_waiting st) ?n = None then addMissingParents w ?n outputIndex parent nsd runIndex st1
                else Inr st1) (keepWaiting ?m ?n k (c_index cd) (fst (arriving parent outputIndex nsd runIndex)))"
  have finish: "rest_of st' = rest_of st1" if fin: "?finish k st1 = Inr st'" for k st1
  proof (cases "list_all (\<lambda>x. x \<noteq> Null) (case_option [] (\<lambda>l. l) (main_of (rx_waiting st1) ?n k))")
    case True
    then show ?thesis using fin runWaiting_rest by simp
  next
    case False
    then obtain st2 where "(if map_of (rx_waiting st) ?n = None then addMissingParents w ?n outputIndex parent nsd runIndex st1
        else Inr st1) = Inr st2" "keepWaiting ?m ?n k (c_index cd) (fst (arriving parent outputIndex nsd runIndex)) st2 = Inr st'"
      using fin unfolding if_not_P [OF False] rbind_eq_Inr by blast
    then show ?thesis using addMissingParents_rest keepWaiting_rest by (metis Inr_inject)
  qed
  have "addNodeToBeExecuted w cd outputIndex parent nsd runIndex newRun md st =
      rbind (waitingEntryFor ?m ?n (c_index cd) st) (\<lambda>(st', k).
        rbind (fillWaiting ?n k (c_index cd) (arriving parent outputIndex nsd runIndex) st') (?finish k))"
    using True unfolding addNodeToBeExecuted_def Let_def by (simp only: if_True)
  then have "rbind (waitingEntryFor ?m ?n (c_index cd) st) (\<lambda>(st', k).
        rbind (fillWaiting ?n k (c_index cd) (arriving parent outputIndex nsd runIndex) st') (?finish k)) = Inr st'"
    using assms by (simp only:)
  then obtain p where p: "waitingEntryFor ?m ?n (c_index cd) st = Inr p"
      "(\<lambda>(st', k). rbind (fillWaiting ?n k (c_index cd) (arriving parent outputIndex nsd runIndex) st') (?finish k)) p = Inr st'"
    by (rule rbind_InrE)
  obtain st0 k where st0: "p = (st0, k)" by (cases p)
  have "rbind (fillWaiting ?n k (c_index cd) (arriving parent outputIndex nsd runIndex) st0) (?finish k) = Inr st'"
    using p(2) unfolding st0 case_prod_conv .
  then obtain st1 where "fillWaiting ?n k (c_index cd) (arriving parent outputIndex nsd runIndex) st0 = Inr st1"
      "?finish k st1 = Inr st'" by (rule rbind_InrE)
  then show ?thesis using waitingEntryFor_rest [OF p(1) [unfolded st0]] fillWaiting_rest finish by simp
next
  case False
  then show ?thesis using assms by (auto simp: addNodeToBeExecuted_def Let_def split: option.splits)
qed

section \<open>The order of version 1\<close>

text \<open>What the look at the other inputs reads when a node starts to wait: the first input of every node
  that the parent leads to as well, and no output there that is \<open>null\<close>.\<close>

definition checks_readable :: "Workflow \<Rightarrow> string \<Rightarrow> string \<Rightarrow> nat \<Rightarrow> IRunData \<Rightarrow> bool" where
  "checks_readable w parent n runIndex runData \<longleftrightarrow>
     map_of (connectionsBySourceNode w) parent \<noteq> None \<and>
     (\<forall>c \<in> set (flat_groups (groups_of (connectionsByDestinationNode w) n Main)).
        c_node c \<in> c_node ` set (flat_groups (groups_of (connectionsBySourceNode w) parent Main)) \<longrightarrow>
        (\<exists>cs. firstInput w (c_node c) = Inr cs \<and>
          (\<forall>x \<in> set cs. main_output runData (c_node x) runIndex (c_index x) \<noteq> Some None)))"

lemma addParentOf_v1:
  assumes "\<not> isLegacyExecutionOrder w"
    and "c_node c \<in> set checks \<Longrightarrow> \<exists>cs. firstInput w (c_node c) = Inr cs \<and>
          (\<forall>x \<in> set cs. main_output (rx_runData st) (c_node x) runIndex (c_index x) \<noteq> Some None)"
  shows "addParentOf w checks outputIndex parent nsd runIndex st c = Inr st"
  using assms incomingConnectionIsEmpty_iff by (fastforce simp: addParentOf_def)

lemma addMissingParents_v1:
  assumes "\<not> isLegacyExecutionOrder w" and "checks_readable w parent n runIndex (rx_runData st)"
  shows "addMissingParents w n outputIndex parent nsd runIndex st = Inr st"
proof -
  have "foldR (addParentOf w (map c_node (flat_groups (groups_of (connectionsBySourceNode w) parent Main)))
      outputIndex parent nsd runIndex) st cs = Inr st"
    if "set cs \<subseteq> set (flat_groups (groups_of (connectionsByDestinationNode w) n Main))" for cs
    using that
  proof (induction cs)
    case (Cons c cs)
    have "addParentOf w (map c_node (flat_groups (groups_of (connectionsBySourceNode w) parent Main)))
        outputIndex parent nsd runIndex st c = Inr st"
      by (rule addParentOf_v1 [OF assms(1)]) (use assms(2) Cons.prems in \<open>auto simp: checks_readable_def\<close>)
    then show ?case using Cons by simp
  qed simp
  then show ?thesis using assms(2) by (simp add: addMissingParents_def checks_readable_def)
qed

lemma addNode_v1:
  fixes outputIndex :: nat and nsd :: "items slot list option"
  assumes inputs: "numberOfInputs w (c_node cd) > 1"
    and entry: "waitingEntryFor (numberOfInputs w (c_node cd)) (c_node cd) (c_index cd) st = Inr (st0, k)"
      "has_entry st0 (c_node cd) k xs ys" "rx_runData st0 = rx_runData st"
    and i: "c_index cd < length xs" and v1: "\<not> isLegacyExecutionOrder w"
    and checks: "map_of (rx_waiting st) (c_node cd) = None \<Longrightarrow> checks_readable w parent (c_node cd) runIndex (rx_runData st)"
  defines "a \<equiv> arriving parent outputIndex nsd runIndex"
  defines "xs' \<equiv> xs[c_index cd := fst a]" and "ys' \<equiv> set_slot None (c_index cd) (snd a) ys"
  shows "addNodeToBeExecuted w cd outputIndex parent nsd runIndex newRun md st =
    (if Null \<notin> set xs' then runWaiting w (c_node cd) k (deliver (c_node cd) k xs' ys' st0)
     else Inr (deliver (c_node cd) k xs' ys' st0))"
proof -
  let ?n = "c_node cd" and ?st1 = "deliver (c_node cd) k xs' ys' st0"
  have fill: "fillWaiting ?n k (c_index cd) a st0 = Inr ?st1"
    using fillWaiting_entry [OF entry(2)] i by (simp add: xs'_def ys'_def)
  have e1: "has_entry ?st1 ?n k xs' ys'" using has_entry_deliver [OF entry(2)] .
  then have main: "main_of (rx_waiting ?st1) ?n k = Some xs'" by (simp add: has_entry_def)
  have "(if map_of (rx_waiting st) ?n = None
        then addMissingParents w ?n outputIndex parent nsd runIndex ?st1 else Inr ?st1) = Inr ?st1"
    using addMissingParents_v1 [OF v1, of parent ?n runIndex ?st1] checks entry(3) by simp
  moreover have "keepWaiting (numberOfInputs w ?n) ?n k (c_index cd) (fst a) ?st1 = Inr ?st1"
    using keepWaiting_entry [OF e1, of _ "c_index cd" "fst a"] i deliver_twice [OF entry(2)] by (simp add: xs'_def)
  moreover have "list_all (\<lambda>x. x \<noteq> Null) xs' \<longleftrightarrow> Null \<notin> set xs'" by (auto simp: list_all_iff)
  ultimately show ?thesis using inputs entry(1) fill main
    by (simp add: addNodeToBeExecuted_def Let_def a_def [symmetric] split del: if_split cong: if_cong)
qed

section \<open>Well-formed waiting executions\<close>

text \<open>An entry has a place for every input, data at some of them and none at another.\<close>

definition entry_ok :: "nat \<Rightarrow> IInputConnections \<Rightarrow> bool" where
  "entry_ok inputs c \<longleftrightarrow> (\<exists>xs. c = [(Main, xs)] \<and> length xs = inputs \<and> Hole \<notin> set xs \<and> Null \<in> set xs \<and>
     (\<exists>v. Val v \<in> set xs))"

definition sources_for :: "(nat, IInputConnections) jsmap \<Rightarrow> (nat, ITaskDataConnectionsSource) jsmap option \<Rightarrow> bool" where
  "sources_for obj sobj \<longleftrightarrow> (\<exists>s. sobj = Some s \<and> jsmap_ok s \<and>
     (\<forall>k \<in> set (map fst obj). \<exists>ys. map_of s k = Some [(Main, ys)]))"

definition waiting_ok :: "Workflow \<Rightarrow> RunExecutionData \<Rightarrow> bool" where
  "waiting_ok w st \<longleftrightarrow> (\<exists>src. rx_waitingSource st = Some src \<and>
     (\<forall>n obj. map_of (rx_waiting st) n = Some obj \<longrightarrow>
        obj \<noteq> [] \<and> jsmap_ok obj \<and> (\<forall>c \<in> set (vals obj). entry_ok (numberOfInputs w n) c) \<and>
        sources_for obj (map_of src n)))"

lemma sources_for_delete:
  "sources_for obj (Some sobj) \<Longrightarrow> sources_for (AList.delete k obj) (Some (AList.delete k sobj))"
  by (auto simp: sources_for_def js.inv_del delete_conv' delete_keys)

lemma sources_for_update:
  "sources_for obj (Some sobj) \<Longrightarrow> sources_for (AList.update k c obj) (Some (AList.update k [(Main, ys)] sobj))"
  by (auto simp: sources_for_def js.inv_put update_conv' update_keys)

lemma findWaitingEntry_ok:
  assumes "\<forall>c \<in> set (vals es). entry_ok m c" and "i < m"
  shows "(findWaitingEntry i es = Inr None \<and> (\<forall>xs. [(Main, xs)] \<in> set (vals es) \<longrightarrow> xs ! i \<noteq> Null)) \<or>
    (\<exists>k xs. findWaitingEntry i es = Inr (Some k) \<and> (k, [(Main, xs)]) \<in> set es \<and> length xs = m \<and> xs ! i = Null)"
  using assms(1)
proof (induction es)
  case (Cons e es)
  obtain k c where e: "e = (k, c)" by (cases e)
  obtain xs where xs: "c = [(Main, xs)]" "length xs = m" "Hole \<notin> set xs"
    using Cons.prems e by (auto simp: entry_ok_def)
  have "xs ! i \<noteq> Hole" using xs(2,3) assms(2) nth_mem by metis
  then show ?case using Cons e xs assms(2) by (cases "xs ! i") (auto simp: get_slot_def)
qed simp

lemma in_by_index: "set (by_index obj) = set obj"
  by (simp add: by_index_def)

text \<open>The entry that takes the data: one that is there and lacks the input, or a new one.\<close>

definition entry_chosen ::
  "nat \<Rightarrow> string \<Rightarrow> nat \<Rightarrow> RunExecutionData \<Rightarrow> RunExecutionData \<Rightarrow> nat \<Rightarrow> items slot list \<Rightarrow> bool" where
  "entry_chosen m n i st st0 k xs \<longleftrightarrow>
     (st0 = st \<and> map_of (obj_of (rx_waiting st) n) k = Some [(Main, xs)] \<and> xs ! i = Null) \<or>
     (k = length (obj_of (rx_waiting st) n) \<and> st0 = prepareWaitingToExecution n m k (initWaiting n st) \<and>
      xs = replicate m Null \<and>
      (\<forall>ys. [(Main, ys)] \<in> set (vals (obj_of (rx_waiting st) n)) \<longrightarrow> ys ! i \<noteq> Null))"

lemma waiting_okD:
  assumes "waiting_ok w st"
  shows "\<exists>src. rx_waitingSource st = Some src"
    and "map_of (rx_waiting st) n = Some obj \<Longrightarrow> obj \<noteq> [] \<and> jsmap_ok obj"
    and "c \<in> set (vals (obj_of (rx_waiting st) n)) \<Longrightarrow> entry_ok (numberOfInputs w n) c"
    and "rx_waitingSource st = Some src \<Longrightarrow> map_of (rx_waiting st) n = Some obj \<Longrightarrow> sources_for obj (map_of src n)"
  using assms by (cases "map_of (rx_waiting st) n"; force simp: waiting_ok_def)+

lemma prepare_init:
  assumes "rx_waitingSource st = Some src"
  shows "map_of (rx_waiting (prepareWaitingToExecution n m k (initWaiting n st))) =
      (map_of (rx_waiting st))(n \<mapsto> AList.update k [(Main, replicate m Null)] (obj_of (rx_waiting st) n))"
    and "rx_waitingSource (prepareWaitingToExecution n m k (initWaiting n st)) = Some src' \<Longrightarrow>
      map_of (rx_waiting st) n = None \<Longrightarrow> map_of src' = (map_of src)(n \<mapsto> [(k, [(Main, replicate m None)])])"
    and "rx_waitingSource (prepareWaitingToExecution n m k (initWaiting n st)) = Some src' \<Longrightarrow>
      map_of (rx_waiting st) n \<noteq> None \<Longrightarrow> map_of src' = (map_of src)(n \<mapsto> AList.update k [(Main, replicate m None)] (obj_of src n))"
    and "rx_stack (prepareWaitingToExecution n m k (initWaiting n st)) = rx_stack st"
    and "rx_runData (prepareWaitingToExecution n m k (initWaiting n st)) = rx_runData st"
    and "rx_waitingSource (prepareWaitingToExecution n m k (initWaiting n st)) \<noteq> None"
  using assms by (auto simp: prepareWaitingToExecution_def initWaiting_def Let_def update_conv' fun_eq_iff split: option.splits)

lemma waitingEntryFor_ok:
  assumes ok: "waiting_ok w st" and i: "i < numberOfInputs w n"
  shows "\<exists>st0 k xs ys. waitingEntryFor (numberOfInputs w n) n i st = Inr (st0, k) \<and>
    entry_chosen (numberOfInputs w n) n i st st0 k xs \<and> has_entry st0 n k xs ys \<and>
    length xs = numberOfInputs w n \<and> Hole \<notin> set xs \<and> rx_stack st0 = rx_stack st \<and> rx_runData st0 = rx_runData st"
proof -
  let ?m = "numberOfInputs w n" and ?obj = "obj_of (rx_waiting st) n"
  obtain src where src: "rx_waitingSource st = Some src" using waiting_okD(1) [OF ok] by blast
  have init: "obj_of (rx_waiting (initWaiting n st)) n = ?obj"
    by (simp add: initWaiting_def Let_def update_conv' split: option.splits)
  have entries: "\<forall>c \<in> set (vals (by_index ?obj)). entry_ok ?m c"
    using waiting_okD(3) [OF ok, of _ n] by (simp add: in_by_index)
  consider (new) "findWaitingEntry i (by_index ?obj) = Inr None"
      "\<forall>xs. [(Main, xs)] \<in> set (vals ?obj) \<longrightarrow> xs ! i \<noteq> Null"
    | (found) k xs where "findWaitingEntry i (by_index ?obj) = Inr (Some k)" "(k, [(Main, xs)]) \<in> set ?obj"
      "length xs = ?m" "xs ! i = Null"
    using findWaitingEntry_ok [OF entries i] by (auto simp: in_by_index)
  then show ?thesis
  proof cases
    case new
    let ?st0 = "prepareWaitingToExecution n ?m (length ?obj) (initWaiting n st)"
    have "waitingEntryFor ?m n i st = Inr (?st0, length ?obj)"
      using new(1) init by (simp add: waitingEntryFor_def Let_def)
    moreover have "\<exists>ys. has_entry ?st0 n (length ?obj) (replicate ?m Null) ys"
      using prepare_init [OF src, of n ?m "length ?obj"]
      by (cases "map_of (rx_waiting st) n") (auto simp: has_entry_def entry_at_def update_conv')
    ultimately show ?thesis using new(2) prepare_init(4,5) [OF src]
      by (intro exI [of _ ?st0] exI [of _ "length ?obj"] exI [of _ "replicate ?m Null"]) (auto simp: entry_chosen_def)
  next
    case found
    then obtain obj where obj: "map_of (rx_waiting st) n = Some obj" by (auto split: option.splits)
    then have k: "map_of obj k = Some [(Main, xs)]" using waiting_okD(2) [OF ok obj] found(2) by (simp add: jsmap_ok_def)
    have "sources_for obj (map_of src n)" using waiting_okD(4) [OF ok src obj] .
    moreover have "k \<in> set (map fst obj)" using found(2) obj by force
    ultimately obtain ys where "entry_at src n k ys" by (auto simp: sources_for_def entry_at_def)
    then have "has_entry st n k xs ys" using k obj src by (auto simp: has_entry_def entry_at_def)
    moreover have "initWaiting n st = st" using obj src by (simp add: initWaiting_def)
    moreover have "Hole \<notin> set xs" using waiting_okD(3) [OF ok, of "[(Main, xs)]" n] found(2) obj by (force simp: entry_ok_def)
    ultimately show ?thesis using found obj k by (auto simp: waitingEntryFor_def entry_chosen_def Let_def)
  qed
qed

text \<open>What the waiting executions look like once the data is in its entry.\<close>

lemma delivered:
  assumes ok: "waiting_ok w st" and chosen: "entry_chosen m n i st st0 k xs" and "has_entry st0 n k xs ys"
  shows "map_of (rx_waiting (deliver n k xs' ys' st0)) =
      (map_of (rx_waiting st))(n \<mapsto> AList.update k [(Main, xs')] (obj_of (rx_waiting st) n))"
    and "\<exists>src src1 sobj. rx_waitingSource st = Some src \<and> rx_waitingSource (deliver n k xs' ys' st0) = Some src1 \<and>
      map_of src1 = (map_of src)(n \<mapsto> AList.update k [(Main, ys')] sobj) \<and>
      sobj = (if map_of (rx_waiting st) n = None then [] else obj_of src n)"
proof -
  obtain src where src: "rx_waitingSource st = Some src" using waiting_okD(1) [OF ok] by blast
  obtain obj0 src0 sobj0 where e: "map_of (rx_waiting st0) n = Some obj0" "map_of obj0 k = Some [(Main, xs)]"
      "rx_waitingSource st0 = Some src0" "map_of src0 n = Some sobj0" "map_of sobj0 k = Some [(Main, ys)]"
    using assms(3) by (auto simp: has_entry_def entry_at_def)
  have upd: "map_of (set_main (rx_waiting st0) n k xs') = (map_of (rx_waiting st0))(n \<mapsto> AList.update k [(Main, xs')] obj0)"
    "map_of (set_main src0 n k ys') = (map_of src0)(n \<mapsto> AList.update k [(Main, ys')] sobj0)"
    using e by (auto simp: set_main_def Let_def update_conv' fun_eq_iff)
  show "map_of (rx_waiting (deliver n k xs' ys' st0)) =
      (map_of (rx_waiting st))(n \<mapsto> AList.update k [(Main, xs')] (obj_of (rx_waiting st) n))"
    using chosen e(1) upd(1) prepare_init(1) [OF src, of n m k] unfolding entry_chosen_def
    by (elim disjE) (auto simp: fun_eq_iff)
  have "map_of (set_main src0 n k ys') = (map_of src)(n \<mapsto> AList.update k [(Main, ys')]
      (if map_of (rx_waiting st) n = None then [] else obj_of src n))"
    using chosen unfolding entry_chosen_def
  proof (elim disjE conjE)
    assume st0: "st0 = st"
    then show ?thesis using upd(2) e src by (auto simp: fun_eq_iff)
  next
    assume st0: "st0 = prepareWaitingToExecution n m k (initWaiting n st)"
    show ?thesis
    proof (cases "map_of (rx_waiting st) n")
      case None
      then have "map_of src0 = (map_of src)(n \<mapsto> [(k, [(Main, replicate m None)])])"
        using prepare_init(2) [OF src, of n m k src0] st0 e(3) by simp
      then show ?thesis using upd(2) e(4) None by (auto simp: fun_eq_iff)
    next
      case (Some obj)
      then have "map_of src0 = (map_of src)(n \<mapsto> AList.update k [(Main, replicate m None)] (obj_of src n))"
        using prepare_init(3) [OF src, of n m k src0] st0 e(3) by simp
      then show ?thesis using upd(2) e(4) Some by (auto simp: fun_eq_iff)
    qed
  qed
  then show "\<exists>src src1 sobj. rx_waitingSource st = Some src \<and> rx_waitingSource (deliver n k xs' ys' st0) = Some src1 \<and>
      map_of src1 = (map_of src)(n \<mapsto> AList.update k [(Main, ys')] sobj) \<and>
      sobj = (if map_of (rx_waiting st) n = None then [] else obj_of src n)"
    using src e(3) by simp
qed

lemma waiting_ok_deliver:
  assumes ok: "waiting_ok w st" and chosen: "entry_chosen (numberOfInputs w n) n i st st0 k xs"
    and entry: "has_entry st0 n k xs ys" and xs': "entry_ok (numberOfInputs w n) [(Main, xs')]"
  shows "waiting_ok w (deliver n k xs' ys' st0)"
proof -
  let ?obj = "obj_of (rx_waiting st) n"
  note maps = delivered [OF ok chosen entry, of xs' ys']
  obtain src src1 sobj where src: "rx_waitingSource st = Some src" "rx_waitingSource (deliver n k xs' ys' st0) = Some src1"
      "map_of src1 = (map_of src)(n \<mapsto> AList.update k [(Main, ys')] sobj)"
      "sobj = (if map_of (rx_waiting st) n = None then [] else obj_of src n)" using maps(2) by blast
  have obj: "jsmap_ok ?obj" "\<forall>c \<in> set (vals ?obj). entry_ok (numberOfInputs w n) c"
    using waiting_okD(2) [OF ok, of n] waiting_okD(3) [OF ok, where n = n] by (auto simp: jsmap_ok_def split: option.splits)
  have sobj: "sources_for ?obj (Some sobj)"
    using waiting_okD(4) [OF ok src(1), of n] src(4)
    by (cases "map_of (rx_waiting st) n") (auto simp: sources_for_def jsmap_ok_def split: option.splits)
  have "AList.update k [(Main, xs')] ?obj \<noteq> []" by (cases ?obj) (auto split: if_splits)
  moreover have "jsmap_ok (AList.update k [(Main, xs')] ?obj)" using obj(1) by (rule js.inv_put)
  moreover have "\<forall>c \<in> set (vals (AList.update k [(Main, xs')] ?obj)). entry_ok (numberOfInputs w n) c"
    using set_update_subset [of k "[(Main, xs')]" ?obj] obj(2) xs' by fastforce
  moreover have "sources_for (AList.update k [(Main, xs')] ?obj) (Some (AList.update k [(Main, ys')] sobj))"
    using sobj by (rule sources_for_update)
  ultimately show ?thesis
    using ok src unfolding waiting_ok_def maps(1) [simplified] by (auto simp: maps(1) [simplified])
qed

text \<open>Taking the entry out again.\<close>

lemma delete_update [simp]: "AList.delete k (AList.update k v m) = AList.delete k m"
  by (induction m) auto

lemma dropped:
  assumes "map_of (rx_waiting st1) n = Some (AList.update k c obj)"
    and "rx_waitingSource st1 = Some src1" and "map_of src1 n = Some (AList.update k c' sobj)"
  shows "map_of (rx_waiting (dropEntry n k st1)) =
      (map_of (rx_waiting st1))(n := (if AList.delete k obj = [] then None else Some (AList.delete k obj)))"
    and "\<exists>src2. rx_waitingSource (dropEntry n k st1) = Some src2 \<and>
      map_of src2 = (map_of src1)(n := (if AList.delete k obj = [] then None else Some (AList.delete k sobj)))"
    and "rx_stack (dropEntry n k st1) = rx_stack st1" and "rx_runData (dropEntry n k st1) = rx_runData st1"
  using assms by (auto simp: dropEntry_def Let_def update_conv' delete_conv' fun_eq_iff)

lemma waiting_ok_drop:
  assumes ok: "waiting_ok w st" and chosen: "entry_chosen (numberOfInputs w n) n i st st0 k xs"
    and entry: "has_entry st0 n k xs ys"
  shows "waiting_ok w (dropEntry n k (enqueueFn w x (deliver n k xs' ys' st0)))"
proof -
  let ?obj = "obj_of (rx_waiting st) n" and ?st1 = "enqueueFn w x (deliver n k xs' ys' st0)"
  note maps = delivered [OF ok chosen entry, of xs' ys']
  obtain src src1 sobj where src: "rx_waitingSource st = Some src" "rx_waitingSource (deliver n k xs' ys' st0) = Some src1"
      "map_of src1 = (map_of src)(n \<mapsto> AList.update k [(Main, ys')] sobj)"
      "sobj = (if map_of (rx_waiting st) n = None then [] else obj_of src n)" using maps(2) by blast
  have src1: "rx_waitingSource ?st1 = Some src1" using src(2) by simp
  have at: "map_of (rx_waiting ?st1) n = Some (AList.update k [(Main, xs')] ?obj)" using maps(1) by simp
  have sat: "map_of src1 n = Some (AList.update k [(Main, ys')] sobj)" using src(3) by simp
  note drop = dropped [OF at src1 sat]
  obtain src2 where src2: "rx_waitingSource (dropEntry n k ?st1) = Some src2"
      "map_of src2 = (map_of src1)(n := (if AList.delete k ?obj = [] then None else Some (AList.delete k sobj)))"
    using drop(2) by blast
  have obj: "jsmap_ok ?obj" "\<forall>c \<in> set (vals ?obj). entry_ok (numberOfInputs w n) c"
    using waiting_okD(2) [OF ok, of n] waiting_okD(3) [OF ok, where n = n] by (auto simp: jsmap_ok_def split: option.splits)
  have "sources_for ?obj (Some sobj)"
    using waiting_okD(4) [OF ok src(1), of n] src(4)
    by (cases "map_of (rx_waiting st) n") (auto simp: sources_for_def jsmap_ok_def split: option.splits)
  then have "sources_for (AList.delete k ?obj) (Some (AList.delete k sobj))"
    by (rule sources_for_delete)
  moreover have "jsmap_ok (AList.delete k ?obj)" using obj(1) by (rule js.inv_del)
  moreover have "\<forall>c \<in> set (vals (AList.delete k ?obj)). entry_ok (numberOfInputs w n) c"
    using obj(2) by (auto simp: set_delete)
  moreover have "map_of (rx_waiting (dropEntry n k ?st1)) = (map_of (rx_waiting st))
      (n := (if AList.delete k ?obj = [] then None else Some (AList.delete k ?obj)))"
    using drop(1) maps(1) by simp
  moreover have "map_of src2 = (map_of src)(n := (if AList.delete k ?obj = [] then None else Some (AList.delete k sobj)))"
    using src2(2) src(3) by simp
  ultimately show ?thesis using ok src(1) src2(1) unfolding waiting_ok_def by auto
qed

section \<open>The waiting executions as a buffer that joins its inputs\<close>

text \<open>
  What the waiting executions of one node are for: a collection of input vectors. Data for an input
  completes a vector that lacks it, which fires when it is full, or begins a new vector when none does.
\<close>

inductive join_step ::
  "nat \<Rightarrow> nat \<Rightarrow> 'a \<Rightarrow> 'a option list multiset \<Rightarrow> 'a option list multiset \<Rightarrow> 'a option list option \<Rightarrow> bool"
  for inputs i x where
  Wait: "e \<in># M \<Longrightarrow> e ! i = None \<Longrightarrow> None \<in> set (e[i := Some x]) \<Longrightarrow>
    join_step inputs i x M (add_mset (e[i := Some x]) (M - {#e#})) None"
| Fire: "e \<in># M \<Longrightarrow> e ! i = None \<Longrightarrow> None \<notin> set (e[i := Some x]) \<Longrightarrow>
    join_step inputs i x M (M - {#e#}) (Some (e[i := Some x]))"
| Fresh: "(\<And>e. e \<in># M \<Longrightarrow> e ! i \<noteq> None) \<Longrightarrow>
    join_step inputs i x M (add_mset ((replicate inputs None)[i := Some x]) M) None"

definition vector_of :: "IInputConnections \<Rightarrow> items option list" where
  "vector_of c = map slot_val (case_option [] (\<lambda>l. l) (map_of c Main))"

definition pending :: "RunExecutionData \<Rightarrow> string \<Rightarrow> items option list multiset" where
  "pending st n = mset (map vector_of (vals (obj_of (rx_waiting st) n)))"

lemma mset_update: "mset (map f (vals (AList.update k v m))) =
    (case map_of m k of None \<Rightarrow> add_mset (f v) (mset (map f (vals m)))
     | Some u \<Rightarrow> add_mset (f v) (mset (map f (vals m)) - {#f u#}))"
proof (induction m)
  case (Cons p m)
  have "u \<in> set (vals m)" if "map_of m k = Some u" for u using that by (force dest: map_of_SomeD)
  then have "map_of m k = Some u \<Longrightarrow> f u \<in># mset (map f (vals m))" for u by auto
  with Cons show ?case by (cases p) (auto split: option.splits simp: insert_DiffM multiset_eq_iff)
qed simp

lemma mset_delete:
  assumes "jsmap_ok m" and "map_of m k = Some u"
  shows "mset (map f (vals (AList.delete k m))) = mset (map f (vals m)) - {#f u#}"
  using assms
proof (induction m)
  case (Cons p m)
  show ?case
  proof (cases "fst p = k")
    case True
    then have "k \<notin> fst ` set m" using Cons.prems(1) by (auto simp: jsmap_ok_def)
    then have "AList.delete k m = m" unfolding AList.delete_eq by (intro filter_True) force
    then show ?thesis using True Cons.prems by (cases p) auto
  next
    case False
    then have u: "map_of m k = Some u" "jsmap_ok m" using Cons.prems by (cases p, auto simp: jsmap_ok_def)+
    then have "u \<in> set (vals m)" by (force dest: map_of_SomeD)
    then have "f u \<in># mset (map f (vals m))" by auto
    then show ?thesis using False Cons.IH [OF u(2,1)] by (cases p) auto
  qed
qed simp

lemma vector_entry:
  assumes "Hole \<notin> set xs"
  shows "None \<in> set (map slot_val xs) \<longleftrightarrow> Null \<in> set xs"
    and "i < length xs \<Longrightarrow> map slot_val xs ! i = None \<longleftrightarrow> xs ! i = Null"
proof -
  have val: "slot_val s = None \<longleftrightarrow> s = Null \<or> s = Hole" for s :: "'a slot" by (cases s) simp_all
  have "None \<in> set (map slot_val xs) \<longleftrightarrow> (\<exists>s \<in> set xs. slot_val s = None)" by (metis image_iff list.set_map)
  then show "None \<in> set (map slot_val xs) \<longleftrightarrow> Null \<in> set xs" using assms val by metis
  show "i < length xs \<Longrightarrow> map slot_val xs ! i = None \<longleftrightarrow> xs ! i = Null"
    using assms val [of "xs ! i"] nth_mem [of i xs] by (metis nth_map)
qed

lemma vector_in_pending:
  "map_of (obj_of (rx_waiting st) n) k = Some c \<Longrightarrow> vector_of c \<in># pending st n"
  by (auto simp: pending_def dest!: map_of_SomeD) (force simp: image_iff)

lemma pending_delivered:
  assumes "waiting_ok w st" and "entry_chosen m n i st st0 k xs" and "has_entry st0 n k xs ys"
  shows "pending (deliver n k xs' ys' st0) n' =
    (if n' = n then (case map_of (obj_of (rx_waiting st) n) k of
         None \<Rightarrow> add_mset (map slot_val xs') (pending st n)
       | Some c \<Rightarrow> add_mset (map slot_val xs') (pending st n - {#vector_of c#})) else pending st n')"
proof -
  have v: "vector_of [(Main, xs')] = map slot_val xs'" by (simp add: vector_of_def)
  show ?thesis
    by (simp only: pending_def delivered(1) [OF assms, of xs' ys'] fun_upd_apply if_True option.case mset_update v split: if_split)
      simp
qed

lemma pending_enqueue [simp]: "pending (enqueueFn w x st) = pending st"
  by (rule ext) (simp add: pending_def)

lemma pending_dropped:
  assumes "waiting_ok w st" and "entry_chosen m n i st st0 k xs" and "has_entry st0 n k xs ys"
    and "map_of (obj_of (rx_waiting st) n) k = Some c"
  shows "pending (dropEntry n k (enqueueFn w x (deliver n k xs' ys' st0))) n' =
    (if n' = n then pending st n - {#vector_of c#} else pending st n')"
proof -
  let ?obj = "obj_of (rx_waiting st) n"
  note maps = delivered [OF assms(1-3), of xs' ys']
  obtain src src1 sobj where "rx_waitingSource (deliver n k xs' ys' st0) = Some src1"
      "map_of src1 = (map_of src)(n \<mapsto> AList.update k [(Main, ys')] sobj)" using maps(2) by blast
  then have src1: "rx_waitingSource (enqueueFn w x (deliver n k xs' ys' st0)) = Some src1"
      "map_of src1 n = Some (AList.update k [(Main, ys')] sobj)" by simp_all
  have at: "map_of (rx_waiting (enqueueFn w x (deliver n k xs' ys' st0))) n = Some (AList.update k [(Main, xs')] ?obj)"
    using maps(1) by simp
  have "jsmap_ok ?obj" using waiting_okD(2) [OF assms(1), of n] by (auto simp: jsmap_ok_def split: option.splits)
  from mset_delete [OF this assms(4), of vector_of] have
    del: "mset (map vector_of (vals (AList.delete k ?obj))) = pending st n - {#vector_of c#}" by (simp add: pending_def)
  then have "AList.delete k ?obj = [] \<Longrightarrow> pending st n - {#vector_of c#} = {#}" by simp
  then show ?thesis using dropped(1) [OF at src1] maps(1) del by (auto simp: pending_def)
qed

lemma map_slot_update: "map slot_val (xs[i := Val x]) = (map slot_val xs)[i := Some x]"
  by (simp add: map_update)

definition arrived ::
  "RunExecutionData \<Rightarrow> RunExecutionData \<Rightarrow> string \<Rightarrow> INode \<Rightarrow> nat \<Rightarrow> items slot list \<Rightarrow> items slot list \<Rightarrow> bool" where
  "arrived st st' n node k xs xs' \<longleftrightarrow>
     (let old = map_of (obj_of (rx_waiting st) n) k in
      if Null \<in> set xs'
      then rx_stack st' = rx_stack st \<and>
        pending st' n = add_mset (map slot_val xs') (pending st n - (case old of None \<Rightarrow> {#} | Some c \<Rightarrow> {#vector_of c#}))
      else old = Some [(Main, xs)] \<and>
        (\<exists>e. rx_stack st' = e # rx_stack st \<and> e_node e = node \<and> e_data e = [(Main, xs')] \<and> e_runIndex e = None) \<and>
        pending st' n = pending st n - {#map slot_val xs#}) \<and>
     (\<forall>n'. n' \<noteq> n \<longrightarrow> pending st' n' = pending st n')"

text \<open>The outcome of an arrival in the order of version 1: either the vector that takes the data becomes
  full, or it goes on waiting.\<close>

lemma addNode_v1_outcome:
  assumes ok: "waiting_ok w st" and inputs: "numberOfInputs w (c_node cd) > 1"
    and i: "c_index cd < numberOfInputs w (c_node cd)" and v1: "\<not> isLegacyExecutionOrder w"
    and node: "map_of (w_nodes w) (c_node cd) = Some node"
    and checks: "map_of (rx_waiting st) (c_node cd) = None \<Longrightarrow> checks_readable w parent (c_node cd) runIndex (rx_runData st)"
    and x: "get_slot Hole outputIndex outs = Val x"
  shows "\<exists>st' st0 k xs. addNodeToBeExecuted w cd outputIndex parent (Some outs) runIndex newRun md st = Inr st' \<and>
    waiting_ok w st' \<and> entry_chosen (numberOfInputs w (c_node cd)) (c_node cd) (c_index cd) st st0 k xs \<and>
    Hole \<notin> set xs \<and> length xs = numberOfInputs w (c_node cd) \<and>
    arrived st st' (c_node cd) node k xs (xs[c_index cd := Val x])"
proof -
  let ?n = "c_node cd" and ?i = "c_index cd" and ?m = "numberOfInputs w (c_node cd)"
  obtain st0 k xs ys where entry: "waitingEntryFor ?m ?n ?i st = Inr (st0, k)" "entry_chosen ?m ?n ?i st st0 k xs"
      "has_entry st0 ?n k xs ys" "length xs = ?m" "Hole \<notin> set xs" "rx_stack st0 = rx_stack st" "rx_runData st0 = rx_runData st"
    using waitingEntryFor_ok [OF ok i] by blast
  let ?xs = "xs[?i := Val x]"
  let ?ys = "set_slot None ?i (snd (arriving parent outputIndex (Some outs) runIndex)) ys"
  have "fst (arriving parent outputIndex (Some outs) runIndex) = Val x" using x by (simp add: arriving_def)
  then have run: "addNodeToBeExecuted w cd outputIndex parent (Some outs) runIndex newRun md st =
      (if Null \<notin> set ?xs then runWaiting w ?n k (deliver ?n k ?xs ?ys st0) else Inr (deliver ?n k ?xs ?ys st0))"
    using addNode_v1 [OF inputs entry(1,3,7) _ v1 checks] i entry(4) by simp
  have val: "Val x \<in> set ?xs" using i entry(4) by (metis set_update_memI)
  have hole: "Hole \<notin> set ?xs" using entry(5) set_update_subset_insert [of xs ?i "Val x"] by auto
  show ?thesis
  proof (cases "Null \<in> set ?xs")
    case True
    have "entry_ok ?m [(Main, ?xs)]" using True val hole entry(4) by (auto simp: entry_ok_def)
    then have "waiting_ok w (deliver ?n k ?xs ?ys st0)" by (rule waiting_ok_deliver [OF ok entry(2,3)])
    moreover have "pending (deliver ?n k ?xs ?ys st0) n' = (if n' = ?n
          then add_mset (map slot_val ?xs) (pending st n' - (case map_of (obj_of (rx_waiting st) ?n) k of
            None \<Rightarrow> {#} | Some c \<Rightarrow> {#vector_of c#})) else pending st n')" for n'
      using pending_delivered [OF ok entry(2,3), of ?xs ?ys n'] by (cases "map_of (obj_of (rx_waiting st) ?n) k") simp_all
    ultimately show ?thesis using run True entry(2,4-6)
      by (intro exI [of _ "deliver ?n k ?xs ?ys st0"] exI [of _ st0] exI [of _ k] exI [of _ xs]) (simp add: Let_def arrived_def)
  next
    case False
    have "xs \<noteq> replicate ?m Null"
    proof
      assume "xs = replicate ?m Null"
      moreover obtain j where "j < ?m" "j \<noteq> ?i" using inputs by (metis One_nat_def less_trans zero_less_one neq0_conv)
      ultimately have "?xs ! j = Null" "j < length ?xs" by simp_all
      then show False using False nth_mem by metis
    qed
    then have st0: "st0 = st" and old: "map_of (obj_of (rx_waiting st) ?n) k = Some [(Main, xs)]"
      using entry(2) unfolding entry_chosen_def by blast+
    let ?e = "\<lparr>e_node = node, e_data = [(Main, ?xs)],
      e_source = Option.bind (rx_waitingSource (deliver ?n k ?xs ?ys st0)) (\<lambda>s. Option.bind (map_of s ?n) (\<lambda>obj. map_of obj k)),
      e_runIndex = None, e_metadata = None\<rparr>"
    let ?st = "dropEntry ?n k (enqueueFn w ?e (deliver ?n k ?xs ?ys st0))"
    have "Option.bind (map_of (rx_waiting (deliver ?n k ?xs ?ys st0)) ?n) (\<lambda>obj. map_of obj k) = Some [(Main, ?xs)]"
      using delivered(1) [OF ok entry(2,3), of ?xs ?ys] by (simp add: update_conv')
    then have "addNodeToBeExecuted w cd outputIndex parent (Some outs) runIndex newRun md st = Inr ?st"
      using run False node by (simp add: runWaiting_def node_of_def)
    moreover have "waiting_ok w ?st" by (rule waiting_ok_drop [OF ok entry(2,3)])
    moreover have "pending ?st n' = (if n' = ?n then pending st n' - {#map slot_val xs#} else pending st n')" for n'
      using pending_dropped [OF ok entry(2,3) old, of ?e ?xs ?ys n'] by (simp add: vector_of_def)
    moreover have "rx_stack ?st = ?e # rx_stack st"
      using v1 entry(6) by (simp add: dropEntry_def Let_def)
    ultimately show ?thesis using False entry(2,4,5) old st0
      by (intro exI [of _ ?st] exI [of _ st0] exI [of _ k] exI [of _ xs]) (simp add: Let_def arrived_def)
  qed
qed

text \<open>A node with three inputs, fed by three nodes, and an execution in which nothing has happened.\<close>

definition merge_workflow :: Workflow where
  "merge_workflow = new_Workflow ''1'' [mk_node 0 ''A'' ''t'', mk_node 1 ''B'' ''t'', mk_node 2 ''C'' ''t'', mk_node 3 ''M'' ''t'']
     [(''A'', [(Main, [Some [\<lparr>c_node = ''M'', c_type = Main, c_index = 0\<rparr>]])]),
      (''B'', [(Main, [Some [\<lparr>c_node = ''M'', c_type = Main, c_index = 1\<rparr>]])]),
      (''C'', [(Main, [Some [\<lparr>c_node = ''M'', c_type = Main, c_index = 2\<rparr>]])])]
     (\<lambda>_ _. None) (Some ''v1'') None"

definition empty_run :: RunExecutionData where
  "empty_run = \<lparr>rx_stack = [], rx_waiting = [], rx_waitingSource = Some [], rx_runData = [], rx_pinData = None,
     rx_lastNodeExecuted = None, rx_error = None, rx_runNodeFilter = None, rx_destinationNode = None,
     rx_waitTill = None, rx_metadata = None\<rparr>"

text \<open>One run of the node that feeds input \<open>i\<close>.\<close>

definition feed :: "nat \<Rightarrow> items \<Rightarrow> nat \<Rightarrow> RunExecutionData \<Rightarrow> RunExecutionData res" where
  "feed i x run st = addNodeToBeExecuted merge_workflow \<lparr>c_node = ''M'', c_type = Main, c_index = i\<rparr> 0
     ([''A'', ''B'', ''C''] ! i) (Some [Val x]) run None None st"

lemma merge_facts:
  "numberOfInputs merge_workflow ''M'' = 3" "\<not> isLegacyExecutionOrder merge_workflow"
  "map_of (w_nodes merge_workflow) ''M'' = Some (mk_node 3 ''M'' ''t'')"
  "checks_readable merge_workflow ''A'' ''M'' run []" "checks_readable merge_workflow ''B'' ''M'' run []"
proof -
  have src: "connectionsBySourceNode merge_workflow = [(''A'', [(Main, [Some [\<lparr>c_node = ''M'', c_type = Main, c_index = 0\<rparr>]])]),
      (''B'', [(Main, [Some [\<lparr>c_node = ''M'', c_type = Main, c_index = 1\<rparr>]])]),
      (''C'', [(Main, [Some [\<lparr>c_node = ''M'', c_type = Main, c_index = 2\<rparr>]])])]" by code_simp
  have dest: "connectionsByDestinationNode merge_workflow = [(''M'', [(Main, [
      Some [\<lparr>c_node = ''A'', c_type = Main, c_index = 0\<rparr>], Some [\<lparr>c_node = ''B'', c_type = Main, c_index = 0\<rparr>],
      Some [\<lparr>c_node = ''C'', c_type = Main, c_index = 0\<rparr>]])])]" by code_simp
  show "checks_readable merge_workflow ''A'' ''M'' run []" "checks_readable merge_workflow ''B'' ''M'' run []"
    by (simp_all add: checks_readable_def src dest groups_of_def)
  show "numberOfInputs merge_workflow ''M'' = 3" by code_simp
  show "\<not> isLegacyExecutionOrder merge_workflow" by code_simp
  show "map_of (w_nodes merge_workflow) ''M'' = Some (mk_node 3 ''M'' ''t'')" by code_simp
qed

lemma empty_run_ok: "waiting_ok w empty_run"
  by (simp add: waiting_ok_def empty_run_def)

text \<open>C1. In the order of version 1, what \<open>addNodeToBeExecuted\<close> does for a node with several inputs refines the
  buffer that joins them: the arriving data completes a vector that lacks it, a full vector leaves the
  waiting executions and goes on top of the stack, and otherwise the stack stays as it was. The vectors
  of the other nodes, and every field but the stack, \<open>waitingExecution\<close> and \<open>waitingExecutionSource\<close>,
  stay as they were. The provisos: the node exists, the connection leads into one of its inputs and the
  output holds data; each waiting execution has a place with data or null for every input and a source
  entry beside it (\<open>waiting_ok\<close>, which is kept; a partial execution that was recreated with holes breaks
  it, see \<open>recreated_waiting_runs_early\<close>); when the node starts to wait, the check of its other inputs
  reads connections and outputs that exist (\<open>checks_readable\<close>); and a new vector would not get the
  index of one that is there (see \<open>addNode_overwrites_waiting\<close>).\<close>

theorem addNode_refines_join:
  assumes ok: "waiting_ok w st" and inputs: "numberOfInputs w (c_node cd) > 1"
    and i: "c_index cd < numberOfInputs w (c_node cd)" and v1: "\<not> isLegacyExecutionOrder w"
    and node: "map_of (w_nodes w) (c_node cd) = Some node"
    and checks: "map_of (rx_waiting st) (c_node cd) = None \<Longrightarrow> checks_readable w parent (c_node cd) runIndex (rx_runData st)"
    and x: "get_slot Hole outputIndex outs = Val x"
    and free: "map_of (obj_of (rx_waiting st) (c_node cd)) (length (obj_of (rx_waiting st) (c_node cd))) = None"
  shows "\<exists>st' out. addNodeToBeExecuted w cd outputIndex parent (Some outs) runIndex newRun md st = Inr st' \<and>
    join_step (numberOfInputs w (c_node cd)) (c_index cd) x (pending st (c_node cd)) (pending st' (c_node cd)) out \<and>
    (case out of None \<Rightarrow> rx_stack st' = rx_stack st
     | Some v \<Rightarrow> \<exists>e. rx_stack st' = e # rx_stack st \<and> e_node e = node \<and> vector_of (e_data e) = v) \<and>
    (\<forall>n'. n' \<noteq> c_node cd \<longrightarrow> pending st' n' = pending st n') \<and> rest_of st' = rest_of st \<and> waiting_ok w st'"
proof -
  let ?n = "c_node cd" and ?i = "c_index cd" and ?m = "numberOfInputs w (c_node cd)"
  obtain st' st0 k xs where r: "addNodeToBeExecuted w cd outputIndex parent (Some outs) runIndex newRun md st = Inr st'"
      "waiting_ok w st'" "entry_chosen ?m ?n ?i st st0 k xs" "Hole \<notin> set xs" "length xs = ?m"
      "arrived st st' ?n node k xs (xs[?i := Val x])"
    using addNode_v1_outcome [OF ok inputs i v1 node checks x, of newRun md] by blast
  have hole: "Hole \<notin> set (xs[?i := Val x])" using r(4) set_update_subset_insert [of xs ?i "Val x"] by auto
  note vec = vector_entry(1) [OF hole, unfolded map_slot_update] vector_entry(2) [OF r(4), of ?i, unfolded r(5), OF i]
  note rest = addNode_rest [OF r(1)]
  note fields = r(6) [unfolded arrived_def Let_def map_slot_update]
  have vo: "vector_of [(Main, ys)] = map slot_val ys" for ys by (simp add: vector_of_def)
  consider (found) "map_of (obj_of (rx_waiting st) ?n) k = Some [(Main, xs)]" "xs ! ?i = Null"
    | (fresh) "map_of (obj_of (rx_waiting st) ?n) k = None" "xs = replicate ?m Null"
      "\<forall>ys. [(Main, ys)] \<in> set (vals (obj_of (rx_waiting st) ?n)) \<longrightarrow> ys ! ?i \<noteq> Null"
    using r(3) free unfolding entry_chosen_def by (elim disjE conjE) (blast, simp)
  then show ?thesis
  proof cases
    case found
    have e: "map slot_val xs \<in># pending st ?n" using vector_in_pending [OF found(1)] by (simp add: vo)
    show ?thesis
    proof (cases "Null \<in> set (xs[?i := Val x])")
      case True
      then have "join_step ?m ?i x (pending st ?n) (pending st' ?n) None"
        using join_step.Wait [OF e, of ?i x ?m] vec found fields by (simp add: vo)
      then show ?thesis using r(1,2) rest fields True by (intro exI [of _ st'] exI [of _ None]) simp
    next
      case False
      then have "join_step ?m ?i x (pending st ?n) (pending st' ?n) (Some ((map slot_val xs)[?i := Some x]))"
        using join_step.Fire [OF e, of ?i x ?m] vec found fields by simp
      then show ?thesis using r(1,2) rest fields False
        by (intro exI [of _ st'] exI [of _ "Some ((map slot_val xs)[?i := Some x])"]) (auto simp: vo map_slot_update)
    qed
  next
    case fresh
    have null: "Null \<in> set (xs[?i := Val x])" using fields fresh(1) by (cases "Null \<in> set (xs[?i := Val x])") auto
    have full: "v ! ?i \<noteq> None" if v: "v \<in># pending st ?n" for v
    proof -
      obtain c where c: "c \<in> set (vals (obj_of (rx_waiting st) ?n))" "v = vector_of c" using v by (auto simp: pending_def)
      then obtain ys where ys: "c = [(Main, ys)]" "length ys = ?m" "Hole \<notin> set ys"
        using waiting_okD(3) [OF ok c(1)] unfolding entry_ok_def by blast
      then show ?thesis using vector_entry(2) [OF ys(3), of ?i] i fresh(3) c by (auto simp: vo)
    qed
    have "join_step ?m ?i x (pending st ?n) (pending st' ?n) None"
      using join_step.Fresh [of "pending st ?n" ?i ?m x, OF full] fields null fresh by simp
    then show ?thesis using r(1,2) rest fields null by (intro exI [of _ st'] exI [of _ None]) simp
  qed
qed

lemma addNode_refines_join_witness:
  "\<exists>st out. feed 0 [empty_item] 0 empty_run = Inr st \<and>
     join_step 3 0 [empty_item] {#} (pending st ''M'') out \<and> waiting_ok merge_workflow st"
  using addNode_refines_join [of merge_workflow empty_run "\<lparr>c_node = ''M'', c_type = Main, c_index = 0\<rparr>" "mk_node 3 ''M'' ''t''"
      "''A''" 0 0 "[Val [empty_item]]" "[empty_item]" None None]
  by (simp add: empty_run_ok merge_facts feed_def get_slot_def) (auto simp: empty_run_def pending_def merge_facts)

text \<open>A new waiting entry gets the number of entries as its index. When entries have left, that index can
  belong to an entry that still waits: it is overwritten, and what it had collected is lost.\<close>

theorem addNode_overwrites_waiting:
  assumes ok: "waiting_ok w st" and inputs: "numberOfInputs w (c_node cd) > 1"
    and i: "c_index cd < numberOfInputs w (c_node cd)" and v1: "\<not> isLegacyExecutionOrder w"
    and node: "map_of (w_nodes w) (c_node cd) = Some node"
    and x: "get_slot Hole outputIndex outs = Val x"
    and full: "\<And>v. v \<in># pending st (c_node cd) \<Longrightarrow> v ! c_index cd \<noteq> None"
    and taken: "map_of (obj_of (rx_waiting st) (c_node cd)) (length (obj_of (rx_waiting st) (c_node cd))) = Some c"
  shows "\<exists>st'. addNodeToBeExecuted w cd outputIndex parent (Some outs) runIndex newRun md st = Inr st' \<and>
    rx_stack st' = rx_stack st \<and> vector_of c \<in># pending st (c_node cd) \<and>
    pending st' (c_node cd) = add_mset ((replicate (numberOfInputs w (c_node cd)) None)[c_index cd := Some x])
      (pending st (c_node cd) - {#vector_of c#})"
proof -
  let ?n = "c_node cd" and ?i = "c_index cd" and ?m = "numberOfInputs w (c_node cd)"
  have waits: "map_of (rx_waiting st) ?n \<noteq> None" using taken by (auto split: option.splits)
  obtain st' st0 k xs where r: "addNodeToBeExecuted w cd outputIndex parent (Some outs) runIndex newRun md st = Inr st'"
      "entry_chosen ?m ?n ?i st st0 k xs" "Hole \<notin> set xs" "length xs = ?m"
      "arrived st st' ?n node k xs (xs[?i := Val x])"
    using addNode_v1_outcome [OF ok inputs i v1 node _ x, of parent runIndex newRun md] waits by blast
  have "\<not> (map_of (obj_of (rx_waiting st) ?n) k = Some [(Main, xs)] \<and> xs ! ?i = Null)"
    using full [OF vector_in_pending] i r(4) by (fastforce simp: vector_of_def)
  then have k: "k = length (obj_of (rx_waiting st) ?n)" "xs = replicate ?m Null"
    using r(2) unfolding entry_chosen_def by blast+
  obtain j where j: "j < ?m" "j \<noteq> ?i" using inputs by (metis One_nat_def less_trans zero_less_one neq0_conv)
  then have "(xs[?i := Val x]) ! j = Null" "j < length (xs[?i := Val x])" using k(2) by simp_all
  then have "Null \<in> set (xs[?i := Val x])" by (metis nth_mem)
  then show ?thesis using r(1,5) taken k vector_in_pending [OF taken] by (simp add: arrived_def Let_def map_slot_update)
qed

text \<open>Execution data that waits at index 1, after three nodes have fed it once and the first one again.\<close>

definition waiting_at_1 :: RunExecutionData where
  "waiting_at_1 = (case rbind (rbind (rbind (feed 0 [empty_item] 0 empty_run) (feed 0 [] 1)) (feed 1 [] 0)) (feed 2 [] 0) of
     Inr st \<Rightarrow> st | Inl _ \<Rightarrow> empty_run)"

lemma waiting_at_1_eq:
  "rx_waiting waiting_at_1 = [(''M'', [(1, [(Main, [Val [], Null, Null])])])]"
  "\<exists>ys. rx_waitingSource waiting_at_1 = Some [(''M'', [(1, [(Main, ys)])])]"
proof -
  show "rx_waiting waiting_at_1 = [(''M'', [(1, [(Main, [Val [], Null, Null])])])]" by code_simp
  have "rx_waitingSource waiting_at_1 = Some [(''M'', [(1, [(Main,
      [Some \<lparr>previousNode = ''A'', previousNodeOutput = Some 0, previousNodeRun = Some 1\<rparr>, None, None])])])]" by code_simp
  then show "\<exists>ys. rx_waitingSource waiting_at_1 = Some [(''M'', [(1, [(Main, ys)])])]" by blast
qed

lemma addNode_overwrites_waiting_witness:
  "\<exists>st. feed 0 [empty_item] 2 waiting_at_1 = Inr st \<and> [Some [], None, None] \<in># pending waiting_at_1 ''M'' \<and>
     pending st ''M'' = {# [Some [empty_item], None, None] #}"
proof -
  have ok: "waiting_ok merge_workflow waiting_at_1"
    using waiting_at_1_eq by (auto simp: waiting_ok_def entry_ok_def sources_for_def jsmap_ok_def merge_facts)
  have p: "pending waiting_at_1 ''M'' = {# [Some [], None, None] #}"
    by (simp add: pending_def waiting_at_1_eq vector_of_def)
  show ?thesis
    using addNode_overwrites_waiting [of merge_workflow waiting_at_1 "\<lparr>c_node = ''M'', c_type = Main, c_index = 0\<rparr>"
      "mk_node 3 ''M'' ''t''" 0 "[Val [empty_item]]" "[empty_item]" "[(Main, [Val [], Null, Null])]" "''A''" 2 None None] ok p
    by (simp add: merge_facts feed_def get_slot_def waiting_at_1_eq vector_of_def numeral_3_eq_3) blast
qed

text \<open>Waiting executions that \<open>recreateNodeExecutionStack\<close> rebuilds have holes where data is missing, and
  only \<open>null\<close> counts as missing: a node of three inputs whose second one had data runs as soon as the
  first one gets some, without the third.\<close>

theorem recreated_waiting_runs_early:
  assumes inputs: "numberOfInputs w (c_node cd) > 2" and i: "c_index cd = 0"
    and node: "map_of (w_nodes w) (c_node cd) = Some node"
    and x: "get_slot Hole outputIndex outs = Val x"
    and waiting: "rx_waiting st = addWaitingExecution [] (c_node cd) 0 Main 1 (Some y)"
      "rx_waitingSource st = Some (addWaitingExecutionSource [] (c_node cd) 0 Main 1 s)"
  shows "\<exists>e st'. addNodeToBeExecuted w cd outputIndex parent (Some outs) runIndex newRun md st = Inr st' \<and>
    rx_stack st' = (if isLegacyExecutionOrder w then rx_stack st @ [e] else e # rx_stack st) \<and>
    e_node e = node \<and> e_data e = [(Main, [Val x, Val y])] \<and> rx_waiting st' = []"
proof -
  let ?n = "c_node cd"
  have w: "rx_waiting st = [(?n, [(0, [(Main, [Hole, Val y])])])]"
    "rx_waitingSource st = Some [(?n, [(0, [(Main, [None, s])])])]"
    using waiting by (simp_all add: addWaitingExecution_def addWaitingExecutionSource_def waiting_slot_def set_slot_def)
  have many: "Suc 0 < numberOfInputs w ?n" using inputs by simp
  have "waitingEntryFor (numberOfInputs w ?n) ?n 0 st = Inr (st, 0)"
    by (simp add: waitingEntryFor_def initWaiting_def w by_index_def get_slot_def)
  then show ?thesis
    by (simp add: addNodeToBeExecuted_def Let_def many i arriving_def x fillWaiting_def put_main_def main_of_def
        w set_main_def set_slot_def runWaiting_def node_of_def node dropEntry_def)
qed

lemma recreated_waiting_runs_early_witness:
  "\<exists>e st'. addNodeToBeExecuted merge_workflow \<lparr>c_node = ''M'', c_type = Main, c_index = 0\<rparr> 0 ''A''
       (Some [Val []]) 0 None None (empty_run\<lparr>rx_waiting := addWaitingExecution [] ''M'' 0 Main 1 (Some [empty_item]),
         rx_waitingSource := Some (addWaitingExecutionSource [] ''M'' 0 Main 1 None)\<rparr>) = Inr st' \<and>
     rx_stack st' = [e] \<and> e_data e = [(Main, [Val [], Val [empty_item]])]"
  using recreated_waiting_runs_early [of merge_workflow "\<lparr>c_node = ''M'', c_type = Main, c_index = 0\<rparr>" "mk_node 3 ''M'' ''t''" 0
    "[Val []]" "[]" "empty_run\<lparr>rx_waiting := addWaitingExecution [] ''M'' 0 Main 1 (Some [empty_item]),
         rx_waitingSource := Some (addWaitingExecutionSource [] ''M'' 0 Main 1 None)\<rparr>" "[empty_item]" None "''A''" 0 None None]
  by (simp add: merge_facts get_slot_def) (auto simp: empty_run_def)

end
