(* ===== verification/StartNode.thy ===== *)
theory StartNode
  imports WorkflowGraph
begin

text \<open>
  Second part of \<open>workflow.ts\<close>: the highest parents of a node, breadth-first search by depth,
  the choice of the node an execution starts from, connections between two sets of nodes.
\<close>

section \<open>getHighestNode\<close>

text \<open>
  The array \<open>checkedNodes\<close> is shared by the whole recursion and mutated, so it is threaded
  through; the fuel bounds the depth of the recursion, each level of which checks one more
  node that has inputs. The two loop bodies stand before the recursion, which they take as an
  argument.
\<close>

definition highestOfConnection ::
  "(string \<Rightarrow> string list \<Rightarrow> (string list \<times> string list) res) \<Rightarrow> Workflow \<Rightarrow>
   string list \<times> string list \<Rightarrow> IConnection \<Rightarrow> (string list \<times> string list) res" where
  "highestOfConnection recurse w = (\<lambda>(returnNodes, checkedNodes) connection.
     if c_node connection \<in> set checkedNodes then Inr (returnNodes, checkedNodes)
     else case map_of (w_nodes w) (c_node connection) of
       None \<Rightarrow> Inr (returnNodes, checkedNodes)
     | Some parent \<Rightarrow>
         rbind (recurse (c_node connection) checkedNodes) (\<lambda>(addNodes, checkedNodes).
           Inr (foldl (\<lambda>ret name. sadd name ret) returnNodes
                  (if addNodes = [] \<and> n_disabled parent \<noteq> Some True
                   then [c_node connection] else addNodes), checkedNodes)))"

definition highestOfIndex ::
  "(string \<Rightarrow> string list \<Rightarrow> (string list \<times> string list) res) \<Rightarrow> Workflow \<Rightarrow> nat option \<Rightarrow>
   string list \<times> string list \<Rightarrow> nat \<times> IConnection list option \<Rightarrow> (string list \<times> string list) res" where
  "highestOfIndex recurse w nodeConnectionIndex acc = (\<lambda>(connectionIndex, connectionsByIndex).
     if nodeConnectionIndex \<noteq> None \<and> nodeConnectionIndex \<noteq> Some connectionIndex then Inr acc
     else foldR (highestOfConnection recurse w) acc (case_option [] (\<lambda>g. g) connectionsByIndex))"

fun getHighestNode_rec ::
  "nat \<Rightarrow> Workflow \<Rightarrow> string \<Rightarrow> nat option \<Rightarrow> string list \<Rightarrow> (string list \<times> string list) res" where
  "getHighestNode_rec 0 w nodeName nodeConnectionIndex checkedNodes = Inl OutOfFuel"
| "getHighestNode_rec (Suc fuel) w nodeName nodeConnectionIndex checkedNodes =
     (case map_of (w_nodes w) nodeName of
        None \<Rightarrow> Inl TypeError
      | Some node \<Rightarrow>
          let currentHighest = (if n_disabled node = Some False then [nodeName] else []) in
          case map_of (connectionsByDestinationNode w) nodeName of
            None \<Rightarrow> Inr (currentHighest, checkedNodes)
          | Some nodeConnections \<Rightarrow>
              (case map_of nodeConnections Main of
                 None \<Rightarrow> Inr (currentHighest, checkedNodes)
               | Some groups \<Rightarrow>
                   if nodeName \<in> set checkedNodes then Inr (currentHighest, checkedNodes)
                   else foldR (highestOfIndex (\<lambda>name checked. getHighestNode_rec fuel w name None checked)
                                 w nodeConnectionIndex)
                          ([], checkedNodes @ [nodeName]) (List.enumerate 0 groups)))"

definition getHighestNode :: "Workflow \<Rightarrow> string \<Rightarrow> nat option \<Rightarrow> string list res" where
  "getHighestNode w nodeName nodeConnectionIndex =
     rbind (getHighestNode_rec (Suc (length (connectionsByDestinationNode w))) w nodeName
              nodeConnectionIndex [])
       (\<lambda>(returnNodes, checked). Inr returnNodes)"

text \<open>A node that may start an execution above \<open>n\<close>: it exists, is not disabled, and is \<open>n\<close> or
  one of its ancestors.\<close>

definition highest_ok :: "Workflow \<Rightarrow> string \<Rightarrow> string \<Rightarrow> bool" where
  "highest_ok w n m \<longleftrightarrow>
     (\<exists>node. map_of (w_nodes w) m = Some node \<and> n_disabled node \<noteq> Some True) \<and>
     (n, m) \<in> (edges (connectionsByDestinationNode w) (OfType Main))\<^sup>*"

lemma not_checked_mono: "set chk \<subseteq> set chk' \<Longrightarrow> not_checked conns chk' \<le> not_checked conns chk"
  unfolding not_checked_def by (induction conns) auto

text \<open>What every turn of the loops keeps, for a start node \<open>n\<close> and the nodes \<open>chk\<close> checked
  before.\<close>

definition highest_inv :: "Workflow \<Rightarrow> string \<Rightarrow> string list \<Rightarrow> string list \<times> string list \<Rightarrow> bool" where
  "highest_inv w n chk acc \<longleftrightarrow> set chk \<subseteq> set (snd acc) \<and> distinct (fst acc) \<and>
     (\<forall>m \<in> set (fst acc). highest_ok w n m)"

lemma flat_groups_enumerate:
  assumes "ig \<in> set (List.enumerate 0 gs)" and "c \<in> set (case_option [] (\<lambda>g. g) (snd ig))"
  shows "c \<in> set (flat_groups gs)"
proof -
  obtain g where "snd ig = Some g" "c \<in> set g"
    using assms(2) by (cases "snd ig") auto
  then show ?thesis
    using assms(1) by (cases ig) (auto simp: in_set_enumerate_eq flat_groups_iff)
qed

lemma highest_ok_parent:
  assumes "(n, p) \<in> edges (connectionsByDestinationNode w) (OfType Main)" and "highest_ok w p m"
  shows "highest_ok w n m"
  using assms by (auto simp: highest_ok_def intro: converse_rtrancl_into_rtrancl)

lemma highestOfConnection_total:
  assumes rec: "\<And>p c. map_of (w_nodes w) p \<noteq> None \<Longrightarrow> set chk \<subseteq> set c \<Longrightarrow>
      \<exists>t. recurse p c = Inr t \<and> highest_inv w p c t"
    and edge: "(n, c_node conn) \<in> edges (connectionsByDestinationNode w) (OfType Main)"
    and acc: "highest_inv w n chk acc"
  shows "\<exists>t. highestOfConnection recurse w acc conn = Inr t \<and> highest_inv w n chk t"
proof (cases "c_node conn \<in> set (snd acc) \<or> map_of (w_nodes w) (c_node conn) = None")
  case True
  with acc show ?thesis by (auto simp: highestOfConnection_def split: prod.split option.split)
next
  case False
  then obtain parent where parent: "map_of (w_nodes w) (c_node conn) = Some parent" by auto
  obtain t where t: "recurse (c_node conn) (snd acc) = Inr t" "highest_inv w (c_node conn) (snd acc) t"
    using rec [of "c_node conn" "snd acc"] parent acc by (auto simp: highest_inv_def)
  have "highest_ok w n (c_node conn)" if "n_disabled parent \<noteq> Some True"
    using that parent edge by (auto simp: highest_ok_def)
  then show ?thesis
    using False parent t acc highest_ok_parent [OF edge]
    by (cases acc; cases t) (auto simp: highestOfConnection_def highest_inv_def foldl_sadd)
qed

lemma highestOfIndex_total:
  assumes rec: "\<And>p c. map_of (w_nodes w) p \<noteq> None \<Longrightarrow> set chk \<subseteq> set c \<Longrightarrow>
      \<exists>t. recurse p c = Inr t \<and> highest_inv w p c t"
    and edge: "\<And>c. c \<in> set (case_option [] (\<lambda>g. g) (snd ig)) \<Longrightarrow>
      (n, c_node c) \<in> edges (connectionsByDestinationNode w) (OfType Main)"
    and acc: "highest_inv w n chk acc"
  shows "\<exists>t. highestOfIndex recurse w ci acc ig = Inr t \<and> highest_inv w n chk t"
proof -
  have "\<exists>t. foldR (highestOfConnection recurse w) acc (case_option [] (\<lambda>g. g) (snd ig)) = Inr t \<and>
      highest_inv w n chk t"
    by (rule foldR_total [where P = "highest_inv w n chk", OF acc])
      (rule highestOfConnection_total [OF rec edge])
  with acc show ?thesis
    by (cases ig) (auto simp: highestOfIndex_def simp del: split_paired_Ex)
qed

lemma getHighestNode_rec_total:
  assumes "map_of (w_nodes w) n \<noteq> None" and "not_checked (connectionsByDestinationNode w) chk < fuel"
  shows "\<exists>t. getHighestNode_rec fuel w n ci chk = Inr t \<and> highest_inv w n chk t"
  using assms
proof (induction fuel arbitrary: n ci chk)
  case 0
  then show ?case by simp
next
  case (Suc fuel)
  let ?C = "connectionsByDestinationNode w"
  from Suc.prems(1) obtain node where node: "map_of (w_nodes w) n = Some node" by auto
  show ?case
  proof (cases "\<exists>ncs gs. map_of ?C n = Some ncs \<and> map_of ncs Main = Some gs \<and> n \<notin> set chk")
    case False
    then show ?thesis
      using node by (auto simp: Let_def highest_ok_def highest_inv_def split: option.split)
  next
    case True
    then obtain ncs gs where gs: "map_of ?C n = Some ncs" "map_of ncs Main = Some gs" "n \<notin> set chk"
      by auto
    have less: "not_checked ?C (chk @ [n]) < fuel"
      using not_checked_less [OF gs(1,3)] Suc.prems(2) by simp
    have rec: "\<exists>t. getHighestNode_rec fuel w p None c = Inr t \<and> highest_inv w p c t"
      if "map_of (w_nodes w) p \<noteq> None" "set (chk @ [n]) \<subseteq> set c" for p c
      using Suc.IH [OF that(1)] le_less_trans [OF not_checked_mono [OF that(2)] less] by blast
    have edge: "(n, c_node c) \<in> edges ?C (OfType Main)"
      if "ig \<in> set (List.enumerate 0 gs)" "c \<in> set (case_option [] (\<lambda>g. g) (snd ig))" for ig c
      using flat_groups_enumerate [OF that] gs edges_OfType [of ?C Main n] by (auto simp: groups_of_def)
    have start: "highest_inv w n (chk @ [n]) ([], chk @ [n])" by (simp add: highest_inv_def)
    have "\<exists>t. foldR (highestOfIndex (\<lambda>name checked. getHighestNode_rec fuel w name None checked) w ci)
        ([], chk @ [n]) (List.enumerate 0 gs) = Inr t \<and> highest_inv w n (chk @ [n]) t"
      by (rule foldR_total [where P = "highest_inv w n (chk @ [n])", OF start]) (rule highestOfIndex_total [OF rec edge])
    then show ?thesis using node gs by (auto simp: Let_def highest_inv_def)
  qed
qed

text \<open>\<open>getHighestNode\<close> always returns for a node of the workflow, without duplicates, and
  every node it returns exists, is not disabled, and is the node itself or an ancestor of it.\<close>

theorem getHighestNode_sound:
  assumes "map_of (w_nodes w) n \<noteq> None"
  shows "\<exists>ret. getHighestNode w n ci = Inr ret \<and> distinct ret \<and> (\<forall>m \<in> set ret. highest_ok w n m)"
proof -
  have "not_checked (connectionsByDestinationNode w) [] < Suc (length (connectionsByDestinationNode w))"
    by (simp add: not_checked_def)
  then show ?thesis
    using getHighestNode_rec_total [OF assms, of "[]" _ ci]
    by (fastforce simp: getHighestNode_def highest_inv_def)
qed

lemma getHighestNode_sound_witness:
  "\<exists>ret. getHighestNode (new_Workflow ''w'' [mk_node 0 ''A'' ''t'', mk_node 1 ''B'' ''t'', mk_node 2 ''M'' ''t'']
       conns_example (\<lambda>_ _. None) (Some ''v1'') None) ''M'' None = Inr ret \<and> distinct ret \<and>
     (\<forall>m \<in> set ret. highest_ok (new_Workflow ''w''
       [mk_node 0 ''A'' ''t'', mk_node 1 ''B'' ''t'', mk_node 2 ''M'' ''t'']
       conns_example (\<lambda>_ _. None) (Some ''v1'') None) ''M'' m)"
  by (rule getHighestNode_sound)
    (simp add: new_Workflow_def setSettings_def setPinData_def setConnections_def setNodes_def)

section \<open>The start node\<close>

definition index_of :: "'a \<Rightarrow> 'a list \<Rightarrow> int" where
  "index_of x xs = (case List.extract (\<lambda>y. y = x) xs of None \<Rightarrow> -1 | Some (l, _, _) \<Rightarrow> int (length l))"

definition STARTING_NODE_TYPES :: "string list" where
  "STARTING_NODE_TYPES = [''n8n-nodes-base.manualTrigger'', ''n8n-nodes-base.executeWorkflowTrigger'',
     ''n8n-nodes-base.errorTrigger'', ''n8n-nodes-base.evaluationTrigger'', ''n8n-nodes-base.formTrigger'']"

definition MANUAL_CHAT_TRIGGER_LANGCHAIN_NODE_TYPE :: string where
  "MANUAL_CHAT_TRIGGER_LANGCHAIN_NODE_TYPE = ''@n8n/n8n-nodes-langchain.manualChatTrigger''"

text \<open>The first loop: trigger and poll nodes among the candidates. An unknown node or node type
  throws, because the loop reads a property of it.\<close>

fun firstTriggerOrPoll :: "Workflow \<Rightarrow> string list \<Rightarrow> INode option res" where
  "firstTriggerOrPoll w [] = Inr None"
| "firstTriggerOrPoll w (nodeName # names) =
     (case map_of (w_nodes w) nodeName of
        None \<Rightarrow> Inl TypeError
      | Some node \<Rightarrow>
          (case nodeTypes w (n_type node) (n_typeVersion node) of
             None \<Rightarrow> Inl TypeError
           | Some nodeType \<Rightarrow>
               if nt_name nodeType = MANUAL_CHAT_TRIGGER_LANGCHAIN_NODE_TYPE then firstTriggerOrPoll w names
               else if (nt_trigger nodeType \<or> nt_poll nodeType) \<and> \<not> disabled node then Inr (Some node)
               else firstTriggerOrPoll w names))"

definition startingNodes :: "Workflow \<Rightarrow> INode list" where
  "startingNodes w =
     filter (\<lambda>node. n_type node \<in> set STARTING_NODE_TYPES \<and> \<not> disabled node)
       (sort_key (\<lambda>n. index_of (n_type n) STARTING_NODE_TYPES) (vals (w_nodes w)))"

definition getStartNode_among :: "Workflow \<Rightarrow> string list \<Rightarrow> INode option res" where
  "getStartNode_among w nodeNames =
     (case (case nodeNames of
              [nodeName] \<Rightarrow> (case map_of (w_nodes w) nodeName of
                  None \<Rightarrow> None | Some node \<Rightarrow> if disabled node then None else Some node)
            | _ \<Rightarrow> None) of
        Some node \<Rightarrow> Inr (Some node)
      | None \<Rightarrow>
          rbind (firstTriggerOrPoll w nodeNames) (\<lambda>found.
            case found of
              Some node \<Rightarrow> Inr (Some node)
            | None \<Rightarrow> Inr (case startingNodes w of [] \<Rightarrow> None | node # _ \<Rightarrow> Some node)))"

definition getStartNode :: "Workflow \<Rightarrow> string option \<Rightarrow> INode option res" where
  "getStartNode w destinationNode =
     (case destinationNode of
        Some dest \<Rightarrow>
          rbind (getHighestNode w dest None) (\<lambda>highest.
            let nodeNames = (if highest = [] then [dest] else highest) in
            rbind (getStartNode_among w nodeNames) (\<lambda>found.
              case found of
                Some node \<Rightarrow> Inr (Some node)
              | None \<Rightarrow> Inr (map_of (w_nodes w) (hd nodeNames))))
      | None \<Rightarrow> getStartNode_among w (map fst (w_nodes w)))"

lemma firstTriggerOrPoll_Some:
  "firstTriggerOrPoll w names = Inr (Some node) \<Longrightarrow>
     \<exists>name nodeType. name \<in> set names \<and> map_of (w_nodes w) name = Some node \<and>
       nodeTypes w (n_type node) (n_typeVersion node) = Some nodeType \<and>
       (nt_trigger nodeType \<or> nt_poll nodeType) \<and> \<not> disabled node"
  by (induction names) (fastforce split: option.splits if_splits)+

text \<open>The nodes a loop over all of the workflow's nodes may start from.\<close>

definition can_start :: "Workflow \<Rightarrow> INode \<Rightarrow> bool" where
  "can_start w node \<longleftrightarrow> \<not> disabled node \<and>
     (length (w_nodes w) = 1 \<or> n_type node \<in> set STARTING_NODE_TYPES \<or>
      (\<exists>nodeType. nodeTypes w (n_type node) (n_typeVersion node) = Some nodeType \<and>
         (nt_trigger nodeType \<or> nt_poll nodeType)))"

text \<open>Without a destination, the start node of a workflow is one of its nodes, is not disabled,
  and is a trigger or poll node, a node of a starting type, or the only node there is.\<close>

theorem getStartNode_can_start:
  assumes "getStartNode w None = Inr (Some node)"
  shows "node \<in> set (vals (w_nodes w)) \<and> can_start w node"
proof -
  have in_vals: "map_of (w_nodes w) name = Some node \<Longrightarrow> node \<in> set (vals (w_nodes w))" for name
    by (auto dest: map_of_SomeD intro: image_eqI [where x = "(name, node)"])
  have starting: "startingNodes w = node # ns \<Longrightarrow> node \<in> set (vals (w_nodes w)) \<and> can_start w node" for ns
  proof -
    assume "startingNodes w = node # ns"
    then have "node \<in> set (startingNodes w)" by simp
    then show ?thesis by (auto simp: startingNodes_def can_start_def)
  qed
  show ?thesis
  proof (cases "\<exists>name. map fst (w_nodes w) = [name] \<and> map_of (w_nodes w) name = Some node \<and> \<not> disabled node")
    case True
    then show ?thesis using in_vals by (auto simp: can_start_def)
  next
    case False
    then show ?thesis
      using assms firstTriggerOrPoll_Some [of w "map fst (w_nodes w)" node] in_vals starting
      by (auto simp: getStartNode_def getStartNode_among_def res_simps can_start_def
          split: list.splits option.splits if_splits)
  qed
qed

definition start_example :: Workflow where
  "start_example = new_Workflow ''w''
     [mk_node 0 ''S'' ''n8n-nodes-base.set'', mk_node 1 ''E'' ''n8n-nodes-base.errorTrigger'',
      mk_node 2 ''T'' ''n8n-nodes-base.manualTrigger'']
     [] (\<lambda>ty _. Some \<lparr>nt_name = ty, nt_group = [], nt_inputs = 1, nt_outputs = None, nt_requiredInputs = None,
        nt_execute = True, nt_poll = False, nt_trigger = False, nt_webhook = False,
        nt_supplyData = False, nt_requestDefaults = False, nt_customOperations = []\<rparr>)
     (Some ''v1'') None"

lemma start_example_eval:
  "getStartNode start_example None = Inr (Some (mk_node 2 ''T'' ''n8n-nodes-base.manualTrigger''))"
  by (simp add: start_example_def new_Workflow_def setSettings_def setPinData_def setConnections_def
      setNodes_def getStartNode_def getStartNode_among_def startingNodes_def STARTING_NODE_TYPES_def
      MANUAL_CHAT_TRIGGER_LANGCHAIN_NODE_TYPE_def index_of_def List.extract_def)

lemma getStartNode_can_start_witness:
  "mk_node 2 ''T'' ''n8n-nodes-base.manualTrigger'' \<in> set (vals (w_nodes start_example)) \<and>
   can_start start_example (mk_node 2 ''T'' ''n8n-nodes-base.manualTrigger'')"
  by (rule getStartNode_can_start [OF start_example_eval])

end
