(* ===== verification/EngineNode.thy ===== *)
theory EngineNode
  imports Engine StartNode
begin

text \<open>
  Running one node: the methods of \<open>workflow-execute.ts\<close> around the call of the node's own code, which
  is a parameter. They choose what to run on which data (\<open>runNode\<close>), decide whether the inputs are there
  (\<open>ensureInputData\<close>), pair output items with input items (\<open>assignPairedItems\<close>), send failed items to the
  error output (\<open>handleNodeErrorOutput\<close>) and keep the records of the execution.
\<close>

section \<open>What a node is asked to do\<close>

datatype NodeResponse = ResponseData "items slot list option" | Request EngineRequest

definition isEngineRequest :: "NodeResponse \<Rightarrow> bool" where
  "isEngineRequest r = (case r of Request _ \<Rightarrow> True | ResponseData _ \<Rightarrow> False)"

record EngineResponse =
  er_actionResponses :: "(ITaskData \<times> EngineAction) list"
  er_metadata :: json

definition makeEngineResponse :: EngineResponse where
  "makeEngineResponse = \<lparr>er_actionResponses = [], er_metadata = JObj []\<rparr>"

text \<open>The ways the code of a node is entered: its \<open>execute\<close> or a custom operation, its poll or trigger
  function, or the requests it declares.\<close>

datatype NodeCall = CallExecute "(string \<times> string) option" | CallPoll | CallTrigger | CallDeclarative

definition getCustomOperation :: "INode \<Rightarrow> INodeType \<Rightarrow> (string \<times> string) option" where
  "getCustomOperation node type =
     (let (resource, operation) = (case n_forceCustomOperation node of
            Some (r, oper) \<Rightarrow> (Some (JStr r), Some (JStr oper))
          | None \<Rightarrow> (map_of (n_parameters node) ''resource'', map_of (n_parameters node) ''operation''))
      in case (resource, operation) of
           (Some (JStr r), Some (JStr oper)) \<Rightarrow> if (r, oper) \<in> set (nt_customOperations type) then Some (r, oper) else None
         | _ \<Rightarrow> None)"

definition handleDisabledNode :: "IInputConnections \<Rightarrow> items slot list option" where
  "handleDisabledNode inputData =
     (case map_of inputData Main of
        Some (x # xs) \<Rightarrow> if x = Null then None else Some [x]
      | _ \<Rightarrow> None)"

text \<open>The first input of \<open>inputs\<close> with items.\<close>

fun firstWithItems :: "items slot list \<Rightarrow> items slot option" where
  "firstWithItems [] = None"
| "firstWithItems (Val (x # xs) # rest) = Some (Val (x # xs))"
| "firstWithItems (_ # rest) = firstWithItems rest"

definition prepareConnectionInputData ::
  "Workflow \<Rightarrow> INodeType \<Rightarrow> (string \<times> string) option \<Rightarrow> IInputConnections \<Rightarrow> items option" where
  "prepareConnectionInputData workflow nodeType customOperation inputData =
     (if nt_execute nodeType \<or> customOperation \<noteq> None \<or> (\<not> nt_poll nodeType \<and> \<not> nt_trigger nodeType \<and> \<not> nt_webhook nodeType)
      then (case map_of inputData Main of
          None \<Rightarrow> None
        | Some [] \<Rightarrow> None
        | Some (x # xs) \<Rightarrow>
            (let connectionInputData = (if isLegacyExecutionOrder workflow then x
                   else case firstWithItems (x # xs) of None \<Rightarrow> x | Some y \<Rightarrow> y)
             in case connectionInputData of Val [] \<Rightarrow> None | Val items \<Rightarrow> Some items | _ \<Rightarrow> None))
      else Some [])"

text \<open>The error that is thrown again for a node that failed before, if any.\<close>

definition rethrowLastNodeError :: "RunExecutionData \<Rightarrow> INode \<Rightarrow> NodeErr option" where
  "rethrowLastNodeError st node =
     (case rx_error st of
        None \<Rightarrow> None
      | Some e \<Rightarrow> if rx_lastNodeExecuted st = Some (n_name node)
          then Some (if err_name e \<in> {''NodeOperationError'', ''NodeApiError''} then e
                     else \<lparr>err_name = ''Error'', err_message = err_message e\<rparr>)
          else None)"

definition handleExecuteOnce :: "INode \<Rightarrow> IInputConnections \<Rightarrow> IInputConnections" where
  "handleExecuteOnce node inputData =
     (if n_executeOnce node = Some True
      then map (\<lambda>(t, inputs). (t, map (\<lambda>input. case input of Val xs \<Rightarrow> Val (take 1 xs) | s \<Rightarrow> s) inputs)) inputData
      else inputData)"

text \<open>
  The code of a node: what it is asked to do, on which stack entry, items, inputs and run, and the results
  of the nodes it requested. It throws or answers, and may put the execution into waiting until a time.
\<close>

type_synonym 'a answer = "(NodeErr + 'a) \<times> nat option"

type_synonym node_code =
  "NodeCall \<Rightarrow> IExecuteData \<Rightarrow> items \<Rightarrow> IInputConnections \<Rightarrow> nat \<Rightarrow> EngineResponse option \<Rightarrow> NodeResponse answer"

text \<open>\<open>manual\<close> is \<open>mode === 'manual'\<close>. In the other modes a poll or trigger node passes its input on.\<close>

definition runNode ::
  "Workflow \<Rightarrow> bool \<Rightarrow> node_code \<Rightarrow> IExecuteData \<Rightarrow> RunExecutionData \<Rightarrow> nat \<Rightarrow> EngineResponse option \<Rightarrow> NodeResponse answer" where
  "runNode workflow manual code executionData st runIndex subNodeExecutionResults =
     (let node = e_node executionData; inputData = e_data executionData in
      if n_disabled node = Some True then (Inr (ResponseData (handleDisabledNode inputData)), None)
      else case nodeTypes workflow (n_type node) (n_typeVersion node) of
        None \<Rightarrow> (Inl \<lparr>err_name = ''TypeError'', err_message = ''Cannot read properties of undefined''\<rparr>, None)
      | Some nodeType \<Rightarrow>
          (let customOperation = getCustomOperation node nodeType in
           case prepareConnectionInputData workflow nodeType customOperation inputData of
             None \<Rightarrow> (Inr (ResponseData None), None)
           | Some connectionInputData \<Rightarrow>
               (case rethrowLastNodeError st node of
                  Some e \<Rightarrow> (Inl e, None)
                | None \<Rightarrow>
                    (let inputData = handleExecuteOnce node inputData;
                         call = (\<lambda>c. code c executionData connectionInputData inputData runIndex subNodeExecutionResults) in
                     if nt_execute nodeType \<or> customOperation \<noteq> None then call (CallExecute customOperation)
                     else if nt_poll nodeType
                     then (if manual then call CallPoll else (Inr (ResponseData (map_of inputData Main)), None))
                     else if nt_trigger nodeType
                     then (if manual then call CallTrigger else (Inr (ResponseData (map_of inputData Main)), None))
                     else if nt_supplyData nodeType
                     then (Inl \<lparr>err_name = ''ApplicationError'', err_message = ''The node \"'' @ n_type node @
                       ''\" has a \"supplyData\" method but no \"execute\" method.''\<rparr>, None)
                     else if nt_webhook nodeType \<and> \<not> nt_requestDefaults nodeType
                     then (Inr (ResponseData (map_of inputData Main)), None)
                     else call CallDeclarative))))"

section \<open>Are the inputs there?\<close>

text \<open>Whether the node can run; if not, its entry goes back to the end of the stack.\<close>

fun ensureInputData_from ::
  "Workflow \<Rightarrow> INode \<Rightarrow> IExecuteData \<Rightarrow> nat \<Rightarrow> nat \<Rightarrow> RunExecutionData \<Rightarrow> (bool \<times> RunExecutionData) res" where
  "ensureInputData_from workflow node executionData connectionIndex 0 st = Inr (True, st)"
| "ensureInputData_from workflow node executionData connectionIndex (Suc left) st =
     rbind (getHighestNode workflow (n_name node) (Some connectionIndex)) (\<lambda>highestNodes.
       if highestNodes = [] then Inr (True, st)
       else case map_of (e_data executionData) Main of
         None \<Rightarrow> Inr (False, st\<lparr>rx_stack := rx_stack st @ [executionData]\<rparr>)
       | Some inputs \<Rightarrow>
           if isLegacyExecutionOrder workflow \<and>
              (length inputs < connectionIndex \<or> get_slot Hole connectionIndex inputs = Null)
           then Inr (False, st\<lparr>rx_stack := rx_stack st @ [executionData]\<rparr>)
           else ensureInputData_from workflow node executionData (Suc connectionIndex) left st)"

definition ensureInputData ::
  "Workflow \<Rightarrow> INode \<Rightarrow> IExecuteData \<Rightarrow> RunExecutionData \<Rightarrow> (bool \<times> RunExecutionData) res" where
  "ensureInputData workflow node executionData st =
     ensureInputData_from workflow node executionData 0 (numberOfInputs workflow (n_name node)) st"

section \<open>Paired items\<close>

definition paired :: "nat \<Rightarrow> PairedItem" where
  "paired i = POne \<lparr>p_item = i, p_input = None, p_sourceOverwrite = None\<rparr>"

text \<open>One output: \<open>None\<close> is the case in which no automatic fix is possible and the loops are left
  (the flag) at the first item without paired item.\<close>

fun pairItems :: "(nat \<Rightarrow> nat) option \<Rightarrow> nat \<Rightarrow> items \<Rightarrow> items \<times> bool" where
  "pairItems nr index [] = ([], False)"
| "pairItems nr index (item # rest) =
     (if x_pairedItem item = None
      then (case nr of
          None \<Rightarrow> (item # rest, True)
        | Some f \<Rightarrow> (case pairItems nr (Suc index) rest of
            (ys, broke) \<Rightarrow> (item\<lparr>x_pairedItem := Some (paired (f index))\<rparr> # ys, broke)))
      else (case pairItems nr (Suc index) rest of (ys, broke) \<Rightarrow> (item # ys, broke)))"

fun pairOutputs :: "(nat \<Rightarrow> nat) option \<Rightarrow> items slot list \<Rightarrow> items slot list res" where
  "pairOutputs nr [] = Inr []"
| "pairOutputs nr (Null # rest) = rbind (pairOutputs nr rest) (\<lambda>ys. Inr (Null # ys))"
| "pairOutputs nr (Hole # rest) = Inl TypeError"
| "pairOutputs nr (Val items # rest) = (case pairItems nr 0 items of
     (ys, broke) \<Rightarrow> if broke then Inr (Val ys # rest) else rbind (pairOutputs nr rest) (\<lambda>zs. Inr (Val ys # zs)))"

text \<open>\<open>input?.length\<close>\<close>

fun items_length :: "items slot \<Rightarrow> nat option" where
  "items_length (Val xs) = Some (length xs)"
| "items_length _ = None"

definition assignPairedItems :: "items slot list option \<Rightarrow> IExecuteData \<Rightarrow> items slot list option res" where
  "assignPairedItems nodeSuccessData executionData =
     (case nodeSuccessData of
        None \<Rightarrow> Inr None
      | Some [] \<Rightarrow> Inr (Some [])
      | Some (out # outs) \<Rightarrow>
          (case map_of (e_data executionData) Main of
             None \<Rightarrow> Inl TypeError
           | Some inputs \<Rightarrow>
               (let received = (if length inputs = 1 then items_length (inputs ! 0) else None);
                    single = (outs = [] \<and> length inputs = 1) in
                if single \<and> items_length out = None then Inl TypeError
                else map_sum id Some (pairOutputs
                  (if received = Some 1 then Some (\<lambda>_. 0)
                   else if single \<and> received = items_length out then Some (\<lambda>index. index)
                   else if single \<and> items_length out = Some 1 \<and> (case received of None \<Rightarrow> 0 | Some k \<Rightarrow> k) > 1 then Some (\<lambda>_. 0)
                   else None) (out # outs)))))"

section \<open>Errors of items\<close>

fun truthy :: "json \<Rightarrow> bool" where
  "truthy JNull = False"
| "truthy (JBool b) = b"
| "truthy (JNum n) = (n \<noteq> 0)"
| "truthy (JStr s) = (s \<noteq> [])"
| "truthy _ = True"

fun member :: "json \<Rightarrow> string \<Rightarrow> json option" where
  "member (JObj kvs) k = map_of kvs k"
| "member _ k = None"

definition truthy_at :: "(string, json) jsmap \<Rightarrow> string \<Rightarrow> bool" where
  "truthy_at js k = (case map_of js k of None \<Rightarrow> False | Some v \<Rightarrow> truthy v)"

text \<open>Whether an item reports an error of its own.\<close>

definition item_failed :: "INodeExecutionData \<Rightarrow> bool" where
  "item_failed item \<longleftrightarrow> (case x_error item of Some e \<Rightarrow> truthy e | None \<Rightarrow> False) \<or>
     (truthy_at (x_json item) ''error'' \<and> length (x_json item) = 1) \<or>
     (truthy_at (x_json item) ''error'' \<and> truthy_at (x_json item) ''message'' \<and> length (x_json item) = 2)"

text \<open>\<open>{ ...a, ...b }\<close>\<close>

definition spread :: "('k, 'v) jsmap \<Rightarrow> ('k, 'v) jsmap \<Rightarrow> ('k, 'v) jsmap" where
  "spread a b = foldl (\<lambda>m (k, v). AList.update k v m) a b"

definition pairedItemData :: "INodeExecutionData \<Rightarrow> IPairedItemData option" where
  "pairedItemData item = (case x_pairedItem item of
     Some (POne p) \<Rightarrow> Some p | Some (PMany (p # _)) \<Rightarrow> Some p | _ \<Rightarrow> None)"

text \<open>The item for the error output. \<open>getPairedItem\<close> is the data proxy's \<open>$getPairedItem\<close>.\<close>

definition errorItem ::
  "(string \<Rightarrow> ISourceData \<Rightarrow> IPairedItemData \<Rightarrow> INodeExecutionData option) \<Rightarrow> IExecuteData \<Rightarrow> INodeExecutionData \<Rightarrow>
   INodeExecutionData res" where
  "errorItem getPairedItem executionData item =
     (case (e_source executionData, pairedItemData item) of
        (Some source, Some p) \<Rightarrow>
          (case map_of source Main of
             None \<Rightarrow> Inl TypeError
           | Some sources \<Rightarrow>
               (case get_slot None (case p_input p of None \<Rightarrow> 0 | Some i \<Rightarrow> i) sources of
                  None \<Rightarrow> Inl TypeError
                | Some sourceData \<Rightarrow>
                    (case getPairedItem (previousNode sourceData) sourceData p of
                       None \<Rightarrow> Inr item
                     | Some origin \<Rightarrow> Inr (item\<lparr>x_json := spread (x_json origin) (x_json item)\<rparr>))))
      | _ \<Rightarrow> Inr item)"

text \<open>One output: its items without error, and the items for the error output.\<close>

fun splitItems ::
  "(INodeExecutionData \<Rightarrow> INodeExecutionData res) \<Rightarrow> items \<Rightarrow> items \<Rightarrow> (items \<times> items) res" where
  "splitItems toError errorItems [] = Inr ([], errorItems)"
| "splitItems toError errorItems (item # rest) =
     (if item_failed item
      then rbind (toError item) (\<lambda>e. splitItems toError (errorItems @ [e]) rest)
      else rbind (splitItems toError errorItems rest) (\<lambda>(successItems, errorItems). Inr (item # successItems, errorItems)))"

definition items_at :: "nat \<Rightarrow> items slot list \<Rightarrow> items" where
  "items_at i outputs = (case get_slot Hole i outputs of Val xs \<Rightarrow> xs | _ \<Rightarrow> [])"

text \<open>\<open>mainOutputs\<close> is the number of main outputs of the node; the last one is the error output.\<close>

definition handleNodeErrorOutput ::
  "nat \<Rightarrow> (string \<Rightarrow> ISourceData \<Rightarrow> IPairedItemData \<Rightarrow> INodeExecutionData option) \<Rightarrow> IExecuteData \<Rightarrow> items slot list \<Rightarrow>
   items slot list res" where
  "handleNodeErrorOutput mainOutputs getPairedItem executionData nodeSuccessData =
     rbind (foldR (\<lambda>(outputs, errorItems) outputIndex.
         rbind (splitItems (errorItem getPairedItem executionData) errorItems (items_at outputIndex outputs)) (\<lambda>(successItems, errorItems).
           Inr (set_slot Hole outputIndex (Val successItems) outputs, errorItems)))
       (nodeSuccessData, []) [0..<mainOutputs - 1]) (\<lambda>(outputs, errorItems).
     Inr (if mainOutputs = 0 then outputs else set_slot Hole (mainOutputs - 1) (Val errorItems) outputs))"

text \<open>What an item says about its error goes to its default output.\<close>

definition errorMessage :: "json \<Rightarrow> (string, json) jsmap" where
  "errorMessage e = (case member e ''message'' of None \<Rightarrow> [] | Some m \<Rightarrow> [(''error'', m)])"

definition mergeError :: "INodeExecutionData \<Rightarrow> INodeExecutionData" where
  "mergeError item =
     (case (map_of (x_json item) ''$error'', map_of (x_json item) ''$json'') of
        (Some e, Some _) \<Rightarrow> item\<lparr>x_error := Some e, x_json := errorMessage e\<rparr>
      | _ \<Rightarrow> (case x_error item of None \<Rightarrow> item | Some e \<Rightarrow> item\<lparr>x_json := errorMessage e\<rparr>))"

fun mergeErrors :: "items slot list \<Rightarrow> items list res" where
  "mergeErrors [] = Inr []"
| "mergeErrors (Val items # rest) = rbind (mergeErrors rest) (\<lambda>ys. Inr (map mergeError items # ys))"
| "mergeErrors (_ # rest) = Inl TypeError"

section \<open>Paired items are in range\<close>

text \<open>\<open>ys\<close> is \<open>xs\<close> with items paired, each with a number that \<open>P\<close> allows.\<close>

definition paired_from :: "(nat \<Rightarrow> bool) \<Rightarrow> items \<Rightarrow> items \<Rightarrow> bool" where
  "paired_from P = list_all2 (\<lambda>x y. y = x \<or>
     (x_pairedItem x = None \<and> (\<exists>i. P i \<and> y = x\<lparr>x_pairedItem := Some (paired i)\<rparr>)))"

lemma paired_from_refl [simp]: "paired_from P xs xs"
  by (simp add: paired_from_def list_all2_refl)

lemma pairItems_paired:
  assumes "\<And>f k. nr = Some f \<Longrightarrow> n \<le> k \<Longrightarrow> k < n + length xs \<Longrightarrow> P (f k)"
  shows "paired_from P xs (fst (pairItems nr n xs))"
  using assms
proof (induction xs arbitrary: n)
  case (Cons x xs)
  have "paired_from P xs (fst (pairItems nr (Suc n) xs))" by (rule Cons.IH) (use Cons.prems in auto)
  moreover have "nr = Some f \<Longrightarrow> P (f n)" for f using Cons.prems [of f n] by simp
  ultimately show ?case
    by (auto simp: paired_from_def list_all2_refl split_beta split: option.splits)
qed simp

definition slot_paired :: "(nat \<Rightarrow> bool) \<Rightarrow> items slot \<Rightarrow> items slot \<Rightarrow> bool" where
  "slot_paired P s t \<longleftrightarrow> (case s of Val xs \<Rightarrow> \<exists>ys. t = Val ys \<and> paired_from P xs ys | _ \<Rightarrow> t = s)"

lemma slot_paired_simps [simp]:
  "slot_paired P (Val xs) t \<longleftrightarrow> (\<exists>ys. t = Val ys \<and> paired_from P xs ys)"
  "slot_paired P Null t \<longleftrightarrow> t = Null" "slot_paired P Hole t \<longleftrightarrow> t = Hole"
  by (simp_all add: slot_paired_def)

lemma slot_paired_refl: "slot_paired P s s"
  by (cases s) (simp_all add: slot_paired_def)

lemma pairOutputs_paired:
  assumes "pairOutputs nr outs = Inr outs'"
    and "\<And>f xs k. nr = Some f \<Longrightarrow> Val xs \<in> set outs \<Longrightarrow> k < length xs \<Longrightarrow> P (f k)"
  shows "list_all2 (slot_paired P) outs outs'"
  using assms
proof (induction nr outs arbitrary: outs' rule: pairOutputs.induct)
  case (4 nr items rest)
  have one: "paired_from P items (fst (pairItems nr 0 items))"
    by (rule pairItems_paired) (use "4.prems"(2) in auto)
  show ?case
  proof (cases "snd (pairItems nr 0 items)")
    case True
    then show ?thesis using "4.prems"(1) one
      by (auto simp: split_beta intro!: list_all2_refl slot_paired_refl)
  next
    case False
    then obtain zs where "pairOutputs nr rest = Inr zs" "outs' = Val (fst (pairItems nr 0 items)) # zs"
      using "4.prems"(1) by (auto simp: split_beta res_simps)
    moreover have "list_all2 (slot_paired P) rest zs"
    proof (rule "4.IH" [of "fst (pairItems nr 0 items)" "snd (pairItems nr 0 items)" zs])
      fix f xs k
      assume "nr = Some f" "Val xs \<in> set rest" "k < length xs"
      then show "P (f k)" by (intro "4.prems"(2) [of f xs]) simp_all
    qed (use False calculation(1) in \<open>simp_all add: prod_eq_iff\<close>)
    ultimately show ?thesis using one by simp
  qed
qed (auto simp: res_simps)

text \<open>Pairing changes items only in that one without paired item may get one, and the item it then points
  at exists: it is an item of the only input of the node.\<close>

theorem assignPairedItems_in_range:
  assumes "assignPairedItems (Some outs) executionData = Inr (Some outs')"
  shows "list_all2 (slot_paired (\<lambda>i. \<exists>received. map_of (e_data executionData) Main = Some [Val received] \<and> i < length received)) outs outs'"
proof (cases outs)
  case Nil
  then show ?thesis using assms by (simp add: assignPairedItems_def)
next
  case (Cons out rest)
  then obtain inputs where inputs: "map_of (e_data executionData) Main = Some inputs"
    using assms by (auto simp: assignPairedItems_def split: option.splits)
  define received where "received = (if length inputs = 1 then items_length (inputs ! 0) else None)"
  define single where "single \<longleftrightarrow> rest = [] \<and> length inputs = 1"
  define nr where "nr = (if received = Some 1 then Some (\<lambda>_. 0)
      else if single \<and> received = items_length out then Some (\<lambda>index. index)
      else if single \<and> items_length out = Some 1 \<and> (case received of None \<Rightarrow> 0 | Some k \<Rightarrow> k) > 1 then Some (\<lambda>_. 0)
      else (None :: (nat \<Rightarrow> nat) option))"
  have run: "pairOutputs nr outs = Inr outs'" and out: "single \<Longrightarrow> items_length out \<noteq> None"
    using assms inputs Cons unfolding nr_def received_def single_def
    by (auto simp: assignPairedItems_def Let_def map_sum_def split: sum.splits if_splits)
  have val: "received = Some k \<Longrightarrow> \<exists>xs. inputs = [Val xs] \<and> length xs = k" for k
    unfolding received_def by (cases inputs; cases "inputs ! 0") (auto split: if_splits)
  show ?thesis
  proof (rule pairOutputs_paired [OF run])
    fix f xs k
    assume f: "nr = Some f" and xs: "Val xs \<in> set outs" "k < length xs"
    have "\<exists>m. received = Some m \<and> f k < m"
      using f xs out Cons unfolding nr_def single_def
      by (cases received) (auto split: if_splits)
    then show "\<exists>received. map_of (e_data executionData) Main = Some [Val received] \<and> f k < length received"
      using val inputs by force
  qed
qed

lemma assignPairedItems_in_range_witness:
  "\<exists>outs'. assignPairedItems (Some [Val [empty_item, empty_item]])
       \<lparr>e_node = mk_node 0 ''A'' ''t'', e_data = [(Main, [Val [empty_item, empty_item]])], e_source = None,
        e_runIndex = None, e_metadata = None\<rparr> = Inr (Some outs') \<and>
     list_all2 (slot_paired (\<lambda>i. i < 2)) [Val [empty_item, empty_item]] outs'"
proof -
  let ?e = "\<lparr>e_node = mk_node 0 ''A'' ''t'', e_data = [(Main, [Val [empty_item, empty_item]])], e_source = None,
        e_runIndex = None, e_metadata = None\<rparr>"
  obtain outs' where r: "assignPairedItems (Some [Val [empty_item, empty_item]]) ?e = Inr (Some outs')"
    by (simp add: assignPairedItems_def empty_item_def)
  from assignPairedItems_in_range [OF r] r show ?thesis by (simp add: numeral_2_eq_2)
qed

section \<open>The error output\<close>

lemma splitItems_ok:
  assumes "\<And>item. item \<in> set xs \<Longrightarrow> item_failed item \<Longrightarrow> \<exists>e. toError item = Inr e"
  shows "\<exists>es. splitItems toError acc xs = Inr (filter (\<lambda>x. \<not> item_failed x) xs, acc @ es) \<and>
    list_all2 (\<lambda>x e. toError x = Inr e) (filter item_failed xs) es"
  using assms
proof (induction xs arbitrary: acc)
  case (Cons x xs)
  show ?case
  proof (cases "item_failed x")
    case True
    then obtain e where e: "toError x = Inr e" using Cons.prems [of x] by auto
    obtain es where "splitItems toError (acc @ [e]) xs = Inr (filter (\<lambda>x. \<not> item_failed x) xs, (acc @ [e]) @ es)"
        "list_all2 (\<lambda>x e. toError x = Inr e) (filter item_failed xs) es"
      using Cons.IH [of "acc @ [e]"] Cons.prems by auto
    then show ?thesis using True e by (intro exI [of _ "e # es"]) simp
  next
    case False
    obtain es where "splitItems toError acc xs = Inr (filter (\<lambda>x. \<not> item_failed x) xs, acc @ es)"
        "list_all2 (\<lambda>x e. toError x = Inr e) (filter item_failed xs) es"
      using Cons.IH [of acc] Cons.prems by auto
    then show ?thesis using False by (intro exI [of _ es]) simp
  qed
qed simp

lemma items_at_set_slot [simp]:
  "items_at j (set_slot Hole i (Val xs) outs) = (if j = i then xs else items_at j outs)"
  by (simp add: items_at_def)

text \<open>\<open>handleNodeErrorOutput\<close> distributes the items: those without an error stay in their output, in
  order, and the others go to the last main output, in the order of the outputs they come from.\<close>

theorem handleNodeErrorOutput_splits:
  assumes "mainOutputs > 0"
    and "\<And>j item. j < mainOutputs - 1 \<Longrightarrow> item \<in> set (items_at j outs) \<Longrightarrow> item_failed item \<Longrightarrow>
      \<exists>e. errorItem getPairedItem executionData item = Inr e"
  shows "\<exists>outs'. handleNodeErrorOutput mainOutputs getPairedItem executionData outs = Inr outs' \<and>
    (\<forall>j < mainOutputs - 1. items_at j outs' = filter (\<lambda>x. \<not> item_failed x) (items_at j outs)) \<and>
    list_all2 (\<lambda>x e. errorItem getPairedItem executionData x = Inr e)
      (concat (map (\<lambda>j. filter item_failed (items_at j outs)) [0..<mainOutputs - 1])) (items_at (mainOutputs - 1) outs')"
proof -
  let ?step = "\<lambda>(outputs, errorItems) outputIndex.
    rbind (splitItems (errorItem getPairedItem executionData) errorItems (items_at outputIndex outputs)) (\<lambda>(successItems, errorItems).
      Inr (set_slot Hole outputIndex (Val successItems) outputs, errorItems))"
  have "\<exists>outs' es. foldR ?step (outs, []) [0..<k] = Inr (outs', es) \<and>
      (\<forall>j. items_at j outs' = (if j < k then filter (\<lambda>x. \<not> item_failed x) (items_at j outs) else items_at j outs)) \<and>
      list_all2 (\<lambda>x e. errorItem getPairedItem executionData x = Inr e)
        (concat (map (\<lambda>j. filter item_failed (items_at j outs)) [0..<k])) es"
    if "k \<le> mainOutputs - 1" for k
    using that
  proof (induction k)
    case (Suc k)
    then obtain outs' es where IH: "foldR ?step (outs, []) [0..<k] = Inr (outs', es)"
        "\<forall>j. items_at j outs' = (if j < k then filter (\<lambda>x. \<not> item_failed x) (items_at j outs) else items_at j outs)"
        "list_all2 (\<lambda>x e. errorItem getPairedItem executionData x = Inr e)
          (concat (map (\<lambda>j. filter item_failed (items_at j outs)) [0..<k])) es" by auto
    have at: "items_at k outs' = items_at k outs" using IH(2) by simp
    obtain es' where "splitItems (errorItem getPairedItem executionData) es (items_at k outs') =
          Inr (filter (\<lambda>x. \<not> item_failed x) (items_at k outs'), es @ es')"
        "list_all2 (\<lambda>x e. errorItem getPairedItem executionData x = Inr e) (filter item_failed (items_at k outs')) es'"
      using splitItems_ok [of "items_at k outs'" "errorItem getPairedItem executionData" es] assms(2) [of k] Suc.prems at by auto
    then show ?case using IH by (auto simp: foldR_append at less_Suc_eq intro: list_all2_appendI)
  qed simp
  from this [OF order_refl] obtain outs' es where
      "foldR ?step (outs, []) [0..<mainOutputs - 1] = Inr (outs', es)"
      "\<forall>j. items_at j outs' = (if j < mainOutputs - 1 then filter (\<lambda>x. \<not> item_failed x) (items_at j outs) else items_at j outs)"
      "list_all2 (\<lambda>x e. errorItem getPairedItem executionData x = Inr e)
        (concat (map (\<lambda>j. filter item_failed (items_at j outs)) [0..<mainOutputs - 1])) es" by blast
  then show ?thesis using assms(1)
    by (intro exI [of _ "set_slot Hole (mainOutputs - 1) (Val es) outs'"]) (auto simp: handleNodeErrorOutput_def)
qed

definition failed_item :: INodeExecutionData where
  "failed_item = empty_item\<lparr>x_json := [(''error'', JStr ''boom'')]\<rparr>"

lemma handleNodeErrorOutput_splits_witness:
  "\<exists>outs'. handleNodeErrorOutput 2 (\<lambda>_ _ _. None) \<lparr>e_node = mk_node 0 ''A'' ''t'', e_data = [], e_source = None,
        e_runIndex = None, e_metadata = None\<rparr> [Val [empty_item, failed_item]] = Inr outs' \<and>
     items_at 0 outs' = [empty_item] \<and> items_at 1 outs' = [failed_item]"
proof -
  let ?e = "\<lparr>e_node = mk_node 0 ''A'' ''t'', e_data = [], e_source = None, e_runIndex = None, e_metadata = None\<rparr>"
  have "\<exists>e. errorItem (\<lambda>_ _ _. None) ?e item = Inr e" for item by (simp add: errorItem_def)
  then have "\<exists>outs'. handleNodeErrorOutput 2 (\<lambda>_ _ _. None) ?e [Val [empty_item, failed_item]] = Inr outs' \<and>
      (\<forall>j < 2 - 1. items_at j outs' = filter (\<lambda>x. \<not> item_failed x) (items_at j [Val [empty_item, failed_item]])) \<and>
      list_all2 (\<lambda>x e. errorItem (\<lambda>_ _ _. None) ?e x = Inr e)
        (concat (map (\<lambda>j. filter item_failed (items_at j [Val [empty_item, failed_item]])) [0..<2 - 1])) (items_at (2 - 1) outs')"
    by (intro handleNodeErrorOutput_splits) simp_all
  moreover have "item_failed failed_item" "\<not> item_failed empty_item" by code_simp+
  moreover have "errorItem (\<lambda>_ _ _. None) ?e failed_item = Inr failed_item" by (simp add: errorItem_def)
  ultimately show ?thesis by (auto simp: items_at_def get_slot_def list_all2_Cons1)
qed

end
