(* ===== verification/EngineRequests.thy ===== *)
theory EngineRequests
  imports EngineNode
begin

text \<open>
  Requests of a node to run other nodes (an agent that calls its tools): \<open>requests-response.ts\<close> and
  \<open>handleEngineRequest\<close> of \<open>workflow-execute.ts\<close>. The requested nodes get a run of their own with the
  arguments shown in place of an input, go on the stack, and the node that made the request is put there
  as well, to be resumed with their results.

  The code marks a requested node by writing \<open>rewireOutputLogTo\<close> into the node of the workflow, so the
  workflow is part of the state here. A list of runs is never empty, so its last index is a number.
\<close>

definition buildParentOutputData :: "(string, json) jsmap \<Rightarrow> nat \<Rightarrow> nat \<Rightarrow> string \<Rightarrow> items list" where
  "buildParentOutputData json parentRunIndex parentOutputIndex parentSourceNode =
     [[\<lparr>x_json = json, x_error = None,
        x_pairedItem = Some (POne \<lparr>p_item = parentRunIndex, p_input = Some parentOutputIndex,
          p_sourceOverwrite = Some \<lparr>previousNode = parentSourceNode, previousNodeOutput = Some parentOutputIndex,
            previousNodeRun = Some parentRunIndex\<rparr>\<rparr>)\<rparr>]]"

definition set_runs :: "string \<Rightarrow> ITaskData list \<Rightarrow> IRunData \<Rightarrow> IRunData" where
  "set_runs n ts runData = AList.update n ts runData"

definition runs_of :: "IRunData \<Rightarrow> string \<Rightarrow> ITaskData list" where
  "runs_of runData n = case_option [] (\<lambda>ts. ts) (map_of runData n)"

text \<open>The run a requested node will fill; returns its index.\<close>

definition initializeNodeRunData ::
  "IRunData \<Rightarrow> string \<Rightarrow> string \<Rightarrow> nat \<Rightarrow> nat \<Rightarrow> bool \<Rightarrow> nat \<Rightarrow> items list \<Rightarrow> IRunData \<times> nat" where
  "initializeNodeRunData runData nodeName parentNode parentOutputIndex parentRunIndex hasParent runIndex displayOutputData =
     (let nodeRunData = runs_of runData nodeName
      in (set_runs nodeName (nodeRunData @ [\<lparr>t_executionIndex = Some 0,
            t_source = [Some \<lparr>previousNode = parentNode, previousNodeOutput = Some parentOutputIndex,
              previousNodeRun = Some (if hasParent then parentRunIndex else runIndex)\<rparr>],
            t_executionStatus = None, t_data = None,
            t_inputOverride = Some [(AiTool, map Some displayOutputData)],
            t_error = None, t_metadata = None\<rparr>]) runData, length nodeRunData))"

record NodeToBeExecuted =
  q_inputConnectionData :: IConnection
  q_parentOutputIndex :: nat
  q_parentNode :: string
  q_parentOutputData :: "items slot list"
  q_runIndex :: nat
  q_nodeRunIndex :: nat
  q_metadata :: "ITaskMetadata option"

record Requested =
  rq_workflow :: Workflow
  rq_runData :: IRunData
  rq_nodes :: "NodeToBeExecuted list"
  rq_actions :: "SubNodeExecutionDataAction list"

text \<open>\<open>node.rewireOutputLogTo = type\<close> on the node of the workflow.\<close>

definition rewireNode :: "string \<Rightarrow> NodeConnectionType \<Rightarrow> Workflow \<Rightarrow> Workflow" where
  "rewireNode n t w = (case map_of (w_nodes w) n of None \<Rightarrow> w
     | Some node \<Rightarrow> w\<lparr>w_nodes := AList.update n (node\<lparr>n_rewireOutputLogTo := Some t\<rparr>) (w_nodes w)\<rparr>)"

text \<open>Where the data of the node that requests came from. The code reads the source at the place of the
  run index, not of the input.\<close>

definition parentSource :: "IExecuteData \<Rightarrow> nat \<Rightarrow> ISourceData option" where
  "parentSource executionData i =
     (case e_source executionData of None \<Rightarrow> None
      | Some source \<Rightarrow> (case map_of source Main of None \<Rightarrow> None | Some sources \<Rightarrow> get_slot None i sources))"

definition requestAction ::
  "INode \<Rightarrow> nat \<Rightarrow> IExecuteData \<Rightarrow> EngineAction \<Rightarrow> Requested \<Rightarrow> Requested" where
  "requestAction currentNode runIndex executionData action acc =
     (let source = parentSource executionData runIndex;
          outputIndex = (case source of Some s \<Rightarrow> (case previousNodeOutput s of Some i \<Rightarrow> i | None \<Rightarrow> 0) | None \<Rightarrow> 0);
          sourceNode = (case source of Some s \<Rightarrow> previousNode s | None \<Rightarrow> n_name currentNode);
          parentNode = (case a_parentNodeName action of Some p \<Rightarrow> p | None \<Rightarrow> n_name currentNode);
          hasParent = (case a_parentNodeName action of Some p \<Rightarrow> p \<noteq> [] | None \<Rightarrow> False);
          parentRunIndex = (if hasParent
            then (case map_of (rq_runData acc) parentNode of Some ts \<Rightarrow> length ts | None \<Rightarrow> 1) - 1
            else (case source of Some s \<Rightarrow> (case previousNodeRun s of Some i \<Rightarrow> i | None \<Rightarrow> 0) | None \<Rightarrow> 0));
          itemIndex = (case a_itemIndex action of Some i \<Rightarrow> i | None \<Rightarrow> 0);
          agentItems = (case map_of (e_data executionData) Main of Some (Val xs # _) \<Rightarrow> xs | _ \<Rightarrow> []);
          agentJson = (if itemIndex < length agentItems then x_json (agentItems ! itemIndex) else []);
          mergedJson = spread (spread agentJson (a_input action)) [(''toolCallId'', JStr (a_id action))];
          (runData, nodeRunIndex) = initializeNodeRunData (rq_runData acc) (a_nodeName action) parentNode outputIndex
            parentRunIndex hasParent runIndex (buildParentOutputData (a_input action) parentRunIndex outputIndex sourceNode)
      in acc\<lparr>rq_workflow := rewireNode (a_nodeName action) (a_type action) (rq_workflow acc),
             rq_runData := runData,
             rq_nodes := rq_nodes acc @ [\<lparr>
               q_inputConnectionData = \<lparr>c_node = a_nodeName action, c_type = a_type action, c_index = 0\<rparr>,
               q_parentOutputIndex = 0, q_parentNode = parentNode,
               q_parentOutputData = map Val (buildParentOutputData mergedJson parentRunIndex outputIndex sourceNode),
               q_runIndex = (if hasParent then parentRunIndex else runIndex),
               q_nodeRunIndex = nodeRunIndex,
               q_metadata = Some (empty_metadata\<lparr>m_preserveSourceOverwrite := True,
                 m_preservedSourceOverwrite := (case Option.bind (e_metadata executionData) m_preservedSourceOverwrite of
                    Some s \<Rightarrow> Some s
                  | None \<Rightarrow> Some \<lparr>previousNode = sourceNode, previousNodeOutput = Some outputIndex,
                      previousNodeRun = Some parentRunIndex\<rparr>)\<rparr>)\<rparr>],
             rq_actions := rq_actions acc @ [\<lparr>s_nodeName = a_nodeName action, s_runIndex = nodeRunIndex, s_action = action\<rparr>]\<rparr>)"

text \<open>A node that the workflow does not have ends the loop with an error; what was done before stays.\<close>

fun prepareRequestedNodesForExecution ::
  "INode \<Rightarrow> nat \<Rightarrow> IExecuteData \<Rightarrow> EngineAction list \<Rightarrow> Requested \<Rightarrow> Requested \<times> js_error option" where
  "prepareRequestedNodesForExecution currentNode runIndex executionData [] acc = (acc, None)"
| "prepareRequestedNodesForExecution currentNode runIndex executionData (action # actions) acc =
     (if getNode (rq_workflow acc) (a_nodeName action) = None
      then (acc, Some (UnexpectedError (''Workflow does not contain a node with the name of \"'' @ a_nodeName action @ ''\".'')))
      else prepareRequestedNodesForExecution currentNode runIndex executionData actions
        (requestAction currentNode runIndex executionData action acc))"

definition prepareRequestingNodeForResuming ::
  "IExecuteData \<Rightarrow> (IConnection \<times> string \<times> ITaskMetadata) option" where
  "prepareRequestingNodeForResuming executionData =
     (case parentSource executionData 0 of
        None \<Rightarrow> None
      | Some s \<Rightarrow>
          if previousNode s = [] then None
          else Some (\<lparr>c_node = n_name (e_node executionData), c_type = AiTool, c_index = 0\<rparr>, previousNode s,
            case e_metadata executionData of
              None \<Rightarrow> empty_metadata
            | Some m \<Rightarrow> if m_preservedSourceOverwrite m \<noteq> None \<and> m_preserveSourceOverwrite m
                then empty_metadata\<lparr>m_preserveSourceOverwrite := True, m_preservedSourceOverwrite := m_preservedSourceOverwrite m\<rparr>
                else empty_metadata))"

definition handleRequest ::
  "Workflow \<Rightarrow> INode \<Rightarrow> EngineRequest \<Rightarrow> nat \<Rightarrow> IExecuteData \<Rightarrow> IRunData \<Rightarrow>
   Workflow \<times> IRunData \<times> (NodeToBeExecuted list) res" where
  "handleRequest workflow currentNode request runIndex executionData runData =
     (let (acc, err) = prepareRequestedNodesForExecution currentNode runIndex executionData (r_actions request)
            \<lparr>rq_workflow = workflow, rq_runData = runData, rq_nodes = [], rq_actions = []\<rparr>
      in (rq_workflow acc, rq_runData acc,
          case err of
            Some e \<Rightarrow> Inl e
          | None \<Rightarrow> (case prepareRequestingNodeForResuming executionData of
              None \<Rightarrow> Inr []
            | Some (connectionData, parentNode, metadata) \<Rightarrow>
                (case map_of (e_data executionData) Main of
                   None \<Rightarrow> Inl TypeError
                 | Some main \<Rightarrow> Inr (\<lparr>q_inputConnectionData = connectionData, q_parentOutputIndex = 0,
                     q_parentNode = parentNode, q_parentOutputData = main, q_runIndex = runIndex, q_nodeRunIndex = runIndex,
                     q_metadata = Some (metadata\<lparr>m_nodeWasResumed := True,
                       m_subNodeExecutionData := Some (rq_actions acc, r_metadata request)\<rparr>)\<rparr> # rq_nodes acc)))))"

text \<open>The nodes go on the stack one after the other; the first error ends the loop.\<close>

fun addRequested :: "Workflow \<Rightarrow> NodeToBeExecuted list \<Rightarrow> RunExecutionData \<Rightarrow> RunExecutionData \<times> js_error option" where
  "addRequested workflow [] st = (st, None)"
| "addRequested workflow (q # qs) st =
     (case addNodeToBeExecuted workflow (q_inputConnectionData q) (q_parentOutputIndex q) (q_parentNode q)
             (Some (q_parentOutputData q)) (q_runIndex q) (Some (q_nodeRunIndex q)) (q_metadata q) st of
        Inl e \<Rightarrow> (st, Some e)
      | Inr st' \<Rightarrow> addRequested workflow qs st')"

definition handleEngineRequest ::
  "Workflow \<Rightarrow> INode \<Rightarrow> EngineRequest \<Rightarrow> nat \<Rightarrow> IExecuteData \<Rightarrow> RunExecutionData \<Rightarrow>
   Workflow \<times> RunExecutionData \<times> js_error option" where
  "handleEngineRequest workflow currentNode request runIndex executionData st =
     (let (workflow', runData', nodes) = handleRequest workflow currentNode request runIndex executionData (rx_runData st);
          st' = st\<lparr>rx_runData := runData'\<rparr>
      in case nodes of
           Inl e \<Rightarrow> (workflow', st', Some e)
         | Inr nodesToBeExecuted \<Rightarrow> (workflow', addRequested workflow' nodesToBeExecuted st'))"

section \<open>The order in which requested nodes run\<close>

lemma rewireNode_sel [simp]:
  "connectionsByDestinationNode (rewireNode n t w) = connectionsByDestinationNode w"
  "executionOrder (rewireNode n t w) = executionOrder w"
  "map_of (w_nodes (rewireNode n t w)) m = None \<longleftrightarrow> map_of (w_nodes w) m = None"
  by (auto simp: rewireNode_def update_conv' split: option.splits)

lemma rewireNode_name:
  "map_of (w_nodes (rewireNode n t w)) m = Some x \<Longrightarrow> \<exists>y. map_of (w_nodes w) m = Some y \<and> n_name y = n_name x"
  by (auto simp: rewireNode_def update_conv' split: option.splits if_splits)

lemma numberOfInputs_rewire [simp]: "numberOfInputs (rewireNode n t w) m = numberOfInputs w m"
  by (simp add: numberOfInputs_def)

text \<open>\<open>w'\<close> is \<open>w\<close> up to the marks of requested nodes.\<close>

definition same_shape :: "Workflow \<Rightarrow> Workflow \<Rightarrow> bool" where
  "same_shape w w' \<longleftrightarrow> executionOrder w' = executionOrder w \<and> (\<forall>n. numberOfInputs w' n = numberOfInputs w n) \<and>
     (\<forall>n. map_of (w_nodes w') n = None \<longleftrightarrow> map_of (w_nodes w) n = None) \<and>
     (\<forall>n x. map_of (w_nodes w') n = Some x \<longrightarrow> (\<exists>y. map_of (w_nodes w) n = Some y \<and> n_name y = n_name x))"

lemma same_shape_rewire: "same_shape w w' \<Longrightarrow> same_shape w (rewireNode n t w')"
  unfolding same_shape_def using rewireNode_name by fastforce

lemma requestAction_sel:
  "rq_workflow (requestAction cur run e a acc) = rewireNode (a_nodeName a) (a_type a) (rq_workflow acc)"
  "\<exists>q. rq_nodes (requestAction cur run e a acc) = rq_nodes acc @ [q] \<and>
     q_inputConnectionData q = \<lparr>c_node = a_nodeName a, c_type = a_type a, c_index = 0\<rparr>"
  by (simp_all add: requestAction_def Let_def initializeNodeRunData_def)

lemma prepareRequested_ok:
  assumes "same_shape w (rq_workflow acc)" and "\<forall>a \<in> set as. map_of (w_nodes w) (a_nodeName a) \<noteq> None"
  shows "\<exists>acc' qs. prepareRequestedNodesForExecution cur run e as acc = (acc', None) \<and> same_shape w (rq_workflow acc') \<and>
    rq_nodes acc' = rq_nodes acc @ qs \<and> map (\<lambda>q. c_node (q_inputConnectionData q)) qs = map a_nodeName as"
  using assms
proof (induction as arbitrary: acc)
  case (Cons a as)
  let ?acc = "requestAction cur run e a acc"
  have shape: "same_shape w (rq_workflow ?acc)" using same_shape_rewire [OF Cons.prems(1)] by (simp add: requestAction_sel)
  have there: "getNode (rq_workflow acc) (a_nodeName a) \<noteq> None"
    using Cons.prems by (auto simp: same_shape_def getNode_def)
  obtain q where q: "rq_nodes ?acc = rq_nodes acc @ [q]" "c_node (q_inputConnectionData q) = a_nodeName a"
    using requestAction_sel(2) [of cur run e a acc] by auto
  obtain acc' qs where "prepareRequestedNodesForExecution cur run e as ?acc = (acc', None)" "same_shape w (rq_workflow acc')"
      "rq_nodes acc' = rq_nodes ?acc @ qs" "map (\<lambda>q. c_node (q_inputConnectionData q)) qs = map a_nodeName as"
    using Cons.IH [OF shape] Cons.prems(2) by auto
  then show ?case using there q by (intro exI [of _ acc'] exI [of _ "q # qs"]) auto
qed simp

lemma addRequested_ok:
  assumes "\<forall>q \<in> set qs. numberOfInputs w (c_node (q_inputConnectionData q)) \<le> 1 \<and>
    (\<exists>node. map_of (w_nodes w) (c_node (q_inputConnectionData q)) = Some node \<and> n_name node = c_node (q_inputConnectionData q))"
  shows "\<exists>st'. addRequested w qs st = (st', None) \<and>
    map (\<lambda>x. n_name (e_node x)) (rx_stack st') =
      (if isLegacyExecutionOrder w then map (\<lambda>x. n_name (e_node x)) (rx_stack st) @ map (\<lambda>q. c_node (q_inputConnectionData q)) qs
       else rev (map (\<lambda>q. c_node (q_inputConnectionData q)) qs) @ map (\<lambda>x. n_name (e_node x)) (rx_stack st))"
  using assms
proof (induction qs arbitrary: st)
  case (Cons q qs)
  obtain node where node: "map_of (w_nodes w) (c_node (q_inputConnectionData q)) = Some node"
      "n_name node = c_node (q_inputConnectionData q)" "\<not> numberOfInputs w (c_node (q_inputConnectionData q)) > 1"
    using Cons.prems by auto
  then obtain x where x: "addNodeToBeExecuted w (q_inputConnectionData q) (q_parentOutputIndex q) (q_parentNode q)
      (Some (q_parentOutputData q)) (q_runIndex q) (Some (q_nodeRunIndex q)) (q_metadata q) st = Inr (enqueueFn w x st)" "e_node x = node"
    by (simp add: addNodeToBeExecuted_def Let_def)
  then show ?case using Cons.IH [of "enqueueFn w x st"] Cons.prems node by auto
qed simp

text \<open>In the order of version 1 the requested nodes run before the node that asked for them, the last one
  first. In the legacy order the node that asked stands in front of them: it is resumed before any of the
  nodes it waits for has run.\<close>

theorem handleEngineRequest_order:
  assumes nodes: "nodes_ok (w_nodes w)"
    and actions: "\<forall>a \<in> set (r_actions request). map_of (w_nodes w) (a_nodeName a) \<noteq> None \<and> numberOfInputs w (a_nodeName a) \<le> 1"
    and self: "map_of (w_nodes w) (n_name (e_node executionData)) \<noteq> None" "numberOfInputs w (n_name (e_node executionData)) \<le> 1"
    and source: "parentSource executionData 0 = Some s" "previousNode s \<noteq> []"
    and main: "map_of (e_data executionData) Main \<noteq> None"
  shows "\<exists>w' st'. handleEngineRequest w cur request runIndex executionData st = (w', st', None) \<and>
    map (\<lambda>x. n_name (e_node x)) (rx_stack st') =
      (let names = map a_nodeName (r_actions request); stack = map (\<lambda>x. n_name (e_node x)) (rx_stack st);
           self = n_name (e_node executionData)
       in if isLegacyExecutionOrder w then stack @ self # names else rev names @ self # stack)"
proof -
  have "same_shape w w" by (auto simp: same_shape_def)
  then obtain acc qs where acc: "prepareRequestedNodesForExecution cur runIndex executionData (r_actions request)
        \<lparr>rq_workflow = w, rq_runData = rx_runData st, rq_nodes = [], rq_actions = []\<rparr> = (acc, None)"
      "same_shape w (rq_workflow acc)" "rq_nodes acc = qs" "map (\<lambda>q. c_node (q_inputConnectionData q)) qs = map a_nodeName (r_actions request)"
    using prepareRequested_ok [of w "\<lparr>rq_workflow = w, rq_runData = rx_runData st, rq_nodes = [], rq_actions = []\<rparr>"
        "r_actions request" cur runIndex executionData] actions by auto
  obtain first where first: "handleRequest w cur request runIndex executionData (rx_runData st) =
      (rq_workflow acc, rq_runData acc, Inr (first # qs))" "c_node (q_inputConnectionData first) = n_name (e_node executionData)"
    using acc source main by (auto simp: handleRequest_def prepareRequestingNodeForResuming_def)
  have known: "numberOfInputs (rq_workflow acc) n \<le> 1 \<and> (\<exists>node. map_of (w_nodes (rq_workflow acc)) n = Some node \<and> n_name node = n)"
    if n: "map_of (w_nodes w) n \<noteq> None" "numberOfInputs w n \<le> 1" for n
  proof -
    obtain x where x: "map_of (w_nodes (rq_workflow acc)) n = Some x" using n(1) acc(2) by (force simp: same_shape_def)
    then obtain y where "map_of (w_nodes w) n = Some y" "n_name y = n_name x"
      using acc(2) unfolding same_shape_def by blast
    then show ?thesis using x n(2) nodes_ok_name [OF nodes] acc(2) by (auto simp: same_shape_def)
  qed
  have "\<forall>q \<in> set (first # qs). map_of (w_nodes w) (c_node (q_inputConnectionData q)) \<noteq> None \<and>
      numberOfInputs w (c_node (q_inputConnectionData q)) \<le> 1"
  proof -
    have "\<forall>n \<in> set (map a_nodeName (r_actions request)). map_of (w_nodes w) n \<noteq> None \<and> numberOfInputs w n \<le> 1"
      using actions by simp
    then show ?thesis unfolding acc(4) [symmetric] using self first(2) by simp
  qed
  then obtain st' where "addRequested (rq_workflow acc) (first # qs) (st\<lparr>rx_runData := rq_runData acc\<rparr>) = (st', None)"
      "map (\<lambda>x. n_name (e_node x)) (rx_stack st') =
        (if isLegacyExecutionOrder (rq_workflow acc) then map (\<lambda>x. n_name (e_node x)) (rx_stack st) @ map (\<lambda>q. c_node (q_inputConnectionData q)) (first # qs)
         else rev (map (\<lambda>q. c_node (q_inputConnectionData q)) (first # qs)) @ map (\<lambda>x. n_name (e_node x)) (rx_stack st))"
    using addRequested_ok [of "first # qs" "rq_workflow acc" "st\<lparr>rx_runData := rq_runData acc\<rparr>"] known by auto
  moreover have "isLegacyExecutionOrder (rq_workflow acc) = isLegacyExecutionOrder w"
    using acc(2) by (simp add: same_shape_def isLegacyExecutionOrder_def)
  ultimately show ?thesis using first acc(4) by (simp add: handleEngineRequest_def Let_def)
qed

text \<open>An agent with two tools in a workflow of the legacy order.\<close>

definition agent_workflow :: Workflow where
  "agent_workflow = new_Workflow ''1'' [mk_node 0 ''Start'' ''t'', mk_node 1 ''Agent'' ''t'', mk_node 2 ''T1'' ''t'', mk_node 3 ''T2'' ''t'']
     [(''Start'', [(Main, [Some [\<lparr>c_node = ''Agent'', c_type = Main, c_index = 0\<rparr>]])]),
      (''T1'', [(AiTool, [Some [\<lparr>c_node = ''Agent'', c_type = AiTool, c_index = 0\<rparr>]])]),
      (''T2'', [(AiTool, [Some [\<lparr>c_node = ''Agent'', c_type = AiTool, c_index = 0\<rparr>]])])]
     (\<lambda>_ _. None) None None"

definition agent_action :: "string \<Rightarrow> EngineAction" where
  "agent_action n = \<lparr>a_nodeName = n, a_input = [], a_type = AiTool, a_id = n, a_parentNodeName = None, a_itemIndex = None\<rparr>"

definition agent_entry :: IExecuteData where
  "agent_entry = \<lparr>e_node = mk_node 1 ''Agent'' ''t'', e_data = [(Main, [Val [empty_item]])],
     e_source = Some [(Main, [Some \<lparr>previousNode = ''Start'', previousNodeOutput = Some 0, previousNodeRun = Some 0\<rparr>])],
     e_runIndex = None, e_metadata = None\<rparr>"

lemma handleEngineRequest_order_witness:
  "\<exists>w' st'. handleEngineRequest agent_workflow (mk_node 1 ''Agent'' ''t'')
       \<lparr>r_actions = [agent_action ''T1'', agent_action ''T2''], r_metadata = JObj []\<rparr> 0 agent_entry empty_run = (w', st', None) \<and>
     map (\<lambda>x. n_name (e_node x)) (rx_stack st') = [''Agent'', ''T1'', ''T2'']"
proof -
  have nodes: "nodes_ok (w_nodes agent_workflow)"
    by (simp add: agent_workflow_def new_Workflow_def setSettings_def setPinData_def setConnections_def setNodes_ok)
  have w: "map_of (w_nodes agent_workflow) ''T1'' \<noteq> None" "map_of (w_nodes agent_workflow) ''T2'' \<noteq> None"
      "map_of (w_nodes agent_workflow) ''Agent'' \<noteq> None" "isLegacyExecutionOrder agent_workflow"
      "numberOfInputs agent_workflow ''T1'' \<le> 1" "numberOfInputs agent_workflow ''T2'' \<le> 1"
      "numberOfInputs agent_workflow ''Agent'' \<le> 1" by code_simp+
  show ?thesis
    using handleEngineRequest_order [OF nodes, of "\<lparr>r_actions = [agent_action ''T1'', agent_action ''T2''], r_metadata = JObj []\<rparr>"
        agent_entry "\<lparr>previousNode = ''Start'', previousNodeOutput = Some 0, previousNodeRun = Some 0\<rparr>"
        "mk_node 1 ''Agent'' ''t''" 0 empty_run] w
    by (simp add: agent_action_def agent_entry_def parentSource_def get_slot_def empty_run_def Let_def)
qed

end
