(* ===== verification/EngineLoop.thy ===== *)
theory EngineLoop
  imports EngineRequests
begin

text \<open>
  The execution loop of \<open>workflow-execute.ts\<close> (\<open>run\<close> and \<open>processRunExecutionData\<close>): taking an entry off the
  stack, running its node with retries, recording the result, adding the nodes behind it, and picking a
  waiting node when nothing else is left. Lifecycle hooks, logging, timing and binary data are left out.
\<close>

section \<open>State and surroundings\<close>

text \<open>What the loop is given: whether the mode is \<open>manual\<close>, the answer of a node's code at each call, the
  number of main outputs of a node, the data proxy's \<open>$getPairedItem\<close>, and the iterations at whose
  start the execution is canceled or has timed out.\<close>

record Environment =
  v_manual :: bool
  v_code :: "nat \<Rightarrow> node_code"
  v_mainOutputs :: "INode \<Rightarrow> nat"
  v_getPairedItem :: "string \<Rightarrow> ISourceData \<Rightarrow> IPairedItemData \<Rightarrow> INodeExecutionData option"
  v_stopped :: "nat \<Rightarrow> bool"

text \<open>\<open>l_lastTry\<close> is \<open>lastExecutionTry\<close>, a node name and a run index; \<open>l_calls\<close> counts the runs of nodes.\<close>

record LoopState =
  l_workflow :: Workflow
  l_data :: RunExecutionData
  l_executionIndex :: nat
  l_lastTry :: "(string \<times> nat) option"
  l_error :: "NodeErr option"
  l_calls :: nat

text \<open>What a thrown error looks like when it is caught.\<close>

definition caught :: "js_error \<Rightarrow> NodeErr" where
  "caught e = (case e of
     UnexpectedError m \<Rightarrow> \<lparr>err_name = ''UnexpectedError'', err_message = m\<rparr>
   | ApplicationError m \<Rightarrow> \<lparr>err_name = ''ApplicationError'', err_message = m\<rparr>
   | UserError m \<Rightarrow> \<lparr>err_name = ''UserError'', err_message = m\<rparr>
   | OperationalError m \<Rightarrow> \<lparr>err_name = ''OperationalError'', err_message = m\<rparr>
   | NodeError m \<Rightarrow> \<lparr>err_name = ''NodeOperationError'', err_message = m\<rparr>
   | AssertionError \<Rightarrow> \<lparr>err_name = ''AssertionError'', err_message = []\<rparr>
   | WorkflowHasIssuesError \<Rightarrow> \<lparr>err_name = ''WorkflowHasIssuesError'', err_message = []\<rparr>
   | _ \<Rightarrow> \<lparr>err_name = ''TypeError'', err_message = []\<rparr>)"

section \<open>Trying a node\<close>

definition maxTries :: "INode \<Rightarrow> nat" where
  "maxTries node = (if n_retryOnFail node = Some True
     then min 5 (max 2 (case n_maxTries node of None \<Rightarrow> 3 | Some 0 \<Rightarrow> 3 | Some n \<Rightarrow> n)) else 1)"

definition response_failed :: "NodeResponse \<Rightarrow> bool" where
  "response_failed r = (case r of
     ResponseData (Some (Val (item # _) # _)) \<Rightarrow> map_of (x_json item) ''error'' \<noteq> None | _ \<Rightarrow> False)"

definition note_wait :: "nat option \<Rightarrow> RunExecutionData \<Rightarrow> RunExecutionData" where
  "note_wait t st = (case t of None \<Rightarrow> st | Some _ \<Rightarrow> st\<lparr>rx_waitTill := t\<rparr>)"

text \<open>One run of the node: the answer, and the state with the time to wait for and the call counted.\<close>

definition callNode ::
  "Environment \<Rightarrow> IExecuteData \<Rightarrow> nat \<Rightarrow> EngineResponse option \<Rightarrow> LoopState \<Rightarrow> (NodeErr + NodeResponse) \<times> LoopState" where
  "callNode env executionData runIndex results ls =
     (case runNode (l_workflow ls) (v_manual env) (v_code env (l_calls ls)) executionData (l_data ls) runIndex results of
        (answer, wait) \<Rightarrow> (answer, ls\<lparr>l_data := note_wait wait (l_data ls), l_calls := Suc (l_calls ls)\<rparr>))"

text \<open>The inner loop, which runs the node again while its first item is an error; \<open>left\<close> is
  \<open>maxTries - 1 - tryIndex\<close>.\<close>

fun runAgain ::
  "nat \<Rightarrow> Environment \<Rightarrow> IExecuteData \<Rightarrow> nat \<Rightarrow> NodeResponse \<Rightarrow> LoopState \<Rightarrow> (NodeErr + NodeResponse) \<times> LoopState \<times> nat" where
  "runAgain 0 env executionData runIndex response ls = (Inr response, ls, 0)"
| "runAgain (Suc left) env executionData runIndex response ls =
     (if response_failed response
      then (case callNode env executionData runIndex None ls of
          (Inl e, ls) \<Rightarrow> (Inl e, ls, Suc left)
        | (Inr response, ls) \<Rightarrow> runAgain left env executionData runIndex response ls)
      else (Inr response, ls, Suc left))"

text \<open>The results of the nodes that were requested, for a node that is resumed.\<close>

definition collectResponses :: "IExecuteData \<Rightarrow> IRunData \<Rightarrow> EngineResponse \<Rightarrow> EngineResponse" where
  "collectResponses executionData runData results =
     (case Option.bind (e_metadata executionData) m_subNodeExecutionData of
        None \<Rightarrow> results
      | Some (actions, metadata) \<Rightarrow> \<lparr>er_actionResponses = er_actionResponses results @
            concat (map (\<lambda>subNode. let ts = runs_of runData (s_nodeName subNode) in
              if s_runIndex subNode < length ts then [(ts ! s_runIndex subNode, s_action subNode)] else []) actions),
          er_metadata = metadata\<rparr>)"

datatype TryEnd = Finished "items slot list option" | EndOfBranch | RequestHandled

definition set_last :: "string \<Rightarrow> LoopState \<Rightarrow> LoopState" where
  "set_last n ls = ls\<lparr>l_data := (l_data ls)\<lparr>rx_lastNodeExecuted := Some n\<rparr>\<rparr>"

text \<open>\<open>!nodeSuccessData?.[0]?.[0]\<close>\<close>

definition no_first_item :: "items slot list option \<Rightarrow> bool" where
  "no_first_item nsd = (case nsd of Some (Val (_ # _) # _) \<Rightarrow> False | _ \<Rightarrow> True)"

text \<open>The empty item of \<open>alwaysOutputData\<close>, paired with every item of the input.\<close>

definition alwaysOutput :: "items slot list \<Rightarrow> INodeExecutionData" where
  "alwaysOutput inputs = empty_item\<lparr>x_pairedItem := Some (PMany (concat (map (\<lambda>(inputIndex, input).
     case input of
       Val xs \<Rightarrow> map (\<lambda>itemIndex. \<lparr>p_item = itemIndex, p_input = Some inputIndex, p_sourceOverwrite = None\<rparr>) [0..<length xs]
     | _ \<Rightarrow> []) (List.enumerate 0 inputs))))\<rparr>"

text \<open>What follows once there is output, up to the end of the \<open>try\<close> block.\<close>

definition afterRun ::
  "IExecuteData \<Rightarrow> items slot list option \<Rightarrow> LoopState \<Rightarrow> (NodeErr + TryEnd) \<times> LoopState \<times> items slot list option" where
  "afterRun executionData nsd ls =
     (case assignPairedItems nsd executionData of
        Inl e \<Rightarrow> (Inl (caught e), ls, nsd)
      | Inr nsd \<Rightarrow>
          (let ls = (if nsd = None then ls else set_last (n_name (e_node executionData)) ls) in
           if no_first_item nsd \<and> n_alwaysOutputData (e_node executionData) = Some True
           then (case map_of (e_data executionData) Main of
               None \<Rightarrow> (Inl (caught TypeError), ls, nsd)
             | Some inputs \<Rightarrow>
                 (let nsd = Some (set_slot Hole 0 (Val [alwaysOutput inputs]) (case_option [] (\<lambda>outs. outs) nsd))
                  in (Inr (Finished nsd), ls, nsd)))
           else if nsd = None \<and> rx_waitTill (l_data ls) = None then (Inr EndOfBranch, ls, nsd)
           else (Inr (Finished nsd), ls, nsd)))"

text \<open>What one attempt leaves: how it ended, the state, \<open>nodeSuccessData\<close>, the results of requested nodes
  (which the attempts share) and how often the node may still be tried.\<close>

type_synonym attempt_result = "(NodeErr + TryEnd) \<times> LoopState \<times> items slot list option \<times> EngineResponse \<times> nat"

definition handleResponse ::
  "Environment \<Rightarrow> IExecuteData \<Rightarrow> nat \<Rightarrow> items slot list option \<Rightarrow> NodeResponse \<Rightarrow> LoopState \<Rightarrow>
   (NodeErr + TryEnd) \<times> LoopState \<times> items slot list option" where
  "handleResponse env executionData runIndex nsd response ls =
     (case response of
        Request request \<Rightarrow>
          (case handleEngineRequest (l_workflow ls) (e_node executionData) request runIndex executionData (l_data ls) of
             (w, st, err) \<Rightarrow> (case err of Some e \<Rightarrow> Inl (caught e) | None \<Rightarrow> Inr RequestHandled,
               ls\<lparr>l_workflow := w, l_data := st\<rparr>, nsd))
      | ResponseData nsd \<Rightarrow>
          (if nsd \<noteq> None \<and> n_onError (e_node executionData) = Some ContinueErrorOutput
           then (case handleNodeErrorOutput (v_mainOutputs env (e_node executionData)) (v_getPairedItem env) executionData (the nsd) of
               Inl e \<Rightarrow> (Inl (caught e), ls, nsd)
             | Inr outs \<Rightarrow> afterRun executionData (Some outs) ls)
           else afterRun executionData nsd ls))"

definition attempt ::
  "Environment \<Rightarrow> IExecuteData \<Rightarrow> nat \<Rightarrow> nat \<Rightarrow> LoopState \<Rightarrow> items slot list option \<Rightarrow> EngineResponse \<Rightarrow> attempt_result" where
  "attempt env executionData runIndex left ls nsd results =
     (case (if disabled (e_node executionData) then None
            else Option.bind (rx_pinData (l_data ls)) (\<lambda>pd. map_of pd (n_name (e_node executionData)))) of
        Some pinned \<Rightarrow>
          (case afterRun executionData (Some [Val pinned]) ls of (r, ls, nsd) \<Rightarrow> (r, ls, nsd, results, left))
      | None \<Rightarrow>
          (let results = collectResponses executionData (rx_runData (l_data ls)) results in
           case callNode env executionData runIndex (Some results) ls of
             (Inl e, ls) \<Rightarrow> (Inl e, ls, nsd, results, left)
           | (Inr response, ls) \<Rightarrow>
               (case runAgain left env executionData runIndex response ls of
                  (Inl e, ls, left) \<Rightarrow> (Inl e, ls, nsd, results, left)
                | (Inr response, ls, left) \<Rightarrow>
                    (case handleResponse env executionData runIndex nsd response ls of
                       (r, ls, nsd) \<Rightarrow> (r, ls, nsd, results, left)))))"

lemma runAgain_left: "snd (snd (runAgain left env e run r ls)) \<le> left"
  by (induction left env e run r ls rule: runAgain.induct) (auto split: prod.split sum.split intro: le_SucI)

lemma attempt_left: "attempt env e run left ls nsd results = (r, ls', nsd', results', left') \<Longrightarrow> left' \<le> left"
  using runAgain_left [of left env e run]
  by (auto simp: attempt_def Let_def split_beta split: option.splits sum.splits prod.splits)

text \<open>The tries: after a failed one the next, until none is left. A try resets \<open>executionError\<close>.\<close>

function tries ::
  "Environment \<Rightarrow> IExecuteData \<Rightarrow> nat \<Rightarrow> nat \<Rightarrow> LoopState \<Rightarrow> items slot list option \<Rightarrow> EngineResponse \<Rightarrow>
   (NodeErr + TryEnd) \<times> LoopState \<times> items slot list option" where
  "tries env executionData runIndex left ls nsd results =
     (case attempt env executionData runIndex left ls nsd results of
        (Inr e, ls, nsd, results, left) \<Rightarrow> (Inr e, ls, nsd)
      | (Inl e, ls, nsd, results, left') \<Rightarrow>
          (let ls = set_last (n_name (e_node executionData)) ls in
           if left' = 0 then (Inl e, ls, nsd)
           else tries env executionData runIndex (left' - 1) ls nsd results))"
  by pat_completeness auto
termination
  by (relation "measure (\<lambda>(env, e, run, left, ls, nsd, results). left)") (auto dest!: attempt_left [OF sym])

declare tries.simps [simp del]

section \<open>Recording a run\<close>

text \<open>\<open>Object.assign(current, task)\<close>: the keys \<open>task\<close> has replace those of \<open>current\<close>.\<close>

definition assignTask :: "ITaskData \<Rightarrow> ITaskData \<Rightarrow> ITaskData" where
  "assignTask current task = task\<lparr>
     t_data := (case t_data task of None \<Rightarrow> t_data current | d \<Rightarrow> d),
     t_inputOverride := (case t_inputOverride task of None \<Rightarrow> t_inputOverride current | d \<Rightarrow> d),
     t_error := (case t_error task of None \<Rightarrow> t_error current | d \<Rightarrow> d)\<rparr>"

definition recordTask :: "string \<Rightarrow> nat \<Rightarrow> ITaskData \<Rightarrow> RunExecutionData \<Rightarrow> RunExecutionData" where
  "recordTask n runIndex task st =
     (let ts = runs_of (rx_runData st) n
      in st\<lparr>rx_runData := set_runs n (if runIndex < length ts then ts[runIndex := assignTask (ts ! runIndex) task]
            else ts @ [task]) (rx_runData st)\<rparr>)"

text \<open>\<open>runData[name]?.[runIndex]?.inputOverride || {}\<close>\<close>

definition inputOverride_of :: "string \<Rightarrow> nat \<Rightarrow> RunExecutionData \<Rightarrow> ITaskDataConnections" where
  "inputOverride_of n runIndex st =
     (let ts = runs_of (rx_runData st) n
      in if runIndex < length ts then case_option [] (\<lambda>d. d) (t_inputOverride (ts ! runIndex)) else [])"

definition new_task :: "IExecuteData \<Rightarrow> nat \<Rightarrow> RunExecutionData \<Rightarrow> ITaskData" where
  "new_task executionData executionIndex st = \<lparr>t_executionIndex = Some executionIndex,
     t_source = (case e_source executionData of None \<Rightarrow> [] | Some source \<Rightarrow> case_option [] (\<lambda>l. l) (map_of source Main)),
     t_executionStatus = Some (if rx_waitTill st = None then Success else Waiting),
     t_data = None, t_inputOverride = None, t_error = None, t_metadata = e_metadata executionData\<rparr>"

definition continues_on_error :: "INode \<Rightarrow> bool" where
  "continues_on_error node \<longleftrightarrow> n_continueOnFail node = Some True \<or>
     n_onError node \<in> {Some ContinueRegularOutput, Some ContinueErrorOutput}"

text \<open>A failed node that stops the execution: the error is recorded and the entry goes back on the stack.\<close>

definition stopOnError :: "IExecuteData \<Rightarrow> nat \<Rightarrow> NodeErr \<Rightarrow> ITaskData \<Rightarrow> RunExecutionData \<Rightarrow> RunExecutionData" where
  "stopOnError executionData runIndex err task st =
     (let node = e_node executionData;
          task = (case n_rewireOutputLogTo node of None \<Rightarrow> task
            | Some t \<Rightarrow> task\<lparr>t_inputOverride := Some (inputOverride_of (n_name node) runIndex st),
                t_data := Some [(t, [Some [empty_item\<lparr>x_json := [(''error'', JStr (err_message err))]\<rparr>]])]\<rparr>);
          st = recordTask (n_name node) runIndex task st
      in st\<lparr>rx_stack := executionData # rx_stack st\<rparr>)"

text \<open>The output of the node, where a failed one that goes on passes its first input through.\<close>

definition output_after :: "IExecuteData \<Rightarrow> NodeErr option \<Rightarrow> items slot list option \<Rightarrow> items slot list option" where
  "output_after executionData err nsd =
     (if err = None then nsd
      else case map_of (e_data executionData) Main of
        Some (x # _) \<Rightarrow> if x = Null then nsd else Some [x]
      | _ \<Rightarrow> nsd)"

definition recordSuccess :: "IExecuteData \<Rightarrow> nat \<Rightarrow> items list \<Rightarrow> ITaskData \<Rightarrow> RunExecutionData \<Rightarrow> RunExecutionData" where
  "recordSuccess executionData runIndex outs task st =
     (let node = e_node executionData
      in recordTask (n_name node) runIndex
           (case n_rewireOutputLogTo node of
              None \<Rightarrow> task\<lparr>t_data := Some [(Main, map Some outs)]\<rparr>
            | Some t \<Rightarrow> task\<lparr>t_inputOverride := Some (inputOverride_of (n_name node) runIndex st),
                t_data := Some [(t, map Some outs)]\<rparr>) st)"

section \<open>The nodes behind a node\<close>

text \<open>The comparison of two positions, \<open>[x, y]\<close>. Between positions of the same height it never answers that
  the first is the later one. The sort uses it only to ask whether a later element goes before an
  earlier one, which is all that the sort of V8 asks.\<close>

definition comparePositions :: "int \<times> int \<Rightarrow> int \<times> int \<Rightarrow> int" where
  "comparePositions a b = (if snd a < snd b then 1 else if snd a > snd b then -1 else if fst a > fst b then -1 else 0)"

fun insert_stable :: "('a \<Rightarrow> 'a \<Rightarrow> int) \<Rightarrow> 'a \<Rightarrow> 'a list \<Rightarrow> 'a list" where
  "insert_stable cmp x [] = [x]"
| "insert_stable cmp x (y # ys) = (if cmp y x < 0 then y # insert_stable cmp x ys else x # y # ys)"

definition sort_stable :: "('a \<Rightarrow> 'a \<Rightarrow> int) \<Rightarrow> 'a list \<Rightarrow> 'a list" where
  "sort_stable cmp xs = foldr (insert_stable cmp) xs []"

text \<open>The connections that leave a node, with the output they leave, and whether one is followed.\<close>

definition outgoing :: "Workflow \<Rightarrow> string \<Rightarrow> (IConnection \<times> nat) list" where
  "outgoing workflow n = concat (map (\<lambda>(outputIndex, grp). map (\<lambda>c. (c, outputIndex)) (case_option [] (\<lambda>l. l) grp))
     (List.enumerate 0 (groups_of (connectionsBySourceNode workflow) n Main)))"

definition follows :: "Workflow \<Rightarrow> items list \<Rightarrow> IConnection \<times> nat \<Rightarrow> bool" where
  "follows workflow outs = (\<lambda>(c, outputIndex). outputIndex < length outs \<and>
     (outs ! outputIndex \<noteq> [] \<or> (c_index c > 0 \<and> isLegacyExecutionOrder workflow)))"

text \<open>The connections to follow in the order of version 1; a node that is missing is an error.\<close>

definition followed_connections :: "Workflow \<Rightarrow> string \<Rightarrow> items list \<Rightarrow> ((IConnection \<times> nat) list) res" where
  "followed_connections workflow n outs =
     (if list_ex (\<lambda>(c, _). map_of (w_nodes workflow) (c_node c) = None) (outgoing workflow n)
      then Inl (ApplicationError ''Destination node not found'')
      else Inr (filter (follows workflow outs) (outgoing workflow n)))"

definition position_of :: "Workflow \<Rightarrow> IConnection \<Rightarrow> int \<times> int" where
  "position_of workflow c = (case map_of (w_nodes workflow) (c_node c) of None \<Rightarrow> (0, 0) | Some node \<Rightarrow> n_position node)"

text \<open>The legacy order adds each node as it comes to its connection, version 1 all of them sorted.\<close>

definition addChildren ::
  "Workflow \<Rightarrow> string \<Rightarrow> items list \<Rightarrow> nat \<Rightarrow> RunExecutionData \<Rightarrow> RunExecutionData res" where
  "addChildren workflow n outs runIndex st =
     (let add = (\<lambda>st (c, outputIndex).
            addNodeToBeExecuted workflow c outputIndex n (Some (map Val outs)) runIndex None None st) in
      if isLegacyExecutionOrder workflow
      then foldR (\<lambda>st (c, outputIndex).
             if map_of (w_nodes workflow) (c_node c) = None then Inl (ApplicationError ''Destination node not found'')
             else if follows workflow outs (c, outputIndex) then add st (c, outputIndex) else Inr st) st (outgoing workflow n)
      else rbind (followed_connections workflow n outs) (\<lambda>conns. foldR add st
         (sort_stable (\<lambda>a b. comparePositions (position_of workflow (fst a)) (position_of workflow (fst b))) conns)))"

section \<open>Waiting nodes when nothing else is left\<close>

text \<open>The default order of \<open>Array.prototype.sort\<close> on the keys: as strings.\<close>

fun string_le :: "string \<Rightarrow> string \<Rightarrow> bool" where
  "string_le [] t = True"
| "string_le (c # s) [] = False"
| "string_le (c # s) (d # t) = ((of_char c :: nat) < of_char d \<or> (c = d \<and> string_le s t))"

definition first_key :: "nat list \<Rightarrow> nat" where
  "first_key ks = foldl (\<lambda>m k. if string_le (show_nat m) (show_nat k) then m else k) (hd ks) (tl ks)"

datatype WaitingOutcome = NotYet | Picked RunExecutionData | Removed RunExecutionData

text \<open>Whether all inputs are required, and whether those that are have data (indexes or a number).\<close>

definition all_required :: "INodeType \<Rightarrow> bool" where
  "all_required nodeType = (case nt_requiredInputs nodeType of
     None \<Rightarrow> False | Some (Inl k) \<Rightarrow> k = nt_inputs nodeType | Some (Inr is) \<Rightarrow> length is = nt_inputs nodeType)"

definition required_missing :: "INodeType \<Rightarrow> items slot list \<Rightarrow> bool" where
  "required_missing nodeType main =
     (let inputsWithData = filter (\<lambda>i. main ! i \<noteq> Null \<and> main ! i \<noteq> Hole) [0..<length main]
      in case nt_requiredInputs nodeType of
           None \<Rightarrow> False
         | Some (Inl k) \<Rightarrow> length inputsWithData < k
         | Some (Inr is) \<Rightarrow> \<not> list_all (\<lambda>i. i \<in> set inputsWithData) is)"

text \<open>\<open>null\<close> becomes an empty list; whether any input has items.\<close>

definition task_main :: "items slot list \<Rightarrow> items slot list" where
  "task_main main = map (\<lambda>x. if x = Null then Val [] else x) main"

definition any_items :: "items slot list \<Rightarrow> bool" where
  "any_items main = list_ex (\<lambda>x. case x of Val (_ # _) \<Rightarrow> True | _ \<Rightarrow> False) main"

definition tryWaiting :: "Workflow \<Rightarrow> string list \<Rightarrow> RunExecutionData \<Rightarrow> string \<Rightarrow> WaitingOutcome res" where
  "tryWaiting workflow waitingNodes st n =
     (case getNode workflow n of
        None \<Rightarrow> Inr NotYet
      | Some checkNode \<Rightarrow>
          (let nodeType = nodeTypes workflow (n_type checkNode) (n_typeVersion checkNode);
               v1 = \<not> isLegacyExecutionOrder workflow in
           if v1 \<and> nodeType = None then Inl TypeError
           else if v1 \<and> all_required (the nodeType) then Inr NotYet
           else if list_ex (\<lambda>p. p \<in> set waitingNodes) (wf_getParentNodes workflow n (OfType Main) (-1)) then Inr NotYet
           else (case map fst (by_index (obj_of (rx_waiting st) n)) of
               [] \<Rightarrow> Inl TypeError
             | k # ks \<Rightarrow>
                 (let firstRunIndex = first_key (k # ks) in
                  case main_of (rx_waiting st) n firstRunIndex of
                    None \<Rightarrow> Inl TypeError
                  | Some main \<Rightarrow>
                      if v1 \<and> required_missing (the nodeType) main then Inr NotYet
                      else if any_items main \<and> nodeType = None then Inl TypeError
                      else (case map_of (case_option [] (\<lambda>s. s) (rx_waitingSource st)) n of
                          None \<Rightarrow> Inl TypeError
                        | Some sources \<Rightarrow>
                            if any_items main
                            then Inr (Picked (dropEntry n firstRunIndex (st\<lparr>rx_stack := rx_stack st @ [\<lparr>e_node = checkNode,
                               e_data = [(Main, task_main main @ replicate (nt_inputs (the nodeType) - length main) (Val []))],
                               e_source = map_of sources firstRunIndex, e_runIndex = None, e_metadata = None\<rparr>]\<rparr>)))
                            else Inr (Removed (dropEntry n firstRunIndex st)))))))"

text \<open>The number of entries that wait, which goes down whenever the search begins again.\<close>

definition waiting_count :: "RunExecutionData \<Rightarrow> nat" where
  "waiting_count st = sum_list (map (\<lambda>e. length (snd e)) (rx_waiting st))"

lemma count_update_less:
  "map_of ws n = Some obj \<Longrightarrow> length obj' < length obj \<Longrightarrow>
   sum_list (map (\<lambda>e. length (snd e)) (AList.update n obj' ws)) < sum_list (map (\<lambda>e. length (snd e)) ws)"
  by (induction ws) auto

lemma count_delete_le: "sum_list (map (\<lambda>e. length (snd e)) (AList.delete n ws)) \<le> sum_list (map (\<lambda>e. length (snd e)) ws)"
  by (induction ws) auto

lemma count_delete_less:
  "map_of ws n = Some obj \<Longrightarrow> obj \<noteq> [] \<Longrightarrow>
   sum_list (map (\<lambda>e. length (snd e)) (AList.delete n ws)) < sum_list (map (\<lambda>e. length (snd e)) ws)"
proof (induction ws)
  case (Cons p ws)
  have "0 < length obj" using Cons.prems(2) by simp
  with count_delete_le [of n ws]
  have "sum_list (map (\<lambda>e. length (snd e)) (AList.delete n ws)) < length obj + sum_list (map (\<lambda>e. length (snd e)) ws)"
    by linarith
  then show ?case using Cons by (cases p) auto
qed simp

lemma dropEntry_count:
  assumes "main_of (rx_waiting st) n k = Some xs"
  shows "waiting_count (dropEntry n k st) < waiting_count st"
proof -
  obtain obj c where obj: "map_of (rx_waiting st) n = Some obj" "map_of obj k = Some c"
    using assms by (auto simp: main_of_def split: option.splits)
  then have "length (AList.delete k obj) < length obj" "obj \<noteq> []" using length_delete_less by auto
  then show ?thesis using obj count_update_less [of "rx_waiting st" n obj "AList.delete k obj"]
      count_delete_less [of "rx_waiting st" n obj]
    by (auto simp: waiting_count_def dropEntry_def Let_def)
qed

lemma tryWaiting_removed: "tryWaiting w names st n = Inr (Removed st') \<Longrightarrow> waiting_count st' < waiting_count st"
  by (auto simp: tryWaiting_def Let_def dropEntry_count split: option.splits if_splits list.splits)

text \<open>The search: \<open>rest\<close> is what is left of the list \<open>waitingNodes\<close>. An entry without any items is removed
  and the search begins again.\<close>

function scheduleWaiting :: "Workflow \<Rightarrow> string list \<Rightarrow> string list \<Rightarrow> RunExecutionData \<Rightarrow> RunExecutionData res" where
  "scheduleWaiting workflow waitingNodes [] st = Inr st"
| "scheduleWaiting workflow waitingNodes (n # rest) st =
     (case tryWaiting workflow waitingNodes st n of
        Inl e \<Rightarrow> Inl e
      | Inr NotYet \<Rightarrow> scheduleWaiting workflow waitingNodes rest st
      | Inr (Picked st') \<Rightarrow> Inr st'
      | Inr (Removed st') \<Rightarrow> scheduleWaiting workflow (map fst (rx_waiting st')) (map fst (rx_waiting st')) st')"
  by pat_completeness auto
termination
  by (relation "measures [\<lambda>(w, names, rest, st). waiting_count st, \<lambda>(w, names, rest, st). length rest]")
    (auto dest: tryWaiting_removed)

section \<open>One iteration\<close>

datatype Iteration = NextIteration LoopState | LoopEnded LoopState

text \<open>\<open>resolveSourceOverwrite\<close>\<close>

definition resolveSourceOverwrite :: "INodeExecutionData \<Rightarrow> IExecuteData \<Rightarrow> ISourceData option" where
  "resolveSourceOverwrite item executionData =
     (case e_metadata executionData of
        None \<Rightarrow> None
      | Some m \<Rightarrow> if \<not> m_preserveSourceOverwrite m then None
          else (case m_preservedSourceOverwrite m of
              Some s \<Rightarrow> Some s
            | None \<Rightarrow> (case x_pairedItem item of Some (POne p) \<Rightarrow> p_sourceOverwrite p | _ \<Rightarrow> None)))"

text \<open>Every item that comes in is paired with its own place.\<close>

definition pairInputs :: "IExecuteData \<Rightarrow> IExecuteData" where
  "pairInputs executionData = executionData\<lparr>e_data := map (\<lambda>(t, inputs). (t, map (\<lambda>(inputIndex, input).
     case input of
       Val xs \<Rightarrow> Val (map (\<lambda>(itemIndex, item). item\<lparr>x_pairedItem := Some (POne \<lparr>p_item = itemIndex,
         p_input = (if inputIndex = 0 then None else Some inputIndex),
         p_sourceOverwrite = resolveSourceOverwrite item executionData\<rparr>)\<rparr>) (List.enumerate 0 xs))
     | s \<Rightarrow> s) (List.enumerate 0 inputs))) (e_data executionData)\<rparr>"

text \<open>After the tries: the node's run is recorded and the nodes behind it are added. An \<open>Inl\<close> is what is thrown out
  of the loop; the state is not part of it, although the code has changed it before: at least the node's list of runs is
  there then, empty or with the new run. Statements about \<open>afterTries\<close> speak of its \<open>Inr\<close> results only.\<close>

definition afterTries ::
  "IExecuteData \<Rightarrow> nat \<Rightarrow> nat \<Rightarrow> NodeErr option \<Rightarrow> items slot list option \<Rightarrow> LoopState \<Rightarrow> Iteration res" where
  "afterTries executionData runIndex executionIndex err nsd ls =
     (let node = e_node executionData; st = l_data ls;
          task = (new_task executionData executionIndex st)\<lparr>t_error := err\<rparr>;
          task = (if err = None then task else task\<lparr>t_executionStatus := Some Error\<rparr>);
          ls = ls\<lparr>l_error := err\<rparr> in
      if err \<noteq> None \<and> \<not> continues_on_error node
      then Inr (LoopEnded (ls\<lparr>l_data := stopOnError executionData runIndex (the err) task st\<rparr>))
      else case output_after executionData err nsd of
        None \<Rightarrow> Inl TypeError
      | Some outs \<Rightarrow>
          rbind (mergeErrors outs) (\<lambda>outs.
            (let st = recordSuccess executionData runIndex outs task st in
             if rx_waitTill st \<noteq> None
             then Inr (LoopEnded (ls\<lparr>l_data := st\<lparr>rx_stack := executionData # rx_stack st\<rparr>\<rparr>))
             else if map_option d_nodeName (rx_destinationNode st) = Some (n_name node)
             then Inr (NextIteration (ls\<lparr>l_data := st\<rparr>))
             else rbind (addChildren (l_workflow ls) (n_name node) outs runIndex st) (\<lambda>st.
               rbind (if rx_stack st = [] then scheduleWaiting (l_workflow ls) (map fst (rx_waiting st)) (map fst (rx_waiting st)) st
                      else Inr st) (\<lambda>st. Inr (NextIteration (ls\<lparr>l_data := st\<rparr>)))))))"

text \<open>A node whose input is there: its tries and what follows them.\<close>

definition runEntry :: "Environment \<Rightarrow> IExecuteData \<Rightarrow> nat \<Rightarrow> nat \<Rightarrow> LoopState \<Rightarrow> Iteration res" where
  "runEntry env executionData runIndex executionIndex ls =
     (case tries env executionData runIndex (maxTries (e_node executionData) - 1) ls None makeEngineResponse of
        (Inr EndOfBranch, ls, nsd) \<Rightarrow> Inr (NextIteration ls)
      | (Inr RequestHandled, ls, nsd) \<Rightarrow> Inr (NextIteration ls)
      | (Inr (Finished nsd), ls, _) \<Rightarrow> afterTries executionData runIndex executionIndex None nsd ls
      | (Inl e, ls, nsd) \<Rightarrow> afterTries executionData runIndex executionIndex (Some e) nsd ls)"

definition iteration :: "Environment \<Rightarrow> LoopState \<Rightarrow> Iteration res" where
  "iteration env ls =
     (case rx_stack (l_data ls) of
        [] \<Rightarrow> Inr (LoopEnded ls)
      | entry # stack \<Rightarrow>
          if v_stopped env (l_executionIndex ls) then Inr (LoopEnded ls)
          else
            let executionData = pairInputs entry; node = e_node entry; n = n_name node;
                st = (l_data ls)\<lparr>rx_stack := stack\<rparr>;
                executionIndex = l_executionIndex ls;
                ls = ls\<lparr>l_data := st, l_executionIndex := Suc executionIndex, l_error := None\<rparr>;
                runIndex = (case e_runIndex executionData of Some i \<Rightarrow> i | None \<Rightarrow> length (runs_of (rx_runData st) n)) in
            if l_lastTry ls = Some (n, runIndex)
            then Inl (ApplicationError ''Stopped execution because it seems to be in an endless loop'')
            else if (case rx_runNodeFilter st of None \<Rightarrow> False | Some names \<Rightarrow> n \<notin> set names) then Inr (NextIteration ls)
            else rbind (ensureInputData (l_workflow ls) node executionData st) (\<lambda>(ready, st).
              if \<not> ready then Inr (NextIteration (ls\<lparr>l_data := st, l_lastTry := Some (n, runIndex)\<rparr>))
              else runEntry env executionData runIndex executionIndex (ls\<lparr>l_data := st\<rparr>)))"

text \<open>The loop with a bound on the iterations, since a workflow may loop for ever.\<close>

fun executionLoop :: "nat \<Rightarrow> Environment \<Rightarrow> LoopState \<Rightarrow> LoopState res" where
  "executionLoop 0 env ls = Inl OutOfFuel"
| "executionLoop (Suc fuel) env ls =
     (case iteration env ls of
        Inl e \<Rightarrow> Inl e
      | Inr (LoopEnded ls') \<Rightarrow> Inr ls'
      | Inr (NextIteration ls') \<Rightarrow> executionLoop fuel env ls')"

section \<open>How often a node is run\<close>

lemma callNode_calls: "callNode env e run results ls = (r, ls') \<Longrightarrow> l_calls ls' = Suc (l_calls ls)"
  by (auto simp: callNode_def split: prod.splits)

lemma runAgain_calls:
  "runAgain left env e run r ls = (r', ls', left') \<Longrightarrow>
     l_calls ls' + left' = l_calls ls + left + (case r' of Inl _ \<Rightarrow> 1 | Inr _ \<Rightarrow> 0) \<and> (\<forall>err. r' = Inl err \<longrightarrow> left' \<noteq> 0)"
proof (induction left env e run r ls arbitrary: r' ls' left' rule: runAgain.induct)
  case (2 left env e run r ls)
  show ?case
  proof (cases "response_failed r")
    case True
    obtain a ls1 where a: "callNode env e run None ls = (a, ls1)" by (cases "callNode env e run None ls")
    show ?thesis
    proof (cases a)
      case (Inl err)
      then show ?thesis using "2.prems" True a callNode_calls [OF a] by auto
    next
      case (Inr r1)
      then have "runAgain left env e run r1 ls1 = (r', ls', left')" using "2.prems" True a by simp
      with "2.IH" [OF True a [symmetric] Inr] show ?thesis using callNode_calls [OF a] by auto
    qed
  next
    case False
    then show ?thesis using "2.prems" by auto
  qed
qed simp

lemma afterRun_calls: "afterRun e nsd ls = (r, ls', nsd') \<Longrightarrow> l_calls ls' = l_calls ls"
  by (auto simp: afterRun_def set_last_def Let_def split: sum.splits option.splits if_splits)

lemma handleResponse_calls: "handleResponse env e run nsd r ls = (t, ls', nsd') \<Longrightarrow> l_calls ls' = l_calls ls"
  by (auto simp: handleResponse_def dest: afterRun_calls split: NodeResponse.splits prod.splits if_splits sum.splits)

lemma attempt_calls:
  assumes "attempt env e run left ls nsd results = (r, ls', nsd', results', left')"
  shows "l_calls ls' + left' \<le> l_calls ls + left + (if left' = 0 then 1 else 2)"
proof (cases "(if disabled (e_node e) then None else Option.bind (rx_pinData (l_data ls)) (\<lambda>pd. map_of pd (n_name (e_node e))))")
  case (Some pinned)
  then show ?thesis using assms by (auto simp: attempt_def dest!: afterRun_calls split: prod.splits)
next
  case None
  let ?results = "collectResponses e (rx_runData (l_data ls)) results"
  obtain a ls1 where a: "callNode env e run (Some ?results) ls = (a, ls1)" by (cases "callNode env e run (Some ?results) ls")
  show ?thesis
  proof (cases a)
    case (Inl err)
    then show ?thesis using assms None a callNode_calls [OF a] by (auto simp: attempt_def Let_def)
  next
    case (Inr r1)
    obtain b ls2 l2 where b: "runAgain left env e run r1 ls1 = (b, ls2, l2)" by (cases "runAgain left env e run r1 ls1")
    note calls = callNode_calls [OF a] runAgain_calls [OF b]
    show ?thesis
    proof (cases b)
      case (Inl err)
      then show ?thesis using assms None a Inr b calls by (auto simp: attempt_def Let_def)
    next
      case (Inr r2)
      obtain t ls3 nsd3 where t: "handleResponse env e run nsd r2 ls2 = (t, ls3, nsd3)"
        by (cases "handleResponse env e run nsd r2 ls2")
      then show ?thesis using assms None a \<open>a = Inr r1\<close> b Inr calls handleResponse_calls [OF t]
        by (auto simp: attempt_def Let_def)
    qed
  qed
qed

lemma tries_calls:
  "tries env e run left ls nsd results = (r, ls', nsd') \<Longrightarrow> l_calls ls' \<le> l_calls ls + 2 * left + 1"
proof (induction left arbitrary: ls nsd results rule: less_induct)
  case (less left)
  obtain a ls1 nsd1 results1 l1 where a: "attempt env e run left ls nsd results = (a, ls1, nsd1, results1, l1)"
    by (cases "attempt env e run left ls nsd results")
  have le: "l1 \<le> left" using attempt_left [OF a] .
  note calls = attempt_calls [OF a]
  show ?case
  proof (cases "(\<exists>t. a = Inr t) \<or> l1 = 0")
    case True
    then have "ls' = ls1 \<or> ls' = set_last (n_name (e_node e)) ls1"
      using less.prems a by (subst (asm) tries.simps) (auto split: sum.splits)
    then have "l_calls ls' = l_calls ls1" by (auto simp: set_last_def)
    then show ?thesis using calls le by (auto split: if_splits)
  next
    case False
    then obtain err where "a = Inl err" by (cases a) auto
    then have "tries env e run (l1 - 1) (set_last (n_name (e_node e)) ls1) nsd1 results1 = (r, ls', nsd')"
      using less.prems a False by (subst (asm) tries.simps) auto
    with less.IH [of "l1 - 1"] have "l_calls ls' \<le> l_calls ls1 + 2 * (l1 - 1) + 1"
      using False le by (force simp: set_last_def)
    moreover obtain m where "l1 = Suc m" using False by (cases l1) auto
    ultimately show ?thesis using calls le by simp
  qed
qed

text \<open>An entry makes its node run at most nine times: \<open>maxTries\<close> is between 1 and 5, and the tries run the
  node at most \<open>2 * maxTries - 1\<close> times.\<close>

theorem tries_bounded:
  assumes "tries env executionData runIndex (maxTries node - 1) ls nsd results = (r, ls', nsd')"
  shows "l_calls ls' \<le> l_calls ls + (2 * maxTries node - 1) \<and> maxTries node \<in> {1..5}"
proof -
  have max: "maxTries node \<in> {1..5}" by (auto simp: maxTries_def split: option.splits nat.splits)
  then have "2 * (maxTries node - 1) + 1 = 2 * maxTries node - 1" by auto
  then show ?thesis using tries_calls [OF assms] max by (simp add: add.assoc)
qed

text \<open>A node whose answers alternate between an error item and an exception.\<close>

definition flaky_node :: INode where
  "flaky_node = (mk_node 0 ''A'' ''t'')\<lparr>n_retryOnFail := Some True, n_maxTries := Some 3\<rparr>"

definition flaky_type :: INodeType where
  "flaky_type = \<lparr>nt_name = ''t'', nt_group = [], nt_inputs = 1, nt_outputs = None, nt_requiredInputs = None, nt_execute = True, nt_poll = False,
     nt_trigger = False, nt_webhook = False, nt_supplyData = False, nt_requestDefaults = False, nt_customOperations = []\<rparr>"

definition flaky_env :: Environment where
  "flaky_env = \<lparr>v_manual = False,
     v_code = (\<lambda>k _ _ _ _ _ _. (if even k then Inr (ResponseData (Some [Val [failed_item]]))
       else Inl \<lparr>err_name = ''Error'', err_message = ''boom''\<rparr>, None)),
     v_mainOutputs = (\<lambda>_. 1), v_getPairedItem = (\<lambda>_ _ _. None), v_stopped = (\<lambda>_. False)\<rparr>"

definition flaky_entry :: IExecuteData where
  "flaky_entry = \<lparr>e_node = flaky_node, e_data = [(Main, [Val [empty_item]])], e_source = None, e_runIndex = None, e_metadata = None\<rparr>"

definition flaky_state :: LoopState where
  "flaky_state = \<lparr>l_workflow = new_Workflow ''1'' [flaky_node] [] (\<lambda>_ _. Some flaky_type) (Some ''v1'') None,
     l_data = empty_run, l_executionIndex = 0, l_lastTry = None, l_error = None, l_calls = 0\<rparr>"

lemma tries_bounded_witness:
  "\<exists>r ls nsd. tries flaky_env flaky_entry 0 2 flaky_state None makeEngineResponse = (r, ls, nsd) \<and> l_calls ls \<le> 5"
proof -
  obtain r ls nsd where t: "tries flaky_env flaky_entry 0 2 flaky_state None makeEngineResponse = (r, ls, nsd)"
    by (cases "tries flaky_env flaky_entry 0 2 flaky_state None makeEngineResponse")
  have m: "maxTries flaky_node = 3" by code_simp
  from t have "tries flaky_env flaky_entry 0 (maxTries flaky_node - 1) flaky_state None makeEngineResponse = (r, ls, nsd)"
    unfolding m by simp
  from tries_bounded [OF this] t show ?thesis unfolding m by (auto simp: flaky_state_def)
qed

text \<open>The bound is reached: with \<open>maxTries\<close> set to 3, a node that alternates between an error item and an
  exception runs five times, because the exception hides the run it came from.\<close>

theorem retries_exceed_maxTries:
  "maxTries flaky_node = 3 \<and> l_calls (fst (snd (tries flaky_env flaky_entry 0 2 flaky_state None makeEngineResponse))) = 5"
  by code_simp

section \<open>What the parts of the loop change\<close>

text \<open>The code of the nodes requests only nodes of \<open>names\<close>.\<close>

definition requests_only :: "string set \<Rightarrow> Environment \<Rightarrow> bool" where
  "requests_only names env \<longleftrightarrow> (\<forall>k c e items inputs run results r wait.
     v_code env k c e items inputs run results = (Inr (Request r), wait) \<longrightarrow> a_nodeName ` set (r_actions r) \<subseteq> names)"

lemma requests_only_mono: "requests_only A env \<Longrightarrow> A \<subseteq> B \<Longrightarrow> requests_only B env"
  unfolding requests_only_def by blast

lemma runNode_request:
  assumes "runNode w manual code e st run results = (Inr (Request r), wait)"
  shows "\<exists>c items inputs. code c e items inputs run results = (Inr (Request r), wait)"
  using assms by (auto simp: runNode_def Let_def split: if_splits option.splits)

lemma callNode_request:
  assumes "callNode env e run results ls = (Inr (Request r), ls')" and "requests_only names env"
  shows "a_nodeName ` set (r_actions r) \<subseteq> names"
proof -
  obtain wait where "runNode (l_workflow ls) (v_manual env) (v_code env (l_calls ls)) e (l_data ls) run results = (Inr (Request r), wait)"
    using assms(1) by (auto simp: callNode_def split: prod.splits)
  then obtain c items inputs where "v_code env (l_calls ls) c e items inputs run results = (Inr (Request r), wait)"
    using runNode_request by blast
  then show ?thesis using assms(2) unfolding requests_only_def by blast
qed

lemma runAgain_request:
  "runAgain left env e run r ls = (Inr (Request q), ls', left') \<Longrightarrow> requests_only names env \<Longrightarrow>
     (\<And>q. r = Request q \<Longrightarrow> a_nodeName ` set (r_actions q) \<subseteq> names) \<Longrightarrow> a_nodeName ` set (r_actions q) \<subseteq> names"
proof (induction left env e run r ls rule: runAgain.induct)
  case (2 left env e run r ls)
  show ?case
  proof (cases "response_failed r")
    case True
    then obtain r1 ls1 where r1: "callNode env e run None ls = (Inr r1, ls1)"
        "runAgain left env e run r1 ls1 = (Inr (Request q), ls', left')"
      using "2.prems"(1) by (auto split: prod.splits sum.splits)
    show ?thesis
      by (rule "2.IH" [OF True r1(1) [symmetric] refl r1(2) "2.prems"(2)])
        (use callNode_request r1(1) "2.prems"(2) in blast)
  next
    case False
    then show ?thesis using "2.prems" by auto
  qed
qed auto

lemma addRequested_rest: "rest_of (fst (addRequested w qs st)) = rest_of st"
  by (induction qs arbitrary: st) (auto split: sum.split dest: addNode_rest)

lemma ensureInputData_rest:
  "ensureInputData_from w node e i k st = Inr (b, st') \<Longrightarrow> rest_of st' = rest_of st"
  by (induction w node e i k st rule: ensureInputData_from.induct)
    (auto simp: res_simps split: if_splits option.splits)

lemma addChildren_rest:
  assumes "addChildren w n outs run st = Inr st'"
  shows "rest_of st' = rest_of st"
proof (cases "isLegacyExecutionOrder w")
  case True
  then show ?thesis using assms unfolding addChildren_def Let_def if_P [OF True]
    by (elim foldR_invariant [where P = "\<lambda>s. rest_of s = rest_of st"])
      (auto dest: addNode_rest split: prod.splits if_splits)
next
  case False
  obtain cs where "foldR (\<lambda>st (c, i). addNodeToBeExecuted w c i n (Some (map Val outs)) run None None st) st cs = Inr st'"
    using assms unfolding addChildren_def Let_def if_not_P [OF False] by (blast elim: rbind_InrE)
  then show ?thesis
    by (rule foldR_invariant [where P = "\<lambda>s. rest_of s = rest_of st"]) (auto dest: addNode_rest split: prod.splits)
qed

lemma tryWaiting_rest:
  "tryWaiting w names st n = Inr (Picked st') \<Longrightarrow> rest_of st' = rest_of st"
  "tryWaiting w names st n = Inr (Removed st') \<Longrightarrow> rest_of st' = rest_of st"
  by (auto simp: tryWaiting_def Let_def split: option.splits if_splits list.splits)

lemma scheduleWaiting_rest: "scheduleWaiting w names ns st = Inr st' \<Longrightarrow> rest_of st' = rest_of st"
proof (induction w names ns st rule: scheduleWaiting.induct)
  case (2 w names n rest st)
  show ?case
  proof (cases "tryWaiting w names st n")
    case (Inr out)
    show ?thesis
    proof (cases out)
      case NotYet
      then have "scheduleWaiting w names rest st = Inr st'" using "2.prems" Inr by simp
      then show ?thesis by (rule "2.IH"(1) [OF Inr NotYet])
    next
      case (Picked st1)
      then show ?thesis using "2.prems" Inr tryWaiting_rest(1) [OF Inr [unfolded Picked]] by simp
    next
      case (Removed st1)
      then have "scheduleWaiting w (map fst (rx_waiting st1)) (map fst (rx_waiting st1)) st1 = Inr st'"
        using "2.prems" Inr by simp
      from "2.IH"(2) [OF Inr Removed this] tryWaiting_rest(2) [OF Inr [unfolded Removed]] show ?thesis by (rule trans)
    qed
  qed (use "2.prems" in simp)
qed simp

text \<open>One step of the loop, whether it goes on or ends.\<close>

inductive loop_step :: "Environment \<Rightarrow> LoopState \<Rightarrow> LoopState \<Rightarrow> bool" for env where
  Again: "iteration env ls = Inr (NextIteration ls') \<Longrightarrow> loop_step env ls ls'"
| End: "iteration env ls = Inr (LoopEnded ls') \<Longrightarrow> loop_step env ls ls'"

abbreviation state_of :: "Iteration \<Rightarrow> RunExecutionData" where
  "state_of it \<equiv> case it of NextIteration ls' \<Rightarrow> l_data ls' | LoopEnded ls' \<Rightarrow> l_data ls'"

text \<open>An execution of \<open>A\<close>, with \<open>B\<close> behind it, that is limited to \<open>A\<close>.\<close>

definition plain_env :: Environment where
  "plain_env = flaky_env\<lparr>v_code := (\<lambda>_ _ _ _ _ _ _. (Inr (ResponseData (Some [Val [empty_item]])), None))\<rparr>"

definition filtered_state :: LoopState where
  "filtered_state = flaky_state\<lparr>
     l_workflow := new_Workflow ''1'' [mk_node 0 ''A'' ''t'', mk_node 1 ''B'' ''t'']
       [(''A'', [(Main, [Some [\<lparr>c_node = ''B'', c_type = Main, c_index = 0\<rparr>]])])] (\<lambda>_ _. Some flaky_type) (Some ''v1'') None,
     l_data := empty_run\<lparr>rx_stack := [flaky_entry], rx_runNodeFilter := Some [''A'']\<rparr>\<rparr>"

text \<open>The state after a number of iterations that all go on.\<close>

fun after_steps :: "nat \<Rightarrow> Environment \<Rightarrow> LoopState \<Rightarrow> LoopState option" where
  "after_steps 0 env ls = Some ls"
| "after_steps (Suc k) env ls = (case iteration env ls of Inr (NextIteration ls') \<Rightarrow> after_steps k env ls' | _ \<Rightarrow> None)"

lemma after_steps_reach: "after_steps k env ls = Some ls' \<Longrightarrow> (loop_step env)\<^sup>*\<^sup>* ls ls'"
proof (induction k arbitrary: ls)
  case (Suc k)
  then obtain ls1 where "iteration env ls = Inr (NextIteration ls1)" "after_steps k env ls1 = Some ls'"
    by (auto split: sum.splits Iteration.splits)
  then show ?case using Suc.IH loop_step.Again converse_rtranclp_into_rtranclp by metis
qed simp

section \<open>The node that is more to the top left first\<close>

text \<open>Position \<open>a\<close> is not after \<open>b\<close>: higher up, or at the same height and not further right.\<close>

definition not_after :: "int \<times> int \<Rightarrow> int \<times> int \<Rightarrow> bool" where
  "not_after a b \<longleftrightarrow> snd a < snd b \<or> (snd a = snd b \<and> fst a \<le> fst b)"

lemma comparePositions_not_after: "comparePositions b a < 0 \<longleftrightarrow> \<not> not_after b a"
  by (auto simp: comparePositions_def not_after_def)

lemma not_after_trans: "not_after a b \<Longrightarrow> not_after b c \<Longrightarrow> not_after a c"
  by (auto simp: not_after_def)

lemma not_after_total: "not_after a b \<or> not_after b a"
  by (auto simp: not_after_def)

lemma mset_insert_stable [simp]: "mset (insert_stable cmp x ys) = add_mset x (mset ys)"
  by (induction ys) auto

lemma mset_sort_stable [simp]: "mset (sort_stable cmp xs) = mset xs"
  by (induction xs) (simp_all add: sort_stable_def)

lemma set_sort_stable [simp]: "set (sort_stable cmp xs) = set xs"
  by (metis mset_sort_stable set_mset_mset)

lemma sorted_insert_stable:
  assumes "\<And>a b. cmp b a < 0 \<longleftrightarrow> \<not> R b a" and "\<And>a b c. R a b \<Longrightarrow> R b c \<Longrightarrow> R a c" and "\<And>a b. R a b \<or> R b a"
  shows "sorted_wrt (\<lambda>a b. R b a) ys \<Longrightarrow> sorted_wrt (\<lambda>a b. R b a) (insert_stable cmp x ys)"
proof (induction ys)
  case (Cons y ys)
  have set: "set (insert_stable cmp x ys) = insert x (set ys)" by (metis mset_insert_stable set_mset_add_mset_insert set_mset_mset)
  show ?case
  proof (cases "cmp y x < 0")
    case True
    then have "R x y" using assms(1,3) by blast
    with Cons True set show ?thesis by auto
  next
    case False
    then have "R y x" using assms(1) by blast
    with Cons.prems False assms(2) show ?thesis by auto
  qed
qed simp

lemma sorted_sort_stable:
  assumes "\<And>a b. cmp b a < 0 \<longleftrightarrow> \<not> R b a" and "\<And>a b c. R a b \<Longrightarrow> R b c \<Longrightarrow> R a c" and "\<And>a b. R a b \<or> R b a"
  shows "sorted_wrt (\<lambda>a b. R b a) (sort_stable cmp xs)"
  by (induction xs) (simp_all add: sort_stable_def sorted_insert_stable [OF assms])

lemma waiting_ok_stack [simp]: "waiting_ok w (st\<lparr>rx_stack := s\<rparr>) = waiting_ok w st"
  by (simp add: waiting_ok_def)

text \<open>What a connection may need when its node has several inputs.\<close>

definition joins_readably :: "Workflow \<Rightarrow> string \<Rightarrow> nat \<Rightarrow> RunExecutionData \<Rightarrow> IConnection \<Rightarrow> bool" where
  "joins_readably w n run st c \<longleftrightarrow> waiting_ok w st \<and> c_index c < numberOfInputs w (c_node c) \<and>
     checks_readable w n (c_node c) run (rx_runData st)"

text \<open>The connections that have put a node on the stack, in the order they were followed: all of those to
  a node with one input.\<close>

definition stacked :: "Workflow \<Rightarrow> (IConnection \<times> nat) list \<Rightarrow> (IConnection \<times> nat) list \<Rightarrow> IExecuteData list \<Rightarrow> bool" where
  "stacked w cs ds es \<longleftrightarrow> map (\<lambda>e. Some (e_node e)) es = map (\<lambda>(c, i). map_of (w_nodes w) (c_node c)) ds \<and>
     mset ds \<subseteq># mset cs \<and> (\<forall>P. sorted_wrt P cs \<longrightarrow> sorted_wrt P ds) \<and>
     filter (\<lambda>(c, i). \<not> numberOfInputs w (c_node c) > 1) ds = filter (\<lambda>(c, i). \<not> numberOfInputs w (c_node c) > 1) cs"

lemma stacked_Nil: "stacked w [] [] []"
  by (simp add: stacked_def)

lemma stacked_add:
  assumes "stacked w cs ds es" and "map_of (w_nodes w) (c_node c) = Some (e_node e)"
  shows "stacked w ((c, i) # cs) ((c, i) # ds) (e # es)"
proof -
  have "set ds \<subseteq> set cs" using assms(1) by (auto simp: stacked_def dest: mset_subset_eqD)
  then show ?thesis using assms by (auto simp: stacked_def)
qed

lemma stacked_skip: "stacked w cs ds es \<Longrightarrow> numberOfInputs w (c_node c) > 1 \<Longrightarrow> stacked w ((c, i) # cs) ds es"
  by (auto simp: stacked_def intro: subset_mset.order_trans)

lemma addNodes_stacked:
  assumes v1: "\<not> isLegacyExecutionOrder w"
    and "\<forall>(c, i) \<in> set cs. map_of (w_nodes w) (c_node c) \<noteq> None \<and> i < length outs \<and>
      (numberOfInputs w (c_node c) > 1 \<longrightarrow> joins_readably w n run st c)"
  shows "\<exists>st' ds es. foldR (\<lambda>st (c, i). addNodeToBeExecuted w c i n (Some (map Val outs)) run None None st) st cs = Inr st' \<and>
    rx_stack st' = rev es @ rx_stack st \<and> stacked w cs ds es"
  using assms(2)
proof (induction cs arbitrary: st)
  case (Cons p cs)
  obtain c i where p: "p = (c, i)" by (cases p)
  obtain node where node: "map_of (w_nodes w) (c_node c) = Some node" and i: "i < length outs"
    using Cons.prems p by auto
  let ?add = "\<lambda>st (c, i). addNodeToBeExecuted w c i n (Some (map Val outs)) run None None st"
  have rest: "\<exists>st' ds es. foldR ?add st1 cs = Inr st' \<and> rx_stack st' = rev es @ rx_stack st1 \<and> stacked w cs ds es"
    if "rx_runData st1 = rx_runData st" "waiting_ok w st \<Longrightarrow> waiting_ok w st1" for st1
    by (rule Cons.IH) (use Cons.prems that in \<open>auto simp: joins_readably_def\<close>)
  show ?case
  proof (cases "numberOfInputs w (c_node c) > 1")
    case False
    obtain e where e: "addNodeToBeExecuted w c i n (Some (map Val outs)) run None None st = Inr (enqueueFn w e st)" "e_node e = node"
      using node False by (simp add: addNodeToBeExecuted_def Let_def)
    obtain st' ds es where "foldR ?add (enqueueFn w e st) cs = Inr st'" "rx_stack st' = rev es @ rx_stack (enqueueFn w e st)"
        "stacked w cs ds es"
      using rest [of "enqueueFn w e st"] by (auto simp: enqueueFn_def simp del: foldR.simps)
    then show ?thesis using e node p v1 stacked_add [of w cs ds es c e i]
      by (intro exI [of _ st'] exI [of _ "(c, i) # ds"] exI [of _ "e # es"]) (simp add: enqueueFn_def)
  next
    case True
    then have join: "joins_readably w n run st c" using Cons.prems p by auto
    have x: "get_slot Hole i (map Val outs) = Val (outs ! i)" using i by (simp add: get_slot_def)
    obtain st1 st0 k xs where st1: "addNodeToBeExecuted w c i n (Some (map Val outs)) run None None st = Inr st1" "waiting_ok w st1"
        "arrived st st1 (c_node c) node k xs (xs[c_index c := Val (outs ! i)])"
      using addNode_v1_outcome [OF _ True _ v1 node _ x, of st n run None None] join unfolding joins_readably_def by blast
    have "rx_runData st1 = rx_runData st" using rest_of_eqD [OF addNode_rest [OF st1(1)]] by simp
    then obtain st' ds es where st': "foldR ?add st1 cs = Inr st'" "rx_stack st' = rev es @ rx_stack st1" "stacked w cs ds es"
      using rest st1(2) by blast
    consider "rx_stack st1 = rx_stack st" | e where "rx_stack st1 = e # rx_stack st" "e_node e = node"
      using st1(3) by (auto simp: arrived_def Let_def split: if_splits)
    then show ?thesis
    proof cases
      case 1
      then show ?thesis using st' st1(1) p stacked_skip [OF st'(3) True, of i]
        by (intro exI [of _ st'] exI [of _ ds] exI [of _ es]) simp
    next
      case 2
      then show ?thesis using st' st1(1) p node stacked_add [OF st'(3), of c e i]
        by (intro exI [of _ st'] exI [of _ "(c, i) # ds"] exI [of _ "e # es"]) simp
    qed
  qed
qed (auto intro: stacked_Nil)


text \<open>Two nodes at different heights and one with two inputs behind a node.\<close>

definition fan_out :: Workflow where
  "fan_out = new_Workflow ''1'' [mk_node 0 ''A'' ''t'', (mk_node 1 ''Low'' ''t'')\<lparr>n_position := (0, 200)\<rparr>,
       (mk_node 2 ''High'' ''t'')\<lparr>n_position := (100, -200)\<rparr>, mk_node 3 ''Join'' ''t'']
     [(''A'', [(Main, [Some [\<lparr>c_node = ''High'', c_type = Main, c_index = 0\<rparr>, \<lparr>c_node = ''Join'', c_type = Main, c_index = 1\<rparr>,
        \<lparr>c_node = ''Low'', c_type = Main, c_index = 0\<rparr>]])])]
     (\<lambda>_ _. None) (Some ''v1'') None"


section \<open>What is left waiting is blocked\<close>

lemma waiting_ok_dropEntry:
  assumes ok: "waiting_ok w st" and entry: "main_of (rx_waiting st) n k = Some xs"
  shows "waiting_ok w (dropEntry n k st)"
proof -
  obtain src where src: "rx_waitingSource st = Some src" using waiting_okD(1) [OF ok] by blast
  obtain obj where obj: "map_of (rx_waiting st) n = Some obj" using entry by (auto simp: main_of_def split: option.splits)
  have good: "jsmap_ok obj" "\<forall>c \<in> set (vals obj). entry_ok (numberOfInputs w n) c" "sources_for obj (map_of src n)"
    using waiting_okD(2) [OF ok obj] waiting_okD(3) [OF ok, of _ n] waiting_okD(4) [OF ok src obj] obj by auto
  then obtain sobj where sobj: "map_of src n = Some sobj" "sources_for obj (Some sobj)" by (auto simp: sources_for_def)
  have drop: "map_of (rx_waiting (dropEntry n k st)) =
      (map_of (rx_waiting st))(n := (if AList.delete k obj = [] then None else Some (AList.delete k obj)))"
    "\<exists>src2. rx_waitingSource (dropEntry n k st) = Some src2 \<and>
      map_of src2 = (map_of src)(n := (if AList.delete k obj = [] then None else Some (AList.delete k sobj)))"
    using obj src sobj by (auto simp: dropEntry_def Let_def update_conv' delete_conv' fun_eq_iff)
  have "sources_for (AList.delete k obj) (Some (AList.delete k sobj))" using sobj(2) by (rule sources_for_delete)
  moreover have "jsmap_ok (AList.delete k obj)" using good(1) by (rule js.inv_del)
  moreover have "\<forall>c \<in> set (vals (AList.delete k obj)). entry_ok (numberOfInputs w n) c"
    using good(2) by (auto simp: set_delete)
  ultimately show ?thesis using ok src drop unfolding waiting_ok_def by auto
qed

lemma dropEntry_stack [simp]: "dropEntry n k (st\<lparr>rx_stack := s\<rparr>) = (dropEntry n k st)\<lparr>rx_stack := s\<rparr>"
  by (simp add: dropEntry_def Let_def)

lemma dropEntry_keeps_stack [simp]: "rx_stack (dropEntry n k st) = rx_stack st"
  by (simp add: dropEntry_def Let_def)

definition types_known :: "Workflow \<Rightarrow> bool" where
  "types_known w \<longleftrightarrow> (\<forall>n node. getNode w n = Some node \<longrightarrow> nodeTypes w (n_type node) (n_typeVersion node) \<noteq> None)"

lemma first_key_in: "first_key (k # ks) \<in> set (k # ks)"
proof -
  have "foldl (\<lambda>m k. if string_le (show_nat m) (show_nat k) then m else k) m ks \<in> insert m (set ks)" for m
  proof (induction ks arbitrary: m)
    case (Cons x xs)
    show ?case using Cons.IH [of m] Cons.IH [of x] by auto
  qed simp
  then show ?thesis by (auto simp: first_key_def)
qed

subsection \<open>What the search promises\<close>

text \<open>The order of the indexes as strings is a linear order.\<close>

lemma string_le_refl: "string_le s s"
  by (induction s) simp_all

lemma string_le_trans: "string_le s t \<Longrightarrow> string_le t u \<Longrightarrow> string_le s u"
proof (induction s t arbitrary: u rule: string_le.induct)
  case (3 c s d t)
  then show ?case by (cases u) auto
qed auto

lemma string_le_total: "string_le s t \<or> string_le t s"
proof (induction s t rule: string_le.induct)
  case (3 c s d t)
  have "c = d" if "(of_char c :: nat) = of_char d" using that by (simp only: of_char_eq_iff)
  then show ?case using 3 by (cases "of_char c < (of_char d :: nat)"; cases "of_char d < (of_char c :: nat)") auto
qed auto

lemma string_le_antisym: "string_le s t \<Longrightarrow> string_le t s \<Longrightarrow> s = t"
proof (induction s t rule: string_le.induct)
  case (1 t)
  then show ?case by (cases t) auto
qed auto

lemma first_key_least:
  "first_key (k # ks) \<in> set (k # ks) \<and> (\<forall>j \<in> set (k # ks). string_le (show_nat (first_key (k # ks))) (show_nat j))"
proof -
  let ?f = "foldl (\<lambda>m k. if string_le (show_nat m) (show_nat k) then m else k)"
  have "?f m ks \<in> insert m (set ks) \<and> (\<forall>j \<in> insert m (set ks). string_le (show_nat (?f m ks)) (show_nat j))" for m
  proof (induction ks arbitrary: m)
    case (Cons x xs)
    let ?b = "if string_le (show_nat m) (show_nat x) then m else x"
    have "string_le (show_nat ?b) (show_nat m)" "string_le (show_nat ?b) (show_nat x)"
      using string_le_total [of "show_nat m" "show_nat x"] string_le_refl by auto
    moreover have "string_le (show_nat (?f ?b xs)) (show_nat ?b)" using Cons.IH [of ?b] by blast
    ultimately have "string_le (show_nat (?f ?b xs)) (show_nat m)" "string_le (show_nat (?f ?b xs)) (show_nat x)"
      using string_le_trans by blast+
    moreover have "?f ?b xs \<in> insert m (insert x (set xs))" using Cons.IH [of ?b] by auto
    ultimately show ?case using Cons.IH [of ?b] by simp
  qed (simp add: string_le_refl)
  then show ?thesis by (simp add: first_key_def)
qed

text \<open>The run of a waiting node that is looked at: the one whose index comes first as a string.\<close>

definition earliest_run :: "RunExecutionData \<Rightarrow> string \<Rightarrow> nat \<Rightarrow> items slot list \<Rightarrow> bool" where
  "earliest_run st n k xs \<longleftrightarrow> (\<exists>obj. map_of (rx_waiting st) n = Some obj \<and>
     main_of (rx_waiting st) n k = Some xs \<and> (\<forall>j \<in> set (map fst obj). string_le (show_nat k) (show_nat j)))"

definition holds_items :: "items slot list \<Rightarrow> bool" where
  "holds_items xs \<longleftrightarrow> (\<exists>x rest. Val (x # rest) \<in> set xs)"

text \<open>Why a node that waits cannot run yet, over the graph of the connections.\<close>

inductive cannot_run :: "Workflow \<Rightarrow> RunExecutionData \<Rightarrow> string \<Rightarrow> bool" for w st n where
  missing: "getNode w n = None \<Longrightarrow> cannot_run w st n"
| every_input: "\<not> isLegacyExecutionOrder w \<Longrightarrow> getNode w n = Some node \<Longrightarrow>
    nodeTypes w (n_type node) (n_typeVersion node) = Some nt \<Longrightarrow>
    nt_requiredInputs nt = Some (Inl (nt_inputs nt)) \<Longrightarrow> cannot_run w st n"
| every_index: "\<not> isLegacyExecutionOrder w \<Longrightarrow> getNode w n = Some node \<Longrightarrow>
    nodeTypes w (n_type node) (n_typeVersion node) = Some nt \<Longrightarrow>
    nt_requiredInputs nt = Some (Inr is) \<Longrightarrow> length is = nt_inputs nt \<Longrightarrow> cannot_run w st n"
| behind: "(n, p) \<in> (edges (connectionsByDestinationNode w) (OfType Main))\<^sup>+ \<Longrightarrow> p \<noteq> n \<Longrightarrow>
    p \<in> fst ` set (rx_waiting st) \<Longrightarrow> cannot_run w st n"
| too_few: "\<not> isLegacyExecutionOrder w \<Longrightarrow> getNode w n = Some node \<Longrightarrow>
    nodeTypes w (n_type node) (n_typeVersion node) = Some nt \<Longrightarrow> nt_requiredInputs nt = Some (Inl r) \<Longrightarrow>
    earliest_run st n k xs \<Longrightarrow> card {i. i < length xs \<and> (\<exists>d. xs ! i = Val d)} < r \<Longrightarrow> cannot_run w st n"
| without_data: "\<not> isLegacyExecutionOrder w \<Longrightarrow> getNode w n = Some node \<Longrightarrow>
    nodeTypes w (n_type node) (n_typeVersion node) = Some nt \<Longrightarrow> nt_requiredInputs nt = Some (Inr is) \<Longrightarrow>
    earliest_run st n k xs \<Longrightarrow> i \<in> set is \<Longrightarrow> \<not> (i < length xs \<and> (\<exists>d. xs ! i = Val d)) \<Longrightarrow> cannot_run w st n"

text \<open>Only waiting entries without an item went away.\<close>

definition only_empty_dropped :: "RunExecutionData \<Rightarrow> RunExecutionData \<Rightarrow> bool" where
  "only_empty_dropped st st' \<longleftrightarrow> rx_stack st' = rx_stack st \<and> rest_of st' = rest_of st \<and>
     (\<forall>n k. main_of (rx_waiting st') n k = main_of (rx_waiting st) n k \<or>
        main_of (rx_waiting st') n k = None \<and> (\<exists>xs. main_of (rx_waiting st) n k = Some xs \<and> \<not> holds_items xs))"

lemma only_empty_refl: "only_empty_dropped st st"
  by (simp add: only_empty_dropped_def)

lemma only_empty_trans: "only_empty_dropped a b \<Longrightarrow> only_empty_dropped b c \<Longrightarrow> only_empty_dropped a c"
  unfolding only_empty_dropped_def by (elim conjE, intro conjI) (simp, simp, metis)

lemma any_items_iff: "any_items xs = holds_items xs"
proof -
  have "(case x of Val (_ # _) \<Rightarrow> True | _ \<Rightarrow> False) \<longleftrightarrow> (\<exists>a as. x = Val (a # as))" for x :: "items slot"
    by (auto split: slot.splits list.splits)
  then show ?thesis by (auto simp: any_items_def holds_items_def list_ex_iff)
qed

lemma earliest_unique: "earliest_run st n k xs \<Longrightarrow> earliest_run st n j ys \<Longrightarrow> j = k \<and> ys = xs"
proof -
  assume a: "earliest_run st n k xs" "earliest_run st n j ys"
  then obtain obj where obj: "map_of (rx_waiting st) n = Some obj" by (auto simp: earliest_run_def)
  have in_obj: "i \<in> set (map fst obj)" if "main_of (rx_waiting st) n i = Some zs" for i zs
    using that obj by (force simp: main_of_def split: option.splits dest: map_of_SomeD)
  have "k \<in> set (map fst obj)" "j \<in> set (map fst obj)" using a in_obj by (auto simp: earliest_run_def)
  then have "string_le (show_nat k) (show_nat j)" "string_le (show_nat j) (show_nat k)"
    using a obj by (auto simp: earliest_run_def)
  then have "show_nat j = show_nat k" using string_le_antisym by blast
  then have "j = k" by (rule show_nat_inj)
  then show ?thesis using a by (auto simp: earliest_run_def)
qed

lemma required_missing_iff:
  "required_missing nt xs \<longleftrightarrow> (case nt_requiredInputs nt of None \<Rightarrow> False
     | Some (Inl r) \<Rightarrow> card {i. i < length xs \<and> (\<exists>d. xs ! i = Val d)} < r
     | Some (Inr is) \<Rightarrow> (\<exists>i \<in> set is. \<not> (i < length xs \<and> (\<exists>d. xs ! i = Val d))))"
proof -
  let ?ds = "filter (\<lambda>i. xs ! i \<noteq> Null \<and> xs ! i \<noteq> Hole) [0..<length xs]"
  have val: "x \<noteq> Null \<and> x \<noteq> Hole \<longleftrightarrow> (\<exists>d. x = Val d)" for x :: "items slot" by (cases x) auto
  have ds: "set ?ds = {i. i < length xs \<and> (\<exists>d. xs ! i = Val d)}" by (auto simp: val)
  have "card (set ?ds) = length ?ds" by (rule distinct_card) simp
  then show ?thesis using ds by (auto simp: required_missing_def Let_def list_all_iff split: option.splits sum.splits)
qed

lemma waiting_parents_iff:
  "list_ex (\<lambda>p. p \<in> set (map fst ws)) (wf_getParentNodes w n (OfType Main) (-1)) \<longleftrightarrow>
     (\<exists>p. (n, p) \<in> (edges (connectionsByDestinationNode w) (OfType Main))\<^sup>+ \<and> p \<noteq> n \<and> p \<in> fst ` set ws)"
  by (auto simp: list_ex_iff wf_getParentNodes_def getParentNodes_def getConnectedNodes_reachable)

lemma cannot_run_iff:
  assumes "getNode w n = Some node" and "nodeTypes w (n_type node) (n_typeVersion node) = Some nt"
    and "earliest_run st n k xs"
  shows "cannot_run w st n \<longleftrightarrow> (\<not> isLegacyExecutionOrder w \<and> (all_required nt \<or> required_missing nt xs)) \<or>
    list_ex (\<lambda>p. p \<in> set (map fst (rx_waiting st))) (wf_getParentNodes w n (OfType Main) (-1))"
proof -
  have same: "ys = xs" if "earliest_run st n j ys" for j ys using earliest_unique [OF assms(3) that] by simp
  show ?thesis (is "_ \<longleftrightarrow> ?R")
  proof
    assume "cannot_run w st n"
    then show ?R
    proof cases
      case behind
      then show ?thesis unfolding waiting_parents_iff by blast
    qed (use assms in \<open>auto simp: required_missing_iff all_required_def dest: same\<close>)
  next
    assume ?R
    then consider (behind) "\<exists>p. (n, p) \<in> (edges (connectionsByDestinationNode w) (OfType Main))\<^sup>+ \<and> p \<noteq> n \<and> p \<in> fst ` set (rx_waiting st)"
      | (all) "\<not> isLegacyExecutionOrder w" "all_required nt" | (some) "\<not> isLegacyExecutionOrder w" "required_missing nt xs"
      unfolding waiting_parents_iff by blast
    then show "cannot_run w st n"
    proof cases
      case behind
      then show ?thesis by (blast intro: cannot_run.behind)
    next
      case all
      then show ?thesis using cannot_run.every_input [OF all(1) assms(1,2)] cannot_run.every_index [OF all(1) assms(1,2)]
        by (auto simp: all_required_def split: option.splits sum.splits)
    next
      case some
      then show ?thesis using cannot_run.too_few [OF some(1) assms(1,2) _ assms(3)] cannot_run.without_data [OF some(1) assms(1,2) _ assms(3)]
        by (auto simp: required_missing_iff split: option.splits sum.splits)
    qed
  qed
qed

lemma main_of_dropEntry:
  "main_of (rx_waiting (dropEntry n k st)) m j = (if m = n \<and> j = k then None else main_of (rx_waiting st) m j)"
proof -
  have del: "AList.delete k obj = [] \<Longrightarrow> map_of obj j = Some c \<Longrightarrow> j = k" for obj :: "(nat, 'b) jsmap" and j c
    by (metis delete_conv' fun_upd_other map_of.simps(1) option.distinct(1))
  show ?thesis
    by (auto simp: main_of_def dropEntry_def Let_def update_conv' delete_conv' split: option.splits dest: del)
qed

text \<open>A node that waits is put on the stack with what its earliest run has collected.\<close>

definition put_on_stack :: "RunExecutionData \<Rightarrow> string \<Rightarrow> INode \<Rightarrow> INodeType \<Rightarrow> nat \<Rightarrow> items slot list \<Rightarrow>
    RunExecutionData \<Rightarrow> bool" where
  "put_on_stack st n node nt k xs st' \<longleftrightarrow>
     (\<exists>e. rx_stack st' = rx_stack st @ [e] \<and> e_node e = node \<and>
        map_of (e_data e) Main = Some (map (\<lambda>x. if x = Null then Val [] else x) xs @
          replicate (nt_inputs nt - length xs) (Val []))) \<and>
     rest_of st' = rest_of st \<and>
     (\<forall>m j. main_of (rx_waiting st') m j = (if m = n \<and> j = k then None else main_of (rx_waiting st) m j))"

text \<open>The outcomes for a node that waits, and that there is always one.\<close>

lemma tryWaiting_ok:
  assumes ok: "waiting_ok w st" and types: "types_known w" and n: "n \<in> set (map fst (rx_waiting st))"
  shows "(tryWaiting w (map fst (rx_waiting st)) st n = Inr NotYet \<and> cannot_run w st n) \<or>
    (\<exists>node nt k xs st'. \<not> cannot_run w st n \<and> getNode w n = Some node \<and>
       nodeTypes w (n_type node) (n_typeVersion node) = Some nt \<and> earliest_run st n k xs \<and>
       (holds_items xs \<and> tryWaiting w (map fst (rx_waiting st)) st n = Inr (Picked st') \<and> put_on_stack st n node nt k xs st' \<or>
        \<not> holds_items xs \<and> tryWaiting w (map fst (rx_waiting st)) st n = Inr (Removed st') \<and>
          only_empty_dropped st st' \<and> waiting_ok w st'))"
proof (cases "getNode w n")
  case None
  then show ?thesis by (simp add: tryWaiting_def cannot_run.missing)
next
  case (Some node)
  then obtain nt where nt: "nodeTypes w (n_type node) (n_typeVersion node) = Some nt" using types by (auto simp: types_known_def)
  obtain src where src: "rx_waitingSource st = Some src" using waiting_okD(1) [OF ok] by blast
  obtain obj where obj: "map_of (rx_waiting st) n = Some obj"
    using n by (cases "map_of (rx_waiting st) n") (simp_all add: map_of_eq_None_iff)
  have "obj \<noteq> []" using waiting_okD(2) [OF ok obj] by blast
  then have "by_index obj \<noteq> []" using in_by_index [of obj] by (metis set_empty)
  then obtain k ks where ks: "map fst (by_index obj) = k # ks" by (cases "by_index obj") auto
  let ?k = "first_key (k # ks)"
  have keys: "set (k # ks) = set (map fst obj)" using in_by_index [of obj] ks by (metis list.set_map)
  then have "?k \<in> set (map fst obj)" using first_key_least [of k ks] by blast
  then obtain c where c: "map_of obj ?k = Some c" "c \<in> set (vals obj)"
    by (metis (no_types, lifting) map_of_eq_None_iff option.exhaust map_of_SomeD image_eqI snd_conv list.set_map)
  obtain xs where xs: "main_of (rx_waiting st) n ?k = Some xs"
    using c waiting_okD(3) [OF ok, of c n] obj by (auto simp: main_of_def entry_ok_def)
  obtain sobj where sobj: "map_of src n = Some sobj" using waiting_okD(4) [OF ok src obj] by (auto simp: sources_for_def)
  have early: "earliest_run st n ?k xs" using obj xs first_key_least [of k ks] unfolding keys by (auto simp: earliest_run_def)
  note can = cannot_run_iff [OF Some nt early]
  show ?thesis
  proof (cases "cannot_run w st n")
    case True
    then show ?thesis using Some nt src obj ks xs sobj can by (auto simp: tryWaiting_def Let_def)
  next
    case False
    then have free: "isLegacyExecutionOrder w \<or> \<not> all_required nt" "isLegacyExecutionOrder w \<or> \<not> required_missing nt xs"
      "\<not> list_ex (\<lambda>p. p \<in> set (map fst (rx_waiting st))) (wf_getParentNodes w n (OfType Main) (-1))"
      unfolding can by blast+
    have found: "tryWaiting w (map fst (rx_waiting st)) st n = (if any_items xs then Inr (Picked (dropEntry n ?k (st\<lparr>rx_stack := rx_stack st @
        [\<lparr>e_node = node, e_data = [(Main, task_main xs @ replicate (nt_inputs nt - length xs) (Val []))],
          e_source = map_of sobj ?k, e_runIndex = None, e_metadata = None\<rparr>]\<rparr>))) else Inr (Removed (dropEntry n ?k st)))"
      unfolding tryWaiting_def Let_def using free Some nt src obj ks xs sobj by (simp del: dropEntry_stack list.set_map)
    have drop: "rx_stack (dropEntry n ?k st) = rx_stack st \<and> waiting_ok w (dropEntry n ?k st)"
      using waiting_ok_dropEntry [OF ok xs] by simp
    show ?thesis
    proof (cases "holds_items xs")
      case True
      let ?e = "\<lparr>e_node = node, e_data = [(Main, task_main xs @ replicate (nt_inputs nt - length xs) (Val []))],
        e_source = map_of sobj ?k, e_runIndex = None, e_metadata = None\<rparr>"
      have "tryWaiting w (map fst (rx_waiting st)) st n = Inr (Picked (dropEntry n ?k (st\<lparr>rx_stack := rx_stack st @ [?e]\<rparr>)))"
        using found True by (simp add: any_items_iff)
      moreover have "put_on_stack st n node nt ?k xs (dropEntry n ?k (st\<lparr>rx_stack := rx_stack st @ [?e]\<rparr>))"
        by (simp add: put_on_stack_def main_of_dropEntry task_main_def del: dropEntry_stack)
      ultimately show ?thesis using False Some nt early True by blast
    next
      case empty: False
      have "tryWaiting w (map fst (rx_waiting st)) st n = Inr (Removed (dropEntry n ?k st))"
        using found empty by (simp add: any_items_iff)
      moreover have "only_empty_dropped st (dropEntry n ?k st)"
        using empty xs by (simp add: only_empty_dropped_def main_of_dropEntry)
      ultimately show ?thesis using False Some nt early empty drop by blast
    qed
  qed
qed

text \<open>What the search does from a state: nothing that waits can run, or the first node that can run in the
  order of the waiting nodes is put on the stack.\<close>

definition search_result :: "Workflow \<Rightarrow> RunExecutionData \<Rightarrow> RunExecutionData \<Rightarrow> bool" where
  "search_result w st st' \<longleftrightarrow>
     (st' = st \<and> (\<forall>n \<in> set (map fst (rx_waiting st)). cannot_run w st n)) \<or>
     (\<exists>before n after node nt k xs. map fst (rx_waiting st) = before @ n # after \<and>
        (\<forall>m \<in> set before. cannot_run w st m) \<and> \<not> cannot_run w st n \<and> getNode w n = Some node \<and>
        nodeTypes w (n_type node) (n_typeVersion node) = Some nt \<and> earliest_run st n k xs \<and> holds_items xs \<and>
        put_on_stack st n node nt k xs st')"

lemma scheduleWaiting_from:
  assumes "waiting_ok w st" and "types_known w" and "names = map fst (rx_waiting st)" and "names = before @ rest"
    and "\<forall>n \<in> set before. cannot_run w st n"
  shows "\<exists>mid st'. scheduleWaiting w names rest st = Inr st' \<and> only_empty_dropped st mid \<and> search_result w mid st'"
  using assms
proof (induction w names rest st arbitrary: before rule: scheduleWaiting.induct)
  case (1 w names st)
  then have "search_result w st st" by (simp add: search_result_def)
  then show ?case using only_empty_refl by auto
next
  case (2 w names n rest st)
  have "n \<in> set (map fst (rx_waiting st))" using "2.prems"(3,4) by (metis in_set_conv_decomp)
  then consider (notyet) "tryWaiting w names st n = Inr NotYet" "cannot_run w st n"
    | (picked) node nt k xs st' where "tryWaiting w names st n = Inr (Picked st')" "\<not> cannot_run w st n"
        "getNode w n = Some node" "nodeTypes w (n_type node) (n_typeVersion node) = Some nt" "earliest_run st n k xs"
        "holds_items xs" "put_on_stack st n node nt k xs st'"
    | (removed) st' where "tryWaiting w names st n = Inr (Removed st')" "only_empty_dropped st st'" "waiting_ok w st'"
    using tryWaiting_ok [OF "2.prems"(1,2)] unfolding "2.prems"(3) by metis
  then show ?case
  proof cases
    case notyet
    have "\<exists>mid st'. scheduleWaiting w names rest st = Inr st' \<and> only_empty_dropped st mid \<and> search_result w mid st'"
      by (rule "2.IH"(1) [OF notyet(1) refl, of "before @ [n]"]) (use "2.prems" notyet in auto)
    then show ?thesis using notyet by simp
  next
    case picked
    have "search_result w st st'" unfolding search_result_def using picked "2.prems"(3-5) by metis
    then show ?thesis using picked(1) only_empty_refl by auto
  next
    case removed
    have "\<exists>mid st''. scheduleWaiting w (map fst (rx_waiting st')) (map fst (rx_waiting st')) st' = Inr st'' \<and>
        only_empty_dropped st' mid \<and> search_result w mid st''"
      by (rule "2.IH"(2) [OF removed(1) refl, of "[]"]) (use "2.prems"(2) removed in auto)
    then show ?thesis using removed(1) only_empty_trans [OF removed(2)] by auto
  qed
qed

text \<open>C2. The search for a waiting node always ends without an error. It drops waiting entries that hold no
  item, and then either nothing that still waits can run, or the first node that can (in the order in
  which nodes began to wait) goes to the end of the stack with what its earliest run has collected (by
  the index as a string): an empty list for each input without data, and its entry is the only one that
  leaves. A node cannot run when it is missing, when another node that waits leads to it over main
  connections, or in the order of version 1 when its type requires all inputs, more inputs than hold
  data, or an input that holds none. The provisos: each waiting execution has a place for every input and
  a source entry beside it (\<open>waiting_ok\<close>, so no holes), and the types of all nodes are known.\<close>

theorem scheduleWaiting_complete:
  assumes "waiting_ok w st" and "types_known w"
  shows "\<exists>mid st'. scheduleWaiting w (map fst (rx_waiting st)) (map fst (rx_waiting st)) st = Inr st' \<and>
    only_empty_dropped st mid \<and> search_result w mid st'"
  by (rule scheduleWaiting_from [OF assms refl, of "[]"]) simp_all

text \<open>The workflow of the node with three inputs, with a type for its nodes.\<close>

definition typed_merge :: "nat + nat list \<Rightarrow> Workflow" where
  "typed_merge required = merge_workflow\<lparr>nodeTypes := (\<lambda>_ _. Some (flaky_type\<lparr>nt_inputs := 3, nt_requiredInputs := Some required\<rparr>))\<rparr>"

lemma scheduleWaiting_complete_witness:
  "\<exists>mid st'. scheduleWaiting (typed_merge (Inl 1)) [''M''] [''M''] waiting_at_1 = Inr st' \<and>
     only_empty_dropped waiting_at_1 mid \<and> search_result (typed_merge (Inl 1)) mid st' \<and> rx_waiting st' = []"
proof -
  have ok: "waiting_ok (typed_merge (Inl 1)) waiting_at_1"
    using waiting_at_1_eq merge_facts(1)
    by (auto simp: waiting_ok_def entry_ok_def sources_for_def jsmap_ok_def typed_merge_def numberOfInputs_def)
  have types: "types_known (typed_merge (Inl 1))" by (simp add: types_known_def typed_merge_def)
  have names: "map fst (rx_waiting waiting_at_1) = [''M'']" by (simp add: waiting_at_1_eq)
  have "case scheduleWaiting (typed_merge (Inl 1)) [''M''] [''M''] waiting_at_1 of Inr st' \<Rightarrow> rx_waiting st' = [] | Inl _ \<Rightarrow> False"
    by code_simp
  with scheduleWaiting_complete [OF ok types, unfolded names] show ?thesis by auto
qed

text \<open>Of several runs that wait, the one whose index comes first as a string is picked: run 10 goes before
  run 2, though the code looks for the earliest one.\<close>

theorem waiting_run_10_before_2:
  assumes "waiting_ok w st" and "getNode w n = Some node" and "nodeTypes w (n_type node) (n_typeVersion node) = Some nt"
    and "nt_requiredInputs nt = None" and "\<forall>p \<in> set (wf_getParentNodes w n (OfType Main) (-1)). p \<notin> set names"
    and "map_of (rx_waiting st) n = Some obj" and "map fst (by_index obj) = [2, 10]"
    and "main_of (rx_waiting st) n 10 = Some xs" and "any_items xs"
  shows "\<exists>st' e. tryWaiting w names st n = Inr (Picked st') \<and> rx_stack st' = rx_stack st @ [e] \<and>
    take (length xs) (case_option [] (\<lambda>l. l) (map_of (e_data e) Main)) = task_main xs \<and>
    main_of (rx_waiting st') n 2 = main_of (rx_waiting st) n 2"
proof -
  have first: "first_key [2, 10] = 10" by code_simp
  obtain src where src: "rx_waitingSource st = Some src" using waiting_okD(1) [OF assms(1)] by blast
  obtain sobj where sobj: "map_of src n = Some sobj" using waiting_okD(4) [OF assms(1) src assms(6)] by (auto simp: sources_for_def)
  have keep: "main_of (rx_waiting (dropEntry n 10 st)) n 2 = main_of (rx_waiting st) n 2"
  proof -
    have "2 \<in> set (map fst obj)" using assms(7) in_by_index [of obj] by (metis list.set_intros(1) list.set_map)
    then obtain c where "(2, c) \<in> set (AList.delete 10 obj)" by (auto simp: set_delete)
    then have "AList.delete 10 obj \<noteq> []" by auto
    then show ?thesis using assms(6) by (simp add: main_of_def dropEntry_def Let_def update_conv' delete_conv')
  qed
  show ?thesis
    using assms src sobj keep by (auto simp: tryWaiting_def Let_def first required_missing_def all_required_def list_ex_iff task_main_def)
qed

definition two_runs_waiting :: RunExecutionData where
  "two_runs_waiting = empty_run\<lparr>
     rx_waiting := [(''M'', [(2, [(Main, [Val [], Null, Null])]), (10, [(Main, [Val [empty_item], Null, Null])])])],
     rx_waitingSource := Some [(''M'', [(2, [(Main, [None, None, None])]), (10, [(Main, [None, None, None])])])]\<rparr>"

lemma waiting_run_10_before_2_witness:
  "\<exists>st' e. tryWaiting (merge_workflow\<lparr>nodeTypes := (\<lambda>_ _. Some flaky_type)\<rparr>) [''M''] two_runs_waiting ''M'' = Inr (Picked st') \<and>
     rx_stack st' = [e] \<and> main_of (rx_waiting st') ''M'' 2 = Some [Val [], Null, Null]"
proof -
  let ?w = "merge_workflow\<lparr>nodeTypes := (\<lambda>_ _. Some flaky_type)\<rparr>"
  have ok: "waiting_ok ?w two_runs_waiting"
    using merge_facts(1) by (auto simp: waiting_ok_def two_runs_waiting_def empty_run_def entry_ok_def sources_for_def jsmap_ok_def numberOfInputs_def)
  have node: "getNode ?w ''M'' = Some (mk_node 3 ''M'' ''t'')" using merge_facts(3) by (simp add: getNode_def)
  have parents: "\<forall>p \<in> set (wf_getParentNodes ?w ''M'' (OfType Main) (-1)). p \<notin> set [''M'']" by code_simp
  show ?thesis
    using waiting_run_10_before_2 [OF ok node _ _ parents, of flaky_type "[(2, [(Main, [Val [], Null, Null])]), (10, [(Main, [Val [empty_item], Null, Null])])]"
        "[Val [empty_item], Null, Null]"]
    by (simp add: flaky_type_def two_runs_waiting_def empty_run_def by_index_def main_of_def any_items_def) blast
qed

end
