(* ===== verification/EngineFrame.thy ===== *)
theory EngineFrame
  imports EngineLoop RunData
begin

text \<open>
  What an execution does to its records. The locale \<open>engine_frame\<close> says of a relation between states that it
  holds across each elementary change the loop of \<open>EngineLoop\<close> makes (stack and waiting entries, a time
  to wait for, the last node, the run of a requested node, a recorded run); then it holds across every
  iteration. Its interpretations give: nodes outside of the filter get no runs, runs are never lost,
  execution indexes stay below the next one, and the run data stays well formed.
\<close>

section \<open>Changes of an iteration\<close>

text \<open>A run that was recorded: it is waiting, failed with an error, or succeeded with data.\<close>

definition run_done :: "ITaskData \<Rightarrow> bool" where
  "run_done t \<longleftrightarrow> t_executionStatus t \<in> {Some Success, Some Waiting, Some Error} \<and>
     (if t_executionStatus t = Some Error then t_error t \<noteq> None else t_data t \<noteq> None)"

locale engine_frame =
  fixes R :: "RunExecutionData \<Rightarrow> RunExecutionData \<Rightarrow> bool"
    and requestable :: "string \<Rightarrow> bool"
    and runnable :: "string \<Rightarrow> nat \<Rightarrow> bool"
  assumes R_trans: "R a b \<Longrightarrow> R b c \<Longrightarrow> R a c"
    and R_rest: "rest_of b = rest_of a \<Longrightarrow> R a b"
    and R_last: "R a (a\<lparr>rx_lastNodeExecuted := l\<rparr>)"
    and R_wait: "R a (a\<lparr>rx_waitTill := t\<rparr>)"
    and R_request: "requestable n \<Longrightarrow>
      R a (a\<lparr>rx_runData := fst (initializeNodeRunData (rx_runData a) n parent out parentRun hasParent run shown)\<rparr>)"
    and R_record: "runnable n idx \<Longrightarrow> t_executionIndex task = Some idx \<Longrightarrow> run_done task \<Longrightarrow>
      R a (recordTask n run task a)"
begin

lemma R_refl [simp, intro]: "R a a"
  by (rule R_rest) simp

lemma R_stack [simp]: "R a (b\<lparr>rx_stack := s\<rparr>) = R a b"
proof -
  have "R b (b\<lparr>rx_stack := s\<rparr>)" "R (b\<lparr>rx_stack := s\<rparr>) b" by (simp_all add: R_rest)
  then show ?thesis using R_trans by blast
qed

lemma R_set_last: "R a (l_data ls) \<Longrightarrow> R a (l_data (set_last n ls))"
  using R_trans R_last by (simp add: set_last_def)

lemma callNode_R: "callNode env e run results ls = (a, ls') \<Longrightarrow> R (l_data ls) (l_data ls')"
  by (auto simp: callNode_def note_wait_def R_wait split: prod.splits option.splits)

lemma runAgain_R:
  "runAgain left env e run r ls = (a, ls', left') \<Longrightarrow> R (l_data ls) (l_data ls')"
proof (induction left env e run r ls arbitrary: a ls' left' rule: runAgain.induct)
  case (2 left env e run r ls)
  obtain b ls1 where b: "callNode env e run None ls = (b, ls1)" by (cases "callNode env e run None ls")
  note call = callNode_R [OF b]
  show ?case
  proof (cases "response_failed r \<and> (\<exists>r1. b = Inr r1)")
    case True
    then obtain r1 where r1: "b = Inr r1" by blast
    then have rest: "runAgain left env e run r1 ls1 = (a, ls', left')" using "2.prems" True b by simp
    show ?thesis using R_trans [OF call "2.IH" [OF conjunct1 [OF True] b [symmetric] r1 rest]] .
  next
    case False
    then show ?thesis using "2.prems" b call by (cases b) (auto split: if_splits)
  qed
qed auto

text \<open>The requested nodes get their runs one after the other.\<close>

lemma prepareRequested_R:
  assumes "a_nodeName ` set as \<subseteq> Collect requestable"
  shows "R (st\<lparr>rx_runData := rq_runData acc\<rparr>)
    (st\<lparr>rx_runData := rq_runData (fst (prepareRequestedNodesForExecution cur run e as acc))\<rparr>)"
  using assms
proof (induction as arbitrary: acc)
  case (Cons a as)
  have "R (st\<lparr>rx_runData := rq_runData acc\<rparr>) (st\<lparr>rx_runData := rq_runData (requestAction cur run e a acc)\<rparr>)"
    using R_request [of "a_nodeName a" "st\<lparr>rx_runData := rq_runData acc\<rparr>"] Cons.prems
    by (simp add: requestAction_def Let_def split_beta)
  then show ?case using Cons R_trans by simp
qed simp

lemma handleEngineRequest_R:
  assumes "handleEngineRequest w cur request run e st = (w', st', err)"
    and "a_nodeName ` set (r_actions request) \<subseteq> Collect requestable"
  shows "R st st'"
proof -
  let ?init = "\<lparr>rq_workflow = w, rq_runData = rx_runData st, rq_nodes = [], rq_actions = []\<rparr>"
  obtain acc er where acc: "prepareRequestedNodesForExecution cur run e (r_actions request) ?init = (acc, er)"
    by (cases "prepareRequestedNodesForExecution cur run e (r_actions request) ?init")
  obtain nodes where h: "handleRequest w cur request run e (rx_runData st) = (rq_workflow acc, rq_runData acc, nodes)"
    using acc by (simp add: handleRequest_def)
  have first: "R st (st\<lparr>rx_runData := rq_runData acc\<rparr>)"
    using prepareRequested_R [OF assms(2), of ?init st cur run e] acc by simp
  have "rest_of st' = rest_of (st\<lparr>rx_runData := rq_runData acc\<rparr>)"
  proof (cases nodes)
    case (Inr qs)
    then have "addRequested (rq_workflow acc) qs (st\<lparr>rx_runData := rq_runData acc\<rparr>) = (st', err)"
      using assms(1) h by (auto simp: handleEngineRequest_def)
    then show ?thesis using addRequested_rest [of "rq_workflow acc" qs "st\<lparr>rx_runData := rq_runData acc\<rparr>"] by simp
  qed (use assms(1) h in \<open>simp add: handleEngineRequest_def\<close>)
  then show ?thesis using R_trans [OF first R_rest] by simp
qed

lemma afterRun_R: "afterRun e nsd ls = (r, ls', nsd') \<Longrightarrow> R (l_data ls) (l_data ls')"
  by (auto simp: afterRun_def Let_def R_set_last split: sum.splits option.splits if_splits)

lemma handleResponse_R:
  assumes "handleResponse env e run nsd r ls = (t, ls', nsd')"
    and "\<And>q. r = Request q \<Longrightarrow> a_nodeName ` set (r_actions q) \<subseteq> Collect requestable"
  shows "R (l_data ls) (l_data ls')"
proof (cases r)
  case (ResponseData d)
  then show ?thesis using assms(1) by (auto simp: handleResponse_def dest: afterRun_R split: if_splits sum.splits)
next
  case (Request q)
  then show ?thesis using assms(1) handleEngineRequest_R assms(2) [OF Request]
    by (fastforce simp: handleResponse_def split: prod.splits)
qed

lemma attempt_R:
  assumes "attempt env e run left ls nsd results = (r, ls', nsd', results', left')"
    and only: "requests_only (Collect requestable) env"
  shows "R (l_data ls) (l_data ls')"
proof (cases "(if disabled (e_node e) then None else Option.bind (rx_pinData (l_data ls)) (\<lambda>pd. map_of pd (n_name (e_node e))))")
  case (Some pinned)
  then show ?thesis using assms(1) by (auto simp: attempt_def dest!: afterRun_R split: prod.splits)
next
  case None
  let ?results = "collectResponses e (rx_runData (l_data ls)) results"
  obtain a ls1 where a: "callNode env e run (Some ?results) ls = (a, ls1)" by (cases "callNode env e run (Some ?results) ls")
  note u1 = callNode_R [OF a]
  show ?thesis
  proof (cases a)
    case (Inl err)
    then show ?thesis using assms(1) None a u1 by (auto simp: attempt_def Let_def)
  next
    case (Inr r1)
    obtain b ls2 l2 where b: "runAgain left env e run r1 ls1 = (b, ls2, l2)" by (cases "runAgain left env e run r1 ls1")
    have r1: "a_nodeName ` set (r_actions q) \<subseteq> Collect requestable" if "r1 = Request q" for q
      using callNode_request [OF _ only] a Inr that by metis
    note u2 = R_trans [OF u1 runAgain_R [OF b]]
    show ?thesis
    proof (cases b)
      case (Inl err)
      then show ?thesis using assms(1) None a Inr b u2 by (auto simp: attempt_def Let_def)
    next
      case (Inr r2)
      obtain t ls3 nsd3 where t: "handleResponse env e run nsd r2 ls2 = (t, ls3, nsd3)"
        by (cases "handleResponse env e run nsd r2 ls2")
      have "a_nodeName ` set (r_actions q) \<subseteq> Collect requestable" if "r2 = Request q" for q
        using runAgain_request [OF b [unfolded Inr that] only r1] by blast
      then have "R (l_data ls2) (l_data ls3)" by (rule handleResponse_R [OF t])
      then have "R (l_data ls) (l_data ls3)" by (rule R_trans [OF u2])
      then show ?thesis using assms(1) None a \<open>a = Inr r1\<close> b Inr t by (auto simp: attempt_def Let_def)
    qed
  qed
qed

lemma tries_R:
  "tries env e run left ls nsd results = (r, ls', nsd') \<Longrightarrow> requests_only (Collect requestable) env \<Longrightarrow>
     R (l_data ls) (l_data ls')"
proof (induction left arbitrary: ls nsd results rule: less_induct)
  case (less left)
  obtain a ls1 nsd1 results1 l1 where a: "attempt env e run left ls nsd results = (a, ls1, nsd1, results1, l1)"
    by (cases "attempt env e run left ls nsd results")
  note u = attempt_R [OF a less.prems(2)]
  show ?case
  proof (cases "(\<exists>t. a = Inr t) \<or> l1 = 0")
    case True
    then have "ls' = ls1 \<or> ls' = set_last (n_name (e_node e)) ls1"
      using less.prems(1) a by (subst (asm) tries.simps) (auto split: sum.splits)
    then show ?thesis using u R_set_last [OF u] by auto
  next
    case False
    then obtain err where "a = Inl err" by (cases a) auto
    then have "tries env e run (l1 - 1) (set_last (n_name (e_node e)) ls1) nsd1 results1 = (r, ls', nsd')"
      using less.prems(1) a False by (subst (asm) tries.simps) auto
    moreover have "l1 - 1 < left" using attempt_left [OF a] False by linarith
    ultimately have "R (l_data (set_last (n_name (e_node e)) ls1)) (l_data ls')"
      using less.IH less.prems(2) by blast
    then show ?thesis using R_trans [OF R_set_last [OF u]] by blast
  qed
qed

lemma afterTries_R:
  assumes "afterTries e run idx err nsd ls = Inr it" and ok: "runnable (n_name (e_node e)) idx"
  shows "R (l_data ls) (case it of NextIteration ls' \<Rightarrow> l_data ls' | LoopEnded ls' \<Rightarrow> l_data ls')"
proof -
  define task where "task = (if err = None then (new_task e idx (l_data ls))\<lparr>t_error := err\<rparr>
    else (new_task e idx (l_data ls))\<lparr>t_error := err, t_executionStatus := Some Error\<rparr>)"
  have task_idx: "t_executionIndex task = Some idx" by (simp add: task_def new_task_def)
  have status: "t_executionStatus task = (if err = None then Some (if rx_waitTill (l_data ls) = None then Success else Waiting) else Some Error)"
      "t_error task = err" by (simp_all add: task_def new_task_def)
  show ?thesis
  proof (cases "err \<noteq> None \<and> \<not> continues_on_error (e_node e)")
    case True
    then have it: "it = LoopEnded (ls\<lparr>l_error := err, l_data := stopOnError e run (the err) task (l_data ls)\<rparr>)"
      using assms(1) by (simp add: afterTries_def Let_def task_def)
    let ?task = "case n_rewireOutputLogTo (e_node e) of None \<Rightarrow> task
      | Some t \<Rightarrow> task\<lparr>t_inputOverride := Some (inputOverride_of (n_name (e_node e)) run (l_data ls)),
          t_data := Some [(t, [Some [empty_item\<lparr>x_json := [(''error'', JStr (err_message (the err)))]\<rparr>]])]\<rparr>"
    have "t_executionIndex ?task = Some idx" "run_done ?task"
      using True status task_idx by (auto simp: run_done_def split: option.split)
    from R_record [OF ok this] show ?thesis using it by (simp add: stopOnError_def Let_def)
  next
    case False
    then obtain outs where outs: "output_after e err nsd = Some outs"
      using assms(1) by (cases "output_after e err nsd") (auto simp: afterTries_def Let_def)
    then obtain items where items: "mergeErrors outs = Inr items"
      using False assms(1) by (cases "mergeErrors outs") (auto simp: afterTries_def Let_def)
    let ?st = "recordSuccess e run items task (l_data ls)"
    have u: "R (l_data ls) ?st"
      unfolding recordSuccess_def Let_def
      by (rule R_record [OF ok]) (use task_idx status in \<open>auto simp: run_done_def split: option.split\<close>)
    have run: "(if rx_waitTill ?st \<noteq> None then Inr (LoopEnded (ls\<lparr>l_error := err, l_data := ?st\<lparr>rx_stack := e # rx_stack ?st\<rparr>\<rparr>))
        else if map_option d_nodeName (rx_destinationNode ?st) = Some (n_name (e_node e))
        then Inr (NextIteration (ls\<lparr>l_error := err, l_data := ?st\<rparr>))
        else rbind (addChildren (l_workflow ls) (n_name (e_node e)) items run ?st) (\<lambda>st.
          rbind (if rx_stack st = [] then scheduleWaiting (l_workflow ls) (map fst (rx_waiting st)) (map fst (rx_waiting st)) st
                 else Inr st) (\<lambda>st. Inr (NextIteration (ls\<lparr>l_error := err, l_data := st\<rparr>))))) = Inr it"
      using assms(1) outs items False unfolding afterTries_def Let_def task_def by (auto split del: if_split cong: if_cong)
    show ?thesis
    proof (cases "rx_waitTill ?st \<noteq> None \<or> map_option d_nodeName (rx_destinationNode ?st) = Some (n_name (e_node e))")
      case True
      then show ?thesis using run u by (auto split: if_splits)
    next
      case False
      then have "\<not> rx_waitTill ?st \<noteq> None" "\<not> map_option d_nodeName (rx_destinationNode ?st) = Some (n_name (e_node e))"
        by simp_all
      from run [unfolded if_not_P [OF this(1)] if_not_P [OF this(2)]] obtain st1 where
          st1: "addChildren (l_workflow ls) (n_name (e_node e)) items run ?st = Inr st1"
          "rbind (if rx_stack st1 = [] then scheduleWaiting (l_workflow ls) (map fst (rx_waiting st1)) (map fst (rx_waiting st1)) st1
            else Inr st1) (\<lambda>st. Inr (NextIteration (ls\<lparr>l_error := err, l_data := st\<rparr>))) = Inr it"
        by (rule rbind_InrE)
      from st1(2) obtain st2 where st2: "(if rx_stack st1 = []
            then scheduleWaiting (l_workflow ls) (map fst (rx_waiting st1)) (map fst (rx_waiting st1)) st1 else Inr st1) = Inr st2"
          "it = NextIteration (ls\<lparr>l_error := err, l_data := st2\<rparr>)"
        by (rule rbind_InrE) simp
      have "rest_of st2 = rest_of ?st"
        using addChildren_rest [OF st1(1)] st2(1) scheduleWaiting_rest by (auto split: if_splits)
      then show ?thesis using st2(2) R_trans [OF u R_rest] by simp
    qed
  qed
qed

lemma runEntry_R:
  assumes "runEntry env e run idx ls = Inr it" and ok: "runnable (n_name (e_node e)) idx"
    and only: "requests_only (Collect requestable) env"
  shows "R (l_data ls) (state_of it)"
proof -
  obtain r ls2 nsd where t: "tries env e run (maxTries (e_node e) - 1) ls None makeEngineResponse = (r, ls2, nsd)"
    by (cases "tries env e run (maxTries (e_node e) - 1) ls None makeEngineResponse")
  note u = tries_R [OF t only]
  consider "it = NextIteration ls2" | err nsd' where "afterTries e run idx err nsd' ls2 = Inr it"
    using assms(1) t by (auto simp: runEntry_def split: sum.splits TryEnd.splits)
  then show ?thesis
  proof cases
    case 1
    then show ?thesis using u by simp
  next
    case 2
    then show ?thesis using R_trans [OF u afterTries_R [OF 2 ok]] by simp
  qed
qed

lemma iteration_R:
  assumes it: "iteration env ls = Inr it" and only: "requests_only (Collect requestable) env"
    and ok: "\<And>n. (case rx_runNodeFilter (l_data ls) of None \<Rightarrow> True | Some names \<Rightarrow> n \<in> set names) \<Longrightarrow>
      runnable n (l_executionIndex ls)"
  shows "R (l_data ls) (state_of it)"
proof (cases "rx_stack (l_data ls)")
  case Nil
  then show ?thesis using it by (auto simp: iteration_def)
next
  case (Cons entry stack)
  let ?e = "pairInputs entry" and ?n = "n_name (e_node entry)"
  let ?st = "(l_data ls)\<lparr>rx_stack := stack\<rparr>"
  let ?ls = "ls\<lparr>l_data := ?st, l_executionIndex := Suc (l_executionIndex ls), l_error := None\<rparr>"
  let ?run = "case e_runIndex ?e of Some i \<Rightarrow> i | None \<Rightarrow> length (runs_of (rx_runData ?st) ?n)"
  let ?skip = "case rx_runNodeFilter (l_data ls) of None \<Rightarrow> False | Some names \<Rightarrow> ?n \<notin> set names"
  show ?thesis
  proof (cases "v_stopped env (l_executionIndex ls) \<or> ?skip")
    case True
    then show ?thesis using it Cons by (auto simp: iteration_def Let_def split: if_splits)
  next
    case False
    then have body: "rbind (ensureInputData (l_workflow ls) (e_node entry) ?e ?st) (\<lambda>(ready, st).
        if \<not> ready then Inr (NextIteration (?ls\<lparr>l_data := st, l_lastTry := Some (?n, ?run)\<rparr>))
        else runEntry env ?e ?run (l_executionIndex ls) (?ls\<lparr>l_data := st\<rparr>)) = Inr it"
      using it Cons unfolding iteration_def Let_def by (simp split: if_splits)
    then obtain p where p: "ensureInputData (l_workflow ls) (e_node entry) ?e ?st = Inr p"
        "(\<lambda>(ready, st). if \<not> ready then Inr (NextIteration (?ls\<lparr>l_data := st, l_lastTry := Some (?n, ?run)\<rparr>))
        else runEntry env ?e ?run (l_executionIndex ls) (?ls\<lparr>l_data := st\<rparr>)) p = Inr it"
      by (rule rbind_InrE)
    obtain ready st where rs: "p = (ready, st)" by (cases p)
    have "rest_of st = rest_of ?st"
      using ensureInputData_rest [OF p(1) [unfolded ensureInputData_def rs]] .
    then have u: "R (l_data ls) st" using R_rest [of st "l_data ls"] by simp
    have run: "runnable (n_name (e_node ?e)) (l_executionIndex ls)"
      by (rule ok) (use False in \<open>auto simp: pairInputs_def split: option.splits\<close>)
    show ?thesis
    proof (cases ready)
      case True
      then have "runEntry env ?e ?run (l_executionIndex ls) (?ls\<lparr>l_data := st\<rparr>) = Inr it" using p(2) rs by simp
      from runEntry_R [OF this run only] show ?thesis using R_trans [OF u] by simp
    next
      case False
      then show ?thesis using p(2) rs u by auto
    qed
  qed
qed

text \<open>So is every step, and, for nodes that may always run, any number of them.\<close>

lemma step_R:
  assumes "loop_step env ls ls'" and "requests_only (Collect requestable) env"
    and "\<And>n. (case rx_runNodeFilter (l_data ls) of None \<Rightarrow> True | Some names \<Rightarrow> n \<in> set names) \<Longrightarrow>
      runnable n (l_executionIndex ls)"
  shows "R (l_data ls) (l_data ls')"
  using assms(1) by cases (use iteration_R [OF _ assms(2,3)] in fastforce)+

lemma steps_R:
  assumes "(loop_step env)\<^sup>*\<^sup>* ls ls'" and "requests_only (Collect requestable) env" and "\<And>n idx. runnable n idx"
  shows "R (l_data ls) (l_data ls')"
  using assms(1)
proof (induction rule: rtranclp_induct)
  case (step ls1 ls2)
  then show ?case using step_R [OF step.hyps(2) assms(2,3)] R_trans by blast
qed simp

end

section \<open>Only the nodes of the filter run\<close>

text \<open>Nothing happened to the runs of node \<open>m\<close> nor to the filter.\<close>

definition untouched :: "string \<Rightarrow> RunExecutionData \<Rightarrow> RunExecutionData \<Rightarrow> bool" where
  "untouched m st st' \<longleftrightarrow> map_of (rx_runData st') m = map_of (rx_runData st) m \<and> rx_runNodeFilter st' = rx_runNodeFilter st"

interpretation apart: engine_frame "untouched m" "\<lambda>n. n \<noteq> m" "\<lambda>n _. n \<noteq> m" for m
  by unfold_locales (auto simp: untouched_def initializeNodeRunData_def recordTask_def set_runs_def update_conv' Let_def
    dest: rest_of_eqD)

lemma steps_untouched:
  assumes "(loop_step env)\<^sup>*\<^sup>* ls ls'" and "rx_runNodeFilter (l_data ls) = Some names" and "m \<notin> set names"
    and "requests_only (set names) env"
  shows "untouched m (l_data ls) (l_data ls')"
  using assms(1)
proof (induction rule: rtranclp_induct)
  case (step ls1 ls2)
  have f: "rx_runNodeFilter (l_data ls1) = Some names" using step.IH assms(2) by (simp add: untouched_def)
  have "requests_only {n. n \<noteq> m} env" by (rule requests_only_mono [OF assms(4)]) (use assms(3) in auto)
  then have "untouched m (l_data ls1) (l_data ls2)" by (rule apart.step_R [OF step.hyps(2)]) (use f assms(3) in auto)
  then show ?case using apart.R_trans [OF step.IH] by blast
qed simp

text \<open>C4. Whatever the loop does, and however long it runs: a node outside of the filter of the execution never
  gets a run, unless a node of the execution may request it.\<close>

theorem filtered_nodes_never_run:
  assumes "(loop_step env)\<^sup>*\<^sup>* ls ls'" and "rx_runNodeFilter (l_data ls) = Some names" and "m \<notin> set names"
    and "requests_only (set names) env"
  shows "map_of (rx_runData (l_data ls')) m = map_of (rx_runData (l_data ls)) m"
  using steps_untouched [OF assms] by (simp add: untouched_def)

lemma filtered_nodes_never_run_witness:
  "\<exists>ls'. (loop_step plain_env)\<^sup>*\<^sup>* filtered_state ls' \<and> map_of (rx_runData (l_data ls')) ''A'' \<noteq> None \<and>
     map_of (rx_runData (l_data ls')) ''B'' = None"
proof -
  have "case after_steps 2 plain_env filtered_state of None \<Rightarrow> False
      | Some ls' \<Rightarrow> map_of (rx_runData (l_data ls')) ''A'' \<noteq> None" by code_simp
  then obtain ls' where ls': "after_steps 2 plain_env filtered_state = Some ls'" "map_of (rx_runData (l_data ls')) ''A'' \<noteq> None"
    by (auto split: option.splits)
  note reach = after_steps_reach [OF ls'(1)]
  have only: "requests_only (set [''A'']) plain_env" by (simp add: requests_only_def plain_env_def)
  have f: "rx_runNodeFilter (l_data filtered_state) = Some [''A'']" by (simp add: filtered_state_def)
  have "map_of (rx_runData (l_data ls')) ''B'' = map_of (rx_runData (l_data filtered_state)) ''B''"
    by (rule filtered_nodes_never_run [OF reach f _ only]) simp
  also have "\<dots> = None" by (simp add: filtered_state_def empty_run_def)
  finally show ?thesis using reach ls'(2) by blast
qed

section \<open>Runs are never lost\<close>

text \<open>Each run of the first state is in the second, with data or an error if it had one.\<close>

definition keeps_runs :: "RunExecutionData \<Rightarrow> RunExecutionData \<Rightarrow> bool" where
  "keeps_runs st st' \<longleftrightarrow> (\<forall>n i. i < length (runs_of (rx_runData st) n) \<longrightarrow> i < length (runs_of (rx_runData st') n) \<and>
     (t_data (runs_of (rx_runData st) n ! i) \<noteq> None \<longrightarrow> t_data (runs_of (rx_runData st') n ! i) \<noteq> None) \<and>
     (t_error (runs_of (rx_runData st) n ! i) \<noteq> None \<longrightarrow> t_error (runs_of (rx_runData st') n ! i) \<noteq> None))"

lemma keeps_runs_data: "rx_runData st' = rx_runData st \<Longrightarrow> keeps_runs st st'"
  by (simp add: keeps_runs_def)

lemma runs_of_set_runs [simp]: "runs_of (set_runs n ts rd) m = (if m = n then ts else runs_of rd m)"
  by (simp add: runs_of_def set_runs_def update_conv')

lemma keeps_runs_record: "keeps_runs st (recordTask n run task st)"
  by (auto simp: keeps_runs_def recordTask_def Let_def nth_append nth_list_update assignTask_def split: option.split)

interpretation kept: engine_frame keeps_runs "\<lambda>_. True" "\<lambda>_ _. True"
proof unfold_locales
  show "keeps_runs a c" if "keeps_runs a b" "keeps_runs b c" for a b c
    using that unfolding keeps_runs_def by blast
  show "keeps_runs a b" if "rest_of b = rest_of a" for a b
    using rest_of_eqD [OF that] by (simp add: keeps_runs_data)
  show "keeps_runs a (recordTask n run task a)" for a n run task
    by (rule keeps_runs_record)
qed (auto simp: keeps_runs_def initializeNodeRunData_def Let_def nth_append)

lemma requests_any [simp]: "requests_only UNIV env"
  by (simp add: requests_only_def)

lemma steps_keep_runs: "(loop_step env)\<^sup>*\<^sup>* ls ls' \<Longrightarrow> keeps_runs (l_data ls) (l_data ls')"
  by (rule kept.steps_R) (simp_all add: requests_only_def)

section \<open>The next execution index\<close>

text \<open>The indexes of all recorded runs are below \<open>k\<close>.\<close>

definition indexes_below :: "nat \<Rightarrow> RunExecutionData \<Rightarrow> bool" where
  "indexes_below k st \<longleftrightarrow> (\<forall>n. \<forall>t \<in> set (runs_of (rx_runData st) n). \<forall>i. t_executionIndex t = Some i \<longrightarrow> i < k)"

interpretation indexed: engine_frame "\<lambda>st st'. indexes_below k st \<longrightarrow> indexes_below k st'" "\<lambda>_. 0 < k" "\<lambda>_ idx. idx < k" for k
proof unfold_locales
  show "indexes_below k a \<longrightarrow> indexes_below k b" if "rest_of b = rest_of a" for a b
    using rest_of_eqD [OF that] by (simp add: indexes_below_def)
  show "indexes_below k a \<longrightarrow> indexes_below k (recordTask n run task a)"
    if "idx < k" "t_executionIndex task = Some idx" for n idx task run a
    using that by (auto simp: indexes_below_def recordTask_def Let_def assignTask_def dest!: set_update_subset_insert [THEN subsetD])
qed (auto simp: indexes_below_def initializeNodeRunData_def Let_def)

text \<open>Running a node leaves the counter of the loop alone: only the iteration itself advances it.\<close>

lemma runAgain_index: "runAgain left env e run r ls = (a, ls', left') \<Longrightarrow> l_executionIndex ls' = l_executionIndex ls"
proof (induction left env e run r ls arbitrary: a ls' left' rule: runAgain.induct)
  case (2 left env e run r ls)
  show ?case
  proof (cases "response_failed r")
    case True
    obtain b ls1 where b: "callNode env e run None ls = (b, ls1)" by (cases "callNode env e run None ls")
    have call: "l_executionIndex ls1 = l_executionIndex ls" using b by (auto simp: callNode_def split: prod.splits)
    show ?thesis
    proof (cases b)
      case (Inr r1)
      then have "runAgain left env e run r1 ls1 = (a, ls', left')" using "2.prems" True b by simp
      with "2.IH" [OF True b [symmetric] Inr] show ?thesis using call by simp
    qed (use "2.prems" True b call in auto)
  qed (use "2.prems" in auto)
qed auto

lemma handleResponse_index:
  "handleResponse env e run nsd r ls = (t, ls', nsd') \<Longrightarrow> l_executionIndex ls' = l_executionIndex ls"
  by (auto simp: handleResponse_def afterRun_def set_last_def Let_def
    split: NodeResponse.splits prod.splits if_splits sum.splits option.splits)

lemma attempt_index:
  "attempt env e run left ls nsd results = (r, ls', nsd', results', left') \<Longrightarrow> l_executionIndex ls' = l_executionIndex ls"
  by (auto simp: attempt_def callNode_def afterRun_def set_last_def Let_def dest!: runAgain_index handleResponse_index
    split: option.splits prod.splits if_splits sum.splits)

lemma tries_index:
  "tries env e run left ls nsd results = (r, ls', nsd') \<Longrightarrow> l_executionIndex ls' = l_executionIndex ls"
proof (induction env e run left ls nsd results rule: tries.induct)
  case (1 env e run left ls nsd results)
  obtain a ls1 nsd1 results1 l1 where a: "attempt env e run left ls nsd results = (a, ls1, nsd1, results1, l1)"
    by (cases "attempt env e run left ls nsd results")
  note idx = attempt_index [OF a]
  show ?case
  proof (cases "\<exists>err. a = Inl err \<and> l1 \<noteq> 0")
    case True
    then obtain err where err: "a = Inl err" "l1 \<noteq> 0" by blast
    then have "tries env e run (l1 - 1) (set_last (n_name (e_node e)) ls1) nsd1 results1 = (r, ls', nsd')"
      using "1.prems" a by (subst (asm) tries.simps) simp
    from "1.IH" [OF a [symmetric] _ _ _ _ refl err(2)] err(1) this show ?thesis using idx by (simp add: set_last_def)
  next
    case False
    then show ?thesis using "1.prems" a idx by (subst (asm) tries.simps) (auto simp: set_last_def split: sum.splits if_splits)
  qed
qed

lemma afterTries_index:
  "afterTries e run idx err nsd ls = Inr (NextIteration ls') \<Longrightarrow> l_executionIndex ls' = l_executionIndex ls"
  "afterTries e run idx err nsd ls = Inr (LoopEnded ls') \<Longrightarrow> l_executionIndex ls' = l_executionIndex ls"
  by (auto simp: afterTries_def Let_def elim!: rbind_InrE split: option.splits if_splits)

lemma runEntry_index:
  "runEntry env e run idx ls = Inr (NextIteration ls') \<Longrightarrow> l_executionIndex ls' = l_executionIndex ls"
  "runEntry env e run idx ls = Inr (LoopEnded ls') \<Longrightarrow> l_executionIndex ls' = l_executionIndex ls"
  by (auto simp: runEntry_def dest!: afterTries_index split: prod.splits sum.splits TryEnd.splits dest: tries_index)

lemma step_index:
  assumes "loop_step env ls ls'"
  shows "ls' = ls \<or> l_executionIndex ls' = Suc (l_executionIndex ls)"
  using assms
  by cases (auto simp: iteration_def Let_def elim!: rbind_InrE dest!: runEntry_index split: list.splits if_splits prod.splits)

lemma indexes_below_Suc: "indexes_below k st \<Longrightarrow> indexes_below (Suc k) st"
  by (fastforce simp: indexes_below_def)

lemma step_below:
  assumes "loop_step env ls ls'" and "indexes_below (l_executionIndex ls) (l_data ls)"
  shows "indexes_below (l_executionIndex ls') (l_data ls')"
proof (cases "ls' = ls")
  case False
  then have "l_executionIndex ls' = Suc (l_executionIndex ls)" using step_index [OF assms(1)] by simp
  moreover have "indexes_below (Suc (l_executionIndex ls)) (l_data ls) \<longrightarrow> indexes_below (Suc (l_executionIndex ls)) (l_data ls')"
    by (rule indexed.step_R [OF assms(1)]) (simp_all add: requests_only_def)
  ultimately show ?thesis using indexes_below_Suc [OF assms(2)] by simp
qed (use assms(2) in simp)

lemma steps_below:
  "(loop_step env)\<^sup>*\<^sup>* ls ls' \<Longrightarrow> indexes_below (l_executionIndex ls) (l_data ls) \<Longrightarrow> indexes_below (l_executionIndex ls') (l_data ls')"
  by (induction rule: rtranclp_induct) (auto intro: step_below)

text \<open>A new execution, and one that continues with earlier run data, starts that way.\<close>

lemma indexes_below_next: "indexes_below (getNextExecutionIndex (rx_runData st)) st"
proof -
  have "i < getNextExecutionIndex rd" if t: "t \<in> set (runs_of rd n)" "t_executionIndex t = Some i" for rd n t i
  proof -
    obtain ts where ts: "(n, ts) \<in> set rd" "t \<in> set ts"
      using t(1) by (cases "map_of rd n") (auto simp: runs_of_def dest: map_of_SomeD)
    then have i: "i \<in> set (List.map_filter t_executionIndex (concat (vals rd)))"
      using t(2) by (force simp: List.map_filter_def image_iff)
    then have "i \<le> Max (set (List.map_filter t_executionIndex (concat (vals rd))))" by simp
    moreover have "rd \<noteq> []" "List.map_filter t_executionIndex (concat (vals rd)) \<noteq> []" using ts i by auto
    ultimately show ?thesis by (simp add: getNextExecutionIndex_def Let_def)
  qed
  then show ?thesis by (simp add: indexes_below_def)
qed

section \<open>Types of the run data\<close>

text \<open>What the run data of an execution looks like: one entry per node, with at least one run, and each run
  has an execution index, is waiting, failed with an error, succeeded with data, or was requested with
  the input it is to get and has not run yet.\<close>

definition task_ok :: "ITaskData \<Rightarrow> bool" where
  "task_ok t \<longleftrightarrow> t_executionIndex t \<noteq> None \<and>
     (run_done t \<or> (t_executionStatus t = None \<and> t_inputOverride t \<noteq> None \<and> t_data t = None))"

definition run_data_ok :: "IRunData \<Rightarrow> bool" where
  "run_data_ok rd \<longleftrightarrow> distinct (map fst rd) \<and> (\<forall>ts \<in> snd ` set rd. ts \<noteq> [] \<and> (\<forall>t \<in> set ts. task_ok t))"

lemma run_data_ok_map:
  "run_data_ok rd \<longleftrightarrow> distinct (map fst rd) \<and> (\<forall>n ts. map_of rd n = Some ts \<longrightarrow> ts \<noteq> [] \<and> (\<forall>t \<in> set ts. task_ok t))"
  unfolding run_data_ok_def by (force simp: map_of_eq_Some_iff)

lemma run_data_ok_set_runs:
  "run_data_ok rd \<Longrightarrow> ts \<noteq> [] \<Longrightarrow> \<forall>t \<in> set ts. task_ok t \<Longrightarrow> run_data_ok (set_runs n ts rd)"
  unfolding run_data_ok_map set_runs_def by (auto simp: distinct_update update_conv')

lemma runs_of_ok: "run_data_ok rd \<Longrightarrow> t \<in> set (runs_of rd n) \<Longrightarrow> task_ok t"
  by (force simp: run_data_ok_def runs_of_def split: option.splits dest: map_of_SomeD)

lemma task_ok_assign: "run_done task \<Longrightarrow> t_executionIndex task \<noteq> None \<Longrightarrow> task_ok (assignTask t task)"
  by (auto simp: task_ok_def run_done_def assignTask_def split: option.splits if_splits)

lemma task_ok_requested [simp]:
  "task_ok \<lparr>t_executionIndex = Some i, t_source = s, t_executionStatus = None, t_data = None, t_inputOverride = Some x,
     t_error = e, t_metadata = m\<rparr>"
  by (simp add: task_ok_def)

interpretation typed: engine_frame "\<lambda>st st'. run_data_ok (rx_runData st) \<longrightarrow> run_data_ok (rx_runData st')" "\<lambda>_. True" "\<lambda>_ _. True"
proof unfold_locales
  show "run_data_ok (rx_runData a) \<longrightarrow> run_data_ok (rx_runData b)" if "rest_of b = rest_of a" for a b
    using rest_of_eqD [OF that] by simp
  show "run_data_ok (rx_runData a) \<longrightarrow> run_data_ok (rx_runData (recordTask n run task a))"
    if "t_executionIndex task = Some idx" "run_done task" for idx task run n a
  proof
    assume ok: "run_data_ok (rx_runData a)"
    have "task_ok task" using that by (simp add: task_ok_def)
    then show "run_data_ok (rx_runData (recordTask n run task a))"
      using task_ok_assign [OF that(2)] that(1) runs_of_ok [OF ok]
      by (auto simp: recordTask_def Let_def intro!: run_data_ok_set_runs [OF ok] dest!: set_update_subset_insert [THEN subsetD])
  qed
  show "run_data_ok (rx_runData a) \<longrightarrow> run_data_ok (rx_runData (a\<lparr>rx_runData :=
      fst (initializeNodeRunData (rx_runData a) n parent out parentRun hasParent run shown)\<rparr>))"
    for a n parent out parentRun hasParent run shown
    using runs_of_ok [of "rx_runData a" _ n]
    by (auto simp: initializeNodeRunData_def Let_def intro!: run_data_ok_set_runs)
qed auto

lemma steps_typed:
  "(loop_step env)\<^sup>*\<^sup>* ls ls' \<Longrightarrow> run_data_ok (rx_runData (l_data ls)) \<Longrightarrow> run_data_ok (rx_runData (l_data ls'))"
  using typed.steps_R [of env ls ls'] by (simp add: requests_only_def)



text \<open>C6. No run is ever lost: a run of a node stays at its place, and keeps that it has data or an error.\<close>

theorem runs_never_lost:
  assumes "(loop_step env)\<^sup>*\<^sup>* ls ls'" and "i < length (runs_of (rx_runData (l_data ls)) n)"
  shows "i < length (runs_of (rx_runData (l_data ls')) n) \<and>
    (t_data (runs_of (rx_runData (l_data ls)) n ! i) \<noteq> None \<longrightarrow> t_data (runs_of (rx_runData (l_data ls')) n ! i) \<noteq> None) \<and>
    (t_error (runs_of (rx_runData (l_data ls)) n ! i) \<noteq> None \<longrightarrow> t_error (runs_of (rx_runData (l_data ls')) n ! i) \<noteq> None)"
  using steps_keep_runs [OF assms(1)] assms(2) unfolding keeps_runs_def by blast

lemma runs_never_lost_witness:
  "\<exists>ls. (loop_step plain_env)\<^sup>*\<^sup>* (filtered_state\<lparr>l_data := (l_data filtered_state)\<lparr>rx_runData := [(''A'', [mk_task 0 []])]\<rparr>\<rparr>) ls \<and>
     length (runs_of (rx_runData (l_data ls)) ''A'') = 2 \<and> t_data (runs_of (rx_runData (l_data ls)) ''A'' ! 0) \<noteq> None"
proof -
  let ?ls = "filtered_state\<lparr>l_data := (l_data filtered_state)\<lparr>rx_runData := [(''A'', [mk_task 0 []])]\<rparr>\<rparr>"
  have "case after_steps 2 plain_env ?ls of None \<Rightarrow> False | Some ls \<Rightarrow> length (runs_of (rx_runData (l_data ls)) ''A'') = 2" by code_simp
  then obtain ls where ls: "after_steps 2 plain_env ?ls = Some ls" "length (runs_of (rx_runData (l_data ls)) ''A'') = 2"
    by (auto split: option.splits)
  have "0 < length (runs_of (rx_runData (l_data ?ls)) ''A'')" "t_data (runs_of (rx_runData (l_data ?ls)) ''A'' ! 0) \<noteq> None"
    by (simp_all add: runs_of_def mk_task_def)
  from runs_never_lost [OF after_steps_reach [OF ls(1)] this(1)] this(2) show ?thesis
    using after_steps_reach [OF ls(1)] ls(2) by blast
qed

end
