(* ===== verification/Components.thy ===== *)
theory Components
  imports Subgraph
begin

text \<open>
  Strongly connected components (\<open>getStronglyConnectedComponents\<close> of \<open>directed-graph.ts\<close>) and
  their use in \<open>handle-cycles.ts\<close> (\<open>handleCycles\<close>).
\<close>

section \<open>The algorithm\<close>

record Tarjan =
  ta_id :: nat
  ta_visited :: "INode list"
  ta_ids :: "(INode, nat) jsmap"
  ta_low :: "(INode, nat) jsmap"
  ta_stack :: "INode list"
  ta_sccs :: "INode list list"

definition enterNode :: "INode \<Rightarrow> Tarjan \<Rightarrow> Tarjan" where
  "enterNode node s = s\<lparr>ta_visited := sadd node (ta_visited s),
     ta_low := AList.update node (ta_id s) (ta_low s), ta_ids := AList.update node (ta_id s) (ta_ids s),
     ta_id := Suc (ta_id s), ta_stack := ta_stack s @ [node]\<rparr>"

text \<open>One turn of the loop over the children; \<open>follow\<close> is the recursive call.\<close>

definition followChild :: "(INode \<Rightarrow> Tarjan \<Rightarrow> Tarjan res) \<Rightarrow> INode \<Rightarrow> Tarjan \<Rightarrow> INode \<Rightarrow> Tarjan res" where
  "followChild follow node s child =
     rbind (follow child s) (\<lambda>s.
       if child \<in> set (ta_stack s)
       then case map_of (ta_low s) child of
              None \<Rightarrow> Inl AssertionError
            | Some childLowLinkValue \<Rightarrow>
                (case map_of (ta_low s) node of
                   None \<Rightarrow> Inl AssertionError
                 | Some ownLowLinkValue \<Rightarrow>
                     Inr (s\<lparr>ta_low := AList.update node (min childLowLinkValue ownLowLinkValue) (ta_low s)\<rparr>))
       else Inr s)"

text \<open>After all children: pop from the stack while the low link is the identifier of the node.\<close>

definition closeNode :: "INode \<Rightarrow> Tarjan \<Rightarrow> Tarjan res" where
  "closeNode node s =
     (case map_of (ta_ids s) node of
        None \<Rightarrow> Inl AssertionError
      | Some ownId \<Rightarrow>
          (case map_of (ta_low s) node of
             None \<Rightarrow> Inl AssertionError
           | Some ownLowLinkValue \<Rightarrow>
               if ownId = ownLowLinkValue
               then let popped = takeWhile (\<lambda>n. map_of (ta_low s) n = Some ownId) (rev (ta_stack s));
                        rest = dropWhile (\<lambda>n. map_of (ta_low s) n = Some ownId) (rev (ta_stack s))
                    in Inr (s\<lparr>ta_stack := rev rest,
                         ta_sccs := (if popped = [] then ta_sccs s else ta_sccs s @ [popped])\<rparr>)
               else Inr s))"

fun followNode :: "nat \<Rightarrow> DirectedGraph \<Rightarrow> INode \<Rightarrow> Tarjan \<Rightarrow> Tarjan res" where
  "followNode 0 g node s = Inl OutOfFuel"
| "followNode (Suc fuel) g node s =
     (if node \<in> set (ta_visited s) then Inr s
      else rbind (child_nodes g node) (\<lambda>directChildren.
           rbind (foldR (followChild (followNode fuel g) node) (enterNode node s) directChildren) (closeNode node)))"

declare followNode.simps(2) [simp del]

definition getStronglyConnectedComponents :: "DirectedGraph \<Rightarrow> INode list list res" where
  "getStronglyConnectedComponents g =
     rbind (foldR (\<lambda>s node. followNode (Suc (Suc (length (g_nodes g)))) g node s)
       \<lparr>ta_id = 0, ta_visited = [], ta_ids = [], ta_low = [], ta_stack = [], ta_sccs = []\<rparr> (vals (g_nodes g)))
       (\<lambda>s. Inr (ta_sccs s))"

section \<open>Its invariant\<close>

definition low_ok :: "DirectedGraph \<Rightarrow> Tarjan \<Rightarrow> INode \<Rightarrow> bool" where
  "low_ok g s v \<longleftrightarrow> (\<exists>k i w. map_of (ta_low s) v = Some k \<and> map_of (ta_ids s) v = Some i \<and> k \<le> i \<and>
     map_of (ta_ids s) w = Some k \<and> (v, w) \<in> (child_rel g)\<^sup>*)"

definition before :: "Tarjan \<Rightarrow> INode \<Rightarrow> INode \<Rightarrow> bool" where
  "before s u v \<longleftrightarrow> the (map_of (ta_ids s) u) < the (map_of (ta_ids s) v)"

definition strong :: "DirectedGraph \<Rightarrow> INode set \<Rightarrow> bool" where
  "strong g C \<longleftrightarrow> (\<forall>a \<in> C. \<forall>b \<in> C. (a, b) \<in> (child_rel g)\<^sup>*)"

definition ta_ok :: "DirectedGraph \<Rightarrow> Tarjan \<Rightarrow> bool" where
  "ta_ok g s \<longleftrightarrow>
     set (ta_visited s) \<subseteq> {n. is_node g n} \<and>
     (\<forall>v. map_of (ta_ids s) v \<noteq> None \<longleftrightarrow> v \<in> set (ta_visited s)) \<and>
     (\<forall>v i. map_of (ta_ids s) v = Some i \<longrightarrow> i < ta_id s) \<and>
     (\<forall>u v i. map_of (ta_ids s) u = Some i \<longrightarrow> map_of (ta_ids s) v = Some i \<longrightarrow> u = v) \<and>
     (\<forall>v \<in> set (ta_visited s). low_ok g s v) \<and>
     sorted_wrt (before s) (ta_stack s) \<and>
     distinct (concat (ta_sccs s) @ ta_stack s) \<and> set (concat (ta_sccs s) @ ta_stack s) \<subseteq> set (ta_visited s) \<and>
     (\<forall>C \<in> set (ta_sccs s). C \<noteq> [] \<and> strong g (set C))"

lemma ta_okD:
  assumes "ta_ok g s"
  shows "set (ta_visited s) \<subseteq> {n. is_node g n}"
    and "map_of (ta_ids s) v \<noteq> None \<longleftrightarrow> v \<in> set (ta_visited s)"
    and "map_of (ta_ids s) v = Some i \<Longrightarrow> i < ta_id s"
    and "map_of (ta_ids s) u = Some i \<Longrightarrow> map_of (ta_ids s) v = Some i \<Longrightarrow> u = v"
    and "v \<in> set (ta_visited s) \<Longrightarrow> low_ok g s v"
    and "sorted_wrt (before s) (ta_stack s)"
    and "distinct (concat (ta_sccs s) @ ta_stack s)" and "set (concat (ta_sccs s) @ ta_stack s) \<subseteq> set (ta_visited s)"
    and "C \<in> set (ta_sccs s) \<Longrightarrow> C \<noteq> [] \<and> strong g (set C)"
proof -
  note A = assms [unfolded ta_ok_def]
  note B = A [THEN conjunct2] and C = A [THEN conjunct2, THEN conjunct2]
  note D = C [THEN conjunct2] and E = C [THEN conjunct2, THEN conjunct2]
  note F = E [THEN conjunct2] and G = E [THEN conjunct2, THEN conjunct2]
  note H = G [THEN conjunct2]
  show "set (ta_visited s) \<subseteq> {n. is_node g n}" by (rule A [THEN conjunct1])
  show "map_of (ta_ids s) v \<noteq> None \<longleftrightarrow> v \<in> set (ta_visited s)" by (rule B [THEN conjunct1, THEN spec])
  show "map_of (ta_ids s) v = Some i \<Longrightarrow> i < ta_id s" by (rule C [THEN conjunct1, rule_format])
  show "map_of (ta_ids s) u = Some i \<Longrightarrow> map_of (ta_ids s) v = Some i \<Longrightarrow> u = v"
    by (rule D [THEN conjunct1, rule_format])
  show "v \<in> set (ta_visited s) \<Longrightarrow> low_ok g s v" by (rule E [THEN conjunct1, rule_format])
  show "sorted_wrt (before s) (ta_stack s)" by (rule F [THEN conjunct1])
  show "distinct (concat (ta_sccs s) @ ta_stack s)" by (rule G [THEN conjunct1])
  show "set (concat (ta_sccs s) @ ta_stack s) \<subseteq> set (ta_visited s)" by (rule H [THEN conjunct1])
  show "C \<in> set (ta_sccs s) \<Longrightarrow> C \<noteq> [] \<and> strong g (set C)" by (rule H [THEN conjunct2, rule_format])
qed

text \<open>What following a node leaves as it was, and what it puts on the stack.\<close>

definition ta_ext :: "DirectedGraph \<Rightarrow> INode \<Rightarrow> Tarjan \<Rightarrow> Tarjan \<Rightarrow> bool" where
  "ta_ext g node s s' \<longleftrightarrow> set (ta_visited s) \<subseteq> set (ta_visited s') \<and>
     (\<forall>v \<in> set (ta_visited s). map_of (ta_ids s') v = map_of (ta_ids s) v \<and> map_of (ta_low s') v = map_of (ta_low s) v) \<and>
     (\<exists>tops. ta_stack s' = ta_stack s @ tops \<and> (\<forall>v \<in> set tops. (node, v) \<in> (child_rel g)\<^sup>*))"

lemma enterNode_ok:
  assumes ok: "ta_ok g s" and node: "is_node g node" "node \<notin> set (ta_visited s)"
  shows "ta_ok g (enterNode node s)"
proof -
  let ?s = "enterNode node s"
  note D = ta_okD [OF ok]
  have ids: "map_of (ta_ids ?s) v = (if v = node then Some (ta_id s) else map_of (ta_ids s) v)" for v
    by (simp add: enterNode_def jsmap_simps)
  have low: "map_of (ta_low ?s) v = (if v = node then Some (ta_id s) else map_of (ta_low s) v)" for v
    by (simp add: enterNode_def jsmap_simps)
  have new: "map_of (ta_ids s) node = None" using D(2) [of node] node(2) by blast
  have on_stack: "v \<noteq> node \<and> map_of (ta_ids s) v \<noteq> None" if "v \<in> set (ta_stack s)" for v
    using that D(2) [of v] D(8) node(2) by auto
  have lows: "low_ok g ?s v" if "v \<in> set (ta_visited ?s)" for v
  proof (cases "v = node")
    case True
    then show ?thesis by (auto simp: low_ok_def ids low)
  next
    case False
    then have "low_ok g s v" using that D(5) by (auto simp: enterNode_def)
    then obtain k i w where k: "map_of (ta_low s) v = Some k" "map_of (ta_ids s) v = Some i" "k \<le> i"
        "map_of (ta_ids s) w = Some k" "(v, w) \<in> (child_rel g)\<^sup>*" unfolding low_ok_def by blast
    then have "w \<noteq> node" using new by auto
    then show ?thesis using False k unfolding low_ok_def by (intro exI [of _ k] exI [of _ i] exI [of _ w]) (simp add: ids low)
  qed
  have "sorted_wrt (before ?s) (ta_stack s)"
  proof (rule sorted_wrt_mono_rel [OF _ D(6)])
    fix u v assume "u \<in> set (ta_stack s)" "v \<in> set (ta_stack s)" "before s u v"
    then show "before ?s u v" using on_stack by (simp add: before_def ids)
  qed
  moreover have "before ?s u node" if "u \<in> set (ta_stack s)" for u
    using on_stack [OF that] D(3) [of u] by (auto simp: before_def ids)
  ultimately have sorted: "sorted_wrt (before ?s) (ta_stack ?s)"
    by (simp add: enterNode_def sorted_wrt_append)
  have "ta_sccs ?s = ta_sccs s" "ta_stack ?s = ta_stack s @ [node]" "set (ta_visited ?s) = insert node (set (ta_visited s))"
    "ta_id ?s = Suc (ta_id s)"
    by (simp_all add: enterNode_def)
  note fields = this
  have "map_of (ta_ids ?s) v \<noteq> None \<longleftrightarrow> v \<in> set (ta_visited ?s)" for v
    using D(2) [of v] by (simp add: ids fields)
  moreover have "i < ta_id ?s" if "map_of (ta_ids ?s) v = Some i" for v i
    using that D(3) [of v i] by (simp add: ids fields less_SucI split: if_splits)
  moreover have "u = v" if "map_of (ta_ids ?s) u = Some i" "map_of (ta_ids ?s) v = Some i" for u v i
    using that D(4) [of u i v] D(3) [of u i] D(3) [of v i] by (simp add: ids split: if_splits)
  moreover have "distinct (concat (ta_sccs ?s) @ ta_stack ?s)"
    using D(7,8) node(2) by (auto simp: fields)
  moreover have "set (concat (ta_sccs ?s) @ ta_stack ?s) \<subseteq> set (ta_visited ?s)"
    using D(8) by (auto simp: fields)
  ultimately show ?thesis
    using lows sorted D(1,9) node(1) unfolding ta_ok_def by (simp add: fields)
qed

text \<open>The invariant of the loop over the children of a node, entered from state \<open>s\<close>.\<close>

definition loop_ok :: "DirectedGraph \<Rightarrow> INode \<Rightarrow> Tarjan \<Rightarrow> Tarjan \<Rightarrow> bool" where
  "loop_ok g node s t \<longleftrightarrow> ta_ok g t \<and> insert node (set (ta_visited s)) \<subseteq> set (ta_visited t) \<and>
     (\<forall>v \<in> set (ta_visited s). map_of (ta_ids t) v = map_of (ta_ids s) v \<and> map_of (ta_low t) v = map_of (ta_low s) v) \<and>
     (\<exists>tops. ta_stack t = ta_stack s @ node # tops \<and> (\<forall>v \<in> set tops. (node, v) \<in> (child_rel g)\<^sup>*))"

lemma ta_ok_low:
  assumes ok: "ta_ok g t" and low: "\<And>v. v \<in> set (ta_visited t) \<Longrightarrow> low_ok g (t\<lparr>ta_low := L\<rparr>) v"
  shows "ta_ok g (t\<lparr>ta_low := L\<rparr>)"
proof -
  have "before (t\<lparr>ta_low := L\<rparr>) = before t" by (simp add: before_def fun_eq_iff)
  then show ?thesis using ok low unfolding ta_ok_def by simp
qed

lemma loop_ok_enter:
  assumes "ta_ok g s" and "is_node g node" and "node \<notin> set (ta_visited s)"
  shows "loop_ok g node s (enterNode node s)"
  using enterNode_ok [OF assms] assms(3)
  by (auto simp: loop_ok_def enterNode_def jsmap_simps intro: exI [of _ "[]"])

lemma loop_ok_ext:
  assumes loop: "loop_ok g node s t" and ok: "ta_ok g t'" and ext: "ta_ext g child t t'" and edge: "(node, child) \<in> child_rel g"
  shows "loop_ok g node s t'"
proof -
  obtain tops where tops: "ta_stack t = ta_stack s @ node # tops" "\<forall>v \<in> set tops. (node, v) \<in> (child_rel g)\<^sup>*"
    using loop unfolding loop_ok_def by blast
  obtain more where more: "ta_stack t' = ta_stack t @ more" "\<forall>v \<in> set more. (child, v) \<in> (child_rel g)\<^sup>*"
    using ext unfolding ta_ext_def by blast
  have "ta_stack t' = ta_stack s @ node # (tops @ more)" using tops(1) more(1) by simp
  moreover have "\<forall>v \<in> set (tops @ more). (node, v) \<in> (child_rel g)\<^sup>*"
    using tops(2) more(2) edge by (auto intro: converse_rtrancl_into_rtrancl)
  moreover have "insert node (set (ta_visited s)) \<subseteq> set (ta_visited t)" using loop unfolding loop_ok_def by blast
  moreover have "set (ta_visited t) \<subseteq> set (ta_visited t')" using ext unfolding ta_ext_def by blast
  moreover have "map_of (ta_ids t') v = map_of (ta_ids s) v \<and> map_of (ta_low t') v = map_of (ta_low s) v"
    if "v \<in> set (ta_visited s)" for v
  proof -
    have "v \<in> set (ta_visited t)" using that loop unfolding loop_ok_def by blast
    then show ?thesis using that ext loop unfolding loop_ok_def ta_ext_def by simp
  qed
  ultimately show ?thesis using ok unfolding loop_ok_def by (meson subset_trans)
qed

lemma followChild_ok:
  assumes rec: "\<exists>t'. follow child t = Inr t' \<and> ta_ok g t' \<and> child \<in> set (ta_visited t') \<and> ta_ext g child t t'"
    and loop: "loop_ok g node s t" and edge: "(node, child) \<in> child_rel g" and node: "node \<notin> set (ta_visited s)"
  shows "\<exists>t'. followChild follow node t child = Inr t' \<and> loop_ok g node s t'"
proof -
  obtain t' where t': "follow child t = Inr t'" "ta_ok g t'" "child \<in> set (ta_visited t')" "ta_ext g child t t'"
    using rec by blast
  have loop': "loop_ok g node s t'" by (rule loop_ok_ext [OF loop t'(2,4) edge])
  show ?thesis
  proof (cases "child \<in> set (ta_stack t')")
    case False
    then show ?thesis using t'(1) loop' by (simp add: followChild_def)
  next
    case True
    have "node \<in> set (ta_visited t')" using loop' unfolding loop_ok_def by blast
    then obtain ol i w where ol: "map_of (ta_low t') node = Some ol" "map_of (ta_ids t') node = Some i" "ol \<le> i"
        "map_of (ta_ids t') w = Some ol" "(node, w) \<in> (child_rel g)\<^sup>*"
      using ta_okD(5) [OF t'(2)] unfolding low_ok_def by blast
    obtain cl j x where cl: "map_of (ta_low t') child = Some cl" "map_of (ta_ids t') child = Some j" "cl \<le> j"
        "map_of (ta_ids t') x = Some cl" "(child, x) \<in> (child_rel g)\<^sup>*"
      using ta_okD(5) [OF t'(2) t'(3)] unfolding low_ok_def by blast
    let ?L = "AList.update node (min cl ol) (ta_low t')"
    have "low_ok g (t'\<lparr>ta_low := ?L\<rparr>) v" if "v \<in> set (ta_visited t')" for v
    proof (cases "v = node")
      case False
      then show ?thesis using ta_okD(5) [OF t'(2) that] unfolding low_ok_def by (simp add: jsmap_simps)
    next
      case v: True
      show ?thesis
      proof (cases "cl \<le> ol")
        case True
        have "(node, x) \<in> (child_rel g)\<^sup>*" using edge cl(5) by (rule converse_rtrancl_into_rtrancl)
        then show ?thesis using v ol(2,3) cl(4) True unfolding low_ok_def
          by (intro exI [of _ cl] exI [of _ i] exI [of _ x]) (simp add: jsmap_simps)
      next
        case False
        then show ?thesis using v ol unfolding low_ok_def
          by (intro exI [of _ ol] exI [of _ i] exI [of _ w]) (simp add: jsmap_simps)
      qed
    qed
    then have ok: "ta_ok g (t'\<lparr>ta_low := ?L\<rparr>)" by (rule ta_ok_low [OF t'(2)])
    have "map_of ?L v = map_of (ta_low t') v" if "v \<in> set (ta_visited s)" for v
      using that node by (auto simp: jsmap_simps)
    then have "loop_ok g node s (t'\<lparr>ta_low := ?L\<rparr>)"
      using loop' ok unfolding loop_ok_def by simp
    then show ?thesis using t'(1) True ol(1) cl(1) by (simp add: followChild_def)
  qed
qed

text \<open>Popping stops inside the part of the stack that lies tops where the node was entered.\<close>

lemma pop_above:
  assumes "\<And>x. x \<in> set xs \<Longrightarrow> \<not> P x"
  shows "takeWhile P (rev (xs @ ys)) = takeWhile P (rev ys)"
    and "rev (dropWhile P (rev (xs @ ys))) = xs @ rev (dropWhile P (rev ys))"
proof -
  have "takeWhile P zs = [] \<and> dropWhile P zs = zs" if "\<forall>x \<in> set zs. \<not> P x" for zs
    using that by (cases zs) auto
  from this [of "rev xs"] have xs: "takeWhile P (rev xs) = [] \<and> dropWhile P (rev xs) = rev xs" using assms by simp
  show "takeWhile P (rev (xs @ ys)) = takeWhile P (rev ys)"
    using xs by (simp add: takeWhile_append) (metis set_rev takeWhile_eq_all_conv)
  show "rev (dropWhile P (rev (xs @ ys))) = xs @ rev (dropWhile P (rev ys))"
    using xs by (auto simp: dropWhile_append dropWhile_eq_Nil_conv)
qed

lemma closeNode_pop:
  assumes ok: "ta_ok g t" and stack: "ta_stack t = xs @ node # tops"
    and tops: "\<forall>v \<in> set tops. (node, v) \<in> (child_rel g)\<^sup>*"
    and root: "map_of (ta_ids t) node = Some i"
    and popped: "node # tops = rest @ rev popped" "\<forall>v \<in> set popped. map_of (ta_low t) v = Some i"
  shows "ta_ok g (t\<lparr>ta_stack := xs @ rest, ta_sccs := (if popped = [] then ta_sccs t else ta_sccs t @ [popped])\<rparr>)"
    (is "ta_ok g ?t")
proof -
  note D = ta_okD [OF ok]
  have full: "ta_stack t = (xs @ rest) @ rev popped" using stack popped(1) by simp
  have before: "before ?t = before t" by (simp add: before_def fun_eq_iff)
  have low: "low_ok g ?t v \<longleftrightarrow> low_ok g t v" for v by (simp add: low_ok_def)
  have sub: "set popped \<subseteq> insert node (set tops)" 
    using arg_cong [OF popped(1), of set] by auto
  have sorted: "sorted_wrt (before t) (xs @ rest)"
    using D(6) unfolding full sorted_wrt_append [of _ "xs @ rest"] by blast
  have to_root: "(a, node) \<in> (child_rel g)\<^sup>*" if a: "a \<in> set popped" for a
  proof -
    have "a \<in> set (ta_visited t)" using D(8) a full by auto
    then obtain k w where "map_of (ta_low t) a = Some k" "map_of (ta_ids t) w = Some k" "(a, w) \<in> (child_rel g)\<^sup>*"
      using D(5) unfolding low_ok_def by blast
    moreover from this have "w = node" using popped(2) a D(4) [OF _ root] by auto
    ultimately show ?thesis by simp
  qed
  have from_root: "(node, b) \<in> (child_rel g)\<^sup>*" if "b \<in> set popped" for b using that sub tops by auto
  have "strong g (set popped)" unfolding strong_def by (intro ballI) (rule rtrancl_trans [OF to_root from_root])
  then have comps: "\<forall>C \<in> set (ta_sccs ?t). C \<noteq> [] \<and> strong g (set C)" using D(9) by auto
  have dist: "distinct (concat (ta_sccs ?t) @ ta_stack ?t)" and vis: "set (concat (ta_sccs ?t) @ ta_stack ?t) \<subseteq> set (ta_visited ?t)"
    using D(7,8) unfolding full by auto
  have fields: "ta_visited ?t = ta_visited t" "ta_ids ?t = ta_ids t" "ta_id ?t = ta_id t" "ta_stack ?t = xs @ rest"
    by simp_all
  show ?thesis
    unfolding ta_ok_def before low fields
  proof (intro conjI)
    show "\<forall>u v i. map_of (ta_ids t) u = Some i \<longrightarrow> map_of (ta_ids t) v = Some i \<longrightarrow> u = v"
      by (intro allI impI) (rule D(4))
    show "\<forall>v i. map_of (ta_ids t) v = Some i \<longrightarrow> i < ta_id t" by (intro allI impI) (rule D(3))
    show "\<forall>v. map_of (ta_ids t) v \<noteq> None \<longleftrightarrow> v \<in> set (ta_visited t)" by (intro allI) (rule D(2))
    show "\<forall>v \<in> set (ta_visited t). low_ok g t v" by (intro ballI) (rule D(5))
  qed (rule D(1) sorted dist [unfolded fields] vis [unfolded fields] comps)+
qed

lemma closeNode_ok:
  assumes loop: "loop_ok g node s t" and s: "ta_ok g s"
  shows "\<exists>t'. closeNode node t = Inr t' \<and> ta_ok g t' \<and> node \<in> set (ta_visited t') \<and> ta_ext g node s t'"
proof -
  have ok: "ta_ok g t" and node: "node \<in> set (ta_visited t)" and vis: "set (ta_visited s) \<subseteq> set (ta_visited t)"
    and agree: "\<forall>v \<in> set (ta_visited s). map_of (ta_ids t) v = map_of (ta_ids s) v \<and> map_of (ta_low t) v = map_of (ta_low s) v"
    using loop unfolding loop_ok_def by blast+
  obtain tops where stack: "ta_stack t = ta_stack s @ node # tops" and tops: "\<forall>v \<in> set tops. (node, v) \<in> (child_rel g)\<^sup>*"
    using loop unfolding loop_ok_def by blast
  obtain k i where k: "map_of (ta_low t) node = Some k" "map_of (ta_ids t) node = Some i"
    using ta_okD(5) [OF ok node] unfolding low_ok_def by blast
  show ?thesis
  proof (cases "i = k")
    case False
    have "ta_ext g node s t" unfolding ta_ext_def using vis agree stack tops
      by (intro conjI exI [of _ "node # tops"]) auto
    then show ?thesis using False k ok node by (simp add: closeNode_def)
  next
    case True
    let ?P = "\<lambda>n. map_of (ta_low t) n = Some i"
    have below: "\<not> ?P x" if x: "x \<in> set (ta_stack s)" for x
    proof -
      have "x \<in> set (ta_visited t)" using x ta_okD(8) [OF s] vis by auto
      then obtain l j where l: "map_of (ta_low t) x = Some l" "map_of (ta_ids t) x = Some j" "l \<le> j"
        using ta_okD(5) [OF ok] unfolding low_ok_def by blast
      have "before t x node" using ta_okD(6) [OF ok] x unfolding stack by (simp add: sorted_wrt_append)
      then have "j < i" using l(2) k(2) by (simp add: before_def)
      then show ?thesis using l(1,3) by simp
    qed
    let ?popped = "takeWhile ?P (rev (node # tops))" and ?rest = "rev (dropWhile ?P (rev (node # tops)))"
    let ?t = "t\<lparr>ta_stack := ta_stack s @ ?rest, ta_sccs := (if ?popped = [] then ta_sccs t else ta_sccs t @ [?popped])\<rparr>"
    have run: "closeNode node t = Inr ?t"
      using k True pop_above [of "ta_stack s" ?P "node # tops", OF below] by (simp add: closeNode_def stack Let_def del: rev.simps)
    have split: "node # tops = ?rest @ rev ?popped"
      by (metis rev_append rev_rev_ident takeWhile_dropWhile_id)
    have "\<forall>v \<in> set ?popped. map_of (ta_low t) v = Some i" by (auto dest: set_takeWhileD)
    from closeNode_pop [OF ok stack tops k(2) split this] have ok': "ta_ok g ?t" .
    have "\<forall>v \<in> set ?rest. (node, v) \<in> (child_rel g)\<^sup>*"
      using tops by (auto dest!: set_dropWhileD)
    then have "ta_ext g node s ?t" unfolding ta_ext_def using vis agree by (intro conjI exI [of _ ?rest]) auto
    then show ?thesis using run ok' node by (intro exI [of _ ?t]) simp
  qed
qed

lemma followNode_ok:
  assumes g: "graph_ok g"
  shows "is_node g node \<Longrightarrow> ta_ok g s \<Longrightarrow> card (set (vals (g_nodes g)) - set (ta_visited s)) < fuel \<Longrightarrow>
    \<exists>t. followNode fuel g node s = Inr t \<and> ta_ok g t \<and> node \<in> set (ta_visited t) \<and> ta_ext g node s t"
proof (induction fuel arbitrary: node s)
  case 0
  then show ?case by simp
next
  case (Suc fuel)
  show ?case
  proof (cases "node \<in> set (ta_visited s)")
    case True
    then show ?thesis using Suc.prems(2) by (subst followNode.simps) (simp add: ta_ext_def)
  next
    case False
    obtain cs where cs: "child_nodes g node = Inr cs" "set cs = child_rel g `` {node}"
      using Suc.prems(1) by (auto simp: graph_simps child_rel_def)
    have "node \<in> set (vals (g_nodes g))" using is_node_vals [OF g] Suc.prems(1) by blast
    then have less: "card (set (vals (g_nodes g)) - insert node (set (ta_visited s))) < fuel"
    proof -
      have "set (vals (g_nodes g)) - insert node (set (ta_visited s)) \<subset> set (vals (g_nodes g)) - set (ta_visited s)"
        using False \<open>node \<in> set (vals (g_nodes g))\<close> by (auto simp del: set_map)
      then have "card (set (vals (g_nodes g)) - insert node (set (ta_visited s))) <
          card (set (vals (g_nodes g)) - set (ta_visited s))" by (intro psubset_card_mono) simp
      then show ?thesis using Suc.prems(3) by simp
    qed
    have "\<exists>t. foldR (followChild (followNode fuel g) node) (enterNode node s) cs = Inr t \<and> loop_ok g node s t"
    proof (rule foldR_total [where P = "loop_ok g node s", OF loop_ok_enter [OF Suc.prems(2,1) False]])
      fix t child assume child: "child \<in> set cs" and t: "loop_ok g node s t"
      have edge: "(node, child) \<in> child_rel g" using child cs(2) by blast
      then have "is_node g child" using graph_okD(2) [OF g] unfolding child_rel_def by blast
      moreover have "insert node (set (ta_visited s)) \<subseteq> set (ta_visited t)" using t unfolding loop_ok_def by blast
      then have "set (vals (g_nodes g)) - set (ta_visited t) \<subseteq> set (vals (g_nodes g)) - insert node (set (ta_visited s))"
        by blast
      then have "card (set (vals (g_nodes g)) - set (ta_visited t)) \<le>
          card (set (vals (g_nodes g)) - insert node (set (ta_visited s)))" by (intro card_mono) simp_all
      then have "card (set (vals (g_nodes g)) - set (ta_visited t)) < fuel" using less by simp
      moreover have "ta_ok g t" using t unfolding loop_ok_def by blast
      ultimately show "\<exists>t'. followChild (followNode fuel g) node t child = Inr t' \<and> loop_ok g node s t'"
        using followChild_ok [OF _ t edge False] Suc.IH by blast
    qed
    then obtain t where t: "foldR (followChild (followNode fuel g) node) (enterNode node s) cs = Inr t" "loop_ok g node s t"
      by blast
    show ?thesis using closeNode_ok [OF t(2) Suc.prems(2)] t(1) cs(1) False by (subst followNode.simps) simp
  qed
qed

lemma getStronglyConnectedComponents_strong:
  assumes "graph_ok g"
  shows "\<exists>cs. getStronglyConnectedComponents g = Inr cs \<and> distinct (concat cs) \<and>
    (\<forall>C \<in> set cs. C \<noteq> [] \<and> set C \<subseteq> {n. is_node g n} \<and> strong g (set C))"
proof -
  let ?init = "\<lparr>ta_id = 0, ta_visited = [], ta_ids = [], ta_low = [], ta_stack = [], ta_sccs = []\<rparr>"
  have init: "ta_ok g ?init" by (simp add: ta_ok_def)
  have "\<exists>s. foldR (\<lambda>s node. followNode (Suc (Suc (length (g_nodes g)))) g node s) ?init (vals (g_nodes g)) = Inr s \<and> ta_ok g s"
  proof (rule foldR_total [where P = "ta_ok g", OF init])
    fix s node assume "node \<in> set (vals (g_nodes g))" and s: "ta_ok g s"
    then have node: "is_node g node" using is_node_vals [OF assms] by blast
    have "card (set (vals (g_nodes g)) - set (ta_visited s)) \<le> card (set (vals (g_nodes g)))"
      by (rule card_mono) auto
    then have "card (set (vals (g_nodes g)) - set (ta_visited s)) < Suc (Suc (length (g_nodes g)))"
      using card_vals_less [of "g_nodes g"] by linarith
    from followNode_ok [OF assms node s this]
    show "\<exists>t. followNode (Suc (Suc (length (g_nodes g)))) g node s = Inr t \<and> ta_ok g t" by blast
  qed
  then obtain s where run: "getStronglyConnectedComponents g = Inr (ta_sccs s)" and s: "ta_ok g s"
    unfolding getStronglyConnectedComponents_def by auto
  have "set C \<subseteq> {n. is_node g n}" if "C \<in> set (ta_sccs s)" for C
    using that ta_okD(1,8) [OF s] by auto
  then show ?thesis using run ta_okD(7) [OF s] ta_okD(9) [OF s] by auto
qed

text \<open>\<open>getStronglyConnectedComponents\<close> always returns, and what it reports are disjoint, non-empty
  sets of nodes that all reach each other.\<close>

theorem getStronglyConnectedComponents_sound:
  assumes "graph_ok g"
  shows "\<exists>cs. getStronglyConnectedComponents g = Inr cs \<and> distinct (concat cs) \<and>
    (\<forall>C \<in> set cs. C \<noteq> [] \<and> set C \<subseteq> {n. is_node g n} \<and> (\<forall>a \<in> set C. \<forall>b \<in> set C. (a, b) \<in> (child_rel g)\<^sup>*))"
  using getStronglyConnectedComponents_strong [OF assms] by (simp add: strong_def)

lemma getStronglyConnectedComponents_sound_witness:
  "\<exists>cs. getStronglyConnectedComponents chain_graph = Inr cs \<and> distinct (concat cs)"
  using getStronglyConnectedComponents_sound [OF chain_graph_ok] by blast

text \<open>Three nodes that reach each other through the second.\<close>

definition missed_graph :: DirectedGraph where
  "missed_graph = graph_of [gnode 0 ''A'', gnode 1 ''B'', gnode 2 ''C'']
     [gconn (gnode 0 ''A'') (gnode 1 ''B''), gconn (gnode 1 ''B'') (gnode 2 ''C''),
      gconn (gnode 2 ''C'') (gnode 1 ''B''), gconn (gnode 1 ''B'') (gnode 0 ''A'')]"

text \<open>It does not report every component: popping stops at the first node of the stack whose low
  link differs from the identifier of the root, and a node that was visited before its link to the
  root was found keeps a higher one. Here \<open>A\<close>, \<open>B\<close> and \<open>C\<close> reach each other, and nothing is
  reported at all.\<close>

theorem getStronglyConnectedComponents_misses:
  "getStronglyConnectedComponents missed_graph = Inr [] \<and> graph_ok missed_graph \<and>
   strong missed_graph {gnode 0 ''A'', gnode 1 ''B'', gnode 2 ''C''}"
proof -
  have "getStronglyConnectedComponents missed_graph = Inr []" by code_simp
  moreover have conns: "g_connections missed_graph = map (\<lambda>c. (makeKey c, c))
     [gconn (gnode 0 ''A'') (gnode 1 ''B''), gconn (gnode 1 ''B'') (gnode 2 ''C''),
      gconn (gnode 2 ''C'') (gnode 1 ''B''), gconn (gnode 1 ''B'') (gnode 0 ''A'')]"
    by (simp add: missed_graph_def graph_of_def)
  have nodes: "is_node missed_graph n \<longleftrightarrow> n \<in> {gnode 0 ''A'', gnode 1 ''B'', gnode 2 ''C''}" for n
    by (auto simp: missed_graph_def graph_of_def is_node_def addNodes_def addNode_def empty_graph_def split: if_splits)
  have "nodes_ok (g_nodes missed_graph)"
    by (simp add: missed_graph_def graph_of_def addNodes_def addNode_def empty_graph_def nodes_ok_def)
  then have "graph_ok missed_graph"
    by (intro graph_okI) (auto simp: conns nodes, auto simp: makeKey_def)
  moreover have "strong missed_graph {gnode 0 ''A'', gnode 1 ''B'', gnode 2 ''C''}"
  proof -
    have e: "(gnode 0 ''A'', gnode 1 ''B'') \<in> child_rel missed_graph" "(gnode 1 ''B'', gnode 2 ''C'') \<in> child_rel missed_graph"
        "(gnode 2 ''C'', gnode 1 ''B'') \<in> child_rel missed_graph" "(gnode 1 ''B'', gnode 0 ''A'') \<in> child_rel missed_graph"
      by (simp_all add: child_rel_def conns)
    have "(gnode 1 ''B'', n) \<in> (child_rel missed_graph)\<^sup>* \<and> (n, gnode 1 ''B'') \<in> (child_rel missed_graph)\<^sup>*"
      if "n \<in> {gnode 0 ''A'', gnode 1 ''B'', gnode 2 ''C''}" for n
      using that e by blast
    then show ?thesis unfolding strong_def by (meson rtrancl_trans)
  qed
  ultimately show ?thesis by blast
qed

end
