(* ===== verification/PartialRun.thy ===== *)
theory PartialRun
  imports EngineFrame Components
begin

text \<open>
  Starting an execution: \<open>run\<close> and \<open>runPartialWorkflow2\<close> of \<open>workflow-execute.ts\<close>, with what only they use of
  \<open>partial-execution-utils\<close> (\<open>find-trigger-for-partial-execution.ts\<close>, \<open>rewire-graph.ts\<close>,
  \<open>handle-cycles.ts\<close>) and \<open>isTool\<close> of \<open>packages/workflow/src/node-helpers.ts\<close>. They end with the state that
  the loop of \<open>EngineLoop\<close> starts from.
\<close>

section \<open>JSON.stringify\<close>

definition hex_digit :: "nat \<Rightarrow> char" where
  "hex_digit k = ''0123456789abcdef'' ! k"

definition escape_char :: "char \<Rightarrow> string" where
  "escape_char c =
     (let k = of_char c :: nat in
      if k = 34 \<or> k = 92 then [CHR 0x5C, c]
      else if k = 8 then [CHR 0x5C, CHR ''b''] else if k = 12 then [CHR 0x5C, CHR ''f'']
      else if k = 10 then [CHR 0x5C, CHR ''n''] else if k = 13 then [CHR 0x5C, CHR ''r'']
      else if k = 9 then [CHR 0x5C, CHR ''t'']
      else if k < 32 then CHR 0x5C # ''u00'' @ [hex_digit (k div 16), hex_digit (k mod 16)]
      else [c])"

definition quote :: "string \<Rightarrow> string" where
  "quote s = CHR 0x22 # concat (map escape_char s) @ [CHR 0x22]"

fun commas :: "string list \<Rightarrow> string" where
  "commas [] = []"
| "commas [s] = s"
| "commas (s # t # rest) = s @ '','' @ commas (t # rest)"

definition show_int :: "int \<Rightarrow> string" where
  "show_int i = (if i < 0 then CHR ''-'' # show_nat (nat (- i)) else show_nat (nat i))"

fun stringify :: "json \<Rightarrow> string" where
  "stringify JNull = ''null''"
| "stringify (JBool b) = (if b then ''true'' else ''false'')"
| "stringify (JNum i) = show_int i"
| "stringify (JStr s) = quote s"
| "stringify (JArr xs) = ''['' @ commas (map stringify xs) @ '']''"
| "stringify (JObj kvs) = ''{'' @ commas (map (\<lambda>kv. quote (fst kv) @ '':'' @ stringify (snd kv)) kvs) @ ''}''"

section \<open>The trigger of a partial execution\<close>

definition isTriggerNode :: "INodeType \<Rightarrow> bool" where
  "isTriggerNode nodeType \<longleftrightarrow> ''trigger'' \<in> set (nt_group nodeType)"

text \<open>The nodes above the destination with their types; both have to be there.\<close>

fun typedParents :: "Workflow \<Rightarrow> string list \<Rightarrow> (INode \<times> INodeType option) list res" where
  "typedParents workflow [] = Inr []"
| "typedParents workflow (name # names) =
     (case getNode workflow name of
        None \<Rightarrow> Inl AssertionError
      | Some node \<Rightarrow> rbind (typedParents workflow names) (\<lambda>ps.
          Inr ((node, nodeTypes workflow (n_type node) (n_typeVersion node)) # ps)))"

definition findAllParentTriggers :: "Workflow \<Rightarrow> string \<Rightarrow> INode list res" where
  "findAllParentTriggers workflow destinationNodeName =
     rbind (typedParents workflow (wf_getParentNodes workflow destinationNodeName (OfType Main) (-1))) (\<lambda>ps.
       if list_ex (\<lambda>(node, nodeType). nodeType = None) ps then Inl TypeError
       else Inr (map fst (filter (\<lambda>(node, nodeType). isTriggerNode (the nodeType)) ps)))"

definition anyReachableRootHasRunData :: "DirectedGraph \<Rightarrow> string \<Rightarrow> IRunData \<Rightarrow> bool res" where
  "anyReachableRootHasRunData graph destinationNodeName runData =
     (case map_of (g_nodes graph) destinationNodeName of
        None \<Rightarrow> Inr False
      | Some destinationNode \<Rightarrow>
          rbind (getParentConnections graph destinationNode) (\<lambda>parentConnections.
          rbind (foldR (\<lambda>rootNodes parentNode. rbind (getDirectParentConnections graph parentNode) (\<lambda>cs.
                   Inr (if cs = [] then sadd parentNode rootNodes else rootNodes)))
                 [] (to_set (map g_from parentConnections))) (\<lambda>rootNodes.
            Inr (list_ex (\<lambda>rootNode. map_of runData (n_name rootNode) \<noteq> None) rootNodes))))"

definition ends_with :: "string \<Rightarrow> string \<Rightarrow> bool" where
  "ends_with suffix s \<longleftrightarrow> length suffix \<le> length s \<and> drop (length s - length suffix) s = suffix"

definition isWebhook :: "INode \<Rightarrow> bool" where
  "isWebhook node = ends_with ''webhook'' (n_type node)"

text \<open>The comparison puts a webhook before whatever it is compared with. The sort of V8 inserts the
  elements of a short list one after the other, so that a webhook goes to the front of those before it
  and any other node to their end.\<close>

definition webhooksFirst :: "INode list \<Rightarrow> INode list" where
  "webhooksFirst nodes = foldl (\<lambda>sorted node. if isWebhook node then node # sorted else sorted @ [node]) [] nodes"

text \<open>The choice among the enabled triggers above the destination.\<close>

definition preferredTrigger :: "Workflow \<Rightarrow> IRunData \<Rightarrow> INode list \<Rightarrow> INode option" where
  "preferredTrigger workflow runData parentTriggers =
     (case find (\<lambda>trigger. map_of runData (n_name trigger) \<noteq> None) parentTriggers of
        Some trigger \<Rightarrow> Some trigger
      | None \<Rightarrow>
          (case webhooksFirst (filter (\<lambda>trigger. getPinDataOfNode workflow (n_name trigger) \<noteq> None) parentTriggers) of
             trigger # _ \<Rightarrow> Some trigger
           | [] \<Rightarrow>
               (case filter isWebhook parentTriggers of
                  trigger # _ \<Rightarrow> Some trigger
                | [] \<Rightarrow> (case parentTriggers of trigger # _ \<Rightarrow> Some trigger | [] \<Rightarrow> None))))"

definition findTriggerForPartialExecution :: "Workflow \<Rightarrow> string \<Rightarrow> IRunData \<Rightarrow> INode option res" where
  "findTriggerForPartialExecution workflow destinationNodeName runData =
     (case getNode workflow destinationNodeName of
        None \<Rightarrow> Inr None
      | Some destinationNode \<Rightarrow>
          (case nodeTypes workflow (n_type destinationNode) (n_typeVersion destinationNode) of
             None \<Rightarrow> Inl TypeError
           | Some nodeType \<Rightarrow>
               if isTriggerNode nodeType \<and> \<not> disabled destinationNode then Inr (Some destinationNode)
               else rbind (findAllParentTriggers workflow destinationNodeName) (\<lambda>triggers.
                 Inr (preferredTrigger workflow runData (filter (\<lambda>trigger. \<not> disabled trigger) triggers)))))"

section \<open>Cycles among the start nodes\<close>

definition replaceStart :: "DirectedGraph \<Rightarrow> INode \<Rightarrow> INode \<Rightarrow> INode list \<Rightarrow> INode list \<Rightarrow> INode list res" where
  "replaceStart graph trigger startNode newStartNodes cycle =
     (if startNode \<in> set cycle
      then rbind (depthFirstSearch graph trigger (\<lambda>node. node \<in> set cycle)) (\<lambda>firstNode.
        case firstNode of
          None \<Rightarrow> Inl AssertionError
        | Some node \<Rightarrow> Inr (sadd node (filter (\<lambda>n. n \<noteq> startNode) newStartNodes)))
      else Inr newStartNodes)"

definition handleCycles :: "DirectedGraph \<Rightarrow> INode list \<Rightarrow> INode \<Rightarrow> INode list res" where
  "handleCycles graph startNodes trigger =
     rbind (getStronglyConnectedComponents graph) (\<lambda>components.
       let cycles = filter (\<lambda>cycle. length cycle \<ge> 1) components in
       if cycles = [] then Inr startNodes
       else foldR (\<lambda>newStartNodes startNode. foldR (replaceStart graph trigger startNode) newStartNodes cycles)
              startNodes startNodes)"

section \<open>Tools\<close>

record AiAgentRequest =
  ag_query :: "(string, json) jsmap"
  ag_toolName :: string

definition TOOL_EXECUTOR_NODE_NAME :: string where
  "TOOL_EXECUTOR_NODE_NAME = ''PartialExecutionToolExecutor''"

fun contains :: "string \<Rightarrow> string \<Rightarrow> bool" where
  "contains sub [] = (sub = [])"
| "contains sub (c # s) = (take (length sub) (c # s) = sub \<or> contains sub s)"

text \<open>The loop over static outputs: the first output given as a type decides.\<close>

fun toolOutput :: "NodeOutput list \<Rightarrow> bool" where
  "toolOutput [] = False"
| "toolOutput (OutType t # outputs) = (t = AiTool)"
| "toolOutput (OutConfiguration t # outputs) = (t = AiTool \<or> toolOutput outputs)"

definition isTool :: "INodeType \<Rightarrow> (string, json) jsmap \<Rightarrow> bool" where
  "isTool nodeType parameters =
     (if contains ''vectorStore'' (nt_name nodeType) then map_of parameters ''mode'' = Some (JStr ''retrieve-as-tool'')
      else (case nt_outputs nodeType of None \<Rightarrow> False | Some outputs \<Rightarrow> toolOutput outputs))"

text \<open>The node that runs a tool in place of the agent; a new object.\<close>

definition toolExecutor :: "DirectedGraph \<Rightarrow> INode \<Rightarrow> INode \<Rightarrow> AiAgentRequest option \<Rightarrow> INode" where
  "toolExecutor graph tool rootNode agentRequest =
     (mk_node (Suc (foldl max 0 (map n_ref (vals (g_nodes graph))))) TOOL_EXECUTOR_NODE_NAME ''@n8n/n8n-nodes-langchain.toolExecutor'')
       \<lparr>n_id := n_id rootNode, n_typeVersion := 0, n_disabled := Some False,
        n_parameters := [(''query'', JStr (stringify (JObj (case agentRequest of None \<Rightarrow> [] | Some r \<Rightarrow> ag_query r)))),
          (''toolName'', JStr (case agentRequest of None \<Rightarrow> [] | Some r \<Rightarrow> ag_toolName r)),
          (''node'', JStr (n_name tool))]\<rparr>"

text \<open>\<open>tool.rewireOutputLogTo = type\<close>, seen wherever the graph holds the object.\<close>

definition setRewire :: "INode \<Rightarrow> NodeConnectionType \<Rightarrow> DirectedGraph \<Rightarrow> DirectedGraph" where
  "setRewire tool type graph =
     (let written = (\<lambda>node. if node = tool then tool\<lparr>n_rewireOutputLogTo := Some type\<rparr> else node)
      in graph\<lparr>g_nodes := map (\<lambda>(k, node). (k, written node)) (g_nodes graph),
              g_connections := map (\<lambda>(k, c). (k, c\<lparr>g_from := written (g_from c), g_to := written (g_to c)\<rparr>)) (g_connections graph)\<rparr>)"

definition rewireGraph :: "INode \<Rightarrow> DirectedGraph \<Rightarrow> AiAgentRequest option \<Rightarrow> DirectedGraph res" where
  "rewireGraph tool graph agentRequest =
     rbind (clone graph) (\<lambda>modifiedGraph.
     rbind (getChildren modifiedGraph tool) (\<lambda>children.
       if children = [] then Inr graph
       else let rootNode = last children in
         rbind (getDirectParentConnections modifiedGraph rootNode) (\<lambda>incoming.
           let executor = toolExecutor modifiedGraph tool rootNode agentRequest;
               tool' = tool\<lparr>n_rewireOutputLogTo := Some AiTool\<rparr>;
               written = (\<lambda>node. if node = tool then tool' else node);
               g = setRewire tool AiTool (addNode executor modifiedGraph) in
           rbind (addConnection (connectionInput tool' executor (Some AiTool) None None) g) (\<lambda>g.
           rbind (foldR (\<lambda>g c. addConnection (connectionInput (written (g_from c)) executor (Some (g_type c)) None None) g) g
                   (filter (\<lambda>c. g_type c = Main) incoming)) (\<lambda>g.
             Inr (removeNode (written rootNode) g))))))"

section \<open>run and runPartialWorkflow2\<close>

definition createRunExecutionData ::
  "IExecuteData list \<Rightarrow> IWaitingForExecution \<Rightarrow> IWaitingForExecutionSource \<Rightarrow> IRunData \<Rightarrow> IPinData option \<Rightarrow>
   string list option \<Rightarrow> IDestinationNode option \<Rightarrow> RunExecutionData" where
  "createRunExecutionData stack waiting sources runData pins runNodeFilter destinationNode =
     \<lparr>rx_stack = stack, rx_waiting = waiting, rx_waitingSource = Some sources, rx_runData = runData, rx_pinData = pins,
      rx_lastNodeExecuted = None, rx_error = None, rx_runNodeFilter = runNodeFilter, rx_destinationNode = destinationNode,
      rx_waitTill = None, rx_metadata = Some []\<rparr>"

definition runFilter :: "Workflow \<Rightarrow> IDestinationNode \<Rightarrow> string list option \<Rightarrow> string list" where
  "runFilter workflow destinationNode additionalRunFilterNodes =
     to_set (wf_getParentNodes workflow (d_nodeName destinationNode) (OfType Main) (-1) @
       wf_getParentNodes workflow (d_nodeName destinationNode) ALL_NON_MAIN (-1) @
       (if d_mode destinationNode = Inclusive then [d_nodeName destinationNode] else []) @
       case_option [] (\<lambda>l. l) additionalRunFilterNodes)"

definition runWorkflow ::
  "Workflow \<Rightarrow> INode option \<Rightarrow> IDestinationNode option \<Rightarrow> IPinData option \<Rightarrow> IInputConnections option \<Rightarrow> string list option \<Rightarrow>
   RunExecutionData res" where
  "runWorkflow workflow startNode destinationNode pins triggerData additionalRunFilterNodes =
     rbind (case startNode of Some node \<Rightarrow> Inr (Some node) | None \<Rightarrow> getStartNode workflow (map_option d_nodeName destinationNode)) (\<lambda>startNode.
       case startNode of
         None \<Rightarrow> Inl (ApplicationError ''No node to start the workflow from could be found'')
       | Some node \<Rightarrow> Inr (createRunExecutionData
           [\<lparr>e_node = node, e_data = (case triggerData of Some d \<Rightarrow> d | None \<Rightarrow> [(Main, [Val [empty_item]])]),
             e_source = None, e_runIndex = None, e_metadata = None\<rparr>] [] [] [] pins
           (map_option (\<lambda>d. runFilter workflow d additionalRunFilterNodes) destinationNode) destinationNode))"

text \<open>The workflow and the destination, rewired to the executor if the destination is a tool.\<close>

definition rewiredForTool ::
  "Workflow \<Rightarrow> INode \<Rightarrow> IDestinationNode \<Rightarrow> AiAgentRequest option \<Rightarrow> (DirectedGraph \<times> Workflow \<times> INode \<times> IDestinationNode) res" where
  "rewiredForTool workflow destination destinationNode agentRequest =
     rbind (fromWorkflow workflow) (\<lambda>graph.
       case nodeTypes workflow (n_type destination) (n_typeVersion destination) of
         None \<Rightarrow> Inl TypeError
       | Some nodeType \<Rightarrow>
           if \<not> isTool nodeType (n_parameters destination) then Inr (graph, workflow, destination, destinationNode)
           else rbind (rewireGraph destination graph agentRequest) (\<lambda>graph.
             rbind (toWorkflow (w_id workflow) (nodeTypes workflow) (executionOrder workflow) (pinData workflow) graph) (\<lambda>workflow.
               case getNode workflow TOOL_EXECUTOR_NODE_NAME of
                 None \<Rightarrow> Inl (OperationalError ''ToolExecutor can not be found'')
               | Some executor \<Rightarrow> Inr (graph, workflow, executor, \<lparr>d_nodeName = n_name executor, d_mode = Inclusive\<rparr>))))"

text \<open>The trigger, or else the closest node above the destination with run data.\<close>

definition partialTrigger :: "Workflow \<Rightarrow> string \<Rightarrow> IRunData \<Rightarrow> INode res" where
  "partialTrigger workflow destinationName runData =
     rbind (findTriggerForPartialExecution workflow destinationName runData) (\<lambda>trigger.
       case trigger of
         Some node \<Rightarrow> Inr node
       | None \<Rightarrow>
           (case Option.bind (find (\<lambda>name. map_of runData name \<noteq> None)
                   (wf_getParentNodes workflow destinationName (OfType Main) (-1))) (getNode workflow) of
              None \<Rightarrow> Inl (UserError ''Connect a trigger to run this node'')
            | Some node \<Rightarrow> Inr node))"

text \<open>The workflow that is executed, the state it is executed from, and the next execution index.\<close>

definition runPartialWorkflow2 ::
  "(string \<Rightarrow> string \<Rightarrow> int) \<Rightarrow> Workflow \<Rightarrow> IRunData \<Rightarrow> IPinData \<Rightarrow> string list \<Rightarrow> IDestinationNode \<Rightarrow> AiAgentRequest option \<Rightarrow>
   (Workflow \<times> RunExecutionData \<times> nat) res" where
  "runPartialWorkflow2 localeCompare workflow runData pins dirtyNodeNames destinationNode agentRequest =
     (case getNode workflow (d_nodeName destinationNode) of
        None \<Rightarrow> Inl AssertionError
      | Some destination \<Rightarrow>
          rbind (rewiredForTool workflow destination destinationNode agentRequest) (\<lambda>(graph, workflow, destination, destinationNode).
          rbind (partialTrigger workflow (d_nodeName destinationNode) runData) (\<lambda>trigger.
          rbind (filterDisabledNodes graph) (\<lambda>filteredGraph.
          rbind (findSubgraph filteredGraph destination trigger) (\<lambda>graph.
          rbind (cleanRunData runData graph (getNodesByNames graph dirtyNodeNames)) (\<lambda>runData.
          rbind (findStartNodes graph trigger destination pins runData) (\<lambda>startNodes.
          rbind (handleCycles graph startNodes trigger) (\<lambda>startNodes.
          rbind (cleanRunData runData graph startNodes) (\<lambda>runData.
          rbind (recreateNodeExecutionStack localeCompare graph startNodes runData pins) (\<lambda>(stack, waiting, sources).
            Inr (workflow, createRunExecutionData stack waiting sources runData (Some pins)
              (Some (map n_name (vals (g_nodes graph)))) (Some destinationNode), getNextExecutionIndex runData)))))))))))"

section \<open>The trigger that is found\<close>

text \<open>An enabled trigger that is the destination or above it.\<close>

definition trigger_for :: "Workflow \<Rightarrow> string \<Rightarrow> INode \<Rightarrow> bool" where
  "trigger_for w destination t \<longleftrightarrow> \<not> disabled t \<and>
     (\<exists>name nt. (name = destination \<or> name \<in> set (wf_getParentNodes w destination (OfType Main) (-1))) \<and>
        getNode w name = Some t \<and> nodeTypes w (n_type t) (n_typeVersion t) = Some nt \<and> isTriggerNode nt)"

lemma typedParents_all:
  assumes "\<forall>name \<in> set names. getNode w name \<noteq> None"
  shows "\<exists>ps. typedParents w names = Inr ps \<and>
    set ps = {(node, nodeTypes w (n_type node) (n_typeVersion node)) | node. \<exists>name \<in> set names. getNode w name = Some node}"
  using assms
proof (induction names)
  case (Cons name names)
  then obtain ps where "typedParents w names = Inr ps" "set ps = {(node, nodeTypes w (n_type node) (n_typeVersion node)) | node.
      \<exists>name \<in> set names. getNode w name = Some node}" by auto
  moreover obtain node where "getNode w name = Some node" using Cons.prems by auto
  ultimately show ?case by auto
qed simp

lemma types_knownD: "types_known w \<Longrightarrow> getNode w n = Some t \<Longrightarrow> nodeTypes w (n_type t) (n_typeVersion t) \<noteq> None"
  unfolding types_known_def by blast

lemma findAllParentTriggers_all:
  assumes "types_known w" and "\<forall>p \<in> set (wf_getParentNodes w d (OfType Main) (-1)). getNode w p \<noteq> None"
  shows "\<exists>ts. findAllParentTriggers w d = Inr ts \<and>
    set ts = {t. \<exists>p \<in> set (wf_getParentNodes w d (OfType Main) (-1)). getNode w p = Some t \<and>
      (\<exists>nt. nodeTypes w (n_type t) (n_typeVersion t) = Some nt \<and> isTriggerNode nt)}"
proof -
  obtain ps where ps: "typedParents w (wf_getParentNodes w d (OfType Main) (-1)) = Inr ps"
      "set ps = {(node, nodeTypes w (n_type node) (n_typeVersion node)) | node.
        \<exists>p \<in> set (wf_getParentNodes w d (OfType Main) (-1)). getNode w p = Some node}"
    using typedParents_all [OF assms(2)] by blast
  have "\<forall>(node, nodeType) \<in> set ps. nodeType \<noteq> None" using ps(2) assms(1) by (auto simp: types_known_def)
  then have "findAllParentTriggers w d = Inr (map fst (filter (\<lambda>(node, nodeType). isTriggerNode (the nodeType)) ps))"
    unfolding findAllParentTriggers_def ps(1) by (auto simp: list_ex_iff)
  moreover have "set (map fst (filter (\<lambda>(node, nodeType). isTriggerNode (the nodeType)) ps)) =
      {t. \<exists>nodeType. (t, nodeType) \<in> set ps \<and> isTriggerNode (the nodeType)}" by force
  moreover have "(\<exists>nodeType. (t, nodeType) \<in> set ps \<and> isTriggerNode (the nodeType)) \<longleftrightarrow>
      (\<exists>p \<in> set (wf_getParentNodes w d (OfType Main) (-1)). getNode w p = Some t \<and>
        (\<exists>nt. nodeTypes w (n_type t) (n_typeVersion t) = Some nt \<and> isTriggerNode nt))" for t
    by (cases "nodeTypes w (n_type t) (n_typeVersion t)") (auto simp: ps(2) dest: types_knownD [OF assms(1)])
  ultimately show ?thesis by blast
qed

lemma set_webhooksFirst [simp]: "set (webhooksFirst nodes) = set nodes"
proof -
  have "set (webhooksFirst nodes) = set [] \<union> (\<Union>n \<in> set nodes. {n})"
    unfolding webhooksFirst_def by (rule set_foldl_union) auto
  then show ?thesis by simp
qed

lemma preferredTrigger_choice:
  "case preferredTrigger w runData ts of
     None \<Rightarrow> ts = []
   | Some t \<Rightarrow> t \<in> set ts \<and> ((\<exists>u \<in> set ts. map_of runData (n_name u) \<noteq> None) \<longrightarrow> map_of runData (n_name t) \<noteq> None)"
proof (cases "find (\<lambda>trigger. map_of runData (n_name trigger) \<noteq> None) ts")
  case (Some t)
  then have "preferredTrigger w runData ts = Some t" by (simp only: preferredTrigger_def option.case)
  moreover have "t \<in> set ts" "map_of runData (n_name t) \<noteq> None" using Some by (auto simp: find_Some_iff)
  ultimately show ?thesis by simp
next
  case None
  then have none: "\<forall>u \<in> set ts. map_of runData (n_name u) = None" by (auto simp: find_None_iff)
  let ?pinned = "filter (\<lambda>trigger. getPinDataOfNode w (n_name trigger) \<noteq> None) ts"
  show ?thesis
  proof (cases "webhooksFirst ?pinned")
    case (Cons t rest)
    then have "t \<in> set ?pinned" using set_webhooksFirst [of ?pinned] by (metis list.set_intros(1))
    then show ?thesis using None Cons none by (auto simp: preferredTrigger_def)
  next
    case Nil
    show ?thesis
    proof (cases "filter isWebhook ts")
      case (Cons t rest)
      then have "t \<in> set (filter isWebhook ts)" by simp
      then have "t \<in> set ts" by simp
      then show ?thesis using None Nil Cons none by (auto simp: preferredTrigger_def)
    next
      case Nil': Nil
      show ?thesis using None Nil Nil' none by (cases ts) (auto simp: preferredTrigger_def)
    qed
  qed
qed

text \<open>A partial execution starts from an enabled trigger if there is one, the destination or a node above
  it; unless the destination itself is a trigger, one with run data is preferred.\<close>

theorem findTrigger_correct:
  assumes "types_known w" and "getNode w d = Some destination"
    and "\<forall>p \<in> set (wf_getParentNodes w d (OfType Main) (-1)). getNode w p \<noteq> None"
  shows "\<exists>found. findTriggerForPartialExecution w d runData = Inr found \<and>
    (case found of
       None \<Rightarrow> \<forall>t. \<not> trigger_for w d t
     | Some t \<Rightarrow> trigger_for w d t \<and>
         (t = destination \<or> ((\<exists>u. trigger_for w d u \<and> map_of runData (n_name u) \<noteq> None) \<longrightarrow> map_of runData (n_name t) \<noteq> None)))"
proof -
  obtain nt where nt: "nodeTypes w (n_type destination) (n_typeVersion destination) = Some nt"
    using assms(1,2) by (auto simp: types_known_def)
  show ?thesis
  proof (cases "isTriggerNode nt \<and> \<not> disabled destination")
    case True
    then have "trigger_for w d destination" using assms(2) nt by (auto simp: trigger_for_def)
    then show ?thesis using True assms(2) nt by (auto simp: findTriggerForPartialExecution_def)
  next
    case False
    obtain ts where ts: "findAllParentTriggers w d = Inr ts"
        "set ts = {t. \<exists>p \<in> set (wf_getParentNodes w d (OfType Main) (-1)). getNode w p = Some t \<and>
          (\<exists>nt. nodeTypes w (n_type t) (n_typeVersion t) = Some nt \<and> isTriggerNode nt)}"
      using findAllParentTriggers_all [OF assms(1,3)] by blast
    let ?ts = "filter (\<lambda>trigger. \<not> disabled trigger) ts"
    have all: "set ?ts = {t. trigger_for w d t}" using ts(2) False nt assms(2) by (auto simp: trigger_for_def)
    have "findTriggerForPartialExecution w d runData = Inr (preferredTrigger w runData ?ts)"
      using assms(2) nt ts(1) by (simp only: findTriggerForPartialExecution_def option.case if_not_P [OF False] rbind_Inr)
    moreover have "case preferredTrigger w runData us of None \<Rightarrow> \<forall>t. \<not> trigger_for w d t
      | Some t \<Rightarrow> trigger_for w d t \<and> ((\<exists>u. trigger_for w d u \<and> map_of runData (n_name u) \<noteq> None) \<longrightarrow> map_of runData (n_name t) \<noteq> None)"
      if "set us = {t. trigger_for w d t}" for us
      using preferredTrigger_choice [where w = w and runData = runData and ts = us] that by (auto split: option.splits)
    from this [OF all] have "case preferredTrigger w runData ?ts of None \<Rightarrow> \<forall>t. \<not> trigger_for w d t
      | Some t \<Rightarrow> trigger_for w d t \<and> ((\<exists>u. trigger_for w d u \<and> map_of runData (n_name u) \<noteq> None) \<longrightarrow> map_of runData (n_name t) \<noteq> None)" .
    ultimately show ?thesis by (intro exI [of _ "preferredTrigger w runData ?ts"]) (auto split: option.splits)
  qed
qed

text \<open>A trigger \<open>T\<close> with \<open>A\<close> behind it.\<close>

definition triggered :: Workflow where
  "triggered = new_Workflow ''1'' [mk_node 0 ''T'' ''trigger'', mk_node 1 ''A'' ''t'']
     [(''T'', [(Main, [Some [\<lparr>c_node = ''A'', c_type = Main, c_index = 0\<rparr>]])])]
     (\<lambda>ty _. Some (flaky_type\<lparr>nt_group := if ty = ''trigger'' then [''trigger''] else []\<rparr>)) (Some ''v1'') None"

lemma triggered_facts:
  "types_known triggered" "getNode triggered ''A'' = Some (mk_node 1 ''A'' ''t'')"
  "wf_getParentNodes triggered ''A'' (OfType Main) (-1) = [''T'']" "getNode triggered ''T'' = Some (mk_node 0 ''T'' ''trigger'')"
  by (simp add: types_known_def triggered_def new_Workflow_def setSettings_def setPinData_def setConnections_def setNodes_def)
    code_simp+

lemma findTrigger_correct_witness:
  "findTriggerForPartialExecution triggered ''A'' [] = Inr (Some (mk_node 0 ''T'' ''trigger'')) \<and>
   trigger_for triggered ''A'' (mk_node 0 ''T'' ''trigger'')"
proof -
  have "\<forall>p \<in> set (wf_getParentNodes triggered ''A'' (OfType Main) (-1)). getNode triggered p \<noteq> None"
    by (simp add: triggered_facts)
  moreover have "findTriggerForPartialExecution triggered ''A'' [] = Inr (Some (mk_node 0 ''T'' ''trigger''))" by code_simp
  ultimately show ?thesis using findTrigger_correct [OF triggered_facts(1,2), of "[]"] by auto
qed

section \<open>Start nodes and cycles\<close>

text \<open>What becomes of a start node: the first node of its cycle on the way from the trigger.\<close>

definition cycle_start :: "DirectedGraph \<Rightarrow> INode \<Rightarrow> INode list list \<Rightarrow> INode \<Rightarrow> INode" where
  "cycle_start g trigger cycles s =
     (case find (\<lambda>cycle. s \<in> set cycle) cycles of
        None \<Rightarrow> s
      | Some cycle \<Rightarrow> (case depthFirstSearch g trigger (\<lambda>node. node \<in> set cycle) of Inr (Some node) \<Rightarrow> node | _ \<Rightarrow> s))"

lemma find_disjoint:
  "distinct (concat cs) \<Longrightarrow> C \<in> set cs \<Longrightarrow> s \<in> set C \<Longrightarrow> find (\<lambda>C. s \<in> set C) cs = Some C"
  by (induction cs) auto

lemma find_SomeD: "find P xs = Some x \<Longrightarrow> x \<in> set xs \<and> P x"
  by (auto simp: find_Some_iff)

lemma replaceStart_other:
  "\<forall>C \<in> set cs. s \<notin> set C \<Longrightarrow> foldR (replaceStart g trigger s) new cs = Inr new"
  by (induction cs) (auto simp: replaceStart_def)

lemma replaceStart_all:
  assumes "distinct (concat cs)"
    and "\<And>C. C \<in> set cs \<Longrightarrow> s \<in> set C \<Longrightarrow> \<exists>f. depthFirstSearch g trigger (\<lambda>node. node \<in> set C) = Inr (Some f)"
  shows "foldR (replaceStart g trigger s) new cs = Inr (if find (\<lambda>C. s \<in> set C) cs = None then new
    else sadd (cycle_start g trigger cs s) (filter (\<lambda>n. n \<noteq> s) new))"
  using assms
proof (induction cs)
  case (Cons C cs)
  show ?case
  proof (cases "s \<in> set C")
    case True
    then obtain f where f: "depthFirstSearch g trigger (\<lambda>node. node \<in> set C) = Inr (Some f)" using Cons.prems(2) [of C] by auto
    have "\<forall>D \<in> set cs. s \<notin> set D" using Cons.prems(1) True by auto
    moreover have "replaceStart g trigger s new C = Inr (sadd f (filter (\<lambda>n. n \<noteq> s) new))"
      using True f by (simp add: replaceStart_def)
    moreover have "cycle_start g trigger (C # cs) s = f" using True f by (simp add: cycle_start_def)
    ultimately show ?thesis using True by (simp add: replaceStart_other)
  next
    case False
    have "cycle_start g trigger (C # cs) s = cycle_start g trigger cs s" using False by (simp add: cycle_start_def)
    then show ?thesis using Cons False by (simp add: replaceStart_def)
  qed
qed (simp add: cycle_start_def)

lemma swap_member: "(s \<in> A \<longrightarrow> f = s) \<Longrightarrow> insert f (A \<union> (S - P) - {s}) = insert f A \<union> (S - insert s P)"
  by auto

lemma foldl_same: "foldl (\<lambda>s x. s) a xs = a"
  by (induction xs) simp_all

lemma handleCycles_prefix:
  assumes cs: "distinct (concat cs)"
    and dfs: "\<And>s C. s \<in> set S \<Longrightarrow> C \<in> set cs \<Longrightarrow> s \<in> set C \<Longrightarrow>
      \<exists>f. depthFirstSearch g trigger (\<lambda>node. node \<in> set C) = Inr (Some f) \<and> f \<in> set C"
    and "set P \<subseteq> set S" and "distinct P"
  shows "\<exists>new. foldR (\<lambda>new s. foldR (replaceStart g trigger s) new cs) S P = Inr new \<and>
    set new = cycle_start g trigger cs ` set P \<union> (set S - set P)"
  using assms(3,4)
proof (induction P rule: rev_induct)
  case (snoc s P)
  let ?F = "cycle_start g trigger cs"
  obtain new where new: "foldR (\<lambda>new s. foldR (replaceStart g trigger s) new cs) S P = Inr new"
      "set new = ?F ` set P \<union> (set S - set P)" using snoc by auto
  have s: "s \<in> set S" "s \<notin> set P" using snoc.prems by auto
  have step: "foldR (replaceStart g trigger s) new cs = Inr (if find (\<lambda>C. s \<in> set C) cs = None then new
      else sadd (?F s) (filter (\<lambda>n. n \<noteq> s) new))"
    using replaceStart_all [OF cs, of s g trigger new] dfs [OF s(1)] by blast
  show ?case
  proof (cases "find (\<lambda>C. s \<in> set C) cs")
    case None
    then have "?F s = s" by (simp add: cycle_start_def)
    then show ?thesis using new step None s by (auto simp: foldR_append)
  next
    case (Some C)
    have "?F s = s" if p: "p \<in> set P" "?F p = s" for p
    proof (cases "find (\<lambda>C. p \<in> set C) cs")
      case None
      then show ?thesis using p s(2) by (simp add: cycle_start_def)
    next
      case (Some D)
      then have D: "D \<in> set cs" "p \<in> set D" using find_SomeD by fastforce+
      then obtain f where f: "depthFirstSearch g trigger (\<lambda>node. node \<in> set D) = Inr (Some f)" "f \<in> set D"
        using dfs [of p D] p(1) snoc.prems(1) by auto
      have "f = s" using p(2) Some f(1) by (simp add: cycle_start_def)
      then have "find (\<lambda>C. s \<in> set C) cs = Some D" using find_disjoint [OF cs D(1)] f(2) by simp
      then show ?thesis using f(1) \<open>f = s\<close> by (simp add: cycle_start_def)
    qed
    then have "s \<in> ?F ` set P \<longrightarrow> ?F s = s" by blast
    then have "insert (?F s) (?F ` set P \<union> (set S - set P) - {s}) = insert (?F s) (?F ` set P) \<union> (set S - insert s (set P))"
      by (rule swap_member)
    then have "set (sadd (?F s) (filter (\<lambda>n. n \<noteq> s) new)) = ?F ` set (P @ [s]) \<union> (set S - set (P @ [s]))"
      using new(2) by (simp add: set_diff_eq)
    then show ?thesis using new(1) step Some by (simp add: foldR_append)
  qed
qed simp

text \<open>\<open>handleCycles\<close> puts in the place of each start node the first node of its reported cycle that the trigger
  leads to, and keeps those outside of all reported cycles. It does not fail when the trigger leads to
  all start nodes.\<close>

theorem handleCycles_correct:
  assumes g: "graph_ok g" and trigger: "is_node g trigger" and "distinct startNodes"
    and reach: "\<forall>s \<in> set startNodes. (trigger, s) \<in> (child_rel g)\<^sup>*"
  shows "\<exists>cs new. getStronglyConnectedComponents g = Inr cs \<and> handleCycles g startNodes trigger = Inr new \<and>
    set new = cycle_start g trigger cs ` set startNodes \<and>
    (\<forall>s \<in> set startNodes. strong g {s, cycle_start g trigger cs s} \<and> (trigger, cycle_start g trigger cs s) \<in> (child_rel g)\<^sup>*)"
proof -
  obtain cs where cs: "getStronglyConnectedComponents g = Inr cs" "distinct (concat cs)"
      "\<forall>C \<in> set cs. C \<noteq> [] \<and> set C \<subseteq> {n. is_node g n} \<and> strong g (set C)"
    using getStronglyConnectedComponents_strong [OF g] by blast
  have dfs: "\<exists>f. depthFirstSearch g trigger (\<lambda>node. node \<in> set C) = Inr (Some f) \<and> f \<in> set C \<and> (trigger, f) \<in> (child_rel g)\<^sup>*"
    if "s \<in> set startNodes" "C \<in> set cs" "s \<in> set C" for s C
    using depthFirstSearch_found [OF g trigger, of "\<lambda>node. node \<in> set C"] reach that by (fastforce split: option.splits)
  have keep: "filter (\<lambda>cycle. length cycle \<ge> 1) cs = cs"
    using cs(3) by (auto simp: filter_id_conv Suc_le_eq)
  obtain new where new: "foldR (\<lambda>new s. foldR (replaceStart g trigger s) new cs) startNodes startNodes = Inr new"
      "set new = cycle_start g trigger cs ` set startNodes"
    using handleCycles_prefix [OF cs(2), of startNodes g trigger startNodes] dfs assms(3) by fastforce
  have "handleCycles g startNodes trigger = Inr new"
    using new(1) unfolding handleCycles_def cs(1) rbind_Inr keep Let_def by (cases "cs = []") (simp_all add: foldl_same)
  moreover have "strong g {s, cycle_start g trigger cs s} \<and> (trigger, cycle_start g trigger cs s) \<in> (child_rel g)\<^sup>*"
    if s: "s \<in> set startNodes" for s
  proof (cases "find (\<lambda>C. s \<in> set C) cs")
    case None
    then show ?thesis using reach s by (simp add: cycle_start_def strong_def)
  next
    case (Some C)
    then have "C \<in> set cs" "s \<in> set C" using find_SomeD by fastforce+
    with dfs [OF s this] cs(3) Some show ?thesis by (auto simp: cycle_start_def strong_def)
  qed
  ultimately show ?thesis using cs(1) new(2) by blast
qed

lemma handleCycles_correct_witness:
  "\<exists>new. handleCycles chain_graph [gnode 1 ''B''] (gnode 0 ''A'') = Inr new \<and> length new \<ge> 1"
proof -
  have "(gnode 0 ''A'', gnode 1 ''B'') \<in> (child_rel chain_graph)\<^sup>*" by (simp add: chain_rel r_into_rtrancl)
  then obtain cs new where new: "handleCycles chain_graph [gnode 1 ''B''] (gnode 0 ''A'') = Inr new"
      "set new = cycle_start chain_graph (gnode 0 ''A'') cs ` {gnode 1 ''B''}"
    using handleCycles_correct [OF chain_graph_ok chain_graph_A, of "[gnode 1 ''B'']"] by auto
  then show ?thesis by (cases new) auto
qed

section \<open>A partial execution stays in its subgraph\<close>

lemma cleanRunData_nodes:
  assumes "cleanRunData runData g ns = Inr rd" and "map_of rd m \<noteq> None"
  shows "hasNode g m"
proof -
  have del: "map_of (foldl (\<lambda>rd n. if hasNode g n then rd else AList.delete n rd) rd0 names) m =
      (if m \<in> set names \<and> \<not> hasNode g m then None else map_of rd0 m)" for rd0 names
    by (induction names arbitrary: rd0) (auto simp: delete_conv')
  from assms(1) obtain rd0 where "foldR (cleanBelow g) runData ns = Inr rd0"
      "rd = foldl (\<lambda>rd n. if hasNode g n then rd else AList.delete n rd) rd0 (map fst rd0)"
    by (auto simp: cleanRunData_def elim!: rbind_InrE)
  then show ?thesis using del [of rd0 "map fst rd0"] assms(2) by (metis map_of_eq_None_iff list.set_map)
qed

text \<open>A subgraph is built by adding nodes, so each is filed under its own name.\<close>

lemma addWithNodes_filed: "addWithNodes c g = Inr g' \<Longrightarrow> nodes_ok (g_nodes g) \<Longrightarrow> nodes_ok (g_nodes g')"
  by (auto simp: addWithNodes_def addConnection_def addNodes_def addNode_def nodes_ok_update elim!: rbind_InrE)

lemma findSubgraphRecursive_filed:
  "findSubgraphRecursive fuel g d current trigger ng branch = Inr ng' \<Longrightarrow> nodes_ok (g_nodes ng) \<Longrightarrow> nodes_ok (g_nodes ng')"
proof (induction fuel arbitrary: current ng branch ng')
  case (Suc fuel)
  have branch: "nodes_ok (g_nodes b)" if "foldR (\<lambda>ng c. addWithNodes c ng) a branch = Inr b" "nodes_ok (g_nodes a)" for a b
    by (rule foldR_invariant [OF that(1), where P = "\<lambda>ng. nodes_ok (g_nodes ng)"]) (use that(2) addWithNodes_filed in auto)
  show ?case
  proof (cases "current = trigger")
    case True
    then show ?thesis using Suc.prems branch [of "addNode trigger ng"]
      by (simp add: findSubgraphRecursive.simps(2) addNode_def nodes_ok_update)
  next
    case False
    note run = Suc.prems(1) [unfolded findSubgraphRecursive.simps(2) if_not_P [OF False]]
    obtain parents where "getDirectParentConnections g current = Inr parents" using run by (rule rbind_InrE)
    note run = run [unfolded this rbind_Inr]
    have all: "nodes_ok (g_nodes ng')" if "foldR (\<lambda>ng c. if g_type c \<noteq> Main then Inr ng
        else findSubgraphRecursive fuel g d (g_from c) trigger ng (branch @ [c])) ng parents = Inr ng'"
      by (rule foldR_invariant [OF that, where P = "\<lambda>ng. nodes_ok (g_nodes ng)"])
        (use Suc in \<open>auto split: if_splits\<close>)
    show ?thesis using run all branch [of ng] Suc.prems(2) by (auto split: if_splits)
  qed
qed simp

lemma findSubgraph_filed:
  assumes "findSubgraph g d trigger = Inr sub"
  shows "nodes_ok (g_nodes sub)"
proof -
  obtain s0 where s0: "findSubgraphRecursive (Suc (Suc (length (g_nodes g)))) g d d trigger empty_graph [] = Inr s0"
      "foldR (addUtilityNodes g) s0 (vals (g_nodes s0)) = Inr sub"
    using assms by (auto simp: findSubgraph_def elim!: rbind_InrE)
  have step: "nodes_ok (g_nodes t)" if u: "addUtilityNodes g s n = Inr t" and s: "nodes_ok (g_nodes s)" for s n t
  proof -
    obtain cs where "foldR (\<lambda>sub c. if g_type c = Main then Inr sub else addWithNodes c sub) s cs = Inr t"
      using u unfolding addUtilityNodes_def by (rule rbind_InrE)
    then show ?thesis by (rule foldR_invariant [where P = "\<lambda>s. nodes_ok (g_nodes s)"])
      (use s in \<open>auto split: if_splits dest: addWithNodes_filed\<close>)
  qed
  have "nodes_ok (g_nodes s0)" by (rule findSubgraphRecursive_filed [OF s0(1)]) (simp add: empty_graph_def nodes_ok_def)
  then show ?thesis by (rule foldR_invariant [OF s0(2), where P = "\<lambda>s. nodes_ok (g_nodes s)"]) (rule step)
qed

text \<open>The loop's state when an execution starts.\<close>

definition startLoop :: "Workflow \<Rightarrow> RunExecutionData \<Rightarrow> nat \<Rightarrow> LoopState" where
  "startLoop workflow st executionIndex = \<lparr>l_workflow = workflow, l_data = st, l_executionIndex = executionIndex,
     l_lastTry = None, l_error = None, l_calls = 0\<rparr>"

lemma runPartialWorkflow2_parts:
  assumes "runPartialWorkflow2 localeCompare w runData pins dirty dest req = Inr (w', st, idx)"
  shows "\<exists>destination graph destination' dest' trigger filtered sub.
    getNode w (d_nodeName dest) = Some destination \<and>
    rewiredForTool w destination dest req = Inr (graph, w', destination', dest') \<and>
    partialTrigger w' (d_nodeName dest') runData = Inr trigger \<and> filterDisabledNodes graph = Inr filtered \<and>
    findSubgraph filtered destination' trigger = Inr sub \<and>
    rx_runNodeFilter st = Some (map n_name (vals (g_nodes sub))) \<and>
    (\<forall>m. map_of (rx_runData st) m \<noteq> None \<longrightarrow> hasNode sub m)"
proof -
  obtain destination where d: "getNode w (d_nodeName dest) = Some destination"
    using assms by (auto simp: runPartialWorkflow2_def split: option.splits)
  note run = assms [unfolded runPartialWorkflow2_def d option.case]
  obtain p where p: "rewiredForTool w destination dest req = Inr p" using run by (rule rbind_InrE)
  obtain graph w1 destination' dest' where parts: "p = (graph, w1, destination', dest')" by (cases p) auto
  note run = run [unfolded p parts rbind_Inr prod.case]
  obtain trigger where t: "partialTrigger w1 (d_nodeName dest') runData = Inr trigger" using run by (rule rbind_InrE)
  note run = run [unfolded t rbind_Inr]
  obtain filtered where f: "filterDisabledNodes graph = Inr filtered" using run by (rule rbind_InrE)
  note run = run [unfolded f rbind_Inr]
  obtain sub where sub: "findSubgraph filtered destination' trigger = Inr sub" using run by (rule rbind_InrE)
  note run = run [unfolded sub rbind_Inr]
  obtain rd1 starts1 starts2 rd2 stack waiting sources where last:
      "cleanRunData rd1 sub starts2 = Inr rd2"
      "recreateNodeExecutionStack localeCompare sub starts2 rd2 pins = Inr (stack, waiting, sources)"
      "(w1, createRunExecutionData stack waiting sources rd2 (Some pins) (Some (map n_name (vals (g_nodes sub)))) (Some dest'),
        getNextExecutionIndex rd2) = (w', st, idx)"
    using run by (auto elim!: rbind_InrE)
  have "\<forall>m. map_of (rx_runData st) m \<noteq> None \<longrightarrow> hasNode sub m"
    using cleanRunData_nodes [OF last(1)] last(3) by (auto simp: createRunExecutionData_def)
  then show ?thesis using d p parts t f sub last(3) by (auto simp: createRunExecutionData_def)
qed

text \<open>C3. From a partial execution's start to any later point of its loop, run data exists only for nodes of the
  subgraph between its trigger and its destination, as long as nodes request no others.\<close>

theorem partial_run_stays_in_subgraph:
  assumes run: "runPartialWorkflow2 localeCompare w runData pins dirty dest req = Inr (w', st, idx)"
    and steps: "(loop_step env)\<^sup>*\<^sup>* (startLoop w' st idx) ls"
    and only: "requests_only (set (the (rx_runNodeFilter st))) env"
  shows "\<exists>destination graph destination' dest' trigger filtered sub.
    getNode w (d_nodeName dest) = Some destination \<and>
    rewiredForTool w destination dest req = Inr (graph, w', destination', dest') \<and>
    partialTrigger w' (d_nodeName dest') runData = Inr trigger \<and> filterDisabledNodes graph = Inr filtered \<and>
    findSubgraph filtered destination' trigger = Inr sub \<and>
    (\<forall>m. map_of (rx_runData (l_data ls)) m \<noteq> None \<longrightarrow> hasNode sub m)"
proof -
  obtain destination graph destination' dest' trigger filtered sub where parts:
      "getNode w (d_nodeName dest) = Some destination"
      "rewiredForTool w destination dest req = Inr (graph, w', destination', dest')"
      "partialTrigger w' (d_nodeName dest') runData = Inr trigger" "filterDisabledNodes graph = Inr filtered"
      "findSubgraph filtered destination' trigger = Inr sub"
      "rx_runNodeFilter st = Some (map n_name (vals (g_nodes sub)))"
      "\<forall>m. map_of (rx_runData st) m \<noteq> None \<longrightarrow> hasNode sub m"
    using runPartialWorkflow2_parts [OF run] by blast
  have "hasNode sub m" if m: "map_of (rx_runData (l_data ls)) m \<noteq> None" for m
  proof (cases "m \<in> set (map n_name (vals (g_nodes sub)))")
    case True
    then obtain n where n: "n \<in> set (vals (g_nodes sub))" "m = n_name n" by (metis imageE list.set_map)
    then have "is_node sub n" using is_node_iff [OF findSubgraph_filed [OF parts(5)]] by blast
    then show ?thesis using n(2) by (simp add: is_node_def hasNode_def)
  next
    case False
    from steps_untouched [OF steps _ False] only parts(6) have "untouched m st (l_data ls)" by (simp add: startLoop_def)
    then show ?thesis using m parts(7) by (simp add: untouched_def)
  qed
  then show ?thesis using parts(1-5) by blast
qed

lemma partial_run_stays_in_subgraph_witness:
  "\<exists>w' st idx ls. runPartialWorkflow2 (\<lambda>_ _. 0) triggered [] [] [] \<lparr>d_nodeName = ''A'', d_mode = Inclusive\<rparr> None = Inr (w', st, idx) \<and>
     (loop_step plain_env)\<^sup>*\<^sup>* (startLoop w' st idx) ls \<and> map_of (rx_runData (l_data ls)) ''A'' \<noteq> None \<and>
     (\<forall>m. map_of (rx_runData (l_data ls)) m \<noteq> None \<longrightarrow> m \<in> {''T'', ''A''})"
proof -
  let ?dest = "\<lparr>d_nodeName = ''A'', d_mode = Inclusive\<rparr>"
  have "case runPartialWorkflow2 (\<lambda>_ _. 0) triggered [] [] [] ?dest None of Inl _ \<Rightarrow> False
      | Inr (w', st, idx) \<Rightarrow> (case after_steps 2 plain_env (startLoop w' st idx) of None \<Rightarrow> False
          | Some ls \<Rightarrow> map_of (rx_runData (l_data ls)) ''A'' \<noteq> None)" by code_simp
  then obtain w' st idx ls where run: "runPartialWorkflow2 (\<lambda>_ _. 0) triggered [] [] [] ?dest None = Inr (w', st, idx)"
      and after: "after_steps 2 plain_env (startLoop w' st idx) = Some ls" "map_of (rx_runData (l_data ls)) ''A'' \<noteq> None"
    by (auto split: sum.splits option.splits)
  note steps = after_steps_reach [OF after(1)]
  have only: "requests_only (set (the (rx_runNodeFilter st))) plain_env" by (simp add: requests_only_def plain_env_def)
  have names: "case rewiredForTool triggered (mk_node 1 ''A'' ''t'') ?dest None of Inl _ \<Rightarrow> False
      | Inr (graph, w', destination, dest') \<Rightarrow> (case partialTrigger w' (d_nodeName dest') [] of Inl _ \<Rightarrow> False
      | Inr trigger \<Rightarrow> (case filterDisabledNodes graph of Inl _ \<Rightarrow> False | Inr enabled \<Rightarrow>
         (case findSubgraph enabled destination trigger of Inl _ \<Rightarrow> False
          | Inr sub \<Rightarrow> map fst (g_nodes sub) = [''T'', ''A''])))" by code_simp
  from partial_run_stays_in_subgraph [OF run steps only] obtain destination graph destination' dest' trigger filtered sub where
      parts: "getNode triggered ''A'' = Some destination"
        "rewiredForTool triggered destination ?dest None = Inr (graph, w', destination', dest')"
        "partialTrigger w' (d_nodeName dest') [] = Inr trigger" "filterDisabledNodes graph = Inr filtered"
        "findSubgraph filtered destination' trigger = Inr sub"
        "\<forall>m. map_of (rx_runData (l_data ls)) m \<noteq> None \<longrightarrow> hasNode sub m" by auto
  have "map fst (g_nodes sub) = [''T'', ''A'']" using names parts(1-5) by (simp add: triggered_facts(2))
  then have "hasNode sub m \<longrightarrow> m \<in> {''T'', ''A''}" for m
    unfolding hasNode_def by (metis map_of_eq_None_iff list.set_map list.simps(15) set_empty empty_set)
  then show ?thesis using run steps after(2) parts(6) by blast
qed

text \<open>In a partial execution all recorded execution indexes, those of the runs that were kept and those of the runs it
  has made so far, are below the index its next run gets.\<close>

theorem partial_run_index_fresh:
  assumes "runPartialWorkflow2 localeCompare w runData pins dirty dest req = Inr (w', st, idx)"
    and "(loop_step env)\<^sup>*\<^sup>* (startLoop w' st idx) ls"
  shows "indexes_below (l_executionIndex ls) (l_data ls)"
proof (rule steps_below [OF assms(2)])
  have "idx = getNextExecutionIndex (rx_runData st)"
    using assms(1) by (auto simp: runPartialWorkflow2_def createRunExecutionData_def elim!: rbind_InrE split: option.splits)
  then show "indexes_below (l_executionIndex (startLoop w' st idx)) (l_data (startLoop w' st idx))"
    using indexes_below_next [of st] by (simp add: startLoop_def)
qed

lemma partial_run_index_fresh_witness:
  "\<exists>w' st idx ls. runPartialWorkflow2 (\<lambda>_ _. 0) triggered [(''T'', [mk_task 6 [(Main, [Some [empty_item]])]])] [] []
       \<lparr>d_nodeName = ''A'', d_mode = Inclusive\<rparr> None = Inr (w', st, idx) \<and>
     (loop_step plain_env)\<^sup>*\<^sup>* (startLoop w' st idx) ls \<and> idx = 7 \<and> l_executionIndex ls = 8 \<and>
     map_of (rx_runData (l_data ls)) ''A'' \<noteq> None \<and> indexes_below 8 (l_data ls)"
proof -
  let ?run = "runPartialWorkflow2 (\<lambda>_ _. 0) triggered [(''T'', [mk_task 6 [(Main, [Some [empty_item]])]])] [] []
    \<lparr>d_nodeName = ''A'', d_mode = Inclusive\<rparr> None"
  have "case ?run of Inl _ \<Rightarrow> False | Inr (w', st, idx) \<Rightarrow> idx = 7 \<and>
      (case after_steps 1 plain_env (startLoop w' st idx) of None \<Rightarrow> False
        | Some ls \<Rightarrow> l_executionIndex ls = 8 \<and> map_of (rx_runData (l_data ls)) ''A'' \<noteq> None)" by code_simp
  then obtain w' st idx ls where run: "?run = Inr (w', st, idx)" "idx = 7"
      "after_steps 1 plain_env (startLoop w' st idx) = Some ls" "l_executionIndex ls = 8" "map_of (rx_runData (l_data ls)) ''A'' \<noteq> None"
    by (auto simp del: after_steps.simps split: sum.splits option.splits)
  note steps = after_steps_reach [OF run(3)]
  from partial_run_index_fresh [OF run(1) steps] have "indexes_below 8 (l_data ls)" by (simp only: run(4))
  then show ?thesis using run steps by blast
qed

section \<open>The executor of a tool\<close>

text \<open>An agent with a tool and a node behind it.\<close>

definition tool_graph :: DirectedGraph where
  "tool_graph = graph_of [gnode 0 ''Trigger'', gnode 1 ''Agent'', gnode 2 ''Tool'', gnode 3 ''Send'']
     [gconn (gnode 0 ''Trigger'') (gnode 1 ''Agent''),
      (gconn (gnode 2 ''Tool'') (gnode 1 ''Agent''))\<lparr>g_type := AiTool\<rparr>, gconn (gnode 1 ''Agent'') (gnode 3 ''Send'')]"

text \<open>\<open>rewireGraph\<close> is meant to put the executor in the place of the agent. It takes the last of the children
  of the tool for it, which is a node behind the agent if there is one: here \<open>Send\<close> is replaced, and the
  executor runs after the agent it should stand for.\<close>

theorem rewireGraph_takes_downstream:
  "\<exists>g. rewireGraph (gnode 2 ''Tool'') tool_graph None = Inr g \<and> hasNode g ''Agent'' \<and> \<not> hasNode g ''Send'' \<and>
     (\<exists>c \<in> conns_of g. n_name (g_from c) = ''Agent'' \<and> g_type c = Main \<and> n_name (g_to c) = TOOL_EXECUTOR_NODE_NAME)"
proof -
  have "case rewireGraph (gnode 2 ''Tool'') tool_graph None of Inl _ \<Rightarrow> False
     | Inr g \<Rightarrow> hasNode g ''Agent'' \<and> \<not> hasNode g ''Send'' \<and>
         list_ex (\<lambda>c. n_name (g_from c) = ''Agent'' \<and> g_type c = Main \<and> n_name (g_to c) = TOOL_EXECUTOR_NODE_NAME) (vals (g_connections g))"
    by code_simp
  then show ?thesis by (auto simp: conns_of_def list_ex_iff split: sum.splits)
qed

end
