(* ===== verification/EngineRun.thy ===== *)
theory EngineRun
  imports PartialRun
begin

text \<open>
  The life of an execution around its loop (\<open>workflow-execute.ts\<close>): the check that the workflow is ready
  (\<open>checkReadyForExecution\<close>, \<open>checkForWorkflowIssues\<close>, with \<open>mergeIssues\<close> and \<open>getNodeParametersIssues\<close> of
  \<open>node-helpers.ts\<close>), the resumption of a waiting execution (\<open>handleWaitingState\<close>), and what is made of the
  loop's end: \<open>moveNodeMetadata\<close>, \<open>updateTaskStatusesToCancelled\<close>, \<open>processSuccessExecution\<close> and the handlers of
  \<open>processRunExecutionData\<close>, up to the status \<open>determineFinalExecutionStatus\<close> saves. The checks of the single
  parameters of a node, the hooks and the clock are parameters.
\<close>

section \<open>Issues of nodes\<close>

type_synonym INodeIssueObjectProperty = "(string, string list) jsmap"

record INodeIssues =
  i_execution :: bool
  i_credentials :: "INodeIssueObjectProperty option"
  i_parameters :: "INodeIssueObjectProperty option"
  i_typeUnknown :: bool

definition no_issues :: INodeIssues where
  "no_issues = \<lparr>i_execution = False, i_credentials = None, i_parameters = None, i_typeUnknown = False\<rparr>"

definition mergeProperty ::
  "INodeIssueObjectProperty option \<Rightarrow> INodeIssueObjectProperty option \<Rightarrow> INodeIssueObjectProperty option" where
  "mergeProperty destination source =
     (case source of
        None \<Rightarrow> destination
      | Some issues \<Rightarrow> Some (foldl (\<lambda>d (parameterName, messages).
          AList.update parameterName (case_option [] (\<lambda>ms. ms) (map_of d parameterName) @ messages) d)
          (case_option [] (\<lambda>d. d) destination) issues))"

definition mergeIssues :: "INodeIssues \<Rightarrow> INodeIssues option \<Rightarrow> INodeIssues" where
  "mergeIssues destination source =
     (case source of
        None \<Rightarrow> destination
      | Some s \<Rightarrow> \<lparr>i_execution = (i_execution s \<or> i_execution destination),
          i_credentials = mergeProperty (i_credentials destination) (i_credentials s),
          i_parameters = mergeProperty (i_parameters destination) (i_parameters s),
          i_typeUnknown = (i_typeUnknown s \<or> i_typeUnknown destination)\<rparr>)"

text \<open>The issues of the parameters of a node; \<open>propertyIssues\<close> are what \<open>getParameterIssues\<close> returns for the
  properties of its type.\<close>

definition getNodeParametersIssues :: "INodeIssues list \<Rightarrow> INode \<Rightarrow> string list option \<Rightarrow> INodeIssues option" where
  "getNodeParametersIssues propertyIssues node pinDataNodeNames =
     (if disabled node \<or> (case pinDataNodeNames of None \<Rightarrow> False | Some names \<Rightarrow> n_name node \<in> set names) then None
      else let foundIssues = foldl (\<lambda>found issues. mergeIssues found (Some issues)) no_issues propertyIssues in
        if foundIssues = no_issues then None else Some foundIssues)"

section \<open>Is the workflow ready?\<close>

definition checkNodes :: "Workflow \<Rightarrow> string option \<Rightarrow> IDestinationNode option \<Rightarrow> string list" where
  "checkNodes workflow startNode destinationNode =
     (case destinationNode of
        Some d \<Rightarrow> wf_getParentNodes workflow (d_nodeName d) (OfType Main) (-1) @
          (if d_mode d = Inclusive then [d_nodeName d] else [])
      | None \<Rightarrow> (case startNode of
          Some n \<Rightarrow> if n = [] then [] else wf_getChildNodes workflow n (OfType Main) (-1) @ [n]
        | None \<Rightarrow> []))"

definition nodeIssues ::
  "Workflow \<Rightarrow> (INode \<Rightarrow> INodeType \<Rightarrow> INodeIssues list) \<Rightarrow> string list option \<Rightarrow> INode \<Rightarrow> INodeIssues option" where
  "nodeIssues workflow getParameterIssues pinDataNodeNames node =
     (case nodeTypes workflow (n_type node) (n_typeVersion node) of
        None \<Rightarrow> Some (no_issues\<lparr>i_typeUnknown := True\<rparr>)
      | Some nodeType \<Rightarrow> getNodeParametersIssues (getParameterIssues node nodeType) node pinDataNodeNames)"

definition checkReadyForExecution ::
  "Workflow \<Rightarrow> (INode \<Rightarrow> INodeType \<Rightarrow> INodeIssues list) \<Rightarrow> string option \<Rightarrow> IDestinationNode option \<Rightarrow> string list option \<Rightarrow>
   (string, INodeIssues) jsmap option" where
  "checkReadyForExecution workflow getParameterIssues startNode destinationNode pinDataNodeNames =
     (let workflowIssues = foldl (\<lambda>found nodeName.
        case getNode workflow nodeName of
          None \<Rightarrow> found
        | Some node \<Rightarrow> if disabled node then found
            else (case nodeIssues workflow getParameterIssues pinDataNodeNames node of
                None \<Rightarrow> found
              | Some issues \<Rightarrow> AList.update (n_name node) issues found)) [] (checkNodes workflow startNode destinationNode)
      in if workflowIssues = [] then None else Some workflowIssues)"

definition checkForWorkflowIssues ::
  "Workflow \<Rightarrow> (INode \<Rightarrow> INodeType \<Rightarrow> INodeIssues list) \<Rightarrow> RunExecutionData \<Rightarrow> unit res" where
  "checkForWorkflowIssues workflow getParameterIssues st =
     (let startNode = (case rx_stack st of [] \<Rightarrow> None | e # _ \<Rightarrow> Some (n_name (e_node e)));
          pinDataNodeNames = map fst (case_option [] (\<lambda>pd. pd) (rx_pinData st)) in
      case checkReadyForExecution workflow getParameterIssues startNode (rx_destinationNode st) (Some pinDataNodeNames) of
        None \<Rightarrow> Inr ()
      | Some _ \<Rightarrow> Inl WorkflowHasIssuesError)"

section \<open>Resuming a waiting execution\<close>

text \<open>The node that put the execution into waiting is not run again and its last run is dropped.\<close>

definition handleWaitingState :: "RunExecutionData \<Rightarrow> RunExecutionData res" where
  "handleWaitingState st =
     (if rx_waitTill st = None then Inr st
      else case rx_stack st of
        [] \<Rightarrow> Inl TypeError
      | e # stack \<Rightarrow> (case Option.bind (rx_lastNodeExecuted st) (map_of (rx_runData st)) of
            None \<Rightarrow> Inl TypeError
          | Some ts \<Rightarrow> Inr (st\<lparr>rx_waitTill := None,
              rx_stack := e\<lparr>e_node := (e_node e)\<lparr>n_disabled := Some True\<rparr>\<rparr> # stack,
              rx_runData := set_runs (the (rx_lastNodeExecuted st)) (butlast ts) (rx_runData st)\<rparr>)))"

section \<open>The end of an execution\<close>

text \<open>\<open>{...a, ...b}\<close>: the flags are only ever set to true.\<close>

definition spreadMetadata :: "ITaskMetadata option \<Rightarrow> ITaskMetadata \<Rightarrow> ITaskMetadata" where
  "spreadMetadata a b = (case a of
     None \<Rightarrow> b
   | Some a \<Rightarrow> \<lparr>m_subNodeExecutionData = (case m_subNodeExecutionData b of None \<Rightarrow> m_subNodeExecutionData a | d \<Rightarrow> d),
       m_preserveSourceOverwrite = (m_preserveSourceOverwrite b \<or> m_preserveSourceOverwrite a),
       m_preservedSourceOverwrite = (case m_preservedSourceOverwrite b of None \<Rightarrow> m_preservedSourceOverwrite a | d \<Rightarrow> d),
       m_nodeWasResumed = (m_nodeWasResumed b \<or> m_nodeWasResumed a)\<rparr>)"

text \<open>The metadata of one run; the runs that are reported as missing are collected.\<close>

definition moveTaskMetadata ::
  "RunExecutionData \<times> (string \<times> nat) list \<Rightarrow> string \<times> nat \<times> ITaskMetadata \<Rightarrow> RunExecutionData \<times> (string \<times> nat) list" where
  "moveTaskMetadata acc m =
     (case (acc, m) of ((st, missing), (nodeName, index, metadata)) \<Rightarrow>
        let ts = runs_of (rx_runData st) nodeName in
        if index < length ts
        then (st\<lparr>rx_runData := set_runs nodeName (ts[index := (ts ! index)\<lparr>t_metadata :=
                Some (spreadMetadata (t_metadata (ts ! index)) metadata)\<rparr>]) (rx_runData st)\<rparr>, missing)
        else (st, missing @ [(nodeName, index)]))"

definition moveNodeMetadata :: "RunExecutionData \<Rightarrow> RunExecutionData \<times> (string \<times> nat) list" where
  "moveNodeMetadata st =
     foldl moveTaskMetadata (st, []) (concat (map (\<lambda>(nodeName, metas).
       map (\<lambda>(index, metadata). (nodeName, index, metadata)) (List.enumerate 0 metas))
       (case_option [] (\<lambda>m. m) (rx_metadata st))))"

definition updateTaskStatusesToCancelled :: "RunExecutionData \<Rightarrow> RunExecutionData" where
  "updateTaskStatusesToCancelled st = st\<lparr>rx_runData := map (\<lambda>(nodeName, ts). (nodeName, map (\<lambda>t.
     if t_executionStatus t = Some Running then t\<lparr>t_executionStatus := Some Canceled\<rparr> else t) ts)) (rx_runData st)\<rparr>"

record IRun =
  i_data :: RunExecutionData
  i_finished :: bool
  i_waitTill :: "nat option"
  i_status :: ExecutionStatus

definition getFullRunData :: "ExecutionStatus \<Rightarrow> RunExecutionData \<Rightarrow> IRun" where
  "getFullRunData status st = \<lparr>i_data = st, i_finished = False, i_waitTill = None, i_status = status\<rparr>"

definition processSuccessExecution :: "NodeErr option \<Rightarrow> RunExecutionData \<Rightarrow> IRun" where
  "processSuccessExecution executionError st =
     (let status = (case executionError of
            Some e \<Rightarrow> if contains ''canceled'' (err_message e) \<or> contains ''Cancelled'' (err_name e) then Canceled else Error
          | None \<Rightarrow> if rx_waitTill st \<noteq> None then Waiting else Success);
          st = fst (moveNodeMetadata st);
          fullRunData = getFullRunData status st in
      case executionError of
        Some e \<Rightarrow> fullRunData\<lparr>i_data := st\<lparr>rx_error := Some e\<rparr>\<rparr>
      | None \<Rightarrow> if rx_waitTill st \<noteq> None then fullRunData\<lparr>i_waitTill := rx_waitTill st\<rparr>
                else fullRunData\<lparr>i_finished := True\<rparr>)"

definition ManualExecutionCancelledError :: NodeErr where
  "ManualExecutionCancelledError = \<lparr>err_name = ''ManualExecutionCancelledError'',
     err_message = ''The execution was cancelled manually''\<rparr>"

definition TimeoutExecutionCancelledError :: NodeErr where
  "TimeoutExecutionCancelledError = \<lparr>err_name = ''TimeoutExecutionCancelledError'',
     err_message = ''The execution was cancelled because it timed out''\<rparr>"

text \<open>\<open>.then\<close>: the loop has been left, with the error of its last node; \<open>canceled\<close> tells that the execution's
  status is canceled by then.\<close>

definition afterLoop :: "bool \<Rightarrow> bool \<Rightarrow> NodeErr option \<Rightarrow> RunExecutionData \<Rightarrow> IRun" where
  "afterLoop canceled timedOut executionError st =
     (if canceled \<and> executionError = None
      then processSuccessExecution
        (Some (if timedOut then TimeoutExecutionCancelledError else ManualExecutionCancelledError)) st
      else processSuccessExecution executionError st)"

text \<open>\<open>.catch\<close>: an error came out of the loop, or of what is done before or after it.\<close>

definition afterThrow :: "ExecutionStatus \<Rightarrow> NodeErr \<Rightarrow> RunExecutionData \<Rightarrow> IRun" where
  "afterThrow status e st =
     (let st = fst (moveNodeMetadata (st\<lparr>rx_error := Some e\<rparr>)) in (getFullRunData status st)\<lparr>i_data := st\<rparr>)"

text \<open>The hook before the execution failed: its error is the only result, filed under the first node.\<close>

definition failedBefore :: "NodeErr \<Rightarrow> RunExecutionData \<Rightarrow> RunExecutionData res" where
  "failedBefore e st =
     (case rx_stack st of
        [] \<Rightarrow> Inl TypeError
      | entry # _ \<Rightarrow> Inr (st\<lparr>rx_runData := [(n_name (e_node entry), [\<lparr>t_executionIndex = Some 0, t_source = [],
            t_executionStatus = Some Error, t_data = Some (case map_of (e_data entry) Main of None \<Rightarrow> []
              | Some inputs \<Rightarrow> [(Main, map (\<lambda>s. case s of Val xs \<Rightarrow> Some xs | _ \<Rightarrow> None) inputs)]),
            t_inputOverride = None, t_error = None, t_metadata = None\<rparr>])],
          rx_lastNodeExecuted := Some (n_name (e_node entry)), rx_error := Some e, rx_pinData := None\<rparr>))"

section \<open>processRunExecutionData\<close>

text \<open>The loop, and whether it was left because the execution was canceled or its time was up.\<close>

fun loopEnd :: "nat \<Rightarrow> Environment \<Rightarrow> LoopState \<Rightarrow> (LoopState \<times> bool) res" where
  "loopEnd 0 env ls = Inl OutOfFuel"
| "loopEnd (Suc fuel) env ls =
     (if rx_stack (l_data ls) \<noteq> [] \<and> v_stopped env (l_executionIndex ls) then Inr (ls, True)
      else case iteration env ls of
        Inl e \<Rightarrow> Inl e
      | Inr (LoopEnded ls') \<Rightarrow> Inr (ls', False)
      | Inr (NextIteration ls') \<Rightarrow> loopEnd fuel env ls')"

lemma loopEnd_executionLoop: "executionLoop fuel env ls = rbind (loopEnd fuel env ls) (\<lambda>(ls', stopped). Inr ls')"
proof (induction fuel arbitrary: ls)
  case (Suc fuel)
  show ?case
  proof (cases "rx_stack (l_data ls) \<noteq> [] \<and> v_stopped env (l_executionIndex ls)")
    case True
    then have "iteration env ls = Inr (LoopEnded ls)" by (auto simp: iteration_def split: list.splits)
    then show ?thesis using True by simp
  next
    case False
    then show ?thesis using Suc by (auto split: sum.splits Iteration.splits)
  qed
qed simp

text \<open>How the execution ends: with a run, with an error thrown at the caller, or with an error thrown in the
  loop, where \<open>afterThrow\<close> makes a run of whatever data the loop has left.\<close>

datatype Outcome = Resolved IRun | Thrown js_error | ThrownInLoop js_error

definition processRunExecutionData ::
  "nat \<Rightarrow> Environment \<Rightarrow> (INode \<Rightarrow> INodeType \<Rightarrow> INodeIssues list) \<Rightarrow> NodeErr option \<Rightarrow> bool \<Rightarrow> bool \<Rightarrow> Workflow \<Rightarrow>
   RunExecutionData \<Rightarrow> nat \<Rightarrow> Outcome" where
  "processRunExecutionData fuel env getParameterIssues beforeError canceled timedOut workflow st executionIndex =
     (case rbind (checkForWorkflowIssues workflow getParameterIssues st) (\<lambda>_. handleWaitingState st) of
        Inl e \<Rightarrow> Thrown e
      | Inr st \<Rightarrow> (case beforeError of
            Some e \<Rightarrow> (case failedBefore e st of
                Inl err \<Rightarrow> Resolved (afterThrow (if canceled then Canceled else Running) (caught err) st)
              | Inr st \<Rightarrow> Resolved (afterThrow (if canceled then Canceled else Running) e st))
          | None \<Rightarrow> (case loopEnd fuel env (startLoop workflow st executionIndex) of
                Inl e \<Rightarrow> ThrownInLoop e
              | Inr (ls, stopped) \<Rightarrow> Resolved (afterLoop (canceled \<or> stopped) timedOut (l_error ls) (l_data ls)))))"

text \<open>The status an execution is saved with.\<close>

definition determineFinalExecutionStatus :: "IRun \<Rightarrow> ExecutionStatus" where
  "determineFinalExecutionStatus runData =
     (let workflowHasCrashed = i_status runData = Crashed; workflowWasCanceled = i_status runData = Canceled;
          workflowHasFailed = i_status runData = Error;
          workflowDidSucceed = rx_error (i_data runData) = None \<and> \<not> workflowHasCrashed \<and> \<not> workflowWasCanceled \<and> \<not> workflowHasFailed;
          final = (if workflowDidSucceed then Success else Error);
          final = (if workflowHasCrashed then Crashed else final);
          final = (if workflowWasCanceled then Canceled else final)
      in if i_waitTill runData \<noteq> None then Waiting else final)"

section \<open>The workflow is ready iff no node that may run has issues\<close>

lemma mergeProperty_None [simp]: "mergeProperty d s = None \<longleftrightarrow> d = None \<and> s = None"
  by (auto simp: mergeProperty_def split: option.splits)

lemma no_issues_iff:
  "i = no_issues \<longleftrightarrow> \<not> i_execution i \<and> i_credentials i = None \<and> i_parameters i = None \<and> \<not> i_typeUnknown i"
  by (cases i) (simp add: no_issues_def)

lemma mergeIssues_none: "mergeIssues a (Some b) = no_issues \<longleftrightarrow> a = no_issues \<and> b = no_issues"
  by (auto simp: mergeIssues_def no_issues_iff)

lemma foundIssues_none:
  "foldl (\<lambda>found issues. mergeIssues found (Some issues)) a is = no_issues \<longleftrightarrow> a = no_issues \<and> (\<forall>i \<in> set is. i = no_issues)"
  by (induction "is" arbitrary: a) (auto simp: mergeIssues_none)

lemma getNodeParametersIssues_None:
  "getNodeParametersIssues is node pins = None \<longleftrightarrow>
     disabled node \<or> (\<exists>names. pins = Some names \<and> n_name node \<in> set names) \<or> (\<forall>i \<in> set is. i = no_issues)"
  by (auto simp: getNodeParametersIssues_def foundIssues_none Let_def split: option.splits)

text \<open>The fold that collects the issues files one entry per node with issues.\<close>

lemma issues_fold:
  assumes filed: "\<And>n node. getNode w n = Some node \<Longrightarrow> n_name node = n"
  shows "map_of (foldl (\<lambda>found nodeName.
        case getNode w nodeName of
          None \<Rightarrow> found
        | Some node \<Rightarrow> if disabled node then found
            else (case f node of None \<Rightarrow> found | Some issues \<Rightarrow> AList.update (n_name node) issues found)) found ns) m =
     (if m \<in> set ns \<and> (\<exists>node. getNode w m = Some node \<and> \<not> disabled node \<and> f node \<noteq> None)
      then Option.bind (getNode w m) f else map_of found m)"
proof (induction ns arbitrary: found)
  case (Cons n ns)
  show ?case
    by (simp only: foldl_Cons Cons.IH) (auto simp: update_conv' dest: filed split: option.splits if_splits)
qed simp

text \<open>\<open>checkReadyForExecution\<close> reports exactly the enabled nodes above the destination, or behind the start
  node, whose type is unknown or of whose parameters one has an issue, each with its issues; and nothing
  exactly if there are none.\<close>

theorem checkReadyForExecution_correct:
  assumes "\<And>n node. getNode w n = Some node \<Longrightarrow> n_name node = n"
  shows "(\<forall>m. map_of (case_option [] (\<lambda>found. found) (checkReadyForExecution w params startNode dest pins)) m =
      (case getNode w m of
        None \<Rightarrow> None
      | Some node \<Rightarrow> if m \<in> set (checkNodes w startNode dest) \<and> \<not> disabled node then nodeIssues w params pins node else None)) \<and>
    (checkReadyForExecution w params startNode dest pins = None \<longleftrightarrow>
      (\<forall>m \<in> set (checkNodes w startNode dest). \<forall>node. getNode w m = Some node \<longrightarrow> disabled node \<or> nodeIssues w params pins node = None))"
proof -
  define found where "found = case_option [] (\<lambda>found. found) (checkReadyForExecution w params startNode dest pins)"
  have m: "map_of found m = (case getNode w m of
        None \<Rightarrow> None
      | Some node \<Rightarrow> if m \<in> set (checkNodes w startNode dest) \<and> \<not> disabled node then nodeIssues w params pins node else None)" for m
    using issues_fold [where w = w and f = "nodeIssues w params pins" and found = "[]" and ns = "checkNodes w startNode dest" and m = m,
      OF assms]
    by (auto simp: found_def checkReadyForExecution_def Let_def split: option.splits)
  have "checkReadyForExecution w params startNode dest pins = None \<longleftrightarrow> found = []"
    by (auto simp: found_def checkReadyForExecution_def Let_def)
  also have "\<dots> \<longleftrightarrow> (\<forall>m. map_of found m = None)"
    by (auto simp: map_of_eq_None_iff)
  also have "\<dots> \<longleftrightarrow> (\<forall>m \<in> set (checkNodes w startNode dest). \<forall>node. getNode w m = Some node \<longrightarrow>
      disabled node \<or> nodeIssues w params pins node = None)"
    by (auto simp: m split: option.splits) (metis option.distinct(1))
  finally show ?thesis using m by (simp add: found_def)
qed

lemma checkReadyForExecution_correct_witness:
  "\<exists>w. checkReadyForExecution w (\<lambda>_ _. []) (Some ''A'') None None = Some [(''A'', no_issues\<lparr>i_typeUnknown := True\<rparr>)] \<and>
     map_of [(''A'', no_issues\<lparr>i_typeUnknown := True\<rparr>)] ''B'' = None"
proof -
  let ?w = "new_Workflow ''1'' [mk_node 0 ''A'' ''t''] [] (\<lambda>_ _. None) (Some ''v1'') None"
  have c: "checkReadyForExecution ?w (\<lambda>_ _. []) (Some ''A'') None None = Some [(''A'', no_issues\<lparr>i_typeUnknown := True\<rparr>)]"
    by code_simp
  have nodes: "w_nodes ?w = [(''A'', mk_node 0 ''A'' ''t'')]"
    by (simp add: new_Workflow_def setSettings_def setPinData_def setConnections_def setNodes_def mk_node_def)
  have filed: "n_name node = n" if "getNode ?w n = Some node" for n node
    using that unfolding getNode_def nodes by (auto simp: mk_node_def split: if_splits)
  note r = conjunct1 [OF checkReadyForExecution_correct [where w = ?w and params = "\<lambda>_ _. []" and startNode = "Some ''A''"
    and dest = None and pins = None, OF filed]]
  have "map_of [(''A'', no_issues\<lparr>i_typeUnknown := True\<rparr>)] ''B'' = None"
    using r [THEN spec, of "''B''"] unfolding c by (simp add: getNode_def nodes)
  then show ?thesis using c by blast
qed

section \<open>A waiting execution is resumed behind its node\<close>

lemma runs_of_Some: "runs_of rd n \<noteq> [] \<Longrightarrow> map_of rd n = Some (runs_of rd n)"
  by (auto simp: runs_of_def split: option.splits)

text \<open>C9. Resuming undoes what waiting recorded: when a node has put the execution into waiting and its run was added
  behind the earlier ones, \<open>handleWaitingState\<close> gives back the state in which the node had run, with two
  differences: \<open>waitTill\<close> is cleared, and the node's entry, now disabled, is on top of the stack. The run
  data hold the same runs of every node. The provisos: the node did not fail, or continues on its errors;
  it is the last one executed; and the run has the next free index (a tool node that an agent has
  requested has its run in the list already, and is outside).\<close>

theorem waiting_resumes:
  assumes after: "afterTries e run idx err nsd ls = Inr it" and "err = None \<or> continues_on_error (e_node e)"
    and wait: "rx_waitTill (l_data ls) \<noteq> None" and last: "rx_lastNodeExecuted (l_data ls) = Some (n_name (e_node e))"
    and run: "run = length (runs_of (rx_runData (l_data ls)) (n_name (e_node e)))"
  shows "\<exists>ls' rd. it = LoopEnded ls' \<and>
    handleWaitingState (l_data ls') = Inr ((l_data ls)\<lparr>rx_waitTill := None, rx_runData := rd,
      rx_stack := e\<lparr>e_node := (e_node e)\<lparr>n_disabled := Some True\<rparr>\<rparr> # rx_stack (l_data ls)\<rparr>) \<and>
    (\<forall>n. runs_of rd n = runs_of (rx_runData (l_data ls)) n)"
proof -
  let ?n = "n_name (e_node e)"
  define task where "task = (if err = None then (new_task e idx (l_data ls))\<lparr>t_error := err\<rparr>
    else (new_task e idx (l_data ls))\<lparr>t_error := err, t_executionStatus := Some Error\<rparr>)"
  obtain outs where outs: "output_after e err nsd = Some outs"
    using after assms(2) by (cases "output_after e err nsd") (auto simp: afterTries_def Let_def)
  obtain items where items: "mergeErrors outs = Inr items"
    using after assms(2) outs by (cases "mergeErrors outs") (auto simp: afterTries_def Let_def)
  let ?st = "recordSuccess e run items task (l_data ls)"
  have rec: "\<exists>t. ?st = (l_data ls)\<lparr>rx_runData := set_runs ?n (runs_of (rx_runData (l_data ls)) ?n @ [t]) (rx_runData (l_data ls))\<rparr>"
    using run by (simp add: recordSuccess_def recordTask_def Let_def) (rule exI, rule refl)
  then obtain t where t: "?st = (l_data ls)\<lparr>rx_runData := set_runs ?n (runs_of (rx_runData (l_data ls)) ?n @ [t]) (rx_runData (l_data ls))\<rparr>" ..
  have "\<not> (err \<noteq> None \<and> \<not> continues_on_error (e_node e))" using assms(2) by blast
  then have it: "it = LoopEnded (ls\<lparr>l_error := err, l_data := ?st\<lparr>rx_stack := e # rx_stack ?st\<rparr>\<rparr>)"
    using after outs items wait t unfolding afterTries_def Let_def task_def [symmetric] by (auto split: if_splits simp: task_def)
  have runs: "map_of (rx_runData ?st) ?n = Some (runs_of (rx_runData (l_data ls)) ?n @ [t])"
    by (simp add: t set_runs_def update_conv')
  let ?rd = "set_runs ?n (runs_of (rx_runData (l_data ls)) ?n) (rx_runData ?st)"
  have same: "runs_of ?rd n = runs_of (rx_runData (l_data ls)) n" for n
    by (simp add: t set_runs_def runs_of_def update_conv')
  obtain w where until: "rx_waitTill (l_data ls) = Some w" using wait by blast
  have "handleWaitingState (?st\<lparr>rx_stack := e # rx_stack ?st\<rparr>) = Inr ((l_data ls)\<lparr>rx_waitTill := None, rx_runData := ?rd,
      rx_stack := e\<lparr>e_node := (e_node e)\<lparr>n_disabled := Some True\<rparr>\<rparr> # rx_stack (l_data ls)\<rparr>)"
    using last runs until by (simp add: handleWaitingState_def t)
  with same show ?thesis using it by (intro exI [of _ "ls\<lparr>l_error := err, l_data := ?st\<lparr>rx_stack := e # rx_stack ?st\<rparr>\<rparr>"] exI [of _ ?rd]) simp
qed

lemma waiting_resumes_witness:
  "\<exists>ls' st. afterTries flaky_entry 0 0 None (Some [Val [empty_item]]) (flaky_state\<lparr>l_data :=
       empty_run\<lparr>rx_waitTill := Some 5, rx_lastNodeExecuted := Some ''A''\<rparr>\<rparr>) = Inr (LoopEnded ls') \<and>
     handleWaitingState (l_data ls') = Inr st \<and> map (disabled \<circ> e_node) (rx_stack st) = [True]"
proof -
  let ?ls = "flaky_state\<lparr>l_data := empty_run\<lparr>rx_waitTill := Some 5, rx_lastNodeExecuted := Some ''A''\<rparr>\<rparr>"
  have "case afterTries flaky_entry 0 0 None (Some [Val [empty_item]]) ?ls of Inl _ \<Rightarrow> False | Inr it \<Rightarrow> True" by code_simp
  then obtain it where it: "afterTries flaky_entry 0 0 None (Some [Val [empty_item]]) ?ls = Inr it" by (auto split: sum.splits)
  have "rx_lastNodeExecuted (l_data ?ls) = Some (n_name (e_node flaky_entry))" "rx_stack (l_data ?ls) = []"
      "0 = length (runs_of (rx_runData (l_data ?ls)) (n_name (e_node flaky_entry)))" "rx_waitTill (l_data ?ls) \<noteq> None"
    by code_simp+
  with waiting_resumes [OF it] it show ?thesis by fastforce
qed

section \<open>The status an execution ends with\<close>

lemma moveNodeMetadata_keeps [simp]:
  "rx_stack (fst (moveNodeMetadata st)) = rx_stack st" "rx_error (fst (moveNodeMetadata st)) = rx_error st"
  "rx_waitTill (fst (moveNodeMetadata st)) = rx_waitTill st"
proof -
  have "rx_stack (fst (foldl moveTaskMetadata acc ms)) = rx_stack (fst acc) \<and>
     rx_error (fst (foldl moveTaskMetadata acc ms)) = rx_error (fst acc) \<and>
     rx_waitTill (fst (foldl moveTaskMetadata acc ms)) = rx_waitTill (fst acc)" for acc ms
    by (induction ms arbitrary: acc) (auto simp: moveTaskMetadata_def Let_def split_beta)
  then show "rx_stack (fst (moveNodeMetadata st)) = rx_stack st" "rx_error (fst (moveNodeMetadata st)) = rx_error st"
    "rx_waitTill (fst (moveNodeMetadata st)) = rx_waitTill st"
    by (simp_all add: moveNodeMetadata_def)
qed

text \<open>The two errors of a canceled execution are told by their names; their messages spell the word differently.\<close>

lemma cancel_errors:
  "contains ''Cancelled'' (err_name ManualExecutionCancelledError)" "contains ''Cancelled'' (err_name TimeoutExecutionCancelledError)"
  "\<not> contains ''canceled'' (err_message ManualExecutionCancelledError)" "\<not> contains ''canceled'' (err_message TimeoutExecutionCancelledError)"
  by code_simp+

text \<open>C10. The status of an execution whose loop was left: that of the last node's error, else canceled, else
  waiting, else success. What is saved is the same status, unless an error is left over from an earlier run.\<close>

theorem end_status:
  "i_status (afterLoop canceled timedOut err st) =
     (case err of
        Some e \<Rightarrow> if contains ''canceled'' (err_message e) \<or> contains ''Cancelled'' (err_name e) then Canceled else Error
      | None \<Rightarrow> if canceled then Canceled else if rx_waitTill st \<noteq> None then Waiting else Success) \<and>
   determineFinalExecutionStatus (afterLoop canceled timedOut err st) =
     (if i_status (afterLoop canceled timedOut err st) = Success \<and> rx_error st \<noteq> None then Error
      else i_status (afterLoop canceled timedOut err st))"
  by (cases err; cases canceled)
    (auto simp: afterLoop_def processSuccessExecution_def determineFinalExecutionStatus_def getFullRunData_def Let_def cancel_errors)

text \<open>An error that is thrown out of the loop leaves the status running, but is saved as a failed execution.\<close>

theorem thrown_is_saved_as_error:
  "i_status (afterThrow status e st) = status \<and> rx_error (i_data (afterThrow status e st)) = Some e \<and>
   determineFinalExecutionStatus (afterThrow Running e st) = Error"
  by (simp add: afterThrow_def determineFinalExecutionStatus_def getFullRunData_def Let_def)

text \<open>Why the loop ends.\<close>

lemma iteration_ends:
  assumes "iteration env ls = Inr (LoopEnded ls')" and "\<not> (rx_stack (l_data ls) \<noteq> [] \<and> v_stopped env (l_executionIndex ls))"
  shows "rx_stack (l_data ls') = [] \<or> l_error ls' \<noteq> None \<or> rx_waitTill (l_data ls') \<noteq> None"
proof -
  have after: "l_error ls' \<noteq> None \<or> rx_waitTill (l_data ls') \<noteq> None"
    if "afterTries e run idx err nsd ls1 = Inr (LoopEnded ls')" for e run idx err nsd ls1
    using that by (auto simp: afterTries_def Let_def elim!: rbind_InrE split: if_splits option.splits)
  show ?thesis
    using assms by (auto simp: iteration_def runEntry_def Let_def elim!: rbind_InrE dest!: after
      split: list.splits if_splits prod.splits sum.splits TryEnd.splits)
qed

lemma loopEnd_ends:
  "loopEnd fuel env ls = Inr (ls', stopped) \<Longrightarrow>
     stopped \<or> rx_stack (l_data ls') = [] \<or> l_error ls' \<noteq> None \<or> rx_waitTill (l_data ls') \<noteq> None"
proof (induction fuel arbitrary: ls)
  case (Suc fuel)
  show ?case
  proof (cases "rx_stack (l_data ls) \<noteq> [] \<and> v_stopped env (l_executionIndex ls)")
    case False
    show ?thesis
    proof (cases "iteration env ls")
      case (Inr it)
      then show ?thesis using Suc False iteration_ends [OF _ False] by (cases it) auto
    qed (use Suc.prems False in auto)
  qed (use Suc.prems in auto)
qed simp

text \<open>C7. An execution that ends with success was checked to be ready, had no error before it began, and was not
  canceled, neither from outside nor in the loop. Its loop ended by itself, with no error of its last
  node, with nothing left on the stack, and no node has put the execution into waiting. (That the stack is
  empty does not say that each of its entries was executed: an entry of a node outside the run's filter
  is dropped, and a node whose inputs never came together can be left in \<open>waitingExecution\<close>.)\<close>

theorem success_means_complete:
  assumes "processRunExecutionData fuel env params beforeError canceled timedOut w st idx = Resolved r"
    and "i_status r = Success"
  shows "checkForWorkflowIssues w params st = Inr () \<and> beforeError = None \<and> \<not> canceled \<and> i_finished r \<and>
    rx_stack (i_data r) = [] \<and> rx_waitTill (i_data r) = None \<and>
    (\<exists>st1 ls. handleWaitingState st = Inr st1 \<and> loopEnd fuel env (startLoop w st1 idx) = Inr (ls, False) \<and>
      l_error ls = None \<and> rx_stack (l_data ls) = [] \<and> rx_waitTill (l_data ls) = None)"
proof -
  obtain st1 where st1: "checkForWorkflowIssues w params st = Inr ()" "handleWaitingState st = Inr st1"
    using assms(1) by (auto simp: processRunExecutionData_def rbind_def split: sum.splits)
  have before: "beforeError = None"
    using assms st1 by (auto simp: processRunExecutionData_def afterThrow_def getFullRunData_def Let_def
      split: option.splits sum.splits if_splits)
  then obtain ls stopped where l: "loopEnd fuel env (startLoop w st1 idx) = Inr (ls, stopped)"
      "r = afterLoop (canceled \<or> stopped) timedOut (l_error ls) (l_data ls)"
    using assms(1) st1 by (auto simp: processRunExecutionData_def split: sum.splits)
  have none: "l_error ls = None \<and> \<not> canceled \<and> \<not> stopped \<and> rx_waitTill (l_data ls) = None"
    using assms(2) unfolding l(2)
    by (cases "l_error ls"; cases "canceled \<or> stopped")
      (auto simp: afterLoop_def processSuccessExecution_def getFullRunData_def Let_def cancel_errors split: if_splits)
  then have empty: "rx_stack (l_data ls) = []" using loopEnd_ends [OF l(1)] by simp
  then have loop: "\<exists>st1 ls. handleWaitingState st = Inr st1 \<and> loopEnd fuel env (startLoop w st1 idx) = Inr (ls, False) \<and>
      l_error ls = None \<and> rx_stack (l_data ls) = [] \<and> rx_waitTill (l_data ls) = None"
    using st1(2) l(1) none by auto
  have "i_finished r \<and> rx_stack (i_data r) = [] \<and> rx_waitTill (i_data r) = None"
    using none empty unfolding l(2) by (simp add: afterLoop_def processSuccessExecution_def getFullRunData_def Let_def)
  then show ?thesis using st1(1) before none loop by blast
qed

lemma success_means_complete_witness:
  "\<exists>r. processRunExecutionData 5 plain_env (\<lambda>_ _. []) None False False (l_workflow filtered_state)
     (empty_run\<lparr>rx_stack := [flaky_entry]\<rparr>) 0 = Resolved r \<and> i_finished r \<and> rx_stack (i_data r) = []"
proof -
  let ?run = "processRunExecutionData 5 plain_env (\<lambda>_ _. []) None False False (l_workflow filtered_state)
    (empty_run\<lparr>rx_stack := [flaky_entry]\<rparr>) 0"
  have "case ?run of Resolved r \<Rightarrow> i_status r = Success | _ \<Rightarrow> False" by code_simp
  then obtain r where r: "?run = Resolved r" "i_status r = Success" by (auto split: Outcome.splits)
  from success_means_complete [OF r] r(1) show ?thesis by blast
qed

section \<open>An error that an execution continues after\<close>

text \<open>A node that fails but lets the execution go on, alone or with a node behind it.\<close>

definition tolerant_node :: INode where
  "tolerant_node = (mk_node 0 ''A'' ''t'')\<lparr>n_onError := Some ContinueRegularOutput\<rparr>"

definition tolerant :: "(string \<times> (NodeConnectionType \<times> IConnection list option list) list) list \<Rightarrow> Workflow" where
  "tolerant connections = new_Workflow ''1'' [tolerant_node, mk_node 1 ''B'' ''t''] connections (\<lambda>_ _. Some flaky_type) (Some ''v1'') None"

definition tolerant_run :: "(string \<times> (NodeConnectionType \<times> IConnection list option list) list) list \<Rightarrow> Outcome" where
  "tolerant_run connections = processRunExecutionData 5
     (plain_env\<lparr>v_code := (\<lambda>k _ _ _ _ _ _. (if k = 0 then Inl \<lparr>err_name = ''Error'', err_message = ''boom''\<rparr>
       else Inr (ResponseData (Some [Val [empty_item]])), None))\<rparr>)
     (\<lambda>_ _. []) None False False (tolerant connections) (empty_run\<lparr>rx_stack := [flaky_entry\<lparr>e_node := tolerant_node\<rparr>]\<rparr>) 0"

text \<open>The loop forgets a node's error only when it takes the next entry from the stack: if a node that may fail is
  the last one to run, the execution fails, whereas with any node behind it the same execution succeeds.\<close>

theorem continued_error_of_last_node:
  "continues_on_error tolerant_node \<and>
   (\<exists>r. tolerant_run [] = Resolved r \<and> rx_stack (i_data r) = [] \<and> determineFinalExecutionStatus r = Error) \<and>
   (\<exists>r. tolerant_run [(''A'', [(Main, [Some [\<lparr>c_node = ''B'', c_type = Main, c_index = 0\<rparr>]])])] = Resolved r \<and>
      determineFinalExecutionStatus r = Success)"
proof -
  have "case tolerant_run [] of Resolved r \<Rightarrow> rx_stack (i_data r) = [] \<and> determineFinalExecutionStatus r = Error | _ \<Rightarrow> False"
    by code_simp
  moreover have "case tolerant_run [(''A'', [(Main, [Some [\<lparr>c_node = ''B'', c_type = Main, c_index = 0\<rparr>]])])] of
      Resolved r \<Rightarrow> determineFinalExecutionStatus r = Success | _ \<Rightarrow> False" by code_simp
  moreover have "continues_on_error tolerant_node" by code_simp
  ultimately show ?thesis by (auto split: Outcome.splits)
qed

section \<open>The metadata of sub-nodes\<close>

text \<open>The metadata that was collected for run \<open>i\<close> of node \<open>n\<close> is merged into the metadata of that run, and nothing
  else of the run data changes.\<close>

definition with_metadata :: "ITaskMetadata list \<Rightarrow> ITaskData list \<Rightarrow> ITaskData list" where
  "with_metadata metas ts = map (\<lambda>(i, t). if i < length metas
     then t\<lparr>t_metadata := Some (spreadMetadata (t_metadata t) (metas ! i))\<rparr> else t) (List.enumerate 0 ts)"

lemma length_with_metadata [simp]: "length (with_metadata metas ts) = length ts"
  by (simp add: with_metadata_def)

lemma nth_with_metadata [simp]:
  "i < length ts \<Longrightarrow> with_metadata metas ts ! i =
     (if i < length metas then (ts ! i)\<lparr>t_metadata := Some (spreadMetadata (t_metadata (ts ! i)) (metas ! i))\<rparr> else ts ! i)"
  by (simp add: with_metadata_def nth_enumerate_eq)

lemma with_metadata_Nil [simp]: "with_metadata [] ts = ts"
  by (rule nth_equalityI) simp_all

lemma with_metadata_snoc:
  "with_metadata (metas @ [m]) ts = (let ts = with_metadata metas ts; i = length metas in if i < length ts
     then ts[i := (ts ! i)\<lparr>t_metadata := Some (spreadMetadata (t_metadata (ts ! i)) m)\<rparr>] else ts)"
  by (rule nth_equalityI) (auto simp: Let_def nth_list_update nth_append)

lemma moveTaskMetadata_runs:
  "runs_of (rx_runData (fst (moveTaskMetadata acc (n, i, m)))) n' =
     (let ts = runs_of (rx_runData (fst acc)) n' in if n' = n \<and> i < length ts
      then ts[i := (ts ! i)\<lparr>t_metadata := Some (spreadMetadata (t_metadata (ts ! i)) m)\<rparr>] else ts)"
  by (cases acc) (auto simp: moveTaskMetadata_def Let_def)

lemma moveMetadata_other:
  "n' \<noteq> n \<Longrightarrow> runs_of (rx_runData (fst (foldl moveTaskMetadata acc (map (Pair n) ms)))) n' = runs_of (rx_runData (fst acc)) n'"
  by (induction ms arbitrary: acc) (auto simp: moveTaskMetadata_runs Let_def)

lemma moveMetadata_one:
  "runs_of (rx_runData (fst (foldl moveTaskMetadata acc (map (Pair n) (List.enumerate 0 metas))))) n =
     with_metadata metas (runs_of (rx_runData (fst acc)) n)"
  by (induction metas rule: rev_induct)
    (simp_all add: enumerate_append_eq moveTaskMetadata_runs with_metadata_snoc Let_def del: foldl_map)

theorem moveNodeMetadata_correct:
  assumes "distinct (map fst (case_option [] (\<lambda>m. m) (rx_metadata st)))"
  shows "runs_of (rx_runData (fst (moveNodeMetadata st))) n =
    with_metadata (case_option [] (\<lambda>ms. ms) (Option.bind (rx_metadata st) (\<lambda>d. map_of d n))) (runs_of (rx_runData st) n)"
proof -
  let ?entries = "\<lambda>(n, metas). map (Pair n) (List.enumerate 0 metas)"
  have fold: "runs_of (rx_runData (fst (foldl moveTaskMetadata acc (concat (map ?entries ms))))) n =
      with_metadata (case_option [] (\<lambda>ms. ms) (map_of ms n)) (runs_of (rx_runData (fst acc)) n)"
    if "distinct (map fst ms)" for acc ms
    using that
  proof (induction ms arbitrary: acc)
    case (Cons x ms)
    obtain k metas where x: "x = (k, metas)" by (cases x)
    let ?acc = "foldl moveTaskMetadata acc (map (Pair k) (List.enumerate 0 metas))"
    have "runs_of (rx_runData (fst (foldl moveTaskMetadata acc (concat (map ?entries (x # ms)))))) n =
        with_metadata (case_option [] (\<lambda>ms. ms) (map_of ms n)) (runs_of (rx_runData (fst ?acc)) n)"
      using Cons.IH [of ?acc] Cons.prems x by (simp add: foldl_append)
    also have "\<dots> = with_metadata (case_option [] (\<lambda>ms. ms) (map_of (x # ms) n)) (runs_of (rx_runData (fst acc)) n)"
    proof (cases "n = k")
      case True
      then have "map_of ms n = None" using Cons.prems x by (simp add: map_of_eq_None_iff)
      then show ?thesis using True x moveMetadata_one [of acc k metas] by simp
    next
      case False
      then show ?thesis using x moveMetadata_other [OF False, of acc "List.enumerate 0 metas"] by simp
    qed
    finally show ?case .
  qed simp
  have entries: "(\<lambda>(nodeName, metas). map (\<lambda>(index, metadata). (nodeName, index, metadata)) (List.enumerate 0 metas)) = ?entries"
    by (auto simp: fun_eq_iff)
  show ?thesis unfolding moveNodeMetadata_def entries using fold [OF assms, of "(st, [])"] by (cases "rx_metadata st") simp_all
qed

text \<open>After a cancellation no run is running any more, and the others are as they were.\<close>

lemma updateTaskStatusesToCancelled_correct:
  "runs_of (rx_runData (updateTaskStatusesToCancelled st)) n = map (\<lambda>t.
     if t_executionStatus t = Some Running then t\<lparr>t_executionStatus := Some Canceled\<rparr> else t) (runs_of (rx_runData st) n)"
  by (simp add: updateTaskStatusesToCancelled_def runs_of_def map_of_map split: option.split)

end
