(* ===== verification/TaskBroker.thy ===== *)
theory TaskBroker
  imports WorkflowTypes
begin

text \<open>
  The task broker, \<open>packages/cli/src/task-runners/task-broker/task-broker.service.ts\<close>: it matches the requests of
  task requesters (executions) with the offers of task runners, and relays the messages of the tasks.

  The state is that of the class. A request is an object that \<open>pendingTaskRequests\<close> and a running
  \<open>acceptOffer\<close> share, so requests live in a store and are referred to by their place in it. Code that is
  suspended at an \<open>await\<close> is a \<open>Continuation\<close>, which a later step resumes once its promise is settled; any
  order of the resumptions and of the events from outside (messages, timers) is a run. Task ids are numbers
  counted up instead of \<open>nanoid(8)\<close>; a timer is a flag that tells whether it is armed. The messages the broker
  sends are its log. An error \<open>acceptOffer\<close> throws at its end reaches nobody, as its promise is ignored.
\<close>

section \<open>State\<close>

type_synonym taskId = nat
type_synonym request_ref = nat

record TaskOffer =
  o_offerId :: string
  o_runnerId :: string
  o_taskType :: string
  o_validFor :: int
  o_validUntil :: int

record TaskRequest =
  q_requestId :: string
  q_requesterId :: string
  q_taskType :: string
  q_timeout :: bool
  q_acceptInProgress :: bool

record Task =
  k_runnerId :: string
  k_requesterId :: string
  k_taskType :: string
  k_timeout :: bool

datatype ToRunner =
    InfoRequest
  | RunnerRegistered
  | TaskOfferAccept string taskId
  | TaskCancel taskId string
  | TaskSettings taskId json
  | TaskDataResponse taskId string json
  | NodeTypes taskId string json
  | RpcResponse taskId string string json
  | Drain

datatype ToRequester =
    RequestExpired string string
  | TaskReady string taskId
  | TaskDone taskId json
  | TaskError taskId json
  | TaskDataRequest taskId string json
  | NodeTypesRequest taskId string json
  | Rpc taskId string string "json list"

datatype Sent = ToRunner string ToRunner | ToRequester string ToRequester | TimedOutDuringTask

datatype RunnerAnswer = Accepted | Rejected string | Deferred | AcceptTimedOut
datatype RequesterAnswer = Settings json | RequesterRejected string | RequesterTimedOut

text \<open>Where code waits: \<open>acceptOffer\<close> for the runner and then for the requester, the relays and \<open>sendTaskSettings\<close> for
  \<open>getRunnerOrFailTask\<close>, the handlers of done and failed tasks for the message they send.\<close>

datatype Continuation =
    AwaitRunner taskId TaskOffer request_ref "RunnerAnswer option"
  | AwaitRequester taskId request_ref "RequesterAnswer option"
  | SettingsFor taskId string json
  | Relay string ToRunner
  | DropTask taskId
  | FailTimedOut taskId

record TaskBroker =
  b_external :: bool
  b_knownRunners :: "string list"
  b_requesters :: "string list"
  b_tasks :: "(taskId, Task) jsmap"
  b_isDraining :: bool
  b_runnerAcceptRejects :: "taskId list"
  b_requesterAcceptRejects :: "taskId list"
  b_pendingTaskOffers :: "TaskOffer list"
  b_pendingTaskRequests :: "request_ref list"
  b_requests :: "TaskRequest list"
  b_nextTask :: taskId
  b_waiting :: "Continuation list"
  b_sent :: "Sent list"

definition new_TaskBroker :: "bool \<Rightarrow> TaskBroker" where
  "new_TaskBroker external = \<lparr>b_external = external, b_knownRunners = [], b_requesters = [], b_tasks = [], b_isDraining = False,
     b_runnerAcceptRejects = [], b_requesterAcceptRejects = [], b_pendingTaskOffers = [], b_pendingTaskRequests = [],
     b_requests = [], b_nextTask = 0, b_waiting = [], b_sent = []\<rparr>"

section \<open>Messages, runners and requesters\<close>

definition messageRunner :: "string \<Rightarrow> ToRunner \<Rightarrow> TaskBroker \<Rightarrow> TaskBroker" where
  "messageRunner runnerId message b =
     (if runnerId \<in> set (b_knownRunners b) then b\<lparr>b_sent := b_sent b @ [ToRunner runnerId message]\<rparr> else b)"

definition messageRequester :: "string \<Rightarrow> ToRequester \<Rightarrow> TaskBroker \<Rightarrow> TaskBroker" where
  "messageRequester requesterId message b =
     (if requesterId \<in> set (b_requesters b) then b\<lparr>b_sent := b_sent b @ [ToRequester requesterId message]\<rparr> else b)"

definition suspend :: "Continuation \<Rightarrow> TaskBroker \<Rightarrow> TaskBroker" where
  "suspend c b = b\<lparr>b_waiting := b_waiting b @ [c]\<rparr>"

definition registerRunner :: "string \<Rightarrow> TaskBroker \<Rightarrow> TaskBroker" where
  "registerRunner runnerId b =
     messageRunner runnerId RunnerRegistered (b\<lparr>b_knownRunners := List.insert runnerId (b_knownRunners b)\<rparr>)"

definition registerRequester :: "string \<Rightarrow> TaskBroker \<Rightarrow> TaskBroker" where
  "registerRequester requesterId b = b\<lparr>b_requesters := List.insert requesterId (b_requesters b)\<rparr>"

definition deregisterRequester :: "string \<Rightarrow> TaskBroker \<Rightarrow> TaskBroker" where
  "deregisterRequester requesterId b = b\<lparr>b_requesters := removeAll requesterId (b_requesters b)\<rparr>"

text \<open>Settling the promise of a suspended \<open>acceptOffer\<close>; only the first answer counts.\<close>

definition answer_runner :: "taskId \<Rightarrow> RunnerAnswer \<Rightarrow> Continuation \<Rightarrow> Continuation" where
  "answer_runner taskId answer c = (case c of
     AwaitRunner t offer r None \<Rightarrow> if t = taskId then AwaitRunner t offer r (Some answer) else c | _ \<Rightarrow> c)"

definition answer_requester :: "taskId \<Rightarrow> RequesterAnswer \<Rightarrow> Continuation \<Rightarrow> Continuation" where
  "answer_requester taskId answer c = (case c of
     AwaitRequester t r None \<Rightarrow> if t = taskId then AwaitRequester t r (Some answer) else c | _ \<Rightarrow> c)"

text \<open>\<open>handleRunnerAccept\<close>, \<open>handleRunnerReject\<close>, \<open>handleRunnerDeferred\<close>, by the answer; and the two of the requester.\<close>

definition handleRunnerAnswer :: "taskId \<Rightarrow> RunnerAnswer \<Rightarrow> TaskBroker \<Rightarrow> TaskBroker" where
  "handleRunnerAnswer taskId answer b =
     (if taskId \<in> set (b_runnerAcceptRejects b)
      then b\<lparr>b_waiting := map (answer_runner taskId answer) (b_waiting b),
             b_runnerAcceptRejects := removeAll taskId (b_runnerAcceptRejects b)\<rparr>
      else b)"

definition handleRequesterAnswer :: "taskId \<Rightarrow> RequesterAnswer \<Rightarrow> TaskBroker \<Rightarrow> TaskBroker" where
  "handleRequesterAnswer taskId answer b =
     (if taskId \<in> set (b_requesterAcceptRejects b)
      then b\<lparr>b_waiting := map (answer_requester taskId answer) (b_waiting b),
             b_requesterAcceptRejects := removeAll taskId (b_requesterAcceptRejects b)\<rparr>
      else b)"

section \<open>Tasks\<close>

definition cancelTask :: "taskId \<Rightarrow> string \<Rightarrow> TaskBroker \<Rightarrow> TaskBroker" where
  "cancelTask taskId reason b =
     (case map_of (b_tasks b) taskId of
        None \<Rightarrow> b
      | Some task \<Rightarrow> messageRunner (k_runnerId task) (TaskCancel taskId reason) (b\<lparr>b_tasks := AList.delete taskId (b_tasks b)\<rparr>))"

definition failTask :: "taskId \<Rightarrow> json \<Rightarrow> TaskBroker \<Rightarrow> TaskBroker" where
  "failTask taskId error b =
     (case map_of (b_tasks b) taskId of
        None \<Rightarrow> b
      | Some task \<Rightarrow> messageRequester (k_requesterId task) (TaskError taskId error) (b\<lparr>b_tasks := AList.delete taskId (b_tasks b)\<rparr>))"

definition deregisterRunner :: "string \<Rightarrow> json \<Rightarrow> TaskBroker \<Rightarrow> TaskBroker" where
  "deregisterRunner runnerId error b =
     (let b = b\<lparr>b_knownRunners := removeAll runnerId (b_knownRunners b),
                b_pendingTaskOffers := filter (\<lambda>offer. o_runnerId offer \<noteq> runnerId) (b_pendingTaskOffers b)\<rparr>
      in foldl (\<lambda>b (taskId, task).
           if k_runnerId task = runnerId
           then handleRunnerAnswer taskId (Rejected (''The Task Runner ('' @ runnerId @ '') has disconnected'')) (failTask taskId error b)
           else b) b (b_tasks b))"

text \<open>The runner of a task; the error is thrown.\<close>

definition getRunnerOrFailTask :: "taskId \<Rightarrow> TaskBroker \<Rightarrow> TaskBroker \<times> string res" where
  "getRunnerOrFailTask taskId b =
     (case map_of (b_tasks b) taskId of
        None \<Rightarrow> (b, Inl (UnexpectedError ''Cannot find runner, failed to find task''))
      | Some task \<Rightarrow>
          if k_runnerId task \<in> set (b_knownRunners b) then (b, Inr (k_runnerId task))
          else (failTask taskId (JStr ''Cannot find runner, failed to find runner'') b,
                Inl (UnexpectedError ''Cannot find runner, failed to find runner'')))"

text \<open>\<open>handleRequesterRpcResponse\<close>, \<open>handleRequesterDataResponse\<close> and \<open>handleRequesterNodeTypesResponse\<close>, by their message.\<close>

definition relayToRunner :: "taskId \<Rightarrow> ToRunner \<Rightarrow> TaskBroker \<Rightarrow> TaskBroker \<times> js_error option" where
  "relayToRunner taskId message b =
     (case getRunnerOrFailTask taskId b of
        (b, Inl e) \<Rightarrow> (b, Some e)
      | (b, Inr runnerId) \<Rightarrow> (suspend (Relay runnerId message) b, None))"

text \<open>\<open>handleRpcRequest\<close>, \<open>handleDataRequest\<close> and \<open>handleNodeTypesRequest\<close>, by their message.\<close>

definition relayToRequester :: "taskId \<Rightarrow> ToRequester \<Rightarrow> TaskBroker \<Rightarrow> TaskBroker" where
  "relayToRequester taskId message b =
     (case map_of (b_tasks b) taskId of None \<Rightarrow> b | Some task \<Rightarrow> messageRequester (k_requesterId task) message b)"

text \<open>The response is sent to the runner that has the id of the requester, if any.\<close>

definition handleResponse :: "taskId \<Rightarrow> string \<Rightarrow> json \<Rightarrow> TaskBroker \<Rightarrow> TaskBroker" where
  "handleResponse taskId requestId data b =
     (case map_of (b_tasks b) taskId of
        None \<Rightarrow> b
      | Some task \<Rightarrow> messageRunner (k_requesterId task) (TaskDataResponse taskId requestId data) b)"

definition set_task :: "taskId \<Rightarrow> (Task \<Rightarrow> Task) \<Rightarrow> TaskBroker \<Rightarrow> TaskBroker" where
  "set_task taskId f b = b\<lparr>b_tasks := map (\<lambda>(t, task). (t, if t = taskId then f task else task)) (b_tasks b)\<rparr>"

definition taskDoneHandler :: "taskId \<Rightarrow> json \<Rightarrow> TaskBroker \<Rightarrow> TaskBroker" where
  "taskDoneHandler taskId data b =
     (case map_of (b_tasks b) taskId of
        None \<Rightarrow> b
      | Some task \<Rightarrow> suspend (DropTask taskId) (messageRequester (k_requesterId task) (TaskDone taskId data)
          (set_task taskId (\<lambda>t. t\<lparr>k_timeout := False\<rparr>) b)))"

definition taskErrorHandler :: "taskId \<Rightarrow> json \<Rightarrow> TaskBroker \<Rightarrow> TaskBroker" where
  "taskErrorHandler taskId error b =
     (case map_of (b_tasks b) taskId of
        None \<Rightarrow> b
      | Some task \<Rightarrow> suspend (DropTask taskId) (messageRequester (k_requesterId task) (TaskError taskId error)
          (set_task taskId (\<lambda>t. t\<lparr>k_timeout := False\<rparr>) b)))"

definition timed_out :: json where
  "timed_out = JStr ''Task execution timed out''"

definition handleTaskTimeout :: "taskId \<Rightarrow> TaskBroker \<Rightarrow> TaskBroker" where
  "handleTaskTimeout taskId b =
     (case map_of (b_tasks b) taskId of
        None \<Rightarrow> b
      | Some task \<Rightarrow>
          if b_external b
          then suspend (FailTimedOut taskId) (messageRunner (k_runnerId task) (TaskCancel taskId ''Task execution timed out'') b)
          else taskErrorHandler taskId timed_out (b\<lparr>b_sent := b_sent b @ [TimedOutDuringTask]\<rparr>))"

section \<open>Offers and requests\<close>

definition set_request :: "request_ref \<Rightarrow> (TaskRequest \<Rightarrow> TaskRequest) \<Rightarrow> TaskBroker \<Rightarrow> TaskBroker" where
  "set_request r f b = b\<lparr>b_requests := (b_requests b)[r := f (b_requests b ! r)]\<rparr>"

definition expireTasks :: "int \<Rightarrow> TaskBroker \<Rightarrow> TaskBroker" where
  "expireTasks now b =
     b\<lparr>b_pendingTaskOffers := filter (\<lambda>offer. o_validFor offer = -1 \<or> \<not> o_validUntil offer < now) (b_pendingTaskOffers b)\<rparr>"

text \<open>\<open>acceptOffer\<close> up to the answer of the runner.\<close>

definition acceptOffer :: "TaskOffer \<Rightarrow> request_ref \<Rightarrow> TaskBroker \<Rightarrow> TaskBroker" where
  "acceptOffer offer request b =
     (let taskId = b_nextTask b
      in suspend (AwaitRunner taskId offer request None) (messageRunner (o_runnerId offer) (TaskOfferAccept (o_offerId offer) taskId)
           (b\<lparr>b_nextTask := Suc taskId, b_runnerAcceptRejects := List.insert taskId (b_runnerAcceptRejects b)\<rparr>)))"

text \<open>One request of \<open>settleTasks\<close>: it gets the first offer of its type.\<close>

definition settleRequest :: "TaskBroker \<Rightarrow> request_ref \<Rightarrow> TaskBroker" where
  "settleRequest b request =
     (if q_acceptInProgress (b_requests b ! request) then b
      else case List.extract (\<lambda>offer. o_taskType offer = q_taskType (b_requests b ! request)) (b_pendingTaskOffers b) of
        None \<Rightarrow> b
      | Some (before, offer, after) \<Rightarrow>
          acceptOffer offer request ((set_request request (\<lambda>q. q\<lparr>q_acceptInProgress := True\<rparr>) b)
            \<lparr>b_pendingTaskOffers := before @ after\<rparr>))"

definition settleTasks :: "int \<Rightarrow> TaskBroker \<Rightarrow> TaskBroker" where
  "settleTasks now b = (let b = expireTasks now b in foldl settleRequest b (b_pendingTaskRequests b))"

text \<open>A request comes with its timer armed.\<close>

definition taskRequested :: "int \<Rightarrow> string \<Rightarrow> string \<Rightarrow> string \<Rightarrow> TaskBroker \<Rightarrow> TaskBroker" where
  "taskRequested now requestId requesterId taskType b =
     (if b_isDraining b then messageRequester requesterId (RequestExpired requestId ''draining'') b
      else settleTasks now (b\<lparr>b_requests := b_requests b @ [\<lparr>q_requestId = requestId, q_requesterId = requesterId,
             q_taskType = taskType, q_timeout = True, q_acceptInProgress = False\<rparr>],
           b_pendingTaskRequests := b_pendingTaskRequests b @ [length (b_requests b)]\<rparr>))"

definition taskOffered :: "int \<Rightarrow> TaskOffer \<Rightarrow> TaskBroker \<Rightarrow> TaskBroker" where
  "taskOffered now offer b = settleTasks now (b\<lparr>b_pendingTaskOffers := b_pendingTaskOffers b @ [offer]\<rparr>)"

definition handleRequestTimeout :: "string \<Rightarrow> TaskBroker \<Rightarrow> TaskBroker" where
  "handleRequestTimeout requestId b =
     (case List.extract (\<lambda>r. q_requestId (b_requests b ! r) = requestId) (b_pendingTaskRequests b) of
        None \<Rightarrow> b
      | Some (before, r, after) \<Rightarrow> messageRequester (q_requesterId (b_requests b ! r)) (RequestExpired requestId ''timeout'')
          ((set_request r (\<lambda>q. q\<lparr>q_timeout := False\<rparr>) b)\<lparr>b_pendingTaskRequests := before @ after\<rparr>))"

section \<open>Resuming suspended code\<close>

definition runnerAnswered :: "taskId \<Rightarrow> TaskOffer \<Rightarrow> request_ref \<Rightarrow> RunnerAnswer \<Rightarrow> TaskBroker \<Rightarrow> TaskBroker" where
  "runnerAnswered taskId offer request answer b =
     (case answer of
        Accepted \<Rightarrow>
          (let b = set_request request (\<lambda>q. q\<lparr>q_timeout := False\<rparr>) b;
               q = b_requests b ! request;
               b = b\<lparr>b_tasks := AList.update taskId \<lparr>k_runnerId = o_runnerId offer, k_requesterId = q_requesterId q,
                 k_taskType = o_taskType offer, k_timeout = False\<rparr> (b_tasks b)\<rparr> in
           case List.extract (\<lambda>r. q_requestId (b_requests b ! r) = q_requestId q) (b_pendingTaskRequests b) of
             None \<Rightarrow> b
           | Some (before, _, after) \<Rightarrow>
               suspend (AwaitRequester taskId request None) (messageRequester (q_requesterId q) (TaskReady (q_requestId q) taskId)
                 (b\<lparr>b_pendingTaskRequests := before @ after,
                    b_requesterAcceptRejects := List.insert taskId (b_requesterAcceptRejects b)\<rparr>)))
      | Deferred \<Rightarrow> (set_request request (\<lambda>q. q\<lparr>q_acceptInProgress := False, q_timeout := True\<rparr>) b)
          \<lparr>b_pendingTaskRequests := b_pendingTaskRequests b @ [request]\<rparr>
      | _ \<Rightarrow> set_request request (\<lambda>q. q\<lparr>q_acceptInProgress := False\<rparr>) b)"

definition sendTaskSettings :: "taskId \<Rightarrow> json \<Rightarrow> TaskBroker \<Rightarrow> TaskBroker" where
  "sendTaskSettings taskId settings b =
     (case getRunnerOrFailTask taskId b of
        (b, Inl e) \<Rightarrow> cancelTask taskId ''Unknown reason'' b
      | (b, Inr runnerId) \<Rightarrow> suspend (SettingsFor taskId runnerId settings) b)"

definition requesterAnswered :: "taskId \<Rightarrow> RequesterAnswer \<Rightarrow> TaskBroker \<Rightarrow> TaskBroker" where
  "requesterAnswered taskId answer b =
     (case answer of
        Settings settings \<Rightarrow> sendTaskSettings taskId settings b
      | RequesterRejected reason \<Rightarrow> cancelTask taskId reason b
      | RequesterTimedOut \<Rightarrow> cancelTask taskId ''Unknown reason'' b)"

fun ready :: "Continuation \<Rightarrow> bool" where
  "ready (AwaitRunner _ _ _ None) = False"
| "ready (AwaitRequester _ _ None) = False"
| "ready _ = True"

fun resume :: "Continuation \<Rightarrow> TaskBroker \<Rightarrow> TaskBroker" where
  "resume (AwaitRunner taskId offer request (Some answer)) b = runnerAnswered taskId offer request answer b"
| "resume (AwaitRequester taskId _ (Some answer)) b = requesterAnswered taskId answer b"
| "resume (SettingsFor taskId runnerId settings) b =
     (if map_of (b_tasks b) taskId = None then b
      else messageRunner runnerId (TaskSettings taskId settings) (set_task taskId (\<lambda>t. t\<lparr>k_timeout := True\<rparr>) b))"
| "resume (Relay runnerId message) b = messageRunner runnerId message b"
| "resume (DropTask taskId) b = b\<lparr>b_tasks := AList.delete taskId (b_tasks b)\<rparr>"
| "resume (FailTimedOut taskId) b = taskErrorHandler taskId timed_out b"
| "resume _ b = b"

section \<open>Events\<close>

datatype RunnerMessage =
    RunnerTaskAccepted taskId
  | RunnerTaskRejected taskId string
  | RunnerTaskDeferred taskId
  | RunnerTaskOffer string string int
  | RunnerTaskDone taskId json
  | RunnerTaskError taskId json
  | RunnerDataRequest taskId string json
  | RunnerNodeTypesRequest taskId string json
  | RunnerRpc taskId string string "json list"
  | RunnerInfo string "string list"

datatype RequesterMessage =
    RequesterTaskSettings taskId json
  | RequesterTaskCancel taskId string
  | RequesterTaskRequest string string
  | RequesterDataResponse taskId string json
  | RequesterNodeTypesResponse taskId string json
  | RequesterRpcResponse taskId string string json

definition onRunnerMessage :: "int \<Rightarrow> string \<Rightarrow> RunnerMessage \<Rightarrow> TaskBroker \<Rightarrow> TaskBroker" where
  "onRunnerMessage now runnerId message b =
     (if runnerId \<notin> set (b_knownRunners b) then b
      else case message of
        RunnerTaskAccepted taskId \<Rightarrow> handleRunnerAnswer taskId Accepted b
      | RunnerTaskRejected taskId reason \<Rightarrow> handleRunnerAnswer taskId (Rejected reason) b
      | RunnerTaskDeferred taskId \<Rightarrow> handleRunnerAnswer taskId Deferred b
      | RunnerTaskOffer offerId taskType validFor \<Rightarrow> taskOffered now \<lparr>o_offerId = offerId, o_runnerId = runnerId,
          o_taskType = taskType, o_validFor = validFor, o_validUntil = (if validFor = -1 then 0 else now + validFor * 1000000)\<rparr> b
      | RunnerTaskDone taskId data \<Rightarrow> taskDoneHandler taskId data b
      | RunnerTaskError taskId error \<Rightarrow> taskErrorHandler taskId error b
      | RunnerDataRequest taskId requestId params \<Rightarrow> relayToRequester taskId (TaskDataRequest taskId requestId params) b
      | RunnerNodeTypesRequest taskId requestId params \<Rightarrow> relayToRequester taskId (NodeTypesRequest taskId requestId params) b
      | RunnerRpc taskId callId name params \<Rightarrow> relayToRequester taskId (Rpc taskId callId name params) b
      | RunnerInfo name types \<Rightarrow> b)"

definition onRequesterMessage :: "int \<Rightarrow> string \<Rightarrow> RequesterMessage \<Rightarrow> TaskBroker \<Rightarrow> TaskBroker \<times> js_error option" where
  "onRequesterMessage now requesterId message b =
     (case message of
        RequesterTaskSettings taskId settings \<Rightarrow> (handleRequesterAnswer taskId (Settings settings) b, None)
      | RequesterTaskCancel taskId reason \<Rightarrow> (cancelTask taskId reason b, None)
      | RequesterTaskRequest requestId taskType \<Rightarrow> (taskRequested now requestId requesterId taskType b, None)
      | RequesterDataResponse taskId requestId data \<Rightarrow> relayToRunner taskId (TaskDataResponse taskId requestId data) b
      | RequesterNodeTypesResponse taskId requestId nodeTypes \<Rightarrow> relayToRunner taskId (NodeTypes taskId requestId nodeTypes) b
      | RequesterRpcResponse taskId callId status data \<Rightarrow> relayToRunner taskId (RpcResponse taskId callId status data) b)"

text \<open>What happens to the broker: calls from the servers of the two sides, timers, and resumed code.\<close>

datatype BrokerEvent =
    RegisterRunner string
  | DeregisterRunner string json
  | RegisterRequester string
  | DeregisterRequester string
  | FromRunner int string RunnerMessage
  | FromRequester int string RequesterMessage
  | RequestTimeout request_ref
  | RunnerAcceptTimeout taskId
  | RequesterAcceptTimeout taskId
  | TaskTimeout taskId
  | Resume nat
  | StartDraining

definition enabled :: "BrokerEvent \<Rightarrow> TaskBroker \<Rightarrow> bool" where
  "enabled ev b = (case ev of
     RequestTimeout r \<Rightarrow> r < length (b_requests b) \<and> q_timeout (b_requests b ! r)
   | TaskTimeout taskId \<Rightarrow> (case map_of (b_tasks b) taskId of None \<Rightarrow> False | Some task \<Rightarrow> k_timeout task)
   | Resume i \<Rightarrow> i < length (b_waiting b) \<and> ready (b_waiting b ! i)
   | _ \<Rightarrow> True)"

definition occur :: "BrokerEvent \<Rightarrow> TaskBroker \<Rightarrow> TaskBroker" where
  "occur ev b = (case ev of
     RegisterRunner runnerId \<Rightarrow> registerRunner runnerId b
   | DeregisterRunner runnerId error \<Rightarrow> deregisterRunner runnerId error b
   | RegisterRequester requesterId \<Rightarrow> registerRequester requesterId b
   | DeregisterRequester requesterId \<Rightarrow> deregisterRequester requesterId b
   | FromRunner now runnerId message \<Rightarrow> onRunnerMessage now runnerId message b
   | FromRequester now requesterId message \<Rightarrow> fst (onRequesterMessage now requesterId message b)
   | RequestTimeout r \<Rightarrow> handleRequestTimeout (q_requestId (b_requests b ! r)) (set_request r (\<lambda>q. q\<lparr>q_timeout := False\<rparr>) b)
   | RunnerAcceptTimeout taskId \<Rightarrow> b\<lparr>b_waiting := map (answer_runner taskId AcceptTimedOut) (b_waiting b)\<rparr>
   | RequesterAcceptTimeout taskId \<Rightarrow> b\<lparr>b_waiting := map (answer_requester taskId RequesterTimedOut) (b_waiting b)\<rparr>
   | TaskTimeout taskId \<Rightarrow> handleTaskTimeout taskId (set_task taskId (\<lambda>t. t\<lparr>k_timeout := False\<rparr>) b)
   | Resume i \<Rightarrow> resume (b_waiting b ! i) (b\<lparr>b_waiting := take i (b_waiting b) @ drop (Suc i) (b_waiting b)\<rparr>)
   | StartDraining \<Rightarrow> b\<lparr>b_isDraining := True\<rparr>)"

inductive broker_step :: "TaskBroker \<Rightarrow> TaskBroker \<Rightarrow> bool" where
  Event: "enabled ev b \<Longrightarrow> broker_step b (occur ev b)"

inductive_cases broker_stepE: "broker_step b b'"

text \<open>A run of given events, for examples.\<close>

fun run_events :: "BrokerEvent list \<Rightarrow> TaskBroker \<Rightarrow> TaskBroker option" where
  "run_events [] b = Some b"
| "run_events (ev # evs) b = (if enabled ev b then run_events evs (occur ev b) else None)"

lemma run_events_reach: "run_events evs b = Some b' \<Longrightarrow> broker_step\<^sup>*\<^sup>* b b'"
proof (induction evs arbitrary: b)
  case (Cons ev evs)
  then show ?case by (auto split: if_splits intro: converse_rtranclp_into_rtranclp broker_step.Event)
qed simp

lemma run_events_reaches:
  "(case run_events evs b of None \<Rightarrow> False | Some b' \<Rightarrow> P b') \<Longrightarrow> \<exists>b'. broker_step\<^sup>*\<^sup>* b b' \<and> P b'"
  by (auto dest: run_events_reach split: option.splits)

section \<open>No request is offered twice\<close>

text \<open>The request a suspended \<open>acceptOffer\<close> waits for a runner with.\<close>

definition offered :: "Continuation \<Rightarrow> request_ref list" where
  "offered c = (case c of AwaitRunner _ _ r _ \<Rightarrow> [r] | _ \<Rightarrow> [])"

definition broker_ok :: "TaskBroker \<Rightarrow> bool" where
  "broker_ok b \<longleftrightarrow>
     distinct (concat (map offered (b_waiting b))) \<and>
     (\<forall>r \<in> set (concat (map offered (b_waiting b))). r < length (b_requests b) \<and> q_acceptInProgress (b_requests b ! r)) \<and>
     (\<forall>t offer r a. AwaitRunner t offer r a \<in> set (b_waiting b) \<longrightarrow> t < b_nextTask b \<and> (a = Some Accepted \<longrightarrow> t \<notin> set (b_runnerAcceptRejects b))) \<and>
     (\<forall>t \<in> set (b_runnerAcceptRejects b). t < b_nextTask b) \<and>
     (\<forall>t. map_of (b_tasks b) t \<noteq> None \<longrightarrow> t < b_nextTask b \<and> t \<notin> set (b_runnerAcceptRejects b)) \<and>
     (\<forall>r \<in> set (b_pendingTaskRequests b). r < length (b_requests b))"

text \<open>Steps that leave alone what the invariant is about, or only take away from it.\<close>

definition core_le :: "TaskBroker \<Rightarrow> TaskBroker \<Rightarrow> bool" where
  "core_le b b' \<longleftrightarrow> b_waiting b' = b_waiting b \<and> set (b_runnerAcceptRejects b') = set (b_runnerAcceptRejects b) \<and> b_nextTask b' = b_nextTask b \<and>
     set (b_pendingTaskRequests b') \<subseteq> set (b_pendingTaskRequests b) \<and> (\<forall>t. map_of (b_tasks b) t = None \<longrightarrow> map_of (b_tasks b') t = None) \<and>
     map q_acceptInProgress (b_requests b') = map q_acceptInProgress (b_requests b)"

lemma core_le_refl [simp]: "core_le b b"
  by (simp add: core_le_def)

lemma core_le_trans: "core_le a b \<Longrightarrow> core_le b c \<Longrightarrow> core_le a c"
  unfolding core_le_def by (elim conjE, intro conjI) (simp, simp, simp, blast, blast, simp)

lemma core_leD:
  assumes "core_le b b'"
  shows "b_waiting b' = b_waiting b" "set (b_runnerAcceptRejects b') = set (b_runnerAcceptRejects b)" "b_nextTask b' = b_nextTask b"
    "set (b_pendingTaskRequests b') \<subseteq> set (b_pendingTaskRequests b)"
    "map q_acceptInProgress (b_requests b') = map q_acceptInProgress (b_requests b)"
    "map_of (b_tasks b) t = None \<Longrightarrow> map_of (b_tasks b') t = None"
  using assms unfolding core_le_def by simp_all

lemma core_le_ok:
  assumes "core_le b b'" and ok: "broker_ok b"
  shows "broker_ok b'"
proof -
  note c = core_leD [OF assms(1)]
  have tasks: "map_of (b_tasks b) t \<noteq> None" if "map_of (b_tasks b') t \<noteq> None" for t
    using that core_leD(6) [OF assms(1), of t] by (rule contrapos_nn)
  have len: "length (b_requests b') = length (b_requests b)" using c(5) by (metis length_map)
  have acc: "q_acceptInProgress (b_requests b' ! r) = q_acceptInProgress (b_requests b ! r)" if "r < length (b_requests b)" for r
    using c(5) that len by (metis nth_map)
  show ?thesis
    unfolding broker_ok_def c(1,2,3) len
  proof (intro conjI)
    show "\<forall>r \<in> set (concat (map offered (b_waiting b))). r < length (b_requests b) \<and> q_acceptInProgress (b_requests b' ! r)"
      using ok acc unfolding broker_ok_def by blast
    show "\<forall>t. map_of (b_tasks b') t \<noteq> None \<longrightarrow> t < b_nextTask b \<and> t \<notin> set (b_runnerAcceptRejects b)"
      using ok tasks unfolding broker_ok_def by blast
    show "\<forall>r \<in> set (b_pendingTaskRequests b'). r < length (b_requests b)" using ok c(4) unfolding broker_ok_def by blast
  qed (insert ok, unfold broker_ok_def, elim conjE, assumption)+
qed

lemma set_request_core: "(\<And>q. q_acceptInProgress (f q) = q_acceptInProgress q) \<Longrightarrow> core_le b (set_request r f b)"
  by (cases "r < length (b_requests b)")
    (auto simp: core_le_def set_request_def nth_list_update list_update_beyond intro!: nth_equalityI split: if_splits)

lemma core_le_ops [simp]:
  "core_le b (messageRunner r m b') = core_le b b'" "core_le b (messageRequester q n b') = core_le b b'"
  "core_le b (b'\<lparr>b_sent := s\<rparr>) = core_le b b'" "core_le b (b'\<lparr>b_knownRunners := k\<rparr>) = core_le b b'"
  "core_le b (b'\<lparr>b_requesters := qs\<rparr>) = core_le b b'" "core_le b (b'\<lparr>b_isDraining := d\<rparr>) = core_le b b'"
  "core_le b (b'\<lparr>b_pendingTaskOffers := os\<rparr>) = core_le b b'" "core_le b (b'\<lparr>b_requesterAcceptRejects := ts\<rparr>) = core_le b b'"
  by (simp_all add: core_le_def messageRunner_def messageRequester_def)

lemma core_le_tasks:
  "core_le b (b\<lparr>b_tasks := AList.delete t (b_tasks b)\<rparr>)" "core_le b (set_task t g b)"
  by (force simp: core_le_def set_task_def delete_conv' map_of_eq_None_iff)+

lemma cancelTask_core: "core_le b (cancelTask t reason b)"
  by (simp add: cancelTask_def core_le_tasks split: option.split)

lemma failTask_core: "core_le b (failTask t error b)"
  by (simp add: failTask_def core_le_tasks split: option.split)

lemma ok_drop_task: "broker_ok b \<Longrightarrow> broker_ok (b\<lparr>b_tasks := AList.delete t (b_tasks b)\<rparr>)"
  by (rule core_le_ok [OF core_le_tasks(1)])

lemma ok_suspend: "broker_ok b \<Longrightarrow> offered c = [] \<Longrightarrow> broker_ok (suspend c b)"
  by (auto simp: broker_ok_def suspend_def offered_def split: Continuation.splits)

lemma offered_answer [simp]: "offered (answer_runner t a c) = offered c" "offered (answer_requester t a' c) = offered c"
  by (auto simp: offered_def answer_runner_def answer_requester_def split: Continuation.splits option.splits)

lemma offered_answers [simp]:
  "map (offered \<circ> answer_runner t a) cs = map offered cs" "map (offered \<circ> answer_requester t a') cs = map offered cs"
  by simp_all

lemma answered_runner:
  "answer_runner taskId answer c = AwaitRunner t offer r a \<longleftrightarrow>
     c = AwaitRunner t offer r a \<and> (t = taskId \<longrightarrow> a \<noteq> None) \<or> (c = AwaitRunner t offer r None \<and> t = taskId \<and> a = Some answer)"
  by (auto simp: answer_runner_def split: Continuation.splits option.splits)

lemma answered_requester: "answer_requester taskId answer c = AwaitRunner t offer r a \<longleftrightarrow> c = AwaitRunner t offer r a"
  by (auto simp: answer_requester_def split: Continuation.splits option.splits)

lemma ok_answer_runner:
  assumes "broker_ok b" and "set ts \<subseteq> set (b_runnerAcceptRejects b)" and "answer = Accepted \<longrightarrow> taskId \<notin> set ts"
  shows "broker_ok (b\<lparr>b_waiting := map (answer_runner taskId answer) (b_waiting b), b_runnerAcceptRejects := ts\<rparr>)"
proof -
  have "t < b_nextTask b \<and> (a = Some Accepted \<longrightarrow> t \<notin> set ts)"
    if answered: "AwaitRunner t offer r a \<in> set (map (answer_runner taskId answer) (b_waiting b))" for t offer r a
  proof -
    obtain c where c: "c \<in> set (b_waiting b)" "answer_runner taskId answer c = AwaitRunner t offer r a" using answered by auto
    then consider "c = AwaitRunner t offer r a" | "c = AwaitRunner t offer r None" "t = taskId" "a = Some answer"
      unfolding answered_runner by blast
    then show ?thesis using c(1) assms unfolding broker_ok_def by cases auto
  qed
  then show ?thesis using assms(1,2) unfolding broker_ok_def by auto
qed

lemma ok_answer_requester:
  assumes "broker_ok b"
  shows "broker_ok (b\<lparr>b_waiting := map (answer_requester taskId answer) (b_waiting b), b_requesterAcceptRejects := ts\<rparr>)"
proof -
  have "(AwaitRunner t offer r a \<in> set (map (answer_requester taskId answer) ws)) = (AwaitRunner t offer r a \<in> set ws)" for t offer r a ws
    using answered_requester [of taskId answer _ t offer r a] by (induction ws) (auto simp: eq_commute [of "AwaitRunner _ _ _ _"])
  then show ?thesis using assms unfolding broker_ok_def by simp
qed

lemma ok_handleRunnerAnswer: "broker_ok b \<Longrightarrow> broker_ok (handleRunnerAnswer t a b)"
  by (auto simp: handleRunnerAnswer_def intro!: ok_answer_runner)

lemma ok_handleRequesterAnswer: "broker_ok b \<Longrightarrow> broker_ok (handleRequesterAnswer t a b)"
  by (simp add: handleRequesterAnswer_def ok_answer_requester)

text \<open>The tasks of a runner that leaves were accepted by it, so there is no answer left to reject.\<close>

lemma deregisterRunner_core:
  assumes "broker_ok b"
  shows "core_le b (deregisterRunner runnerId error b)"
proof -
  have fold: "core_le b' (foldl (\<lambda>b (taskId, task). if k_runnerId task = runnerId
      then handleRunnerAnswer taskId (Rejected (''The Task Runner ('' @ runnerId @ '') has disconnected'')) (failTask taskId error b)
      else b) b' ts)"
    if "\<forall>(t, task) \<in> set ts. t \<notin> set (b_runnerAcceptRejects b')" for ts b'
    using that
  proof (induction ts arbitrary: b')
    case (Cons x ts)
    obtain t task where x: "x = (t, task)" by (cases x)
    have core: "core_le b' (failTask t error b')" by (rule failTask_core)
    then have rej: "set (b_runnerAcceptRejects (failTask t error b')) = set (b_runnerAcceptRejects b')" by (rule core_leD)
    then have same: "handleRunnerAnswer t reason (failTask t error b') = failTask t error b'" for reason
      using Cons.prems x by (simp add: handleRunnerAnswer_def)
    show ?case
      using Cons.IH [of "failTask t error b'"] Cons.IH [of b'] Cons.prems x rej core_le_trans [OF core] same by simp
  qed simp
  have tasks: "\<forall>(t, task) \<in> set (b_tasks b). t \<notin> set (b_runnerAcceptRejects b)"
  proof -
    have "t \<notin> set (b_runnerAcceptRejects b)" if "(t, task) \<in> set (b_tasks b)" for t task
      using that assms unfolding broker_ok_def by (metis map_of_eq_None_iff fst_conv image_eqI)
    then show ?thesis by blast
  qed
  let ?b = "b\<lparr>b_knownRunners := removeAll runnerId (b_knownRunners b),
    b_pendingTaskOffers := filter (\<lambda>offer. o_runnerId offer \<noteq> runnerId) (b_pendingTaskOffers b)\<rparr>"
  have "core_le ?b (deregisterRunner runnerId error b)"
    unfolding deregisterRunner_def Let_def by (rule fold) (use tasks in simp)
  moreover have "core_le b ?b" by simp
  ultimately show ?thesis by (rule core_le_trans [rotated])
qed

lemma ok_simps [simp]:
  "broker_ok (messageRunner r m b) = broker_ok b" "broker_ok (messageRequester q n b) = broker_ok b"
  "broker_ok (b\<lparr>b_sent := s\<rparr>) = broker_ok b" "broker_ok (b\<lparr>b_knownRunners := k\<rparr>) = broker_ok b"
  "broker_ok (b\<lparr>b_requesters := qs\<rparr>) = broker_ok b" "broker_ok (b\<lparr>b_isDraining := d\<rparr>) = broker_ok b"
  "broker_ok (b\<lparr>b_pendingTaskOffers := os\<rparr>) = broker_ok b" "broker_ok (b\<lparr>b_requesterAcceptRejects := ts\<rparr>) = broker_ok b"
  by (simp_all add: broker_ok_def messageRunner_def messageRequester_def)

lemma ok_set_task: "broker_ok b \<Longrightarrow> broker_ok (set_task t g b)"
  by (rule core_le_ok [OF core_le_tasks(2)])

lemma ok_cancelTask: "broker_ok b \<Longrightarrow> broker_ok (cancelTask t reason b)"
  by (rule core_le_ok [OF cancelTask_core])

lemma ok_failTask: "broker_ok b \<Longrightarrow> broker_ok (failTask t error b)"
  by (rule core_le_ok [OF failTask_core])

lemma ok_set_request: "broker_ok b \<Longrightarrow> (\<And>q. q_acceptInProgress (f q) = q_acceptInProgress q) \<Longrightarrow> broker_ok (set_request r f b)"
  by (rule core_le_ok [OF set_request_core])

lemma ok_getRunnerOrFailTask: "broker_ok b \<Longrightarrow> broker_ok (fst (getRunnerOrFailTask t b))"
  by (simp add: getRunnerOrFailTask_def ok_failTask split: option.split)

lemma ok_relayToRunner: "broker_ok b \<Longrightarrow> broker_ok (fst (relayToRunner t m b))"
  using ok_getRunnerOrFailTask [of b t]
  by (auto simp: relayToRunner_def offered_def intro!: ok_suspend split: prod.split sum.split)

lemma ok_taskDone: "broker_ok b \<Longrightarrow> broker_ok (taskDoneHandler t d b)" "broker_ok b \<Longrightarrow> broker_ok (taskErrorHandler t e b)"
  by (auto simp: taskDoneHandler_def taskErrorHandler_def offered_def intro!: ok_suspend ok_set_task split: option.split)

lemma ok_handleTaskTimeout: "broker_ok b \<Longrightarrow> broker_ok (handleTaskTimeout t b)"
  by (auto simp: handleTaskTimeout_def offered_def intro!: ok_suspend ok_taskDone split: option.split)

lemma ok_relayToRequester: "broker_ok b \<Longrightarrow> broker_ok (relayToRequester t m b)"
  by (simp add: relayToRequester_def split: option.split)

lemma extract_parts:
  "List.extract P xs = Some (before, x, after) \<Longrightarrow> xs = before @ x # after \<and> P x \<and> (\<forall>y \<in> set before. \<not> P y)"
  by (simp add: extract_Some_iff)

text \<open>A request that is given an offer waits for no other runner.\<close>

lemma ok_settleRequest:
  assumes ok: "broker_ok b" and r: "r < length (b_requests b)"
  shows "broker_ok (settleRequest b r)"
proof (cases "q_acceptInProgress (b_requests b ! r) \<or>
    List.extract (\<lambda>offer. o_taskType offer = q_taskType (b_requests b ! r)) (b_pendingTaskOffers b) = None")
  case True
  then show ?thesis using ok by (auto simp: settleRequest_def)
next
  case False
  then obtain before offer after where ex:
      "List.extract (\<lambda>offer. o_taskType offer = q_taskType (b_requests b ! r)) (b_pendingTaskOffers b) = Some (before, offer, after)"
    by auto
  have free: "r \<notin> set (concat (map offered (b_waiting b)))" using ok False unfolding broker_ok_def by blast
  let ?b = "(set_request r (\<lambda>q. q\<lparr>q_acceptInProgress := True\<rparr>) b)\<lparr>b_nextTask := Suc (b_nextTask b),
    b_runnerAcceptRejects := List.insert (b_nextTask b) (b_runnerAcceptRejects b),
    b_waiting := b_waiting b @ [AwaitRunner (b_nextTask b) offer r None]\<rparr>"
  have "broker_ok ?b"
    unfolding broker_ok_def
  proof (intro conjI)
    show "distinct (concat (map offered (b_waiting ?b)))" using ok free by (simp add: broker_ok_def offered_def)
    show "\<forall>q \<in> set (concat (map offered (b_waiting ?b))). q < length (b_requests ?b) \<and> q_acceptInProgress (b_requests ?b ! q)"
      using ok r by (auto simp: broker_ok_def offered_def set_request_def nth_list_update)
    show "\<forall>t offer q a. AwaitRunner t offer q a \<in> set (b_waiting ?b) \<longrightarrow>
        t < b_nextTask ?b \<and> (a = Some Accepted \<longrightarrow> t \<notin> set (b_runnerAcceptRejects ?b))"
      using ok by (fastforce simp: broker_ok_def)
    show "\<forall>t \<in> set (b_runnerAcceptRejects ?b). t < b_nextTask ?b" using ok by (auto simp: broker_ok_def)
    show "\<forall>t. map_of (b_tasks ?b) t \<noteq> None \<longrightarrow> t < b_nextTask ?b \<and> t \<notin> set (b_runnerAcceptRejects ?b)"
    proof (intro allI impI)
      fix t assume "map_of (b_tasks ?b) t \<noteq> None"
      then have "map_of (b_tasks b) t \<noteq> None" by (simp add: set_request_def)
      then have "t < b_nextTask b \<and> t \<notin> set (b_runnerAcceptRejects b)" using ok unfolding broker_ok_def by blast
      then show "t < b_nextTask ?b \<and> t \<notin> set (b_runnerAcceptRejects ?b)" by simp
    qed
    show "\<forall>q \<in> set (b_pendingTaskRequests ?b). q < length (b_requests ?b)"
      using ok by (simp add: broker_ok_def set_request_def)
  qed
  moreover have "settleRequest b r = messageRunner (o_runnerId offer) (TaskOfferAccept (o_offerId offer) (b_nextTask b))
      (?b\<lparr>b_pendingTaskOffers := before @ after\<rparr>)"
    using False ex by (auto simp: settleRequest_def acceptOffer_def suspend_def messageRunner_def set_request_def Let_def)
  ultimately show ?thesis by simp
qed

lemma settleRequest_requests [simp]: "length (b_requests (settleRequest b r)) = length (b_requests b)"
  "b_pendingTaskRequests (settleRequest b r) = b_pendingTaskRequests b"
  by (auto simp: settleRequest_def acceptOffer_def suspend_def messageRunner_def set_request_def Let_def split: option.split)

lemma ok_settleRequests:
  "broker_ok b \<Longrightarrow> \<forall>r \<in> set rs. r < length (b_requests b) \<Longrightarrow> broker_ok (foldl settleRequest b rs)"
  by (induction rs arbitrary: b) (simp_all add: ok_settleRequest)

lemma ok_settleTasks: "broker_ok b \<Longrightarrow> broker_ok (settleTasks now b)"
  unfolding settleTasks_def Let_def by (rule ok_settleRequests) (simp_all add: expireTasks_def broker_ok_def)

lemma ok_taskRequested: "broker_ok b \<Longrightarrow> broker_ok (taskRequested now requestId requesterId ty b)"
  unfolding taskRequested_def
  by (auto intro!: ok_settleTasks) (auto simp: broker_ok_def nth_append intro: less_SucI)

lemma ok_taskOffered: "broker_ok b \<Longrightarrow> broker_ok (taskOffered now offer b)"
  by (simp add: taskOffered_def ok_settleTasks)

lemma ok_fewer_requests: "broker_ok b \<Longrightarrow> set rs \<subseteq> set (b_pendingTaskRequests b) \<Longrightarrow> broker_ok (b\<lparr>b_pendingTaskRequests := rs\<rparr>)"
  by (auto simp: broker_ok_def)

lemma ok_handleRequestTimeout: "broker_ok b \<Longrightarrow> broker_ok (handleRequestTimeout requestId b)"
  by (auto simp: handleRequestTimeout_def set_request_def dest: extract_parts split: option.split
    intro!: ok_fewer_requests ok_set_request [unfolded set_request_def])

text \<open>Code that waited for a runner is resumed once.\<close>

lemma ok_runnerAnswered:
  assumes ok: "broker_ok b" and i: "i < length (b_waiting b)" "b_waiting b ! i = AwaitRunner t offer r (Some answer)"
  shows "broker_ok (runnerAnswered t offer r answer (b\<lparr>b_waiting := take i (b_waiting b) @ drop (Suc i) (b_waiting b)\<rparr>))"
proof -
  let ?ws = "take i (b_waiting b) @ drop (Suc i) (b_waiting b)"
  have split: "b_waiting b = take i (b_waiting b) @ AwaitRunner t offer r (Some answer) # drop (Suc i) (b_waiting b)"
    using i by (metis id_take_nth_drop)
  have mem: "AwaitRunner t offer r (Some answer) \<in> set (b_waiting b)" using i by (metis nth_mem)
  have offs: "concat (map offered (b_waiting b)) = concat (map offered (take i (b_waiting b))) @ r # concat (map offered (drop (Suc i) (b_waiting b)))"
    by (subst split) (simp add: offered_def)
  have r: "r < length (b_requests b)" "r \<notin> set (concat (map offered ?ws))"
    using ok offs unfolding broker_ok_def by auto
  have sub: "set ?ws \<subseteq> set (b_waiting b)" by (auto dest: in_set_takeD in_set_dropD)
  have ok1: "broker_ok (b\<lparr>b_waiting := ?ws\<rparr>)"
    using ok offs sub unfolding broker_ok_def by auto
  have progress: "broker_ok (set_request r f (b\<lparr>b_waiting := ?ws\<rparr>))" for f
    using ok1 r unfolding broker_ok_def by (auto simp: set_request_def nth_list_update)
  show ?thesis
  proof (cases answer)
    case Accepted
    have t: "t < b_nextTask b" "t \<notin> set (b_runnerAcceptRejects b)" using ok mem Accepted unfolding broker_ok_def by blast+
    let ?b = "set_request r (\<lambda>q. q\<lparr>q_timeout := False\<rparr>) (b\<lparr>b_waiting := ?ws\<rparr>)"
    have "broker_ok (?b\<lparr>b_tasks := AList.update t task (b_tasks b)\<rparr>)" for task
      using progress [of "\<lambda>q. q\<lparr>q_timeout := False\<rparr>"] t
      unfolding broker_ok_def by (auto simp: update_conv' set_request_def)
    then show ?thesis
      using Accepted by (auto simp: runnerAnswered_def Let_def set_request_def offered_def dest!: extract_parts
        intro!: ok_suspend ok_fewer_requests split: option.split)
  next
    case Deferred
    have "broker_ok (b'\<lparr>b_pendingTaskRequests := b_pendingTaskRequests b' @ [r]\<rparr>)" if "broker_ok b'" "r < length (b_requests b')" for b'
      using that unfolding broker_ok_def by auto
    from this [OF progress] show ?thesis using Deferred r by (simp add: runnerAnswered_def set_request_def)
  qed (use progress in \<open>simp_all add: runnerAnswered_def\<close>)
qed

lemma ok_requesterAnswered: "broker_ok b \<Longrightarrow> broker_ok (requesterAnswered t answer b)"
  using ok_getRunnerOrFailTask [of b t]
  by (auto simp: requesterAnswered_def sendTaskSettings_def offered_def intro!: ok_cancelTask ok_suspend
    split: RequesterAnswer.split prod.split sum.split)

lemma ok_fewer_waiting:
  "broker_ok b \<Longrightarrow> broker_ok (b\<lparr>b_waiting := take i (b_waiting b) @ drop (Suc i) (b_waiting b)\<rparr>)"
proof (cases "i < length (b_waiting b)")
  case True
  assume ok: "broker_ok b"
  have "b_waiting b = take i (b_waiting b) @ b_waiting b ! i # drop (Suc i) (b_waiting b)" using True by (metis id_take_nth_drop)
  then have "concat (map offered (b_waiting b)) = concat (map offered (take i (b_waiting b))) @ offered (b_waiting b ! i) @
      concat (map offered (drop (Suc i) (b_waiting b)))" by (metis concat.simps(2) concat_append list.simps(9) map_append)
  moreover have "set (take i (b_waiting b) @ drop (Suc i) (b_waiting b)) \<subseteq> set (b_waiting b)" by (auto dest: in_set_takeD in_set_dropD)
  ultimately show ?thesis using ok unfolding broker_ok_def by auto
qed simp

lemma ok_resume:
  assumes "broker_ok b" and i: "i < length (b_waiting b)"
  shows "broker_ok (resume (b_waiting b ! i) (b\<lparr>b_waiting := take i (b_waiting b) @ drop (Suc i) (b_waiting b)\<rparr>))"
proof -
  note less = ok_fewer_waiting [OF assms(1), of i]
  show ?thesis
  proof (cases "b_waiting b ! i")
    case (AwaitRunner t offer r a)
    then show ?thesis using ok_runnerAnswered [OF assms] less by (cases a) auto
  next
    case (AwaitRequester t r a)
    then show ?thesis using ok_requesterAnswered [OF less] less by (cases a) auto
  qed (use less in \<open>auto intro!: ok_set_task ok_taskDone ok_drop_task [OF less, simplified]\<close>)
qed

lemma ok_occur:
  assumes "broker_ok b" and "enabled ev b"
  shows "broker_ok (occur ev b)"
proof (cases ev)
  case (FromRunner now runnerId message)
  then show ?thesis using assms(1)
    by (auto simp: occur_def onRunnerMessage_def ok_handleRunnerAnswer ok_taskOffered ok_taskDone ok_relayToRequester
      split: RunnerMessage.split)
next
  case (FromRequester now requesterId message)
  then show ?thesis using assms(1)
    by (auto simp: occur_def onRequesterMessage_def ok_handleRequesterAnswer ok_cancelTask ok_taskRequested ok_relayToRunner
      split: RequesterMessage.split)
next
  case (RunnerAcceptTimeout t)
  then show ?thesis
    using ok_answer_runner [OF assms(1), where ts = "b_runnerAcceptRejects b" and answer = AcceptTimedOut and taskId = t] by (simp add: occur_def)
next
  case (RequesterAcceptTimeout t)
  then show ?thesis
    using ok_answer_requester [OF assms(1), where taskId = t and answer = RequesterTimedOut and ts = "b_requesterAcceptRejects b"] by (simp add: occur_def)
next
  case (Resume i)
  then show ?thesis using assms ok_resume by (simp add: occur_def enabled_def)
qed (use assms(1) in \<open>simp_all add: occur_def registerRunner_def registerRequester_def deregisterRequester_def
    ok_handleRequestTimeout ok_set_request ok_handleTaskTimeout ok_set_task core_le_ok [OF deregisterRunner_core]\<close>)

lemma new_broker_ok: "broker_ok (new_TaskBroker external)"
  by (simp add: broker_ok_def new_TaskBroker_def)

lemma reachable_ok: "broker_step\<^sup>*\<^sup>* (new_TaskBroker external) b \<Longrightarrow> broker_ok b"
  by (induction rule: rtranclp_induct) (auto simp: new_broker_ok intro: ok_occur elim!: broker_stepE)

text \<open>C29. Whatever runners, requesters and timers do, in whatever order: a request waits for at most one runner to
  accept it, and while it does it is marked as being accepted, so \<open>settleTasks\<close> offers it to no other.\<close>

theorem request_offered_once:
  assumes "broker_step\<^sup>*\<^sup>* (new_TaskBroker external) b"
    and "i < length (b_waiting b)" "b_waiting b ! i = AwaitRunner t offer r a"
    and "j < length (b_waiting b)" "b_waiting b ! j = AwaitRunner t' offer' r a'"
  shows "i = j \<and> q_acceptInProgress (b_requests b ! r) \<and> settleRequest b r = b"
proof -
  have ok: "broker_ok b" by (rule reachable_ok [OF assms(1)])
  have "r \<in> set (concat (map offered (b_waiting b)))" using assms(2,3) by (force simp: offered_def dest: nth_mem)
  then have progress: "q_acceptInProgress (b_requests b ! r)" using ok unfolding broker_ok_def by blast
  have no: False if "i < j" "distinct (concat (map offered ws))" "j < length ws" "ws ! i = AwaitRunner t offer r a"
    "ws ! j = AwaitRunner t' offer' r a'" for ws i j t offer a t' offer' a'
  proof -
    have ws: "ws = take j ws @ AwaitRunner t' offer' r a' # drop (Suc j) ws" using that(3,5) by (metis id_take_nth_drop)
    have "distinct (concat (map offered (take j ws)) @ r # concat (map offered (drop (Suc j) ws)))"
      using that(2) by (subst (asm) ws) (simp add: offered_def)
    moreover have "ws ! i \<in> set (take j ws)" using that(1,3) by (metis in_set_conv_nth length_take min.absorb4 nth_take)
    then have "r \<in> set (concat (map offered (take j ws)))" using that(4) by (force simp: offered_def)
    ultimately show ?thesis by simp
  qed
  have "distinct (concat (map offered (b_waiting b)))" using ok unfolding broker_ok_def by blast
  then have "i = j" using no [of i j "b_waiting b"] no [of j i "b_waiting b"] assms(2-5) by (metis linorder_less_linear)
  then show ?thesis using progress by (simp add: settleRequest_def)
qed

text \<open>A runner that disconnects while the broker waits for it to accept a task leaves that request waiting until the
  accept times out: the tasks that \<open>deregisterRunner\<close> goes through are never ones it could still reject.\<close>

theorem deregisterRunner_rejects_nothing:
  assumes "broker_step\<^sup>*\<^sup>* (new_TaskBroker external) b"
  shows "b_waiting (deregisterRunner runnerId error b) = b_waiting b \<and>
    set (b_runnerAcceptRejects (deregisterRunner runnerId error b)) = set (b_runnerAcceptRejects b)"
  using core_leD(1,2) [OF deregisterRunner_core [OF reachable_ok [OF assms]]] by simp

lemma request_offered_once_witness:
  "\<exists>b t offer. broker_step\<^sup>*\<^sup>* (new_TaskBroker False) b \<and> b_waiting b = [AwaitRunner t offer 0 None] \<and> settleRequest b 0 = b"
proof -
  let ?events = "[RegisterRunner ''r'', FromRunner 0 ''r'' (RunnerTaskOffer ''o'' ''js'' 5000),
    FromRequester 1 ''e'' (RequesterTaskRequest ''q'' ''js'')]"
  have "case run_events ?events (new_TaskBroker False) of None \<Rightarrow> False | Some b \<Rightarrow>
      (case b_waiting b of [AwaitRunner t offer r None] \<Rightarrow> r = 0 | _ \<Rightarrow> False)" by code_simp
  then obtain b t offer where b: "run_events ?events (new_TaskBroker False) = Some b" "b_waiting b = [AwaitRunner t offer 0 None]"
    by (auto split: option.splits list.splits Continuation.splits)
  note reach = run_events_reach [OF b(1)]
  have "settleRequest b 0 = b"
    using request_offered_once [OF reach, of 0 t offer 0 None 0 t offer None] b(2) by simp
  then show ?thesis using reach b(2) by blast
qed

lemma deregisterRunner_rejects_nothing_witness:
  "\<exists>b t offer. broker_step\<^sup>*\<^sup>* (new_TaskBroker False) b \<and> b_waiting b = [AwaitRunner t offer 0 None] \<and> o_runnerId offer = ''r'' \<and>
     b_waiting (deregisterRunner ''r'' JNull b) = [AwaitRunner t offer 0 None]"
proof -
  let ?events = "[RegisterRunner ''r'', FromRunner 0 ''r'' (RunnerTaskOffer ''o'' ''js'' 5000),
    FromRequester 1 ''e'' (RequesterTaskRequest ''q'' ''js'')]"
  have "case run_events ?events (new_TaskBroker False) of None \<Rightarrow> False | Some b \<Rightarrow>
      (case b_waiting b of [AwaitRunner t offer r None] \<Rightarrow> r = 0 \<and> o_runnerId offer = ''r'' | _ \<Rightarrow> False)" by code_simp
  then obtain b t offer where b: "run_events ?events (new_TaskBroker False) = Some b" "b_waiting b = [AwaitRunner t offer 0 None]"
      "o_runnerId offer = ''r''" by (auto split: option.splits list.splits Continuation.splits)
  note reach = run_events_reach [OF b(1)]
  show ?thesis using reach b(2,3) conjunct1 [OF deregisterRunner_rejects_nothing [OF reach, of "''r''" JNull]] by auto
qed

section \<open>Matching\<close>

lemma set_request_nth:
  "q < length (b_requests b) \<Longrightarrow> b_requests (set_request r f b) ! q = (if q = r then f (b_requests b ! q) else b_requests b ! q)"
  by (cases "r < length (b_requests b)") (auto simp: set_request_def nth_list_update)

lemma settleRequest_requests_eq:
  "b_requests (settleRequest b r) = (if q_acceptInProgress (b_requests b ! r) \<or>
     (\<forall>offer \<in> set (b_pendingTaskOffers b). o_taskType offer \<noteq> q_taskType (b_requests b ! r)) then b_requests b
     else b_requests (set_request r (\<lambda>q. q\<lparr>q_acceptInProgress := True\<rparr>) b))"
  by (auto simp: settleRequest_def acceptOffer_def suspend_def messageRunner_def set_request_def Let_def extract_None_iff
    dest!: extract_parts split: option.split)

lemma settleRequest_effect:
  "set (b_pendingTaskOffers (settleRequest b r)) \<subseteq> set (b_pendingTaskOffers b)"
  "q < length (b_requests b) \<Longrightarrow> q_taskType (b_requests (settleRequest b r) ! q) = q_taskType (b_requests b ! q)"
  "q_acceptInProgress (b_requests b ! q) \<Longrightarrow> q < length (b_requests b) \<Longrightarrow> q_acceptInProgress (b_requests (settleRequest b r) ! q)"
  "r < length (b_requests b) \<Longrightarrow> q_acceptInProgress (b_requests (settleRequest b r) ! r) \<or>
     (\<forall>offer \<in> set (b_pendingTaskOffers (settleRequest b r)). o_taskType offer \<noteq> q_taskType (b_requests b ! r))"
proof -
  show sub: "set (b_pendingTaskOffers (settleRequest b r)) \<subseteq> set (b_pendingTaskOffers b)"
    by (auto simp: settleRequest_def acceptOffer_def suspend_def messageRunner_def set_request_def Let_def dest!: extract_parts split: option.split)
  show "q_taskType (b_requests (settleRequest b r) ! q) = q_taskType (b_requests b ! q)" if "q < length (b_requests b)"
    using that by (simp add: settleRequest_requests_eq set_request_nth)
  show "q_acceptInProgress (b_requests (settleRequest b r) ! q)" if "q_acceptInProgress (b_requests b ! q)" "q < length (b_requests b)"
    using that by (simp add: settleRequest_requests_eq set_request_nth)
  show "q_acceptInProgress (b_requests (settleRequest b r) ! r) \<or>
     (\<forall>offer \<in> set (b_pendingTaskOffers (settleRequest b r)). o_taskType offer \<noteq> q_taskType (b_requests b ! r))"
    if "r < length (b_requests b)"
    using that sub by (auto simp: settleRequest_requests_eq set_request_nth)
qed

lemma settleRequest_waiting:
  "\<exists>news. b_waiting (settleRequest b r) = b_waiting b @ news \<and> (\<forall>c \<in> set news. \<exists>t offer. c = AwaitRunner t offer r None \<and>
     offer \<in> set (b_pendingTaskOffers b) \<and> o_taskType offer = q_taskType (b_requests b ! r))"
  by (auto simp: settleRequest_def acceptOffer_def suspend_def messageRunner_def set_request_def Let_def
    dest!: extract_parts split: option.split)

text \<open>What settling the requests \<open>rs\<close> makes of a state.\<close>

definition settled :: "TaskBroker \<Rightarrow> request_ref list \<Rightarrow> TaskBroker \<Rightarrow> bool" where
  "settled b rs b' \<longleftrightarrow> set (b_pendingTaskOffers b') \<subseteq> set (b_pendingTaskOffers b) \<and> length (b_requests b') = length (b_requests b) \<and>
     (\<forall>r < length (b_requests b). q_taskType (b_requests b' ! r) = q_taskType (b_requests b ! r)) \<and>
     (\<forall>r \<in> set rs. q_acceptInProgress (b_requests b' ! r) \<or>
        (\<forall>offer \<in> set (b_pendingTaskOffers b'). o_taskType offer \<noteq> q_taskType (b_requests b ! r))) \<and>
     (\<exists>news. b_waiting b' = b_waiting b @ news \<and> (\<forall>c \<in> set news. \<exists>t offer r. c = AwaitRunner t offer r None \<and>
        r \<in> set rs \<and> offer \<in> set (b_pendingTaskOffers b) \<and> o_taskType offer = q_taskType (b_requests b ! r)))"

lemma settleRequests_settled: "\<forall>r \<in> set rs. r < length (b_requests b) \<Longrightarrow> settled b rs (foldl settleRequest b rs)"
proof (induction rs rule: rev_induct)
  case (snoc x rs)
  let ?m = "foldl settleRequest b rs"
  have valid: "\<forall>r \<in> set rs. r < length (b_requests b)" "x < length (b_requests b)" using snoc.prems by auto
  have IH: "settled b rs ?m" by (rule snoc.IH [OF valid(1)])
  have len: "length (b_requests ?m) = length (b_requests b)" using IH unfolding settled_def by blast
  have types: "q_taskType (b_requests ?m ! r) = q_taskType (b_requests b ! r)" if "r < length (b_requests b)" for r
    using IH that unfolding settled_def by blast
  have x: "x < length (b_requests ?m)" using valid(2) len by simp
  note step = settleRequest_effect [where b = ?m and r = x]
  obtain news where news: "b_waiting ?m = b_waiting b @ news" "\<forall>c \<in> set news. \<exists>t offer r. c = AwaitRunner t offer r None \<and> r \<in> set rs \<and>
      offer \<in> set (b_pendingTaskOffers b) \<and> o_taskType offer = q_taskType (b_requests b ! r)" using IH unfolding settled_def by blast
  obtain new where new: "b_waiting (settleRequest ?m x) = b_waiting ?m @ new"
    "\<forall>c \<in> set new. \<exists>t offer. c = AwaitRunner t offer x None \<and> offer \<in> set (b_pendingTaskOffers ?m) \<and>
       o_taskType offer = q_taskType (b_requests ?m ! x)" using settleRequest_waiting [of ?m x] by blast
  have offers: "set (b_pendingTaskOffers ?m) \<subseteq> set (b_pendingTaskOffers b)" using IH unfolding settled_def by blast
  have "\<forall>c \<in> set (news @ new). \<exists>t offer r. c = AwaitRunner t offer r None \<and> r \<in> set (rs @ [x]) \<and>
      offer \<in> set (b_pendingTaskOffers b) \<and> o_taskType offer = q_taskType (b_requests b ! r)"
    using news(2) new(2) offers types [OF valid(2)] by fastforce
  moreover have "b_waiting (settleRequest ?m x) = b_waiting b @ (news @ new)" using news(1) new(1) by simp
  moreover have "q_acceptInProgress (b_requests (settleRequest ?m x) ! r) \<or>
      (\<forall>offer \<in> set (b_pendingTaskOffers (settleRequest ?m x)). o_taskType offer \<noteq> q_taskType (b_requests b ! r))"
    if r: "r \<in> set (rs @ [x])" for r
  proof (cases "r = x")
    case True
    then show ?thesis using step(4) [OF x] types [OF valid(2)] by simp
  next
    case False
    then have "r \<in> set rs" using r by simp
    then have "q_acceptInProgress (b_requests ?m ! r) \<or>
        (\<forall>offer \<in> set (b_pendingTaskOffers ?m). o_taskType offer \<noteq> q_taskType (b_requests b ! r))"
      using IH unfolding settled_def by blast
    then show ?thesis using step(1) step(3) [of r] valid(1) \<open>r \<in> set rs\<close> len by auto
  qed
  moreover have "q_taskType (b_requests (settleRequest ?m x) ! r) = q_taskType (b_requests b ! r)" if "r < length (b_requests b)" for r
    using step(2) [of r] types [OF that] that len by simp
  ultimately show ?case using offers step(1) len unfolding settled_def foldl_append foldl.simps settleRequest_requests(1) by blast
qed (simp add: settled_def)

text \<open>After \<open>settleTasks\<close>, all offers left are valid, and no pending request is left without a runner while an offer
  of its type is left; and each runner it has asked made an offer that was pending, valid, and of the type of
  the request it is asked for.\<close>

theorem settleTasks_complete:
  assumes "broker_step\<^sup>*\<^sup>* (new_TaskBroker external) b"
  shows "(\<forall>offer \<in> set (b_pendingTaskOffers (settleTasks now b)). offer \<in> set (b_pendingTaskOffers b) \<and>
      (o_validFor offer = -1 \<or> now \<le> o_validUntil offer) \<and>
      (\<forall>r \<in> set (b_pendingTaskRequests b). o_taskType offer = q_taskType (b_requests b ! r) \<longrightarrow>
         q_acceptInProgress (b_requests (settleTasks now b) ! r))) \<and>
    (\<exists>news. b_waiting (settleTasks now b) = b_waiting b @ news \<and> (\<forall>c \<in> set news. \<exists>t offer r. c = AwaitRunner t offer r None \<and>
       r \<in> set (b_pendingTaskRequests b) \<and> offer \<in> set (b_pendingTaskOffers b) \<and>
       (o_validFor offer = -1 \<or> now \<le> o_validUntil offer) \<and> o_taskType offer = q_taskType (b_requests b ! r)))"
proof -
  have "\<forall>r \<in> set (b_pendingTaskRequests b). r < length (b_requests (expireTasks now b))"
    using reachable_ok [OF assms] by (simp add: broker_ok_def expireTasks_def)
  note c = settleRequests_settled [OF this, unfolded settled_def]
  have valid: "offer \<in> set (b_pendingTaskOffers (expireTasks now b)) \<longleftrightarrow>
      offer \<in> set (b_pendingTaskOffers b) \<and> (o_validFor offer = -1 \<or> now \<le> o_validUntil offer)" for offer
    by (auto simp: expireTasks_def)
  have same: "b_requests (expireTasks now b) = b_requests b" "b_waiting (expireTasks now b) = b_waiting b"
      "b_pendingTaskRequests (expireTasks now b) = b_pendingTaskRequests b" by (simp_all add: expireTasks_def)
  show ?thesis
    using c unfolding settleTasks_def Let_def same valid by (auto simp: valid subset_iff)
qed

lemma settleTasks_complete_witness:
  "\<exists>b. broker_step\<^sup>*\<^sup>* (new_TaskBroker False) b \<and> map o_offerId (b_pendingTaskOffers b) = [''o''] \<and> b_pendingTaskOffers (settleTasks 9000000000 b) = []"
proof -
  let ?events = "[RegisterRunner ''r'', FromRunner 0 ''r'' (RunnerTaskOffer ''o'' ''js'' 5000)]"
  have "case run_events ?events (new_TaskBroker False) of None \<Rightarrow> False | Some b \<Rightarrow>
      (case b_pendingTaskOffers b of [offer] \<Rightarrow> o_offerId offer = ''o'' \<and> o_validFor offer = 5000 \<and> o_validUntil offer = 5000000000 | _ \<Rightarrow> False)"
    by code_simp
  then obtain b offer where b: "run_events ?events (new_TaskBroker False) = Some b" "b_pendingTaskOffers b = [offer]"
      "o_offerId offer = ''o''" "o_validFor offer = 5000" "o_validUntil offer = 5000000000"
    by (auto split: option.splits list.splits)
  note reach = run_events_reach [OF b(1)]
  from conjunct1 [OF settleTasks_complete [OF reach, of 9000000000]] b
  have "b_pendingTaskOffers (settleTasks 9000000000 b) = []"
    by (cases "b_pendingTaskOffers (settleTasks 9000000000 b)") auto
  then show ?thesis using reach b(2,3) by fastforce
qed

section \<open>Where the broker goes wrong\<close>

text \<open>If a request times out while a runner is asked to accept its task, and the runner then accepts, the task is
  filed but nobody is told: the requester only hears that the request expired, no code waits, no timer is
  armed, and the task stays among the active ones.\<close>

theorem accepted_after_expiry_is_orphaned:
  "\<exists>b. broker_step\<^sup>*\<^sup>* (new_TaskBroker False) b \<and> map fst (b_tasks b) = [0] \<and> list_all (\<lambda>(t, task). \<not> k_timeout task) (b_tasks b) \<and>
     b_waiting b = [] \<and> list_all (\<lambda>q. \<not> q_timeout q) (b_requests b) \<and>
     b_sent b = [ToRunner ''r'' RunnerRegistered, ToRunner ''r'' (TaskOfferAccept ''o'' 0), ToRequester ''e'' (RequestExpired ''q'' ''timeout'')]"
proof -
  have "case run_events [RegisterRunner ''r'', RegisterRequester ''e'', FromRunner 0 ''r'' (RunnerTaskOffer ''o'' ''js'' 5000),
      FromRequester 1 ''e'' (RequesterTaskRequest ''q'' ''js''), RequestTimeout 0,
      FromRunner 2 ''r'' (RunnerTaskAccepted 0), Resume 0] (new_TaskBroker False) of None \<Rightarrow> False
    | Some b \<Rightarrow> map fst (b_tasks b) = [0] \<and> list_all (\<lambda>(t, task). \<not> k_timeout task) (b_tasks b) \<and> b_waiting b = [] \<and>
        list_all (\<lambda>q. \<not> q_timeout q) (b_requests b) \<and>
        b_sent b = [ToRunner ''r'' RunnerRegistered, ToRunner ''r'' (TaskOfferAccept ''o'' 0), ToRequester ''e'' (RequestExpired ''q'' ''timeout'')]"
    by code_simp
  then show ?thesis by (rule run_events_reaches)
qed

text \<open>A runner that defers makes \<open>acceptOffer\<close> file the request again although it is still filed. When its task is
  accepted later only one of the two entries goes: the other stays for ever, as it is marked as being
  accepted and its timer is off, though the task is done.\<close>

theorem deferred_request_stays:
  "\<exists>b. broker_step\<^sup>*\<^sup>* (new_TaskBroker False) b \<and> b_tasks b = [] \<and> b_waiting b = [] \<and> b_pendingTaskRequests b = [0] \<and>
     map q_acceptInProgress (b_requests b) = [True] \<and> map q_timeout (b_requests b) = [False] \<and>
     b_sent b = [ToRunner ''r'' RunnerRegistered, ToRunner ''r'' (TaskOfferAccept ''o1'' 0), ToRunner ''r'' (TaskOfferAccept ''o2'' 1),
       ToRequester ''e'' (TaskReady ''q'' 1), ToRunner ''r'' (TaskSettings 1 JNull), ToRequester ''e'' (TaskDone 1 JNull)]"
proof -
  have "case run_events [RegisterRunner ''r'', RegisterRequester ''e'', FromRunner 0 ''r'' (RunnerTaskOffer ''o1'' ''js'' 5000),
      FromRequester 1 ''e'' (RequesterTaskRequest ''q'' ''js''), FromRunner 2 ''r'' (RunnerTaskDeferred 0), Resume 0,
      FromRunner 3 ''r'' (RunnerTaskOffer ''o2'' ''js'' 5000), FromRunner 4 ''r'' (RunnerTaskAccepted 1), Resume 0,
      FromRequester 5 ''e'' (RequesterTaskSettings 1 JNull), Resume 0, Resume 0,
      FromRunner 6 ''r'' (RunnerTaskDone 1 JNull), Resume 0] (new_TaskBroker False) of None \<Rightarrow> False
    | Some b \<Rightarrow> b_tasks b = [] \<and> b_waiting b = [] \<and> b_pendingTaskRequests b = [0] \<and>
        map q_acceptInProgress (b_requests b) = [True] \<and> map q_timeout (b_requests b) = [False] \<and>
        b_sent b = [ToRunner ''r'' RunnerRegistered, ToRunner ''r'' (TaskOfferAccept ''o1'' 0), ToRunner ''r'' (TaskOfferAccept ''o2'' 1),
          ToRequester ''e'' (TaskReady ''q'' 1), ToRunner ''r'' (TaskSettings 1 JNull), ToRequester ''e'' (TaskDone 1 JNull)]"
    by code_simp
  then show ?thesis by (rule run_events_reaches)
qed

end
