(* ===== verification/TaskRunner.thy ===== *)
theory TaskRunner
  imports TaskBroker
begin

text \<open>
  The base class of task runners, \<open>packages/@n8n/task-runner/src/task-runner.ts\<close>, with the state of a task,
  \<open>task-state.ts\<close>: a runner offers to run tasks, accepts those its offers are taken for, runs them once their
  settings come, and answers with their result.

  A \<open>TaskState\<close> is an object that \<open>runningTasks\<close> and the suspended execution of its task share, so it lives
  in a store and is referred to by its place in it. \<open>executeTask\<close> is the code of a subclass: its end, and the
  requests it makes meanwhile, are events, and so is the moment when code goes on that waited for an answer.
  A step of \<open>runner_step\<close> is any enabled event: a message of the broker, a timer, an end of a task. The broker
  gives every task an id of its own. Ids the runner makes are numerals counted up instead of \<open>nanoid()\<close>; the
  time in nanoseconds and the random part of the validity of offers are arguments. The messages sent are a
  log. Logging, the websocket, and the end of the process are left out.

  Theorems: offers and tasks stay within the capacity of the runner; a task answers as often as it should; its
  status follows the diagram of \<open>task-state.ts\<close>, and the cases the code calls impossible are.
\<close>

section \<open>State\<close>

datatype TaskStatus = WaitingForSettings | RunningTask | AbortingCancelled | AbortingTimeout

type_synonym state_ref = nat

record TaskState =
  s_taskId :: taskId
  s_status :: TaskStatus
  s_timer :: bool
  s_aborted :: bool

datatype RequestAnswer = AnswerResolved json | AnswerCancelled string | AnswerRejected json

datatype RunnerLog = SentToBroker RunnerMessage | UnexpectedStatus state_ref | ReachedIdleTimeout

record TaskRunner =
  r_name :: string
  r_taskType :: string
  r_maxConcurrency :: int
  r_idleTimeout :: nat
  r_canSendOffers :: bool
  r_offerInterval :: bool
  r_openOffers :: "(string, int) jsmap"
  r_states :: "TaskState list"
  r_runningTasks :: "(taskId, state_ref) jsmap"
  r_executing :: "state_ref list"
  r_dataRequests :: "(string, taskId) jsmap"
  r_nodeTypesRequests :: "(string, taskId) jsmap"
  r_rpcCalls :: "string list"
  r_answers :: "(string \<times> RequestAnswer) list"
  r_isShuttingDown :: bool
  r_idleTimer :: bool
  r_nextId :: nat
  r_log :: "RunnerLog list"

definition new_TaskRunner :: "string \<Rightarrow> string \<Rightarrow> int \<Rightarrow> nat \<Rightarrow> TaskRunner" where
  "new_TaskRunner name taskType maxConcurrency idleTimeout = \<lparr>r_name = name, r_taskType = taskType, r_maxConcurrency = maxConcurrency,
     r_idleTimeout = idleTimeout, r_canSendOffers = False, r_offerInterval = False, r_openOffers = [], r_states = [], r_runningTasks = [],
     r_executing = [], r_dataRequests = [], r_nodeTypesRequests = [], r_rpcCalls = [], r_answers = [], r_isShuttingDown = False,
     r_idleTimer = (idleTimeout \<noteq> 0), r_nextId = 0, r_log = []\<rparr>"

definition send :: "RunnerMessage \<Rightarrow> TaskRunner \<Rightarrow> TaskRunner" where
  "send message r = r\<lparr>r_log := r_log r @ [SentToBroker message]\<rparr>"

definition resetIdleTimer :: "TaskRunner \<Rightarrow> TaskRunner" where
  "resetIdleTimer r = (if r_idleTimeout r = 0 then r else r\<lparr>r_idleTimer := True\<rparr>)"

definition set_state :: "state_ref \<Rightarrow> (TaskState \<Rightarrow> TaskState) \<Rightarrow> TaskRunner \<Rightarrow> TaskRunner" where
  "set_state x f r = r\<lparr>r_states := (r_states r)[x := f (r_states r ! x)]\<rparr>"

section \<open>Offers\<close>

definition stopTaskOffers :: "TaskRunner \<Rightarrow> TaskRunner" where
  "stopTaskOffers r = r\<lparr>r_canSendOffers := False, r_offerInterval := False\<rparr>"

definition startTaskOffers :: "TaskRunner \<Rightarrow> TaskRunner" where
  "startTaskOffers r = r\<lparr>r_canSendOffers := True, r_offerInterval := True\<rparr>"

definition deleteStaleOffers :: "int \<Rightarrow> TaskRunner \<Rightarrow> TaskRunner" where
  "deleteStaleOffers now r = r\<lparr>r_openOffers := filter (\<lambda>(offerId, validUntil). \<not> validUntil < now) (r_openOffers r)\<rparr>"

definition sendOffer :: "int \<Rightarrow> TaskRunner \<Rightarrow> int \<Rightarrow> TaskRunner" where
  "sendOffer now r jitter =
     (let validForInMs = 5000 + jitter; offerId = show_nat (r_nextId r)
      in send (RunnerTaskOffer offerId (r_taskType r) validForInMs)
           (r\<lparr>r_nextId := Suc (r_nextId r), r_openOffers := AList.update offerId (now + (validForInMs + 100) * 1000000) (r_openOffers r)\<rparr>))"

definition sendOffers :: "int \<Rightarrow> (nat \<Rightarrow> int) \<Rightarrow> TaskRunner \<Rightarrow> TaskRunner" where
  "sendOffers now randomInt r =
     (let r = deleteStaleOffers now r in
      if \<not> r_canSendOffers r then r
      else let offersToSend = r_maxConcurrency r - (int (length (r_openOffers r)) + int (length (r_runningTasks r)))
        in foldl (sendOffer now) r (map randomInt [0..<nat offersToSend]))"

definition hasOpenTaskSlots :: "TaskRunner \<Rightarrow> bool" where
  "hasOpenTaskSlots r \<longleftrightarrow> int (length (r_runningTasks r)) < r_maxConcurrency r"

definition offerAccepted :: "string \<Rightarrow> taskId \<Rightarrow> TaskRunner \<Rightarrow> TaskRunner" where
  "offerAccepted offerId taskId r =
     (if \<not> hasOpenTaskSlots r
      then send (RunnerTaskRejected taskId ''No open task slots - runner already at capacity'')
        (r\<lparr>r_openOffers := AList.delete offerId (r_openOffers r)\<rparr>)
      else case map_of (r_openOffers r) offerId of
        None \<Rightarrow> send (RunnerTaskRejected taskId ''Offer expired - not accepted within validity window'') r
      | Some _ \<Rightarrow>
          (let r = resetIdleTimer (r\<lparr>r_openOffers := AList.delete offerId (r_openOffers r)\<rparr>)
           in send (RunnerTaskAccepted taskId) (r\<lparr>
             r_states := r_states r @ [\<lparr>s_taskId = taskId, s_status = WaitingForSettings, s_timer = True, s_aborted = False\<rparr>],
             r_runningTasks := AList.update taskId (length (r_states r)) (r_runningTasks r)\<rparr>)))"

section \<open>Tasks\<close>

definition finishTask :: "int \<Rightarrow> (nat \<Rightarrow> int) \<Rightarrow> state_ref \<Rightarrow> TaskRunner \<Rightarrow> TaskRunner" where
  "finishTask now randomInt x r =
     (let r = set_state x (\<lambda>s. s\<lparr>s_timer := False\<rparr>) r;
          r = r\<lparr>r_runningTasks := AList.delete (s_taskId (r_states r ! x)) (r_runningTasks r)\<rparr>
      in resetIdleTimer (sendOffers now randomInt r))"

text \<open>A promise is settled once: later answers to a request have no effect.\<close>

definition answer_request :: "RequestAnswer \<Rightarrow> string \<Rightarrow> TaskRunner \<Rightarrow> TaskRunner" where
  "answer_request answer requestId r =
     (if map_of (r_answers r) requestId = None then r\<lparr>r_answers := r_answers r @ [(requestId, answer)]\<rparr> else r)"

definition requests_of :: "taskId \<Rightarrow> (string, taskId) jsmap \<Rightarrow> string list" where
  "requests_of taskId requests = map fst (filter (\<lambda>(_, t). t = taskId) requests)"

definition cancelTaskRequests :: "taskId \<Rightarrow> string \<Rightarrow> TaskRunner \<Rightarrow> TaskRunner" where
  "cancelTaskRequests taskId reason r =
     (let r = fold (answer_request (AnswerCancelled reason)) (requests_of taskId (r_dataRequests r)) r;
          r = r\<lparr>r_dataRequests := filter (\<lambda>(_, t). t \<noteq> taskId) (r_dataRequests r)\<rparr>;
          r = fold (answer_request (AnswerCancelled reason)) (requests_of taskId (r_nodeTypesRequests r)) r
      in r\<lparr>r_nodeTypesRequests := filter (\<lambda>(_, t). t \<noteq> taskId) (r_nodeTypesRequests r)\<rparr>)"

definition throwUnexpectedTaskStatus :: "state_ref \<Rightarrow> TaskRunner \<Rightarrow> TaskRunner" where
  "throwUnexpectedTaskStatus x r = r\<lparr>r_log := r_log r @ [UnexpectedStatus x]\<rparr>"

definition taskCancelled :: "int \<Rightarrow> (nat \<Rightarrow> int) \<Rightarrow> taskId \<Rightarrow> string \<Rightarrow> TaskRunner \<Rightarrow> TaskRunner" where
  "taskCancelled now randomInt taskId reason r =
     (case map_of (r_runningTasks r) taskId of
        None \<Rightarrow> r
      | Some x \<Rightarrow> (case s_status (r_states r ! x) of
            WaitingForSettings \<Rightarrow> finishTask now randomInt x r
          | AbortingTimeout \<Rightarrow> r
          | AbortingCancelled \<Rightarrow> r
          | RunningTask \<Rightarrow> cancelTaskRequests taskId reason
              (set_state x (\<lambda>s. s\<lparr>s_status := AbortingCancelled, s_aborted := True\<rparr>) r)))"

definition taskTimedOut :: "int \<Rightarrow> (nat \<Rightarrow> int) \<Rightarrow> taskId \<Rightarrow> TaskRunner \<Rightarrow> TaskRunner" where
  "taskTimedOut now randomInt taskId r =
     (case map_of (r_runningTasks r) taskId of
        None \<Rightarrow> r
      | Some x \<Rightarrow> (case s_status (r_states r ! x) of
            WaitingForSettings \<Rightarrow> finishTask now randomInt x (send (RunnerTaskError taskId (JStr ''TimeoutError'')) r)
          | AbortingTimeout \<Rightarrow> throwUnexpectedTaskStatus x r
          | RunningTask \<Rightarrow> cancelTaskRequests taskId ''timeout''
              (set_state x (\<lambda>s. s\<lparr>s_status := AbortingTimeout, s_aborted := True\<rparr>) r)
          | AbortingCancelled \<Rightarrow> r))"

text \<open>The settings start the execution of the task.\<close>

definition receivedSettings :: "taskId \<Rightarrow> TaskRunner \<Rightarrow> TaskRunner" where
  "receivedSettings taskId r =
     (case map_of (r_runningTasks r) taskId of
        None \<Rightarrow> r
      | Some x \<Rightarrow> (case s_status (r_states r ! x) of
            WaitingForSettings \<Rightarrow> (set_state x (\<lambda>s. s\<lparr>s_status := RunningTask\<rparr>) r)\<lparr>r_executing := r_executing r @ [x]\<rparr>
          | _ \<Rightarrow> throwUnexpectedTaskStatus x r))"

definition taskExecutionSucceeded :: "int \<Rightarrow> (nat \<Rightarrow> int) \<Rightarrow> state_ref \<Rightarrow> json \<Rightarrow> TaskRunner \<Rightarrow> TaskRunner" where
  "taskExecutionSucceeded now randomInt x data r =
     finishTask now randomInt x (case s_status (r_states r ! x) of
        WaitingForSettings \<Rightarrow> throwUnexpectedTaskStatus x r
      | AbortingCancelled \<Rightarrow> r
      | _ \<Rightarrow> send (RunnerTaskDone (s_taskId (r_states r ! x)) data) r)"

definition taskExecutionFailed :: "int \<Rightarrow> (nat \<Rightarrow> int) \<Rightarrow> state_ref \<Rightarrow> json \<Rightarrow> TaskRunner \<Rightarrow> TaskRunner" where
  "taskExecutionFailed now randomInt x error r =
     finishTask now randomInt x (case s_status (r_states r ! x) of
        WaitingForSettings \<Rightarrow> throwUnexpectedTaskStatus x r
      | AbortingCancelled \<Rightarrow> r
      | _ \<Rightarrow> send (RunnerTaskError (s_taskId (r_states r ! x)) error) r)"

section \<open>Requests of the running code\<close>

definition requestData :: "taskId \<Rightarrow> json \<Rightarrow> TaskRunner \<Rightarrow> TaskRunner" where
  "requestData taskId requestParams r =
     (let requestId = show_nat (r_nextId r)
      in send (RunnerDataRequest taskId requestId requestParams)
           (r\<lparr>r_nextId := Suc (r_nextId r), r_dataRequests := AList.update requestId taskId (r_dataRequests r)\<rparr>))"

definition requestNodeTypes :: "taskId \<Rightarrow> json \<Rightarrow> TaskRunner \<Rightarrow> TaskRunner" where
  "requestNodeTypes taskId requestParams r =
     (let requestId = show_nat (r_nextId r)
      in send (RunnerNodeTypesRequest taskId requestId requestParams)
           (r\<lparr>r_nextId := Suc (r_nextId r), r_nodeTypesRequests := AList.update requestId taskId (r_nodeTypesRequests r)\<rparr>))"

definition makeRpcCall :: "taskId \<Rightarrow> string \<Rightarrow> json list \<Rightarrow> TaskRunner \<Rightarrow> TaskRunner" where
  "makeRpcCall taskId name params r =
     (let callId = show_nat (r_nextId r)
      in send (RunnerRpc taskId callId name params)
           (r\<lparr>r_nextId := Suc (r_nextId r), r_rpcCalls := r_rpcCalls r @ [callId]\<rparr>))"

text \<open>An answer settles the request; the code that waits for it removes it when it goes on.\<close>

definition processDataResponse :: "string \<Rightarrow> json \<Rightarrow> TaskRunner \<Rightarrow> TaskRunner" where
  "processDataResponse requestId data r =
     (if map_of (r_dataRequests r) requestId = None then r
      else answer_request (AnswerResolved data) requestId r)"

definition processNodeTypesResponse :: "string \<Rightarrow> json \<Rightarrow> TaskRunner \<Rightarrow> TaskRunner" where
  "processNodeTypesResponse requestId nodeTypes r =
     (if map_of (r_nodeTypesRequests r) requestId = None then r
      else answer_request (AnswerResolved nodeTypes) requestId r)"

definition handleRpcResponse :: "string \<Rightarrow> string \<Rightarrow> json \<Rightarrow> TaskRunner \<Rightarrow> TaskRunner" where
  "handleRpcResponse callId status data r =
     (if callId \<notin> set (r_rpcCalls r) then r
      else answer_request (if status = ''success'' then AnswerResolved data else AnswerRejected data) callId r)"

definition requestReturns :: "string \<Rightarrow> TaskRunner \<Rightarrow> TaskRunner" where
  "requestReturns requestId r = r\<lparr>r_dataRequests := AList.delete requestId (r_dataRequests r),
     r_nodeTypesRequests := AList.delete requestId (r_nodeTypesRequests r), r_rpcCalls := removeAll requestId (r_rpcCalls r)\<rparr>"

section \<open>Messages of the broker and other events\<close>

definition onMessage :: "int \<Rightarrow> (nat \<Rightarrow> int) \<Rightarrow> ToRunner \<Rightarrow> TaskRunner \<Rightarrow> TaskRunner" where
  "onMessage now randomInt message r =
     (case message of
        InfoRequest \<Rightarrow> send (RunnerInfo (r_name r) [r_taskType r]) r
      | RunnerRegistered \<Rightarrow> startTaskOffers r
      | TaskOfferAccept offerId taskId \<Rightarrow> offerAccepted offerId taskId r
      | TaskCancel taskId reason \<Rightarrow> taskCancelled now randomInt taskId reason r
      | TaskSettings taskId settings \<Rightarrow> receivedSettings taskId r
      | TaskDataResponse taskId requestId data \<Rightarrow> processDataResponse requestId data r
      | RpcResponse taskId callId status data \<Rightarrow> handleRpcResponse callId status data r
      | NodeTypes taskId requestId nodeTypes \<Rightarrow> processNodeTypesResponse requestId nodeTypes r
      | Drain \<Rightarrow> stopTaskOffers r)"

definition stop :: "TaskRunner \<Rightarrow> TaskRunner" where
  "stop r = stopTaskOffers (r\<lparr>r_isShuttingDown := True, r_idleTimer := False\<rparr>)"

text \<open>The end of \<open>executeTask\<close> comes with its error or its result.\<close>

datatype RunnerEvent =
    FromBroker ToRunner
  | OfferInterval
  | TaskTimer state_ref
  | ExecutionEnds state_ref "json + json"
  | RequestsData taskId json
  | RequestsNodeTypes taskId json
  | MakesRpcCall taskId string "json list"
  | RequestReturns string
  | IdleTimeout
  | Stop

definition runner_enabled :: "RunnerEvent \<Rightarrow> TaskRunner \<Rightarrow> bool" where
  "runner_enabled ev r = (case ev of
     OfferInterval \<Rightarrow> r_offerInterval r
   | TaskTimer x \<Rightarrow> x < length (r_states r) \<and> s_timer (r_states r ! x)
   | ExecutionEnds x _ \<Rightarrow> x \<in> set (r_executing r)
   | IdleTimeout \<Rightarrow> r_idleTimer r
   | FromBroker (TaskOfferAccept offerId taskId) \<Rightarrow> taskId \<notin> s_taskId ` set (r_states r)
   | _ \<Rightarrow> True)"

definition runner_occur :: "int \<Rightarrow> (nat \<Rightarrow> int) \<Rightarrow> RunnerEvent \<Rightarrow> TaskRunner \<Rightarrow> TaskRunner" where
  "runner_occur now randomInt ev r = (case ev of
     FromBroker message \<Rightarrow> onMessage now randomInt message r
   | OfferInterval \<Rightarrow> sendOffers now randomInt r
   | TaskTimer x \<Rightarrow> taskTimedOut now randomInt (s_taskId (r_states r ! x)) (set_state x (\<lambda>s. s\<lparr>s_timer := False\<rparr>) r)
   | ExecutionEnds x result \<Rightarrow>
       (let r = r\<lparr>r_executing := remove1 x (r_executing r)\<rparr> in
        case result of Inl error \<Rightarrow> taskExecutionFailed now randomInt x error r
        | Inr data \<Rightarrow>
            (let unexpected = (s_status (r_states r ! x) = WaitingForSettings);
                 r = taskExecutionSucceeded now randomInt x data r
             in if unexpected then taskExecutionFailed now randomInt x (JStr ''Unexpected task status'') r else r))
   | RequestsData taskId params \<Rightarrow> requestData taskId params r
   | RequestsNodeTypes taskId params \<Rightarrow> requestNodeTypes taskId params r
   | MakesRpcCall taskId name params \<Rightarrow> makeRpcCall taskId name params r
   | RequestReturns requestId \<Rightarrow> requestReturns requestId r
   | IdleTimeout \<Rightarrow> (let r = r\<lparr>r_idleTimer := False\<rparr> in
       if r_runningTasks r = [] then r\<lparr>r_log := r_log r @ [ReachedIdleTimeout]\<rparr> else r)
   | Stop \<Rightarrow> stop r)"

inductive runner_step :: "TaskRunner \<Rightarrow> TaskRunner \<Rightarrow> bool" where
  RunnerEvent: "runner_enabled ev r \<Longrightarrow> runner_step r (runner_occur now randomInt ev r)"

inductive_cases runner_stepE: "runner_step r r'"

section \<open>What the operations leave alone\<close>

fun is_answer :: "taskId \<Rightarrow> RunnerLog \<Rightarrow> bool" where
  "is_answer t (SentToBroker (RunnerTaskDone u _)) = (u = t)"
| "is_answer t (SentToBroker (RunnerTaskError u _)) = (u = t)"
| "is_answer t _ = False"

definition answers :: "taskId \<Rightarrow> TaskRunner \<Rightarrow> nat" where
  "answers t r = length (filter (is_answer t) (r_log r))"

definition unexpected :: "TaskRunner \<Rightarrow> RunnerLog list" where
  "unexpected r = filter (\<lambda>l. \<exists>x. l = UnexpectedStatus x) (r_log r)"

named_theorems runner_frame

lemma answers_update [runner_frame]:
  "answers t (r\<lparr>r_openOffers := v0\<rparr>) = answers t r"
  "answers t (r\<lparr>r_states := v1\<rparr>) = answers t r"
  "answers t (r\<lparr>r_runningTasks := v2\<rparr>) = answers t r"
  "answers t (r\<lparr>r_executing := v3\<rparr>) = answers t r"
  "answers t (r\<lparr>r_dataRequests := v4\<rparr>) = answers t r"
  "answers t (r\<lparr>r_nodeTypesRequests := v5\<rparr>) = answers t r"
  "answers t (r\<lparr>r_rpcCalls := v6\<rparr>) = answers t r"
  "answers t (r\<lparr>r_answers := v7\<rparr>) = answers t r"
  "answers t (r\<lparr>r_idleTimer := v8\<rparr>) = answers t r"
  "answers t (r\<lparr>r_nextId := v9\<rparr>) = answers t r"
  "answers t (r\<lparr>r_canSendOffers := v10\<rparr>) = answers t r"
  "answers t (r\<lparr>r_offerInterval := v11\<rparr>) = answers t r"
  "answers t (r\<lparr>r_isShuttingDown := v12\<rparr>) = answers t r"
  by (simp_all add: answers_def)

lemma unexpected_update [runner_frame]:
  "unexpected (r\<lparr>r_openOffers := v0\<rparr>) = unexpected r"
  "unexpected (r\<lparr>r_states := v1\<rparr>) = unexpected r"
  "unexpected (r\<lparr>r_runningTasks := v2\<rparr>) = unexpected r"
  "unexpected (r\<lparr>r_executing := v3\<rparr>) = unexpected r"
  "unexpected (r\<lparr>r_dataRequests := v4\<rparr>) = unexpected r"
  "unexpected (r\<lparr>r_nodeTypesRequests := v5\<rparr>) = unexpected r"
  "unexpected (r\<lparr>r_rpcCalls := v6\<rparr>) = unexpected r"
  "unexpected (r\<lparr>r_answers := v7\<rparr>) = unexpected r"
  "unexpected (r\<lparr>r_idleTimer := v8\<rparr>) = unexpected r"
  "unexpected (r\<lparr>r_nextId := v9\<rparr>) = unexpected r"
  "unexpected (r\<lparr>r_canSendOffers := v10\<rparr>) = unexpected r"
  "unexpected (r\<lparr>r_offerInterval := v11\<rparr>) = unexpected r"
  "unexpected (r\<lparr>r_isShuttingDown := v12\<rparr>) = unexpected r"
  by (simp_all add: unexpected_def)

lemma sendOffer_frame [runner_frame]:
  "r_maxConcurrency (sendOffer now r j) = r_maxConcurrency r"
  "r_states (sendOffer now r j) = r_states r"
  "r_runningTasks (sendOffer now r j) = r_runningTasks r"
  "r_executing (sendOffer now r j) = r_executing r"
  "r_canSendOffers (sendOffer now r j) = r_canSendOffers r"
  "answers t (sendOffer now r j) = answers t r"
  "unexpected (sendOffer now r j) = unexpected r"
  by (simp_all add: sendOffer_def send_def Let_def answers_def unexpected_def)

lemma foldl_sendOffer_frame [runner_frame]:
  "r_maxConcurrency (foldl (sendOffer now) r js) = r_maxConcurrency r"
  "r_states (foldl (sendOffer now) r js) = r_states r"
  "r_runningTasks (foldl (sendOffer now) r js) = r_runningTasks r"
  "r_executing (foldl (sendOffer now) r js) = r_executing r"
  "r_canSendOffers (foldl (sendOffer now) r js) = r_canSendOffers r"
  "answers t (foldl (sendOffer now) r js) = answers t r"
  "unexpected (foldl (sendOffer now) r js) = unexpected r"
  by (induction js arbitrary: r) (simp_all add: runner_frame)

lemma sendOffers_frame [runner_frame]:
  "r_maxConcurrency (sendOffers now f r) = r_maxConcurrency r"
  "r_states (sendOffers now f r) = r_states r"
  "r_runningTasks (sendOffers now f r) = r_runningTasks r"
  "r_executing (sendOffers now f r) = r_executing r"
  "r_canSendOffers (sendOffers now f r) = r_canSendOffers r"
  "answers t (sendOffers now f r) = answers t r"
  "unexpected (sendOffers now f r) = unexpected r"
  by (simp_all add: sendOffers_def deleteStaleOffers_def Let_def runner_frame)

lemma settle_frame [runner_frame]:
  "r_maxConcurrency (answer_request a q r) = r_maxConcurrency r"
  "r_openOffers (answer_request a q r) = r_openOffers r"
  "r_states (answer_request a q r) = r_states r"
  "r_runningTasks (answer_request a q r) = r_runningTasks r"
  "r_executing (answer_request a q r) = r_executing r"
  "r_dataRequests (answer_request a q r) = r_dataRequests r"
  "r_nodeTypesRequests (answer_request a q r) = r_nodeTypesRequests r"
  "r_nextId (answer_request a q r) = r_nextId r"
  "r_log (answer_request a q r) = r_log r"
  by (simp_all add: answer_request_def)

lemma fold_settle_frame [runner_frame]:
  "r_maxConcurrency (fold (answer_request a) qs r) = r_maxConcurrency r"
  "r_openOffers (fold (answer_request a) qs r) = r_openOffers r"
  "r_states (fold (answer_request a) qs r) = r_states r"
  "r_runningTasks (fold (answer_request a) qs r) = r_runningTasks r"
  "r_executing (fold (answer_request a) qs r) = r_executing r"
  "r_dataRequests (fold (answer_request a) qs r) = r_dataRequests r"
  "r_nodeTypesRequests (fold (answer_request a) qs r) = r_nodeTypesRequests r"
  "r_nextId (fold (answer_request a) qs r) = r_nextId r"
  "r_log (fold (answer_request a) qs r) = r_log r"
  by (induction qs arbitrary: r) (simp_all add: runner_frame)

lemma cancelTaskRequests_frame [runner_frame]:
  "r_maxConcurrency (cancelTaskRequests t s r) = r_maxConcurrency r"
  "r_openOffers (cancelTaskRequests t s r) = r_openOffers r"
  "r_states (cancelTaskRequests t s r) = r_states r"
  "r_runningTasks (cancelTaskRequests t s r) = r_runningTasks r"
  "r_executing (cancelTaskRequests t s r) = r_executing r"
  "r_nextId (cancelTaskRequests t s r) = r_nextId r"
  "r_log (cancelTaskRequests t s r) = r_log r"
  by (simp_all add: cancelTaskRequests_def Let_def runner_frame)

lemma finishTask_frame [runner_frame]:
  "r_maxConcurrency (finishTask now f x r) = r_maxConcurrency r"
  "r_states (finishTask now f x r) = (r_states r)[x := (r_states r ! x)\<lparr>s_timer := False\<rparr>]"
  "x < length (r_states r) \<Longrightarrow>
     r_runningTasks (finishTask now f x r) = AList.delete (s_taskId (r_states r ! x)) (r_runningTasks r)"
  "r_executing (finishTask now f x r) = r_executing r"
  "answers t (finishTask now f x r) = answers t r"
  "unexpected (finishTask now f x r) = unexpected r"
  by (simp_all add: finishTask_def resetIdleTimer_def set_state_def Let_def runner_frame)

section \<open>The capacity of a runner\<close>

definition slots_used :: "TaskRunner \<Rightarrow> int" where
  "slots_used r = int (length (r_openOffers r)) + int (length (r_runningTasks r))"

text \<open>The ids of open offers are earlier numerals, so that a new offer replaces none.\<close>

definition offers_ok :: "TaskRunner \<Rightarrow> bool" where
  "offers_ok r \<longleftrightarrow> (\<forall>offerId \<in> fst ` set (r_openOffers r). \<exists>n < r_nextId r. offerId = show_nat n)"

lemma offers_ok_mono:
  "offers_ok r \<Longrightarrow> fst ` set (r_openOffers r') \<subseteq> fst ` set (r_openOffers r) \<Longrightarrow> r_nextId r \<le> r_nextId r' \<Longrightarrow> offers_ok r'"
  unfolding offers_ok_def by (meson order_less_le_trans subsetD)

lemma sendOffer_load:
  assumes "offers_ok r"
  shows "offers_ok (sendOffer now r j)" and "slots_used (sendOffer now r j) = slots_used r + 1"
proof -
  have "show_nat (r_nextId r) \<notin> fst ` set (r_openOffers r)"
    using assms by (auto simp: offers_ok_def dest!: show_nat_inj)
  then show "slots_used (sendOffer now r j) = slots_used r + 1"
    by (simp add: sendOffer_def send_def slots_used_def length_update_new map_of_eq_None_iff Let_def)
  show "offers_ok (sendOffer now r j)"
    using assms unfolding offers_ok_def
    by (auto simp: sendOffer_def send_def dom_update less_Suc_eq Let_def)
qed

lemma foldl_sendOffer_load:
  "offers_ok r \<Longrightarrow> offers_ok (foldl (sendOffer now) r js) \<and> slots_used (foldl (sendOffer now) r js) = slots_used r + int (length js)"
  by (induction js arbitrary: r) (simp_all add: sendOffer_load)

lemma deleteStaleOffers_load:
  "offers_ok r \<Longrightarrow> offers_ok (deleteStaleOffers now r)" "slots_used (deleteStaleOffers now r) \<le> slots_used r"
  by (auto simp: offers_ok_def deleteStaleOffers_def slots_used_def)

lemma sendOffers_load:
  assumes "offers_ok r" and "slots_used r \<le> r_maxConcurrency r"
  shows "offers_ok (sendOffers now f r)" and "slots_used (sendOffers now f r) \<le> r_maxConcurrency r"
    and "r_canSendOffers r \<Longrightarrow> slots_used (sendOffers now f r) = r_maxConcurrency r"
proof -
  let ?d = "deleteStaleOffers now r"
  have d: "offers_ok ?d" "slots_used ?d \<le> r_maxConcurrency r" "r_maxConcurrency ?d = r_maxConcurrency r"
    "r_canSendOffers ?d = r_canSendOffers r"
    using deleteStaleOffers_load(1) [OF assms(1), of now] deleteStaleOffers_load(2) [of now r] assms(2)
    by (simp_all add: deleteStaleOffers_def)
  define js where "js = map f [0..<nat (r_maxConcurrency ?d - slots_used ?d)]"
  have s: "sendOffers now f r = (if \<not> r_canSendOffers ?d then ?d else foldl (sendOffer now) ?d js)"
    by (simp add: sendOffers_def Let_def slots_used_def js_def)
  have "int (length js) = r_maxConcurrency r - slots_used ?d" using d(2,3) by (simp add: js_def)
  then show "offers_ok (sendOffers now f r)" "slots_used (sendOffers now f r) \<le> r_maxConcurrency r"
    "r_canSendOffers r \<Longrightarrow> slots_used (sendOffers now f r) = r_maxConcurrency r"
    using d foldl_sendOffer_load [OF d(1), of now js] by (auto simp: s)
qed

definition within_capacity :: "TaskRunner \<Rightarrow> bool" where
  "within_capacity r \<longleftrightarrow> offers_ok r \<and> slots_used r \<le> r_maxConcurrency r"

lemma within_capacityI:
  assumes "within_capacity r" and "r_maxConcurrency r' = r_maxConcurrency r" and "r_nextId r \<le> r_nextId r'"
    and "fst ` set (r_openOffers r') \<subseteq> fst ` set (r_openOffers r)" and "slots_used r' \<le> slots_used r"
  shows "within_capacity r'"
  using assms offers_ok_mono [of r r'] by (auto simp: within_capacity_def)

lemma sendOffers_capacity: "within_capacity r \<Longrightarrow> within_capacity (sendOffers now f r)"
  using sendOffers_load(1,2) [of r now f] by (simp add: within_capacity_def runner_frame)

lemma finishTask_capacity: "within_capacity r \<Longrightarrow> within_capacity (finishTask now f x r)"
proof -
  assume r: "within_capacity r"
  let ?q = "(set_state x (\<lambda>s. s\<lparr>s_timer := False\<rparr>) r)"
  let ?r = "?q\<lparr>r_runningTasks := AList.delete (s_taskId (r_states ?q ! x)) (r_runningTasks ?q)\<rparr>"
  have "within_capacity ?r"
    by (rule within_capacityI [OF r]) (simp_all add: set_state_def slots_used_def length_delete_le)
  then have s: "within_capacity (sendOffers now f ?r)" by (rule sendOffers_capacity)
  show ?thesis
    by (rule within_capacityI [OF s]) (simp_all add: finishTask_def Let_def resetIdleTimer_def slots_used_def)
qed

text \<open>Changes of anything but the offers and the running tasks keep the capacity.\<close>

lemma capacity_frame:
  assumes "within_capacity r" and "r_maxConcurrency r' = r_maxConcurrency r" and "r_nextId r \<le> r_nextId r'"
    and "r_openOffers r' = r_openOffers r" and "r_runningTasks r' = r_runningTasks r"
  shows "within_capacity r'"
  using assms within_capacityI [of r r'] by (simp add: slots_used_def)

lemma offerAccepted_capacity: "within_capacity r \<Longrightarrow> within_capacity (offerAccepted o1 t r)"
  by (erule within_capacityI)
     (auto simp: offerAccepted_def send_def resetIdleTimer_def Let_def slots_used_def length_update_new length_delete_le
       set_delete split: option.splits dest: length_delete_less)

lemma taskCancelled_capacity: "within_capacity r \<Longrightarrow> within_capacity (taskCancelled now f t reason r)"
  by (auto simp: taskCancelled_def finishTask_capacity runner_frame set_state_def
      elim: capacity_frame split: option.split TaskStatus.split)

lemma send_capacity: "within_capacity r \<Longrightarrow> within_capacity (send m r)"
  by (erule capacity_frame) (simp_all add: send_def)

lemma taskTimedOut_capacity: "within_capacity r \<Longrightarrow> within_capacity (taskTimedOut now f t r)"
  by (auto simp: taskTimedOut_def finishTask_capacity send_capacity runner_frame set_state_def throwUnexpectedTaskStatus_def
      elim: capacity_frame split: option.split TaskStatus.split)

lemma execution_end_capacity:
  assumes "within_capacity r"
  shows "within_capacity (taskExecutionSucceeded now f x d r)" and "within_capacity (taskExecutionFailed now f x e r)"
  using assms by (auto simp: taskExecutionSucceeded_def taskExecutionFailed_def throwUnexpectedTaskStatus_def
      intro!: finishTask_capacity send_capacity elim: capacity_frame split: TaskStatus.split)

lemma onMessage_capacity: "within_capacity r \<Longrightarrow> within_capacity (onMessage now f m r)"
  by (cases m)
     (auto simp: onMessage_def send_capacity offerAccepted_capacity taskCancelled_capacity startTaskOffers_def
       stopTaskOffers_def receivedSettings_def set_state_def throwUnexpectedTaskStatus_def processDataResponse_def
       processNodeTypesResponse_def handleRpcResponse_def runner_frame
       elim: capacity_frame split: option.split TaskStatus.split)

lemma runner_occur_capacity:
  assumes r: "within_capacity r"
  shows "within_capacity (runner_occur now f ev r)"
proof (cases ev)
  case (ExecutionEnds x result)
  have "within_capacity (r\<lparr>r_executing := remove1 x (r_executing r)\<rparr>)" by (rule capacity_frame [OF r]) simp_all
  with ExecutionEnds show ?thesis
    by (auto simp: runner_occur_def Let_def execution_end_capacity split: sum.split)
next
  case (TaskTimer x)
  have "within_capacity (set_state x (\<lambda>s. s\<lparr>s_timer := False\<rparr>) r)" by (rule capacity_frame [OF r]) (simp_all add: set_state_def)
  with TaskTimer show ?thesis by (simp add: runner_occur_def taskTimedOut_capacity)
qed (use r in \<open>auto simp: runner_occur_def onMessage_capacity sendOffers_capacity requestData_def requestNodeTypes_def
    makeRpcCall_def requestReturns_def stop_def stopTaskOffers_def send_def Let_def elim: capacity_frame\<close>)

lemma reachable_capacity:
  "runner_step\<^sup>*\<^sup>* r r' \<Longrightarrow> within_capacity r \<Longrightarrow> within_capacity r'"
  by (induction rule: rtranclp_induct) (auto elim!: runner_stepE intro: runner_occur_capacity)

lemma occur_max [runner_frame]: "r_maxConcurrency (runner_occur now f ev r) = r_maxConcurrency r"
  by (auto simp: runner_occur_def onMessage_def runner_frame set_state_def Let_def send_def offerAccepted_def resetIdleTimer_def
      taskCancelled_def taskTimedOut_def throwUnexpectedTaskStatus_def receivedSettings_def taskExecutionSucceeded_def
      taskExecutionFailed_def requestData_def requestNodeTypes_def makeRpcCall_def requestReturns_def stop_def
      stopTaskOffers_def startTaskOffers_def processDataResponse_def processNodeTypesResponse_def handleRpcResponse_def
      split: RunnerEvent.split ToRunner.split option.split TaskStatus.split sum.split)

lemma reachable_max: "runner_step\<^sup>*\<^sup>* r r' \<Longrightarrow> r_maxConcurrency r' = r_maxConcurrency r"
  by (induction rule: rtranclp_induct) (auto elim!: runner_stepE simp: runner_frame)

text \<open>C31. A runner never has more open offers and running tasks together than it can run at once, whatever
  messages come and timers fire; and as long as the broker has not drained it, each round of offers fills
  this capacity exactly.\<close>

theorem runner_never_over_capacity:
  assumes "runner_step\<^sup>*\<^sup>* (new_TaskRunner name taskType maxConcurrency idleTimeout) r" and "0 \<le> maxConcurrency"
  shows "int (length (r_openOffers r)) + int (length (r_runningTasks r)) \<le> maxConcurrency \<and>
    (r_canSendOffers r \<longrightarrow> (let r' = sendOffers now randomInt r in
       int (length (r_openOffers r')) + int (length (r_runningTasks r')) = maxConcurrency))"
proof -
  have "within_capacity (new_TaskRunner name taskType maxConcurrency idleTimeout)"
    using assms(2) by (simp add: new_TaskRunner_def within_capacity_def offers_ok_def slots_used_def)
  from reachable_capacity [OF assms(1) this] reachable_max [OF assms(1)]
  have r: "offers_ok r" "slots_used r \<le> r_maxConcurrency r" "r_maxConcurrency r = maxConcurrency"
    by (simp_all add: within_capacity_def new_TaskRunner_def)
  show ?thesis using sendOffers_load(3) [OF r(1,2), of now randomInt] r by (simp add: slots_used_def)
qed

section \<open>The life of a task\<close>

abbreviation task_of :: "TaskRunner \<Rightarrow> state_ref \<Rightarrow> taskId" where
  "task_of r x \<equiv> s_taskId (r_states r ! x)"

abbreviation status_of :: "TaskRunner \<Rightarrow> state_ref \<Rightarrow> TaskStatus" where
  "status_of r x \<equiv> s_status (r_states r ! x)"

text \<open>How many messages with a result or an error a finished task has sent, by the status it finished in.\<close>

fun due :: "TaskStatus \<Rightarrow> nat \<Rightarrow> bool" where
  "due WaitingForSettings n = (n \<le> 1)"
| "due AbortingCancelled n = (n = 0)"
| "due _ n = (n = 1)"

definition task_in_order :: "TaskRunner \<Rightarrow> state_ref \<Rightarrow> bool" where
  "task_in_order r x \<longleftrightarrow>
     (if map_of (r_runningTasks r) (task_of r x) = Some x
      then answers (task_of r x) r = 0 \<and> (status_of r x \<noteq> WaitingForSettings \<longleftrightarrow> x \<in> set (r_executing r))
      else due (status_of r x) (answers (task_of r x) r) \<and> x \<notin> set (r_executing r)) \<and>
     (status_of r x = AbortingTimeout \<longrightarrow> \<not> s_timer (r_states r ! x))"

definition tasks_ok :: "TaskRunner \<Rightarrow> bool" where
  "tasks_ok r \<longleftrightarrow> distinct (map s_taskId (r_states r)) \<and> distinct (r_executing r) \<and>
     (\<forall>t x. map_of (r_runningTasks r) t = Some x \<longrightarrow> x < length (r_states r) \<and> task_of r x = t) \<and>
     (\<forall>x \<in> set (r_executing r). x < length (r_states r)) \<and>
     (\<forall>t. t \<notin> s_taskId ` set (r_states r) \<longrightarrow> answers t r = 0) \<and>
     (\<forall>x < length (r_states r). task_in_order r x)"

lemma tasks_okD:
  assumes "tasks_ok r"
  shows "distinct (map s_taskId (r_states r))" and "distinct (r_executing r)"
    and "map_of (r_runningTasks r) t = Some x \<Longrightarrow> x < length (r_states r)"
    and "map_of (r_runningTasks r) t = Some x \<Longrightarrow> task_of r x = t"
    and "x \<in> set (r_executing r) \<Longrightarrow> x < length (r_states r)"
    and "t \<notin> s_taskId ` set (r_states r) \<Longrightarrow> answers t r = 0"
    and "x < length (r_states r) \<Longrightarrow> task_in_order r x"
  using assms unfolding tasks_ok_def by blast+

lemma task_of_inj:
  "tasks_ok r \<Longrightarrow> x < length (r_states r) \<Longrightarrow> y < length (r_states r) \<Longrightarrow> task_of r x = task_of r y \<longleftrightarrow> x = y"
  by (drule tasks_okD(1)) (auto simp: distinct_conv_nth)

lemma tasks_ok_frame:
  assumes "tasks_ok r" and "r_states r' = r_states r" and "r_runningTasks r' = r_runningTasks r"
    and "r_executing r' = r_executing r" and "\<And>t. answers t r' = answers t r"
  shows "tasks_ok r'"
  using assms(1) unfolding tasks_ok_def task_in_order_def assms(2-) .

text \<open>A task that runs on: its state changes, and it executes unless it waits for its settings.\<close>

lemma tasks_ok_change:
  assumes ok: "tasks_ok r" and x: "map_of (r_runningTasks r) (task_of r x) = Some x"
    and st: "r_states r' = (r_states r)[x := s]" "s_taskId s = task_of r x"
      "s_status s = AbortingTimeout \<longrightarrow> \<not> s_timer s"
    and run: "r_runningTasks r' = r_runningTasks r" and ans: "\<And>t. answers t r' = answers t r"
    and ex: "distinct (r_executing r')" "\<And>y. y \<noteq> x \<Longrightarrow> y \<in> set (r_executing r') \<longleftrightarrow> y \<in> set (r_executing r)"
      "x \<in> set (r_executing r') \<longleftrightarrow> s_status s \<noteq> WaitingForSettings"
  shows "tasks_ok r'"
proof -
  have xl: "x < length (r_states r)" by (rule tasks_okD(3) [OF ok x])
  have same: "s_taskId (r_states r' ! y) = task_of r y" for y
    using st(1,2) by (cases "y = x") (auto simp: nth_list_update xl)
  have ids: "map s_taskId (r_states r') = map s_taskId (r_states r)"
    by (rule nth_equalityI) (simp_all add: same st(1) nth_list_update xl st(2))
  have len: "length (r_states r') = length (r_states r)" by (simp add: st(1))
  have set_ids: "s_taskId ` set (r_states r') = s_taskId ` set (r_states r)"
    using ids by (metis list.set_map)
  have "task_in_order r' y" if y: "y < length (r_states r)" for y
  proof (cases "y = x")
    case True
    have "task_in_order r x" by (rule tasks_okD(7) [OF ok xl])
    with True x xl st run ans ex(3) show ?thesis by (simp add: task_in_order_def)
  next
    case False
    have "task_in_order r y" by (rule tasks_okD(7) [OF ok y])
    with False st(1) run ans ex(2) [OF False] show ?thesis by (simp add: task_in_order_def)
  qed
  moreover have "y < length (r_states r)" if "y \<in> set (r_executing r')" for y
    using xl ex(2) [of y] that tasks_okD(5) [OF ok, of y] by (cases "y = x") auto
  ultimately show ?thesis
    unfolding tasks_ok_def ids len set_ids same run ans
    using ex(1) tasks_okD [OF ok] by blast
qed

text \<open>A task that is removed, having sent the answers due.\<close>

lemma tasks_ok_finish:
  assumes ok: "tasks_ok r" and x: "map_of (r_runningTasks r) (task_of r x) = Some x"
    and st: "r_states r' = (r_states r)[x := s]" "s_taskId s = task_of r x" "s_status s = status_of r x" "\<not> s_timer s"
    and run: "r_runningTasks r' = AList.delete (task_of r x) (r_runningTasks r)"
    and ans: "\<And>t. t \<noteq> task_of r x \<Longrightarrow> answers t r' = answers t r" "due (status_of r x) (answers (task_of r x) r')"
    and ex: "r_executing r' = remove1 x (r_executing r)"
  shows "tasks_ok r'"
proof -
  have xl: "x < length (r_states r)" by (rule tasks_okD(3) [OF ok x])
  have same: "s_taskId (r_states r' ! y) = task_of r y" for y
    using st(1,2) by (cases "y = x") (auto simp: nth_list_update xl)
  have ids: "map s_taskId (r_states r') = map s_taskId (r_states r)"
    by (rule nth_equalityI) (simp_all add: same st(1) nth_list_update xl st(2))
  have len: "length (r_states r') = length (r_states r)" by (simp add: st(1))
  have set_ids: "s_taskId ` set (r_states r') = s_taskId ` set (r_states r)"
    using ids by (metis list.set_map)
  have dex: "distinct (r_executing r)" by (rule tasks_okD(2) [OF ok])
  have "task_in_order r' y" if y: "y < length (r_states r)" for y
  proof (cases "y = x")
    case True
    with xl st run ans(2) ex dex show ?thesis by (simp add: task_in_order_def delete_conv')
  next
    case False
    then have t: "task_of r y \<noteq> task_of r x" using task_of_inj [OF ok y xl] by simp
    have "task_in_order r y" by (rule tasks_okD(7) [OF ok y])
    with False t st(1) run ans(1) [OF t] ex dex show ?thesis by (simp add: task_in_order_def delete_conv')
  qed
  moreover have "task_of r x \<in> s_taskId ` set (r_states r)" using xl by simp
  then have "answers t r' = 0" if "t \<notin> s_taskId ` set (r_states r)" for t
    using ans(1) [of t] that tasks_okD(6) [OF ok, of t] by metis
  moreover have "map_of (r_runningTasks r') t = Some y \<Longrightarrow> map_of (r_runningTasks r) t = Some y" for t y
    by (simp add: run delete_conv' split: if_splits)
  ultimately show ?thesis
    unfolding tasks_ok_def ids len set_ids same ex
    using dex tasks_okD [OF ok] by (meson distinct_remove1 notin_set_remove1)
qed

lemma executing_runs:
  assumes "tasks_ok r" and "x \<in> set (r_executing r)"
  shows "x < length (r_states r)" and "map_of (r_runningTasks r) (task_of r x) = Some x"
    and "status_of r x \<noteq> WaitingForSettings" and "answers (task_of r x) r = 0"
proof -
  show x: "x < length (r_states r)" by (rule tasks_okD(5) [OF assms])
  from tasks_okD(7) [OF assms(1) x] assms(2)
  show "map_of (r_runningTasks r) (task_of r x) = Some x" "status_of r x \<noteq> WaitingForSettings"
    "answers (task_of r x) r = 0"
    by (auto simp: task_in_order_def split: if_splits)
qed

lemma running_task:
  assumes "tasks_ok r" and "map_of (r_runningTasks r) t = Some x"
  shows "x < length (r_states r)" and "task_of r x = t" and "answers t r = 0"
    and "x \<in> set (r_executing r) \<longleftrightarrow> status_of r x \<noteq> WaitingForSettings"
    and "status_of r x = AbortingTimeout \<Longrightarrow> \<not> s_timer (r_states r ! x)"
proof -
  show x: "x < length (r_states r)" and t: "task_of r x = t" using tasks_okD(3,4) [OF assms] .
  from tasks_okD(7) [OF assms(1) x] assms(2) t
  show "answers t r = 0" "x \<in> set (r_executing r) \<longleftrightarrow> status_of r x \<noteq> WaitingForSettings"
    "status_of r x = AbortingTimeout \<Longrightarrow> \<not> s_timer (r_states r ! x)"
    by (auto simp: task_in_order_def)
qed

lemma send_frame [runner_frame]:
  "r_states (send m r) = r_states r"
  "r_runningTasks (send m r) = r_runningTasks r"
  "r_executing (send m r) = r_executing r"
  "answers t (send m r) = answers t r + (if is_answer t (SentToBroker m) then 1 else 0)"
  "unexpected (send m r) = unexpected r"
  by (simp_all add: send_def answers_def unexpected_def)

lemma throw_frame [runner_frame]:
  "r_states (throwUnexpectedTaskStatus x r) = r_states r"
  "r_runningTasks (throwUnexpectedTaskStatus x r) = r_runningTasks r"
  "r_executing (throwUnexpectedTaskStatus x r) = r_executing r"
  "answers t (throwUnexpectedTaskStatus x r) = answers t r"
  by (simp_all add: throwUnexpectedTaskStatus_def answers_def)

lemma cancel_answers [runner_frame]:
  "answers t (cancelTaskRequests u s r) = answers t r"
  "unexpected (cancelTaskRequests u s r) = unexpected r"
  by (simp_all add: answers_def unexpected_def runner_frame)

lemma set_state_frame [runner_frame]:
  "r_states (set_state x g r) = (r_states r)[x := g (r_states r ! x)]"
  "r_runningTasks (set_state x g r) = r_runningTasks r"
  "r_executing (set_state x g r) = r_executing r"
  "answers t (set_state x g r) = answers t r"
  "unexpected (set_state x g r) = unexpected r"
  by (simp_all add: set_state_def answers_def unexpected_def)

lemma idle_frame [runner_frame]:
  "answers t (r\<lparr>r_idleTimer := b, r_log := r_log r @ [ReachedIdleTimeout]\<rparr>) = answers t r"
  "unexpected (r\<lparr>r_idleTimer := b, r_log := r_log r @ [ReachedIdleTimeout]\<rparr>) = unexpected r"
  by (simp_all add: answers_def unexpected_def)

lemma finish_waiting:
  assumes ok: "tasks_ok r" and x: "map_of (r_runningTasks r) t = Some x" and w: "status_of r x = WaitingForSettings"
  shows "tasks_ok (finishTask now f x r)" and "tasks_ok (finishTask now f x (send (RunnerTaskError t e) r))"
proof -
  note run = running_task [OF ok x]
  have x': "map_of (r_runningTasks r) (task_of r x) = Some x" using x run(2) by simp
  have ex: "r_executing r = remove1 x (r_executing r)" using run(4) w by (simp add: remove1_idem)
  show "tasks_ok (finishTask now f x r)"
    by (rule tasks_ok_finish [OF ok x', where s = "(r_states r ! x)\<lparr>s_timer := False\<rparr>"])
       (simp_all add: runner_frame run w ex [symmetric])
  show "tasks_ok (finishTask now f x (send (RunnerTaskError t e) r))"
    by (rule tasks_ok_finish [OF ok x', where s = "(r_states r ! x)\<lparr>s_timer := False\<rparr>"])
       (use run w ex [symmetric] in \<open>simp_all add: runner_frame\<close>)
qed

lemma abort_running:
  assumes ok: "tasks_ok r" and x: "map_of (r_runningTasks r) t = Some x" and w: "status_of r x = RunningTask"
    and a: "a = AbortingTimeout \<longrightarrow> \<not> s_timer (r_states r ! x)" "a \<noteq> WaitingForSettings"
  shows "tasks_ok (cancelTaskRequests t reason (set_state x (\<lambda>s. s\<lparr>s_status := a, s_aborted := True\<rparr>) r))"
proof -
  note run = running_task [OF ok x]
  have x': "map_of (r_runningTasks r) (task_of r x) = Some x" using x run(2) by simp
  show ?thesis
    by (rule tasks_ok_change [OF ok x', where s = "(r_states r ! x)\<lparr>s_status := a, s_aborted := True\<rparr>"])
       (use run w a tasks_okD(2) [OF ok] in \<open>simp_all add: runner_frame\<close>)
qed

lemma taskCancelled_tasks: "tasks_ok r \<Longrightarrow> tasks_ok (taskCancelled now f t reason r)"
  by (auto simp: taskCancelled_def finish_waiting abort_running split: option.split TaskStatus.split)

lemma throw_tasks: "tasks_ok r \<Longrightarrow> tasks_ok (throwUnexpectedTaskStatus x r)"
  by (erule tasks_ok_frame) (simp_all add: runner_frame)

lemma timer_off: "tasks_ok r \<Longrightarrow> x < length (r_states r) \<Longrightarrow> tasks_ok (set_state x (\<lambda>s. s\<lparr>s_timer := False\<rparr>) r)"
proof -
  assume ok: "tasks_ok r" and x: "x < length (r_states r)"
  let ?r = "set_state x (\<lambda>s. s\<lparr>s_timer := False\<rparr>) r"
  have same: "task_of ?r y = task_of r y" "status_of ?r y = status_of r y" for y
    using x by (auto simp: runner_frame nth_list_update)
  have "map s_taskId (r_states ?r) = map s_taskId (r_states r)"
    by (rule nth_equalityI) (use same x in \<open>simp_all add: runner_frame\<close>)
  moreover from this have "s_taskId ` set (r_states ?r) = s_taskId ` set (r_states r)" by (metis list.set_map)
  moreover have "task_in_order ?r y" if "y < length (r_states r)" for y
    using tasks_okD(7) [OF ok that] same [of y] x
    by (auto simp: task_in_order_def runner_frame nth_list_update split: if_splits)
  moreover have "length (r_states ?r) = length (r_states r)" by (simp add: runner_frame)
  ultimately show ?thesis
    unfolding tasks_ok_def same using tasks_okD [OF ok] by (simp add: runner_frame)
qed

lemma taskTimedOut_tasks:
  assumes "tasks_ok r" and "\<And>x. map_of (r_runningTasks r) t = Some x \<Longrightarrow> \<not> s_timer (r_states r ! x)"
  shows "tasks_ok (taskTimedOut now f t r)"
  using assms by (auto simp: taskTimedOut_def finish_waiting abort_running throw_tasks split: option.split TaskStatus.split)

lemma receivedSettings_tasks: "tasks_ok r \<Longrightarrow> tasks_ok (receivedSettings t r)"
proof -
  assume ok: "tasks_ok r"
  have start: "tasks_ok ((set_state x (\<lambda>s. s\<lparr>s_status := RunningTask\<rparr>) r)\<lparr>r_executing := r_executing r @ [x]\<rparr>)"
    if x: "map_of (r_runningTasks r) t = Some x" and w: "status_of r x = WaitingForSettings" for x
  proof -
    note run = running_task [OF ok x]
    have x': "map_of (r_runningTasks r) (task_of r x) = Some x" using x run(2) by simp
    show ?thesis
      by (rule tasks_ok_change [OF ok x', where s = "(r_states r ! x)\<lparr>s_status := RunningTask\<rparr>"])
         (use run w tasks_okD(2) [OF ok] in \<open>simp_all add: runner_frame\<close>)
  qed
  show ?thesis
    by (auto simp: receivedSettings_def ok throw_tasks start split: option.split TaskStatus.split)
qed

lemma execution_end_tasks:
  assumes ok: "tasks_ok r" and x: "x \<in> set (r_executing r)"
  defines "r0 \<equiv> r\<lparr>r_executing := remove1 x (r_executing r)\<rparr>"
  shows "tasks_ok (taskExecutionSucceeded now f x d r0)" and "tasks_ok (taskExecutionFailed now f x e r0)"
    and "unexpected (taskExecutionSucceeded now f x d r0) = unexpected r"
    and "unexpected (taskExecutionFailed now f x e r0) = unexpected r"
proof -
  note run = executing_runs [OF ok x]
  show "tasks_ok (taskExecutionSucceeded now f x d r0)" "tasks_ok (taskExecutionFailed now f x e r0)"
    by (rule tasks_ok_finish [OF ok run(2), where s = "(r_states r ! x)\<lparr>s_timer := False\<rparr>"];
        use run in \<open>simp add: taskExecutionSucceeded_def taskExecutionFailed_def r0_def runner_frame split: TaskStatus.split\<close>)+
  show "unexpected (taskExecutionSucceeded now f x d r0) = unexpected r"
    "unexpected (taskExecutionFailed now f x e r0) = unexpected r"
    using run(3) by (simp_all add: taskExecutionSucceeded_def taskExecutionFailed_def r0_def runner_frame split: TaskStatus.split)
qed

text \<open>A task that is accepted waits for its settings.\<close>

lemma tasks_ok_accept:
  assumes ok: "tasks_ok r" and new: "t \<notin> s_taskId ` set (r_states r)"
    and st: "r_states r' = r_states r @ [s]" "s_taskId s = t" "s_status s = WaitingForSettings"
    and run: "r_runningTasks r' = AList.update t (length (r_states r)) (r_runningTasks r)"
    and fr: "r_executing r' = r_executing r" "\<And>u. answers u r' = answers u r"
  shows "tasks_ok r'"
proof -
  define n where "n = length (r_states r)"
  have len: "x < length (r_states r') \<longleftrightarrow> x < n \<or> x = n" for x by (auto simp: st(1) n_def)
  have old: "r_states r' ! x = r_states r ! x" if "x < n" for x using that by (simp add: st(1) nth_append n_def)
  have last: "r_states r' ! n = s" by (simp add: st(1) n_def)
  have other: "task_of r x \<noteq> t" if "x < n" for x using that new by (auto simp: n_def)
  have ex: "x \<in> set (r_executing r) \<Longrightarrow> x < n" for x using tasks_okD(5) [OF ok] by (simp add: n_def)
  have "task_in_order r' x" if "x < n" for x
    using tasks_okD(7) [OF ok, of x] that other [OF that]
    unfolding task_in_order_def old [OF that] run fr by (simp add: update_conv' n_def)
  moreover have "task_in_order r' n"
    using tasks_okD(6) [OF ok new] ex [of n] st(2,3) unfolding task_in_order_def last run fr by (auto simp: update_conv' n_def)
  moreover have "x < length (r_states r') \<and> task_of r' x = u" if "map_of (r_runningTasks r') u = Some x" for u x
    using that tasks_okD(3,4) [OF ok, of u x] old [of x] last st(2)
    by (auto simp: run len update_conv' n_def split: if_splits)
  moreover have "distinct (map s_taskId (r_states r'))" using tasks_okD(1) [OF ok] new st(2) by (simp add: st(1))
  moreover have "answers u r' = 0" if "u \<notin> s_taskId ` set (r_states r')" for u
    using that tasks_okD(6) [OF ok, of u] unfolding fr st by simp
  ultimately show ?thesis
    unfolding tasks_ok_def fr(1) len using tasks_okD(2) [OF ok] ex by blast
qed

lemma offerAccepted_tasks:
  assumes ok: "tasks_ok r" and new: "t \<notin> s_taskId ` set (r_states r)"
  shows "tasks_ok (offerAccepted i t r)"
proof -
  let ?s = "\<lparr>s_taskId = t, s_status = WaitingForSettings, s_timer = True, s_aborted = False\<rparr>"
  have "tasks_ok (send (RunnerTaskRejected t why) (r\<lparr>r_openOffers := os\<rparr>))"
    "tasks_ok (send (RunnerTaskRejected t why) r)" for os why
    by (rule tasks_ok_frame [OF ok], simp_all add: runner_frame)+
  moreover have "tasks_ok (offerAccepted i t r)" if "hasOpenTaskSlots r" "map_of (r_openOffers r) i = Some v" for v
    by (rule tasks_ok_accept [OF ok new, where s = ?s])
       (use that in \<open>simp_all add: offerAccepted_def resetIdleTimer_def Let_def runner_frame\<close>)
  ultimately show ?thesis
    by (cases "hasOpenTaskSlots r"; cases "map_of (r_openOffers r) i") (auto simp: offerAccepted_def)
qed

lemma offerAccepted_unexpected [runner_frame]: "unexpected (offerAccepted i t r) = unexpected r"
  by (simp add: offerAccepted_def resetIdleTimer_def Let_def runner_frame split: option.split)

lemma taskCancelled_unexpected [runner_frame]: "unexpected (taskCancelled now f t reason r) = unexpected r"
  by (simp add: taskCancelled_def runner_frame split: option.split TaskStatus.split)

lemma taskTimedOut_unexpected:
  assumes "\<And>x. map_of (r_runningTasks r) t = Some x \<Longrightarrow> status_of r x \<noteq> AbortingTimeout"
  shows "unexpected (taskTimedOut now f t r) = unexpected r"
  using assms by (auto simp: taskTimedOut_def runner_frame split: option.split TaskStatus.split)

lemma onMessage_tasks:
  assumes "tasks_ok r" and "\<And>i t. m = TaskOfferAccept i t \<Longrightarrow> t \<notin> s_taskId ` set (r_states r)"
  shows "tasks_ok (onMessage now f m r)"
  using assms by (cases m)
   (auto simp: onMessage_def taskCancelled_tasks receivedSettings_tasks offerAccepted_tasks startTaskOffers_def
      stopTaskOffers_def processDataResponse_def processNodeTypesResponse_def handleRpcResponse_def answer_request_def
      answers_update elim!: tasks_ok_frame simp: runner_frame)

lemma onMessage_unexpected:
  "(\<And>t s. m \<noteq> TaskSettings t s) \<Longrightarrow> unexpected (onMessage now f m r) = unexpected r"
  by (cases m) (auto simp: onMessage_def runner_frame startTaskOffers_def stopTaskOffers_def processDataResponse_def
      processNodeTypesResponse_def handleRpcResponse_def answer_request_def)

lemma timer_state:
  assumes ok: "tasks_ok r" and x: "x < length (r_states r)" "s_timer (r_states r ! x)"
    and y: "map_of (r_runningTasks r) (task_of r x) = Some y"
  shows "y = x" and "status_of r y \<noteq> AbortingTimeout"
proof -
  have "y < length (r_states r)" "task_of r y = task_of r x" using running_task(1,2) [OF ok y] .
  then show "y = x" using task_of_inj [OF ok] x(1) by simp
  then show "status_of r y \<noteq> AbortingTimeout" using running_task(5) [OF ok y] x(2) by auto
qed

lemma runner_occur_tasks:
  assumes ok: "tasks_ok r" and en: "runner_enabled ev r"
  shows "tasks_ok (runner_occur now f ev r)"
    and "(\<And>t s. ev \<noteq> FromBroker (TaskSettings t s)) \<Longrightarrow> unexpected (runner_occur now f ev r) = unexpected r"
proof -
  have "tasks_ok (runner_occur now f ev r) \<and>
    ((\<forall>t s. ev \<noteq> FromBroker (TaskSettings t s)) \<longrightarrow> unexpected (runner_occur now f ev r) = unexpected r)"
  proof (cases ev)
    case (FromBroker m)
    have "t \<notin> s_taskId ` set (r_states r)" if "m = TaskOfferAccept i t" for i t
      using en that FromBroker by (simp add: runner_enabled_def)
    then show ?thesis
      using onMessage_tasks [OF ok, of m now f] onMessage_unexpected [of m now f r] FromBroker by (auto simp: runner_occur_def)
  next
    case (TaskTimer x)
    then have x: "x < length (r_states r)" "s_timer (r_states r ! x)" using en by (simp_all add: runner_enabled_def)
    let ?r = "set_state x (\<lambda>s. s\<lparr>s_timer := False\<rparr>) r"
    have y: "y = x \<and> status_of ?r y \<noteq> AbortingTimeout \<and> \<not> s_timer (r_states ?r ! y)"
      if "map_of (r_runningTasks ?r) (task_of r x) = Some y" for y
      using timer_state [OF ok x, of y] that x by (simp add: runner_frame)
    show ?thesis
      using TaskTimer taskTimedOut_tasks [OF timer_off [OF ok x(1)], of "task_of r x" now f]
        taskTimedOut_unexpected [of ?r "task_of r x" now f] y
      by (simp add: runner_occur_def set_state_frame(5))
  next
    case (ExecutionEnds x result)
    then have x: "x \<in> set (r_executing r)" using en by (simp add: runner_enabled_def)
    show ?thesis
      using ExecutionEnds execution_end_tasks [OF ok x, of now f] executing_runs(3) [OF ok x]
      by (auto simp: runner_occur_def Let_def split: sum.split)
  qed (use ok in \<open>auto simp: runner_occur_def requestData_def requestNodeTypes_def makeRpcCall_def requestReturns_def
      stop_def stopTaskOffers_def Let_def runner_frame elim!: tasks_ok_frame\<close>)
  then show "tasks_ok (runner_occur now f ev r)"
    "(\<And>t s. ev \<noteq> FromBroker (TaskSettings t s)) \<Longrightarrow> unexpected (runner_occur now f ev r) = unexpected r"
    by blast+
qed

lemma reachable_tasks: "runner_step\<^sup>*\<^sup>* r r' \<Longrightarrow> tasks_ok r \<Longrightarrow> tasks_ok r'"
  by (induction rule: rtranclp_induct) (auto elim!: runner_stepE intro: runner_occur_tasks)

lemma tasks_ok_new: "tasks_ok (new_TaskRunner name taskType maxConcurrency idleTimeout)"
  by (simp add: tasks_ok_def new_TaskRunner_def answers_def)

text \<open>C30. A task that is accepted and still runs has sent neither a result nor an error. Once it is removed, it has
  sent exactly one of them if it ran to its end or timed out while running, none if the broker cancelled it
  while running, and at most one if it ended before its settings came.\<close>

theorem task_answers_as_due:
  assumes "runner_step\<^sup>*\<^sup>* (new_TaskRunner name taskType maxConcurrency idleTimeout) r"
    and "x < length (r_states r)"
  shows "if map_of (r_runningTasks r) (s_taskId (r_states r ! x)) = Some x
    then answers (s_taskId (r_states r ! x)) r = 0
    else due (s_status (r_states r ! x)) (answers (s_taskId (r_states r ! x)) r)"
  using tasks_okD(7) [OF reachable_tasks [OF assms(1) tasks_ok_new] assms(2)] by (auto simp: task_in_order_def)

text \<open>The arrows of the diagram in \<open>task-state.ts\<close>.\<close>

fun task_moves :: "TaskStatus \<Rightarrow> TaskStatus list" where
  "task_moves WaitingForSettings = [WaitingForSettings, RunningTask]"
| "task_moves RunningTask = [RunningTask, AbortingCancelled, AbortingTimeout]"
| "task_moves s = [s]"

definition moves_ok :: "TaskRunner \<Rightarrow> TaskRunner \<Rightarrow> bool" where
  "moves_ok r r' \<longleftrightarrow> length (r_states r) \<le> length (r_states r') \<and>
     (\<forall>x < length (r_states r). status_of r' x \<in> set (task_moves (status_of r x)) \<and> task_of r' x = task_of r x)"

lemma task_moves_refl [simp]: "s \<in> set (task_moves s)"
  by (cases s) simp_all

lemma moves_okI:
  "r_states r' = r_states r \<Longrightarrow> moves_ok r r'"
  "r_states r' = r_states r @ ss \<Longrightarrow> moves_ok r r'"
  "r_states r' = (r_states r)[x := s] \<Longrightarrow> s_status s \<in> set (task_moves (status_of r x)) \<Longrightarrow>
     s_taskId s = task_of r x \<Longrightarrow> moves_ok r r'"
  unfolding moves_ok_def by (auto simp: nth_append) (metis nth_list_update_eq nth_list_update_neq task_moves_refl)+

lemma onMessage_moves: "moves_ok r (onMessage now f m r)"
proof (cases m)
  case (TaskOfferAccept i t)
  have "\<exists>ss. r_states (offerAccepted i t r) = r_states r @ ss"
    by (auto simp: offerAccepted_def resetIdleTimer_def Let_def runner_frame split: option.split)
  with TaskOfferAccept show ?thesis by (auto simp: onMessage_def intro: moves_okI(2))
next
  case (TaskCancel t reason)
  then show ?thesis
    by (auto simp: onMessage_def taskCancelled_def runner_frame intro: moves_okI(1)
        intro!: moves_okI(3) split: option.split TaskStatus.split)
next
  case (TaskSettings t s)
  then show ?thesis
    by (auto simp: onMessage_def receivedSettings_def runner_frame intro: moves_okI(1)
        intro!: moves_okI(3) split: option.split TaskStatus.split)
qed (auto simp: onMessage_def runner_frame startTaskOffers_def stopTaskOffers_def processDataResponse_def
    processNodeTypesResponse_def handleRpcResponse_def intro!: moves_okI(1))

lemma runner_occur_moves: "moves_ok r (runner_occur now f ev r)"
proof (cases ev)
  case (FromBroker m)
  then show ?thesis by (simp add: runner_occur_def onMessage_moves)
next
  case (TaskTimer x)
  let ?r = "set_state x (\<lambda>s. s\<lparr>s_timer := False\<rparr>) r"
  have start: "moves_ok r ?r" by (rule moves_okI(3) [of _ _ x "(r_states r ! x)\<lparr>s_timer := False\<rparr>"]) (simp_all add: runner_frame)
  have "moves_ok ?r (taskTimedOut now f (task_of r x) ?r)"
    by (auto simp: taskTimedOut_def runner_frame intro: moves_okI(1)
        intro!: moves_okI(3) split: option.split TaskStatus.split)
  with start have "moves_ok r (taskTimedOut now f (task_of r x) ?r)"
    unfolding moves_ok_def runner_frame
    by (smt (verit) length_list_update nth_list_update_eq nth_list_update_neq TaskState.select_convs(1,2)
        TaskState.surjective TaskState.update_convs(3) order_less_le_trans)
  with TaskTimer show ?thesis by (simp add: runner_occur_def)
next
  case (ExecutionEnds x result)
  show ?thesis
    unfolding ExecutionEnds runner_occur_def
    by (cases "x < length (r_states r)") (auto simp: not_less list_update_beyond Let_def taskExecutionSucceeded_def taskExecutionFailed_def runner_frame
        split: sum.split TaskStatus.split intro: moves_okI(1) intro!: moves_okI(3))
qed (auto simp: runner_occur_def requestData_def requestNodeTypes_def makeRpcCall_def requestReturns_def
    stop_def stopTaskOffers_def Let_def runner_frame intro!: moves_okI(1))

text \<open>The status of a task only moves along the arrows of its diagram, and what \<open>task-runner.ts\<close> says should
  never happen does not: whatever occurs other than settings that are sent again, no handler meets a task
  in a status it does not expect.\<close>

theorem task_status_never_unexpected:
  assumes "runner_step\<^sup>*\<^sup>* (new_TaskRunner name taskType maxConcurrency idleTimeout) r" and "runner_enabled ev r"
  shows "(\<forall>x < length (r_states r). s_status (r_states (runner_occur now randomInt ev r) ! x) \<in>
        set (task_moves (s_status (r_states r ! x)))) \<and>
    ((\<forall>t s. ev \<noteq> FromBroker (TaskSettings t s)) \<longrightarrow>
      unexpected (runner_occur now randomInt ev r) = unexpected r)"
  using runner_occur_tasks(2) [OF reachable_tasks [OF assms(1) tasks_ok_new] assms(2)]
    runner_occur_moves [of r now randomInt ev] by (auto simp: moves_ok_def)

section \<open>Examples\<close>

fun runner_events :: "RunnerEvent list \<Rightarrow> TaskRunner \<Rightarrow> TaskRunner option" where
  "runner_events [] r = Some r"
| "runner_events (ev # evs) r =
     (if runner_enabled ev r then runner_events evs (runner_occur 0 (\<lambda>i. int i) ev r) else None)"

lemma runner_events_steps: "runner_events evs r = Some r' \<Longrightarrow> runner_step\<^sup>*\<^sup>* r r'"
  by (induction evs arbitrary: r) (auto split: if_splits intro: converse_rtranclp_into_rtranclp RunnerEvent)

definition example_runner :: TaskRunner where
  "example_runner = the (runner_events [FromBroker RunnerRegistered, OfferInterval, FromBroker (TaskOfferAccept ''0'' 7),
     FromBroker (TaskSettings 7 JNull), RequestsData 7 JNull, TaskTimer 0, ExecutionEnds 0 (Inr JNull),
     FromBroker (TaskOfferAccept ''1'' 8)] (new_TaskRunner ''js'' ''javascript'' 2 0))"

lemma example_runner_reachable: "runner_step\<^sup>*\<^sup>* (new_TaskRunner ''js'' ''javascript'' 2 0) example_runner"
proof (rule runner_events_steps)
  have "runner_events [FromBroker RunnerRegistered, OfferInterval, FromBroker (TaskOfferAccept ''0'' 7),
     FromBroker (TaskSettings 7 JNull), RequestsData 7 JNull, TaskTimer 0, ExecutionEnds 0 (Inr JNull),
     FromBroker (TaskOfferAccept ''1'' 8)] (new_TaskRunner ''js'' ''javascript'' 2 0) \<noteq> None"
    by code_simp
  then show "runner_events [FromBroker RunnerRegistered, OfferInterval, FromBroker (TaskOfferAccept ''0'' 7),
     FromBroker (TaskSettings 7 JNull), RequestsData 7 JNull, TaskTimer 0, ExecutionEnds 0 (Inr JNull),
     FromBroker (TaskOfferAccept ''1'' 8)] (new_TaskRunner ''js'' ''javascript'' 2 0) = Some example_runner"
    by (auto simp: example_runner_def)
qed

theorem runner_never_over_capacity_witness: "length (r_openOffers example_runner) + length (r_runningTasks example_runner) \<le> 2"
  using runner_never_over_capacity [OF example_runner_reachable, of 0 int] by simp

theorem task_answers_as_due_witness:
  "s_taskId (r_states example_runner ! 0) = 7 \<and> answers 7 example_runner = 1"
proof -
  have "0 < length (r_states example_runner)" "map_of (r_runningTasks example_runner) (s_taskId (r_states example_runner ! 0)) = None"
    "s_status (r_states example_runner ! 0) = AbortingTimeout" "s_taskId (r_states example_runner ! 0) = 7"
    by code_simp+
  with task_answers_as_due [OF example_runner_reachable, of 0] show ?thesis by simp
qed

theorem task_status_never_unexpected_witness:
  "s_status (r_states (runner_occur 0 int (TaskTimer 1) example_runner) ! 0) = AbortingTimeout \<and>
   unexpected (runner_occur 0 int (TaskTimer 1) example_runner) = unexpected example_runner"
proof -
  have "runner_enabled (TaskTimer 1) example_runner" "0 < length (r_states example_runner)"
    "s_status (r_states example_runner ! 0) = AbortingTimeout" by code_simp+
  with task_status_never_unexpected [OF example_runner_reachable, of "TaskTimer 1" 0 int] show ?thesis by auto
qed

end
