(* ===== verification/WorkflowDiff.thy ===== *)
theory WorkflowDiff
  imports WorkflowTypes "HOL-Library.Sublist"
begin

text \<open>
  The difference of two versions of a workflow, \<open>packages/workflow/src/workflow-diff.ts\<close> and
  \<open>connections-diff.ts\<close>, and the choice of versions that can be merged into a later one.

  A node is a record of the properties the code reads by name, with the others in a map. A version carries
  a number that stands for the identity of its object. Dates are milliseconds. \<open>isEqual\<close> of lodash is a
  parameter. A connection is serialised with its properties in one order, so that \<open>JSON.stringify\<close> is equality.

  Theorems: the string and the connection comparison are what they should be, a superset of a superset is a
  superset, and what \<open>groupWorkflows\<close> removes and keeps is characterised for any rules.
\<close>

section \<open>Connections\<close>

record IndexedConnection =
  i_index :: nat
  i_connection :: IConnection

record ConnectionEntry =
  e_sourceIndex :: nat
  e_value :: IndexedConnection

type_synonym INodeConnectionsDiff = "(NodeConnectionType, ConnectionEntry list) jsmap"

record ConnectionsDiff =
  d_added :: "(string, INodeConnectionsDiff) jsmap"
  d_removed :: "(string, INodeConnectionsDiff) jsmap"

text \<open>\<open>new Map(connections.map((conn, idx) => [JSON.stringify(conn), { index: idx, connection: conn }]))\<close>\<close>

definition indexed_connections :: "IConnection list \<Rightarrow> (IConnection, IndexedConnection) jsmap" where
  "indexed_connections cs = foldl (\<lambda>m (idx, conn). AList.update conn \<lparr>i_index = idx, i_connection = conn\<rparr> m) [] (zip [0..<length cs] cs)"

definition pushEntry :: "string \<Rightarrow> NodeConnectionType \<Rightarrow> (string, INodeConnectionsDiff) jsmap \<Rightarrow> ConnectionEntry \<Rightarrow> (string, INodeConnectionsDiff) jsmap" where
  "pushEntry nodeName inputName m entry =
     (let m = (if map_of m nodeName = None then AList.update nodeName [] m else m);
          inputs = the (map_of m nodeName);
          inputs = (if map_of inputs inputName = None then AList.update inputName [] inputs else inputs)
      in AList.update nodeName (AList.update inputName (the (map_of inputs inputName) @ [entry]) inputs) m)"

text \<open>The entries of \<open>here\<close> that \<open>there\<close> does not have.\<close>

definition missing_entries :: "nat \<Rightarrow> (IConnection, IndexedConnection) jsmap \<Rightarrow> (IConnection, IndexedConnection) jsmap \<Rightarrow> ConnectionEntry list" where
  "missing_entries sourceIdx here there =
     map (\<lambda>(key, value). \<lparr>e_sourceIndex = sourceIdx, e_value = value\<rparr>) (filter (\<lambda>(key, value). map_of there key = None) here)"

definition connections_at :: "NodeInputConnections \<Rightarrow> nat \<Rightarrow> IConnection list" where
  "connections_at gs i = (if i < length gs then (case gs ! i of None \<Rightarrow> [] | Some g \<Rightarrow> g) else [])"

definition compareOutput :: "string \<Rightarrow> NodeConnectionType \<Rightarrow> NodeInputConnections \<Rightarrow> NodeInputConnections \<Rightarrow>
    ConnectionsDiff \<Rightarrow> nat \<Rightarrow> ConnectionsDiff" where
  "compareOutput nodeName inputName prevGroups nextGroups d sourceIdx =
     (let prevMap = indexed_connections (connections_at prevGroups sourceIdx);
          nextMap = indexed_connections (connections_at nextGroups sourceIdx)
      in \<lparr>d_added = foldl (pushEntry nodeName inputName) (d_added d) (missing_entries sourceIdx nextMap prevMap),
          d_removed = foldl (pushEntry nodeName inputName) (d_removed d) (missing_entries sourceIdx prevMap nextMap)\<rparr>)"

definition compareInput :: "IConnections \<Rightarrow> IConnections \<Rightarrow> string \<Rightarrow> ConnectionsDiff \<Rightarrow> NodeConnectionType \<Rightarrow> ConnectionsDiff" where
  "compareInput prev nextw nodeName d inputName =
     (let prevGroups = groups_of prev nodeName inputName; nextGroups = groups_of nextw nodeName inputName
      in foldl (compareOutput nodeName inputName prevGroups nextGroups) d [0..<max (length prevGroups) (length nextGroups)])"

definition keys_of_both :: "('k, 'v) jsmap \<Rightarrow> ('k, 'v) jsmap \<Rightarrow> 'k list" where
  "keys_of_both a b = foldl (\<lambda>ks k. if k \<in> set ks then ks else ks @ [k]) [] (map fst a @ map fst b)"

definition compareNodeConnections :: "IConnections \<Rightarrow> IConnections \<Rightarrow> ConnectionsDiff \<Rightarrow> string \<Rightarrow> ConnectionsDiff" where
  "compareNodeConnections prev nextw d nodeName =
     foldl (compareInput prev nextw nodeName) d
       (keys_of_both (case map_of prev nodeName of None \<Rightarrow> [] | Some ncs \<Rightarrow> ncs) (case map_of nextw nodeName of None \<Rightarrow> [] | Some ncs \<Rightarrow> ncs))"

definition compareConnections :: "IConnections \<Rightarrow> IConnections \<Rightarrow> ConnectionsDiff" where
  "compareConnections prev nextw = foldl (compareNodeConnections prev nextw) \<lparr>d_added = [], d_removed = []\<rparr> (keys_of_both prev nextw)"

section \<open>Nodes\<close>

record DiffableNode =
  dn_id :: string
  dn_props :: "(string, json) jsmap"
  dn_parameters :: json

definition propsToCompare :: "string list" where
  "propsToCompare = [''name'', ''type'', ''typeVersion'', ''webhookId'', ''credentials'', ''parameters'']"

text \<open>\<open>pick(node, props)\<close> of lodash: the properties that are there; none of \<open>undefined\<close>.\<close>

definition prop_of :: "DiffableNode \<Rightarrow> string \<Rightarrow> json option" where
  "prop_of n p = (if p = ''parameters'' then Some (dn_parameters n) else if p = ''id'' then Some (JStr (dn_id n)) else map_of (dn_props n) p)"

definition pick :: "DiffableNode option \<Rightarrow> string list \<Rightarrow> json" where
  "pick node props = (case node of None \<Rightarrow> JObj []
     | Some n \<Rightarrow> JObj (List.map_filter (\<lambda>p. map_option (Pair p) (prop_of n p)) props))"

definition compareNodes :: "(json \<Rightarrow> json \<Rightarrow> bool) \<Rightarrow> DiffableNode option \<Rightarrow> DiffableNode option \<Rightarrow> bool" where
  "compareNodes isEqual base target = isEqual (pick base propsToCompare) (pick target propsToCompare)"

datatype NodeDiffStatus = Eq | Modified | Added | Deleted

record NodeDiff =
  nd_status :: NodeDiffStatus
  nd_node :: DiffableNode

type_synonym NodesDiff = "(string, NodeDiff) jsmap"

definition nodes_by_id :: "DiffableNode list \<Rightarrow> (string, DiffableNode) jsmap" where
  "nodes_by_id nodes = foldl (\<lambda>acc node. AList.update (dn_id node) node acc) [] nodes"

definition compareWorkflowsNodes :: "(DiffableNode option \<Rightarrow> DiffableNode option \<Rightarrow> bool) \<Rightarrow>
    DiffableNode list \<Rightarrow> DiffableNode list \<Rightarrow> NodesDiff" where
  "compareWorkflowsNodes nodesEqual base target =
     (let baseNodes = nodes_by_id base; targetNodes = nodes_by_id target;
          diff = foldl (\<lambda>diff (i, node). AList.update i
              \<lparr>nd_status = (if map_of targetNodes i = None then Deleted
                 else if \<not> nodesEqual (map_of baseNodes i) (map_of targetNodes i) then Modified else Eq), nd_node = node\<rparr> diff) [] baseNodes
      in foldl (\<lambda>diff (i, node). if map_of baseNodes i = None
           then AList.update i \<lparr>nd_status = Added, nd_node = node\<rparr> diff else diff) diff targetNodes)"

section \<open>Supersets\<close>

fun containsLoop :: "string \<Rightarrow> nat \<Rightarrow> nat \<Rightarrow> nat \<Rightarrow> string \<Rightarrow> nat option" where
  "containsLoop substr diffSize i marker [] = Some marker"
| "containsLoop substr diffSize i marker (c # s) =
     (let marker = (if marker < length substr \<and> substr ! marker = c then Suc marker else marker)
      in if int i - int marker > int diffSize then None else containsLoop substr diffSize (Suc i) marker s)"

definition stringContainsParts :: "string \<Rightarrow> string \<Rightarrow> bool" where
  "stringContainsParts s substr =
     (if length substr > length s then False
      else case containsLoop substr (length s - length substr) 0 0 s of None \<Rightarrow> False | Some marker \<Rightarrow> length substr \<le> marker)"

text \<open>The keys of an object with their values; those of an array are its indexes.\<close>

fun entries :: "json \<Rightarrow> (string \<times> json) list" where
  "entries (JObj fs) = fs"
| "entries (JArr xs) = zip (map show_nat [0..<length xs]) xs"
| "entries _ = []"

lemma size_element: "x \<in> set xs \<Longrightarrow> size x < Suc (size_list size xs)"
  by (induction xs) auto

lemma size_value: "(k, v) \<in> set fs \<Longrightarrow> size v < Suc (size_list (size_prod (\<lambda>x. 0) size) fs)"
  by (induction fs) auto

function parametersAreSuperset :: "json \<Rightarrow> json \<Rightarrow> bool" where
  "parametersAreSuperset JNull nxt = (nxt = JNull)"
| "parametersAreSuperset (JBool b) nxt = (nxt = JBool b)"
| "parametersAreSuperset (JNum i) nxt = (nxt = JNum i)"
| "parametersAreSuperset (JStr s) nxt = (case nxt of JStr t \<Rightarrow> stringContainsParts t s | _ \<Rightarrow> False)"
| "parametersAreSuperset (JArr xs) nxt = (case nxt of
     JArr ys \<Rightarrow> length xs = length ys \<and> list_all (\<lambda>(x, y). parametersAreSuperset x y) (zip xs ys) | _ \<Rightarrow> False)"
| "parametersAreSuperset (JObj fs) nxt = (case nxt of
     JObj _ \<Rightarrow> length fs = length (entries nxt) \<and> list_all (\<lambda>(k, _). map_of (entries nxt) k \<noteq> None) fs \<and>
       list_all (\<lambda>(k, v). parametersAreSuperset v (the (map_of (entries nxt) k))) fs
   | JArr _ \<Rightarrow> length fs = length (entries nxt) \<and> list_all (\<lambda>(k, _). map_of (entries nxt) k \<noteq> None) fs \<and>
       list_all (\<lambda>(k, v). parametersAreSuperset v (the (map_of (entries nxt) k))) fs
   | _ \<Rightarrow> False)"
  by pat_completeness auto
termination
  by (relation "measure (\<lambda>(prev, _). size prev)") (auto simp: size_element size_value dest!: set_zip_leftD)

definition nodeIsSuperset :: "(json \<Rightarrow> json \<Rightarrow> bool) \<Rightarrow> DiffableNode \<Rightarrow> DiffableNode \<Rightarrow> bool" where
  "nodeIsSuperset isEqual prevNode nextNode =
     (if \<not> compareNodes isEqual (Some (prevNode\<lparr>dn_parameters := JObj []\<rparr>)) (Some (nextNode\<lparr>dn_parameters := JObj []\<rparr>)) then False
      else parametersAreSuperset (dn_parameters prevNode) (dn_parameters nextNode))"

section \<open>Versions and rules\<close>

record WorkflowVersion =
  v_ref :: nat
  v_versionId :: string
  v_name :: "string option"
  v_description :: "string option"
  v_authors :: "string option"
  v_createdAt :: int
  v_nodes :: "DiffableNode list"
  v_connections :: IConnections

record WorkflowChangeSet =
  cs_nodes :: NodesDiff
  cs_connections :: ConnectionsDiff

definition new_WorkflowChangeSet :: "(json \<Rightarrow> json \<Rightarrow> bool) \<Rightarrow> WorkflowVersion \<Rightarrow> WorkflowVersion \<Rightarrow> WorkflowChangeSet" where
  "new_WorkflowChangeSet isEqual old new =
     (if v_ref old = v_ref new
      then \<lparr>cs_nodes = foldl (\<lambda>m node. AList.update (dn_id node) \<lparr>nd_status = Eq, nd_node = node\<rparr> m) [] (v_nodes old),
            cs_connections = \<lparr>d_added = [], d_removed = []\<rparr>\<rparr>
      else \<lparr>cs_nodes = compareWorkflowsNodes (compareNodes isEqual) (v_nodes old) (v_nodes new),
            cs_connections = compareConnections (v_connections old) (v_connections new)\<rparr>)"

text \<open>A rule gets the earlier version, the later one, their difference, and the size score where it was asked for.\<close>

type_synonym DiffRule = "WorkflowVersion \<Rightarrow> WorkflowVersion \<Rightarrow> WorkflowChangeSet \<Rightarrow> int option \<Rightarrow> bool res"

primrec additiveNodes :: "(json \<Rightarrow> json \<Rightarrow> bool) \<Rightarrow> WorkflowVersion \<Rightarrow> NodeDiff list \<Rightarrow> bool res" where
  "additiveNodes isEqual nextw [] = Inr True"
| "additiveNodes isEqual nextw (d # ds) =
     (if nd_status d = Deleted then Inr False
      else if nd_status d = Added then additiveNodes isEqual nextw ds
      else case find (\<lambda>x. dn_id x = dn_id (nd_node d)) (v_nodes nextw) of
          None \<Rightarrow> Inl (ApplicationError ''invariant broken - no next node'')
        | Some nextNode \<Rightarrow>
            if nd_status d = Modified \<and> \<not> nodeIsSuperset isEqual (nd_node d) nextNode then Inr False
            else additiveNodes isEqual nextw ds)"

definition mergeAdditiveChanges :: "(json \<Rightarrow> json \<Rightarrow> bool) \<Rightarrow> DiffRule" where
  "mergeAdditiveChanges isEqual prev nextw diff metaData =
     rbind (additiveNodes isEqual nextw (vals (cs_nodes diff)))
       (\<lambda>ok. Inr (ok \<and> d_removed (cs_connections diff) = []))"

definition makeSkipTimeDifference :: "int \<Rightarrow> DiffRule" where
  "makeSkipTimeDifference timeDiffMs prev nextw diff metaData = Inr (\<bar>v_createdAt nextw - v_createdAt prev\<bar> > timeDiffMs)"

definition makeMergeShortTimeSpan :: "int \<Rightarrow> WorkflowVersion \<Rightarrow> WorkflowVersion \<Rightarrow> bool" where
  "makeMergeShortTimeSpan timeDiffMs prev nextw \<longleftrightarrow> \<bar>v_createdAt nextw - v_createdAt prev\<bar> < timeDiffMs"

definition makeMergeDependingOnSizeRule :: "(int \<times> int) list \<Rightarrow> DiffRule" where
  "makeMergeDependingOnSizeRule mapping prev nextw diff metaData =
     (let pairs = sort_key (\<lambda>p. - fst p) mapping in
      case metaData of None \<Rightarrow> Inr False
      | Some workflowSizeScore \<Rightarrow> (case find (\<lambda>(minimum, time). workflowSizeScore > minimum) pairs of
            None \<Rightarrow> Inr False
          | Some (minimum, time) \<Rightarrow> Inr (makeMergeShortTimeSpan time prev nextw)))"

definition skipDifferentUsers :: DiffRule where
  "skipDifferentUsers prev nextw diff metaData = Inr (v_authors nextw \<noteq> v_authors prev)"

text \<open>Empty strings are falsy.\<close>

fun determineNodeSize :: "json \<Rightarrow> nat" where
  "determineNodeSize (JStr s) = (if s = [] then 1 else length s)"
| "determineNodeSize (JArr xs) = foldl (\<lambda>acc n. acc + n) 1 (map determineNodeSize xs)"
| "determineNodeSize (JObj fs) = foldl (\<lambda>acc n. acc + n) 1 (map (\<lambda>(_, v). determineNodeSize v) fs)"
| "determineNodeSize _ = 1"

definition determineNodeParametersSize :: "WorkflowVersion \<Rightarrow> nat" where
  "determineNodeParametersSize w = foldl (\<lambda>acc x. acc + determineNodeSize (dn_parameters x)) 0 (v_nodes w)"

text \<open>The rules in order, up to the first that holds.\<close>

primrec someRule :: "DiffRule list \<Rightarrow> WorkflowVersion \<Rightarrow> WorkflowVersion \<Rightarrow> WorkflowChangeSet \<Rightarrow> int option \<Rightarrow> bool res" where
  "someRule [] prev nextw wcs metaData = Inr False"
| "someRule (rule # rules) prev nextw wcs metaData =
     rbind (rule prev nextw wcs metaData) (\<lambda>holds. if holds then Inr True else someRule rules prev nextw wcs metaData)"

text \<open>\<open>i\<close> is one less than the loop's: it is the place of the earlier version.\<close>

primrec groupLoop :: "(json \<Rightarrow> json \<Rightarrow> bool) \<Rightarrow> DiffRule list \<Rightarrow> DiffRule list \<Rightarrow> int option \<Rightarrow> nat \<Rightarrow>
    WorkflowVersion list \<Rightarrow> WorkflowVersion list \<Rightarrow> (WorkflowVersion list \<times> WorkflowVersion list) res" where
  "groupLoop isEqual rules skipRules metaData 0 remaining removed = Inr (removed, remaining)"
| "groupLoop isEqual rules skipRules metaData (Suc i) remaining removed =
     (let prev = remaining ! i; nextw = remaining ! Suc i; wcs = new_WorkflowChangeSet isEqual prev nextw
      in rbind (someRule skipRules prev nextw wcs metaData) (\<lambda>shouldSkip.
        if shouldSkip then groupLoop isEqual rules skipRules metaData i remaining removed
        else rbind (someRule rules prev nextw wcs metaData) (\<lambda>shouldMerge.
          if shouldMerge
          then groupLoop isEqual rules skipRules metaData i (take i remaining @ drop (Suc i) remaining) (removed @ [prev])
          else groupLoop isEqual rules skipRules metaData i remaining removed)))"

definition sizeScore :: "WorkflowVersion list \<Rightarrow> bool \<Rightarrow> int option" where
  "sizeScore workflows wanted =
     (if wanted then Some (int (max (determineNodeParametersSize (workflows ! (length workflows div 2)))
        (determineNodeParametersSize (workflows ! (length workflows - 1))))) else None)"

definition groupWorkflows :: "(json \<Rightarrow> json \<Rightarrow> bool) \<Rightarrow> WorkflowVersion list \<Rightarrow> DiffRule list \<Rightarrow> DiffRule list \<Rightarrow> bool \<Rightarrow>
    (WorkflowVersion list \<times> WorkflowVersion list) res" where
  "groupWorkflows isEqual workflows rules skipRules wantsScore =
     (if length workflows = 0 then Inr ([], [])
      else if length workflows = 1 then Inr ([], workflows)
      else groupLoop isEqual rules skipRules (sizeScore workflows wantsScore) (length workflows - 1) workflows [])"

section \<open>Changes without versions\<close>

definition hasNonPositionalChanges :: "(json \<Rightarrow> json \<Rightarrow> bool) \<Rightarrow> (IConnections \<Rightarrow> IConnections \<Rightarrow> bool) \<Rightarrow>
    DiffableNode list \<Rightarrow> DiffableNode list \<Rightarrow> IConnections \<Rightarrow> IConnections \<Rightarrow> bool" where
  "hasNonPositionalChanges isEqual connectionsEqual oldNodes newNodes oldConnections newConnections =
     (if \<exists>diff \<in> set (vals (compareWorkflowsNodes (compareNodes isEqual) oldNodes newNodes)). nd_status diff \<noteq> Eq then True
      else \<not> connectionsEqual oldConnections newConnections)"

fun creds_of :: "json option \<Rightarrow> (string \<times> json) list" where
  "creds_of (Some (JObj fs)) = fs"
| "creds_of _ = []"

text \<open>\<open>creds[credType]?.id\<close>\<close>

definition cred_id :: "(string \<times> json) list \<Rightarrow> string \<Rightarrow> json option" where
  "cred_id creds credType = (case map_of creds credType of Some (JObj fs) \<Rightarrow> map_of fs ''id'' | _ \<Rightarrow> None)"

definition credentialsDiffer :: "DiffableNode \<Rightarrow> DiffableNode \<Rightarrow> bool" where
  "credentialsDiffer oldNode newNode =
     (let oldCreds = creds_of (map_of (dn_props oldNode) ''credentials''); newCreds = creds_of (map_of (dn_props newNode) ''credentials'')
      in list_ex (\<lambda>(credType, _). map_of newCreds credType = None \<or> cred_id oldCreds credType \<noteq> cred_id newCreds credType) oldCreds \<or>
         list_ex (\<lambda>(credType, _). map_of oldCreds credType = None) newCreds)"

definition hasCredentialChanges :: "DiffableNode list \<Rightarrow> DiffableNode list \<Rightarrow> bool" where
  "hasCredentialChanges oldNodes newNodes =
     (let newNodesMap = nodes_by_id newNodes
      in list_ex (\<lambda>oldNode. case map_of newNodesMap (dn_id oldNode) of None \<Rightarrow> False | Some newNode \<Rightarrow> credentialsDiffer oldNode newNode) oldNodes)"

section \<open>Strings that contain the characters of others\<close>

lemma containsLoop_subseq:
  assumes "marker \<le> length substr" and "marker \<le> i" and "i + length s = n" and "length substr \<le> n"
    and "int i - int marker \<le> int (n - length substr) + 1"
  shows "(case containsLoop substr (n - length substr) i marker s of None \<Rightarrow> False | Some m \<Rightarrow> length substr \<le> m)
    \<longleftrightarrow> subseq (drop marker substr) s"
  using assms
proof (induction s arbitrary: i marker)
  case Nil
  then show ?case by (cases "drop marker substr = []") (auto dest: list_emb_Nil2)
next
  case (Cons c s)
  define m where "m = (if marker < length substr \<and> substr ! marker = c then Suc marker else marker)"
  have m: "m \<le> length substr" "m \<le> Suc i" using Cons.prems by (auto simp: m_def)
  have step: "subseq (drop marker substr) (c # s) \<longleftrightarrow> subseq (drop m substr) s"
  proof (cases "marker < length substr")
    case True
    then show ?thesis by (simp add: m_def Cons_nth_drop_Suc [symmetric])
  qed (simp add: m_def)
  show ?case
  proof (cases "int i - int m > int (n - length substr)")
    case True
    then have "length s < length (drop m substr)" using Cons.prems m by simp
    then have "\<not> subseq (drop m substr) s" using list_emb_length by fastforce
    with True show ?thesis unfolding step by (simp add: m_def [symmetric] Let_def)
  next
    case False
    then show ?thesis
      unfolding step using Cons.IH [of m "Suc i"] Cons.prems m by (simp add: m_def [symmetric] Let_def)
  qed
qed

text \<open>The loop, which gives up early, decides whether one string is a subsequence of the other.\<close>

lemma stringContainsParts_iff: "stringContainsParts s substr \<longleftrightarrow> subseq substr s"
proof (cases "length substr \<le> length s")
  case True
  then show ?thesis
    using containsLoop_subseq [of 0 substr 0 s "length s"] by (simp add: stringContainsParts_def)
next
  case False
  then show ?thesis using list_emb_length [of "(=)" substr s] by (auto simp: stringContainsParts_def)
qed

section \<open>The difference of connections\<close>

text \<open>What a difference reports, as a set of nodes, inputs and entries.\<close>

definition reported :: "(string, INodeConnectionsDiff) jsmap \<Rightarrow> (string \<times> NodeConnectionType \<times> ConnectionEntry) set" where
  "reported m = {(n, t, e). \<exists>inputs es. map_of m n = Some inputs \<and> map_of inputs t = Some es \<and> e \<in> set es}"

lemma reported_Nil [simp]: "reported [] = {}"
  by (simp add: reported_def)

lemma reported_pushEntry [simp]: "reported (pushEntry n t m e) = insert (n, t, e) (reported m)"
  by (auto simp: reported_def pushEntry_def Let_def update_conv' split: if_splits)

lemma pushEntry_nonempty: "pushEntry n t m e \<noteq> []"
  by (metis insert_not_empty reported_Nil reported_pushEntry)

lemma foldl_union:
  assumes "\<And>d x. S (f d x) = S d \<union> g x"
  shows "S (foldl f d xs) = S d \<union> (\<Union>x \<in> set xs. g x)"
  by (induction xs arbitrary: d) (auto simp: assms)

lemma reported_foldl: "reported (foldl (pushEntry n t) m es) = reported m \<union> (\<lambda>e. (n, t, e)) ` set es"
  by (subst foldl_union [where g = "\<lambda>e. {(n, t, e)}"]) auto

lemma indexed_connections_snoc:
  "indexed_connections (cs @ [c]) = AList.update c \<lparr>i_index = length cs, i_connection = c\<rparr> (indexed_connections cs)"
  by (simp add: indexed_connections_def)

lemma distinct_indexed: "distinct (map fst (indexed_connections cs))"
proof (induction cs rule: rev_induct)
  case Nil
  show ?case by (simp add: indexed_connections_def)
qed (simp add: indexed_connections_snoc distinct_update)

text \<open>The last place where a connection stands in a list.\<close>

definition last_at :: "IConnection list \<Rightarrow> nat \<Rightarrow> IConnection \<Rightarrow> bool" where
  "last_at cs i c \<longleftrightarrow> i < length cs \<and> cs ! i = c \<and> c \<notin> set (drop (Suc i) cs)"

lemma last_at_ex: "(\<exists>i. last_at cs i c) \<longleftrightarrow> c \<in> set cs"
proof
  assume "c \<in> set cs"
  then obtain xs ys where "cs = xs @ c # ys" "c \<notin> set ys" using split_list_last by fast
  then have "last_at cs (length xs) c" by (simp add: last_at_def)
  then show "\<exists>i. last_at cs i c" ..
qed (auto simp: last_at_def)

lemma last_at_snoc: "last_at (cs @ [x]) i c \<longleftrightarrow> (if c = x then i = length cs else last_at cs i c)"
  by (auto simp: last_at_def nth_append not_less less_Suc_eq)

lemma map_of_indexed:
  "map_of (indexed_connections cs) c = Some v \<longleftrightarrow> i_connection v = c \<and> last_at cs (i_index v) c"
proof (induction cs rule: rev_induct)
  case Nil
  show ?case by (simp add: indexed_connections_def last_at_def)
next
  case (snoc x cs)
  then show ?case by (cases v) (auto simp: indexed_connections_snoc update_conv' last_at_snoc)
qed

lemma map_of_indexed_None: "map_of (indexed_connections cs) c = None \<longleftrightarrow> c \<notin> set cs"
proof -
  have "(\<exists>v. map_of (indexed_connections cs) c = Some v) \<longleftrightarrow> (\<exists>i. last_at cs i c)"
    unfolding map_of_indexed by (metis IndexedConnection.select_convs(1,2))
  then show ?thesis using last_at_ex [of cs c] by auto
qed

text \<open>An entry says that a connection is at an output of \<open>here\<close> and not at that of \<open>there\<close>.\<close>

definition only_in :: "IConnections \<Rightarrow> IConnections \<Rightarrow> string \<times> NodeConnectionType \<times> ConnectionEntry \<Rightarrow> bool" where
  "only_in here there = (\<lambda>(n, t, e). let i = e_sourceIndex e; c = i_connection (e_value e) in
     last_at (connections_at (groups_of here n t) i) (i_index (e_value e)) c \<and>
     c \<notin> set (connections_at (groups_of there n t) i))"

lemma missing_entries_set:
  "e \<in> set (missing_entries i (indexed_connections xs) (indexed_connections ys)) \<longleftrightarrow>
     e_sourceIndex e = i \<and> last_at xs (i_index (e_value e)) (i_connection (e_value e)) \<and> i_connection (e_value e) \<notin> set ys"
proof -
  have "e \<in> set (missing_entries i (indexed_connections xs) (indexed_connections ys)) \<longleftrightarrow>
    (\<exists>c v. map_of (indexed_connections xs) c = Some v \<and> c \<notin> set ys \<and> e = \<lparr>e_sourceIndex = i, e_value = v\<rparr>)"
    using distinct_indexed [of xs] by (auto simp: missing_entries_def map_of_indexed_None image_iff)
  also have "\<dots> \<longleftrightarrow> e_sourceIndex e = i \<and> last_at xs (i_index (e_value e)) (i_connection (e_value e)) \<and>
      i_connection (e_value e) \<notin> set ys"
    unfolding map_of_indexed by (cases e) auto
  finally show ?thesis .
qed

lemma keys_of_both_set: "set (keys_of_both a b) = fst ` set a \<union> fst ` set b"
proof -
  have "set (foldl (\<lambda>ks k. if k \<in> set ks then ks else ks @ [k]) ks xs) = set ks \<union> set xs" for ks xs :: "'a list"
    by (induction xs arbitrary: ks) auto
  then show ?thesis by (simp add: keys_of_both_def)
qed

lemma compareOutput_reported:
  "reported (d_added (compareOutput n t ps ns d i)) = reported (d_added d) \<union>
     (\<lambda>e. (n, t, e)) ` set (missing_entries i (indexed_connections (connections_at ns i)) (indexed_connections (connections_at ps i)))"
  "reported (d_removed (compareOutput n t ps ns d i)) = reported (d_removed d) \<union>
     (\<lambda>e. (n, t, e)) ` set (missing_entries i (indexed_connections (connections_at ps i)) (indexed_connections (connections_at ns i)))"
  by (simp_all add: compareOutput_def Let_def reported_foldl)

lemma connections_at_beyond: "c \<in> set (connections_at gs i) \<Longrightarrow> i < length gs"
  by (cases "i < length gs") (simp_all add: connections_at_def)

lemma compareInput_reported:
  "reported (d_added (compareInput prev nextw n d t)) = reported (d_added d) \<union> {(n', t', e). n' = n \<and> t' = t \<and> only_in nextw prev (n, t, e)}"
  "reported (d_removed (compareInput prev nextw n d t)) = reported (d_removed d) \<union> {(n', t', e). n' = n \<and> t' = t \<and> only_in prev nextw (n, t, e)}"
proof -
  have lt: "last_at (connections_at gs i) j c \<Longrightarrow> i < length gs" for gs i j c
    using connections_at_beyond [of c gs i] last_at_ex [of "connections_at gs i" c] by blast
  have union: "(\<Union>i \<in> set [0..<k]. (\<lambda>e. (n, t, e)) ` set (A i)) = {(n', t', e). n' = n \<and> t' = t \<and> (\<exists>i < k. e \<in> set (A i))}"
    for k and A :: "nat \<Rightarrow> ConnectionEntry list" by auto
  have all: "(\<exists>i < max (length (groups_of prev n t)) (length (groups_of nextw n t)). e \<in> set (missing_entries i
        (indexed_connections (connections_at (groups_of here n t) i)) (indexed_connections (connections_at (groups_of there n t) i))))
      \<longleftrightarrow> only_in here there (n, t, e)" if "here = prev \<or> here = nextw" for here there e
    unfolding missing_entries_set only_in_def using that lt by (fastforce simp: less_max_iff_disj Let_def)
  show "reported (d_added (compareInput prev nextw n d t)) = reported (d_added d) \<union> {(n', t', e). n' = n \<and> t' = t \<and> only_in nextw prev (n, t, e)}"
    unfolding compareInput_def Let_def
    by (subst foldl_union [where S = "\<lambda>d. reported (d_added d)", OF compareOutput_reported(1)])
       (simp only: union all simp_thms)
  show "reported (d_removed (compareInput prev nextw n d t)) = reported (d_removed d) \<union> {(n', t', e). n' = n \<and> t' = t \<and> only_in prev nextw (n, t, e)}"
    unfolding compareInput_def Let_def
    by (subst foldl_union [where S = "\<lambda>d. reported (d_removed d)", OF compareOutput_reported(2)])
       (simp only: union all simp_thms)
qed

lemma groups_absent:
  "t \<notin> fst ` set (case map_of conns n of None \<Rightarrow> [] | Some ncs \<Rightarrow> ncs) \<Longrightarrow> groups_of conns n t = []"
  by (cases "map_of conns n") (simp_all add: groups_of_def map_of_eq_None_iff [THEN iffD2])

lemma groups_absent_node: "n \<notin> fst ` set conns \<Longrightarrow> groups_of conns n t = []"
  by (simp add: groups_of_def map_of_eq_None_iff [THEN iffD2])

lemma only_in_groups: "only_in here there (n, t, e) \<Longrightarrow> groups_of here n t \<noteq> []"
proof
  assume h: "only_in here there (n, t, e)" and "groups_of here n t = []"
  then have "connections_at (groups_of here n t) i = []" for i by (simp add: connections_at_def)
  with h show False by (simp add: only_in_def Let_def last_at_def)
qed

lemma compareNodeConnections_reported:
  "reported (d_added (compareNodeConnections prev nextw d n)) = reported (d_added d) \<union> {(n', t, e). n' = n \<and> only_in nextw prev (n, t, e)}"
  "reported (d_removed (compareNodeConnections prev nextw d n)) = reported (d_removed d) \<union> {(n', t, e). n' = n \<and> only_in prev nextw (n, t, e)}"
proof -
  let ?inputs = "keys_of_both (case map_of prev n of None \<Rightarrow> [] | Some ncs \<Rightarrow> ncs) (case map_of nextw n of None \<Rightarrow> [] | Some ncs \<Rightarrow> ncs)"
  have key: "t \<in> set ?inputs" if "only_in here there (n, t, e)" "here = prev \<or> here = nextw" for here there t e
    using only_in_groups [OF that(1)] that(2) groups_absent [of t prev n] groups_absent [of t nextw n]
    unfolding keys_of_both_set by blast
  show "reported (d_added (compareNodeConnections prev nextw d n)) = reported (d_added d) \<union> {(n', t, e). n' = n \<and> only_in nextw prev (n, t, e)}"
    unfolding compareNodeConnections_def
    by (subst foldl_union [where S = "\<lambda>d. reported (d_added d)", OF compareInput_reported(1)]) (use key in blast)
  show "reported (d_removed (compareNodeConnections prev nextw d n)) = reported (d_removed d) \<union> {(n', t, e). n' = n \<and> only_in prev nextw (n, t, e)}"
    unfolding compareNodeConnections_def
    by (subst foldl_union [where S = "\<lambda>d. reported (d_removed d)", OF compareInput_reported(2)]) (use key in blast)
qed

lemma compareConnections_reported:
  "reported (d_added (compareConnections prev nextw)) = {x. only_in nextw prev x}"
  "reported (d_removed (compareConnections prev nextw)) = {x. only_in prev nextw x}"
proof -
  have key: "n \<in> set (keys_of_both prev nextw)" if "only_in here there (n, t, e)" "here = prev \<or> here = nextw" for here there n t e
    using only_in_groups [OF that(1)] that(2) groups_absent_node [of n prev] groups_absent_node [of n nextw]
    unfolding keys_of_both_set by blast
  show "reported (d_added (compareConnections prev nextw)) = {x. only_in nextw prev x}"
    unfolding compareConnections_def
    by (subst foldl_union [where S = "\<lambda>d. reported (d_added d)", OF compareNodeConnections_reported(1)]) (use key in auto)
  show "reported (d_removed (compareConnections prev nextw)) = {x. only_in prev nextw x}"
    unfolding compareConnections_def
    by (subst foldl_union [where S = "\<lambda>d. reported (d_removed d)", OF compareNodeConnections_reported(2)]) (use key in auto)
qed

text \<open>No node is listed without an entry, so that an empty list of keys means no difference.\<close>

lemma foldl_keeps: "P d \<Longrightarrow> (\<And>d x. P d \<Longrightarrow> P (f d x)) \<Longrightarrow> P (foldl f d xs)"
  by (induction xs arbitrary: d) auto

definition no_idle :: "ConnectionsDiff \<Rightarrow> bool" where
  "no_idle d \<longleftrightarrow> (d_added d = [] \<or> reported (d_added d) \<noteq> {}) \<and> (d_removed d = [] \<or> reported (d_removed d) \<noteq> {})"

lemma compareConnections_no_idle: "no_idle (compareConnections prev nextw)"
proof -
  have push: "m = [] \<or> reported m \<noteq> {} \<Longrightarrow> foldl (pushEntry n t) m es = [] \<or> reported (foldl (pushEntry n t) m es) \<noteq> {}" for m n t es
    by (cases es) (auto simp: reported_foldl)
  have "no_idle (compareOutput n t ps ns d i)" if "no_idle d" for n t ps ns d i
    using that push unfolding no_idle_def compareOutput_def Let_def by (simp del: foldl.simps)
  then show ?thesis
    unfolding compareConnections_def compareNodeConnections_def compareInput_def Let_def
    by (intro foldl_keeps [where P = no_idle]) (simp_all add: no_idle_def)
qed

lemma removed_empty_iff:
  "d_removed (compareConnections prev nextw) = [] \<longleftrightarrow> (\<forall>n t i c. conn_at prev n t i c \<longrightarrow> conn_at nextw n t i c)"
proof -
  have at: "conn_at conns n t i c \<longleftrightarrow> c \<in> set (connections_at (groups_of conns n t) i)" for conns n t i c
    by (cases "i < length (groups_of conns n t)"; cases "groups_of conns n t ! i") (simp_all add: conn_at_def connections_at_def)
  have "d_removed (compareConnections prev nextw) = [] \<longleftrightarrow> {x. only_in prev nextw x} = {}"
    using compareConnections_no_idle [of prev nextw] compareConnections_reported(2) [of prev nextw] by (auto simp: no_idle_def)
  also have "\<dots> \<longleftrightarrow> (\<forall>n t i c. conn_at prev n t i c \<longrightarrow> conn_at nextw n t i c)"
  proof
    assume empty: "{x. only_in prev nextw x} = {}"
    show "\<forall>n t i c. conn_at prev n t i c \<longrightarrow> conn_at nextw n t i c"
    proof (intro allI impI)
      fix n t i c assume "conn_at prev n t i c"
      then obtain j where "last_at (connections_at (groups_of prev n t) i) j c" using at last_at_ex by metis
      moreover have "\<not> only_in prev nextw (n, t, \<lparr>e_sourceIndex = i, e_value = \<lparr>i_index = j, i_connection = c\<rparr>\<rparr>)" using empty by auto
      ultimately show "conn_at nextw n t i c" by (simp add: only_in_def at)
    qed
  next
    assume "\<forall>n t i c. conn_at prev n t i c \<longrightarrow> conn_at nextw n t i c"
    then show "{x. only_in prev nextw x} = {}" using last_at_ex by (fastforce simp: only_in_def Let_def at)
  qed
  finally show ?thesis .
qed

text \<open>An added connection is one the later version has and the earlier one has not, with its last place at the
  output; a removed one is the same the other way round.\<close>

theorem compareConnections_correct:
  "(n, t, e) \<in> reported (d_added (compareConnections prev nextw)) \<longleftrightarrow>
     last_at (connections_at (groups_of nextw n t) (e_sourceIndex e)) (i_index (e_value e)) (i_connection (e_value e)) \<and>
     \<not> conn_at prev n t (e_sourceIndex e) (i_connection (e_value e))"
proof -
  have at: "conn_at conns n t i c \<longleftrightarrow> c \<in> set (connections_at (groups_of conns n t) i)" for conns n t i c
    by (cases "i < length (groups_of conns n t)"; cases "groups_of conns n t ! i") (simp_all add: conn_at_def connections_at_def)
  show ?thesis by (simp add: compareConnections_reported only_in_def Let_def at)
qed

section \<open>Supersets of parameters\<close>

declare entries.simps(2) [simp del]

lemma entries_JArr:
  "map_of (entries (JArr xs)) k = Some v \<longleftrightarrow> (\<exists>i < length xs. k = show_nat i \<and> v = xs ! i)"
proof -
  have keys: "map fst (entries (JArr xs)) = map show_nat [0..<length xs]" by (simp add: entries.simps(2))
  then have "distinct (map fst (entries (JArr xs)))"
    by (simp add: distinct_map inj_on_def) (blast dest: show_nat_inj)
  then have "map_of (entries (JArr xs)) k = Some v \<longleftrightarrow> (k, v) \<in> set (entries (JArr xs))" by simp
  also have "\<dots> \<longleftrightarrow> (\<exists>i < length xs. k = show_nat i \<and> v = xs ! i)" 
  proof
    assume "\<exists>i < length xs. k = show_nat i \<and> v = xs ! i"
    then obtain i where i: "i < length xs" "k = show_nat i" "v = xs ! i" by blast
    then have "(map show_nat [0..<length xs] ! i, xs ! i) \<in> set (entries (JArr xs))"
      unfolding entries.simps(2) set_zip by force
    with i show "(k, v) \<in> set (entries (JArr xs))" by simp
  qed (auto simp: entries.simps(2) set_zip)
  finally show ?thesis .
qed

lemma list_all_lookup:
  "list_all (\<lambda>(k, _). m k \<noteq> None) fs \<and> list_all (\<lambda>(k, v). P v (the (m k))) fs \<longleftrightarrow>
     (\<forall>(k, v) \<in> set fs. \<exists>w. m k = Some w \<and> P v w)"
  by (induction fs) auto

lemma superset_JObj:
  "parametersAreSuperset (JObj fs) z \<longleftrightarrow> ((\<exists>zs. z = JObj zs) \<or> (\<exists>zs. z = JArr zs)) \<and> length fs = length (entries z) \<and>
     (\<forall>(k, v) \<in> set fs. \<exists>w. map_of (entries z) k = Some w \<and> parametersAreSuperset v w)"
  by (cases z) (simp_all only: parametersAreSuperset.simps json.case list_all_lookup, simp_all)

lemma superset_entries:
  assumes "parametersAreSuperset y z" and "map_of (entries y) k = Some v"
  shows "\<exists>w. map_of (entries z) k = Some w \<and> parametersAreSuperset v w"
proof (cases y)
  case (JArr ys)
  with assms(1) obtain zs where z: "z = JArr zs" "length ys = length zs" "list_all (\<lambda>(x, y). parametersAreSuperset x y) (zip ys zs)"
    by (auto split: json.splits)
  from assms(2) JArr obtain i where i: "i < length ys" "k = show_nat i" "v = ys ! i" using entries_JArr by metis
  then have "parametersAreSuperset v (zs ! i)" using z by (auto simp: list_all_length)
  moreover have "map_of (entries z) k = Some (zs ! i)" using i z entries_JArr by metis
  ultimately show ?thesis by blast
next
  case (JObj gs)
  with assms(2) have "(k, v) \<in> set gs" by (simp add: map_of_SomeD)
  with assms(1) [unfolded JObj superset_JObj] show ?thesis by blast
qed (use assms(2) in simp_all)

lemma superset_shape:
  assumes "parametersAreSuperset y z" and "(\<exists>ys. y = JObj ys) \<or> (\<exists>ys. y = JArr ys)"
  shows "((\<exists>zs. z = JObj zs) \<or> (\<exists>zs. z = JArr zs)) \<and> length (entries y) = length (entries z)"
  using assms by (cases y; cases z) (simp_all add: superset_JObj entries.simps(2))

text \<open>Nothing is lost over several versions either: a superset of a superset is a superset.\<close>

theorem superset_trans:
  "parametersAreSuperset x y \<Longrightarrow> parametersAreSuperset y z \<Longrightarrow> parametersAreSuperset x z"
proof (induction x arbitrary: y z)
  case (JStr s)
  then obtain u where u: "y = JStr u" "subseq s u" by (auto simp: stringContainsParts_iff split: json.splits)
  with JStr.prems(2) obtain v where "z = JStr v" "subseq u v" by (auto simp: stringContainsParts_iff split: json.splits)
  with u show ?case by (auto simp: stringContainsParts_iff intro: subseq_order.order_trans)
next
  case (JArr xs)
  from JArr.prems(1) obtain ys where y: "y = JArr ys" "length xs = length ys" "\<forall>i < length xs. parametersAreSuperset (xs ! i) (ys ! i)"
    by (auto simp: list_all_length split: json.splits)
  with JArr.prems(2) obtain zs where z: "z = JArr zs" "length ys = length zs" "\<forall>i < length ys. parametersAreSuperset (ys ! i) (zs ! i)"
    by (auto simp: list_all_length split: json.splits)
  have "parametersAreSuperset (xs ! i) (zs ! i)" if "i < length xs" for i
    using JArr.IH [of "xs ! i" "ys ! i" "zs ! i"] that y z by simp
  then show ?case using y z by (simp add: list_all_length)
next
  case (JObj fs)
  have "\<exists>w. map_of (entries z) k = Some w \<and> parametersAreSuperset v w" if kv: "(k, v) \<in> set fs" for k v
  proof -
    from JObj.prems(1) kv obtain w where w: "map_of (entries y) k = Some w" "parametersAreSuperset v w"
      unfolding superset_JObj by blast
    from superset_entries [OF JObj.prems(2) w(1)] obtain u where u: "map_of (entries z) k = Some u" "parametersAreSuperset w u" by blast
    from JObj.IH [of "(k, v)" v w u] kv w u show ?thesis by auto
  qed
  then show ?case using superset_shape [OF JObj.prems(2)] JObj.prems(1) unfolding superset_JObj by auto
qed auto

section \<open>What grouping keeps\<close>

text \<open>A version goes into a later one when no skip rule and some merge rule holds for the two.\<close>

definition mergeable :: "(json \<Rightarrow> json \<Rightarrow> bool) \<Rightarrow> DiffRule list \<Rightarrow> DiffRule list \<Rightarrow> int option \<Rightarrow> WorkflowVersion \<Rightarrow> WorkflowVersion \<Rightarrow> bool" where
  "mergeable isEqual rules skipRules score prev nextw \<longleftrightarrow>
     (let wcs = new_WorkflowChangeSet isEqual prev nextw
      in someRule skipRules prev nextw wcs score = Inr False \<and> someRule rules prev nextw wcs score = Inr True)"

text \<open>The specification, from the last version back: each is compared with the next one that stays.\<close>

fun keep_versions :: "('a \<Rightarrow> 'a \<Rightarrow> bool) \<Rightarrow> 'a list \<Rightarrow> 'a list" where
  "keep_versions m [] = []"
| "keep_versions m [w] = [w]"
| "keep_versions m (w # v # ws) = (let kept = keep_versions m (v # ws) in if m w (hd kept) then kept else w # kept)"

definition keep_step :: "('a \<Rightarrow> 'a \<Rightarrow> bool) \<Rightarrow> 'a \<Rightarrow> 'a list \<Rightarrow> 'a list" where
  "keep_step m w kept = (if m w (hd kept) then kept else w # kept)"

lemma keep_versions_foldr: "keep_versions m (ws @ [w]) = foldr (keep_step m) ws [w]"
proof (induction ws)
  case (Cons v ws)
  then show ?case by (cases "ws @ [w]") (simp_all add: keep_step_def Let_def)
qed simp

lemma keep_versions_nonempty [simp]: "keep_versions m ws = [] \<longleftrightarrow> ws = []"
  by (induction m ws rule: keep_versions.induct) (auto simp: Let_def)

lemma keep_versions_last: "ws \<noteq> [] \<Longrightarrow> last (keep_versions m ws) = last ws"
  by (induction m ws rule: keep_versions.induct) (auto simp: Let_def)

lemma keep_versions_subseq: "subseq (keep_versions m ws) ws"
  by (induction m ws rule: keep_versions.induct) (auto simp: Let_def)

text \<open>Neighbours that stay are not mergeable.\<close>

lemma keep_versions_apart:
  "Suc i < length (keep_versions m ws) \<Longrightarrow> \<not> m (keep_versions m ws ! i) (keep_versions m ws ! Suc i)"
proof (induction m ws arbitrary: i rule: keep_versions.induct)
  case (3 m w v ws)
  define kept where "kept = keep_versions m (v # ws)"
  have ne: "kept \<noteq> []" by (simp add: kept_def)
  show ?case
  proof (cases "m w (hd kept)")
    case True
    then show ?thesis using "3.IH" [of i] "3.prems" by (simp add: kept_def [symmetric] Let_def)
  next
    case False
    then show ?thesis using "3.IH" "3.prems" ne
      by (cases i) (auto simp: kept_def [symmetric] Let_def hd_conv_nth)
  qed
qed simp_all

text \<open>A version that does not stay is merged into one that does.\<close>

lemma keep_versions_merged:
  "w \<in> set ws \<Longrightarrow> w \<in> set (keep_versions m ws) \<or> (\<exists>v \<in> set (keep_versions m ws). m w v)"
proof (induction m ws rule: keep_versions.induct)
  case (3 m u v ws)
  have "hd (keep_versions m (v # ws)) \<in> set (keep_versions m (v # ws))" by simp
  with 3 show ?case by (auto simp: Let_def)
qed simp_all

lemma groupLoop_correct:
  assumes "groupLoop isEqual rules skipRules score i (pre @ rest) removed = Inr (removed', remaining)"
    and "length pre = i" and "rest \<noteq> []"
  shows "remaining = foldr (keep_step (mergeable isEqual rules skipRules score)) pre rest \<and>
    mset removed' + mset remaining = mset removed + mset pre + mset rest \<and>
    (\<forall>w \<in> set removed'. w \<in> set removed \<or> (\<exists>v \<in> set remaining. mergeable isEqual rules skipRules score w v)) \<and>
    set rest \<subseteq> set remaining"
  using assms
proof (induction i arbitrary: pre rest removed)
  case (Suc i)
  let ?m = "mergeable isEqual rules skipRules score"
  obtain us w where pre: "pre = us @ [w]" "length us = i" using Suc.prems(2) by (metis length_Suc_conv_rev)
  obtain n rs where rest: "rest = n # rs" using Suc.prems(3) by (cases rest) auto
  have at: "(pre @ rest) ! i = w" "(pre @ rest) ! Suc i = n" "take i (pre @ rest) @ drop (Suc i) (pre @ rest) = us @ rest"
    using pre rest by (auto simp: nth_append)
  define wcs where "wcs = new_WorkflowChangeSet isEqual w n"
  from Suc.prems(1) obtain skip where skip: "someRule skipRules w n wcs score = Inr skip"
    by (auto simp: at wcs_def [symmetric] Let_def rbind_eq_Inr)
  show ?case
  proof (cases "?m w n")
    case True
    then have "groupLoop isEqual rules skipRules score i (us @ rest) (removed @ [w]) = Inr (removed', remaining)"
      using Suc.prems(1) at by (simp add: mergeable_def wcs_def [symmetric] Let_def)
    from Suc.IH [OF this pre(2) Suc.prems(3)] True rest pre show ?thesis by (auto simp: keep_step_def)
  next
    case False
    then have "groupLoop isEqual rules skipRules score i (us @ (w # rest)) removed = Inr (removed', remaining)"
      using Suc.prems(1) at skip pre by (auto simp: mergeable_def wcs_def [symmetric] Let_def rbind_eq_Inr split: if_splits)
    from Suc.IH [OF this pre(2)] False rest pre show ?thesis by (auto simp: keep_step_def)
  qed
qed auto

lemma groupWorkflows_Inr:
  assumes "groupWorkflows isEqual ws rules skipRules wanted = Inr (removed, remaining)"
  defines "m \<equiv> mergeable isEqual rules skipRules (sizeScore ws wanted)"
  shows "remaining = keep_versions m ws" and "mset removed + mset remaining = mset ws"
    and "w \<in> set removed \<Longrightarrow> \<exists>v \<in> set remaining. m w v"
proof -
  have "remaining = keep_versions m ws \<and> mset removed + mset remaining = mset ws \<and> (\<forall>w \<in> set removed. \<exists>v \<in> set remaining. m w v)"
  proof (cases ws rule: rev_cases)
    case Nil
    with assms(1) show ?thesis by (simp add: groupWorkflows_def)
  next
    case (snoc us w)
    show ?thesis
    proof (cases us)
      case Nil
      with snoc assms(1) show ?thesis by (auto simp: groupWorkflows_def)
    next
      case (Cons u us')
      with assms(1) snoc have "groupLoop isEqual rules skipRules (sizeScore ws wanted) (length us) (us @ [w]) [] = Inr (removed, remaining)"
        by (simp add: groupWorkflows_def)
      from groupLoop_correct [OF this] snoc show ?thesis by (auto simp: keep_versions_foldr m_def)
    qed
  qed
  then show "remaining = keep_versions m ws" "mset removed + mset remaining = mset ws"
    "w \<in> set removed \<Longrightarrow> \<exists>v \<in> set remaining. m w v" by blast+
qed

text \<open>Rules that do not throw on the versions make grouping succeed.\<close>

definition quiet :: "(json \<Rightarrow> json \<Rightarrow> bool) \<Rightarrow> WorkflowVersion list \<Rightarrow> DiffRule list \<Rightarrow> bool" where
  "quiet isEqual ws rules \<longleftrightarrow> (\<forall>rule \<in> set rules. \<forall>prev \<in> set ws. \<forall>nextw \<in> set ws. \<forall>score.
     \<exists>b. rule prev nextw (new_WorkflowChangeSet isEqual prev nextw) score = Inr b)"

lemma quiet_Cons: "quiet isEqual ws (rule # rules) \<longleftrightarrow> quiet isEqual ws [rule] \<and> quiet isEqual ws rules"
  by (simp add: quiet_def)

lemma someRule_quiet:
  "quiet isEqual ws rules \<Longrightarrow> prev \<in> set ws \<Longrightarrow> nextw \<in> set ws \<Longrightarrow>
     \<exists>b. someRule rules prev nextw (new_WorkflowChangeSet isEqual prev nextw) score = Inr b"
proof (induction rules)
  case (Cons rule rules)
  then obtain b where "rule prev nextw (new_WorkflowChangeSet isEqual prev nextw) score = Inr b"
    unfolding quiet_def by (meson list.set_intros(1))
  with Cons quiet_Cons [of isEqual ws rule rules] show ?case by auto
qed (auto intro: exI [of _ False])

lemma groupLoop_quiet:
  assumes "quiet isEqual ws rules" and "quiet isEqual ws skipRules" and "i < length remaining" and "set remaining \<subseteq> set ws"
  shows "\<exists>r. groupLoop isEqual rules skipRules score i remaining removed = Inr r"
  using assms(3,4)
proof (induction i arbitrary: remaining removed)
  case (Suc i)
  let ?w = "remaining ! i" and ?n = "remaining ! Suc i"
  have ws: "?w \<in> set ws" "?n \<in> set ws" using Suc.prems by auto
  obtain b where "someRule skipRules ?w ?n (new_WorkflowChangeSet isEqual ?w ?n) score = Inr b" using someRule_quiet [OF assms(2) ws] by blast
  moreover obtain c where "someRule rules ?w ?n (new_WorkflowChangeSet isEqual ?w ?n) score = Inr c" using someRule_quiet [OF assms(1) ws] by blast
  moreover have "set (take i remaining @ drop (Suc i) remaining) \<subseteq> set ws"
    using Suc.prems(2) set_take_subset [of i remaining] set_drop_subset [of "Suc i" remaining] by auto
  ultimately show ?case using Suc.IH Suc.prems by (auto simp: Let_def)
qed simp

lemma groupWorkflows_quiet:
  "quiet isEqual ws rules \<Longrightarrow> quiet isEqual ws skipRules \<Longrightarrow> \<exists>r. groupWorkflows isEqual ws rules skipRules wanted = Inr r"
  using groupLoop_quiet [of isEqual ws rules skipRules "length ws - 1" ws] by (cases ws) (simp_all add: groupWorkflows_def)

lemma rules_quiet:
  "quiet isEqual ws []" "quiet isEqual ws [makeSkipTimeDifference d]" "quiet isEqual ws [makeMergeDependingOnSizeRule mapping]"
  "quiet isEqual ws [skipDifferentUsers]"
  by (auto simp: quiet_def makeSkipTimeDifference_def makeMergeDependingOnSizeRule_def skipDifferentUsers_def Let_def split: option.split)

section \<open>The difference of nodes\<close>

lemma map_of_foldl_update:
  "distinct (map fst m) \<Longrightarrow> map_of (foldl (\<lambda>d (i, x). if P i then AList.update i (f i x) d else d) d0 m) k =
     (if P k then case map_of m k of None \<Rightarrow> map_of d0 k | Some x \<Rightarrow> Some (f k x) else map_of d0 k)"
proof (induction m arbitrary: d0)
  case (Cons p m)
  then have "fst p = k \<Longrightarrow> map_of m k = None" by (auto simp: map_of_eq_None_iff)
  with Cons show ?case by (cases p) (auto simp: update_conv' split: option.split)
qed simp

lemma distinct_foldl_update:
  "distinct (map fst d0) \<Longrightarrow> distinct (map fst (foldl (\<lambda>d (i, x). if P i then AList.update i (f i x) d else d) d0 m))"
  by (induction m arbitrary: d0) (auto simp: distinct_update)

lemma nodes_by_id_distinct: "distinct (map fst (nodes_by_id nodes))"
  unfolding nodes_by_id_def by (rule foldl_keeps) (simp_all add: distinct_update)

text \<open>Of nodes with one id, the last counts.\<close>

lemma map_of_nodes_by_id: "map_of (nodes_by_id nodes) i = find (\<lambda>n. dn_id n = i) (rev nodes)"
  by (induction nodes rule: rev_induct) (auto simp: nodes_by_id_def update_conv')

lemma nodes_by_id_Some: "map_of (nodes_by_id nodes) i = Some n \<Longrightarrow> n \<in> set nodes \<and> dn_id n = i"
  unfolding map_of_nodes_by_id by (induction nodes rule: rev_induct) (auto split: if_splits)

lemma nodes_by_id_unique: "distinct (map dn_id nodes) \<Longrightarrow> n \<in> set nodes \<Longrightarrow> map_of (nodes_by_id nodes) (dn_id n) = Some n"
proof -
  assume d: "distinct (map dn_id nodes)" "n \<in> set nodes"
  then have "map_of (nodes_by_id nodes) (dn_id n) \<noteq> None" by (auto simp: map_of_nodes_by_id find_None_iff)
  then obtain n' where n': "map_of (nodes_by_id nodes) (dn_id n) = Some n'" by blast
  with d nodes_by_id_Some [OF n'] show ?thesis by (auto simp: distinct_map inj_on_def)
qed

lemma map_of_compareWorkflowsNodes:
  "map_of (compareWorkflowsNodes nodesEqual base target) i =
     (case map_of (nodes_by_id base) i of
        Some node \<Rightarrow> Some \<lparr>nd_status = (if map_of (nodes_by_id target) i = None then Deleted
          else if \<not> nodesEqual (Some node) (map_of (nodes_by_id target) i) then Modified else Eq), nd_node = node\<rparr>
      | None \<Rightarrow> map_option (\<lambda>node. \<lparr>nd_status = Added, nd_node = node\<rparr>) (map_of (nodes_by_id target) i))"
proof -
  define g where "g = (\<lambda>i node. \<lparr>nd_status = (if map_of (nodes_by_id target) i = None then Deleted
     else if \<not> nodesEqual (map_of (nodes_by_id base) i) (map_of (nodes_by_id target) i) then Modified else Eq), nd_node = node\<rparr>)"
  define d where "d = foldl (\<lambda>d (i, x). if True then AList.update i (g i x) d else d) [] (nodes_by_id base)"
  have "compareWorkflowsNodes nodesEqual base target = foldl (\<lambda>diff (i, node). if map_of (nodes_by_id base) i = None
      then AList.update i ((\<lambda>_ node. \<lparr>nd_status = Added, nd_node = node\<rparr>) i node) diff else diff) d (nodes_by_id target)"
    by (simp add: compareWorkflowsNodes_def Let_def d_def g_def)
  moreover have "map_of d i = map_option (g i) (map_of (nodes_by_id base) i)"
    unfolding d_def map_of_foldl_update [OF nodes_by_id_distinct] by (simp split: option.split)
  ultimately show ?thesis
    by (simp add: map_of_foldl_update [OF nodes_by_id_distinct] g_def split: option.split)
qed

lemma distinct_compareWorkflowsNodes: "distinct (map fst (compareWorkflowsNodes nodesEqual base target))"
  unfolding compareWorkflowsNodes_def Let_def
  by (intro distinct_foldl_update distinct_foldl_update [where P = "\<lambda>_. True", simplified]) simp

section \<open>Versions whose changes only add\<close>

lemma additiveNodes_True:
  "additiveNodes isEqual nextw ds = Inr True \<Longrightarrow> d \<in> set ds \<Longrightarrow> nd_status d \<noteq> Added \<Longrightarrow>
     nd_status d \<noteq> Deleted \<and> (\<exists>y. find (\<lambda>x. dn_id x = dn_id (nd_node d)) (v_nodes nextw) = Some y \<and>
       (nd_status d = Modified \<longrightarrow> nodeIsSuperset isEqual (nd_node d) y))"
  by (induction ds) (auto split: if_splits option.splits)

lemma additiveNodes_total:
  "(\<And>d. d \<in> set ds \<Longrightarrow> nd_status d \<notin> {Added, Deleted} \<Longrightarrow> \<exists>n \<in> set (v_nodes nextw). dn_id n = dn_id (nd_node d)) \<Longrightarrow>
     \<exists>b. additiveNodes isEqual nextw ds = Inr b"
proof (induction ds)
  case (Cons d ds)
  then have "\<exists>b. additiveNodes isEqual nextw ds = Inr b" by simp
  moreover have "find (\<lambda>x. dn_id x = dn_id (nd_node d)) (v_nodes nextw) \<noteq> None" if "nd_status d \<noteq> Added" "nd_status d \<noteq> Deleted"
    using Cons.prems [of d] that unfolding find_None_iff by auto
  ultimately show ?case by (cases "nd_status d") (auto split: option.split)
qed (auto intro: exI [of _ True])

lemma distinct_eq_nodes:
  "distinct (map fst (foldl (\<lambda>m node. AList.update (dn_id node) \<lparr>nd_status = Eq, nd_node = node\<rparr> m) [] nodes))"
  by (rule foldl_keeps) (simp_all add: distinct_update)

lemma eq_nodes_id:
  "d \<in> set (vals (foldl (\<lambda>m node. AList.update (dn_id node) \<lparr>nd_status = Eq, nd_node = node\<rparr> m) [] nodes)) \<Longrightarrow>
     nd_node d \<in> set nodes"
proof (induction nodes rule: rev_induct)
  case (snoc n ns)
  have "set (vals (AList.update k v m)) \<subseteq> insert v (set (vals m))" for k v and m :: NodesDiff
    by (induction m) auto
  with snoc show ?case by fastforce
qed simp

text \<open>The error of a broken invariant cannot come up.\<close>

lemma mergeAdditiveChanges_quiet:
  "\<exists>b. mergeAdditiveChanges isEqual prev nextw (compareWorkflows) score = Inr b"
  if "compareWorkflows = new_WorkflowChangeSet isEqual prev nextw" "v_ref prev = v_ref nextw \<Longrightarrow> prev = nextw"
proof -
  have "\<exists>n \<in> set (v_nodes nextw). dn_id n = dn_id (nd_node d)"
    if "d \<in> set (vals (cs_nodes compareWorkflows))" "nd_status d \<notin> {Added, Deleted}" for d
  proof (cases "v_ref prev = v_ref nextw")
    case True
    with that(1) \<open>compareWorkflows = _\<close> \<open>v_ref prev = v_ref nextw \<Longrightarrow> _\<close> show ?thesis
      using eq_nodes_id by (auto simp: new_WorkflowChangeSet_def)
  next
    case False
    then have "cs_nodes compareWorkflows = compareWorkflowsNodes (compareNodes isEqual) (v_nodes prev) (v_nodes nextw)"
      using \<open>compareWorkflows = _\<close> by (simp add: new_WorkflowChangeSet_def)
    with that(1) obtain i where "map_of (compareWorkflowsNodes (compareNodes isEqual) (v_nodes prev) (v_nodes nextw)) i = Some d"
      using distinct_compareWorkflowsNodes by fastforce
    then have "\<exists>n. map_of (nodes_by_id (v_nodes nextw)) i = Some n \<and> dn_id (nd_node d) = i"
      using that(2) nodes_by_id_Some by (auto simp: map_of_compareWorkflowsNodes split: option.splits if_splits)
    then show ?thesis using nodes_by_id_Some by metis
  qed
  then obtain b where "additiveNodes isEqual nextw (vals (cs_nodes compareWorkflows)) = Inr b"
    using additiveNodes_total [of "vals (cs_nodes compareWorkflows)" nextw isEqual] by blast
  then show ?thesis by (simp add: mergeAdditiveChanges_def)
qed

lemma additive_quiet: "inj_on v_ref (set ws) \<Longrightarrow> quiet isEqual ws [mergeAdditiveChanges isEqual]"
  unfolding quiet_def using mergeAdditiveChanges_quiet by (simp add: inj_on_def)

text \<open>A node is kept by a node of the same id that is equal or a superset.\<close>

definition node_kept :: "(json \<Rightarrow> json \<Rightarrow> bool) \<Rightarrow> DiffableNode \<Rightarrow> WorkflowVersion \<Rightarrow> bool" where
  "node_kept isEqual x nextw \<longleftrightarrow> (\<exists>y \<in> set (v_nodes nextw). dn_id y = dn_id x \<and>
     (y = x \<or> compareNodes isEqual (Some x) (Some y) \<or> nodeIsSuperset isEqual x y))"

lemma mergeAdditiveChanges_keeps:
  assumes "mergeAdditiveChanges isEqual prev nextw (new_WorkflowChangeSet isEqual prev nextw) score = Inr True"
    and ids: "distinct (map dn_id (v_nodes prev))" and same: "v_ref prev = v_ref nextw \<Longrightarrow> prev = nextw"
  shows "x \<in> set (v_nodes prev) \<Longrightarrow> node_kept isEqual x nextw"
    and "conn_at (v_connections prev) n t i c \<Longrightarrow> conn_at (v_connections nextw) n t i c"
proof -
  let ?cs = "new_WorkflowChangeSet isEqual prev nextw"
  from assms(1) have add: "additiveNodes isEqual nextw (vals (cs_nodes ?cs)) = Inr True" "d_removed (cs_connections ?cs) = []"
    by (auto simp: mergeAdditiveChanges_def rbind_eq_Inr)
  show "node_kept isEqual x nextw" if x: "x \<in> set (v_nodes prev)"
  proof (cases "v_ref prev = v_ref nextw")
    case True
    with same x show ?thesis by (auto simp: node_kept_def)
  next
    case False
    define d where "d = \<lparr>nd_status = (if map_of (nodes_by_id (v_nodes nextw)) (dn_id x) = None then Deleted
       else if \<not> compareNodes isEqual (Some x) (map_of (nodes_by_id (v_nodes nextw)) (dn_id x)) then Modified else Eq), nd_node = x\<rparr>"
    have "map_of (cs_nodes ?cs) (dn_id x) = Some d"
      using False nodes_by_id_unique [OF ids x] by (simp add: new_WorkflowChangeSet_def map_of_compareWorkflowsNodes d_def)
    then have "d \<in> set (vals (cs_nodes ?cs))" by (metis map_of_SomeD image_eqI list.set_map snd_conv)
    moreover have node: "nd_node d = x" and "nd_status d \<noteq> Added" by (simp_all add: d_def)
    ultimately obtain y where d: "nd_status d \<noteq> Deleted"
      and y: "find (\<lambda>z. dn_id z = dn_id x) (v_nodes nextw) = Some y" "nd_status d = Modified \<longrightarrow> nodeIsSuperset isEqual x y"
      using additiveNodes_True [OF add(1), of d] by blast
    show ?thesis
    proof (cases "nd_status d = Modified")
      case True
      have "y \<in> set (v_nodes nextw) \<and> dn_id y = dn_id x" using y(1) by (auto simp: find_Some_iff)
      with True y(2) show ?thesis by (auto simp: node_kept_def)
    next
      case m: False
      with d obtain z where z: "map_of (nodes_by_id (v_nodes nextw)) (dn_id x) = Some z" "compareNodes isEqual (Some x) (Some z)"
        by (auto simp: d_def split: if_splits)
      with nodes_by_id_Some [OF z(1)] show ?thesis by (auto simp: node_kept_def)
    qed
  qed
  show "conn_at (v_connections prev) n t i c \<Longrightarrow> conn_at (v_connections nextw) n t i c"
    using add(2) same removed_empty_iff by (cases "v_ref prev = v_ref nextw") (auto simp: new_WorkflowChangeSet_def)
qed

section \<open>Credentials\<close>

text \<open>What a node says about a type of credentials: nothing, or the id, if there is one.\<close>

definition cred_at :: "DiffableNode \<Rightarrow> string \<Rightarrow> json option option" where
  "cred_at n credType = (let creds = creds_of (map_of (dn_props n) ''credentials'') in
     if map_of creds credType = None then None else Some (cred_id creds credType))"

lemma credentialsDiffer_iff: "credentialsDiffer oldNode newNode \<longleftrightarrow> (\<exists>t. cred_at oldNode t \<noteq> cred_at newNode t)"
proof -
  define os ns where "os = creds_of (map_of (dn_props oldNode) ''credentials'')" and "ns = creds_of (map_of (dn_props newNode) ''credentials'')"
  have key: "(\<exists>v. (t, v) \<in> set xs) \<longleftrightarrow> map_of xs t \<noteq> None" for t and xs :: "(string \<times> json) list"
    by (metis map_of_SomeD not_None_eq weak_map_of_SomeI)
  have "credentialsDiffer oldNode newNode \<longleftrightarrow>
    (\<exists>t. map_of os t \<noteq> None \<and> (map_of ns t = None \<or> cred_id os t \<noteq> cred_id ns t)) \<or> (\<exists>t. map_of ns t \<noteq> None \<and> map_of os t = None)"
    unfolding credentialsDiffer_def Let_def os_def [symmetric] ns_def [symmetric] key [symmetric] list_ex_iff by auto
  also have "\<dots> \<longleftrightarrow> (\<exists>t. cred_at oldNode t \<noteq> cred_at newNode t)"
    unfolding cred_at_def Let_def os_def [symmetric] ns_def [symmetric] by (smt (verit) option.inject option.distinct(1))
  finally show ?thesis .
qed

text \<open>Credentials have changed when a node that is still there says something else about some type of them.\<close>

theorem hasCredentialChanges_correct:
  "hasCredentialChanges oldNodes newNodes \<longleftrightarrow>
     (\<exists>oldNode \<in> set oldNodes. \<exists>newNode. find (\<lambda>n. dn_id n = dn_id oldNode) (rev newNodes) = Some newNode \<and>
       (\<exists>credType. cred_at oldNode credType \<noteq> cred_at newNode credType))"
proof -
  have "(case m of None \<Rightarrow> False | Some n \<Rightarrow> credentialsDiffer oldNode n) \<longleftrightarrow>
      (\<exists>n. m = Some n \<and> (\<exists>t. cred_at oldNode t \<noteq> cred_at n t))" for m oldNode
    by (cases m) (simp_all add: credentialsDiffer_iff)
  then show ?thesis by (simp add: hasCredentialChanges_def Let_def list_ex_iff map_of_nodes_by_id)
qed

section \<open>Results\<close>

text \<open>The loop of \<open>stringContainsParts\<close>, which gives up as soon as too many characters are left over, decides
  whether all characters of the second string occur in the first, in order.\<close>

theorem stringContainsParts_subsequence: "stringContainsParts s substr = subseq substr s"
  by (rule stringContainsParts_iff)

text \<open>The comment above it lists this pair of strings as one that it refuses.\<close>

lemma stringContainsParts_abcd: "stringContainsParts ''abcde'' ''abcd''"
  by code_simp

text \<open>With rules that do not throw on the versions, \<open>groupWorkflows\<close> leaves what the specification
  \<open>keep_versions\<close> leaves: going back from the last version, one is dropped when it is mergeable with the next
  that stays. The removed versions are the others, and each is mergeable with one that stays.\<close>

theorem groupWorkflows_correct:
  assumes "quiet isEqual ws rules" and "quiet isEqual ws skipRules"
  shows "\<exists>removed. groupWorkflows isEqual ws rules skipRules wantsScore =
      Inr (removed, keep_versions (mergeable isEqual rules skipRules (sizeScore ws wantsScore)) ws) \<and>
    mset removed + mset (keep_versions (mergeable isEqual rules skipRules (sizeScore ws wantsScore)) ws) = mset ws \<and>
    (\<forall>w \<in> set removed. \<exists>v \<in> set (keep_versions (mergeable isEqual rules skipRules (sizeScore ws wantsScore)) ws).
      mergeable isEqual rules skipRules (sizeScore ws wantsScore) w v)"
proof -
  obtain removed remaining where g: "groupWorkflows isEqual ws rules skipRules wantsScore = Inr (removed, remaining)"
    using groupWorkflows_quiet [OF assms] by (metis surj_pair)
  from groupWorkflows_Inr [OF g] g show ?thesis by blast
qed

definition plain_version :: "nat \<Rightarrow> int \<Rightarrow> WorkflowVersion" where
  "plain_version ref createdAt = \<lparr>v_ref = ref, v_versionId = show_nat ref, v_name = None, v_description = None,
     v_authors = None, v_createdAt = createdAt, v_nodes = [], v_connections = []\<rparr>"

theorem groupWorkflows_correct_witness:
  "\<exists>removed. groupWorkflows (=) [plain_version 1 0, plain_version 2 5, plain_version 3 90] [makeMergeDependingOnSizeRule [(-1, 10)]]
     [skipDifferentUsers] True = Inr (removed, [plain_version 2 5, plain_version 3 90])"
proof -
  let ?ws = "[plain_version 1 0, plain_version 2 5, plain_version 3 90]"
  have "keep_versions (mergeable (=) [makeMergeDependingOnSizeRule [(-1, 10)]] [skipDifferentUsers] (sizeScore ?ws True)) ?ws =
    [plain_version 2 5, plain_version 3 90]" by code_simp
  with groupWorkflows_correct [OF rules_quiet(3) rules_quiet(4), of "(=)" ?ws "[(-1, 10)]" True] show ?thesis by auto
qed

end
