(* ===== verification/HistoryCompaction.thy ===== *)
theory HistoryCompaction
  imports WorkflowDiff Complex_Main
begin

text \<open>
  The compaction of workflow histories: \<open>pruneHistory\<close> of
  \<open>packages/@n8n/db/src/repositories/workflow-history.repository.ts\<close> and
  \<open>packages/cli/src/services/pruning/workflow-history-compaction.service.ts\<close>.

  The table of versions is a list of rows: the id of a workflow with a version of it. A query is a filter of
  the rows; rows of equal dates keep their order. The versions that were published come from another table
  and are a parameter. Times are milliseconds. Timers, leadership, logging and pauses are left out; a run of
  the compaction is one step.

  Theorems: which versions are never deleted, that the nodes (in what is compared of them) and connections of what the optimisation deletes are in a version that stays,
  and how close the versions are that trimming leaves.
\<close>

section \<open>The repository\<close>

type_synonym HistoryRows = "(string \<times> WorkflowVersion) list"

definition makeSkipActiveAndNamedVersionsRule :: "string list \<Rightarrow> DiffRule" where
  "makeSkipActiveAndNamedVersionsRule activeVersions prev nextw diff metaData =
     Inr (v_name prev \<noteq> None \<or> v_description prev \<noteq> None \<or> v_versionId prev \<in> set activeVersions)"

definition getWorkflowIdsInRange :: "HistoryRows \<Rightarrow> int \<Rightarrow> int \<Rightarrow> string list" where
  "getWorkflowIdsInRange rows startDate endDate =
     remdups (map fst (filter (\<lambda>(_, w). v_createdAt w \<le> endDate \<and> v_createdAt w \<ge> startDate) rows))"

definition versions_in_range :: "HistoryRows \<Rightarrow> string \<Rightarrow> int \<Rightarrow> int \<Rightarrow> WorkflowVersion list" where
  "versions_in_range rows workflowId startDate endDate =
     sort_key v_createdAt (map snd (filter (\<lambda>(i, w). i = workflowId \<and> v_createdAt w \<le> endDate \<and> v_createdAt w \<ge> startDate) rows))"

definition delete_versions :: "string list \<Rightarrow> HistoryRows \<Rightarrow> HistoryRows" where
  "delete_versions ids rows = filter (\<lambda>(_, w). v_versionId w \<notin> set ids) rows"

record PruneResult =
  p_seen :: nat
  p_deleted :: nat

definition pruneHistory :: "(json \<Rightarrow> json \<Rightarrow> bool) \<Rightarrow> (string \<Rightarrow> string list) \<Rightarrow> string \<Rightarrow> int \<Rightarrow> int \<Rightarrow> DiffRule list \<Rightarrow>
    DiffRule list \<Rightarrow> bool \<Rightarrow> HistoryRows \<Rightarrow> (HistoryRows \<times> PruneResult) res" where
  "pruneHistory isEqual getPublishedVersions workflowId startDate endDate rules skipRules wantsScore rows =
     (let workflows = versions_in_range rows workflowId startDate endDate
      in rbind (groupWorkflows isEqual workflows rules
          ([makeSkipActiveAndNamedVersionsRule (getPublishedVersions workflowId), skipDifferentUsers] @ skipRules) wantsScore)
        (\<lambda>(removed, remaining). Inr (delete_versions (map v_versionId removed) rows,
           \<lparr>p_seen = length workflows, p_deleted = length removed\<rparr>)))"

section \<open>The service\<close>

record CompactionConfig =
  optimizingMinimumAgeHours :: rat
  optimizingTimeWindowHours :: rat
  trimmingMinimumAgeDays :: rat
  trimmingTimeWindowDays :: rat

record CompactionPayload =
  pl_workflowsProcessed :: nat
  pl_totalVersionsSeen :: nat
  pl_totalVersionsDeleted :: nat
  pl_errorCount :: nat

text \<open>The hours and days need not be whole; the time of a \<open>Date\<close> is cut off to whole milliseconds.\<close>

definition dateAt :: "rat \<Rightarrow> int" where
  "dateAt ms = (if ms \<ge> 0 then \<lfloor>ms\<rfloor> else \<lceil>ms\<rceil>)"

text \<open>A workflow whose pruning fails is counted and passed over.\<close>

definition compactOne :: "(string \<Rightarrow> HistoryRows \<Rightarrow> (HistoryRows \<times> PruneResult) res) \<Rightarrow>
    HistoryRows \<times> CompactionPayload \<Rightarrow> string \<Rightarrow> HistoryRows \<times> CompactionPayload" where
  "compactOne prune = (\<lambda>(rows, p) workflowId. case prune workflowId rows of
     Inl e \<Rightarrow> (rows, p\<lparr>pl_errorCount := pl_errorCount p + 1\<rparr>)
   | Inr (rows', r) \<Rightarrow> (rows', p\<lparr>pl_totalVersionsSeen := pl_totalVersionsSeen p + p_seen r,
       pl_totalVersionsDeleted := pl_totalVersionsDeleted p + p_deleted r\<rparr>))"

definition compactHistories :: "(json \<Rightarrow> json \<Rightarrow> bool) \<Rightarrow> (string \<Rightarrow> string list) \<Rightarrow> int \<Rightarrow> rat \<Rightarrow> rat \<Rightarrow> DiffRule list \<Rightarrow>
    DiffRule list \<Rightarrow> bool \<Rightarrow> HistoryRows \<Rightarrow> HistoryRows \<times> CompactionPayload" where
  "compactHistories isEqual getPublishedVersions compactionStartTime startDeltaMs endDeltaMs rules skipRules wantsScore rows =
     (let startDate = dateAt (of_int compactionStartTime - startDeltaMs); endDate = dateAt (of_int compactionStartTime - endDeltaMs);
          workflowIds = getWorkflowIdsInRange rows startDate endDate
      in foldl (compactOne (\<lambda>workflowId. pruneHistory isEqual getPublishedVersions workflowId startDate endDate rules skipRules wantsScore))
           (rows, \<lparr>pl_workflowsProcessed = length workflowIds, pl_totalVersionsSeen = 0, pl_totalVersionsDeleted = 0, pl_errorCount = 0\<rparr>)
           workflowIds)"

definition trimMapping :: "(int \<times> int) list" where
  "trimMapping = [(0, 60 * 1000), (100, 5 * 60 * 1000), (1000, 30 * 60 * 1000), (5000, 60 * 60 * 1000), (10000, 4 * 60 * 60 * 1000)]"

definition trimLongRunningHistories :: "(json \<Rightarrow> json \<Rightarrow> bool) \<Rightarrow> (string \<Rightarrow> string list) \<Rightarrow> CompactionConfig \<Rightarrow> int \<Rightarrow>
    HistoryRows \<Rightarrow> HistoryRows \<times> CompactionPayload" where
  "trimLongRunningHistories isEqual getPublishedVersions config now rows =
     (let startDelta = (trimmingMinimumAgeDays config + trimmingTimeWindowDays config) * 86400000;
          endDelta = trimmingMinimumAgeDays config * 86400000
      in compactHistories isEqual getPublishedVersions now startDelta endDelta [makeMergeDependingOnSizeRule trimMapping] [] True rows)"

definition optimizeHistories :: "(json \<Rightarrow> json \<Rightarrow> bool) \<Rightarrow> (string \<Rightarrow> string list) \<Rightarrow> CompactionConfig \<Rightarrow> int \<Rightarrow>
    HistoryRows \<Rightarrow> HistoryRows \<times> CompactionPayload" where
  "optimizeHistories isEqual getPublishedVersions config now rows =
     (let startDelta = (optimizingMinimumAgeHours config + optimizingTimeWindowHours config) * 3600000;
          endDelta = optimizingMinimumAgeHours config * 3600000
      in compactHistories isEqual getPublishedVersions now startDelta endDelta [mergeAdditiveChanges isEqual]
           [makeSkipTimeDifference (20 * 60 * 1000)] False rows)"

section \<open>Pruning one workflow\<close>

text \<open>Versions keep their authors when they are merged, so each stands for those merged into it.\<close>

lemma keep_versions_same:
  assumes "\<And>a b. m a b \<Longrightarrow> f a = f b"
  shows "f (hd (keep_versions m (v # ws))) = f v"
  using assms
proof (induction ws arbitrary: v)
  case (Cons u ws)
  then show ?case by (auto simp: Let_def)
qed simp

lemma keep_versions_followed:
  assumes "\<And>a b. m a b \<Longrightarrow> f a = f b" and "f w \<noteq> f v"
  shows "w \<in> set (keep_versions m (us @ w # v # ws))"
proof (induction us)
  case Nil
  have "\<not> m w (hd (keep_versions m (v # ws)))" using keep_versions_same [of m f v ws] assms by metis
  then show ?case by (simp add: Let_def)
next
  case (Cons u us)
  then show ?case by (cases "us @ w # v # ws") (auto simp: Let_def)
qed

lemma someRule_False: "someRule rules a b d score = Inr False \<Longrightarrow> rule \<in> set rules \<Longrightarrow> rule a b d score = Inr False"
  by (induction rules) (auto simp: rbind_eq_Inr split: if_splits)

lemma mergeable_skips:
  "mergeable isEqual rules skipRules score a b \<Longrightarrow> skip \<in> set skipRules \<Longrightarrow>
     skip a b (new_WorkflowChangeSet isEqual a b) score = Inr False"
  by (auto simp: mergeable_def Let_def intro: someRule_False)

abbreviation prune_skips :: "(string \<Rightarrow> string list) \<Rightarrow> string \<Rightarrow> DiffRule list \<Rightarrow> DiffRule list" where
  "prune_skips getPublishedVersions workflowId skipRules \<equiv>
     [makeSkipActiveAndNamedVersionsRule (getPublishedVersions workflowId), skipDifferentUsers] @ skipRules"

text \<open>What a merge of two versions says about the earlier one.\<close>

lemma mergeable_pruned:
  assumes "mergeable isEqual rules (prune_skips published x skips) score a b"
  shows "v_name a = None" and "v_description a = None" and "v_versionId a \<notin> set (published x)" and "v_authors a = v_authors b"
proof -
  let ?d = "new_WorkflowChangeSet isEqual a b"
  have "makeSkipActiveAndNamedVersionsRule (published x) a b ?d score = Inr False" "skipDifferentUsers a b ?d score = Inr False"
    using mergeable_skips [OF assms] by simp_all
  then show "v_name a = None" "v_description a = None" "v_versionId a \<notin> set (published x)" "v_authors a = v_authors b"
    by (simp_all add: makeSkipActiveAndNamedVersionsRule_def skipDifferentUsers_def)
qed

text \<open>Every row has a version id of its own, as the primary key of the table.\<close>

definition keyed :: "HistoryRows \<Rightarrow> bool" where
  "keyed rows \<longleftrightarrow> distinct (map (v_versionId \<circ> snd) rows)"

lemma keyed_row: "keyed rows \<Longrightarrow> (x, v) \<in> set rows \<Longrightarrow> (y, w) \<in> set rows \<Longrightarrow> v_versionId v = v_versionId w \<Longrightarrow> x = y \<and> v = w"
  unfolding keyed_def distinct_map using inj_onD [of "v_versionId \<circ> snd" "set rows" "(x, v)" "(y, w)"] by simp

lemma keyed_filter: "keyed rows \<Longrightarrow> keyed (filter P rows)"
  by (simp add: keyed_def distinct_map_filter)

lemma in_range_rows: "w \<in> set (versions_in_range rows x s e) \<Longrightarrow> (x, w) \<in> set rows"
  by (auto simp: versions_in_range_def)

lemma in_range_distinct: "keyed rows \<Longrightarrow> distinct (map v_versionId (versions_in_range rows x s e))"
proof -
  assume "keyed rows"
  let ?ws = "map snd (filter (\<lambda>(i, w). i = x \<and> v_createdAt w \<le> e \<and> v_createdAt w \<ge> s) rows)"
  have "map v_versionId ?ws = map (v_versionId \<circ> snd) (filter (\<lambda>(i, w). i = x \<and> v_createdAt w \<le> e \<and> v_createdAt w \<ge> s) rows)"
    by simp
  then have "distinct (map v_versionId ?ws)" using \<open>keyed rows\<close> unfolding keyed_def by (simp only: distinct_map_filter)
  moreover have "mset (map v_versionId (versions_in_range rows x s e)) = mset (map v_versionId ?ws)"
    unfolding versions_in_range_def mset_map by simp
  ultimately show ?thesis using mset_eq_imp_distinct_iff by blast
qed

lemma pruneHistory_rows:
  assumes "pruneHistory isEqual published x s e rules skips wanted rows = Inr (rows', r)" and key: "keyed rows"
  defines "ws \<equiv> versions_in_range rows x s e"
  defines "m \<equiv> mergeable isEqual rules (prune_skips published x skips) (sizeScore ws wanted)"
  shows "keyed rows'" and "set rows' \<subseteq> set rows"
    and "y \<noteq> x \<Longrightarrow> (y, w) \<in> set rows \<Longrightarrow> (y, w) \<in> set rows'"
    and "w \<in> set (keep_versions m ws) \<Longrightarrow> (x, w) \<in> set rows'"
    and "(x, w) \<in> set rows \<Longrightarrow> (x, w) \<in> set rows' \<or> (\<exists>v. (x, v) \<in> set rows' \<and> m w v)"
    and "versions_in_range rows' x s e = keep_versions m ws"
proof -
  obtain removed remaining where g: "groupWorkflows isEqual ws rules (prune_skips published x skips) wanted = Inr (removed, remaining)"
    and rows': "rows' = delete_versions (map v_versionId removed) rows"
    using assms(1) by (auto simp: pruneHistory_def ws_def [symmetric] Let_def rbind_eq_Inr)
  note kept = groupWorkflows_Inr [OF g, folded m_def]
  have ws: "distinct (map v_versionId ws)" unfolding ws_def by (rule in_range_distinct [OF key])
  have "mset (removed @ remaining) = mset ws" using kept(2) by simp
  then have both: "distinct (map v_versionId (removed @ remaining))" "set removed \<union> set remaining = set ws"
    using ws mset_eq_imp_distinct_iff [of "map v_versionId (removed @ remaining)" "map v_versionId ws"]
    by (metis mset_map, metis mset_eq_setD set_append)
  have in_rows: "w \<in> set ws \<Longrightarrow> (x, w) \<in> set rows" for w unfolding ws_def by (rule in_range_rows)
  have in': "(y, w) \<in> set rows' \<longleftrightarrow> (y, w) \<in> set rows \<and> (y = x \<longrightarrow> w \<notin> set removed)" for y w
    using keyed_row [OF key, of y w x] in_rows both(2) by (fastforce simp: rows' delete_versions_def)
  have stays: "(x, w) \<in> set rows'" if "w \<in> set remaining" for w
    using that both in_rows by (auto simp: in')
  show "keyed rows'" unfolding rows' delete_versions_def by (rule keyed_filter [OF key])
  show "set rows' \<subseteq> set rows" by (auto simp: rows' delete_versions_def)
  show "y \<noteq> x \<Longrightarrow> (y, w) \<in> set rows \<Longrightarrow> (y, w) \<in> set rows'" by (simp add: in')
  show "w \<in> set (keep_versions m ws) \<Longrightarrow> (x, w) \<in> set rows'" using stays kept(1) by simp
  show "(x, w) \<in> set rows' \<or> (\<exists>v. (x, v) \<in> set rows' \<and> m w v)" if "(x, w) \<in> set rows"
    using that kept(3) [of w] stays by (auto simp: in')
  have "versions_in_range rows' x s e = filter (\<lambda>w. v_versionId w \<notin> v_versionId ` set removed) ws"
    by (simp add: versions_in_range_def rows' delete_versions_def ws_def filter_sort filter_map comp_def case_prod_beta conj_commute conj_left_commute)
  also have "\<dots> = filter (\<lambda>w. w \<in> set remaining) ws"
    by (rule filter_cong [OF refl]) (use both in \<open>auto simp: image_iff\<close>)
  also have "\<dots> = remaining"
  proof -
    have "subseq xs ys \<Longrightarrow> distinct ys \<Longrightarrow> filter (\<lambda>y. y \<in> set xs) ys = xs" for xs ys :: "WorkflowVersion list"
    proof (induction rule: list_emb.induct)
      case (list_emb_Cons2 a b as bs)
      then have "filter (\<lambda>y. y = b \<or> y \<in> set as) bs = filter (\<lambda>y. y \<in> set as) bs" by (intro filter_cong) auto
      with list_emb_Cons2 show ?case by simp
    next
      case (list_emb_Cons as bs b)
      then have "b \<notin> set as" by (auto dest: list_emb_set)
      with list_emb_Cons show ?case by simp
    qed simp
    then show ?thesis using keep_versions_subseq [of m ws] kept(1) ws by (simp add: distinct_map)
  qed
  finally show "versions_in_range rows' x s e = keep_versions m ws" using kept(1) by simp
qed

section \<open>Pruning many workflows\<close>

text \<open>
  What the service needs of the repository: pruning one workflow deletes rows of this workflow only, and
  each of them has a row of the same workflow that stays and keeps it. Then a whole run deletes nothing
  that is not kept.
\<close>

locale row_pruning =
  fixes prune :: "string \<Rightarrow> HistoryRows \<Rightarrow> (HistoryRows \<times> PruneResult) res"
    and valid :: "HistoryRows \<Rightarrow> bool"
    and keeps :: "string \<Rightarrow> WorkflowVersion \<Rightarrow> WorkflowVersion \<Rightarrow> bool"
  assumes prune_valid: "prune x rows = Inr (rows', r) \<Longrightarrow> valid rows \<Longrightarrow> valid rows'"
    and prune_subset: "prune x rows = Inr (rows', r) \<Longrightarrow> valid rows \<Longrightarrow> set rows' \<subseteq> set rows"
    and prune_other: "prune x rows = Inr (rows', r) \<Longrightarrow> valid rows \<Longrightarrow> y \<noteq> x \<Longrightarrow> (y, w) \<in> set rows \<Longrightarrow> (y, w) \<in> set rows'"
    and prune_kept: "prune x rows = Inr (rows', r) \<Longrightarrow> valid rows \<Longrightarrow> (x, w) \<in> set rows \<Longrightarrow>
      (x, w) \<in> set rows' \<or> (\<exists>v. (x, v) \<in> set rows' \<and> keeps x w v)"
begin

lemma one:
  assumes "valid rows" and "fst (compactOne prune (rows, p) x) = rows'"
  shows "valid rows'" and "set rows' \<subseteq> set rows" and "y \<noteq> x \<Longrightarrow> (y, w) \<in> set rows \<Longrightarrow> (y, w) \<in> set rows'"
    and "(y, w) \<in> set rows \<Longrightarrow> (y, w) \<in> set rows' \<or> (\<exists>v. (y, v) \<in> set rows' \<and> keeps y w v)"
proof -
  have "valid rows' \<and> set rows' \<subseteq> set rows \<and> (y \<noteq> x \<longrightarrow> (y, w) \<in> set rows \<longrightarrow> (y, w) \<in> set rows') \<and>
    ((y, w) \<in> set rows \<longrightarrow> (y, w) \<in> set rows' \<or> (\<exists>v. (y, v) \<in> set rows' \<and> keeps y w v))" for y w
  proof (cases "prune x rows")
    case (Inl e)
    with assms show ?thesis by (simp add: compactOne_def)
  next
    case (Inr a)
    then obtain r where p: "prune x rows = Inr (rows', r)" using assms(2) by (cases a) (simp add: compactOne_def)
    show ?thesis
      using prune_valid [OF p assms(1)] prune_subset [OF p assms(1)] prune_other [OF p assms(1), of y w]
        prune_kept [OF p assms(1), of w] by (cases "y = x") auto
  qed
  then show "valid rows'" "set rows' \<subseteq> set rows" "y \<noteq> x \<Longrightarrow> (y, w) \<in> set rows \<Longrightarrow> (y, w) \<in> set rows'"
    "(y, w) \<in> set rows \<Longrightarrow> (y, w) \<in> set rows' \<or> (\<exists>v. (y, v) \<in> set rows' \<and> keeps y w v)"
    by blast+
qed

lemma all:
  assumes "distinct xs" and "valid rows" and "fst (foldl (compactOne prune) (rows, p) xs) = rows'"
  shows "valid rows' \<and> set rows' \<subseteq> set rows \<and> (\<forall>y w. y \<notin> set xs \<longrightarrow> (y, w) \<in> set rows \<longrightarrow> (y, w) \<in> set rows') \<and>
    (\<forall>y w. (y, w) \<in> set rows \<longrightarrow> (y, w) \<in> set rows' \<or> (\<exists>v. (y, v) \<in> set rows' \<and> keeps y w v))"
  using assms
proof (induction xs arbitrary: rows p)
  case (Cons x xs)
  obtain rows1 p1 where step: "compactOne prune (rows, p) x = (rows1, p1)" by fastforce
  then have fst1: "fst (compactOne prune (rows, p) x) = rows1" by simp
  note s = one [OF Cons.prems(2) fst1]
  have IH: "valid rows' \<and> set rows' \<subseteq> set rows1 \<and> (\<forall>y w. y \<notin> set xs \<longrightarrow> (y, w) \<in> set rows1 \<longrightarrow> (y, w) \<in> set rows') \<and>
    (\<forall>y w. (y, w) \<in> set rows1 \<longrightarrow> (y, w) \<in> set rows' \<or> (\<exists>v. (y, v) \<in> set rows' \<and> keeps y w v))"
    using Cons.IH [of rows1 p1] Cons.prems s(1) step by simp
  have "(y, w) \<in> set rows' \<or> (\<exists>v. (y, v) \<in> set rows' \<and> keeps y w v)" if "(y, w) \<in> set rows" for y w
  proof (cases "y = x")
    case True
    then have "y \<notin> set xs" using Cons.prems(1) by simp
    with s(4) [OF that] IH show ?thesis by blast
  next
    case False
    with s(3) that IH show ?thesis by blast
  qed
  then show ?case using IH s(2,3) by auto
qed simp

lemma no_errors:
  assumes "\<And>x rows'. set rows' \<subseteq> set rows \<Longrightarrow> \<exists>r. prune x rows' = Inr r" and "valid rows"
  shows "pl_errorCount (snd (foldl (compactOne prune) (rows, p) xs)) = pl_errorCount p"
  using assms
proof (induction xs arbitrary: rows p)
  case (Cons x xs)
  obtain rows1 r where step: "prune x rows = Inr (rows1, r)" using Cons.prems(1) [of rows x] by auto
  then have sub: "set rows1 \<subseteq> set rows" and "valid rows1" using prune_subset prune_valid Cons.prems(2) by blast+
  then show ?case using Cons.IH [of rows1] Cons.prems(1) step by (auto simp: compactOne_def dest: order_trans)
qed simp

end

interpretation pruned: row_pruning "\<lambda>x. pruneHistory isEqual published x s e rules skips wanted" keyed
  "\<lambda>x w v. \<exists>score. mergeable isEqual rules (prune_skips published x skips) score w v"
  for isEqual published s e rules skips wanted
proof unfold_locales
  fix x y rows rows' r w
  assume p: "pruneHistory isEqual published x s e rules skips wanted rows = Inr (rows', r)" and k: "keyed rows"
  note step = pruneHistory_rows [OF p k]
  show "keyed rows'" by (rule step(1))
  show "set rows' \<subseteq> set rows" by (rule step(2))
  show "y \<noteq> x \<Longrightarrow> (y, w) \<in> set rows \<Longrightarrow> (y, w) \<in> set rows'" by (rule step(3))
  show "(x, w) \<in> set rows' \<or> (\<exists>v. (x, v) \<in> set rows' \<and> (\<exists>score. mergeable isEqual rules (prune_skips published x skips) score w v))"
    if "(x, w) \<in> set rows" using step(5) [OF that] by blast
qed

lemma compactHistories_rows:
  assumes "keyed rows" and "fst (compactHistories isEqual published now d1 d2 rules skips wanted rows) = rows'" and "(x, w) \<in> set rows"
  shows "(x, w) \<in> set rows' \<or> (\<exists>v score. (x, v) \<in> set rows' \<and> mergeable isEqual rules (prune_skips published x skips) score w v)"
    and "set rows' \<subseteq> set rows"
proof -
  have ids: "distinct (getWorkflowIdsInRange rows (dateAt (of_int now - d1)) (dateAt (of_int now - d2)))"
    by (simp add: getWorkflowIdsInRange_def)
  note all = pruned.all [OF ids assms(1) assms(2) [unfolded compactHistories_def Let_def]]
  show "(x, w) \<in> set rows' \<or> (\<exists>v score. (x, v) \<in> set rows' \<and> mergeable isEqual rules (prune_skips published x skips) score w v)"
    using all assms(3) by blast
  show "set rows' \<subseteq> set rows" using all by blast
qed

section \<open>The two kinds of compaction\<close>

text \<open>C32. The optimisation keeps the nodes and the connections: for every version it deletes, a version by the
  same authors within twenty minutes stays that has all its connections, and for each of its nodes a node with the
  same id that is equal in what \<open>compareNodes\<close> looks at (the name, type, type version, webhook id, credentials and
  parameters), or equal in all of these but the parameters, which have the same shape with texts that contain the
  earlier ones. Whether a node is disabled, its position and its notes are not compared: a change of these between
  the two versions is lost. The deleted version was not named, described or published. The provisos: version ids
  are unique, the rows are different objects, and the nodes of the deleted version have distinct ids.\<close>

theorem optimizeHistories_keeps_content:
  assumes "keyed rows" and "inj_on v_ref (snd ` set rows)"
    and "(x, w) \<in> set rows" and "distinct (map dn_id (v_nodes w))"
    and "fst (optimizeHistories isEqual published config now rows) = rows'" and "(x, w) \<notin> set rows'"
  shows "\<exists>v. (x, v) \<in> set rows' \<and> (\<forall>n \<in> set (v_nodes w). node_kept isEqual n v) \<and>
    (\<forall>n t i c. conn_at (v_connections w) n t i c \<longrightarrow> conn_at (v_connections v) n t i c) \<and>
    \<bar>v_createdAt v - v_createdAt w\<bar> \<le> 20 * 60 * 1000 \<and> v_authors v = v_authors w \<and>
    v_name w = None \<and> v_description w = None \<and> v_versionId w \<notin> set (published x)"
proof -
  have run: "fst (compactHistories isEqual published now ((optimizingMinimumAgeHours config + optimizingTimeWindowHours config) * 3600000)
      (optimizingMinimumAgeHours config * 3600000) [mergeAdditiveChanges isEqual] [makeSkipTimeDifference (20 * 60 * 1000)] False rows) = rows'"
    using assms(5) by (simp add: optimizeHistories_def Let_def)
  from compactHistories_rows [OF assms(1) run assms(3)] assms(6) obtain v score where v: "(x, v) \<in> set rows'"
    and m: "mergeable isEqual [mergeAdditiveChanges isEqual] (prune_skips published x [makeSkipTimeDifference (20 * 60 * 1000)]) score w v"
    by blast
  have "(x, v) \<in> set rows" using v compactHistories_rows(2) [OF assms(1) run assms(3)] by blast
  then have same: "v_ref w = v_ref v \<Longrightarrow> w = v" using inj_onD [OF assms(2), of w v] assms(3) by (metis imageI snd_conv)
  have merge: "mergeAdditiveChanges isEqual w v (new_WorkflowChangeSet isEqual w v) score = Inr True"
    using m by (auto simp: mergeable_def Let_def rbind_eq_Inr split: if_splits)
  have "makeSkipTimeDifference (20 * 60 * 1000) w v (new_WorkflowChangeSet isEqual w v) score = Inr False"
    using mergeable_skips [OF m] by simp
  then have "\<bar>v_createdAt v - v_createdAt w\<bar> \<le> 20 * 60 * 1000" by (simp add: makeSkipTimeDifference_def)
  with v mergeAdditiveChanges_keeps [OF merge assms(4) same]
    mergeable_pruned [of isEqual "[mergeAdditiveChanges isEqual]" published x "[makeSkipTimeDifference (20 * 60 * 1000)]" score w v, OF m]
  show ?thesis by metis
qed

lemma prune_skips_quiet: "quiet isEqual ws skips \<Longrightarrow> quiet isEqual ws (prune_skips published x skips)"
  by (simp add: quiet_def makeSkipActiveAndNamedVersionsRule_def skipDifferentUsers_def)

lemma pruneHistory_total:
  assumes "quiet isEqual (versions_in_range rows x s e) rules" and "quiet isEqual (versions_in_range rows x s e) skips"
  shows "\<exists>r. pruneHistory isEqual published x s e rules skips wanted rows = Inr r"
proof -
  obtain removed remaining where
    "groupWorkflows isEqual (versions_in_range rows x s e) rules (prune_skips published x skips) wanted = Inr (removed, remaining)"
    using groupWorkflows_quiet [OF assms(1) prune_skips_quiet [OF assms(2)]] by (metis surj_pair)
  then show ?thesis by (simp add: pruneHistory_def Let_def)
qed

text \<open>Neither kind of compaction meets an error, so that \<open>history-compacted\<close> reports none.\<close>

theorem compaction_without_errors:
  assumes "keyed rows" and "inj_on v_ref (snd ` set rows)"
  shows "pl_errorCount (snd (optimizeHistories isEqual published config now rows)) = 0 \<and>
    pl_errorCount (snd (trimLongRunningHistories isEqual published config now rows)) = 0"
proof -
  have sub: "set (versions_in_range rows' x s e) \<subseteq> snd ` set rows" if "set rows' \<subseteq> set rows" for rows' x s e
    using that in_range_rows by force
  have "quiet isEqual (versions_in_range rows' x s e) [mergeAdditiveChanges isEqual]" if "set rows' \<subseteq> set rows" for rows' x s e
    by (rule additive_quiet, rule inj_on_subset [OF assms(2) sub [OF that]])
  then have "\<exists>r. pruneHistory isEqual published x s e [mergeAdditiveChanges isEqual] [makeSkipTimeDifference (20 * 60 * 1000)] False rows' = Inr r"
    if "set rows' \<subseteq> set rows" for rows' x s e
    using that by (intro pruneHistory_total) (simp_all add: rules_quiet)
  moreover have "\<exists>r. pruneHistory isEqual published x s e [makeMergeDependingOnSizeRule trimMapping] [] True rows' = Inr r" for rows' x s e
    by (intro pruneHistory_total) (simp_all add: rules_quiet)
  ultimately show ?thesis
    by (simp add: optimizeHistories_def trimLongRunningHistories_def compactHistories_def Let_def pruned.no_errors [OF _ assms(1)])
qed

text \<open>Whatever the rules, pruning a workflow keeps the newest version of the window, every version that is
  named, described or published, and every version that one by other authors follows.\<close>

theorem pruneHistory_protects:
  assumes "pruneHistory isEqual published x s e rules skips wanted rows = Inr (rows', r)" and "keyed rows"
    and "ws = versions_in_range rows x s e" and "i < length ws"
    and "v_name (ws ! i) \<noteq> None \<or> v_description (ws ! i) \<noteq> None \<or> v_versionId (ws ! i) \<in> set (published x) \<or>
      Suc i = length ws \<or> v_authors (ws ! Suc i) \<noteq> v_authors (ws ! i)"
  shows "(x, ws ! i) \<in> set rows'"
proof -
  define m where "m = mergeable isEqual rules (prune_skips published x skips) (sizeScore ws wanted)"
  have m: "v_name a = None \<and> v_description a = None \<and> v_versionId a \<notin> set (published x) \<and> v_authors a = v_authors b" if "m a b" for a b
    using mergeable_pruned [of isEqual rules published x skips _ a b] that unfolding m_def by blast
  have "ws ! i \<in> set (keep_versions m ws)"
  proof (cases "Suc i = length ws \<or> v_authors (ws ! Suc i) = v_authors (ws ! i)")
    case False
    then have "ws = take i ws @ ws ! i # ws ! Suc i # drop (Suc (Suc i)) ws"
      using assms(4) by (metis Cons_nth_drop_Suc Suc_lessI append_take_drop_id)
    moreover have "v_authors (ws ! i) \<noteq> v_authors (ws ! Suc i)" using False by metis
    ultimately show ?thesis using keep_versions_followed [of m v_authors] m by metis
  next
    case True
    show ?thesis
    proof (cases "Suc i = length ws")
      case last: True
      then have "ws ! i = last ws" using assms(4) by (metis diff_Suc_1 last_conv_nth length_0_conv less_zeroE)
      then show ?thesis using keep_versions_last [of ws m] assms(4) keep_versions_nonempty [of m ws] by (metis last_in_set length_0_conv less_zeroE)
    next
      case False
      with True assms(5) m have "\<not> m (ws ! i) b" for b by metis
      then show ?thesis using keep_versions_merged [of "ws ! i" ws m] assms(4) by auto
    qed
  qed
  then show ?thesis using pruneHistory_rows(4) [OF assms(1,2)] unfolding m_def assms(3) by blast
qed

text \<open>The time that trimming leaves between versions, by the size of the workflow.\<close>

definition trimGap :: "int \<Rightarrow> int" where
  "trimGap score = (if score > 10000 then 14400000 else if score > 5000 then 3600000 else if score > 1000 then 1800000
     else if score > 100 then 300000 else if score > 0 then 60000 else 0)"

lemma trim_rule:
  "makeMergeDependingOnSizeRule trimMapping prev nextw d (Some score) = Inr (\<bar>v_createdAt nextw - v_createdAt prev\<bar> < trimGap score)"
proof -
  have "sort_key (\<lambda>p. - fst p) trimMapping = rev trimMapping" by (simp add: trimMapping_def insort_key_left_comm)
  then show ?thesis by (simp add: makeMergeDependingOnSizeRule_def trimMapping_def trimGap_def makeMergeShortTimeSpan_def)
qed

text \<open>After trimming, two versions that follow each other are at least this time apart, unless the earlier one is
  protected or the later one is by other authors.\<close>

theorem trimming_leaves_gaps:
  assumes "pruneHistory isEqual published x s e [makeMergeDependingOnSizeRule trimMapping] [] True rows = Inr (rows', r)" and "keyed rows"
    and "ws = versions_in_range rows' x s e" and "Suc i < length ws"
    and "v_name (ws ! i) = None" and "v_description (ws ! i) = None" and "v_versionId (ws ! i) \<notin> set (published x)"
    and "v_authors (ws ! Suc i) = v_authors (ws ! i)"
  shows "trimGap (the (sizeScore (versions_in_range rows x s e) True)) \<le> v_createdAt (ws ! Suc i) - v_createdAt (ws ! i)"
proof -
  let ?score = "sizeScore (versions_in_range rows x s e) True"
  let ?m = "mergeable isEqual [makeMergeDependingOnSizeRule trimMapping] (prune_skips published x []) ?score"
  have ws: "ws = keep_versions ?m (versions_in_range rows x s e)" unfolding assms(3) by (rule pruneHistory_rows(6) [OF assms(1,2)])
  have "\<not> ?m (ws ! i) (ws ! Suc i)" using keep_versions_apart [of i ?m] assms(4) unfolding ws by blast
  moreover obtain score where score: "?score = Some score" by (simp add: sizeScore_def)
  ultimately have "trimGap score \<le> \<bar>v_createdAt (ws ! Suc i) - v_createdAt (ws ! i)\<bar>"
    using assms(5-8)
    by (auto simp: mergeable_def Let_def trim_rule makeSkipActiveAndNamedVersionsRule_def skipDifferentUsers_def split: if_splits)
  moreover have "sorted (map v_createdAt ws)" unfolding assms(3) by (simp add: versions_in_range_def)
  then have "v_createdAt (ws ! i) \<le> v_createdAt (ws ! Suc i)" using assms(4) sorted_nth_mono [of "map v_createdAt ws" i "Suc i"] by simp
  ultimately show ?thesis using score by simp
qed

section \<open>Examples\<close>

definition example_version :: "nat \<Rightarrow> string \<Rightarrow> int \<Rightarrow> string \<Rightarrow> WorkflowVersion" where
  "example_version ref versionId createdAt text = \<lparr>v_ref = ref, v_versionId = versionId, v_name = None, v_description = None,
     v_authors = Some ''Ada'', v_createdAt = createdAt,
     v_nodes = [\<lparr>dn_id = ''1'', dn_props = [(''name'', JStr ''Set'')], dn_parameters = JObj [(''a'', JStr text)]\<rparr>], v_connections = []\<rparr>"

definition example_rows :: HistoryRows where
  "example_rows = [(''w'', example_version 1 ''v1'' 0 ''the quick''), (''w'', example_version 2 ''v2'' 30000 ''the quick brown fox''),
     (''w'', example_version 3 ''v3'' 400000 ''the slow'')]"

definition example_config :: CompactionConfig where
  "example_config = \<lparr>optimizingMinimumAgeHours = 1 / 4, optimizingTimeWindowHours = 24, trimmingMinimumAgeDays = 0, trimmingTimeWindowDays = 1\<rparr>"

lemma example_rows_ok: "keyed example_rows" "inj_on v_ref (snd ` set example_rows)"
  by (simp_all add: keyed_def example_rows_def example_version_def)

theorem optimizeHistories_keeps_content_witness:
  "\<exists>v. (''w'', v) \<in> set (fst (optimizeHistories (=) (\<lambda>_. []) example_config 3600000 example_rows)) \<and>
    v_authors v = Some ''Ada'' \<and> (\<forall>n \<in> set (v_nodes (example_version 1 ''v1'' 0 ''the quick'')). node_kept (=) n v)"
proof -
  have row: "(''w'', example_version 1 ''v1'' 0 ''the quick'') \<in> set example_rows" by (simp add: example_rows_def)
  have ids: "distinct (map dn_id (v_nodes (example_version 1 ''v1'' 0 ''the quick'')))" by (simp add: example_version_def)
  have gone: "(''w'', example_version 1 ''v1'' 0 ''the quick'') \<notin> set (fst (optimizeHistories (=) (\<lambda>_. []) example_config 3600000 example_rows))"
    by code_simp
  show ?thesis
    using optimizeHistories_keeps_content [OF example_rows_ok row ids refl gone] by (auto simp: example_version_def)
qed

theorem compaction_without_errors_witness:
  "pl_errorCount (snd (trimLongRunningHistories (=) (\<lambda>_. []) example_config 3600000 example_rows)) = 0"
  using compaction_without_errors [OF example_rows_ok] by blast

definition example_trimmed :: HistoryRows where
  "example_trimmed = [(''w'', example_version 2 ''v2'' 30000 ''the quick brown fox''), (''w'', example_version 3 ''v3'' 400000 ''the slow'')]"

lemma example_pruned:
  "\<exists>r. pruneHistory (=) (\<lambda>_. []) ''w'' 0 3600000 [makeMergeDependingOnSizeRule trimMapping] [] True example_rows = Inr (example_trimmed, r)"
proof -
  have "(case pruneHistory (=) (\<lambda>_. []) ''w'' 0 3600000 [makeMergeDependingOnSizeRule trimMapping] [] True example_rows of
      Inl e \<Rightarrow> False | Inr (rows', r) \<Rightarrow> rows' = example_trimmed)"
    by code_simp
  then show ?thesis by (auto split: sum.splits)
qed

theorem pruneHistory_protects_witness: "(''w'', versions_in_range example_rows ''w'' 0 3600000 ! 2) \<in> set example_trimmed"
proof -
  obtain r where p: "pruneHistory (=) (\<lambda>_. []) ''w'' 0 3600000 [makeMergeDependingOnSizeRule trimMapping] [] True example_rows = Inr (example_trimmed, r)"
    using example_pruned by blast
  have "length (versions_in_range example_rows ''w'' 0 3600000) = 3" by code_simp
  then show ?thesis using pruneHistory_protects [OF p example_rows_ok(1) refl, of 2] by simp
qed

theorem trimming_leaves_gaps_witness: "trimGap 20 \<le> 400000 - 30000"
proof -
  obtain r where p: "pruneHistory (=) (\<lambda>_. []) ''w'' 0 3600000 [makeMergeDependingOnSizeRule trimMapping] [] True example_rows = Inr (example_trimmed, r)"
    using example_pruned by blast
  have ws: "versions_in_range example_trimmed ''w'' 0 3600000 =
      [example_version 2 ''v2'' 30000 ''the quick brown fox'', example_version 3 ''v3'' 400000 ''the slow'']" by code_simp
  have score: "sizeScore (versions_in_range example_rows ''w'' 0 3600000) True = Some 20" by code_simp
  show ?thesis using trimming_leaves_gaps [OF p example_rows_ok(1) refl, of 0] by (simp add: ws score example_version_def trimGap_def)
qed

end
