(* ===== verification/WorkflowRename.thy ===== *)
theory WorkflowRename
  imports StartNode
begin

text \<open>
  Renaming a node in a workflow: \<open>renameNode\<close> and \<open>renameNodeInParameterValue\<close> of
  \<open>workflow.ts\<close> and \<open>renameFormFields\<close> of \<open>node-parameters/rename-node-utils.ts\<close>. The rewriting
  of expressions in a string (\<open>applyAccessPatterns\<close>, a table of regular expressions in
  \<open>node-reference-parser-utils.ts\<close>) is the parameter \<open>applyAccessPatterns\<close>.
\<close>

section \<open>Parameters\<close>

text \<open>
  \<open>typeof null\<close> is \<open>object\<close>, so a \<open>null\<close> value takes the last branch and comes back as
  an empty object; the flag is not handed to the elements of an array.
\<close>

fun renameNodeInParameterValue :: "(string \<Rightarrow> string) \<Rightarrow> bool \<Rightarrow> json \<Rightarrow> json" where
  "renameNodeInParameterValue rewrite hasRenamableContent (JStr s) =
     (if take 1 s = ''='' \<or> hasRenamableContent then JStr (rewrite s) else JStr s)"
| "renameNodeInParameterValue rewrite hasRenamableContent (JArr vs) =
     JArr (map (renameNodeInParameterValue rewrite False) vs)"
| "renameNodeInParameterValue rewrite hasRenamableContent (JObj kvs) =
     JObj (map (\<lambda>(k, v). (k, renameNodeInParameterValue rewrite hasRenamableContent v)) kvs)"
| "renameNodeInParameterValue rewrite hasRenamableContent JNull = JObj []"
| "renameNodeInParameterValue rewrite hasRenamableContent (JBool b) = JBool b"
| "renameNodeInParameterValue rewrite hasRenamableContent (JNum i) = JNum i"

text \<open>\<open>parameters[key] = f(parameters[key])\<close>; a missing key stays missing.\<close>

definition on_key :: "string \<Rightarrow> (json \<Rightarrow> json) \<Rightarrow> (string, json) jsmap \<Rightarrow> (string, json) jsmap" where
  "on_key k f ps = (case map_of ps k of None \<Rightarrow> ps | Some v \<Rightarrow> AList.update k (f v) ps)"

fun renameFormField :: "(json \<Rightarrow> json) \<Rightarrow> json \<Rightarrow> json" where
  "renameFormField renameField (JObj kvs) =
     (if map_of kvs ''fieldType'' = Some (JStr ''html'') then JObj (on_key ''html'' renameField kvs)
      else JObj kvs)"
| "renameFormField renameField v = v"

definition renameFormFields :: "(json \<Rightarrow> json) \<Rightarrow> (string, json) jsmap \<Rightarrow> (string, json) jsmap" where
  "renameFormFields renameField parameters =
     on_key ''formFields'' (\<lambda>formFields. case formFields of
         JObj kvs \<Rightarrow> JObj (on_key ''values'' (\<lambda>vs. case vs of
             JArr xs \<Rightarrow> JArr (map (renameFormField renameField) xs)
           | v \<Rightarrow> v) kvs)
       | v \<Rightarrow> v) parameters"

definition NODES_WITH_RENAMABLE_CONTENT :: "string list" where
  "NODES_WITH_RENAMABLE_CONTENT = [''n8n-nodes-base.code'', ''n8n-nodes-base.function'',
     ''n8n-nodes-base.functionItem'', ''n8n-nodes-base.aiTransform'']"

definition NODES_WITH_RENAMABLE_FORM_HTML_CONTENT :: "string list" where
  "NODES_WITH_RENAMABLE_FORM_HTML_CONTENT = [''n8n-nodes-base.form'']"

definition NODES_WITH_RENAMEABLE_TOPLEVEL_HTML_CONTENT :: "string list" where
  "NODES_WITH_RENAMEABLE_TOPLEVEL_HTML_CONTENT = [''n8n-nodes-base.mailgun'', ''n8n-nodes-base.html'']"

text \<open>The body of the loop over the nodes in \<open>renameNode\<close>.\<close>

definition renameInNode :: "(string \<Rightarrow> string) \<Rightarrow> INode \<Rightarrow> INode" where
  "renameInNode rewrite node =
     (let ps = (case renameNodeInParameterValue rewrite False (JObj (n_parameters node)) of
                  JObj kvs \<Rightarrow> kvs | _ \<Rightarrow> []);
          ps = (if n_type node \<in> set NODES_WITH_RENAMABLE_CONTENT
                then on_key ''jsCode'' (renameNodeInParameterValue rewrite True) ps else ps);
          ps = (if n_type node \<in> set NODES_WITH_RENAMEABLE_TOPLEVEL_HTML_CONTENT
                then on_key ''html'' (renameNodeInParameterValue rewrite True) ps else ps);
          ps = (if n_type node \<in> set NODES_WITH_RENAMABLE_FORM_HTML_CONTENT
                then renameFormFields (renameNodeInParameterValue rewrite True) ps else ps)
      in node\<lparr>n_parameters := ps\<rparr>)"

lemma renameInNode_name [simp]: "n_name (renameInNode rewrite n) = n_name n"
  by (simp add: renameInNode_def Let_def)

section \<open>renameNode\<close>

definition restrictedKeys :: "string list" where
  "restrictedKeys = [''hasOwnProperty'', ''isPrototypeOf'', ''propertyIsEnumerable'',
     ''toLocaleString'', ''toString'', ''valueOf'', ''constructor'', ''prototype'', ''__proto__'',
     ''__defineGetter__'', ''__defineSetter__'', ''__lookupGetter__'', ''__lookupSetter__'']"

definition char_lower :: "char \<Rightarrow> char" where
  "char_lower c = (if 65 \<le> (of_char c :: nat) \<and> of_char c \<le> (90 :: nat) then char_of (of_char c + (32 :: nat)) else c)"

definition toLowerCase :: "string \<Rightarrow> string" where
  "toLowerCase = map char_lower"

definition renameDestinations :: "string \<Rightarrow> string \<Rightarrow> IConnections \<Rightarrow> IConnections" where
  "renameDestinations currentName newName conns =
     map (\<lambda>(n, ncs). (n, map (\<lambda>(t, gs). (t, map (map_option (map
       (\<lambda>c. if c_node c = currentName then c\<lparr>c_node := newName\<rparr> else c))) gs)) ncs)) conns"

text \<open>\<open>m[newName] = m[currentName]; delete m[currentName]\<close>\<close>

definition move_key :: "string \<Rightarrow> string \<Rightarrow> ('v \<Rightarrow> 'v) \<Rightarrow> (string, 'v) jsmap \<Rightarrow> (string, 'v) jsmap" where
  "move_key currentName newName f m =
     (case map_of m currentName of
        None \<Rightarrow> m
      | Some v \<Rightarrow> AList.delete currentName (AList.update newName (f v) m))"

definition renameNode ::
  "(string \<Rightarrow> string \<Rightarrow> string \<Rightarrow> string) \<Rightarrow> string \<Rightarrow> string \<Rightarrow> Workflow \<Rightarrow> Workflow res" where
  "renameNode applyAccessPatterns currentName newName w =
     (if toLowerCase newName \<in> set (map toLowerCase restrictedKeys)
      then Inl (UserError (''Node name \"'' @ newName @ ''\" is a restricted name.''))
      else Inr (w\<lparr>
        w_nodes := map (\<lambda>(k, n). (k, renameInNode (\<lambda>s. applyAccessPatterns s currentName newName) n))
          (move_key currentName newName (\<lambda>n. n\<lparr>n_name := newName\<rparr>) (w_nodes w)),
        connectionsBySourceNode := renameDestinations currentName newName
          (move_key currentName newName (\<lambda>c. c) (connectionsBySourceNode w))\<rparr>))"

definition relabel :: "string \<Rightarrow> string \<Rightarrow> string \<Rightarrow> string" where
  "relabel currentName newName x = (if x = currentName then newName else x)"

lemma map_of_move_key:
  "map_of (move_key cur new f m) k =
     (if map_of m cur = None then map_of m k
      else if k = cur then None else if k = new then map_option f (map_of m cur) else map_of m k)"
  by (auto simp: move_key_def jsmap_simps split: option.split)

lemma map_of_map_values: "map_of (map (\<lambda>(k, v). (k, g v)) m) k = map_option g (map_of m k)"
  by (induction m) auto

lemma groups_of_renameDestinations:
  "groups_of (renameDestinations cur new conns) n t =
     map (map_option (map (\<lambda>c. c\<lparr>c_node := relabel cur new (c_node c)\<rparr>))) (groups_of conns n t)"
proof -
  have "(if c_node c = cur then c\<lparr>c_node := new\<rparr> else c) = c\<lparr>c_node := relabel cur new (c_node c)\<rparr>"
    for c :: IConnection
    by (simp add: relabel_def)
  then show ?thesis
    by (simp add: groups_of_def renameDestinations_def map_of_map_values split: option.split)
qed

lemma groups_of_move_key:
  "map_of conns new = None \<Longrightarrow>
     groups_of (move_key cur new (\<lambda>c. c) conns) n t =
       (if map_of conns cur = None then groups_of conns n t
        else if n = cur then [] else if n = new then groups_of conns cur t else groups_of conns n t)"
  by (auto simp: groups_of_def map_of_move_key split: option.split)

lemma conn_at_renameDestinations:
  "conn_at (renameDestinations cur new conns) n t i c \<longleftrightarrow>
     (\<exists>c0. conn_at conns n t i c0 \<and> c = c0\<lparr>c_node := relabel cur new (c_node c0)\<rparr>)" (is "?L \<longleftrightarrow> ?R")
proof
  assume ?L
  then obtain g where "i < length (groups_of conns n t)" and "groups_of conns n t ! i = Some g"
      and "c \<in> (\<lambda>c. c\<lparr>c_node := relabel cur new (c_node c)\<rparr>) ` set g"
    by (auto simp: conn_at_def groups_of_renameDestinations)
  then show ?R by (auto simp: conn_at_def)
next
  assume ?R
  then show ?L by (auto simp: conn_at_def groups_of_renameDestinations)
qed

lemma conn_at_groups: "conn_at conns n t i c \<Longrightarrow> groups_of conns n t \<noteq> []"
  by (auto simp: conn_at_def)

lemma conn_at_move_key:
  assumes "map_of conns new = None"
  shows "conn_at (move_key cur new (\<lambda>c. c) conns) n t i c \<longleftrightarrow>
    (\<exists>n0. conn_at conns n0 t i c \<and> n = relabel cur new n0)"
proof -
  have "groups_of conns new t = []" using assms by (simp add: groups_of_def)
  then have new: "\<not> conn_at conns new t i c" by (simp add: conn_at_def)
  have cur: "map_of conns cur = None \<Longrightarrow> \<not> conn_at conns cur t i c"
    by (simp add: conn_at_def groups_of_def)
  have "conn_at (move_key cur new (\<lambda>c. c) conns) n t i c \<longleftrightarrow>
      (if map_of conns cur = None then conn_at conns n t i c
       else if n = cur then False else if n = new then conn_at conns cur t i c else conn_at conns n t i c)"
    by (simp add: conn_at_def groups_of_move_key [OF assms])
  also have "\<dots> \<longleftrightarrow> (\<exists>n0. conn_at conns n0 t i c \<and> n = relabel cur new n0)"
    using new cur unfolding relabel_def by metis
  finally show ?thesis .
qed

text \<open>C38. Renaming relabels the graph: after \<open>renameNode\<close> to a fresh name, the connections in source
  order are exactly the old ones with the old name replaced at both ends.\<close>

theorem renameNode_relabels:
  assumes "renameNode ap cur new w = Inr w'" and "map_of (connectionsBySourceNode w) new = None"
  shows "conn_at (connectionsBySourceNode w') n t i c \<longleftrightarrow>
    (\<exists>n0 c0. conn_at (connectionsBySourceNode w) n0 t i c0 \<and> n = relabel cur new n0 \<and>
       c = c0\<lparr>c_node := relabel cur new (c_node c0)\<rparr>)"
proof -
  let ?C = "connectionsBySourceNode w" and ?r = "\<lambda>c. c\<lparr>c_node := relabel cur new (c_node c)\<rparr>"
  have w': "connectionsBySourceNode w' = renameDestinations cur new (move_key cur new (\<lambda>c. c) ?C)"
    using assms(1) by (auto simp: renameNode_def split: if_splits)
  have dest: "conn_at (renameDestinations cur new D) n t i c \<longleftrightarrow> (\<exists>c0. conn_at D n t i c0 \<and> c = ?r c0)" for D
    by (rule conn_at_renameDestinations)
  have src: "conn_at (move_key cur new (\<lambda>c. c) ?C) n t i c0 \<longleftrightarrow>
      (\<exists>n0. conn_at ?C n0 t i c0 \<and> n = relabel cur new n0)" for c0
    by (rule conn_at_move_key [OF assms(2)])
  show ?thesis by (simp add: w' dest src) blast
qed

lemma renameNode_relabels_witness:
  "\<exists>w'. renameNode (\<lambda>s _ _. s) ''A'' ''C'' (start_example\<lparr>connectionsBySourceNode := conns_example\<rparr>) = Inr w' \<and>
     (conn_at (connectionsBySourceNode w') ''C'' Main 0 \<lparr>c_node = ''M'', c_type = Main, c_index = 1\<rparr> \<longleftrightarrow>
       (\<exists>n0 c0. conn_at conns_example n0 Main 0 c0 \<and> ''C'' = relabel ''A'' ''C'' n0 \<and>
          \<lparr>c_node = ''M'', c_type = Main, c_index = 1\<rparr> = c0\<lparr>c_node := relabel ''A'' ''C'' (c_node c0)\<rparr>))"
proof -
  let ?w = "start_example\<lparr>connectionsBySourceNode := conns_example\<rparr>"
  obtain w' where w': "renameNode (\<lambda>s _ _. s) ''A'' ''C'' ?w = Inr w'"
    by (auto simp: renameNode_def toLowerCase_def char_lower_def restrictedKeys_def)
  have fresh: "map_of (connectionsBySourceNode ?w) ''C'' = None" by (simp add: conns_example_def)
  show ?thesis using w' renameNode_relabels [OF w' fresh] by auto
qed

text \<open>Renaming a node to the name it has removes it: the object is stored under the new key and
  then deleted under the old one, which is the same, and so are its outgoing connections.\<close>

theorem renameNode_same_name_deletes:
  assumes "renameNode ap name name w = Inr w'"
  shows "map_of (w_nodes w') name = None \<and> groups_of (connectionsBySourceNode w') name t = []"
proof -
  have nodes: "w_nodes w' = map (\<lambda>(k, n). (k, renameInNode (\<lambda>s. ap s name name) n))
      (move_key name name (\<lambda>n. n\<lparr>n_name := name\<rparr>) (w_nodes w))"
    and conns: "connectionsBySourceNode w' =
      renameDestinations name name (move_key name name (\<lambda>c. c) (connectionsBySourceNode w))"
    using assms by (auto simp: renameNode_def split: if_splits)
  have "map_of (move_key name name f m) name = None" for f and m :: "(string, 'v) jsmap"
    by (simp add: map_of_move_key)
  then show ?thesis
    by (simp add: nodes conns map_of_map_values groups_of_renameDestinations)
      (simp add: groups_of_def map_of_move_key)
qed

lemma renameNode_same_name_deletes_witness:
  "\<exists>w'. renameNode (\<lambda>s _ _. s) ''S'' ''S'' start_example = Inr w' \<and>
     map_of (w_nodes start_example) ''S'' \<noteq> None \<and> map_of (w_nodes w') ''S'' = None"
proof -
  obtain w' where w': "renameNode (\<lambda>s _ _. s) ''S'' ''S'' start_example = Inr w'"
    by (auto simp: renameNode_def toLowerCase_def char_lower_def restrictedKeys_def)
  have "map_of (w_nodes start_example) ''S'' \<noteq> None"
    by (simp add: start_example_def new_Workflow_def setSettings_def setPinData_def
        setConnections_def setNodes_def)
  with w' show ?thesis using renameNode_same_name_deletes [OF w'] by blast
qed

text \<open>Renaming leaves the connections in destination order as they were, so lookups of parents
  still go by the old name until \<open>setConnections\<close> runs again.\<close>

lemma renameNode_keeps_by_destination:
  "renameNode ap cur new w = Inr w' \<Longrightarrow> connectionsByDestinationNode w' = connectionsByDestinationNode w"
  by (auto simp: renameNode_def split: if_splits)

text \<open>Nodes stay filed under their names.\<close>

lemma renameNode_nodes_ok:
  assumes "renameNode ap cur new w = Inr w'" and "nodes_ok (w_nodes w)"
  shows "nodes_ok (w_nodes w')"
proof -
  have "nodes_ok (move_key cur new (\<lambda>n. n\<lparr>n_name := new\<rparr>) (w_nodes w))"
    using assms(2) nodes_ok_update [of "w_nodes w" "_\<lparr>n_name := new\<rparr>"]
    by (auto simp: move_key_def nodes_ok_def set_delete distinct_delete split: option.split)
  then show ?thesis
    using assms(1) unfolding renameNode_def nodes_ok_def
    by (fastforce simp: comp_def case_prod_unfold split: if_splits)
qed

end
