(* ===== verification/WorkflowSearch.thy ===== *)
theory WorkflowSearch
  imports WorkflowRename
begin

text \<open>
  The breadth-first search of \<open>workflow.ts\<close> (\<open>searchNodesBFS\<close>, \<open>getParentNodesByDepth\<close>), the
  connections between two sets of nodes (\<open>getConnectionsBetweenNodes\<close>) and the walk from a
  sub-node to the node it serves (\<open>getParentMainInputNode\<close>).
\<close>

section \<open>searchNodesBFS\<close>

record IConnectedNode =
  cn_name :: string
  cn_indicies :: "nat list"
  cn_depth :: nat

definition dedupe :: "'a list \<Rightarrow> 'a list" where
  "dedupe arr = to_set arr"

text \<open>The object of a node is shared between \<open>visited\<close> and the result, so the result holds the
  names and is read off \<open>visited\<close> at the end. One turn of \<open>toAdd.forEach\<close>:\<close>

type_synonym bfs_state = "(string, IConnectedNode) jsmap \<times> string list \<times> IConnectedNode list"

definition visitConnected :: "IConnections \<Rightarrow> string \<Rightarrow> nat \<Rightarrow> bfs_state \<Rightarrow> IConnectedNode \<Rightarrow> bfs_state" where
  "visitConnected connections sourceNode depth = (\<lambda>(vis, returnConns, queue) curr.
     case map_of vis (cn_name curr) of
       Some seen \<Rightarrow>
         (AList.update (cn_name curr)
            (seen\<lparr>cn_indicies := dedupe (cn_indicies seen @ cn_indicies curr)\<rparr>) vis,
          returnConns, queue)
     | None \<Rightarrow>
         (AList.update (cn_name curr) curr vis,
          if cn_name curr \<noteq> sourceNode then returnConns @ [cn_name curr] else returnConns,
          queue @ map (\<lambda>c. \<lparr>cn_name = c_node c, cn_indicies = [c_index c], cn_depth = depth\<rparr>)
            (flat_groups (groups_of connections (cn_name curr) Main))))"

text \<open>What a level does: the depths it records, the names it returns, the names it queues.\<close>

definition depth_of :: "(string, IConnectedNode) jsmap \<Rightarrow> string \<Rightarrow> nat option" where
  "depth_of vis m = map_option cn_depth (map_of vis m)"

abbreviation main_edges :: "IConnections \<Rightarrow> (string \<times> string) set" where
  "main_edges conns \<equiv> edges conns (OfType Main)"

lemma main_edges_image:
  "c_node ` set (flat_groups (groups_of conns n Main)) = main_edges conns `` {n}"
  using edges_OfType [of conns Main n] by force

lemma level_depths:
  assumes "\<forall>c \<in> set q. cn_depth c = d"
    and "foldl (visitConnected conns s e) (vis, ret, acc) q = (vis', ret', acc')"
  shows "depth_of vis' m =
      (if depth_of vis m = None \<and> m \<in> cn_name ` set q then Some d else depth_of vis m)"
  using assms
proof (induction q arbitrary: vis ret acc)
  case (Cons c q)
  obtain v r a where step: "visitConnected conns s e (vis, ret, acc) c = (v, r, a)"
    by (cases "visitConnected conns s e (vis, ret, acc) c")
  then have "depth_of v m = (if m = cn_name c \<and> depth_of vis m = None then Some d else depth_of vis m)"
    using Cons.prems(1) by (auto simp: visitConnected_def depth_of_def jsmap_simps split: option.splits)
  with Cons.IH [of v r a] Cons.prems step show ?case by auto
qed simp

lemma step_names:
  assumes "visitConnected conns s e (vis, ret, acc) c = (v, r, a)"
  shows "dom (depth_of v) = insert (cn_name c) (dom (depth_of vis))"
    and "r = (if depth_of vis (cn_name c) = None \<and> cn_name c \<noteq> s then ret @ [cn_name c] else ret)"
    and "cn_name ` set a = cn_name ` set acc \<union>
      (if depth_of vis (cn_name c) = None then main_edges conns `` {cn_name c} else {})"
    and "\<forall>x \<in> set acc. cn_depth x = e \<Longrightarrow> \<forall>x \<in> set a. cn_depth x = e"
proof -
  have a: "a = (if depth_of vis (cn_name c) = None
      then acc @ map (\<lambda>x. \<lparr>cn_name = c_node x, cn_indicies = [c_index x], cn_depth = e\<rparr>)
        (flat_groups (groups_of conns (cn_name c) Main)) else acc)"
    using assms by (auto simp: visitConnected_def depth_of_def split: option.splits)
  show "dom (depth_of v) = insert (cn_name c) (dom (depth_of vis))"
    using assms by (auto simp: visitConnected_def depth_of_def jsmap_simps split: option.splits if_splits)
  show "r = (if depth_of vis (cn_name c) = None \<and> cn_name c \<noteq> s then ret @ [cn_name c] else ret)"
    using assms by (auto simp: visitConnected_def depth_of_def split: option.splits if_splits)
  show "cn_name ` set a = cn_name ` set acc \<union>
      (if depth_of vis (cn_name c) = None then main_edges conns `` {cn_name c} else {})"
    by (simp add: a image_Un image_image flip: main_edges_image)
  show "\<forall>x \<in> set a. cn_depth x = e" if "\<forall>x \<in> set acc. cn_depth x = e"
    using that by (auto simp: a)
qed

lemma level_dom:
  assumes "foldl (visitConnected conns s e) (vis, ret, acc) q = (vis', ret', acc')"
  shows "dom (depth_of vis') = dom (depth_of vis) \<union> cn_name ` set q"
  using assms
proof (induction q arbitrary: vis ret acc)
  case (Cons c q)
  obtain v r a where step: "visitConnected conns s e (vis, ret, acc) c = (v, r, a)"
    by (cases "visitConnected conns s e (vis, ret, acc) c")
  with Cons.IH [of v r a] Cons.prems step_names(1) [OF step] show ?case by simp
qed simp

lemma level_returned:
  assumes "foldl (visitConnected conns s e) (vis, ret, acc) q = (vis', ret', acc')"
    and "distinct ret" and "set ret = dom (depth_of vis) - {s}"
  shows "distinct ret' \<and> set ret' = dom (depth_of vis') - {s}"
  using assms
proof (induction q arbitrary: vis ret acc)
  case (Cons c q)
  obtain v r a where step: "visitConnected conns s e (vis, ret, acc) c = (v, r, a)"
    by (cases "visitConnected conns s e (vis, ret, acc) c")
  note one = step_names(1,2) [OF step]
  have "distinct r \<and> set r = dom (depth_of v) - {s}"
    using Cons.prems(2,3) unfolding one by auto
  with Cons.IH [of v r a] Cons.prems(1) step show ?case by simp
qed simp

definition names_kept :: "(string, IConnectedNode) jsmap \<Rightarrow> bool" where
  "names_kept vis \<longleftrightarrow> (\<forall>m v. map_of vis m = Some v \<longrightarrow> cn_name v = m)"

lemma level_names_kept:
  assumes "foldl (visitConnected conns s e) (vis, ret, acc) q = (vis', ret', acc')" and "names_kept vis"
  shows "names_kept vis'"
  using assms
proof (induction q arbitrary: vis ret acc)
  case (Cons c q)
  obtain v r a where step: "visitConnected conns s e (vis, ret, acc) c = (v, r, a)"
    by (cases "visitConnected conns s e (vis, ret, acc) c")
  then have "names_kept v"
    using Cons.prems(2)
    by (auto simp: visitConnected_def names_kept_def jsmap_simps split: option.splits if_splits)
  with Cons.IH [of v r a] Cons.prems(1) step show ?case by simp
qed simp

lemma level_queue:
  assumes "foldl (visitConnected conns s e) (vis, ret, acc) q = (vis', ret', acc')"
  shows "cn_name ` set acc' = cn_name ` set acc \<union>
      main_edges conns `` (cn_name ` set q - dom (depth_of vis))"
    and "(\<forall>x \<in> set acc. cn_depth x = e) \<longrightarrow> (\<forall>x \<in> set acc'. cn_depth x = e)"
  using assms
proof (atomize (full), induction q arbitrary: vis ret acc)
  case (Cons c q)
  obtain v r a where step: "visitConnected conns s e (vis, ret, acc) c = (v, r, a)"
    by (cases "visitConnected conns s e (vis, ret, acc) c")
  note one = step_names(1,3,4) [OF step]
  have "cn_name ` set (c # q) - dom (depth_of vis) =
      (cn_name ` set q - dom (depth_of v)) \<union> (if depth_of vis (cn_name c) = None then {cn_name c} else {})"
    unfolding one(1) by auto
  then have "main_edges conns `` (cn_name ` set (c # q) - dom (depth_of vis)) =
      main_edges conns `` (cn_name ` set q - dom (depth_of v)) \<union>
      (if depth_of vis (cn_name c) = None then main_edges conns `` {cn_name c} else {})"
    by auto
  with Cons.IH [of v r a] Cons.prems one(2,3) step show ?case by (simp add: Un_ac)
qed simp

lemma finite_main_sources: "finite (Domain (main_edges conns))"
proof (rule finite_subset)
  show "Domain (main_edges conns) \<subseteq> dom (map_of conns)" by (auto simp: edges_def)
qed (rule finite_dom_map_of)

lemma level_measure:
  assumes level: "foldl (visitConnected conns s e) (vis, ret, []) queue = (v, r, q)" and "queue \<noteq> []"
  shows "card (Domain (main_edges conns) - dom (depth_of v)) < card (Domain (main_edges conns) - dom (depth_of vis)) \<or>
    card (Domain (main_edges conns) - dom (depth_of v)) = card (Domain (main_edges conns) - dom (depth_of vis)) \<and>
      length q < length queue"
proof (cases "Domain (main_edges conns) \<inter> (cn_name ` set queue - dom (depth_of vis)) = {}")
  case True
  then have "main_edges conns `` (cn_name ` set queue - dom (depth_of vis)) = {}" by blast
  then have "q = []" using level_queue(1) [OF level] by simp
  moreover have "Domain (main_edges conns) - dom (depth_of v) = Domain (main_edges conns) - dom (depth_of vis)"
    using True level_dom [OF level] by blast
  ultimately show ?thesis using assms(2) by simp
next
  case False
  then have "Domain (main_edges conns) - dom (depth_of v) \<subset> Domain (main_edges conns) - dom (depth_of vis)"
    using level_dom [OF level] by blast
  then show ?thesis by (simp add: psubset_card_mono finite_main_sources)
qed

text \<open>The loop over the levels. A level that records no new node that has connections queues
  nothing, so the loop ends.\<close>

function searchLevels ::
  "IConnections \<Rightarrow> string \<Rightarrow> int \<Rightarrow> bfs_state \<Rightarrow> nat \<Rightarrow> IConnectedNode list" where
  "searchLevels connections sourceNode maxDepth (vis, returnConns, queue) depth =
     (if queue = [] \<or> (maxDepth \<noteq> -1 \<and> maxDepth < int depth)
      then map (\<lambda>name. the (map_of vis name)) returnConns
      else searchLevels connections sourceNode maxDepth
        (foldl (visitConnected connections sourceNode (Suc depth)) (vis, returnConns, []) queue) (Suc depth))"
  by pat_completeness auto
termination
proof (relation "measures [\<lambda>(conns, s, md, (vis, ret, q), d). card (Domain (main_edges conns) - dom (depth_of vis)),
    \<lambda>(conns, s, md, (vis, ret, q), d). length q]", simp)
  fix conns s md ret d and vis :: "(string, IConnectedNode) jsmap" and queue :: "IConnectedNode list"
  assume "\<not> (queue = [] \<or> md \<noteq> - 1 \<and> md < int d)"
  then have queue: "queue \<noteq> []" by simp
  obtain v r q where level: "foldl (visitConnected conns s (Suc d)) (vis, ret, []) queue = (v, r, q)"
    by (cases "foldl (visitConnected conns s (Suc d)) (vis, ret, []) queue")
  let ?D = "Domain (main_edges conns)"
  have "card (?D - dom (depth_of v)) < card (?D - dom (depth_of vis)) \<or>
      card (?D - dom (depth_of v)) = card (?D - dom (depth_of vis)) \<and> length q < length queue"
    using queue by (rule level_measure [OF level])
  then show "((conns, s, md, foldl (visitConnected conns s (Suc d)) (vis, ret, []) queue, Suc d),
      (conns, s, md, (vis, ret, queue), d))
    \<in> measures [\<lambda>(conns, s, md, (vis, ret, q), d). card (Domain (main_edges conns) - dom (depth_of vis)),
        \<lambda>(conns, s, md, (vis, ret, q), d). length q]"
    by (simp add: level)
qed

declare searchLevels.simps [simp del]

definition searchNodesBFS :: "IConnections \<Rightarrow> string \<Rightarrow> int \<Rightarrow> IConnectedNode list" where
  "searchNodesBFS connections sourceNode maxDepth =
     searchLevels connections sourceNode maxDepth
       ([], [], [\<lparr>cn_name = sourceNode, cn_indicies = [], cn_depth = 0\<rparr>]) 0"

definition getParentNodesByDepth :: "Workflow \<Rightarrow> string \<Rightarrow> int \<Rightarrow> IConnectedNode list" where
  "getParentNodesByDepth w nodeName maxDepth =
     searchNodesBFS (connectionsByDestinationNode w) nodeName maxDepth"

text \<open>The length of a shortest path.\<close>

definition distance :: "('a \<times> 'a) set \<Rightarrow> 'a \<Rightarrow> 'a \<Rightarrow> nat \<Rightarrow> bool" where
  "distance E s m k \<longleftrightarrow> (s, m) \<in> E ^^ k \<and> (\<forall>j < k. (s, m) \<notin> E ^^ j)"

lemma distance_unique: "distance E s m j \<Longrightarrow> distance E s m k \<Longrightarrow> j = k"
  unfolding distance_def by (metis linorder_less_linear)

lemma distance_ball: "j \<le> d \<Longrightarrow> (s, m) \<in> E ^^ j \<Longrightarrow> \<exists>k \<le> d. distance E s m k"
proof -
  assume j: "j \<le> d" "(s, m) \<in> E ^^ j"
  let ?k = "LEAST k. (s, m) \<in> E ^^ k"
  have "(s, m) \<in> E ^^ ?k" using j(2) by (rule LeastI)
  moreover have "?k \<le> d" using Least_le [of "\<lambda>k. (s, m) \<in> E ^^ k", OF j(2)] j(1) by simp
  ultimately show ?thesis unfolding distance_def using not_less_Least by blast
qed

lemma distance_pred:
  assumes "distance E s m (Suc d)"
  shows "\<exists>y. distance E s y d \<and> (y, m) \<in> E"
proof -
  from assms obtain y where y: "(s, y) \<in> E ^^ d" "(y, m) \<in> E" by (auto simp: distance_def)
  have "(s, y) \<notin> E ^^ j" if "j < d" for j
  proof
    assume "(s, y) \<in> E ^^ j"
    then have "(s, m) \<in> E ^^ Suc j" using y(2) by auto
    moreover have "Suc j < Suc d" using that by simp
    ultimately show False using assms unfolding distance_def by blast
  qed
  with y show ?thesis by (auto simp: distance_def)
qed

lemma distance_prefix: "distance E s m k \<Longrightarrow> j \<le> k \<Longrightarrow> \<exists>y. distance E s y j"
proof (induction k arbitrary: m)
  case (Suc k)
  then show ?case using distance_pred [of E s m k] by (metis le_Suc_eq)
qed blast

text \<open>Before level \<open>d\<close> the search knows the nodes nearer than \<open>d\<close> with their distances, and the
  queue holds all nodes at distance \<open>d\<close> and only nodes within it.\<close>

definition bfs_inv :: "IConnections \<Rightarrow> string \<Rightarrow> nat \<Rightarrow> bfs_state \<Rightarrow> bool" where
  "bfs_inv conns s d = (\<lambda>(vis, ret, queue).
     (\<forall>m k. depth_of vis m = Some k \<longleftrightarrow> k < d \<and> distance (main_edges conns) s m k) \<and>
     distinct ret \<and> set ret = dom (depth_of vis) - {s} \<and> names_kept vis \<and>
     (\<forall>c \<in> set queue. cn_depth c = d) \<and>
     {m. distance (main_edges conns) s m d} \<subseteq> cn_name ` set queue \<and>
     (\<forall>m \<in> cn_name ` set queue. \<exists>j \<le> d. distance (main_edges conns) s m j))"

lemma bfs_invD:
  assumes "bfs_inv conns s d (vis, ret, queue)"
  shows "depth_of vis m = Some k \<longleftrightarrow> k < d \<and> distance (main_edges conns) s m k"
    and "distinct ret" and "set ret = dom (depth_of vis) - {s}"
    and "\<forall>c \<in> set queue. cn_depth c = d"
    and "distance (main_edges conns) s m d \<Longrightarrow> m \<in> cn_name ` set queue"
    and "m \<in> cn_name ` set queue \<Longrightarrow> \<exists>j \<le> d. distance (main_edges conns) s m j"
    and "names_kept vis"
  using assms unfolding bfs_inv_def prod.case by blast+

lemma bfs_inv_level:
  assumes inv: "bfs_inv conns s d (vis, ret, queue)"
    and level: "foldl (visitConnected conns s (Suc d)) (vis, ret, []) queue = (v, r, q)"
  shows "bfs_inv conns s (Suc d) (v, r, q)"
proof -
  let ?E = "main_edges conns" and ?Q = "cn_name ` set queue"
  have vis: "depth_of vis m = Some k \<longleftrightarrow> k < d \<and> distance ?E s m k" for m k
    by (rule bfs_invD(1) [OF inv])
  have at_d: "m \<in> ?Q - dom (depth_of vis) \<longleftrightarrow> distance ?E s m d" for m
  proof
    assume m: "m \<in> ?Q - dom (depth_of vis)"
    then obtain j where "j \<le> d" "distance ?E s m j" using bfs_invD(6) [OF inv] by blast
    moreover have "depth_of vis m = None" using m by blast
    ultimately show "distance ?E s m d" using vis [of m j] by (cases "j < d") simp_all
  next
    assume m: "distance ?E s m d"
    have "depth_of vis m \<noteq> Some k" for k using vis [of m k] distance_unique [OF m, of k] by blast
    then have "depth_of vis m = None" by auto
    with bfs_invD(5) [OF inv m] show "m \<in> ?Q - dom (depth_of vis)" by blast
  qed
  have depths: "depth_of v m = (if depth_of vis m = None \<and> m \<in> ?Q then Some d else depth_of vis m)" for m
    by (rule level_depths [OF bfs_invD(4) [OF inv] level])
  have v: "depth_of v m = Some k \<longleftrightarrow> k < Suc d \<and> distance ?E s m k" for m k
    using depths [of m] at_d [of m] vis [of m k] distance_unique [of ?E s m d k]
    by (auto simp: less_Suc_eq split: if_splits)
  have q: "cn_name ` set q = ?E `` {m. distance ?E s m d}"
    using level_queue(1) [OF level] set_eqI [of "?Q - dom (depth_of vis)" "{m. distance ?E s m d}"] at_d
    by simp
  have "\<exists>j \<le> Suc d. distance ?E s m j" if "m \<in> cn_name ` set q" for m
  proof -
    from that obtain y where "distance ?E s y d" "(y, m) \<in> ?E" unfolding q by blast
    then have "(s, m) \<in> ?E ^^ Suc d" by (auto simp: distance_def)
    then show ?thesis by (rule distance_ball [OF order_refl])
  qed
  moreover have "{m. distance ?E s m (Suc d)} \<subseteq> cn_name ` set q"
    unfolding q using distance_pred [of ?E s] by blast
  moreover have "distinct r \<and> set r = dom (depth_of v) - {s}"
    by (rule level_returned [OF level bfs_invD(2,3) [OF inv]])
  moreover have "\<forall>c \<in> set q. cn_depth c = Suc d" using level_queue(2) [OF level] by simp
  ultimately show ?thesis using v level_names_kept [OF level bfs_invD(7) [OF inv]]
    unfolding bfs_inv_def prod.case by blast
qed

definition bfs_done :: "IConnections \<Rightarrow> string \<Rightarrow> int \<Rightarrow> (string, IConnectedNode) jsmap \<Rightarrow> string list \<Rightarrow> bool" where
  "bfs_done conns s md vis ret \<longleftrightarrow>
     distinct ret \<and> set ret = dom (depth_of vis) - {s} \<and> names_kept vis \<and>
     (\<forall>m k. depth_of vis m = Some k \<longleftrightarrow> distance (main_edges conns) s m k \<and> (md = -1 \<or> int k \<le> md))"

lemma searchLevels_distance:
  assumes "bfs_inv conns s d st" and "d = 0 \<or> md = -1 \<or> int d \<le> md + 1"
  shows "\<exists>vis ret. searchLevels conns s md st d = map (\<lambda>name. the (map_of vis name)) ret \<and>
    bfs_done conns s md vis ret"
  using assms
proof (induction conns s md st d rule: searchLevels.induct)
  case (1 conns s md vis ret queue d)
  show ?case
  proof (cases "queue = [] \<or> md \<noteq> -1 \<and> md < int d")
    case False
    obtain v r q where level: "foldl (visitConnected conns s (Suc d)) (vis, ret, []) queue = (v, r, q)"
      by (cases "foldl (visitConnected conns s (Suc d)) (vis, ret, []) queue")
    have "int (Suc d) \<le> md + 1 \<or> md = -1" using False by auto
    moreover have "searchLevels conns s md (vis, ret, queue) d = searchLevels conns s md (v, r, q) (Suc d)"
      by (subst searchLevels.simps) (simp only: False level if_False)
    ultimately show ?thesis
      using "1.IH" [OF False] bfs_inv_level [OF "1.prems"(1) level] by (simp add: level disj_commute)
  next
    case True
    have "k < d \<longleftrightarrow> md = -1 \<or> int k \<le> md" if "distance (main_edges conns) s m k" for m k
    proof (cases "queue = []")
      case True
      then have "\<not> distance (main_edges conns) s y d" for y
        using bfs_invD(5) [OF "1.prems"(1), of y] by auto
      then have "k < d" using distance_prefix [OF that, of d] by (meson not_less)
      then show ?thesis using "1.prems"(2) by auto
    next
      case False
      with True "1.prems"(2) show ?thesis by auto
    qed
    then have "depth_of vis m = Some k \<longleftrightarrow> distance (main_edges conns) s m k \<and> (md = -1 \<or> int k \<le> md)" for m k
      using bfs_invD(1) [OF "1.prems"(1), of m k] by blast
    moreover have "searchLevels conns s md (vis, ret, queue) d = map (\<lambda>name. the (map_of vis name)) ret"
      by (subst searchLevels.simps) (simp only: True if_True)
    ultimately show ?thesis using bfs_invD(2,3,7) [OF "1.prems"(1)] unfolding bfs_done_def by blast
  qed
qed

text \<open>The search by levels: with the depth bound \<open>maxDepth\<close> (or none, \<open>-1\<close>) the result lists
  exactly the other nodes within that distance over main connections, each once, and the depth it
  gives is the length of a shortest path.\<close>

theorem searchNodesBFS_distance:
  "distinct (map cn_name (searchNodesBFS conns s maxDepth)) \<and>
   ((\<exists>c \<in> set (searchNodesBFS conns s maxDepth). cn_name c = m \<and> cn_depth c = k) \<longleftrightarrow>
      m \<noteq> s \<and> distance (main_edges conns) s m k \<and> (maxDepth = -1 \<or> int k \<le> maxDepth))"
proof -
  have d0: "distance (main_edges conns) s m 0 \<longleftrightarrow> m = s" for m by (auto simp: distance_def)
  have start: "bfs_inv conns s 0 ([], [], [\<lparr>cn_name = s, cn_indicies = [], cn_depth = 0\<rparr>])"
    by (simp add: bfs_inv_def depth_of_def names_kept_def d0 dom_def)
  have "0 = (0 :: nat) \<or> maxDepth = -1 \<or> int 0 \<le> maxDepth + 1" by simp
  from searchLevels_distance [OF start this] obtain vis ret where
      res: "searchNodesBFS conns s maxDepth = map (\<lambda>name. the (map_of vis name)) ret"
    and fin: "bfs_done conns s maxDepth vis ret"
    unfolding searchNodesBFS_def by blast
  then have ret: "distinct ret" "set ret = dom (depth_of vis) - {s}" and names: "names_kept vis"
    and dep: "depth_of vis m = Some k \<longleftrightarrow>
      distance (main_edges conns) s m k \<and> (maxDepth = -1 \<or> int k \<le> maxDepth)" for m k
    by (simp_all add: bfs_done_def)
  have name: "cn_name (the (map_of vis x)) = x" if "x \<in> set ret" for x
    using that names ret(2) by (auto simp: names_kept_def depth_of_def)
  then have "map cn_name (searchNodesBFS conns s maxDepth) = ret"
    by (simp add: res map_idI)
  moreover have "(\<exists>c \<in> set (searchNodesBFS conns s maxDepth). cn_name c = m \<and> cn_depth c = k) \<longleftrightarrow>
      m \<noteq> s \<and> depth_of vis m = Some k"
    using name ret(2) by (auto simp: res depth_of_def)
  ultimately show ?thesis using ret(1) dep by simp
qed

section \<open>getConnectionsBetweenNodes\<close>

definition getConnectionsBetweenNodes ::
  "Workflow \<Rightarrow> string list \<Rightarrow> string list \<Rightarrow> (IConnection \<times> IConnection) list" where
  "getConnectionsBetweenNodes w sources targets =
     concat (map (\<lambda>source.
       concat (map (\<lambda>(type, groups).
         concat (map (\<lambda>(sourceIndex, group).
           map (\<lambda>target. (\<lparr>c_node = source, c_type = type, c_index = sourceIndex\<rparr>, target))
             (filter (\<lambda>target. c_node target \<in> set targets) (case_option [] (\<lambda>g. g) group)))
           (List.enumerate 0 groups)))
         (case_option [] (\<lambda>ncs. ncs) (map_of (connectionsBySourceNode w) source))))
       sources)"

lemma in_concat_map: "x \<in> set (concat (map f ys)) \<longleftrightarrow> (\<exists>y \<in> set ys. x \<in> set (f y))"
  by auto

lemma groups_at_iff:
  "(\<exists>ig \<in> set (List.enumerate 0 groups).
      x \<in> set (map (\<lambda>target. (\<lparr>c_node = source, c_type = type, c_index = fst ig\<rparr>, target))
             (filter P (case_option [] (\<lambda>g. g) (snd ig))))) = 
   (\<exists>i g c. i < length groups \<and> groups ! i = Some g \<and> c \<in> set g \<and> P c \<and>
      x = (\<lparr>c_node = source, c_type = type, c_index = i\<rparr>, c))" (is "?L = ?R")
proof
  assume ?L
  then obtain i g c where "(i, Some g) \<in> set (List.enumerate 0 groups)" "c \<in> set g" "P c"
      and "x = (\<lparr>c_node = source, c_type = type, c_index = i\<rparr>, c)"
    by (auto split: option.splits)
  then show ?R by (intro exI [of _ i] exI [of _ g] exI [of _ c]) (simp add: in_set_enumerate_eq)
next
  assume ?R
  then obtain i g c where "i < length groups" "groups ! i = Some g" "c \<in> set g" "P c"
      and x: "x = (\<lparr>c_node = source, c_type = type, c_index = i\<rparr>, c)" by blast
  then have "(i, groups ! i) \<in> set (List.enumerate 0 groups)" and "c \<in> set (filter P g)"
    by (auto simp: in_set_enumerate_eq)
  then show ?L using \<open>groups ! i = Some g\<close> by (intro bexI [of _ "(i, groups ! i)"]) (auto simp: x)
qed

lemma getConnectionsBetweenNodes_iff:
  assumes "conns_ok (connectionsBySourceNode w)"
  shows "(a, c) \<in> set (getConnectionsBetweenNodes w sources targets) \<longleftrightarrow>
    c_node a \<in> set sources \<and> c_node c \<in> set targets \<and>
    conn_at (connectionsBySourceNode w) (c_node a) (c_type a) (c_index a) c"
proof -
  let ?C = "connectionsBySourceNode w"
  have types: "(t, gs) \<in> set (case_option [] (\<lambda>ncs. ncs) (map_of ?C n)) \<Longrightarrow> groups_of ?C n t = gs" for n t gs
    using conns_okD [OF assms] by (auto simp: groups_of_def split: option.splits)
  have typed: "groups_of ?C n t \<noteq> [] \<Longrightarrow>
      (t, groups_of ?C n t) \<in> set (case_option [] (\<lambda>ncs. ncs) (map_of ?C n))" for n t
    by (auto simp: groups_of_def dest: map_of_SomeD split: option.splits)
  have "(a, c) \<in> set (getConnectionsBetweenNodes w sources targets) \<longleftrightarrow>
      (\<exists>n \<in> set sources. \<exists>tg \<in> set (case_option [] (\<lambda>ncs. ncs) (map_of ?C n)).
        \<exists>i g. i < length (snd tg) \<and> snd tg ! i = Some g \<and> c \<in> set g \<and> c_node c \<in> set targets \<and>
          a = \<lparr>c_node = n, c_type = fst tg, c_index = i\<rparr>)"
    unfolding getConnectionsBetweenNodes_def in_concat_map case_prod_unfold groups_at_iff by auto
  also have "\<dots> \<longleftrightarrow> c_node a \<in> set sources \<and> c_node c \<in> set targets \<and>
      conn_at ?C (c_node a) (c_type a) (c_index a) c"
    using types typed unfolding conn_at_def
    by (cases a) (auto, blast, metis list.size(3) not_less_zero fst_conv snd_conv)
  finally show ?thesis .
qed

end
