(* ===== verification/Concurrency.thy ===== *)
theory Concurrency
  imports WorkflowTypes
begin

text \<open>
  Concurrency control of production executions, \<open>packages/cli/src/concurrency\<close>: the queue of
  throttled executions (\<open>concurrency-queue.ts\<close>), the service that keeps one queue per kind of
  execution (\<open>concurrency-control.service.ts\<close>) and the reservation an execution holds
  (\<open>concurrency-capacity-reservation.ts\<close>).

  A promise that \<open>enqueue\<close> leaves pending is the identifier in the queue; resolving it is the
  identifier that an operation returns. Log lines and telemetry are events of a trace.
\<close>

section \<open>ConcurrencyQueue\<close>

datatype ConcurrencyEvent = ConcurrencyCheck int | ExecutionThrottled string | ExecutionReleased string

record ConcurrencyQueue =
  cq_capacity :: int
  cq_queue :: "string list"

definition new_ConcurrencyQueue :: "int \<Rightarrow> ConcurrencyQueue" where
  "new_ConcurrencyQueue capacity = \<lparr>cq_capacity = capacity, cq_queue = []\<rparr>"

text \<open>\<open>True\<close>: the promise is resolved at once.\<close>

definition enqueue :: "string \<Rightarrow> ConcurrencyQueue \<Rightarrow> ConcurrencyQueue \<times> bool \<times> ConcurrencyEvent list" where
  "enqueue executionId q =
     (let capacity = cq_capacity q - 1
      in if capacity < 0
         then (q\<lparr>cq_capacity := capacity, cq_queue := cq_queue q @ [executionId]\<rparr>, False,
               [ConcurrencyCheck capacity, ExecutionThrottled executionId])
         else (q\<lparr>cq_capacity := capacity\<rparr>, True, [ConcurrencyCheck capacity]))"

definition resolveNext :: "ConcurrencyQueue \<Rightarrow> ConcurrencyQueue \<times> string option" where
  "resolveNext q = (case cq_queue q of [] \<Rightarrow> (q, None) | x # xs \<Rightarrow> (q\<lparr>cq_queue := xs\<rparr>, Some x))"

definition dequeue :: "ConcurrencyQueue \<Rightarrow> ConcurrencyQueue \<times> string option" where
  "dequeue q = resolveNext (q\<lparr>cq_capacity := cq_capacity q + 1\<rparr>)"

definition remove :: "string \<Rightarrow> ConcurrencyQueue \<Rightarrow> ConcurrencyQueue \<times> string option" where
  "remove executionId q =
     (if executionId \<in> set (cq_queue q)
      then resolveNext (q\<lparr>cq_queue := remove1 executionId (cq_queue q), cq_capacity := cq_capacity q + 1\<rparr>)
      else (q, None))"

definition getAll :: "ConcurrencyQueue \<Rightarrow> string list" where
  "getAll q = to_set (cq_queue q)"

definition queue_has :: "ConcurrencyQueue \<Rightarrow> string \<Rightarrow> bool" where
  "queue_has q executionId \<longleftrightarrow> executionId \<in> set (cq_queue q)"

lemmas queue_ops = enqueue_def resolveNext_def dequeue_def remove_def Let_def

section \<open>Admission\<close>

text \<open>
  What the users of a queue rely on: \<open>arrive\<close> takes one unit of capacity and admits the
  newcomer exactly if one was free, else appends it to the line; \<open>leave\<close> gives one unit back
  and admits the head of the line.
\<close>

locale admission =
  fixes free :: "'s \<Rightarrow> int"
    and line :: "'s \<Rightarrow> 'e list"
    and arrive :: "'e \<Rightarrow> 's \<Rightarrow> 's \<times> bool"
    and leave :: "'s \<Rightarrow> 's \<times> 'e option"
  assumes free_arrive: "free (fst (arrive e s)) = free s - 1"
    and arrive_free: "free s > 0 \<Longrightarrow> snd (arrive e s) \<and> line (fst (arrive e s)) = line s"
    and arrive_full: "free s \<le> 0 \<Longrightarrow> \<not> snd (arrive e s) \<and> line (fst (arrive e s)) = line s @ [e]"
    and free_leave: "free (fst (leave s)) = free s + 1"
    and leave_empty: "line s = [] \<Longrightarrow> snd (leave s) = None \<and> line (fst (leave s)) = []"
    and leave_next: "line s = e # es \<Longrightarrow> snd (leave s) = Some e \<and> line (fst (leave s)) = es"
begin

text \<open>
  With \<open>n\<close> running, the line is empty or all units are taken, and what is free, running and
  waiting adds up to the limit. Up to \<open>extra\<close> more than the limit may run.
\<close>

definition balanced :: "int \<Rightarrow> nat \<Rightarrow> nat \<Rightarrow> 's \<Rightarrow> bool" where
  "balanced limit extra n s \<longleftrightarrow> free s + int n + int (length (line s)) = limit \<and> int n \<le> limit + int extra \<and>
     (line s = [] \<or> limit \<le> int n)"

lemma balanced_arrive:
  assumes "balanced limit extra n s"
  shows "balanced limit extra (if snd (arrive e s) then Suc n else n) (fst (arrive e s))"
proof (cases "free s > 0")
  case True
  then have "line s = []" using assms by (cases "line s") (auto simp: balanced_def)
  then show ?thesis using assms True arrive_free [OF True, of e] free_arrive [of e s]
    by (simp add: balanced_def)
next
  case False
  then have "free s \<le> 0" by simp
  then show ?thesis using assms False arrive_full [of s e] free_arrive [of e s]
    by (auto simp: balanced_def)
qed

lemma balanced_leave:
  assumes "balanced limit extra (Suc n) s"
  shows "balanced limit extra (if snd (leave s) = None then n else Suc n) (fst (leave s))"
proof (cases "line s")
  case Nil
  then show ?thesis using assms leave_empty [OF Nil] free_leave [of s] by (simp add: balanced_def)
next
  case (Cons e es)
  then show ?thesis using assms leave_next [OF Cons] free_leave [of s] by (simp add: balanced_def)
qed

text \<open>The line is served in order: after as many leaves the one at position \<open>k\<close> is admitted.\<close>

fun admitted :: "nat \<Rightarrow> 's \<Rightarrow> 'e list" where
  "admitted 0 s = []"
| "admitted (Suc k) s = (case snd (leave s) of None \<Rightarrow> [] | Some e \<Rightarrow> [e]) @ admitted k (fst (leave s))"

lemma admitted_take: "admitted k s = take k (line s)"
proof (induction k arbitrary: s)
  case (Suc k)
  then show ?case
    using leave_empty [of s] leave_next [of s] by (cases "line s") simp_all
qed simp

end

text \<open>What \<open>remove\<close> adds: the one that is taken off the line gives back a unit that it never had, and the head of the
  rest is admitted.\<close>

locale admission_removal = admission free line arrive leave
  for free :: "'s \<Rightarrow> int" and line :: "'s \<Rightarrow> 'e list" and arrive :: "'e \<Rightarrow> 's \<Rightarrow> 's \<times> bool" and leave :: "'s \<Rightarrow> 's \<times> 'e option" +
  fixes take_off :: "'e \<Rightarrow> 's \<Rightarrow> 's \<times> 'e option"
  assumes take_off_absent: "e \<notin> set (line s) \<Longrightarrow> take_off e s = (s, None)"
    and free_take_off: "e \<in> set (line s) \<Longrightarrow> free (fst (take_off e s)) = free s + 1"
    and take_off_last: "e \<in> set (line s) \<Longrightarrow> remove1 e (line s) = [] \<Longrightarrow> snd (take_off e s) = None \<and> line (fst (take_off e s)) = []"
    and take_off_next: "e \<in> set (line s) \<Longrightarrow> remove1 e (line s) = e' # es \<Longrightarrow>
      snd (take_off e s) = Some e' \<and> line (fst (take_off e s)) = es"
begin

lemma balanced_take_off:
  assumes "balanced limit extra n s"
  shows "balanced limit (Suc extra) (if snd (take_off e s) = None then n else Suc n) (fst (take_off e s))"
proof (cases "e \<in> set (line s)")
  case True
  then have len: "length (line s) = Suc (length (remove1 e (line s)))"
    by (metis One_nat_def Suc_pred length_pos_if_in_set length_remove1)
  have "line s \<noteq> []" using True by auto
  then show ?thesis using assms len free_take_off [OF True] take_off_last [OF True] take_off_next [OF True]
    by (cases "remove1 e (line s)") (auto simp: balanced_def)
next
  case False
  then show ?thesis using assms take_off_absent [OF False] by (simp add: balanced_def)
qed

end

interpretation cq: admission_removal cq_capacity cq_queue
  "\<lambda>executionId q. (fst (enqueue executionId q), fst (snd (enqueue executionId q)))" dequeue remove
  by unfold_locales (auto simp: queue_ops split: list.splits)

section \<open>Executions that come and go\<close>

text \<open>
  The queue together with the executions it has let through: an execution arrives, one that runs
  ends and gives its unit back, one that waits is taken off the line.
\<close>

type_synonym load = "ConcurrencyQueue \<times> string list"

definition let_through :: "string option \<Rightarrow> string list" where
  "let_through e = (case e of None \<Rightarrow> [] | Some x \<Rightarrow> [x])"

inductive load_step :: "load \<Rightarrow> load \<Rightarrow> bool" where
  Arrive: "enqueue e q = (q', now, evs) \<Longrightarrow> load_step (q, running) (q', (if now then e # running else running))"
| Finish: "e \<in> set running \<Longrightarrow> dequeue q = (q', next) \<Longrightarrow>
    load_step (q, running) (q', let_through next @ remove1 e running)"

inductive cancel_step :: "load \<Rightarrow> load \<Rightarrow> bool" where
  Cancel: "e \<in> set (cq_queue q) \<Longrightarrow> remove e q = (q', next) \<Longrightarrow>
    cancel_step (q, running) (q', let_through next @ running)"

inductive_cases load_stepE: "load_step (q, running) s"
inductive_cases cancel_stepE: "cancel_step (q, running) s"

lemma load_step_balanced:
  assumes "load_step s s'" and "cq.balanced limit 0 (length (snd s)) (fst s)"
  shows "cq.balanced limit 0 (length (snd s')) (fst s')"
  using assms
proof (induction rule: load_step.induct)
  case (Arrive e q q' now evs running)
  then show ?case using cq.balanced_arrive [of limit 0 "length running" q e] by (cases now) simp_all
next
  case (Finish e running q q' n)
  then obtain k where "length running = Suc k" "length (remove1 e running) = k"
    by (metis Suc_pred length_pos_if_in_set length_remove1 diff_Suc_1)
  then show ?case using Finish cq.balanced_leave [of limit 0 k q] by (auto simp: let_through_def split: option.splits)
qed

text \<open>C39. As long as executions only arrive and end, never more than \<open>limit\<close> of them run, the capacity
  counts the ones that run and the ones that wait, and none waits while a unit is free.\<close>

theorem queue_respects_limit:
  assumes "limit > 0" and "load_step\<^sup>*\<^sup>* (new_ConcurrencyQueue limit, []) (q, running)"
  shows "int (length running) \<le> limit \<and>
    cq_capacity q = limit - int (length running) - int (length (cq_queue q)) \<and>
    (cq_queue q \<noteq> [] \<longrightarrow> int (length running) = limit)"
proof -
  have "cq.balanced limit 0 (length (snd (q, running))) (fst (q, running))"
    using assms(2)
  proof (induction rule: rtranclp_induct)
    case base
    then show ?case using assms(1) by (simp add: cq.balanced_def new_ConcurrencyQueue_def)
  next
    case (step s s')
    then show ?case using load_step_balanced by blast
  qed
  then show ?thesis by (auto simp: cq.balanced_def)
qed

lemma queue_respects_limit_witness:
  "\<exists>q running. load_step\<^sup>*\<^sup>* (new_ConcurrencyQueue 1, []) (q, running) \<and> cq_queue q = [''B''] \<and>
     int (length running) \<le> 1 \<and> cq_capacity q = -1"
proof -
  let ?s1 = "(\<lparr>cq_capacity = 0, cq_queue = []\<rparr>, [''A'']) :: load"
  let ?s2 = "(\<lparr>cq_capacity = -1, cq_queue = [''B'']\<rparr>, [''A'']) :: load"
  have "load_step (new_ConcurrencyQueue 1, []) ?s1"
    using load_step.Arrive [where e = "''A''" and q = "new_ConcurrencyQueue 1" and now = True and running = "[]"]
    by (simp add: enqueue_def new_ConcurrencyQueue_def Let_def)
  moreover have "load_step ?s1 ?s2"
    using load_step.Arrive [where e = "''B''" and q = "fst ?s1" and now = False and running = "[''A'']"] by (simp add: enqueue_def Let_def)
  ultimately have reach: "load_step\<^sup>*\<^sup>* (new_ConcurrencyQueue 1, []) ?s2" by simp
  show ?thesis using queue_respects_limit [of 1, OF _ reach] reach by force
qed

text \<open>The queue after \<open>k\<close> ends, and what they let through.\<close>

fun dequeues :: "nat \<Rightarrow> ConcurrencyQueue \<Rightarrow> ConcurrencyQueue \<times> string list" where
  "dequeues 0 q = (q, [])"
| "dequeues (Suc k) q = (let (q', next) = dequeue q; (q'', others) = dequeues k q' in (q'', let_through next @ others))"

lemma dequeues_admitted: "snd (dequeues k q) = cq.admitted k q"
proof (induction k arbitrary: q)
  case (Suc k)
  then show ?case using Suc.IH [of "fst (dequeue q)"] by (simp add: let_through_def split_beta split: option.split)
qed simp

text \<open>Executions that wait are let through in the order of their arrival: an execution that is throttled
  runs after one more end than there were executions in the line, and no earlier one is passed over.\<close>

theorem queue_is_fifo:
  assumes "enqueue e q = (q', False, evs)"
  shows "snd (dequeues k q') = take k (cq_queue q @ [e]) \<and>
    snd (dequeues (Suc (length (cq_queue q))) q') = cq_queue q @ [e]"
proof -
  have "cq_queue q' = cq_queue q @ [e]" using assms by (auto simp: enqueue_def Let_def split: if_splits)
  then show ?thesis
    unfolding dequeues_admitted cq.admitted_take by simp_all
qed

lemma queue_is_fifo_witness:
  "snd (dequeues 2 \<lparr>cq_capacity = -2, cq_queue = [''A'', ''B'']\<rparr>) = [''A'', ''B'']"
  using queue_is_fifo [of "''B''" "\<lparr>cq_capacity = -1, cq_queue = [''A'']\<rparr>"]
  by (simp add: enqueue_def Let_def numeral_2_eq_2)

text \<open>Taking an execution off the line lets the next one through although none has ended, so with two
  that wait one cancellation makes \<open>limit + 1\<close> executions run.\<close>

theorem cancel_exceeds_limit:
  assumes "distinct (cq_queue q)" and "cq_queue q = e # e' # es" and "int (length running) = limit"
  shows "\<exists>q'. cancel_step (q, running) (q', e' # running) \<and> int (length (e' # running)) = limit + 1 \<and>
    cq_queue q' = es \<and> cq_capacity q' = cq_capacity q + 1"
proof -
  let ?q = "q\<lparr>cq_queue := es, cq_capacity := cq_capacity q + 1\<rparr>"
  have "remove e q = (?q, Some e')" using assms(2) by (simp add: remove_def resolveNext_def)
  then have "cancel_step (q, running) (?q, e' # running)"
    using cancel_step.Cancel [of e q ?q "Some e'" running] assms(2) by (simp add: let_through_def)
  then show ?thesis using assms(3) by (intro exI [of _ ?q]) simp
qed

lemma cancel_exceeds_limit_witness:
  "\<exists>q'. cancel_step (\<lparr>cq_capacity = -2, cq_queue = [''B'', ''C'']\<rparr>, [''A'']) (q', [''C'', ''A'']) \<and> cq_queue q' = []"
  using cancel_exceeds_limit [where q = "\<lparr>cq_capacity = -2, cq_queue = [''B'', ''C'']\<rparr>" and limit = 1
    and e = "''B''" and e' = "''C''" and es = "[]" and running = "[''A'']"] by simp blast

section \<open>ConcurrencyControlService\<close>

datatype WorkflowExecuteMode =
    CliMode | ErrorMode | IntegratedMode | InternalMode | ManualMode | RetryMode | TriggerMode
  | WebhookMode | EvaluationMode | ChatMode | OtherMode string

datatype ConcurrencyQueueType = Production | Evaluation

record ConcurrencyControlService =
  cs_isEnabled :: bool
  cs_limits :: "(ConcurrencyQueueType, int) jsmap"
  cs_queues :: "(ConcurrencyQueueType, ConcurrencyQueue) jsmap"

definition new_ConcurrencyControlService :: "int \<Rightarrow> int \<Rightarrow> bool \<Rightarrow> ConcurrencyControlService res" where
  "new_ConcurrencyControlService productionLimit evaluationLimit queueMode =
     (if productionLimit = 0 \<or> evaluationLimit = 0 then Inl (UserError ''Concurrency limit set to invalid value'')
      else let limits = map (\<lambda>(t, limit). (t, if limit < -1 then -1 else limit))
                   [(Production, productionLimit), (Evaluation, evaluationLimit)]
           in if list_all (\<lambda>(t, limit). limit = -1) limits \<or> queueMode
              then Inr \<lparr>cs_isEnabled = False, cs_limits = limits, cs_queues = []\<rparr>
              else Inr \<lparr>cs_isEnabled = True, cs_limits = limits,
                cs_queues = map (\<lambda>(t, limit). (t, new_ConcurrencyQueue limit)) (filter (\<lambda>(t, limit). limit > 0) limits)\<rparr>)"

definition getQueue ::
  "ConcurrencyControlService \<Rightarrow> WorkflowExecuteMode \<Rightarrow> (ConcurrencyQueueType \<times> ConcurrencyQueue) option res" where
  "getQueue cs mode =
     (if mode \<in> {ErrorMode, IntegratedMode, CliMode, InternalMode, ManualMode, RetryMode} then Inr None
      else if mode \<in> {WebhookMode, TriggerMode, ChatMode}
      then Inr (map_option (Pair Production) (map_of (cs_queues cs) Production))
      else if mode = EvaluationMode
      then Inr (map_option (Pair Evaluation) (map_of (cs_queues cs) Evaluation))
      else Inl (UnexpectedError ''Unknown execution mode''))"

definition service_has :: "ConcurrencyControlService \<Rightarrow> string \<Rightarrow> bool" where
  "service_has cs executionId \<longleftrightarrow> cs_isEnabled cs \<and> list_ex (\<lambda>q. queue_has q executionId) (vals (cs_queues cs))"

definition put_queue :: "ConcurrencyQueueType \<Rightarrow> ConcurrencyQueue \<Rightarrow> ConcurrencyControlService \<Rightarrow> ConcurrencyControlService" where
  "put_queue t q cs = cs\<lparr>cs_queues := AList.update t q (cs_queues cs)\<rparr>"

text \<open>The result says whether the caller goes on at once.\<close>

definition throttle :: "WorkflowExecuteMode \<Rightarrow> string \<Rightarrow> ConcurrencyControlService \<Rightarrow> (ConcurrencyControlService \<times> bool) res" where
  "throttle mode executionId cs =
     (if \<not> cs_isEnabled cs then Inr (cs, True)
      else rbind (getQueue cs mode) (\<lambda>queue. case queue of
          None \<Rightarrow> Inr (cs, True)
        | Some (t, q) \<Rightarrow> (case enqueue executionId q of (q', now, evs) \<Rightarrow> Inr (put_queue t q' cs, now))))"

definition on_queue ::
  "(ConcurrencyQueue \<Rightarrow> ConcurrencyQueue \<times> string option) \<Rightarrow> WorkflowExecuteMode \<Rightarrow> ConcurrencyControlService \<Rightarrow>
   (ConcurrencyControlService \<times> string option) res" where
  "on_queue f mode cs =
     (if \<not> cs_isEnabled cs then Inr (cs, None)
      else rbind (getQueue cs mode) (\<lambda>queue. case queue of
          None \<Rightarrow> Inr (cs, None)
        | Some (t, q) \<Rightarrow> (case f q of (q', next) \<Rightarrow> Inr (put_queue t q' cs, next))))"

definition release :: "WorkflowExecuteMode \<Rightarrow> ConcurrencyControlService \<Rightarrow> (ConcurrencyControlService \<times> string option) res" where
  "release = on_queue dequeue"

definition service_remove ::
  "WorkflowExecuteMode \<Rightarrow> string \<Rightarrow> ConcurrencyControlService \<Rightarrow> (ConcurrencyControlService \<times> string option) res" where
  "service_remove mode executionId = on_queue (remove executionId) mode"

definition emptyQueue :: "ConcurrencyQueue \<Rightarrow> ConcurrencyQueue \<times> string list" where
  "emptyQueue q = foldl (\<lambda>(q, released) executionId.
     case remove executionId q of (q', next) \<Rightarrow> (q', released @ let_through next)) (q, []) (getAll q)"

text \<open>The service, the executions let through and those cancelled in the database.\<close>

definition removeAll ::
  "string list \<Rightarrow> ConcurrencyControlService \<Rightarrow> ConcurrencyControlService \<times> string list \<times> string list" where
  "removeAll executionIdsToCancel cs =
     (if \<not> cs_isEnabled cs then (cs, [], [])
      else (cs\<lparr>cs_queues := map (\<lambda>(t, q). (t, fst (emptyQueue q))) (cs_queues cs)\<rparr>,
            concat (map (\<lambda>(t, q). snd (emptyQueue q)) (cs_queues cs)), executionIdsToCancel))"

text \<open>The second, the fourth, \<dots> element.\<close>

fun alternate :: "'a list \<Rightarrow> 'a list" where
  "alternate (x # y # zs) = y # alternate zs"
| "alternate zs = []"

lemma to_set_distinct: "distinct xs \<Longrightarrow> to_set xs = xs"
proof -
  have "distinct (ys @ xs) \<Longrightarrow> foldl (\<lambda>s x. sadd x s) ys xs = ys @ xs" for ys
    by (induction xs arbitrary: ys) (auto simp: sadd_def)
  from this [of "[]"] show "distinct xs \<Longrightarrow> to_set xs = xs" by (simp add: to_set_def)
qed

lemma emptyQueue_from:
  "distinct xs \<Longrightarrow> cq_queue q = xs \<Longrightarrow>
   foldl (\<lambda>(q, released) executionId.
     case remove executionId q of (q', next) \<Rightarrow> (q', released @ let_through next)) (q, rel) xs =
   (q\<lparr>cq_queue := [], cq_capacity := cq_capacity q + int ((length xs + 1) div 2)\<rparr>, rel @ alternate xs)"
proof (induction xs arbitrary: q rel rule: alternate.induct)
  case (1 x y zs)
  let ?q = "q\<lparr>cq_queue := zs, cq_capacity := cq_capacity q + 1\<rparr>"
  have x: "remove x q = (?q, Some y)" using 1(3) by (simp add: remove_def resolveNext_def)
  have y: "remove y ?q = (?q, None)" using 1(2) by (simp add: remove_def)
  show ?case using 1(1) [of ?q "rel @ [y]"] 1(2) by (simp add: x y let_through_def)
qed (simp_all add: remove_def resolveNext_def let_through_def)

text \<open>Emptying the queue gives back only about half of the capacity of the executions in it: each one
  that is removed lets the next one through, which is then no longer there to be removed.\<close>

theorem removeAll_lets_through:
  assumes "distinct (cq_queue q)"
  shows "removeAll ids \<lparr>cs_isEnabled = True, cs_limits = limits, cs_queues = [(t, q)]\<rparr> =
    (\<lparr>cs_isEnabled = True, cs_limits = limits, cs_queues = [(t, q\<lparr>cq_queue := [],
        cq_capacity := cq_capacity q + int ((length (cq_queue q) + 1) div 2)\<rparr>)]\<rparr>,
     alternate (cq_queue q), ids)"
  using emptyQueue_from [OF assms refl, of "[]"] to_set_distinct [OF assms]
  by (simp add: removeAll_def emptyQueue_def getAll_def)

lemma removeAll_lets_through_witness:
  "fst (snd (removeAll [] \<lparr>cs_isEnabled = True, cs_limits = [],
     cs_queues = [(Production, \<lparr>cq_capacity = -3, cq_queue = [''A'', ''B'', ''C'']\<rparr>)]\<rparr>)) = [''B'']"
  by (subst removeAll_lets_through) simp_all

definition disable :: "ConcurrencyControlService \<Rightarrow> ConcurrencyControlService" where
  "disable cs = cs\<lparr>cs_isEnabled := False\<rparr>"

section \<open>ConcurrencyCapacityReservation\<close>

record CapacityTarget =
  ct_mode :: WorkflowExecuteMode
  ct_executionId :: string

text \<open>\<open>reserve\<close> up to its \<open>await\<close>; \<open>reserved\<close> is what follows when the promise resolves.\<close>

definition reserve ::
  "CapacityTarget option \<Rightarrow> CapacityTarget \<Rightarrow> ConcurrencyControlService \<Rightarrow> (ConcurrencyControlService \<times> bool) res" where
  "reserve acquired capacityFor cs =
     rbind (assert_ok (acquired = None)) (\<lambda>_. throttle (ct_mode capacityFor) (ct_executionId capacityFor) cs)"

definition release_reservation ::
  "CapacityTarget option \<Rightarrow> ConcurrencyControlService \<Rightarrow> (CapacityTarget option \<times> ConcurrencyControlService \<times> string option) res" where
  "release_reservation acquired cs =
     (case acquired of
        None \<Rightarrow> Inr (None, cs, None)
      | Some t \<Rightarrow> rbind (release (ct_mode t) cs) (\<lambda>(cs', next). Inr (None, cs', next)))"

end
