(* ===== verification/ActiveExecutions.thy ===== *)
theory ActiveExecutions
  imports Concurrency
begin

text \<open>
  The executions that are active in a process, \<open>packages/cli/src/active-executions.ts\<close>, on top of
  the concurrency control. An \<open>async\<close> method is cut at its \<open>await\<close>s: \<open>add\<close> is
  \<open>add_reserve\<close> up to the reservation of capacity and \<open>add_register\<close> from there on; what runs once the
  post-execution promise settles is \<open>afterExecution\<close>. Database calls are the outcome they have;
  log lines, the response stream and the event bus are left out.
\<close>

section \<open>State\<close>

datatype Promise = Pending | Resolved | Rejected

definition settle :: "Promise \<Rightarrow> Promise \<Rightarrow> Promise" where
  "settle p outcome = (if p = Pending then outcome else p)"

record IExecutingWorkflowData =
  ex_id :: string
  ex_mode :: WorkflowExecuteMode
  ex_startedAt :: nat
  ex_status :: ExecutionStatus
  ex_postExecutePromise :: Promise
  ex_responsePromise :: "Promise option"
  ex_workflowExecution :: bool
  ex_reservation :: "CapacityTarget option"

text \<open>
  \<open>a_executions\<close> maps an identifier to an object, given by its place in \<open>a_objects\<close>; an object
  outlives its entry as long as its promise is pending. \<open>a_awaiting\<close> are the calls of \<open>add\<close> that wait
  for capacity, \<open>a_granted\<close> those that have it and have not registered the execution yet.
\<close>

record ActiveExecutions =
  a_objects :: "IExecutingWorkflowData list"
  a_executions :: "(string, nat) jsmap"
  a_responseModes :: "(string, string) jsmap"
  a_control :: ConcurrencyControlService
  a_regular :: bool
  a_awaiting :: "CapacityTarget list"
  a_granted :: "CapacityTarget list"

definition has :: "ActiveExecutions \<Rightarrow> string \<Rightarrow> bool" where
  "has st executionId \<longleftrightarrow> map_of (a_executions st) executionId \<noteq> None"

definition getExecutionOrFail :: "ActiveExecutions \<Rightarrow> string \<Rightarrow> nat res" where
  "getExecutionOrFail st executionId =
     (case map_of (a_executions st) executionId of
        None \<Rightarrow> Inl (UnexpectedError ''No active execution found'')
      | Some r \<Rightarrow> Inr r)"

definition on_object :: "nat \<Rightarrow> (IExecutingWorkflowData \<Rightarrow> IExecutingWorkflowData) \<Rightarrow> ActiveExecutions \<Rightarrow> ActiveExecutions" where
  "on_object r f st = st\<lparr>a_objects := (a_objects st)[r := f (a_objects st ! r)]\<rparr>"

definition forget :: "string \<Rightarrow> ActiveExecutions \<Rightarrow> ActiveExecutions" where
  "forget executionId st = st\<lparr>a_executions := AList.delete executionId (a_executions st),
     a_responseModes := AList.delete executionId (a_responseModes st)\<rparr>"

section \<open>Operations\<close>

text \<open>A call of \<open>add\<close> whose promise the queue resolves goes on.\<close>

fun kind :: "WorkflowExecuteMode \<Rightarrow> ConcurrencyQueueType option" where
  "kind WebhookMode = Some Production"
| "kind TriggerMode = Some Production"
| "kind ChatMode = Some Production"
| "kind EvaluationMode = Some Evaluation"
| "kind mode = None"

definition admit :: "WorkflowExecuteMode \<Rightarrow> string option \<Rightarrow> ActiveExecutions \<Rightarrow> ActiveExecutions" where
  "admit mode next st = (case next of None \<Rightarrow> st | Some executionId \<Rightarrow>
     (case List.extract (\<lambda>t. ct_executionId t = executionId \<and> kind (ct_mode t) = kind mode) (a_awaiting st) of
        None \<Rightarrow> st
      | Some (xs, t, ys) \<Rightarrow> st\<lparr>a_awaiting := xs @ ys, a_granted := a_granted st @ [t]\<rparr>))"

definition releaseCapacity :: "CapacityTarget option \<Rightarrow> ActiveExecutions \<Rightarrow> ActiveExecutions res" where
  "releaseCapacity acquired st =
     rbind (release_reservation acquired (a_control st)) (\<lambda>(none, cs, next).
       Inr (case acquired of None \<Rightarrow> st | Some t \<Rightarrow> admit (ct_mode t) next (st\<lparr>a_control := cs\<rparr>)))"

definition add_reserve :: "CapacityTarget \<Rightarrow> ActiveExecutions \<Rightarrow> ActiveExecutions res" where
  "add_reserve t st =
     rbind (reserve None t (a_control st)) (\<lambda>(cs, now).
       Inr (if now then st\<lparr>a_control := cs, a_granted := a_granted st @ [t]\<rparr>
            else st\<lparr>a_control := cs, a_awaiting := a_awaiting st @ [t]\<rparr>))"

text \<open>\<open>failure\<close> is what the database calls after the reservation throw; the error is thrown again.\<close>

definition add_register ::
  "CapacityTarget \<Rightarrow> js_error option \<Rightarrow> nat \<Rightarrow> ActiveExecutions \<Rightarrow> (ActiveExecutions \<times> js_error option) res" where
  "add_register t failure now st =
     (let st = st\<lparr>a_granted := remove1 t (a_granted st)\<rparr>;
          resuming = map_option ((!) (a_objects st)) (map_of (a_executions st) (ct_executionId t))
      in case failure of
           Some e \<Rightarrow> rbind (releaseCapacity (Some t) st) (\<lambda>st. Inr (st, Some e))
         | None \<Rightarrow> Inr (st\<lparr>
             a_executions := AList.update (ct_executionId t) (length (a_objects st)) (a_executions st),
             a_objects := a_objects st @
               [\<lparr>ex_id = ct_executionId t, ex_mode = ct_mode t,
                 ex_startedAt = (case resuming of None \<Rightarrow> now | Some ex \<Rightarrow> ex_startedAt ex),
                 ex_status = Running, ex_postExecutePromise = Pending,
                 ex_responsePromise = Option.bind resuming ex_responsePromise,
                 ex_workflowExecution = False, ex_reservation = Some t\<rparr>]\<rparr>, None))"

definition afterExecution :: "nat \<Rightarrow> ActiveExecutions \<Rightarrow> ActiveExecutions res" where
  "afterExecution r st =
     (let ex = a_objects st ! r
      in rbind (releaseCapacity (ex_reservation ex) (on_object r (\<lambda>x. x\<lparr>ex_reservation := None\<rparr>) st)) (\<lambda>st.
           Inr (if ex_status ex = Waiting then on_object r (\<lambda>x. x\<lparr>ex_workflowExecution := False\<rparr>) st
                else forget (ex_id ex) st)))"

definition attachWorkflowExecution :: "string \<Rightarrow> ActiveExecutions \<Rightarrow> ActiveExecutions res" where
  "attachWorkflowExecution executionId st =
     rbind (getExecutionOrFail st executionId) (\<lambda>r. Inr (on_object r (\<lambda>x. x\<lparr>ex_workflowExecution := True\<rparr>) st))"

definition attachResponsePromise :: "string \<Rightarrow> ActiveExecutions \<Rightarrow> ActiveExecutions res" where
  "attachResponsePromise executionId st =
     rbind (getExecutionOrFail st executionId) (\<lambda>r. Inr (on_object r (\<lambda>x. x\<lparr>ex_responsePromise := Some Pending\<rparr>) st))"

definition settleResponse :: "Promise \<Rightarrow> IExecutingWorkflowData \<Rightarrow> IExecutingWorkflowData" where
  "settleResponse outcome x = x\<lparr>ex_responsePromise := map_option (\<lambda>p. settle p outcome) (ex_responsePromise x)\<rparr>"

definition resolveResponsePromise :: "string \<Rightarrow> ActiveExecutions \<Rightarrow> ActiveExecutions" where
  "resolveResponsePromise executionId st =
     (case map_of (a_executions st) executionId of
        None \<Rightarrow> st | Some r \<Rightarrow> on_object r (settleResponse Resolved) st)"

definition stopExecution :: "string \<Rightarrow> ActiveExecutions \<Rightarrow> ActiveExecutions" where
  "stopExecution executionId st =
     (case map_of (a_executions st) executionId of
        None \<Rightarrow> st
      | Some r \<Rightarrow>
          let st' = on_object r (settleResponse Rejected) st
          in if ex_status (a_objects st ! r) = Waiting then forget executionId st'
             else on_object r (\<lambda>x. x\<lparr>ex_postExecutePromise := settle (ex_postExecutePromise x) Rejected\<rparr>) st')"

text \<open>\<open>stopInRegularMode\<close> of \<open>execution.service.ts\<close>: an execution that waits for capacity is taken out of the queue, and its
  call of \<open>add\<close> never goes on; another one that is active is stopped.\<close>

definition stopInRegularMode :: "string \<Rightarrow> WorkflowExecuteMode \<Rightarrow> ActiveExecutions \<Rightarrow> ActiveExecutions res" where
  "stopInRegularMode executionId mode st =
     (if service_has (a_control st) executionId
      then rbind (service_remove mode executionId (a_control st)) (\<lambda>(cs, next).
        let awaiting = (case List.extract (\<lambda>t. ct_executionId t = executionId \<and> kind (ct_mode t) = kind mode) (a_awaiting st) of
              None \<Rightarrow> a_awaiting st | Some (xs, t, ys) \<Rightarrow> xs @ ys)
        in Inr (admit mode next (st\<lparr>a_control := cs, a_awaiting := awaiting\<rparr>)))
      else Inr (if has st executionId then stopExecution executionId st else st))"

definition finalizeExecution :: "string \<Rightarrow> ActiveExecutions \<Rightarrow> ActiveExecutions" where
  "finalizeExecution executionId st =
     (case map_of (a_executions st) executionId of
        None \<Rightarrow> st
      | Some r \<Rightarrow> on_object r (\<lambda>x. x\<lparr>ex_postExecutePromise := settle (ex_postExecutePromise x) Resolved\<rparr>) st)"

definition resolveExecutionResponsePromise :: "string \<Rightarrow> ActiveExecutions \<Rightarrow> ActiveExecutions" where
  "resolveExecutionResponsePromise executionId st =
     (case map_of (a_executions st) executionId of
        None \<Rightarrow> st
      | Some r \<Rightarrow> if ex_status (a_objects st ! r) \<noteq> Waiting then on_object r (settleResponse Resolved) st else st)"

definition setStatus :: "string \<Rightarrow> ExecutionStatus \<Rightarrow> ActiveExecutions \<Rightarrow> ActiveExecutions res" where
  "setStatus executionId status st =
     rbind (getExecutionOrFail st executionId) (\<lambda>r. Inr (on_object r (\<lambda>x. x\<lparr>ex_status := status\<rparr>) st))"

definition getStatus :: "ActiveExecutions \<Rightarrow> string \<Rightarrow> ExecutionStatus res" where
  "getStatus st executionId = rbind (getExecutionOrFail st executionId) (\<lambda>r. Inr (ex_status (a_objects st ! r)))"

definition setResponseMode :: "string \<Rightarrow> string \<Rightarrow> ActiveExecutions \<Rightarrow> ActiveExecutions" where
  "setResponseMode executionId mode st = st\<lparr>a_responseModes := AList.update executionId mode (a_responseModes st)\<rparr>"

definition getActiveExecutions :: "ActiveExecutions \<Rightarrow> (string \<times> nat \<times> WorkflowExecuteMode \<times> ExecutionStatus) list" where
  "getActiveExecutions st = map (\<lambda>(i, r). let ex = a_objects st ! r in (i, ex_startedAt ex, ex_mode ex, ex_status ex)) (a_executions st)"

text \<open>\<open>shutdown\<close> up to the loop that waits until \<open>a_executions\<close> is empty: the new state, and what
  \<open>removeAll\<close> cancels in the database.\<close>

definition shutdownOne :: "bool \<Rightarrow> ActiveExecutions \<times> string list \<Rightarrow> string \<Rightarrow> ActiveExecutions \<times> string list" where
  "shutdownOne cancelAll = (\<lambda>(st, toCancel) executionId.
     case map_of (a_executions st) executionId of
       None \<Rightarrow> (st, toCancel)
     | Some r \<Rightarrow>
         if a_regular st \<and> cancelAll then (stopExecution executionId st, toCancel @ [executionId])
         else if ex_status (a_objects st ! r) \<in> {Waiting, New}
         then (st\<lparr>a_executions := AList.delete executionId (a_executions st)\<rparr>, toCancel)
         else (st, toCancel))"

definition shutdown :: "bool \<Rightarrow> ActiveExecutions \<Rightarrow> ActiveExecutions \<times> string list" where
  "shutdown cancelAll st =
     (let st = (if a_regular st then st\<lparr>a_control := disable (a_control st)\<rparr> else st);
          (st, toCancel) = foldl (shutdownOne cancelAll) (st, []) (map fst (a_executions st));
          (cs, released, cancelled) = removeAll toCancel (a_control st)
      in (st\<lparr>a_control := cs\<rparr>, cancelled))"

section \<open>Capacity\<close>

text \<open>What an execution holds: granted, or held by an object until its promise has settled.\<close>

definition production :: "CapacityTarget \<Rightarrow> bool" where
  "production t \<longleftrightarrow> kind (ct_mode t) = Some Production"

definition holds_production :: "IExecutingWorkflowData \<Rightarrow> bool" where
  "holds_production x \<longleftrightarrow> (case ex_reservation x of None \<Rightarrow> False | Some t \<Rightarrow> production t)"

definition held :: "ActiveExecutions \<Rightarrow> nat" where
  "held st = length (filter production (a_granted st)) + length (filter holds_production (a_objects st))"

definition capacity_ok :: "int \<Rightarrow> nat \<Rightarrow> ActiveExecutions \<Rightarrow> bool" where
  "capacity_ok limit extra st \<longleftrightarrow> cs_isEnabled (a_control st) \<and>
     (\<exists>q. map_of (cs_queues (a_control st)) Production = Some q \<and> cq.balanced limit extra (held st) q \<and>
        map ct_executionId (filter production (a_awaiting st)) = cq_queue q)"

inductive active_step :: "ActiveExecutions \<Rightarrow> ActiveExecutions \<Rightarrow> bool" where
  Reserve: "add_reserve t st = Inr st' \<Longrightarrow> active_step st st'"
| Register: "t \<in> set (a_granted st) \<Longrightarrow> add_register t failure now st = Inr (st', e) \<Longrightarrow> active_step st st'"
| After: "r < length (a_objects st) \<Longrightarrow> ex_postExecutePromise (a_objects st ! r) \<noteq> Pending \<Longrightarrow>
    afterExecution r st = Inr st' \<Longrightarrow> active_step st st'"
| Stop: "active_step st (stopExecution executionId st)"
| Finalize: "active_step st (finalizeExecution executionId st)"
| Attach: "attachWorkflowExecution executionId st = Inr st' \<Longrightarrow> active_step st st'"
| Respond: "attachResponsePromise executionId st = Inr st' \<Longrightarrow> active_step st st'"
| ResolveResponse: "active_step st (resolveResponsePromise executionId st)"
| CleanResponse: "active_step st (resolveExecutionResponsePromise executionId st)"
| Status: "setStatus executionId status st = Inr st' \<Longrightarrow> active_step st st'"
| Mode: "active_step st (setResponseMode executionId mode st)"

text \<open>Everything but reserving, registering and ending leaves the capacity alone.\<close>

lemma filter_update_same: "r < length xs \<Longrightarrow> P (f (xs ! r)) = P (xs ! r) \<Longrightarrow>
   length (filter P (xs[r := f (xs ! r)])) = length (filter P xs)"
proof (induction xs arbitrary: r)
  case (Cons x xs)
  then show ?case by (cases r) auto
qed simp

lemma filter_update_drop: "r < length xs \<Longrightarrow> P (xs ! r) \<Longrightarrow> \<not> P y \<Longrightarrow>
   Suc (length (filter P (xs[r := y]))) = length (filter P xs)"
proof (induction xs arbitrary: r)
  case (Cons x xs)
  then show ?case by (cases r) auto
qed simp

lemma held_on_object:
  assumes "\<And>x. ex_reservation (f x) = ex_reservation x"
  shows "held (on_object r f st) = held st"
proof (cases "r < length (a_objects st)")
  case True
  then show ?thesis using assms filter_update_same [of r "a_objects st" holds_production f]
    by (simp add: held_def on_object_def holds_production_def)
next
  case False
  then show ?thesis by (simp add: held_def on_object_def list_update_beyond)
qed

definition same_capacity :: "ActiveExecutions \<Rightarrow> ActiveExecutions \<Rightarrow> bool" where
  "same_capacity st st' \<longleftrightarrow> a_control st' = a_control st \<and> a_awaiting st' = a_awaiting st \<and> held st' = held st"

lemma same_capacity_ok: "same_capacity st st' \<Longrightarrow> capacity_ok limit extra st' = capacity_ok limit extra st"
  by (simp add: same_capacity_def capacity_ok_def)

lemma same_capacity_okI: "same_capacity st st' \<Longrightarrow> capacity_ok limit extra st \<Longrightarrow> capacity_ok limit extra st'"
  by (simp add: same_capacity_ok)

lemma same_capacity_on_object:
  "(\<And>x. ex_reservation (f x) = ex_reservation x) \<Longrightarrow> same_capacity st st' \<Longrightarrow> same_capacity st (on_object r f st')"
  using held_on_object [of f r st'] by (simp add: same_capacity_def) (simp add: on_object_def)

lemma same_capacity_refl [simp]: "same_capacity st st"
  by (simp add: same_capacity_def)

lemma same_capacity_forget [simp]: "same_capacity st (forget i st') = same_capacity st st'"
  by (simp add: same_capacity_def forget_def held_def)

lemma ex_reservation_settleResponse [simp]: "ex_reservation (settleResponse p x) = ex_reservation x"
  by (simp add: settleResponse_def)

lemmas same_capacity_ops = stopExecution_def finalizeExecution_def resolveResponsePromise_def
  resolveExecutionResponsePromise_def attachWorkflowExecution_def attachResponsePromise_def setStatus_def

lemma same_capacity_steps:
  "same_capacity st (stopExecution i st)" "same_capacity st (finalizeExecution i st)"
  "same_capacity st (resolveResponsePromise i st)" "same_capacity st (resolveExecutionResponsePromise i st)"
  "same_capacity st (setResponseMode i m st)"
  "attachWorkflowExecution i st = Inr st' \<Longrightarrow> same_capacity st st'"
  "attachResponsePromise i st = Inr st' \<Longrightarrow> same_capacity st st'"
  "setStatus i s st = Inr st' \<Longrightarrow> same_capacity st st'"
  by (auto simp: same_capacity_ops setResponseMode_def Let_def rbind_eq_Inr same_capacity_on_object
      split: option.splits)
    (simp add: same_capacity_def held_def)

lemma getQueue_other:
  "kind mode \<noteq> Some Production \<Longrightarrow> (\<exists>e. getQueue cs mode = Inl e) \<or> getQueue cs mode = Inr None \<or>
     (\<exists>q. getQueue cs mode = Inr (Some (Evaluation, q)))"
  by (cases mode) (auto simp: getQueue_def)

text \<open>An execution of another kind leaves the production queue alone.\<close>

lemma other_queue:
  assumes "kind mode \<noteq> Some Production"
  shows "release mode cs = Inr (cs', n) \<Longrightarrow>
      cs_isEnabled cs' = cs_isEnabled cs \<and> map_of (cs_queues cs') Production = map_of (cs_queues cs) Production"
    and "throttle mode i cs = Inr (cs', now) \<Longrightarrow>
      cs_isEnabled cs' = cs_isEnabled cs \<and> map_of (cs_queues cs') Production = map_of (cs_queues cs) Production"
  using getQueue_other [OF assms, of cs]
  by (auto simp: release_def throttle_def on_queue_def put_queue_def jsmap_simps split_beta split: if_splits)

lemma kind_getQueue:
  "kind mode = Some t \<Longrightarrow> getQueue cs mode = Inr (map_option (Pair t) (map_of (cs_queues cs) t))"
  by (cases mode) (auto simp: getQueue_def)

text \<open>The head of the line goes on.\<close>

lemma admit_head:
  assumes k: "kind mode = Some Production" and line: "map ct_executionId (filter production (a_awaiting st)) = e # es"
  shows "a_control (admit mode (Some e) st) = a_control st \<and> held (admit mode (Some e) st) = Suc (held st) \<and>
    map ct_executionId (filter production (a_awaiting (admit mode (Some e) st))) = es"
proof -
  let ?P = "\<lambda>u. ct_executionId u = e \<and> kind (ct_mode u) = kind mode"
  obtain t0 ts where ts: "filter production (a_awaiting st) = t0 # ts" "ct_executionId t0 = e" "map ct_executionId ts = es"
    using line by (auto simp: Cons_eq_map_conv)
  have "t0 \<in> set (filter production (a_awaiting st))" using ts(1) by simp
  then have P0: "?P t0" "t0 \<in> set (a_awaiting st)" using ts(2) k by (simp_all add: production_def)
  then obtain xs t1 ys where ex: "List.extract ?P (a_awaiting st) = Some (xs, t1, ys)"
    by (cases "List.extract ?P (a_awaiting st)") (auto simp: extract_None_iff)
  then have split: "a_awaiting st = xs @ t1 # ys" "?P t1" "\<forall>u \<in> set xs. \<not> ?P u"
    by (auto simp: extract_Some_iff)
  have t1: "production t1" using split(2) k by (simp add: production_def)
  have "filter production xs = []"
  proof (cases "filter production xs")
    case (Cons u us)
    then have "u = t0" "u \<in> set xs" using ts(1) split(1) by (auto dest: filter_eq_ConsD)
    then show ?thesis using P0 split(3) by blast
  qed simp
  then have "filter production ys = ts" using ts(1) split(1) t1 by simp
  then show ?thesis using ts(3) t1 \<open>filter production xs = []\<close> by (simp add: admit_def ex held_def)
qed

text \<open>The reservation that is given back is no longer counted in \<open>held st\<close>.\<close>

lemma releaseCapacity_production:
  assumes t: "production t" and run: "releaseCapacity (Some t) st = Inr st'"
    and on: "cs_isEnabled (a_control st)" and q: "map_of (cs_queues (a_control st)) Production = Some q"
    and bal: "cq.balanced limit extra (Suc (held st)) q"
    and line: "map ct_executionId (filter production (a_awaiting st)) = cq_queue q"
  shows "capacity_ok limit extra st'"
proof -
  have k: "kind (ct_mode t) = Some Production" using t by (simp add: production_def)
  let ?cs = "put_queue Production (fst (dequeue q)) (a_control st)"
  have st': "st' = admit (ct_mode t) (snd (dequeue q)) (st\<lparr>a_control := ?cs\<rparr>)"
    using run on q kind_getQueue [OF k, of "a_control st"]
    by (simp add: releaseCapacity_def release_reservation_def release_def on_queue_def split_beta rbind_eq_Inr)
  have on': "cs_isEnabled ?cs" and q': "map_of (cs_queues ?cs) Production = Some (fst (dequeue q))"
    using on by (simp_all add: put_queue_def jsmap_simps)
  have held: "held (st\<lparr>a_control := ?cs\<rparr>) = held st" by (simp add: held_def)
  show ?thesis
  proof (cases "cq_queue q")
    case Nil
    note leave = cq.leave_empty [OF Nil] and bal' = cq.balanced_leave [OF bal]
    have "filter production (a_awaiting st) = []" using line Nil by simp
    then show ?thesis using leave bal' on' q' Nil by (simp add: st' admit_def capacity_ok_def held_def)
  next
    case (Cons e es)
    note leave = cq.leave_next [OF Cons] and bal' = cq.balanced_leave [OF bal]
    have "map ct_executionId (filter production (a_awaiting (st\<lparr>a_control := ?cs\<rparr>))) = e # es" using line Cons by simp
    from admit_head [OF k this] show ?thesis using leave bal' on' q' held by (simp add: st' capacity_ok_def)
  qed
qed

text \<open>Taking an execution that waits out of the queue.\<close>

lemma remove1_line:
  "map ct_executionId (filter production ts) = line \<Longrightarrow> kind mode = Some Production \<Longrightarrow>
    map ct_executionId (filter production (case List.extract (\<lambda>t. ct_executionId t = e \<and> kind (ct_mode t) = kind mode) ts of
      None \<Rightarrow> ts | Some (xs, t, ys) \<Rightarrow> xs @ ys)) = remove1 e line"
proof (induction ts arbitrary: line)
  case (Cons t ts)
  show ?case
  proof (cases "ct_executionId t = e \<and> production t")
    case True
    then show ?thesis unfolding Cons.prems(1) [symmetric] using Cons.prems(2) by (simp add: extract_Cons_code production_def [of t])
  next
    case False
    then show ?thesis using Cons.IH [OF refl Cons.prems(2)] Cons.prems
      by (auto simp: extract_Cons_code production_def split: option.splits)
  qed
qed (simp add: extract_Nil_code)

lemma stopInRegularMode_ok:
  assumes run: "stopInRegularMode executionId mode st = Inr st'" and ok: "capacity_ok limit extra st"
  shows "capacity_ok limit (if service_has (a_control st) executionId then Suc extra else extra) st'"
proof (cases "service_has (a_control st) executionId")
  case False
  then have "same_capacity st st'" using run same_capacity_steps(1) by (auto simp: stopInRegularMode_def)
  then show ?thesis using ok False same_capacity_okI by simp
next
  case True
  obtain q where q: "cs_isEnabled (a_control st)" "map_of (cs_queues (a_control st)) Production = Some q"
      "cq.balanced limit extra (held st) q" "map ct_executionId (filter production (a_awaiting st)) = cq_queue q"
    using ok unfolding capacity_ok_def by auto
  define awaiting where "awaiting = (case List.extract (\<lambda>t. ct_executionId t = executionId \<and> kind (ct_mode t) = kind mode) (a_awaiting st) of
      None \<Rightarrow> a_awaiting st | Some (xs, t, ys) \<Rightarrow> xs @ ys)"
  obtain cs n where cs: "service_remove mode executionId (a_control st) = Inr (cs, n)"
      "st' = admit mode n (st\<lparr>a_control := cs, a_awaiting := awaiting\<rparr>)"
    using run True by (auto simp: stopInRegularMode_def rbind_eq_Inr Let_def awaiting_def)
  have held: "held (st\<lparr>a_control := c, a_awaiting := a\<rparr>) = held st" for c a by (simp add: held_def)
  show ?thesis
  proof (cases "kind mode = Some Production")
    case k: True
    let ?r = "remove executionId q"
    have cs': "cs = put_queue Production (fst ?r) (a_control st)" "n = snd ?r"
      using cs(1) q(1,2) kind_getQueue [OF k, of "a_control st"]
      by (auto simp: service_remove_def on_queue_def split: prod.splits)
    have on': "cs_isEnabled cs" and q': "map_of (cs_queues cs) Production = Some (fst ?r)"
      using q(1) by (simp_all add: cs' put_queue_def jsmap_simps)
    have line: "map ct_executionId (filter production awaiting) = remove1 executionId (cq_queue q)"
      unfolding awaiting_def by (rule remove1_line [OF q(4) k])
    note bal = cq.balanced_take_off [OF q(3), of executionId]
    have rest: "remove1 executionId (cq_queue q) = let_through (snd ?r) @ cq_queue (fst ?r)"
      by (auto simp: remove_def resolveNext_def let_through_def remove1_idem split: list.split)
    show ?thesis
    proof (cases "snd ?r")
      case None
      then show ?thesis using bal on' q' line rest held True cs(2) cs'(2)
        by (simp add: capacity_ok_def admit_def let_through_def)
    next
      case (Some e)
      then have "map ct_executionId (filter production (a_awaiting (st\<lparr>a_control := cs, a_awaiting := awaiting\<rparr>))) = e # cq_queue (fst ?r)"
        using line rest by (simp add: let_through_def)
      from admit_head [OF k this] show ?thesis using bal on' q' held True cs(2) cs'(2) Some
        by (simp add: capacity_ok_def)
    qed
  next
    case False
    have same: "cs_isEnabled cs = cs_isEnabled (a_control st) \<and> map_of (cs_queues cs) Production = map_of (cs_queues (a_control st)) Production"
      using getQueue_other [OF False, of "a_control st"] cs(1) q(1)
      by (auto simp: service_remove_def on_queue_def put_queue_def jsmap_simps split_beta split: if_splits)
    have waiting: "filter production awaiting = filter production (a_awaiting st)"
      using False by (auto simp: awaiting_def production_def extract_Some_iff split: option.splits)
    have "filter production (a_awaiting st') = filter production awaiting \<and>
        filter production (a_granted st') = filter production (a_granted st) \<and> a_objects st' = a_objects st \<and> a_control st' = cs"
      using False unfolding cs(2) by (auto simp: admit_def production_def extract_Some_iff split: option.splits)
    then show ?thesis using q same waiting True by (auto simp: capacity_ok_def held_def cq.balanced_def)
  qed
qed

lemma releaseCapacity_other:
  assumes t: "\<not> production t" and run: "releaseCapacity (Some t) st = Inr st'" and ok: "capacity_ok limit extra st"
  shows "capacity_ok limit extra st'"
proof -
  obtain cs n where cs: "release (ct_mode t) (a_control st) = Inr (cs, n)" "st' = admit (ct_mode t) n (st\<lparr>a_control := cs\<rparr>)"
    using run by (auto simp: releaseCapacity_def release_reservation_def rbind_eq_Inr)
  have cs': "cs_isEnabled cs = cs_isEnabled (a_control st) \<and>
      map_of (cs_queues cs) Production = map_of (cs_queues (a_control st)) Production"
    using other_queue(1) [OF _ cs(1)] t by (simp add: production_def)
  have "filter production (a_awaiting st') = filter production (a_awaiting st) \<and>
      filter production (a_granted st') = filter production (a_granted st) \<and> a_objects st' = a_objects st \<and> a_control st' = cs"
    using t unfolding cs(2) by (auto simp: admit_def production_def extract_Some_iff split: option.splits)
  then show ?thesis using ok cs' unfolding capacity_ok_def held_def by simp
qed

lemma releaseCapacity_ok:
  assumes run: "releaseCapacity (Some t) st = Inr st'" and ok: "capacity_ok limit extra st0"
    and same: "a_control st = a_control st0" "a_awaiting st = a_awaiting st0"
    and held: "held st0 = (if production t then Suc (held st) else held st)"
  shows "capacity_ok limit extra st'"
proof (cases "production t")
  case True
  obtain q where q: "cs_isEnabled (a_control st)" "map_of (cs_queues (a_control st)) Production = Some q"
      "cq.balanced limit extra (held st0) q" "map ct_executionId (filter production (a_awaiting st)) = cq_queue q"
    using ok same unfolding capacity_ok_def by auto
  then show ?thesis using releaseCapacity_production [OF True run] held True by simp
next
  case False
  then have "capacity_ok limit extra st" using ok same held unfolding capacity_ok_def by simp
  then show ?thesis by (rule releaseCapacity_other [OF False run])
qed

lemma add_reserve_ok:
  assumes run: "add_reserve t st = Inr st'" and ok: "capacity_ok limit extra st"
  shows "capacity_ok limit extra st'"
proof -
  obtain q where q: "cs_isEnabled (a_control st)" "map_of (cs_queues (a_control st)) Production = Some q"
      "cq.balanced limit extra (held st) q" "map ct_executionId (filter production (a_awaiting st)) = cq_queue q"
    using ok unfolding capacity_ok_def by auto
  obtain cs now where cs: "throttle (ct_mode t) (ct_executionId t) (a_control st) = Inr (cs, now)"
      "st' = (if now then st\<lparr>a_control := cs, a_granted := a_granted st @ [t]\<rparr>
              else st\<lparr>a_control := cs, a_awaiting := a_awaiting st @ [t]\<rparr>)"
    using run by (auto simp: add_reserve_def reserve_def rbind_eq_Inr)
  show ?thesis
  proof (cases "production t")
    case True
    then have k: "kind (ct_mode t) = Some Production" by (simp add: production_def)
    let ?r = "enqueue (ct_executionId t) q"
    have cs': "cs = put_queue Production (fst ?r) (a_control st)" "now = fst (snd ?r)"
      using cs(1) q(1,2) kind_getQueue [OF k, of "a_control st"] by (auto simp: throttle_def split: prod.splits)
    have line: "cq_queue (fst ?r) = (if now then cq_queue q else cq_queue q @ [ct_executionId t])"
      unfolding cs'(2) by (simp add: enqueue_def Let_def)
    show ?thesis
      using cq.balanced_arrive [OF q(3), of "ct_executionId t"] q(1,4) True line unfolding cs(2) cs'
      by (auto simp: capacity_ok_def held_def put_queue_def jsmap_simps)
  next
    case False
    have "cs_isEnabled cs \<and> map_of (cs_queues cs) Production = Some q"
      using other_queue(2) [OF _ cs(1)] q(1,2) False by (simp add: production_def)
    then show ?thesis using q False unfolding cs(2) by (auto simp: capacity_ok_def held_def)
  qed
qed

lemma add_register_ok:
  assumes run: "add_register t failure now st = Inr (st', e)" and t: "t \<in> set (a_granted st)" and ok: "capacity_ok limit extra st"
  shows "capacity_ok limit extra st'"
proof -
  let ?st = "st\<lparr>a_granted := remove1 t (a_granted st)\<rparr>"
  obtain xs ys where g: "a_granted st = xs @ t # ys" "remove1 t (a_granted st) = xs @ ys"
    using split_list_first [OF t] by (auto simp: remove1_append)
  then have held: "held st = (if production t then Suc (held ?st) else held ?st)" by (simp add: held_def)
  show ?thesis
  proof (cases failure)
    case (Some err)
    then have "releaseCapacity (Some t) ?st = Inr st'" using run by (auto simp: add_register_def rbind_eq_Inr)
    then show ?thesis by (rule releaseCapacity_ok [OF _ ok]) (use held in simp_all)
  next
    case None
    then have "a_control st' = a_control st \<and> a_awaiting st' = a_awaiting st \<and> held st' = held st"
      using run g by (auto simp: add_register_def Let_def held_def holds_production_def)
    then show ?thesis using ok by (simp add: capacity_ok_def)
  qed
qed

lemma afterExecution_ok:
  assumes run: "afterExecution r st = Inr st'" and r: "r < length (a_objects st)" and ok: "capacity_ok limit extra st"
  shows "capacity_ok limit extra st'"
proof -
  let ?ex = "a_objects st ! r"
  let ?st = "on_object r (\<lambda>x. x\<lparr>ex_reservation := None\<rparr>) st"
  obtain st1 where st1: "releaseCapacity (ex_reservation ?ex) ?st = Inr st1"
      "st' = (if ex_status ?ex = Waiting then on_object r (\<lambda>x. x\<lparr>ex_workflowExecution := False\<rparr>) st1
              else forget (ex_id ?ex) st1)"
    using run by (auto simp: afterExecution_def Let_def rbind_eq_Inr)
  have "same_capacity st1 st'" unfolding st1(2) by (simp add: same_capacity_on_object)
  moreover have "capacity_ok limit extra st1"
  proof (cases "ex_reservation ?ex")
    case None
    then have "st1 = ?st" using st1(1) by (simp add: releaseCapacity_def release_reservation_def)
    moreover have "?ex\<lparr>ex_reservation := None\<rparr> = ?ex" using None by simp
    ultimately have "st1 = st" by (simp add: on_object_def)
    then show ?thesis using ok by simp
  next
    case (Some t)
    have "held st = (if production t then Suc (held ?st) else held ?st)"
      using Some r filter_update_drop [of r "a_objects st" holds_production "?ex\<lparr>ex_reservation := None\<rparr>"]
        filter_update_same [of r "a_objects st" holds_production "\<lambda>x. x\<lparr>ex_reservation := None\<rparr>"]
      by (auto simp: held_def on_object_def holds_production_def)
    then show ?thesis using st1(1) unfolding Some by (intro releaseCapacity_ok [OF _ ok]) (simp_all add: on_object_def)
  qed
  ultimately show ?thesis by (simp add: same_capacity_ok)
qed

lemma active_step_ok: "active_step st st' \<Longrightarrow> capacity_ok limit extra st \<Longrightarrow> capacity_ok limit extra st'"
proof (induction rule: active_step.induct)
  case (Reserve t st st')
  then show ?case by (rule add_reserve_ok)
next
  case (Register t st failure now st' e)
  then show ?case using add_register_ok by blast
next
  case (After r st st')
  then show ?case using afterExecution_ok by blast
qed (blast intro: same_capacity_okI same_capacity_steps)+

definition new_ActiveExecutions :: "ConcurrencyControlService \<Rightarrow> ActiveExecutions" where
  "new_ActiveExecutions cs = \<lparr>a_objects = [], a_executions = [], a_responseModes = [], a_control = cs,
     a_regular = True, a_awaiting = [], a_granted = []\<rparr>"

text \<open>The states that are reached from one, and how often an execution that waited was taken out of the queue.\<close>

inductive active_reach :: "ActiveExecutions \<Rightarrow> nat \<Rightarrow> ActiveExecutions \<Rightarrow> bool" for st0 where
  start: "active_reach st0 0 st0"
| step: "active_reach st0 k st \<Longrightarrow> active_step st st' \<Longrightarrow> active_reach st0 k st'"
| stop: "active_reach st0 k st \<Longrightarrow> stopInRegularMode executionId mode st = Inr st' \<Longrightarrow>
    active_reach st0 (if service_has (a_control st) executionId then Suc k else k) st'"

text \<open>C40. Whatever is added, stopped, finished, left waiting, resumed or fails on the way, each production
  execution holds one unit of the capacity from when it is let through until its promise has
  settled or its start has failed. At most \<open>limit\<close> hold one, plus one for each time that an execution was stopped
  while it waited for capacity, since that lets the next one through though none has ended (see
  \<open>cancel_exceeds_limit\<close>); and executions wait only when at least \<open>limit\<close> units are held. This is for a limit that is
  set, in regular mode, before the process is shut down, which disables the control.\<close>

theorem active_executions_capacity:
  assumes "new_ConcurrencyControlService limit evaluationLimit False = Inr cs" and "limit > 0"
    and "active_reach (new_ActiveExecutions cs) stopped st"
  shows "int (held st) \<le> limit + int stopped \<and>
    (\<exists>q. map_of (cs_queues (a_control st)) Production = Some q \<and>
       cq_capacity q = limit - int (held st) - int (length (filter production (a_awaiting st))) \<and>
       (filter production (a_awaiting st) \<noteq> [] \<longrightarrow> limit \<le> int (held st)))"
proof -
  have "capacity_ok limit 0 (new_ActiveExecutions cs)"
    using assms(1,2)
    by (auto simp: new_ConcurrencyControlService_def new_ActiveExecutions_def capacity_ok_def held_def
        new_ConcurrencyQueue_def cq.balanced_def Let_def split: if_splits)
  with assms(3) have "capacity_ok limit stopped st"
    by (induction rule: active_reach.induct) (use active_step_ok stopInRegularMode_ok in blast)+
  then obtain q where q: "map_of (cs_queues (a_control st)) Production = Some q" "cq.balanced limit stopped (held st) q"
      "map ct_executionId (filter production (a_awaiting st)) = cq_queue q"
    unfolding capacity_ok_def by blast
  have "length (filter production (a_awaiting st)) = length (cq_queue q)" unfolding q(3) [symmetric] by simp
  then show ?thesis using q(1,2) unfolding cq.balanced_def by (intro conjI exI [of _ q]) (auto simp flip: q(3))
qed

definition one_at_a_time :: ConcurrencyControlService where
  "one_at_a_time = \<lparr>cs_isEnabled = True, cs_limits = [(Production, 1), (Evaluation, -1)],
     cs_queues = [(Production, \<lparr>cq_capacity = 1, cq_queue = []\<rparr>)]\<rparr>"

text \<open>With a limit of one, three executions are added, and the second is stopped while it waits: two hold a unit.\<close>

lemma active_executions_capacity_witness:
  "\<exists>st. active_reach (new_ActiveExecutions one_at_a_time) 1 st \<and> held st = 2 \<and> int (held st) \<le> 1 + 1"
proof -
  let ?t = "\<lambda>i. \<lparr>ct_mode = WebhookMode, ct_executionId = i\<rparr>"
  let ?s = "\<lambda>cap line granted aw. (new_ActiveExecutions one_at_a_time)\<lparr>a_control :=
      one_at_a_time\<lparr>cs_queues := [(Production, \<lparr>cq_capacity = cap, cq_queue = line\<rparr>)]\<rparr>,
      a_granted := granted, a_awaiting := aw\<rparr>"
  let ?s3 = "?s (-2) [''2'', ''3''] [?t ''1''] [?t ''2'', ?t ''3'']"
  have run: "add_reserve (?t ''1'') (new_ActiveExecutions one_at_a_time) = Inr (?s 0 [] [?t ''1''] [])"
    "add_reserve (?t ''2'') (?s 0 [] [?t ''1''] []) = Inr (?s (-1) [''2''] [?t ''1''] [?t ''2''])"
    "add_reserve (?t ''3'') (?s (-1) [''2''] [?t ''1''] [?t ''2'']) = Inr ?s3"
    by (simp_all add: add_reserve_def reserve_def throttle_def getQueue_def enqueue_def put_queue_def
        one_at_a_time_def new_ActiveExecutions_def Let_def)
  have stop: "stopInRegularMode ''2'' WebhookMode ?s3 = Inr (?s (-1) [] [?t ''1'', ?t ''3''] [])" "service_has (a_control ?s3) ''2''"
    by (simp_all add: stopInRegularMode_def service_has_def queue_has_def service_remove_def on_queue_def getQueue_def remove_def
        resolveNext_def put_queue_def admit_def extract_Cons_code one_at_a_time_def new_ActiveExecutions_def Let_def)
  have "active_reach (new_ActiveExecutions one_at_a_time) 0 ?s3"
    by (rule active_reach.step [OF active_reach.step [OF active_reach.step [OF active_reach.start
      active_step.Reserve [OF run(1)]] active_step.Reserve [OF run(2)]] active_step.Reserve [OF run(3)]])
  from active_reach.stop [OF this stop(1)] stop(2)
  have reach: "active_reach (new_ActiveExecutions one_at_a_time) 1 (?s (-1) [] [?t ''1'', ?t ''3''] [])" by simp
  have "new_ConcurrencyControlService 1 (-1) False = Inr one_at_a_time"
    by (simp add: new_ConcurrencyControlService_def one_at_a_time_def new_ConcurrencyQueue_def Let_def)
  from active_executions_capacity [OF this _ reach] reach show ?thesis
    by (intro exI [of _ "?s (-1) [] [?t ''1'', ?t ''3''] []"]) (simp add: held_def production_def new_ActiveExecutions_def)
qed

section \<open>Shutdown\<close>

lemma stopExecution_control [simp]: "a_control (stopExecution i st) = a_control st"
  by (simp add: stopExecution_def on_object_def forget_def Let_def split: option.split)

lemma shutdownOne_control: "a_control (fst (shutdownOne c (st, ids) i)) = a_control st"
  by (simp add: shutdownOne_def split: option.split)

lemma shutdown_control: "a_control (fst (foldl (shutdownOne c) s ids)) = a_control (fst s)"
proof (induction ids arbitrary: s)
  case (Cons i ids)
  show ?case using Cons.IH [of "shutdownOne c s i"] shutdownOne_control [of c "fst s" "snd s" i] by simp
qed simp

text \<open>A shutdown first disables the concurrency control, which makes the following \<open>removeAll\<close> return
  at once: the queues keep what is in them and no execution is cancelled in the database, whatever
  was stopped.\<close>

theorem shutdown_cancels_nothing:
  assumes "a_regular st"
  shows "snd (shutdown cancelAll st) = [] \<and>
    cs_queues (a_control (fst (shutdown cancelAll st))) = cs_queues (a_control st)"
proof -
  let ?r = "foldl (shutdownOne cancelAll) (st\<lparr>a_control := disable (a_control st)\<rparr>, []) (map fst (a_executions st))"
  have "a_control (fst ?r) = disable (a_control st)" by (simp add: shutdown_control)
  then show ?thesis using assms by (simp add: shutdown_def Let_def split_beta removeAll_def disable_def)
qed

lemma shutdown_cancels_nothing_witness:
  "snd (shutdown True ((new_ActiveExecutions one_at_a_time)\<lparr>a_control :=
     one_at_a_time\<lparr>cs_queues := [(Production, \<lparr>cq_capacity = -1, cq_queue = [''2'']\<rparr>)]\<rparr>\<rparr>)) = []"
  by (rule shutdown_cancels_nothing [THEN conjunct1]) (simp add: new_ActiveExecutions_def)

text \<open>An execution that cannot be registered gives its capacity back, and no object is left behind.\<close>

lemma admit_objects [simp]:
  "a_objects (admit mode next st) = a_objects st" "a_executions (admit mode next st) = a_executions st"
  by (auto simp: admit_def split: option.splits)

lemma failed_start_releases:
  assumes "add_register t (Some e) now st = Inr (st', r)"
  shows "r = Some e \<and> a_objects st' = a_objects st \<and> a_executions st' = a_executions st"
  using assms by (auto simp: add_register_def releaseCapacity_def Let_def rbind_eq_Inr)

end
