(* ===== verification/CircuitBreaker.thy ===== *)
theory CircuitBreaker
  imports Prelude "HOL-Library.Sublist"
begin

text \<open>
  The circuit breaker of \<open>packages/cli/src/utils/circuit-breaker.ts\<close> and the sliding window of
  failures under it (\<open>sliding-window.ts\<close>). A call of \<open>execute\<close> is cut at the \<open>await\<close> of the
  function it protects: \<open>execute\<close> decides whether the function is called at all, \<open>finished\<close> is what
  happens once it has returned or thrown; calls interleave freely. \<open>Date.now()\<close> is an argument.
\<close>

section \<open>SlidingWindow\<close>

record SlidingWindow =
  sw_maxEvents :: nat
  sw_durationMs :: int
  sw_eventTimestamps :: "int list"

text \<open>\<open>xs.slice(-n)\<close>; \<open>slice(-0)\<close> is the whole array.\<close>

definition slice_last :: "nat \<Rightarrow> 'a list \<Rightarrow> 'a list" where
  "slice_last n xs = (if n = 0 then xs else drop (length xs - n) xs)"

definition addEvent :: "int \<Rightarrow> SlidingWindow \<Rightarrow> SlidingWindow" where
  "addEvent timestamp w =
     (let ts = sw_eventTimestamps w @ [timestamp]
      in w\<lparr>sw_eventTimestamps := (if length ts > sw_maxEvents w * 2 then slice_last (sw_maxEvents w * 2) ts else ts)\<rparr>)"

definition getCount :: "int \<Rightarrow> SlidingWindow \<Rightarrow> SlidingWindow \<times> nat" where
  "getCount now w =
     (let ts = filter (\<lambda>timestamp. timestamp \<ge> now - sw_durationMs w) (sw_eventTimestamps w)
      in (w\<lparr>sw_eventTimestamps := ts\<rparr>, length ts))"

definition clear :: "SlidingWindow \<Rightarrow> SlidingWindow" where
  "clear w = w\<lparr>sw_eventTimestamps := []\<rparr>"

text \<open>A history of failures and counts, at times that do not decrease, and the failures in it.\<close>

datatype window_op = Add int | Count int

fun op_time :: "window_op \<Rightarrow> int" where
  "op_time (Add t) = t"
| "op_time (Count t) = t"

fun run_op :: "window_op \<Rightarrow> SlidingWindow \<Rightarrow> SlidingWindow" where
  "run_op (Add t) w = addEvent t w"
| "run_op (Count t) w = fst (getCount t w)"

definition failures :: "window_op list \<Rightarrow> int list" where
  "failures ops = concat (map (\<lambda>p. case p of Add t \<Rightarrow> [t] | Count t \<Rightarrow> []) ops)"

lemma failures_snoc: "failures (ops @ [p]) = failures ops @ (case p of Add t \<Rightarrow> [t] | Count t \<Rightarrow> [])"
  by (simp add: failures_def)

lemma failures_times: "set (failures ops) \<subseteq> op_time ` set ops"
  by (force simp: failures_def split: window_op.splits)

text \<open>How many of the timestamps count at a time.\<close>

definition counted :: "int \<Rightarrow> int \<Rightarrow> int list \<Rightarrow> nat" where
  "counted duration now ts = length (filter (\<lambda>t. t \<ge> now - duration) ts)"

lemma counted_append: "counted d now (xs @ ys) = counted d now xs + counted d now ys"
  by (simp add: counted_def)

lemma counted_le: "counted d now xs \<le> length xs"
  by (simp add: counted_def)

text \<open>Of a sorted list, the last \<open>n\<close> elements decide up to \<open>n\<close>.\<close>

lemma counted_drop:
  assumes "sorted ts"
  shows "min n (counted d now (drop (length ts - n) ts)) = min n (counted d now ts)"
proof (cases "counted d now (take (length ts - n) ts) = 0")
  case True
  then show ?thesis using counted_append [of d now "take (length ts - n) ts" "drop (length ts - n) ts"] by simp
next
  case False
  then obtain t where t: "t \<in> set (take (length ts - n) ts)" "t \<ge> now - d"
    by (auto simp: counted_def filter_empty_conv)
  have "sorted (take (length ts - n) ts @ drop (length ts - n) ts)" using assms by simp
  then have "\<forall>u \<in> set (drop (length ts - n) ts). t \<le> u" using t(1) unfolding sorted_append by blast
  then have "\<forall>u \<in> set (drop (length ts - n) ts). u \<ge> now - d" using t(2) by auto
  then have "counted d now (drop (length ts - n) ts) = length (drop (length ts - n) ts)"
    unfolding counted_def by (simp add: filter_True)
  moreover have "length ts - n > 0" using t(1) by (cases "length ts - n") auto
  ultimately show ?thesis using counted_append [of d now "take (length ts - n) ts" "drop (length ts - n) ts"] by simp
qed

definition window_ok :: "int \<Rightarrow> int list \<Rightarrow> SlidingWindow \<Rightarrow> bool" where
  "window_ok now full w \<longleftrightarrow> sorted (sw_eventTimestamps w) \<and> (\<forall>t \<in> set (sw_eventTimestamps w). t \<le> now) \<and>
     length (sw_eventTimestamps w) \<le> 2 * sw_maxEvents w \<and>
     (\<forall>later \<ge> now. min (2 * sw_maxEvents w) (counted (sw_durationMs w) later (sw_eventTimestamps w)) =
        min (2 * sw_maxEvents w) (counted (sw_durationMs w) later full))"

lemma run_op_options [simp]:
  "sw_maxEvents (run_op p w) = sw_maxEvents w" "sw_durationMs (run_op p w) = sw_durationMs w"
  by (cases p; simp add: addEvent_def getCount_def Let_def)+

lemma window_ok_add:
  assumes ok: "window_ok now full w" and t: "t \<ge> now" and M: "sw_maxEvents w > 0"
  shows "window_ok t (full @ [t]) (run_op (Add t) w)"
proof -
  let ?M = "2 * sw_maxEvents w" and ?d = "sw_durationMs w"
  let ?ts = "sw_eventTimestamps w @ [t]"
  have sorted: "sorted ?ts" using ok t by (auto simp: window_ok_def sorted_append)
  have same: "min ?M (counted ?d later ?ts) = min ?M (counted ?d later (full @ [t]))" if "later \<ge> t" for later
  proof -
    have "min ?M (counted ?d later (sw_eventTimestamps w)) = min ?M (counted ?d later full)"
      using ok that t unfolding window_ok_def by force
    then show ?thesis unfolding counted_append by linarith
  qed
  have new: "sw_eventTimestamps (run_op (Add t) w) = drop (length ?ts - ?M) ?ts"
    using M by (simp add: addEvent_def Let_def slice_last_def mult.commute)
  have "min ?M (counted ?d later (drop (length ?ts - ?M) ?ts)) = min ?M (counted ?d later (full @ [t]))" if "later \<ge> t" for later
    using same [OF that] counted_drop [OF sorted, of ?M ?d later] by simp
  moreover have "\<forall>u \<in> set ?ts. u \<le> t" using ok t by (auto simp: window_ok_def)
  then have "\<forall>u \<in> set (drop (length ?ts - ?M) ?ts). u \<le> t" by (meson in_set_dropD)
  moreover have "sorted (drop (length ?ts - ?M) ?ts)" using sorted by (rule sorted_wrt_drop)
  ultimately show ?thesis unfolding window_ok_def new run_op_options by simp
qed

lemma window_ok_count:
  assumes ok: "window_ok now full w" and t: "t \<ge> now"
  shows "window_ok t full (run_op (Count t) w)"
proof -
  let ?d = "sw_durationMs w" and ?ts = "sw_eventTimestamps w"
  have new: "sw_eventTimestamps (run_op (Count t) w) = filter (\<lambda>u. u \<ge> t - ?d) ?ts"
    by (simp add: getCount_def Let_def)
  have later: "counted ?d later (filter (\<lambda>u. u \<ge> t - ?d) ?ts) = counted ?d later ?ts" if "later \<ge> t" for later
    using that by (auto simp: counted_def intro!: arg_cong [where f = length] filter_cong)
  have "length (filter (\<lambda>u. u \<ge> t - ?d) ?ts) \<le> 2 * sw_maxEvents w"
    using ok length_filter_le [of "\<lambda>u. u \<ge> t - ?d" ?ts] unfolding window_ok_def by linarith
  then show ?thesis using ok t later unfolding window_ok_def new run_op_options by (auto simp: sorted_filter [of "\<lambda>x. x", simplified])
qed

definition new_SlidingWindow :: "nat \<Rightarrow> int \<Rightarrow> SlidingWindow" where
  "new_SlidingWindow maxEvents durationMs = \<lparr>sw_maxEvents = maxEvents, sw_durationMs = durationMs, sw_eventTimestamps = []\<rparr>"

lemma foldl_options [simp]:
  "sw_maxEvents (foldl (\<lambda>w p. run_op p w) w ops) = sw_maxEvents w"
  "sw_durationMs (foldl (\<lambda>w p. run_op p w) w ops) = sw_durationMs w"
  by (induction ops arbitrary: w) simp_all

lemma window_ok_run:
  assumes "maxEvents > 0" and "sorted (map op_time ops)" and "\<forall>p \<in> set ops. op_time p \<le> now"
  shows "window_ok now (failures ops) (foldl (\<lambda>w p. run_op p w) (new_SlidingWindow maxEvents d) ops)"
  using assms(2,3)
proof (induction ops arbitrary: now rule: rev_induct)
  case Nil
  then show ?case by (simp add: window_ok_def new_SlidingWindow_def failures_def)
next
  case (snoc p ops)
  let ?w = "foldl (\<lambda>w p. run_op p w) (new_SlidingWindow maxEvents d) ops"
  have "window_ok (op_time p) (failures ops) ?w"
    using snoc.IH [of "op_time p"] snoc.prems by (auto simp: sorted_append)
  then have "window_ok (op_time p) (failures (ops @ [p])) (run_op p ?w)"
    using window_ok_add [of "op_time p" "failures ops" ?w "op_time p"] window_ok_count [of "op_time p" "failures ops" ?w "op_time p"] assms(1)
    by (cases p) (simp_all add: failures_snoc new_SlidingWindow_def del: run_op.simps)
  moreover have "op_time p \<le> now" using snoc.prems(2) by simp
  ultimately show ?case unfolding window_ok_def by (auto simp: foldl_append)
qed

text \<open>Although old timestamps are thrown away as soon as there are more than twice the maximum, the
  window counts the failures of the last \<open>durationMs\<close> exactly, up to twice the maximum: with a clock
  that does not go back, the limit is reached exactly when that many failures lie in the window.\<close>

theorem sliding_window_counts:
  assumes "maxEvents > 0" and "sorted (map op_time ops)" and "\<forall>p \<in> set ops. op_time p \<le> now"
  shows "snd (getCount now (foldl (\<lambda>w p. run_op p w) (new_SlidingWindow maxEvents durationMs) ops)) =
      min (2 * maxEvents) (length (filter (\<lambda>t. t \<ge> now - durationMs) (failures ops))) \<and>
    (snd (getCount now (foldl (\<lambda>w p. run_op p w) (new_SlidingWindow maxEvents durationMs) ops)) \<ge> maxEvents \<longleftrightarrow>
      length (filter (\<lambda>t. t \<ge> now - durationMs) (failures ops)) \<ge> maxEvents)"
proof -
  let ?w = "foldl (\<lambda>w p. run_op p w) (new_SlidingWindow maxEvents durationMs) ops"
  have ok: "window_ok now (failures ops) ?w" by (rule window_ok_run [OF assms])
  have "counted durationMs now (sw_eventTimestamps ?w) \<le> 2 * maxEvents"
    using ok counted_le [of durationMs now "sw_eventTimestamps ?w"] unfolding window_ok_def
    by (simp add: new_SlidingWindow_def)
  moreover have "min (2 * maxEvents) (counted durationMs now (sw_eventTimestamps ?w)) =
      min (2 * maxEvents) (counted durationMs now (failures ops))"
    using ok unfolding window_ok_def by (simp add: new_SlidingWindow_def)
  moreover have "snd (getCount now ?w) = counted durationMs now (sw_eventTimestamps ?w)"
    by (simp add: getCount_def Let_def counted_def) (simp add: new_SlidingWindow_def)
  ultimately have eq: "snd (getCount now ?w) = min (2 * maxEvents) (length (filter (\<lambda>t. t \<ge> now - durationMs) (failures ops)))"
    by (simp add: counted_def)
  then show ?thesis by (simp add: min_def)
qed

lemma sliding_window_counts_witness:
  "snd (getCount 100 (foldl (\<lambda>w p. run_op p w) (new_SlidingWindow 1 50) [Add 10, Add 60, Count 60, Add 70, Add 80])) = 2"
  by (subst sliding_window_counts [THEN conjunct1]) (simp_all add: failures_def)

section \<open>CircuitBreaker\<close>

datatype CircuitBreakerState = CLOSED | OPEN | HALF_OPEN

record CircuitBreaker =
  cb_state :: CircuitBreakerState
  cb_halfOpenCount :: nat
  cb_lastFailureTime :: int
  cb_pendingHalfOpenRequests :: nat
  cb_inflightRequests :: nat
  cb_slidingWindow :: SlidingWindow
  cb_timeoutMs :: int
  cb_maxFailures :: nat
  cb_halfOpenRequests :: nat
  cb_maxConcurrentHalfOpenRequests :: nat

definition new_CircuitBreaker :: "int \<Rightarrow> nat \<Rightarrow> nat \<Rightarrow> int \<Rightarrow> nat option \<Rightarrow> CircuitBreaker" where
  "new_CircuitBreaker timeout maxFailures halfOpenRequests failureWindow maxConcurrent =
     \<lparr>cb_state = CLOSED, cb_halfOpenCount = 0, cb_lastFailureTime = 0, cb_pendingHalfOpenRequests = 0,
      cb_inflightRequests = 0, cb_slidingWindow = new_SlidingWindow maxFailures failureWindow,
      cb_timeoutMs = timeout, cb_maxFailures = maxFailures, cb_halfOpenRequests = halfOpenRequests,
      cb_maxConcurrentHalfOpenRequests = case_option 1 (\<lambda>n. n) maxConcurrent\<rparr>"

definition recordFailure :: "int \<Rightarrow> CircuitBreaker \<Rightarrow> CircuitBreaker" where
  "recordFailure now cb = cb\<lparr>cb_lastFailureTime := now, cb_slidingWindow := addEvent now (cb_slidingWindow cb)\<rparr>"

text \<open>A request is carried on by the handler that started it.\<close>

datatype handler = ClosedState | HalfOpenState

definition handleHalfOpenState :: "CircuitBreaker \<Rightarrow> CircuitBreaker \<times> handler res" where
  "handleHalfOpenState cb =
     (if cb_pendingHalfOpenRequests cb \<ge> cb_maxConcurrentHalfOpenRequests cb
      then (cb, Inl (NodeError ''CircuitBreakerOpen''))
      else (cb\<lparr>cb_pendingHalfOpenRequests := Suc (cb_pendingHalfOpenRequests cb),
               cb_inflightRequests := Suc (cb_inflightRequests cb)\<rparr>, Inr HalfOpenState))"

definition handleOpenState :: "int \<Rightarrow> CircuitBreaker \<Rightarrow> CircuitBreaker \<times> handler res" where
  "handleOpenState now cb =
     (if now - cb_lastFailureTime cb \<ge> cb_timeoutMs cb
      then handleHalfOpenState (cb\<lparr>cb_halfOpenCount := 0, cb_state := HALF_OPEN\<rparr>)
      else (cb, Inl (NodeError ''CircuitBreakerOpen'')))"

definition execute :: "int \<Rightarrow> CircuitBreaker \<Rightarrow> CircuitBreaker \<times> handler res" where
  "execute now cb = (case cb_state cb of
     OPEN \<Rightarrow> handleOpenState now cb
   | HALF_OPEN \<Rightarrow> handleHalfOpenState cb
   | CLOSED \<Rightarrow> (cb\<lparr>cb_inflightRequests := Suc (cb_inflightRequests cb)\<rparr>, Inr ClosedState))"

definition halfOpenSucceeded :: "CircuitBreaker \<Rightarrow> CircuitBreaker" where
  "halfOpenSucceeded cb =
     (let cb = cb\<lparr>cb_halfOpenCount := Suc (cb_halfOpenCount cb)\<rparr>
      in if cb_halfOpenCount cb \<ge> cb_halfOpenRequests cb
         then cb\<lparr>cb_state := CLOSED, cb_slidingWindow := clear (cb_slidingWindow cb)\<rparr> else cb)"

definition closedFailed :: "int \<Rightarrow> CircuitBreaker \<Rightarrow> CircuitBreaker" where
  "closedFailed now cb =
     (let cb = recordFailure now cb; (w, count) = getCount now (cb_slidingWindow cb);
          cb = cb\<lparr>cb_slidingWindow := w\<rparr>
      in if count \<ge> cb_maxFailures cb then cb\<lparr>cb_state := OPEN\<rparr> else cb)"

definition finished :: "handler \<Rightarrow> bool \<Rightarrow> int \<Rightarrow> CircuitBreaker \<Rightarrow> CircuitBreaker" where
  "finished h success now cb =
     (let cb = cb\<lparr>cb_inflightRequests := cb_inflightRequests cb - 1\<rparr>
      in case h of
           ClosedState \<Rightarrow> if success then cb else closedFailed now cb
         | HalfOpenState \<Rightarrow>
             let cb = (if success then halfOpenSucceeded cb else (recordFailure now cb)\<lparr>cb_state := OPEN\<rparr>)
             in cb\<lparr>cb_pendingHalfOpenRequests := cb_pendingHalfOpenRequests cb - 1\<rparr>)"

subsection \<open>Interleaved requests\<close>

text \<open>The breaker and the requests that are under way; \<open>now\<close> is the time of the step.\<close>

inductive breaker_step :: "int \<Rightarrow> CircuitBreaker \<times> handler multiset \<Rightarrow> CircuitBreaker \<times> handler multiset \<Rightarrow> bool" where
  Call: "execute now cb = (cb', Inr h) \<Longrightarrow> breaker_step now (cb, hs) (cb', add_mset h hs)"
| Reject: "execute now cb = (cb', Inl e) \<Longrightarrow> breaker_step now (cb, hs) (cb', hs)"
| Return: "h \<in># hs \<Longrightarrow> breaker_step now (cb, hs) (finished h success now cb, hs - {#h#})"

inductive breaker_run :: "(int \<Rightarrow> bool) \<Rightarrow> CircuitBreaker \<times> handler multiset \<Rightarrow> CircuitBreaker \<times> handler multiset \<Rightarrow> bool"
  for when_ok where
  Start: "breaker_run when_ok s s"
| Step: "breaker_run when_ok s t \<Longrightarrow> when_ok now \<Longrightarrow> breaker_step now t u \<Longrightarrow> breaker_run when_ok s u"

lemmas breaker_defs = execute_def handleOpenState_def handleHalfOpenState_def finished_def closedFailed_def
  halfOpenSucceeded_def recordFailure_def Let_def

definition counts_ok :: "CircuitBreaker \<times> handler multiset \<Rightarrow> bool" where
  "counts_ok s \<longleftrightarrow> cb_inflightRequests (fst s) = size (snd s) \<and>
     cb_pendingHalfOpenRequests (fst s) = count (snd s) HalfOpenState \<and>
     count (snd s) HalfOpenState \<le> cb_maxConcurrentHalfOpenRequests (fst s)"

lemma finished_options [simp]:
  "cb_maxConcurrentHalfOpenRequests (finished h ok now cb) = cb_maxConcurrentHalfOpenRequests cb"
  "cb_inflightRequests (finished h ok now cb) = cb_inflightRequests cb - 1"
  "cb_pendingHalfOpenRequests (finished h ok now cb) = cb_pendingHalfOpenRequests cb - (if h = HalfOpenState then 1 else 0)"
  by (cases h; simp add: breaker_defs getCount_def)+

lemma execute_counts:
  "execute now cb = (cb', Inr h) \<Longrightarrow> counts_ok (cb, hs) \<Longrightarrow> counts_ok (cb', add_mset h hs)"
  "execute now cb = (cb', Inl e) \<Longrightarrow> counts_ok (cb, hs) \<Longrightarrow> counts_ok (cb', hs)"
  by (auto simp: breaker_defs counts_ok_def split: CircuitBreakerState.splits if_splits)

lemma breaker_step_counts: "breaker_step now s s' \<Longrightarrow> counts_ok s \<Longrightarrow> counts_ok s'"
proof (induction rule: breaker_step.induct)
  case (Return h hs now cb success)
  then show ?case by (cases h) (auto simp: counts_ok_def size_Diff_singleton)
qed (use execute_counts in blast)+

text \<open>However requests interleave, the two counters are exact, and never more test requests than
  \<open>maxConcurrentHalfOpenRequests\<close> are under way.\<close>

theorem breaker_counts:
  assumes "breaker_run ok (new_CircuitBreaker timeout maxFailures halfOpenRequests failureWindow maxConcurrent, {#}) (cb, hs)"
  shows "cb_inflightRequests cb = size hs \<and> cb_pendingHalfOpenRequests cb = count hs HalfOpenState \<and>
    count hs HalfOpenState \<le> cb_maxConcurrentHalfOpenRequests cb"
proof -
  have "breaker_run ok s s' \<Longrightarrow> counts_ok s \<Longrightarrow> counts_ok s'" for s s'
    by (induction rule: breaker_run.induct) (use breaker_step_counts in blast)+
  from this [OF assms] show ?thesis by (simp add: counts_ok_def new_CircuitBreaker_def)
qed

text \<open>An open breaker without test requests under way stays open and lets nothing through until the
  timeout has passed, whatever the requests from before it opened do.\<close>

theorem open_until_timeout:
  assumes "breaker_run (\<lambda>now. now < t + cb_timeoutMs cb \<and> now \<ge> t) (cb, hs) (cb', hs')"
    and "cb_state cb = OPEN" and "cb_lastFailureTime cb = t" and "HalfOpenState \<notin># hs"
  shows "cb_state cb' = OPEN \<and> hs' \<subseteq># hs"
proof -
  have "breaker_run ok s s' \<Longrightarrow> ok = (\<lambda>now. now < t + cb_timeoutMs cb \<and> now \<ge> t) \<Longrightarrow> s = (cb, hs) \<Longrightarrow>
      cb_state (fst s') = OPEN \<and> cb_lastFailureTime (fst s') \<ge> t \<and> cb_timeoutMs (fst s') = cb_timeoutMs cb \<and>
      snd s' \<subseteq># hs" for ok s s'
  proof (induction rule: breaker_run.induct)
    case (Start s)
    then show ?case using assms(2,3) by simp
  next
    case (Step s s' now u)
    obtain c k where s': "s' = (c, k)" by (cases s')
    have IH: "cb_state c = OPEN" "cb_lastFailureTime c \<ge> t" "cb_timeoutMs c = cb_timeoutMs cb" "k \<subseteq># hs"
      using Step s' by auto
    have now: "now < t + cb_timeoutMs cb" "now \<ge> t" using Step by auto
    from Step(3) show ?case unfolding s'
    proof (cases rule: breaker_step.cases)
      case (Call cb' h)
      then show ?thesis using IH now by (auto simp: breaker_defs)
    next
      case (Reject cb' e)
      then show ?thesis using IH now by (auto simp: breaker_defs)
    next
      case (Return h success)
      then have "h = ClosedState" using IH(4) assms(4) by (cases h) (auto dest: mset_subset_eqD)
      moreover have "k - {#h#} \<subseteq># hs" using IH(4) by (meson diff_subset_eq_self subset_mset.order_trans)
      ultimately show ?thesis using Return IH now by (auto simp: breaker_defs getCount_def)
    qed
  qed
  from this [OF assms(1)] show ?thesis by simp
qed

definition open_example :: CircuitBreaker where
  "open_example = (new_CircuitBreaker 1000 1 1 10000 (Some 2))\<lparr>cb_state := OPEN, cb_lastFailureTime := 5,
     cb_inflightRequests := 1\<rparr>"

lemma breaker_counts_witness:
  "\<exists>cb. breaker_run (\<lambda>now. True) (new_CircuitBreaker 1000 1 1 10000 (Some 2), {#}) (cb, {#ClosedState#}) \<and>
     cb_inflightRequests cb = 1"
proof -
  let ?cb = "new_CircuitBreaker 1000 1 1 10000 (Some 2)"
  have "breaker_step 0 (?cb, {#}) (?cb\<lparr>cb_inflightRequests := 1\<rparr>, add_mset ClosedState {#})"
    by (rule breaker_step.Call) (simp add: execute_def new_CircuitBreaker_def)
  then have run: "breaker_run (\<lambda>now. True) (?cb, {#}) (?cb\<lparr>cb_inflightRequests := 1\<rparr>, {#ClosedState#})"
    using breaker_run.Step [OF breaker_run.Start] by simp
  from breaker_counts [OF this] run show ?thesis by (intro exI [of _ "?cb\<lparr>cb_inflightRequests := 1\<rparr>"]) simp
qed

lemma open_until_timeout_witness:
  "cb_state (finished ClosedState False 500 open_example) = OPEN"
proof -
  have "breaker_step 500 (open_example, {#ClosedState#}) (finished ClosedState False 500 open_example, {#ClosedState#} - {#ClosedState#})"
    by (rule breaker_step.Return) simp
  then have "breaker_run (\<lambda>now. now < 5 + cb_timeoutMs open_example \<and> now \<ge> 5) (open_example, {#ClosedState#})
      (finished ClosedState False 500 open_example, {#ClosedState#} - {#ClosedState#})"
    by (rule breaker_run.Step [OF breaker_run.Start, rotated]) (simp add: open_example_def new_CircuitBreaker_def)
  from open_until_timeout [OF this] show ?thesis by (simp add: open_example_def new_CircuitBreaker_def)
qed

text \<open>A request that succeeds at once.\<close>

definition succeed :: "CircuitBreaker \<Rightarrow> int \<Rightarrow> CircuitBreaker" where
  "succeed cb now = (case execute now cb of (cb', Inr h) \<Rightarrow> finished h True now cb' | (cb', Inl e) \<Rightarrow> cb')"

lemma half_open_successes:
  "cb_state cb = HALF_OPEN \<Longrightarrow> cb_pendingHalfOpenRequests cb = 0 \<Longrightarrow> cb_maxConcurrentHalfOpenRequests cb > 0 \<Longrightarrow>
   ts \<noteq> [] \<Longrightarrow> cb_halfOpenCount cb + length ts = cb_halfOpenRequests cb \<Longrightarrow>
   cb_state (foldl succeed cb ts) = CLOSED \<and> sw_eventTimestamps (cb_slidingWindow (foldl succeed cb ts)) = []"
proof (induction ts arbitrary: cb)
  case (Cons t ts)
  show ?case
  proof (cases "ts = []")
    case True
    then show ?thesis using Cons.prems by (simp add: succeed_def breaker_defs clear_def)
  next
    case False
    then have "length ts > 0" by simp
    then have "Suc (cb_halfOpenCount cb) < cb_halfOpenRequests cb" using Cons.prems(5) unfolding list.size by linarith
    then have "cb_state (succeed cb t) = HALF_OPEN" "cb_pendingHalfOpenRequests (succeed cb t) = 0"
      "cb_maxConcurrentHalfOpenRequests (succeed cb t) > 0"
      "cb_halfOpenCount (succeed cb t) + length ts = cb_halfOpenRequests (succeed cb t)"
      using Cons.prems by (auto simp: succeed_def breaker_defs)
    from Cons.IH [OF this(1-3) False this(4)] show ?thesis by simp
  qed
qed simp

text \<open>Recovery: after the timeout, as many successful requests as \<open>halfOpenRequests\<close> close the breaker
  and forget the failures.\<close>

theorem breaker_recovers:
  assumes "cb_state cb = OPEN" and "cb_pendingHalfOpenRequests cb = 0" and "cb_maxConcurrentHalfOpenRequests cb > 0"
    and "length (t # ts) = cb_halfOpenRequests cb" and "t \<ge> cb_lastFailureTime cb + cb_timeoutMs cb"
  shows "cb_state (foldl succeed cb (t # ts)) = CLOSED \<and>
    sw_eventTimestamps (cb_slidingWindow (foldl succeed cb (t # ts))) = []"
proof -
  let ?cb = "cb\<lparr>cb_halfOpenCount := 0, cb_state := HALF_OPEN\<rparr>"
  have "succeed cb t = succeed ?cb t" using assms(1,5) by (simp add: succeed_def execute_def handleOpenState_def)
  moreover have "cb_state (foldl succeed ?cb (t # ts)) = CLOSED \<and>
      sw_eventTimestamps (cb_slidingWindow (foldl succeed ?cb (t # ts))) = []"
    using assms(2-4) by (intro half_open_successes) simp_all
  ultimately show ?thesis by simp
qed

lemma breaker_recovers_witness: "cb_state (succeed (open_example) 1005) = CLOSED"
  using breaker_recovers [of open_example 1005 "[]"] by (simp add: open_example_def new_CircuitBreaker_def)

text \<open>A breaker that a failing test request has just opened again is closed at once by another test
  request that was under way: no timeout passes, and the failure is forgotten.\<close>

theorem open_closed_without_timeout:
  "\<exists>s s'. breaker_run (\<lambda>now. now \<le> 1000) (new_CircuitBreaker 1000 1 1 10000 (Some 2), {#}) s \<and>
     cb_state (fst s) = OPEN \<and> cb_lastFailureTime (fst s) = 1000 \<and>
     breaker_step 1000 s s' \<and> cb_state (fst s') = CLOSED"
proof -
  let ?c0 = "new_CircuitBreaker 1000 1 1 10000 (Some 2)"
  let ?c1 = "fst (execute 0 ?c0)"
  let ?c2 = "finished ClosedState False 0 ?c1"
  let ?c3 = "fst (execute 1000 ?c2)"
  let ?c4 = "fst (execute 1000 ?c3)"
  let ?c5 = "finished HalfOpenState False 1000 ?c4"
  let ?R = "breaker_run (\<lambda>now. now \<le> 1000) (?c0, {#})"
  note ev = new_CircuitBreaker_def new_SlidingWindow_def breaker_defs addEvent_def getCount_def slice_last_def
  have c1: "execute 0 ?c0 = (?c1, Inr ClosedState)" by (simp add: ev)
  have c2: "cb_state ?c2 = OPEN" "cb_lastFailureTime ?c2 = 0" "cb_timeoutMs ?c2 = 1000" "cb_pendingHalfOpenRequests ?c2 = 0"
      "cb_maxConcurrentHalfOpenRequests ?c2 = 2" "cb_halfOpenRequests ?c2 = 1"
    by (simp_all add: ev)
  have c3: "execute 1000 ?c2 = (?c3, Inr HalfOpenState)" "cb_state ?c3 = HALF_OPEN" "cb_pendingHalfOpenRequests ?c3 = 1"
      "cb_maxConcurrentHalfOpenRequests ?c3 = 2" "cb_halfOpenRequests ?c3 = 1"
    using c2 by (simp_all add: execute_def handleOpenState_def handleHalfOpenState_def)
  have c4: "execute 1000 ?c3 = (?c4, Inr HalfOpenState)" "cb_halfOpenRequests ?c4 = 1"
    using c3(2-5) by (simp_all add: execute_def handleHalfOpenState_def)
  have c5: "cb_state ?c5 = OPEN" "cb_lastFailureTime ?c5 = 1000" "cb_halfOpenRequests ?c5 = 1"
    using c4(2) by (simp_all add: finished_def recordFailure_def Let_def)
  have "?R (?c1, {#ClosedState#})" using breaker_run.Step [OF breaker_run.Start, OF _ breaker_step.Call [OF c1]] by simp
  then have "?R (?c2, {#})"
    using breaker_run.Step [OF _ _ breaker_step.Return [of ClosedState "{#ClosedState#}" 0 ?c1 False]] by simp
  then have "?R (?c3, {#HalfOpenState#})" using breaker_run.Step [OF _ _ breaker_step.Call [OF c3(1)]] by simp
  then have "?R (?c4, {#HalfOpenState, HalfOpenState#})" using breaker_run.Step [OF _ _ breaker_step.Call [OF c4(1)]] by simp
  then have R: "?R (?c5, {#HalfOpenState#})"
    using breaker_run.Step [OF _ _ breaker_step.Return [of HalfOpenState "{#HalfOpenState, HalfOpenState#}" 1000 ?c4 False]] by simp
  have "breaker_step 1000 (?c5, {#HalfOpenState#}) (finished HalfOpenState True 1000 ?c5, {#HalfOpenState#} - {#HalfOpenState#})"
    by (rule breaker_step.Return) simp
  moreover have "cb_state (finished HalfOpenState True 1000 ?c5) = CLOSED"
    using c5(3) by (simp add: finished_def halfOpenSucceeded_def Let_def)
  ultimately show ?thesis using R c5(1,2) by fastforce
qed

end
