(* ===== verification/PermissionTables.thy ===== *)
theory PermissionTables
  imports Prelude
begin

text \<open>
  The tables of \<open>packages/@n8n/permissions/src\<close>: the operations of every resource
  (\<open>constants.ee.ts\<close>), the scopes they give (\<open>scope-information.ts\<close>), the scopes of the built-in
  roles (\<open>roles/scopes\<close>, \<open>roles/role-maps.ee.ts\<close>) and of public API keys
  (\<open>public-api-permissions.ee.ts\<close>). A scope is the string \<open>resource:operation\<close>.
\<close>

section \<open>Resources\<close>

definition DEFAULT_OPERATIONS :: "string list" where
  "DEFAULT_OPERATIONS = [''create'', ''read'', ''update'', ''delete'', ''list'']"

definition RESOURCES :: "(string \<times> string list) list" where
  "RESOURCES =
    [(''aiAssistant'', [''manage'']),
     (''annotationTag'', DEFAULT_OPERATIONS),
     (''auditLogs'', [''manage'']),
     (''banner'', [''dismiss'']),
     (''community'', [''register'']),
     (''communityPackage'', [''install'', ''uninstall'', ''update'', ''list'', ''manage'']),
     (''credential'', [''share'', ''unshare'', ''shareGlobally'', ''move''] @ DEFAULT_OPERATIONS),
     (''externalSecretsProvider'', [''sync''] @ DEFAULT_OPERATIONS),
     (''externalSecret'', [''list'']),
     (''eventBusDestination'', [''test''] @ DEFAULT_OPERATIONS),
     (''ldap'', [''sync'', ''manage'']),
     (''license'', [''manage'']),
     (''logStreaming'', [''manage'']),
     (''orchestration'', [''read'', ''list'']),
     (''project'', DEFAULT_OPERATIONS),
     (''saml'', [''manage'']),
     (''securityAudit'', [''generate'']),
     (''securitySettings'', [''manage'']),
     (''sourceControl'', [''pull'', ''push'', ''manage'']),
     (''tag'', DEFAULT_OPERATIONS),
     (''user'', [''resetPassword'', ''changeRole'', ''enforceMfa'', ''generateInviteLink''] @ DEFAULT_OPERATIONS),
     (''variable'', DEFAULT_OPERATIONS),
     (''projectVariable'', DEFAULT_OPERATIONS),
     (''workersView'', [''manage'']),
     (''workflow'', [''share'', ''unshare'', ''execute'', ''execute-chat'', ''move'', ''activate'', ''deactivate'', ''publish'', ''unpublish'', ''updateRedactionSetting''] @ DEFAULT_OPERATIONS),
     (''folder'', DEFAULT_OPERATIONS @ [''move'']),
     (''insights'', [''list'']),
     (''oidc'', [''manage'']),
     (''provisioning'', [''manage'']),
     (''dataTable'', DEFAULT_OPERATIONS @ [''readRow'', ''writeRow'', ''listProject'']),
     (''execution'', [''delete'', ''read'', ''retry'', ''list'', ''get'', ''reveal'']),
     (''workflowTags'', [''update'', ''list'']),
     (''role'', [''manage'']),
     (''mcp'', [''manage'', ''oauth'']),
     (''mcpApiKey'', [''create'', ''rotate'']),
     (''chatHub'', [''manage'', ''message'']),
     (''chatHubAgent'', DEFAULT_OPERATIONS),
     (''breakingChanges'', [''list'']),
     (''apiKey'', [''manage'']),
     (''credentialResolver'', DEFAULT_OPERATIONS)]"

definition API_KEY_RESOURCES :: "(string \<times> string list) list" where
  "API_KEY_RESOURCES =
    [(''tag'', DEFAULT_OPERATIONS),
     (''workflow'', DEFAULT_OPERATIONS @ [''move'', ''activate'', ''deactivate'']),
     (''variable'', [''create'', ''update'', ''delete'', ''list'']),
     (''securityAudit'', [''generate'']),
     (''project'', [''create'', ''update'', ''delete'', ''list'']),
     (''user'', [''read'', ''list'', ''create'', ''changeRole'', ''delete'', ''enforceMfa'']),
     (''execution'', [''delete'', ''read'', ''retry'', ''list'', ''get'', ''stop'']),
     (''credential'', [''create'', ''update'', ''move'', ''delete'', ''list'']),
     (''sourceControl'', [''pull'']),
     (''workflowTags'', [''update'', ''list'']),
     (''executionTags'', [''update'', ''list'']),
     (''dataTable'', [''create'', ''read'', ''update'', ''delete'', ''list'']),
     (''dataTableRow'', [''create'', ''read'', ''update'', ''delete'', ''upsert''])]"

section \<open>Scopes\<close>

text \<open>\<open>buildResourceScopes\<close> and \<open>buildApiKeyScopes\<close>.\<close>

definition scope_of :: "string \<Rightarrow> string \<Rightarrow> string" where
  "scope_of resource op = resource @ '':'' @ op"

definition ALL_SCOPES :: "string list" where
  "ALL_SCOPES = concat (map (\<lambda>(resource, ops). map (scope_of resource) ops @ [scope_of resource ''*'']) RESOURCES) @ [''*'']"

definition ALL_API_KEY_SCOPES :: "string list" where
  "ALL_API_KEY_SCOPES = to_set (concat (map (\<lambda>(resource, ops). map (scope_of resource) ops) API_KEY_RESOURCES))"

section \<open>Scopes of the built-in roles\<close>

definition GLOBAL_OWNER_SCOPES :: "string list" where
  "GLOBAL_OWNER_SCOPES =
    [''aiAssistant:manage'', ''annotationTag:create'', ''annotationTag:read'', ''annotationTag:update'',
     ''annotationTag:delete'', ''annotationTag:list'', ''auditLogs:manage'', ''banner:dismiss'',
     ''credential:create'', ''credential:read'', ''credential:update'', ''credential:delete'',
     ''credential:list'', ''credential:share'', ''credential:unshare'', ''credential:shareGlobally'',
     ''credential:move'', ''community:register'', ''communityPackage:install'',
     ''communityPackage:uninstall'', ''communityPackage:update'', ''communityPackage:list'',
     ''eventBusDestination:create'', ''eventBusDestination:read'', ''eventBusDestination:update'',
     ''eventBusDestination:delete'', ''eventBusDestination:list'', ''eventBusDestination:test'',
     ''externalSecretsProvider:create'', ''externalSecretsProvider:read'',
     ''externalSecretsProvider:update'', ''externalSecretsProvider:delete'',
     ''externalSecretsProvider:list'', ''externalSecretsProvider:sync'', ''externalSecret:list'',
     ''ldap:manage'', ''ldap:sync'', ''license:manage'', ''logStreaming:manage'',
     ''orchestration:read'', ''saml:manage'', ''securityAudit:generate'', ''securitySettings:manage'',
     ''sourceControl:pull'', ''sourceControl:push'', ''sourceControl:manage'', ''tag:create'',
     ''tag:read'', ''tag:update'', ''tag:delete'', ''tag:list'', ''user:create'', ''user:read'',
     ''user:update'', ''user:delete'', ''user:list'', ''user:resetPassword'',
     ''user:generateInviteLink'', ''user:changeRole'', ''user:enforceMfa'', ''variable:create'',
     ''variable:read'', ''variable:update'', ''variable:delete'', ''variable:list'',
     ''projectVariable:create'', ''projectVariable:read'', ''projectVariable:update'',
     ''projectVariable:delete'', ''projectVariable:list'', ''workflow:create'', ''workflow:read'',
     ''workflow:update'', ''workflow:publish'', ''workflow:unpublish'', ''workflow:delete'',
     ''workflow:list'', ''workflow:share'', ''workflow:unshare'', ''workflow:execute'',
     ''workflow:execute-chat'', ''workflow:move'', ''workflow:updateRedactionSetting'',
     ''workersView:manage'', ''project:list'', ''project:create'', ''project:read'', ''project:update'',
     ''project:delete'', ''insights:list'', ''folder:move'', ''folder:read'', ''folder:update'',
     ''folder:delete'', ''folder:create'', ''folder:list'', ''oidc:manage'', ''provisioning:manage'',
     ''dataTable:create'', ''dataTable:delete'', ''dataTable:read'', ''dataTable:update'',
     ''dataTable:list'', ''dataTable:listProject'', ''dataTable:readRow'', ''dataTable:writeRow'',
     ''role:manage'', ''mcp:manage'', ''mcp:oauth'', ''mcpApiKey:create'', ''mcpApiKey:rotate'',
     ''chatHub:manage'', ''chatHub:message'', ''chatHubAgent:create'', ''chatHubAgent:read'',
     ''chatHubAgent:update'', ''chatHubAgent:delete'', ''chatHubAgent:list'', ''breakingChanges:list'',
     ''execution:reveal'', ''apiKey:manage'', ''credentialResolver:create'',
     ''credentialResolver:read'', ''credentialResolver:update'', ''credentialResolver:delete'',
     ''credentialResolver:list'']"

definition GLOBAL_ADMIN_SCOPES :: "string list" where
  "GLOBAL_ADMIN_SCOPES = GLOBAL_OWNER_SCOPES"

definition GLOBAL_MEMBER_SCOPES :: "string list" where
  "GLOBAL_MEMBER_SCOPES =
    [''annotationTag:create'', ''annotationTag:read'', ''annotationTag:update'',
     ''annotationTag:delete'', ''annotationTag:list'', ''eventBusDestination:list'',
     ''eventBusDestination:test'', ''tag:create'', ''tag:read'', ''tag:update'', ''tag:list'',
     ''user:list'', ''variable:list'', ''variable:read'', ''dataTable:list'', ''mcp:oauth'',
     ''mcpApiKey:create'', ''mcpApiKey:rotate'', ''chatHub:message'', ''chatHubAgent:create'',
     ''chatHubAgent:read'', ''chatHubAgent:update'', ''chatHubAgent:delete'', ''chatHubAgent:list'',
     ''apiKey:manage'', ''credentialResolver:list'']"

definition GLOBAL_CHAT_USER_SCOPES :: "string list" where
  "GLOBAL_CHAT_USER_SCOPES =
    [''chatHub:message'', ''chatHubAgent:create'', ''chatHubAgent:read'', ''chatHubAgent:update'',
     ''chatHubAgent:delete'', ''chatHubAgent:list'']"

definition REGULAR_PROJECT_ADMIN_SCOPES :: "string list" where
  "REGULAR_PROJECT_ADMIN_SCOPES =
    [''workflow:create'', ''workflow:read'', ''workflow:update'', ''workflow:publish'',
     ''workflow:unpublish'', ''workflow:delete'', ''workflow:list'', ''workflow:execute'',
     ''workflow:execute-chat'', ''workflow:move'', ''workflow:updateRedactionSetting'',
     ''credential:create'', ''credential:read'', ''credential:update'', ''credential:delete'',
     ''credential:list'', ''credential:move'', ''credential:share'', ''credential:unshare'',
     ''execution:reveal'', ''project:list'', ''project:read'', ''project:update'', ''project:delete'',
     ''folder:create'', ''folder:read'', ''folder:update'', ''folder:delete'', ''folder:list'',
     ''folder:move'', ''sourceControl:push'', ''dataTable:create'', ''dataTable:delete'',
     ''dataTable:read'', ''dataTable:update'', ''dataTable:listProject'', ''dataTable:readRow'',
     ''dataTable:writeRow'', ''projectVariable:list'', ''projectVariable:read'',
     ''projectVariable:create'', ''projectVariable:update'', ''projectVariable:delete'']"

definition PERSONAL_PROJECT_OWNER_SCOPES :: "string list" where
  "PERSONAL_PROJECT_OWNER_SCOPES =
    [''workflow:create'', ''workflow:read'', ''workflow:update'', ''workflow:delete'',
     ''workflow:list'', ''workflow:execute'', ''workflow:execute-chat'', ''workflow:move'',
     ''workflow:unpublish'', ''workflow:unshare'', ''workflow:updateRedactionSetting'',
     ''credential:create'', ''credential:read'', ''credential:update'', ''credential:delete'',
     ''credential:list'', ''credential:move'', ''credential:unshare'', ''execution:reveal'',
     ''project:list'', ''project:read'', ''folder:create'', ''folder:read'', ''folder:update'',
     ''folder:delete'', ''folder:list'', ''folder:move'', ''dataTable:create'', ''dataTable:delete'',
     ''dataTable:read'', ''dataTable:update'', ''dataTable:listProject'', ''dataTable:readRow'',
     ''dataTable:writeRow'']"

definition PROJECT_EDITOR_SCOPES :: "string list" where
  "PROJECT_EDITOR_SCOPES =
    [''workflow:create'', ''workflow:read'', ''workflow:update'', ''workflow:publish'',
     ''workflow:unpublish'', ''workflow:delete'', ''workflow:list'', ''workflow:execute'',
     ''workflow:execute-chat'', ''credential:create'', ''credential:read'', ''credential:update'',
     ''credential:delete'', ''credential:list'', ''project:list'', ''project:read'', ''folder:create'',
     ''folder:read'', ''folder:update'', ''folder:delete'', ''folder:list'', ''dataTable:create'',
     ''dataTable:delete'', ''dataTable:read'', ''dataTable:update'', ''dataTable:listProject'',
     ''dataTable:readRow'', ''dataTable:writeRow'', ''projectVariable:list'', ''projectVariable:read'',
     ''projectVariable:create'', ''projectVariable:update'', ''projectVariable:delete'']"

definition PROJECT_VIEWER_SCOPES :: "string list" where
  "PROJECT_VIEWER_SCOPES =
    [''credential:list'', ''credential:read'', ''project:list'', ''project:read'', ''workflow:list'',
     ''workflow:read'', ''workflow:execute-chat'', ''folder:read'', ''folder:list'',
     ''dataTable:listProject'', ''dataTable:read'', ''dataTable:readRow'', ''projectVariable:list'',
     ''projectVariable:read'']"

definition PROJECT_CHAT_USER_SCOPES :: "string list" where
  "PROJECT_CHAT_USER_SCOPES =
    [''workflow:execute-chat'']"

definition CREDENTIALS_SHARING_OWNER_SCOPES :: "string list" where
  "CREDENTIALS_SHARING_OWNER_SCOPES =
    [''credential:read'', ''credential:update'', ''credential:delete'', ''credential:share'',
     ''credential:unshare'', ''credential:move'']"

definition CREDENTIALS_SHARING_USER_SCOPES :: "string list" where
  "CREDENTIALS_SHARING_USER_SCOPES =
    [''credential:read'']"

definition WORKFLOW_SHARING_OWNER_SCOPES :: "string list" where
  "WORKFLOW_SHARING_OWNER_SCOPES =
    [''workflow:read'', ''workflow:update'', ''workflow:publish'', ''workflow:unpublish'',
     ''workflow:delete'', ''workflow:execute'', ''workflow:share'', ''workflow:unshare'',
     ''workflow:move'', ''workflow:execute-chat'']"

definition WORKFLOW_SHARING_EDITOR_SCOPES :: "string list" where
  "WORKFLOW_SHARING_EDITOR_SCOPES =
    [''workflow:read'', ''workflow:update'', ''workflow:publish'', ''workflow:unpublish'',
     ''workflow:execute'', ''workflow:execute-chat'']"

definition SECRETS_PROVIDER_CONNECTION_SHARING_OWNER_SCOPES :: "string list" where
  "SECRETS_PROVIDER_CONNECTION_SHARING_OWNER_SCOPES =
    [''externalSecretsProvider:read'', ''externalSecretsProvider:update'',
     ''externalSecretsProvider:delete'', ''externalSecretsProvider:list'',
     ''externalSecretsProvider:sync'', ''externalSecret:list'']"

definition SECRETS_PROVIDER_CONNECTION_SHARING_USER_SCOPES :: "string list" where
  "SECRETS_PROVIDER_CONNECTION_SHARING_USER_SCOPES =
    [''externalSecretsProvider:read'', ''externalSecretsProvider:list'', ''externalSecret:list'']"

section \<open>Roles\<close>

datatype RoleNamespace = GlobalRoles | ProjectRoles | CredentialRoles | WorkflowRoles | SecretsProviderConnectionRoles

definition GLOBAL_SCOPE_MAP :: "(string, string list) jsmap" where
  "GLOBAL_SCOPE_MAP = [(''global:owner'', GLOBAL_OWNER_SCOPES), (''global:admin'', GLOBAL_ADMIN_SCOPES),
     (''global:member'', GLOBAL_MEMBER_SCOPES), (''global:chatUser'', GLOBAL_CHAT_USER_SCOPES)]"

definition PROJECT_SCOPE_MAP :: "(string, string list) jsmap" where
  "PROJECT_SCOPE_MAP = [(''project:admin'', REGULAR_PROJECT_ADMIN_SCOPES),
     (''project:personalOwner'', PERSONAL_PROJECT_OWNER_SCOPES), (''project:editor'', PROJECT_EDITOR_SCOPES),
     (''project:viewer'', PROJECT_VIEWER_SCOPES), (''project:chatUser'', PROJECT_CHAT_USER_SCOPES)]"

definition CREDENTIALS_SHARING_SCOPE_MAP :: "(string, string list) jsmap" where
  "CREDENTIALS_SHARING_SCOPE_MAP = [(''credential:owner'', CREDENTIALS_SHARING_OWNER_SCOPES),
     (''credential:user'', CREDENTIALS_SHARING_USER_SCOPES)]"

definition WORKFLOW_SHARING_SCOPE_MAP :: "(string, string list) jsmap" where
  "WORKFLOW_SHARING_SCOPE_MAP = [(''workflow:owner'', WORKFLOW_SHARING_OWNER_SCOPES),
     (''workflow:editor'', WORKFLOW_SHARING_EDITOR_SCOPES)]"

definition SECRETS_PROVIDER_CONNECTION_SHARING_SCOPE_MAP :: "(string, string list) jsmap" where
  "SECRETS_PROVIDER_CONNECTION_SHARING_SCOPE_MAP =
     [(''secretsProviderConnection:owner'', SECRETS_PROVIDER_CONNECTION_SHARING_OWNER_SCOPES),
      (''secretsProviderConnection:user'', SECRETS_PROVIDER_CONNECTION_SHARING_USER_SCOPES)]"

fun ALL_ROLE_MAPS :: "RoleNamespace \<Rightarrow> (string, string list) jsmap" where
  "ALL_ROLE_MAPS GlobalRoles = GLOBAL_SCOPE_MAP"
| "ALL_ROLE_MAPS ProjectRoles = PROJECT_SCOPE_MAP"
| "ALL_ROLE_MAPS CredentialRoles = CREDENTIALS_SHARING_SCOPE_MAP"
| "ALL_ROLE_MAPS WorkflowRoles = WORKFLOW_SHARING_SCOPE_MAP"
| "ALL_ROLE_MAPS SecretsProviderConnectionRoles = SECRETS_PROVIDER_CONNECTION_SHARING_SCOPE_MAP"

definition namespaces :: "RoleNamespace list" where
  "namespaces = [GlobalRoles, ProjectRoles, CredentialRoles, WorkflowRoles, SecretsProviderConnectionRoles]"

definition COMBINED_ROLE_MAP :: "(string, string list) jsmap" where
  "COMBINED_ROLE_MAP = concat (map ALL_ROLE_MAPS namespaces)"

definition ROLE_NAMES :: "(string, string) jsmap" where
  "ROLE_NAMES =
    [(''global:owner'', ''Owner''),
     (''global:admin'', ''Admin''),
     (''global:member'', ''Member''),
     (''global:chatUser'', ''Chat User''),
     (''project:personalOwner'', ''Project Owner''),
     (''project:admin'', ''Project Admin''),
     (''project:editor'', ''Project Editor''),
     (''project:viewer'', ''Project Viewer''),
     (''project:chatUser'', ''Project Chat User''),
     (''credential:user'', ''Credential User''),
     (''credential:owner'', ''Credential Owner''),
     (''workflow:owner'', ''Workflow Owner''),
     (''workflow:editor'', ''Workflow Editor''),
     (''secretsProviderConnection:owner'', ''Secrets Provider Connection Owner''),
     (''secretsProviderConnection:user'', ''Secrets Provider Connection User'')]"

definition ROLE_DESCRIPTIONS :: "(string, string) jsmap" where
  "ROLE_DESCRIPTIONS =
    [(''global:owner'', ''Owner''),
     (''global:admin'', ''Admin''),
     (''global:member'', ''Member''),
     (''global:chatUser'', ''Chat User''),
     (''project:personalOwner'', ''Project Owner''),
     (''project:admin'', ''Full control of settings, members, workflows, credentials and executions''),
     (''project:editor'', ''Create, edit, and delete workflows, credentials, and executions''),
     (''project:viewer'', ''Read-only access to workflows, credentials, and executions''),
     (''project:chatUser'', ''Chat-only access to chatting with workflows that have n8n Chat enabled''),
     (''credential:user'', ''Credential User''),
     (''credential:owner'', ''Credential Owner''),
     (''workflow:owner'', ''Workflow Owner''),
     (''workflow:editor'', ''Workflow Editor''),
     (''secretsProviderConnection:owner'', ''Full control of secrets provider connection settings and secrets''),
     (''secretsProviderConnection:user'', ''Read-only access to use secrets from the connection'')]"

section \<open>Scopes of public API keys\<close>

definition OWNER_API_KEY_SCOPES :: "string list" where
  "OWNER_API_KEY_SCOPES =
    [''user:read'', ''user:list'', ''user:create'', ''user:changeRole'', ''user:delete'',
     ''user:enforceMfa'', ''sourceControl:pull'', ''securityAudit:generate'', ''project:create'',
     ''project:update'', ''project:delete'', ''project:list'', ''variable:create'', ''variable:delete'',
     ''variable:list'', ''variable:update'', ''tag:create'', ''tag:read'', ''tag:update'',
     ''tag:delete'', ''tag:list'', ''workflowTags:update'', ''workflowTags:list'',
     ''executionTags:update'', ''executionTags:list'', ''workflow:create'', ''workflow:read'',
     ''workflow:update'', ''workflow:delete'', ''workflow:list'', ''workflow:move'',
     ''workflow:activate'', ''workflow:deactivate'', ''execution:delete'', ''execution:read'',
     ''execution:retry'', ''execution:stop'', ''execution:list'', ''credential:create'',
     ''credential:update'', ''credential:move'', ''credential:delete'', ''credential:list'',
     ''dataTable:create'', ''dataTable:read'', ''dataTable:update'', ''dataTable:delete'',
     ''dataTable:list'', ''dataTableRow:create'', ''dataTableRow:read'', ''dataTableRow:update'',
     ''dataTableRow:delete'', ''dataTableRow:upsert'']"

definition ADMIN_API_KEY_SCOPES :: "string list" where
  "ADMIN_API_KEY_SCOPES = OWNER_API_KEY_SCOPES"

definition MEMBER_API_KEY_SCOPES :: "string list" where
  "MEMBER_API_KEY_SCOPES =
    [''tag:create'', ''tag:read'', ''tag:update'', ''tag:list'', ''workflowTags:update'',
     ''workflowTags:list'', ''executionTags:update'', ''executionTags:list'', ''workflow:create'',
     ''workflow:read'', ''workflow:update'', ''workflow:delete'', ''workflow:list'', ''workflow:move'',
     ''workflow:activate'', ''workflow:deactivate'', ''execution:delete'', ''execution:read'',
     ''execution:retry'', ''execution:stop'', ''execution:list'', ''credential:create'',
     ''credential:update'', ''credential:move'', ''credential:delete'', ''dataTable:create'',
     ''dataTable:read'', ''dataTable:update'', ''dataTable:delete'', ''dataTable:list'',
     ''dataTableRow:create'', ''dataTableRow:read'', ''dataTableRow:update'', ''dataTableRow:delete'',
     ''dataTableRow:upsert'']"

definition CHAT_USER_API_KEY_SCOPES :: "string list" where
  "CHAT_USER_API_KEY_SCOPES = []"

definition API_KEY_SCOPES_FOR_IMPLICIT_PERSONAL_PROJECT :: "string list" where
  "API_KEY_SCOPES_FOR_IMPLICIT_PERSONAL_PROJECT =
    [''workflowTags:update'', ''workflowTags:list'', ''executionTags:update'', ''executionTags:list'',
     ''workflow:create'', ''workflow:read'', ''workflow:update'', ''workflow:delete'',
     ''workflow:list'', ''workflow:move'', ''workflow:activate'', ''workflow:deactivate'',
     ''execution:delete'', ''execution:read'', ''execution:retry'', ''execution:stop'',
     ''execution:list'', ''credential:create'', ''credential:update'', ''credential:move'',
     ''credential:delete'', ''dataTable:create'', ''dataTable:read'', ''dataTable:update'',
     ''dataTable:delete'', ''dataTable:list'', ''dataTableRow:create'', ''dataTableRow:read'',
     ''dataTableRow:update'', ''dataTableRow:delete'', ''dataTableRow:upsert'']"

definition MAP_ROLE_SCOPES :: "(string, string list) jsmap" where
  "MAP_ROLE_SCOPES = [(''global:owner'', OWNER_API_KEY_SCOPES), (''global:admin'', ADMIN_API_KEY_SCOPES),
     (''global:member'', MEMBER_API_KEY_SCOPES), (''global:chatUser'', CHAT_USER_API_KEY_SCOPES)]"

definition PERSONAL_SPACE_PUBLISHING_SETTING :: "string \<times> string list" where
  "PERSONAL_SPACE_PUBLISHING_SETTING = (''security.personalSpacePublishing'', [''workflow:publish''])"

definition PERSONAL_SPACE_SHARING_SETTING :: "string \<times> string list" where
  "PERSONAL_SPACE_SHARING_SETTING = (''security.personalSpaceSharing'', [''workflow:share'', ''credential:share''])"

definition EXTERNAL_SECRETS_SYSTEM_ROLES_ENABLED_SETTING :: "string \<times> (string, string list) jsmap" where
  "EXTERNAL_SECRETS_SYSTEM_ROLES_ENABLED_SETTING = (''externalSecrets.systemRolesEnabled'',
     [(''project:admin'', [''externalSecretsProvider:create'', ''externalSecretsProvider:read'',
         ''externalSecretsProvider:update'', ''externalSecretsProvider:delete'', ''externalSecretsProvider:list'',
         ''externalSecretsProvider:sync'', ''externalSecret:list'']),
      (''project:editor'', [''externalSecretsProvider:read'', ''externalSecretsProvider:list'', ''externalSecret:list''])])"

end
