(* ===== verification/Permissions.thy ===== *)
theory Permissions
  imports PermissionTables
begin

text \<open>
  The checks over the tables of scopes: \<open>packages/@n8n/permissions/src/utilities\<close>, the role objects
  of \<open>roles/all-roles.ts\<close>, the guards of \<open>types.ee.ts\<close> and the scopes of API keys of
  \<open>public-api-permissions.ee.ts\<close>. A set that the code builds is a list without duplicates.
\<close>

section \<open>Levels of scopes\<close>

record ScopeLevels =
  sl_global :: "string list"
  sl_project :: "string list option"
  sl_resource :: "string list option"

text \<open>\<open>masks?.sharing\<close> is an optional list.\<close>

definition combineScopes :: "ScopeLevels \<Rightarrow> string list option \<Rightarrow> string list" where
  "combineScopes userScopes sharing =
     (let masked = (\<lambda>level. case sharing of None \<Rightarrow> level | Some allowed \<Rightarrow> filter (\<lambda>v. v \<in> set allowed) level)
      in to_set (sl_global userScopes @ case_option [] masked (sl_project userScopes) @
           case_option [] masked (sl_resource userScopes)))"

datatype ScopeMode = OneOf | AllOf

definition hasScope :: "string list \<Rightarrow> ScopeLevels \<Rightarrow> string list option \<Rightarrow> ScopeMode \<Rightarrow> bool" where
  "hasScope scope userScopes masks mode =
     (let userScopeSet = combineScopes userScopes masks
      in if mode = AllOf then scope \<noteq> [] \<and> list_all (\<lambda>s. s \<in> set userScopeSet) scope
         else list_ex (\<lambda>s. s \<in> set userScopeSet) scope)"

text \<open>A scope that a user has: on the global level, or below it and not masked.\<close>

definition granted :: "ScopeLevels \<Rightarrow> string list option \<Rightarrow> string \<Rightarrow> bool" where
  "granted us masks s \<longleftrightarrow> s \<in> set (sl_global us) \<or>
     ((\<exists>level. (sl_project us = Some level \<or> sl_resource us = Some level) \<and> s \<in> set level) \<and>
      (\<forall>allowed. masks = Some allowed \<longrightarrow> s \<in> set allowed))"

lemma set_combineScopes: "s \<in> set (combineScopes us masks) \<longleftrightarrow> granted us masks s"
  by (cases masks; cases "sl_project us"; cases "sl_resource us")
    (auto simp: combineScopes_def granted_def Let_def)

text \<open>A check succeeds exactly when one of the scopes, or each of a non-empty list, is granted:
  globally, or by the project or the resource and not masked out.\<close>

theorem hasScope_correct:
  "hasScope scopes us masks mode \<longleftrightarrow>
     (if mode = AllOf then scopes \<noteq> [] \<and> (\<forall>s \<in> set scopes. granted us masks s)
      else (\<exists>s \<in> set scopes. granted us masks s))"
  by (simp add: hasScope_def set_combineScopes list_all_iff list_ex_iff Let_def)

lemma hasScope_correct_witness:
  "hasScope [''workflow:read''] \<lparr>sl_global = [], sl_project = Some [''workflow:read''], sl_resource = None\<rparr>
     (Some [''workflow:read'']) AllOf"
  unfolding hasScope_correct by (simp add: granted_def)

text \<open>More scopes never hurt, and a mask never helps.\<close>

lemma hasScope_mono:
  assumes "\<And>s. granted us masks s \<Longrightarrow> granted us' masks' s" and "hasScope scopes us masks mode"
  shows "hasScope scopes us' masks' mode"
  using assms(2)
  by (auto simp: hasScope_def set_combineScopes list_all_iff list_ex_iff Let_def split: if_splits dest: assms(1))

lemma mask_restricts: "granted us (Some allowed) s \<Longrightarrow> granted us None s"
  by (auto simp: granted_def)

text \<open>Wildcards are scopes of their own: neither the one of a resource nor the global one grants the
  operations it stands for.\<close>

theorem wildcards_are_not_expanded:
  "set [''workflow:*'', ''*''] \<subseteq> set ALL_SCOPES \<and>
   \<not> hasScope [''workflow:read''] \<lparr>sl_global = [''workflow:*'', ''*''], sl_project = None, sl_resource = None\<rparr> None OneOf"
  by (simp add: ALL_SCOPES_def RESOURCES_def DEFAULT_OPERATIONS_def scope_of_def hasScope_def set_combineScopes granted_def)

section \<open>Principals\<close>

record DbRole =
  r_slug :: string
  r_scopes :: "string list"

record AuthPrincipal =
  ap_role :: "DbRole option"

definition scope_prefix :: "string \<Rightarrow> string" where
  "scope_prefix s = takeWhile (\<lambda>c. c \<noteq> CHR '':'') s"

definition scope_suffix :: "string \<Rightarrow> string" where
  "scope_suffix s = (case dropWhile (\<lambda>c. c \<noteq> CHR '':'') s of
     [] \<Rightarrow> ''undefined'' | c # rest \<Rightarrow> takeWhile (\<lambda>c. c \<noteq> CHR '':'') rest)"

definition by_resource :: "string list option \<Rightarrow> string list \<Rightarrow> string list" where
  "by_resource filters scopes = (case filters of None \<Rightarrow> scopes | Some fs \<Rightarrow> filter (\<lambda>s. scope_prefix s \<in> set fs) scopes)"

definition getAuthPrincipalScopes :: "AuthPrincipal \<Rightarrow> string list option \<Rightarrow> string list res" where
  "getAuthPrincipalScopes user filters =
     (case ap_role user of
        None \<Rightarrow> Inl (NodeError ''AuthPrincipal does not have a role defined'')
      | Some role \<Rightarrow> Inr (by_resource filters (r_scopes role)))"

definition getGlobalScopes :: "AuthPrincipal \<Rightarrow> string list res" where
  "getGlobalScopes user = (case ap_role user of None \<Rightarrow> Inl TypeError | Some role \<Rightarrow> Inr (r_scopes role))"

definition hasGlobalScope :: "AuthPrincipal \<Rightarrow> string list \<Rightarrow> ScopeMode \<Rightarrow> bool res" where
  "hasGlobalScope user scope mode =
     rbind (getAuthPrincipalScopes user None) (\<lambda>global.
       Inr (hasScope scope \<lparr>sl_global = global, sl_project = None, sl_resource = None\<rparr> None mode))"

text \<open>\<open>None\<close> as the scopes of an unknown role is \<open>undefined\<close>, and filtering it throws.\<close>

definition getRoleScopes :: "string \<Rightarrow> string list option \<Rightarrow> string list option res" where
  "getRoleScopes role filters =
     (case map_of COMBINED_ROLE_MAP role of
        None \<Rightarrow> if filters = None then Inr None else Inl TypeError
      | Some scopes \<Rightarrow> Inr (Some (by_resource filters scopes)))"

definition staticRolesWithScope :: "RoleNamespace \<Rightarrow> string list \<Rightarrow> string list" where
  "staticRolesWithScope namespace scopes =
     map fst (filter (\<lambda>(k, v). list_all (\<lambda>s. s \<in> set v) scopes) (ALL_ROLE_MAPS namespace))"

definition permitted :: "string \<Rightarrow> string list \<Rightarrow> (string, bool) jsmap" where
  "permitted key resourceScopes =
     foldl (\<lambda>permissions s. if scope_prefix s = key then AList.update (scope_suffix s) True permissions else permissions)
       [] resourceScopes"

definition getResourcePermissions :: "string list \<Rightarrow> (string, (string, bool) jsmap) jsmap" where
  "getResourcePermissions resourceScopes = map (\<lambda>(key, ops). (key, permitted key resourceScopes)) RESOURCES"

lemma permission_fold:
  "map_of (foldl (\<lambda>p s. if scope_prefix s = key then AList.update (scope_suffix s) True p else p) ps scopes) op =
     (if \<exists>s \<in> set scopes. scope_prefix s = key \<and> scope_suffix s = op then Some True else map_of ps op)"
  by (induction scopes arbitrary: ps) (auto simp: jsmap_simps)

lemma map_of_map_snd: "map_of (map (\<lambda>(k, v). (k, f k v)) xs) k = map_option (f k) (map_of xs k)"
  by (induction xs) auto

text \<open>A scope comes apart again into its resource and its operation.\<close>

lemma scope_of_parts:
  assumes "CHR '':'' \<notin> set resource" and "CHR '':'' \<notin> set op"
  shows "scope_prefix (scope_of resource op) = resource" and "scope_suffix (scope_of resource op) = op"
  using assms
  by (auto simp: scope_prefix_def scope_suffix_def scope_of_def takeWhile_append dropWhile_append dropWhile_eq_Nil_conv
      takeWhile_eq_all_conv)

text \<open>The record of permissions has an entry for exactly the resources, and in it the operation of a
  well-formed scope is permitted exactly when the scope is in the list.\<close>

theorem getResourcePermissions_correct:
  assumes "map_of RESOURCES resource = Some ops" and "op \<in> set ops" and "set scopes \<subseteq> set ALL_SCOPES"
  shows "\<exists>permissions. map_of (getResourcePermissions scopes) resource = Some permissions \<and>
    (map_of permissions op = Some True \<longleftrightarrow> scope_of resource op \<in> set scopes)"
proof -
  have colon: "list_all (\<lambda>(r, ops). CHR '':'' \<notin> set r \<and> list_all (\<lambda>op. CHR '':'' \<notin> set op) ops) RESOURCES"
    by (simp add: RESOURCES_def DEFAULT_OPERATIONS_def)
  then have parts: "CHR '':'' \<notin> set r \<and> CHR '':'' \<notin> set opn" if "(r, os) \<in> set RESOURCES" "opn \<in> insert ''*'' (set os)" for r os opn
    using that by (auto simp: list_all_iff)
  have res: "(resource, ops) \<in> set RESOURCES" using assms(1) by (rule map_of_SomeD)
  have "''undefined'' \<noteq> op \<and> resource \<noteq> ''*''"
  proof -
    have "list_all (\<lambda>(r, ops). ''undefined'' \<notin> set ops \<and> r \<noteq> ''*'') RESOURCES"
      by (simp add: RESOURCES_def DEFAULT_OPERATIONS_def)
    then show ?thesis using res assms(2) by (auto simp: list_all_iff)
  qed
  then have star: "\<not> (scope_prefix ''*'' = resource \<and> scope_suffix ''*'' = op)" by (simp add: scope_suffix_def)
  have iff: "scope_prefix s = resource \<and> scope_suffix s = op \<longleftrightarrow> s = scope_of resource op" if s: "s \<in> set scopes" for s
  proof -
    have "s \<in> set ALL_SCOPES" using s assms(3) by blast
    then consider "s = ''*''" | r os opn where "(r, os) \<in> set RESOURCES" "opn \<in> insert ''*'' (set os)" "s = scope_of r opn"
      unfolding ALL_SCOPES_def by auto
    then show ?thesis
    proof cases
      case 1
      moreover have "''*'' \<noteq> scope_of resource op" by (cases resource) (auto simp: scope_of_def)
      ultimately show ?thesis using star by auto
    next
      case 2
      have "scope_prefix s = r" "scope_suffix s = opn" unfolding 2(3) using parts [OF 2(1,2)] by (simp_all add: scope_of_parts)
      moreover have "scope_prefix (scope_of resource op) = resource" "scope_suffix (scope_of resource op) = op"
        using parts [OF res, of op] assms(2) by (simp_all add: scope_of_parts)
      ultimately show ?thesis using 2(3) by metis
    qed
  qed
  have "(\<exists>s \<in> set scopes. scope_prefix s = resource \<and> scope_suffix s = op) \<longleftrightarrow> (\<exists>s \<in> set scopes. s = scope_of resource op)"
    by (rule bex_cong [OF refl iff])
  then have same: "(\<exists>s \<in> set scopes. scope_prefix s = resource \<and> scope_suffix s = op) \<longleftrightarrow> scope_of resource op \<in> set scopes"
    by simp
  have perm: "map_of (getResourcePermissions scopes) resource = Some (permitted resource scopes)"
    unfolding getResourcePermissions_def
    by (subst map_of_map_snd [where f = "\<lambda>key ops. permitted key scopes"]) (simp add: assms(1))
  have "map_of (permitted resource scopes) op = Some True \<longleftrightarrow> scope_of resource op \<in> set scopes"
    unfolding permitted_def permission_fold same by simp
  with perm show ?thesis by blast
qed

lemma getResourcePermissions_correct_witness:
  "\<exists>p. map_of (getResourcePermissions [''tag:read'']) ''tag'' = Some p \<and> map_of p ''read'' = Some True"
  using getResourcePermissions_correct [of "''tag''" DEFAULT_OPERATIONS "''read''" "[''tag:read'']"]
  by (simp add: RESOURCES_def DEFAULT_OPERATIONS_def ALL_SCOPES_def scope_of_def)

text \<open>A static role is listed exactly when it passes the check for all of the scopes.\<close>

lemma staticRolesWithScope_hasScope:
  assumes "scopes \<noteq> []" and "distinct (map fst (ALL_ROLE_MAPS namespace))"
  shows "role \<in> set (staticRolesWithScope namespace scopes) \<longleftrightarrow>
    (\<exists>v. map_of (ALL_ROLE_MAPS namespace) role = Some v \<and>
       hasScope scopes \<lparr>sl_global = v, sl_project = None, sl_resource = None\<rparr> None AllOf)"
  using assms
  by (force simp: staticRolesWithScope_def hasScope_def set_combineScopes granted_def list_all_iff map_of_eq_Some_iff)

section \<open>Built-in roles\<close>

record Role =
  ro_slug :: string
  ro_displayName :: "string option"
  ro_scopes :: "string list option"
  ro_description :: "string option"
  ro_licensed :: bool
  ro_systemRole :: bool
  ro_roleType :: RoleNamespace

definition mapToRoleObject :: "(string, string list) jsmap \<Rightarrow> RoleNamespace \<Rightarrow> Role list" where
  "mapToRoleObject roles roleType = map (\<lambda>(role, v). \<lparr>ro_slug = role, ro_displayName = map_of ROLE_NAMES role,
     ro_scopes = map_of COMBINED_ROLE_MAP role, ro_description = map_of ROLE_DESCRIPTIONS role, ro_licensed = False,
     ro_systemRole = True, ro_roleType = roleType\<rparr>) roles"

definition ALL_ROLES :: "(RoleNamespace \<times> Role list) list" where
  "ALL_ROLES = map (\<lambda>n. (n, mapToRoleObject (ALL_ROLE_MAPS n) n)) namespaces"

definition isBuiltInRole :: "string \<Rightarrow> bool" where
  "isBuiltInRole role \<longleftrightarrow> map_of ROLE_NAMES role \<noteq> None"

definition isAssignableProjectRoleSlug :: "string \<Rightarrow> bool" where
  "isAssignableProjectRoleSlug slug \<longleftrightarrow> take 8 slug = ''project:'' \<and> slug \<noteq> ''project:personalOwner''"

lemmas role_maps = COMBINED_ROLE_MAP_def namespaces_def GLOBAL_SCOPE_MAP_def PROJECT_SCOPE_MAP_def
  CREDENTIALS_SHARING_SCOPE_MAP_def WORKFLOW_SHARING_SCOPE_MAP_def SECRETS_PROVIDER_CONNECTION_SHARING_SCOPE_MAP_def

lemmas scope_tables = GLOBAL_OWNER_SCOPES_def GLOBAL_MEMBER_SCOPES_def GLOBAL_CHAT_USER_SCOPES_def
  REGULAR_PROJECT_ADMIN_SCOPES_def PERSONAL_PROJECT_OWNER_SCOPES_def PROJECT_EDITOR_SCOPES_def
  PROJECT_VIEWER_SCOPES_def PROJECT_CHAT_USER_SCOPES_def CREDENTIALS_SHARING_OWNER_SCOPES_def
  CREDENTIALS_SHARING_USER_SCOPES_def WORKFLOW_SHARING_OWNER_SCOPES_def WORKFLOW_SHARING_EDITOR_SCOPES_def
  SECRETS_PROVIDER_CONNECTION_SHARING_OWNER_SCOPES_def SECRETS_PROVIDER_CONNECTION_SHARING_USER_SCOPES_def

lemma combined_roles: "map fst COMBINED_ROLE_MAP = [''global:owner'', ''global:admin'', ''global:member'', ''global:chatUser'',
   ''project:admin'', ''project:personalOwner'', ''project:editor'', ''project:viewer'', ''project:chatUser'',
   ''credential:owner'', ''credential:user'', ''workflow:owner'', ''workflow:editor'',
   ''secretsProviderConnection:owner'', ''secretsProviderConnection:user'']"
  by (simp add: role_maps)

text \<open>Every slug of a map has a name and a description, and the maps share no slug, so combining them
  loses nothing.\<close>

lemma role_objects_complete:
  "distinct (map fst COMBINED_ROLE_MAP)" "set (map fst ROLE_NAMES) = set (map fst COMBINED_ROLE_MAP)"
  "set (map fst ROLE_DESCRIPTIONS) = set (map fst COMBINED_ROLE_MAP)"
  unfolding combined_roles by (simp_all add: ROLE_NAMES_def ROLE_DESCRIPTIONS_def insert_commute)

text \<open>Membership in a table is found by unification alone.\<close>

lemma owner_has:
  "set REGULAR_PROJECT_ADMIN_SCOPES \<subseteq> set GLOBAL_OWNER_SCOPES" "set GLOBAL_MEMBER_SCOPES \<subseteq> set GLOBAL_OWNER_SCOPES"
  "set PERSONAL_PROJECT_OWNER_SCOPES \<subseteq> set GLOBAL_OWNER_SCOPES"
  "set CREDENTIALS_SHARING_OWNER_SCOPES \<subseteq> set GLOBAL_OWNER_SCOPES"
  "set WORKFLOW_SHARING_OWNER_SCOPES \<subseteq> set GLOBAL_OWNER_SCOPES"
  "set SECRETS_PROVIDER_CONNECTION_SHARING_OWNER_SCOPES \<subseteq> set GLOBAL_OWNER_SCOPES"
  unfolding scope_tables list.set by (intro insert_subsetI empty_subsetI; (rule insertI1 | rule insertI2)+)+

lemma below:
  "set PROJECT_EDITOR_SCOPES \<subseteq> set REGULAR_PROJECT_ADMIN_SCOPES" "set PROJECT_VIEWER_SCOPES \<subseteq> set PROJECT_EDITOR_SCOPES"
  "set PROJECT_CHAT_USER_SCOPES \<subseteq> set PROJECT_VIEWER_SCOPES" "set GLOBAL_CHAT_USER_SCOPES \<subseteq> set GLOBAL_MEMBER_SCOPES"
  "set CREDENTIALS_SHARING_USER_SCOPES \<subseteq> set CREDENTIALS_SHARING_OWNER_SCOPES"
  "set WORKFLOW_SHARING_EDITOR_SCOPES \<subseteq> set WORKFLOW_SHARING_OWNER_SCOPES"
  "set SECRETS_PROVIDER_CONNECTION_SHARING_USER_SCOPES \<subseteq> set SECRETS_PROVIDER_CONNECTION_SHARING_OWNER_SCOPES"
  unfolding scope_tables list.set by (intro insert_subsetI empty_subsetI; (rule insertI1 | rule insertI2)+)+

lemma owner_valid: "set GLOBAL_OWNER_SCOPES \<subseteq> set ALL_SCOPES"
  unfolding GLOBAL_OWNER_SCOPES_def ALL_SCOPES_def RESOURCES_def DEFAULT_OPERATIONS_def scope_of_def
  by (simp only: list.map prod.case append.simps concat.simps list.set)
    (intro insert_subsetI empty_subsetI; (rule insertI1 | rule insertI2)+)

text \<open>The built-in roles only have scopes that exist, the owner has all scopes of every other one, and
  each role has the scopes of the roles under it: chat user, viewer, editor and admin of a project,
  chat user and member of the instance, user and owner of what is shared.\<close>

theorem role_hierarchy:
  "(\<forall>(role, scopes) \<in> set COMBINED_ROLE_MAP. set scopes \<subseteq> set GLOBAL_OWNER_SCOPES \<and> set scopes \<subseteq> set ALL_SCOPES) \<and>
   set GLOBAL_CHAT_USER_SCOPES \<subseteq> set GLOBAL_MEMBER_SCOPES \<and>
   set PROJECT_CHAT_USER_SCOPES \<subseteq> set PROJECT_VIEWER_SCOPES \<and>
   set PROJECT_VIEWER_SCOPES \<subseteq> set PROJECT_EDITOR_SCOPES \<and>
   set PROJECT_EDITOR_SCOPES \<subseteq> set REGULAR_PROJECT_ADMIN_SCOPES \<and>
   set CREDENTIALS_SHARING_USER_SCOPES \<subseteq> set CREDENTIALS_SHARING_OWNER_SCOPES \<and>
   set WORKFLOW_SHARING_EDITOR_SCOPES \<subseteq> set WORKFLOW_SHARING_OWNER_SCOPES \<and>
   set SECRETS_PROVIDER_CONNECTION_SHARING_USER_SCOPES \<subseteq> set SECRETS_PROVIDER_CONNECTION_SHARING_OWNER_SCOPES"
proof -
  note chains = below below(1) [THEN subset_trans, OF owner_has(1)]
    below(2) [THEN subset_trans, OF below(1) [THEN subset_trans, OF owner_has(1)]]
    below(3) [THEN subset_trans, OF below(2) [THEN subset_trans, OF below(1) [THEN subset_trans, OF owner_has(1)]]]
    below(4) [THEN subset_trans, OF owner_has(2)] below(5) [THEN subset_trans, OF owner_has(4)]
    below(6) [THEN subset_trans, OF owner_has(5)] below(7) [THEN subset_trans, OF owner_has(6)]
  have "list_all (\<lambda>v. set v \<subseteq> set GLOBAL_OWNER_SCOPES) (map snd COMBINED_ROLE_MAP)"
    unfolding role_maps GLOBAL_ADMIN_SCOPES_def
    by (simp add: ALL_ROLE_MAPS.simps role_maps GLOBAL_ADMIN_SCOPES_def owner_has chains)
  then have "\<forall>(role, scopes) \<in> set COMBINED_ROLE_MAP. set scopes \<subseteq> set GLOBAL_OWNER_SCOPES"
    by (fastforce simp: list_all_iff)
  then show ?thesis using owner_valid below by blast
qed

lemma role_hierarchy_witness: "set PROJECT_VIEWER_SCOPES \<subseteq> set ALL_SCOPES"
proof -
  have "(''project:viewer'', PROJECT_VIEWER_SCOPES) \<in> set COMBINED_ROLE_MAP" by (simp add: role_maps)
  with role_hierarchy show ?thesis by blast
qed

section \<open>Public API keys\<close>

definition isApiKeyScope :: "string \<Rightarrow> bool" where
  "isApiKeyScope scope \<longleftrightarrow> scope \<in> set ALL_API_KEY_SCOPES"

definition getApiKeyScopesForRole :: "DbRole \<Rightarrow> string list" where
  "getApiKeyScopesForRole role =
     (if r_slug role = ''global:chatUser'' then []
      else to_set (filter isApiKeyScope (r_scopes role @ API_KEY_SCOPES_FOR_IMPLICIT_PERSONAL_PROJECT)))"

definition getOwnerOnlyApiKeyScopes :: "string list" where
  "getOwnerOnlyApiKeyScopes =
     filter (\<lambda>s. s \<notin> set (the (map_of MAP_ROLE_SCOPES ''global:member'')))
       (to_set (the (map_of MAP_ROLE_SCOPES ''global:owner'')))"

text \<open>The scopes offered for a key are the role's own and those of the personal project, as far as they
  are scopes of keys.\<close>

lemma set_getApiKeyScopesForRole:
  "set (getApiKeyScopesForRole role) = (if r_slug role = ''global:chatUser'' then {}
     else (set (r_scopes role) \<union> set API_KEY_SCOPES_FOR_IMPLICIT_PERSONAL_PROJECT) \<inter> set ALL_API_KEY_SCOPES)"
  by (auto simp: getApiKeyScopesForRole_def isApiKeyScope_def)

text \<open>Two scopes that count as the owner's only are offered to members: the table of member scopes that
  the difference is taken with does not list what the member role has.\<close>

theorem owner_only_scopes_of_members:
  "{''user:list'', ''variable:list''} \<subseteq>
     set (getApiKeyScopesForRole \<lparr>r_slug = ''global:member'', r_scopes = GLOBAL_MEMBER_SCOPES\<rparr>) \<inter>
     set getOwnerOnlyApiKeyScopes"
proof -
  have "''user:list'' \<in> set ALL_API_KEY_SCOPES" "''variable:list'' \<in> set ALL_API_KEY_SCOPES"
    by (simp_all add: ALL_API_KEY_SCOPES_def API_KEY_RESOURCES_def scope_of_def)
  moreover have "''user:list'' \<in> set GLOBAL_MEMBER_SCOPES" "''variable:list'' \<in> set GLOBAL_MEMBER_SCOPES"
    by (simp_all add: GLOBAL_MEMBER_SCOPES_def)
  moreover have "{''user:list'', ''variable:list''} \<subseteq> set getOwnerOnlyApiKeyScopes"
    by (simp add: getOwnerOnlyApiKeyScopes_def MAP_ROLE_SCOPES_def OWNER_API_KEY_SCOPES_def MEMBER_API_KEY_SCOPES_def)
  ultimately show ?thesis by (simp add: set_getApiKeyScopesForRole)
qed

end
