(* ===== verification/Selection.thy ===== *)
theory Selection
  imports WorkflowTypes
begin

text \<open>
  Selections of nodes that can be extracted into a sub-workflow, \<open>packages/workflow/src/graph/graph-utils.ts\<close>.

  A set is a list without duplicates. The connections of a node are objects, and each of them is in its set,
  so a set of connections is a list that may hold equal ones.

  Theorems: the search for a path ends and decides reachability, and a selection is accepted under exactly the
  conditions that its comment states; then all connections from outside go to its start and all to the outside
  leave from its end.
\<close>

section \<open>Edges\<close>

type_synonym IConnectionAdjacencyList = "(string, IConnection list) jsmap"

definition getInputEdges :: "string list \<Rightarrow> IConnectionAdjacencyList \<Rightarrow> (string \<times> IConnection) list" where
  "getInputEdges graphIds adjacencyList = concat (map (\<lambda>(from, tos).
     if from \<in> set graphIds then [] else map (Pair from) (filter (\<lambda>to. c_node to \<in> set graphIds) tos)) adjacencyList)"

definition getOutputEdges :: "string list \<Rightarrow> IConnectionAdjacencyList \<Rightarrow> (string \<times> IConnection) list" where
  "getOutputEdges graphIds adjacencyList = concat (map (\<lambda>(from, tos).
     if from \<notin> set graphIds then [] else map (Pair from) (filter (\<lambda>to. c_node to \<notin> set graphIds) tos)) adjacencyList)"

definition intersection :: "'a list \<Rightarrow> 'a list \<Rightarrow> 'a list" where
  "intersection a b = filter (\<lambda>x. x \<in> set b) a"

definition union :: "'a list \<Rightarrow> 'a list \<Rightarrow> 'a list" where
  "union a b = to_set (a @ b)"

definition difference :: "'a list \<Rightarrow> 'a list \<Rightarrow> 'a list" where
  "difference minuend subtrahend = filter (\<lambda>x. x \<notin> set subtrahend) minuend"

definition tos_of :: "IConnectionAdjacencyList \<Rightarrow> string \<Rightarrow> IConnection list" where
  "tos_of adjacencyList nodeId = (case map_of adjacencyList nodeId of None \<Rightarrow> [] | Some tos \<Rightarrow> tos)"

definition mainOthers :: "IConnectionAdjacencyList \<Rightarrow> string \<Rightarrow> string list" where
  "mainOthers adjacencyList nodeId =
     to_set (map c_node (filter (\<lambda>x. c_type x = Main \<and> c_node x \<noteq> nodeId) (tos_of adjacencyList nodeId)))"

definition getRootNodes :: "string list \<Rightarrow> IConnectionAdjacencyList \<Rightarrow> string list" where
  "getRootNodes graphIds adjacencyList =
     difference graphIds (foldl (\<lambda>innerNodes nodeId. union innerNodes (mainOthers adjacencyList nodeId)) [] graphIds)"

definition getLeafNodes :: "string list \<Rightarrow> IConnectionAdjacencyList \<Rightarrow> string list" where
  "getLeafNodes graphIds adjacencyList =
     filter (\<lambda>nodeId. length (intersection (mainOthers adjacencyList nodeId) graphIds) = 0) graphIds"

section \<open>Paths\<close>

text \<open>The stack has its top at the front; what is pushed last is popped first. One unit of fuel is one round.\<close>

definition mainTos :: "IConnectionAdjacencyList \<Rightarrow> string \<Rightarrow> string list" where
  "mainTos adjacencyList nodeId = to_set (map c_node (filter (\<lambda>x. c_type x = Main) (tos_of adjacencyList nodeId)))"

fun pathLoop :: "nat \<Rightarrow> string \<Rightarrow> IConnectionAdjacencyList \<Rightarrow> string list \<Rightarrow> string list \<Rightarrow> bool res" where
  "pathLoop 0 goal adjacencyList seen paths = Inl OutOfFuel"
| "pathLoop (Suc fuel) goal adjacencyList seen [] = Inr False"
| "pathLoop (Suc fuel) goal adjacencyList seen (nxt # paths) =
     (if nxt = goal then Inr True
      else let seen = sadd nxt seen
        in pathLoop fuel goal adjacencyList seen (rev (difference (mainTos adjacencyList nxt) seen) @ paths))"

definition path_fuel :: "IConnectionAdjacencyList \<Rightarrow> nat" where
  "path_fuel adjacencyList = Suc (Suc (sum_list (map (\<lambda>(_, tos). length tos) adjacencyList)))"

definition hasPath :: "string \<Rightarrow> string \<Rightarrow> IConnectionAdjacencyList \<Rightarrow> bool res" where
  "hasPath start goal adjacencyList = pathLoop (path_fuel adjacencyList) goal adjacencyList [] [start]"

section \<open>Adjacency lists\<close>

definition addOrCreate :: "IConnectionAdjacencyList \<Rightarrow> string \<Rightarrow> IConnection \<Rightarrow> IConnectionAdjacencyList" where
  "addOrCreate result k v = AList.update k (tos_of result k @ [v]) result"

definition buildAdjacencyList :: "IConnections \<Rightarrow> IConnectionAdjacencyList" where
  "buildAdjacencyList connectionsBySourceNode = foldl (\<lambda>result (sourceNode, types).
     foldl (\<lambda>result (_, groups). foldl (\<lambda>result group.
       foldl (\<lambda>result connection. addOrCreate result sourceNode connection) result
         (case group of None \<Rightarrow> [] | Some g \<Rightarrow> g)) result groups) result types) [] connectionsBySourceNode"

section \<open>Selections\<close>

datatype ExtractableErrorResult =
    MultipleInputNodes "string list"
  | MultipleOutputNodes "string list"
  | InputEdgeToNonRootNode string
  | OutputEdgeFromNonLeafNode string
  | NoContinuousPathFromRootToLeaf string string

record ExtractableSubgraphData =
  sel_start :: "string option"
  sel_end :: "string option"

definition first_of :: "'a list \<Rightarrow> 'a option" where
  "first_of xs = (case xs of [] \<Rightarrow> None | x # _ \<Rightarrow> Some x)"

definition inputNodesOf :: "string list \<Rightarrow> IConnectionAdjacencyList \<Rightarrow> string list" where
  "inputNodesOf graphIds adjacencyList =
     to_set (map (\<lambda>x. c_node (snd x)) (filter (\<lambda>x. c_type (snd x) = Main) (getInputEdges graphIds adjacencyList)))"

definition outputNodesOf :: "string list \<Rightarrow> IConnectionAdjacencyList \<Rightarrow> string list" where
  "outputNodesOf graphIds adjacencyList =
     to_set (map fst (filter (\<lambda>x. c_type (snd x) = Main) (getOutputEdges graphIds adjacencyList)))"

text \<open>An error of the search is passed on; it does not come up. Empty names are falsy.\<close>

definition parseExtractableSubgraphSelection ::
    "string list \<Rightarrow> IConnectionAdjacencyList \<Rightarrow> (ExtractableErrorResult list + ExtractableSubgraphData) res" where
  "parseExtractableSubgraphSelection graphIds adjacencyList =
     (let inputNodes = inputNodesOf graphIds adjacencyList;
          rootNodes = getRootNodes graphIds adjacencyList;
          rootNodes = (if length rootNodes = 0 \<and> length inputNodes = 1 then inputNodes else rootNodes);
          errors = map InputEdgeToNonRootNode (difference inputNodes rootNodes);
          rootInputNodes = intersection rootNodes inputNodes;
          errors = (if length rootInputNodes > 1 then errors @ [MultipleInputNodes rootInputNodes] else errors);
          outputNodes = outputNodesOf graphIds adjacencyList;
          leafNodes = getLeafNodes graphIds adjacencyList;
          leafNodes = (if length leafNodes = 0 \<and> length outputNodes = 1 then outputNodes else leafNodes);
          errors = errors @ map OutputEdgeFromNonLeafNode (difference outputNodes leafNodes);
          leafOutputNodes = intersection leafNodes outputNodes;
          errors = (if length leafOutputNodes > 1 then errors @ [MultipleOutputNodes leafOutputNodes] else errors);
          start = first_of rootInputNodes; goal = first_of leafOutputNodes
      in rbind (case (start, goal) of
            (Some s, Some e) \<Rightarrow> if s \<noteq> [] \<and> e \<noteq> [] then rbind (hasPath s e adjacencyList) (\<lambda>found.
                Inr (if found then errors else errors @ [NoContinuousPathFromRootToLeaf s e])) else Inr errors
          | _ \<Rightarrow> Inr errors)
        (\<lambda>errors. Inr (if length errors > 0 then Inl errors else Inr \<lparr>sel_start = start, sel_end = goal\<rparr>)))"

section \<open>The search for a path\<close>

definition main_edge :: "IConnectionAdjacencyList \<Rightarrow> string \<Rightarrow> string \<Rightarrow> bool" where
  "main_edge adj a b \<longleftrightarrow> (\<exists>c \<in> set (tos_of adj a). c_type c = Main \<and> c_node c = b)"

lemma mainTos_edge: "b \<in> set (mainTos adj a) \<longleftrightarrow> main_edge adj a b"
  by (auto simp: mainTos_def main_edge_def)

lemma length_to_set_le: "length (to_set xs) \<le> length xs"
proof -
  have "length (foldl (\<lambda>s x. sadd x s) s xs) \<le> length s + length xs" for s
  proof (induction xs arbitrary: s)
    case (Cons x xs)
    show ?case using Cons [of "sadd x s"] length_sadd_le [of x s] by simp
  qed simp
  from this [of "[]"] show ?thesis by (simp add: to_set_def)
qed

lemma length_mainTos: "length (difference (mainTos adj n) seen) \<le> length (tos_of adj n)"
proof -
  have "length (difference (mainTos adj n) seen) \<le> length (mainTos adj n)" by (simp add: difference_def)
  also have "\<dots> \<le> length (filter (\<lambda>x. c_type x = Main) (tos_of adj n))"
    unfolding mainTos_def using length_to_set_le by (metis length_map)
  also have "\<dots> \<le> length (tos_of adj n)" by simp
  finally show ?thesis .
qed

text \<open>The connections of nodes that were not popped yet bound what is still pushed.\<close>

definition rest_edges :: "string set \<Rightarrow> IConnectionAdjacencyList \<Rightarrow> nat" where
  "rest_edges seen adj = sum_list (map (\<lambda>(n, tos). if n \<in> seen then 0 else length tos) adj)"

lemma rest_edges_insert_le: "rest_edges (insert n seen) adj \<le> rest_edges seen adj"
  by (induction adj) (auto simp: rest_edges_def)

lemma rest_edges_insert:
  "n \<notin> seen \<Longrightarrow> rest_edges (insert n seen) adj + length (tos_of adj n) \<le> rest_edges seen adj"
proof (induction adj)
  case (Cons p adj)
  then show ?case using rest_edges_insert_le [of n seen adj] by (cases p) (auto simp: rest_edges_def tos_of_def)
qed (simp add: rest_edges_def tos_of_def)

text \<open>A node on the stack that was seen before has all its successors seen, or above it on the stack.\<close>

fun stack_ok :: "IConnectionAdjacencyList \<Rightarrow> string set \<Rightarrow> string set \<Rightarrow> string list \<Rightarrow> bool" where
  "stack_ok adj seen over [] = True"
| "stack_ok adj seen over (x # xs) =
     ((x \<in> seen \<longrightarrow> set (mainTos adj x) \<subseteq> seen \<union> over) \<and> stack_ok adj seen (insert x over) xs)"

lemma stack_ok_mono:
  "stack_ok adj s a xs \<Longrightarrow> s \<union> a \<subseteq> s' \<union> a' \<Longrightarrow> \<forall>x \<in> s' - s. set (mainTos adj x) \<subseteq> s' \<union> a' \<Longrightarrow> stack_ok adj s' a' xs"
proof (induction xs arbitrary: a a')
  case (Cons x xs)
  have "stack_ok adj s' (insert x a') xs" using Cons.IH [of "insert x a" "insert x a'"] Cons.prems by auto
  moreover have "set (mainTos adj x) \<subseteq> s' \<union> a'" if "x \<in> s'"
    using that Cons.prems by (cases "x \<in> s") auto
  ultimately show ?case by simp
qed simp

lemma stack_ok_push: "set ds \<inter> s = {} \<Longrightarrow> stack_ok adj s (a \<union> set ds) xs \<Longrightarrow> stack_ok adj s a (ds @ xs)"
  by (induction ds arbitrary: a) auto

lemma seen_reaches_stack:
  assumes "(main_edge adj)\<^sup>*\<^sup>* x e" and "x \<in> seen" and "e \<notin> seen" and "\<forall>x \<in> seen. set (mainTos adj x) \<subseteq> seen \<union> set paths"
  shows "\<exists>y \<in> set paths. (main_edge adj)\<^sup>*\<^sup>* y e"
  using assms
proof (induction rule: converse_rtranclp_induct)
  case (step x y)
  then have "y \<in> seen \<union> set paths" using mainTos_edge by blast
  with step show ?case by blast
qed blast

lemma pathLoop_correct:
  assumes "length paths + rest_edges (set seen) adj < fuel" and "stack_ok adj (set seen) {} paths"
    and "\<forall>x \<in> set seen. x \<noteq> e \<and> set (mainTos adj x) \<subseteq> set seen \<union> set paths"
  shows "pathLoop fuel e adj seen paths = Inr (\<exists>x \<in> set paths. (main_edge adj)\<^sup>*\<^sup>* x e)"
  using assms
proof (induction fuel e adj seen paths rule: pathLoop.induct)
  case (3 fuel e adj seen nxt paths)
  show ?case
  proof (cases "nxt = e")
    case False
    define seen' where "seen' = sadd nxt seen"
    define ds where "ds = rev (difference (mainTos adj nxt) seen')"
    have set': "set seen' = insert nxt (set seen)" "set ds = set (mainTos adj nxt) - set seen'"
      by (auto simp: seen'_def ds_def difference_def)
    have top: "nxt \<in> set seen \<Longrightarrow> set (mainTos adj nxt) \<subseteq> set seen" using "3.prems"(2) by simp
    have fuel: "length (ds @ paths) + rest_edges (set seen') adj < fuel"
    proof (cases "nxt \<in> set seen")
      case True
      then have "set ds = {}" "set seen' = set seen" using top set' by auto
      then show ?thesis using "3.prems"(1) by simp
    next
      case False
      have "length ds \<le> length (tos_of adj nxt)" unfolding ds_def using length_mainTos by simp
      with rest_edges_insert [OF False, of adj] "3.prems"(1) set' show ?thesis by simp
    qed
    have "stack_ok adj (set seen) {nxt} paths" using "3.prems"(2) by simp
    then have "stack_ok adj (set seen') (set ds) paths" by (rule stack_ok_mono) (use set' in auto)
    then have stack: "stack_ok adj (set seen') {} (ds @ paths)" by (intro stack_ok_push) (auto simp: set')
    have closed: "\<forall>x \<in> set seen'. x \<noteq> e \<and> set (mainTos adj x) \<subseteq> set seen' \<union> set (ds @ paths)"
      using "3.prems"(3) False set' by auto
    have "(\<exists>x \<in> set (nxt # paths). (main_edge adj)\<^sup>*\<^sup>* x e) \<longleftrightarrow> (\<exists>x \<in> set (ds @ paths). (main_edge adj)\<^sup>*\<^sup>* x e)"
    proof
      assume "\<exists>x \<in> set (nxt # paths). (main_edge adj)\<^sup>*\<^sup>* x e"
      moreover have "\<exists>x \<in> set (ds @ paths). (main_edge adj)\<^sup>*\<^sup>* x e" if "(main_edge adj)\<^sup>*\<^sup>* nxt e"
        by (rule seen_reaches_stack [OF that, of "set seen'"]) (use closed set' in auto)
      ultimately show "\<exists>x \<in> set (ds @ paths). (main_edge adj)\<^sup>*\<^sup>* x e" by auto
    next
      assume "\<exists>x \<in> set (ds @ paths). (main_edge adj)\<^sup>*\<^sup>* x e"
      then show "\<exists>x \<in> set (nxt # paths). (main_edge adj)\<^sup>*\<^sup>* x e"
        using set'(2) mainTos_edge by (auto intro: converse_rtranclp_into_rtranclp)
    qed
    moreover have "pathLoop fuel e adj seen' (ds @ paths) = Inr (\<exists>x \<in> set (ds @ paths). (main_edge adj)\<^sup>*\<^sup>* x e)"
      using "3.IH" [OF False seen'_def] fuel stack closed unfolding ds_def by blast
    ultimately show ?thesis using False by (simp add: Let_def seen'_def [symmetric] ds_def [symmetric])
  qed auto
qed simp_all

text \<open>C27. The search always ends, within one round for each connection and two more, and it finds a path along main
  connections exactly if there is one, of any length.\<close>

theorem hasPath_correct: "hasPath start goal adj = Inr ((main_edge adj)\<^sup>*\<^sup>* start goal)"
proof -
  have "rest_edges {} adj = sum_list (map (\<lambda>(_, tos). length tos) adj)" by (simp add: rest_edges_def case_prod_beta)
  then show ?thesis using pathLoop_correct [of "[start]" "[]" adj "path_fuel adj" goal] by (simp add: hasPath_def path_fuel_def)
qed

section \<open>Which selections are accepted\<close>

text \<open>A main connection from outside enters a node; one to the outside leaves it; inner ones join two selected nodes.\<close>

definition enters :: "string list \<Rightarrow> IConnectionAdjacencyList \<Rightarrow> string \<Rightarrow> bool" where
  "enters ids adj n \<longleftrightarrow> n \<in> set ids \<and> (\<exists>a. a \<notin> set ids \<and> main_edge adj a n)"

definition leaves :: "string list \<Rightarrow> IConnectionAdjacencyList \<Rightarrow> string \<Rightarrow> bool" where
  "leaves ids adj n \<longleftrightarrow> n \<in> set ids \<and> (\<exists>b. b \<notin> set ids \<and> main_edge adj n b)"

definition inner_target :: "string list \<Rightarrow> IConnectionAdjacencyList \<Rightarrow> string \<Rightarrow> bool" where
  "inner_target ids adj n \<longleftrightarrow> (\<exists>a \<in> set ids. a \<noteq> n \<and> main_edge adj a n)"

definition inner_source :: "string list \<Rightarrow> IConnectionAdjacencyList \<Rightarrow> string \<Rightarrow> bool" where
  "inner_source ids adj n \<longleftrightarrow> (\<exists>b \<in> set ids. b \<noteq> n \<and> main_edge adj n b)"

text \<open>The specification: at most one node is entered, at a root of the selection, at most one is left, at a leaf,
  and a path leads from the one to the other. Where there is no root, or no leaf, any node will do.\<close>

definition extractable :: "string list \<Rightarrow> IConnectionAdjacencyList \<Rightarrow> string option \<Rightarrow> string option \<Rightarrow> bool" where
  "extractable ids adj start goal \<longleftrightarrow>
     (\<forall>n. enters ids adj n \<longleftrightarrow> start = Some n) \<and> (\<forall>n. leaves ids adj n \<longleftrightarrow> goal = Some n) \<and>
     (\<forall>n. enters ids adj n \<longrightarrow> \<not> inner_target ids adj n \<or> (\<forall>m \<in> set ids. inner_target ids adj m)) \<and>
     (\<forall>n. leaves ids adj n \<longrightarrow> \<not> inner_source ids adj n \<or> (\<forall>m \<in> set ids. inner_source ids adj m)) \<and>
     (\<forall>s e. start = Some s \<longrightarrow> goal = Some e \<longrightarrow> s \<noteq> [] \<longrightarrow> e \<noteq> [] \<longrightarrow> (main_edge adj)\<^sup>*\<^sup>* s e)"

lemma tos_of_iff: "jsmap_ok adj \<Longrightarrow> c \<in> set (tos_of adj a) \<longleftrightarrow> (\<exists>tos. (a, tos) \<in> set adj \<and> c \<in> set tos)"
  by (auto simp: tos_of_def jsmap_ok_def split: option.split dest: map_of_SomeD)

lemma getInputEdges_set:
  assumes "jsmap_ok adj"
  shows "(a, c) \<in> set (getInputEdges ids adj) \<longleftrightarrow> a \<notin> set ids \<and> c_node c \<in> set ids \<and> c \<in> set (tos_of adj a)"
proof -
  have "(a, c) \<in> set (getInputEdges ids adj) \<longleftrightarrow> a \<notin> set ids \<and> c_node c \<in> set ids \<and> (\<exists>tos. (a, tos) \<in> set adj \<and> c \<in> set tos)"
  proof (induction adj)
    case (Cons p adj)
    have "getInputEdges ids (p # adj) = getInputEdges ids [p] @ getInputEdges ids adj" by (simp add: getInputEdges_def)
    then have "(a, c) \<in> set (getInputEdges ids (p # adj)) \<longleftrightarrow> (a, c) \<in> set (getInputEdges ids [p]) \<or> (a, c) \<in> set (getInputEdges ids adj)" by simp
    moreover have "(a, c) \<in> set (getInputEdges ids [p]) \<longleftrightarrow> fst p = a \<and> a \<notin> set ids \<and> c_node c \<in> set ids \<and> c \<in> set (snd p)"
      by (cases p) (auto simp: getInputEdges_def)
    ultimately show ?case unfolding Cons.IH by (cases p) auto
  qed (simp add: getInputEdges_def)
  then show ?thesis by (simp add: tos_of_iff [OF assms])
qed

lemma getOutputEdges_set:
  assumes "jsmap_ok adj"
  shows "(a, c) \<in> set (getOutputEdges ids adj) \<longleftrightarrow> a \<in> set ids \<and> c_node c \<notin> set ids \<and> c \<in> set (tos_of adj a)"
proof -
  have "(a, c) \<in> set (getOutputEdges ids adj) \<longleftrightarrow> a \<in> set ids \<and> c_node c \<notin> set ids \<and> (\<exists>tos. (a, tos) \<in> set adj \<and> c \<in> set tos)"
  proof (induction adj)
    case (Cons p adj)
    have "getOutputEdges ids (p # adj) = getOutputEdges ids [p] @ getOutputEdges ids adj" by (simp add: getOutputEdges_def)
    then have "(a, c) \<in> set (getOutputEdges ids (p # adj)) \<longleftrightarrow> (a, c) \<in> set (getOutputEdges ids [p]) \<or> (a, c) \<in> set (getOutputEdges ids adj)" by simp
    moreover have "(a, c) \<in> set (getOutputEdges ids [p]) \<longleftrightarrow> fst p = a \<and> a \<in> set ids \<and> c_node c \<notin> set ids \<and> c \<in> set (snd p)"
      by (cases p) (auto simp: getOutputEdges_def)
    ultimately show ?case unfolding Cons.IH by (cases p) auto
  qed (simp add: getOutputEdges_def)
  then show ?thesis by (simp add: tos_of_iff [OF assms])
qed

lemma inputNodesOf_set:
  assumes "jsmap_ok adj"
  shows "n \<in> set (inputNodesOf ids adj) \<longleftrightarrow> enters ids adj n"
proof -
  have "n \<in> set (inputNodesOf ids adj) \<longleftrightarrow> (\<exists>a c. (a, c) \<in> set (getInputEdges ids adj) \<and> c_type c = Main \<and> c_node c = n)"
    unfolding inputNodesOf_def set_to_set set_map set_filter image_iff by auto
  then show ?thesis unfolding getInputEdges_set [OF assms] enters_def main_edge_def by blast
qed

lemma outputNodesOf_set:
  assumes "jsmap_ok adj"
  shows "n \<in> set (outputNodesOf ids adj) \<longleftrightarrow> leaves ids adj n"
proof -
  have "n \<in> set (outputNodesOf ids adj) \<longleftrightarrow> (\<exists>c. (n, c) \<in> set (getOutputEdges ids adj) \<and> c_type c = Main)"
    unfolding outputNodesOf_def set_to_set set_map set_filter image_iff by auto
  then show ?thesis unfolding getOutputEdges_set [OF assms] leaves_def main_edge_def by blast
qed

lemma mainOthers_edge: "b \<in> set (mainOthers adj a) \<longleftrightarrow> main_edge adj a b \<and> b \<noteq> a"
  by (auto simp: mainOthers_def main_edge_def)

lemma getRootNodes_set: "n \<in> set (getRootNodes ids adj) \<longleftrightarrow> n \<in> set ids \<and> \<not> inner_target ids adj n"
proof -
  have "set (foldl (\<lambda>inner nodeId. union inner (mainOthers adj nodeId)) s xs) = set s \<union> (\<Union>x \<in> set xs. set (mainOthers adj x))" for s xs
    by (induction xs arbitrary: s) (auto simp: union_def)
  then show ?thesis by (auto simp: getRootNodes_def difference_def inner_target_def mainOthers_edge)
qed

lemma getLeafNodes_set: "n \<in> set (getLeafNodes ids adj) \<longleftrightarrow> n \<in> set ids \<and> \<not> inner_source ids adj n"
  by (auto simp: getLeafNodes_def intersection_def filter_empty_conv inner_source_def mainOthers_edge)

lemma first_of_single: "distinct xs \<Longrightarrow> \<not> length xs > 1 \<and> first_of xs = s \<longleftrightarrow> (\<forall>n. n \<in> set xs \<longleftrightarrow> s = Some n)"
proof (cases xs)
  case Nil
  then show ?thesis by (cases s) (auto simp: first_of_def)
next
  case (Cons x ys)
  assume "distinct xs"
  have "ys = []" if "\<forall>n. n \<in> set xs \<longleftrightarrow> s = Some n"
  proof (rule ccontr)
    assume "ys \<noteq> []"
    then obtain y where "y \<in> set ys" by (meson last_in_set)
    with that Cons have "s = Some x" "s = Some y" by auto
    with \<open>y \<in> set ys\<close> \<open>distinct xs\<close> Cons show False by simp
  qed
  then show ?thesis using Cons by (cases ys) (auto simp: first_of_def)
qed

text \<open>The same test is made for the inputs with the roots and for the outputs with the leaves.\<close>

lemma ends_iff:
  assumes "distinct I" and "distinct R"
  defines "R' \<equiv> (if length R = 0 \<and> length I = 1 then I else R)"
  shows "difference I R' = [] \<and> \<not> length (intersection R' I) > 1 \<and> first_of (intersection R' I) = s \<longleftrightarrow>
    (\<forall>n \<in> set I. n \<in> set R \<or> R = []) \<and> (\<forall>n. n \<in> set I \<longleftrightarrow> s = Some n)"
proof -
  have d: "distinct (intersection R' I)" using assms by (simp add: intersection_def)
  have set': "set (intersection R' I) = set R' \<inter> set I" by (auto simp: intersection_def)
  have "difference I R' = [] \<longleftrightarrow> set I \<subseteq> set R'" by (auto simp: difference_def filter_empty_conv)
  then have "difference I R' = [] \<and> \<not> length (intersection R' I) > 1 \<and> first_of (intersection R' I) = s \<longleftrightarrow>
      set I \<subseteq> set R' \<and> (\<forall>n. n \<in> set I \<longleftrightarrow> s = Some n)"
    unfolding first_of_single [OF d] set' by blast
  also have "\<dots> \<longleftrightarrow> (\<forall>n \<in> set I. n \<in> set R \<or> R = []) \<and> (\<forall>n. n \<in> set I \<longleftrightarrow> s = Some n)"
  proof (cases "R = []")
    case True
    have "length I = 1" if "\<forall>n. n \<in> set I \<longleftrightarrow> s = Some n" "I \<noteq> []"
      using that first_of_single [OF assms(1), of s] by (cases I) auto
    with True show ?thesis by (auto simp: R'_def)
  qed (auto simp: R'_def)
  finally show ?thesis .
qed

text \<open>C26. The function always returns, and it accepts a selection with a start and an end exactly if the
  specification does; then there is just one such pair.\<close>

theorem parseExtractableSubgraphSelection_correct:
  assumes "distinct ids" and "jsmap_ok adj"
  shows "(\<exists>r. parseExtractableSubgraphSelection ids adj = Inr r) \<and>
    (parseExtractableSubgraphSelection ids adj = Inr (Inr \<lparr>sel_start = start, sel_end = goal\<rparr>) \<longleftrightarrow> extractable ids adj start goal)"
proof -
  define I where "I = inputNodesOf ids adj"
  define R where "R = getRootNodes ids adj"
  define R' where "R' = (if length R = 0 \<and> length I = 1 then I else R)"
  define O' where "O' = outputNodesOf ids adj"
  define L where "L = getLeafNodes ids adj"
  define L' where "L' = (if length L = 0 \<and> length O' = 1 then O' else L)"
  define s where "s = first_of (intersection R' I)"
  define e where "e = first_of (intersection L' O')"
  have distinct: "distinct I" "distinct R" "distinct O'" "distinct L"
    using assms(1) by (simp_all add: I_def R_def O'_def L_def inputNodesOf_def outputNodesOf_def getRootNodes_def getLeafNodes_def difference_def)
  have path: "(\<exists>found. hasPath a b adj = Inr found)" for a b by (simp add: hasPath_correct)
  let ?p = "parseExtractableSubgraphSelection ids adj"
  have "?p = Inr (Inr \<lparr>sel_start = start, sel_end = goal\<rparr>) \<longleftrightarrow>
      (difference I R' = [] \<and> \<not> length (intersection R' I) > 1 \<and> s = start) \<and>
      (difference O' L' = [] \<and> \<not> length (intersection L' O') > 1 \<and> e = goal) \<and>
      (\<forall>a b. start = Some a \<longrightarrow> goal = Some b \<longrightarrow> a \<noteq> [] \<longrightarrow> b \<noteq> [] \<longrightarrow> (main_edge adj)\<^sup>*\<^sup>* a b)"
    unfolding parseExtractableSubgraphSelection_def Let_def I_def [symmetric] R_def [symmetric] O'_def [symmetric] L_def [symmetric]
      R'_def [symmetric] L'_def [symmetric] s_def [symmetric] e_def [symmetric] hasPath_correct
    by (cases s; cases e) auto
  also have "\<dots> \<longleftrightarrow> extractable ids adj start goal"
  proof -
    have roots: "n \<in> set R \<longleftrightarrow> n \<in> set ids \<and> \<not> inner_target ids adj n" "n \<in> set L \<longleftrightarrow> n \<in> set ids \<and> \<not> inner_source ids adj n" for n
      by (simp_all add: R_def L_def getRootNodes_set getLeafNodes_set)
    have none: "R = [] \<longleftrightarrow> (\<forall>m \<in> set ids. inner_target ids adj m)" "L = [] \<longleftrightarrow> (\<forall>m \<in> set ids. inner_source ids adj m)"
      using roots by (metis list.set_intros(1) list.exhaust empty_iff list.set(1))+
    have I: "n \<in> set I \<longleftrightarrow> enters ids adj n" "n \<in> set O' \<longleftrightarrow> leaves ids adj n" for n
      by (simp_all add: I_def O'_def inputNodesOf_set outputNodesOf_set assms(2))
    have ids: "enters ids adj n \<Longrightarrow> n \<in> set ids" "leaves ids adj n \<Longrightarrow> n \<in> set ids" for n
      by (simp_all add: enters_def leaves_def)
    have start: "(\<forall>n. n \<in> set I \<longrightarrow> \<not> inner_target ids adj n \<or> R = []) \<longleftrightarrow> (\<forall>n \<in> set I. n \<in> set R \<or> R = [])"
      using I(1) roots(1) ids(1) by blast
    have goal: "(\<forall>n. n \<in> set O' \<longrightarrow> \<not> inner_source ids adj n \<or> L = []) \<longleftrightarrow> (\<forall>n \<in> set O'. n \<in> set L \<or> L = [])"
      using I(2) roots(2) ids(2) by blast
    show ?thesis
      unfolding ends_iff [OF distinct(1,2), of start, folded R'_def s_def] ends_iff [OF distinct(3,4), of goal, folded L'_def e_def]
        extractable_def none [symmetric] start goal I [symmetric] by (simp only: conj_ac)
  qed
  finally have iff: "?p = Inr (Inr \<lparr>sel_start = start, sel_end = goal\<rparr>) \<longleftrightarrow> extractable ids adj start goal" .
  have "\<exists>r. ?p = Inr r"
    unfolding parseExtractableSubgraphSelection_def Let_def hasPath_correct by (auto split: option.split)
  with iff show ?thesis by blast
qed

definition sel_adj :: IConnectionAdjacencyList where
  "sel_adj = [(''a'', [\<lparr>c_node = ''b'', c_type = Main, c_index = 0\<rparr>]),
     (''b'', [\<lparr>c_node = ''c'', c_type = Main, c_index = 0\<rparr>]),
     (''c'', [\<lparr>c_node = ''b'', c_type = Main, c_index = 0\<rparr>, \<lparr>c_node = ''d'', c_type = Main, c_index = 0\<rparr>])]"

text \<open>A loop of two nodes can be extracted with its entry as the start, though it has no root.\<close>

theorem parseExtractableSubgraphSelection_correct_witness: "extractable [''b'', ''c''] sel_adj (Some ''b'') (Some ''c'')"
proof -
  have "parseExtractableSubgraphSelection [''b'', ''c''] sel_adj = Inr (Inr \<lparr>sel_start = Some ''b'', sel_end = Some ''c''\<rparr>)"
    by code_simp
  then show ?thesis
    using parseExtractableSubgraphSelection_correct [of "[''b'', ''c'']" sel_adj "Some ''b''" "Some ''c''"]
    by (simp add: sel_adj_def jsmap_ok_def)
qed

section \<open>Adjacency lists of the connections\<close>

definition conns_of :: "INodeConnections \<Rightarrow> IConnection list" where
  "conns_of types = concat (map (\<lambda>(_, groups). concat (map (\<lambda>g. case g of None \<Rightarrow> [] | Some g \<Rightarrow> g) groups)) types)"

lemma tos_of_addOrCreate: "tos_of (addOrCreate r k v) n = (if k = n then tos_of r n @ [v] else tos_of r n)"
  by (auto simp: addOrCreate_def tos_of_def update_conv')

lemma tos_of_foldl:
  assumes "\<And>r x. tos_of (f r x) n = tos_of r n @ g x"
  shows "tos_of (foldl f r xs) n = tos_of r n @ concat (map g xs)"
  by (induction xs arbitrary: r) (simp_all add: assms)

lemma jsmap_ok_foldl:
  assumes "\<And>r x. jsmap_ok r \<Longrightarrow> jsmap_ok (f r x)" and "jsmap_ok r"
  shows "jsmap_ok (foldl f r xs)"
  using assms(2) by (induction xs arbitrary: r) (simp_all add: assms(1))

text \<open>The list of a node is all of its connections in their order, whatever their type and output, and a node is listed once.\<close>

theorem buildAdjacencyList_correct:
  "jsmap_ok (buildAdjacencyList conns) \<and>
    tos_of (buildAdjacencyList conns) n = concat (map (\<lambda>(m, types). if m = n then conns_of types else []) conns)"
proof
  show "jsmap_ok (buildAdjacencyList conns)"
    unfolding buildAdjacencyList_def
    by (intro jsmap_ok_foldl) (auto simp: jsmap_ok_def addOrCreate_def distinct_update split: prod.split intro!: jsmap_ok_foldl [unfolded jsmap_ok_def])
  have cs: "tos_of (foldl (\<lambda>r c. addOrCreate r m c) r cs) n = tos_of r n @ (if m = n then cs else [])" for m r cs
    by (induction cs arbitrary: r) (simp_all add: tos_of_addOrCreate)
  have groups: "tos_of (foldl (\<lambda>r g. foldl (\<lambda>r c. addOrCreate r m c) r (case g of None \<Rightarrow> [] | Some g \<Rightarrow> g)) r gs) n
      = tos_of r n @ concat (map (\<lambda>g. if m = n then case g of None \<Rightarrow> [] | Some g \<Rightarrow> g else []) gs)" for m r gs
    by (rule tos_of_foldl) (simp add: cs)
  have types: "tos_of (foldl (\<lambda>r (_, gs). foldl (\<lambda>r g. foldl (\<lambda>r c. addOrCreate r m c) r (case g of None \<Rightarrow> [] | Some g \<Rightarrow> g)) r gs) r ts) n
      = tos_of r n @ (if m = n then conns_of ts else [])" for m r ts
    by (induction ts arbitrary: r) (auto simp: groups conns_of_def)
  have "tos_of (buildAdjacencyList conns) n = tos_of [] n @ concat (map (\<lambda>(m, ts). if m = n then conns_of ts else []) conns)"
    unfolding buildAdjacencyList_def by (rule tos_of_foldl) (auto simp: types split: prod.split)
  then show "tos_of (buildAdjacencyList conns) n = concat (map (\<lambda>(m, types). if m = n then conns_of types else []) conns)"
    by (simp add: tos_of_def)
qed

end
