(* ===== verification/LeaderElection.thy ===== *)
theory LeaderElection
  imports Prelude
begin

text \<open>
  The main instances elect a leader through one key with a time to live in Redis,
  \<open>packages/cli/src/scaling/multi-main-setup.ee.ts\<close>.

  Each instance has one connection to Redis. The commands that it has sent and that are not executed yet, and the replies
  that it has not handled yet, are two queues, so every \<open>await\<close> is a point where other instances, and later checks of the
  same instance, may run. The handling of a reply is the code after the \<open>await\<close>. The expiry of the key is a step of its own.

  Theorems: while the key does not expire there is at most one leader; what a check that nothing disturbs does; with
  checks that do not overlap, takeovers and stepdowns alternate and tell who is leader; with overlapping ones they do not.
\<close>

section \<open>The state\<close>

datatype InstanceRole = Unset | Leader | Follower

datatype MultiMainEvents = LeaderStepdown | LeaderTakeover

text \<open>The flag of a command or a reply to become leader says whether it was sent on initialization.\<close>

datatype command = SetIfNotExists bool | GetKey | SetExpiration | ClearKey

datatype reply = WasSet bool bool | LeaderId "nat option" | Ack

record main =
  instanceRole :: InstanceRole
  ticking :: bool
  stopped :: bool
  sent :: "command list"
  replies :: "reply list"
  emitted :: "MultiMainEvents list"

definition newMain :: main where
  "newMain = \<lparr>instanceRole = Unset, ticking = False, stopped = False, sent = [], replies = [], emitted = []\<rparr>"

definition isLeader :: "main \<Rightarrow> bool" where
  "isLeader m \<longleftrightarrow> instanceRole m = Leader"

definition markAsLeader :: "main \<Rightarrow> main" where
  "markAsLeader m = m\<lparr>instanceRole := Leader\<rparr>"

definition markAsFollower :: "main \<Rightarrow> main" where
  "markAsFollower m = m\<lparr>instanceRole := Follower\<rparr>"

definition send :: "command \<Rightarrow> main \<Rightarrow> main" where
  "send c m = m\<lparr>sent := sent m @ [c]\<rparr>"

definition emit :: "MultiMainEvents \<Rightarrow> main \<Rightarrow> main" where
  "emit e m = m\<lparr>emitted := emitted m @ [e]\<rparr>"

section \<open>The operations of an instance\<close>

text \<open>Each operation is split where it awaits a reply.\<close>

definition tryBecomeLeader :: "bool \<Rightarrow> main \<Rightarrow> main" where
  "tryBecomeLeader first m = send (SetIfNotExists first) m"

definition tryBecomeLeader_reply :: "bool \<Rightarrow> main \<Rightarrow> main" where
  "tryBecomeLeader_reply keySetSuccessfully m =
     (if keySetSuccessfully then emit LeaderTakeover (markAsLeader m) else markAsFollower m)"

definition initMain :: "main \<Rightarrow> main" where
  "initMain m = tryBecomeLeader True m"

definition initMain_reply :: "bool \<Rightarrow> main \<Rightarrow> main" where
  "initMain_reply keySetSuccessfully m = (tryBecomeLeader_reply keySetSuccessfully m)\<lparr>ticking := True\<rparr>"

definition checkLeader :: "main \<Rightarrow> main" where
  "checkLeader m = send GetKey m"

definition checkLeader_reply :: "nat \<Rightarrow> nat option \<Rightarrow> main \<Rightarrow> main" where
  "checkLeader_reply hostId leaderId m = (case leaderId of
       Some l \<Rightarrow>
         if l = hostId then
           send SetExpiration (if \<not> isLeader m then emit LeaderTakeover (markAsLeader m) else m)
         else if isLeader m then emit LeaderStepdown (markAsFollower m) else m
     | None \<Rightarrow> tryBecomeLeader False (emit LeaderStepdown (markAsFollower m)))"

definition shutdownMain :: "main \<Rightarrow> main" where
  "shutdownMain m = (let m = m\<lparr>ticking := False, stopped := True\<rparr> in if isLeader m then send ClearKey m else m)"

fun handleReply :: "nat \<Rightarrow> reply \<Rightarrow> main \<Rightarrow> main" where
  "handleReply hostId (WasSet first ok) m = (if first then initMain_reply ok m else tryBecomeLeader_reply ok m)"
| "handleReply hostId (LeaderId leaderId) m = checkLeader_reply hostId leaderId m"
| "handleReply hostId Ack m = m"

section \<open>The cluster\<close>

text \<open>What the commands do to the key: \<open>SET \<dots> NX\<close>, \<open>GET\<close>, \<open>EXPIRE\<close> and \<open>DEL\<close>.\<close>

fun redis :: "nat \<Rightarrow> command \<Rightarrow> nat option \<Rightarrow> nat option \<times> reply" where
  "redis hostId (SetIfNotExists first) k = (case k of None \<Rightarrow> (Some hostId, WasSet first True) | Some _ \<Rightarrow> (k, WasSet first False))"
| "redis hostId GetKey k = (k, LeaderId k)"
| "redis hostId SetExpiration k = (k, Ack)"
| "redis hostId ClearKey k = (None, Ack)"

record cluster =
  leaderKey :: "nat option"
  mains :: "nat \<Rightarrow> main"

definition newCluster :: cluster where
  "newCluster = \<lparr>leaderKey = None, mains = (\<lambda>_. newMain)\<rparr>"

definition on_main :: "nat \<Rightarrow> (main \<Rightarrow> main) \<Rightarrow> cluster \<Rightarrow> cluster" where
  "on_main h f c = c\<lparr>mains := (mains c)(h := f (mains c h))\<rparr>"

text \<open>The interval calls the check while it is set; an instance is initialized once and shut down once.\<close>

datatype leader_event = Init nat | Tick nat | Serve nat | Handle nat | Shutdown nat | Expire

fun leader_step :: "leader_event \<Rightarrow> cluster \<Rightarrow> cluster" where
  "leader_step (Init h) c = (if mains c h = newMain then on_main h initMain c else c)"
| "leader_step (Tick h) c = (if ticking (mains c h) then on_main h checkLeader c else c)"
| "leader_step (Serve h) c = (case sent (mains c h) of
     [] \<Rightarrow> c
   | cmd # rest \<Rightarrow> let (k, r) = redis h cmd (leaderKey c)
       in on_main h (\<lambda>m. m\<lparr>sent := rest, replies := replies m @ [r]\<rparr>) (c\<lparr>leaderKey := k\<rparr>))"
| "leader_step (Handle h) c = (case replies (mains c h) of
     [] \<Rightarrow> c
   | r # rest \<Rightarrow> on_main h (\<lambda>m. handleReply h r (m\<lparr>replies := rest\<rparr>)) c)"
| "leader_step (Shutdown h) c = (if stopped (mains c h) then c else on_main h shutdownMain c)"
| "leader_step Expire c = c\<lparr>leaderKey := None\<rparr>"

definition leader_run :: "leader_event list \<Rightarrow> cluster \<Rightarrow> cluster" where
  "leader_run es c = foldl (\<lambda>c e. leader_step e c) c es"

inductive cluster_reach :: "(leader_event \<Rightarrow> cluster \<Rightarrow> bool) \<Rightarrow> cluster \<Rightarrow> bool" for allowed where
  start: "cluster_reach allowed newCluster"
| step: "cluster_reach allowed c \<Longrightarrow> allowed e c \<Longrightarrow> cluster_reach allowed (leader_step e c)"

named_theorems leader_defs

lemmas [leader_defs] = isLeader_def markAsLeader_def markAsFollower_def send_def emit_def tryBecomeLeader_def
  tryBecomeLeader_reply_def initMain_def initMain_reply_def checkLeader_def checkLeader_reply_def shutdownMain_def on_main_def

section \<open>One leader while the key lasts\<close>

definition sole_inv :: "nat option \<Rightarrow> nat \<Rightarrow> main \<Rightarrow> bool" where
  "sole_inv k h m \<longleftrightarrow>
     (\<not> stopped m \<longrightarrow> (isLeader m \<or> LeaderId (Some h) \<in> set (replies m) \<or> (\<exists>f. WasSet f True \<in> set (replies m))) \<longrightarrow> k = Some h) \<and>
     (ClearKey \<in> set (sent m) \<longrightarrow> stopped m \<and> k = Some h) \<and> count_list (sent m) ClearKey \<le> 1"

text \<open>What has no hold on the key is not concerned by a change of it.\<close>

lemma sole_inv_other:
  assumes "sole_inv k g m" and "k \<noteq> Some g"
  shows "sole_inv k' g m"
  using assms by (auto simp: sole_inv_def)

lemma sole_inv_send: "c \<noteq> ClearKey \<Longrightarrow> sole_inv k h (send c m) \<longleftrightarrow> sole_inv k h m"
  by (auto simp: sole_inv_def send_def isLeader_def)

lemma sole_inv_handle:
  assumes "sole_inv k h m" and "replies m = r # rest"
  shows "sole_inv k h (handleReply h r (m\<lparr>replies := rest\<rparr>))"
proof (cases r)
  case (WasSet f ok)
  with assms show ?thesis by (auto simp: sole_inv_def leader_defs)
next
  case (LeaderId l)
  show ?thesis
  proof (cases l)
    case None
    with LeaderId assms show ?thesis by (auto simp: sole_inv_def leader_defs)
  next
    case (Some l')
    with LeaderId assms show ?thesis by (cases "isLeader m") (auto simp: sole_inv_def leader_defs)
  qed
next
  case Ack
  with assms show ?thesis by (auto simp: sole_inv_def leader_defs)
qed

lemma sole_inv_step:
  assumes inv: "\<And>h. sole_inv (leaderKey c) h (mains c h)" and "e \<noteq> Expire"
  shows "sole_inv (leaderKey (leader_step e c)) h (mains (leader_step e c) h)"
proof (cases e)
  case (Init g)
  with inv [of h] show ?thesis by (auto simp: on_main_def initMain_def tryBecomeLeader_def sole_inv_send)
next
  case (Tick g)
  with inv [of h] show ?thesis by (auto simp: on_main_def checkLeader_def sole_inv_send)
next
  case (Handle g)
  with inv [of h] show ?thesis by (cases "replies (mains c g)") (auto simp: on_main_def sole_inv_handle)
next
  case (Shutdown g)
  with inv [of h] show ?thesis by (auto simp: leader_defs sole_inv_def Let_def count_list_0_iff)
next
  case (Serve g)
  show ?thesis
  proof (cases "sent (mains c g)")
    case Nil
    with Serve inv show ?thesis by simp
  next
    case (Cons cmd rest)
    show ?thesis
    proof (cases cmd)
      case (SetIfNotExists f)
      with Serve Cons inv [of h] show ?thesis
        by (cases "leaderKey c") (auto simp: on_main_def sole_inv_def isLeader_def)
    next
      case GetKey
      with Serve Cons inv [of h] show ?thesis by (auto simp: on_main_def sole_inv_def isLeader_def)
    next
      case SetExpiration
      with Serve Cons inv [of h] show ?thesis by (auto simp: on_main_def sole_inv_def isLeader_def)
    next
      case ClearKey
      with inv [of g] Cons have g: "leaderKey c = Some g" "stopped (mains c g)" "ClearKey \<notin> set rest"
        by (auto simp: sole_inv_def count_list_0_iff)
      show ?thesis
      proof (cases "h = g")
        case True
        with g ClearKey Serve Cons show ?thesis by (simp add: on_main_def sole_inv_def count_notin)
      next
        case False
        with g ClearKey Serve Cons inv [of h] show ?thesis using sole_inv_other [of "Some g" h "mains c h" None] by (simp add: on_main_def)
      qed
    qed
  qed
qed (use assms in simp)

text \<open>C11. While the key does not expire, an instance that is leader and is not being shut down holds the key. So there is
  one such instance at most, whatever replies and checks are under way.\<close>

theorem at_most_one_leader:
  assumes "cluster_reach (\<lambda>e c. e \<noteq> Expire) c"
    and "isLeader (mains c h)" and "\<not> stopped (mains c h)"
  shows "leaderKey c = Some h \<and> (\<forall>g. isLeader (mains c g) \<longrightarrow> \<not> stopped (mains c g) \<longrightarrow> g = h)"
proof -
  have "sole_inv (leaderKey c) g (mains c g)" for g
    using assms(1)
  proof (induction arbitrary: g)
    case start
    show ?case by (simp add: newCluster_def newMain_def sole_inv_def isLeader_def)
  next
    case (step c e)
    then show ?case by (intro sole_inv_step) auto
  qed
  then have "isLeader (mains c g) \<Longrightarrow> \<not> stopped (mains c g) \<Longrightarrow> leaderKey c = Some g" for g
    unfolding sole_inv_def by blast
  from this [of h] this assms(2,3) show ?thesis by (metis option.inject)
qed

lemma cluster_reach_run:
  "cluster_reach allowed c \<Longrightarrow> (\<And>e c. e \<in> set es \<Longrightarrow> allowed e c) \<Longrightarrow> cluster_reach allowed (leader_run es c)"
  unfolding leader_run_def by (induction es arbitrary: c) (auto intro: cluster_reach.step)

theorem at_most_one_leader_witness:
  "leaderKey (leader_run [Init 1, Init 2, Serve 2, Serve 1, Handle 2, Handle 1] newCluster) = Some 2"
proof -
  let ?es = "[Init 1, Init 2, Serve 2, Serve 1, Handle 2, Handle 1]"
  have "cluster_reach (\<lambda>e c. e \<noteq> Expire) (leader_run ?es newCluster)"
    by (rule cluster_reach_run) (auto intro: cluster_reach.start)
  moreover have "isLeader (mains (leader_run ?es newCluster) 2)" by code_simp
  moreover have "\<not> stopped (mains (leader_run ?es newCluster) 2)" by code_simp
  ultimately show ?thesis using at_most_one_leader [of "leader_run ?es newCluster" 2] by blast
qed

section \<open>A check that nothing disturbs\<close>

definition check_round :: "nat \<Rightarrow> cluster \<Rightarrow> cluster" where
  "check_round h c = leader_run [Tick h, Serve h, Handle h, Serve h, Handle h] c"

text \<open>After it the instance is leader exactly if it holds the key: it takes a vacant key, it steps down if another
  instance has it, and it goes on, or takes over again, if the key is its own.\<close>

theorem check_round_correct:
  assumes "ticking (mains c h)" and "sent (mains c h) = []" and "replies (mains c h) = []"
  shows "leaderKey (check_round h c) = Some (case leaderKey c of None \<Rightarrow> h | Some g \<Rightarrow> g) \<and>
    (isLeader (mains (check_round h c) h) \<longleftrightarrow> leaderKey (check_round h c) = Some h) \<and>
    sent (mains (check_round h c) h) = [] \<and> replies (mains (check_round h c) h) = [] \<and>
    emitted (mains (check_round h c) h) = emitted (mains c h) @ (case leaderKey c of
        None \<Rightarrow> [LeaderStepdown, LeaderTakeover]
      | Some g \<Rightarrow> if g = h then (if isLeader (mains c h) then [] else [LeaderTakeover])
          else if isLeader (mains c h) then [LeaderStepdown] else [])"
  using assms by (cases "leaderKey c") (auto simp: check_round_def leader_run_def leader_defs)

theorem check_round_correct_witness: "leaderKey (check_round 1
    (leader_run [Init 1, Init 2, Serve 2, Serve 1, Handle 2, Handle 1, Expire] newCluster)) = Some 1"
  using check_round_correct [of "leader_run [Init 1, Init 2, Serve 2, Serve 1, Handle 2, Handle 1, Expire] newCluster" 1]
  by (simp add: leader_run_def newCluster_def newMain_def leader_defs)

section \<open>The events\<close>

text \<open>The calls of an instance that are under way: a check, or an attempt to become leader.\<close>

definition is_call :: "command \<Rightarrow> bool" where
  "is_call c = (case c of SetIfNotExists _ \<Rightarrow> True | GetKey \<Rightarrow> True | _ \<Rightarrow> False)"

definition calls :: "main \<Rightarrow> nat" where
  "calls m = length (filter is_call (sent m)) + length (filter (\<lambda>r. r \<noteq> Ack) (replies m))"

definition no_overlap :: "leader_event \<Rightarrow> cluster \<Rightarrow> bool" where
  "no_overlap e c = (case e of Tick h \<Rightarrow> calls (mains c h) = 0 | _ \<Rightarrow> True)"

definition took_over :: "main \<Rightarrow> bool" where
  "took_over m \<longleftrightarrow> emitted m \<noteq> [] \<and> last (emitted m) = LeaderTakeover"

definition no_double :: "MultiMainEvents list \<Rightarrow> bool" where
  "no_double es \<longleftrightarrow> successively (\<lambda>a b. \<not> (a = LeaderTakeover \<and> b = LeaderTakeover)) es"

lemma no_double_append:
  "no_double (es @ [e]) \<longleftrightarrow> no_double es \<and> (e = LeaderTakeover \<longrightarrow> es \<noteq> [] \<longrightarrow> last es \<noteq> LeaderTakeover)"
  by (auto simp: no_double_def successively_append_iff)

definition event_inv :: "main \<Rightarrow> bool" where
  "event_inv m \<longleftrightarrow> calls m \<le> 1 \<and> (isLeader m \<longleftrightarrow> took_over m) \<and> no_double (emitted m) \<and>
     ((\<exists>f. SetIfNotExists f \<in> set (sent m)) \<or> (\<exists>f ok. WasSet f ok \<in> set (replies m)) \<longrightarrow> \<not> isLeader m)"

lemma calls_zero: "calls m = 0 \<Longrightarrow> SetIfNotExists f \<notin> set (sent m) \<and> WasSet f ok \<notin> set (replies m)"
  by (auto simp: calls_def is_call_def filter_empty_conv)

lemmas event_defs = event_inv_def took_over_def no_double_append calls_def is_call_def

lemma event_inv_send:
  assumes "event_inv m" and "is_call c \<Longrightarrow> calls m = 0" and "(\<exists>f. c = SetIfNotExists f) \<Longrightarrow> \<not> isLeader m"
  shows "event_inv (send c m)"
proof (cases "is_call c")
  case True
  with assms(2) calls_zero [of m] have none: "calls m = 0" "SetIfNotExists f \<notin> set (sent m)" "WasSet f ok \<notin> set (replies m)" for f ok
    by auto
  then have "calls (send c m) = 1" using True by (simp add: calls_def send_def)
  with none assms(1,3) show ?thesis by (auto simp: event_inv_def send_def isLeader_def took_over_def)
next
  case False
  with assms(1) show ?thesis by (auto simp: event_defs send_def isLeader_def)
qed

text \<open>Without a call under way the role may change, with its event.\<close>

lemma event_inv_role:
  assumes "event_inv m" and "calls m = 0"
  shows "\<not> isLeader m \<Longrightarrow> event_inv (emit LeaderTakeover (markAsLeader m))"
    and "event_inv (emit LeaderStepdown (markAsFollower m))" and "\<not> isLeader m \<Longrightarrow> event_inv (markAsFollower m)"
  using assms calls_zero [of m] by (auto simp: event_inv_def took_over_def no_double_append calls_def leader_defs)

lemma calls_role: "calls (emit e m) = calls m" "calls (markAsLeader m) = calls m" "calls (markAsFollower m) = calls m"
  by (simp_all add: calls_def leader_defs)

lemma event_inv_ticking: "event_inv (m\<lparr>ticking := b\<rparr>) \<longleftrightarrow> event_inv m"
  by (simp add: event_inv_def calls_def took_over_def isLeader_def)

lemma event_inv_handle:
  assumes "event_inv m" and "replies m = r # rest"
  shows "event_inv (handleReply h r (m\<lparr>replies := rest\<rparr>))"
proof -
  let ?m = "m\<lparr>replies := rest\<rparr>"
  have inv: "event_inv ?m" using assms by (auto simp: event_inv_def calls_def took_over_def isLeader_def split: if_splits)
  have zero: "calls ?m = 0" if "r \<noteq> Ack" using assms that by (simp add: event_inv_def calls_def)
  show ?thesis
  proof (cases r)
    case (WasSet f ok)
    with assms have "\<not> isLeader ?m" by (auto simp: event_inv_def isLeader_def)
    with WasSet inv zero show ?thesis
      by (simp add: initMain_reply_def tryBecomeLeader_reply_def event_inv_ticking event_inv_role)
  next
    case (LeaderId l)
    have none: "calls ?m = 0" using zero LeaderId by simp
    have follower: "event_inv (emit LeaderStepdown (markAsFollower ?m))" by (rule event_inv_role(2) [OF inv none])
    moreover have "calls (emit LeaderStepdown (markAsFollower ?m)) = 0" using none by (simp only: calls_role)
    moreover have "\<not> isLeader (emit LeaderStepdown (markAsFollower ?m))" by (simp add: leader_defs)
    ultimately have "event_inv (tryBecomeLeader False (emit LeaderStepdown (markAsFollower ?m)))"
      unfolding tryBecomeLeader_def by (intro event_inv_send) auto
    moreover have "event_inv (send SetExpiration (if \<not> isLeader ?m then emit LeaderTakeover (markAsLeader ?m) else ?m))"
      using event_inv_role(1) [OF inv none] inv by (intro event_inv_send) (auto simp: is_call_def)
    ultimately show ?thesis using LeaderId inv follower by (auto simp: checkLeader_reply_def split: option.split if_splits)
  next
    case Ack
    with inv show ?thesis by simp
  qed
qed

lemma event_inv_serve:
  assumes "event_inv m" and "sent m = cmd # rest"
  shows "event_inv (m\<lparr>sent := rest, replies := replies m @ [snd (redis h cmd k)]\<rparr>)"
  using assms by (cases cmd; cases k) (auto simp: event_inv_def calls_def is_call_def took_over_def isLeader_def)

lemma event_inv_step:
  assumes inv: "\<And>h. event_inv (mains c h)" and "no_overlap e c"
  shows "event_inv (mains (leader_step e c) h)"
proof (cases e)
  case (Init g)
  then show ?thesis using inv [of h]
    by (auto simp: on_main_def initMain_def tryBecomeLeader_def isLeader_def newMain_def calls_def intro!: event_inv_send)
next
  case (Tick g)
  then show ?thesis using inv [of h] assms(2)
    by (auto simp: on_main_def checkLeader_def no_overlap_def intro!: event_inv_send)
next
  case (Serve g)
  then show ?thesis using inv [of h] event_inv_serve [of "mains c g" _ _ g "leaderKey c"]
    by (auto simp: on_main_def case_prod_beta Let_def split: list.split)
next
  case (Handle g)
  then show ?thesis using inv [of h] by (auto simp: on_main_def event_inv_handle split: list.split)
next
  case (Shutdown g)
  have "event_inv (m\<lparr>ticking := False, stopped := True\<rparr>)" if "event_inv m" for m
    using that by (auto simp: event_inv_def calls_def took_over_def isLeader_def)
  with Shutdown inv show ?thesis
    by (auto simp: on_main_def shutdownMain_def Let_def is_call_def intro!: event_inv_send)
qed (use inv in simp)

lemma cluster_reach_events: "cluster_reach no_overlap c \<Longrightarrow> event_inv (mains c h)"
proof (induction arbitrary: h rule: cluster_reach.induct)
  case start
  show ?case by (simp add: newCluster_def newMain_def event_inv_def calls_def isLeader_def took_over_def no_double_def)
next
  case (step c e)
  then show ?case by (intro event_inv_step) auto
qed

text \<open>C12. If no check starts while another call of the same instance is under way, then at every moment, also with expired
  keys and shutdowns, the events that an instance has emitted tell its role: the last one is a takeover exactly if it is
  leader, and no takeover follows another one.\<close>

theorem leader_events_match:
  assumes "cluster_reach no_overlap c"
  shows "(isLeader (mains c h) \<longleftrightarrow> took_over (mains c h)) \<and> no_double (emitted (mains c h))"
  using cluster_reach_events [OF assms, of h] by (simp add: event_inv_def)

theorem leader_events_match_witness: "took_over (mains (leader_run [Init 1, Serve 1, Handle 1] newCluster) 1)"
proof -
  let ?c = "leader_run [Init 1, Serve 1, Handle 1] newCluster"
  have "cluster_reach no_overlap ?c" by (rule cluster_reach_run) (auto simp: no_overlap_def intro: cluster_reach.start)
  moreover have "isLeader (mains ?c 1)" by code_simp
  ultimately show ?thesis using leader_events_match [of ?c 1] by blast
qed

section \<open>Services of the leader\<close>

text \<open>What a service does on the events of its instance, in their order.\<close>

definition tell :: "('s \<Rightarrow> 's) \<Rightarrow> ('s \<Rightarrow> 's) \<Rightarrow> MultiMainEvents list \<Rightarrow> 's \<Rightarrow> 's" where
  "tell takeover stepdown es s = foldl (\<lambda>s e. case e of LeaderTakeover \<Rightarrow> takeover s | LeaderStepdown \<Rightarrow> stepdown s) s es"

text \<open>A service that a takeover starts when it is off, and a stepdown stops. It may be told twice to stop, but not twice to
  start.\<close>

locale leader_service =
  fixes takeover :: "'s \<Rightarrow> 's" and stepdown :: "'s \<Rightarrow> 's" and on :: "'s \<Rightarrow> bool" and off :: "'s \<Rightarrow> bool"
  assumes on_takeover: "off s \<Longrightarrow> on (takeover s)"
    and off_stepdown: "on s \<or> off s \<Longrightarrow> off (stepdown s)"
begin

lemma told:
  "no_double (pre @ es) \<Longrightarrow> (if pre \<noteq> [] \<and> last pre = LeaderTakeover then on s else off s) \<Longrightarrow>
    (if pre @ es \<noteq> [] \<and> last (pre @ es) = LeaderTakeover then on (tell takeover stepdown es s) else off (tell takeover stepdown es s))"
proof (induction es rule: rev_induct)
  case (snoc e es)
  have tell: "tell takeover stepdown (es @ [e]) s =
      (case e of LeaderTakeover \<Rightarrow> takeover | LeaderStepdown \<Rightarrow> stepdown) (tell takeover stepdown es s)"
    by (simp add: tell_def split: MultiMainEvents.split)
  have double: "no_double (pre @ es)" "e = LeaderTakeover \<Longrightarrow> pre @ es \<noteq> [] \<Longrightarrow> last (pre @ es) \<noteq> LeaderTakeover"
    using snoc.prems(1) no_double_append [of "pre @ es" e] by auto
  show ?case
  proof (cases e)
    case LeaderStepdown
    then show ?thesis using snoc.IH [OF double(1) snoc.prems(2)] tell off_stepdown by (simp split: if_splits)
  next
    case LeaderTakeover
    then have "off (tell takeover stepdown es s)" using snoc.IH [OF double(1) snoc.prems(2)] double(2) by (auto split: if_splits)
    then show ?thesis using LeaderTakeover tell on_takeover by simp
  qed
qed (simp add: tell_def)

end

section \<open>Checks that overlap\<close>

text \<open>A connection that is interrupted for longer than the key lives delivers the checks of the meantime together.\<close>

definition outage :: "leader_event list" where
  "outage = [Init 1, Serve 1, Handle 1, Tick 1, Tick 1, Expire, Serve 1, Serve 1, Handle 1, Handle 1, Serve 1, Serve 1, Handle 1, Handle 1]"

text \<open>The second of them finds the key taken, by its own instance, and marks the leader as a follower without telling
  the services; the next check starts them once more.\<close>

theorem overlapping_checks_start_twice:
  "leaderKey (leader_run outage newCluster) = Some 1 \<and> \<not> isLeader (mains (leader_run outage newCluster) 1) \<and>
    emitted (mains (leader_run outage newCluster) 1) = [LeaderTakeover, LeaderStepdown, LeaderStepdown, LeaderTakeover] \<and>
    emitted (mains (check_round 1 (leader_run outage newCluster)) 1) =
      [LeaderTakeover, LeaderStepdown, LeaderStepdown, LeaderTakeover, LeaderTakeover]"
  by code_simp

text \<open>An instance whose key expired, and that is shut down before its next check, deletes the key of the new leader,
  and then a third instance becomes leader beside the second.\<close>

definition stale_shutdown :: "leader_event list" where
  "stale_shutdown = [Init 1, Init 2, Init 3, Serve 1, Serve 2, Serve 3, Handle 1, Handle 2, Handle 3, Expire,
     Tick 2, Serve 2, Handle 2, Serve 2, Handle 2, Shutdown 1, Serve 1, Tick 3, Serve 3, Handle 3, Serve 3, Handle 3]"

theorem stale_shutdown_two_leaders:
  "isLeader (mains (leader_run stale_shutdown newCluster) 2) \<and> isLeader (mains (leader_run stale_shutdown newCluster) 3) \<and>
    leaderKey (leader_run stale_shutdown newCluster) = Some 3"
  by code_simp

end
