(* ===== verification/WaitTracker.thy ===== *)
theory WaitTracker
  imports WorkflowTypes LeaderElection
begin

text \<open>
  The waiting executions that are resumed at their time, \<open>packages/cli/src/wait-tracker.ts\<close>, with the query
  that finds them (\<open>getWaitingExecutions\<close> of the execution repository) and the events of the leader election that start
  and stop the tracking.

  Times are milliseconds. Every \<open>setTimeout\<close> and \<open>setInterval\<close> gets a number; the active ones are in the state,
  a timeout with the time at which it is due. A query that is under way is the list of the rows it will return. What
  other services do (running a workflow, its end) comes in as an argument of the events.

  Theorems: a poll sets a timer for exactly the executions that have none; without a stepdown each tracked execution has
  an active timer, and what a poll found is started or still armed; after a stepdown what was tracked is never started;
  a main process polls exactly while it is leader, unless it missed an event of the election while it
  started, which can happen and leaves a leader that never polls.
\<close>

section \<open>The query\<close>

record execution_row =
  x_id :: string
  x_waitTill :: "int option"
  x_status :: ExecutionStatus

text \<open>A comparison with \<open>NULL\<close> fails in the database, and rows with equal times keep their order.\<close>

definition getWaitingExecutions_query :: "int \<Rightarrow> execution_row list \<Rightarrow> (string \<times> int) list" where
  "getWaitingExecutions_query now rows = sort_key snd (concat (map (\<lambda>x. case x_waitTill x of
       None \<Rightarrow> []
     | Some waitTill \<Rightarrow> if waitTill \<le> now + 70000 \<and> x_status x \<noteq> Crashed then [(x_id x, waitTill)] else []) rows))"

section \<open>The tracker\<close>

datatype tracker_output = Started string | UpdatedParent string | Threw js_error

record tracker =
  waitingExecutions :: "(string, nat) jsmap"
  mainTimer :: "nat option"
  intervals :: "nat list"
  timers :: "(nat \<times> int \<times> string) list"
  nextTimer :: nat
  queries :: "(string \<times> int) list list"
  starting :: "string list"
  children :: "(string \<times> string) list"
  log :: "tracker_output list"

definition newTracker :: tracker where
  "newTracker = \<lparr>waitingExecutions = [], mainTimer = None, intervals = [], timers = [], nextTimer = 0, queries = [],
     starting = [], children = [], log = []\<rparr>"

definition has :: "string \<Rightarrow> tracker \<Rightarrow> bool" where
  "has executionId t \<longleftrightarrow> map_of (waitingExecutions t) executionId \<noteq> None"

text \<open>A timeout of less than a millisecond is one of a millisecond.\<close>

definition setTimeout :: "int \<Rightarrow> int \<Rightarrow> string \<Rightarrow> tracker \<Rightarrow> tracker" where
  "setTimeout now delay executionId t =
     t\<lparr>timers := timers t @ [(nextTimer t, now + max 1 delay, executionId)], nextTimer := Suc (nextTimer t)\<rparr>"

definition clearTimeout :: "nat \<Rightarrow> tracker \<Rightarrow> tracker" where
  "clearTimeout k t = t\<lparr>timers := filter (\<lambda>x. fst x \<noteq> k) (timers t)\<rparr>"

definition getWaitingExecutions :: "(string \<times> int) list \<Rightarrow> tracker \<Rightarrow> tracker" where
  "getWaitingExecutions rows t = t\<lparr>queries := queries t @ [rows]\<rparr>"

text \<open>The rest of the function, once the rows are there.\<close>

definition trackExecution :: "int \<Rightarrow> string \<Rightarrow> int \<Rightarrow> tracker \<Rightarrow> tracker" where
  "trackExecution now executionId waitTill t =
     (if map_of (waitingExecutions t) executionId = None then
        let triggerTime = waitTill - now; timer = nextTimer t; t = setTimeout now triggerTime executionId t
        in t\<lparr>waitingExecutions := AList.update executionId timer (waitingExecutions t)\<rparr>
      else t)"

definition getWaitingExecutions_rows :: "int \<Rightarrow> (string \<times> int) list \<Rightarrow> tracker \<Rightarrow> tracker" where
  "getWaitingExecutions_rows now rows t = foldl (\<lambda>t (executionId, waitTill). trackExecution now executionId waitTill t) t rows"

definition startTracking :: "(string \<times> int) list \<Rightarrow> tracker \<Rightarrow> tracker" where
  "startTracking rows t = getWaitingExecutions rows
     (t\<lparr>mainTimer := Some (nextTimer t), intervals := intervals t @ [nextTimer t], nextTimer := Suc (nextTimer t)\<rparr>)"

definition initTracker :: "bool \<Rightarrow> (string \<times> int) list \<Rightarrow> tracker \<Rightarrow> tracker" where
  "initTracker leader rows t = (if leader then startTracking rows t else t)"

definition stopExecution :: "string \<Rightarrow> tracker \<Rightarrow> tracker" where
  "stopExecution executionId t = (case map_of (waitingExecutions t) executionId of
       None \<Rightarrow> t
     | Some timer \<Rightarrow> (clearTimeout timer t)\<lparr>waitingExecutions := AList.delete executionId (waitingExecutions t)\<rparr>)"

definition stopTracking :: "tracker \<Rightarrow> tracker" where
  "stopTracking t = (case mainTimer t of
       None \<Rightarrow> t
     | Some i \<Rightarrow> foldl (\<lambda>t (_, timer). clearTimeout timer t) (t\<lparr>intervals := filter (\<lambda>k. k \<noteq> i) (intervals t)\<rparr>) (waitingExecutions t))"

section \<open>Resuming an execution\<close>

record RelatedExecution =
  rel_executionId :: string
  rel_shouldResume :: "bool option"

record fullExecution =
  full_finished :: bool
  full_workflowId :: string
  full_parent :: "RelatedExecution option"

datatype runError = ExecutionAlreadyResuming | RunFailed js_error

definition shouldRestartParentExecution :: "RelatedExecution option \<Rightarrow> bool" where
  "shouldRestartParentExecution parentExecution = (case parentExecution of
       None \<Rightarrow> False
     | Some p \<Rightarrow> (case rel_shouldResume p of None \<Rightarrow> True | Some b \<Rightarrow> b))"

definition startExecution :: "string \<Rightarrow> tracker \<Rightarrow> tracker" where
  "startExecution executionId t = t\<lparr>waitingExecutions := AList.delete executionId (waitingExecutions t),
     starting := starting t @ [executionId], log := log t @ [Started executionId]\<rparr>"

text \<open>After the execution was read: what is thrown, or the parent that waits for the end. The second argument is what
  the runner throws, if it does.\<close>

definition startExecution_found :: "fullExecution option \<Rightarrow> runError option \<Rightarrow> string option res" where
  "startExecution_found fullExecutionData run = (case fullExecutionData of
       None \<Rightarrow> Inl (UnexpectedError ''Execution does not exist.'')
     | Some full \<Rightarrow>
         if full_finished full then Inl (UnexpectedError ''The execution did succeed and can so not be started again.'')
         else if full_workflowId full = [] then Inl (UnexpectedError ''Only saved workflows can be resumed.'')
         else (case run of
             Some ExecutionAlreadyResuming \<Rightarrow> Inr None
           | Some (RunFailed e) \<Rightarrow> Inl e
           | None \<Rightarrow> Inr (if shouldRestartParentExecution (full_parent full) then map_option rel_executionId (full_parent full) else None)))"

definition executionFound :: "string \<Rightarrow> fullExecution option \<Rightarrow> runError option \<Rightarrow> tracker \<Rightarrow> tracker" where
  "executionFound executionId full run t = (if executionId \<notin> set (starting t) then t
     else let t = t\<lparr>starting := remove1 executionId (starting t)\<rparr> in
       case startExecution_found full run of
         Inl e \<Rightarrow> t\<lparr>log := log t @ [Threw e]\<rparr>
       | Inr None \<Rightarrow> t
       | Inr (Some p) \<Rightarrow> t\<lparr>children := children t @ [(executionId, p)]\<rparr>)"

text \<open>The end of a child: its status, if it has results.\<close>

definition childFinished :: "string \<times> string \<Rightarrow> ExecutionStatus option \<Rightarrow> tracker \<Rightarrow> tracker" where
  "childFinished child subworkflowResults t = (if child \<notin> set (children t) then t
     else let t = t\<lparr>children := remove1 child (children t)\<rparr> in
       case subworkflowResults of
         None \<Rightarrow> t
       | Some status \<Rightarrow> if status = Waiting then t else startExecution (snd child) (t\<lparr>log := log t @ [UpdatedParent (snd child)]\<rparr>))"

section \<open>The events\<close>

datatype tracker_event =
    TakeOver int "execution_row list"
  | StepDown
  | PollInterval nat int "execution_row list"
  | RowsArrive int
  | TimerFires nat int
  | StopWaiting string
  | StartFromOutside string
  | ExecutionFound string "fullExecution option" "runError option"
  | ChildFinished "string \<times> string" "ExecutionStatus option"

fun tracker_step :: "tracker_event \<Rightarrow> tracker \<Rightarrow> tracker" where
  "tracker_step (TakeOver now db) t = startTracking (getWaitingExecutions_query now db) t"
| "tracker_step StepDown t = stopTracking t"
| "tracker_step (PollInterval i now db) t =
     (if i \<in> set (intervals t) then getWaitingExecutions (getWaitingExecutions_query now db) t else t)"
| "tracker_step (RowsArrive now) t = (case queries t of
     [] \<Rightarrow> t
   | rows # rest \<Rightarrow> getWaitingExecutions_rows now rows (t\<lparr>queries := rest\<rparr>))"
| "tracker_step (TimerFires k now) t = (case map_of (timers t) k of
     None \<Rightarrow> t
   | Some (due, executionId) \<Rightarrow> if due \<le> now then startExecution executionId (clearTimeout k t) else t)"
| "tracker_step (StopWaiting executionId) t = stopExecution executionId t"
| "tracker_step (StartFromOutside executionId) t = startExecution executionId t"
| "tracker_step (ExecutionFound executionId full run) t = executionFound executionId full run t"
| "tracker_step (ChildFinished child results) t = childFinished child results t"

definition tracker_run :: "tracker_event list \<Rightarrow> tracker \<Rightarrow> tracker" where
  "tracker_run es t = foldl (\<lambda>t e. tracker_step e t) t es"

section \<open>Polls\<close>

text \<open>The numbers of the timers are fresh, and without a stepdown each tracked execution has its timer among the active ones.\<close>

definition timers_ok :: "tracker \<Rightarrow> bool" where
  "timers_ok t \<longleftrightarrow> distinct (map fst (timers t)) \<and> (\<forall>x \<in> set (timers t). fst x < nextTimer t) \<and>
     (\<forall>k \<in> set (intervals t). k < nextTimer t) \<and> (\<forall>k. mainTimer t = Some k \<longrightarrow> k < nextTimer t) \<and>
     (\<forall>i k. map_of (waitingExecutions t) i = Some k \<longrightarrow> k < nextTimer t)"

definition armed :: "tracker \<Rightarrow> string \<Rightarrow> nat \<Rightarrow> bool" where
  "armed t i k \<longleftrightarrow> (\<exists>due. (k, due, i) \<in> set (timers t))"

definition tracked_ok :: "tracker \<Rightarrow> bool" where
  "tracked_ok t \<longleftrightarrow> (\<forall>i k. map_of (waitingExecutions t) i = Some k \<longrightarrow> armed t i k)"

lemma armed_unique: "timers_ok t \<Longrightarrow> armed t a k \<Longrightarrow> armed t b k \<Longrightarrow> a = b"
  unfolding timers_ok_def armed_def by (metis eq_key_imp_eq_value snd_conv)

lemma armed_clearTimeout: "armed (clearTimeout k t) i j \<longleftrightarrow> armed t i j \<and> j \<noteq> k"
  by (auto simp: armed_def clearTimeout_def)

lemma timers_ok_clearTimeout: "timers_ok t \<Longrightarrow> timers_ok (clearTimeout k t)"
  by (auto simp: timers_ok_def clearTimeout_def distinct_map_filter)

lemma trackExecution_timers_ok: "timers_ok t \<Longrightarrow> timers_ok (trackExecution now i w t)"
  by (auto simp: timers_ok_def trackExecution_def setTimeout_def Let_def update_conv' less_Suc_eq)

lemma trackExecution_tracked_ok: "tracked_ok t \<Longrightarrow> tracked_ok (trackExecution now i w t)"
  by (auto simp: tracked_ok_def trackExecution_def setTimeout_def Let_def update_conv' armed_def)

lemma trackExecution_has: "has j (trackExecution now i w t) \<longleftrightarrow> j = i \<or> has j t"
  by (auto simp: has_def trackExecution_def setTimeout_def Let_def update_conv')

text \<open>A poll adds one timer for each row that was not tracked, in the order of the rows, and changes no other.\<close>

definition untracked :: "tracker \<Rightarrow> (string \<times> int) list \<Rightarrow> (string \<times> int) list" where
  "untracked t rows = filter (\<lambda>(i, _). \<not> has i t) rows"

lemma trackExecution_timers: "\<exists>new. timers (trackExecution now i w t) = timers t @ new \<and>
    map snd new = (if has i t then [] else [(now + max 1 (w - now), i)])"
  by (auto simp: has_def trackExecution_def setTimeout_def Let_def)

theorem getWaitingExecutions_rows_correct:
  assumes "distinct (map fst rows)"
  shows "(has i (getWaitingExecutions_rows now rows t) \<longleftrightarrow> has i t \<or> i \<in> fst ` set rows) \<and>
    (\<exists>new. timers (getWaitingExecutions_rows now rows t) = timers t @ new \<and>
      map snd new = map (\<lambda>(i, waitTill). (now + max 1 (waitTill - now), i)) (untracked t rows))"
  using assms
proof (induction rows arbitrary: t)
  case Nil
  show ?case by (simp add: getWaitingExecutions_rows_def untracked_def)
next
  case (Cons x rows)
  obtain j w where x: "x = (j, w)" by (cases x)
  let ?t = "trackExecution now j w t"
  have run: "getWaitingExecutions_rows now (x # rows) t = getWaitingExecutions_rows now rows ?t"
    by (simp add: getWaitingExecutions_rows_def x)
  have "untracked ?t rows = untracked t rows"
    unfolding untracked_def
  proof (rule filter_cong)
    fix y assume "y \<in> set rows"
    then have "fst y \<noteq> j" using Cons.prems x by auto
    then show "(case y of (i, _) \<Rightarrow> \<not> has i ?t) = (case y of (i, _) \<Rightarrow> \<not> has i t)"
      by (cases y) (simp add: trackExecution_has)
  qed simp
  moreover obtain new where "timers ?t = timers t @ new" "map snd new = (if has j t then [] else [(now + max 1 (w - now), j)])"
    using trackExecution_timers by blast
  moreover obtain new' where "timers (getWaitingExecutions_rows now rows ?t) = timers ?t @ new'"
      "map snd new' = map (\<lambda>(i, waitTill). (now + max 1 (waitTill - now), i)) (untracked ?t rows)"
      "has i (getWaitingExecutions_rows now rows ?t) \<longleftrightarrow> has i ?t \<or> i \<in> fst ` set rows"
    using Cons.IH [of ?t] Cons.prems x by auto
  ultimately show ?case unfolding run by (auto simp: x untracked_def trackExecution_has intro!: exI [of _ "new @ new'"])
qed

theorem getWaitingExecutions_rows_correct_witness: "has ''8'' (getWaitingExecutions_rows 1000 [(''7'', 900), (''8'', 5000)] newTracker)"
  using getWaitingExecutions_rows_correct [of "[(''7'', 900), (''8'', 5000)]" "''8''" 1000 newTracker] by simp

text \<open>The rows are the executions that wait, did not crash and are due within seventy seconds, by their time.\<close>

theorem getWaitingExecutions_query_correct:
  "set (getWaitingExecutions_query now rows) =
      {(x_id x, w) | x w. x \<in> set rows \<and> x_waitTill x = Some w \<and> w \<le> now + 70000 \<and> x_status x \<noteq> Crashed} \<and>
    sorted (map snd (getWaitingExecutions_query now rows))"
  by (auto simp: getWaitingExecutions_query_def split: option.splits if_splits)

section \<open>Executions that are tracked are resumed\<close>

lemma getWaitingExecutions_rows_inv:
  assumes "timers_ok t"
  shows "timers_ok (getWaitingExecutions_rows now rows t)" and "tracked_ok t \<Longrightarrow> tracked_ok (getWaitingExecutions_rows now rows t)"
proof -
  have "timers_ok (getWaitingExecutions_rows now rows t) \<and> (tracked_ok t \<longrightarrow> tracked_ok (getWaitingExecutions_rows now rows t))"
    unfolding getWaitingExecutions_rows_def
    by (rule foldl_invariant) (auto simp: assms trackExecution_timers_ok trackExecution_tracked_ok)
  then show "timers_ok (getWaitingExecutions_rows now rows t)" "tracked_ok t \<Longrightarrow> tracked_ok (getWaitingExecutions_rows now rows t)"
    by blast+
qed

lemma stopTracking_timers: "stopTracking t = (case mainTimer t of None \<Rightarrow> t | Some i \<Rightarrow>
    t\<lparr>intervals := filter (\<lambda>k. k \<noteq> i) (intervals t),
      timers := filter (\<lambda>x. fst x \<notin> snd ` set (waitingExecutions t)) (timers t)\<rparr>)"
proof -
  have "foldl (\<lambda>t (_, k). clearTimeout k t) t xs = t\<lparr>timers := filter (\<lambda>x. fst x \<notin> snd ` set xs) (timers t)\<rparr>" for xs :: "(string \<times> nat) list" and t
    by (induction xs arbitrary: t) (auto simp: clearTimeout_def intro!: filter_cong)
  then show ?thesis by (simp add: stopTracking_def split: option.split)
qed

text \<open>Who has the only active timer of an execution.\<close>

definition own :: "string \<Rightarrow> tracker \<Rightarrow> bool" where
  "own i t \<longleftrightarrow> (\<forall>k. armed t i k \<longrightarrow> map_of (waitingExecutions t) i = Some k)"

definition starts :: "string \<Rightarrow> tracker \<Rightarrow> nat" where
  "starts i t = count_list (log t) (Started i)"

lemmas tracker_op_defs = getWaitingExecutions_def startTracking_def stopExecution_def startExecution_def executionFound_def
  childFinished_def clearTimeout_def Let_def

lemma executionFound_same:
  "timers (executionFound i f r t) = timers t \<and> waitingExecutions (executionFound i f r t) = waitingExecutions t \<and>
    nextTimer (executionFound i f r t) = nextTimer t \<and> intervals (executionFound i f r t) = intervals t \<and>
    mainTimer (executionFound i f r t) = mainTimer t \<and> starts j (executionFound i f r t) = starts j t"
  by (auto simp: executionFound_def Let_def starts_def split: sum.split option.split)

lemma armed_same: "timers t = timers t' \<Longrightarrow> armed t i k = armed t' i k"
  by (simp add: armed_def)

lemma timers_ok_step: "timers_ok t \<Longrightarrow> timers_ok (tracker_step e t)"
proof (cases e)
  case (RowsArrive now)
  assume "timers_ok t"
  then have "timers_ok (t\<lparr>queries := q\<rparr>)" for q by (simp add: timers_ok_def)
  then show ?thesis using \<open>timers_ok t\<close> RowsArrive by (simp add: getWaitingExecutions_rows_inv split: list.split)
next
  case StepDown
  assume "timers_ok t"
  then show ?thesis using StepDown by (auto simp: stopTracking_timers timers_ok_def distinct_map_filter split: option.split)
next
  case (ExecutionFound i f r)
  assume "timers_ok t"
  then show ?thesis using ExecutionFound by (simp add: timers_ok_def executionFound_same)
qed (auto simp: timers_ok_def tracker_op_defs delete_conv' distinct_map_filter less_Suc_eq split: option.splits if_splits prod.splits)

lemma tracked_ok_step:
  assumes "timers_ok t" and "tracked_ok t" and "e \<noteq> StepDown"
  shows "tracked_ok (tracker_step e t)"
proof (cases e)
  case (RowsArrive now)
  have "timers_ok (t\<lparr>queries := q\<rparr>)" "tracked_ok (t\<lparr>queries := q\<rparr>)" for q
    using assms by (simp_all add: timers_ok_def tracked_ok_def armed_def)
  then show ?thesis using assms RowsArrive by (simp add: getWaitingExecutions_rows_inv split: list.split)
next
  case (ExecutionFound i f r)
  then show ?thesis using assms by (simp add: tracked_ok_def armed_def executionFound_same)
next
  case (StopWaiting i)
  show ?thesis
  proof (cases "map_of (waitingExecutions t) i")
    case (Some k)
    have "armed t j l \<and> l \<noteq> k" if "map_of (waitingExecutions t) j = Some l" "j \<noteq> i" for j l
      using that Some assms(2) armed_unique [OF assms(1), of i k j] by (auto simp: tracked_ok_def)
    then show ?thesis using StopWaiting Some
      by (auto simp: tracked_ok_def stopExecution_def delete_conv' armed_def clearTimeout_def)
  qed (use StopWaiting assms in \<open>simp add: stopExecution_def\<close>)
next
  case (TimerFires k now)
  show ?thesis
  proof (cases "map_of (timers t) k")
    case (Some x)
    obtain due i where x: "x = (due, i)" by (cases x)
    with Some have "armed t i k" by (auto simp: armed_def dest: map_of_SomeD)
    then have "armed t j l \<and> l \<noteq> k" if "map_of (waitingExecutions t) j = Some l" "j \<noteq> i" for j l
      using that assms(2) armed_unique [OF assms(1), of i k j] by (auto simp: tracked_ok_def)
    then show ?thesis using TimerFires Some x assms(2)
      by (auto simp: tracked_ok_def startExecution_def delete_conv' armed_def clearTimeout_def)
  qed (use TimerFires assms in simp)
qed (use assms in \<open>auto simp: tracked_ok_def armed_def tracker_op_defs delete_conv' split: option.splits if_splits\<close>)

lemma tracker_run_append: "tracker_run (es @ [e]) t = tracker_step e (tracker_run es t)"
  by (simp add: tracker_run_def)

lemma timers_ok_run: "timers_ok (tracker_run es newTracker)"
proof (induction es rule: rev_induct)
  case Nil
  show ?case by (simp add: tracker_run_def newTracker_def timers_ok_def)
qed (simp add: tracker_run_append timers_ok_step)

lemma tracked_ok_run: "StepDown \<notin> set es \<Longrightarrow> tracked_ok (tracker_run es newTracker)"
proof (induction es rule: rev_induct)
  case Nil
  show ?case by (simp add: tracker_run_def newTracker_def tracked_ok_def)
qed (auto simp: tracker_run_append tracked_ok_step timers_ok_run)

text \<open>What is tracked stays so until it is started or stopped, even when the tracking stops.\<close>

lemma getWaitingExecutions_rows_has:
  "has i (getWaitingExecutions_rows now rows t) \<longleftrightarrow> has i t \<or> i \<in> fst ` set rows"
proof (induction rows arbitrary: t)
  case (Cons x rows)
  have "getWaitingExecutions_rows now (x # rows) t = getWaitingExecutions_rows now rows (trackExecution now (fst x) (snd x) t)"
    by (simp add: getWaitingExecutions_rows_def case_prod_beta)
  then show ?case using Cons [of "trackExecution now (fst x) (snd x) t"] by (auto simp: trackExecution_has)
qed (simp add: getWaitingExecutions_rows_def)

lemma getWaitingExecutions_rows_log: "log (getWaitingExecutions_rows now rows t) = log t"
  unfolding getWaitingExecutions_rows_def
  by (induction rows arbitrary: t) (auto simp: trackExecution_def setTimeout_def Let_def)

lemma has_step: "has i t \<Longrightarrow> e \<noteq> StopWaiting i \<Longrightarrow> has i (tracker_step e t) \<or> starts i t < starts i (tracker_step e t)"
proof (cases e)
  case (RowsArrive now)
  assume "has i t"
  then have "has i (t\<lparr>queries := q\<rparr>)" for q by (simp add: has_def)
  then show ?thesis using RowsArrive \<open>has i t\<close> by (simp add: getWaitingExecutions_rows_has split: list.split)
next
  case (ExecutionFound j f r)
  assume "has i t"
  then show ?thesis using ExecutionFound by (simp add: has_def executionFound_same)
qed (auto simp: has_def starts_def tracker_op_defs stopTracking_timers delete_conv' split: option.splits if_splits)

lemma starts_step: "starts i t \<le> starts i (tracker_step e t)"
  by (cases e) (auto simp: starts_def tracker_op_defs stopTracking_timers getWaitingExecutions_rows_log
      split: option.splits if_splits list.splits sum.splits)

lemma has_run:
  "has i t \<Longrightarrow> StopWaiting i \<notin> set es \<Longrightarrow>
    (has i (tracker_run es t) \<or> starts i t < starts i (tracker_run es t)) \<and> starts i t \<le> starts i (tracker_run es t)"
proof (induction es rule: rev_induct)
  case (snoc e es)
  then show ?case using has_step [of i "tracker_run es t" e] starts_step [of i "tracker_run es t" e]
    by (auto simp: tracker_run_append)
qed (simp add: tracker_run_def)

lemma tracker_run_add: "tracker_run (es @ es') t = tracker_run es' (tracker_run es t)"
  by (simp add: tracker_run_def)

text \<open>C14. While there is no stepdown, an execution that a poll found was started since, or stopped, or a timer is active that
  starts it.\<close>

theorem polled_executions_start:
  assumes "t = tracker_run es newTracker" and "queries t = rows # rest" and "(i, waitTill) \<in> set rows"
    and "t' = tracker_run (RowsArrive now # es') t" and "StepDown \<notin> set (es @ es')" and "StopWaiting i \<notin> set es'"
  shows "starts i t < starts i t' \<or>
    (\<exists>due k. (k, due, i) \<in> set (timers t') \<and> starts i (tracker_step (TimerFires k due) t') = Suc (starts i t'))"
proof -
  let ?u = "tracker_step (RowsArrive now) t"
  have "has i ?u" using assms(2,3) by (force simp: getWaitingExecutions_rows_has)
  moreover have t': "t' = tracker_run es' ?u" using assms(4) by (simp add: tracker_run_def)
  moreover have "starts i ?u = starts i t" using assms(2) by (simp add: starts_def getWaitingExecutions_rows_log)
  ultimately have "has i t' \<or> starts i t < starts i t'" using has_run [of i ?u es'] assms(6) by auto
  moreover have "\<exists>due k. (k, due, i) \<in> set (timers t') \<and> starts i (tracker_step (TimerFires k due) t') = Suc (starts i t')" if "has i t'"
  proof -
    have run: "t' = tracker_run (es @ RowsArrive now # es') newTracker" using assms(1,4) by (simp add: tracker_run_add)
    then have "tracked_ok t'" using assms(5) by (auto intro: tracked_ok_run)
    with that obtain k where "armed t' i k" unfolding has_def tracked_ok_def by auto
    then obtain due where k: "(k, due, i) \<in> set (timers t')" unfolding armed_def by blast
    have "map_of (timers t') k = Some (due, i)"
      using k timers_ok_run [of "es @ RowsArrive now # es'", folded run] by (simp add: timers_ok_def)
    then have "starts i (tracker_step (TimerFires k due) t') = Suc (starts i t')" by (simp add: startExecution_def clearTimeout_def starts_def)
    with k show ?thesis by blast
  qed
  ultimately show ?thesis by blast
qed

definition some_rows :: "execution_row list" where
  "some_rows = [\<lparr>x_id = ''7'', x_waitTill = Some 5000, x_status = Waiting\<rparr>, \<lparr>x_id = ''8'', x_waitTill = None, x_status = Running\<rparr>]"

theorem polled_executions_start_witness:
  "let t = tracker_run [TakeOver 1000 some_rows] newTracker; t' = tracker_run [RowsArrive 1010, TimerFires 1 6000] t
   in starts ''7'' t < starts ''7'' t'"
proof -
  let ?t = "tracker_run [TakeOver 1000 some_rows] newTracker"
  have "queries ?t = [(''7'', 5000)] # []" by code_simp
  moreover have "timers (tracker_run [RowsArrive 1010, TimerFires 1 6000] ?t) = []" by code_simp
  ultimately show ?thesis
    using polled_executions_start [of ?t _ "[(''7'', 5000)]" "[]" "''7''" 5000 _ 1010 "[TimerFires 1 6000]", OF refl _ _ refl]
    by (simp add: Let_def)
qed

section \<open>Executions that a stepdown leaves behind\<close>

text \<open>Their entry is there and no timer is active; the polls skip them because of the entry.\<close>

definition stuck :: "string \<Rightarrow> tracker \<Rightarrow> bool" where
  "stuck i t \<longleftrightarrow> has i t \<and> (\<forall>k. \<not> armed t i k)"

text \<open>The events by which something other than the tracker starts or stops an execution.\<close>

definition from_outside :: "string \<Rightarrow> tracker_event \<Rightarrow> bool" where
  "from_outside i e \<longleftrightarrow> (case e of StopWaiting j \<Rightarrow> j = i | StartFromOutside j \<Rightarrow> j = i | ChildFinished child _ \<Rightarrow> snd child = i | _ \<Rightarrow> False)"

lemma trackExecution_stuck: "stuck i t \<Longrightarrow> stuck i (trackExecution now j w t)"
  by (auto simp: stuck_def trackExecution_has armed_def) (auto simp: trackExecution_def setTimeout_def has_def Let_def split: if_splits)

lemma trackExecution_own: "own i t \<Longrightarrow> own i (trackExecution now j w t)"
  by (auto simp: own_def armed_def trackExecution_def setTimeout_def Let_def update_conv' split: if_splits)

lemma getWaitingExecutions_rows_stuck: "stuck i t \<Longrightarrow> stuck i (getWaitingExecutions_rows now rows t)"
  unfolding getWaitingExecutions_rows_def by (rule foldl_invariant) (auto simp: trackExecution_stuck)

lemma getWaitingExecutions_rows_own: "own i t \<Longrightarrow> own i (getWaitingExecutions_rows now rows t)"
  unfolding getWaitingExecutions_rows_def by (rule foldl_invariant) (auto simp: trackExecution_own)

lemma stuck_step: "stuck i t \<Longrightarrow> \<not> from_outside i e \<Longrightarrow> stuck i (tracker_step e t) \<and> starts i (tracker_step e t) = starts i t"
proof (cases e)
  case (RowsArrive now)
  assume "stuck i t"
  then have "stuck i (t\<lparr>queries := q\<rparr>)" for q by (simp add: stuck_def has_def armed_def)
  then show ?thesis using RowsArrive \<open>stuck i t\<close>
    by (simp add: getWaitingExecutions_rows_stuck starts_def getWaitingExecutions_rows_log split: list.split)
next
  case (ExecutionFound j f r)
  assume "stuck i t"
  then show ?thesis using ExecutionFound by (simp add: stuck_def has_def armed_def executionFound_same)
next
  case (TimerFires k now)
  assume "stuck i t"
  then show ?thesis using TimerFires
    by (auto simp: stuck_def has_def armed_def tracker_op_defs starts_def delete_conv' dest: map_of_SomeD split: option.splits)
qed (auto simp: stuck_def has_def armed_def from_outside_def starts_def tracker_op_defs stopTracking_timers delete_conv' split: option.splits if_splits)

lemma stuck_run:
  "stuck i t \<Longrightarrow> \<forall>e \<in> set es. \<not> from_outside i e \<Longrightarrow> stuck i (tracker_run es t) \<and> starts i (tracker_run es t) = starts i t"
proof (induction es rule: rev_induct)
  case (snoc e es)
  then show ?case using stuck_step [of i "tracker_run es t" e] by (simp add: tracker_run_append)
qed (simp add: tracker_run_def)

lemma own_step: "timers_ok t \<Longrightarrow> own i t \<Longrightarrow> \<not> from_outside i e \<Longrightarrow> own i (tracker_step e t)"
proof (cases e)
  case (RowsArrive now)
  assume "own i t"
  then have "own i (t\<lparr>queries := q\<rparr>)" for q by (simp add: own_def armed_def)
  then show ?thesis using RowsArrive \<open>own i t\<close> by (simp add: getWaitingExecutions_rows_own split: list.split)
next
  case (ExecutionFound j f r)
  assume "own i t"
  then show ?thesis using ExecutionFound by (simp add: own_def armed_def executionFound_same)
next
  case (TimerFires k now)
  assume own: "own i t" and ok: "timers_ok t"
  show ?thesis
  proof (cases "map_of (timers t) k")
    case (Some x)
    obtain due j where x: "x = (due, j)" by (cases x)
    have "armed t j k" using Some x by (auto simp: armed_def dest: map_of_SomeD)
    then have "l = k" if "armed t j l" "j = i" for l using that own unfolding own_def by (metis option.inject)
    then show ?thesis using TimerFires Some x own
      by (auto simp: own_def startExecution_def delete_conv' armed_def clearTimeout_def)
  qed (use TimerFires own in simp)
next
  case StepDown
  assume "own i t"
  then show ?thesis using StepDown by (auto simp: own_def armed_def stopTracking_timers split: option.split)
qed (auto simp: own_def armed_def from_outside_def tracker_op_defs delete_conv' split: option.splits if_splits)

lemma own_run: "\<forall>e \<in> set es. \<not> from_outside i e \<Longrightarrow> own i (tracker_run es newTracker)"
proof (induction es rule: rev_induct)
  case Nil
  show ?case by (simp add: tracker_run_def newTracker_def own_def armed_def)
qed (simp add: tracker_run_append own_step timers_ok_run)

text \<open>Rows come from queries, and queries from the tracking.\<close>

definition started_tracking :: "tracker \<Rightarrow> bool" where
  "started_tracking t \<longleftrightarrow> (queries t \<noteq> [] \<or> intervals t \<noteq> [] \<or> waitingExecutions t \<noteq> [] \<longrightarrow> mainTimer t \<noteq> None)"

lemma getWaitingExecutions_rows_rest:
  "mainTimer (getWaitingExecutions_rows now rows t) = mainTimer t" "queries (getWaitingExecutions_rows now rows t) = queries t"
  "intervals (getWaitingExecutions_rows now rows t) = intervals t"
  unfolding getWaitingExecutions_rows_def by (induction rows arbitrary: t) (auto simp: trackExecution_def setTimeout_def Let_def)

lemma started_tracking_step: "started_tracking t \<Longrightarrow> started_tracking (tracker_step e t)"
proof (cases e)
  case (RowsArrive now)
  assume "started_tracking t"
  then show ?thesis using RowsArrive
    by (auto simp: started_tracking_def getWaitingExecutions_rows_rest split: list.split)
qed (auto simp: started_tracking_def tracker_op_defs stopTracking_timers split: option.splits if_splits sum.splits)

lemma started_tracking_run: "started_tracking (tracker_run es newTracker)"
proof (induction es rule: rev_induct)
  case Nil
  show ?case by (simp add: tracker_run_def newTracker_def started_tracking_def)
qed (simp add: tracker_run_append started_tracking_step)

lemma stepdown_stuck:
  assumes "\<forall>e \<in> set es. \<not> from_outside i e" and "has i (tracker_run es newTracker)"
  shows "stuck i (stopTracking (tracker_run es newTracker))"
proof -
  let ?t = "tracker_run es newTracker"
  obtain k where k: "map_of (waitingExecutions ?t) i = Some k" using assms(2) by (auto simp: has_def)
  then obtain m where m: "mainTimer ?t = Some m" using started_tracking_run [of es] by (auto simp: started_tracking_def)
  have "j = k" if "armed ?t i j" for j using that own_run [OF assms(1)] k by (auto simp: own_def)
  moreover have "k \<in> snd ` set (waitingExecutions ?t)" using k by (force dest: map_of_SomeD)
  moreover have "armed ?t i j \<and> j \<notin> snd ` set (waitingExecutions ?t)" if "armed (stopTracking ?t) i j" for j
    using that m by (auto simp: armed_def stopTracking_timers)
  ultimately have "\<not> armed (stopTracking ?t) i j" for j by metis
  with assms(2) m show ?thesis by (simp add: stuck_def has_def stopTracking_timers)
qed

text \<open>An execution that is tracked when the instance steps down is not started by this instance again, whatever
  happens later: takeovers and polls find its entry, and set no timer.\<close>

theorem stepdown_loses_executions:
  assumes "has i (tracker_run es newTracker)" and "\<forall>e \<in> set (es @ es'). \<not> from_outside i e"
  shows "starts i (tracker_run (es @ StepDown # es') newTracker) = starts i (tracker_run es newTracker) \<and>
    has i (tracker_run (es @ StepDown # es') newTracker)"
proof -
  let ?t = "tracker_run es newTracker"
  have "tracker_run (es @ StepDown # es') newTracker = tracker_run es' (stopTracking ?t)" by (simp add: tracker_run_def)
  moreover have "stuck i (stopTracking ?t)" using assms by (intro stepdown_stuck) auto
  moreover have "starts i (stopTracking ?t) = starts i ?t" by (simp add: starts_def stopTracking_timers split: option.split)
  ultimately show ?thesis using stuck_run [of i "stopTracking ?t" es'] assms(2) by (auto simp: stuck_def)
qed

theorem stepdown_loses_executions_witness:
  "starts ''7'' (tracker_run [TakeOver 1000 some_rows, RowsArrive 1010, StepDown, TakeOver 2000 some_rows, RowsArrive 2010, TimerFires 1 9000] newTracker) = 0"
proof -
  let ?es = "[TakeOver 1000 some_rows, RowsArrive 1010]"
  have "has ''7'' (tracker_run ?es newTracker)" by code_simp
  moreover have "starts ''7'' (tracker_run ?es newTracker) = 0" by code_simp
  ultimately show ?thesis
    using stepdown_loses_executions [of "''7''" ?es "[TakeOver 2000 some_rows, RowsArrive 2010, TimerFires 1 9000]"]
    by (simp add: from_outside_def)
qed

section \<open>The tracker of an instance\<close>

text \<open>The handlers that \<open>registerEventHandlers\<close> sets for the tracker, for events in their order; \<open>db\<close> is what the
  query of a takeover sees.\<close>

definition leader_tracker_event :: "int \<Rightarrow> execution_row list \<Rightarrow> MultiMainEvents \<Rightarrow> tracker_event" where
  "leader_tracker_event now db e = (case e of LeaderTakeover \<Rightarrow> TakeOver now db | LeaderStepdown \<Rightarrow> StepDown)"

definition handle_events :: "int \<Rightarrow> execution_row list \<Rightarrow> MultiMainEvents list \<Rightarrow> tracker \<Rightarrow> tracker" where
  "handle_events now db es t = tracker_run (map (leader_tracker_event now db) es) t"

lemma handle_events_tell: "handle_events now db es t = tell (startTracking (getWaitingExecutions_query now db)) stopTracking es t"
proof -
  have "tracker_step (leader_tracker_event now db e) t =
      (case e of LeaderTakeover \<Rightarrow> startTracking (getWaitingExecutions_query now db) t | LeaderStepdown \<Rightarrow> stopTracking t)" for e t
    by (cases e) (simp_all add: leader_tracker_event_def)
  then show ?thesis by (induction es arbitrary: t) (simp_all add: handle_events_def tracker_run_def tell_def)
qed

definition polls :: "tracker \<Rightarrow> bool" where
  "polls t \<longleftrightarrow> (\<exists>i. intervals t = [i] \<and> mainTimer t = Some i)"

interpretation polling: leader_service "startTracking rows" stopTracking polls "\<lambda>t. intervals t = []"
  by unfold_locales (auto simp: polls_def startTracking_def getWaitingExecutions_def stopTracking_timers split: option.split)

text \<open>The main process \<open>h\<close> of \<open>packages/cli/src/commands/start.ts\<close> in a cluster. Its start awaits the initialization of the
  election, then initializes the tracker, and some services later registers the handlers: what the election emits before
  that is heard by nobody. A process that is stopped first stops the tracking, and later leaves the election. The
  fields \<open>early\<close> and \<open>unheard\<close> only record the events: those emitted before the tracker was initialized, and those emitted
  after it and before the handlers were there.\<close>

record main_process =
  p_cluster :: cluster
  p_tracker :: tracker
  p_tracking :: bool
  p_registered :: bool
  p_stopping :: bool
  early :: "MultiMainEvents list"
  unheard :: "MultiMainEvents list"

definition new_process :: main_process where
  "new_process = \<lparr>p_cluster = newCluster, p_tracker = newTracker, p_tracking = False, p_registered = False, p_stopping = False,
     early = [], unheard = []\<rparr>"

datatype process_event =
    Election leader_event int "execution_row list"
  | InitWaitTracker int "execution_row list"
  | RegisterEventHandlers
  | StopProcess
  | Tracker tracker_event

definition new_events :: "nat \<Rightarrow> leader_event \<Rightarrow> cluster \<Rightarrow> MultiMainEvents list" where
  "new_events h e c = drop (length (emitted (mains c h))) (emitted (mains (leader_step e c) h))"

text \<open>The parts of \<open>init\<close> and \<open>stopProcess\<close> that concern the tracker. Of a process that is stopped the election's
  \<open>shutdown\<close> is a later step, since other services are awaited before it.\<close>

definition initWaitTracker :: "nat \<Rightarrow> int \<Rightarrow> execution_row list \<Rightarrow> main_process \<Rightarrow> main_process" where
  "initWaitTracker h now db p =
     p\<lparr>p_tracker := initTracker (isLeader (mains (p_cluster p) h)) (getWaitingExecutions_query now db) (p_tracker p), p_tracking := True\<rparr>"

definition registerEventHandlers :: "main_process \<Rightarrow> main_process" where
  "registerEventHandlers p = p\<lparr>p_registered := True\<rparr>"

definition stopProcess :: "main_process \<Rightarrow> main_process" where
  "stopProcess p = p\<lparr>p_tracker := stopTracking (p_tracker p), p_stopping := True\<rparr>"

fun process_step :: "nat \<Rightarrow> process_event \<Rightarrow> main_process \<Rightarrow> main_process" where
  "process_step h (Election e now db) p =
     (let es = new_events h e (p_cluster p); p' = p\<lparr>p_cluster := leader_step e (p_cluster p)\<rparr>
      in if p_registered p then p'\<lparr>p_tracker := handle_events now db es (p_tracker p)\<rparr>
         else if p_tracking p then p'\<lparr>unheard := unheard p @ es\<rparr> else p'\<lparr>early := early p @ es\<rparr>)"
| "process_step h (InitWaitTracker now db) p = initWaitTracker h now db p"
| "process_step h RegisterEventHandlers p = registerEventHandlers p"
| "process_step h StopProcess p = stopProcess p"
| "process_step h (Tracker e) p = p\<lparr>p_tracker := tracker_step e (p_tracker p)\<rparr>"

lemmas process_defs = initWaitTracker_def registerEventHandlers_def stopProcess_def

text \<open>When a step can happen. Checks do not overlap, as in \<open>leader_events_match\<close>; the tracker hears takeovers and stepdowns
  from the handlers only.\<close>

fun can_happen :: "nat \<Rightarrow> process_event \<Rightarrow> main_process \<Rightarrow> bool" where
  "can_happen h (Election e now db) p \<longleftrightarrow> no_overlap e (p_cluster p) \<and> (e = Shutdown h \<longrightarrow> p_stopping p)"
| "can_happen h (InitWaitTracker now db) p \<longleftrightarrow> ticking (mains (p_cluster p) h) \<and> \<not> p_tracking p"
| "can_happen h RegisterEventHandlers p \<longleftrightarrow> p_tracking p \<and> \<not> p_registered p"
| "can_happen h StopProcess p \<longleftrightarrow> p_registered p \<and> \<not> p_stopping p"
| "can_happen h (Tracker e) p \<longleftrightarrow> e \<noteq> StepDown \<and> (\<forall>now db. e \<noteq> TakeOver now db)"

inductive process_reach :: "nat \<Rightarrow> main_process \<Rightarrow> bool" for h where
  start: "process_reach h new_process"
| step: "process_reach h p \<Longrightarrow> can_happen h e p \<Longrightarrow> process_reach h (process_step h e p)"

lemma tracker_step_keeps:
  assumes "e \<noteq> StepDown" and "\<And>now db. e \<noteq> TakeOver now db"
  shows "intervals (tracker_step e t) = intervals t" and "mainTimer (tracker_step e t) = mainTimer t"
proof -
  have "intervals (tracker_step e t) = intervals t \<and> mainTimer (tracker_step e t) = mainTimer t"
  proof (cases e)
    case (ExecutionFound i f r)
    then show ?thesis by (simp add: executionFound_same)
  next
    case (RowsArrive now)
    then show ?thesis by (simp add: getWaitingExecutions_rows_rest split: list.split)
  qed (use assms in \<open>auto simp: tracker_op_defs split: option.splits\<close>)
  then show "intervals (tracker_step e t) = intervals t" "mainTimer (tracker_step e t) = mainTimer t" by blast+
qed

text \<open>The events of an election are only ever added to.\<close>

lemma emitted_grow: "\<exists>es. emitted (mains (leader_step e c) h) = emitted (mains c h) @ es"
proof (cases e)
  case (Handle g)
  have "\<exists>es. emitted (handleReply g r (m\<lparr>replies := rs\<rparr>)) = emitted m @ es" for r m rs
    by (cases r) (auto simp: leader_defs split: option.split)
  then show ?thesis using Handle by (auto simp: on_main_def split: list.split)
qed (auto simp: leader_defs Let_def case_prod_beta split: list.split)

lemma emitted_new: "emitted (mains (leader_step e c) h) = emitted (mains c h) @ new_events h e c"
  using emitted_grow [of e c h] by (auto simp: new_events_def)

text \<open>What holds in every state: before the tracker is initialized nothing is polled, and from then on it polls as the
  events say that it has heard of, when none was missed.\<close>

definition process_inv :: "nat \<Rightarrow> main_process \<Rightarrow> bool" where
  "process_inv h p \<longleftrightarrow> cluster_reach no_overlap (p_cluster p) \<and>
     (\<not> p_tracking p \<longrightarrow> \<not> p_registered p \<and> unheard p = [] \<and> intervals (p_tracker p) = [] \<and>
        emitted (mains (p_cluster p) h) = early p) \<and>
     (p_tracking p \<longrightarrow> \<not> p_registered p \<longrightarrow> emitted (mains (p_cluster p) h) = early p @ unheard p \<and>
        (if early p \<noteq> [] \<and> last (early p) = LeaderTakeover then polls (p_tracker p) else intervals (p_tracker p) = [])) \<and>
     (p_registered p \<longrightarrow> \<not> p_stopping p \<longrightarrow> unheard p = [] \<longrightarrow>
        (if took_over (mains (p_cluster p) h) then polls (p_tracker p) else intervals (p_tracker p) = [])) \<and>
     (p_stopping p \<longrightarrow> p_registered p)"

lemma polls_keeps: "intervals t' = intervals t \<Longrightarrow> mainTimer t' = mainTimer t \<Longrightarrow> polls t' = polls t"
  by (simp add: polls_def)

lemma process_inv_step:
  assumes inv: "process_inv h p" and can: "can_happen h e p"
  shows "process_inv h (process_step h e p)"
proof (cases e)
  case (Election l now db)
  let ?c = "leader_step l (p_cluster p)" and ?es = "new_events h l (p_cluster p)"
  have reach: "cluster_reach no_overlap ?c" using inv can Election by (auto simp: process_inv_def intro: cluster_reach.step)
  have new: "emitted (mains ?c h) = emitted (mains (p_cluster p) h) @ ?es" by (rule emitted_new)
  show ?thesis
  proof (cases "p_registered p")
    case True
    have "no_double (emitted (mains (p_cluster p) h) @ ?es)"
      using cluster_reach_events [OF reach, of h] unfolding new event_inv_def by blast
    then have "if took_over (mains ?c h) then polls (handle_events now db ?es (p_tracker p)) else intervals (handle_events now db ?es (p_tracker p)) = []"
      if "\<not> p_stopping p" "unheard p = []"
      unfolding took_over_def new handle_events_tell
      by (rule polling.told) (use inv True that in \<open>auto simp: process_inv_def took_over_def split: if_splits\<close>)
    then show ?thesis using inv Election True reach by (auto simp: process_inv_def Let_def)
  next
    case False
    then show ?thesis using inv Election reach new by (auto simp: process_inv_def Let_def)
  qed
next
  case (InitWaitTracker now db)
  have leader: "isLeader (mains (p_cluster p) h) \<longleftrightarrow> took_over (mains (p_cluster p) h)"
    using inv cluster_reach_events [of "p_cluster p" h] by (auto simp: process_inv_def event_inv_def)
  show ?thesis using inv can InitWaitTracker leader polling.on_takeover
    by (auto simp: process_inv_def process_defs initTracker_def took_over_def)
next
  case RegisterEventHandlers
  then show ?thesis using inv can by (auto simp: process_inv_def process_defs took_over_def)
next
  case StopProcess
  then show ?thesis using inv can by (auto simp: process_inv_def process_defs)
next
  case (Tracker t)
  have "intervals (tracker_step t (p_tracker p)) = intervals (p_tracker p)" "polls (tracker_step t (p_tracker p)) = polls (p_tracker p)"
    using can Tracker by (auto simp: tracker_step_keeps intro!: polls_keeps)
  then show ?thesis using inv Tracker by (auto simp: process_inv_def)
qed

lemma process_reach_inv: "process_reach h p \<Longrightarrow> process_inv h p"
proof (induction rule: process_reach.induct)
  case start
  show ?case by (simp add: process_inv_def new_process_def newTracker_def newCluster_def newMain_def)
    (metis cluster_reach.start newCluster_def newMain_def)
next
  case (step p e)
  then show ?case using process_inv_step by blast
qed

text \<open>C13. A main process of a cluster, from the registration of its handlers until it is stopped, polls the waiting
  executions exactly while it is leader, and with one interval, whatever the election, the polls and the timers do.
  This supposes that checks do not overlap, and that the election has emitted nothing between the initialization
  of the tracker and the registration, which nobody hears (see \<open>unheard_takeover_never_polls\<close>).\<close>

theorem polling_iff_leader:
  assumes "process_reach h p" and "p_registered p" and "\<not> p_stopping p" and "unheard p = []"
  shows "length (intervals (p_tracker p)) = (if isLeader (mains (p_cluster p) h) then 1 else 0) \<and>
    (isLeader (mains (p_cluster p) h) \<longrightarrow> mainTimer (p_tracker p) = Some (hd (intervals (p_tracker p))))"
proof -
  have inv: "process_inv h p" using assms(1) by (rule process_reach_inv)
  then have "isLeader (mains (p_cluster p) h) \<longleftrightarrow> took_over (mains (p_cluster p) h)"
    using cluster_reach_events [of "p_cluster p" h] by (auto simp: process_inv_def event_inv_def)
  then show ?thesis using inv assms(2-4) by (auto simp: process_inv_def polls_def split: if_splits)
qed

definition process_run :: "nat \<Rightarrow> process_event list \<Rightarrow> main_process \<Rightarrow> main_process" where
  "process_run h es p = foldl (\<lambda>p e. process_step h e p) p es"

primrec all_can_happen :: "nat \<Rightarrow> process_event list \<Rightarrow> main_process \<Rightarrow> bool" where
  "all_can_happen h [] p \<longleftrightarrow> True"
| "all_can_happen h (e # es) p \<longleftrightarrow> can_happen h e p \<and> all_can_happen h es (process_step h e p)"

lemma process_reach_run: "process_reach h p \<Longrightarrow> all_can_happen h es p \<Longrightarrow> process_reach h (process_run h es p)"
  unfolding process_run_def by (induction es arbitrary: p) (auto intro: process_reach.step)

text \<open>A process that takes over at its start, loses its key, and takes it back once its handlers are there.\<close>

definition check :: "nat \<Rightarrow> process_event list" where
  "check h = map (\<lambda>e. Election e 3000 []) [Tick h, Serve h, Handle h, Serve h, Handle h]"

definition restart :: "process_event list" where
  "restart = map (\<lambda>e. Election e 0 []) [Init 1, Serve 1, Handle 1] @ [InitWaitTracker 1000 [], RegisterEventHandlers, Election Expire 0 []] @ check 1"

theorem polling_iff_leader_witness:
  "length (intervals (p_tracker (process_run 1 restart new_process))) = 1"
proof -
  let ?p = "process_run 1 restart new_process"
  have "all_can_happen 1 restart new_process"
    by (simp add: restart_def check_def new_process_def newCluster_def newMain_def leader_defs no_overlap_def new_events_def
        calls_def is_call_def process_defs initTracker_def handle_events_def leader_tracker_event_def tracker_run_def)
  then have "process_reach 1 ?p" by (rule process_reach_run [OF process_reach.start])
  moreover have "p_registered ?p" "\<not> p_stopping ?p" "unheard ?p = []" "isLeader (mains (p_cluster ?p) 1)" by code_simp+
  ultimately show ?thesis using polling_iff_leader [of 1 ?p] by simp
qed

text \<open>An instance that takes over after its tracker was initialized and before its handlers are registered stays leader
  and never polls: its later checks find that it is leader, and emit nothing.\<close>

definition late_takeover :: "process_event list" where
  "late_takeover = map (\<lambda>e. Election e 0 []) [Init 2, Serve 2, Handle 2, Init 1, Serve 1, Handle 1] @
     [InitWaitTracker 1000 [], Election Expire 0 []] @ check 1 @ [RegisterEventHandlers] @ check 1 @ check 1"

theorem unheard_takeover_never_polls:
  "isLeader (mains (p_cluster (process_run 1 late_takeover new_process)) 1) \<and>
    p_registered (process_run 1 late_takeover new_process) \<and>
    unheard (process_run 1 late_takeover new_process) = [LeaderStepdown, LeaderTakeover] \<and>
    intervals (p_tracker (process_run 1 late_takeover new_process)) = []"
  by code_simp

text \<open>A leader whose key expired takes it back with its next check, and tells its services to stop and to start. What
  was tracked before is never started then, though the instance is leader as before.\<close>

theorem expired_key_loses_executions:
  assumes "ticking (mains c h)" and "sent (mains c h) = []" and "replies (mains c h) = []" and "leaderKey c = None"
    and "has i (tracker_run es newTracker)" and "\<forall>e \<in> set (es @ es'). \<not> from_outside i e"
  defines "events \<equiv> drop (length (emitted (mains c h))) (emitted (mains (check_round h c) h))"
  shows "isLeader (mains (check_round h c) h) \<and>
    starts i (tracker_run es' (handle_events now db events (tracker_run es newTracker))) = starts i (tracker_run es newTracker)"
proof
  show "isLeader (mains (check_round h c) h)"
    using assms(1-4) by (simp add: check_round_def leader_run_def leader_defs)
  let ?t = "tracker_run es newTracker"
  have "events = [LeaderStepdown, LeaderTakeover]"
    using assms(1-4) by (simp add: events_def check_round_def leader_run_def leader_defs)
  then have "tracker_run es' (handle_events now db events ?t) = tracker_run (TakeOver now db # es') (stopTracking ?t)"
    by (simp add: handle_events_def leader_tracker_event_def tracker_run_def)
  moreover have "stuck i (stopTracking ?t)" using assms by (intro stepdown_stuck) auto
  moreover have "starts i (stopTracking ?t) = starts i ?t" by (simp add: starts_def stopTracking_timers split: option.split)
  ultimately show "starts i (tracker_run es' (handle_events now db events ?t)) = starts i ?t"
    using stuck_run [of i "stopTracking ?t" "TakeOver now db # es'"] assms(6) by (auto simp: from_outside_def)
qed

theorem expired_key_loses_executions_witness:
  "isLeader (mains (check_round 1 (leader_run [Init 1, Serve 1, Handle 1, Expire] newCluster)) 1)"
proof -
  have "has ''7'' (tracker_run [TakeOver 1000 some_rows, RowsArrive 1010] newTracker)" by code_simp
  then show ?thesis
    using expired_key_loses_executions [of "leader_run [Init 1, Serve 1, Handle 1, Expire] newCluster" 1 "''7''"
        "[TakeOver 1000 some_rows, RowsArrive 1010]" "[RowsArrive 2000]" 2000 some_rows]
    by (simp add: leader_run_def newCluster_def newMain_def leader_defs from_outside_def)
qed

end
