(* ===== verification/ExpressionParser.thy ===== *)
theory ExpressionParser
  imports Prelude "HOL-Library.Sublist"
begin

text \<open>
  Splitting a string with expressions into its texts and its codes, and joining them again,
  \<open>packages/workflow/src/extensions/expression-parser.ts\<close>.

  The loop keeps the rest of the string in place of the index into it. A regular expression of the code matches two
  brackets, with a backslash before them if there is one; what it finds first is searched from the left.

  Theorems: the loop ends; what was split is joined to the same string, unless an escaped bracket follows a bracket
  or the string ends right after a pair of brackets; inputs of these two kinds that are not restored.
\<close>

section \<open>Searching and replacing\<close>

datatype ExpressionChunk = ExpressionText string | ExpressionCode string bool

definition backslash :: char where
  "backslash = CHR 0x5C"

definition openBracket :: char where
  "openBracket = CHR ''{''"

definition closeBracket :: char where
  "closeBracket = CHR ''}''"

text \<open>The index of the first match, and whether it has a backslash.\<close>

fun execBracket :: "char \<Rightarrow> string \<Rightarrow> (nat \<times> bool) option" where
  "execBracket b [] = None"
| "execBracket b (c # cs) =
     (if prefix [backslash, b, b] (c # cs) then Some (0, True)
      else if prefix [b, b] (c # cs) then Some (0, False)
      else map_option (apfst Suc) (execBracket b cs))"

text \<open>\<open>String.prototype.replace\<close> with a string: the first occurrence only.\<close>

fun replaceFirst :: "string \<Rightarrow> string \<Rightarrow> string \<Rightarrow> string" where
  "replaceFirst pat new [] = []"
| "replaceFirst pat new (c # cs) =
     (if prefix pat (c # cs) then new @ drop (length pat) (c # cs) else c # replaceFirst pat new cs)"

definition escapeCode :: "string \<Rightarrow> string" where
  "escapeCode s = replaceFirst [backslash, closeBracket, closeBracket] [closeBracket, closeBracket] s"

definition escapeTmplExpression :: "string \<Rightarrow> string" where
  "escapeTmplExpression part = replaceFirst [closeBracket, closeBracket] [backslash, closeBracket, closeBracket] part"

section \<open>Splitting and joining\<close>

text \<open>The flag tells whether an opening bracket is searched for. What is left in the buffer at the end of the string
  is dropped, as in the code.\<close>

function splitLoop :: "bool \<Rightarrow> string \<Rightarrow> string \<Rightarrow> ExpressionChunk list" where
  "splitLoop searchingForOpen buffer expr =
     (if expr = [] then []
      else case execBracket (if searchingForOpen then openBracket else closeBracket) expr of
          None \<Rightarrow>
            let buffer = buffer @ expr
            in if searchingForOpen then [ExpressionText buffer] else [ExpressionCode (escapeCode buffer) False]
        | Some (index, escape) \<Rightarrow>
            if escape then splitLoop searchingForOpen (buffer @ take (index + 3) expr) (drop (index + 3) expr)
            else let buffer = buffer @ take index expr
              in (if searchingForOpen then ExpressionText buffer else ExpressionCode (escapeCode buffer) True)
                # splitLoop (\<not> searchingForOpen) [] (drop (index + 2) expr))"
  by pat_completeness auto

termination by (relation "measure (\<lambda>(_, _, expr). length expr)") auto

declare splitLoop.simps [simp del]

definition splitExpression :: "string \<Rightarrow> ExpressionChunk list" where
  "splitExpression expression = splitLoop True [] expression"

definition joinExpression :: "ExpressionChunk list \<Rightarrow> string" where
  "joinExpression parts = concat (map (\<lambda>chunk. case chunk of
       ExpressionCode s hasClosingBrackets \<Rightarrow>
         [openBracket, openBracket] @ escapeTmplExpression s @ (if hasClosingBrackets then [closeBracket, closeBracket] else [])
     | ExpressionText s \<Rightarrow> s) parts)"

section \<open>Codes are restored\<close>

lemmas bracket_defs = backslash_def openBracket_def closeBracket_def

text \<open>The first pair of brackets of a code, if it has one, is escaped, and no bracket precedes it.\<close>

fun esc_ok :: "string \<Rightarrow> bool" where
  "esc_ok [] = True"
| "esc_ok (c # cs) =
     (if prefix [backslash, closeBracket, closeBracket] (c # cs) then True
      else \<not> prefix [closeBracket, closeBracket] (c # cs) \<and>
        \<not> prefix [closeBracket, backslash, closeBracket, closeBracket] (c # cs) \<and> esc_ok cs)"

lemma esc_ok_restored: "esc_ok s \<Longrightarrow> escapeTmplExpression (escapeCode s) = s"
proof (induction s)
  case (Cons c cs)
  show ?case
  proof (cases "prefix [backslash, closeBracket, closeBracket] (c # cs)")
    case True
    then show ?thesis by (auto simp: escapeCode_def escapeTmplExpression_def prefix_def bracket_defs)
  next
    case False
    then have rest: "esc_ok cs" "\<not> prefix [closeBracket, closeBracket] (c # cs)"
        "\<not> prefix [closeBracket, backslash, closeBracket, closeBracket] (c # cs)"
      using Cons.prems by auto
    have "\<not> prefix [closeBracket, closeBracket] (c # escapeCode cs)"
      using rest(2,3) by (cases cs) (auto simp: escapeCode_def bracket_defs split: if_splits)
    moreover have "escapeCode (c # cs) = c # escapeCode cs" using False by (auto simp: escapeCode_def)
    ultimately have "escapeTmplExpression (escapeCode (c # cs)) = c # escapeTmplExpression (escapeCode cs)"
      by (auto simp: escapeTmplExpression_def)
    with Cons.IH [OF rest(1)] show ?thesis by simp
  qed
qed (simp add: escapeCode_def escapeTmplExpression_def)

definition no_bad :: "string \<Rightarrow> bool" where
  "no_bad s \<longleftrightarrow> \<not> sublist [closeBracket, backslash, closeBracket, closeBracket] s"

lemma no_bad_Cons: "no_bad (c # cs) \<longleftrightarrow> \<not> prefix [closeBracket, backslash, closeBracket, closeBracket] (c # cs) \<and> no_bad cs"
  by (simp add: no_bad_def sublist_Cons_right)

lemma no_bad_drop: "no_bad s \<Longrightarrow> no_bad (drop n s)"
  unfolding no_bad_def by (meson sublist_drop sublist_order.order_trans)

lemma execBracket_None: "execBracket closeBracket s = None \<Longrightarrow> esc_ok s"
  by (induction s) (auto split: if_splits simp: prefix_def)

lemma prefix_take: "prefix p s \<longleftrightarrow> take (length p) s = p"
  by (metis append_eq_conv_conj prefix_def take_is_prefix)

lemma prefix_short: "length p \<le> length s \<Longrightarrow> prefix p (s @ v) \<longleftrightarrow> prefix p s"
  by (simp add: prefix_take)

lemma execBracket_split:
  assumes "execBracket b s = Some (i, esc)"
  obtains u v where "s = u @ (if esc then [backslash, b, b] else [b, b]) @ v" and "length u = i"
  using assms
proof (induction s arbitrary: i thesis)
  case (Cons c cs)
  show ?case
  proof (cases "prefix [backslash, b, b] (c # cs) \<or> prefix [b, b] (c # cs)")
    case True
    with Cons.prems(2) have "i = 0" "prefix (if esc then [backslash, b, b] else [b, b]) (c # cs)" by (auto split: if_splits)
    then show ?thesis using Cons.prems(1) [of "[]"] by (auto elim: prefixE)
  next
    case False
    with Cons.prems(2) obtain j where j: "execBracket b cs = Some (j, esc)" "i = Suc j" by (auto split: if_splits)
    from Cons.IH [OF _ j(1)] obtain u v where "cs = u @ (if esc then [backslash, b, b] else [b, b]) @ v" "length u = j" by blast
    then show ?thesis using Cons.prems(1) [of "c # u" v] j(2) by simp
  qed
qed simp

lemma execBracket_unescaped:
  "execBracket closeBracket (u @ [closeBracket, closeBracket] @ v) = Some (length u, False) \<Longrightarrow> esc_ok u"
proof (induction u)
  case (Cons c u)
  let ?s = "u @ [closeBracket, closeBracket] @ v"
  have n: "\<not> prefix [backslash, closeBracket, closeBracket] (c # ?s)" "\<not> prefix [closeBracket, closeBracket] (c # ?s)"
      "execBracket closeBracket ?s = Some (length u, False)"
    using Cons.prems by (auto split: if_splits)
  then have "\<not> prefix [backslash, closeBracket, closeBracket] ?s" by (cases ?s) (auto split: if_splits)
  with n(1,2) have "\<not> prefix [backslash, closeBracket, closeBracket] (c # u)" "\<not> prefix [closeBracket, closeBracket] (c # u)"
      "\<not> prefix [closeBracket, backslash, closeBracket, closeBracket] (c # u)"
    using prefix_prefix [of _ "c # u" "[closeBracket, closeBracket] @ v"] prefix_prefix [of _ u "[closeBracket, closeBracket] @ v"]
    by auto
  with Cons.IH n(3) show ?case by simp
qed simp

lemma execBracket_escaped:
  "execBracket closeBracket (u @ [backslash, closeBracket, closeBracket] @ v) = Some (length u, True) \<Longrightarrow>
    no_bad (u @ [backslash, closeBracket, closeBracket] @ v) \<Longrightarrow> esc_ok (u @ [backslash, closeBracket, closeBracket] @ w)"
proof (induction u)
  case (Cons c u)
  let ?x = "c # u @ [backslash, closeBracket, closeBracket]"
  have n: "\<not> prefix [backslash, closeBracket, closeBracket] (?x @ v)" "\<not> prefix [closeBracket, closeBracket] (?x @ v)"
      "execBracket closeBracket (u @ [backslash, closeBracket, closeBracket] @ v) = Some (length u, True)"
    using Cons.prems(1) by (auto split: if_splits)
  have bad: "\<not> prefix [closeBracket, backslash, closeBracket, closeBracket] (?x @ v)"
      "no_bad (u @ [backslash, closeBracket, closeBracket] @ v)"
    using Cons.prems(2) by (simp_all add: no_bad_Cons)
  have eq: "prefix p (?x @ v) \<longleftrightarrow> prefix p (?x @ w)" if "length p \<le> 4" for p
    using that prefix_short [of p ?x v] prefix_short [of p ?x w] by simp
  have "\<not> prefix [backslash, closeBracket, closeBracket] (?x @ w)" using n(1) eq [of "[backslash, closeBracket, closeBracket]"] by auto
  moreover have "\<not> prefix [closeBracket, closeBracket] (?x @ w)" using n(2) eq [of "[closeBracket, closeBracket]"] by auto
  moreover have "\<not> prefix [closeBracket, backslash, closeBracket, closeBracket] (?x @ w)"
    using bad(1) eq [of "[closeBracket, backslash, closeBracket, closeBracket]"] by auto
  moreover have "esc_ok (u @ [backslash, closeBracket, closeBracket] @ w)" by (rule Cons.IH [OF n(3) bad(2)])
  ultimately show ?case by simp
qed simp

section \<open>The round trip\<close>

text \<open>A buffer of a code is empty, or it goes up to an escaped bracket.\<close>

definition code_buffer :: "string \<Rightarrow> bool" where
  "code_buffer buffer \<longleftrightarrow> buffer = [] \<or> (\<forall>w. esc_ok (buffer @ w))"

text \<open>The string does not end right after a pair of opening brackets or an escaped pair.\<close>

definition open_end :: "string \<Rightarrow> bool" where
  "open_end s \<longleftrightarrow> suffix [openBracket, openBracket] s \<or> suffix [backslash, closeBracket, closeBracket] s"

lemma open_end_append: "\<not> open_end (u @ v) \<Longrightarrow> \<not> open_end v"
  by (auto simp: open_end_def suffix_append)

lemma no_bad_append: "no_bad (u @ v) \<Longrightarrow> no_bad v"
  unfolding no_bad_def sublist_def by (metis append_assoc)

lemma join_Cons: "joinExpression (ExpressionText s # parts) = s @ joinExpression parts"
  "joinExpression (ExpressionCode s closed # parts) =
    [openBracket, openBracket] @ escapeTmplExpression s @ (if closed then [closeBracket, closeBracket] else []) @ joinExpression parts"
  by (simp_all add: joinExpression_def)

lemma split_join:
  "no_bad expr \<Longrightarrow> \<not> open_end expr \<Longrightarrow> expr \<noteq> [] \<or> searchingForOpen \<and> buffer = [] \<Longrightarrow>
    searchingForOpen \<or> code_buffer buffer \<Longrightarrow>
    joinExpression (splitLoop searchingForOpen buffer expr) =
      (if searchingForOpen then [] else [openBracket, openBracket]) @ buffer @ expr"
proof (induction searchingForOpen buffer expr rule: splitLoop.induct)
  case (1 searchingForOpen buffer expr)
  let ?b = "if searchingForOpen then openBracket else closeBracket"
  show ?case
  proof (cases "expr = []")
    case True
    with "1.prems" show ?thesis by (simp add: splitLoop.simps joinExpression_def)
  next
    case ne: False
    show ?thesis
    proof (cases "execBracket ?b expr")
      case None
      have "esc_ok (buffer @ expr)" if "\<not> searchingForOpen"
        using that "1.prems"(4) None execBracket_None [of expr] by (auto simp: code_buffer_def)
      with None ne show ?thesis
        by (auto simp: splitLoop.simps [of searchingForOpen] Let_def join_Cons esc_ok_restored) (simp_all add: joinExpression_def)
    next
      case (Some m)
      obtain i esc where m: "m = (i, esc)" by (cases m)
      obtain u v where s: "expr = u @ (if esc then [backslash, ?b, ?b] else [?b, ?b]) @ v" "length u = i"
        using execBracket_split Some m by metis
      have v: "no_bad v" "\<not> open_end v"
        using "1.prems"(1,2) s(1) no_bad_append open_end_append by (metis append_assoc)+
      have v_ne: "v \<noteq> []" if "searchingForOpen \<or> esc"
        using that "1.prems"(2) s(1) by (auto simp: open_end_def suffix_def split: if_splits)
      show ?thesis
      proof (cases esc)
        case True
        have step: "splitLoop searchingForOpen buffer expr = splitLoop searchingForOpen (buffer @ u @ [backslash, ?b, ?b]) v"
          using ne Some m s True by (simp add: splitLoop.simps [of searchingForOpen])
        have "code_buffer (buffer @ u @ [backslash, ?b, ?b])" if "\<not> searchingForOpen"
        proof (cases "buffer = []")
          case True
          have "esc_ok (u @ [backslash, ?b, ?b] @ w)" for w
            using execBracket_escaped [of u v w] Some m s \<open>esc\<close> that "1.prems"(1) by simp
          with True show ?thesis by (simp add: code_buffer_def)
        next
          case False
          with that "1.prems"(4) show ?thesis by (auto simp: code_buffer_def)
        qed
        then have "joinExpression (splitLoop searchingForOpen (buffer @ u @ [backslash, ?b, ?b]) v) =
            (if searchingForOpen then [] else [openBracket, openBracket]) @ (buffer @ u @ [backslash, ?b, ?b]) @ v"
          using "1.IH"(1) [OF ne Some m [symmetric] \<open>esc\<close>] v v_ne \<open>esc\<close> s by auto
        then show ?thesis unfolding step using s(1) True by simp
      next
        case False
        have step: "splitLoop searchingForOpen buffer expr =
            (if searchingForOpen then ExpressionText (buffer @ u) else ExpressionCode (escapeCode (buffer @ u)) True) #
            splitLoop (\<not> searchingForOpen) [] v"
          using ne Some m s False by (simp add: splitLoop.simps [of searchingForOpen] Let_def)
        have "esc_ok (buffer @ u)" if "\<not> searchingForOpen"
          using that "1.prems"(4) execBracket_unescaped [of u v] Some m s False by (auto simp: code_buffer_def)
        moreover have "joinExpression (splitLoop (\<not> searchingForOpen) [] v) = (if \<not> searchingForOpen then [] else [openBracket, openBracket]) @ v"
          using "1.IH"(2) [OF ne Some m [symmetric] False refl] v v_ne s False by (auto simp: code_buffer_def)
        ultimately show ?thesis unfolding step using s(1) False
          by (auto simp: join_Cons esc_ok_restored)
      qed
    qed
  qed
qed

text \<open>C28. Joining what was split gives the string back, with the escaped brackets in it. This holds for strings that do
  not end in an opening bracket or an escaped closing one, whose end the split drops, and in which no closing brace
  comes right before an escaped closing bracket, to where the join would move the escape (see \<open>join_split_fails\<close>).\<close>

theorem join_split:
  assumes "no_bad e" and "\<not> open_end e"
  shows "joinExpression (splitExpression e) = e"
  using split_join [of e True "[]"] assms by (simp add: splitExpression_def)

theorem join_split_witness:
  "let e = ''a {{ b '' @ [backslash] @ ''}} c }} d'' in joinExpression (splitExpression e) = e"
proof -
  let ?e = "''a {{ b '' @ [backslash] @ ''}} c }} d''"
  have "no_bad ?e" "\<not> open_end ?e" by code_simp+
  then show ?thesis unfolding Let_def by (rule join_split)
qed

text \<open>Without these conditions it need not: what is left after the last pair is dropped, and the escape moves.\<close>

theorem join_split_fails:
  "joinExpression (splitExpression ''abc{{'') = ''abc''"
  "splitExpression (''abc'' @ [backslash] @ ''{{'') = []"
  "joinExpression (splitExpression (''{{ a}'' @ [backslash] @ ''}} }}'')) = ''{{ a'' @ [backslash] @ ''}}} }}''"
  by code_simp+

end
