(* ===== verification/ScheduledTasks.thy ===== *)
theory ScheduledTasks
  imports Prelude "HOL-Library.List_Lexorder" "HOL-Library.Char_ord"
begin

text \<open>
  The crons of the active workflows, \<open>packages/core/src/execution-engine/scheduled-task-manager.ts\<close>, and
  the cron expressions of polling times, \<open>packages/workflow/src/cron.ts\<close>.

  A cron job of the library is a number; the running ones are in the state. Whether the library accepts an
  expression in a timezone is a parameter, and so are the random seconds and minutes. A key is the list of the sorted
  properties that \<open>JSON.stringify\<close> prints.

  Theorems: the jobs that run are exactly those of the registered crons, each context once; removing a workflow stops its
  jobs and no other; different contexts have different keys.
\<close>

section \<open>Cron expressions\<close>

datatype TriggerTime =
    Custom string
  | EveryMinute
  | EveryXMinutes nat
  | EveryHour nat
  | EveryXHours nat
  | EveryDay nat nat
  | EveryWeek nat nat nat
  | EveryMonth nat nat nat

definition words :: "string list \<Rightarrow> string" where
  "words ws = concat (map (\<lambda>w. w @ '' '') (butlast ws)) @ last ws"

definition trim :: "string \<Rightarrow> string" where
  "trim s = (let blank = (\<lambda>c. c \<in> set [CHR '' '', CHR 0x09, CHR 0x0A, CHR 0x0B, CHR 0x0C, CHR 0x0D])
     in rev (dropWhile blank (rev (dropWhile blank s))))"

text \<open>The arguments of a day are the hour and the minute, of a week also the weekday, of a month the day of it.\<close>

fun toCronExpression :: "nat \<Rightarrow> nat \<Rightarrow> TriggerTime \<Rightarrow> string" where
  "toCronExpression s m EveryMinute = words [show_nat s, ''*'', ''*'', ''*'', ''*'', ''*'']"
| "toCronExpression s m (EveryHour minute) = words [show_nat s, show_nat minute, ''*'', ''*'', ''*'', ''*'']"
| "toCronExpression s m (EveryXMinutes x) = words [show_nat s, ''*/'' @ show_nat x, ''*'', ''*'', ''*'', ''*'']"
| "toCronExpression s m (EveryXHours x) = words [show_nat s, show_nat m, ''*/'' @ show_nat x, ''*'', ''*'', ''*'']"
| "toCronExpression s m (EveryDay hour minute) = words [show_nat s, show_nat minute, show_nat hour, ''*'', ''*'', ''*'']"
| "toCronExpression s m (EveryWeek hour minute weekday) =
     words [show_nat s, show_nat minute, show_nat hour, ''*'', ''*'', show_nat weekday]"
| "toCronExpression s m (EveryMonth hour minute dayOfMonth) =
     words [show_nat s, show_nat minute, show_nat hour, show_nat dayOfMonth, ''*'', ''*'']"
| "toCronExpression s m (Custom cronExpression) = trim cronExpression"

section \<open>Contexts and keys\<close>

datatype typeInterval = Hours | Days | Weeks | Months

datatype CronRecurrenceRule = NotActivated | Activated nat nat typeInterval

record CronContext =
  nodeId :: string
  workflowId :: string
  timezone :: string
  expression :: string
  recurrence :: "CronRecurrenceRule option"

datatype cronValue = VStr string | VNum nat | VBool bool

fun typeInterval_name :: "typeInterval \<Rightarrow> string" where
  "typeInterval_name Hours = ''hours''"
| "typeInterval_name Days = ''days''"
| "typeInterval_name Weeks = ''weeks''"
| "typeInterval_name Months = ''months''"

definition flattened :: "CronContext \<Rightarrow> (string \<times> cronValue) list" where
  "flattened ctx = [(''workflowId'', VStr (workflowId ctx)), (''nodeId'', VStr (nodeId ctx)),
      (''expression'', VStr (expression ctx)), (''timezone'', VStr (timezone ctx))] @
    (case recurrence ctx of
       None \<Rightarrow> []
     | Some NotActivated \<Rightarrow> [(''recurrenceActivated'', VBool False)]
     | Some (Activated index intervalSize typ) \<Rightarrow> [(''recurrenceActivated'', VBool True), (''recurrenceIndex'', VNum index),
         (''recurrenceIntervalSize'', VNum intervalSize), (''recurrenceTypeInterval'', VStr (typeInterval_name typ))])"

type_synonym cronKey = "(string \<times> cronValue) list"

definition toCronKey :: "CronContext \<Rightarrow> cronKey" where
  "toCronKey ctx = sort_key fst (flattened ctx)"

section \<open>The manager\<close>

record cron =
  cr_job :: nat
  cr_summary :: string
  cr_ctx :: CronContext

record taskManager =
  cronsByWorkflow :: "(string, (cronKey, cron) jsmap) jsmap"
  running :: "nat list"
  nextJob :: nat
  logInterval :: bool

definition newTaskManager :: "nat \<Rightarrow> taskManager" where
  "newTaskManager activeInterval = \<lparr>cronsByWorkflow = [], running = [], nextJob = 0, logInterval = activeInterval \<noteq> 0\<rparr>"

definition loggableCrons :: "taskManager \<Rightarrow> (string \<times> string list) list" where
  "loggableCrons t = map (\<lambda>(w, crons). (''workflowId-'' @ w, map (\<lambda>(_, c). cr_summary c) crons)) (cronsByWorkflow t)"

definition cronSummary :: "CronContext \<Rightarrow> string" where
  "cronSummary ctx = (case recurrence ctx of
       Some (Activated _ intervalSize typ) \<Rightarrow>
         expression ctx @ '' (every '' @ show_nat intervalSize @ '' '' @ typeInterval_name typ @ '')''
     | _ \<Rightarrow> expression ctx)"

text \<open>The parameter is what the cron library throws for an expression and a timezone, if it does.\<close>

definition registerCron :: "(string \<Rightarrow> string \<Rightarrow> js_error option) \<Rightarrow> CronContext \<Rightarrow> taskManager \<Rightarrow> taskManager res" where
  "registerCron cronError ctx t =
     (let summary = cronSummary ctx; workflowCrons = map_of (cronsByWorkflow t) (workflowId ctx); key = toCronKey ctx
      in if (case workflowCrons of None \<Rightarrow> False | Some crons \<Rightarrow> map_of crons key \<noteq> None) then Inr t
      else case cronError (expression ctx) (timezone ctx) of
          Some e \<Rightarrow> Inl e
        | None \<Rightarrow>
            let job = nextJob t; cron = \<lparr>cr_job = job, cr_summary = summary, cr_ctx = ctx\<rparr>;
                t = t\<lparr>running := running t @ [job], nextJob := Suc job\<rparr>
            in Inr (t\<lparr>cronsByWorkflow := (case workflowCrons of
                None \<Rightarrow> AList.update (workflowId ctx) [(key, cron)] (cronsByWorkflow t)
              | Some crons \<Rightarrow> AList.update (workflowId ctx) (AList.update key cron crons) (cronsByWorkflow t))\<rparr>))"

text \<open>A tick calls the function that was registered on the leader only.\<close>

definition cronTick :: "bool \<Rightarrow> taskManager \<Rightarrow> nat \<Rightarrow> bool" where
  "cronTick isLeader t job \<longleftrightarrow> job \<in> set (running t) \<and> isLeader"

definition deregisterCrons :: "string \<Rightarrow> taskManager \<Rightarrow> taskManager" where
  "deregisterCrons w t = (case map_of (cronsByWorkflow t) w of
       None \<Rightarrow> t
     | Some workflowCrons \<Rightarrow>
         if length workflowCrons = 0 then t
         else let t = foldl (\<lambda>t (_, cron). t\<lparr>running := filter (\<lambda>j. j \<noteq> cr_job cron) (running t)\<rparr>) t workflowCrons
           in t\<lparr>cronsByWorkflow := AList.delete w (cronsByWorkflow t)\<rparr>)"

definition deregisterAllCrons :: "taskManager \<Rightarrow> taskManager" where
  "deregisterAllCrons t =
     (foldl (\<lambda>t w. deregisterCrons w t) t (map fst (cronsByWorkflow t)))\<lparr>logInterval := False\<rparr>"

section \<open>Keys\<close>

lemma typeInterval_name_inj: "typeInterval_name a = typeInterval_name b \<Longrightarrow> a = b"
  by (cases a; cases b) simp_all

text \<open>Two contexts have the same key exactly if they are equal.\<close>

theorem toCronKey_inj: "toCronKey a = toCronKey b \<longleftrightarrow> a = b"
proof
  assume "toCronKey a = toCronKey b"
  then have eq: "set (flattened a) = set (flattened b)" unfolding toCronKey_def by (metis set_sort)
  have fields: "(''workflowId'', VStr x) \<in> set (flattened c) \<longleftrightarrow> workflowId c = x"
      "(''nodeId'', VStr x) \<in> set (flattened c) \<longleftrightarrow> nodeId c = x"
      "(''expression'', VStr x) \<in> set (flattened c) \<longleftrightarrow> expression c = x"
      "(''timezone'', VStr x) \<in> set (flattened c) \<longleftrightarrow> timezone c = x"
      "(''recurrenceActivated'', VBool y) \<in> set (flattened c) \<longleftrightarrow>
        (case recurrence c of None \<Rightarrow> False | Some NotActivated \<Rightarrow> \<not> y | Some (Activated _ _ _) \<Rightarrow> y)"
      "(''recurrenceIndex'', VNum n) \<in> set (flattened c) \<longleftrightarrow> (\<exists>s i. recurrence c = Some (Activated n s i))"
      "(''recurrenceIntervalSize'', VNum n) \<in> set (flattened c) \<longleftrightarrow> (\<exists>m i. recurrence c = Some (Activated m n i))"
      "(''recurrenceTypeInterval'', VStr x) \<in> set (flattened c) \<longleftrightarrow> (\<exists>m s i. recurrence c = Some (Activated m s i) \<and> typeInterval_name i = x)"
    for c x y n
    by (cases "recurrence c"; cases "the (recurrence c)"; auto simp: flattened_def)+
  have "workflowId a = workflowId b" "nodeId a = nodeId b" "expression a = expression b" "timezone a = timezone b"
    using fields(1-4) eq by metis+
  moreover have "recurrence a = recurrence b"
  proof (cases "recurrence a")
    case None
    then have "(''recurrenceActivated'', VBool y) \<notin> set (flattened b)" for y using fields(5) [of y a] eq by simp
    from this [of True] this [of False] show ?thesis
      using None unfolding fields(5) by (cases "recurrence b") (auto split: CronRecurrenceRule.splits)
  next
    case (Some r)
    show ?thesis
    proof (cases r)
      case NotActivated
      then have "(''recurrenceActivated'', VBool False) \<in> set (flattened b)" using Some fields(5) [of False a] eq by simp
      then show ?thesis using Some NotActivated unfolding fields(5)
        by (cases "recurrence b") (auto split: CronRecurrenceRule.splits)
    next
      case (Activated n s i)
      with Some have "(''recurrenceIndex'', VNum n) \<in> set (flattened b)" "(''recurrenceIntervalSize'', VNum s) \<in> set (flattened b)"
          "(''recurrenceTypeInterval'', VStr (typeInterval_name i)) \<in> set (flattened b)"
        unfolding eq [symmetric] fields by auto
      then show ?thesis using Some Activated unfolding fields by (auto dest: typeInterval_name_inj)
    qed
  qed
  ultimately show "a = b" by simp
qed simp

section \<open>The jobs that run\<close>

definition all_crons :: "taskManager \<Rightarrow> cron set" where
  "all_crons t = {c. \<exists>w crons key. map_of (cronsByWorkflow t) w = Some crons \<and> map_of crons key = Some c}"

definition tasks_ok :: "taskManager \<Rightarrow> bool" where
  "tasks_ok t \<longleftrightarrow> jsmap_ok (cronsByWorkflow t) \<and>
     (\<forall>w crons. map_of (cronsByWorkflow t) w = Some crons \<longrightarrow> crons \<noteq> [] \<and> jsmap_ok crons \<and>
       (\<forall>key c. map_of crons key = Some c \<longrightarrow> key = toCronKey (cr_ctx c) \<and> workflowId (cr_ctx c) = w)) \<and>
     inj_on cr_job (all_crons t) \<and> distinct (running t) \<and> set (running t) = cr_job ` all_crons t \<and> (\<forall>j \<in> set (running t). j < nextJob t)"

definition crons_of :: "taskManager \<Rightarrow> string \<Rightarrow> (cronKey, cron) jsmap" where
  "crons_of t w = (case map_of (cronsByWorkflow t) w of None \<Rightarrow> [] | Some crons \<Rightarrow> crons)"

lemma all_crons_iff: "c \<in> all_crons t \<longleftrightarrow> (\<exists>w key. map_of (crons_of t w) key = Some c)"
proof
  assume "c \<in> all_crons t"
  then obtain w crons key where "map_of (cronsByWorkflow t) w = Some crons" "map_of crons key = Some c"
    by (auto simp: all_crons_def)
  then have "map_of (crons_of t w) key = Some c" by (simp add: crons_of_def)
  then show "\<exists>w key. map_of (crons_of t w) key = Some c" by blast
qed (auto simp: all_crons_def crons_of_def split: option.splits, blast)

lemma tasks_ok_crons:
  assumes "tasks_ok t" and "map_of (crons_of t w) key = Some c"
  shows "key = toCronKey (cr_ctx c)" and "workflowId (cr_ctx c) = w"
  using assms by (auto simp: tasks_ok_def crons_of_def split: option.splits)

lemma tasks_ok_iff: "tasks_ok t \<longleftrightarrow> jsmap_ok (cronsByWorkflow t) \<and> [] \<notin> snd ` set (cronsByWorkflow t) \<and>
    (\<forall>w. jsmap_ok (crons_of t w)) \<and>
    (\<forall>w key c. map_of (crons_of t w) key = Some c \<longrightarrow> key = toCronKey (cr_ctx c) \<and> workflowId (cr_ctx c) = w) \<and>
    inj_on cr_job (all_crons t) \<and> distinct (running t) \<and> set (running t) = cr_job ` all_crons t \<and> (\<forall>j \<in> set (running t). j < nextJob t)"
proof -
  have "[] \<notin> snd ` set (cronsByWorkflow t) \<longleftrightarrow> (\<forall>w crons. map_of (cronsByWorkflow t) w = Some crons \<longrightarrow> crons \<noteq> [])"
    if "jsmap_ok (cronsByWorkflow t)"
    using that by (force simp: jsmap_ok_def)
  moreover have "(\<forall>w. jsmap_ok (crons_of t w)) \<longleftrightarrow> (\<forall>w crons. map_of (cronsByWorkflow t) w = Some crons \<longrightarrow> jsmap_ok crons)"
    by (auto simp: crons_of_def jsmap_ok_def split: option.split)
  moreover have "(\<forall>w key c. map_of (crons_of t w) key = Some c \<longrightarrow> key = toCronKey (cr_ctx c) \<and> workflowId (cr_ctx c) = w) \<longleftrightarrow>
      (\<forall>w crons. map_of (cronsByWorkflow t) w = Some crons \<longrightarrow>
        (\<forall>key c. map_of crons key = Some c \<longrightarrow> key = toCronKey (cr_ctx c) \<and> workflowId (cr_ctx c) = w))"
    by (fastforce simp: crons_of_def split: option.splits)
  ultimately show ?thesis unfolding tasks_ok_def by blast
qed

lemma registerCron_eq: "registerCron cronError ctx t = (let w = workflowId ctx; key = toCronKey ctx in
    if map_of (crons_of t w) key \<noteq> None then Inr t
    else case cronError (expression ctx) (timezone ctx) of Some e \<Rightarrow> Inl e | None \<Rightarrow>
      Inr (t\<lparr>running := running t @ [nextJob t], nextJob := Suc (nextJob t), cronsByWorkflow := AList.update w
        (AList.update key \<lparr>cr_job = nextJob t, cr_summary = cronSummary ctx, cr_ctx = ctx\<rparr> (crons_of t w)) (cronsByWorkflow t)\<rparr>))"
  by (auto simp: registerCron_def crons_of_def Let_def split: option.split)

definition new_cron :: "taskManager \<Rightarrow> CronContext \<Rightarrow> cron" where
  "new_cron t ctx = \<lparr>cr_job = nextJob t, cr_summary = cronSummary ctx, cr_ctx = ctx\<rparr>"

lemma registerCron_new:
  assumes "registerCron cronError ctx t = Inr t'" and none: "map_of (crons_of t (workflowId ctx)) (toCronKey ctx) = None"
  shows "t' = t\<lparr>running := running t @ [nextJob t], nextJob := Suc (nextJob t), cronsByWorkflow := AList.update (workflowId ctx)
      (AList.update (toCronKey ctx) (new_cron t ctx) (crons_of t (workflowId ctx))) (cronsByWorkflow t)\<rparr>"
    and "crons_of t' v = (if v = workflowId ctx then AList.update (toCronKey ctx) (new_cron t ctx) (crons_of t v) else crons_of t v)"
    and "all_crons t' = insert (new_cron t ctx) (all_crons t)"
proof -
  show t': "t' = t\<lparr>running := running t @ [nextJob t], nextJob := Suc (nextJob t), cronsByWorkflow := AList.update (workflowId ctx)
      (AList.update (toCronKey ctx) (new_cron t ctx) (crons_of t (workflowId ctx))) (cronsByWorkflow t)\<rparr>"
    using assms by (auto simp: registerCron_eq new_cron_def Let_def split: option.splits)
  show crons: "crons_of t' v = (if v = workflowId ctx then AList.update (toCronKey ctx) (new_cron t ctx) (crons_of t v) else crons_of t v)" for v
    by (simp add: t' crons_of_def update_conv')
  show "all_crons t' = insert (new_cron t ctx) (all_crons t)"
    using none by (auto simp: all_crons_iff crons update_conv' split: if_splits) (metis option.distinct(1))+
qed

lemma registerCron_all:
  assumes "registerCron cronError ctx t = Inr t'"
  shows "all_crons t' = all_crons t \<or> all_crons t' = insert (new_cron t ctx) (all_crons t)"
proof (cases "map_of (crons_of t (workflowId ctx)) (toCronKey ctx)")
  case None
  then show ?thesis using registerCron_new(3) [OF assms] by simp
qed (use assms in \<open>simp add: registerCron_eq\<close>)

lemma registerCron_tasks_ok:
  assumes ok: "tasks_ok t" and reg: "registerCron cronError ctx t = Inr t'"
  shows "tasks_ok t'"
proof (cases "map_of (crons_of t (workflowId ctx)) (toCronKey ctx)")
  case (Some c)
  with reg ok show ?thesis by (simp add: registerCron_eq)
next
  case None
  define c where "c = new_cron t ctx"
  let ?w = "workflowId ctx"
  note t' = registerCron_new(1) [OF reg None, folded c_def] and crons = registerCron_new(2) [OF reg None, folded c_def]
    and all = registerCron_new(3) [OF reg None, folded c_def]
  have less: "cr_job d < nextJob t" if "d \<in> all_crons t" for d using ok that by (auto simp: tasks_ok_iff)
  have "inj_on cr_job (all_crons t')" using ok less unfolding all by (force simp: tasks_ok_iff inj_on_def c_def new_cron_def)
  moreover have "jsmap_ok (cronsByWorkflow t')" "jsmap_ok (crons_of t' v)" for v
    using ok by (auto simp: tasks_ok_iff crons jsmap_ok_def distinct_update) (simp add: t' distinct_update)
  moreover have "[] \<notin> snd ` set (cronsByWorkflow t')"
  proof
    let ?u = "AList.update (toCronKey ctx) c (crons_of t ?w)"
    have sub: "snd ` set (cronsByWorkflow t') \<subseteq> insert ?u (snd ` set (cronsByWorkflow t))"
      unfolding t' using image_mono [OF set_update_subset [of ?w ?u "cronsByWorkflow t"], of snd] by simp
    assume "[] \<in> snd ` set (cronsByWorkflow t')"
    then have "[] = ?u \<or> [] \<in> snd ` set (cronsByWorkflow t)" using subsetD [OF sub] by (simp only: insert_iff)
    moreover have "?u \<noteq> []" by (metis update_in empty_iff list.set(1))
    moreover have "[] \<notin> snd ` set (cronsByWorkflow t)" using ok unfolding tasks_ok_iff by (elim conjE)
    ultimately show False by (metis (no_types))
  qed
  moreover have "distinct (running t')" "set (running t') = cr_job ` all_crons t'" "\<forall>j \<in> set (running t'). j < nextJob t'"
  proof -
    have "distinct (running t)" "set (running t) = cr_job ` all_crons t" "\<forall>j \<in> set (running t). j < nextJob t"
      using ok unfolding tasks_ok_iff by blast+
    moreover have "running t' = running t @ [nextJob t]" "nextJob t' = Suc (nextJob t)" "cr_job c = nextJob t"
      by (simp_all add: t' c_def new_cron_def)
    ultimately show "distinct (running t')" "set (running t') = cr_job ` all_crons t'" "\<forall>j \<in> set (running t'). j < nextJob t'"
      unfolding all by auto
  qed
  moreover have "key = toCronKey (cr_ctx d) \<and> workflowId (cr_ctx d) = v" if "map_of (crons_of t' v) key = Some d" for v key d
    using that ok by (auto simp: crons update_conv' c_def new_cron_def tasks_ok_iff split: if_splits)
  ultimately show ?thesis unfolding tasks_ok_iff by blast
qed

lemma deregisterCrons_eq:
  assumes "tasks_ok t"
  shows "deregisterCrons w t = t\<lparr>running := filter (\<lambda>j. j \<notin> cr_job ` snd ` set (crons_of t w)) (running t),
    cronsByWorkflow := AList.delete w (cronsByWorkflow t)\<rparr>"
proof -
  have stops: "foldl (\<lambda>t (_, c). t\<lparr>running := filter (\<lambda>j. j \<noteq> cr_job c) (running t)\<rparr>) u cs =
      u\<lparr>running := filter (\<lambda>j. j \<notin> cr_job ` snd ` set cs) (running u)\<rparr>" for u :: taskManager and cs :: "(cronKey \<times> cron) list"
    by (induction cs arbitrary: u) (auto intro!: filter_cong)
  show ?thesis
  proof (cases "map_of (cronsByWorkflow t) w")
    case None
    then have "AList.delete w (cronsByWorkflow t) = cronsByWorkflow t" by (simp add: map_of_eq_None_iff delete_id)
    moreover have "crons_of t w = []" using None by (simp add: crons_of_def)
    ultimately show ?thesis using None by (simp add: deregisterCrons_def)
  next
    case (Some crons)
    then have "crons \<noteq> []" "crons_of t w = crons" using assms by (auto simp: tasks_ok_def crons_of_def)
    with Some show ?thesis by (simp add: deregisterCrons_def stops)
  qed
qed

lemma deregisterCrons_all:
  assumes "tasks_ok t"
  shows "crons_of (deregisterCrons w t) v = (if v = w then [] else crons_of t v)"
    and "all_crons (deregisterCrons w t) = {c \<in> all_crons t. workflowId (cr_ctx c) \<noteq> w}"
    and "set (running (deregisterCrons w t)) = cr_job ` {c \<in> all_crons t. workflowId (cr_ctx c) \<noteq> w}"
proof -
  show crons: "crons_of (deregisterCrons w t) v = (if v = w then [] else crons_of t v)" for v
    by (simp add: deregisterCrons_eq [OF assms] crons_of_def delete_conv')
  have wid: "map_of (crons_of t u) key = Some c \<Longrightarrow> workflowId (cr_ctx c) = u" for u key c
    using tasks_ok_crons(2) [OF assms] .
  show "all_crons (deregisterCrons w t) = {c \<in> all_crons t. workflowId (cr_ctx c) \<noteq> w}"
    unfolding set_eq_iff mem_Collect_eq all_crons_iff crons using wid by (auto split: if_splits) 
  have "snd ` set (crons_of t w) = {c \<in> all_crons t. workflowId (cr_ctx c) = w}"
  proof -
    have "jsmap_ok (crons_of t w)" using assms by (simp add: tasks_ok_iff)
    then have "snd ` set (crons_of t w) = {c. \<exists>key. map_of (crons_of t w) key = Some c}" by (force simp: jsmap_ok_def)
    also have "\<dots> = {c \<in> all_crons t. workflowId (cr_ctx c) = w}" using wid by (auto simp: all_crons_iff)
    finally show ?thesis .
  qed
  moreover have "inj_on cr_job (all_crons t)" "set (running t) = cr_job ` all_crons t" using assms by (simp_all add: tasks_ok_iff)
  ultimately show "set (running (deregisterCrons w t)) = cr_job ` {c \<in> all_crons t. workflowId (cr_ctx c) \<noteq> w}"
    by (auto simp: deregisterCrons_eq [OF assms] inj_on_def)
qed

lemma deregisterCrons_tasks_ok:
  assumes "tasks_ok t"
  shows "tasks_ok (deregisterCrons w t)"
proof -
  let ?t = "deregisterCrons w t"
  have eq: "cronsByWorkflow ?t = AList.delete w (cronsByWorkflow t)" "nextJob ?t = nextJob t"
      "running ?t = filter (\<lambda>j. j \<notin> cr_job ` snd ` set (crons_of t w)) (running t)"
    by (simp_all add: deregisterCrons_eq [OF assms])
  have "jsmap_ok (cronsByWorkflow ?t)" "[] \<notin> snd ` set (cronsByWorkflow ?t)"
    using assms unfolding eq by (auto simp: tasks_ok_iff jsmap_ok_def distinct_delete set_delete)
  moreover have "jsmap_ok (crons_of ?t v)" for v
    using assms by (auto simp: deregisterCrons_all [OF assms] tasks_ok_iff jsmap_ok_def)
  moreover have "key = toCronKey (cr_ctx c) \<and> workflowId (cr_ctx c) = v" if "map_of (crons_of ?t v) key = Some c" for v key c
    using that tasks_ok_crons [OF assms] by (auto simp: deregisterCrons_all [OF assms] split: if_splits)
  moreover have "inj_on cr_job (all_crons ?t)"
    using assms by (auto simp: deregisterCrons_all [OF assms] tasks_ok_iff inj_on_def)
  moreover have "distinct (running ?t)" "\<forall>j \<in> set (running ?t). j < nextJob ?t" using assms by (auto simp: eq tasks_ok_iff)
  moreover have "set (running ?t) = cr_job ` all_crons ?t" by (simp add: deregisterCrons_all [OF assms])
  ultimately show ?thesis unfolding tasks_ok_iff by blast
qed

lemma deregisterAll_loop:
  "tasks_ok t \<Longrightarrow> tasks_ok (foldl (\<lambda>t w. deregisterCrons w t) t ws) \<and>
    (\<forall>v. crons_of (foldl (\<lambda>t w. deregisterCrons w t) t ws) v = (if v \<in> set ws then [] else crons_of t v))"
proof (induction ws arbitrary: t)
  case (Cons w ws)
  then show ?case using Cons.IH [OF deregisterCrons_tasks_ok [OF Cons.prems]]
    by (auto simp: deregisterCrons_all [OF Cons.prems])
qed simp

lemma tasks_ok_logInterval: "tasks_ok (t\<lparr>logInterval := b\<rparr>) \<longleftrightarrow> tasks_ok t"
  by (simp add: tasks_ok_def all_crons_def)

lemma deregisterAllCrons_tasks_ok: "tasks_ok t \<Longrightarrow> tasks_ok (deregisterAllCrons t)"
  by (simp add: deregisterAllCrons_def tasks_ok_logInterval deregisterAll_loop)

text \<open>After all were removed nothing runs.\<close>

lemma deregisterAllCrons_none:
  assumes "tasks_ok t"
  shows "running (deregisterAllCrons t) = []"
proof -
  let ?t = "deregisterAllCrons t"
  have "crons_of ?t v = []" for v
    using deregisterAll_loop [OF assms, of "map fst (cronsByWorkflow t)"]
    by (auto simp: deregisterAllCrons_def crons_of_def split: option.splits dest!: map_of_SomeD) (force split: option.splits if_splits)+
  then have "all_crons ?t = {}" by (auto simp: all_crons_iff)
  then show ?thesis using deregisterAllCrons_tasks_ok [OF assms] by (simp add: tasks_ok_iff)
qed

section \<open>Every sequence of operations\<close>

datatype task_event = Register CronContext | Deregister string | DeregisterAll

text \<open>A registration that throws changes nothing.\<close>

fun task_step :: "(string \<Rightarrow> string \<Rightarrow> js_error option) \<Rightarrow> task_event \<Rightarrow> taskManager \<Rightarrow> taskManager" where
  "task_step cronError (Register ctx) t = (case registerCron cronError ctx t of Inl _ \<Rightarrow> t | Inr t' \<Rightarrow> t')"
| "task_step cronError (Deregister w) t = deregisterCrons w t"
| "task_step cronError DeregisterAll t = deregisterAllCrons t"

definition task_run :: "(string \<Rightarrow> string \<Rightarrow> js_error option) \<Rightarrow> task_event list \<Rightarrow> taskManager \<Rightarrow> taskManager" where
  "task_run cronError es t = foldl (\<lambda>t e. task_step cronError e t) t es"

lemma task_run_ok: "tasks_ok (task_run cronError es (newTaskManager n))"
proof -
  have "tasks_ok (newTaskManager n)" by (simp add: newTaskManager_def tasks_ok_def all_crons_def jsmap_ok_def)
  then show ?thesis unfolding task_run_def
  proof (rule foldl_invariant)
    fix t e
    assume "tasks_ok t"
    then show "tasks_ok (task_step cronError e t)"
      by (cases e) (auto simp: deregisterCrons_tasks_ok deregisterAllCrons_tasks_ok registerCron_tasks_ok split: sum.split)
  qed
qed

text \<open>C15. Whatever was registered and removed, the jobs that run are those of the registered crons, one each, and a context is
  registered once. So no job is left behind and no context ticks twice.\<close>

theorem running_jobs_registered:
  assumes "t = task_run cronError es (newTaskManager n)"
  shows "distinct (running t) \<and> bij_betw cr_job (all_crons t) (set (running t)) \<and> inj_on cr_ctx (all_crons t)"
proof -
  have ok: "tasks_ok t" using task_run_ok assms by simp
  have "inj_on cr_ctx (all_crons t)"
  proof (rule inj_onI)
    fix c d
    assume "c \<in> all_crons t" "d \<in> all_crons t" "cr_ctx c = cr_ctx d"
    then show "c = d" using tasks_ok_crons [OF ok] unfolding all_crons_iff by (metis option.inject)
  qed
  with ok show ?thesis by (simp add: tasks_ok_iff bij_betw_def)
qed

theorem running_jobs_registered_witness:
  "distinct (running (task_run (\<lambda>_ _. None) [Register \<lparr>nodeId = ''n'', workflowId = ''w'', timezone = ''UTC'', expression = ''0 * * * * *'', recurrence = None\<rparr>] (newTaskManager 0)))"
  using running_jobs_registered [OF refl] by blast

text \<open>Removing the crons of a workflow stops its jobs and leaves those of the others.\<close>

theorem deregisterCrons_correct:
  assumes "t = task_run cronError es (newTaskManager n)"
  shows "all_crons (deregisterCrons w t) = {c \<in> all_crons t. workflowId (cr_ctx c) \<noteq> w} \<and>
    set (running (deregisterCrons w t)) = cr_job ` {c \<in> all_crons t. workflowId (cr_ctx c) \<noteq> w} \<and>
    running (deregisterAllCrons t) = []"
  using task_run_ok [of cronError es n] deregisterCrons_all deregisterAllCrons_none unfolding assms by blast

theorem deregisterCrons_correct_witness:
  "running (deregisterAllCrons (task_run (\<lambda>_ _. None) [Register \<lparr>nodeId = ''n'', workflowId = ''w'', timezone = ''UTC'', expression = ''0 * * * * *'', recurrence = None\<rparr>] (newTaskManager 0))) = []"
  using deregisterCrons_correct [OF refl] by blast

end
