(* ===== verification/ActiveWorkflows.thy ===== *)
theory ActiveWorkflows
  imports ScheduledTasks
begin

text \<open>
  The workflows whose triggers and pollers run in this instance,
  \<open>packages/core/src/execution-engine/active-workflows.ts\<close>, with \<open>runTrigger\<close> of
  \<open>triggers-and-pollers.ts\<close> outside manual mode.

  The code of a trigger or poll node is not part of the model: a trigger node is given by the crons that it registers and
  by its outcome, an error or a response, a poll node by its polling times and by the error of its first poll, if there is
  one. A response may have a function that closes the trigger; these functions are numbers, and the state lists the ones
  whose trigger is open.

  Theorems: after adding a workflow and removing it nothing of it is left running; a workflow whose activation
  fails keeps running what was started before, and cannot be removed.
\<close>

section \<open>The nodes\<close>

type_synonym ITriggerResponse = "nat option"

record triggerNode =
  tg_name :: string
  tg_crons :: "CronContext list"
  tg_result :: "string + ITriggerResponse option"

record pollNode =
  pn_name :: string
  pn_id :: string
  pn_times :: "(TriggerTime \<times> nat \<times> nat) list"
  pn_test :: "string option"

datatype activationError = WorkflowActivationError string string | WorkflowDeactivationError string

datatype closeOutcome = Closed | TriggerCloseFails | CloseThrows string

record active =
  tasks :: taskManager
  activeWorkflows :: "(string, ITriggerResponse list) jsmap"
  openTriggers :: "nat list"

definition newActive :: active where
  "newActive = \<lparr>tasks = newTaskManager 0, activeWorkflows = [], openTriggers = []\<rparr>"

definition isActive :: "string \<Rightarrow> active \<Rightarrow> bool" where
  "isActive w a \<longleftrightarrow> map_of (activeWorkflows a) w \<noteq> None"

definition allActiveWorkflows :: "active \<Rightarrow> string list" where
  "allActiveWorkflows a = map fst (activeWorkflows a)"

definition get_active :: "string \<Rightarrow> active \<Rightarrow> ITriggerResponse list option" where
  "get_active w a = map_of (activeWorkflows a) w"

section \<open>Adding a workflow\<close>

text \<open>The first error ends a loop; what was done before stays done. The message of an error of the cron library is not modelled further.\<close>

definition cron_message :: "js_error \<Rightarrow> string" where
  "cron_message e = (case e of ApplicationError m \<Rightarrow> m | UserError m \<Rightarrow> m | _ \<Rightarrow> [])"

fun registerCrons :: "(string \<Rightarrow> string \<Rightarrow> js_error option) \<Rightarrow> CronContext list \<Rightarrow> taskManager \<Rightarrow> taskManager \<times> string option" where
  "registerCrons cronError [] t = (t, None)"
| "registerCrons cronError (ctx # ctxs) t = (case registerCron cronError ctx t of
       Inl e \<Rightarrow> (t, Some (cron_message e))
     | Inr t' \<Rightarrow> registerCrons cronError ctxs t')"

definition runTrigger :: "(string \<Rightarrow> string \<Rightarrow> js_error option) \<Rightarrow> triggerNode \<Rightarrow> active \<Rightarrow> active \<times> (string + ITriggerResponse option)" where
  "runTrigger cronError triggerNode a =
     (let (t, err) = registerCrons cronError (tg_crons triggerNode) (tasks a); a = a\<lparr>tasks := t\<rparr>
      in case err of
          Some e \<Rightarrow> (a, Inl e)
        | None \<Rightarrow> (case tg_result triggerNode of
            Inr (Some (Some k)) \<Rightarrow> (a\<lparr>openTriggers := openTriggers a @ [k]\<rparr>, tg_result triggerNode)
          | _ \<Rightarrow> (a, tg_result triggerNode)))"

fun addTriggers :: "(string \<Rightarrow> string \<Rightarrow> js_error option) \<Rightarrow> triggerNode list \<Rightarrow> ITriggerResponse list \<Rightarrow> active \<Rightarrow>
    active \<times> (activationError + ITriggerResponse list)" where
  "addTriggers cronError [] triggerResponses a = (a, Inr triggerResponses)"
| "addTriggers cronError (triggerNode # nodes) triggerResponses a = (case runTrigger cronError triggerNode a of
       (a, Inl e) \<Rightarrow> (a, Inl (WorkflowActivationError e (tg_name triggerNode)))
     | (a, Inr triggerResponse) \<Rightarrow>
         addTriggers cronError nodes (triggerResponses @ (case triggerResponse of None \<Rightarrow> [] | Some r \<Rightarrow> [r])) a)"

fun pollCrons :: "(string \<Rightarrow> string \<Rightarrow> js_error option) \<Rightarrow> string \<Rightarrow> string \<Rightarrow> string \<Rightarrow> string list \<Rightarrow> taskManager \<Rightarrow> taskManager \<times> string option" where
  "pollCrons cronError w tz nid [] t = (t, None)"
| "pollCrons cronError w tz nid (expr # exprs) t =
     (if CHR ''*'' \<in> set (takeWhile (\<lambda>c. c \<noteq> CHR '' '') expr) then
        (t, Some ''The polling interval is too short. It has to be at least a minute.'')
      else case registerCron cronError \<lparr>nodeId = nid, workflowId = w, timezone = tz, expression = expr, recurrence = None\<rparr> t of
          Inl e \<Rightarrow> (t, Some (cron_message e))
        | Inr t' \<Rightarrow> pollCrons cronError w tz nid exprs t')"

definition activatePolling :: "(string \<Rightarrow> string \<Rightarrow> js_error option) \<Rightarrow> string \<Rightarrow> string \<Rightarrow> pollNode \<Rightarrow> taskManager \<Rightarrow> taskManager \<times> string option" where
  "activatePolling cronError w tz node t =
     (let cronExpressions = map (\<lambda>(item, s, m). toCronExpression s m item) (pn_times node)
      in case pn_test node of
          Some e \<Rightarrow> (t, Some e)
        | None \<Rightarrow> pollCrons cronError w tz (pn_id node) cronExpressions t)"

fun addPolls :: "(string \<Rightarrow> string \<Rightarrow> js_error option) \<Rightarrow> string \<Rightarrow> string \<Rightarrow> bool \<Rightarrow> pollNode list \<Rightarrow> active \<Rightarrow> active \<times> activationError option" where
  "addPolls cronError w tz noResponses [] a = (a, None)"
| "addPolls cronError w tz noResponses (node # nodes) a =
     (let (t, err) = activatePolling cronError w tz node (tasks a); a = a\<lparr>tasks := t\<rparr>
      in case err of
          Some e \<Rightarrow>
            (if noResponses then a\<lparr>activeWorkflows := AList.delete w (activeWorkflows a)\<rparr> else a,
             Some (WorkflowActivationError e (pn_name node)))
        | None \<Rightarrow> addPolls cronError w tz noResponses nodes a)"

definition addWorkflow :: "(string \<Rightarrow> string \<Rightarrow> js_error option) \<Rightarrow> string \<Rightarrow> string \<Rightarrow> triggerNode list \<Rightarrow> pollNode list \<Rightarrow> active \<Rightarrow>
    active \<times> activationError option" where
  "addWorkflow cronError w tz triggerNodes pollingNodes a = (case addTriggers cronError triggerNodes [] a of
       (a, Inl e) \<Rightarrow> (a, Some e)
     | (a, Inr triggerResponses) \<Rightarrow>
         addPolls cronError w tz (length triggerResponses = 0) pollingNodes
           (a\<lparr>activeWorkflows := AList.update w triggerResponses (activeWorkflows a)\<rparr>))"

section \<open>Removing a workflow\<close>

text \<open>The parameter is what the function that closes a trigger does.\<close>

definition closeTrigger :: "(nat \<Rightarrow> closeOutcome) \<Rightarrow> ITriggerResponse \<Rightarrow> active \<Rightarrow> active \<times> activationError option" where
  "closeTrigger close response a = (case response of
       None \<Rightarrow> (a, None)
     | Some k \<Rightarrow> (case close k of
         Closed \<Rightarrow> (a\<lparr>openTriggers := filter (\<lambda>j. j \<noteq> k) (openTriggers a)\<rparr>, None)
       | TriggerCloseFails \<Rightarrow> (a, None)
       | CloseThrows e \<Rightarrow> (a, Some (WorkflowDeactivationError e))))"

fun closeTriggers :: "(nat \<Rightarrow> closeOutcome) \<Rightarrow> ITriggerResponse list \<Rightarrow> active \<Rightarrow> active \<times> activationError option" where
  "closeTriggers close [] a = (a, None)"
| "closeTriggers close (r # rs) a = (case closeTrigger close r a of
       (a, Some e) \<Rightarrow> (a, Some e)
     | (a, None) \<Rightarrow> closeTriggers close rs a)"

definition removeWorkflow :: "(nat \<Rightarrow> closeOutcome) \<Rightarrow> string \<Rightarrow> active \<Rightarrow> active \<times> (activationError + bool)" where
  "removeWorkflow close w a = (case map_of (activeWorkflows a) w of
       None \<Rightarrow> (a, Inr False)
     | Some responses \<Rightarrow>
         let a = a\<lparr>tasks := deregisterCrons w (tasks a)\<rparr>
         in case closeTriggers close responses a of
             (a, Some e) \<Rightarrow> (a, Inl e)
           | (a, None) \<Rightarrow> (a\<lparr>activeWorkflows := AList.delete w (activeWorkflows a)\<rparr>, Inr True))"

fun removeWorkflows :: "(nat \<Rightarrow> closeOutcome) \<Rightarrow> string list \<Rightarrow> active \<Rightarrow> active \<times> activationError option" where
  "removeWorkflows close [] a = (a, None)"
| "removeWorkflows close (w # ws) a = (case removeWorkflow close w a of
       (a, Inl e) \<Rightarrow> (a, Some e)
     | (a, Inr _) \<Rightarrow> removeWorkflows close ws a)"

definition removeAllTriggerAndPollerBasedWorkflows :: "(nat \<Rightarrow> closeOutcome) \<Rightarrow> active \<Rightarrow> active \<times> activationError option" where
  "removeAllTriggerAndPollerBasedWorkflows close a = removeWorkflows close (allActiveWorkflows a) a"

section \<open>Adding and removing\<close>

definition others :: "string \<Rightarrow> taskManager \<Rightarrow> cron set" where
  "others w t = {c \<in> all_crons t. workflowId (cr_ctx c) \<noteq> w}"

text \<open>What a workflow registers is its own.\<close>

definition same_others :: "string \<Rightarrow> taskManager \<Rightarrow> taskManager \<Rightarrow> bool" where
  "same_others w t t' \<longleftrightarrow> (tasks_ok t \<longrightarrow> tasks_ok t' \<and> others w t' = others w t)"

lemma same_others_refl: "same_others w t t"
  by (simp add: same_others_def)

lemma same_others_trans: "same_others w t u \<Longrightarrow> same_others w u v \<Longrightarrow> same_others w t v"
  by (simp add: same_others_def)

lemma registerCron_others: "registerCron cronError ctx t = Inr t' \<Longrightarrow> workflowId ctx = w \<Longrightarrow> same_others w t t'"
  unfolding same_others_def others_def using registerCron_all [of cronError ctx t t'] registerCron_tasks_ok [of t cronError ctx t']
  by (auto simp: new_cron_def)

lemma registerCrons_others:
  "\<forall>ctx \<in> set ctxs. workflowId ctx = w \<Longrightarrow> same_others w t (fst (registerCrons cronError ctxs t))"
proof (induction ctxs arbitrary: t)
  case (Cons ctx ctxs)
  then show ?case
    by (auto simp: same_others_refl split: sum.split intro: same_others_trans registerCron_others)
qed (simp add: same_others_refl)

lemma pollCrons_others: "same_others w t (fst (pollCrons cronError w tz nid exprs t))"
proof (induction exprs arbitrary: t)
  case (Cons e exprs)
  let ?ctx = "\<lparr>nodeId = nid, workflowId = w, timezone = tz, expression = e, recurrence = None\<rparr>"
  have "same_others w t (fst (pollCrons cronError w tz nid exprs t'))" if "registerCron cronError ?ctx t = Inr t'" for t'
    using registerCron_others [OF that, of w] Cons [of t'] by (auto intro: same_others_trans)
  then show ?case by (auto simp: same_others_refl split: sum.split)
qed (simp add: same_others_refl)

lemma runTrigger_others:
  "\<forall>ctx \<in> set (tg_crons node). workflowId ctx = w \<Longrightarrow> same_others w (tasks a) (tasks (fst (runTrigger cronError node a)))"
  using registerCrons_others [of "tg_crons node" w "tasks a" cronError]
  by (auto simp: runTrigger_def Let_def case_prod_beta split: option.splits sum.splits)

definition own_crons :: "string \<Rightarrow> triggerNode list \<Rightarrow> bool" where
  "own_crons w nodes \<longleftrightarrow> (\<forall>node \<in> set nodes. \<forall>ctx \<in> set (tg_crons node). workflowId ctx = w)"

lemma addTriggers_others:
  "own_crons w nodes \<Longrightarrow> same_others w (tasks a) (tasks (fst (addTriggers cronError nodes rs a)))"
proof (induction nodes arbitrary: rs a)
  case (Cons node nodes)
  obtain b r where run: "runTrigger cronError node a = (b, r)" by (cases "runTrigger cronError node a")
  have "same_others w (tasks a) (tasks b)"
    using runTrigger_others [of node w a cronError] run Cons.prems by (auto simp: own_crons_def)
  moreover have "same_others w (tasks b) (tasks (fst (addTriggers cronError nodes rs' b)))" for rs'
    using Cons by (simp add: own_crons_def)
  ultimately show ?case using run by (auto split: sum.split intro: same_others_trans)
qed (simp add: same_others_refl)

lemma addPolls_others: "same_others w (tasks a) (tasks (fst (addPolls cronError w tz b nodes a)))"
proof (induction nodes arbitrary: a)
  case (Cons node nodes)
  have first: "same_others w (tasks a) (fst (activatePolling cronError w tz node (tasks a)))"
    using pollCrons_others by (auto simp: activatePolling_def same_others_refl Let_def split: option.split)
  have "same_others w t (tasks (fst (addPolls cronError w tz b nodes (a\<lparr>tasks := t\<rparr>))))" for t
    using Cons.IH [of "a\<lparr>tasks := t\<rparr>"] by simp
  with first have "same_others w (tasks a)
      (tasks (fst (addPolls cronError w tz b nodes (a\<lparr>tasks := fst (activatePolling cronError w tz node (tasks a))\<rparr>))))"
    by (blast intro: same_others_trans)
  with first show ?case by (auto simp: Let_def case_prod_beta split: option.split)
qed (simp add: same_others_refl)

text \<open>The triggers that are opened are those of the responses.\<close>

definition close_fns :: "ITriggerResponse list \<Rightarrow> nat list" where
  "close_fns rs = concat (map (\<lambda>r. case r of None \<Rightarrow> [] | Some k \<Rightarrow> [k]) rs)"

lemma runTrigger_open:
  "runTrigger cronError node a = (b, r) \<Longrightarrow> activeWorkflows b = activeWorkflows a \<and>
    (\<forall>resp. r = Inr resp \<longrightarrow> openTriggers b = openTriggers a @ close_fns (case resp of None \<Rightarrow> [] | Some x \<Rightarrow> [x]) \<and> tg_result node = Inr resp)"
  by (auto simp: runTrigger_def Let_def close_fns_def case_prod_beta split: option.splits sum.splits)

lemma addTriggers_open:
  "addTriggers cronError nodes rs a = (b, Inr rs') \<Longrightarrow>
    activeWorkflows b = activeWorkflows a \<and> (\<exists>new. rs' = rs @ new \<and> openTriggers b = openTriggers a @ close_fns new \<and>
      (\<forall>k \<in> set (close_fns new). \<exists>node \<in> set nodes. tg_result node = Inr (Some (Some k))))"
proof (induction nodes arbitrary: rs a)
  case (Cons node nodes)
  obtain c r where run: "runTrigger cronError node a = (c, r)" by (cases "runTrigger cronError node a")
  with Cons.prems obtain resp where r: "r = Inr resp" by (cases r) auto
  let ?x = "case resp of None \<Rightarrow> [] | Some x \<Rightarrow> [x]"
  have "addTriggers cronError nodes (rs @ ?x) c = (b, Inr rs')" using Cons.prems run r by simp
  from Cons.IH [OF this] obtain new where new: "activeWorkflows b = activeWorkflows c" "rs' = (rs @ ?x) @ new"
      "openTriggers b = openTriggers c @ close_fns new" "\<forall>k \<in> set (close_fns new). \<exists>node \<in> set nodes. tg_result node = Inr (Some (Some k))"
    by blast
  have "close_fns (?x @ new) = close_fns ?x @ close_fns new" by (simp add: close_fns_def)
  moreover have "\<forall>k \<in> set (close_fns ?x). tg_result node = Inr (Some (Some k))"
    using runTrigger_open [OF run] r by (auto simp: close_fns_def split: option.splits)
  ultimately show ?case using new runTrigger_open [OF run] r by (intro conjI exI [of _ "?x @ new"]) auto
qed (auto simp: close_fns_def)

lemma addPolls_rest:
  "addPolls cronError w tz b nodes a = (a', None) \<Longrightarrow> activeWorkflows a' = activeWorkflows a \<and> openTriggers a' = openTriggers a"
proof (induction nodes arbitrary: a)
  case (Cons node nodes)
  then have "addPolls cronError w tz b nodes (a\<lparr>tasks := fst (activatePolling cronError w tz node (tasks a))\<rparr>) = (a', None)"
    by (auto simp: Let_def case_prod_beta split: option.splits)
  then show ?case using Cons.IH by fastforce
qed simp

lemma closeTriggers_all:
  "closeTriggers (\<lambda>_. Closed) rs a = (a\<lparr>openTriggers := filter (\<lambda>k. k \<notin> set (close_fns rs)) (openTriggers a)\<rparr>, None)"
  by (induction rs arbitrary: a) (auto simp: closeTrigger_def close_fns_def split: option.split intro!: filter_cong)

text \<open>C16. After a successful activation and a removal whose triggers close, the workflow has no cron, no open trigger and no
  entry, and everything else is as before.\<close>

theorem add_then_remove:
  assumes "tasks_ok (tasks a)" and "own_crons w triggerNodes" and "\<not> isActive w a"
    and "\<forall>node \<in> set triggerNodes. \<forall>k. tg_result node = Inr (Some (Some k)) \<longrightarrow> k \<notin> set (openTriggers a)"
    and "addWorkflow cronError w tz triggerNodes pollingNodes a = (b, None)"
  shows "isActive w b \<and> (\<exists>c. removeWorkflow (\<lambda>_. Closed) w b = (c, Inr True) \<and> openTriggers c = openTriggers a \<and>
    all_crons (tasks c) = others w (tasks a) \<and> set (running (tasks c)) = cr_job ` others w (tasks a) \<and>
    map_of (activeWorkflows c) = map_of (activeWorkflows a))"
proof -
  obtain d rs where d: "addTriggers cronError triggerNodes [] a = (d, Inr rs)"
    using assms(5) by (auto simp: addWorkflow_def split: prod.splits sum.splits)
  let ?d = "d\<lparr>activeWorkflows := AList.update w rs (activeWorkflows d)\<rparr>"
  have b: "addPolls cronError w tz (length rs = 0) pollingNodes ?d = (b, None)"
    using assms(5) d by (simp add: addWorkflow_def)
  have opened: "activeWorkflows d = activeWorkflows a" "openTriggers d = openTriggers a @ close_fns rs"
      "\<forall>k \<in> set (close_fns rs). k \<notin> set (openTriggers a)"
    using addTriggers_open [OF d] assms(4) by fastforce+
  have rest: "activeWorkflows b = AList.update w rs (activeWorkflows a)" "openTriggers b = openTriggers a @ close_fns rs"
    using addPolls_rest [OF b] opened by simp_all
  have "same_others w (tasks a) (tasks d)" using addTriggers_others [OF assms(2), of a cronError "[]"] d by simp
  moreover have "same_others w (tasks d) (tasks b)"
    using addPolls_others [of w ?d cronError tz "length rs = 0" pollingNodes] b by simp
  ultimately have tasks: "tasks_ok (tasks b)" "others w (tasks b) = others w (tasks a)"
    using assms(1) by (auto simp: same_others_def)
  have some: "map_of (activeWorkflows b) w = Some rs" by (simp add: rest update_conv')
  let ?c = "b\<lparr>tasks := deregisterCrons w (tasks b),
    openTriggers := filter (\<lambda>k. k \<notin> set (close_fns rs)) (openTriggers b),
    activeWorkflows := AList.delete w (activeWorkflows b)\<rparr>"
  have "removeWorkflow (\<lambda>_. Closed) w b = (?c, Inr True)"
    using some by (simp add: removeWorkflow_def closeTriggers_all)
  moreover have "openTriggers ?c = openTriggers a" using opened(3) by (auto simp: rest filter_id_conv filter_empty_conv)
  moreover have "all_crons (tasks ?c) = others w (tasks a)" "set (running (tasks ?c)) = cr_job ` others w (tasks a)"
    using deregisterCrons_all [OF tasks(1), of w] tasks(2) by (simp_all add: others_def)
  moreover have "map_of (activeWorkflows ?c) = map_of (activeWorkflows a)"
    using assms(3) by (auto simp: rest isActive_def delete_conv' update_conv')
  ultimately show ?thesis using some by (auto simp: isActive_def)
qed

definition everyMinutePoller :: "nat \<Rightarrow> pollNode" where
  "everyMinutePoller s = \<lparr>pn_name = ''poll'', pn_id = ''p1'', pn_times = [(EveryMinute, s, 0)], pn_test = None\<rparr>"

definition mailTrigger :: triggerNode where
  "mailTrigger = \<lparr>tg_name = ''mail'', tg_crons = [], tg_result = Inr (Some (Some 5))\<rparr>"

theorem add_then_remove_witness:
  "isActive ''w'' (fst (addWorkflow (\<lambda>_ _. None) ''w'' ''UTC'' [mailTrigger] [everyMinutePoller 7] newActive))"
proof -
  have "snd (addWorkflow (\<lambda>_ _. None) ''w'' ''UTC'' [mailTrigger] [everyMinutePoller 7] newActive) = None" by code_simp
  then obtain b where "addWorkflow (\<lambda>_ _. None) ''w'' ''UTC'' [mailTrigger] [everyMinutePoller 7] newActive = (b, None)"
    by (metis prod.collapse)
  moreover have "tasks_ok (tasks newActive)" using task_run_ok [of "\<lambda>_ _. None" "[]" 0] by (simp add: task_run_def newActive_def)
  ultimately show ?thesis
    using add_then_remove [of newActive "''w''" "[mailTrigger]" "\<lambda>_ _. None" "''UTC''" "[everyMinutePoller 7]" b]
    by (simp add: own_crons_def mailTrigger_def isActive_def newActive_def)
qed

section \<open>Activations that fail\<close>

text \<open>A trigger that was started stays open when a later one fails, and since the workflow is not active then, removing
  it does nothing.\<close>

theorem failed_activation_leaves_trigger:
  assumes "tg_crons good = []" and "tg_result good = Inr (Some (Some k))" and "tg_crons bad = []" and "tg_result bad = Inl e"
    and "\<not> isActive w a"
  shows "\<exists>b. addWorkflow cronError w tz [good, bad] pollingNodes a = (b, Some (WorkflowActivationError e (tg_name bad))) \<and>
    k \<in> set (openTriggers b) \<and> removeWorkflow close w b = (b, Inr False)"
  using assms by (simp add: addWorkflow_def runTrigger_def isActive_def removeWorkflow_def)

theorem failed_activation_leaves_trigger_witness:
  "\<exists>b. addWorkflow (\<lambda>_ _. None) ''w'' ''UTC'' [mailTrigger, \<lparr>tg_name = ''bad'', tg_crons = [], tg_result = Inl ''no connection''\<rparr>] [] newActive =
      (b, Some (WorkflowActivationError ''no connection'' ''bad'')) \<and> 5 \<in> set (openTriggers b)"
  using failed_activation_leaves_trigger [of mailTrigger 5 "\<lparr>tg_name = ''bad'', tg_crons = [], tg_result = Inl ''no connection''\<rparr>"
      "''no connection''" "''w''" newActive "\<lambda>_ _. None" "''UTC''" "[]" "\<lambda>_. Closed"]
  by (auto simp: mailTrigger_def isActive_def newActive_def)

text \<open>A poller whose cron is registered keeps polling when a later one fails. Each further attempt registers it once
  more, at another second, and after all of them the workflow counts as inactive.\<close>

definition failingPoller :: pollNode where
  "failingPoller = \<lparr>pn_name = ''bad'', pn_id = ''p2'', pn_times = [], pn_test = Some ''no connection''\<rparr>"

definition two_attempts :: active where
  "two_attempts = (let attempt = (\<lambda>s a. fst (addWorkflow (\<lambda>_ _. None) ''w'' ''UTC'' [] [everyMinutePoller s, failingPoller] a))
     in attempt 9 (attempt 7 newActive))"

theorem failed_activation_leaves_pollers:
  "running (tasks two_attempts) = [0, 1] \<and> \<not> isActive ''w'' two_attempts \<and>
    running (tasks (fst (removeWorkflow (\<lambda>_. Closed) ''w'' two_attempts))) = [0, 1] \<and>
    running (tasks (fst (removeAllTriggerAndPollerBasedWorkflows (\<lambda>_. Closed) two_attempts))) = [0, 1]"
  by code_simp

end
