(* ===== verification/Webhooks.thy ===== *)
theory Webhooks
  imports Prelude
begin

text \<open>
  The table of webhooks with its cache: \<open>packages/cli/src/webhooks/webhook.service.ts\<close> (lookup, storing, deleting,
  conflicts), \<open>WebhookEntity\<close> in \<open>packages/@n8n/db/src/entities/webhook-entity.ts\<close>, the entity that
  \<open>addWebhooks\<close> of \<open>active-workflow-manager.ts\<close> stores and the parameters that \<open>executeWebhook\<close> of
  \<open>live-webhooks.ts\<close> takes from the path.

  The table is a list of rows with the primary key of method and path; a query returns its rows in the order of the list.
  A flag of an operation says whether the cache works then; errors of the cache are only logged.

  Theorems: a dynamic webhook is found if one matches, and it matches the most segments; with a working cache lookups
  give what the table has; a workflow without conflicts has distinct webhooks, none taken by another workflow; a dynamic
  path of one workflow replaces the same path of another.
\<close>

section \<open>Rows\<close>

datatype IHttpRequestMethods = DELETE | GET | HEAD | PATCH | POST | PUT

record WebhookEntity =
  wh_workflowId :: string
  wh_webhookPath :: string
  wh_method :: IHttpRequestMethods
  wh_node :: string
  wh_webhookId :: "string option"
  wh_pathLength :: "nat option"

text \<open>\<open>split('/')\<close> and \<open>join('/')\<close>\<close>

fun splitSlash :: "string \<Rightarrow> string list" where
  "splitSlash [] = [[]]"
| "splitSlash (c # cs) = (if c = CHR ''/'' then [] # splitSlash cs
     else case splitSlash cs of [] \<Rightarrow> [[c]] | s # ss \<Rightarrow> (c # s) # ss)"

definition startsColon :: "string \<Rightarrow> bool" where
  "startsColon s \<longleftrightarrow> (case s of [] \<Rightarrow> False | c # _ \<Rightarrow> c = CHR '':'')"

fun method_name :: "IHttpRequestMethods \<Rightarrow> string" where
  "method_name DELETE = ''DELETE''"
| "method_name GET = ''GET''"
| "method_name HEAD = ''HEAD''"
| "method_name PATCH = ''PATCH''"
| "method_name POST = ''POST''"
| "method_name PUT = ''PUT''"

definition uniquePath :: "WebhookEntity \<Rightarrow> string" where
  "uniquePath w = (if CHR '':'' \<in> set (wh_webhookPath w)
     then (case wh_webhookId w of None \<Rightarrow> [] | Some i \<Rightarrow> i) @ ''/'' @ wh_webhookPath w else wh_webhookPath w)"

definition cacheKeyOf :: "IHttpRequestMethods \<Rightarrow> string \<Rightarrow> string" where
  "cacheKeyOf m path = ''webhook:'' @ method_name m @ ''-'' @ path"

definition cacheKey :: "WebhookEntity \<Rightarrow> string" where
  "cacheKey w = cacheKeyOf (wh_method w) (uniquePath w)"

definition staticSegments :: "WebhookEntity \<Rightarrow> string list" where
  "staticSegments w = filter (\<lambda>s. \<not> startsColon s) (splitSlash (wh_webhookPath w))"

definition isDynamic :: "WebhookEntity \<Rightarrow> bool" where
  "isDynamic w \<longleftrightarrow> (\<exists>s \<in> set (splitSlash (wh_webhookPath w)). startsColon s)"

record hooks =
  h_db :: "WebhookEntity list"
  h_cache :: "(string, WebhookEntity) jsmap"

definition newHooks :: hooks where
  "newHooks = \<lparr>h_db = [], h_cache = []\<rparr>"

section \<open>Lookup\<close>

definition findStaticWebhook :: "IHttpRequestMethods \<Rightarrow> string \<Rightarrow> WebhookEntity list \<Rightarrow> WebhookEntity option" where
  "findStaticWebhook m path db = find (\<lambda>w. wh_webhookPath w = path \<and> wh_method w = m) db"

text \<open>Without a method the query does not restrict it. The split of a string is never empty.\<close>

definition dynamicCandidates :: "string \<Rightarrow> IHttpRequestMethods option \<Rightarrow> WebhookEntity list \<Rightarrow> WebhookEntity list" where
  "dynamicCandidates path m db = (case splitSlash path of [] \<Rightarrow> []
     | uuidSegment # otherSegments \<Rightarrow> filter (\<lambda>w. wh_webhookId w = Some uuidSegment \<and>
         (case m of None \<Rightarrow> True | Some m \<Rightarrow> wh_method w = m) \<and> wh_pathLength w = Some (length otherSegments)) db)"

definition allStaticSegmentsMatch :: "string \<Rightarrow> WebhookEntity \<Rightarrow> bool" where
  "allStaticSegmentsMatch path w \<longleftrightarrow> (\<forall>s \<in> set (staticSegments w). s \<in> set (tl (splitSlash path)))"

definition dynamicStep :: "string \<Rightarrow> WebhookEntity option \<times> nat \<Rightarrow> WebhookEntity \<Rightarrow> WebhookEntity option \<times> nat" where
  "dynamicStep path acc dw = (let (webhook, maxMatches) = acc in
     if allStaticSegmentsMatch path dw \<and> length (staticSegments dw) > maxMatches then (Some dw, length (staticSegments dw))
     else if length (staticSegments dw) = 0 \<and> webhook = None then (Some dw, maxMatches)
     else (webhook, maxMatches))"

definition findDynamicWebhook :: "string \<Rightarrow> IHttpRequestMethods option \<Rightarrow> WebhookEntity list \<Rightarrow> WebhookEntity option" where
  "findDynamicWebhook path m db = (let dynamicWebhooks = dynamicCandidates path m db in
     if length dynamicWebhooks = 0 then None else fst (foldl (dynamicStep path) (None, 0) dynamicWebhooks))"

definition findCached :: "bool \<Rightarrow> IHttpRequestMethods \<Rightarrow> string \<Rightarrow> hooks \<Rightarrow> WebhookEntity option \<times> hooks" where
  "findCached cacheUp m path h = (let key = cacheKeyOf m path;
       cached = (if cacheUp then map_of (h_cache h) key else None)
     in case cached of Some w \<Rightarrow> (Some w, h)
     | None \<Rightarrow> (case findStaticWebhook m path (h_db h) of
         Some w \<Rightarrow> (Some w, if cacheUp then h\<lparr>h_cache := AList.update key w (h_cache h)\<rparr> else h)
       | None \<Rightarrow> (findDynamicWebhook path (Some m) (h_db h), h)))"

definition findWebhook :: "bool \<Rightarrow> IHttpRequestMethods \<Rightarrow> string \<Rightarrow> hooks \<Rightarrow> WebhookEntity option \<times> hooks" where
  "findWebhook cacheUp m path h = findCached cacheUp m path h"

definition getWebhookMethods :: "string \<Rightarrow> hooks \<Rightarrow> IHttpRequestMethods list" where
  "getWebhookMethods rawPath h =
     (let staticMethods = map wh_method (filter (\<lambda>w. wh_webhookPath w = rawPath) (h_db h)) in
      if length staticMethods > 0 then staticMethods
      else case findDynamicWebhook rawPath None (h_db h) of None \<Rightarrow> [] | Some w \<Rightarrow> [wh_method w])"

section \<open>Changes of the table\<close>

definition populateCache :: "hooks \<Rightarrow> hooks" where
  "populateCache h = h\<lparr>h_cache := foldl (\<lambda>c w. AList.update (cacheKey w) w c) (h_cache h)
     (filter (\<lambda>w. wh_webhookId w = None) (h_db h))\<rparr>"

text \<open>An upsert replaces the row with the same key, or adds one.\<close>

definition same_row :: "WebhookEntity \<Rightarrow> WebhookEntity \<Rightarrow> bool" where
  "same_row v w \<longleftrightarrow> wh_method v = wh_method w \<and> wh_webhookPath v = wh_webhookPath w"

definition upsert :: "WebhookEntity \<Rightarrow> WebhookEntity list \<Rightarrow> WebhookEntity list" where
  "upsert w db = (if \<exists>v \<in> set db. same_row v w then map (\<lambda>v. if same_row v w then w else v) db else db @ [w])"

definition storeWebhook :: "bool \<Rightarrow> WebhookEntity \<Rightarrow> hooks \<Rightarrow> hooks" where
  "storeWebhook cacheUp w h =
     (let h = (if cacheUp then h\<lparr>h_cache := AList.update (cacheKey w) w (h_cache h)\<rparr> else h)
      in h\<lparr>h_db := upsert w (h_db h)\<rparr>)"

definition deleteWebhooks :: "bool \<Rightarrow> WebhookEntity list \<Rightarrow> hooks \<Rightarrow> hooks" where
  "deleteWebhooks cacheUp ws h =
     (let h = (if cacheUp then h\<lparr>h_cache := foldl (\<lambda>c w. AList.delete (cacheKey w) c) (h_cache h) ws\<rparr> else h)
      in h\<lparr>h_db := filter (\<lambda>v. \<not> (\<exists>w \<in> set ws. same_row v w)) (h_db h)\<rparr>)"

definition deleteWorkflowWebhooks :: "bool \<Rightarrow> string \<Rightarrow> hooks \<Rightarrow> hooks" where
  "deleteWorkflowWebhooks cacheUp workflowId h =
     deleteWebhooks cacheUp (filter (\<lambda>w. wh_workflowId w = workflowId) (h_db h)) h"

section \<open>The webhooks of a workflow\<close>

record IWebhookData =
  wd_httpMethod :: IHttpRequestMethods
  wd_node :: string
  wd_path :: string
  wd_workflowId :: string
  wd_webhookId :: "string option"

fun includesSlashColon :: "string \<Rightarrow> bool" where
  "includesSlashColon (a # b # cs) = (a = CHR ''/'' \<and> b = CHR '':'' \<or> includesSlashColon (b # cs))"
| "includesSlashColon _ = False"

definition isDynamicPath :: "string \<Rightarrow> bool" where
  "isDynamicPath rawPath = (let path = (if CHR ''/'' \<in> set rawPath then tl (dropWhile (\<lambda>c. c \<noteq> CHR ''/'') rawPath) else rawPath)
     in if path = [] \<or> path = '':'' \<or> path = ''/:'' then False else startsColon path \<or> includesSlashColon path)"

text \<open>Empty parts are left out.\<close>

definition getWebhookPath :: "IWebhookData \<Rightarrow> string" where
  "getWebhookPath webhook = (case (if CHR '':'' \<in> set (wd_path webhook) then wd_webhookId webhook else None) of
       None \<Rightarrow> wd_path webhook
     | Some i \<Rightarrow> if i = [] then wd_path webhook else if wd_path webhook = [] then i else i @ ''/'' @ wd_path webhook)"

text \<open>The entity that is stored for a webhook, given the webhook id of its node. An empty id is falsy.\<close>

definition stripSlashes :: "string \<Rightarrow> string" where
  "stripSlashes p = (let p = (case p of [] \<Rightarrow> [] | c # cs \<Rightarrow> if c = CHR ''/'' then cs else p)
     in if p \<noteq> [] \<and> last p = CHR ''/'' then butlast p else p)"

definition webhookEntity :: "IWebhookData \<Rightarrow> string option \<Rightarrow> WebhookEntity" where
  "webhookEntity webhookData nodeWebhookId =
     (let path = wd_path webhookData;
          webhook = \<lparr>wh_workflowId = wd_workflowId webhookData, wh_webhookPath = stripSlashes path,
            wh_method = wd_httpMethod webhookData, wh_node = wd_node webhookData, wh_webhookId = None, wh_pathLength = None\<rparr>
      in if (startsColon path \<or> includesSlashColon path) \<and> nodeWebhookId \<noteq> None \<and> nodeWebhookId \<noteq> Some []
         then webhook\<lparr>wh_webhookId := nodeWebhookId, wh_pathLength := Some (length (splitSlash (wh_webhookPath webhook)))\<rparr>
         else webhook)"

text \<open>The parameters of a request: the segment at the place of each variable, the last one for a name that occurs twice.\<close>

definition requestParams :: "WebhookEntity \<Rightarrow> string \<Rightarrow> (string, string option) jsmap" where
  "requestParams webhook path = (if \<not> isDynamic webhook then []
     else let pathElements = tl (splitSlash path); eles = splitSlash (wh_webhookPath webhook) in
       foldl (\<lambda>params (ele, index). if startsColon ele
           then AList.update (tl ele) (if index < length pathElements then Some (pathElements ! index) else None) params else params)
         [] (zip eles [0..<length eles]))"

record conflict =
  cf_trigger :: string
  cf_workflowId :: string
  cf_webhookPath :: string
  cf_method :: IHttpRequestMethods

text \<open>One webhook after the other, with those that were processed by their keys.\<close>

definition webhookToKey :: "IWebhookData \<Rightarrow> string" where
  "webhookToKey webhook = method_name (wd_httpMethod webhook) @ '' '' @ getWebhookPath webhook"

fun conflictLoop :: "string \<Rightarrow> (string \<times> IWebhookData) list \<Rightarrow> (string, IWebhookData) jsmap \<Rightarrow> hooks \<Rightarrow> conflict list \<times> hooks" where
  "conflictLoop workflowId [] processed h = ([], h)"
| "conflictLoop workflowId ((node, webhook) # rest) processed h =
     (case map_of processed (webhookToKey webhook) of
        Some c \<Rightarrow> apfst (Cons \<lparr>cf_trigger = node, cf_workflowId = workflowId, cf_webhookPath = wd_path c, cf_method = wd_httpMethod c\<rparr>)
          (conflictLoop workflowId rest processed h)
      | None \<Rightarrow>
          let (potentialConflict, h) = findWebhook True (wd_httpMethod webhook) (getWebhookPath webhook) h in
          (case potentialConflict of
             Some p \<Rightarrow> if wh_workflowId p \<noteq> workflowId then
                 apfst (Cons \<lparr>cf_trigger = node, cf_workflowId = wh_workflowId p, cf_webhookPath = wh_webhookPath p, cf_method = wh_method p\<rparr>)
                   (conflictLoop workflowId rest processed h)
               else conflictLoop workflowId rest (AList.update (webhookToKey webhook) webhook processed) h
           | None \<Rightarrow> conflictLoop workflowId rest (AList.update (webhookToKey webhook) webhook processed) h))"

definition findWebhookConflicts :: "string \<Rightarrow> (string \<times> IWebhookData list) list \<Rightarrow> hooks \<Rightarrow> conflict list \<times> hooks" where
  "findWebhookConflicts workflowId checkEntries h =
     conflictLoop workflowId (concat (map (\<lambda>(node, webhooks). map (Pair node) webhooks) checkEntries)) [] h"

section \<open>Dynamic webhooks\<close>

lemma foldl_best:
  assumes "foldl (dynamicStep path) acc ws = acc'"
    and "\<forall>v \<in> set seen. allStaticSegmentsMatch path v \<longrightarrow> length (staticSegments v) \<le> snd acc \<and> fst acc \<noteq> None"
    and "\<forall>w. fst acc = Some w \<longrightarrow> w \<in> set seen \<and> allStaticSegmentsMatch path w \<and> snd acc = length (staticSegments w)"
    and "fst acc = None \<longrightarrow> snd acc = 0"
  shows "(\<forall>v \<in> set seen \<union> set ws. allStaticSegmentsMatch path v \<longrightarrow> length (staticSegments v) \<le> snd acc' \<and> fst acc' \<noteq> None) \<and>
    (\<forall>w. fst acc' = Some w \<longrightarrow> w \<in> set seen \<union> set ws \<and> allStaticSegmentsMatch path w \<and> snd acc' = length (staticSegments w))"
  using assms
proof (induction ws arbitrary: acc seen)
  case (Cons w ws)
  obtain x n where acc: "acc = (x, n)" by (cases acc)
  let ?acc = "dynamicStep path acc w"
  have zero: "length (staticSegments w) = 0 \<Longrightarrow> allStaticSegmentsMatch path w" by (simp add: allStaticSegmentsMatch_def)
  have start: "x = None \<Longrightarrow> n = 0" using Cons.prems(4) acc by simp
  have step: "?acc = (if allStaticSegmentsMatch path w \<and> length (staticSegments w) > n then (Some w, length (staticSegments w))
      else if length (staticSegments w) = 0 \<and> x = None then (Some w, n) else (x, n))"
    by (simp add: acc dynamicStep_def)
  have most: "\<forall>v \<in> set seen. allStaticSegmentsMatch path v \<longrightarrow> length (staticSegments v) \<le> n \<and> x \<noteq> None"
    and best: "\<forall>u. x = Some u \<longrightarrow> u \<in> set seen \<and> allStaticSegmentsMatch path u \<and> n = length (staticSegments u)"
    using Cons.prems(2,3) by (simp_all add: acc)
  have "\<forall>v \<in> set (w # seen). allStaticSegmentsMatch path v \<longrightarrow> length (staticSegments v) \<le> snd ?acc \<and> fst ?acc \<noteq> None"
    using most start unfolding step by (auto simp: not_less intro: less_imp_le le_trans)
  moreover have "\<forall>u. fst ?acc = Some u \<longrightarrow> u \<in> set (w # seen) \<and> allStaticSegmentsMatch path u \<and> snd ?acc = length (staticSegments u)"
    using best start zero unfolding step by auto
  moreover have "fst ?acc = None \<longrightarrow> snd ?acc = 0" using start unfolding step by simp
  moreover have "foldl (dynamicStep path) ?acc ws = acc'" using Cons.prems(1) by simp
  ultimately have "(\<forall>v \<in> set (w # seen) \<union> set ws. allStaticSegmentsMatch path v \<longrightarrow> length (staticSegments v) \<le> snd acc' \<and> fst acc' \<noteq> None) \<and>
      (\<forall>u. fst acc' = Some u \<longrightarrow> u \<in> set (w # seen) \<union> set ws \<and> allStaticSegmentsMatch path u \<and> snd acc' = length (staticSegments u))"
    by (intro Cons.IH) blast+
  then show ?case by simp
qed simp

text \<open>C18. If some dynamic webhook has only static segments of the request, one is found, with the most static segments.\<close>

theorem findDynamicWebhook_correct:
  "(case findDynamicWebhook path m db of
      None \<Rightarrow> \<not> (\<exists>v \<in> set (dynamicCandidates path m db). allStaticSegmentsMatch path v)
    | Some w \<Rightarrow> w \<in> set (dynamicCandidates path m db) \<and> allStaticSegmentsMatch path w \<and>
        \<not> (\<exists>v \<in> set (dynamicCandidates path m db). allStaticSegmentsMatch path v \<and> length (staticSegments v) > length (staticSegments w)))"
proof (cases "dynamicCandidates path m db = []")
  case False
  let ?acc = "foldl (dynamicStep path) (None, 0) (dynamicCandidates path m db)"
  have found: "findDynamicWebhook path m db = fst ?acc" using False by (simp add: findDynamicWebhook_def)
  have best: "\<forall>v \<in> set (dynamicCandidates path m db). allStaticSegmentsMatch path v \<longrightarrow> length (staticSegments v) \<le> snd ?acc \<and> fst ?acc \<noteq> None"
      "\<forall>w. fst ?acc = Some w \<longrightarrow> w \<in> set (dynamicCandidates path m db) \<and> allStaticSegmentsMatch path w \<and> snd ?acc = length (staticSegments w)"
    using foldl_best [OF refl, of "[]" path "(None, 0)" "dynamicCandidates path m db"] by simp_all
  show ?thesis
  proof (cases "fst ?acc")
    case None
    with best(1) found show ?thesis by simp
  next
    case (Some w)
    with best(2) have w: "w \<in> set (dynamicCandidates path m db)" "allStaticSegmentsMatch path w" "snd ?acc = length (staticSegments w)"
      by blast+
    with best(1) have "\<not> (\<exists>v \<in> set (dynamicCandidates path m db). allStaticSegmentsMatch path v \<and> length (staticSegments v) > length (staticSegments w))"
      by (metis not_le)
    with w show ?thesis by (simp add: found Some)
  qed
qed (simp add: findDynamicWebhook_def)

text \<open>A segment matches at any place of the request: \<open>:id/posts\<close> takes the request of \<open>posts/5\<close>, and its variable is
  \<open>posts\<close>.\<close>

definition postsHook :: WebhookEntity where
  "postsHook = \<lparr>wh_workflowId = ''1'', wh_webhookPath = '':id/posts'', wh_method = GET, wh_node = ''Webhook'',
     wh_webhookId = Some ''A'', wh_pathLength = Some 2\<rparr>"

theorem dynamic_match_ignores_places:
  "findDynamicWebhook ''A/posts/5'' (Some GET) [postsHook] = Some postsHook \<and>
    requestParams postsHook ''A/posts/5'' = [(''id'', Some ''posts'')]"
  by code_simp

section \<open>The cache\<close>

definition rows_distinct :: "WebhookEntity list \<Rightarrow> bool" where
  "rows_distinct db \<longleftrightarrow> distinct (map (\<lambda>w. (wh_method w, wh_webhookPath w)) db)"

definition coherent :: "hooks \<Rightarrow> bool" where
  "coherent h \<longleftrightarrow> rows_distinct (h_db h) \<and> (\<forall>m path w. CHR '':'' \<notin> set path \<longrightarrow> map_of (h_cache h) (cacheKeyOf m path) = Some w \<longrightarrow>
     w \<in> set (h_db h) \<and> wh_method w = m \<and> wh_webhookPath w = path)"

lemma cacheKeyOf_inj: "cacheKeyOf m p = cacheKeyOf m' p' \<longleftrightarrow> m = m' \<and> p = p'"
  by (cases m; cases m') (auto simp: cacheKeyOf_def)

lemma uniquePath_colon: "CHR '':'' \<notin> set (uniquePath w) \<longleftrightarrow> CHR '':'' \<notin> set (wh_webhookPath w)"
  "CHR '':'' \<notin> set (wh_webhookPath w) \<Longrightarrow> uniquePath w = wh_webhookPath w"
  by (auto simp: uniquePath_def)

lemma cacheKey_eq: "CHR '':'' \<notin> set path \<Longrightarrow> cacheKey w = cacheKeyOf m path \<longleftrightarrow> wh_method w = m \<and> wh_webhookPath w = path"
  unfolding cacheKey_def cacheKeyOf_inj by (metis uniquePath_colon)

lemma cacheKey_eq': "CHR '':'' \<notin> set path \<Longrightarrow> cacheKeyOf m path = cacheKey w \<longleftrightarrow> wh_method w = m \<and> wh_webhookPath w = path"
  using cacheKey_eq by metis

lemma upsert_set: "set (upsert w db) = insert w {v \<in> set db. \<not> same_row v w}"
  by (auto simp: upsert_def same_row_def)

lemma upsert_distinct:
  assumes "rows_distinct db"
  shows "rows_distinct (upsert w db)"
proof (cases "\<exists>v \<in> set db. same_row v w")
  case True
  have "map (\<lambda>w. (wh_method w, wh_webhookPath w)) (map (\<lambda>v. if same_row v w then w else v) db) = map (\<lambda>w. (wh_method w, wh_webhookPath w)) db"
    by (auto simp: same_row_def)
  with True assms show ?thesis unfolding rows_distinct_def upsert_def by (simp only: if_True)
next
  case False
  then show ?thesis using assms by (auto simp: rows_distinct_def upsert_def same_row_def)
qed

lemma coherent_store: "coherent h \<Longrightarrow> coherent (storeWebhook True w h)"
  by (auto simp: coherent_def storeWebhook_def upsert_distinct upsert_set update_conv' cacheKey_eq cacheKey_eq' same_row_def split: if_splits)

lemma map_of_deletes: "map_of (foldl (\<lambda>c w. AList.delete (f w) c) c ws) k = (if k \<in> f ` set ws then None else map_of c k)"
  by (induction ws arbitrary: c) (auto simp: delete_conv')

lemma coherent_delete: "coherent h \<Longrightarrow> coherent (deleteWebhooks True ws h)"
proof -
  assume h: "coherent h"
  let ?h = "deleteWebhooks True ws h"
  have "rows_distinct (h_db ?h)" using h by (simp add: coherent_def rows_distinct_def distinct_map_filter deleteWebhooks_def)
  moreover have "v \<in> set (h_db ?h) \<and> wh_method v = m \<and> wh_webhookPath v = path"
    if path: "CHR '':'' \<notin> set path" and v: "map_of (h_cache ?h) (cacheKeyOf m path) = Some v" for m path v
  proof -
    have key: "cacheKeyOf m path \<notin> cacheKey ` set ws" "map_of (h_cache h) (cacheKeyOf m path) = Some v"
      using v by (auto simp: deleteWebhooks_def map_of_deletes split: if_splits)
    then have row: "v \<in> set (h_db h)" "wh_method v = m" "wh_webhookPath v = path" using h path unfolding coherent_def by blast+
    have "\<not> same_row v w" if "w \<in> set ws" for w
      using that key(1) row(2,3) cacheKey_eq' [OF path, of m w] unfolding same_row_def by (metis image_eqI)
    with row show ?thesis by (simp add: deleteWebhooks_def)
  qed
  ultimately show ?thesis unfolding coherent_def by blast
qed

lemma coherent_populate:
  assumes "coherent h"
  shows "coherent (populateCache h)"
proof -
  have "coherent (h\<lparr>h_cache := foldl (\<lambda>c w. AList.update (cacheKey w) w c) (h_cache h) ws\<rparr>)" if "set ws \<subseteq> set (h_db h)" for ws
    using that assms
  proof (induction ws arbitrary: h)
    case (Cons w ws)
    have "coherent (h\<lparr>h_cache := AList.update (cacheKey w) w (h_cache h)\<rparr>)"
      using Cons.prems by (auto simp: coherent_def update_conv' cacheKey_eq cacheKey_eq' split: if_splits)
    from Cons.IH [OF _ this] Cons.prems(1) show ?case by simp
  qed simp
  then show ?thesis by (simp add: populateCache_def)
qed

lemma findStatic_Some: "findStaticWebhook m path db = Some w \<Longrightarrow> w \<in> set db \<and> wh_method w = m \<and> wh_webhookPath w = path"
  by (auto simp: findStaticWebhook_def find_Some_iff)

lemma coherent_find: "coherent h \<Longrightarrow> coherent (snd (findWebhook True m path h))"
  by (auto simp: findWebhook_def findCached_def Let_def coherent_def update_conv' cacheKeyOf_inj dest: findStatic_Some split: option.split if_splits)

lemma findStatic_row:
  "rows_distinct db \<Longrightarrow> w \<in> set db \<Longrightarrow> findStaticWebhook (wh_method w) (wh_webhookPath w) db = Some w"
  by (induction db) (auto simp: rows_distinct_def findStaticWebhook_def)

lemma find_coherent:
  "coherent h \<Longrightarrow> CHR '':'' \<notin> set path \<Longrightarrow> fst (findWebhook True m path h) = fst (findWebhook False m path h)"
proof -
  assume h: "coherent h" and p: "CHR '':'' \<notin> set path"
  show ?thesis
  proof (cases "map_of (h_cache h) (cacheKeyOf m path)")
    case None
    then show ?thesis by (simp add: findWebhook_def findCached_def Let_def split: option.split)
  next
    case (Some w)
    with h p have "w \<in> set (h_db h)" "wh_method w = m" "wh_webhookPath w = path" "rows_distinct (h_db h)"
      by (auto simp: coherent_def)
    then have "findStaticWebhook m path (h_db h) = Some w" using findStatic_row by blast
    with Some show ?thesis by (simp add: findWebhook_def findCached_def)
  qed
qed

datatype hook_event = Populate | Store WebhookEntity | DeleteOf string | Find IHttpRequestMethods string

fun hook_step :: "hooks \<Rightarrow> hook_event \<Rightarrow> hooks" where
  "hook_step h Populate = populateCache h"
| "hook_step h (Store w) = storeWebhook True w h"
| "hook_step h (DeleteOf workflowId) = deleteWorkflowWebhooks True workflowId h"
| "hook_step h (Find m path) = snd (findWebhook True m path h)"

lemma coherent_run: "coherent (foldl hook_step newHooks es)"
proof (rule foldl_invariant)
  show "coherent newHooks" by (simp add: newHooks_def coherent_def rows_distinct_def)
  fix h e
  assume "coherent h"
  then show "coherent (hook_step h e)"
    by (cases e) (auto simp: coherent_populate coherent_store coherent_find coherent_delete deleteWorkflowWebhooks_def)
qed

text \<open>C17. While the cache works, a lookup of a path without variables gives what it would give without the cache.\<close>

theorem cache_transparent:
  assumes "h = foldl hook_step newHooks es" and "CHR '':'' \<notin> set path"
  shows "fst (findWebhook True m path h) = fst (findWebhook False m path h)"
  using find_coherent coherent_run assms by blast

theorem cache_transparent_witness:
  "fst (findWebhook True GET ''A/1/posts'' (foldl hook_step newHooks [Store postsHook, Find GET ''A/1/posts''])) =
   fst (findWebhook False GET ''A/1/posts'' (foldl hook_step newHooks [Store postsHook, Find GET ''A/1/posts'']))"
  by (rule cache_transparent [OF refl]) simp

section \<open>Conflicts\<close>

text \<open>The webhook of another workflow that serves a request.\<close>

definition foreign :: "string \<Rightarrow> hooks \<Rightarrow> IWebhookData \<Rightarrow> bool" where
  "foreign workflowId h webhook \<longleftrightarrow> (case fst (findWebhook False (wd_httpMethod webhook) (getWebhookPath webhook) h) of
     None \<Rightarrow> False | Some p \<Rightarrow> wh_workflowId p \<noteq> workflowId)"

lemma find_same_db: "h_db (snd (findWebhook up m path h)) = h_db h"
  by (simp add: findWebhook_def findCached_def Let_def split: option.split)

lemma foreign_same_db: "h_db g = h_db h \<Longrightarrow> foreign workflowId g webhook = foreign workflowId h webhook"
  by (simp add: foreign_def findWebhook_def findCached_def Let_def split: option.split)

lemma conflictLoop_none:
  "coherent h \<Longrightarrow> fst (conflictLoop workflowId ws processed h) = [] \<Longrightarrow>
    distinct (map (\<lambda>x. webhookToKey (snd x)) ws) \<and> (\<lambda>x. webhookToKey (snd x)) ` set ws \<inter> dom (map_of processed) = {} \<and>
    (\<forall>x \<in> set ws. CHR '':'' \<notin> set (getWebhookPath (snd x)) \<longrightarrow> \<not> foreign workflowId h (snd x))"
proof (induction ws arbitrary: processed h)
  case (Cons x ws)
  obtain node w where x: "x = (node, w)" by (cases x)
  obtain found g where find: "findWebhook True (wd_httpMethod w) (getWebhookPath w) h = (found, g)"
    by (cases "findWebhook True (wd_httpMethod w) (getWebhookPath w) h")
  have none: "map_of processed (webhookToKey w) = None"
    using Cons.prems(2) x by (auto split: option.splits)
  with Cons.prems(2) x find have rest: "fst (conflictLoop workflowId ws (AList.update (webhookToKey w) w processed) g) = []"
      and own: "\<forall>p. found = Some p \<longrightarrow> wh_workflowId p = workflowId"
    by (auto split: option.splits if_splits)
  have g: "coherent g" "h_db g = h_db h"
    using coherent_find [OF Cons.prems(1), of "wd_httpMethod w" "getWebhookPath w"]
      find_same_db [of True "wd_httpMethod w" "getWebhookPath w" h] find by simp_all
  have own_path: "\<not> foreign workflowId h w" if "CHR '':'' \<notin> set (getWebhookPath w)"
    using find_coherent [OF Cons.prems(1) that, of "wd_httpMethod w"] find own by (simp add: foreign_def split: option.split)
  have dom: "dom (map_of (AList.update (webhookToKey w) w processed)) = insert (webhookToKey w) (dom (map_of processed))"
    by (auto simp: update_conv' split: if_splits)
  have keys: "(\<lambda>x. webhookToKey (snd x)) ` set ws \<inter> insert (webhookToKey w) (dom (map_of processed)) = {}"
    using Cons.IH [OF g(1) rest, THEN conjunct2, THEN conjunct1] unfolding dom by (simp only:)
  have "\<forall>x \<in> set ws. CHR '':'' \<notin> set (getWebhookPath (snd x)) \<longrightarrow> \<not> foreign workflowId h (snd x)"
    using Cons.IH [OF g(1) rest, THEN conjunct2, THEN conjunct2] by (simp only: foreign_same_db [OF g(2)])
  moreover have "distinct (map (\<lambda>x. webhookToKey (snd x)) ws)" by (rule Cons.IH [OF g(1) rest, THEN conjunct1])
  ultimately show ?case using none keys own_path by (auto simp: x)
qed simp

text \<open>If no conflict is reported, the webhooks of the workflow differ in method or path, and none of them, if its path has no
  variable, is served by another workflow.\<close>

theorem findWebhookConflicts_none:
  assumes "h = foldl hook_step newHooks es"
    and "fst (findWebhookConflicts workflowId checkEntries h) = []"
  defines "webhooks \<equiv> concat (map snd checkEntries)"
  shows "distinct (map webhookToKey webhooks) \<and>
    (\<forall>w \<in> set webhooks. CHR '':'' \<notin> set (getWebhookPath w) \<longrightarrow> \<not> foreign workflowId h w)"
proof -
  let ?ws = "concat (map (\<lambda>(node, webhooks). map (Pair node) webhooks) checkEntries)"
  have "map snd ?ws = webhooks" unfolding webhooks_def by (induction checkEntries) (auto simp: comp_def)
  moreover have "distinct (map webhookToKey (map snd ?ws)) \<and>
      (\<forall>w \<in> set (map snd ?ws). CHR '':'' \<notin> set (getWebhookPath w) \<longrightarrow> \<not> foreign workflowId h w)"
    using conflictLoop_none [of h workflowId ?ws "[]"] coherent_run [of es] assms(1,2)
    by (auto simp: findWebhookConflicts_def comp_def)
  ultimately show ?thesis by simp
qed

definition userWebhook :: "string \<Rightarrow> string \<Rightarrow> IWebhookData" where
  "userWebhook workflowId i = \<lparr>wd_httpMethod = GET, wd_node = ''Webhook'', wd_path = ''user/:id'', wd_workflowId = workflowId,
     wd_webhookId = Some i\<rparr>"

theorem findWebhookConflicts_none_witness:
  "distinct (map webhookToKey [userWebhook ''2'' ''B'', (userWebhook ''2'' ''B'')\<lparr>wd_path := ''users''\<rparr>])"
proof -
  have "fst (findWebhookConflicts ''2'' [(''Webhook'', [userWebhook ''2'' ''B'', (userWebhook ''2'' ''B'')\<lparr>wd_path := ''users''\<rparr>])]
      (foldl hook_step newHooks [])) = []" by code_simp
  from findWebhookConflicts_none [OF refl this] show ?thesis by simp
qed

text \<open>Two workflows may have the same dynamic path, with different webhook ids. No conflict is reported for the second, and
  the primary key lets it replace the first, which is not found any more.\<close>

definition firstUser :: hooks where
  "firstUser = storeWebhook True (webhookEntity (userWebhook ''1'' ''A'') (Some ''A'')) newHooks"

definition bothUsers :: hooks where
  "bothUsers = storeWebhook True (webhookEntity (userWebhook ''2'' ''B'') (Some ''B'')) firstUser"

theorem dynamic_path_is_replaced:
  "map_option wh_workflowId (fst (findWebhook True GET ''A/user/5'' firstUser)) = Some ''1'' \<and>
    fst (findWebhookConflicts ''2'' [(''Webhook'', [userWebhook ''2'' ''B''])] firstUser) = [] \<and>
    fst (findWebhook True GET ''A/user/5'' bothUsers) = None"
  by code_simp

end
