(* ===== verification/JsValues.thy ===== *)
theory JsValues
  imports Prelude Complex_Main
begin

text \<open>
  Values of JavaScript as they are in the parameters of nodes, and what the language does with them: their type, when they
  count as true, the properties of objects, and how texts are read as numbers.

  Numbers are rationals, infinities and NaN; there is no rounding. \<open>JDate\<close> is a valid \<open>DateTime\<close> of luxon, \<open>JSDate\<close> a
  \<open>Date\<close>, which may be invalid; both hold milliseconds.
\<close>

section \<open>Values\<close>

datatype jsnum = NaN | MinusInf | Fin rat | PlusInf

datatype jsval =
    JUndefined
  | JNull
  | JBool bool
  | JNum jsnum
  | JStr string
  | JDate int
  | JArr "jsval list"
  | JObj "(string \<times> jsval) list"
  | JSDate "int option"

fun truthy :: "jsval \<Rightarrow> bool" where
  "truthy JUndefined = False"
| "truthy JNull = False"
| "truthy (JBool b) = b"
| "truthy (JNum n) = (n \<noteq> NaN \<and> n \<noteq> Fin 0)"
| "truthy (JStr s) = (s \<noteq> [])"
| "truthy _ = True"

fun typeof :: "jsval \<Rightarrow> string" where
  "typeof JUndefined = ''undefined''"
| "typeof (JBool _) = ''boolean''"
| "typeof (JNum _) = ''number''"
| "typeof (JStr _) = ''string''"
| "typeof _ = ''object''"

fun num_less :: "jsnum \<Rightarrow> jsnum \<Rightarrow> bool" where
  "num_less (Fin a) (Fin b) = (a < b)"
| "num_less MinusInf b = (b \<noteq> NaN \<and> b \<noteq> MinusInf)"
| "num_less (Fin a) b = (b = PlusInf)"
| "num_less _ _ = False"

definition whitespace :: "char list" where
  "whitespace = [CHR '' '', CHR 0x09, CHR 0x0A, CHR 0x0B, CHR 0x0C, CHR 0x0D]"

definition blank :: "string \<Rightarrow> bool" where
  "blank s \<longleftrightarrow> (\<forall>c \<in> set s. c \<in> set whitespace)"

definition trim :: "string \<Rightarrow> string" where
  "trim s = rev (dropWhile (\<lambda>c. c \<in> set whitespace) (rev (dropWhile (\<lambda>c. c \<in> set whitespace) s)))"

lemma typeof_object: "typeof v = ''object'' \<longleftrightarrow> v = JNull \<or> (\<exists>t. v = JDate t) \<or> (\<exists>xs. v = JArr xs) \<or> (\<exists>ps. v = JObj ps) \<or> (\<exists>t. v = JSDate t)"
  by (cases v) simp_all

section \<open>Objects\<close>

definition prop_of :: "jsval \<Rightarrow> string \<Rightarrow> jsval" where
  "prop_of v name = (case v of JObj ps \<Rightarrow> (case map_of ps name of Some x \<Rightarrow> x | None \<Rightarrow> JUndefined) | _ \<Rightarrow> JUndefined)"

definition prop_throws :: "jsval \<Rightarrow> string \<Rightarrow> jsval res" where
  "prop_throws v name = (if v = JUndefined \<or> v = JNull then Inl TypeError else Inr (prop_of v name))"

definition entries :: "jsval \<Rightarrow> (string \<times> jsval) list" where
  "entries v = (case v of
       JObj ps \<Rightarrow> ps
     | JArr xs \<Rightarrow> zip (map show_nat [0..<length xs]) xs
     | JStr s \<Rightarrow> zip (map show_nat [0..<length s]) (map (\<lambda>c. JStr [c]) s)
     | _ \<Rightarrow> [])"

definition keysOf :: "jsval \<Rightarrow> string list" where
  "keysOf v = map fst (entries v)"

definition isArray :: "jsval \<Rightarrow> bool" where
  "isArray v = (case v of JArr _ \<Rightarrow> True | _ \<Rightarrow> False)"

definition isPlainObject :: "jsval \<Rightarrow> bool" where
  "isPlainObject v = (case v of JObj _ \<Rightarrow> True | _ \<Rightarrow> False)"

definition iterate :: "jsval \<Rightarrow> jsval list res" where
  "iterate v = (case v of JArr xs \<Rightarrow> Inr xs | JStr s \<Rightarrow> Inr (map (\<lambda>c. JStr [c]) s) | _ \<Rightarrow> Inl TypeError)"

definition assign :: "(string, jsval) jsmap \<Rightarrow> jsval \<Rightarrow> (string, jsval) jsmap" where
  "assign target source = foldl (\<lambda>m (k, v). AList.update k v m) target (entries source)"

lemma isArray_iff: "isArray v \<longleftrightarrow> (\<exists>xs. v = JArr xs)"
  by (simp add: isArray_def split: jsval.split)

section \<open>Numbers\<close>

text \<open>Decimal literals with an exponent, and digits behind a prefix for another base.\<close>

definition digit_value :: "char \<Rightarrow> nat" where
  "digit_value c = (let n = (of_char c :: nat) in
     if 48 \<le> n \<and> n \<le> 57 then n - 48 else if 97 \<le> n \<and> n \<le> 122 then n - 87 else if 65 \<le> n \<and> n \<le> 90 then n - 55 else 99)"

definition is_digit :: "char \<Rightarrow> bool" where
  "is_digit c \<longleftrightarrow> digit_value c < 10"

definition number_of_digits :: "nat \<Rightarrow> string \<Rightarrow> nat" where
  "number_of_digits base ds = foldl (\<lambda>n c. n * base + digit_value c) 0 ds"

definition exponent :: "string \<Rightarrow> int option" where
  "exponent s = (case s of
       [] \<Rightarrow> Some 0
     | e # r \<Rightarrow>
         if e = CHR ''e'' \<or> e = CHR ''E'' then
           (let (sign, ds) = (case r of c # r' \<Rightarrow> if c = CHR ''-'' then (-1, r') else if c = CHR ''+'' then (1, r') else (1, r) | [] \<Rightarrow> (1, r))
            in if ds \<noteq> [] \<and> list_all is_digit ds then Some (sign * int (number_of_digits 10 ds)) else None)
         else None)"

definition scale :: "rat \<Rightarrow> int \<Rightarrow> rat" where
  "scale q e = (if e \<ge> 0 then q * 10 ^ nat e else q / 10 ^ nat (- e))"

definition decimal :: "string \<Rightarrow> rat option" where
  "decimal s =
     (let ip = takeWhile is_digit s; r = dropWhile is_digit s;
          (fp, r) = (case r of c # r' \<Rightarrow> if c = CHR ''.'' then (takeWhile is_digit r', dropWhile is_digit r') else ([], r) | [] \<Rightarrow> ([], r))
      in if ip @ fp = [] then None
         else map_option (\<lambda>e. scale (of_nat (number_of_digits 10 (ip @ fp))) (e - int (length fp))) (exponent r))"

definition radixOf :: "string \<Rightarrow> (nat \<times> string) option" where
  "radixOf s = (case s of
       z # p # ds \<Rightarrow> if z \<noteq> CHR ''0'' \<or> ds = [] then None
         else if p = CHR ''x'' \<or> p = CHR ''X'' then Some (16, ds)
         else if p = CHR ''o'' \<or> p = CHR ''O'' then Some (8, ds)
         else if p = CHR ''b'' \<or> p = CHR ''B'' then Some (2, ds)
         else None
     | _ \<Rightarrow> None)"

definition negative :: "jsnum \<Rightarrow> jsnum" where
  "negative n = (case n of NaN \<Rightarrow> NaN | MinusInf \<Rightarrow> PlusInf | PlusInf \<Rightarrow> MinusInf | Fin q \<Rightarrow> Fin (- q))"

definition unsignedNumber :: "string \<Rightarrow> jsnum" where
  "unsignedNumber s = (if s = ''Infinity'' then PlusInf else case decimal s of Some q \<Rightarrow> Fin q | None \<Rightarrow> NaN)"

definition numberOfText :: "string \<Rightarrow> jsnum" where
  "numberOfText s = (let s = trim s in case s of
       [] \<Rightarrow> Fin 0
     | c # r \<Rightarrow>
         if c = CHR ''-'' then negative (unsignedNumber r)
         else if c = CHR ''+'' then unsignedNumber r
         else case radixOf s of
             Some (base, ds) \<Rightarrow> if list_all (\<lambda>d. digit_value d < base) ds then Fin (of_nat (number_of_digits base ds)) else NaN
           | None \<Rightarrow> unsignedNumber s)"

text \<open>The conversions to texts and numbers. The digits of a number and the text of a date are given.\<close>

record textEnv =
  te_number :: "jsnum \<Rightarrow> string"
  te_date :: "jsval \<Rightarrow> string"

fun joinWith :: "string \<Rightarrow> string list \<Rightarrow> string" where
  "joinWith sep [] = []"
| "joinWith sep [s] = s"
| "joinWith sep (s # t # ss) = s @ sep @ joinWith sep (t # ss)"

fun asString :: "textEnv \<Rightarrow> jsval \<Rightarrow> string" where
  "asString te JUndefined = ''undefined''"
| "asString te JNull = ''null''"
| "asString te (JBool b) = (if b then ''true'' else ''false'')"
| "asString te (JNum n) = te_number te n"
| "asString te (JStr s) = s"
| "asString te (JArr xs) = joinWith '','' (map (\<lambda>x. if x = JUndefined \<or> x = JNull then [] else asString te x) xs)"
| "asString te (JObj ps) = ''[object Object]''"
| "asString te (JDate t) = te_date te (JDate t)"
| "asString te (JSDate t) = te_date te (JSDate t)"

definition asNumber :: "textEnv \<Rightarrow> jsval \<Rightarrow> jsnum" where
  "asNumber te v = (case v of
       JUndefined \<Rightarrow> NaN
     | JNull \<Rightarrow> Fin 0
     | JBool b \<Rightarrow> Fin (if b then 1 else 0)
     | JNum n \<Rightarrow> n
     | JDate t \<Rightarrow> Fin (of_int t)
     | JSDate t \<Rightarrow> (case t of Some t \<Rightarrow> Fin (of_int t) | None \<Rightarrow> NaN)
     | _ \<Rightarrow> numberOfText (asString te v))"

lemma numbers_of_texts:
  "numberOfText '' 12.5e1 '' = Fin 125" "numberOfText ''-.5'' = Fin (- 1 / 2)" "numberOfText ''0x1F'' = Fin 31"
  "numberOfText '''' = Fin 0" "numberOfText ''1,5'' = NaN" "numberOfText ''.'' = NaN" "numberOfText ''1e'' = NaN"
  "numberOfText ''-Infinity'' = MinusInf" "numberOfText ''-0x1'' = NaN"
  by code_simp+

end
