(* ===== verification/TypeValidation.thy ===== *)
theory TypeValidation
  imports JsValues "HOL-Library.Sublist"
begin

text \<open>
  The validation of a value against a type, \<open>packages/workflow/src/type-validation.ts\<close>: each type has a function that returns the
  parsed value or throws, and \<open>validateFieldType\<close> answers with the value or a message.

  Parameters are \<open>JSON.parse\<close> and \<open>JSON.stringify\<close>, the parser of JavaScript objects behind \<open>jsonParse\<close>, the formats of
  luxon, \<open>isObject\<close> of lodash, and the protocol of a \<open>URL\<close>.

  Theorems: a value that has been validated is valid again, strictly, and stays what it is; which fields of a form are accepted,
  and that texts are escaped unless they have to be converted.
\<close>

record typeEnv = textEnv +
  tv_JSON_parse :: "string \<Rightarrow> jsval option"
  tv_JSON_stringify :: "jsval \<Rightarrow> string"
  tv_parseJSObject :: "string \<Rightarrow> jsval option"
  tv_dateFormats :: "(string \<Rightarrow> int option) list"
  tv_isObject :: "jsval \<Rightarrow> bool"
  tv_protocol :: "string \<Rightarrow> string option"

definition text_of :: "typeEnv \<Rightarrow> jsval \<Rightarrow> string" where
  "text_of env v = asString (textEnv.truncate env) v"

definition number_of :: "typeEnv \<Rightarrow> jsval \<Rightarrow> jsnum" where
  "number_of env v = asNumber (textEnv.truncate env) v"

definition lowerChar :: "char \<Rightarrow> char" where
  "lowerChar c = (let n = (of_char c :: nat) in if 65 \<le> n \<and> n \<le> 90 then char_of (n + 32) else c)"

definition toLowerCase :: "string \<Rightarrow> string" where
  "toLowerCase s = map lowerChar s"

text \<open>Comparisons: two texts by their characters, other values as numbers. Lists and objects count as their texts.\<close>

fun text_less :: "string \<Rightarrow> string \<Rightarrow> bool" where
  "text_less [] ys = (ys \<noteq> [])"
| "text_less (x # xs) [] = False"
| "text_less (x # xs) (y # ys) = (if x = y then text_less xs ys else of_char x < (of_char y :: nat))"

definition toPrimitive :: "typeEnv \<Rightarrow> jsval \<Rightarrow> jsval" where
  "toPrimitive env v = (case v of JArr _ \<Rightarrow> JStr (text_of env v) | JObj _ \<Rightarrow> JStr (text_of env v) | _ \<Rightarrow> v)"

definition js_less :: "typeEnv \<Rightarrow> jsval \<Rightarrow> jsval \<Rightarrow> bool" where
  "js_less env a b = (case (toPrimitive env a, toPrimitive env b) of
       (JStr x, JStr y) \<Rightarrow> text_less x y
     | (x, y) \<Rightarrow> num_less (number_of env x) (number_of env y))"

definition js_atMost :: "typeEnv \<Rightarrow> jsval \<Rightarrow> jsval \<Rightarrow> bool" where
  "js_atMost env a b = (case (toPrimitive env a, toPrimitive env b) of
       (JStr x, JStr y) \<Rightarrow> \<not> text_less y x
     | (x, y) \<Rightarrow> number_of env x \<noteq> NaN \<and> number_of env y \<noteq> NaN \<and> \<not> num_less (number_of env y) (number_of env x))"

section \<open>Parsing\<close>

text \<open>None stands for an error that is thrown.\<close>

definition tryToParseNumber :: "typeEnv \<Rightarrow> jsval \<Rightarrow> jsval option" where
  "tryToParseNumber env v = (if number_of env v = NaN then None else Some (JNum (number_of env v)))"

definition tryToParseString :: "typeEnv \<Rightarrow> jsval \<Rightarrow> string" where
  "tryToParseString env v =
     (if typeof v = ''object'' then tv_JSON_stringify env v else if v = JUndefined then [] else text_of env v)"

definition is_letter :: "char \<Rightarrow> bool" where
  "is_letter c \<longleftrightarrow> (let n = (of_char c :: nat) in 65 \<le> n \<and> n \<le> 90 \<or> 97 \<le> n \<and> n \<le> 122)"

definition alphanumeric :: "string \<Rightarrow> bool" where
  "alphanumeric s = (case s of [] \<Rightarrow> False
     | c # r \<Rightarrow> (is_letter c \<or> c = CHR ''_'') \<and> list_all (\<lambda>d. is_letter d \<or> d = CHR ''_'' \<or> is_digit d) r)"

definition tryToParseAlphanumericString :: "typeEnv \<Rightarrow> jsval \<Rightarrow> jsval option" where
  "tryToParseAlphanumericString env v =
     (let parsed = tryToParseString env v in if alphanumeric parsed then Some (JStr parsed) else None)"

definition booleanText :: "jsval \<Rightarrow> bool option" where
  "booleanText v = (case v of
       JStr s \<Rightarrow> if toLowerCase s = ''true'' then Some True else if toLowerCase s = ''false'' then Some False else None
     | _ \<Rightarrow> None)"

definition tryToParseBoolean :: "typeEnv \<Rightarrow> jsval \<Rightarrow> jsval option" where
  "tryToParseBoolean env v = (case v of
       JBool b \<Rightarrow> Some (JBool b)
     | _ \<Rightarrow>
         (case booleanText v of
            Some b \<Rightarrow> Some (JBool b)
          | None \<Rightarrow>
              if \<not> (case v of JStr s \<Rightarrow> trim s = [] | _ \<Rightarrow> False) then
                (if number_of env v = Fin 0 then Some (JBool False)
                 else if number_of env v = Fin 1 then Some (JBool True) else None)
              else None))"

text \<open>The formats are tried in their order; the last is the one of \<open>Date.parse\<close>.\<close>

fun first_format :: "(string \<Rightarrow> int option) list \<Rightarrow> string \<Rightarrow> int option" where
  "first_format [] s = None"
| "first_format (f # fs) s = (case f s of Some t \<Rightarrow> Some t | None \<Rightarrow> first_format fs s)"

definition tryToParseDateTime :: "typeEnv \<Rightarrow> jsval \<Rightarrow> jsval option" where
  "tryToParseDateTime env v = (case v of
       JDate t \<Rightarrow> Some (JDate t)
     | JSDate (Some t) \<Rightarrow> Some (JDate t)
     | _ \<Rightarrow> map_option JDate (first_format (tv_dateFormats env) (trim (text_of env v))))"

text \<open>A regular expression as the list of the rests it may leave.\<close>

type_synonym matcher = "string \<Rightarrow> string list"

definition digits_m :: "nat \<Rightarrow> matcher" where
  "digits_m n s = (if length (take n s) = n \<and> list_all is_digit (take n s) then [drop n s] else [])"

definition char_m :: "char list \<Rightarrow> matcher" where
  "char_m cs s = (case s of [] \<Rightarrow> [] | c # r \<Rightarrow> if c \<in> set cs then [r] else [])"

definition seq_m :: "matcher \<Rightarrow> matcher \<Rightarrow> matcher" where
  "seq_m p q s = concat (map q (p s))"

definition opt_m :: "matcher \<Rightarrow> matcher" where
  "opt_m p s = s # p s"

definition colon_m :: matcher where
  "colon_m = seq_m (char_m '':'') (digits_m 2)"

definition time_m :: matcher where
  "time_m = seq_m (digits_m 2) (seq_m colon_m (seq_m (opt_m colon_m)
     (seq_m (opt_m (seq_m (char_m ''-+'') (digits_m 4)))
       (opt_m (seq_m (char_m ''-+'') (seq_m (\<lambda>s. digits_m 1 s @ digits_m 2 s) (opt_m colon_m)))))))"

definition tryToParseTime :: "typeEnv \<Rightarrow> jsval \<Rightarrow> jsval option" where
  "tryToParseTime env v = (if [] \<in> set (time_m (text_of env v)) then Some (JStr (text_of env v)) else None)"

definition doubleQuotes :: "string \<Rightarrow> string" where
  "doubleQuotes s = map (\<lambda>c. if c = CHR 0x27 then CHR 0x22 else c) s"

definition tryToParseArray :: "typeEnv \<Rightarrow> jsval \<Rightarrow> jsval option" where
  "tryToParseArray env v =
     (if isArray v then Some v
      else case (case tv_JSON_parse env (text_of env v) of
          Some x \<Rightarrow> Some x | None \<Rightarrow> tv_JSON_parse env (doubleQuotes (text_of env v))) of
        None \<Rightarrow> None
      | Some parsed \<Rightarrow> if isArray parsed then Some parsed else None)"

definition jsonParse :: "typeEnv \<Rightarrow> string \<Rightarrow> jsval option" where
  "jsonParse env s = (case tv_JSON_parse env s of Some v \<Rightarrow> Some v | None \<Rightarrow> tv_parseJSObject env s)"

definition tryToParseObject :: "typeEnv \<Rightarrow> jsval \<Rightarrow> jsval option" where
  "tryToParseObject env v =
     (if truthy v \<and> typeof v = ''object'' \<and> \<not> isArray v then Some v
      else case jsonParse env (text_of env v) of
          None \<Rightarrow> None
        | Some x \<Rightarrow> if typeof x \<noteq> ''object'' \<or> isArray x then None else Some x)"

definition isBinaryValue :: "jsval \<Rightarrow> bool" where
  "isBinaryValue v \<longleftrightarrow> typeof v = ''object'' \<and> v \<noteq> JNull \<and> ''mimeType'' \<in> set (keysOf v) \<and>
     (''data'' \<in> set (keysOf v) \<or> ''id'' \<in> set (keysOf v))"

definition tryToParseBinary :: "jsval \<Rightarrow> jsval option" where
  "tryToParseBinary v = (if \<not> truthy v \<or> typeof v \<noteq> ''object'' \<or> isArray v \<or> \<not> isBinaryValue v then None else Some v)"

definition ALLOWED_URL_PROTOCOLS :: "string list" where
  "ALLOWED_URL_PROTOCOLS = [''http:'', ''https:'', ''ftp:'', ''file:'']"

definition withProtocol :: "jsval \<Rightarrow> jsval" where
  "withProtocol v = (case v of JStr s \<Rightarrow> if \<not> sublist ''://'' s then JStr (''https://'' @ s) else v | _ \<Rightarrow> v)"

definition tryToParseUrl :: "typeEnv \<Rightarrow> jsval \<Rightarrow> jsval option" where
  "tryToParseUrl env v =
     (let v = withProtocol v
      in case tv_protocol env (text_of env v) of
          None \<Rightarrow> None
        | Some protocol \<Rightarrow> if protocol \<in> set ALLOWED_URL_PROTOCOLS then Some (JStr (text_of env v)) else None)"

definition jwtChar :: "char \<Rightarrow> bool" where
  "jwtChar c \<longleftrightarrow> is_letter c \<or> is_digit c \<or> c \<in> set ''-_''"

definition jwtPattern :: "string \<Rightarrow> bool" where
  "jwtPattern s = (case dropWhile jwtChar s of
       [] \<Rightarrow> False
     | c # r \<Rightarrow> takeWhile jwtChar s \<noteq> [] \<and> c = CHR ''.'' \<and>
         (case dropWhile jwtChar r of
            [] \<Rightarrow> False
          | d # t \<Rightarrow> takeWhile jwtChar r \<noteq> [] \<and> d = CHR ''.'' \<and> list_all (\<lambda>e. jwtChar e \<or> e \<in> set ''.+/='') t))"

definition tryToParseJwt :: "typeEnv \<Rightarrow> jsval \<Rightarrow> jsval option" where
  "tryToParseJwt env v = (if truthy v \<and> jwtPattern (text_of env v) then Some (JStr (text_of env v)) else None)"

section \<open>Fields of forms\<close>

definition ALLOWED_FORM_FIELDS_KEYS :: "string list" where
  "ALLOWED_FORM_FIELDS_KEYS = [''fieldLabel'', ''fieldType'', ''placeholder'', ''defaultValue'', ''fieldOptions'', ''multiselect'',
     ''multipleFiles'', ''acceptFileTypes'', ''formatDate'', ''requiredField'', ''fieldValue'', ''elementName'', ''html'', ''fieldName'',
     ''limitSelection'', ''numberOfSelections'', ''minSelections'', ''maxSelections'']"

definition ALLOWED_FIELD_TYPES :: "string list" where
  "ALLOWED_FIELD_TYPES = [''date'', ''dropdown'', ''email'', ''file'', ''number'', ''password'', ''text'', ''textarea'', ''checkbox'',
     ''radio'', ''html'', ''hiddenField'']"

text \<open>An error with a message of its own, or any other\<close>

datatype formError = FormError string | OtherError

definition quoted :: "string \<Rightarrow> string" where
  "quoted s = [CHR 0x27] @ s @ [CHR 0x27]"

definition escapeHtml :: "string \<Rightarrow> string" where
  "escapeHtml s = concat (map (\<lambda>c. if c = CHR ''<'' then ''&lt;'' else if c = CHR ''>'' then ''&gt;'' else [c]) s)"

definition simpleType :: "jsval \<Rightarrow> bool" where
  "simpleType v \<longleftrightarrow> typeof v = ''string'' \<or> typeof v = ''number'' \<or> typeof v = ''boolean''"

definition convertField :: "typeEnv \<Rightarrow> string \<Rightarrow> jsval \<Rightarrow> jsval" where
  "convertField env k v =
     (if k \<noteq> ''fieldOptions'' \<and> \<not> simpleType v then JStr (text_of env v)
      else case v of JStr s \<Rightarrow> if k \<noteq> ''html'' then JStr (escapeHtml s) else v | _ \<Rightarrow> v)"

definition validOption :: "jsval \<Rightarrow> bool" where
  "validOption option \<longleftrightarrow> length (keysOf option) = 1 \<and> typeof (prop_of option ''option'') = ''string''"

fun checkOptions :: "nat \<Rightarrow> nat \<Rightarrow> jsval list \<Rightarrow> formError option" where
  "checkOptions index optionIndex [] = None"
| "checkOptions index optionIndex (option # options) =
     (if option = JUndefined \<or> option = JNull then Some OtherError
      else if \<not> validOption option then
        Some (FormError (''Field dropdown in field '' @ show_nat index @ '' has an invalid option '' @ show_nat optionIndex))
      else checkOptions index (Suc optionIndex) options)"

text \<open>Options given as a list are put below \<open>values\<close>.\<close>

definition optionValues :: "jsval \<Rightarrow> jsval" where
  "optionValues v = (if isArray v then JObj [(''values'', v)] else v)"

definition checkFieldOptions :: "nat \<Rightarrow> jsval \<Rightarrow> formError option" where
  "checkFieldOptions index v =
     (if v = JNull then Some OtherError
      else if typeof v \<noteq> ''object'' \<or> \<not> truthy (prop_of v ''values'') then
        Some (FormError (''Field dropdown in field '' @ show_nat index @ '' does has no '' @ quoted ''values'' @
          '' property that contain an array of options''))
      else case prop_of v ''values'' of JArr options \<Rightarrow> checkOptions index 0 options | _ \<Rightarrow> Some OtherError)"

definition formKey :: "typeEnv \<Rightarrow> nat \<Rightarrow> (string, jsval) jsmap \<Rightarrow> string \<Rightarrow> formError + (string, jsval) jsmap" where
  "formKey env index field k =
     (if k \<notin> set ALLOWED_FORM_FIELDS_KEYS then
        Inl (FormError (''Key '' @ quoted k @ '' in field '' @ show_nat index @ '' is not valid for form fields''))
      else let v = convertField env k (prop_of (JObj field) k)
        in if k = ''fieldType'' \<and> v \<notin> set (map JStr ALLOWED_FIELD_TYPES) then
             Inl (FormError (''Field type '' @ quoted (text_of env v) @ '' in field '' @ show_nat index @ '' is not valid for form fields''))
           else if k = ''fieldOptions'' then
             (case checkFieldOptions index (optionValues v) of
                Some e \<Rightarrow> Inl e | None \<Rightarrow> Inr (AList.update k (optionValues v) field))
           else Inr (AList.update k v field))"

fun formKeys :: "typeEnv \<Rightarrow> nat \<Rightarrow> (string, jsval) jsmap \<Rightarrow> string list \<Rightarrow> formError + (string, jsval) jsmap" where
  "formKeys env index field [] = Inr field"
| "formKeys env index field (k # ks) = (case formKey env index field k of Inl e \<Rightarrow> Inl e | Inr field \<Rightarrow> formKeys env index field ks)"

text \<open>A text or a list has its indexes as keys, which are not allowed; a number has none.\<close>

definition formField :: "typeEnv \<Rightarrow> nat \<Rightarrow> jsval \<Rightarrow> formError + jsval" where
  "formField env index field = (case field of
       JUndefined \<Rightarrow> Inl OtherError
     | JNull \<Rightarrow> Inl OtherError
     | JObj ps \<Rightarrow> (case formKeys env index ps (map fst ps) of Inl e \<Rightarrow> Inl e | Inr ps \<Rightarrow> Inr (JObj ps))
     | _ \<Rightarrow> (case keysOf field of
           [] \<Rightarrow> Inr field
         | k # _ \<Rightarrow> Inl (FormError (''Key '' @ quoted k @ '' in field '' @ show_nat index @ '' is not valid for form fields''))))"

fun formFields :: "typeEnv \<Rightarrow> nat \<Rightarrow> jsval list \<Rightarrow> formError + jsval list" where
  "formFields env index [] = Inr []"
| "formFields env index (field # rest) = (case formField env index field of
       Inl e \<Rightarrow> Inl e
     | Inr f \<Rightarrow> (case formFields env (Suc index) rest of Inl e \<Rightarrow> Inl e | Inr fs \<Rightarrow> Inr (f # fs)))"

definition tryToParseJsonToFormFields :: "typeEnv \<Rightarrow> jsval \<Rightarrow> string + jsval" where
  "tryToParseJsonToFormFields env v =
     (case (case jsonParse env (text_of env v) of Some (JArr rawFields) \<Rightarrow> formFields env 0 rawFields | _ \<Rightarrow> Inl OtherError) of
        Inr fs \<Rightarrow> Inr (JArr fs)
      | Inl (FormError m) \<Rightarrow> Inl m
      | Inl OtherError \<Rightarrow> Inl ''Value is not valid JSON'')"

section \<open>Validation\<close>

definition getValueDescription :: "typeEnv \<Rightarrow> jsval \<Rightarrow> string" where
  "getValueDescription env v =
     (if typeof v = ''object'' then (if v = JNull then quoted ''null'' else if isArray v then ''array'' else ''object'')
      else quoted (text_of env v))"

record validateOptions =
  vo_valueOptions :: "jsval list"
  vo_strict :: bool
  vo_parseStrings :: bool

datatype validationResult = Valid "jsval option" | Invalid string

definition orInvalid :: "string \<Rightarrow> jsval option \<Rightarrow> validationResult" where
  "orInvalid message r = (case r of Some v \<Rightarrow> Valid (Some v) | None \<Rightarrow> Invalid message)"

definition validateFieldType :: "typeEnv \<Rightarrow> string \<Rightarrow> jsval \<Rightarrow> string \<Rightarrow> validateOptions \<Rightarrow> validationResult" where
  "validateFieldType env fieldName v fieldType options =
     (if v = JNull \<or> v = JUndefined then Valid None
      else let strict = vo_strict options; t = toLowerCase fieldType;
        message = quoted fieldName @ '' expects a '' @ fieldType @ '' but we got '' @ getValueDescription env v
      in if t = ''string'' then
           (if \<not> vo_parseStrings options then Valid (Some v)
            else if strict \<and> typeof v \<noteq> ''string'' then Invalid message
            else Valid (Some (JStr (tryToParseString env v))))
         else if t = ''string-alphanumeric'' then
           orInvalid ''Value is not a valid alphanumeric string, only letters, numbers and underscore allowed''
             (tryToParseAlphanumericString env v)
         else if t = ''number'' then
           (if strict \<and> typeof v \<noteq> ''number'' then Invalid message else orInvalid message (tryToParseNumber env v))
         else if t = ''boolean'' then
           (if strict \<and> typeof v \<noteq> ''boolean'' then Invalid message else orInvalid message (tryToParseBoolean env v))
         else if t = ''datetime'' then
           orInvalid (message @ '' <br/><br/> Consider using <a href=\"https://moment.github.io/luxon/api-docs/index.html#datetimefromformat\" target=\"_blank\"><code>DateTime.fromFormat</code></a> to work with custom date formats.'')
             (tryToParseDateTime env v)
         else if t = ''time'' then
           orInvalid (quoted fieldName @ '' expects time (hh:mm:(:ss)) but we got '' @ getValueDescription env v @ ''.'') (tryToParseTime env v)
         else if t = ''binary'' then
           orInvalid (message @ ''. Make sure the value is a valid binary data object with '' @ quoted ''mimeType'' @ '' and '' @
             quoted ''data'' @ '' or '' @ quoted ''id'' @ '' property.'') (tryToParseBinary v)
         else if t = ''object'' then
           (if strict \<and> \<not> tv_isObject env v then Invalid message else orInvalid message (tryToParseObject env v))
         else if t = ''array'' then
           (if strict \<and> \<not> isArray v then Invalid message else orInvalid message (tryToParseArray env v))
         else if t = ''options'' then
           (if v \<notin> set (vo_valueOptions options) then
              Invalid (quoted fieldName @ '' expects one of the following values: ['' @
                joinWith '', '' (map (text_of env) (vo_valueOptions options)) @ ''] but we got '' @ getValueDescription env v)
            else Valid (Some v))
         else if t = ''url'' then orInvalid message (tryToParseUrl env v)
         else if t = ''jwt'' then orInvalid ''Value is not a valid JWT token'' (tryToParseJwt env v)
         else if t = ''form-fields'' then
           (case tryToParseJsonToFormFields env v of Inr f \<Rightarrow> Valid (Some f) | Inl m \<Rightarrow> Invalid m)
         else Valid (Some v))"

section \<open>A validated value is valid\<close>

lemma text_of_JStr [simp]: "text_of env (JStr s) = s"
  by (simp add: text_of_def)

lemma number_of_JNum [simp]: "number_of env (JNum n) = n"
  by (simp add: number_of_def asNumber_def)

lemma number_again: "tryToParseNumber env v = Some w \<Longrightarrow> typeof w = ''number'' \<and> tryToParseNumber env w = Some w"
  by (auto simp: tryToParseNumber_def split: if_splits)

lemma string_again: "tryToParseString env (JStr s) = s"
  by (simp add: tryToParseString_def)

lemma alphanumeric_again:
  "tryToParseAlphanumericString env v = Some w \<Longrightarrow> tryToParseAlphanumericString env w = Some w \<and> w \<noteq> JUndefined"
  by (auto simp: tryToParseAlphanumericString_def string_again Let_def split: if_splits)

lemma boolean_again: "tryToParseBoolean env v = Some w \<Longrightarrow> typeof w = ''boolean'' \<and> tryToParseBoolean env w = Some w"
  by (auto simp: tryToParseBoolean_def split: jsval.splits option.splits if_splits)

lemma dateTime_again: "tryToParseDateTime env v = Some w \<Longrightarrow> \<exists>t. w = JDate t"
  by (auto simp: tryToParseDateTime_def split: jsval.splits option.splits)

lemma time_again: "tryToParseTime env v = Some w \<Longrightarrow> tryToParseTime env w = Some w \<and> w \<noteq> JUndefined"
  by (auto simp: tryToParseTime_def split: if_splits)

lemma array_again: "tryToParseArray env v = Some w \<Longrightarrow> isArray w \<and> tryToParseArray env w = Some w"
  by (auto simp: tryToParseArray_def split: if_splits option.splits)

lemma object_again:
  "tryToParseObject env v = Some w \<Longrightarrow> w \<noteq> JNull \<Longrightarrow> typeof w = ''object'' \<and> tryToParseObject env w = Some w"
  by (auto simp: tryToParseObject_def typeof_object isArray_def split: if_splits option.splits)

lemma binary_again: "tryToParseBinary v = Some w \<Longrightarrow> tryToParseBinary w = Some w \<and> w = v"
  by (auto simp: tryToParseBinary_def split: if_splits)

lemma url_again: "tryToParseUrl env (JStr s) = Some w \<Longrightarrow> tryToParseUrl env w = Some w \<and> w \<noteq> JUndefined"
proof -
  have "sublist ''://'' (''https://'' @ s)" unfolding sublist_def
    by (rule exI [of _ "''https''"], rule exI [of _ s]) simp
  then show "tryToParseUrl env (JStr s) = Some w \<Longrightarrow> tryToParseUrl env w = Some w \<and> w \<noteq> JUndefined"
    by (auto simp: tryToParseUrl_def withProtocol_def Let_def split: if_splits option.splits)
qed

lemma jwtPattern_nonempty: "jwtPattern s \<Longrightarrow> s \<noteq> []"
  by (auto simp: jwtPattern_def)

lemma jwt_again: "tryToParseJwt env v = Some w \<Longrightarrow> tryToParseJwt env w = Some w \<and> w \<noteq> JUndefined"
  by (auto simp: tryToParseJwt_def dest: jwtPattern_nonempty split: if_splits)

lemma orInvalid_valid [simp]: "orInvalid m r = Valid (Some w) \<longleftrightarrow> r = Some w"
  by (simp add: orInvalid_def split: option.split)

lemma typeof_not_undefined: "typeof w \<noteq> ''undefined'' \<Longrightarrow> w \<noteq> JUndefined"
  by auto

text \<open>C23. A value that validation has accepted and converted is accepted again, also strictly, and is not converted any more.
  This is for all types but the fields of forms, which are read from texts, with these provisos: the converted value is not
  null (a text can be null, which is no value); an address is given as a text (a list with one text is taken for its text,
  and gets its protocol only when it is validated again); and \<open>isObject\<close> holds for objects.\<close>

theorem validated_again:
  assumes "validateFieldType env name v t options = Valid (Some w)" and "w \<noteq> JNull"
    and "toLowerCase t \<noteq> ''form-fields''" and "toLowerCase t = ''url'' \<Longrightarrow> typeof v = ''string''"
    and "\<And>x. typeof x = ''object'' \<Longrightarrow> x \<noteq> JNull \<Longrightarrow> tv_isObject env x"
  shows "validateFieldType env name w t (options\<lparr>vo_strict := True\<rparr>) = Valid (Some w)"
proof -
  have v: "v \<noteq> JNull" "v \<noteq> JUndefined" using assms(1) by (auto simp: validateFieldType_def)
  note valid = assms(1) [unfolded validateFieldType_def Let_def]
  have texts: "toLowerCase t = ''string'' \<Longrightarrow> vo_parseStrings options \<Longrightarrow> \<exists>s. w = JStr s"
    "toLowerCase t = ''string-alphanumeric'' \<Longrightarrow> tryToParseAlphanumericString env w = Some w \<and> w \<noteq> JUndefined"
    "toLowerCase t = ''time'' \<Longrightarrow> tryToParseTime env w = Some w \<and> w \<noteq> JUndefined"
    "toLowerCase t = ''jwt'' \<Longrightarrow> tryToParseJwt env w = Some w \<and> w \<noteq> JUndefined"
    using valid v alphanumeric_again [of env v w] time_again [of env v w] jwt_again [of env v w] by (auto split: if_splits)
  have simple: "toLowerCase t = ''number'' \<Longrightarrow> typeof w = ''number'' \<and> tryToParseNumber env w = Some w"
    "toLowerCase t = ''boolean'' \<Longrightarrow> typeof w = ''boolean'' \<and> tryToParseBoolean env w = Some w"
    "toLowerCase t = ''datetime'' \<Longrightarrow> \<exists>n. w = JDate n"
    using valid v number_again [of env v w] boolean_again [of env v w] dateTime_again [of env v w] by (auto split: if_splits)
  have objects: "toLowerCase t = ''object'' \<Longrightarrow> typeof w = ''object'' \<and> tryToParseObject env w = Some w"
    "toLowerCase t = ''array'' \<Longrightarrow> isArray w \<and> tryToParseArray env w = Some w"
    "toLowerCase t = ''binary'' \<Longrightarrow> tryToParseBinary w = Some w \<and> w = v"
    "toLowerCase t = ''options'' \<Longrightarrow> w \<in> set (vo_valueOptions options) \<and> w = v"
    using valid v object_again [of env v w, OF _ assms(2)] array_again [of env v w] binary_again [of v w] by (auto split: if_splits)
  have url: "toLowerCase t = ''url'' \<Longrightarrow> tryToParseUrl env w = Some w \<and> w \<noteq> JUndefined"
  proof -
    assume t: "toLowerCase t = ''url''"
    then obtain s where "v = JStr s" using assms(4) by (cases v) auto
    then show "tryToParseUrl env w = Some w \<and> w \<noteq> JUndefined" using valid t url_again by simp
  qed
  have isObject: "typeof w = ''object'' \<Longrightarrow> tv_isObject env w" using assms(2,5) by blast
  have "w \<noteq> JUndefined" using valid v texts simple objects url assms(3) by (auto simp: isArray_iff split: if_splits)
  then show ?thesis using valid texts simple objects url isObject assms(2,3) v unfolding validateFieldType_def Let_def
    by (auto simp: string_again tryToParseDateTime_def split: if_splits)
qed

section \<open>Fields of forms\<close>

lemma escapeHtml_safe: "CHR ''<'' \<notin> set (escapeHtml s) \<and> CHR ''>'' \<notin> set (escapeHtml s)"
  by (auto simp: escapeHtml_def)

lemma formKey_result:
  assumes "formKey env index field k = Inr field'" and "k \<in> set (map fst field)"
  shows "k \<in> set ALLOWED_FORM_FIELDS_KEYS \<and> map fst field' = map fst field \<and>
    (k \<noteq> ''fieldOptions'' \<longrightarrow> map_of field' k = Some (convertField env k (prop_of (JObj field) k))) \<and>
    (k = ''fieldType'' \<longrightarrow> convertField env k (prop_of (JObj field) k) \<in> JStr ` set ALLOWED_FIELD_TYPES) \<and>
    (\<forall>k'. k' \<noteq> k \<longrightarrow> map_of field' k' = map_of field k')"
proof -
  have "map fst (AList.update k v field) = map fst field" for v using assms(2) by (simp add: update_keys)
  then show ?thesis using assms(1) by (auto simp: formKey_def Let_def update_conv' split: if_splits option.splits)
qed

definition formResult :: "typeEnv \<Rightarrow> (string, jsval) jsmap \<Rightarrow> string list \<Rightarrow> (string, jsval) jsmap \<Rightarrow> bool" where
  "formResult env field ks field' \<longleftrightarrow> set ks \<subseteq> set ALLOWED_FORM_FIELDS_KEYS \<and> map fst field' = map fst field \<and>
     (\<forall>k \<in> set ks. k \<noteq> ''fieldOptions'' \<longrightarrow> map_of field' k = Some (convertField env k (prop_of (JObj field) k))) \<and>
     (\<forall>k \<in> set ks. k = ''fieldType'' \<longrightarrow> convertField env k (prop_of (JObj field) k) \<in> JStr ` set ALLOWED_FIELD_TYPES) \<and>
     (\<forall>k. k \<notin> set ks \<longrightarrow> map_of field' k = map_of field k)"

lemma formKeys_result:
  "formKeys env index field ks = Inr field' \<Longrightarrow> distinct ks \<Longrightarrow> set ks \<subseteq> set (map fst field) \<Longrightarrow> formResult env field ks field'"
proof (induction ks arbitrary: field)
  case (Cons k ks)
  obtain f where f: "formKey env index field k = Inr f" and rest: "formKeys env index f ks = Inr field'"
    using Cons.prems(1) by (auto split: sum.splits)
  have step: "k \<in> set ALLOWED_FORM_FIELDS_KEYS" "map fst f = map fst field"
    "k \<noteq> ''fieldOptions'' \<Longrightarrow> map_of f k = Some (convertField env k (prop_of (JObj field) k))"
    "k = ''fieldType'' \<Longrightarrow> convertField env k (prop_of (JObj field) k) \<in> JStr ` set ALLOWED_FIELD_TYPES"
    "\<And>k'. k' \<noteq> k \<Longrightarrow> map_of f k' = map_of field k'"
    using formKey_result [OF f] Cons.prems(3) by auto
  have "k \<notin> set ks" using Cons.prems(2) by simp
  have same: "prop_of (JObj f) k' = prop_of (JObj field) k'" if "k' \<in> set ks" for k'
  proof -
    have "k' \<noteq> k" using that \<open>k \<notin> set ks\<close> by auto
    then show ?thesis using step(5) by (simp add: prop_of_def)
  qed
  have "formResult env f ks field'" using Cons.IH [OF rest] Cons.prems(2,3) step(2) by simp
  then have "set ks \<subseteq> set ALLOWED_FORM_FIELDS_KEYS" "map fst field' = map fst f"
    "\<forall>k \<in> set ks. k \<noteq> ''fieldOptions'' \<longrightarrow> map_of field' k = Some (convertField env k (prop_of (JObj field) k))"
    "\<forall>k \<in> set ks. k = ''fieldType'' \<longrightarrow> convertField env k (prop_of (JObj field) k) \<in> JStr ` set ALLOWED_FIELD_TYPES"
    "\<forall>k. k \<notin> set ks \<longrightarrow> map_of field' k = map_of f k"
    using same by (simp_all add: formResult_def)
  then show ?case using step \<open>k \<notin> set ks\<close> unfolding formResult_def by simp blast
qed (simp add: formResult_def)

text \<open>What is left of a field: an object with the same keys, all of them allowed, an allowed type, and converted values; the
  options are checked apart. Numbers and booleans stay as they are.\<close>

definition checkedField :: "typeEnv \<Rightarrow> jsval \<Rightarrow> jsval \<Rightarrow> bool" where
  "checkedField env raw f \<longleftrightarrow> (case (raw, f) of
       (JObj ps, JObj qs) \<Rightarrow> formResult env ps (map fst ps) qs
     | _ \<Rightarrow> f = raw \<and> keysOf raw = [])"

lemma formField_checked:
  assumes "formField env index raw = Inr f" and "\<And>ps. raw = JObj ps \<Longrightarrow> distinct (map fst ps)"
  shows "checkedField env raw f"
proof (cases "isPlainObject raw")
  case True
  then obtain ps where ps: "raw = JObj ps" by (auto simp: isPlainObject_def split: jsval.splits)
  then obtain qs where "formKeys env index ps (map fst ps) = Inr qs" "f = JObj qs"
    using assms(1) by (auto simp: formField_def split: sum.splits)
  then show ?thesis using formKeys_result [of env index ps "map fst ps" qs] assms(2) [OF ps] ps by (simp add: checkedField_def)
next
  case False
  then show ?thesis using assms(1) by (auto simp: formField_def checkedField_def isPlainObject_def split: jsval.splits list.splits)
qed

lemma formFields_checked:
  "formFields env index raws = Inr fs \<Longrightarrow> (\<And>ps. JObj ps \<in> set raws \<Longrightarrow> distinct (map fst ps)) \<Longrightarrow>
    list_all2 (checkedField env) raws fs"
proof (induction raws arbitrary: index fs)
  case (Cons raw raws)
  obtain f rest where "formField env index raw = Inr f" "formFields env (Suc index) raws = Inr rest" "fs = f # rest"
    using Cons.prems(1) by (auto split: sum.splits)
  then show ?case using Cons.IH [of "Suc index" rest] Cons.prems(2) formField_checked [of env index raw f] by simp
qed simp

text \<open>The fields of a form have allowed keys and types only, and their texts have no angle brackets, but for \<open>html\<close> and options.\<close>

theorem form_fields_checked:
  assumes "tryToParseJsonToFormFields env v = Inr r" and "jsonParse env (text_of env v) = Some (JArr raws)"
    and "\<And>ps. JObj ps \<in> set raws \<Longrightarrow> distinct (map fst ps)"
  shows "\<exists>fs. r = JArr fs \<and> list_all2 (checkedField env) raws fs \<and>
    (\<forall>i < length raws. \<forall>ps k s. raws ! i = JObj ps \<and> map_of ps k = Some (JStr s) \<and> k \<noteq> ''html'' \<and> k \<noteq> ''fieldOptions'' \<longrightarrow>
      prop_of (fs ! i) k = JStr (escapeHtml s))"
proof -
  obtain fs where fs: "r = JArr fs" "formFields env 0 raws = Inr fs"
    using assms(1,2) by (auto simp: tryToParseJsonToFormFields_def split: sum.splits formError.splits)
  have all: "list_all2 (checkedField env) raws fs" by (rule formFields_checked [OF fs(2) assms(3)])
  have "prop_of (fs ! i) k = JStr (escapeHtml s)"
    if "i < length raws" "raws ! i = JObj ps" "map_of ps k = Some (JStr s)" "k \<noteq> ''html''" "k \<noteq> ''fieldOptions''" for i ps k s
  proof -
    have "checkedField env (JObj ps) (fs ! i)" using list_all2_nthD [OF all that(1)] that(2) by simp
    then obtain qs where qs: "fs ! i = JObj qs" "formResult env ps (map fst ps) qs \<or> qs = ps \<and> ps = []"
      by (auto simp: checkedField_def keysOf_def entries_def split: jsval.splits)
    moreover have "k \<in> set (map fst ps)" using that(3) by (auto dest: map_of_SomeD intro: rev_image_eqI)
    ultimately have "map_of qs k = Some (convertField env k (prop_of (JObj ps) k))" using that(5) by (auto simp: formResult_def)
    then show ?thesis using that(3,4,5) qs(1) by (simp add: prop_of_def convertField_def simpleType_def)
  qed
  then show ?thesis using fs(1) all by blast
qed

section \<open>Examples\<close>

text \<open>An environment that knows one form and reads no dates.\<close>

definition aForm :: "jsval list" where
  "aForm = [JObj [(''fieldLabel'', JStr ''a<b''), (''fieldType'', JStr ''text'')]]"

definition plainTypeEnv :: typeEnv where
  "plainTypeEnv = \<lparr>te_number = (\<lambda>_. []), te_date = (\<lambda>_. []),
     tv_JSON_parse = (\<lambda>s. if s = ''form'' then Some (JArr aForm) else if s = ''null'' then Some JNull else None), tv_JSON_stringify = (\<lambda>_. []),
     tv_parseJSObject = (\<lambda>_. None), tv_dateFormats = [], tv_isObject = (\<lambda>v. typeof v = ''object'' \<and> v \<noteq> JNull), tv_protocol = (\<lambda>_. None)\<rparr>"

definition looseOptions :: validateOptions where
  "looseOptions = \<lparr>vo_valueOptions = [], vo_strict = False, vo_parseStrings = False\<rparr>"

theorem validated_again_witness:
  "validateFieldType plainTypeEnv ''size'' (JNum (Fin 125)) ''number'' (looseOptions\<lparr>vo_strict := True\<rparr>) = Valid (Some (JNum (Fin 125)))"
proof (rule validated_again)
  show "validateFieldType plainTypeEnv ''size'' (JStr '' 1.25e2'') ''number'' looseOptions = Valid (Some (JNum (Fin 125)))" by code_simp
  show "toLowerCase ''number'' \<noteq> ''form-fields''" by code_simp
  show "typeof (JStr '' 1.25e2'') = ''string''" by simp
qed (simp_all add: plainTypeEnv_def)

lemma aForm_parsed:
  "tryToParseJsonToFormFields plainTypeEnv (JStr ''form'') =
     Inr (JArr [JObj [(''fieldLabel'', JStr ''a&lt;b''), (''fieldType'', JStr ''text'')]])"
  by code_simp

theorem form_fields_checked_witness:
  "\<exists>fs. JArr [JObj [(''fieldLabel'', JStr ''a&lt;b''), (''fieldType'', JStr ''text'')]] = JArr fs \<and>
    list_all2 (checkedField plainTypeEnv) aForm fs \<and>
    (\<forall>i < length aForm. \<forall>ps k s. aForm ! i = JObj ps \<and> map_of ps k = Some (JStr s) \<and> k \<noteq> ''html'' \<and> k \<noteq> ''fieldOptions'' \<longrightarrow>
      prop_of (fs ! i) k = JStr (escapeHtml s))"
proof (rule form_fields_checked [OF aForm_parsed])
  show "jsonParse plainTypeEnv (text_of plainTypeEnv (JStr ''form'')) = Some (JArr aForm)"
    by (simp add: jsonParse_def plainTypeEnv_def)
  show "distinct (map fst ps)" if "JObj ps \<in> set aForm" for ps using that by (simp add: aForm_def)
qed

text \<open>A value that has to be converted to a text is not escaped.\<close>

lemma converted_text_not_escaped:
  "formField env 0 (JObj [(''fieldLabel'', JArr [JStr ''<b>''])]) = Inr (JObj [(''fieldLabel'', JStr ''<b>'')])"
  by (simp add: formField_def formKey_def ALLOWED_FORM_FIELDS_KEYS_def convertField_def simpleType_def text_of_def prop_of_def Let_def)

text \<open>The text null is an object, and so is a list with one text in it, even strictly.\<close>

lemma null_is_an_object: "validateFieldType plainTypeEnv ''x'' (JStr ''null'') ''object'' looseOptions = Valid (Some JNull)"
  by code_simp

lemma list_is_an_object:
  assumes "jsonParse env ''{}'' = Some (JObj [])" and "tv_isObject env (JArr [JStr ''{}''])" and "toLowerCase t = ''object''"
  shows "validateFieldType env name (JArr [JStr ''{}'']) t options = Valid (Some (JObj []))"
  using assms by (simp add: validateFieldType_def tryToParseObject_def isArray_def text_of_def)

end
