(* ===== verification/FilterParameter.thy ===== *)
theory FilterParameter
  imports TypeValidation
begin

text \<open>
  The conditions of filters, \<open>packages/workflow/src/node-parameters/filter-parameter.ts\<close>, as the nodes If, Filter and
  Switch evaluate them.

  Values are validated by \<open>validateFieldType\<close> of \<open>TypeValidation\<close>. Parameters, beside those of the validation, are the
  conversion to lower case, regular expressions, and which objects are the same. A case of the code that does not return falls
  through to the next one: each case is an optional result, and the first one counts. The result of a condition is only
  used as a condition, so it is taken as a boolean.

  Theorems: conditions are combined from the left, and the first that decides or throws ends the evaluation; an operator
  and its opposite have opposite results, except for dates; an operation of a type gets values it can work on, and throws no
  type errors.
\<close>

section \<open>Conditions\<close>

datatype FilterOperatorType = StringT | NumberT | BooleanT | ArrayT | ObjectT | DateTimeT | AnyT

record FilterOperatorValue =
  fo_type :: FilterOperatorType
  fo_operation :: string
  fo_rightType :: "FilterOperatorType option"
  fo_singleValue :: bool

record FilterConditionValue =
  fc_leftValue :: jsval
  fc_operator :: FilterOperatorValue
  fc_rightValue :: jsval

record FilterOptionsValue =
  fp_caseSensitive :: bool
  fp_strict :: bool
  fp_version :: nat

datatype combinator = And | Or | OtherCombinator string

record FilterValue =
  fv_options :: FilterOptionsValue
  fv_conditions :: "FilterConditionValue list"
  fv_combinator :: combinator

record FilterConditionMetadata =
  fm_index :: nat
  fm_unresolvedExpressions :: bool
  fm_itemIndex :: nat
  fm_inline :: bool

datatype filterError = FilterError string string | Thrown js_error

text \<open>A regular expression is tested with its source, its flags and the input; one that is not valid throws.\<close>

record filterEnv = typeEnv +
  env_lower :: "string \<Rightarrow> string"
  env_regex :: "string \<Rightarrow> string \<Rightarrow> string \<Rightarrow> bool option"
  env_same :: "jsval \<Rightarrow> jsval \<Rightarrow> bool"

definition stringOf :: "filterEnv \<Rightarrow> jsval \<Rightarrow> string" where
  "stringOf env v = text_of (typeEnv.truncate env) v"

text \<open>\<open>===\<close>, and the equality of \<open>includes\<close>, for which NaN is equal to itself\<close>

fun strictEq :: "filterEnv \<Rightarrow> jsval \<Rightarrow> jsval \<Rightarrow> bool" where
  "strictEq env JUndefined b = (b = JUndefined)"
| "strictEq env JNull b = (b = JNull)"
| "strictEq env (JBool x) b = (b = JBool x)"
| "strictEq env (JNum x) b = (x \<noteq> NaN \<and> b = JNum x)"
| "strictEq env (JStr x) b = (b = JStr x)"
| "strictEq env a b = env_same env a b"

definition sameValueZero :: "filterEnv \<Rightarrow> jsval \<Rightarrow> jsval \<Rightarrow> bool" where
  "sameValueZero env a b \<longleftrightarrow> a = JNum NaN \<and> b = JNum NaN \<or> strictEq env a b"

definition lt :: "filterEnv \<Rightarrow> jsval \<Rightarrow> jsval \<Rightarrow> bool" where
  "lt env a b \<longleftrightarrow> js_less (typeEnv.truncate env) a b"

definition lte :: "filterEnv \<Rightarrow> jsval \<Rightarrow> jsval \<Rightarrow> bool" where
  "lte env a b \<longleftrightarrow> js_atMost (typeEnv.truncate env) a b"

section \<open>Parsing the values of a condition\<close>

fun type_word :: "FilterOperatorType \<Rightarrow> string" where
  "type_word StringT = ''string''"
| "type_word NumberT = ''number''"
| "type_word BooleanT = ''boolean''"
| "type_word ArrayT = ''array''"
| "type_word ObjectT = ''object''"
| "type_word DateTimeT = ''dateTime''"
| "type_word AnyT = ''any''"

text \<open>The options of the call are \<open>strict\<close> and the parsing of texts, or none.\<close>

definition validateValue :: "filterEnv \<Rightarrow> jsval \<Rightarrow> FilterOperatorType \<Rightarrow> bool option \<Rightarrow> jsval option" where
  "validateValue env v typ options =
     (case validateFieldType (typeEnv.truncate env) ''filter'' v (type_word typ)
         \<lparr>vo_valueOptions = [], vo_strict = (options = Some True), vo_parseStrings = (options \<noteq> None)\<rparr> of
        Valid (Some w) \<Rightarrow> Some w | Valid None \<Rightarrow> Some JUndefined | Invalid _ \<Rightarrow> None)"

text \<open>A valid value is returned. A null is what an empty text or array is for a number since version 3.\<close>

definition parseSingleFilterValue :: "filterEnv \<Rightarrow> jsval \<Rightarrow> FilterOperatorType \<Rightarrow> bool \<Rightarrow> nat \<Rightarrow> jsval option" where
  "parseSingleFilterValue env val typ strict version =
     (if typ = AnyT \<or> val = JNull \<or> val = JUndefined then Some val
      else if typ = BooleanT \<and> \<not> strict then
        (case (if version \<ge> 2 then validateValue env val typ None else None) of
           Some v \<Rightarrow> Some v
         | None \<Rightarrow> Some (JBool (truthy val)))
      else if typ = NumberT \<and> val = JNum NaN then Some val
      else if typ = NumberT \<and> ((case val of JStr s \<Rightarrow> blank s | _ \<Rightarrow> False) \<or> val = JArr []) \<and> version \<ge> 3 then Some JNull
      else validateValue env val typ (Some strict))"

text \<open>The first letter of the empty string is in every string.\<close>

definition withIndefiniteArticle :: "string \<Rightarrow> string" where
  "withIndefiniteArticle noun = (case noun of [] \<Rightarrow> ''an '' | c # _ \<Rightarrow> if c \<in> set ''aeiou'' then ''an '' @ noun else ''a '' @ noun)"

definition isExpression :: "jsval \<Rightarrow> bool" where
  "isExpression v \<longleftrightarrow> (case v of JStr (c # _) \<Rightarrow> c = CHR ''='' | _ \<Rightarrow> False)"

definition suffixOf :: "FilterConditionMetadata \<Rightarrow> string" where
  "suffixOf m = (if fm_inline m then ''[item '' @ show_nat (fm_itemIndex m) @ '']''
     else ''[condition '' @ show_nat (fm_index m) @ '', item '' @ show_nat (fm_itemIndex m) @ '']'')"

definition quote :: string where
  "quote = [CHR 0x27]"

definition composeInvalidTypeMessage :: "bool \<Rightarrow> FilterConditionMetadata \<Rightarrow> string \<Rightarrow> string \<Rightarrow> string \<Rightarrow> string" where
  "composeInvalidTypeMessage strict m typ fromType val =
     (if strict then ''Wrong type: '' @ quote @ val @ quote @ '' is '' @ withIndefiniteArticle fromType @ '' but was expecting '' @
        withIndefiniteArticle typ @ '' '' @ suffixOf m
      else ''Conversion error: the '' @ fromType @ '' '' @ quote @ val @ quote @ '' can'' @ quote @ ''t be converted to '' @
        withIndefiniteArticle typ @ '' '' @ suffixOf m)"

definition getTypeDescription :: "bool \<Rightarrow> string" where
  "getTypeDescription isStrict = (if isStrict
     then ''Try changing the type of comparison. Alternatively you can enable '' @ quote @ ''Convert types where required'' @ quote @ ''.''
     else ''Try changing the type of the comparison.'')"

definition newline :: string where
  "newline = [CHR 0x0A]"

definition composeInvalidTypeDescription :: "bool \<Rightarrow> FilterOperatorType \<Rightarrow> string \<Rightarrow> string" where
  "composeInvalidTypeDescription strict typ valuePosition =
     (let convertionFunction = (case typ of StringT \<Rightarrow> ''.toString()'' | NumberT \<Rightarrow> ''.toNumber()'' | BooleanT \<Rightarrow> ''.toBoolean()'' | _ \<Rightarrow> [])
      in if strict \<and> convertionFunction \<noteq> [] then newline @ ''<p>Try either:</p>'' @ newline @ ''<ol>'' @ newline @
           ''  <li>Enabling '' @ quote @ ''Convert types where required'' @ quote @ ''</li>'' @ newline @
           ''  <li>Converting the '' @ valuePosition @ '' field to '' @ withIndefiniteArticle (type_word typ) @
           '' by adding <code>'' @ convertionFunction @ ''</code></li>'' @ newline @ ''</ol>'' @ newline @ replicate 4 (CHR 0x09)
         else getTypeDescription strict)"

definition parseFilterConditionValues ::
    "filterEnv \<Rightarrow> FilterConditionValue \<Rightarrow> FilterOptionsValue \<Rightarrow> FilterConditionMetadata \<Rightarrow> filterError + (jsval \<times> jsval)" where
  "parseFilterConditionValues env cond options m =
     (let strict = fp_strict options; version = fp_version options; operator = fc_operator cond;
          rightType = (case fo_rightType operator of Some t \<Rightarrow> t | None \<Rightarrow> fo_type operator);
          parsedLeftValue = parseSingleFilterValue env (fc_leftValue cond) (fo_type operator) strict version;
          parsedRightValue = parseSingleFilterValue env (fc_rightValue cond) rightType strict version;
          leftValid = parsedLeftValue \<noteq> None \<or> fm_unresolvedExpressions m \<and> isExpression (fc_leftValue cond);
          rightValid = parsedRightValue \<noteq> None \<or> fo_singleValue operator \<or>
            fm_unresolvedExpressions m \<and> isExpression (fc_rightValue cond);
          newValue = (\<lambda>v. case v of Some x \<Rightarrow> x | None \<Rightarrow> JUndefined)
      in if \<not> leftValid \<and> \<not> rightValid \<and> typeof (fc_leftValue cond) = typeof (fc_rightValue cond) then
        Inl (FilterError (''Comparison type expects '' @ withIndefiniteArticle (type_word (fo_type operator)) @ '' but both fields are '' @
          withIndefiniteArticle (typeof (fc_leftValue cond))) (getTypeDescription strict))
      else if \<not> leftValid then
        Inl (FilterError (composeInvalidTypeMessage strict m (type_word (fo_type operator)) (typeof (fc_leftValue cond)) (stringOf env (fc_leftValue cond)))
          (composeInvalidTypeDescription strict (fo_type operator) ''first''))
      else if \<not> rightValid then
        Inl (FilterError (composeInvalidTypeMessage strict m (type_word rightType) (typeof (fc_rightValue cond)) (stringOf env (fc_rightValue cond)))
          (composeInvalidTypeDescription strict rightType ''second''))
      else Inr (newValue parsedLeftValue, newValue parsedRightValue))"

section \<open>Evaluating a condition\<close>

text \<open>A pattern between slashes with flags, or a source without flags. The source is the shortest possible, without line breaks.\<close>

fun slashedPattern :: "string \<Rightarrow> string \<Rightarrow> (string \<times> string) option" where
  "slashedPattern source [] = None"
| "slashedPattern source (c # cs) =
     (if c = CHR ''/'' \<and> set cs \<subseteq> set ''gimusy'' then Some (source, cs)
      else if c \<in> set [CHR 0x0A, CHR 0x0D] then None else slashedPattern (source @ [c]) cs)"

definition parseRegexPattern :: "string \<Rightarrow> string \<times> string" where
  "parseRegexPattern pattern = (case (case pattern of c # cs \<Rightarrow> if c = CHR ''/'' then slashedPattern [] cs else None | [] \<Rightarrow> None) of
       Some m \<Rightarrow> m | None \<Rightarrow> (pattern, []))"

definition testRegex :: "filterEnv \<Rightarrow> string \<Rightarrow> string \<Rightarrow> filterError + bool" where
  "testRegex env pattern s = (let (source, flags) = parseRegexPattern pattern in
     case env_regex env source flags s of None \<Rightarrow> Inl (Thrown (ApplicationError ''Invalid regular expression'')) | Some b \<Rightarrow> Inr b)"

definition arrayContainsValue :: "filterEnv \<Rightarrow> jsval list \<Rightarrow> jsval \<Rightarrow> bool \<Rightarrow> bool" where
  "arrayContainsValue env array val ignoreCase = (case (ignoreCase, val) of
       (True, JStr v) \<Rightarrow> (\<exists>item \<in> set array. case item of JStr s \<Rightarrow> env_lower env s = env_lower env v | _ \<Rightarrow> False)
     | _ \<Rightarrow> (\<exists>item \<in> set array. sameValueZero env item val))"

type_synonym caseResult = "(filterError + bool) option"

definition negateResult :: "filterError + bool \<Rightarrow> filterError + bool" where
  "negateResult r = (case r of Inl e \<Rightarrow> Inl e | Inr b \<Rightarrow> Inr (\<not> b))"

definition lowered :: "filterEnv \<Rightarrow> jsval \<Rightarrow> jsval" where
  "lowered env v = (case v of JStr s \<Rightarrow> JStr (env_lower env s) | _ \<Rightarrow> v)"

text \<open>\<open>v ?? ''\<close>\<close>

definition orEmpty :: "jsval \<Rightarrow> jsval" where
  "orEmpty v = (if v = JNull \<or> v = JUndefined then JStr [] else v)"

text \<open>The members of a left value that is no text: only an array has a length and \<open>includes\<close>, and only an object may have a
  property of this name. The right value is converted to a text by the methods of a text.\<close>

definition lengthIsZero :: "filterEnv \<Rightarrow> jsval \<Rightarrow> bool" where
  "lengthIsZero env left \<longleftrightarrow> (case left of
       JStr s \<Rightarrow> s = []
     | JArr xs \<Rightarrow> xs = []
     | JObj ps \<Rightarrow> map_of ps ''length'' = Some (JNum (Fin 0))
     | _ \<Rightarrow> False)"

definition includesText :: "filterEnv \<Rightarrow> jsval \<Rightarrow> jsval \<Rightarrow> filterError + bool" where
  "includesText env left right = (case left of
       JStr l \<Rightarrow> Inr (sublist (stringOf env right) l)
     | JArr xs \<Rightarrow> Inr (\<exists>x \<in> set xs. sameValueZero env x right)
     | _ \<Rightarrow> Inl (Thrown TypeError))"

definition affixOf :: "(string \<Rightarrow> string \<Rightarrow> bool) \<Rightarrow> filterEnv \<Rightarrow> jsval \<Rightarrow> jsval \<Rightarrow> filterError + bool" where
  "affixOf affix env left right = (case left of JStr l \<Rightarrow> Inr (affix (stringOf env right) l) | _ \<Rightarrow> Inl (Thrown TypeError))"

text \<open>A pattern that is falsy is empty, and one that is no text has no method \<open>match\<close>; the left value is converted to a text.\<close>

definition regexCase :: "filterEnv \<Rightarrow> jsval \<Rightarrow> jsval \<Rightarrow> filterError + bool" where
  "regexCase env left right = (case (if truthy right then right else JStr []) of
       JStr pattern \<Rightarrow> testRegex env pattern (stringOf env left)
     | _ \<Rightarrow> Inl (Thrown TypeError))"

definition stringCase :: "filterEnv \<Rightarrow> bool \<Rightarrow> string \<Rightarrow> jsval \<Rightarrow> jsval \<Rightarrow> caseResult" where
  "stringCase env ignoreCase op leftValue rightValue =
     (let leftValue = (if ignoreCase then lowered env leftValue else leftValue);
          rightValue = (if ignoreCase \<and> \<not> (op = ''regex'' \<or> op = ''notRegex'') then lowered env rightValue else rightValue);
          left = orEmpty leftValue; right = orEmpty rightValue
      in if op = ''empty'' then Some (Inr (lengthIsZero env left))
         else if op = ''notEmpty'' then Some (Inr (\<not> lengthIsZero env left))
         else if op = ''equals'' then Some (Inr (strictEq env left right))
         else if op = ''notEquals'' then Some (Inr (\<not> strictEq env left right))
         else if op = ''contains'' then Some (includesText env left right)
         else if op = ''notContains'' then Some (negateResult (includesText env left right))
         else if op = ''startsWith'' then Some (affixOf prefix env left right)
         else if op = ''notStartsWith'' then Some (negateResult (affixOf prefix env left right))
         else if op = ''endsWith'' then Some (affixOf suffix env left right)
         else if op = ''notEndsWith'' then Some (negateResult (affixOf suffix env left right))
         else if op = ''regex'' then Some (regexCase env left right)
         else if op = ''notRegex'' then Some (negateResult (regexCase env left right))
         else None)"

definition numberCase :: "filterEnv \<Rightarrow> string \<Rightarrow> bool \<Rightarrow> jsval \<Rightarrow> jsval \<Rightarrow> caseResult" where
  "numberCase env op ex l r =
     (if op = ''empty'' then Some (Inr (\<not> ex))
      else if op = ''notEmpty'' then Some (Inr ex)
      else if op = ''equals'' then Some (Inr (strictEq env l r))
      else if op = ''notEquals'' then Some (Inr (\<not> strictEq env l r))
      else if op = ''gt'' then Some (Inr (lt env r l))
      else if op = ''lt'' then Some (Inr (lt env l r))
      else if op = ''gte'' then Some (Inr (lte env r l))
      else if op = ''lte'' then Some (Inr (lte env l r))
      else None)"

definition millis :: "jsval \<Rightarrow> jsval \<Rightarrow> (int \<Rightarrow> int \<Rightarrow> bool) \<Rightarrow> caseResult" where
  "millis l r cmp = (case (l, r) of (JDate a, JDate b) \<Rightarrow> Some (Inr (cmp a b)) | _ \<Rightarrow> Some (Inl (Thrown TypeError)))"

definition dateTimeCase :: "string \<Rightarrow> bool \<Rightarrow> jsval \<Rightarrow> jsval \<Rightarrow> caseResult" where
  "dateTimeCase op ex l r =
     (if op = ''empty'' then Some (Inr (\<not> ex))
      else if op = ''notEmpty'' then Some (Inr ex)
      else if \<not> truthy l \<or> \<not> truthy r then Some (Inr False)
      else if op = ''equals'' then millis l r (=)
      else if op = ''notEquals'' then millis l r (\<noteq>)
      else if op = ''after'' then millis l r (>)
      else if op = ''before'' then millis l r (<)
      else if op = ''afterOrEquals'' then millis l r (\<ge>)
      else if op = ''beforeOrEquals'' then millis l r (\<le>)
      else None)"

definition booleanCase :: "filterEnv \<Rightarrow> string \<Rightarrow> bool \<Rightarrow> jsval \<Rightarrow> jsval \<Rightarrow> caseResult" where
  "booleanCase env op ex l r =
     (if op = ''empty'' then Some (Inr (\<not> ex))
      else if op = ''notEmpty'' then Some (Inr ex)
      else if op = ''true'' then Some (Inr (truthy l))
      else if op = ''false'' then Some (Inr (\<not> truthy l))
      else if op = ''equals'' then Some (Inr (strictEq env l r))
      else if op = ''notEquals'' then Some (Inr (\<not> strictEq env l r))
      else None)"

definition lengthOf :: "jsval \<Rightarrow> jsval" where
  "lengthOf v = (case v of JArr xs \<Rightarrow> JNum (Fin (of_nat (length xs))) | _ \<Rightarrow> JUndefined)"

text \<open>What falls through to this case is no array: it has no \<open>includes\<close>, and its length is undefined.\<close>

definition arrayCase :: "filterEnv \<Rightarrow> bool \<Rightarrow> string \<Rightarrow> jsval \<Rightarrow> jsval \<Rightarrow> caseResult" where
  "arrayCase env ignoreCase op leftValue r =
     (let l = (if leftValue = JNull \<or> leftValue = JUndefined then JArr [] else leftValue);
          contains = (case l of JArr xs \<Rightarrow> Inr (arrayContainsValue env xs r ignoreCase) | _ \<Rightarrow> Inl (Thrown TypeError))
      in if op = ''contains'' then Some contains
         else if op = ''notContains'' then Some (negateResult contains)
         else if op = ''lengthEquals'' then Some (Inr (strictEq env (lengthOf l) r))
         else if op = ''lengthNotEquals'' then Some (Inr (\<not> strictEq env (lengthOf l) r))
         else if op = ''lengthGt'' then Some (Inr (lt env r (lengthOf l)))
         else if op = ''lengthLt'' then Some (Inr (lt env (lengthOf l) r))
         else if op = ''lengthGte'' then Some (Inr (lte env r (lengthOf l)))
         else if op = ''lengthLte'' then Some (Inr (lte env (lengthOf l) r))
         else if op = ''empty'' then Some (Inr (strictEq env (lengthOf l) (JNum (Fin 0))))
         else if op = ''notEmpty'' then Some (Inr (\<not> strictEq env (lengthOf l) (JNum (Fin 0))))
         else None)"

text \<open>\<open>Object.keys(left).length === 0\<close>; a \<open>DateTime\<close> has its fields as keys, a \<open>Date\<close> none.\<close>

definition noKeys :: "jsval \<Rightarrow> bool" where
  "noKeys v \<longleftrightarrow> (case v of JObj ps \<Rightarrow> ps = [] | JArr xs \<Rightarrow> xs = [] | JStr s \<Rightarrow> s = [] | JDate _ \<Rightarrow> False | _ \<Rightarrow> True)"

definition objectCase :: "string \<Rightarrow> jsval \<Rightarrow> caseResult" where
  "objectCase op l =
     (if op = ''empty'' then Some (Inr (\<not> truthy l \<or> noKeys l))
      else if op = ''notEmpty'' then Some (Inr (truthy l \<and> \<not> noKeys l))
      else None)"

fun first_case :: "caseResult list \<Rightarrow> caseResult" where
  "first_case [] = None"
| "first_case (Some r # cs) = Some r"
| "first_case (None # cs) = first_case cs"

text \<open>An operation that no case knows is logged and does not hold.\<close>

definition executeFilterCondition :: "filterEnv \<Rightarrow> FilterConditionValue \<Rightarrow> FilterOptionsValue \<Rightarrow> FilterConditionMetadata \<Rightarrow> filterError + bool" where
  "executeFilterCondition env cond filterOptions m =
     (let ignoreCase = (\<not> fp_caseSensitive filterOptions); op = fo_operation (fc_operator cond)
      in case parseFilterConditionValues env cond filterOptions m of
          Inl e \<Rightarrow> Inl e
        | Inr (l, r) \<Rightarrow>
            let ex = (l \<noteq> JUndefined \<and> l \<noteq> JNull \<and> l \<noteq> JNum NaN)
            in if op = ''exists'' then Inr ex
               else if op = ''notExists'' then Inr (\<not> ex)
               else let fromObject = [objectCase op l]; fromArray = arrayCase env ignoreCase op l r # fromObject;
                        fromBoolean = booleanCase env op ex l r # fromArray; fromDateTime = dateTimeCase op ex l r # fromBoolean
                 in case first_case (case fo_type (fc_operator cond) of
                       StringT \<Rightarrow> [stringCase env ignoreCase op l r]
                     | NumberT \<Rightarrow> numberCase env op ex l r # fromDateTime
                     | DateTimeT \<Rightarrow> fromDateTime
                     | BooleanT \<Rightarrow> fromBoolean
                     | ArrayT \<Rightarrow> fromArray
                     | ObjectT \<Rightarrow> fromObject
                     | AnyT \<Rightarrow> []) of
                    Some res \<Rightarrow> res
                  | None \<Rightarrow> Inr False)"

section \<open>Evaluating a filter\<close>

definition conditionPass :: "filterEnv \<Rightarrow> FilterValue \<Rightarrow> nat \<Rightarrow> FilterConditionValue \<times> nat \<Rightarrow> filterError + bool" where
  "conditionPass env v itemIndex x = executeFilterCondition env (fst x) (fv_options v)
     \<lparr>fm_index = snd x, fm_unresolvedExpressions = False, fm_itemIndex = itemIndex, fm_inline = False\<rparr>"

fun every :: "('a \<Rightarrow> 'e + bool) \<Rightarrow> 'a list \<Rightarrow> 'e + bool" where
  "every p [] = Inr True"
| "every p (x # xs) = (case p x of Inl e \<Rightarrow> Inl e | Inr b \<Rightarrow> if b then every p xs else Inr False)"

fun some :: "('a \<Rightarrow> 'e + bool) \<Rightarrow> 'a list \<Rightarrow> 'e + bool" where
  "some p [] = Inr False"
| "some p (x # xs) = (case p x of Inl e \<Rightarrow> Inl e | Inr b \<Rightarrow> if b then Inr True else some p xs)"

definition executeFilter :: "filterEnv \<Rightarrow> FilterValue \<Rightarrow> nat \<Rightarrow> filterError + bool" where
  "executeFilter env v itemIndex =
     (let conditions = zip (fv_conditions v) [0..<length (fv_conditions v)]
      in case fv_combinator v of
          And \<Rightarrow> every (conditionPass env v itemIndex) conditions
        | Or \<Rightarrow> some (conditionPass env v itemIndex) conditions
        | OtherCombinator _ \<Rightarrow> Inr False)"

text \<open>The result of parsing is not looked at, and parsing throws nothing, so that there are never any issues.\<close>

definition validateFilterParameter :: "filterEnv \<Rightarrow> FilterValue \<Rightarrow> (string \<times> string list) list" where
  "validateFilterParameter env v = foldl (\<lambda>issues (cond, index).
     let parsed = parseFilterConditionValues env cond (fv_options v)
       \<lparr>fm_index = index, fm_unresolvedExpressions = True, fm_itemIndex = 0, fm_inline = True\<rparr> in issues) []
     (zip (fv_conditions v) [0..<length (fv_conditions v)])"

section \<open>Combining conditions\<close>

text \<open>The first condition that decides the result, or throws, gives the result.\<close>

definition first_not :: "bool \<Rightarrow> ('e + bool) list \<Rightarrow> 'e + bool" where
  "first_not b rs = (case dropWhile (\<lambda>r. r = Inr b) rs of [] \<Rightarrow> Inr b | r # _ \<Rightarrow> r)"

lemma every_first: "every p xs = first_not True (map p xs)"
  by (induction xs) (auto simp: first_not_def split: sum.split)

lemma some_first: "some p xs = first_not False (map p xs)"
  by (induction xs) (auto simp: first_not_def split: sum.split)

lemma first_not_iff: "first_not b rs = Inr b \<longleftrightarrow> (\<forall>r \<in> set rs. r = Inr b)"
proof (cases "dropWhile (\<lambda>r. r = Inr b) rs")
  case Nil
  then have "\<forall>r \<in> set rs. r = Inr b" using dropWhile_eq_Nil_conv [of "\<lambda>r. r = Inr b" rs] by simp
  then show ?thesis unfolding first_not_def Nil by simp
next
  case (Cons r rest)
  then have "r \<noteq> Inr b" using hd_dropWhile [of "\<lambda>r. r = Inr b" rs] by simp
  moreover have "r \<in> set rs" using set_dropWhileD [of r "\<lambda>r. r = Inr b" rs] Cons by simp
  ultimately show ?thesis using Cons by (auto simp: first_not_def)
qed

text \<open>With \<open>and\<close> a filter holds exactly if all its conditions do, with \<open>or\<close> it fails exactly if all do; otherwise the first
  condition with another result decides, whatever comes behind it, be it an error.\<close>

theorem executeFilter_decided:
  "(let results = map (conditionPass env v i) (zip (fv_conditions v) [0..<length (fv_conditions v)]) in
    case fv_combinator v of
      And \<Rightarrow> executeFilter env v i = first_not True results \<and> (executeFilter env v i = Inr True) = (\<not> (\<exists>r \<in> set results. r \<noteq> Inr True))
    | Or \<Rightarrow> executeFilter env v i = first_not False results \<and> (executeFilter env v i = Inr False) = (\<not> (\<exists>r \<in> set results. r \<noteq> Inr False))
    | OtherCombinator _ \<Rightarrow> executeFilter env v i = Inr False)"
  by (simp add: executeFilter_def every_first some_first first_not_iff Let_def split: combinator.split)

section \<open>Opposite operators\<close>

definition opposites :: "FilterOperatorType \<Rightarrow> (string \<times> string) list" where
  "opposites typ = (''exists'', ''notExists'') # (case typ of AnyT \<Rightarrow> [] | _ \<Rightarrow> [(''empty'', ''notEmpty'')]) @ (case typ of
       StringT \<Rightarrow> [(''equals'', ''notEquals''), (''contains'', ''notContains''), (''startsWith'', ''notStartsWith''),
         (''endsWith'', ''notEndsWith''), (''regex'', ''notRegex'')]
     | NumberT \<Rightarrow> [(''equals'', ''notEquals'')]
     | BooleanT \<Rightarrow> [(''equals'', ''notEquals''), (''true'', ''false'')]
     | ArrayT \<Rightarrow> [(''contains'', ''notContains''), (''lengthEquals'', ''lengthNotEquals'')]
     | _ \<Rightarrow> [])"

definition with_operation :: "string \<Rightarrow> FilterConditionValue \<Rightarrow> FilterConditionValue" where
  "with_operation op cond = cond\<lparr>fc_operator := (fc_operator cond)\<lparr>fo_operation := op\<rparr>\<rparr>"

lemma with_operation_fields:
  "fc_leftValue (with_operation op cond) = fc_leftValue cond" "fc_rightValue (with_operation op cond) = fc_rightValue cond"
  "fo_type (fc_operator (with_operation op cond)) = fo_type (fc_operator cond)"
  "fo_rightType (fc_operator (with_operation op cond)) = fo_rightType (fc_operator cond)"
  "fo_singleValue (fc_operator (with_operation op cond)) = fo_singleValue (fc_operator cond)"
  "fo_operation (fc_operator (with_operation op cond)) = op"
  by (simp_all add: with_operation_def)

lemma parse_with_operation:
  "parseFilterConditionValues env (with_operation op cond) options m = parseFilterConditionValues env cond options m"
  by (simp only: parseFilterConditionValues_def Let_def with_operation_fields)

lemma negate_negate [simp]: "negateResult (negateResult r) = r"
  by (simp add: negateResult_def split: sum.split)

lemma negateResult_simps [simp]: "negateResult (Inl e) = Inl e" "negateResult (Inr b) = Inr (\<not> b)"
  by (simp_all add: negateResult_def)

text \<open>One case answers for both operators.\<close>

definition opposed :: "caseResult \<Rightarrow> caseResult \<Rightarrow> bool" where
  "opposed a b \<longleftrightarrow> (\<exists>r. a = Some r \<and> b = Some (negateResult r))"

lemma opposedI [intro]: "opposed (Some r) (Some (negateResult r))" "opposed (Some (Inr x)) (Some (Inr (\<not> x)))"
    "opposed (Some (Inl e)) (Some (Inl e))"
  by (simp_all add: opposed_def)

lemma opposed_first: "opposed a b \<Longrightarrow> opposed (first_case (a # as)) (first_case (b # bs))"
  by (auto simp: opposed_def)

lemma empty_opposed:
  "opposed (numberCase env ''empty'' ex l r) (numberCase env ''notEmpty'' ex l r)"
  "opposed (dateTimeCase ''empty'' ex l r) (dateTimeCase ''notEmpty'' ex l r)"
  "opposed (booleanCase env ''empty'' ex l r) (booleanCase env ''notEmpty'' ex l r)"
  "opposed (objectCase ''empty'' l) (objectCase ''notEmpty'' l)"
  by (auto simp: numberCase_def dateTimeCase_def booleanCase_def objectCase_def opposed_def)

lemma number_opposed: "opposed (numberCase env ''equals'' ex l r) (numberCase env ''notEquals'' ex l r)"
  by (auto simp: numberCase_def)

lemma boolean_opposed:
  "opposed (booleanCase env ''equals'' ex l r) (booleanCase env ''notEquals'' ex l r)"
  "opposed (booleanCase env ''true'' ex l r) (booleanCase env ''false'' ex l r)"
  by (auto simp: booleanCase_def)

lemma array_opposed:
  "opposed (arrayCase env ic ''contains'' l r) (arrayCase env ic ''notContains'' l r)"
  "opposed (arrayCase env ic ''lengthEquals'' l r) (arrayCase env ic ''lengthNotEquals'' l r)"
  "opposed (arrayCase env ic ''empty'' l r) (arrayCase env ic ''notEmpty'' l r)"
  by (auto simp: arrayCase_def Let_def)

lemma string_opposed:
  "opposed (stringCase env ic ''empty'' l r) (stringCase env ic ''notEmpty'' l r)"
  "opposed (stringCase env ic ''equals'' l r) (stringCase env ic ''notEquals'' l r)"
  "opposed (stringCase env ic ''contains'' l r) (stringCase env ic ''notContains'' l r)"
  "opposed (stringCase env ic ''startsWith'' l r) (stringCase env ic ''notStartsWith'' l r)"
  "opposed (stringCase env ic ''endsWith'' l r) (stringCase env ic ''notEndsWith'' l r)"
  "opposed (stringCase env ic ''regex'' l r) (stringCase env ic ''notRegex'' l r)"
  by (simp_all add: stringCase_def Let_def opposedI)

text \<open>The cases that are tried for an operator, in their order.\<close>

definition casesOf :: "filterEnv \<Rightarrow> bool \<Rightarrow> FilterOperatorType \<Rightarrow> string \<Rightarrow> jsval \<Rightarrow> jsval \<Rightarrow> caseResult list" where
  "casesOf env ic typ op l r =
     (let ex = (l \<noteq> JUndefined \<and> l \<noteq> JNull \<and> l \<noteq> JNum NaN); fromObject = [objectCase op l];
          fromArray = arrayCase env ic op l r # fromObject; fromBoolean = booleanCase env op ex l r # fromArray;
          fromDateTime = dateTimeCase op ex l r # fromBoolean
      in case typ of StringT \<Rightarrow> [stringCase env ic op l r] | NumberT \<Rightarrow> numberCase env op ex l r # fromDateTime
         | DateTimeT \<Rightarrow> fromDateTime | BooleanT \<Rightarrow> fromBoolean | ArrayT \<Rightarrow> fromArray | ObjectT \<Rightarrow> fromObject | AnyT \<Rightarrow> [])"

lemma executeFilterCondition_cases:
  "parseFilterConditionValues env cond options m = Inr (l, r) \<Longrightarrow> executeFilterCondition env cond options m =
    (let op = fo_operation (fc_operator cond); ex = (l \<noteq> JUndefined \<and> l \<noteq> JNull \<and> l \<noteq> JNum NaN) in
     if op = ''exists'' then Inr ex else if op = ''notExists'' then Inr (\<not> ex)
     else case first_case (casesOf env (\<not> fp_caseSensitive options) (fo_type (fc_operator cond)) op l r) of
       Some res \<Rightarrow> res | None \<Rightarrow> Inr False)"
  by (simp only: executeFilterCondition_def casesOf_def Let_def sum.case prod.case)

lemma casesOf_opposed:
  assumes "(op, op') \<in> set (opposites typ)" and "op \<noteq> ''exists''"
  shows "opposed (first_case (casesOf env ic typ op l r)) (first_case (casesOf env ic typ op' l r))"
  using assms unfolding casesOf_def Let_def opposites_def
  by (cases "typ") (auto intro!: opposed_first simp: empty_opposed number_opposed boolean_opposed array_opposed string_opposed)

lemma opposites_exist:
  "(op, op') \<in> set (opposites typ) \<Longrightarrow> if op = ''exists'' then op' = ''notExists'' else op \<noteq> ''notExists'' \<and> op' \<noteq> ''exists'' \<and> op' \<noteq> ''notExists''"
  by (cases "typ") (auto simp: opposites_def)

text \<open>C25. Each operator and its opposite have opposite results on all values, and throw the same errors; a right value of
  another type, which \<open>rightType\<close> allows, included. Dates have no such pair but that of presence and that of emptiness
  (see \<open>missing_dates_have_no_opposite\<close>).\<close>

theorem opposite_operators:
  assumes "(op, op') \<in> set (opposites (fo_type (fc_operator cond)))"
  shows "executeFilterCondition env (with_operation op' cond) options m =
    negateResult (executeFilterCondition env (with_operation op cond) options m)"
proof (cases "parseFilterConditionValues env cond options m")
  case (Inl e)
  then show ?thesis by (simp add: executeFilterCondition_def parse_with_operation Let_def)
next
  case (Inr lr)
  obtain l r where lr: "lr = (l, r)" by (cases lr)
  have parse: "parseFilterConditionValues env (with_operation o' cond) options m = Inr (l, r)" for o'
    by (simp add: parse_with_operation Inr lr)
  show ?thesis
  proof (cases "op = ''exists''")
    case True
    then show ?thesis using opposites_exist [OF assms] parse by (simp add: executeFilterCondition_cases with_operation_fields)
  next
    case False
    have "opposed (first_case (casesOf env (\<not> fp_caseSensitive options) (fo_type (fc_operator cond)) op l r))
        (first_case (casesOf env (\<not> fp_caseSensitive options) (fo_type (fc_operator cond)) op' l r))"
      by (rule casesOf_opposed [OF assms False])
    then show ?thesis using opposites_exist [OF assms] False parse
      by (auto simp: executeFilterCondition_cases with_operation_fields opposed_def Let_def)
  qed
qed

section \<open>Operations and the types of their values\<close>

definition ownOperations :: "FilterOperatorType \<Rightarrow> string list" where
  "ownOperations typ = (case typ of
       StringT \<Rightarrow> [''empty'', ''notEmpty'', ''equals'', ''notEquals'', ''contains'', ''notContains'', ''startsWith'', ''notStartsWith'',
         ''endsWith'', ''notEndsWith'', ''regex'', ''notRegex'']
     | NumberT \<Rightarrow> [''empty'', ''notEmpty'', ''equals'', ''notEquals'', ''gt'', ''lt'', ''gte'', ''lte'']
     | BooleanT \<Rightarrow> [''empty'', ''notEmpty'', ''true'', ''false'', ''equals'', ''notEquals'']
     | ArrayT \<Rightarrow> [''contains'', ''notContains'', ''lengthEquals'', ''lengthNotEquals'', ''lengthGt'', ''lengthLt'', ''lengthGte'',
         ''lengthLte'', ''empty'', ''notEmpty'']
     | ObjectT \<Rightarrow> [''empty'', ''notEmpty'']
     | DateTimeT \<Rightarrow> [''empty'', ''notEmpty'', ''equals'', ''notEquals'', ''after'', ''before'', ''afterOrEquals'', ''beforeOrEquals'']
     | AnyT \<Rightarrow> [])"

definition operations :: "FilterOperatorType \<Rightarrow> string list" where
  "operations typ = [''exists'', ''notExists''] @ ownOperations typ"

text \<open>The values that parsing leaves for a type: none, or one of the type.\<close>

definition typed :: "FilterOperatorType \<Rightarrow> jsval \<Rightarrow> bool" where
  "typed typ v \<longleftrightarrow> v = JNull \<or> v = JUndefined \<or> (case typ of
       StringT \<Rightarrow> typeof v = ''string''
     | DateTimeT \<Rightarrow> (\<exists>t. v = JDate t)
     | ArrayT \<Rightarrow> isArray v
     | _ \<Rightarrow> True)"

lemma type_words: "toLowerCase ''string'' = ''string''" "toLowerCase ''dateTime'' = ''datetime''" "toLowerCase ''array'' = ''array''"
  by code_simp+

lemma validated_typed:
  assumes "validateValue env v typ (Some strict) = Some w" and "v \<noteq> JNull" "v \<noteq> JUndefined"
  shows "typed typ w"
proof (cases "typ")
  case StringT
  then show ?thesis using assms
    by (auto simp: validateValue_def validateFieldType_def type_words typed_def Let_def split: if_splits validationResult.splits option.splits)
next
  case DateTimeT
  then show ?thesis using assms dateTime_again [of "typeEnv.truncate env" v w]
    by (auto simp: validateValue_def validateFieldType_def type_words typed_def Let_def orInvalid_def
        split: if_splits validationResult.splits option.splits)
next
  case ArrayT
  then show ?thesis using assms array_again [of "typeEnv.truncate env" v w]
    by (auto simp: validateValue_def validateFieldType_def type_words typed_def Let_def orInvalid_def
        split: if_splits validationResult.splits option.splits)
qed (simp_all add: typed_def)

lemma parsed_typed: "parseSingleFilterValue env v typ strict version = Some w \<Longrightarrow> typed typ w"
  using validated_typed [of env v "typ" strict w]
  by (auto simp: parseSingleFilterValue_def typed_def split: if_splits option.splits)

lemma condition_typed:
  assumes "parseFilterConditionValues env cond options m = Inr (l, r)"
  shows "typed (fo_type (fc_operator cond)) l \<and>
    typed (case fo_rightType (fc_operator cond) of Some t \<Rightarrow> t | None \<Rightarrow> fo_type (fc_operator cond)) r"
proof -
  have undefined: "typed t JUndefined" for t by (simp add: typed_def)
  show ?thesis using assms parsed_typed undefined
    by (auto simp: parseFilterConditionValues_def Let_def split: if_splits option.splits)
qed

lemma typed_text: "typed StringT v \<Longrightarrow> \<exists>s. orEmpty (if c then lowered env v else v) = JStr s"
  by (cases v) (auto simp: typed_def orEmpty_def lowered_def)

definition no_type_error :: "caseResult \<Rightarrow> bool" where
  "no_type_error r \<longleftrightarrow> r \<noteq> None \<and> r \<noteq> Some (Inl (Thrown TypeError))"

lemma negateResult_type_error: "negateResult x \<noteq> Inl (Thrown TypeError) \<longleftrightarrow> x \<noteq> Inl (Thrown TypeError)"
  by (cases x) auto

lemma testRegex_type_error: "testRegex env p s \<noteq> Inl (Thrown TypeError)"
  by (auto simp: testRegex_def Let_def split: prod.splits option.splits)

lemma string_typed:
  assumes "typed StringT l" "typed StringT r"
  shows "\<forall>op \<in> set (ownOperations StringT). no_type_error (stringCase env ic op l r)"
proof -
  have "no_type_error (stringCase env ic op l r)" if "op \<in> set (ownOperations StringT)" for op
  proof -
    obtain a where a: "orEmpty (if ic then lowered env l else l) = JStr a" using typed_text [OF assms(1)] by blast
    obtain b where b: "orEmpty (if ic \<and> \<not> (op = ''regex'' \<or> op = ''notRegex'') then lowered env r else r) = JStr b"
      using typed_text [OF assms(2)] by blast
    have regex: "regexCase env (JStr a) (JStr b) \<noteq> Inl (Thrown TypeError)"
      by (simp add: regexCase_def testRegex_type_error)
    note case_def = stringCase_def [of env ic op l r, unfolded Let_def a b]
    have "\<forall>op' \<in> set (ownOperations StringT). op = op' \<longrightarrow> no_type_error (stringCase env ic op l r)"
      unfolding case_def by (simp add: ownOperations_def no_type_error_def regex negateResult_type_error includesText_def affixOf_def)
    then show ?thesis using that by blast
  qed
  then show ?thesis by blast
qed

lemma date_typed:
  assumes "typed DateTimeT l" "typed DateTimeT r"
  shows "\<forall>op \<in> set (ownOperations DateTimeT). no_type_error (dateTimeCase op ex l r)"
proof -
  have "\<not> truthy v \<or> (\<exists>t. v = JDate t)" if "typed DateTimeT v" for v using that by (auto simp: typed_def)
  then have "(\<not> truthy l \<or> \<not> truthy r) \<or> (\<exists>t u. l = JDate t \<and> r = JDate u)" using assms by blast
  then show ?thesis by (elim disjE exE conjE) (simp_all add: ownOperations_def dateTimeCase_def no_type_error_def millis_def)
qed

lemma array_typed:
  assumes "typed ArrayT l"
  shows "\<forall>op \<in> set (ownOperations ArrayT). no_type_error (arrayCase env ic op l r)"
proof -
  obtain xs where "(if l = JNull \<or> l = JUndefined then JArr [] else l) = JArr xs"
    using assms by (auto simp: typed_def isArray_iff)
  then show ?thesis by (simp add: ownOperations_def arrayCase_def no_type_error_def Let_def)
qed

lemma other_typed:
  "\<forall>op \<in> set (ownOperations NumberT). no_type_error (numberCase env op ex l r)"
  "\<forall>op \<in> set (ownOperations BooleanT). no_type_error (booleanCase env op ex l r)"
  "\<forall>op \<in> set (ownOperations ObjectT). no_type_error (objectCase op l)"
  by (simp_all add: ownOperations_def numberCase_def booleanCase_def objectCase_def no_type_error_def)

lemma first_no_type_error: "no_type_error c \<Longrightarrow> no_type_error (first_case (c # cs))"
  by (cases c) (auto simp: no_type_error_def)

text \<open>C24. A condition with an operation of its type throws no type error: its values have been validated. The right value of a text or
  a date has to be one, too.\<close>

theorem operations_get_their_types:
  assumes "fo_operation (fc_operator cond) \<in> set (operations (fo_type (fc_operator cond)))"
    and "fo_type (fc_operator cond) \<in> {StringT, DateTimeT} \<Longrightarrow> fo_rightType (fc_operator cond) = None"
  shows "executeFilterCondition env cond options m \<noteq> Inl (Thrown TypeError)"
proof (cases "parseFilterConditionValues env cond options m")
  case (Inl e)
  then have "e \<noteq> Thrown TypeError" by (auto simp: parseFilterConditionValues_def Let_def split: if_splits)
  then show ?thesis using Inl by (simp add: executeFilterCondition_def Let_def)
next
  case (Inr lr)
  obtain l r where lr: "parseFilterConditionValues env cond options m = Inr (l, r)" using Inr by (cases lr) simp
  let ?op = "fo_operation (fc_operator cond)" and ?ft = "fo_type (fc_operator cond)"
  have l: "typed ?ft l" and r: "?ft \<in> {StringT, DateTimeT} \<Longrightarrow> typed ?ft r"
    using condition_typed [OF lr] assms(2) by auto
  have "no_type_error (first_case (casesOf env ic ?ft ?op l r))" if "?op \<in> set (ownOperations ?ft)" for ic
  proof (cases ?ft)
    case AnyT
    then show ?thesis using that by (simp add: ownOperations_def)
  qed (use l r that string_typed date_typed array_typed other_typed in
      \<open>simp_all only: casesOf_def Let_def FilterOperatorType.case, (auto intro!: first_no_type_error)\<close>)
  then have "no_type_error (first_case (casesOf env ic ?ft ?op l r))" if "?op \<noteq> ''exists''" "?op \<noteq> ''notExists''" for ic
    using that assms(1) by (simp add: operations_def)
  then show ?thesis
    by (auto simp: executeFilterCondition_cases [OF lr] no_type_error_def Let_def split: option.split)
qed

text \<open>An environment with the letters as they are, in which no regular expression matches.\<close>

definition plainEnv :: filterEnv where
  "plainEnv = typeEnv.extend plainTypeEnv (filterEnv.fields (\<lambda>s. s) (\<lambda>_ _ _. Some False) (\<lambda>_ _. False))"

definition strictOptions :: FilterOptionsValue where
  "strictOptions = \<lparr>fp_caseSensitive = True, fp_strict = True, fp_version = 2\<rparr>"

definition cond_of :: "FilterOperatorType \<Rightarrow> string \<Rightarrow> jsval \<Rightarrow> jsval \<Rightarrow> FilterConditionValue" where
  "cond_of typ op l r = \<lparr>fc_leftValue = l, fc_operator = \<lparr>fo_type = typ, fo_operation = op, fo_rightType = None, fo_singleValue = False\<rparr>,
     fc_rightValue = r\<rparr>"

definition noMetadata :: FilterConditionMetadata where
  "noMetadata = \<lparr>fm_index = 0, fm_unresolvedExpressions = False, fm_itemIndex = 0, fm_inline = False\<rparr>"

theorem opposite_operators_witness:
  "executeFilterCondition plainEnv (with_operation ''notContains'' (cond_of StringT ''contains'' (JStr ''workflow'') (JStr ''flow''))) strictOptions noMetadata =
    negateResult (executeFilterCondition plainEnv (with_operation ''contains'' (cond_of StringT ''contains'' (JStr ''workflow'') (JStr ''flow''))) strictOptions noMetadata)"
  by (rule opposite_operators) (simp add: cond_of_def opposites_def)

theorem operations_get_their_types_witness:
  "executeFilterCondition plainEnv (cond_of StringT ''contains'' (JNum (Fin 5)) (JStr ''flow'')) (strictOptions\<lparr>fp_strict := False\<rparr>)
     noMetadata \<noteq> Inl (Thrown TypeError)"
  by (rule operations_get_their_types) (simp_all add: cond_of_def operations_def ownOperations_def)

text \<open>A date that is missing is neither equal nor unequal to another.\<close>

lemma missing_dates_have_no_opposite:
  "executeFilterCondition plainEnv (cond_of DateTimeT ''equals'' JNull (JDate 5)) strictOptions noMetadata = Inr False"
  "executeFilterCondition plainEnv (cond_of DateTimeT ''notEquals'' JNull (JDate 5)) strictOptions noMetadata = Inr False"
  by code_simp+

text \<open>A missing number counts as zero in a comparison, though it is not equal to zero.\<close>

lemma missing_number_is_zero:
  "executeFilterCondition plainEnv (cond_of NumberT ''lt'' JNull (JNum (Fin 5))) strictOptions noMetadata = Inr True"
  "executeFilterCondition plainEnv (cond_of NumberT ''equals'' JNull (JNum (Fin 0))) strictOptions noMetadata = Inr False"
  by code_simp+

lemma validateFilterParameter_finds_nothing: "validateFilterParameter env v = []"
proof -
  have "foldl (\<lambda>issues (cond, index). issues) [] xs = []" for xs :: "(FilterConditionValue \<times> nat) list"
    by (induction xs) auto
  then show ?thesis by (simp add: validateFilterParameter_def Let_def)
qed

end
