(* ===== verification/DisplayRules.thy ===== *)
theory DisplayRules
  imports FilterParameter
begin

text \<open>
  Whether a parameter of a node is displayed, \<open>packages/workflow/src/node-helpers.ts\<close>: the conditions of its display options,
  the features of the version of a node, and the rules that show and hide the parameter.

  Parameters are \<open>get\<close> and \<open>isEqual\<close> of lodash, regular expressions, and which objects are the same.

  Theorems: without an expression among its values, a parameter is displayed exactly if all rules that show it hold and no
  rule that hides it does; an expression displays it whatever the rules behind it say.
\<close>

section \<open>Conditions\<close>

datatype DisplayCondition =
    Literal jsval
  | CndEq jsval
  | CndNot jsval
  | CndGte jsval
  | CndLte jsval
  | CndGt jsval
  | CndLt jsval
  | CndBetween jsval jsval
  | CndStartsWith string
  | CndEndsWith string
  | CndIncludes string
  | CndRegex string
  | CndExists
  | CndOther string

record displayEnv = filterEnv +
  env_get :: "jsval \<Rightarrow> string \<Rightarrow> jsval"
  env_isEqual :: "jsval \<Rightarrow> jsval \<Rightarrow> bool"

text \<open>Only texts have \<open>startsWith\<close> and \<open>endsWith\<close>; lists have an \<open>includes\<close> of their own.\<close>

definition onText :: "(string \<Rightarrow> bool) \<Rightarrow> jsval \<Rightarrow> bool res" where
  "onText p v = (case v of JStr s \<Rightarrow> Inr (p s) | _ \<Rightarrow> Inl TypeError)"

definition includesValue :: "displayEnv \<Rightarrow> jsval list \<Rightarrow> jsval \<Rightarrow> bool" where
  "includesValue env vs v \<longleftrightarrow> (\<exists>x \<in> set vs. sameValueZero (filterEnv.truncate env) x v)"

fun holdsFor :: "displayEnv \<Rightarrow> DisplayCondition \<Rightarrow> jsval \<Rightarrow> bool res" where
  "holdsFor env (CndEq t) v = Inr (env_isEqual env v t)"
| "holdsFor env (CndNot t) v = Inr (\<not> env_isEqual env v t)"
| "holdsFor env (CndGte t) v = Inr (js_atMost (typeEnv.truncate env) t v)"
| "holdsFor env (CndLte t) v = Inr (js_atMost (typeEnv.truncate env) v t)"
| "holdsFor env (CndGt t) v = Inr (js_less (typeEnv.truncate env) t v)"
| "holdsFor env (CndLt t) v = Inr (js_less (typeEnv.truncate env) v t)"
| "holdsFor env (CndBetween lower upper) v = Inr (js_atMost (typeEnv.truncate env) lower v \<and> js_atMost (typeEnv.truncate env) v upper)"
| "holdsFor env (CndIncludes t) v = (case v of JArr xs \<Rightarrow> Inr (includesValue env xs (JStr t)) | _ \<Rightarrow> onText (sublist t) v)"
| "holdsFor env (CndStartsWith t) v = onText (prefix t) v"
| "holdsFor env (CndEndsWith t) v = onText (suffix t) v"
| "holdsFor env (CndRegex t) v = (case env_regex env t [] (stringOf (filterEnv.truncate env) v) of
     None \<Rightarrow> Inl (ApplicationError ''Invalid regular expression'') | Some b \<Rightarrow> Inr b)"
| "holdsFor env CndExists v = Inr (v \<noteq> JNull \<and> v \<noteq> JUndefined \<and> v \<noteq> JStr [])"
| "holdsFor env (CndOther _) v = Inr False"
| "holdsFor env (Literal _) v = Inr False"

definition checkCondition :: "displayEnv \<Rightarrow> jsval list \<Rightarrow> DisplayCondition \<Rightarrow> bool res" where
  "checkCondition env actualValues condition = (case condition of
       Literal v \<Rightarrow> Inr (includesValue env actualValues v)
     | _ \<Rightarrow> if length actualValues = 0 then Inr (case condition of CndNot _ \<Rightarrow> True | _ \<Rightarrow> False)
           else every (holdsFor env condition) actualValues)"

definition checkConditions :: "displayEnv \<Rightarrow> DisplayCondition list \<Rightarrow> jsval list \<Rightarrow> bool res" where
  "checkConditions env conditions actualValues = some (checkCondition env actualValues) conditions"

section \<open>Features of a node version\<close>

type_synonym NodeFeaturesDefinition = "(string \<times> DisplayCondition list) list"

definition evaluateFeature :: "displayEnv \<Rightarrow> DisplayCondition list \<Rightarrow> jsnum \<Rightarrow> bool res" where
  "evaluateFeature env featureDef nodeVersion = checkConditions env featureDef [JNum nodeVersion]"

fun featuresOf :: "displayEnv \<Rightarrow> NodeFeaturesDefinition \<Rightarrow> jsnum \<Rightarrow> (string \<times> bool) list res" where
  "featuresOf env [] nodeVersion = Inr []"
| "featuresOf env ((featureName, condition) # defs) nodeVersion =
     rbind (evaluateFeature env condition nodeVersion) (\<lambda>b.
     rbind (featuresOf env defs nodeVersion) (\<lambda>rest. Inr ((featureName, b) # rest)))"

definition getNodeFeatures :: "displayEnv \<Rightarrow> NodeFeaturesDefinition option \<Rightarrow> jsnum \<Rightarrow> (string \<times> bool) list res" where
  "getNodeFeatures env featuresDef nodeVersion =
     (case featuresDef of None \<Rightarrow> Inr [] | Some defs \<Rightarrow> featuresOf env defs nodeVersion)"

section \<open>The values of a rule\<close>

record displayNode =
  dn_typeVersion :: "jsnum option"

record displayNodeType =
  dt_name :: string
  dt_features :: "NodeFeaturesDefinition option"

definition truthyVersion :: "displayNode option \<Rightarrow> jsnum option" where
  "truthyVersion node = (case node of None \<Rightarrow> None
     | Some n \<Rightarrow> (case dn_typeVersion n of None \<Rightarrow> None | Some v \<Rightarrow> if truthy (JNum v) then Some v else None))"

definition featureValues :: "displayEnv \<Rightarrow> displayNode option \<Rightarrow> displayNodeType option \<Rightarrow> jsval list res" where
  "featureValues env node nodeType = (case (Option.bind nodeType dt_features, truthyVersion node) of
       (Some defs, Some v) \<Rightarrow>
         rbind (getNodeFeatures env (Some defs) v) (\<lambda>features. Inr (map (JStr \<circ> fst) (filter snd features)))
     | _ \<Rightarrow> Inr [])"

text \<open>A resource locator counts as its value.\<close>

definition locatorValue :: "jsval \<Rightarrow> jsval" where
  "locatorValue v = (case v of
       JObj ps \<Rightarrow> (case map_of ps ''__rl'' of
           Some rl \<Rightarrow> if truthy rl then (case map_of ps ''value'' of Some x \<Rightarrow> x | None \<Rightarrow> JUndefined) else v
         | None \<Rightarrow> v)
     | _ \<Rightarrow> v)"

definition asValues :: "jsval \<Rightarrow> jsval list" where
  "asValues v = (case locatorValue v of JArr xs \<Rightarrow> xs | w \<Rightarrow> [w])"

definition getPropertyValues ::
    "displayEnv \<Rightarrow> jsval \<Rightarrow> string \<Rightarrow> displayNode option \<Rightarrow> displayNodeType option \<Rightarrow> jsval \<Rightarrow> jsval list res" where
  "getPropertyValues env nodeValues propertyName node nodeType nodeValuesRoot =
     (if take 1 propertyName = ''/'' then Inr (asValues (env_get env nodeValuesRoot (drop 1 propertyName)))
      else if propertyName = ''@version'' then
        Inr (asValues (JNum (case truthyVersion node of Some v \<Rightarrow> v | None \<Rightarrow> Fin 0)))
      else if propertyName = ''@tool'' then
        Inr (asValues (JBool (case nodeType of Some t \<Rightarrow> suffix ''Tool'' (dt_name t) | None \<Rightarrow> False)))
      else if propertyName = ''@feature'' then featureValues env node nodeType
      else Inr (asValues (env_get env nodeValues propertyName)))"

section \<open>Displaying a parameter\<close>

type_synonym displayRule = "string \<times> DisplayCondition list option"

record IDisplayOptions =
  do_show :: "displayRule list option"
  do_hide :: "displayRule list option"

text \<open>A loop over rules returns a result, or ends without one.\<close>

definition rule_holds :: "displayEnv \<Rightarrow> displayRule \<Rightarrow> jsval list \<Rightarrow> bool res" where
  "rule_holds env rule vs = (case snd rule of None \<Rightarrow> Inl TypeError | Some conditions \<Rightarrow> checkConditions env conditions vs)"

fun showLoop :: "displayEnv \<Rightarrow> (string \<Rightarrow> jsval list res) \<Rightarrow> displayRule list \<Rightarrow> bool option res" where
  "showLoop env valuesOf [] = Inr None"
| "showLoop env valuesOf (rule # rules) = rbind (valuesOf (fst rule)) (\<lambda>vs.
     if \<exists>v \<in> set vs. isExpression v then Inr (Some True)
     else rbind (rule_holds env rule vs) (\<lambda>b. if b then showLoop env valuesOf rules else Inr (Some False)))"

fun hideLoop :: "displayEnv \<Rightarrow> (string \<Rightarrow> jsval list res) \<Rightarrow> displayRule list \<Rightarrow> bool option res" where
  "hideLoop env valuesOf [] = Inr None"
| "hideLoop env valuesOf (rule # rules) = rbind (valuesOf (fst rule)) (\<lambda>vs.
     if length vs = 0 then hideLoop env valuesOf rules
     else rbind (rule_holds env rule vs) (\<lambda>b. if b then Inr (Some False) else hideLoop env valuesOf rules))"

definition rules_of :: "displayRule list option \<Rightarrow> displayRule list" where
  "rules_of r = (case r of None \<Rightarrow> [] | Some rules \<Rightarrow> rules)"

definition displayParameter :: "displayEnv \<Rightarrow> jsval \<Rightarrow> IDisplayOptions option \<Rightarrow> displayNode option \<Rightarrow>
    displayNodeType option \<Rightarrow> jsval option \<Rightarrow> bool res" where
  "displayParameter env nodeValues options node nodeType nodeValuesRoot = (case options of
       None \<Rightarrow> Inr True
     | Some opts \<Rightarrow>
         let root = (case nodeValuesRoot of Some r \<Rightarrow> if truthy r then r else nodeValues | None \<Rightarrow> nodeValues);
             valuesOf = (\<lambda>name. getPropertyValues env nodeValues name node nodeType root)
         in rbind (showLoop env valuesOf (rules_of (do_show opts))) (\<lambda>shown.
            case shown of Some b \<Rightarrow> Inr b
            | None \<Rightarrow> rbind (hideLoop env valuesOf (rules_of (do_hide opts))) (\<lambda>hidden.
                case hidden of Some b \<Rightarrow> Inr b | None \<Rightarrow> Inr True)))"

definition displayParameterPath :: "displayEnv \<Rightarrow> jsval \<Rightarrow> IDisplayOptions option \<Rightarrow> string \<Rightarrow> displayNode option \<Rightarrow>
    displayNodeType option \<Rightarrow> bool res" where
  "displayParameterPath env nodeValues options path node nodeType =
     (let resolvedNodeValues = (if path \<noteq> [] then env_get env nodeValues path else nodeValues);
          nodeValuesRoot = (if takeWhile (\<lambda>c. c \<noteq> CHR ''.'') path = ''parameters'' then env_get env nodeValues ''parameters''
            else nodeValues)
      in displayParameter env resolvedNodeValues options node nodeType (Some nodeValuesRoot))"

section \<open>What conditions say\<close>

lemma every_values: "(\<And>x. x \<in> set xs \<Longrightarrow> p x = Inr (q x)) \<Longrightarrow> every p xs = Inr (\<forall>x \<in> set xs. q x)"
  by (induction xs) auto

lemma some_values: "(\<And>x. x \<in> set xs \<Longrightarrow> p x = Inr (q x)) \<Longrightarrow> some p xs = Inr (\<exists>x \<in> set xs. q x)"
  by (induction xs) auto

text \<open>Values hold if one of them is among the actual values.\<close>

lemma checkConditions_literals:
  "checkConditions env (map Literal vs) actual = Inr (\<exists>v \<in> set vs. includesValue env actual v)"
proof -
  have "checkConditions env (map Literal vs) actual = some (\<lambda>v. checkCondition env actual (Literal v)) vs"
    unfolding checkConditions_def by (induction vs) (auto split: sum.split)
  then show ?thesis by (simp add: checkCondition_def some_values)
qed

lemma featuresOf_enabled:
  "featuresOf env defs v = Inr fs \<Longrightarrow>
     map fst fs = map fst defs \<and> (\<forall>(f, b) \<in> set fs. \<exists>c. (f, c) \<in> set defs \<and> evaluateFeature env c v = Inr b)"
proof (induction defs arbitrary: fs)
  case (Cons d defs)
  obtain f c where d: "d = (f, c)" by (cases d)
  obtain b rest where "evaluateFeature env c v = Inr b" "featuresOf env defs v = Inr rest" "fs = (f, b) # rest"
    using Cons.prems unfolding d by (auto simp: rbind_def split: sum.splits)
  then show ?case using Cons.IH [of rest] d by auto
qed simp

section \<open>Which parameters are displayed\<close>

definition rule_applies :: "displayEnv \<Rightarrow> (string \<Rightarrow> jsval list res) \<Rightarrow> displayRule \<Rightarrow> bool" where
  "rule_applies env valuesOf rule \<longleftrightarrow> (\<exists>vs. valuesOf (fst rule) = Inr vs \<and> rule_holds env rule vs = Inr True)"

definition rule_has_values :: "(string \<Rightarrow> jsval list res) \<Rightarrow> displayRule \<Rightarrow> bool" where
  "rule_has_values valuesOf rule \<longleftrightarrow> valuesOf (fst rule) \<noteq> Inr []"

definition rule_expression :: "(string \<Rightarrow> jsval list res) \<Rightarrow> displayRule \<Rightarrow> bool" where
  "rule_expression valuesOf rule \<longleftrightarrow> (\<exists>vs. valuesOf (fst rule) = Inr vs \<and> (\<exists>v \<in> set vs. isExpression v))"

text \<open>The show rules are read up to the first that has an expression or does not hold.\<close>

lemma showLoop_result:
  "showLoop env valuesOf rules = Inr r \<Longrightarrow>
    (case dropWhile (\<lambda>rule. rule_applies env valuesOf rule \<and> \<not> rule_expression valuesOf rule) rules of
       [] \<Rightarrow> r = None
     | rule # _ \<Rightarrow> r = Some (rule_expression valuesOf rule))"
proof (induction rules)
  case (Cons rule rules)
  obtain vs where vs: "valuesOf (fst rule) = Inr vs" using Cons.prems by (auto simp: rbind_def split: sum.splits)
  show ?case
  proof (cases "\<exists>v \<in> set vs. isExpression v")
    case True
    then have "rule_expression valuesOf rule" "r = Some True" using Cons.prems vs by (auto simp: rule_expression_def)
    then show ?thesis by simp
  next
    case False
    then obtain b where b: "rule_holds env rule vs = Inr b" using Cons.prems vs by (auto simp: rbind_def split: sum.splits)
    then have "rule_applies env valuesOf rule = b" "\<not> rule_expression valuesOf rule"
      using vs False by (simp_all add: rule_applies_def rule_expression_def)
    moreover have "b \<Longrightarrow> showLoop env valuesOf rules = Inr r" and "\<not> b \<Longrightarrow> r = Some False"
      using Cons.prems vs False b by simp_all
    ultimately show ?thesis using Cons.IH by (cases b) simp_all
  qed
qed simp

lemma hideLoop_result:
  "hideLoop env valuesOf rules = Inr r \<Longrightarrow>
    r = (if \<exists>rule \<in> set rules. rule_has_values valuesOf rule \<and> rule_applies env valuesOf rule then Some False else None)"
proof (induction rules)
  case (Cons rule rules)
  obtain vs where vs: "valuesOf (fst rule) = Inr vs" using Cons.prems by (auto simp: rbind_def split: sum.splits)
  show ?case
  proof (cases "vs = []")
    case True
    then show ?thesis using Cons vs by (simp add: rule_has_values_def)
  next
    case False
    then obtain b where b: "rule_holds env rule vs = Inr b" using Cons.prems vs by (auto simp: rbind_def split: sum.splits)
    then have "rule_applies env valuesOf rule = b" "rule_has_values valuesOf rule"
      using vs False by (simp_all add: rule_applies_def rule_has_values_def)
    moreover have "\<not> b \<Longrightarrow> hideLoop env valuesOf rules = Inr r" and "b \<Longrightarrow> r = Some False"
      using Cons.prems vs False b by simp_all
    ultimately show ?thesis using Cons.IH by (cases b) simp_all
  qed
qed simp

definition values_for :: "displayEnv \<Rightarrow> jsval \<Rightarrow> displayNode option \<Rightarrow> displayNodeType option \<Rightarrow> jsval option \<Rightarrow> string \<Rightarrow> jsval list res" where
  "values_for env nodeValues node nodeType nodeValuesRoot = (\<lambda>name. getPropertyValues env nodeValues name node nodeType
     (case nodeValuesRoot of Some r \<Rightarrow> if truthy r then r else nodeValues | None \<Rightarrow> nodeValues))"

lemma displayParameter_loops:
  "displayParameter env nv (Some opts) node nt nvr =
     rbind (showLoop env (values_for env nv node nt nvr) (rules_of (do_show opts))) (\<lambda>shown. case shown of Some b \<Rightarrow> Inr b
      | None \<Rightarrow> rbind (hideLoop env (values_for env nv node nt nvr) (rules_of (do_hide opts)))
          (\<lambda>hidden. case hidden of Some b \<Rightarrow> Inr b | None \<Rightarrow> Inr True))"
  unfolding displayParameter_def Let_def values_for_def option.case ..

lemma displayParameter_cases:
  "displayParameter env nv (Some opts) node nt nvr = Inr b \<Longrightarrow> \<exists>shown.
     showLoop env (values_for env nv node nt nvr) (rules_of (do_show opts)) = Inr shown \<and>
     (case shown of Some s \<Rightarrow> b = s
      | None \<Rightarrow> \<exists>hidden. hideLoop env (values_for env nv node nt nvr) (rules_of (do_hide opts)) = Inr hidden \<and> b = (hidden = None)) \<and>
     (case shown of Some s \<Rightarrow> True | None \<Rightarrow>
       hideLoop env (values_for env nv node nt nvr) (rules_of (do_hide opts)) \<in> {Inr None, Inr (Some False)})"
proof -
  assume res: "displayParameter env nv (Some opts) node nt nvr = Inr b"
  let ?vo = "values_for env nv node nt nvr"
  have res': "rbind (showLoop env ?vo (rules_of (do_show opts))) (\<lambda>shown. case shown of Some b \<Rightarrow> Inr b
      | None \<Rightarrow> rbind (hideLoop env ?vo (rules_of (do_hide opts))) (\<lambda>hidden. case hidden of Some b \<Rightarrow> Inr b | None \<Rightarrow> Inr True)) = Inr b"
    using res unfolding displayParameter_loops .
  then obtain shown where shown: "showLoop env ?vo (rules_of (do_show opts)) = Inr shown" by (auto simp: rbind_def split: sum.splits)
  show ?thesis
  proof (cases shown)
    case (Some s)
    then show ?thesis using res' shown by simp
  next
    case None
    then obtain hidden where hidden: "hideLoop env ?vo (rules_of (do_hide opts)) = Inr hidden"
      using res' shown by (auto simp: rbind_def split: sum.splits)
    then have "hidden = None \<or> hidden = Some False" using hideLoop_result [OF hidden] by (auto split: if_splits)
    then show ?thesis using res' shown None hidden by auto
  qed
qed

text \<open>C22. Without expressions, a parameter is displayed exactly if all rules that show it hold and none that hides it does.\<close>

theorem displayParameter_iff:
  assumes "displayParameter env nv (Some opts) node nt nvr = Inr b"
    and "\<forall>rule \<in> set (rules_of (do_show opts)). \<not> rule_expression (values_for env nv node nt nvr) rule"
  shows "b \<longleftrightarrow> (\<forall>rule \<in> set (rules_of (do_show opts)). rule_applies env (values_for env nv node nt nvr) rule) \<and>
    \<not> (\<exists>rule \<in> set (rules_of (do_hide opts)). rule_has_values (values_for env nv node nt nvr) rule \<and>
         rule_applies env (values_for env nv node nt nvr) rule)"
proof -
  let ?vo = "values_for env nv node nt nvr" and ?shows = "rules_of (do_show opts)"
  let ?p = "\<lambda>rule. rule_applies env ?vo rule \<and> \<not> rule_expression ?vo rule"
  obtain shown where shown: "showLoop env ?vo ?shows = Inr shown" and
    b: "case shown of Some s \<Rightarrow> b = s
      | None \<Rightarrow> \<exists>hidden. hideLoop env ?vo (rules_of (do_hide opts)) = Inr hidden \<and> b = (hidden = None)"
    using displayParameter_cases [OF assms(1)] by blast
  show ?thesis
  proof (cases "dropWhile ?p ?shows")
    case Nil
    then have "shown = None" using showLoop_result [OF shown] unfolding Nil by simp
    moreover have "\<forall>rule \<in> set ?shows. ?p rule" using Nil by (simp add: dropWhile_eq_Nil_conv)
    ultimately show ?thesis using b hideLoop_result [of env ?vo "rules_of (do_hide opts)"] by (auto split: if_splits)
  next
    case (Cons rule rest)
    have rule: "rule \<in> set ?shows" "\<not> ?p rule"
      using set_dropWhileD [of rule ?p ?shows] hd_dropWhile [of ?p ?shows] Cons by auto
    then have "\<not> rule_expression ?vo rule" "\<not> rule_applies env ?vo rule" using assms(2) by blast+
    moreover have "shown = Some (rule_expression ?vo rule)" using showLoop_result [OF shown] unfolding Cons by simp
    ultimately show ?thesis using b rule(1) by auto
  qed
qed

text \<open>The first show rule that does not hold or has an expression decides: with an expression the parameter is displayed, whatever
  the rules behind it and those that hide say.\<close>

theorem expression_displays:
  assumes "rules_of (do_show opts) = before @ rule # rest"
    and "\<forall>r \<in> set before. rule_applies env (values_for env nv node nt nvr) r \<and> \<not> rule_expression (values_for env nv node nt nvr) r"
    and "rule_expression (values_for env nv node nt nvr) rule"
  shows "displayParameter env nv (Some opts) node nt nvr = Inr True"
proof -
  let ?vo = "values_for env nv node nt nvr"
  have "showLoop env ?vo (before @ rule # rest) = Inr (Some True)" using assms(2)
  proof (induction before)
    case Nil
    show ?case using assms(3) by (auto simp: rule_expression_def)
  next
    case (Cons r before)
    then obtain vs where "?vo (fst r) = Inr vs" "rule_holds env r vs = Inr True" "\<not> (\<exists>v \<in> set vs. isExpression v)"
      by (auto simp: rule_applies_def rule_expression_def)
    then show ?case using Cons by simp
  qed
  then show ?thesis unfolding displayParameter_loops assms(1) by simp
qed

section \<open>Examples\<close>

text \<open>An environment whose \<open>get\<close> looks up one name.\<close>

definition plainDisplayEnv :: displayEnv where
  "plainDisplayEnv = filterEnv.extend plainEnv (displayEnv.fields
     (\<lambda>v name. case v of JObj ps \<Rightarrow> (case map_of ps name of Some x \<Rightarrow> x | None \<Rightarrow> JUndefined) | _ \<Rightarrow> JUndefined)
     (\<lambda>a b. a = b))"

definition messageParameter :: IDisplayOptions where
  "messageParameter = \<lparr>do_show = Some [(''resource'', Some [Literal (JStr ''message'')]), (''@version'', Some [CndGte (JNum (Fin 2))])],
     do_hide = Some [(''operation'', Some [Literal (JStr ''delete'')])]\<rparr>"

lemmas display_eval = displayParameter_def messageParameter_def rules_of_def getPropertyValues_def asValues_def locatorValue_def
  plainDisplayEnv_def rule_holds_def checkConditions_def checkCondition_def includesValue_def sameValueZero_def truthyVersion_def
  js_atMost_def isExpression_def filterEnv.defs displayEnv.defs

theorem displayParameter_iff_witness:
  "True \<longleftrightarrow> (\<forall>rule \<in> set (rules_of (do_show messageParameter)). rule_applies plainDisplayEnv (values_for plainDisplayEnv
      (JObj [(''resource'', JStr ''message''), (''operation'', JStr ''send'')]) (Some \<lparr>dn_typeVersion = Some (Fin 2)\<rparr>) None None) rule) \<and>
    \<not> (\<exists>rule \<in> set (rules_of (do_hide messageParameter)).
        rule_has_values (values_for plainDisplayEnv (JObj [(''resource'', JStr ''message''), (''operation'', JStr ''send'')])
          (Some \<lparr>dn_typeVersion = Some (Fin 2)\<rparr>) None None) rule \<and>
        rule_applies plainDisplayEnv (values_for plainDisplayEnv (JObj [(''resource'', JStr ''message''), (''operation'', JStr ''send'')])
          (Some \<lparr>dn_typeVersion = Some (Fin 2)\<rparr>) None None) rule)"
proof (rule displayParameter_iff)
  show "displayParameter plainDisplayEnv (JObj [(''resource'', JStr ''message''), (''operation'', JStr ''send'')]) (Some messageParameter)
      (Some \<lparr>dn_typeVersion = Some (Fin 2)\<rparr>) None None = Inr True"
    by code_simp
qed (auto simp: display_eval rule_expression_def values_for_def)

theorem expression_displays_witness:
  "displayParameter plainDisplayEnv (JObj [(''resource'', JStr ''={{ $json.r }}''), (''operation'', JStr ''delete'')])
     (Some messageParameter) None None None = Inr True"
  by (rule expression_displays [where before = "[]" and rule = "(''resource'', Some [Literal (JStr ''message'')])"
        and rest = "[(''@version'', Some [CndGte (JNum (Fin 2))])]"])
    (auto simp: display_eval rule_expression_def values_for_def)

end
