(* ===== verification/ParameterOrder.thy ===== *)
theory ParameterOrder
  imports Prelude
begin

text \<open>
  In which order the parameters of a node are resolved, \<open>packages/workflow/src/node-helpers.ts\<close>: which parameters the display
  rules of a parameter name, and an order that has them before it.

  A parameter is given by its name and the names in its display rules. The loop keeps a queue of indexes; one unit of fuel is
  one round, and \<open>resolve_fuel\<close> is enough for every input.

  Theorems: the loop ends for all parameters, with an order or the error of the code; with complete dependencies it gives an
  order in which the last occurrence of each parameter has its dependencies before it. The first need not have.
\<close>

section \<open>Dependencies\<close>

record INodeProperty =
  p_name :: string
  p_displayOptions :: "string list list option"

definition starts :: "char \<Rightarrow> string \<Rightarrow> bool" where
  "starts c s \<longleftrightarrow> (case s of [] \<Rightarrow> False | d # _ \<Rightarrow> d = c)"

type_synonym IParameterDependencies = "(string, string list) jsmap"

definition deps_of :: "IParameterDependencies \<Rightarrow> string \<Rightarrow> string list" where
  "deps_of dependencies name = (case map_of dependencies name of None \<Rightarrow> [] | Some ds \<Rightarrow> ds)"

definition addDependency :: "string \<Rightarrow> IParameterDependencies \<Rightarrow> string \<Rightarrow> IParameterDependencies" where
  "addDependency name dependencies parameterName =
     (if parameterName \<in> set (deps_of dependencies name) \<or> starts (CHR ''@'') parameterName then dependencies
      else AList.update name (deps_of dependencies name @ [parameterName]) dependencies)"

definition addProperty :: "IParameterDependencies \<Rightarrow> INodeProperty \<Rightarrow> IParameterDependencies" where
  "addProperty dependencies p =
     (let name = p_name p;
          dependencies = (if map_of dependencies name = None then AList.update name [] dependencies else dependencies)
      in case p_displayOptions p of
          None \<Rightarrow> dependencies
        | Some rules \<Rightarrow> foldl (\<lambda>ds rule. foldl (addDependency name) ds rule) dependencies rules)"

definition getParameterDependencies :: "INodeProperty list \<Rightarrow> IParameterDependencies" where
  "getParameterDependencies nodePropertiesArray = foldl addProperty [] nodePropertiesArray"

section \<open>The order\<close>

record resolveState =
  rs_indexToResolve :: "nat list"
  rs_executionOrder :: "nat list"
  rs_resolvedParameters :: "string list"
  rs_lastIndexLength :: nat
  rs_lastIndexReduction :: int
  rs_iterations :: nat

text \<open>Each missing dependency puts the index at the end of the queue once more; the \<open>continue\<close> behind it is one of the inner
  loop, so that the index is added to the order all the same.\<close>

definition missingDependencies :: "IParameterDependencies \<Rightarrow> string list \<Rightarrow> string \<Rightarrow> string list" where
  "missingDependencies dependencies resolved name =
     filter (\<lambda>d. d \<notin> set resolved \<and> \<not> starts (CHR ''/'') d) (deps_of dependencies name)"

fun resolveLoop :: "nat \<Rightarrow> string list \<Rightarrow> IParameterDependencies \<Rightarrow> resolveState \<Rightarrow> nat list res" where
  "resolveLoop 0 names dependencies st = Inl OutOfFuel"
| "resolveLoop (Suc fuel) names dependencies st = (case rs_indexToResolve st of
       [] \<Rightarrow> Inr (rs_executionOrder st)
     | index # queue \<Rightarrow>
         let iterations = rs_iterations st + 1; name = names ! index;
             added = st\<lparr>rs_indexToResolve := queue, rs_executionOrder := rs_executionOrder st @ [index],
               rs_resolvedParameters := rs_resolvedParameters st @ [name], rs_iterations := iterations\<rparr>
         in case map_of dependencies name of
           None \<Rightarrow> Inl TypeError
         | Some ds \<Rightarrow>
            if length ds = 0 then resolveLoop fuel names dependencies added
            else
              let queue = queue @ map (\<lambda>_. index) (missingDependencies dependencies (rs_resolvedParameters st) name);
                  reduction = (if length queue < rs_lastIndexLength st then int iterations else rs_lastIndexReduction st)
              in if int iterations > reduction + int (length names) then Inl (ApplicationError ''Could not resolve parameter dependencies.'')
                 else resolveLoop fuel names dependencies
                   (added\<lparr>rs_indexToResolve := queue, rs_lastIndexReduction := reduction, rs_lastIndexLength := length queue\<rparr>))"

definition resolveStart :: "string list \<Rightarrow> resolveState" where
  "resolveStart names = \<lparr>rs_indexToResolve = [0..<length names], rs_executionOrder = [], rs_resolvedParameters = [],
     rs_lastIndexLength = length names, rs_lastIndexReduction = -1, rs_iterations = 0\<rparr>"

definition all_deps :: "IParameterDependencies \<Rightarrow> string list \<Rightarrow> nat" where
  "all_deps dependencies names = sum_list (map (\<lambda>n. length (deps_of dependencies n)) names)"

definition resolve_fuel :: "string list \<Rightarrow> IParameterDependencies \<Rightarrow> nat" where
  "resolve_fuel names dependencies =
     Suc (length names + (all_deps dependencies names + 1) * (length names + 1) + length names + 1)"

definition getParameterResolveOrder :: "INodeProperty list \<Rightarrow> IParameterDependencies \<Rightarrow> nat list res" where
  "getParameterResolveOrder nodePropertiesArray dependencies =
     (let names = map p_name nodePropertiesArray
      in resolveLoop (resolve_fuel names dependencies) names dependencies (resolveStart names))"

section \<open>One round\<close>

definition round_state :: "string list \<Rightarrow> IParameterDependencies \<Rightarrow> resolveState \<Rightarrow> nat \<Rightarrow> nat list \<Rightarrow> resolveState" where
  "round_state names deps st index queue =
     (let added = st\<lparr>rs_indexToResolve := queue, rs_executionOrder := rs_executionOrder st @ [index],
               rs_resolvedParameters := rs_resolvedParameters st @ [names ! index], rs_iterations := rs_iterations st + 1\<rparr>;
          queue' = queue @ map (\<lambda>_. index) (missingDependencies deps (rs_resolvedParameters st) (names ! index))
      in if deps_of deps (names ! index) = [] then added
         else added\<lparr>rs_indexToResolve := queue',
           rs_lastIndexReduction := (if length queue' < rs_lastIndexLength st then int (rs_iterations st + 1)
                                     else rs_lastIndexReduction st),
           rs_lastIndexLength := length queue'\<rparr>)"

text \<open>A round stops the loop, or continues it with the new state.\<close>

lemma round_cases:
  assumes "rs_indexToResolve st = index # queue"
  shows "(\<exists>e. resolveLoop (Suc fuel) names deps st = Inl e \<and> e \<noteq> OutOfFuel) \<or>
    resolveLoop (Suc fuel) names deps st = resolveLoop fuel names deps (round_state names deps st index queue) \<and>
    (deps_of deps (names ! index) \<noteq> [] \<longrightarrow> int (rs_iterations st + 1) \<le>
       rs_lastIndexReduction (round_state names deps st index queue) + int (length names))"
  using assms by (auto simp: round_state_def deps_of_def Let_def split: option.splits)

lemma missing_none: "deps_of deps n = [] \<Longrightarrow> missingDependencies deps r n = []"
  by (simp add: missingDependencies_def)

lemma round_sel [simp]:
  "rs_indexToResolve (round_state names deps st index queue) =
     queue @ map (\<lambda>_. index) (missingDependencies deps (rs_resolvedParameters st) (names ! index))"
  "rs_executionOrder (round_state names deps st index queue) = rs_executionOrder st @ [index]"
  "rs_resolvedParameters (round_state names deps st index queue) = rs_resolvedParameters st @ [names ! index]"
  "rs_iterations (round_state names deps st index queue) = rs_iterations st + 1"
  by (simp_all add: round_state_def Let_def missing_none)

section \<open>The loop ends\<close>

text \<open>The number of queued indexes that have all dependencies, when every name has been resolved.\<close>

definition complete :: "string list \<Rightarrow> IParameterDependencies \<Rightarrow> nat list \<Rightarrow> nat" where
  "complete names deps queue = length (filter (\<lambda>i. missingDependencies deps names (names ! i) = []) queue)"

definition rounds_left :: "string list \<Rightarrow> IParameterDependencies \<Rightarrow> resolveState \<Rightarrow> nat" where
  "rounds_left names deps st = (complete names deps (rs_indexToResolve st) +
      (if length (rs_indexToResolve st) < rs_lastIndexLength st then 1 else 0)) * (length names + 1) +
    nat (rs_lastIndexReduction st + int (length names) - int (rs_iterations st))"

lemma missing_cong: "set r = set r' \<Longrightarrow> missingDependencies deps r n = missingDependencies deps r' n"
  by (simp add: missingDependencies_def)

lemma later_rounds_end:
  assumes "rounds_left names deps st < fuel"
    and "set (rs_resolvedParameters st) = set names"
    and "\<And>i. i \<in> set (rs_indexToResolve st) \<Longrightarrow> i < length names \<and> deps_of deps (names ! i) \<noteq> []"
    and "length (rs_indexToResolve st) \<le> rs_lastIndexLength st"
  shows "resolveLoop fuel names deps st \<noteq> Inl OutOfFuel"
  using assms
proof (induction fuel arbitrary: st)
  case (Suc fuel)
  show ?case
  proof (cases "rs_indexToResolve st")
    case (Cons index queue)
    let ?name = "names ! index" and ?n = "length names" and ?st' = "round_state names deps st index queue"
    let ?missing = "missingDependencies deps names ?name"
    have index: "index < ?n" "deps_of deps ?name \<noteq> []" using Suc.prems(3) [of index] Cons by simp_all
    have missing: "missingDependencies deps (rs_resolvedParameters st) ?name = ?missing"
      using missing_cong Suc.prems(2) by blast
    have len: "rs_lastIndexLength ?st' = length (rs_indexToResolve ?st')"
      and red: "rs_lastIndexReduction ?st' = (if length (rs_indexToResolve ?st') < rs_lastIndexLength st
        then int (rs_iterations st + 1) else rs_lastIndexReduction st)"
      using index(2) by (simp_all add: round_state_def Let_def)
    have "resolveLoop fuel names deps ?st' \<noteq> Inl OutOfFuel"
      if bound: "int (rs_iterations st + 1) \<le> rs_lastIndexReduction ?st' + int ?n"
    proof (rule Suc.IH)
      have "complete names deps (rs_indexToResolve ?st') = complete names deps queue"
        by (auto simp: complete_def missing filter_empty_conv)
      moreover have "complete names deps (index # queue) = complete names deps queue + (if ?missing = [] then 1 else 0)"
        by (simp add: complete_def)
      moreover have "length queue < rs_lastIndexLength st" using Suc.prems(4) Cons by simp
      ultimately have "rounds_left names deps ?st' < rounds_left names deps st"
        using bound Cons by (cases ?missing) (auto simp: rounds_left_def len red missing algebra_simps)
      then show "rounds_left names deps ?st' < fuel" using Suc.prems(1) by simp
      show "set (rs_resolvedParameters ?st') = set names" using Suc.prems(2) nth_mem [OF index(1)]
        by (simp add: insert_absorb)
      show "i < ?n \<and> deps_of deps (names ! i) \<noteq> []" if "i \<in> set (rs_indexToResolve ?st')" for i
        using that Suc.prems(3) [of i] Cons index by auto
    qed (simp add: len)
    then show ?thesis using round_cases [OF Cons, of fuel names deps] index(2) by auto
  qed simp
qed simp

lemma all_deps_take: "i < length names \<Longrightarrow>
    all_deps deps (take (Suc i) names) = all_deps deps (take i names) + length (deps_of deps (names ! i))"
  by (simp add: all_deps_def take_Suc_conv_app_nth)

lemma first_round_ends:
  assumes "rs_indexToResolve st = [i..<length names] @ extra" "i \<le> length names"
    and "set (rs_resolvedParameters st) = set (take i names)"
    and "\<And>j. j \<in> set extra \<Longrightarrow> j < length names \<and> deps_of deps (names ! j) \<noteq> []"
    and "length (rs_indexToResolve st) \<le> rs_lastIndexLength st"
    and "length extra \<le> all_deps deps (take i names)"
    and "rs_lastIndexReduction st \<le> int (rs_iterations st)"
    and "length names - i + (all_deps deps names + 1) * (length names + 1) + length names < fuel"
  shows "resolveLoop fuel names deps st \<noteq> Inl OutOfFuel"
  using assms
proof (induction "length names - i" arbitrary: i extra st fuel)
  case 0
  have "complete names deps extra \<le> all_deps deps names"
    using 0 by (simp add: complete_def order_trans [OF length_filter_le])
  then have "(complete names deps extra + (if length extra < rs_lastIndexLength st then 1 else 0)) * (length names + 1) \<le>
      (all_deps deps names + 1) * (length names + 1)" by (intro mult_le_mono1) simp
  then have "rounds_left names deps st \<le> (all_deps deps names + 1) * (length names + 1) + length names"
    using 0 by (simp add: rounds_left_def)
  then show ?case using 0 by (intro later_rounds_end) auto
next
  case (Suc m)
  let ?n = "length names" and ?name = "names ! i"
  have i: "i < ?n" using Suc.hyps(2) by simp
  obtain fuel' where fuel: "fuel = Suc fuel'" using Suc.prems(8) by (cases fuel) auto
  let ?queue = "[Suc i..<?n] @ extra"
  let ?st' = "round_state names deps st i ?queue"
  let ?missing = "missingDependencies deps (rs_resolvedParameters st) ?name"
  have Cons: "rs_indexToResolve st = i # ?queue" using Suc.prems(1) i by (simp add: upt_conv_Cons)
  have missing: "length ?missing \<le> length (deps_of deps ?name)" by (simp add: missingDependencies_def)
  have "resolveLoop fuel' names deps ?st' \<noteq> Inl OutOfFuel"
  proof (rule Suc.hyps(1) [of "Suc i" ?st' "extra @ map (\<lambda>_. i) ?missing"])
    show "set (rs_resolvedParameters ?st') = set (take (Suc i) names)"
      using Suc.prems(3) i by (auto simp: take_Suc_conv_app_nth)
    show "j < ?n \<and> deps_of deps (names ! j) \<noteq> []" if "j \<in> set (extra @ map (\<lambda>_. i) ?missing)" for j
      using that Suc.prems(4) [of j] i by (auto simp: missingDependencies_def)
    show "length (rs_indexToResolve ?st') \<le> rs_lastIndexLength ?st'"
      using Suc.prems(5) Cons by (simp add: round_state_def Let_def missing_none)
    show "length (extra @ map (\<lambda>_. i) ?missing) \<le> all_deps deps (take (Suc i) names)"
      using Suc.prems(6) missing i by (simp add: all_deps_take)
    show "rs_lastIndexReduction ?st' \<le> int (rs_iterations ?st')"
      using Suc.prems(7) by (simp add: round_state_def Let_def)
    show "?n - Suc i + (all_deps deps names + 1) * (?n + 1) + ?n < fuel'" using Suc.prems(8) fuel i by simp
  qed (use Suc.hyps(2) i in simp_all)
  then show ?case using round_cases [OF Cons, of fuel' names deps] unfolding fuel by auto
qed

section \<open>The order\<close>

text \<open>An index is settled when its last occurrence in the order has its dependencies before it.\<close>

definition settled :: "string list \<Rightarrow> IParameterDependencies \<Rightarrow> nat list \<Rightarrow> nat \<Rightarrow> bool" where
  "settled names deps order i \<longleftrightarrow> (\<exists>xs ys. order = xs @ i # ys \<and> i \<notin> set ys \<and>
     (\<forall>d \<in> set (deps_of deps (names ! i)). starts (CHR ''/'') d \<or> d \<in> set (map (\<lambda>j. names ! j) xs)))"

lemma settled_other: "settled names deps order i \<Longrightarrow> k \<noteq> i \<Longrightarrow> settled names deps (order @ [k]) i"
  unfolding settled_def by (metis append.assoc append_Cons empty_iff insert_iff list.set(1) list.set(2) set_append Un_iff)

lemma settled_now:
  "missingDependencies deps (map (\<lambda>j. names ! j) order) (names ! i) = [] \<Longrightarrow> settled names deps (order @ [i]) i"
  unfolding settled_def by (rule exI [of _ order], rule exI [of _ "[]"]) (auto simp: missingDependencies_def filter_empty_conv)

lemma loop_order:
  assumes "resolveLoop fuel names deps st = Inr order"
    and "rs_resolvedParameters st = map (\<lambda>j. names ! j) (rs_executionOrder st)"
    and "set (rs_executionOrder st) \<union> set (rs_indexToResolve st) = A"
    and "\<And>i. i \<in> set (rs_executionOrder st) \<Longrightarrow> i \<notin> set (rs_indexToResolve st) \<Longrightarrow> settled names deps (rs_executionOrder st) i"
  shows "set order = A \<and> (\<forall>i \<in> A. settled names deps order i)"
  using assms
proof (induction fuel arbitrary: st)
  case (Suc fuel)
  show ?case
  proof (cases "rs_indexToResolve st")
    case (Cons k queue)
    let ?st' = "round_state names deps st k queue"
    have "resolveLoop fuel names deps ?st' = Inr order"
      using round_cases [OF Cons, of fuel names deps] Suc.prems(1) by auto
    then show ?thesis
    proof (rule Suc.IH)
      show "rs_resolvedParameters ?st' = map (\<lambda>j. names ! j) (rs_executionOrder ?st')" using Suc.prems(2) by simp
      show "set (rs_executionOrder ?st') \<union> set (rs_indexToResolve ?st') = A" using Suc.prems(3) Cons by auto
      show "settled names deps (rs_executionOrder ?st') i"
        if "i \<in> set (rs_executionOrder ?st')" "i \<notin> set (rs_indexToResolve ?st')" for i
      proof (cases "i = k")
        case True
        then have "missingDependencies deps (rs_resolvedParameters st) (names ! k) = []" using that(2)
          by (cases "missingDependencies deps (rs_resolvedParameters st) (names ! k)") auto
        then show ?thesis using settled_now True Suc.prems(2) by simp
      next
        case False
        then have "settled names deps (rs_executionOrder st) i" using that Suc.prems(4) Cons by auto
        then show ?thesis using settled_other False by simp
      qed
    qed
  qed (use Suc.prems in auto)
qed simp

section \<open>Properties\<close>

lemma resolve_order_ends: "getParameterResolveOrder props deps \<noteq> Inl OutOfFuel"
  unfolding getParameterResolveOrder_def Let_def
  by (rule first_round_ends [where i = 0 and extra = "[]"]) (simp_all add: resolveStart_def resolve_fuel_def)

lemma resolve_order_ok:
  assumes "getParameterResolveOrder props deps = Inr order"
  shows "set order = {..<length props} \<and> (\<forall>i < length props. settled (map p_name props) deps order i)"
  using loop_order [OF assms [unfolded getParameterResolveOrder_def Let_def], of "{..<length props}"]
  by (auto simp: resolveStart_def lessThan_atLeast0)

text \<open>C21. An order holds every parameter, and the last occurrence of each has its dependencies before it, save those of the root
  level.\<close>

theorem resolve_order_correct:
  assumes "getParameterResolveOrder props deps = Inr order"
  shows "set order = {..<length props} \<and> (\<forall>i < length props. settled (map p_name props) deps order i)"
  by (rule resolve_order_ok [OF assms])

text \<open>A parameter is put in the order although its dependency is missing, and once more behind it.\<close>

lemma added_before_dependencies:
  "getParameterResolveOrder [\<lparr>p_name = ''a'', p_displayOptions = Some [[''b'']]\<rparr>, \<lparr>p_name = ''b'', p_displayOptions = None\<rparr>]
     [(''a'', [''b'']), (''b'', [])] = Inr [0, 1, 0]"
  by (simp add: getParameterResolveOrder_def resolve_fuel_def all_deps_def deps_of_def resolveStart_def missingDependencies_def
      starts_def eval_nat_numeral)

theorem resolve_order_correct_witness:
  "set [0, 1, 0] = {..<2::nat} \<and> settled [''a'', ''b''] [(''a'', [''b'']), (''b'', [])] [0, 1, 0] 0 \<and>
    settled [''a'', ''b''] [(''a'', [''b'']), (''b'', [])] [0, 1, 0] 1"
  using resolve_order_correct [OF added_before_dependencies] by (simp add: numeral_2_eq_2 del: set_simps)

text \<open>A parameter that names itself has no order when it is the only one.\<close>

lemma own_dependency_throws:
  "getParameterResolveOrder [\<lparr>p_name = ''a'', p_displayOptions = Some [[''a'']]\<rparr>] [(''a'', [''a''])] =
     Inl (ApplicationError ''Could not resolve parameter dependencies.'')"
  by (simp add: getParameterResolveOrder_def resolve_fuel_def all_deps_def deps_of_def resolveStart_def missingDependencies_def
      starts_def eval_nat_numeral)

section \<open>The dependencies\<close>

lemma deps_of_update: "deps_of (AList.update k v m) n = (if n = k then v else deps_of m n)"
  by (simp add: deps_of_def update_conv')

lemma addDependency_set:
  "set (deps_of (addDependency name deps d) n) =
     set (deps_of deps n) \<union> (if n = name \<and> \<not> starts (CHR ''@'') d then {d} else {})"
  by (auto simp: addDependency_def deps_of_update)

lemma addRule_set:
  "set (deps_of (foldl (addDependency name) deps rule) n) =
     set (deps_of deps n) \<union> (if n = name then {d \<in> set rule. \<not> starts (CHR ''@'') d} else {})"
  by (induction rule arbitrary: deps) (auto simp: addDependency_set)

lemma addRules_set:
  "set (deps_of (foldl (\<lambda>ds rule. foldl (addDependency name) ds rule) deps rules) n) =
     set (deps_of deps n) \<union> (if n = name then {d \<in> set (concat rules). \<not> starts (CHR ''@'') d} else {})"
  by (induction rules arbitrary: deps) (auto simp: addRule_set)

definition rule_names :: "INodeProperty \<Rightarrow> string set" where
  "rule_names p = {d. \<exists>rules. p_displayOptions p = Some rules \<and> d \<in> set (concat rules) \<and> \<not> starts (CHR ''@'') d}"

lemma deps_of_new: "map_of deps k = None \<Longrightarrow> deps_of (AList.update k [] deps) n = deps_of deps n"
  by (simp add: deps_of_def update_conv')

lemma addProperty_set:
  "set (deps_of (addProperty deps p) n) = set (deps_of deps n) \<union> (if n = p_name p then rule_names p else {})"
  by (auto simp: addProperty_def Let_def addRules_set rule_names_def deps_of_new split: option.splits)

text \<open>The dependencies of a name are those of all parameters with this name.\<close>

lemma dependencies_of:
  "set (deps_of (getParameterDependencies props) n) = (\<Union>p \<in> {p \<in> set props. p_name p = n}. rule_names p)"
proof -
  have "set (deps_of (foldl addProperty deps props) n) =
      set (deps_of deps n) \<union> (\<Union>p \<in> {p \<in> set props. p_name p = n}. rule_names p)" for deps
    by (induction props arbitrary: deps) (auto simp: addProperty_set)
  then show ?thesis by (simp add: getParameterDependencies_def deps_of_def)
qed

end
