(* ===== verification/NodeParameters.thy ===== *)
theory NodeParameters
  imports DisplayRules ParameterOrder
begin

text \<open>
  The parameters of a node with their defaults, or without those that are defaults: \<open>getNodeParameters\<close> of
  \<open>packages/workflow/src/node-helpers.ts\<close>.

  A collection has properties as its options, a fixed collection named lists of properties. Values of parameters have no dates,
  so that \<open>deepCopy\<close> gives an equal value, and only objects have properties other than indexes. The code fills two
  objects, the result and the full values; the second is also read by the display rules while it is filled, when there are no
  resolved values. The recursion into collections takes fuel, and the size of the properties is enough.

  Theorems: the recursion ends; only what is displayed is returned, but for an early end of the loop; the value of
  each simple parameter; parameters that are stored without their defaults get them back.
\<close>

section \<open>Properties\<close>

datatype nodeProperty = NodeProperty
  (pr_name: string)
  (pr_type: string)
  (pr_default: jsval)
  (pr_multipleValues: "bool option")
  (pr_noDataExpression: bool)
  (pr_displayOptions: "IDisplayOptions option")
  (pr_options: "nodeProperty list option")
  (pr_collections: "(string \<times> nodeProperty list) list option")

definition ruleNames :: "nodeProperty \<Rightarrow> INodeProperty" where
  "ruleNames p = \<lparr>p_name = pr_name p, p_displayOptions =
     map_option (\<lambda>o'. [map fst (rules_of (do_show o')), map fst (rules_of (do_hide o'))]) (pr_displayOptions p)\<rparr>"

definition resolveOrder :: "nodeProperty list \<Rightarrow> nat list res" where
  "resolveOrder props = getParameterResolveOrder (map ruleNames props) (getParameterDependencies (map ruleNames props))"

section \<open>The loop\<close>

record gnpContext =
  gx_env :: displayEnv
  gx_values :: jsval
  gx_returnDefaults :: bool
  gx_returnNoneDisplayed :: bool
  gx_node :: "displayNode option"
  gx_nodeType :: "displayNodeType option"
  gx_onlySimpleTypes :: bool
  gx_parentType :: string
  gx_duplicates :: "string list"
  gx_check :: "jsval option"
  gx_root :: "jsval option"

record gnpState =
  gs_params :: "(string, jsval) jsmap"
  gs_full :: "(string, jsval) jsmap"

datatype gnpStep = Next gnpState | Return jsval

text \<open>What the display rules read: the resolved values, or the full values as far as they are known.\<close>

definition checkOf :: "gnpContext \<Rightarrow> gnpState \<Rightarrow> jsval" where
  "checkOf cx st = (case gx_check cx of Some v \<Rightarrow> v | None \<Rightarrow> JObj (gs_full st))"

definition rootOf :: "gnpContext \<Rightarrow> gnpState \<Rightarrow> jsval" where
  "rootOf cx st = (case gx_root cx of Some r \<Rightarrow> if truthy r then r else checkOf cx st | None \<Rightarrow> checkOf cx st)"

definition displayed :: "gnpContext \<Rightarrow> gnpState \<Rightarrow> nodeProperty \<Rightarrow> bool res" where
  "displayed cx st p = displayParameter (gx_env cx) (checkOf cx st) (pr_displayOptions p) (gx_node cx) (gx_nodeType cx) (Some (rootOf cx st))"

definition setParam :: "string \<Rightarrow> jsval \<Rightarrow> gnpState \<Rightarrow> gnpState" where
  "setParam name v st = st\<lparr>gs_params := AList.update name v (gs_params st), gs_full := AList.update name v (gs_full st)\<rparr>"

definition withDefault :: "nodeProperty \<Rightarrow> jsval \<Rightarrow> jsval" where
  "withDefault p v =
     (if pr_type p = ''boolean'' \<or> pr_type p = ''number'' \<or> pr_type p = ''options'' then
        (if v \<noteq> JUndefined then v else pr_default p)
      else if pr_type p = ''resourceLocator'' \<and> typeof (pr_default p) = ''object'' then
        (if v \<noteq> JUndefined then v else JObj (assign [(''__rl'', JBool True)] (pr_default p)))
      else if v = JUndefined \<or> v = JNull then pr_default p else v)"

definition stripExpression :: "nodeProperty \<Rightarrow> gnpState \<Rightarrow> gnpState" where
  "stripExpression p st =
     (if pr_noDataExpression p then case map_of (gs_params st) (pr_name p) of
          Some (JStr (c # s)) \<Rightarrow> if c = CHR ''='' then setParam (pr_name p) (JStr s) st else st
        | _ \<Rightarrow> st
      else st)"

definition differs :: "gnpContext \<Rightarrow> nodeProperty \<Rightarrow> jsval \<Rightarrow> bool" where
  "differs cx p v \<longleftrightarrow> \<not> strictEq (filterEnv.truncate (gx_env cx)) v (pr_default p) \<and> typeof v \<noteq> ''object'' \<or>
     typeof v = ''object'' \<and> \<not> env_isEqual (gx_env cx) v (pr_default p) \<or>
     v \<noteq> JUndefined \<and> gx_parentType cx = ''collection''"

definition simpleStep :: "gnpContext \<Rightarrow> gnpState \<Rightarrow> nodeProperty \<Rightarrow> gnpState" where
  "simpleStep cx st p =
     (let name = pr_name p; v = prop_of (gx_values cx) name
      in if gx_returnDefaults cx then stripExpression p (setParam name (withDefault p v) st)
         else if differs cx p v then setParam name v st
         else stripExpression p st)"

type_synonym subParameters = "nodeProperty list \<Rightarrow> jsval \<Rightarrow> jsval \<Rightarrow> string \<Rightarrow> jsval res"

definition collectionStep :: "subParameters \<Rightarrow> gnpContext \<Rightarrow> gnpState \<Rightarrow> nodeProperty \<Rightarrow> gnpState res" where
  "collectionStep sub cx st p =
     (let name = pr_name p; v = prop_of (gx_values cx) name
      in if pr_multipleValues p = Some True then
           (let st' = (if v \<noteq> JUndefined then st\<lparr>gs_params := AList.update name v (gs_params st)\<rparr>
               else if gx_returnDefaults cx then
                 st\<lparr>gs_params := AList.update name (case pr_default p of JArr xs \<Rightarrow> JArr xs | _ \<Rightarrow> JArr []) (gs_params st)\<rparr>
               else st)
            in Inr (st'\<lparr>gs_full := AList.update name (prop_of (JObj (gs_params st')) name) (gs_full st')\<rparr>))
         else if v \<noteq> JUndefined then
           (case pr_options p of
              None \<Rightarrow> Inl TypeError
            | Some ps \<Rightarrow> rbind (sub ps v (rootOf cx st) (pr_type p)) (\<lambda>t. Inr (if t \<noteq> JNull then setParam name t st else st)))
         else Inr (if gx_returnDefaults cx then setParam name (pr_default p) st else st))"

text \<open>The items of a fixed collection; the flag says whether any visible field has been found.\<close>

type_synonym itemState = "(string, jsval) jsmap \<times> bool"

definition find_collection :: "nodeProperty \<Rightarrow> string \<Rightarrow> nodeProperty list option res" where
  "find_collection p itemName = (case pr_collections p of None \<Rightarrow> Inl TypeError | Some cs \<Rightarrow> Inr (map_of cs itemName))"

definition multipleItems :: "subParameters \<Rightarrow> nodeProperty \<Rightarrow> jsval \<Rightarrow> string \<Rightarrow> jsval list \<Rightarrow> jsval list res" where
  "multipleItems sub p rootValue itemName vs = foldR (\<lambda>acc nodeValue.
     rbind (find_collection p itemName) (\<lambda>found. case found of
         None \<Rightarrow> Inl (ApplicationError ''Could not find property option'')
       | Some ps \<Rightarrow> rbind (sub ps nodeValue rootValue (pr_type p)) (\<lambda>t. Inr (if t \<noteq> JNull then acc @ [t] else acc)))) [] vs"

definition hasNonDefaultValues :: "displayEnv \<Rightarrow> nodeProperty list \<Rightarrow> jsval \<Rightarrow> bool" where
  "hasNonDefaultValues env ps itemNodeValues \<longleftrightarrow> truthy itemNodeValues \<and>
     (\<exists>(k, v) \<in> set (entries itemNodeValues). case find (\<lambda>f. pr_name f = k) ps of
        Some field \<Rightarrow> \<not> env_isEqual env v (pr_default field) | None \<Rightarrow> False)"

text \<open>The values of one item, and whether it had visible fields.\<close>

definition singleItem :: "subParameters \<Rightarrow> gnpContext \<Rightarrow> nodeProperty \<Rightarrow> jsval \<Rightarrow> string \<Rightarrow> itemState res" where
  "singleItem sub cx p rootValue itemName =
     rbind (find_collection p itemName) (\<lambda>found. case found of
         None \<Rightarrow> Inr ([], False)
       | Some ps \<Rightarrow>
           rbind (prop_throws (prop_of (gx_values cx) (pr_name p)) itemName) (\<lambda>itemNodeValues.
           rbind (sub ps itemNodeValues rootValue (pr_type p)) (\<lambda>t.
             Inr (if t = JNull then ([], False)
                  else (assign [] t, keysOf t \<noteq> [] \<or> \<not> hasNonDefaultValues (gx_env cx) ps itemNodeValues)))))"

definition itemStep :: "subParameters \<Rightarrow> gnpContext \<Rightarrow> nodeProperty \<Rightarrow> jsval \<Rightarrow> jsval \<Rightarrow> itemState \<Rightarrow> string \<Rightarrow> itemState res" where
  "itemStep sub cx p rootValue propertyValues st itemName =
     (if pr_multipleValues p = Some True then
        (if typeof propertyValues \<noteq> ''object'' \<or> isArray propertyValues then Inr st
         else rbind (iterate (prop_of propertyValues itemName)) (\<lambda>vs.
              rbind (multipleItems sub p rootValue itemName vs) (\<lambda>ts. Inr (AList.update itemName (JArr ts) (fst st), snd st))))
      else rbind (singleItem sub cx p rootValue itemName) (\<lambda>(tempNodeParameters, hadVisibleFields).
        let collectionValues =
          (if tempNodeParameters \<noteq> [] \<or>
              \<not> gx_returnDefaults cx \<and> hadVisibleFields \<and> truthy propertyValues \<and> prop_of propertyValues itemName \<noteq> JUndefined
           then AList.update itemName (JObj tempNodeParameters) (fst st) else fst st)
        in Inr (collectionValues, snd st \<or> hadVisibleFields)))"

definition fixedCollectionStep :: "subParameters \<Rightarrow> gnpContext \<Rightarrow> gnpState \<Rightarrow> nodeProperty \<Rightarrow> gnpStep res" where
  "fixedCollectionStep sub cx st p =
     (let name = pr_name p; given = prop_of (gx_values cx) name;
          propertyValues = (if gx_returnDefaults cx \<and> given = JUndefined then pr_default p else given)
      in if \<not> gx_returnDefaults cx \<and> pr_multipleValues p = Some False \<and> truthy propertyValues \<and> keysOf propertyValues = []
         then Inr (Return (gx_values cx))
         else rbind (foldR (itemStep sub cx p (rootOf cx st) propertyValues) ([], False)
                (if truthy propertyValues then keysOf propertyValues else [])) (\<lambda>(collectionValues, hadAnyVisibleFields).
           let st = (if \<not> gx_returnDefaults cx \<and> hadAnyVisibleFields \<and> pr_multipleValues p = Some False \<and> collectionValues = [] \<and>
                  truthy propertyValues \<and> isPlainObject propertyValues \<and> keysOf propertyValues \<noteq> []
                then st\<lparr>gs_params := AList.update name (JObj (foldl (\<lambda>m k. AList.update k (JObj []) m) [] (keysOf propertyValues))) (gs_params st)\<rparr>
                else st)
           in Inr (Next (if collectionValues \<noteq> [] \<or> gx_returnDefaults cx then setParam name (JObj collectionValues) st else st))))"

definition valueStep :: "subParameters \<Rightarrow> gnpContext \<Rightarrow> gnpState \<Rightarrow> nodeProperty \<Rightarrow> gnpStep res" where
  "valueStep sub cx st p =
     (if pr_type p \<noteq> ''collection'' \<and> pr_type p \<noteq> ''fixedCollection'' then
        (if pr_name p \<in> set (gx_duplicates cx) then
           rbind (displayed cx st p) (\<lambda>d. Inr (Next (if d then simpleStep cx st p else st)))
         else Inr (Next (simpleStep cx st p)))
      else if gx_onlySimpleTypes cx then Inr (Next st)
      else if pr_type p = ''collection'' then rbind (collectionStep sub cx st p) (\<lambda>st. Inr (Next st))
      else fixedCollectionStep sub cx st p)"

definition parameterStep :: "subParameters \<Rightarrow> gnpContext \<Rightarrow> gnpState \<Rightarrow> nodeProperty \<Rightarrow> gnpStep res" where
  "parameterStep sub cx st p =
     (if \<not> truthy (gx_values cx) \<or> prop_of (gx_values cx) (pr_name p) = JUndefined \<and>
         (\<not> gx_returnDefaults cx \<or> gx_parentType cx = ''collection'')
      then Inr (Next st)
      else if gx_returnNoneDisplayed cx then valueStep sub cx st p
      else rbind (displayed cx st p) (\<lambda>d. if d then valueStep sub cx st p else Inr (Next st)))"

fun parameterLoop :: "subParameters \<Rightarrow> gnpContext \<Rightarrow> gnpState \<Rightarrow> nodeProperty list \<Rightarrow> jsval res" where
  "parameterLoop sub cx st [] = Inr (JObj (gs_params st))"
| "parameterLoop sub cx st (p # ps) = rbind (parameterStep sub cx st p) (\<lambda>s.
     case s of Next st \<Rightarrow> parameterLoop sub cx st ps | Return v \<Rightarrow> Inr v)"

section \<open>The parameters\<close>

fun duplicateNames :: "string list \<Rightarrow> string list \<Rightarrow> string list \<Rightarrow> string list" where
  "duplicateNames parameterNames duplicates [] = duplicates"
| "duplicateNames parameterNames duplicates (name # names) =
     (if name \<in> set parameterNames then
        duplicateNames parameterNames (if name \<in> set duplicates then duplicates else duplicates @ [name]) names
      else duplicateNames (parameterNames @ [name]) duplicates names)"

record gnpOptions =
  go_onlySimpleTypes :: bool
  go_dataIsResolved :: bool
  go_nodeValuesRoot :: "jsval option"
  go_parentType :: string

definition noState :: gnpState where
  "noState = \<lparr>gs_params = [], gs_full = []\<rparr>"

definition loopFor :: "subParameters \<Rightarrow> gnpContext \<Rightarrow> nodeProperty list \<Rightarrow> jsval res" where
  "loopFor sub cx props = rbind (resolveOrder props) (\<lambda>order. parameterLoop sub cx noState (map (\<lambda>i. props ! i) order))"

text \<open>The values that the display rules read are those of the simple parameters with all defaults, displayed or not.\<close>

definition parametersWith :: "subParameters \<Rightarrow> displayEnv \<Rightarrow> nodeProperty list \<Rightarrow> jsval \<Rightarrow> bool \<Rightarrow> bool \<Rightarrow>
    displayNode option \<Rightarrow> displayNodeType option \<Rightarrow> gnpOptions \<Rightarrow> jsval res" where
  "parametersWith sub env props nodeValues returnDefaults returnNoneDisplayed node nodeType options =
     (let cx = \<lparr>gx_env = env, gx_values = nodeValues, gx_returnDefaults = True, gx_returnNoneDisplayed = True, gx_node = node,
            gx_nodeType = nodeType, gx_onlySimpleTypes = True, gx_parentType = go_parentType options,
            gx_duplicates = duplicateNames [] [] (map pr_name props), gx_check = None, gx_root = go_nodeValuesRoot options\<rparr>
      in rbind (if \<not> go_dataIsResolved options \<and> \<not> returnNoneDisplayed then rbind (loopFor sub cx props) (\<lambda>v. Inr (Some v)) else Inr None)
        (\<lambda>check. loopFor sub (cx\<lparr>gx_returnDefaults := returnDefaults, gx_returnNoneDisplayed := returnNoneDisplayed,
            gx_onlySimpleTypes := go_onlySimpleTypes options, gx_check := check\<rparr>) props))"

fun getNodeParametersN :: "nat \<Rightarrow> displayEnv \<Rightarrow> nodeProperty list \<Rightarrow> jsval \<Rightarrow> bool \<Rightarrow> bool \<Rightarrow>
    displayNode option \<Rightarrow> displayNodeType option \<Rightarrow> gnpOptions \<Rightarrow> jsval res" where
  "getNodeParametersN 0 env props nodeValues returnDefaults returnNoneDisplayed node nodeType options = Inl OutOfFuel"
| "getNodeParametersN (Suc fuel) env props nodeValues returnDefaults returnNoneDisplayed node nodeType options =
     parametersWith (\<lambda>ps v rootValue parentType. getNodeParametersN fuel env ps v returnDefaults returnNoneDisplayed node nodeType
         \<lparr>go_onlySimpleTypes = False, go_dataIsResolved = False, go_nodeValuesRoot = Some rootValue, go_parentType = parentType\<rparr>)
       env props nodeValues returnDefaults returnNoneDisplayed node nodeType options"

definition noOptions :: gnpOptions where
  "noOptions = \<lparr>go_onlySimpleTypes = False, go_dataIsResolved = False, go_nodeValuesRoot = None, go_parentType = []\<rparr>"

definition getNodeParameters :: "displayEnv \<Rightarrow> nodeProperty list \<Rightarrow> jsval \<Rightarrow> bool \<Rightarrow> bool \<Rightarrow>
    displayNode option \<Rightarrow> displayNodeType option \<Rightarrow> jsval res" where
  "getNodeParameters env props nodeValues returnDefaults returnNoneDisplayed node nodeType =
     getNodeParametersN (Suc (size_list size props)) env props nodeValues returnDefaults returnNoneDisplayed node nodeType noOptions"

section \<open>The recursion ends\<close>

definition ended :: "'a res \<Rightarrow> bool" where
  "ended r \<longleftrightarrow> r \<noteq> Inl OutOfFuel"

named_theorems ended_intros

lemma ended_simps [simp, ended_intros]: "ended (Inr x)" "e \<noteq> OutOfFuel \<Longrightarrow> ended (Inl e)"
  by (simp_all add: ended_def)

lemma ended_rbind [ended_intros]: "ended m \<Longrightarrow> (\<And>x. m = Inr x \<Longrightarrow> ended (f x)) \<Longrightarrow> ended (rbind m f)"
  by (auto simp: ended_def rbind_def split: sum.splits)

lemma ended_foldR [ended_intros]: "(\<And>s x. x \<in> set xs \<Longrightarrow> ended (f s x)) \<Longrightarrow> ended (foldR f s xs)"
  by (induction xs arbitrary: s) (auto intro!: ended_rbind)

lemma ended_every: "(\<And>x. ended (f x)) \<Longrightarrow> ended (every f xs)"
  by (induction xs) (auto simp: ended_def split: sum.splits)

lemma ended_some: "(\<And>x. ended (f x)) \<Longrightarrow> ended (some f xs)"
  by (induction xs) (auto simp: ended_def split: sum.splits)

lemma ended_holdsFor: "ended (holdsFor env c v)"
  by (cases c) (auto simp: ended_def onText_def split: jsval.splits option.splits)

lemma ended_checkConditions: "ended (checkConditions env cs vs)"
  unfolding checkConditions_def by (rule ended_some) (auto simp: checkCondition_def intro!: ended_every ended_holdsFor split: DisplayCondition.split)

lemma ended_featuresOf: "ended (featuresOf env defs v)"
  by (induction defs) (auto intro!: ended_rbind simp: evaluateFeature_def ended_checkConditions)

lemma ended_getPropertyValues: "ended (getPropertyValues env nv name node nt rv)"
  by (auto simp: getPropertyValues_def featureValues_def getNodeFeatures_def ended_featuresOf intro!: ended_rbind split: option.splits)

lemma ended_rule_holds: "ended (rule_holds env rule vs)"
  by (auto simp: rule_holds_def ended_checkConditions split: option.splits)

lemma ended_showLoop: "(\<And>n. ended (f n)) \<Longrightarrow> ended (showLoop env f rules)"
  by (induction rules) (auto intro!: ended_rbind simp: ended_rule_holds)

lemma ended_hideLoop: "(\<And>n. ended (f n)) \<Longrightarrow> ended (hideLoop env f rules)"
  by (induction rules) (auto intro!: ended_rbind simp: ended_rule_holds)

lemma ended_displayed [ended_intros]: "ended (displayed cx st p)"
  unfolding displayed_def displayParameter_def
  by (auto simp: Let_def intro!: ended_rbind ended_showLoop ended_hideLoop ended_getPropertyValues split: option.splits)

text \<open>The lists of properties below a property are smaller.\<close>

definition below :: "nodeProperty \<Rightarrow> nodeProperty list \<Rightarrow> bool" where
  "below p ps \<longleftrightarrow> pr_options p = Some ps \<or> (\<exists>cs c. pr_collections p = Some cs \<and> map_of cs c = Some ps)"

lemma below_smaller: "below p ps \<Longrightarrow> size_list size ps < size p"
proof (cases p)
  case (NodeProperty n t d m e o' options collections)
  assume "below p ps"
  then consider "options = Some ps" | cs c where "collections = Some cs" "map_of cs c = Some ps"
    by (auto simp: below_def NodeProperty)
  then show ?thesis
  proof cases
    case 2
    have "size_list size ps \<le> size_list (size_prod (\<lambda>_. 0) (size_list size)) cs"
      by (rule size_list_estimation' [OF map_of_SomeD [OF 2(2)]]) simp
    then show ?thesis by (simp add: NodeProperty 2(1))
  qed (simp add: NodeProperty)
qed

lemma ended_step:
  assumes "\<And>ps v r t. below p ps \<Longrightarrow> ended (sub ps v r t)"
  shows "ended (parameterStep sub cx st p)"
proof -
  have found: "ended (find_collection p c)" and ps: "find_collection p c = Inr (Some ps) \<Longrightarrow> below p ps" for c ps
    by (auto simp: find_collection_def below_def split: option.splits)
  have multiple: "ended (multipleItems sub p r c vs)" for r c vs
    unfolding multipleItems_def by (auto intro!: ended_intros found assms ps split: option.splits)
  have single: "ended (singleItem sub cx p r c)" for r c
    unfolding singleItem_def prop_throws_def by (auto intro!: ended_intros found assms ps split: option.splits)
  have item: "ended (itemStep sub cx p r v s c)" for r v s c
    unfolding itemStep_def iterate_def Let_def by (auto intro!: ended_intros multiple single split: jsval.splits)
  have "ended (fixedCollectionStep sub cx st p)"
    unfolding fixedCollectionStep_def Let_def by (auto intro!: ended_intros item)
  moreover have "ended (collectionStep sub cx st p)"
    unfolding collectionStep_def Let_def by (auto intro!: ended_intros assms simp: below_def split: option.splits)
  ultimately show ?thesis unfolding parameterStep_def valueStep_def by (auto intro!: ended_intros)
qed

lemma ended_loop:
  "(\<And>p st. p \<in> set ps \<Longrightarrow> ended (parameterStep sub cx st p)) \<Longrightarrow> ended (parameterLoop sub cx st ps)"
  by (induction ps arbitrary: st) (auto intro!: ended_rbind split: gnpStep.split)

lemma order_indexes: "resolveOrder props = Inr order \<Longrightarrow> set order = {..<length props}"
  using resolve_order_ok unfolding resolveOrder_def by fastforce

lemma order_props: "resolveOrder props = Inr order \<Longrightarrow> set (map (\<lambda>i. props ! i) order) = set props"
  using nth_image [of "length props" props] by (simp add: order_indexes lessThan_atLeast0)

lemma ended_loopFor:
  assumes "\<And>p ps v r t. p \<in> set props \<Longrightarrow> below p ps \<Longrightarrow> ended (sub ps v r t)"
  shows "ended (loopFor sub cx props)"
  unfolding loopFor_def
proof (rule ended_rbind)
  show "ended (resolveOrder props)" using resolve_order_ends by (simp add: ended_def resolveOrder_def)
next
  fix order assume "resolveOrder props = Inr order"
  then show "ended (parameterLoop sub cx noState (map ((!) props) order))"
    using order_props [of props order] by (intro ended_loop ended_step assms) auto
qed

lemma ended_parametersWith:
  assumes "\<And>p ps v r t. p \<in> set props \<Longrightarrow> below p ps \<Longrightarrow> ended (sub ps v r t)"
  shows "ended (parametersWith sub env props nv rd rnd node nt options)"
proof -
  have loop: "ended (loopFor sub cx props)" for cx by (rule ended_loopFor [OF assms])
  show ?thesis unfolding parametersWith_def Let_def
    by (rule ended_rbind) (simp_all add: loop ended_rbind)
qed

lemma ended_parametersN: "size_list size props < fuel \<Longrightarrow> ended (getNodeParametersN fuel env props nv rd rnd node nt options)"
proof (induction fuel arbitrary: props nv options)
  case (Suc fuel)
  have "size_list size ps < fuel" if "p \<in> set props" "below p ps" for p ps
    using below_smaller [OF that(2)] size_list_estimation' [OF that(1), of "size p" size] Suc.prems by simp
  then show ?case unfolding getNodeParametersN.simps by (intro ended_parametersWith Suc.IH)
qed simp

lemma getNodeParameters_ends: "getNodeParameters env props nv rd rnd node nt \<noteq> Inl OutOfFuel"
  using ended_parametersN by (simp add: getNodeParameters_def ended_def del: getNodeParametersN.simps)

section \<open>The two loops\<close>

text \<open>The resolved values that the display rules read\<close>

definition fullParameters :: "displayEnv \<Rightarrow> nodeProperty list \<Rightarrow> jsval \<Rightarrow> displayNode option \<Rightarrow> displayNodeType option \<Rightarrow> jsval res" where
  "fullParameters env props nodeValues node nodeType = getNodeParametersN 1 env props nodeValues True True node nodeType
     \<lparr>go_onlySimpleTypes = True, go_dataIsResolved = True, go_nodeValuesRoot = None, go_parentType = []\<rparr>"

definition contextFor :: "displayEnv \<Rightarrow> nodeProperty list \<Rightarrow> jsval \<Rightarrow> bool \<Rightarrow> displayNode option \<Rightarrow> displayNodeType option \<Rightarrow> jsval \<Rightarrow> gnpContext" where
  "contextFor env props nodeValues returnDefaults node nodeType full =
     \<lparr>gx_env = env, gx_values = nodeValues, gx_returnDefaults = returnDefaults, gx_returnNoneDisplayed = False, gx_node = node,
       gx_nodeType = nodeType, gx_onlySimpleTypes = False, gx_parentType = [],
       gx_duplicates = duplicateNames [] [] (map pr_name props), gx_check = Some full, gx_root = None\<rparr>"

lemma only_simple_step: "gx_onlySimpleTypes cx \<Longrightarrow> parameterStep sub cx st p = parameterStep sub' cx st p"
proof -
  assume "gx_onlySimpleTypes cx"
  then have "valueStep sub cx st p = valueStep sub' cx st p" by (simp only: valueStep_def if_True)
  then show ?thesis by (simp only: parameterStep_def)
qed

lemma only_simple_loop: "gx_onlySimpleTypes cx \<Longrightarrow> parameterLoop sub cx st ps = parameterLoop sub' cx st ps"
proof (induction ps arbitrary: st)
  case (Cons p ps)
  have "parameterStep sub cx st p = parameterStep sub' cx st p" using only_simple_step Cons.prems .
  moreover have "parameterLoop sub cx = parameterLoop sub' cx \<or> parameterLoop sub cx st' ps = parameterLoop sub' cx st' ps" for st'
    using Cons by blast
  ultimately show ?case using Cons.IH [OF Cons.prems] by (simp cong: gnpStep.case_cong)
qed simp

lemma only_simple: "gx_onlySimpleTypes cx \<Longrightarrow> loopFor sub cx props = loopFor sub' cx props"
  unfolding loopFor_def using only_simple_loop [of cx sub _ _ sub'] by simp

text \<open>The first loop reads and returns every simple parameter.\<close>

definition simpleContext :: "displayEnv \<Rightarrow> nodeProperty list \<Rightarrow> jsval \<Rightarrow> displayNode option \<Rightarrow> displayNodeType option \<Rightarrow> gnpContext" where
  "simpleContext env props nodeValues node nodeType =
     \<lparr>gx_env = env, gx_values = nodeValues, gx_returnDefaults = True, gx_returnNoneDisplayed = True, gx_node = node,
       gx_nodeType = nodeType, gx_onlySimpleTypes = True, gx_parentType = [],
       gx_duplicates = duplicateNames [] [] (map pr_name props), gx_check = None, gx_root = None\<rparr>"

lemma parametersWith_simple:
  "parametersWith sub env props nv True True node nt
     \<lparr>go_onlySimpleTypes = True, go_dataIsResolved = True, go_nodeValuesRoot = None, go_parentType = []\<rparr> =
   loopFor sub (simpleContext env props nv node nt) props"
  by (simp add: parametersWith_def simpleContext_def Let_def rbind_def)

lemma fullParameters_loop: "fullParameters env props nv node nt = loopFor sub (simpleContext env props nv node nt) props"
  unfolding fullParameters_def One_nat_def getNodeParametersN.simps parametersWith_simple
  by (rule only_simple) (simp add: simpleContext_def)

lemma parametersWith_shown:
  "parametersWith sub env props nv rd False node nt noOptions =
     rbind (loopFor sub (simpleContext env props nv node nt) props) (\<lambda>full. loopFor sub (contextFor env props nv rd node nt full) props)"
  by (cases "loopFor sub (simpleContext env props nv node nt) props")
    (simp_all add: parametersWith_def simpleContext_def contextFor_def Let_def rbind_def noOptions_def)

definition subFor :: "displayEnv \<Rightarrow> nodeProperty list \<Rightarrow> bool \<Rightarrow> displayNode option \<Rightarrow> displayNodeType option \<Rightarrow> subParameters" where
  "subFor env props rd node nt = (\<lambda>ps v r parentType. getNodeParametersN (size_list size props) env ps v rd False node nt
    \<lparr>go_onlySimpleTypes = False, go_dataIsResolved = False, go_nodeValuesRoot = Some r, go_parentType = parentType\<rparr>)"

lemma getNodeParameters_loop:
  "getNodeParameters env props nv rd False node nt = rbind (fullParameters env props nv node nt)
     (\<lambda>full. loopFor (subFor env props rd node nt) (contextFor env props nv rd node nt full) props)"
proof -
  have "getNodeParameters env props nv rd False node nt = parametersWith (subFor env props rd node nt) env props nv rd False node nt noOptions"
    unfolding getNodeParameters_def getNodeParametersN.simps subFor_def ..
  then show ?thesis unfolding parametersWith_shown fullParameters_loop [of env props nv node nt "subFor env props rd node nt"] .
qed

definition keys_of :: "gnpState \<Rightarrow> string set" where
  "keys_of st = fst ` set (gs_params st)"

lemma keys_of_update [simp]:
  "keys_of (setParam n v st) = insert n (keys_of st)"
  "keys_of (st\<lparr>gs_params := AList.update n v (gs_params st)\<rparr>) = insert n (keys_of st)"
  "keys_of (st\<lparr>gs_full := full\<rparr>) = keys_of st"
  by (simp_all add: keys_of_def setParam_def dom_update)

lemma strip_keys: "keys_of (stripExpression p st) \<subseteq> insert (pr_name p) (keys_of st)"
  by (auto simp: stripExpression_def split: option.splits jsval.splits list.splits)

lemma simple_keys: "keys_of (simpleStep cx st p) \<subseteq> insert (pr_name p) (keys_of st)"
  using strip_keys [of p st] strip_keys [of p "setParam (pr_name p) v st" for v] by (auto simp: simpleStep_def Let_def)

lemma collection_keys:
  "collectionStep sub cx st p = Inr st' \<Longrightarrow> keys_of st' \<subseteq> insert (pr_name p) (keys_of st)"
  by (auto simp: collectionStep_def Let_def rbind_def split: option.splits sum.splits if_splits)

lemma fixed_keys:
  "fixedCollectionStep sub cx st p = Inr (Next st') \<Longrightarrow> keys_of st' \<subseteq> insert (pr_name p) (keys_of st)"
  by (auto simp: fixedCollectionStep_def Let_def rbind_def split: sum.splits if_splits)

lemma step_keys:
  assumes "parameterStep sub cx st p = Inr (Next st')"
  shows "st' = st \<or> (gx_returnNoneDisplayed cx \<or> displayed cx st p = Inr True) \<and>
    keys_of st' \<subseteq> insert (pr_name p) (keys_of st)"
proof -
  have "keys_of st' \<subseteq> insert (pr_name p) (keys_of st)" if "valueStep sub cx st p = Inr (Next st')"
    using that simple_keys [of cx st p] collection_keys [of sub cx st p st'] fixed_keys [of sub cx st p st']
    by (auto simp: valueStep_def rbind_def split: if_splits sum.splits)
  then show ?thesis using assms
    by (auto simp: parameterStep_def rbind_def split: if_splits sum.splits)
qed

lemma step_lookup:
  assumes "parameterStep sub cx st p = Inr (Next st')" and "k \<noteq> pr_name p"
  shows "map_of (gs_params st') k = map_of (gs_params st) k"
proof -
  have set: "map_of (gs_params (setParam (pr_name p) v st)) k = map_of (gs_params st) k" for v st
    using assms(2) by (simp add: setParam_def update_conv')
  have strip: "map_of (gs_params (stripExpression p st)) k = map_of (gs_params st) k" for st
    by (auto simp: stripExpression_def set split: option.split jsval.split list.split)
  have simple: "map_of (gs_params (simpleStep cx st p)) k = map_of (gs_params st) k"
    by (simp add: simpleStep_def Let_def strip set)
  have collection: "collectionStep sub cx st p = Inr st' \<Longrightarrow> map_of (gs_params st') k = map_of (gs_params st) k"
    using assms(2) by (auto simp: collectionStep_def Let_def rbind_def set update_conv' split: option.splits sum.splits if_splits)
  have fixed: "fixedCollectionStep sub cx st p = Inr (Next st') \<Longrightarrow> map_of (gs_params st') k = map_of (gs_params st) k"
    using assms(2) by (auto simp: fixedCollectionStep_def Let_def rbind_def set update_conv' split: sum.splits if_splits)
  show ?thesis using assms(1) simple collection fixed
    by (auto simp: parameterStep_def valueStep_def rbind_def split: if_splits sum.splits)
qed

text \<open>The early end of the loop: a fixed collection of single items that is displayed and given without an item, when
  defaults are left out. All given values are returned then.\<close>

definition endsEarly :: "jsval \<Rightarrow> bool \<Rightarrow> nodeProperty \<Rightarrow> bool" where
  "endsEarly nodeValues returnDefaults p \<longleftrightarrow> \<not> returnDefaults \<and> pr_type p = ''fixedCollection'' \<and> pr_multipleValues p = Some False \<and>
     truthy (prop_of nodeValues (pr_name p)) \<and> keysOf (prop_of nodeValues (pr_name p)) = []"

lemma step_return:
  "parameterStep sub cx st p = Inr (Return v) \<Longrightarrow> v = gx_values cx \<and> endsEarly (gx_values cx) (gx_returnDefaults cx) p \<and>
    (gx_returnNoneDisplayed cx \<or> displayed cx st p = Inr True)"
  by (auto simp: parameterStep_def valueStep_def fixedCollectionStep_def endsEarly_def rbind_def Let_def split: if_splits sum.splits)

lemma loop_invariant:
  assumes "parameterLoop sub cx st ps = Inr v" and "I S st"
    and "\<And>S p st st'. p \<in> set ps \<Longrightarrow> I S st \<Longrightarrow> parameterStep sub cx st p = Inr (Next st') \<Longrightarrow> I (insert p S) st'"
  shows "(\<exists>p \<in> set ps. \<exists>st. parameterStep sub cx st p = Inr (Return v)) \<or> (\<exists>st'. I (S \<union> set ps) st' \<and> v = JObj (gs_params st'))"
  using assms
proof (induction ps arbitrary: st S)
  case (Cons p ps)
  obtain s where s: "parameterStep sub cx st p = Inr s" using Cons.prems(1) by (auto simp: rbind_def split: sum.splits)
  show ?case
  proof (cases s)
    case (Next st')
    have "I (insert p S) st'" using Cons.prems(3) [OF _ Cons.prems(2) s [unfolded Next]] by simp
    then show ?thesis using Cons.IH [of st' "insert p S"] Cons.prems(1,3) s Next by auto
  next
    case (Return w)
    then show ?thesis using s Cons.prems(1) by auto
  qed
qed auto

lemma displayed_fixed:
  "gx_check cx = Some full \<Longrightarrow> gx_root cx = None \<Longrightarrow>
    displayed cx st p = displayParameter (gx_env cx) full (pr_displayOptions p) (gx_node cx) (gx_nodeType cx) (Some full)"
  by (simp add: displayed_def checkOf_def rootOf_def)

section \<open>The values of simple parameters\<close>

text \<open>What a simple parameter that is displayed gets: its value or its default, or its value if that is not the default.\<close>

definition stripped :: "nodeProperty \<Rightarrow> jsval \<Rightarrow> jsval" where
  "stripped p v = (if pr_noDataExpression p \<and> isExpression v then (case v of JStr s \<Rightarrow> JStr (tl s) | _ \<Rightarrow> v) else v)"

definition differsFromDefault :: "displayEnv \<Rightarrow> nodeProperty \<Rightarrow> jsval \<Rightarrow> bool" where
  "differsFromDefault env p v \<longleftrightarrow> (if typeof v = ''object'' then \<not> env_isEqual env v (pr_default p)
     else \<not> strictEq (filterEnv.truncate env) v (pr_default p))"

definition simpleValue :: "displayEnv \<Rightarrow> jsval \<Rightarrow> bool \<Rightarrow> nodeProperty \<Rightarrow> jsval option" where
  "simpleValue env nv returnDefaults p =
     (let v = prop_of nv (pr_name p)
      in if \<not> truthy nv then None
         else if returnDefaults then Some (stripped p (withDefault p v))
         else if v \<noteq> JUndefined \<and> differsFromDefault env p v then Some v
         else None)"

definition simple :: "nodeProperty \<Rightarrow> bool" where
  "simple p \<longleftrightarrow> pr_type p \<noteq> ''collection'' \<and> pr_type p \<noteq> ''fixedCollection''"

lemma no_duplicates: "distinct (seen @ names) \<Longrightarrow> duplicateNames seen ds names = ds"
  by (induction names arbitrary: seen) auto

lemma setParam_lookup: "map_of (gs_params (setParam n v st)) k = (if k = n then Some v else map_of (gs_params st) k)"
  by (simp add: setParam_def update_conv')

lemma strip_lookup:
  "map_of (gs_params (stripExpression p st)) k =
    (if k = pr_name p then map_option (stripped p) (map_of (gs_params st) k) else map_of (gs_params st) k)"
  by (auto simp: stripExpression_def stripped_def isExpression_def setParam_lookup split: option.split jsval.split list.split)

lemma simpleStep_lookup:
  assumes "\<not> gx_returnDefaults cx \<Longrightarrow> \<not> differs cx p (prop_of (gx_values cx) (pr_name p)) \<Longrightarrow> map_of (gs_params st) (pr_name p) = None"
  shows "map_of (gs_params (simpleStep cx st p)) k = (if k = pr_name p then
      (if gx_returnDefaults cx then Some (stripped p (withDefault p (prop_of (gx_values cx) (pr_name p))))
       else if differs cx p (prop_of (gx_values cx) (pr_name p)) then Some (prop_of (gx_values cx) (pr_name p)) else None)
    else map_of (gs_params st) k)"
  using assms by (auto simp: simpleStep_def Let_def strip_lookup setParam_lookup)

text \<open>The parameters after some properties have been handled.\<close>

definition handled :: "displayEnv \<Rightarrow> nodeProperty list \<Rightarrow> jsval \<Rightarrow> bool \<Rightarrow> (nodeProperty \<Rightarrow> bool) \<Rightarrow> nodeProperty set \<Rightarrow> (string, jsval) jsmap \<Rightarrow> bool" where
  "handled env props nv rd shown S m \<longleftrightarrow>
     (\<forall>p \<in> set props. map_of m (pr_name p) = (if p \<in> S \<and> shown p then simpleValue env nv rd p else None)) \<and>
     (\<forall>k. k \<notin> pr_name ` set props \<longrightarrow> map_of m k = None)"

lemma handled_step:
  assumes step: "parameterStep sub (contextFor env props nv rd node nt full) st p = Inr s"
    and props: "distinct (map pr_name props)" "p \<in> set props" "simple p"
    and st: "handled env props nv rd (\<lambda>p. displayParameter env full (pr_displayOptions p) node nt (Some full) = Inr True) S (gs_params st)"
  shows "\<exists>st'. s = Next st' \<and>
    handled env props nv rd (\<lambda>p. displayParameter env full (pr_displayOptions p) node nt (Some full) = Inr True) (insert p S) (gs_params st')"
proof -
  let ?cx = "contextFor env props nv rd node nt full" and ?v = "prop_of nv (pr_name p)"
  let ?shown = "\<lambda>p. displayParameter env full (pr_displayOptions p) node nt (Some full) = Inr True"
  have same: "p' = p" if "p' \<in> set props" "pr_name p' = pr_name p" for p'
    using that props(1,2) by (auto simp: distinct_map dest: inj_onD)
  have shown: "displayed ?cx st p = displayParameter env full (pr_displayOptions p) node nt (Some full)"
    by (subst displayed_fixed) (simp_all add: contextFor_def)
  have differs: "differs ?cx p v = differsFromDefault env p v" for v
    by (auto simp: differs_def differsFromDefault_def contextFor_def)
  have "gx_duplicates ?cx = []" using props(1) by (simp add: contextFor_def no_duplicates)
  then have simple: "valueStep sub ?cx st p = Inr (Next (simpleStep ?cx st p))"
    using props(3) by (simp add: valueStep_def simple_def)
  have cx: "gx_values ?cx = nv" "gx_returnDefaults ?cx = rd" "gx_parentType ?cx = []" "\<not> gx_returnNoneDisplayed ?cx"
    by (simp_all add: contextFor_def)
  show ?thesis
  proof (cases "truthy nv \<and> \<not> (?v = JUndefined \<and> \<not> rd)")
    case False
    then have "s = Next st" using step cx by (auto simp: parameterStep_def)
    moreover have "simpleValue env nv rd p = None" using False by (auto simp: simpleValue_def Let_def)
    ultimately show ?thesis using st same by (auto simp: handled_def)
  next
    case True
    then obtain d where d: "displayed ?cx st p = Inr d" "s = Next (if d then simpleStep ?cx st p else st)"
      using step cx simple by (auto simp: parameterStep_def rbind_def split: sum.splits if_splits)
    show ?thesis
    proof (cases d)
      case False
      then show ?thesis using d st same shown by (auto simp: handled_def)
    next
      case True': True
      have none: "map_of (gs_params st) (pr_name p) = None" if "\<not> rd" "\<not> differsFromDefault env p ?v"
        using st props(2) that by (simp add: handled_def simpleValue_def Let_def)
      have lookup: "map_of (gs_params (simpleStep ?cx st p)) k = (if k = pr_name p then simpleValue env nv rd p else map_of (gs_params st) k)" for k
        using simpleStep_lookup [of ?cx p st k] none True unfolding cx differs simpleValue_def Let_def by auto
      have "handled env props nv rd ?shown (insert p S) (gs_params (simpleStep ?cx st p))"
        using st same d(1) True' shown props(2) unfolding handled_def lookup by auto
      then show ?thesis using d(2) True' by simp
    qed
  qed
qed

lemma handled_loop:
  assumes "parameterLoop sub (contextFor env props nv rd node nt full) st ps = Inr v"
    and "distinct (map pr_name props)" "set ps \<subseteq> set props" "\<forall>p \<in> set props. simple p"
    and "handled env props nv rd (\<lambda>p. displayParameter env full (pr_displayOptions p) node nt (Some full) = Inr True) S (gs_params st)"
  shows "\<exists>r. v = JObj r \<and>
    handled env props nv rd (\<lambda>p. displayParameter env full (pr_displayOptions p) node nt (Some full) = Inr True) (S \<union> set ps) r"
  using assms
proof (induction ps arbitrary: st S)
  case (Cons p ps)
  obtain s where s: "parameterStep sub (contextFor env props nv rd node nt full) st p = Inr s"
    using Cons.prems(1) by (auto simp: rbind_def split: sum.splits)
  then obtain st' where st': "s = Next st'" and handled:
    "handled env props nv rd (\<lambda>p. displayParameter env full (pr_displayOptions p) node nt (Some full) = Inr True) (insert p S) (gs_params st')"
    using handled_step [OF s Cons.prems(2) _ _ Cons.prems(5)] Cons.prems(3,4) by auto
  then show ?case using Cons.IH [OF _ Cons.prems(2) _ Cons.prems(4) handled] Cons.prems(1,3) s by simp
qed auto

lemma simple_result:
  assumes "getNodeParameters env props nv rd False node nt = Inr v"
    and "distinct (map pr_name props)" "\<forall>p \<in> set props. simple p"
  shows "\<exists>full r. fullParameters env props nv node nt = Inr full \<and> v = JObj r \<and>
    handled env props nv rd (\<lambda>p. displayParameter env full (pr_displayOptions p) node nt (Some full) = Inr True) (set props) r"
proof -
  let ?sub = "subFor env props rd node nt"
  obtain full where full: "fullParameters env props nv node nt = Inr full"
    and loop: "loopFor ?sub (contextFor env props nv rd node nt full) props = Inr v"
    using assms(1) unfolding getNodeParameters_loop by (auto simp: rbind_def split: sum.splits)
  then obtain order where order: "resolveOrder props = Inr order"
    and run: "parameterLoop ?sub (contextFor env props nv rd node nt full) noState (map (\<lambda>i. props ! i) order) = Inr v"
    by (auto simp: loopFor_def rbind_def split: sum.splits)
  show ?thesis using handled_loop [OF run assms(2) _ assms(3), of "{}"] order_props [OF order] full
    by (auto simp: handled_def noState_def)
qed

text \<open>Each simple parameter that is displayed gets its value, whatever the order of the properties; the others are left out.\<close>

theorem simple_parameters:
  assumes "getNodeParameters env props nv rd False node nt = Inr v"
    and "distinct (map pr_name props)" "\<forall>p \<in> set props. simple p"
  shows "\<exists>full r. fullParameters env props nv node nt = Inr full \<and> v = JObj r \<and> (\<forall>p \<in> set props. map_of r (pr_name p) =
    (if displayParameter env full (pr_displayOptions p) node nt (Some full) = Inr True then simpleValue env nv rd p else None))"
  using simple_result [OF assms] by (auto simp: handled_def)

section \<open>Nothing hidden is returned\<close>

text \<open>A simple parameter whose name no other property has.\<close>

definition single :: "nodeProperty list \<Rightarrow> nodeProperty \<Rightarrow> bool" where
  "single props p \<longleftrightarrow> simple p \<and> p \<in> set props \<and> count_list (map pr_name props) (pr_name p) = 1"

lemma duplicateNames_count:
  "n \<in> set (duplicateNames seen ds names) \<Longrightarrow> n \<in> set ds \<or> (n \<in> set seen \<and> n \<in> set names) \<or> 1 < count_list names n"
proof (induction names arbitrary: seen ds)
  case (Cons a names)
  let ?ds = "if a \<in> set seen then if a \<in> set ds then ds else ds @ [a] else ds" and ?seen = "if a \<in> set seen then seen else seen @ [a]"
  have "n \<in> set (duplicateNames ?seen ?ds names)" using Cons.prems by (simp split: if_splits)
  from Cons.IH [OF this] show ?case
    using count_list_0_iff [of names n] by (cases "n = a") (auto split: if_splits)
qed simp

lemma single_name:
  assumes "single props p" and "q \<in> set props" and "pr_name q = pr_name p"
  shows "q = p"
proof -
  have "count_list (map pr_name props) (pr_name p) = length (filter (\<lambda>x. pr_name x = pr_name p) props)"
    by (simp add: count_list_eq_length_filter filter_map comp_def eq_commute)
  then have "length (filter (\<lambda>x. pr_name x = pr_name p) props) = 1" using assms(1) by (simp add: single_def)
  then obtain x where "filter (\<lambda>x. pr_name x = pr_name p) props = [x]" by (auto simp: length_Suc_conv)
  then have "{y \<in> set props. pr_name y = pr_name p} = {x}" by (metis list.set(1,2) set_filter)
  moreover have "p \<in> {y \<in> set props. pr_name y = pr_name p}" "q \<in> {y \<in> set props. pr_name y = pr_name p}"
    using assms by (simp_all add: single_def)
  ultimately show ?thesis by (metis singletonD)
qed

text \<open>What the parameters are while the loop runs: each key is the name of a displayed property, and a single one that was
  handled has its value.\<close>

definition loopInv :: "displayEnv \<Rightarrow> nodeProperty list \<Rightarrow> jsval \<Rightarrow> bool \<Rightarrow> (nodeProperty \<Rightarrow> bool) \<Rightarrow> nodeProperty set \<Rightarrow> gnpState \<Rightarrow> bool" where
  "loopInv env props nv rd shown S st \<longleftrightarrow> (\<forall>k \<in> keys_of st. \<exists>p \<in> set props. pr_name p = k \<and> shown p) \<and>
     (\<forall>p. single props p \<longrightarrow> map_of (gs_params st) (pr_name p) = (if p \<in> S \<and> shown p then simpleValue env nv rd p else None))"

lemma single_step:
  assumes step: "parameterStep sub (contextFor env props nv rd node nt full) st p = Inr (Next st')" and p: "single props p"
    and st: "map_of (gs_params st) (pr_name p) = (if b \<and> displayParameter env full (pr_displayOptions p) node nt (Some full) = Inr True
      then simpleValue env nv rd p else None)"
  shows "map_of (gs_params st') (pr_name p) = (if displayParameter env full (pr_displayOptions p) node nt (Some full) = Inr True
      then simpleValue env nv rd p else None)"
proof -
  let ?cx = "contextFor env props nv rd node nt full" and ?v = "prop_of nv (pr_name p)"
  have shown: "displayed ?cx st p = displayParameter env full (pr_displayOptions p) node nt (Some full)"
    by (subst displayed_fixed) (simp_all add: contextFor_def)
  have differs: "differs ?cx p v = differsFromDefault env p v" for v
    by (auto simp: differs_def differsFromDefault_def contextFor_def)
  have "pr_name p \<notin> set (gx_duplicates ?cx)"
    using p duplicateNames_count [of "pr_name p" "[]" "[]" "map pr_name props"] by (auto simp: contextFor_def single_def)
  then have simple: "valueStep sub ?cx st p = Inr (Next (simpleStep ?cx st p))"
    using p by (simp add: valueStep_def simple_def single_def)
  have cx: "gx_values ?cx = nv" "gx_returnDefaults ?cx = rd" "gx_parentType ?cx = []" "\<not> gx_returnNoneDisplayed ?cx"
    by (simp_all add: contextFor_def)
  show ?thesis
  proof (cases "truthy nv \<and> \<not> (?v = JUndefined \<and> \<not> rd)")
    case False
    then have "st' = st" using step cx by (auto simp: parameterStep_def)
    moreover have "simpleValue env nv rd p = None" using False by (auto simp: simpleValue_def Let_def)
    ultimately show ?thesis using st by auto
  next
    case True
    then obtain d where d: "displayed ?cx st p = Inr d" "st' = (if d then simpleStep ?cx st p else st)"
      using step cx simple by (auto simp: parameterStep_def rbind_def split: sum.splits if_splits)
    show ?thesis
    proof (cases d)
      case True': True
      have none: "map_of (gs_params st) (pr_name p) = None" if "\<not> rd" "\<not> differsFromDefault env p ?v"
        using st that by (simp add: simpleValue_def Let_def)
      have "map_of (gs_params (simpleStep ?cx st p)) (pr_name p) = simpleValue env nv rd p"
        using simpleStep_lookup [of ?cx p st "pr_name p"] none True unfolding cx differs simpleValue_def Let_def by auto
      then show ?thesis using d True' shown by simp
    qed (use d st shown in simp)
  qed
qed

lemma loopInv_step:
  assumes step: "parameterStep sub (contextFor env props nv rd node nt full) st p = Inr (Next st')" and p: "p \<in> set props"
    and inv: "loopInv env props nv rd (\<lambda>p. displayParameter env full (pr_displayOptions p) node nt (Some full) = Inr True) S st"
  shows "loopInv env props nv rd (\<lambda>p. displayParameter env full (pr_displayOptions p) node nt (Some full) = Inr True) (insert p S) st'"
proof -
  let ?cx = "contextFor env props nv rd node nt full"
  let ?shown = "\<lambda>p. displayParameter env full (pr_displayOptions p) node nt (Some full) = Inr True"
  have shown: "displayed ?cx st p = displayParameter env full (pr_displayOptions p) node nt (Some full)" "\<not> gx_returnNoneDisplayed ?cx"
    by (subst displayed_fixed) (simp_all add: contextFor_def)
  have keys: "\<forall>k \<in> keys_of st'. \<exists>p \<in> set props. pr_name p = k \<and> ?shown p"
  proof (cases "st' = st")
    case False
    then have "?shown p" "keys_of st' \<subseteq> insert (pr_name p) (keys_of st)" using step_keys [OF step] shown by auto
    then show ?thesis using inv p unfolding loopInv_def by blast
  qed (use inv in \<open>simp add: loopInv_def\<close>)
  have "map_of (gs_params st') (pr_name q) = (if q \<in> insert p S \<and> ?shown q then simpleValue env nv rd q else None)" if q: "single props q" for q
  proof (cases "q = p")
    case True
    have "map_of (gs_params st) (pr_name p) = (if p \<in> S \<and> ?shown p then simpleValue env nv rd p else None)"
      using inv q True by (simp add: loopInv_def)
    then show ?thesis using single_step [OF step q [unfolded True]] True by simp
  next
    case False
    then have "pr_name q \<noteq> pr_name p" using single_name [OF q p] by auto
    then show ?thesis using step_lookup [OF step] inv q False by (auto simp: loopInv_def)
  qed
  then show ?thesis using keys by (simp add: loopInv_def)
qed

text \<open>C20. Only parameters that are displayed, by the rules over the full values, are returned; and a simple one whose name no
  other property has is returned with its value (its given value without the defaults, its value or default with them).
  The one exception is the early end of the loop: without defaults, a displayed fixed collection of single items that
  is given without an item has all given values returned as they are (see \<open>hidden_returned\<close>). This is about the
  parameters of the node itself; what a collection holds comes from the same function, or is given.\<close>

theorem hidden_not_returned:
  assumes "getNodeParameters env props nv rd False node nt = Inr v"
  shows "\<exists>full. fullParameters env props nv node nt = Inr full \<and>
    (v = nv \<and> (\<exists>p \<in> set props. endsEarly nv rd p \<and> displayParameter env full (pr_displayOptions p) node nt (Some full) = Inr True) \<or>
     (\<exists>r. v = JObj r \<and>
       (\<forall>k \<in> fst ` set r. \<exists>p \<in> set props. pr_name p = k \<and> displayParameter env full (pr_displayOptions p) node nt (Some full) = Inr True) \<and>
       (\<forall>p. single props p \<longrightarrow> map_of r (pr_name p) =
          (if displayParameter env full (pr_displayOptions p) node nt (Some full) = Inr True then simpleValue env nv rd p else None))))"
proof -
  let ?sub = "subFor env props rd node nt"
  obtain full where full: "fullParameters env props nv node nt = Inr full"
    and loop: "loopFor ?sub (contextFor env props nv rd node nt full) props = Inr v"
    using assms unfolding getNodeParameters_loop by (auto simp: rbind_def split: sum.splits)
  let ?cx = "contextFor env props nv rd node nt full"
  let ?shown = "\<lambda>p. displayParameter env full (pr_displayOptions p) node nt (Some full) = Inr True"
  obtain order where order: "resolveOrder props = Inr order"
    and run: "parameterLoop ?sub ?cx noState (map (\<lambda>i. props ! i) order) = Inr v"
    using loop by (auto simp: loopFor_def rbind_def split: sum.splits)
  note all = order_props [OF order]
  have "loopInv env props nv rd ?shown {} noState" by (simp add: loopInv_def noState_def keys_of_def)
  from loop_invariant [where I = "loopInv env props nv rd ?shown", OF run this] loopInv_step all
  consider (early) p st where "p \<in> set props" "parameterStep ?sub ?cx st p = Inr (Return v)"
    | (done') st' where "loopInv env props nv rd ?shown (set props) st'" "v = JObj (gs_params st')"
    by (metis (no_types, lifting) sup_bot_left)
  then show ?thesis
  proof cases
    case early
    have "displayed ?cx st p = displayParameter env full (pr_displayOptions p) node nt (Some full)"
      by (subst displayed_fixed) (simp_all add: contextFor_def)
    then show ?thesis using step_return [OF early(2)] early(1) full by (auto simp: contextFor_def)
  next
    case done'
    then show ?thesis using full by (auto simp: loopInv_def keys_of_def single_def)
  qed
qed

section \<open>Leaving out defaults\<close>

lemma no_rules_dependencies:
  "\<forall>p \<in> set ps. p_displayOptions p = None \<Longrightarrow> map_of (foldl addProperty m ps) k =
    (if map_of m k = None \<and> k \<in> p_name ` set ps then Some [] else map_of m k)"
  by (induction ps arbitrary: m) (auto simp: addProperty_def Let_def update_conv')

lemma no_rules_loop:
  "\<forall>n \<in> set names. map_of deps n = Some [] \<Longrightarrow> \<forall>i \<in> set (rs_indexToResolve st). i < length names \<Longrightarrow>
    length (rs_indexToResolve st) < fuel \<Longrightarrow> resolveLoop fuel names deps st = Inr (rs_executionOrder st @ rs_indexToResolve st)"
  by (induction fuel arbitrary: st) (auto simp: Let_def split: list.split)

lemma no_rules_order:
  assumes "\<forall>p \<in> set props. pr_displayOptions p = None"
  shows "resolveOrder props = Inr [0..<length props]"
proof -
  have "\<forall>n \<in> set (map p_name (map ruleNames props)). map_of (getParameterDependencies (map ruleNames props)) n = Some []"
    using assms by (auto simp: getParameterDependencies_def no_rules_dependencies ruleNames_def image_image)
  then show ?thesis unfolding resolveOrder_def getParameterResolveOrder_def Let_def
    by (subst no_rules_loop) (auto simp: resolveStart_def resolve_fuel_def)
qed

lemma no_rules_step:
  "pr_displayOptions p = None \<Longrightarrow> simple p \<Longrightarrow> \<exists>st'. parameterStep sub cx st p = Inr (Next st')"
  by (simp add: parameterStep_def valueStep_def displayed_def displayParameter_def simple_def)

lemma no_rules_parameterLoop:
  "\<forall>p \<in> set ps. pr_displayOptions p = None \<and> simple p \<Longrightarrow> \<exists>v. parameterLoop sub cx st ps = Inr v"
proof (induction ps arbitrary: st)
  case (Cons p ps)
  obtain st' where "parameterStep sub cx st p = Inr (Next st')" using no_rules_step Cons.prems by (meson list.set_intros(1))
  then show ?case using Cons by simp
qed simp

lemma no_rules_loopFor:
  assumes "\<forall>p \<in> set props. pr_displayOptions p = None \<and> simple p"
  shows "\<exists>v. loopFor sub cx props = Inr v"
proof -
  have "resolveOrder props = Inr [0..<length props]" using no_rules_order assms by blast
  moreover have "map (\<lambda>i. props ! i) [0..<length props] = props" by (rule map_nth)
  ultimately show ?thesis using no_rules_parameterLoop [OF assms] by (simp add: loopFor_def)
qed

lemma no_rules_result:
  assumes "\<forall>p \<in> set props. pr_displayOptions p = None \<and> simple p" and "distinct (map pr_name props)"
  shows "\<exists>r. getNodeParameters env props nv rd False node nt = Inr (JObj r) \<and> handled env props nv rd (\<lambda>p. True) (set props) r"
proof -
  let ?sub = "subFor env props rd node nt"
  obtain full where full: "fullParameters env props nv node nt = Inr full"
    unfolding fullParameters_loop [of env props nv node nt ?sub] using no_rules_loopFor [OF assms(1)] by metis
  obtain v where v: "loopFor ?sub (contextFor env props nv rd node nt full) props = Inr v" using no_rules_loopFor [OF assms(1)] by metis
  have res: "getNodeParameters env props nv rd False node nt = Inr v" using getNodeParameters_loop full v by simp
  obtain full' r where "v = JObj r"
    "handled env props nv rd (\<lambda>p. displayParameter env full' (pr_displayOptions p) node nt (Some full') = Inr True) (set props) r"
    using simple_result [OF res assms(2)] assms(1) by blast
  then show ?thesis using res assms(1) by (auto simp: handled_def displayParameter_def)
qed

text \<open>Simple parameters do not descend.\<close>

lemma simple_loop_sub: "\<forall>p \<in> set ps. simple p \<Longrightarrow> parameterLoop sub cx st ps = parameterLoop sub' cx st ps"
proof (induction ps arbitrary: st)
  case (Cons p ps)
  then have "valueStep sub cx st p = valueStep sub' cx st p" by (simp add: valueStep_def simple_def)
  then have "parameterStep sub cx st p = parameterStep sub' cx st p" by (simp only: parameterStep_def)
  then show ?case using Cons by (simp cong: gnpStep.case_cong)
qed simp

lemma simple_sub: "\<forall>p \<in> set props. simple p \<Longrightarrow> loopFor sub cx props = loopFor sub' cx props"
  unfolding loopFor_def by (intro rbind_cong refl simple_loop_sub) (use order_props in blast)

lemma strictEq_eq: "typeof v \<noteq> ''object'' \<Longrightarrow> strictEq env v d \<Longrightarrow> v = d"
  by (cases v) auto

lemma restored_value:
  assumes "pr_type p \<noteq> ''resourceLocator''" and "\<And>v. env_isEqual env v (pr_default p) \<Longrightarrow> v = pr_default p"
    and "stored = (case simpleValue env (JObj fs) False p of Some x \<Rightarrow> x | None \<Rightarrow> JUndefined)"
  shows "withDefault p stored = withDefault p (prop_of (JObj fs) (pr_name p))"
proof -
  let ?v = "prop_of (JObj fs) (pr_name p)"
  have default: "withDefault p JUndefined = pr_default p" "withDefault p (pr_default p) = pr_default p"
    using assms(1) by (simp_all add: withDefault_def)
  show ?thesis
  proof (cases "?v \<noteq> JUndefined \<and> differsFromDefault env p ?v")
    case True
    then show ?thesis using assms(3) by (simp add: simpleValue_def Let_def)
  next
    case False
    then have "stored = JUndefined" using assms(3) by (simp add: simpleValue_def Let_def)
    moreover have "?v = JUndefined \<or> ?v = pr_default p"
      using False assms(2) strictEq_eq by (auto simp: differsFromDefault_def split: if_splits)
    ultimately show ?thesis using default by auto
  qed
qed

text \<open>C19. Parameters that are stored without their defaults get them back: filling the defaults into what was stored gives the
  same values as filling them into what was given. This is for properties that no other one can hide: without display
  rules (with rules a parameter can be lost, see \<open>dependent_lost\<close>), with distinct names, none of them a collection or a
  fixed collection, nor a resource locator, whose default gets a mark; and where \<open>isEqual\<close> finds only the default itself
  equal to it.\<close>

theorem defaults_restored:
  assumes "\<forall>p \<in> set props. pr_displayOptions p = None \<and> simple p \<and> pr_type p \<noteq> ''resourceLocator''"
    and "distinct (map pr_name props)"
    and "\<forall>p \<in> set props. \<forall>v. env_isEqual env v (pr_default p) \<longrightarrow> v = pr_default p"
    and "getNodeParameters env props (JObj fs) False False node nt = Inr stored"
  shows "\<exists>r r'. getNodeParameters env props stored True False node nt = Inr (JObj r) \<and>
    getNodeParameters env props (JObj fs) True False node nt = Inr (JObj r') \<and> map_of r = map_of r'"
proof -
  have props: "\<forall>p \<in> set props. pr_displayOptions p = None \<and> simple p" using assms(1) by blast
  note result = no_rules_result [OF props assms(2), of env _ _ node nt]
  obtain r0 where r0: "stored = JObj r0" "handled env props (JObj fs) False (\<lambda>p. True) (set props) r0"
    using result [of "JObj fs" False] assms(4) by auto
  obtain r where r: "getNodeParameters env props stored True False node nt = Inr (JObj r)"
      "handled env props stored True (\<lambda>p. True) (set props) r" using result [of stored True] by auto
  obtain r' where r': "getNodeParameters env props (JObj fs) True False node nt = Inr (JObj r')"
      "handled env props (JObj fs) True (\<lambda>p. True) (set props) r'" using result [of "JObj fs" True] by auto
  have "map_of r k = map_of r' k" for k
  proof (cases "k \<in> pr_name ` set props")
    case True
    then obtain p where p: "p \<in> set props" "k = pr_name p" by auto
    have "prop_of stored k = (case simpleValue env (JObj fs) False p of Some x \<Rightarrow> x | None \<Rightarrow> JUndefined)"
      using r0 p by (simp add: prop_of_def handled_def)
    then have "withDefault p (prop_of stored k) = withDefault p (prop_of (JObj fs) k)"
      unfolding p(2) by (intro restored_value [of p env]) (use assms(1,3) p in auto)
    then have "simpleValue env stored True p = simpleValue env (JObj fs) True p"
      using r0(1) p(2) by (simp add: simpleValue_def)
    then show ?thesis using r(2) r'(2) p by (simp add: handled_def)
  next
    case False
    then show ?thesis using r(2) r'(2) by (simp add: handled_def)
  qed
  then show ?thesis using r(1) r'(1) by auto
qed

section \<open>Examples\<close>

definition textProperty :: "string \<Rightarrow> string \<Rightarrow> IDisplayOptions option \<Rightarrow> nodeProperty" where
  "textProperty name str rules = NodeProperty name ''string'' (JStr str) None False rules None None"

definition shownFor :: "string \<Rightarrow> string \<Rightarrow> IDisplayOptions option" where
  "shownFor name v = Some \<lparr>do_show = Some [(name, Some [Literal (JStr v)])], do_hide = None\<rparr>"

text \<open>A parameter that is hidden is left out even if others depend on its value: with the defaults filled in, these are lost.\<close>

definition dependent :: "nodeProperty list" where
  "dependent = [textProperty ''mode'' ''off'' None, textProperty ''kind'' [] (shownFor ''mode'' ''on''),
     textProperty ''detail'' [] (shownFor ''kind'' ''y'')]"

lemma dependent_full:
  "fullParameters plainDisplayEnv dependent (JObj [(''kind'', JStr ''y''), (''detail'', JStr ''z'')]) None None =
     Inr (JObj [(''mode'', JStr ''off''), (''kind'', JStr ''y''), (''detail'', JStr ''z'')])"
  "fullParameters plainDisplayEnv dependent (JObj [(''detail'', JStr ''z'')]) None None =
     Inr (JObj [(''mode'', JStr ''off''), (''kind'', JStr []), (''detail'', JStr ''z'')])"
  by code_simp+

lemma dependent_sub: "loopFor (subFor env dependent rd node nt) cx dependent = loopFor (\<lambda>_ _ _ _. Inl TypeError) cx dependent"
  by (rule simple_sub) (simp add: dependent_def textProperty_def simple_def)

lemma dependent_lost:
  "getNodeParameters plainDisplayEnv dependent (JObj [(''kind'', JStr ''y''), (''detail'', JStr ''z'')]) False False None None =
     Inr (JObj [(''detail'', JStr ''z'')])"
  "getNodeParameters plainDisplayEnv dependent (JObj [(''detail'', JStr ''z'')]) True False None None =
     Inr (JObj [(''mode'', JStr ''off'')])"
  "getNodeParameters plainDisplayEnv dependent (JObj [(''kind'', JStr ''y''), (''detail'', JStr ''z'')]) True False None None =
     Inr (JObj [(''mode'', JStr ''off''), (''detail'', JStr ''z'')])"
  unfolding getNodeParameters_loop dependent_full rbind_Inr dependent_sub by code_simp+

text \<open>The sign of an expression is only removed from the parameters with defaults.\<close>

lemma expression_kept:
  "getNodeParameters plainDisplayEnv [NodeProperty ''resource'' ''string'' (JStr []) None True None None None]
     (JObj [(''resource'', JStr ''=users'')]) False False None None = Inr (JObj [(''resource'', JStr ''=users'')])"
  "getNodeParameters plainDisplayEnv [NodeProperty ''resource'' ''string'' (JStr []) None True None None None]
     (JObj [(''resource'', JStr ''=users'')]) True False None None = Inr (JObj [(''resource'', JStr ''users'')])"
  by code_simp+

text \<open>A fixed collection without a value whose default has an item: the code looks the item up in the missing value.\<close>

lemma default_item_throws:
  "getNodeParameters plainDisplayEnv [NodeProperty ''options'' ''fixedCollection'' (JObj [(''item'', JObj [])]) None False None None
     (Some [(''item'', [])])] (JObj []) True False None None = Inl TypeError"
  by code_simp

text \<open>An empty fixed collection ends the loop, and the values are returned as they are, with those that are hidden.\<close>

definition hiding :: "nodeProperty list" where
  "hiding = [NodeProperty ''options'' ''fixedCollection'' (JObj []) (Some False) False None None (Some []),
     textProperty ''mode'' ''off'' None, textProperty ''kind'' [] (shownFor ''mode'' ''on'')]"

lemma hiding_full:
  "fullParameters plainDisplayEnv hiding (JObj [(''options'', JObj []), (''kind'', JStr ''y'')]) None None =
     Inr (JObj [(''mode'', JStr ''off''), (''kind'', JStr ''y'')])"
  by code_simp

lemma hiding_loop:
  "loopFor sub (contextFor plainDisplayEnv hiding (JObj [(''options'', JObj []), (''kind'', JStr ''y'')]) False None None
     (JObj [(''mode'', JStr ''off''), (''kind'', JStr ''y'')])) hiding = Inr (JObj [(''options'', JObj []), (''kind'', JStr ''y'')])"
  by code_simp

lemma hidden_returned:
  "getNodeParameters plainDisplayEnv hiding (JObj [(''options'', JObj []), (''kind'', JStr ''y'')]) False False None None =
     Inr (JObj [(''options'', JObj []), (''kind'', JStr ''y'')])"
  unfolding getNodeParameters_loop hiding_full rbind_Inr by (rule hiding_loop)

theorem hidden_not_returned_witness:
  "let full = JObj [(''mode'', JStr ''off''), (''kind'', JStr ''y''), (''detail'', JStr ''z'')] in
    displayParameter plainDisplayEnv full (shownFor ''kind'' ''y'') None None (Some full) = Inr True \<and>
    displayParameter plainDisplayEnv full (shownFor ''mode'' ''on'') None None (Some full) \<noteq> Inr True"
proof -
  let ?nv = "JObj [(''kind'', JStr ''y''), (''detail'', JStr ''z'')]"
  let ?full = "JObj [(''mode'', JStr ''off''), (''kind'', JStr ''y''), (''detail'', JStr ''z'')]"
  let ?kind = "textProperty ''kind'' [] (shownFor ''mode'' ''on'')"
  let ?shown = "\<lambda>p. displayParameter plainDisplayEnv ?full (pr_displayOptions p) None None (Some ?full) = Inr True"
  have early: "\<not> endsEarly ?nv False p" if "p \<in> set dependent" for p
    using that by (auto simp: endsEarly_def dependent_def textProperty_def)
  from hidden_not_returned [OF dependent_lost(1), unfolded dependent_full(1)] early
  have keys: "\<exists>p \<in> set dependent. pr_name p = ''detail'' \<and> ?shown p"
    and single: "single dependent ?kind \<Longrightarrow> None =
      (if ?shown ?kind then simpleValue plainDisplayEnv ?nv False ?kind else None)"
    by (auto simp: textProperty_def)
  have "single dependent ?kind" by (simp add: single_def dependent_def textProperty_def simple_def)
  moreover have "simpleValue plainDisplayEnv ?nv False ?kind \<noteq> None" by code_simp
  ultimately have "\<not> ?shown ?kind" using single by (auto split: if_splits)
  moreover have "?shown (textProperty ''detail'' [] (shownFor ''kind'' ''y''))" using keys by (auto simp: dependent_def textProperty_def)
  ultimately show ?thesis by (simp add: Let_def textProperty_def)
qed

theorem simple_parameters_witness:
  "\<exists>full r. fullParameters plainDisplayEnv dependent (JObj [(''detail'', JStr ''z'')]) None None = Inr full \<and>
    JObj [(''mode'', JStr ''off'')] = JObj r \<and> (\<forall>p \<in> set dependent. map_of r (pr_name p) =
      (if displayParameter plainDisplayEnv full (pr_displayOptions p) None None (Some full) = Inr True
       then simpleValue plainDisplayEnv (JObj [(''detail'', JStr ''z'')]) True p else None))"
  by (rule simple_parameters [OF dependent_lost(2)]) (simp_all add: dependent_def textProperty_def simple_def)

theorem defaults_restored_witness:
  "\<exists>r r'. getNodeParameters plainDisplayEnv [textProperty ''mode'' ''off'' None, textProperty ''kind'' [] None]
      (JObj [(''kind'', JStr ''y'')]) True False None None = Inr (JObj r) \<and>
    getNodeParameters plainDisplayEnv [textProperty ''mode'' ''off'' None, textProperty ''kind'' [] None]
      (JObj [(''kind'', JStr ''y''), (''mode'', JStr ''off'')]) True False None None = Inr (JObj r') \<and> map_of r = map_of r'"
proof (rule defaults_restored)
  show "getNodeParameters plainDisplayEnv [textProperty ''mode'' ''off'' None, textProperty ''kind'' [] None]
      (JObj [(''kind'', JStr ''y''), (''mode'', JStr ''off'')]) False False None None = Inr (JObj [(''kind'', JStr ''y'')])"
    by code_simp
qed (simp_all add: simple_def textProperty_def plainDisplayEnv_def filterEnv.defs displayEnv.defs)

end
