(* ===== verification/Spec2Isabelle.thy ===== *)
theory Spec2Isabelle
  imports EngineRun TaskRunner HistoryCompaction WorkflowRename WorkflowSearch Components ActiveExecutions CircuitBreaker Permissions
    Selection WaitTracker ExpressionParser ActiveWorkflows Webhooks NodeParameters
begin

text \<open>
  A model of the core of n8n: workflow graphs, the engine that executes them, partial executions, the
  control of concurrent executions, the services around it, and permissions. Paths are relative to \<open>src/packages\<close>.

  \<^bold>\<open>The program.\<close> A workflow is a set of nodes with connections between the outputs and inputs of nodes.
  \<open>workflow/src\<close> holds the data types and the class \<open>Workflow\<close>, which follows, searches and renames.
  \<open>core/src/execution-engine\<close> executes a workflow: \<open>WorkflowExecute\<close> keeps a stack of nodes to run with
  their data, the nodes that wait for further inputs, and the runs so far. A partial execution converts
  the workflow to a \<open>DirectedGraph\<close>, cuts out the part between a trigger and a destination, decides from the
  runs of an earlier execution where to start, and recreates the state the engine would have there.
  \<open>cli/src\<close> is the server: it limits how many executions run at once, keeps the active ones, protects calls to
  other services by a circuit breaker, thins out the history of workflows, and brokers the tasks of nodes that
  run user code to task runners. Several main instances elect a leader, which alone runs triggers and pollers and resumes
  waiting executions; requests of webhooks are looked up in a table.
  \<open>@n8n/task-runner\<close> is such a runner. \<open>@n8n/permissions\<close> says who may do what.

  \<^bold>\<open>The theories\<close>, each importing those it uses:
  \<^item> \<open>Prelude\<close>: errors (\<open>js_error + 'a\<close>), loops that may fail (\<open>foldR\<close>), JavaScript maps as association lists
    in insertion order, sets as lists without duplicates, sparse arrays; a generic depth-first search in
    the locale \<open>search_space\<close>, with termination and what it visits proved once.
  \<^item> \<open>WorkflowTypes\<close>: \<open>interfaces.ts\<close>. A node has a number \<open>ref\<close> that stands for the identity of its object.
    An array with holes is a list of \<open>slot\<close>s: a hole, \<open>null\<close> or a value.
  \<^item> \<open>ConnectedNodes\<close>, \<open>WorkflowGraph\<close>, \<open>StartNode\<close>, \<open>WorkflowRename\<close>, \<open>WorkflowSearch\<close>: \<open>common/*.ts\<close> and
    \<open>workflow.ts\<close>. What is returned is shown to be what can be reached, at the right distance, with the
    right indexes; renaming to relabel the graph.
  \<^item> \<open>DirectedGraph\<close>, \<open>Components\<close>: \<open>partial-execution-utils/directed-graph.ts\<close>. Every operation keeps the
    invariant \<open>graph_ok\<close>; removal with reconnection keeps reachability; the export of a graph throws exactly if a
    node has outgoing connections of two types, and can be read back else; reported components are strongly connected, though some are not reported.
  \<^item> \<open>Subgraph\<close>, \<open>RunData\<close>, \<open>ExecutionStack\<close>: the other files of \<open>partial-execution-utils\<close>.
  \<^item> \<open>Engine\<close>: \<open>RunExecutionData\<close> and \<open>addNodeToBeExecuted\<close> of \<open>workflow-execute.ts\<close>. It is shown to refine
    \<open>join_step\<close>, a buffer that collects one datum for each input of a node, while the invariant
    \<open>waiting_ok\<close> of the waiting executions holds (no input is a hole, which those recreated for a partial execution are).
  \<^item> \<open>EngineNode\<close>, \<open>EngineRequests\<close>, \<open>EngineLoop\<close>: running a node, requests of a node to run others
    (\<open>requests-response.ts\<close>), and the loop of \<open>processRunExecutionData\<close> as the step relation \<open>loop_step\<close>.
    What the search for a waiting node does when the stack is empty is stated by \<open>search_result\<close>: if nothing is put on the
    stack, each node that waits has a reason (\<open>cannot_run\<close>), which is stated over the graph and the data: another node that
    waits leads to it, or its type requires an input that has no data, or all inputs.
  \<^item> \<open>EngineFrame\<close>: what no step of the loop changes. Its locale \<open>engine_frame\<close> says of a relation between states
    that the few assignments of the loop keep it, and concludes that every step does. Four relations are
    interpretations: runs of other nodes stay as they are (\<open>apart\<close>), no run is lost (\<open>kept\<close>), execution indexes
    stay below the next one (\<open>indexed\<close>), and the recorded data keep their type (\<open>typed\<close>).
  \<^item> \<open>PartialRun\<close>: the start of full and partial executions, with the trigger of a partial execution, start nodes
    in cycles and rewired tools. A partial execution runs nothing outside the part of the graph that was cut out.
  \<^item> \<open>EngineRun\<close>: the check of a workflow before it runs, resuming a waiting execution, metadata of sub-nodes, and
    how an execution ends: its status and result on every path.
  \<^item> \<open>Concurrency\<close>, \<open>ActiveExecutions\<close>: \<open>cli/src/concurrency\<close> and \<open>active-executions.ts\<close>. The locale
    \<open>admission\<close> says what a queue that admits executions promises, and \<open>admission_removal\<close> what taking an execution out
    of it does; the concurrency queue keeps both. Stopping an execution that waits (\<open>stopInRegularMode\<close> of
    \<open>execution.service.ts\<close>) lets another one start, so that the bound on what is active counts these.
  \<^item> \<open>CircuitBreaker\<close>: \<open>cli/src/utils/circuit-breaker.ts\<close> and \<open>sliding-window.ts\<close>, with calls that overlap
    split into their start and their end.
  \<^item> \<open>TaskBroker\<close>, \<open>TaskRunner\<close>: \<open>task-broker.service.ts\<close> and \<open>task-runner.ts\<close>. Both are state machines whose steps are
    messages, timers and the resumption of suspended calls, in any order. The broker never offers a request to
    two runners at once; a runner keeps within its capacity, and answers each task as often as it should.
  \<^item> \<open>WorkflowDiff\<close>: \<open>workflow-diff.ts\<close> and \<open>connections-diff.ts\<close>, the difference of two versions of a workflow, and
    which versions can be merged into a later one. \<open>HistoryCompaction\<close>: the service and the repository that delete
    such versions. The locale \<open>row_pruning\<close> says what the service needs of the pruning of one workflow: deleted
    versions are kept by others that stay.
  \<^item> \<open>Selection\<close>: \<open>graph-utils.ts\<close>, which selections of nodes can be made a sub-workflow. \<open>ExpressionParser\<close>:
    \<open>expression-parser.ts\<close>, texts split at their expressions and joined again.
  \<^item> \<open>LeaderElection\<close>: \<open>multi-main-setup.ee.ts\<close>. The instances share a key that expires; each has its commands and
    replies under way as queues. One leader while the key lasts; the events tell who is leader, if checks do not overlap.
    \<open>WaitTracker\<close>: \<open>wait-tracker.ts\<close>, and how \<open>commands/start.ts\<close> ties it to the election: it is initialized before the
    handlers of the events are registered, and stopped before the election is left. What it tracks is resumed, except
    after a stepdown; it polls while the instance is leader, unless an event came before the handlers.
  \<^item> \<open>ScheduledTasks\<close>, \<open>ActiveWorkflows\<close>: the crons of workflows and the workflows whose triggers and pollers run. The
    jobs that run are the registered ones; a workflow that was added and removed leaves nothing behind, one whose
    activation fails does.
  \<^item> \<open>Webhooks\<close>: the table of webhooks with its cache, lookups by static and dynamic paths, and conflicts between
    workflows.
  \<^item> \<open>JsValues\<close>: values of JavaScript and their conversions. \<open>TypeValidation\<close>: \<open>type-validation.ts\<close>, values parsed for
    a type; what is valid stays valid. \<open>FilterParameter\<close>: \<open>filter-parameter.ts\<close>, the conditions of filters, which get
    values of their types. \<open>DisplayRules\<close>,
    \<open>ParameterOrder\<close>, \<open>NodeParameters\<close>: the part of \<open>node-helpers.ts\<close> that says which parameters of a node are
    displayed, in which order they are resolved, and which values they have with and without their defaults. What is
    returned is displayed, and defaults that were left out come back, but for some cases that are shown.
  \<^item> \<open>PermissionTables\<close>, \<open>Permissions\<close>: \<open>@n8n/permissions/src\<close>.

  \<^bold>\<open>Errors, loops, parameters.\<close> An exception is \<open>Inl\<close> of an error, so that every \<open>throw\<close>, failed assertion and
  access to a property of \<open>undefined\<close> is a branch. Loops that end are total functions with a measure.
  Those that are bounded by the size of the graph take fuel, and a lemma shows that this much fuel is
  enough; \<open>executionLoop\<close> alone may run for ever, and statements about it are about \<open>loop_step\<close>; the end of an
  execution is stated for a loop that has ended (\<open>loopEnd\<close>). Parameters are: the code of a node and what it
  answers at each call, the node types, the issues of single parameters (\<open>getParameterIssues\<close>), the rewriting of
  expressions, \<open>isEqual\<close> and \<open>get\<close> of lodash, \<open>JSON.parse\<close>, date formats of luxon, regular expressions, letter cases, the data proxy's \<open>$getPairedItem\<close>, the number of outputs of a node, random numbers, the time,
  what the cron library accepts, and what trigger and poll nodes register and answer.
  The search for a path has a unit of fuel for each connection and two more (\<open>path_fuel\<close>), the order of parameters one for
  each round that can come before its limit (\<open>resolve_fuel\<close>), and nested parameters their size.

  \<^bold>\<open>Not modelled\<close>: evaluation of expressions (JavaScript in a sandbox), the contexts that give a node
  its HTTP, file and credential functions, lifecycle hooks, logging and timing, the code of triggers,
  the HTTP side of webhooks, binary data, the database and the REST API, jobs of queue mode, the sandbox of a task runner and the websockets, the
  node packages, the editor, the AI workflow builder. Interleaving inside one call of an asynchronous function is modelled
  where its result depends on it: concurrency control, active executions, the circuit breaker, the task broker,
  the task runner, the leader election and the wait tracker.
\<close>

end
